(* ===== verification/Prelude.thy ===== *)
theory Prelude
  imports Main "HOL-Library.Product_Lexorder" "HOL-Library.Option_ord" "HOL-Library.List_Lexorder" "HOL-Library.Char_ord"
begin

text \<open>
  Vocabulary shared by every component: instants, Python errors, and tables of rows.

  An instant is the number of microseconds since the Unix epoch in UTC, the resolution of
  Python's \<open>datetime\<close>.  A database table is the list of its rows; a Django queryset
  operation is one of the functions below applied to that list.  Python's unbounded
  integers are \<open>int\<close>, a UUID is a natural number (the order of \<open>str(uuid)\<close> is the
  order of the number, because the text has a fixed width).
\<close>

type_synonym instant = int
type_synonym uuid = nat

definition seconds :: "int \<Rightarrow> int" where
  "seconds n = n * 1000000"

lemma seconds_mono [simp]: "seconds a \<le> seconds b \<longleftrightarrow> a \<le> b"
  by (simp add: seconds_def)

lemma seconds_less [simp]: "seconds a < seconds b \<longleftrightarrow> a < b"
  by (simp add: seconds_def)

lemma seconds_pos [simp]: "0 < seconds a \<longleftrightarrow> 0 < a"
  by (simp add: seconds_def)

lemma seconds_nonneg [simp]: "0 \<le> seconds a \<longleftrightarrow> 0 \<le> a"
  by (simp add: seconds_def)

lemma seconds_0 [simp]: "seconds 0 = 0"
  by (simp add: seconds_def)

text \<open>The exceptions the modelled code raises or lets escape.\<close>

datatype py_error =
    DoesNotExist
  | MultipleObjectsReturned
  | IntegrityError
  | ValueError
  | ForbiddenError
  | RuntimeError
  | ConflictError
  | TypeError
  | ConnectionError
  | InvalidStateTransitionError
  | InvalidOccurrenceEvidenceError
  | CapacityObservationConflictError
  | CloseProjectionError
  | ExternalServiceError
  | UnexpectedError string

type_synonym 'a result = "py_error + 'a"

definition and_then :: "'a result \<Rightarrow> ('a \<Rightarrow> 'b result) \<Rightarrow> 'b result" where
  "and_then r f = (case r of Inl e \<Rightarrow> Inl e | Inr x \<Rightarrow> f x)"

lemma and_then_simps [simp]: "and_then (Inl e) f = Inl e" "and_then (Inr x) f = f x"
  by (simp_all add: and_then_def)

lemma and_then_Inr_iff: "and_then r f = Inr y \<longleftrightarrow> (\<exists>x. r = Inr x \<and> f x = Inr y)"
  by (cases r) simp_all

lemma and_then_InrE:
  assumes "and_then r f = Inr y"
  obtains x where "r = Inr x" "f x = Inr y"
  using assms by (auto simp: and_then_Inr_iff)

fun is_ok :: "'e + 'a \<Rightarrow> bool" where
  "is_ok (Inl e) = False"
| "is_ok (Inr x) = True"

named_theorems table_simps \<open>equations of the table operations\<close>

section \<open>Tables\<close>

definition get_row :: "('r \<Rightarrow> 'k) \<Rightarrow> 'k \<Rightarrow> 'r list \<Rightarrow> 'r option" where
  "get_row key k rows = find (\<lambda>r. key r = k) rows"

definition save_row :: "('r \<Rightarrow> 'k) \<Rightarrow> 'r \<Rightarrow> 'r list \<Rightarrow> 'r list" where
  "save_row key x rows = map (\<lambda>r. if key r = key x then x else r) rows"

definition update_rows :: "('r \<Rightarrow> bool) \<Rightarrow> ('r \<Rightarrow> 'r) \<Rightarrow> 'r list \<Rightarrow> 'r list" where
  "update_rows P f rows = map (\<lambda>r. if P r then f r else r) rows"

definition delete_rows :: "('r \<Rightarrow> bool) \<Rightarrow> 'r list \<Rightarrow> 'r list" where
  "delete_rows P rows = filter (\<lambda>r. \<not> P r) rows"

definition count_rows :: "('r \<Rightarrow> bool) \<Rightarrow> 'r list \<Rightarrow> nat" where
  "count_rows P rows = length (filter P rows)"

definition first_row :: "('r \<Rightarrow> bool) \<Rightarrow> 'r list \<Rightarrow> 'r option" where
  "first_row P rows = find P rows"

definition exists_row :: "('r \<Rightarrow> bool) \<Rightarrow> 'r list \<Rightarrow> bool" where
  "exists_row P rows = list_ex P rows"

text \<open>\<open>filter(...).order_by(key).first()\<close>: a stable sort by the key, then the head.\<close>

definition first_by :: "('r \<Rightarrow> 'o::linorder) \<Rightarrow> ('r \<Rightarrow> bool) \<Rightarrow> 'r list \<Rightarrow> 'r option" where
  "first_by key P rows = (case sort_key key (filter P rows) of [] \<Rightarrow> None | r # _ \<Rightarrow> Some r)"

text \<open>
  \<open>get_or_create\<close> on a unique identity: an existing row is returned untouched, otherwise
  the new row is appended.
\<close>

definition get_or_create :: "('r \<Rightarrow> 'k) \<Rightarrow> 'r \<Rightarrow> 'r list \<Rightarrow> 'r list \<times> 'r \<times> bool" where
  "get_or_create ident r rows =
     (case get_row ident (ident r) rows of
        Some r' \<Rightarrow> (rows, r', False)
      | None \<Rightarrow> (rows @ [r], r, True))"

subsection \<open>Reading\<close>

lemma get_row_Some_in: "get_row key k rows = Some r \<Longrightarrow> r \<in> set rows \<and> key r = k"
  by (auto simp: get_row_def find_Some_iff)

lemma get_row_mem: "get_row key k rows = Some r \<Longrightarrow> r \<in> set rows"
  using get_row_Some_in [of key k rows r] by blast

lemma get_row_key: "get_row key k rows = Some r \<Longrightarrow> key r = k"
  using get_row_Some_in [of key k rows r] by blast

lemma get_row_None: "get_row key k rows = None \<longleftrightarrow> (\<forall>r \<in> set rows. key r \<noteq> k)"
  unfolding get_row_def find_None_iff by blast

lemma get_row_distinct:
  "distinct (map key rows) \<Longrightarrow> r \<in> set rows \<Longrightarrow> get_row key (key r) rows = Some r"
proof (induction rows)
  case Nil
  then show ?case by simp
next
  case (Cons q rows)
  show ?case
  proof (cases "key q = key r")
    case True
    with Cons.prems have "q = r" by (metis distinct_map inj_onD list.set_intros(1))
    then show ?thesis by (simp add: get_row_def)
  next
    case False
    with Cons show ?thesis by (auto simp: get_row_def)
  qed
qed

lemma get_row_append:
  "get_row key k (xs @ ys) = (case get_row key k xs of Some r \<Rightarrow> Some r | None \<Rightarrow> get_row key k ys)"
  by (induction xs) (auto simp: get_row_def)

lemma get_row_Nil [simp]: "get_row key k [] = None"
  by (simp add: get_row_def)

lemma get_row_Cons: "get_row key k (r # rows) = (if key r = k then Some r else get_row key k rows)"
  by (simp add: get_row_def)

lemma first_row_Some: "first_row P rows = Some r \<Longrightarrow> r \<in> set rows \<and> P r"
  by (auto simp: first_row_def find_Some_iff)

lemma first_row_None: "first_row P rows = None \<longleftrightarrow> (\<forall>r \<in> set rows. \<not> P r)"
  by (auto simp: first_row_def find_None_iff)

lemma exists_row_iff [simp]: "exists_row P rows \<longleftrightarrow> (\<exists>r \<in> set rows. P r)"
  by (simp add: exists_row_def list_ex_iff)

lemma first_by_Some: "first_by key P rows = Some r \<Longrightarrow> r \<in> set rows \<and> P r"
proof -
  assume "first_by key P rows = Some r"
  then obtain rs where "sort_key key (filter P rows) = r # rs"
    by (auto simp: first_by_def split: list.splits)
  then have "r \<in> set (sort_key key (filter P rows))" by simp
  then show ?thesis by simp
qed

lemma first_by_None: "first_by key P rows = None \<longleftrightarrow> (\<forall>r \<in> set rows. \<not> P r)"
proof -
  have "first_by key P rows = None \<longleftrightarrow> sort_key key (filter P rows) = []"
    by (auto simp: first_by_def split: list.splits)
  also have "\<dots> \<longleftrightarrow> set (sort_key key (filter P rows)) = {}" by (simp only: set_empty)
  also have "\<dots> \<longleftrightarrow> (\<forall>r \<in> set rows. \<not> P r)" by auto
  finally show ?thesis .
qed

lemma first_by_least:
  assumes "first_by key P rows = Some r" and "q \<in> set rows" and "P q"
  shows "key r \<le> key q"
proof -
  from assms(1) obtain rs where rs: "sort_key key (filter P rows) = r # rs"
    by (auto simp: first_by_def split: list.splits)
  have "sorted (map key (r # rs))" using sorted_sort_key [of key "filter P rows"] by (simp add: rs)
  moreover have "q \<in> set (sort_key key (filter P rows))" using assms(2,3) by simp
  then have "q \<in> set (r # rs)" by (simp only: rs)
  ultimately show ?thesis by (cases "q = r") simp_all
qed

subsection \<open>Writing\<close>

lemma length_save_row [simp]: "length (save_row key x rows) = length rows"
  by (simp add: save_row_def)

lemma map_key_save_row [simp]: "map key (save_row key x rows) = map key rows"
  by (simp add: save_row_def)

lemma set_save_row: "set (save_row key x rows) \<subseteq> insert x (set rows)"
  by (auto simp: save_row_def)

lemma in_save_row: "r \<in> set (save_row key x rows) \<Longrightarrow> r = x \<or> (r \<in> set rows \<and> key r \<noteq> key x)"
  by (auto simp: save_row_def)

lemma get_row_save_row:
  "get_row key k (save_row key x rows) =
     (if k = key x then (case get_row key k rows of None \<Rightarrow> None | Some _ \<Rightarrow> Some x)
      else get_row key k rows)"
proof (induction rows)
  case Nil
  then show ?case by (simp add: save_row_def)
next
  case (Cons q rows)
  then show ?case by (cases "k = key x") (simp_all add: save_row_def get_row_def split: option.splits)
qed

lemma get_row_save_row_same [simp]:
  "get_row key (key x) rows = Some y \<Longrightarrow> get_row key (key x) (save_row key x rows) = Some x"
  by (simp add: get_row_save_row)

lemma get_row_save_row_other [simp]:
  "k \<noteq> key x \<Longrightarrow> get_row key k (save_row key x rows) = get_row key k rows"
  by (simp add: get_row_save_row)

lemma length_update_rows [simp]: "length (update_rows P f rows) = length rows"
  by (simp add: update_rows_def)

lemma map_update_rows [simp]:
  "(\<And>r. g (f r) = g r) \<Longrightarrow> map g (update_rows P f rows) = map g rows"
  by (simp add: update_rows_def)

lemma in_update_rows:
  "r \<in> set (update_rows P f rows) \<Longrightarrow> (\<exists>q \<in> set rows. r = (if P q then f q else q))"
  by (auto simp: update_rows_def)

lemma set_delete_rows [simp]: "set (delete_rows P rows) = {r \<in> set rows. \<not> P r}"
  by (auto simp: delete_rows_def)

lemma distinct_map_delete_rows: "distinct (map g rows) \<Longrightarrow> distinct (map g (delete_rows P rows))"
  by (simp add: delete_rows_def distinct_map_filter)

lemma get_row_delete_rows_other:
  "(\<And>r. r \<in> set rows \<Longrightarrow> key r = k \<Longrightarrow> \<not> P r) \<Longrightarrow> get_row key k (delete_rows P rows) = get_row key k rows"
  by (induction rows) (auto simp: delete_rows_def get_row_def)

lemma get_row_update_rows:
  assumes "\<And>r. key (f r) = key r"
  shows "get_row key k (update_rows P f rows) =
    map_option (\<lambda>r. if P r then f r else r) (get_row key k rows)"
  using assms by (induction rows) (auto simp: update_rows_def get_row_def)

subsection \<open>Creating\<close>

lemma get_or_create_ident: "get_or_create ident r rows = (rows', r', c) \<Longrightarrow> ident r' = ident r"
  by (auto simp: get_or_create_def split: option.splits dest: get_row_key)

lemma get_or_create_present:
  "get_or_create ident r rows = (rows', r', c) \<Longrightarrow> r' \<in> set rows'"
  by (auto simp: get_or_create_def split: option.splits dest: get_row_mem)

lemma get_or_create_distinct:
  "distinct (map ident rows) \<Longrightarrow> distinct (map ident (fst (get_or_create ident r rows)))"
  by (auto simp: get_or_create_def get_row_None split: option.splits)

lemma get_or_create_again:
  assumes "distinct (map ident rows)" and "get_or_create ident r rows = (rows', r', c)"
    and "ident q = ident r"
  shows "get_or_create ident q rows' = (rows', r', False)"
proof -
  have "distinct (map ident rows')" using get_or_create_distinct [OF assms(1), of r] assms(2) by simp
  moreover have "r' \<in> set rows'" "ident r' = ident q"
    using get_or_create_present [OF assms(2)] get_or_create_ident [OF assms(2)] assms(3) by simp_all
  ultimately have "get_row ident (ident q) rows' = Some r'" using get_row_distinct by metis
  then show ?thesis by (simp add: get_or_create_def)
qed

subsection \<open>Sums over rows\<close>

lemma count_rows_append [simp]: "count_rows P (xs @ ys) = count_rows P xs + count_rows P ys"
  by (simp add: count_rows_def)

lemma count_rows_Cons [simp]: "count_rows P (x # xs) = (if P x then Suc (count_rows P xs) else count_rows P xs)"
  by (simp add: count_rows_def)

lemma count_rows_Nil [simp]: "count_rows P [] = 0"
  by (simp add: count_rows_def)

lemma count_rows_0: "count_rows P rows = 0 \<longleftrightarrow> (\<forall>r \<in> set rows. \<not> P r)"
  by (auto simp: count_rows_def filter_empty_conv)

lemma count_rows_cong: "(\<And>r. r \<in> set rows \<Longrightarrow> P r = Q r) \<Longrightarrow> count_rows P rows = count_rows Q rows"
  by (simp add: count_rows_def cong: filter_cong)

end
