(* ===== verification/Circuit_Breaker.thy ===== *)
theory Circuit_Breaker
  imports Prelude
begin

text \<open>
  The circuit breaker of \<open>common/circuit_breaker.py\<close>.  One call is a function of the
  breaker, the two monotonic clock readings the code takes (when the state is inspected and
  when a failure is recorded) and what the protected function does.
\<close>

datatype circuit_state = CLOSED | OPEN | HALF_OPEN

record breaker =
  failure_threshold :: int
  recovery_timeout :: instant
  half_open_max_calls :: int
  cb_state :: circuit_state
  failure_count :: int
  last_failure_time :: "instant option"
  half_open_calls :: int

definition breaker_init :: "int \<Rightarrow> instant \<Rightarrow> int \<Rightarrow> breaker" where
  "breaker_init threshold timeout max_calls =
     \<lparr>failure_threshold = threshold, recovery_timeout = timeout, half_open_max_calls = max_calls,
      cb_state = CLOSED, failure_count = 0, last_failure_time = None, half_open_calls = 0\<rparr>"

text \<open>The \<open>state\<close> property moves OPEN to HALF_OPEN once the timeout has elapsed.\<close>

definition observe_state :: "instant \<Rightarrow> breaker \<Rightarrow> breaker" where
  "observe_state now b =
     (if cb_state b = OPEN then
        (case last_failure_time b of
           Some t \<Rightarrow> (if now - t \<ge> recovery_timeout b
                      then b\<lparr>cb_state := HALF_OPEN, half_open_calls := 0\<rparr> else b)
         | None \<Rightarrow> b)
      else b)"

definition on_success :: "breaker \<Rightarrow> breaker" where
  "on_success b = b\<lparr>failure_count := 0, cb_state := CLOSED\<rparr>"

definition on_failure :: "instant \<Rightarrow> breaker \<Rightarrow> breaker" where
  "on_failure now b =
     (let n = failure_count b + 1;
          b' = b\<lparr>failure_count := n, last_failure_time := Some now\<rparr>
      in if n \<ge> failure_threshold b then b'\<lparr>cb_state := OPEN\<rparr> else b')"

datatype ('a, 'e) behaviour = Returns 'a | RaisesExcluded 'e | Raises 'e

datatype ('a, 'e) call_result = Value 'a | Raised 'e | CircuitOpenError

text \<open>What happens once the call is admitted: the \<open>try\<close> statement.\<close>

definition run_protected :: "instant \<Rightarrow> ('a, 'e) behaviour \<Rightarrow> breaker \<Rightarrow> breaker \<times> ('a, 'e) call_result" where
  "run_protected fail_at f b =
     (case f of
        Returns a \<Rightarrow> (on_success b, Value a)
      | RaisesExcluded e \<Rightarrow> (b, Raised e)
      | Raises e \<Rightarrow> (on_failure fail_at b, Raised e))"

definition call :: "instant \<Rightarrow> instant \<Rightarrow> ('a, 'e) behaviour \<Rightarrow> breaker \<Rightarrow> breaker \<times> ('a, 'e) call_result" where
  "call now fail_at f b0 =
     (let b = observe_state now b0
      in case cb_state b of
           OPEN \<Rightarrow> (b, CircuitOpenError)
         | HALF_OPEN \<Rightarrow>
             (if half_open_calls b \<ge> half_open_max_calls b then (b, CircuitOpenError)
              else run_protected fail_at f (b\<lparr>half_open_calls := half_open_calls b + 1\<rparr>))
         | CLOSED \<Rightarrow> run_protected fail_at f b)"

lemmas breaker_defs = observe_state_def on_success_def on_failure_def run_protected_def call_def Let_def

text \<open>
  A history of calls: clock reading, failure clock and behaviour of each.  The asynchronous
  entry point \<open>async_call\<close> has the same body as \<open>call\<close>.
\<close>

fun calls :: "(instant \<times> instant \<times> ('a, 'e) behaviour) list \<Rightarrow> breaker \<Rightarrow> breaker \<times> ('a, 'e) call_result list" where
  "calls [] b = (b, [])"
| "calls ((now, fail_at, f) # cs) b =
     (let (b1, r) = call now fail_at f b; (b2, rs) = calls cs b1 in (b2, r # rs))"

section \<open>Invariant\<close>

text \<open>
  The configuration never changes, counts never go negative, and a breaker that is not
  closed has counted a full threshold of failures and remembers when the last one was.
\<close>

definition breaker_inv :: "breaker \<Rightarrow> bool" where
  "breaker_inv b \<longleftrightarrow>
     0 \<le> failure_count b \<and> 0 \<le> half_open_calls b \<and>
     (cb_state b = CLOSED \<longrightarrow> failure_count b < failure_threshold b) \<and>
     (cb_state b \<noteq> CLOSED \<longrightarrow> failure_count b \<ge> failure_threshold b \<and> last_failure_time b \<noteq> None)"

lemma breaker_inv_init: "0 < threshold \<Longrightarrow> breaker_inv (breaker_init threshold timeout m)"
  by (simp add: breaker_inv_def breaker_init_def)

lemma observe_state_inv: "breaker_inv b \<Longrightarrow> breaker_inv (observe_state now b)"
  by (auto simp: breaker_inv_def observe_state_def split: option.splits)

lemma run_protected_inv:
  "breaker_inv b \<Longrightarrow> 0 < failure_threshold b \<Longrightarrow> breaker_inv (fst (run_protected t f b))"
  by (auto simp: breaker_inv_def breaker_defs split: behaviour.splits)

lemma observe_state_config [simp]:
  "failure_threshold (observe_state now b) = failure_threshold b"
  "recovery_timeout (observe_state now b) = recovery_timeout b"
  "half_open_max_calls (observe_state now b) = half_open_max_calls b"
  "failure_count (observe_state now b) = failure_count b"
  "last_failure_time (observe_state now b) = last_failure_time b"
  by (auto simp: observe_state_def split: option.splits)

lemma run_protected_config [simp]:
  "failure_threshold (fst (run_protected t f b)) = failure_threshold b"
  "recovery_timeout (fst (run_protected t f b)) = recovery_timeout b"
  "half_open_max_calls (fst (run_protected t f b)) = half_open_max_calls b"
  by (auto simp: breaker_defs split: behaviour.splits)

lemma call_config [simp]:
  "failure_threshold (fst (call now t f b)) = failure_threshold b"
  "recovery_timeout (fst (call now t f b)) = recovery_timeout b"
  "half_open_max_calls (fst (call now t f b)) = half_open_max_calls b"
  by (auto simp: call_def Let_def split: circuit_state.splits)

lemma half_open_calls_inv: "breaker_inv b \<Longrightarrow> breaker_inv (b\<lparr>half_open_calls := half_open_calls b + 1\<rparr>)"
  by (auto simp: breaker_inv_def)

lemma call_inv:
  assumes "breaker_inv b" and "0 < failure_threshold b"
  shows "breaker_inv (fst (call now t f b))"
  using assms observe_state_inv [OF assms(1), of now]
    half_open_calls_inv [OF observe_state_inv [OF assms(1), of now]]
  by (auto simp: call_def Let_def intro!: run_protected_inv split: circuit_state.splits)

lemma calls_inv:
  "breaker_inv b \<Longrightarrow> 0 < failure_threshold b \<Longrightarrow>
   breaker_inv (fst (calls cs b)) \<and> failure_threshold (fst (calls cs b)) = failure_threshold b"
proof (induction cs arbitrary: b)
  case Nil
  then show ?case by simp
next
  case (Cons c cs)
  obtain now t f where c: "c = (now, t, f)" by (cases c) auto
  from Cons.prems have "breaker_inv (fst (call now t f b))" by (rule call_inv)
  then show ?case
    using Cons.IH [of "fst (call now t f b)"] Cons.prems(2)
    by (simp add: c case_prod_beta Let_def)
qed

section \<open>Properties\<close>

text \<open>Whatever the history of calls, the breaker keeps its invariant: a breaker that is
  open or half open has counted at least \<open>failure_threshold\<close> failures since the last success
  and remembers the time of the last one, and a closed breaker is below the threshold.\<close>

theorem breaker_history_inv:
  assumes "0 < threshold"
  shows "breaker_inv (fst (calls cs (breaker_init threshold timeout m)))"
  using calls_inv [OF breaker_inv_init [OF assms, of timeout m], of cs] assms
  by (simp add: breaker_init_def)

theorem breaker_history_inv_witness:
  "(0::int) < 2 \<and>
   breaker_inv (fst (calls [(0, 1, Raises ()), (2, 3, Raises () :: (unit, unit) behaviour)] (breaker_init 2 60 1)))"
  using breaker_history_inv [of 2 "[(0, 1, Raises ()), (2, 3, Raises () :: (unit, unit) behaviour)]" 60 1] by simp

text \<open>An open breaker shields the provider: until \<open>recovery_timeout\<close> has passed since
  the last failure every call is refused without running the protected function, and the
  breaker is left exactly as it was.\<close>

theorem open_breaker_refuses:
  assumes "cb_state b = OPEN" and "last_failure_time b = Some t0" and "now - t0 < recovery_timeout b"
  shows "call now t f b = (b, CircuitOpenError)"
  using assms by (simp add: call_def observe_state_def)

theorem open_breaker_refuses_witness:
  "let b = (breaker_init 1 60 1)\<lparr>cb_state := OPEN, failure_count := 1, last_failure_time := Some 10\<rparr>
   in call 20 21 (Returns () :: (unit, unit) behaviour) b = (b, CircuitOpenError)"
  using open_breaker_refuses
    [of "(breaker_init 1 60 1)\<lparr>cb_state := OPEN, failure_count := 1, last_failure_time := Some 10\<rparr>"
      10 20 21 "Returns () :: (unit, unit) behaviour"]
  by (simp add: breaker_init_def)

text \<open>
  The refused state: half open with every probe slot spent.  No call leaves it, because only
  the OPEN state is re-examined against the clock.
\<close>

definition wedged :: "breaker \<Rightarrow> bool" where
  "wedged b \<longleftrightarrow> cb_state b = HALF_OPEN \<and> half_open_calls b \<ge> half_open_max_calls b"

lemma wedged_call: "wedged b \<Longrightarrow> call now t f b = (b, CircuitOpenError)"
  by (simp add: wedged_def call_def observe_state_def)

lemma wedged_calls: "wedged b \<Longrightarrow> calls cs b = (b, map (\<lambda>_. CircuitOpenError) cs)"
  by (induction cs) (auto simp: wedged_call)

lemma excluded_probe_wedges:
  assumes "cb_state b = OPEN" and "last_failure_time b = Some t0"
    and "now - t0 \<ge> recovery_timeout b" and "half_open_max_calls b = 1"
  shows "wedged (fst (call now t (RaisesExcluded e) b))"
  using assms by (simp add: wedged_def call_def observe_state_def run_protected_def)

text \<open>With the default of one probe call, a probe that ends in one of the
  \<open>excluded_exceptions\<close> leaves the breaker half open with its only slot spent: every later
  call, however late, is refused.  The breaker never recovers.\<close>

theorem excluded_probe_never_recovers:
  assumes "cb_state b = OPEN" and "last_failure_time b = Some t0"
    and "now - t0 \<ge> recovery_timeout b" and "half_open_max_calls b = 1"
  shows "snd (calls cs (fst (call now t (RaisesExcluded e) b))) = map (\<lambda>_. CircuitOpenError) cs"
  by (simp add: wedged_calls [OF excluded_probe_wedges [OF assms]])

theorem excluded_probe_never_recovers_witness:
  "snd (calls [(10 ^ 9, 10 ^ 9, Returns ())]
      (fst (call 100 101 (RaisesExcluded ())
        ((breaker_init 1 60 1)\<lparr>cb_state := OPEN, failure_count := 1, last_failure_time := Some 0\<rparr>))))
   = [CircuitOpenError :: (unit, unit) call_result]"
  using excluded_probe_never_recovers
    [of "(breaker_init 1 60 1)\<lparr>cb_state := OPEN, failure_count := 1, last_failure_time := Some 0\<rparr>" 0 100
       "[(10 ^ 9, 10 ^ 9, Returns () :: (unit, unit) behaviour)]" 101 "()"]
  by (simp add: breaker_init_def)

end
