(* ===== verification/Py_Text.thy ===== *)
theory Py_Text
  imports Prelude
begin

text \<open>
  The parts of Python's string handling the model uses: \<open>str.strip\<close>, \<open>int(text)\<close> and
  \<open>str.isdigit\<close>, on ASCII text.
\<close>

definition code_point :: "char \<Rightarrow> nat" where
  "code_point c = of_char c"

definition is_space :: "char \<Rightarrow> bool" where
  "is_space c = (code_point c \<in> {9, 10, 11, 12, 13, 28, 29, 30, 31, 32})"

definition is_digit :: "char \<Rightarrow> bool" where
  "is_digit c = (48 \<le> code_point c \<and> code_point c \<le> 57)"

definition digit_value :: "char \<Rightarrow> int" where
  "digit_value c = int (code_point c) - 48"

definition strip :: "string \<Rightarrow> string" where
  "strip s = rev (dropWhile is_space (rev (dropWhile is_space s)))"

definition isdigit :: "string \<Rightarrow> bool" where
  "isdigit s = (s \<noteq> [] \<and> list_all is_digit s)"

text \<open>
  Decimal digits with single underscores between them.  The flag says whether the previous
  character was a digit.
\<close>

fun scan_digits :: "int \<Rightarrow> bool \<Rightarrow> string \<Rightarrow> int option" where
  "scan_digits acc prev [] = (if prev then Some acc else None)"
| "scan_digits acc prev (c # cs) =
     (if is_digit c then scan_digits (acc * 10 + digit_value c) True cs
      else if c = CHR ''_'' \<and> prev then scan_digits acc False cs
      else None)"

fun signed_digits :: "string \<Rightarrow> int option" where
  "signed_digits [] = None"
| "signed_digits (c # cs) =
     (if c = CHR ''-'' then map_option uminus (scan_digits 0 False cs)
      else if c = CHR ''+'' then scan_digits 0 False cs
      else scan_digits 0 False (c # cs))"

definition py_int :: "string \<Rightarrow> int option" where
  "py_int s = signed_digits (strip s)"

definition truthy :: "string \<Rightarrow> bool" where
  "truthy s = (s \<noteq> [])"

fun opt_truthy :: "string option \<Rightarrow> bool" where
  "opt_truthy None = False"
| "opt_truthy (Some s) = (s \<noteq> [])"

fun opt_text :: "string option \<Rightarrow> string" where
  "opt_text None = []"
| "opt_text (Some s) = s"

text \<open>Joining with a separator, as \<open>sep.join(parts)\<close>.\<close>

fun join :: "string \<Rightarrow> string list \<Rightarrow> string" where
  "join sep [] = []"
| "join sep [x] = x"
| "join sep (x # y # ys) = x @ sep @ join sep (y # ys)"

lemma isdigit_scan: "list_all is_digit s \<Longrightarrow> s \<noteq> [] \<or> prev \<Longrightarrow> \<exists>n. scan_digits acc prev s = Some n"
  by (induction s arbitrary: acc prev) auto

lemma split_at_separator:
  assumes "a @ c # b = a' @ c # b'" and "c \<notin> set a" and "c \<notin> set a'"
  shows "a = a' \<and> b = b'"
  using assms
proof (induction a arbitrary: a')
  case Nil
  then show ?case by (cases a') auto
next
  case (Cons x a)
  then show ?case by (cases a') auto
qed


section \<open>Decimal text\<close>

text \<open>\<open>str(n)\<close> for an integer.\<close>

fun nat_text :: "nat \<Rightarrow> string" where
  "nat_text n = (if n < 10 then [char_of (48 + n)] else nat_text (n div 10) @ [char_of (48 + n mod 10)])"

declare nat_text.simps [simp del]

definition int_text :: "int \<Rightarrow> string" where
  "int_text n = (if n < 0 then CHR ''-'' # nat_text (nat (- n)) else nat_text (nat n))"

lemma code_point_digit: "k < 10 \<Longrightarrow> code_point (char_of (48 + k)) = 48 + k"
  by (simp add: code_point_def)

lemma nat_text_digits: "list_all is_digit (nat_text n) \<and> nat_text n \<noteq> []"
proof (induction n rule: nat_text.induct)
  case (1 n)
  then show ?case
    by (cases "n < 10") (simp_all add: nat_text.simps [of n] is_digit_def code_point_digit)
qed

lemma scan_digits_append:
  "list_all is_digit xs \<Longrightarrow> scan_digits acc prev (xs @ ys) =
     scan_digits (foldl (\<lambda>a c. a * 10 + digit_value c) acc xs) (prev \<or> xs \<noteq> []) ys"
  by (induction xs arbitrary: acc prev) auto

lemma nat_text_value: "foldl (\<lambda>a c. a * 10 + digit_value c) 0 (nat_text n) = int n"
proof (induction n rule: nat_text.induct)
  case (1 n)
  show ?case
  proof (cases "n < 10")
    case True
    then show ?thesis by (simp add: nat_text.simps [of n] digit_value_def code_point_digit)
  next
    case False
    have "int n = int (n div 10) * 10 + int (n mod 10)"
      by (metis div_mult_mod_eq of_nat_add of_nat_mult of_nat_numeral)
    then show ?thesis
      using "1.IH" [OF False] False by (simp add: nat_text.simps [of n] digit_value_def code_point_digit)
  qed
qed

lemma scan_nat_text: "scan_digits 0 prev (nat_text n) = Some (int n)"
  using scan_digits_append [of "nat_text n" 0 prev "[]"] nat_text_digits [of n] nat_text_value [of n] by simp

lemma strip_nonspace:
  assumes "list_all (\<lambda>c. \<not> is_space c) s"
  shows "strip s = s"
proof -
  have keep: "dropWhile is_space xs = xs" if "list_all (\<lambda>c. \<not> is_space c) xs" for xs
    using that by (cases xs) auto
  have "list_all (\<lambda>c. \<not> is_space c) (rev s)" using assms by simp
  then show ?thesis by (simp add: strip_def keep [OF assms] keep)
qed

lemma digit_nonspace: "is_digit c \<Longrightarrow> \<not> is_space c"
  by (auto simp: is_digit_def is_space_def)

lemma digit_no_sign: "is_digit c \<Longrightarrow> c \<noteq> CHR ''-'' \<and> c \<noteq> CHR ''+''"
  by (auto simp: is_digit_def code_point_def)

lemma strip_int_text: "strip (int_text n) = int_text n"
proof (rule strip_nonspace)
  have "list_all (\<lambda>c. \<not> is_space c) (nat_text k)" for k
    using nat_text_digits [of k] digit_nonspace by (auto simp: list_all_iff)
  then show "list_all (\<lambda>c. \<not> is_space c) (int_text n)"
    by (simp add: int_text_def is_space_def code_point_def)
qed

lemma py_int_text: "py_int (int_text n) = Some n"
proof (cases "n < 0")
  case True
  then show ?thesis by (simp add: py_int_def strip_int_text) (simp add: int_text_def scan_nat_text)
next
  case False
  obtain c cs where c: "nat_text (nat n) = c # cs" using nat_text_digits [of "nat n"] by (cases "nat_text (nat n)") auto
  then have "c \<noteq> CHR ''-''" "c \<noteq> CHR ''+''" using nat_text_digits [of "nat n"] digit_no_sign [of c] by auto
  then have "signed_digits (nat_text (nat n)) = scan_digits 0 False (nat_text (nat n))" by (simp add: c)
  then show ?thesis using False by (simp add: py_int_def strip_int_text) (simp add: int_text_def scan_nat_text)
qed

end
