(* ===== verification/Interfaces.thy ===== *)
theory Interfaces
  imports Prelude
begin

text \<open>
  The contracts several components share, as locales.  Each is interpreted on the model's own
  operations in the theory that provides them:
  \<^item> \<open>owned_lease\<close>: a time-bounded lock that only its owner gives back (the lease of
    the availability reconciliation, the cache lock);
  \<^item> \<open>unique_ledger\<close>: an append-only table with \<open>get_or_create\<close> on a unique identity (ticket
    occupancies, conversation events);
  \<^item> \<open>guarded_machine\<close>: a state machine whose steps are checked requests and whose terminal
    states are never left (conversation cycles, conversation instances).
\<close>

section \<open>Leases\<close>

locale owned_lease =
  fixes holder :: "'s \<Rightarrow> instant \<Rightarrow> 'o option"
    and acquire :: "'o \<Rightarrow> instant \<Rightarrow> 's \<Rightarrow> 's option"
    and release :: "'o \<Rightarrow> instant \<Rightarrow> 's \<Rightarrow> 's"
    and lasting :: "'s \<Rightarrow> instant \<Rightarrow> 'o \<Rightarrow> bool"
    and serious :: "'o \<Rightarrow> bool"
    and ttl :: instant
  assumes acquire_held: "acquire p now s = Some s' \<Longrightarrow> serious p \<Longrightarrow> until < now + ttl \<Longrightarrow> lasting s' until p"
    and acquire_refused: "lasting s until p \<Longrightarrow> now \<le> until \<Longrightarrow> q \<noteq> p \<Longrightarrow> acquire q now s = None"
    and acquire_free: "holder s now = None \<Longrightarrow> acquire q now s \<noteq> None"
    and lasting_holder: "lasting s until p \<Longrightarrow> now \<le> until \<Longrightarrow> holder s now = Some p"
    and release_foreign: "lasting s until p \<Longrightarrow> q \<noteq> p \<Longrightarrow> lasting (release q now s) until p"
    and release_own: "holder s now = Some p \<Longrightarrow> holder (release p now s) now = None"
begin

text \<open>
  A schedule of attempts by other parties: \<open>Inl (q, now)\<close> tries to acquire and leaves the
  state alone when refused, \<open>Inr (q, now)\<close> releases.
\<close>

lemma attempt_unchanged:
  "lasting s until p \<Longrightarrow> now \<le> until \<Longrightarrow> q \<noteq> p \<Longrightarrow>
   (case acquire q now s of None \<Rightarrow> s | Some s' \<Rightarrow> s') = s"
  by (simp add: acquire_refused)

lemma lasting_foreign_schedule:
  assumes "lasting s until p"
    and "\<And>q now. Inl (q, now) \<in> set es \<Longrightarrow> q \<noteq> p \<and> now \<le> until"
    and "\<And>q now. Inr (q, now) \<in> set es \<Longrightarrow> q \<noteq> p"
  shows "lasting (fold (\<lambda>e s. case e of
            Inl (q, now) \<Rightarrow> (case acquire q now s of None \<Rightarrow> s | Some s' \<Rightarrow> s')
          | Inr (q, now) \<Rightarrow> release q now s) es s) until p"
  using assms
proof (induction es arbitrary: s)
  case Nil
  then show ?case by simp
next
  case (Cons e es)
  have "lasting (case e of Inl (q, now) \<Rightarrow> (case acquire q now s of None \<Rightarrow> s | Some s' \<Rightarrow> s')
      | Inr (q, now) \<Rightarrow> release q now s) until p"
  proof (cases e)
    case (Inl a)
    then obtain q now where e: "e = Inl (q, now)" by (cases a) simp
    then have "q \<noteq> p" "now \<le> until" using Cons.prems(2) [of q now] by auto
    then show ?thesis using Cons.prems(1) by (simp add: e acquire_refused)
  next
    case (Inr a)
    then obtain q now where e: "e = Inr (q, now)" by (cases a) simp
    then have "q \<noteq> p" using Cons.prems(3) [of q now] by auto
    then show ?thesis using Cons.prems(1) by (simp add: e release_foreign)
  qed
  then show ?case using Cons.prems(2,3) by (auto intro!: Cons.IH)
qed

text \<open>A granted lease excludes every other party until it runs out, whatever they try.\<close>

lemma granted_lease_excludes:
  assumes "acquire p now s = Some s'" and "serious p" and "until < now + ttl"
    and "\<And>q at. Inl (q, at) \<in> set es \<Longrightarrow> q \<noteq> p \<and> at \<le> until" and "\<And>q at. Inr (q, at) \<in> set es \<Longrightarrow> q \<noteq> p"
    and "q \<noteq> p" and "at \<le> until"
  shows "acquire q at (fold (\<lambda>e s. case e of
            Inl (q, at) \<Rightarrow> (case acquire q at s of None \<Rightarrow> s | Some s' \<Rightarrow> s')
          | Inr (q, now) \<Rightarrow> release q now s) es s') = None"
  by (rule acquire_refused [OF lasting_foreign_schedule [OF acquire_held [OF assms(1-3)]]]) (use assms(4-7) in blast)+

lemma at_most_one_holder:
  "lasting s until p \<Longrightarrow> lasting s until' q \<Longrightarrow> p = q"
  using lasting_holder [of s until p "min until until'"] lasting_holder [of s until' q "min until until'"]
  by simp

lemma reacquire_after_release:
  "lasting s until p \<Longrightarrow> now \<le> until \<Longrightarrow> acquire q now (release p now s) \<noteq> None"
  by (rule acquire_free) (rule release_own [OF lasting_holder])

end

section \<open>Ledgers with a unique identity\<close>

locale unique_ledger =
  fixes rows :: "'s \<Rightarrow> 'r list"
    and ident :: "'r \<Rightarrow> 'k"
    and ident_of :: "'q \<Rightarrow> 'k"
    and add :: "'q \<Rightarrow> 's \<Rightarrow> 's \<times> 'r"
  assumes add_known: "distinct (map ident (rows s)) \<Longrightarrow> r \<in> set (rows s) \<Longrightarrow> ident r = ident_of q \<Longrightarrow>
        add q s = (s, r)"
    and add_new: "(\<And>r. r \<in> set (rows s) \<Longrightarrow> ident r \<noteq> ident_of q) \<Longrightarrow>
        ident (snd (add q s)) = ident_of q \<and> rows (fst (add q s)) = rows s @ [snd (add q s)]"
begin

lemma add_cases:
  assumes "distinct (map ident (rows s))"
  obtains (known) r where "r \<in> set (rows s)" "ident r = ident_of q" "add q s = (s, r)"
  | (fresh) "\<And>r. r \<in> set (rows s) \<Longrightarrow> ident r \<noteq> ident_of q"
      "ident (snd (add q s)) = ident_of q" "rows (fst (add q s)) = rows s @ [snd (add q s)]"
  using add_known [OF assms] add_new [of s q] by metis

lemma add_distinct:
  assumes "distinct (map ident (rows s))"
  shows "distinct (map ident (rows (fst (add q s))))"
proof (rule add_cases [OF assms, where q = q])
  fix r
  assume "add q s = (s, r)"
  then show ?thesis using assms by simp
next
  assume new: "\<And>r. r \<in> set (rows s) \<Longrightarrow> ident r \<noteq> ident_of q"
    and added: "ident (snd (add q s)) = ident_of q" "rows (fst (add q s)) = rows s @ [snd (add q s)]"
  have "ident_of q \<notin> ident ` set (rows s)" using new by (metis imageE)
  then show ?thesis using added assms by simp
qed

lemma add_present:
  assumes "distinct (map ident (rows s))"
  shows "ident_of q \<in> ident ` set (rows (fst (add q s)))"
  using assms by (rule add_cases [where q = q]) force+

lemma add_keeps:
  assumes "distinct (map ident (rows s))"
  shows "set (rows s) \<subseteq> set (rows (fst (add q s)))"
  using assms by (rule add_cases [where q = q]) auto

lemma adds_distinct:
  "distinct (map ident (rows s)) \<Longrightarrow> distinct (map ident (rows (fold (\<lambda>q s. fst (add q s)) qs s)))"
  by (induction qs arbitrary: s) (auto intro: add_distinct)

lemma adds_present:
  assumes "distinct (map ident (rows s))"
  shows "set (rows s) \<subseteq> set (rows (fold (\<lambda>q s. fst (add q s)) qs s)) \<and>
    ident_of ` set qs \<subseteq> ident ` set (rows (fold (\<lambda>q s. fst (add q s)) qs s))"
  using assms
proof (induction qs arbitrary: s)
  case Nil
  then show ?case by simp
next
  case (Cons q qs)
  let ?s = "fst (add q s)"
  have d: "distinct (map ident (rows ?s))" by (rule add_distinct [OF Cons.prems])
  show ?case
    using Cons.IH [OF d] add_keeps [OF Cons.prems, of q] add_present [OF Cons.prems, of q] by auto
qed

text \<open>Redelivering identities that are already recorded changes nothing, in any order.\<close>

lemma adds_known:
  assumes "distinct (map ident (rows s))" and "ident_of ` set qs \<subseteq> ident ` set (rows s)"
  shows "fold (\<lambda>q s. fst (add q s)) qs s = s"
  using assms
proof (induction qs)
  case Nil
  then show ?case by simp
next
  case (Cons q qs)
  from Cons.prems(2) obtain r where "r \<in> set (rows s)" "ident r = ident_of q" by auto
  then have "add q s = (s, r)" by (rule add_known [OF Cons.prems(1)])
  then show ?case using Cons by simp
qed

lemma adds_idempotent:
  assumes "distinct (map ident (rows s))" and "set qs' \<subseteq> set qs"
  shows "fold (\<lambda>q s. fst (add q s)) qs' (fold (\<lambda>q s. fst (add q s)) qs s) =
    fold (\<lambda>q s. fst (add q s)) qs s"
proof (rule adds_known)
  show "distinct (map ident (rows (fold (\<lambda>q s. fst (add q s)) qs s)))"
    by (rule adds_distinct [OF assms(1)])
  show "ident_of ` set qs' \<subseteq> ident ` set (rows (fold (\<lambda>q s. fst (add q s)) qs s))"
    using adds_present [OF assms(1), of qs] assms(2) by blast
qed

end

section \<open>Checked state machines\<close>

locale guarded_machine =
  fixes request :: "'i \<Rightarrow> 's \<Rightarrow> 'e + 's"
    and terminal :: "'s \<Rightarrow> bool"
  assumes terminal_refuses: "terminal s \<Longrightarrow> \<exists>e. request i s = Inl e"
begin

text \<open>A refused request raises and leaves the persisted state alone.\<close>

lemma terminal_step: "terminal s \<Longrightarrow> (case request i s of Inl e \<Rightarrow> s | Inr s' \<Rightarrow> s') = s"
  using terminal_refuses [of s i] by auto

lemma terminal_forever:
  "terminal s \<Longrightarrow> fold (\<lambda>i s. case request i s of Inl e \<Rightarrow> s | Inr s' \<Rightarrow> s') is s = s"
  by (induction "is") (simp_all add: terminal_step)

lemma never_leaves_terminal:
  assumes "request i s = Inr s'"
  shows "\<not> terminal s"
  using terminal_refuses [of s i] assms by auto

end

end
