(* ===== verification/Cycle_Contract.thy ===== *)
theory Cycle_Contract
  imports Py_Text Interfaces
begin

text \<open>
  The conversation-cycle contract of \<open>apps/support/conversation_cycle_service.py\<close> over the
  table \<open>support_conversation_cycles\<close>: proven stage-entry timestamps, the external
  identity of a cycle, admission of an occurrence, insertion under the table's unique
  constraints, and the transition relation between cycle states.

  The text form of an instant (\<open>datetime.isoformat\<close>) and SHA-256 are the two functions of
  \<open>cycle_env\<close>.  Human-readable reasons carried by the results are left out.
\<close>

section \<open>States and rows\<close>

datatype cycle_state = Queued | Assigned | Repair_Required | Closed | Cancelled

definition active_cycle_states :: "cycle_state list" where
  "active_cycle_states = [Queued, Assigned, Repair_Required]"

definition terminal_cycle_states :: "cycle_state list" where
  "terminal_cycle_states = [Closed, Cancelled]"

definition is_active_cycle :: "cycle_state \<Rightarrow> bool" where
  "is_active_cycle s = (s \<in> set active_cycle_states)"

definition is_terminal_cycle :: "cycle_state \<Rightarrow> bool" where
  "is_terminal_cycle s = (s \<in> set terminal_cycle_states)"

lemmas cycle_state_class = is_active_cycle_def is_terminal_cycle_def active_cycle_states_def terminal_cycle_states_def


record cycle =
  cy_pk :: uuid
  cy_key :: string
  cy_source_system :: string
  cy_account :: string
  cy_ticket :: string
  cy_entered_at :: "instant option"
  cy_source_event :: string
  cy_state :: cycle_state
  cy_opened_at :: instant
  cy_closed_at :: "instant option"

record cycle_env =
  isoformat :: "instant \<Rightarrow> string"
  sha256_hex :: "string \<Rightarrow> string"
  portal_id :: string

section \<open>Stage-entry timestamps\<close>

datatype stage_value = StageNone | StageInt int | StageText string

datatype cycle_error = InvalidStageTimestampError | CycleIdentityUnavailableError

definition min_stage_entry_ms :: int where
  "min_stage_entry_ms = 946684800000"

definition max_stage_entry_ms :: int where
  "max_stage_entry_ms = 4102444800000"

fun stage_milliseconds :: "stage_value \<Rightarrow> int option" where
  "stage_milliseconds StageNone = None"
| "stage_milliseconds (StageInt n) = Some n"
| "stage_milliseconds (StageText s) = py_int s"

definition parse_stage_entry_timestamp :: "stage_value \<Rightarrow> cycle_error + instant" where
  "parse_stage_entry_timestamp v =
     (case stage_milliseconds v of
        None \<Rightarrow> Inl InvalidStageTimestampError
      | Some ms \<Rightarrow>
          (if min_stage_entry_ms \<le> ms \<and> ms < max_stage_entry_ms then Inr (ms * 1000)
           else Inl InvalidStageTimestampError))"

section \<open>Identity\<close>

record cycle_identity =
  ci_source_system :: string
  ci_account :: string
  ci_ticket :: string
  ci_entered_at :: instant
  ci_key :: string

definition canonical_natural_key :: "cycle_env \<Rightarrow> string \<Rightarrow> string \<Rightarrow> string \<Rightarrow> instant \<Rightarrow> string" where
  "canonical_natural_key env source account ticket entered =
     join ''|'' [source, account, ticket, isoformat env entered]"

definition build_cycle_key :: "cycle_env \<Rightarrow> string \<Rightarrow> string \<Rightarrow> string \<Rightarrow> instant \<Rightarrow> string" where
  "build_cycle_key env source account ticket entered =
     source @ '':v1:'' @ sha256_hex env (canonical_natural_key env source account ticket entered)"

definition build_cycle_identity ::
  "cycle_env \<Rightarrow> string \<Rightarrow> instant \<Rightarrow> string option \<Rightarrow> cycle_error + cycle_identity" where
  "build_cycle_identity env ticket entered account =
     (let acc = strip (if opt_truthy account then opt_text account else portal_id env);
          tid = strip ticket
      in if acc = [] then Inl CycleIdentityUnavailableError
         else if tid = [] then Inl CycleIdentityUnavailableError
         else Inr \<lparr>ci_source_system = ''hubspot'', ci_account = acc, ci_ticket = tid,
                   ci_entered_at = entered,
                   ci_key = build_cycle_key env ''hubspot'' acc tid entered\<rparr>)"

section \<open>Admission\<close>

datatype classification =
  Created | Duplicate | Stale | Active_Conflict | Identity_Unavailable | Admission_Repair_Required

record snapshot =
  sn_key :: string
  sn_entered_at :: "instant option"
  sn_state :: cycle_state

text \<open>
  \<open>any(snapshot.entered_stage_at > identity.entered_stage_at ...)\<close>: the scan stops at the
  first later entry, and comparing a missing entry time raises \<open>TypeError\<close>.
\<close>

fun any_later :: "instant \<Rightarrow> snapshot list \<Rightarrow> bool result" where
  "any_later t [] = Inr False"
| "any_later t (x # xs) =
     (case sn_entered_at x of
        None \<Rightarrow> Inl TypeError
      | Some e \<Rightarrow> (if e > t then Inr True else any_later t xs))"

definition classify_cycle_admission :: "cycle_identity \<Rightarrow> snapshot list \<Rightarrow> classification result" where
  "classify_cycle_admission ident snaps =
     (if list_ex (\<lambda>x. sn_key x = ci_key ident) snaps then Inr Duplicate
      else case any_later (ci_entered_at ident) snaps of
             Inl e \<Rightarrow> Inl e
           | Inr True \<Rightarrow> Inr Stale
           | Inr False \<Rightarrow>
               (let actives = filter (\<lambda>x. is_active_cycle (sn_state x)) snaps
                in if list_ex (\<lambda>x. sn_state x = Repair_Required) actives
                   then Inr Admission_Repair_Required
                   else if actives \<noteq> [] then Inr Active_Conflict
                   else Inr Created))"

definition admit_cycle_occurrence ::
  "cycle_env \<Rightarrow> string \<Rightarrow> stage_value \<Rightarrow> snapshot list \<Rightarrow> string option \<Rightarrow>
   (classification \<times> cycle_identity option) result" where
  "admit_cycle_occurrence env ticket v existing account =
     (case parse_stage_entry_timestamp v of
        Inl _ \<Rightarrow> Inr (Identity_Unavailable, None)
      | Inr t \<Rightarrow>
          (case build_cycle_identity env ticket t account of
             Inl _ \<Rightarrow> Inr (Identity_Unavailable, None)
           | Inr ident \<Rightarrow>
               (case classify_cycle_admission ident existing of
                  Inl e \<Rightarrow> Inl e
                | Inr c \<Rightarrow> Inr (c, Some ident))))"

section \<open>The table and its unique constraints\<close>

text \<open>
  The primary key, \<open>cycle_key\<close> and the natural key of a proven entry are unique, and at most
  one cycle of an account and ticket is active.
\<close>

definition conflicts :: "cycle \<Rightarrow> cycle \<Rightarrow> bool" where
  "conflicts new old \<longleftrightarrow>
     cy_pk old = cy_pk new \<or> cy_key old = cy_key new \<or>
     (cy_source_system old = cy_source_system new \<and> cy_account old = cy_account new \<and>
      cy_ticket old = cy_ticket new \<and> cy_entered_at new \<noteq> None \<and> cy_entered_at old = cy_entered_at new) \<or>
     (cy_account old = cy_account new \<and> cy_ticket old = cy_ticket new \<and>
      is_active_cycle (cy_state old) \<and> is_active_cycle (cy_state new))"

definition insert_cycle :: "cycle \<Rightarrow> cycle list \<Rightarrow> (cycle list) result" where
  "insert_cycle c rows = (if list_ex (conflicts c) rows then Inl IntegrityError else Inr (rows @ [c]))"

fun cycles_consistent :: "cycle list \<Rightarrow> bool" where
  "cycles_consistent [] = True"
| "cycles_consistent (c # cs) = (list_all (\<lambda>d. \<not> conflicts c d \<and> \<not> conflicts d c) cs \<and> cycles_consistent cs)"

definition snapshot_of :: "cycle \<Rightarrow> snapshot" where
  "snapshot_of c = \<lparr>sn_key = cy_key c, sn_entered_at = cy_entered_at c, sn_state = cy_state c\<rparr>"

definition known_cycles :: "cycle_identity \<Rightarrow> cycle list \<Rightarrow> cycle list" where
  "known_cycles ident rows = filter (\<lambda>c. cy_account c = ci_account ident \<and> cy_ticket c = ci_ticket ident) rows"

definition new_cycle :: "uuid \<Rightarrow> cycle_identity \<Rightarrow> string \<Rightarrow> cycle" where
  "new_cycle pk ident event =
     \<lparr>cy_pk = pk, cy_key = ci_key ident, cy_source_system = ci_source_system ident,
      cy_account = ci_account ident, cy_ticket = ci_ticket ident,
      cy_entered_at = Some (ci_entered_at ident), cy_source_event = event, cy_state = Queued,
      cy_opened_at = ci_entered_at ident, cy_closed_at = None\<rparr>"

definition is_natural_key :: "cycle_identity \<Rightarrow> cycle \<Rightarrow> bool" where
  "is_natural_key ident c \<longleftrightarrow>
     cy_source_system c = ci_source_system ident \<and> cy_account c = ci_account ident \<and>
     cy_ticket c = ci_ticket ident \<and> cy_entered_at c = Some (ci_entered_at ident)"

text \<open>\<open>by_key = {row.cycle_key: row ...}\<close>: the last row of a key wins.\<close>

definition last_by_key :: "string \<Rightarrow> cycle list \<Rightarrow> cycle option" where
  "last_by_key k rows = find (\<lambda>c. cy_key c = k) (rev rows)"

record open_result =
  or_classification :: classification
  or_identity :: "cycle_identity option"
  or_cycle :: "cycle option"

text \<open>
  The transaction.  \<open>racing\<close> are the rows that other transactions committed between the
  locked read and the insert (a row lock cannot cover rows that do not exist yet).
\<close>

definition open_identity ::
  "uuid \<Rightarrow> cycle_identity \<Rightarrow> string \<Rightarrow> cycle list \<Rightarrow> cycle list \<Rightarrow> (cycle list \<times> open_result) result" where
  "open_identity pk ident event racing rows =
     (let locked = known_cycles ident rows
      in case classify_cycle_admission ident (map snapshot_of locked) of
           Inl e \<Rightarrow> Inl e
         | Inr c \<Rightarrow>
             (if c \<noteq> Created
              then Inr (rows, \<lparr>or_classification = c, or_identity = Some ident,
                               or_cycle = last_by_key (ci_key ident) locked\<rparr>)
              else
                (let now_rows = rows @ racing; new = new_cycle pk ident event
                 in case insert_cycle new now_rows of
                      Inr rows' \<Rightarrow> Inr (rows', \<lparr>or_classification = Created, or_identity = Some ident,
                                               or_cycle = Some new\<rparr>)
                    | Inl _ \<Rightarrow>
                        (case first_row (is_natural_key ident) now_rows of
                           None \<Rightarrow> Inl DoesNotExist
                         | Some old \<Rightarrow> Inr (now_rows, \<lparr>or_classification = Duplicate,
                                              or_identity = Some ident, or_cycle = Some old\<rparr>)))))"

text \<open>The entry value is a CRM datetime (aware or naive) or a raw webhook value.\<close>

datatype entry_value = AwareDatetime instant | NaiveDatetime instant | RawValue stage_value

fun entry_instant :: "entry_value \<Rightarrow> cycle_error + instant" where
  "entry_instant (AwareDatetime t) = Inr t"
| "entry_instant (NaiveDatetime t) = Inl InvalidStageTimestampError"
| "entry_instant (RawValue v) = parse_stage_entry_timestamp v"

definition open_or_get_cycle ::
  "cycle_env \<Rightarrow> uuid \<Rightarrow> string \<Rightarrow> entry_value \<Rightarrow> string option \<Rightarrow> string option \<Rightarrow>
   cycle list \<Rightarrow> cycle list \<Rightarrow> (cycle list \<times> open_result) result" where
  "open_or_get_cycle env pk ticket v event account racing rows =
     (case entry_instant v of
        Inl _ \<Rightarrow> Inr (rows, \<lparr>or_classification = Identity_Unavailable, or_identity = None, or_cycle = None\<rparr>)
      | Inr t \<Rightarrow>
          (case build_cycle_identity env ticket t account of
             Inl _ \<Rightarrow> Inr (rows, \<lparr>or_classification = Identity_Unavailable, or_identity = None, or_cycle = None\<rparr>)
           | Inr ident \<Rightarrow> open_identity pk ident (opt_text event) racing rows))"

section \<open>Transitions\<close>

definition allowed_transitions :: "(cycle_state \<times> cycle_state) list" where
  "allowed_transitions =
     [(Queued, Assigned), (Queued, Closed), (Queued, Cancelled), (Assigned, Closed),
      (Queued, Repair_Required), (Assigned, Repair_Required)]"

definition reconciliation_targets :: "cycle_state list" where
  "reconciliation_targets = [Queued, Assigned, Closed, Cancelled]"

datatype transition_error = InvalidCycleTransitionError

definition transition_cycle_state ::
  "bool \<Rightarrow> cycle_state \<Rightarrow> cycle_state \<Rightarrow> transition_error + cycle_state" where
  "transition_cycle_state reconciliation current target =
     (if is_terminal_cycle current then Inl InvalidCycleTransitionError
      else if current = Repair_Required then
        (if reconciliation \<and> target \<in> set reconciliation_targets then Inr target
         else Inl InvalidCycleTransitionError)
      else if (current, target) \<in> set allowed_transitions then Inr target
      else Inl InvalidCycleTransitionError)"

lemmas transition_defs = transition_cycle_state_def cycle_state_class allowed_transitions_def reconciliation_targets_def


section \<open>Facts about the single operations\<close>

lemma parse_stage_iff:
  "parse_stage_entry_timestamp v = Inr t \<longleftrightarrow>
     (\<exists>ms. stage_milliseconds v = Some ms \<and> min_stage_entry_ms \<le> ms \<and> ms < max_stage_entry_ms \<and> t = ms * 1000)"
  by (auto simp: parse_stage_entry_timestamp_def split: option.splits if_splits)

lemma any_later_True: "any_later t xs = Inr True \<Longrightarrow> \<exists>x \<in> set xs. \<exists>e. sn_entered_at x = Some e \<and> t < e"
  by (induction xs) (auto split: option.splits if_splits)

lemma any_later_False: "any_later t xs = Inr False \<Longrightarrow> x \<in> set xs \<Longrightarrow> \<exists>e. sn_entered_at x = Some e \<and> e \<le> t"
  by (induction xs) (auto split: option.splits if_splits)

lemma any_later_map_False:
  assumes "any_later t (map snapshot_of cs) = Inr False" and "c \<in> set cs"
  shows "\<exists>e. cy_entered_at c = Some e \<and> e \<le> t"
proof -
  have "snapshot_of c \<in> set (map snapshot_of cs)" using assms(2) by simp
  from any_later_False [OF assms(1) this] show ?thesis by (simp add: snapshot_of_def)
qed

lemma any_later_None:
  "sn_entered_at x = None \<Longrightarrow> any_later t (x # xs) = Inl TypeError"
  by simp

lemma classify_Created:
  "classify_cycle_admission ident snaps = Inr Created \<longleftrightarrow>
     (\<forall>x \<in> set snaps. sn_key x \<noteq> ci_key ident) \<and> any_later (ci_entered_at ident) snaps = Inr False \<and>
     (\<forall>x \<in> set snaps. \<not> is_active_cycle (sn_state x))"
  by (auto simp: classify_cycle_admission_def list_ex_iff filter_empty_conv Let_def
      split: sum.splits bool.splits)

lemma insert_cycle_Inr: "insert_cycle c rows = Inr rows' \<longleftrightarrow> rows' = rows @ [c] \<and> (\<forall>d \<in> set rows. \<not> conflicts c d)"
  by (auto simp: insert_cycle_def list_ex_iff)







text \<open>The whole operation is the identity part followed by the transaction.\<close>

lemma open_or_get_cases:
  assumes "open_or_get_cycle env pk ticket v event account racing rows = Inr (rows', r)"
  obtains (unavailable) "rows' = rows" "or_classification r = Identity_Unavailable" "or_cycle r = None"
  | (identified) t ident where "entry_instant v = Inr t" "build_cycle_identity env ticket t account = Inr ident"
      "open_identity pk ident (opt_text event) racing rows = Inr (rows', r)"
  using assms by (auto simp: open_or_get_cycle_def split: sum.splits)

lemma open_identity_cases:
  assumes "open_identity pk ident event racing rows = Inr (rows', r)"
  obtains (refused) "rows' = rows" "or_classification r \<noteq> Created"
      "or_cycle r = last_by_key (ci_key ident) (known_cycles ident rows)"
      "classify_cycle_admission ident (map snapshot_of (known_cycles ident rows)) = Inr (or_classification r)"
  | (created) "or_classification r = Created" "or_cycle r = Some (new_cycle pk ident event)"
      "insert_cycle (new_cycle pk ident event) (rows @ racing) = Inr rows'"
      "classify_cycle_admission ident (map snapshot_of (known_cycles ident rows)) = Inr Created"
  | (raced) old where "rows' = rows @ racing" "or_classification r = Duplicate" "or_cycle r = Some old"
      "first_row (is_natural_key ident) (rows @ racing) = Some old"
      "classify_cycle_admission ident (map snapshot_of (known_cycles ident rows)) = Inr Created"
      "\<exists>d \<in> set (rows @ racing). conflicts (new_cycle pk ident event) d"
  using assms
  by (auto simp: insert_cycle_def list_ex_iff open_identity_def Let_def split: sum.splits if_splits option.splits)

section \<open>Invariant of the table\<close>








section \<open>Properties\<close>

text \<open>An accepted stage-entry value is a whole number of milliseconds between 2000 and
  2100, kept exactly; a numeric text means the same as the number; and no epoch in seconds of
  that period is ever taken for a cycle identity.\<close>

theorem parse_stage_entry_bounds:
  "(\<forall>t. parse_stage_entry_timestamp v = Inr t \<longrightarrow>
      seconds 946684800 \<le> t \<and> t < seconds 4102444800 \<and> stage_milliseconds v = Some (t div 1000) \<and> t mod 1000 = 0) \<and>
   parse_stage_entry_timestamp (StageText (int_text n)) = parse_stage_entry_timestamp (StageInt n) \<and>
   (0 \<le> n \<and> n < 4102444800 \<longrightarrow>
      parse_stage_entry_timestamp (StageText (int_text n)) = Inl InvalidStageTimestampError)"
  by (auto simp: parse_stage_entry_timestamp_def min_stage_entry_ms_def max_stage_entry_ms_def seconds_def
      py_int_text split: option.splits if_splits)

theorem parse_stage_entry_bounds_witness:
  "parse_stage_entry_timestamp (StageText (int_text 1700000000)) = Inl InvalidStageTimestampError"
  using parse_stage_entry_bounds [of StageNone 1700000000, THEN conjunct2, THEN conjunct2] by simp









definition demo_env :: cycle_env where
  "demo_env = \<lparr>isoformat = (\<lambda>t. if t = 0 then ''0'' else ''T''), sha256_hex = (\<lambda>s. s), portal_id = ''7''\<rparr>"

definition demo_ms :: int where
  "demo_ms = 1700000000000"

lemma demo_open:
  "open_or_get_cycle demo_env 1 ''42'' (RawValue (StageInt demo_ms)) None None [] [] =
     Inr ([new_cycle 1 \<lparr>ci_source_system = ''hubspot'', ci_account = ''7'', ci_ticket = ''42'',
            ci_entered_at = demo_ms * 1000, ci_key = ''hubspot:v1:hubspot|7|42|T''\<rparr> []],
          \<lparr>or_classification = Created,
           or_identity = Some \<lparr>ci_source_system = ''hubspot'', ci_account = ''7'', ci_ticket = ''42'',
            ci_entered_at = demo_ms * 1000, ci_key = ''hubspot:v1:hubspot|7|42|T''\<rparr>,
           or_cycle = Some (new_cycle 1 \<lparr>ci_source_system = ''hubspot'', ci_account = ''7'', ci_ticket = ''42'',
            ci_entered_at = demo_ms * 1000, ci_key = ''hubspot:v1:hubspot|7|42|T''\<rparr> [])\<rparr>)"
  by code_simp


text \<open>Delivering an occurrence again is harmless.  Once an occurrence has opened a cycle,
  opening the same occurrence again (same account, ticket and instant, any delivery
  identifier) classifies as a duplicate, returns that cycle and leaves the table as it is.\<close>

theorem reopening_same_occurrence:
  assumes first: "open_or_get_cycle env pk ticket v event account racing rows = Inr (rows', r)"
    and created: "or_classification r = Created"
    and consistent: "cycles_consistent (rows @ racing)"
    and same: "entry_instant v' = entry_instant v"
  shows "open_or_get_cycle env pk' ticket v' event' account [] rows' =
    Inr (rows', r\<lparr>or_classification := Duplicate\<rparr>)"
  using first
proof (cases rule: open_or_get_cases)
  case unavailable
  then show ?thesis using created by simp
next
  case (identified t ident)
  let ?new = "new_cycle pk ident (opt_text event)"
  from identified(3) created have ins: "insert_cycle ?new (rows @ racing) = Inr rows'"
    and r: "or_cycle r = Some ?new" "or_identity r = Some ident"
    by (auto simp: open_identity_def Let_def split: sum.splits if_splits option.splits)
  have rows': "rows' = (rows @ racing) @ [?new]" using ins by (simp add: insert_cycle_Inr)
  have new: "?new \<in> set (known_cycles ident rows')" by (simp add: rows' known_cycles_def new_cycle_def)
  have dup: "classify_cycle_admission ident (map snapshot_of (known_cycles ident rows')) = Inr Duplicate"
    using new by (auto simp: classify_cycle_admission_def list_ex_iff snapshot_of_def new_cycle_def)
  have "last_by_key (ci_key ident) (known_cycles ident rows') = Some ?new"
    by (simp add: last_by_key_def rows' known_cycles_def new_cycle_def)
  then have "open_identity pk' ident (opt_text event') [] rows' =
      Inr (rows', \<lparr>or_classification = Duplicate, or_identity = Some ident, or_cycle = Some ?new\<rparr>)"
    by (simp add: open_identity_def dup)
  moreover have "r\<lparr>or_classification := Duplicate\<rparr> =
      \<lparr>or_classification = Duplicate, or_identity = Some ident, or_cycle = Some ?new\<rparr>"
    using r by (cases r) simp
  ultimately show ?thesis using identified(1,2) same by (simp add: open_or_get_cycle_def)
qed

theorem reopening_same_occurrence_witness:
  "\<exists>rows' r. open_or_get_cycle demo_env 1 ''42'' (RawValue (StageInt demo_ms)) None None [] [] = Inr (rows', r) \<and>
     open_or_get_cycle demo_env 2 ''42'' (AwareDatetime (demo_ms * 1000)) (Some ''evt-2'') None [] rows' =
       Inr (rows', r\<lparr>or_classification := Duplicate\<rparr>)"
proof -
  have same: "entry_instant (AwareDatetime (demo_ms * 1000)) = entry_instant (RawValue (StageInt demo_ms))"
    by code_simp
  show ?thesis
    using demo_open reopening_same_occurrence [OF demo_open _ _ same, where pk' = 2 and event' = "Some ''evt-2''"]
    by simp
qed

text \<open>An occurrence that is not admitted as new changes nothing: a duplicate, a stale
  occurrence, an active conflict, a pending repair or an unprovable identity leave every
  known cycle as it was.  A stale verdict means a cycle of the ticket with a later entry
  exists; a creation means that none does and that no cycle of the ticket is active.\<close>

theorem admission_is_conservative:
  assumes "open_or_get_cycle env pk ticket v event account [] rows = Inr (rows', r)"
  shows "(or_classification r \<noteq> Created \<longrightarrow> rows' = rows) \<and>
    (\<forall>ident. or_identity r = Some ident \<longrightarrow>
      (or_classification r = Stale \<longrightarrow>
        (\<exists>c \<in> set (known_cycles ident rows). \<exists>e. cy_entered_at c = Some e \<and> ci_entered_at ident < e)) \<and>
      (or_classification r = Created \<longrightarrow>
        (\<forall>c \<in> set (known_cycles ident rows). \<not> is_active_cycle (cy_state c) \<and>
           (\<exists>e. cy_entered_at c = Some e \<and> e \<le> ci_entered_at ident))))"
  using assms
proof (cases rule: open_or_get_cases)
  case unavailable
  then show ?thesis by simp
next
  case (identified t ident)
  from identified(3) have id: "or_identity r = Some ident"
    by (auto simp: open_identity_def Let_def split: sum.splits if_splits option.splits)
  from identified(3) show ?thesis
  proof (cases rule: open_identity_cases)
    case refused
    have "\<exists>c \<in> set (known_cycles ident rows). \<exists>e. cy_entered_at c = Some e \<and> ci_entered_at ident < e"
      if "or_classification r = Stale"
      using refused(4) that any_later_True [of "ci_entered_at ident" "map snapshot_of (known_cycles ident rows)"]
      by (auto simp: classify_cycle_admission_def Let_def snapshot_of_def split: sum.splits bool.splits if_splits)
    with refused id show ?thesis by simp
  next
    case created
    then show ?thesis
      using id by (auto simp: classify_Created snapshot_of_def intro: any_later_map_False)
  next
    case (raced old)
    then show ?thesis using id by simp
  qed
qed

theorem admission_is_conservative_witness:
  "\<exists>rows' r. open_or_get_cycle demo_env 1 ''42'' (RawValue (StageInt demo_ms)) None None [] [] = Inr (rows', r) \<and>
     (or_classification r \<noteq> Created \<longrightarrow> rows' = [])"
  using demo_open admission_is_conservative [OF demo_open] by blast

text \<open>Losing the insertion race to a different occurrence of the same ticket is not an
  \<open>active_conflict\<close> but an escaping \<open>DoesNotExist\<close>: the active-slot constraint rejects the
  insert, and the re-read by natural key finds no row.\<close>

theorem lost_race_to_other_occurrence_raises:
  assumes "entry_instant v = Inr t" and "build_cycle_identity env ticket t account = Inr ident"
    and "classify_cycle_admission ident (map snapshot_of (known_cycles ident rows)) = Inr Created"
    and other: "other \<in> set racing" "cy_account other = ci_account ident" "cy_ticket other = ci_ticket ident"
      "is_active_cycle (cy_state other)"
    and no_row: "\<forall>c \<in> set (rows @ racing). \<not> is_natural_key ident c"
  shows "open_or_get_cycle env pk ticket v event account racing rows = Inl DoesNotExist"
proof -
  have "conflicts (new_cycle pk ident (opt_text event)) other"
    using other by (simp add: conflicts_def new_cycle_def cycle_state_class)
  then have "insert_cycle (new_cycle pk ident (opt_text event)) (rows @ racing) = Inl IntegrityError"
    using other(1) by (auto simp: insert_cycle_def list_ex_iff)
  moreover have "first_row (is_natural_key ident) (rows @ racing) = None"
    using no_row by (simp add: first_row_None)
  ultimately show ?thesis
    using assms(1-3) by (simp add: open_or_get_cycle_def open_identity_def Let_def)
qed

theorem lost_race_to_other_occurrence_raises_witness:
  "open_or_get_cycle demo_env 2 ''42'' (RawValue (StageInt (demo_ms + 1))) None None
     [new_cycle 1 \<lparr>ci_source_system = ''hubspot'', ci_account = ''7'', ci_ticket = ''42'',
        ci_entered_at = demo_ms * 1000, ci_key = ''hubspot:v1:other''\<rparr> []] [] = Inl DoesNotExist"
  by (rule lost_race_to_other_occurrence_raises
       [where t = "(demo_ms + 1) * 1000" and
          ident = "\<lparr>ci_source_system = ''hubspot'', ci_account = ''7'', ci_ticket = ''42'',
            ci_entered_at = (demo_ms + 1) * 1000, ci_key = ''hubspot:v1:hubspot|7|42|T''\<rparr>" and
          other = "new_cycle 1 \<lparr>ci_source_system = ''hubspot'', ci_account = ''7'', ci_ticket = ''42'',
            ci_entered_at = demo_ms * 1000, ci_key = ''hubspot:v1:other''\<rparr> []"]) code_simp+

text \<open>A known cycle without an entry time (the legacy backfill writes such rows) blocks its
  ticket: unless the same occurrence is already recorded or a later cycle is listed before it,
  opening raises \<open>TypeError\<close> instead of classifying.\<close>

theorem missing_entry_time_raises:
  assumes "entry_instant v = Inr t" and "build_cycle_identity env ticket t account = Inr ident"
    and "known_cycles ident rows = c # cs" and "cy_entered_at c = None"
    and "\<forall>d \<in> set (c # cs). cy_key d \<noteq> ci_key ident"
  shows "open_or_get_cycle env pk ticket v event account racing rows = Inl TypeError"
proof -
  have "classify_cycle_admission ident (map snapshot_of (known_cycles ident rows)) = Inl TypeError"
    using assms(3-5) by (auto simp: classify_cycle_admission_def list_ex_iff snapshot_of_def)
  then show ?thesis using assms(1,2) by (simp add: open_or_get_cycle_def open_identity_def)
qed

theorem missing_entry_time_raises_witness:
  "open_or_get_cycle demo_env 2 ''42'' (RawValue (StageInt demo_ms)) None None []
     [\<lparr>cy_pk = 1, cy_key = ''legacy'', cy_source_system = ''hubspot'', cy_account = ''7'', cy_ticket = ''42'',
       cy_entered_at = None, cy_source_event = [], cy_state = Closed, cy_opened_at = 5, cy_closed_at = Some 5\<rparr>]
   = Inl TypeError"
  by (rule missing_entry_time_raises
       [where t = "demo_ms * 1000" and
          ident = "\<lparr>ci_source_system = ''hubspot'', ci_account = ''7'', ci_ticket = ''42'',
            ci_entered_at = demo_ms * 1000, ci_key = ''hubspot:v1:hubspot|7|42|T''\<rparr>" and
          c = "\<lparr>cy_pk = 1, cy_key = ''legacy'', cy_source_system = ''hubspot'', cy_account = ''7'', cy_ticket = ''42'',
            cy_entered_at = None, cy_source_event = [], cy_state = Closed, cy_opened_at = 5, cy_closed_at = Some 5\<rparr>"
          and cs = "[]"]) code_simp+

section \<open>The transition relation as a guarded machine\<close>

interpretation cycle_machine: guarded_machine
  "\<lambda>(reconciliation, target) current. transition_cycle_state reconciliation current target" is_terminal_cycle
  by unfold_locales (auto simp: transition_cycle_state_def)

text \<open>A closed or cancelled cycle stays what it is under every sequence of transition
  requests, reconciling ones included, and repair_required is left only by a request marked
  as a reconciliation.\<close>

theorem terminal_cycles_are_final:
  "(is_terminal_cycle s \<longrightarrow>
     fold (\<lambda>(reconciliation, target) s. case transition_cycle_state reconciliation s target of
             Inl e \<Rightarrow> s | Inr s' \<Rightarrow> s') requests s = s) \<and>
   (\<forall>target. transition_cycle_state False Repair_Required target = Inl InvalidCycleTransitionError)"
proof -
  have "fold (\<lambda>(reconciliation, target) s. case transition_cycle_state reconciliation s target of
             Inl e \<Rightarrow> s | Inr s' \<Rightarrow> s') requests s = s" if "is_terminal_cycle s"
    using cycle_machine.terminal_forever [OF that, of requests] by (simp add: case_prod_beta')
  then show ?thesis by (simp add: transition_defs)
qed

theorem terminal_cycles_are_final_witness:
  "fold (\<lambda>(reconciliation, target) s. case transition_cycle_state reconciliation s target of
             Inl e \<Rightarrow> s | Inr s' \<Rightarrow> s') [(True, Queued), (False, Assigned)] Closed = Closed"
  using terminal_cycles_are_final [of Closed "[(True, Queued), (False, Assigned)]"]
  by (simp add: cycle_state_class)

end
