(* ===== verification/Runtime.thy ===== *)
theory Runtime
  imports Cycle_Contract
begin

text \<open>
  The settings the support services read, and the capability guards of
  \<open>apps/support/availability_runtime.py\<close>: which deployment may write routing state, which
  agents a canary restricts the automatic assignment to, and the gate of an owner mutation.
  Environment variables and Django settings are fields of one record.
\<close>

section \<open>Settings\<close>

datatype capacity_mode = Capacity_Off | Capacity_Shadow | Capacity_Enforce

datatype barrier_mode = Barrier_Off | Barrier_Shadow | Barrier_Enforce

datatype contract_mode = Contract_Off | Contract_Shadow | Contract_Enforce

record runtime_env =
  rt_django_env :: "string option"
  rt_railway_env :: "string option"
  rt_project :: "string option"
  rt_service :: "string option"
  rt_deployment :: "string option"
  rt_replica :: "string option"
  rt_authority :: string

record settings =
  capacity_mode_of :: capacity_mode
  absence_safe_enforced :: bool
  absence_safe_shadow :: bool
  auto_assignment_enabled :: bool
  canary_values :: "string list"
  runtime :: runtime_env
  availability_freshness_seconds :: int
  availability_stable_seconds :: int
  availability_required_samples :: int
  availability_lease_ttl_seconds :: int
  sat_heartbeat_interval_seconds :: int
  sat_off_hours_refresh_seconds :: int
  capacity_freshness_seconds :: int
  capacity_max_scan_tickets :: int
  assignment_claim_ttl_seconds :: int
  assignment_stuck_after_seconds :: int
  assignment_retention_days :: int
  opening_barrier_mode :: barrier_mode
  provider_contract_mode :: contract_mode
  cycles_enforced :: bool
  support_pipeline_id :: string
  stage_novo_id :: string
  stage_fechado_id :: string
  key_env :: cycle_env

section \<open>Identity of the runtime\<close>

definition lower_char :: "char \<Rightarrow> char" where
  "lower_char c = (if 65 \<le> code_point c \<and> code_point c \<le> 90 then char_of (code_point c + 32) else c)"

definition lower :: "string \<Rightarrow> string" where
  "lower s = map lower_char s"

text \<open>\<open>os.environ.get(name, default).strip().lower()\<close>\<close>

definition env_text :: "string \<Rightarrow> string option \<Rightarrow> string" where
  "env_text fallback v = lower (strip (case v of None \<Rightarrow> fallback | Some s \<Rightarrow> s))"

definition railway_name :: "runtime_env \<Rightarrow> string" where
  "railway_name e = env_text [] (rt_railway_env e)"

definition django_name :: "runtime_env \<Rightarrow> string" where
  "django_name e = env_text ''development'' (rt_django_env e)"

definition runtime_environment :: "runtime_env \<Rightarrow> string" where
  "runtime_environment e = (if railway_name e \<noteq> [] then railway_name e else django_name e)"

definition availability_writer_id :: "runtime_env \<Rightarrow> string" where
  "availability_writer_id e =
     (let parts = map opt_text [rt_project e, rt_railway_env e, rt_service e, rt_deployment e, rt_replica e];
          identity = join ''/'' (filter (\<lambda>p. p \<noteq> []) (map strip parts))
      in if identity \<noteq> [] then identity else ''local/'' @ runtime_environment e)"

definition is_authoritative_availability_runtime :: "runtime_env \<Rightarrow> bool" where
  "is_authoritative_availability_runtime e =
     (if django_name e = ''test'' then railway_name e = []
      else django_name e = lower (strip (rt_authority e)) \<and>
           (railway_name e = [] \<or> railway_name e = lower (strip (rt_authority e))))"

definition may_ingest_queue :: "settings \<Rightarrow> bool" where
  "may_ingest_queue cfg = is_authoritative_availability_runtime (runtime cfg)"

definition may_reconcile_queue :: "settings \<Rightarrow> bool" where
  "may_reconcile_queue cfg = is_authoritative_availability_runtime (runtime cfg)"

definition may_write_routing_state :: "settings \<Rightarrow> bool" where
  "may_write_routing_state cfg = is_authoritative_availability_runtime (runtime cfg)"

definition require_routing_writer_authority :: "settings \<Rightarrow> unit result" where
  "require_routing_writer_authority cfg = (if may_write_routing_state cfg then Inr () else Inl ForbiddenError)"

section \<open>UUID texts\<close>

definition hex_value :: "char \<Rightarrow> int option" where
  "hex_value c =
     (let k = code_point c in
      if 48 \<le> k \<and> k \<le> 57 then Some (int k - 48)
      else if 97 \<le> k \<and> k \<le> 102 then Some (int k - 87)
      else if 65 \<le> k \<and> k \<le> 70 then Some (int k - 55)
      else None)"

fun scan_hex :: "int \<Rightarrow> bool \<Rightarrow> string \<Rightarrow> int option" where
  "scan_hex acc prev [] = (if prev then Some acc else None)"
| "scan_hex acc prev (c # cs) =
     (case hex_value c of
        Some v \<Rightarrow> scan_hex (acc * 16 + v) True cs
      | None \<Rightarrow> (if c = CHR ''_'' \<and> prev then scan_hex acc False cs else None))"

text \<open>After an optional \<open>0x\<close> prefix an underscore may come first.\<close>

fun unsigned_hex :: "string \<Rightarrow> int option" where
  "unsigned_hex (z # x # cs) =
     (if z = CHR ''0'' \<and> (x = CHR ''x'' \<or> x = CHR ''X'') then
        (if cs \<noteq> [] \<and> hd cs = CHR ''_'' then scan_hex 0 False (tl cs) else scan_hex 0 False cs)
      else scan_hex 0 False (z # x # cs))"
| "unsigned_hex cs = scan_hex 0 False cs"

text \<open>\<open>int(text, 16)\<close>\<close>

definition py_int_16 :: "string \<Rightarrow> int option" where
  "py_int_16 s =
     (case strip s of
        [] \<Rightarrow> None
      | c # cs \<Rightarrow>
          (if c = CHR ''-'' then map_option uminus (unsigned_hex cs)
           else if c = CHR ''+'' then unsigned_hex cs
           else unsigned_hex (c # cs)))"

fun remove_all :: "string \<Rightarrow> string \<Rightarrow> string" where
  "remove_all pat [] = []"
| "remove_all pat (c # cs) =
     (if pat \<noteq> [] \<and> take (length pat) (c # cs) = pat then remove_all pat (drop (length pat - 1) cs)
      else c # remove_all pat cs)"

definition is_brace :: "char \<Rightarrow> bool" where
  "is_brace c = (c = CHR ''{'' \<or> c = CHR ''}'')"

definition strip_braces :: "string \<Rightarrow> string" where
  "strip_braces s = rev (dropWhile is_brace (rev (dropWhile is_brace s)))"

text \<open>\<open>UUID(text)\<close>; \<open>None\<close> is the \<open>ValueError\<close>.\<close>

definition parse_uuid :: "string \<Rightarrow> uuid option" where
  "parse_uuid s =
     (let h = remove_all ''-'' (strip_braces (remove_all ''uuid:'' (remove_all ''urn:'' s)))
      in if length h \<noteq> 32 then None
         else case py_int_16 h of
                None \<Rightarrow> None
              | Some n \<Rightarrow> (if 0 \<le> n \<and> n < 2 ^ 128 then Some (nat n) else None))"

section \<open>The canary and the assignment gate\<close>

definition configured_canary_values :: "settings \<Rightarrow> string list" where
  "configured_canary_values cfg = remdups (filter (\<lambda>v. v \<noteq> []) (map strip (canary_values cfg)))"

definition automatic_assignment_canary_agent_ids :: "settings \<Rightarrow> uuid list" where
  "automatic_assignment_canary_agent_ids cfg =
     remdups (List.map_filter parse_uuid (configured_canary_values cfg))"

definition is_automatic_assignment_canary_configured :: "settings \<Rightarrow> bool" where
  "is_automatic_assignment_canary_configured cfg = (configured_canary_values cfg \<noteq> [])"

text \<open>
  The first failed control after authority, \<open>None\<close> when every control passes.  The argument is
  the outcome of \<open>provider_assignment_rejection_reason\<close>.
\<close>

definition assignment_gate_rejection_reason :: "settings \<Rightarrow> string option \<Rightarrow> string option" where
  "assignment_gate_rejection_reason cfg provider_reason =
     (if \<not> auto_assignment_enabled cfg then Some ''auto_assignment_disabled''
      else if provider_contract_mode cfg = Contract_Enforce \<and> opt_truthy provider_reason then provider_reason
      else if configured_canary_values cfg \<noteq> [] \<and>
              length (automatic_assignment_canary_agent_ids cfg) \<noteq> length (configured_canary_values cfg)
           then Some ''invalid_canary_configuration''
      else if (absence_safe_shadow cfg \<or> configured_canary_values cfg \<noteq> []) \<and> \<not> absence_safe_enforced cfg
           then Some ''absence_safe_not_enforced''
      else None)"

definition may_assign :: "settings \<Rightarrow> string option \<Rightarrow> bool" where
  "may_assign cfg provider_reason =
     (is_authoritative_availability_runtime (runtime cfg) \<and>
      \<not> opt_truthy (assignment_gate_rejection_reason cfg provider_reason))"

section \<open>Facts\<close>

lemma authority_not_foreign_railway:
  "is_authoritative_availability_runtime e \<Longrightarrow> railway_name e \<noteq> [] \<Longrightarrow>
   railway_name e = lower (strip (rt_authority e)) \<and> django_name e = railway_name e"
  by (auto simp: is_authoritative_availability_runtime_def split: if_splits)

lemma require_authority_iff [simp]:
  "require_routing_writer_authority cfg = Inr u \<longleftrightarrow> may_write_routing_state cfg"
  by (simp add: require_routing_writer_authority_def)

lemma length_map_filter_le: "length (List.map_filter f xs) \<le> length xs"
  by (simp add: List.map_filter_def)

lemma map_filter_total: "length (List.map_filter f xs) = length xs \<Longrightarrow> x \<in> set xs \<Longrightarrow> f x \<noteq> None"
proof (induction xs)
  case Nil
  then show ?case by simp
next
  case (Cons y ys)
  then show ?case
    using length_map_filter_le [of f ys] by (cases "f y") (auto simp: List.map_filter_def)
qed

lemma canary_lengths:
  "length (automatic_assignment_canary_agent_ids cfg) \<le> length (configured_canary_values cfg)"
proof -
  have "length (remdups (List.map_filter parse_uuid (configured_canary_values cfg))) \<le>
      length (List.map_filter parse_uuid (configured_canary_values cfg))" by simp
  also have "\<dots> \<le> length (configured_canary_values cfg)" by (rule length_map_filter_le)
  finally show ?thesis by (simp add: automatic_assignment_canary_agent_ids_def)
qed

section \<open>Properties\<close>

text \<open>An owner mutation is allowed only when every control holds.  The runtime is the
  authoritative one (a Railway deployment only when both environment names equal the
  configured authority); automatic assignment is enabled; under an enforced provider
  contract the provider gate has no objection; a configured canary consists of distinct
  valid UUIDs and requires absence-safe eligibility, as does the shadow mode.\<close>

theorem assignment_gate_fails_closed:
  assumes "may_assign cfg provider_reason"
  shows "auto_assignment_enabled cfg \<and>
    (railway_name (runtime cfg) \<noteq> [] \<longrightarrow>
       railway_name (runtime cfg) = lower (strip (rt_authority (runtime cfg))) \<and>
       django_name (runtime cfg) = lower (strip (rt_authority (runtime cfg)))) \<and>
    (provider_contract_mode cfg = Contract_Enforce \<longrightarrow> \<not> opt_truthy provider_reason) \<and>
    (\<forall>v \<in> set (configured_canary_values cfg). parse_uuid v \<noteq> None) \<and>
    length (automatic_assignment_canary_agent_ids cfg) = length (configured_canary_values cfg) \<and>
    (absence_safe_shadow cfg \<or> is_automatic_assignment_canary_configured cfg \<longrightarrow> absence_safe_enforced cfg)"
proof -
  have auth: "is_authoritative_availability_runtime (runtime cfg)"
    and gate: "\<not> opt_truthy (assignment_gate_rejection_reason cfg provider_reason)"
    using assms by (simp_all add: may_assign_def)
  have len: "length (automatic_assignment_canary_agent_ids cfg) = length (configured_canary_values cfg)"
    using gate
    by (cases "configured_canary_values cfg = []")
      (auto simp: assignment_gate_rejection_reason_def automatic_assignment_canary_agent_ids_def
        List.map_filter_def split: if_splits)
  then have "length (List.map_filter parse_uuid (configured_canary_values cfg)) = length (configured_canary_values cfg)"
    using length_map_filter_le [of parse_uuid "configured_canary_values cfg"]
      length_remdups_leq [of "List.map_filter parse_uuid (configured_canary_values cfg)"]
    by (simp add: automatic_assignment_canary_agent_ids_def)
  then have "\<forall>v \<in> set (configured_canary_values cfg). parse_uuid v \<noteq> None"
    by (blast dest: map_filter_total)
  then show ?thesis
    using len gate authority_not_foreign_railway [OF auth]
    by (auto simp: assignment_gate_rejection_reason_def is_automatic_assignment_canary_configured_def split: if_splits)
qed

definition demo_runtime :: runtime_env where
  "demo_runtime = \<lparr>rt_django_env = Some ''Production'', rt_railway_env = Some ''production '', rt_project = Some ''judah'',
     rt_service = None, rt_deployment = None, rt_replica = None, rt_authority = ''production''\<rparr>"

definition demo_cfg :: settings where
  "demo_cfg = \<lparr>capacity_mode_of = Capacity_Off, absence_safe_enforced = True, absence_safe_shadow = False,
     auto_assignment_enabled = True, canary_values = [], runtime = demo_runtime,
     availability_freshness_seconds = 90, availability_stable_seconds = 120, availability_required_samples = 2,
     availability_lease_ttl_seconds = 60, sat_heartbeat_interval_seconds = 30, sat_off_hours_refresh_seconds = 300,
     capacity_freshness_seconds = 300, capacity_max_scan_tickets = 200, assignment_claim_ttl_seconds = 90,
     assignment_stuck_after_seconds = 120, assignment_retention_days = 365, opening_barrier_mode = Barrier_Off,
     provider_contract_mode = Contract_Off, cycles_enforced = True, support_pipeline_id = ''P'',
     stage_novo_id = ''N'', stage_fechado_id = ''F'', key_env = demo_env\<rparr>"

theorem assignment_gate_fails_closed_witness:
  "let cfg = demo_cfg\<lparr>canary_values := ['' 00000000-0000-0000-0000-00000000002A'']\<rparr>
   in automatic_assignment_canary_agent_ids cfg = [42] \<and>
      (\<forall>v \<in> set (configured_canary_values cfg). parse_uuid v \<noteq> None)"
proof -
  let ?cfg = "demo_cfg\<lparr>canary_values := ['' 00000000-0000-0000-0000-00000000002A'']\<rparr>"
  have "may_assign ?cfg None" by code_simp
  from assignment_gate_fails_closed [OF this]
  have "\<forall>v \<in> set (configured_canary_values ?cfg). parse_uuid v \<noteq> None" by blast
  moreover have "automatic_assignment_canary_agent_ids ?cfg = [42]" by code_simp
  ultimately show ?thesis by (simp only: Let_def simp_thms)
qed

end
