(* ===== verification/Support_Db.thy ===== *)
theory Support_Db
  imports Runtime
begin

text \<open>
  The rows of the support tables of \<open>apps/support/models.py\<close> and the database as one record
  of tables.

  Left out: columns that no modelled operation reads or writes, the free texts derived from a
  code (\<open>failure_message\<close>), the audit JSON \<open>decision_snapshot\<close>, and \<open>created_at\<close> stamps.
  Elapsed times are kept in microseconds, before the rounding to two decimals of the stored
  \<open>Decimal\<close>.  The four texts contact name, contact email, priority and subject travel
  together and are one value.  A new row takes its key from the counter \<open>db_next_pk\<close>, which
  stands for \<open>uuid4\<close>.
\<close>

section \<open>Rows\<close>

datatype agent_status = Online | Away | Offline | Busy

datatype eligibility_state = El_Unknown | El_Ineligible | El_Eligible

record agent =
  ag_pk :: uuid
  ag_name :: string
  ag_email :: string
  ag_owner :: int
  ag_status :: agent_status
  ag_chats :: int
  ag_cap_revision :: int
  ag_cap_state :: string
  ag_cap_reconciled_at :: "instant option"
  ag_max_chats :: "int option"
  ag_auto_assign :: bool
  ag_is_active :: "bool option"
  ag_last_assignment_at :: "instant option"
  ag_total_assignments :: int
  ag_online_secs :: int
  ag_away_secs :: int
  ag_last_status_change_at :: "instant option"
  ag_heartbeat_at :: "instant option"
  ag_count_sync_at :: "instant option"
  ag_user_id :: "string option"
  ag_remote_status :: string
  ag_observed_at :: "instant option"
  ag_online_since :: "instant option"
  ag_sample_count :: int
  ag_elig_state :: eligibility_state
  ag_elig_reason :: string
  ag_elig_evaluated_at :: "instant option"
  ag_writer_id :: string
  ag_avail_revision :: int
  ag_fencing_token :: int
  ag_updated_at :: "instant option"

type_synonym contact = "string option \<times> string option \<times> string option \<times> string option"

datatype queue_status = Pending | In_Queue | Failed

record queue_row =
  nc_pk :: uuid
  nc_ticket :: string
  nc_cycle :: "uuid option"
  nc_pipeline :: string
  nc_contact :: contact
  nc_entered_at :: instant
  nc_status :: queue_status
  nc_attempts :: int
  nc_last_attempt_at :: "instant option"
  nc_next_attempt_at :: "instant option"
  nc_failure_code :: string
  nc_auto :: bool
  nc_claim_token :: string
  nc_claim_expires :: "instant option"
  nc_claimed_at :: "instant option"

datatype attempt_state =
    Reserved | External_Applied | Completed | Compensating | Compensated | Retryable | Att_Repair_Required

datatype assignment_type = Automatic | Manual | Forced

text \<open>
  \<open>uuid5(NAMESPACE_URL, "judah:assignment:{identity}:{type}")\<close> is represented by the name it
  hashes: the identity is the cycle or \<open>legacy:\<close> and the ticket.
\<close>

datatype assignment_identity = Cycle_Identity uuid | Legacy_Ticket string

type_synonym idempotency_key = "assignment_identity \<times> assignment_type"

record attempt =
  at_pk :: uuid
  at_key :: idempotency_key
  at_ticket :: string
  at_cycle :: "uuid option"
  at_queue_row :: "uuid option"
  at_agent :: uuid
  at_elig_revision :: int
  at_desired_owner :: int
  at_prior_owner :: "int option"
  at_reason :: string
  at_state :: attempt_state
  at_type :: assignment_type
  at_requested_by :: string
  at_result_class :: string
  at_reserved_at :: instant
  at_applied_at :: "instant option"
  at_finalized_at :: "instant option"
  at_comp_started_at :: "instant option"
  at_compensated_at :: "instant option"
  at_retry_count :: int
  at_next_retry_at :: "instant option"
  at_last_error :: string
  at_updated_at :: instant

record assigned_row =
  as_pk :: uuid
  as_ticket :: string
  as_cycle :: "uuid option"
  as_agent :: "uuid option"
  as_owner :: int
  as_agent_name :: string
  as_pipeline :: string
  as_entered_at :: "instant option"
  as_assigned_at :: "instant option"
  as_wait :: "int option"
  as_count :: int
  as_contact :: contact

record closed_row =
  cl_pk :: uuid
  cl_ticket :: string
  cl_cycle :: "uuid option"
  cl_agent :: "uuid option"
  cl_owner :: "int option"
  cl_agent_name :: "string option"
  cl_pipeline :: string
  cl_entered_at :: "instant option"
  cl_assigned_at :: "instant option"
  cl_closed_at :: instant
  cl_closed_by_owner :: "int option"
  cl_closed_by_name :: "string option"
  cl_wait :: "int option"
  cl_handle :: "int option"
  cl_resolution :: "int option"
  cl_source :: string
  cl_contact :: contact

record log_row =
  lg_pk :: uuid
  lg_attempt :: "uuid option"
  lg_ticket :: string
  lg_cycle :: "uuid option"
  lg_agent :: "uuid option"
  lg_agent_name :: string
  lg_owner :: "int option"
  lg_type :: string
  lg_by :: "string option"
  lg_pipeline :: "string option"
  lg_entered_at :: "instant option"
  lg_wait :: "int option"
  lg_assigned_at :: instant

datatype occupancy_state = Oc_Unknown | Oc_Active | Oc_Unassigned | Oc_Closed | Oc_Out_Of_Scope

record occupancy =
  oc_pk :: uuid
  oc_account :: string
  oc_ticket :: string
  oc_owner :: "int option"
  oc_agent :: "uuid option"
  oc_cycle :: "uuid option"
  oc_pipeline :: string
  oc_state :: occupancy_state
  oc_revision :: int
  oc_observed_at :: "instant option"
  oc_provider_updated_at :: "instant option"
  oc_source :: string
  oc_observation :: string

datatype reservation_state = Held | Converted | Released

datatype operation_key = Attempt_Op uuid | Reassignment_Op "uuid option"

record reservation =
  rs_pk :: uuid
  rs_key :: operation_key
  rs_occupancy :: uuid
  rs_agent :: uuid
  rs_attempt :: "uuid option"
  rs_reassignment :: "uuid option"
  rs_state :: reservation_state
  rs_held_at :: instant
  rs_concluded_at :: "instant option"
  rs_reason :: string

record reassign_row =
  rr_pk :: uuid
  rr_ticket :: string
  rr_cycle :: "uuid option"
  rr_from_agent :: "uuid option"
  rr_from_owner :: "int option"
  rr_from_name :: "string option"
  rr_to_agent :: "uuid option"
  rr_to_owner :: "int option"
  rr_to_name :: "string option"
  rr_at :: "instant option"
  rr_time :: "int option"
  rr_source :: string

datatype cohort_state = Cohort_Active | Cohort_Released

datatype release_reason = No_Reason | All_Settled | Deadline | Disabled

record cohort =
  co_pk :: uuid
  co_window_started_at :: instant
  co_observed_at :: instant
  co_recheck_at :: instant
  co_deadline_at :: instant
  co_members :: "uuid list"
  co_initial_eligible :: nat
  co_initial_stabilizing :: nat
  co_state :: cohort_state
  co_release_reason :: release_reason
  co_callback_at :: "instant option"
  co_released_at :: "instant option"

record db =
  db_agents :: "agent list"
  db_queue :: "queue_row list"
  db_cycles :: "cycle list"
  db_attempts :: "attempt list"
  db_assigned :: "assigned_row list"
  db_closed :: "closed_row list"
  db_logs :: "log_row list"
  db_occupancies :: "occupancy list"
  db_reservations :: "reservation list"
  db_reassigns :: "reassign_row list"
  db_cohorts :: "cohort list"
  db_next_pk :: uuid

definition empty_db :: db where
  "empty_db = \<lparr>db_agents = [], db_queue = [], db_cycles = [], db_attempts = [], db_assigned = [],
     db_closed = [], db_logs = [], db_occupancies = [], db_reservations = [],
     db_reassigns = [], db_cohorts = [],
     db_next_pk = 0\<rparr>"

section \<open>Lookups and single-row writes\<close>

definition agent_of :: "db \<Rightarrow> uuid \<Rightarrow> agent option" where
  "agent_of d k = get_row ag_pk k (db_agents d)"

definition queue_of :: "db \<Rightarrow> uuid \<Rightarrow> queue_row option" where
  "queue_of d k = get_row nc_pk k (db_queue d)"

definition cycle_of :: "db \<Rightarrow> uuid \<Rightarrow> cycle option" where
  "cycle_of d k = get_row cy_pk k (db_cycles d)"

definition attempt_of :: "db \<Rightarrow> uuid \<Rightarrow> attempt option" where
  "attempt_of d k = get_row at_pk k (db_attempts d)"

definition put_agent :: "agent \<Rightarrow> db \<Rightarrow> db" where
  "put_agent a d = d\<lparr>db_agents := save_row ag_pk a (db_agents d)\<rparr>"

definition put_queue :: "queue_row \<Rightarrow> db \<Rightarrow> db" where
  "put_queue q d = d\<lparr>db_queue := save_row nc_pk q (db_queue d)\<rparr>"

definition put_cycle :: "cycle \<Rightarrow> db \<Rightarrow> db" where
  "put_cycle c d = d\<lparr>db_cycles := save_row cy_pk c (db_cycles d)\<rparr>"

definition put_attempt :: "attempt \<Rightarrow> db \<Rightarrow> db" where
  "put_attempt a d = d\<lparr>db_attempts := save_row at_pk a (db_attempts d)\<rparr>"

definition put_occupancy :: "occupancy \<Rightarrow> db \<Rightarrow> db" where
  "put_occupancy r d = d\<lparr>db_occupancies := save_row oc_pk r (db_occupancies d)\<rparr>"

definition put_reservation :: "reservation \<Rightarrow> db \<Rightarrow> db" where
  "put_reservation r d = d\<lparr>db_reservations := save_row rs_pk r (db_reservations d)\<rparr>"

definition put_assigned :: "assigned_row \<Rightarrow> db \<Rightarrow> db" where
  "put_assigned r d = d\<lparr>db_assigned := save_row as_pk r (db_assigned d)\<rparr>"

definition put_cohort :: "cohort \<Rightarrow> db \<Rightarrow> db" where
  "put_cohort c d = d\<lparr>db_cohorts := save_row co_pk c (db_cohorts d)\<rparr>"

text \<open>Deleting a queue row sets the \<open>queue_row\<close> of its attempts to null (\<open>SET_NULL\<close>).\<close>

definition delete_queue_row :: "uuid \<Rightarrow> db \<Rightarrow> db" where
  "delete_queue_row k d = d\<lparr>
     db_queue := delete_rows (\<lambda>q. nc_pk q = k) (db_queue d),
     db_attempts := update_rows (\<lambda>a. at_queue_row a = Some k) (\<lambda>a. a\<lparr>at_queue_row := None\<rparr>) (db_attempts d)\<rparr>"

definition fresh_pk :: "db \<Rightarrow> uuid \<times> db" where
  "fresh_pk d = (db_next_pk d, d\<lparr>db_next_pk := Suc (db_next_pk d)\<rparr>)"

lemmas put_defs [table_simps] =
  put_agent_def put_queue_def put_cycle_def put_attempt_def put_occupancy_def put_reservation_def
  put_assigned_def put_cohort_def

lemmas lookup_defs [table_simps] = agent_of_def queue_of_def cycle_of_def attempt_of_def

section \<open>Attempts and their unique constraints\<close>

definition live_states :: "attempt_state list" where
  "live_states = [Reserved, External_Applied, Compensating, Retryable, Att_Repair_Required]"

definition is_live :: "attempt_state \<Rightarrow> bool" where
  "is_live s = (s \<in> set live_states)"

definition terminal_attempt_states :: "attempt_state list" where
  "terminal_attempt_states = [Completed, Compensated]"

lemma is_live_iff: "is_live s \<longleftrightarrow> s \<notin> set terminal_attempt_states"
  by (cases s) (simp_all add: is_live_def live_states_def terminal_attempt_states_def)

lemma is_live_simps [simp]:
  "is_live Reserved" "is_live External_Applied" "is_live Compensating" "is_live Retryable"
  "is_live Att_Repair_Required" "\<not> is_live Completed" "\<not> is_live Compensated"
  by (simp_all add: is_live_def live_states_def)

definition attempt_clash :: "attempt \<Rightarrow> attempt \<Rightarrow> bool" where
  "attempt_clash new old \<longleftrightarrow>
     at_pk old = at_pk new \<or> at_key old = at_key new \<or>
     (at_cycle new \<noteq> None \<and> at_cycle old = at_cycle new \<and>
      ((is_live (at_state old) \<and> is_live (at_state new)) \<or>
       (at_state old = Completed \<and> at_state new = Completed)))"

definition insert_attempt :: "attempt \<Rightarrow> db \<Rightarrow> db result" where
  "insert_attempt a d =
     (if list_ex (attempt_clash a) (db_attempts d) then Inl IntegrityError
      else Inr (d\<lparr>db_attempts := db_attempts d @ [a]\<rparr>))"

text \<open>Saving a state is checked against every other row.\<close>

definition save_attempt :: "attempt \<Rightarrow> db \<Rightarrow> db result" where
  "save_attempt a d =
     (if list_ex (\<lambda>b. at_pk b \<noteq> at_pk a \<and> attempt_clash a b) (db_attempts d) then Inl IntegrityError
      else Inr (put_attempt a d))"

end
