(* ===== verification/Capacity.thy ===== *)
theory Capacity
  imports Support_Db
begin

text \<open>
  Ticket occupancy and capacity reservations, \<open>apps/support/capacity_service.py\<close>.

  Row locks order concurrent transactions; a modelled operation is one transaction on the
  database it is given, and an operation that raises leaves no change behind.  The text of an
  operation key is its constructor: \<open>attempt:<pk>\<close> or \<open>reassignment:<pk>\<close>.
\<close>

section \<open>Mode and account\<close>

definition capacity_mode :: "string \<Rightarrow> capacity_mode result" where
  "capacity_mode s =
     (if s = ''off'' then Inr Capacity_Off
      else if s = ''shadow'' then Inr Capacity_Shadow
      else if s = ''enforce'' then Inr Capacity_Enforce
      else Inl ValueError)"

definition capacity_enforced :: "settings \<Rightarrow> bool" where
  "capacity_enforced cfg = (capacity_mode_of cfg = Capacity_Enforce)"

definition capacity_account :: "settings \<Rightarrow> string result" where
  "capacity_account cfg =
     (let account = strip (portal_id (key_env cfg)) in if account = [] then Inl ValueError else Inr account)"

section \<open>Tickets\<close>

definition oc_ident :: "occupancy \<Rightarrow> string \<times> string" where
  "oc_ident r = (oc_account r, oc_ticket r)"

definition new_occupancy :: "uuid \<Rightarrow> string \<Rightarrow> string \<Rightarrow> occupancy" where
  "new_occupancy k account ticket = \<lparr>oc_pk = k, oc_account = account, oc_ticket = ticket, oc_owner = None,
     oc_agent = None, oc_cycle = None, oc_pipeline = [], oc_state = Oc_Unknown, oc_revision = 0,
     oc_observed_at = None, oc_provider_updated_at = None, oc_source = [], oc_observation = []\<rparr>"

definition get_or_create_occupancy :: "string \<times> string \<Rightarrow> db \<Rightarrow> db \<times> occupancy" where
  "get_or_create_occupancy q d =
     (let (rows, r, created) =
            get_or_create oc_ident (new_occupancy (db_next_pk d) (fst q) (snd q)) (db_occupancies d)
      in if created then (d\<lparr>db_occupancies := rows, db_next_pk := Suc (db_next_pk d)\<rparr>, r) else (d, r))"

definition ticket_transaction :: "settings \<Rightarrow> string \<Rightarrow> db \<Rightarrow> (db \<times> occupancy) result" where
  "ticket_transaction cfg ticket d =
     (case require_routing_writer_authority cfg of
        Inl e \<Rightarrow> Inl e
      | Inr _ \<Rightarrow>
          (case capacity_account cfg of
             Inl e \<Rightarrow> Inl e
           | Inr account \<Rightarrow> Inr (get_or_create_occupancy (account, ticket) d)))"

definition optional_ticket_transaction :: "settings \<Rightarrow> string \<Rightarrow> db \<Rightarrow> (db \<times> occupancy option) result" where
  "optional_ticket_transaction cfg ticket d =
     (if capacity_enforced cfg then map_sum id (\<lambda>(d', r). (d', Some r)) (ticket_transaction cfg ticket d)
      else Inr (d, None))"

definition assignment_transaction :: "settings \<Rightarrow> uuid \<Rightarrow> db \<Rightarrow> (db \<times> occupancy option) result" where
  "assignment_transaction cfg attempt_id d =
     (if capacity_enforced cfg then
        (case attempt_of d attempt_id of
           None \<Rightarrow> Inl DoesNotExist
         | Some a \<Rightarrow> map_sum id (\<lambda>(d', r). (d', Some r)) (ticket_transaction cfg (at_ticket a) d))
      else Inr (d, None))"

section \<open>Counting\<close>

definition occupied_pks :: "db \<Rightarrow> uuid \<Rightarrow> uuid list" where
  "occupied_pks d agent =
     map oc_pk (filter (\<lambda>r. oc_agent r = Some agent \<and> oc_state r = Oc_Active) (db_occupancies d))"

definition reserved_pks :: "db \<Rightarrow> uuid \<Rightarrow> uuid list" where
  "reserved_pks d agent = map rs_occupancy (filter (\<lambda>r. rs_agent r = agent \<and> rs_state r = Held) (db_reservations d))"

definition capacity_count :: "db \<Rightarrow> uuid \<Rightarrow> nat" where
  "capacity_count d agent = length (remdups (occupied_pks d agent @ reserved_pks d agent))"

definition materialize_agent :: "settings \<Rightarrow> db \<Rightarrow> agent \<Rightarrow> agent" where
  "materialize_agent cfg d a =
     (let a' = a\<lparr>ag_cap_revision := ag_cap_revision a + 1\<rparr>
      in if capacity_enforced cfg then a'\<lparr>ag_chats := int (capacity_count d (ag_pk a))\<rparr> else a')"

definition materialize :: "settings \<Rightarrow> uuid list \<Rightarrow> db \<Rightarrow> db" where
  "materialize cfg ids d =
     d\<lparr>db_agents := update_rows (\<lambda>a. ag_pk a \<in> set ids) (materialize_agent cfg d) (db_agents d)\<rparr>"

text \<open>A missing limit counts as five, as \<open>Coalesce(F("max_simultaneous_chats"), 5)\<close> does in the queries.\<close>

definition max_chats_coalesced :: "agent \<Rightarrow> int" where
  "max_chats_coalesced a = (case ag_max_chats a of None \<Rightarrow> 5 | Some n \<Rightarrow> n)"

definition capacity_ready :: "settings \<Rightarrow> instant \<Rightarrow> db \<Rightarrow> agent \<Rightarrow> bool" where
  "capacity_ready cfg now d a \<longleftrightarrow>
     ag_cap_state a = ''ready'' \<and>
     (case ag_cap_reconciled_at a of None \<Rightarrow> False
      | Some t \<Rightarrow> now - seconds (capacity_freshness_seconds cfg) \<le> t) \<and>
     int (capacity_count d (ag_pk a)) < max_chats_coalesced a"

section \<open>Reservations\<close>

fun op_attempt :: "operation_key \<Rightarrow> uuid option" where
  "op_attempt (Attempt_Op k) = Some k"
| "op_attempt (Reassignment_Op k) = None"

fun op_reassignment :: "operation_key \<Rightarrow> uuid option" where
  "op_reassignment (Attempt_Op k) = None"
| "op_reassignment (Reassignment_Op k) = k"

definition new_reservation :: "uuid \<Rightarrow> operation_key \<Rightarrow> uuid \<Rightarrow> uuid \<Rightarrow> instant \<Rightarrow> reservation" where
  "new_reservation k op occ agent now = \<lparr>rs_pk = k, rs_key = op, rs_occupancy = occ, rs_agent = agent,
     rs_attempt = op_attempt op, rs_reassignment = op_reassignment op, rs_state = Held, rs_held_at = now,
     rs_concluded_at = None, rs_reason = []\<rparr>"

text \<open>The operation is recorded once; a released reservation is held again.\<close>

definition record_hold :: "instant \<Rightarrow> uuid \<Rightarrow> uuid \<Rightarrow> operation_key \<Rightarrow> db \<Rightarrow> db" where
  "record_hold now occ agent op d =
     (let (rows, r, created) = get_or_create rs_key (new_reservation (db_next_pk d) op occ agent now) (db_reservations d)
      in if created then d\<lparr>db_reservations := rows, db_next_pk := Suc (db_next_pk d)\<rparr>
         else if rs_state r = Released then
           put_reservation (r\<lparr>rs_state := Held, rs_held_at := now, rs_concluded_at := None, rs_reason := []\<rparr>) d
         else d)"

definition hold_capacity :: "settings \<Rightarrow> instant \<Rightarrow> occupancy \<Rightarrow> uuid \<Rightarrow> operation_key \<Rightarrow> db \<Rightarrow> db" where
  "hold_capacity cfg now occ agent op d =
     materialize cfg [agent]
       (put_occupancy (occ\<lparr>oc_revision := oc_revision occ + 1\<rparr>) (record_hold now (oc_pk occ) agent op d))"

definition conclude_reservation :: "instant \<Rightarrow> reservation \<Rightarrow> bool \<Rightarrow> string \<Rightarrow> db \<Rightarrow> db" where
  "conclude_reservation now r converted why d =
     (if rs_state r \<noteq> Held then d
      else put_reservation (r\<lparr>rs_state := (if converted then Converted else Released),
             rs_concluded_at := Some now, rs_reason := take 128 why\<rparr>) d)"

definition degrade_agents :: "uuid list \<Rightarrow> db \<Rightarrow> db" where
  "degrade_agents ids d = d\<lparr>db_agents := update_rows (\<lambda>a. ag_pk a \<in> set ids)
     (\<lambda>a. a\<lparr>ag_cap_state := ''degraded'', ag_cap_revision := ag_cap_revision a + 1\<rparr>) (db_agents d)\<rparr>"

section \<open>Facts\<close>

lemma capacity_count_card:
  "capacity_count d g = card (set (occupied_pks d g) \<union> set (reserved_pks d g))"
  by (simp add: capacity_count_def length_remdups_card_conv)

lemma capacity_count_cong:
  "set (occupied_pks d' g) = set (occupied_pks d g) \<Longrightarrow> set (reserved_pks d' g) = set (reserved_pks d g) \<Longrightarrow>
   capacity_count d' g = capacity_count d g"
  by (simp add: capacity_count_card)

lemma in_occupied: "k \<in> set (occupied_pks d g) \<longleftrightarrow>
    (\<exists>r \<in> set (db_occupancies d). oc_pk r = k \<and> oc_agent r = Some g \<and> oc_state r = Oc_Active)"
  by (auto simp: occupied_pks_def)

lemma in_reserved: "k \<in> set (reserved_pks d g) \<longleftrightarrow>
    (\<exists>r \<in> set (db_reservations d). rs_occupancy r = k \<and> rs_agent r = g \<and> rs_state r = Held)"
  by (auto simp: reserved_pks_def)

lemma count_ignores_agents [simp]:
  "capacity_count (d\<lparr>db_agents := x\<rparr>) g = capacity_count d g"
  by (simp add: capacity_count_def occupied_pks_def reserved_pks_def)

lemma materialize_tables [simp]:
  "db_occupancies (materialize cfg ids d) = db_occupancies d"
  "db_reservations (materialize cfg ids d) = db_reservations d"
  "db_attempts (materialize cfg ids d) = db_attempts d"
  "db_queue (materialize cfg ids d) = db_queue d"
  "db_cycles (materialize cfg ids d) = db_cycles d"
  "db_next_pk (materialize cfg ids d) = db_next_pk d"
  "db_assigned (materialize cfg ids d) = db_assigned d"
  "db_logs (materialize cfg ids d) = db_logs d"
  by (simp_all add: materialize_def)

lemma materialize_count [simp]: "capacity_count (materialize cfg ids d) g = capacity_count d g"
  by (simp add: materialize_def)

lemma save_row_same_view:
  assumes "distinct (map key rows)" and "r0 \<in> set rows" and "key x = key r0" and "P x = P r0" and "g x = g r0"
  shows "map g (filter P (save_row key x rows)) = map g (filter P rows)"
  using assms
proof (induction rows)
  case Nil
  then show ?case by simp
next
  case (Cons q rows)
  show ?case
  proof (cases "q = r0")
    case True
    have "key r \<noteq> key x" if "r \<in> set rows" for r
      using Cons.prems(1,3) True that by (metis distinct.simps(2) image_eqI list.set_map list.simps(9))
    then have "save_row key x rows = rows" by (simp add: save_row_def map_idI)
    then show ?thesis using True Cons.prems by (simp add: save_row_def)
  next
    case False
    with Cons.prems have "key q \<noteq> key x" by (auto simp: image_iff)
    then show ?thesis using False Cons by (simp add: save_row_def)
  qed
qed

lemma occupied_put_revision:
  "distinct (map oc_pk (db_occupancies d)) \<Longrightarrow> occ \<in> set (db_occupancies d) \<Longrightarrow>
   occupied_pks (put_occupancy (occ\<lparr>oc_revision := n\<rparr>) d) g = occupied_pks d g"
  unfolding occupied_pks_def put_occupancy_def
  by (simp, rule save_row_same_view [where ?r0.0 = occ]) simp_all

lemma reserved_put_occupancy [simp]: "reserved_pks (put_occupancy r d) g = reserved_pks d g"
  by (simp add: reserved_pks_def put_occupancy_def)

lemma occupied_record_hold [simp]: "occupied_pks (record_hold now occ agent op d) g = occupied_pks d g"
  by (simp add: record_hold_def occupied_pks_def put_reservation_def Let_def split: prod.splits)

lemma record_hold_occupancies [simp]: "db_occupancies (record_hold now occ agent op d) = db_occupancies d"
  by (simp add: record_hold_def put_reservation_def Let_def split: prod.splits)

lemma record_hold_agents [simp]: "db_agents (record_hold now occ agent op d) = db_agents d"
  by (simp add: record_hold_def put_reservation_def Let_def split: prod.splits)

lemma occupied_conclude [simp]: "occupied_pks (conclude_reservation now r c why d) g = occupied_pks d g"
  by (simp add: conclude_reservation_def occupied_pks_def put_reservation_def)

lemma record_hold_new:
  "get_row rs_key op (db_reservations d) = None \<Longrightarrow>
   record_hold now occ agent op d =
     d\<lparr>db_reservations := db_reservations d @ [new_reservation (db_next_pk d) op occ agent now],
       db_next_pk := Suc (db_next_pk d)\<rparr>"
  by (simp add: record_hold_def get_or_create_def new_reservation_def)

lemma record_hold_known:
  "get_row rs_key op (db_reservations d) = Some r \<Longrightarrow>
   record_hold now occ agent op d =
     (if rs_state r = Released
      then put_reservation (r\<lparr>rs_state := Held, rs_held_at := now, rs_concluded_at := None, rs_reason := []\<rparr>) d
      else d)"
  by (simp add: record_hold_def get_or_create_def new_reservation_def)

text \<open>A hold can only add the ticket of the operation to the portfolio of its agent.\<close>

lemma reserved_record_hold_subset:
  "set (reserved_pks (record_hold now occ agent op d) g) \<subseteq>
   set (reserved_pks d g) \<union>
     (case get_row rs_key op (db_reservations d) of
        None \<Rightarrow> (if g = agent then {occ} else {})
      | Some r \<Rightarrow> (if g = rs_agent r then {rs_occupancy r} else {}))"
proof (cases "get_row rs_key op (db_reservations d)")
  case None
  then show ?thesis by (auto simp: record_hold_new reserved_pks_def new_reservation_def)
next
  case (Some r)
  then show ?thesis
    by (auto simp: record_hold_known in_reserved put_reservation_def dest!: in_save_row)
qed

lemma card_insert_bound: "finite A \<Longrightarrow> B \<subseteq> A \<union> C \<Longrightarrow> C \<subseteq> {x} \<Longrightarrow> card B \<le> Suc (card A)"
proof -
  assume "finite A" "B \<subseteq> A \<union> C" "C \<subseteq> {x}"
  then have "card B \<le> card (insert x A)" by (intro card_mono) auto
  also have "\<dots> \<le> Suc (card A)" using \<open>finite A\<close> by (simp add: card_insert_if)
  finally show ?thesis .
qed

lemma count_record_hold:
  "capacity_count (record_hold now occ agent op d) g \<le> Suc (capacity_count d g)"
proof -
  let ?C = "case get_row rs_key op (db_reservations d) of
        None \<Rightarrow> (if g = agent then {occ} else {}) | Some r \<Rightarrow> (if g = rs_agent r then {rs_occupancy r} else {})"
  have "?C \<subseteq> {case get_row rs_key op (db_reservations d) of None \<Rightarrow> occ | Some r \<Rightarrow> rs_occupancy r}"
    by (auto split: option.splits if_splits)
  then show ?thesis
    unfolding capacity_count_card occupied_record_hold
    by (rule card_insert_bound [rotated 2, where C = ?C])
      (use reserved_record_hold_subset [of now occ agent op d g] in blast)+
qed

lemma count_hold_capacity:
  assumes "distinct (map oc_pk (db_occupancies d))" and "occ \<in> set (db_occupancies d)"
  shows "capacity_count (hold_capacity cfg now occ agent op d) g =
    capacity_count (record_hold now (oc_pk occ) agent op d) g"
  unfolding hold_capacity_def materialize_count
  by (rule capacity_count_cong) (simp_all add: occupied_put_revision assms)

section \<open>One occupancy per ticket\<close>

lemma get_or_create_occupancy_known:
  "get_row oc_ident q (db_occupancies d) = Some r \<Longrightarrow> get_or_create_occupancy q d = (d, r)"
  by (simp add: get_or_create_occupancy_def get_or_create_def oc_ident_def new_occupancy_def)

lemma get_or_create_occupancy_new:
  "get_row oc_ident q (db_occupancies d) = None \<Longrightarrow>
   get_or_create_occupancy q d =
     (d\<lparr>db_occupancies := db_occupancies d @ [new_occupancy (db_next_pk d) (fst q) (snd q)],
        db_next_pk := Suc (db_next_pk d)\<rparr>, new_occupancy (db_next_pk d) (fst q) (snd q))"
  by (simp add: get_or_create_occupancy_def get_or_create_def oc_ident_def new_occupancy_def)

interpretation occupancies: unique_ledger db_occupancies oc_ident "\<lambda>q. q" get_or_create_occupancy
proof unfold_locales
  fix q :: "string \<times> string" and s :: db and r
  assume "distinct (map oc_ident (db_occupancies s))" "r \<in> set (db_occupancies s)" "oc_ident r = q"
  then show "get_or_create_occupancy q s = (s, r)"
    using get_or_create_occupancy_known get_row_distinct by metis
next
  fix q :: "string \<times> string" and s :: db
  assume "\<And>r. r \<in> set (db_occupancies s) \<Longrightarrow> oc_ident r \<noteq> q"
  then have "get_row oc_ident q (db_occupancies s) = None" by (simp add: get_row_None)
  then show "oc_ident (snd (get_or_create_occupancy q s)) = q \<and>
      db_occupancies (fst (get_or_create_occupancy q s)) = db_occupancies s @ [snd (get_or_create_occupancy q s)]"
    by (simp add: get_or_create_occupancy_new oc_ident_def new_occupancy_def)
qed

section \<open>The projection on agents\<close>

text \<open>Under enforcement the chat count of an agent is the size of its portfolio.\<close>

definition projected :: "db \<Rightarrow> bool" where
  "projected d \<longleftrightarrow> list_all (\<lambda>a. ag_chats a = int (capacity_count d (ag_pk a))) (db_agents d)"

lemma materialize_agent_simps [simp]:
  "ag_pk (materialize_agent cfg d a) = ag_pk a"
  "capacity_enforced cfg \<Longrightarrow> ag_chats (materialize_agent cfg d a) = int (capacity_count d (ag_pk a))"
  "\<not> capacity_enforced cfg \<Longrightarrow> ag_chats (materialize_agent cfg d a) = ag_chats a"
  "ag_owner (materialize_agent cfg d a) = ag_owner a"
  by (simp_all add: materialize_agent_def Let_def)

lemma materialize_projected:
  assumes "capacity_enforced cfg" and "projected d0" and "db_agents d = db_agents d0"
    and "\<And>g. g \<notin> set ids \<Longrightarrow> capacity_count d g = capacity_count d0 g"
  shows "projected (materialize cfg ids d)"
  unfolding projected_def list_all_iff
proof
  fix a
  assume "a \<in> set (db_agents (materialize cfg ids d))"
  then obtain b where b: "b \<in> set (db_agents d0)" "a = (if ag_pk b \<in> set ids then materialize_agent cfg d b else b)"
    using assms(3) by (auto simp: materialize_def dest: in_update_rows)
  then have "ag_chats b = int (capacity_count d0 (ag_pk b))" using assms(2) by (simp add: projected_def list_all_iff)
  then show "ag_chats a = int (capacity_count (materialize cfg ids d) (ag_pk a))"
    using b assms(1,4) by (cases "ag_pk b \<in> set ids") simp_all
qed

lemma count_record_hold_other:
  assumes "\<And>r. r \<in> set (db_reservations d) \<Longrightarrow> rs_key r = op \<Longrightarrow> rs_agent r = agent" and "g \<noteq> agent"
    and "distinct (map rs_pk (db_reservations d))"
  shows "capacity_count (record_hold now occ agent op d) g = capacity_count d g"
proof -
  have "reserved_pks (record_hold now occ agent op d) g = reserved_pks d g"
  proof (cases "get_row rs_key op (db_reservations d)")
    case None
    then show ?thesis using assms(2) by (simp add: record_hold_new reserved_pks_def new_reservation_def)
  next
    case (Some r)
    then have r: "r \<in> set (db_reservations d)" "rs_agent r = agent"
      using get_row_Some_in [OF Some] assms(1) by auto
    then show ?thesis
      using Some assms(2,3)
      by (auto simp: record_hold_known reserved_pks_def put_reservation_def
          intro!: save_row_same_view [where ?r0.0 = r])
  qed
  then show ?thesis by (simp add: capacity_count_def)
qed

lemma hold_capacity_agents:
  "db_agents (hold_capacity cfg now occ agent op d) =
     update_rows (\<lambda>a. ag_pk a \<in> set [agent])
       (materialize_agent cfg (put_occupancy (occ\<lparr>oc_revision := oc_revision occ + 1\<rparr>) (record_hold now (oc_pk occ) agent op d)))
       (db_agents d)"
  by (simp add: hold_capacity_def materialize_def put_occupancy_def)

lemma reserved_conclude_subset:
  "set (reserved_pks (conclude_reservation now r c why d) g) \<subseteq> set (reserved_pks d g)"
  by (auto simp: conclude_reservation_def in_reserved put_reservation_def dest!: in_save_row)

lemma conclude_agents [simp]: "db_agents (conclude_reservation now r c why d) = db_agents d"
  by (simp add: conclude_reservation_def put_reservation_def)

lemma reserved_conclude_other:
  assumes "distinct (map rs_pk (db_reservations d))" and "r \<in> set (db_reservations d)" and "g \<noteq> rs_agent r"
  shows "reserved_pks (conclude_reservation now r c why d) g = reserved_pks d g"
  using assms
  by (auto simp: conclude_reservation_def reserved_pks_def put_reservation_def
      intro!: save_row_same_view [where ?r0.0 = r])

section \<open>Properties\<close>

text \<open>C40: a hold never exceeds the limit of the agent.  When the check under the agent lock
  (\<open>capacity_ready\<close>) passes, holding the ticket leaves the portfolio of the agent within its
  limit, whatever the operation, and a hold of a new operation changes no other portfolio.\<close>

theorem hold_stays_within_limit:
  assumes "capacity_ready cfg now d a" and "occ \<in> set (db_occupancies d)"
    and "distinct (map oc_pk (db_occupancies d))"
  shows "int (capacity_count (hold_capacity cfg later occ (ag_pk a) op d) (ag_pk a)) \<le> max_chats_coalesced a \<and>
    (get_row rs_key op (db_reservations d) = None \<longrightarrow>
       (\<forall>g. g \<noteq> ag_pk a \<longrightarrow> capacity_count (hold_capacity cfg later occ (ag_pk a) op d) g = capacity_count d g))"
proof -
  have "int (capacity_count d (ag_pk a)) < max_chats_coalesced a"
    using assms(1) by (simp add: capacity_ready_def)
  moreover have "capacity_count (record_hold later (oc_pk occ) (ag_pk a) op d) g = capacity_count d g"
    if "get_row rs_key op (db_reservations d) = None" "g \<noteq> ag_pk a" for g
    using that
    by (intro capacity_count_cong) (simp_all add: record_hold_new reserved_pks_def occupied_pks_def new_reservation_def)
  ultimately show ?thesis
    using count_record_hold [of later "oc_pk occ" "ag_pk a" op d "ag_pk a"]
    by (simp add: count_hold_capacity [OF assms(3,2)])
qed

text \<open>The projection is an invariant of the enforcing mode.  If every agent's chat count is
  the number of distinct tickets it occupies or has reserved, the same holds after a hold for
  the agent of the operation and after concluding one of its reservations either way.\<close>

theorem projection_maintained:
  assumes "capacity_enforced cfg" and "projected d"
    and "distinct (map rs_pk (db_reservations d))" and "distinct (map oc_pk (db_occupancies d))"
  shows "(occ \<in> set (db_occupancies d) \<and> (\<forall>r \<in> set (db_reservations d). rs_key r = op \<longrightarrow> rs_agent r = agent) \<longrightarrow>
      projected (hold_capacity cfg now occ agent op d)) \<and>
    (\<forall>r \<in> set (db_reservations d).
      projected (materialize cfg [rs_agent r] (conclude_reservation now r converted why d)))"
proof (intro conjI impI ballI)
  assume "occ \<in> set (db_occupancies d) \<and> (\<forall>r \<in> set (db_reservations d). rs_key r = op \<longrightarrow> rs_agent r = agent)"
  then show "projected (hold_capacity cfg now occ agent op d)"
    unfolding hold_capacity_def
    using assms count_hold_capacity [of d occ cfg now agent op]
    by (intro materialize_projected [OF assms(1,2)])
      (simp_all add: put_occupancy_def hold_capacity_def count_record_hold_other)
next
  fix r
  assume r: "r \<in> set (db_reservations d)"
  show "projected (materialize cfg [rs_agent r] (conclude_reservation now r converted why d))"
    using assms r
    by (intro materialize_projected [OF assms(1,2)])
      (simp_all add: capacity_count_def reserved_conclude_other)
qed

text \<open>Releasing undoes the hold.  Holding a ticket for a new operation and then releasing
  that reservation gives every agent back the portfolio it had; releasing a second time
  changes nothing.\<close>

theorem release_undoes_hold:
  assumes "get_row rs_key op (db_reservations d) = None" and "occ \<in> set (db_occupancies d)"
    and "distinct (map oc_pk (db_occupancies d))" and "\<forall>r \<in> set (db_reservations d). rs_pk r < db_next_pk d"
  shows "let r = new_reservation (db_next_pk d) op (oc_pk occ) agent now;
             d1 = hold_capacity cfg now occ agent op d;
             d2 = conclude_reservation later r False why d1
         in r \<in> set (db_reservations d1) \<and> capacity_count d2 g = capacity_count d g \<and>
            (\<forall>r' \<in> set (db_reservations d2). rs_pk r' = rs_pk r \<longrightarrow>
               conclude_reservation again r' converted why' d2 = d2)"
proof -
  let ?r = "new_reservation (db_next_pk d) op (oc_pk occ) agent now"
  let ?d1 = "hold_capacity cfg now occ agent op d"
  let ?d2 = "conclude_reservation later ?r False why ?d1"
  have rows: "db_reservations ?d1 = db_reservations d @ [?r]"
    by (simp add: hold_capacity_def record_hold_new assms(1) put_occupancy_def)
  have other: "rs_pk x \<noteq> rs_pk ?r" if "x \<in> set (db_reservations d)" for x
    using assms(4) that by (auto simp: new_reservation_def)
  let ?r' = "?r\<lparr>rs_state := Released, rs_concluded_at := Some later, rs_reason := take 128 why\<rparr>"
  have keep: "map (\<lambda>x. if rs_pk x = rs_pk ?r then ?r' else x) (db_reservations d) = db_reservations d"
    using other by (intro map_idI) simp
  have rows2: "db_reservations ?d2 = db_reservations d @ [?r']"
    using keep by (simp add: conclude_reservation_def put_reservation_def rows save_row_def)
      (simp add: new_reservation_def)
  have "reserved_pks ?d2 g = reserved_pks d g" by (simp add: reserved_pks_def rows2)
  moreover have "occupied_pks ?d2 g = occupied_pks d g"
  proof -
    have "occupied_pks ?d1 g = occupied_pks (put_occupancy (occ\<lparr>oc_revision := oc_revision occ + 1\<rparr>)
        (record_hold now (oc_pk occ) agent op d)) g"
      by (simp add: hold_capacity_def occupied_pks_def)
    then show ?thesis by (simp add: occupied_put_revision assms(2,3))
  qed
  ultimately have "capacity_count ?d2 g = capacity_count d g" by (simp add: capacity_count_def)
  moreover have "conclude_reservation again r' converted why' ?d2 = ?d2"
    if "r' \<in> set (db_reservations ?d2)" "rs_pk r' = rs_pk ?r" for r'
  proof -
    have "r' \<in> set (db_reservations d @ [?r'])" using that(1) by (simp only: rows2)
    then have "rs_state r' = Released" using that(2) other by auto
    then show ?thesis unfolding conclude_reservation_def [of again] by simp
  qed
  ultimately show ?thesis by (simp add: Let_def rows)
qed

text \<open>One occupancy per ticket.  Opening ticket transactions for any sequence of tickets keeps
  at most one occupancy row per account and ticket, every ticket of the sequence has one, and
  replaying tickets of the sequence in any order changes nothing.\<close>

theorem one_occupancy_per_ticket:
  assumes "distinct (map oc_ident (db_occupancies d))"
  shows "distinct (map oc_ident (db_occupancies (fold (\<lambda>q d. fst (get_or_create_occupancy q d)) qs d))) \<and>
    set qs \<subseteq> oc_ident ` set (db_occupancies (fold (\<lambda>q d. fst (get_or_create_occupancy q d)) qs d)) \<and>
    (set qs' \<subseteq> set qs \<longrightarrow>
       fold (\<lambda>q d. fst (get_or_create_occupancy q d)) qs' (fold (\<lambda>q d. fst (get_or_create_occupancy q d)) qs d) =
       fold (\<lambda>q d. fst (get_or_create_occupancy q d)) qs d)"
  using occupancies.adds_distinct [OF assms] occupancies.adds_present [OF assms, of qs]
    occupancies.adds_idempotent [OF assms, of qs' qs]
  by simp

section \<open>Witnesses\<close>

definition demo_occupancy :: occupancy where
  "demo_occupancy = (new_occupancy 7 ''7'' ''42'')\<lparr>oc_state := Oc_Active, oc_owner := Some 10, oc_agent := Some 1\<rparr>"

definition demo_agent :: "uuid \<Rightarrow> int \<Rightarrow> agent" where
  "demo_agent k owner = \<lparr>ag_pk = k, ag_name = ''A'', ag_email = ''a@x'', ag_owner = owner, ag_status = Online, ag_chats = 0,
     ag_cap_revision = 0, ag_cap_state = ''ready'', ag_cap_reconciled_at = Some 0, ag_max_chats = Some 2,
     ag_auto_assign = True, ag_is_active = Some True, ag_last_assignment_at = None, ag_total_assignments = 0,
     ag_online_secs = 0, ag_away_secs = 0, ag_last_status_change_at = None, ag_heartbeat_at = None,
     ag_count_sync_at = None, ag_user_id = Some ''u'', ag_remote_status = ''available'', ag_observed_at = Some 0,
     ag_online_since = Some 0, ag_sample_count = 3, ag_elig_state = El_Eligible, ag_elig_reason = ''eligible'',
     ag_elig_evaluated_at = Some 0, ag_writer_id = ''w'', ag_avail_revision = 1, ag_fencing_token = 1,
     ag_updated_at = None\<rparr>"

definition enforce_cfg :: settings where
  "enforce_cfg = demo_cfg\<lparr>capacity_mode_of := Capacity_Enforce\<rparr>"

definition demo_capacity_db :: db where
  "demo_capacity_db = empty_db\<lparr>db_agents := [(demo_agent 1 10)\<lparr>ag_chats := 1\<rparr>, demo_agent 2 20],
     db_occupancies := [demo_occupancy, new_occupancy 8 ''7'' ''43''], db_next_pk := 100\<rparr>"

theorem hold_stays_within_limit_witness:
  "capacity_count (hold_capacity enforce_cfg 6 (new_occupancy 8 ''7'' ''43'') 1 (Attempt_Op 5) demo_capacity_db) 1 = 2 \<and>
   int (capacity_count (hold_capacity enforce_cfg 6 (new_occupancy 8 ''7'' ''43'') 1 (Attempt_Op 5) demo_capacity_db) 1) \<le> 2"
proof -
  have "capacity_ready enforce_cfg 5 demo_capacity_db (demo_agent 1 10)"
    "new_occupancy 8 ''7'' ''43'' \<in> set (db_occupancies demo_capacity_db)"
    "distinct (map oc_pk (db_occupancies demo_capacity_db))" by code_simp+
  from hold_stays_within_limit [OF this, of 6 "Attempt_Op 5"]
  have "int (capacity_count (hold_capacity enforce_cfg 6 (new_occupancy 8 ''7'' ''43'') 1 (Attempt_Op 5) demo_capacity_db) 1) \<le> 2"
    by (simp add: demo_agent_def max_chats_coalesced_def)
  moreover have "capacity_count (hold_capacity enforce_cfg 6 (new_occupancy 8 ''7'' ''43'') 1 (Attempt_Op 5) demo_capacity_db) 1 = 2"
    by code_simp
  ultimately show ?thesis by blast
qed

theorem projection_maintained_witness:
  "projected demo_capacity_db \<and>
   projected (hold_capacity enforce_cfg 6 (new_occupancy 8 ''7'' ''43'') 1 (Attempt_Op 5) demo_capacity_db)"
proof -
  have p: "capacity_enforced enforce_cfg" "projected demo_capacity_db"
    "distinct (map rs_pk (db_reservations demo_capacity_db))"
    "distinct (map oc_pk (db_occupancies demo_capacity_db))" by code_simp+
  have m: "new_occupancy 8 ''7'' ''43'' \<in> set (db_occupancies demo_capacity_db)" by code_simp
  have n: "\<forall>r \<in> set (db_reservations demo_capacity_db). rs_key r = Attempt_Op 5 \<longrightarrow> rs_agent r = 1"
    by (simp add: demo_capacity_db_def empty_db_def)
  show ?thesis
    using p(2) projection_maintained [OF p, of "new_occupancy 8 ''7'' ''43''" "Attempt_Op 5" 1 6 False "[]"] m n
    by blast
qed

theorem release_undoes_hold_witness:
  "capacity_count (conclude_reservation 9 (new_reservation 100 (Attempt_Op 5) 8 1 6) False ''stale_ticket''
     (hold_capacity enforce_cfg 6 (new_occupancy 8 ''7'' ''43'') 1 (Attempt_Op 5) demo_capacity_db)) 1 = 1"
proof -
  have p: "get_row rs_key (Attempt_Op 5) (db_reservations demo_capacity_db) = None"
    "new_occupancy 8 ''7'' ''43'' \<in> set (db_occupancies demo_capacity_db)"
    "distinct (map oc_pk (db_occupancies demo_capacity_db))"
    "\<forall>r \<in> set (db_reservations demo_capacity_db). rs_pk r < db_next_pk demo_capacity_db" by code_simp+
  have "capacity_count demo_capacity_db 1 = 1" "db_next_pk demo_capacity_db = 100"
    "oc_pk (new_occupancy 8 ''7'' ''43'') = 8" by code_simp+
  then show ?thesis
    using release_undoes_hold [OF p, of 1 6 enforce_cfg 9 "''stale_ticket''" 1 0 False "[]"]
    by (simp add: Let_def)
qed

theorem one_occupancy_per_ticket_witness:
  "let d = fst (get_or_create_occupancy (''7'', ''99'') demo_capacity_db)
   in fst (get_or_create_occupancy (''7'', ''99'') d) = d \<and> length (db_occupancies d) = 3"
proof -
  have "distinct (map oc_ident (db_occupancies demo_capacity_db))" by code_simp
  from one_occupancy_per_ticket [OF this, of "[(''7'', ''99'')]" "[(''7'', ''99'')]"]
  have "fst (get_or_create_occupancy (''7'', ''99'') (fst (get_or_create_occupancy (''7'', ''99'') demo_capacity_db))) =
    fst (get_or_create_occupancy (''7'', ''99'') demo_capacity_db)" by simp
  moreover have "length (db_occupancies (fst (get_or_create_occupancy (''7'', ''99'') demo_capacity_db))) = 3" by code_simp
  ultimately show ?thesis by (simp add: Let_def)
qed

end
