(* ===== verification/Eligibility.thy ===== *)
theory Eligibility
  imports Capacity
begin

text \<open>
  The eligibility decisions of \<open>apps/support/eligibility_service.py\<close> and the candidate
  selection of \<open>apps/support/queue_service.py\<close>.  The IANA time-zone database enters as the
  function from a zone name and an instant to the local weekday (Monday is 0) and minute.
\<close>

section \<open>Decisions\<close>

datatype reason =
    ELIGIBLE | RUNTIME_NOT_AUTHORITATIVE | AGENT_INACTIVE | AUTO_ASSIGN_DISABLED | MISSING_IDENTITY
  | MISSING_OBSERVATION | STALE_OBSERVATION | REMOTE_AWAY | UNKNOWN_REMOTE_STATUS | ACTIVE_OUT_OF_OFFICE
  | OUTSIDE_WORKING_HOURS | STABILIZING | AT_CAPACITY | MALFORMED_REMOTE_DATA

fun reason_value :: "reason \<Rightarrow> string" where
  "reason_value ELIGIBLE = ''eligible''"
| "reason_value RUNTIME_NOT_AUTHORITATIVE = ''runtime_not_authoritative''"
| "reason_value AGENT_INACTIVE = ''agent_inactive''"
| "reason_value AUTO_ASSIGN_DISABLED = ''auto_assign_disabled''"
| "reason_value MISSING_IDENTITY = ''missing_identity''"
| "reason_value MISSING_OBSERVATION = ''missing_observation''"
| "reason_value STALE_OBSERVATION = ''stale_observation''"
| "reason_value REMOTE_AWAY = ''remote_away''"
| "reason_value UNKNOWN_REMOTE_STATUS = ''unknown_remote_status''"
| "reason_value ACTIVE_OUT_OF_OFFICE = ''active_out_of_office''"
| "reason_value OUTSIDE_WORKING_HOURS = ''outside_working_hours''"
| "reason_value STABILIZING = ''stabilizing''"
| "reason_value AT_CAPACITY = ''at_capacity''"
| "reason_value MALFORMED_REMOTE_DATA = ''malformed_remote_data''"

definition all_reasons :: "reason list" where
  "all_reasons = [ELIGIBLE, RUNTIME_NOT_AUTHORITATIVE, AGENT_INACTIVE, AUTO_ASSIGN_DISABLED, MISSING_IDENTITY,
     MISSING_OBSERVATION, STALE_OBSERVATION, REMOTE_AWAY, UNKNOWN_REMOTE_STATUS, ACTIVE_OUT_OF_OFFICE,
     OUTSIDE_WORKING_HOURS, STABILIZING, AT_CAPACITY, MALFORMED_REMOTE_DATA]"

text \<open>\<open>EligibilityReason(text)\<close>; \<open>None\<close> is the \<open>ValueError\<close>.\<close>

definition reason_of :: "string \<Rightarrow> reason option" where
  "reason_of s = find (\<lambda>r. reason_value r = s) all_reasons"

record decision =
  eligible :: bool
  reason :: reason

definition accept :: decision where
  "accept = \<lparr>eligible = True, reason = ELIGIBLE\<rparr>"

definition reject :: "reason \<Rightarrow> decision" where
  "reject r = \<lparr>eligible = False, reason = r\<rparr>"

definition decision_state :: "decision \<Rightarrow> eligibility_state" where
  "decision_state d = (if eligible d then El_Eligible else El_Ineligible)"

lemma decision_simps [simp]:
  "eligible accept" "reason accept = ELIGIBLE" "\<not> eligible (reject r)" "reason (reject r) = r"
  by (simp_all add: accept_def reject_def)

section \<open>Remote observations\<close>

record working_window =
  ww_days :: string
  ww_start :: int
  ww_end :: int

record observation =
  ob_user_id :: string
  ob_status :: string
  ob_absences :: "(instant \<times> instant) list"
  ob_hours :: "working_window list"
  ob_zone :: "string option"

fun day_groups :: "string \<Rightarrow> int list" where
  "day_groups s =
     (if s = ''MONDAY_TO_FRIDAY'' then [0, 1, 2, 3, 4]
      else if s = ''SATURDAY_SUNDAY'' then [5, 6]
      else if s = ''EVERY_DAY'' then [0, 1, 2, 3, 4, 5, 6]
      else if s = ''MONDAY'' then [0]
      else if s = ''TUESDAY'' then [1]
      else if s = ''WEDNESDAY'' then [2]
      else if s = ''THURSDAY'' then [3]
      else if s = ''FRIDAY'' then [4]
      else if s = ''SATURDAY'' then [5]
      else if s = ''SUNDAY'' then [6]
      else [])"

definition within_window :: "int \<times> int \<Rightarrow> working_window \<Rightarrow> bool" where
  "within_window local w = (case local of (weekday, minute) \<Rightarrow>
     weekday \<in> set (day_groups (ww_days w)) \<and> ww_start w \<le> minute \<and> minute < ww_end w)"

definition absent_at :: "instant \<Rightarrow> observation \<Rightarrow> bool" where
  "absent_at now ob = list_ex (\<lambda>(s, e). s \<le> now \<and> now < e) (ob_absences ob)"

definition hours_decision :: "bool \<Rightarrow> decision" where
  "hours_decision within = (if within then accept else reject OUTSIDE_WORKING_HOURS)"

definition evaluate_observation_signals ::
  "(string \<Rightarrow> instant \<Rightarrow> int \<times> int) \<Rightarrow> observation \<Rightarrow> instant \<Rightarrow> bool option \<Rightarrow> decision" where
  "evaluate_observation_signals local_time ob now within =
     (if ob_user_id ob = [] then reject MISSING_IDENTITY
      else if ob_status ob = ''away'' then reject REMOTE_AWAY
      else if ob_status ob \<noteq> ''available'' then reject UNKNOWN_REMOTE_STATUS
      else if absent_at now ob then reject ACTIVE_OUT_OF_OFFICE
      else case within of
             Some w \<Rightarrow> hours_decision w
           | None \<Rightarrow>
               (case ob_zone ob of
                  None \<Rightarrow> reject MALFORMED_REMOTE_DATA
                | Some z \<Rightarrow>
                    (if ob_hours ob = [] then reject MALFORMED_REMOTE_DATA
                     else hours_decision (list_ex (within_window (local_time z now)) (ob_hours ob)))))"

section \<open>Persisted agents\<close>

text \<open>\<open>agent.max_simultaneous_chats or 5\<close>: Python's \<open>or\<close> also replaces a limit of zero.\<close>

definition max_chats_or_5 :: "agent \<Rightarrow> int" where
  "max_chats_or_5 a = (case ag_max_chats a of None \<Rightarrow> 5 | Some n \<Rightarrow> (if n = 0 then 5 else n))"

definition evaluate_persisted_agent :: "settings \<Rightarrow> agent \<Rightarrow> instant \<Rightarrow> decision" where
  "evaluate_persisted_agent cfg a now =
     (if ag_is_active a = Some False then reject AGENT_INACTIVE
      else if \<not> ag_auto_assign a then reject AUTO_ASSIGN_DISABLED
      else if \<not> opt_truthy (ag_user_id a) then reject MISSING_IDENTITY
      else case ag_observed_at a of
             None \<Rightarrow> reject MISSING_OBSERVATION
           | Some t \<Rightarrow>
               (if t < now - seconds (availability_freshness_seconds cfg) then reject STALE_OBSERVATION
                else if ag_elig_state a \<noteq> El_Eligible then
                  reject (case reason_of (ag_elig_reason a) of Some r \<Rightarrow> r | None \<Rightarrow> MALFORMED_REMOTE_DATA)
                else if ag_chats a \<ge> max_chats_or_5 a then reject AT_CAPACITY
                else accept))"

section \<open>Candidates\<close>

definition eligible_query :: "settings \<Rightarrow> instant \<Rightarrow> bool \<Rightarrow> agent \<Rightarrow> bool" where
  "eligible_query cfg now include_capacity_blocked a \<longleftrightarrow>
     ag_status a = Online \<and> ag_auto_assign a \<and>
     (include_capacity_blocked \<or> ag_chats a < max_chats_coalesced a) \<and>
     (absence_safe_enforced cfg \<longrightarrow>
        ag_elig_state a = El_Eligible \<and>
        (case ag_observed_at a of None \<Rightarrow> False
         | Some t \<Rightarrow> t \<ge> now - seconds (availability_freshness_seconds cfg))) \<and>
     (is_automatic_assignment_canary_configured cfg \<longrightarrow>
        ag_pk a \<in> set (automatic_assignment_canary_agent_ids cfg)) \<and>
     ag_is_active a \<noteq> Some False"

definition get_eligible_agents :: "settings \<Rightarrow> instant \<Rightarrow> bool \<Rightarrow> db \<Rightarrow> agent list" where
  "get_eligible_agents cfg now include_capacity_blocked d =
     sort_key ag_name (filter (eligible_query cfg now include_capacity_blocked) (db_agents d))"

text \<open>Agents without an assignment sort as if assigned on 2000-01-01.\<close>

definition epoch_2000 :: instant where
  "epoch_2000 = 946684800000000"

definition rank_key :: "agent \<Rightarrow> instant \<times> int \<times> uuid" where
  "rank_key a = (case ag_last_assignment_at a of None \<Rightarrow> epoch_2000 | Some t \<Rightarrow> t, ag_chats a, ag_pk a)"

definition without_last_owner :: "int option \<Rightarrow> agent list \<Rightarrow> agent list" where
  "without_last_owner recent agents =
     (case recent of
        None \<Rightarrow> agents
      | Some owner \<Rightarrow>
          (if length agents > 1 then
             (let others = filter (\<lambda>a. ag_owner a \<noteq> owner) agents
              in if others = [] then agents else others)
           else agents))"

definition get_ranked_eligible_agents :: "settings \<Rightarrow> instant \<Rightarrow> int option \<Rightarrow> db \<Rightarrow> agent list" where
  "get_ranked_eligible_agents cfg now recent d =
     sort_key rank_key (without_last_owner recent (get_eligible_agents cfg now False d))"

text \<open>The owner of the newest automatic log entry.\<close>

definition get_last_assigned_owner_id :: "db \<Rightarrow> int option" where
  "get_last_assigned_owner_id d =
     (case first_by (\<lambda>l. - lg_assigned_at l)
             (\<lambda>l. (lg_type l = ''automatic'' \<or> lg_type l = ''automatic_assignment'') \<and> lg_owner l \<noteq> None)
             (db_logs d) of
        None \<Rightarrow> None | Some l \<Rightarrow> lg_owner l)"

definition ordered_candidates :: "settings \<Rightarrow> instant \<Rightarrow> db \<Rightarrow> agent list" where
  "ordered_candidates cfg now d = get_ranked_eligible_agents cfg now (get_last_assigned_owner_id d) d"


definition fair_key :: "agent \<Rightarrow> instant \<times> int" where
  "fair_key a = (case ag_last_assignment_at a of None \<Rightarrow> epoch_2000 | Some t \<Rightarrow> t, ag_chats a)"

definition select_next_agent :: "settings \<Rightarrow> instant \<Rightarrow> int option \<Rightarrow> db \<Rightarrow> agent option" where
  "select_next_agent cfg now recent d =
     (case sort_key fair_key (without_last_owner recent (get_eligible_agents cfg now False d)) of
        [] \<Rightarrow> None | a # _ \<Rightarrow> Some a)"

section \<open>Chat counters\<close>

definition increment_agent_chat_count :: "settings \<Rightarrow> instant \<Rightarrow> uuid \<Rightarrow> db \<Rightarrow> db result" where
  "increment_agent_chat_count cfg now k d =
     (case require_routing_writer_authority cfg of
        Inl e \<Rightarrow> Inl e
      | Inr _ \<Rightarrow>
          (if capacity_enforced cfg then Inl RuntimeError
           else Inr (d\<lparr>db_agents := update_rows (\<lambda>a. ag_pk a = k)
             (\<lambda>a. a\<lparr>ag_chats := ag_chats a + 1, ag_last_assignment_at := Some now, ag_updated_at := Some now\<rparr>)
             (db_agents d)\<rparr>)))"

definition decrement_agent_chat_count :: "settings \<Rightarrow> instant \<Rightarrow> uuid \<Rightarrow> db \<Rightarrow> db result" where
  "decrement_agent_chat_count cfg now k d =
     (case require_routing_writer_authority cfg of
        Inl e \<Rightarrow> Inl e
      | Inr _ \<Rightarrow>
          (if capacity_enforced cfg then Inl RuntimeError
           else Inr (d\<lparr>db_agents := update_rows (\<lambda>a. ag_pk a = k)
             (\<lambda>a. a\<lparr>ag_chats := max (ag_chats a - 1) 0, ag_updated_at := Some now\<rparr>) (db_agents d)\<rparr>)))"

section \<open>Queue status\<close>

record queue_status_view =
  qs_online_agents :: nat
  qs_eligible_agents :: nat
  qs_pending_queue_depth :: nat
  qs_agents :: "(uuid \<times> string \<times> int \<times> int \<times> int option \<times> instant option) list"

definition get_queue_status :: "settings \<Rightarrow> instant \<Rightarrow> db \<Rightarrow> queue_status_view" where
  "get_queue_status cfg now d =
     \<lparr>qs_online_agents = count_rows (\<lambda>a. ag_status a = Online) (db_agents d),
      qs_eligible_agents = length (get_eligible_agents cfg now False d),
      qs_pending_queue_depth = count_rows (\<lambda>q. nc_status q \<noteq> Failed) (db_queue d),
      qs_agents = map (\<lambda>a. (ag_pk a, ag_name a, ag_owner a, ag_chats a, ag_max_chats a, ag_last_assignment_at a))
        (filter (\<lambda>a. ag_status a = Online) (db_agents d))\<rparr>"

section \<open>Facts\<close>

lemma reason_roundtrip: "reason_of (reason_value r) = Some r"
  by (cases r) (simp_all add: reason_of_def all_reasons_def)

lemma hours_decision_eligible [simp]: "eligible (hours_decision w) \<longleftrightarrow> w"
  by (simp add: hours_decision_def)

lemma not_absent_iff: "absent_at now ob \<longleftrightarrow> \<not> (\<forall>(s, e) \<in> set (ob_absences ob). now < s \<or> e \<le> now)"
proof -
  have "(\<not> (now < s \<or> e \<le> now)) = (s \<le> now \<and> now < e)" for s e :: instant by auto
  then show ?thesis by (simp add: absent_at_def list_ex_iff split_def)
qed

lemma get_eligible_agents_iff:
  "a \<in> set (get_eligible_agents cfg now blocked d) \<longleftrightarrow> a \<in> set (db_agents d) \<and> eligible_query cfg now blocked a"
  by (auto simp: get_eligible_agents_def)

lemma without_last_owner_subset: "set (without_last_owner recent xs) \<subseteq> set xs"
  by (auto simp: without_last_owner_def Let_def split: option.splits)

lemma without_last_owner_nonempty: "xs \<noteq> [] \<Longrightarrow> without_last_owner recent xs \<noteq> []"
  by (auto simp: without_last_owner_def Let_def split: option.splits)

lemma set_ranked: "set (get_ranked_eligible_agents cfg now recent d) =
    set (without_last_owner recent (get_eligible_agents cfg now False d))"
  by (simp add: get_ranked_eligible_agents_def)

lemma ranked_eligible:
  "a \<in> set (get_ranked_eligible_agents cfg now recent d) \<Longrightarrow> a \<in> set (db_agents d) \<and> eligible_query cfg now False a"
  using without_last_owner_subset [of recent "get_eligible_agents cfg now False d"]
  by (auto simp: set_ranked get_eligible_agents_iff)

lemma ranked_sorted: "sorted (map rank_key (get_ranked_eligible_agents cfg now recent d))"
  by (simp add: get_ranked_eligible_agents_def)

lemma sorted_head_least: "sorted (map f (x # xs)) \<Longrightarrow> y \<in> set (x # xs) \<Longrightarrow> f x \<le> f y"
  by auto

lemma ordered_candidates_eligible:
  "a \<in> set (ordered_candidates cfg now d) \<Longrightarrow> a \<in> set (db_agents d) \<and> eligible_query cfg now False a"
  by (simp add: ordered_candidates_def ranked_eligible)

section \<open>Properties\<close>

text \<open>The re-evaluation before a reservation fails closed.  An agent is accepted exactly
  when it is not deactivated, takes automatic assignments, has a provider identity, was
  observed within the freshness window, was persisted as eligible and is below its limit;
  otherwise the reported reason is never \<open>eligible\<close> unless the persisted reason already
  contradicted the persisted state.\<close>

theorem persisted_eligibility_fails_closed:
  "(eligible (evaluate_persisted_agent cfg a now) \<longleftrightarrow>
      ag_is_active a \<noteq> Some False \<and> ag_auto_assign a \<and> opt_truthy (ag_user_id a) \<and>
      (\<exists>t. ag_observed_at a = Some t \<and> now - seconds (availability_freshness_seconds cfg) \<le> t) \<and>
      ag_elig_state a = El_Eligible \<and> ag_chats a < max_chats_or_5 a) \<and>
   (\<not> eligible (evaluate_persisted_agent cfg a now) \<longrightarrow>
      reason (evaluate_persisted_agent cfg a now) = ELIGIBLE \<longrightarrow>
      ag_elig_state a \<noteq> El_Eligible \<and> ag_elig_reason a = ''eligible'')"
proof -
  have "ag_elig_reason a = ''eligible''" if "reason_of (ag_elig_reason a) = Some ELIGIBLE"
    using that by (auto simp: reason_of_def find_Some_iff)
  then show ?thesis
    by (auto simp: evaluate_persisted_agent_def split: option.splits)
qed

theorem persisted_eligibility_fails_closed_witness:
  "eligible (evaluate_persisted_agent demo_cfg (demo_agent 1 10) 5)"
  using persisted_eligibility_fails_closed [of demo_cfg "demo_agent 1 10" 5, THEN conjunct1]
  by (simp add: demo_agent_def demo_cfg_def max_chats_or_5_def seconds_def)

text \<open>Presence signals fail closed.  A HubSpot user is accepted exactly when the
  observation names a user, the status is \<open>available\<close>, no absence interval covers the instant
  (intervals are half open), and the local schedule, or in its absence one of the remote
  working windows in the remote zone, is open.\<close>

theorem observation_signals_fail_closed:
  "eligible (evaluate_observation_signals local_time ob now within) \<longleftrightarrow>
     ob_user_id ob \<noteq> [] \<and> ob_status ob = ''available'' \<and>
     (\<forall>(s, e) \<in> set (ob_absences ob). now < s \<or> e \<le> now) \<and>
     (case within of Some w \<Rightarrow> w
      | None \<Rightarrow> (\<exists>z. ob_zone ob = Some z \<and> (\<exists>w \<in> set (ob_hours ob). within_window (local_time z now) w)))"
  by (auto simp: evaluate_observation_signals_def not_absent_iff list_ex_iff split: option.splits)

theorem observation_signals_fail_closed_witness:
  "eligible (evaluate_observation_signals (\<lambda>_ _. (0, 600))
     \<lparr>ob_user_id = ''u'', ob_status = ''available'', ob_absences = [(0, 5)],
      ob_hours = [\<lparr>ww_days = ''MONDAY'', ww_start = 540, ww_end = 1080\<rparr>], ob_zone = Some ''UTC''\<rparr> 5 None)"
  by (simp add: observation_signals_fail_closed within_window_def)

text \<open>Fair ranking.  The agent ranked first is an eligible agent of the database; it is
  the least recently assigned one, then the one with fewest chats, among the candidates; it
  differs from the previous automatic owner whenever an eligible agent with another owner
  exists; and the ranking is empty only when nobody is eligible.\<close>

theorem ranking_is_fair:
  assumes "get_ranked_eligible_agents cfg now recent d = a # rest"
  shows "a \<in> set (db_agents d) \<and> eligible_query cfg now False a \<and>
    (\<forall>b \<in> set rest. rank_key a \<le> rank_key b) \<and>
    (\<forall>owner b. recent = Some owner \<longrightarrow> b \<in> set (db_agents d) \<longrightarrow> eligible_query cfg now False b \<longrightarrow>
       ag_owner b \<noteq> owner \<longrightarrow> ag_owner a \<noteq> owner \<and> rank_key a \<le> rank_key b) \<and>
    (recent = None \<longrightarrow> (\<forall>b \<in> set (db_agents d). eligible_query cfg now False b \<longrightarrow> rank_key a \<le> rank_key b))"
proof -
  let ?el = "get_eligible_agents cfg now False d"
  have set_eq: "set (a # rest) = set (without_last_owner recent ?el)" using set_ranked [of cfg now recent d] assms by simp
  have least: "\<forall>b \<in> set (a # rest). rank_key a \<le> rank_key b"
    using ranked_sorted [of cfg now recent d] assms by (auto intro: sorted_head_least)
  have other: "ag_owner a \<noteq> owner \<and> rank_key a \<le> rank_key b"
    if "recent = Some owner" "b \<in> set (db_agents d)" "eligible_query cfg now False b" "ag_owner b \<noteq> owner" for owner b
  proof -
    have b: "b \<in> set ?el" using that by (simp add: get_eligible_agents_iff)
    have "set (without_last_owner recent ?el) = {x \<in> set ?el. ag_owner x \<noteq> owner}"
    proof (cases "length ?el > 1")
      case True
      then show ?thesis using that(1,4) b by (auto simp: without_last_owner_def Let_def filter_empty_conv)
    next
      case False
      then have "?el = [b]" using b by (cases ?el) auto
      then show ?thesis using that(1,4) by (simp add: without_last_owner_def Collect_conv_if)
    qed
    then show ?thesis using set_eq least b that(4) by auto
  qed
  have "b \<in> set (a # rest)" if "recent = None" "b \<in> set (db_agents d)" "eligible_query cfg now False b" for b
    using that set_eq by (simp add: without_last_owner_def get_eligible_agents_iff)
  moreover have "a \<in> set (db_agents d) \<and> eligible_query cfg now False a"
    using ranked_eligible [of a cfg now recent d] assms by simp
  ultimately show ?thesis using least other by auto
qed

theorem ranking_is_fair_witness:
  "let d = empty_db\<lparr>db_agents := [demo_agent 1 10, demo_agent 2 20]\<rparr>
   in get_ranked_eligible_agents demo_cfg 5 (Some 10) d = [demo_agent 2 20] \<and> ag_owner (demo_agent 2 20) \<noteq> 10"
proof -
  let ?d = "empty_db\<lparr>db_agents := [demo_agent 1 10, demo_agent 2 20]\<rparr>"
  have r: "get_ranked_eligible_agents demo_cfg 5 (Some 10) ?d = [demo_agent 2 20]" by code_simp
  have "demo_agent 2 20 \<in> set (db_agents ?d)" "eligible_query demo_cfg 5 False (demo_agent 2 20)"
    "ag_owner (demo_agent 2 20) \<noteq> 10" by code_simp+
  then have "ag_owner (demo_agent 2 20) \<noteq> 10"
    using ranking_is_fair [OF r] by blast
  with r show ?thesis by simp
qed

text \<open>The two selectors agree.  The agent of \<open>select_next_agent\<close> exists exactly when the ranked
  list is not empty, and then it has the assignment time and the number of chats of the first
  ranked agent: the two differ at most by the order of agents equal in both.\<close>

theorem selectors_agree:
  "case (select_next_agent cfg now recent d, get_ranked_eligible_agents cfg now recent d) of
     (None, ranked) \<Rightarrow> ranked = []
   | (Some a, ranked) \<Rightarrow> ranked \<noteq> [] \<and> a \<in> set ranked \<and> fair_key a = fair_key (hd ranked)"
proof -
  let ?c = "without_last_owner recent (get_eligible_agents cfg now False d)"
  have set_eq: "set (get_ranked_eligible_agents cfg now recent d) = set ?c" by (rule set_ranked)
  show ?thesis
  proof (cases "sort_key fair_key ?c")
    case Nil
    then have "?c = []" by (metis set_empty set_sort)
    then show ?thesis using Nil by (simp add: select_next_agent_def get_ranked_eligible_agents_def)
  next
    case (Cons a rest)
    have a: "a \<in> set ?c" using Cons by (metis list.set_intros(1) set_sort)
    obtain b more where b: "get_ranked_eligible_agents cfg now recent d = b # more"
      using a set_eq by (cases "get_ranked_eligible_agents cfg now recent d") auto
    have "fair_key a \<le> fair_key b"
      using sorted_sort_key [of fair_key ?c] set_eq b Cons sorted_head_least [of fair_key a rest b]
      by (metis list.set_intros(1) set_sort)
    moreover have "fair_key b \<le> fair_key a"
    proof -
      have "rank_key b \<le> rank_key a"
        using ranked_sorted [of cfg now recent d] b a set_eq sorted_head_least [of rank_key b more a] by simp
      then show ?thesis by (auto simp: rank_key_def fair_key_def less_eq_prod_def)
    qed
    ultimately show ?thesis using Cons a b set_eq by (simp add: select_next_agent_def)
  qed
qed

text \<open>The legacy counters.  Under authority and without enforcement an increment and a
  decrement change exactly the named agent, by one and never below zero; the enforcing mode
  and a runtime without authority raise instead.\<close>

theorem legacy_counters:
  "(case decrement_agent_chat_count cfg now k d of
      Inl e \<Rightarrow> (\<not> may_write_routing_state cfg \<and> e = ForbiddenError) \<or> (capacity_enforced cfg \<and> e = RuntimeError)
    | Inr d' \<Rightarrow> may_write_routing_state cfg \<and> \<not> capacity_enforced cfg \<and>
        map ag_chats (db_agents d') =
          map (\<lambda>a. if ag_pk a = k then max (ag_chats a - 1) 0 else ag_chats a) (db_agents d)) \<and>
   (case increment_agent_chat_count cfg now k d of
      Inl e \<Rightarrow> (\<not> may_write_routing_state cfg \<and> e = ForbiddenError) \<or> (capacity_enforced cfg \<and> e = RuntimeError)
    | Inr d' \<Rightarrow> may_write_routing_state cfg \<and> \<not> capacity_enforced cfg \<and>
        map ag_chats (db_agents d') = map (\<lambda>a. ag_chats a + (if ag_pk a = k then 1 else 0)) (db_agents d))"
  by (auto simp: decrement_agent_chat_count_def increment_agent_chat_count_def require_routing_writer_authority_def
      update_rows_def)

theorem legacy_counters_witness:
  "case decrement_agent_chat_count demo_cfg 5 1 (empty_db\<lparr>db_agents := [demo_agent 1 10]\<rparr>) of
     Inl e \<Rightarrow> False | Inr d' \<Rightarrow> map ag_chats (db_agents d') = [0]"
proof -
  let ?r = "decrement_agent_chat_count demo_cfg 5 1 (empty_db\<lparr>db_agents := [demo_agent 1 10]\<rparr>)"
  have "is_ok ?r" by code_simp
  then show ?thesis
    using legacy_counters [where cfg = demo_cfg and now = 5 and k = 1 and
        d = "empty_db\<lparr>db_agents := [demo_agent 1 10]\<rparr>", THEN conjunct1]
    by (cases ?r) (simp_all add: demo_agent_def)
qed

text \<open>A limit of zero means different things to the two checks.  The candidate query never
  lists an agent whose limit is zero, but the re-evaluation reads \<open>max or 5\<close> and accepts the
  same agent while it has fewer than five chats.\<close>

theorem zero_limit_disagreement:
  assumes "ag_max_chats a = Some 0" and "0 \<le> ag_chats a"
  shows "\<not> eligible_query cfg now False a \<and>
    evaluate_persisted_agent cfg a now = evaluate_persisted_agent cfg (a\<lparr>ag_max_chats := Some 5\<rparr>) now"
  using assms
  by (simp add: eligible_query_def evaluate_persisted_agent_def max_chats_or_5_def max_chats_coalesced_def
      split: option.split)

theorem zero_limit_disagreement_witness:
  "eligible (evaluate_persisted_agent demo_cfg ((demo_agent 1 10)\<lparr>ag_max_chats := Some 0\<rparr>) 5) \<and>
   \<not> eligible_query demo_cfg 5 False ((demo_agent 1 10)\<lparr>ag_max_chats := Some 0\<rparr>)"
proof -
  have "eligible (evaluate_persisted_agent demo_cfg ((demo_agent 1 10)\<lparr>ag_max_chats := Some 5\<rparr>) 5)" by code_simp
  then show ?thesis
    using zero_limit_disagreement [of "(demo_agent 1 10)\<lparr>ag_max_chats := Some 0\<rparr>" demo_cfg 5]
    by (simp add: demo_agent_def)
qed

end
