(* ===== verification/Settlement.thy ===== *)
theory Settlement
  imports Eligibility
begin

text \<open>
  The three transactions that settle a reserved attempt in
  \<open>apps/support/durable_assignment_service.py\<close>: recording the confirmed provider effect,
  finalizing exactly once, and compensating; with the vocabulary of
  \<open>apps/support/assignment_provenance.py\<close>.

  Each returns the database it commits and the attempt, or the exception it raises, in which
  case nothing is committed.  A clock holds one reading of the database clock and one of the
  application clock (\<open>updated_at\<close> is stamped by the latter).
\<close>

record clock =
  db_clock :: instant
  app_clock :: instant

section \<open>Provenance\<close>

datatype provenance =
  Automatic_Assignment | Manual_Assignment | Owner_Change | Forced_Reassignment | External_Integration | Unknown_External

fun provenance_text :: "provenance \<Rightarrow> string" where
  "provenance_text Automatic_Assignment = ''automatic_assignment''"
| "provenance_text Manual_Assignment = ''manual_assignment''"
| "provenance_text Owner_Change = ''owner_change''"
| "provenance_text Forced_Reassignment = ''forced_reassignment''"
| "provenance_text External_Integration = ''external_integration''"
| "provenance_text Unknown_External = ''unknown_external''"

definition classify_owner_effect :: "assignment_type option \<Rightarrow> bool \<Rightarrow> bool \<Rightarrow> bool \<Rightarrow> provenance" where
  "classify_owner_effect attempt_type administrative integration verified_actor =
     (if attempt_type = Some Automatic then Automatic_Assignment
      else if attempt_type = Some Manual then Manual_Assignment
      else if attempt_type = Some Forced \<or> administrative then Forced_Reassignment
      else if integration then External_Integration
      else if verified_actor then Owner_Change
      else Unknown_External)"

definition administrative_source :: "string option \<Rightarrow> bool \<Rightarrow> string" where
  "administrative_source why reserved =
     join '':'' ([provenance_text (classify_owner_effect None True False False)] @
       (if reserved then [''reserved''] else []) @ (if opt_truthy why then [opt_text why] else []))"

section \<open>Recording the provider effect\<close>

definition mark_external_applied :: "settings \<Rightarrow> clock \<Rightarrow> uuid \<Rightarrow> string \<Rightarrow> db \<Rightarrow> (db \<times> attempt) result" where
  "mark_external_applied cfg clk k what d =
     (case assignment_transaction cfg k d of
        Inl e \<Rightarrow> Inl e
      | Inr (d1, _) \<Rightarrow>
          (case attempt_of d1 k of
             None \<Rightarrow> Inl DoesNotExist
           | Some a \<Rightarrow>
               (if at_state a = Completed then Inr (d1, a)
                else if at_state a \<notin> {Reserved, External_Applied, Att_Repair_Required} then Inl ValueError
                else
                  (let a' = a\<lparr>at_state := External_Applied,
                        at_applied_at := (case at_applied_at a of None \<Rightarrow> Some (db_clock clk) | Some t \<Rightarrow> Some t),
                        at_result_class := what, at_last_error := [], at_updated_at := app_clock clk\<rparr>
                   in case save_attempt a' d1 of Inl e \<Rightarrow> Inl e | Inr d2 \<Rightarrow> Inr (d2, a')))))"

section \<open>Finalizing\<close>

definition row_of :: "db \<Rightarrow> uuid option \<Rightarrow> queue_row option" where
  "row_of d k = (case k of None \<Rightarrow> None | Some q \<Rightarrow> queue_of d q)"

definition wait_of :: "instant \<Rightarrow> queue_row option \<Rightarrow> int option" where
  "wait_of now q = map_option (\<lambda>r. now - nc_entered_at r) q"

text \<open>\<open>defaults\<close> applied to an existing or a new \<open>AssignedConversation\<close>.\<close>

definition assigned_defaults :: "attempt \<Rightarrow> agent \<Rightarrow> queue_row option \<Rightarrow> instant \<Rightarrow> assigned_row \<Rightarrow> assigned_row" where
  "assigned_defaults a g q now r =
     (let r' = r\<lparr>as_ticket := at_ticket a, as_cycle := at_cycle a, as_agent := Some (at_agent a),
            as_owner := at_desired_owner a, as_agent_name := ag_name g, as_assigned_at := Some now,
            as_wait := wait_of now q\<rparr>
      in case q of
           None \<Rightarrow> r'
         | Some qr \<Rightarrow> r'\<lparr>as_pipeline := nc_pipeline qr, as_entered_at := Some (nc_entered_at qr),
                          as_contact := nc_contact qr\<rparr>)"

definition blank_assigned :: "settings \<Rightarrow> uuid \<Rightarrow> string \<Rightarrow> assigned_row" where
  "blank_assigned cfg k ticket = \<lparr>as_pk = k, as_ticket = ticket, as_cycle = None, as_agent = None, as_owner = 0,
     as_agent_name = [], as_pipeline = support_pipeline_id cfg, as_entered_at = None, as_assigned_at = None,
     as_wait = None, as_count = 1, as_contact = (None, None, None, None)\<rparr>"

definition assigned_lookup :: "attempt \<Rightarrow> assigned_row \<Rightarrow> bool" where
  "assigned_lookup a r = (case at_cycle a of None \<Rightarrow> as_ticket r = at_ticket a | Some c \<Rightarrow> as_cycle r = Some c)"

definition upsert_assigned ::
  "settings \<Rightarrow> attempt \<Rightarrow> agent \<Rightarrow> queue_row option \<Rightarrow> instant \<Rightarrow> db \<Rightarrow> db result" where
  "upsert_assigned cfg a g q now d =
     (case filter (assigned_lookup a) (db_assigned d) of
        [] \<Rightarrow> Inr (d\<lparr>db_assigned := db_assigned d @ [assigned_defaults a g q now (blank_assigned cfg (db_next_pk d) (at_ticket a))],
                     db_next_pk := Suc (db_next_pk d)\<rparr>)
      | [r] \<Rightarrow> Inr (put_assigned (assigned_defaults a g q now r) d)
      | _ \<Rightarrow> Inl MultipleObjectsReturned)"

definition log_defaults :: "attempt \<Rightarrow> agent \<Rightarrow> queue_row option \<Rightarrow> instant \<Rightarrow> log_row \<Rightarrow> log_row" where
  "log_defaults a g q now l = l\<lparr>lg_attempt := Some (at_pk a), lg_ticket := at_ticket a, lg_cycle := at_cycle a,
     lg_agent := Some (at_agent a), lg_agent_name := ag_name g, lg_owner := Some (at_desired_owner a),
     lg_type := provenance_text (classify_owner_effect (Some (at_type a)) False False False),
     lg_by := (if at_requested_by a = [] then None else Some (at_requested_by a)),
     lg_pipeline := map_option nc_pipeline q, lg_entered_at := map_option nc_entered_at q, lg_wait := wait_of now q\<rparr>"

definition blank_log :: "uuid \<Rightarrow> instant \<Rightarrow> log_row" where
  "blank_log k stamp = \<lparr>lg_pk = k, lg_attempt = None, lg_ticket = [], lg_cycle = None, lg_agent = None,
     lg_agent_name = [], lg_owner = None, lg_type = ''automatic'', lg_by = None, lg_pipeline = None,
     lg_entered_at = None, lg_wait = None, lg_assigned_at = stamp\<rparr>"

text \<open>The log of an attempt is unique; an existing entry keeps its assignment time.\<close>

definition upsert_log :: "clock \<Rightarrow> attempt \<Rightarrow> agent \<Rightarrow> queue_row option \<Rightarrow> db \<Rightarrow> db" where
  "upsert_log clk a g q d =
     (case get_row lg_attempt (Some (at_pk a)) (db_logs d) of
        Some l \<Rightarrow> d\<lparr>db_logs := save_row lg_pk (log_defaults a g q (db_clock clk) l) (db_logs d)\<rparr>
      | None \<Rightarrow> d\<lparr>db_logs := db_logs d @ [log_defaults a g q (db_clock clk) (blank_log (db_next_pk d) (app_clock clk))],
                  db_next_pk := Suc (db_next_pk d)\<rparr>)"

definition count_assignment :: "uuid \<Rightarrow> db \<Rightarrow> db" where
  "count_assignment k d = d\<lparr>db_agents := update_rows (\<lambda>g. ag_pk g = k)
     (\<lambda>g. g\<lparr>ag_total_assignments := ag_total_assignments g + 1\<rparr>) (db_agents d)\<rparr>"

text \<open>\<open>None\<close>: the attempt has no cycle.  A cycle that is not queued is stale.\<close>

definition queued_cycle :: "db \<Rightarrow> uuid option \<Rightarrow> cycle option result" where
  "queued_cycle d k =
     (case k of
        None \<Rightarrow> Inr None
      | Some c \<Rightarrow>
          (case cycle_of d c of
             None \<Rightarrow> Inl DoesNotExist
           | Some cy \<Rightarrow> (if cy_state cy \<noteq> Queued then Inl ValueError else Inr (Some cy))))"

definition occupancy_confirms :: "occupancy option \<Rightarrow> attempt \<Rightarrow> bool" where
  "occupancy_confirms occ a =
     (case occ of None \<Rightarrow> True | Some r \<Rightarrow> oc_state r = Oc_Active \<and> oc_owner r = Some (at_desired_owner a))"

definition complete_attempt ::
  "settings \<Rightarrow> clock \<Rightarrow> attempt \<Rightarrow> agent \<Rightarrow> cycle option \<Rightarrow> db \<Rightarrow> (db \<times> attempt) result" where
  "complete_attempt cfg clk a g cy d =
     (let now = db_clock clk; q = row_of d (at_queue_row a) in
      case upsert_assigned cfg a g q now d of
        Inl e \<Rightarrow> Inl e
      | Inr d1 \<Rightarrow>
          (let d2 = count_assignment (at_agent a) (upsert_log clk a g q d1);
               d3 = (case q of None \<Rightarrow> d2 | Some qr \<Rightarrow> delete_queue_row (nc_pk qr) d2);
               a' = a\<lparr>at_queue_row := (if q = None then at_queue_row a else None), at_state := Completed,
                      at_finalized_at := Some now, at_next_retry_at := None, at_updated_at := app_clock clk\<rparr>
           in case save_attempt a' d3 of
                Inl e \<Rightarrow> Inl e
              | Inr d4 \<Rightarrow>
                  Inr (case cy of None \<Rightarrow> d4 | Some c \<Rightarrow> put_cycle (c\<lparr>cy_state := Assigned\<rparr>) d4, a')))"

definition finalize_assignment_attempt :: "settings \<Rightarrow> clock \<Rightarrow> uuid \<Rightarrow> db \<Rightarrow> (db \<times> attempt) result" where
  "finalize_assignment_attempt cfg clk k d =
     (case assignment_transaction cfg k d of
        Inl e \<Rightarrow> Inl e
      | Inr (d1, occ) \<Rightarrow>
          (case attempt_of d1 k of
             None \<Rightarrow> Inl DoesNotExist
           | Some a \<Rightarrow>
               (if at_state a = Completed then Inr (d1, a)
                else if at_state a \<noteq> External_Applied then Inl ValueError
                else if \<not> occupancy_confirms occ a then Inl ValueError
                else case queued_cycle d1 (at_cycle a) of
                       Inl e \<Rightarrow> Inl e
                     | Inr cy \<Rightarrow>
                         (case agent_of d1 (at_agent a) of
                            None \<Rightarrow> Inl DoesNotExist
                          | Some g \<Rightarrow> complete_attempt cfg clk a g cy d1))))"

section \<open>Compensating\<close>

definition backoff_seconds :: "int \<Rightarrow> int" where
  "backoff_seconds retries = min (60 * 2 ^ nat (min (max (retries - 1) 0) 5)) 1800"

definition release_chat :: "settings \<Rightarrow> instant \<Rightarrow> uuid \<Rightarrow> db \<Rightarrow> db" where
  "release_chat cfg now k d =
     (if capacity_enforced cfg then d
      else d\<lparr>db_agents := update_rows (\<lambda>g. ag_pk g = k)
             (\<lambda>g. g\<lparr>ag_chats := max (ag_chats g - 1) 0, ag_updated_at := Some now\<rparr>) (db_agents d)\<rparr>)"

definition compensation_state :: "bool \<Rightarrow> bool \<Rightarrow> instant \<Rightarrow> attempt \<Rightarrow> attempt" where
  "compensation_state retryable repair now a =
     (if repair then a\<lparr>at_state := Att_Repair_Required, at_next_retry_at := None\<rparr>
      else if retryable then
        a\<lparr>at_state := Retryable, at_next_retry_at := Some (now + seconds (backoff_seconds (at_retry_count a)))\<rparr>
      else a\<lparr>at_state := Compensated, at_next_retry_at := None\<rparr>)"

definition compensated_attempt :: "bool \<Rightarrow> bool \<Rightarrow> string \<Rightarrow> clock \<Rightarrow> attempt \<Rightarrow> attempt" where
  "compensated_attempt retryable repair code clk a =
     (let now = db_clock clk;
          a1 = a\<lparr>at_comp_started_at := (case at_comp_started_at a of None \<Rightarrow> Some now | Some t \<Rightarrow> Some t)\<rparr>;
          a2 = (if at_compensated_at a = None
                then a1\<lparr>at_compensated_at := Some now, at_retry_count := at_retry_count a + 1\<rparr> else a1)
      in compensation_state retryable repair now
           (a2\<lparr>at_last_error := code, at_result_class := code, at_updated_at := app_clock clk\<rparr>))"

definition unclaimed_row :: "bool \<Rightarrow> string \<Rightarrow> instant \<Rightarrow> attempt \<Rightarrow> queue_row \<Rightarrow> queue_row" where
  "unclaimed_row quarantine code now a q =
     q\<lparr>nc_claim_token := [], nc_claim_expires := None, nc_claimed_at := None, nc_last_attempt_at := Some now,
       nc_next_attempt_at := at_next_retry_at a, nc_failure_code := code,
       nc_status := (if quarantine then Failed else In_Queue)\<rparr>"

definition release_row :: "bool \<Rightarrow> string \<Rightarrow> instant \<Rightarrow> attempt \<Rightarrow> db \<Rightarrow> db" where
  "release_row quarantine code now a d =
     (case row_of d (at_queue_row a) of
        None \<Rightarrow> d
      | Some q \<Rightarrow>
          (if at_cycle a = None \<or> nc_cycle q = at_cycle a
           then put_queue (unclaimed_row quarantine code now a q) d else d))"

definition compensate_assignment_attempt ::
  "settings \<Rightarrow> clock \<Rightarrow> uuid \<Rightarrow> bool \<Rightarrow> string \<Rightarrow> bool \<Rightarrow> bool \<Rightarrow> db \<Rightarrow> (db \<times> attempt) result" where
  "compensate_assignment_attempt cfg clk k retryable code quarantine repair d =
     (case assignment_transaction cfg k d of
        Inl e \<Rightarrow> Inl e
      | Inr (d1, occ) \<Rightarrow>
          (case attempt_of d1 k of
             None \<Rightarrow> Inl DoesNotExist
           | Some a \<Rightarrow>
               (if at_state a \<in> set terminal_attempt_states then Inr (d1, a)
                else if at_compensated_at a \<noteq> None \<and> (retryable \<or> repair) then Inr (d1, a)
                else
                  (let now = db_clock clk;
                       held = get_row rs_attempt (Some k) (db_reservations d1)
                   in if repair \<and> (occ \<noteq> None \<or> held \<noteq> None) then
                        (let a' = a\<lparr>at_state := Att_Repair_Required, at_last_error := code, at_updated_at := app_clock clk\<rparr>
                         in case save_attempt a' d1 of
                              Inl e \<Rightarrow> Inl e
                            | Inr d2 \<Rightarrow> Inr (degrade_agents [at_agent a] d2, a'))
                      else
                        (let d2 = (case held of None \<Rightarrow> d1 | Some r \<Rightarrow> conclude_reservation (app_clock clk) r False code d1);
                             d3 = (if occ \<noteq> None \<or> held \<noteq> None then materialize cfg [at_agent a] d2 else d2);
                             d4 = (if at_compensated_at a = None then release_chat cfg now (at_agent a) d3 else d3);
                             a' = compensated_attempt retryable repair code clk a;
                             d5 = release_row quarantine code now a' d4
                         in case save_attempt a' d5 of
                              Inl e \<Rightarrow> Inl e
                            | Inr d6 \<Rightarrow> Inr (d6, a'))))))"

section \<open>Frames\<close>

lemma get_or_create_occupancy_frame:
  "fst (get_or_create_occupancy q d) =
     d\<lparr>db_occupancies := db_occupancies (fst (get_or_create_occupancy q d)),
       db_next_pk := db_next_pk (fst (get_or_create_occupancy q d))\<rparr>"
  by (cases "get_row oc_ident q (db_occupancies d)")
    (simp_all add: get_or_create_occupancy_known get_or_create_occupancy_new)

lemma ticket_transaction_cases:
  assumes "ticket_transaction cfg t d = Inr (d1, r)"
  obtains account where "may_write_routing_state cfg" "capacity_account cfg = Inr account"
    "get_or_create_occupancy (account, t) d = (d1, r)"
proof -
  from assms have "require_routing_writer_authority cfg = Inr ()"
    by (simp add: ticket_transaction_def split: sum.splits)
  moreover from assms obtain account where "capacity_account cfg = Inr account"
    by (auto simp: ticket_transaction_def split: sum.splits)
  ultimately show ?thesis
    using assms that by (simp add: ticket_transaction_def require_routing_writer_authority_def split: if_splits)
qed

lemma assignment_transaction_cases:
  assumes "assignment_transaction cfg k d = Inr (d1, occ)"
  obtains (plain) "\<not> capacity_enforced cfg" "d1 = d" "occ = None"
  | (locked) a r where "capacity_enforced cfg" "attempt_of d k = Some a" "occ = Some r"
      "ticket_transaction cfg (at_ticket a) d = Inr (d1, r)"
proof (cases "capacity_enforced cfg")
  case True
  then obtain a where a: "attempt_of d k = Some a"
    using assms by (auto simp: assignment_transaction_def split: option.splits)
  with True assms obtain r where "occ = Some r" "ticket_transaction cfg (at_ticket a) d = Inr (d1, r)"
    by (cases "ticket_transaction cfg (at_ticket a) d") (auto simp: assignment_transaction_def)
  with True a show ?thesis by (rule locked)
next
  case False
  then show ?thesis using assms plain by (simp add: assignment_transaction_def)
qed

lemma assignment_transaction_frame:
  assumes "assignment_transaction cfg k d = Inr (d1, occ)"
  shows "d1 = d\<lparr>db_occupancies := db_occupancies d1, db_next_pk := db_next_pk d1\<rparr>"
  using assms
proof (cases rule: assignment_transaction_cases)
  case plain
  then show ?thesis by simp
next
  case (locked a r)
  from locked(4) obtain account where "get_or_create_occupancy (account, at_ticket a) d = (d1, r)"
    by (rule ticket_transaction_cases)
  then show ?thesis using get_or_create_occupancy_frame [of "(account, at_ticket a)" d] by simp
qed

lemma occupancy_frame:
  assumes "d1 = d\<lparr>db_occupancies := rows, db_next_pk := n\<rparr>"
  shows "db_agents d1 = db_agents d" "db_attempts d1 = db_attempts d" "db_queue d1 = db_queue d"
    "db_cycles d1 = db_cycles d" "db_logs d1 = db_logs d" "db_assigned d1 = db_assigned d"
    "db_reservations d1 = db_reservations d"
  using assms by simp_all

lemma assignment_transaction_tables:
  assumes "assignment_transaction cfg k d = Inr (d1, occ)"
  shows "db_agents d1 = db_agents d" "db_attempts d1 = db_attempts d" "db_queue d1 = db_queue d"
    "db_cycles d1 = db_cycles d" "db_logs d1 = db_logs d" "db_assigned d1 = db_assigned d"
    "db_reservations d1 = db_reservations d"
  using assignment_transaction_frame [OF assms] by (rule occupancy_frame)+

lemma get_row_append_some: "get_row key k xs = Some r \<Longrightarrow> get_row key k (xs @ ys) = Some r"
  by (simp add: get_row_append)

lemma get_or_create_occupancy_row:
  "get_or_create_occupancy q d = (d1, r) \<Longrightarrow> get_row oc_ident q (db_occupancies d1) = Some r"
  by (cases "get_row oc_ident q (db_occupancies d)")
    (auto simp: get_or_create_occupancy_known get_or_create_occupancy_new get_row_append get_row_Cons
      oc_ident_def new_occupancy_def split: option.splits)

text \<open>A second transaction of the same attempt finds the occupancy of the first.\<close>

lemma assignment_transaction_again:
  assumes "assignment_transaction cfg k d = Inr (d1, occ)"
    and "attempt_of d k = Some a" and "attempt_of d2 k = Some a2" and "at_ticket a2 = at_ticket a"
    and "db_occupancies d2 = db_occupancies d1"
  shows "assignment_transaction cfg k d2 = Inr (d2, occ)"
  using assms(1)
proof (cases rule: assignment_transaction_cases)
  case plain
  then show ?thesis by (simp add: assignment_transaction_def)
next
  case (locked b r)
  from locked(4) obtain account where t: "may_write_routing_state cfg" "capacity_account cfg = Inr account"
    "get_or_create_occupancy (account, at_ticket b) d = (d1, r)"
    by (rule ticket_transaction_cases)
  have "get_row oc_ident (account, at_ticket b) (db_occupancies d2) = Some r"
    using get_or_create_occupancy_row [OF t(3)] assms(5) by simp
  then show ?thesis
    using locked t assms(2,3,4)
    by (simp add: assignment_transaction_def ticket_transaction_def require_routing_writer_authority_def
        get_or_create_occupancy_known)
qed

lemma upsert_assigned_tables:
  assumes "upsert_assigned cfg a g q now d = Inr d1"
  shows "db_attempts d1 = db_attempts d" "db_queue d1 = db_queue d" "db_cycles d1 = db_cycles d"
    "db_agents d1 = db_agents d" "db_occupancies d1 = db_occupancies d" "db_reservations d1 = db_reservations d"
    "db_logs d1 = db_logs d"
  using assms by (auto simp: upsert_assigned_def put_assigned_def split: list.splits)

lemma upsert_assigned_row:
  assumes "upsert_assigned cfg a g q now d = Inr d1"
  shows "\<exists>r \<in> set (db_assigned d1). assigned_lookup a r \<and> as_ticket r = at_ticket a \<and> as_agent r = Some (at_agent a) \<and>
    as_owner r = at_desired_owner a"
proof -
  have sets: "assigned_lookup a (assigned_defaults a g q now r) \<and> as_ticket (assigned_defaults a g q now r) = at_ticket a \<and>
      as_agent (assigned_defaults a g q now r) = Some (at_agent a) \<and>
      as_owner (assigned_defaults a g q now r) = at_desired_owner a" for r
    by (auto simp: assigned_defaults_def assigned_lookup_def Let_def split: option.splits)
  show ?thesis
  proof (cases "filter (assigned_lookup a) (db_assigned d)")
    case Nil
    then have "assigned_defaults a g q now (blank_assigned cfg (db_next_pk d) (at_ticket a)) \<in> set (db_assigned d1)"
      using assms by (auto simp: upsert_assigned_def)
    then show ?thesis using sets by blast
  next
    case (Cons r rs)
    then have "rs = []" and d1: "d1 = put_assigned (assigned_defaults a g q now r) d"
      using assms by (auto simp: upsert_assigned_def split: list.splits)
    have "r \<in> set (filter (assigned_lookup a) (db_assigned d))" unfolding Cons by simp
    then have "r \<in> set (db_assigned d)" by simp
    moreover have "as_pk (assigned_defaults a g q now r) = as_pk r"
      by (simp add: assigned_defaults_def Let_def split: option.splits)
    ultimately have "assigned_defaults a g q now r \<in> set (db_assigned d1)"
      by (auto simp: d1 put_assigned_def save_row_def)
    then show ?thesis using sets by blast
  qed
qed

lemma upsert_log_tables [simp]:
  "db_attempts (upsert_log clk a g q d) = db_attempts d" "db_queue (upsert_log clk a g q d) = db_queue d"
  "db_cycles (upsert_log clk a g q d) = db_cycles d" "db_agents (upsert_log clk a g q d) = db_agents d"
  "db_occupancies (upsert_log clk a g q d) = db_occupancies d"
  "db_reservations (upsert_log clk a g q d) = db_reservations d"
  "db_assigned (upsert_log clk a g q d) = db_assigned d"
  by (simp_all add: upsert_log_def split: option.splits)

lemma log_defaults_simps [simp]:
  "lg_attempt (log_defaults a g q now l) = Some (at_pk a)" "lg_pk (log_defaults a g q now l) = lg_pk l"
  "lg_owner (log_defaults a g q now l) = Some (at_desired_owner a)" "lg_ticket (log_defaults a g q now l) = at_ticket a"
  "lg_assigned_at (log_defaults a g q now l) = lg_assigned_at l"
  by (simp_all add: log_defaults_def)

lemma upsert_log_row:
  "\<exists>l \<in> set (db_logs (upsert_log clk a g q d)). lg_attempt l = Some (at_pk a) \<and> lg_owner l = Some (at_desired_owner a) \<and>
     lg_ticket l = at_ticket a"
proof (cases "get_row lg_attempt (Some (at_pk a)) (db_logs d)")
  case None
  then show ?thesis by (simp add: upsert_log_def)
next
  case (Some l)
  then have "l \<in> set (db_logs d)" by (rule get_row_mem)
  then have "log_defaults a g q (db_clock clk) l \<in> set (db_logs (upsert_log clk a g q d))"
    by (auto simp: upsert_log_def Some save_row_def)
  then show ?thesis by (rule rev_bexI) simp
qed

lemma save_attempt_frame: "save_attempt a d = Inr d' \<Longrightarrow> d' = put_attempt a d"
  by (auto simp: save_attempt_def split: if_splits)

lemma attempt_of_put: "attempt_of d (at_pk a) = Some b \<Longrightarrow> attempt_of (put_attempt a d) (at_pk a) = Some a"
  by (simp add: attempt_of_def put_attempt_def)

lemma attempt_of_put_other: "k \<noteq> at_pk a \<Longrightarrow> attempt_of (put_attempt a d) k = attempt_of d k"
  by (simp add: attempt_of_def put_attempt_def)

lemma attempt_of_key: "attempt_of d k = Some a \<Longrightarrow> at_pk a = k"
  unfolding attempt_of_def by (rule get_row_key)

lemma attempt_of_delete_queue_row:
  "attempt_of (delete_queue_row q d) k =
     map_option (\<lambda>a. if at_queue_row a = Some q then a\<lparr>at_queue_row := None\<rparr> else a) (attempt_of d k)"
  by (simp add: attempt_of_def delete_queue_row_def get_row_update_rows)

lemma queue_of_delete: "queue_of (delete_queue_row q d) q = None"
  by (simp add: queue_of_def delete_queue_row_def get_row_None)

lemma queue_of_delete_other: "p \<noteq> q \<Longrightarrow> queue_of (delete_queue_row q d) p = queue_of d p"
  by (simp add: queue_of_def delete_queue_row_def get_row_delete_rows_other)

lemma delete_queue_row_tables [simp]:
  "db_agents (delete_queue_row q d) = db_agents d" "db_cycles (delete_queue_row q d) = db_cycles d"
  "db_logs (delete_queue_row q d) = db_logs d" "db_assigned (delete_queue_row q d) = db_assigned d"
  "db_occupancies (delete_queue_row q d) = db_occupancies d"
  "db_reservations (delete_queue_row q d) = db_reservations d"
  by (simp_all add: delete_queue_row_def)

lemma queued_cycle_cases:
  assumes "queued_cycle d k = Inr cy"
  obtains "k = None" "cy = None"
  | c x where "k = Some c" "cy = Some x" "cycle_of d c = Some x" "cy_state x = Queued"
proof (cases k)
  case None
  then show ?thesis using assms that(1) by (simp add: queued_cycle_def)
next
  case (Some c)
  with assms obtain x where "cycle_of d c = Some x" "cy_state x = Queued" "cy = Some x"
    by (auto simp: queued_cycle_def split: option.splits if_splits)
  then show ?thesis using Some that(2) by blast
qed

text \<open>The database after a completed attempt, table by table.\<close>

lemma complete_attempt_result:
  assumes "complete_attempt cfg clk a g cy d = Inr (d', a')" and "attempt_of d (at_pk a) = Some a"
    and "cy = None \<or> (\<exists>c x. at_cycle a = Some c \<and> cy = Some x \<and> cycle_of d c = Some x)"
  shows "at_state a' = Completed" "attempt_of d' (at_pk a) = Some a'" "at_ticket a' = at_ticket a" "at_cycle a' = at_cycle a"
    "at_desired_owner a' = at_desired_owner a"
    "\<And>q. at_queue_row a = Some q \<Longrightarrow> queue_of d' q = None"
    "\<And>c x. at_cycle a = Some c \<Longrightarrow> cy = Some x \<Longrightarrow> cycle_of d' c = Some (x\<lparr>cy_state := Assigned\<rparr>)"
    "\<exists>l \<in> set (db_logs d'). lg_attempt l = Some (at_pk a) \<and> lg_owner l = Some (at_desired_owner a) \<and> lg_ticket l = at_ticket a"
    "\<exists>r \<in> set (db_assigned d'). assigned_lookup a r \<and> as_ticket r = at_ticket a \<and> as_agent r = Some (at_agent a) \<and>
       as_owner r = at_desired_owner a"
    "db_agents d' = db_agents (count_assignment (at_agent a) d)"
    "db_occupancies d' = db_occupancies d" "db_reservations d' = db_reservations d"
proof -
  let ?q = "row_of d (at_queue_row a)"
  obtain d1 where d1: "upsert_assigned cfg a g ?q (db_clock clk) d = Inr d1"
    using assms(1) by (auto simp: complete_attempt_def Let_def split: sum.splits)
  define d2 where "d2 = count_assignment (at_agent a) (upsert_log clk a g ?q d1)"
  define d3 where "d3 = (case ?q of None \<Rightarrow> d2 | Some qr \<Rightarrow> delete_queue_row (nc_pk qr) d2)"
  define b where "b = a\<lparr>at_queue_row := (if ?q = None then at_queue_row a else None), at_state := Completed,
      at_finalized_at := Some (db_clock clk), at_next_retry_at := None, at_updated_at := app_clock clk\<rparr>"
  obtain d4 where d4: "save_attempt b d3 = Inr d4"
    and d': "d' = (case cy of None \<Rightarrow> d4 | Some c \<Rightarrow> put_cycle (c\<lparr>cy_state := Assigned\<rparr>) d4)" and a': "a' = b"
  proof -
    have "complete_attempt cfg clk a g cy d = (case save_attempt b d3 of Inl e \<Rightarrow> Inl e
        | Inr d4 \<Rightarrow> Inr (case cy of None \<Rightarrow> d4 | Some c \<Rightarrow> put_cycle (c\<lparr>cy_state := Assigned\<rparr>) d4, b))"
      by (simp only: complete_attempt_def Let_def d1 sum.case d2_def d3_def b_def)
    then show ?thesis using assms(1) that by (cases "save_attempt b d3") simp_all
  qed
  have d4': "d4 = put_attempt b d3" using d4 by (rule save_attempt_frame)
  note t1 = upsert_assigned_tables [OF d1]
  have t2: "db_attempts d2 = db_attempts d1" "db_queue d2 = db_queue d1" "db_cycles d2 = db_cycles d1"
    "db_occupancies d2 = db_occupancies d1" "db_reservations d2 = db_reservations d1"
    "db_assigned d2 = db_assigned d1" "db_logs d2 = db_logs (upsert_log clk a g ?q d1)"
    "db_agents d2 = db_agents (count_assignment (at_agent a) d)"
    by (simp_all add: d2_def count_assignment_def t1)
  have t3: "db_cycles d3 = db_cycles d" "db_agents d3 = db_agents d2" "db_logs d3 = db_logs d2"
    "db_assigned d3 = db_assigned d2" "db_occupancies d3 = db_occupancies d" "db_reservations d3 = db_reservations d"
    by (simp_all add: d3_def t1 t2 split: option.splits)
  have a3: "attempt_of d3 (at_pk a) \<noteq> None"
  proof -
    have "attempt_of d2 (at_pk a) = Some a" using assms(2) by (simp add: attempt_of_def t1 t2)
    then show ?thesis by (simp add: d3_def attempt_of_delete_queue_row split: option.splits)
  qed
  have pk: "at_pk b = at_pk a" by (simp add: b_def)
  have tabs: "db_attempts d' = db_attempts d4" "db_queue d' = db_queue d3" "db_agents d' = db_agents d3"
    "db_logs d' = db_logs d3" "db_assigned d' = db_assigned d3" "db_occupancies d' = db_occupancies d3"
    "db_reservations d' = db_reservations d3"
    by (simp_all add: d' d4' put_cycle_def put_attempt_def split: option.splits)
  show "at_state a' = Completed" "at_ticket a' = at_ticket a" "at_cycle a' = at_cycle a"
    "at_desired_owner a' = at_desired_owner a" by (simp_all add: a' b_def)
  show "attempt_of d' (at_pk a) = Some a'"
  proof -
    from a3 obtain z where "attempt_of d3 (at_pk b) = Some z" by (auto simp: pk)
    then have "attempt_of d4 (at_pk b) = Some b" unfolding d4' by (rule attempt_of_put)
    then show ?thesis by (simp add: attempt_of_def tabs a' pk)
  qed
  show "queue_of d' q = None" if "at_queue_row a = Some q" for q
  proof (cases "queue_of d q")
    case None
    then show ?thesis using that by (simp add: row_of_def d3_def tabs queue_of_def t1 t2)
  next
    case (Some qr)
    then have "nc_pk qr = q" unfolding queue_of_def by (rule get_row_key)
    moreover have "d3 = delete_queue_row (nc_pk qr) d2" using that Some by (simp add: d3_def row_of_def)
    ultimately show ?thesis using queue_of_delete by (simp add: queue_of_def tabs)
  qed
  show "cycle_of d' c = Some (x\<lparr>cy_state := Assigned\<rparr>)" if "at_cycle a = Some c" "cy = Some x" for c x
  proof -
    have x: "cycle_of d c = Some x" using assms(3) that by auto
    then have "cy_pk x = c" unfolding cycle_of_def by (rule get_row_key)
    then show ?thesis using x that
      by (simp add: d' d4' cycle_of_def put_cycle_def put_attempt_def t3 get_row_save_row)
  qed
  show "\<exists>l \<in> set (db_logs d'). lg_attempt l = Some (at_pk a) \<and> lg_owner l = Some (at_desired_owner a) \<and> lg_ticket l = at_ticket a"
    using upsert_log_row [of clk a g ?q d1] by (simp add: tabs t3 t2)
  show "\<exists>r \<in> set (db_assigned d'). assigned_lookup a r \<and> as_ticket r = at_ticket a \<and> as_agent r = Some (at_agent a) \<and>
      as_owner r = at_desired_owner a"
    using upsert_assigned_row [OF d1] by (simp add: tabs t3 t2)
  show "db_agents d' = db_agents (count_assignment (at_agent a) d)" "db_occupancies d' = db_occupancies d"
    "db_reservations d' = db_reservations d"
    by (simp_all add: tabs t3 t2)
qed

text \<open>What a completed attempt saves, and what the save was checked against.\<close>

lemma complete_attempt_saved:
  assumes "complete_attempt cfg clk a g cy d = Inr (d', a')"
  obtains rows where "db_attempts d' = save_row at_pk a' rows"
    "\<forall>b \<in> set rows. at_pk b \<noteq> at_pk a' \<longrightarrow> \<not> attempt_clash a' b"
    "rows = db_attempts d \<or> (\<exists>q. rows = db_attempts (delete_queue_row q d))"
    "at_pk a' = at_pk a" "at_key a' = at_key a" "at_cycle a' = at_cycle a" "at_ticket a' = at_ticket a"
    "at_state a' = Completed"
    "db_cycles d' = (case cy of None \<Rightarrow> db_cycles d | Some c \<Rightarrow> save_row cy_pk (c\<lparr>cy_state := Assigned\<rparr>) (db_cycles d))"
proof -
  let ?q = "row_of d (at_queue_row a)"
  obtain d1 where d1: "upsert_assigned cfg a g ?q (db_clock clk) d = Inr d1"
    using assms(1) by (auto simp: complete_attempt_def Let_def split: sum.splits)
  define d2 where "d2 = count_assignment (at_agent a) (upsert_log clk a g ?q d1)"
  define d3 where "d3 = (case ?q of None \<Rightarrow> d2 | Some qr \<Rightarrow> delete_queue_row (nc_pk qr) d2)"
  define b where "b = a\<lparr>at_queue_row := (if ?q = None then at_queue_row a else None), at_state := Completed,
      at_finalized_at := Some (db_clock clk), at_next_retry_at := None, at_updated_at := app_clock clk\<rparr>"
  have run: "complete_attempt cfg clk a g cy d = (case save_attempt b d3 of Inl e \<Rightarrow> Inl e
        | Inr d4 \<Rightarrow> Inr (case cy of None \<Rightarrow> d4 | Some c \<Rightarrow> put_cycle (c\<lparr>cy_state := Assigned\<rparr>) d4, b))"
    by (simp only: complete_attempt_def Let_def d1 sum.case d2_def d3_def b_def)
  then obtain d4 where d4: "save_attempt b d3 = Inr d4"
    and d': "d' = (case cy of None \<Rightarrow> d4 | Some c \<Rightarrow> put_cycle (c\<lparr>cy_state := Assigned\<rparr>) d4)" and a': "a' = b"
    using assms(1) by (cases "save_attempt b d3") simp_all
  have d4': "d4 = put_attempt b d3" using d4 by (rule save_attempt_frame)
  have clash: "\<forall>x \<in> set (db_attempts d3). at_pk x \<noteq> at_pk b \<longrightarrow> \<not> attempt_clash b x"
    using d4 by (auto simp: save_attempt_def list_ex_iff split: if_splits)
  have t: "db_attempts d2 = db_attempts d" "db_cycles d2 = db_cycles d"
    by (simp_all add: d2_def count_assignment_def upsert_assigned_tables [OF d1])
  have r: "db_attempts d3 = db_attempts d \<or> (\<exists>q. db_attempts d3 = db_attempts (delete_queue_row q d))"
    by (auto simp: d3_def t delete_queue_row_def split: option.splits)
  have c: "db_cycles d3 = db_cycles d" by (simp add: d3_def t split: option.splits)
  have s: "db_attempts d' = save_row at_pk b (db_attempts d3)"
    by (simp add: d' d4' put_attempt_def put_cycle_def split: option.splits)
  have y: "db_cycles d' = (case cy of None \<Rightarrow> db_cycles d | Some c \<Rightarrow> save_row cy_pk (c\<lparr>cy_state := Assigned\<rparr>) (db_cycles d))"
    by (simp add: d' d4' put_attempt_def put_cycle_def c split: option.splits)
  have "at_pk b = at_pk a" "at_key b = at_key a" "at_cycle b = at_cycle a" "at_ticket b = at_ticket a" "at_state b = Completed"
    by (simp_all add: b_def)
  then show ?thesis using that [of "db_attempts d3"] s clash r y by (simp add: a')
qed

lemma finalize_cases:
  assumes "finalize_assignment_attempt cfg clk k d = Inr (d', a')"
  obtains (again) d1 occ where "assignment_transaction cfg k d = Inr (d1, occ)" "attempt_of d k = Some a'" "d' = d1"
      "at_state a' = Completed"
  | (completes) d1 occ a cy g where "assignment_transaction cfg k d = Inr (d1, occ)" "attempt_of d k = Some a"
      "attempt_of d1 k = Some a" "at_state a = External_Applied" "occupancy_confirms occ a"
      "queued_cycle d1 (at_cycle a) = Inr cy" "agent_of d1 (at_agent a) = Some g"
      "complete_attempt cfg clk a g cy d1 = Inr (d', a')"
proof -
  obtain d1 occ where t: "assignment_transaction cfg k d = Inr (d1, occ)"
    using assms by (auto simp: finalize_assignment_attempt_def split: sum.splits)
  have same: "attempt_of d1 k = attempt_of d k" by (simp add: attempt_of_def assignment_transaction_tables [OF t])
  obtain a where a: "attempt_of d1 k = Some a"
    using assms t by (auto simp: finalize_assignment_attempt_def split: option.splits)
  show ?thesis
  proof (cases "at_state a = Completed")
    case True
    then have "d' = d1" "a' = a" using assms t a by (simp_all add: finalize_assignment_attempt_def)
    then show ?thesis using again [OF t] a same True by simp
  next
    case False
    with assms t a have "at_state a = External_Applied" "occupancy_confirms occ a"
      by (simp_all add: finalize_assignment_attempt_def split: if_splits)
    moreover from this obtain cy where "queued_cycle d1 (at_cycle a) = Inr cy"
      using assms t a by (auto simp: finalize_assignment_attempt_def split: sum.splits)
    moreover from calculation obtain g where "agent_of d1 (at_agent a) = Some g"
      using assms t a by (auto simp: finalize_assignment_attempt_def split: option.splits)
    moreover from calculation have "complete_attempt cfg clk a g cy d1 = Inr (d', a')"
      using assms t a by (simp add: finalize_assignment_attempt_def)
    ultimately show ?thesis using completes [OF t] a same by simp
  qed
qed

section \<open>Compensation facts\<close>

text \<open>A spent attempt has already given its chat back, or is terminal.\<close>

definition spent :: "attempt \<Rightarrow> bool" where
  "spent a \<longleftrightarrow> at_compensated_at a \<noteq> None \<or> at_state a \<in> set terminal_attempt_states"

lemma release_row_tables [simp]:
  "db_agents (release_row quarantine code now a d) = db_agents d"
  "db_attempts (release_row quarantine code now a d) = db_attempts d"
  "db_cycles (release_row quarantine code now a d) = db_cycles d"
  "db_reservations (release_row quarantine code now a d) = db_reservations d"
  "db_occupancies (release_row quarantine code now a d) = db_occupancies d"
  by (simp_all add: release_row_def put_queue_def split: option.splits)

lemma conclude_tables [simp]:
  "db_attempts (conclude_reservation now r c why d) = db_attempts d"
  "db_queue (conclude_reservation now r c why d) = db_queue d"
  "db_cycles (conclude_reservation now r c why d) = db_cycles d"
  "db_occupancies (conclude_reservation now r c why d) = db_occupancies d"
  by (simp_all add: conclude_reservation_def put_reservation_def)

lemma release_chat_tables [simp]:
  "db_attempts (release_chat cfg now k d) = db_attempts d" "db_queue (release_chat cfg now k d) = db_queue d"
  "db_cycles (release_chat cfg now k d) = db_cycles d"
  "db_occupancies (release_chat cfg now k d) = db_occupancies d"
  "db_reservations (release_chat cfg now k d) = db_reservations d"
  by (simp_all add: release_chat_def)

lemma degrade_tables [simp]:
  "db_attempts (degrade_agents ids d) = db_attempts d" "db_queue (degrade_agents ids d) = db_queue d"
  "db_cycles (degrade_agents ids d) = db_cycles d" "db_occupancies (degrade_agents ids d) = db_occupancies d"
  "db_reservations (degrade_agents ids d) = db_reservations d"
  by (simp_all add: degrade_agents_def)

lemma degrade_chats [simp]: "map ag_chats (db_agents (degrade_agents ids d)) = map ag_chats (db_agents d)"
  by (simp add: degrade_agents_def)

lemma materialize_chats_legacy [simp]:
  "\<not> capacity_enforced cfg \<Longrightarrow> map ag_chats (db_agents (materialize cfg ids d)) = map ag_chats (db_agents d)"
  by (simp add: materialize_def)

lemma materialize_agents_pks [simp]: "map ag_pk (db_agents (materialize cfg ids d)) = map ag_pk (db_agents d)"
  by (simp add: materialize_def)

lemma compensated_attempt_simps [simp]:
  "at_pk (compensated_attempt retryable repair code clk a) = at_pk a"
  "at_cycle (compensated_attempt retryable repair code clk a) = at_cycle a"
  "at_queue_row (compensated_attempt retryable repair code clk a) = at_queue_row a"
  "at_ticket (compensated_attempt retryable repair code clk a) = at_ticket a"
  "at_agent (compensated_attempt retryable repair code clk a) = at_agent a"
  "at_key (compensated_attempt retryable repair code clk a) = at_key a"
  "at_last_error (compensated_attempt retryable repair code clk a) = code"
  "at_state (compensated_attempt retryable repair code clk a) =
     (if repair then Att_Repair_Required else if retryable then Retryable else Compensated)"
  "at_compensated_at (compensated_attempt retryable repair code clk a) =
     (case at_compensated_at a of None \<Rightarrow> Some (db_clock clk) | Some t \<Rightarrow> Some t)"
  by (simp_all add: compensated_attempt_def compensation_state_def Let_def split: option.splits)

text \<open>The three ways a compensation returns.\<close>

lemma compensate_cases:
  assumes "compensate_assignment_attempt cfg clk k retryable code quarantine repair d = Inr (d', a')"
  obtains (unchanged) d1 occ where "assignment_transaction cfg k d = Inr (d1, occ)" "attempt_of d k = Some a'" "d' = d1"
      "spent a'"
  | (ambiguous) d1 occ a where "assignment_transaction cfg k d = Inr (d1, occ)" "attempt_of d k = Some a"
      "\<not> spent a" "repair" "occ \<noteq> None \<or> get_row rs_attempt (Some k) (db_reservations d) \<noteq> None"
      "a' = a\<lparr>at_state := Att_Repair_Required, at_last_error := code, at_updated_at := app_clock clk\<rparr>"
      "d' = degrade_agents [at_agent a] (put_attempt a' d1)"
  | (settled) d1 occ a d2 where "assignment_transaction cfg k d = Inr (d1, occ)" "attempt_of d k = Some a"
      "at_state a \<notin> set terminal_attempt_states" "at_compensated_at a = None \<or> \<not> retryable \<and> \<not> repair"
      "a' = compensated_attempt retryable repair code clk a"
      "d2 = (case get_row rs_attempt (Some k) (db_reservations d) of None \<Rightarrow> d1
             | Some r \<Rightarrow> conclude_reservation (app_clock clk) r False code d1)"
      "d' = put_attempt a' (release_row quarantine code (db_clock clk) a'
         (let d3 = (if occ \<noteq> None \<or> get_row rs_attempt (Some k) (db_reservations d) \<noteq> None
                    then materialize cfg [at_agent a] d2 else d2)
          in if at_compensated_at a = None then release_chat cfg (db_clock clk) (at_agent a) d3 else d3))"
proof -
  obtain d1 occ where t: "assignment_transaction cfg k d = Inr (d1, occ)"
    using assms by (auto simp: compensate_assignment_attempt_def split: sum.splits)
  note tab = assignment_transaction_tables [OF t]
  have same: "attempt_of d1 k = attempt_of d k" by (simp add: attempt_of_def tab)
  obtain a where a: "attempt_of d1 k = Some a"
    using assms t by (auto simp: compensate_assignment_attempt_def split: option.splits)
  note run = assms [unfolded compensate_assignment_attempt_def t sum.case prod.case a option.case tab(7)]
  show ?thesis
  proof (cases "at_state a \<in> set terminal_attempt_states \<or> at_compensated_at a \<noteq> None \<and> (retryable \<or> repair)")
    case True
    then have "d' = d1" "a' = a" using run by (auto split: if_splits)
    then show ?thesis using unchanged [OF t] a same True by (auto simp: spent_def)
  next
    case False
    note run' = run [unfolded Let_def] False
    show ?thesis
    proof (cases "repair \<and> (occ \<noteq> None \<or> get_row rs_attempt (Some k) (db_reservations d) \<noteq> None)")
      case True
      let ?b = "a\<lparr>at_state := Att_Repair_Required, at_last_error := code, at_updated_at := app_clock clk\<rparr>"
      have r: "(case save_attempt ?b d1 of Inl e \<Rightarrow> Inl e | Inr d2 \<Rightarrow> Inr (degrade_agents [at_agent a] d2, ?b)) = Inr (d', a')"
        using run' True by (simp only: if_True if_False simp_thms split: if_splits)
      then obtain d2 where "save_attempt ?b d1 = Inr d2" "d' = degrade_agents [at_agent a] d2" "a' = ?b"
        by (cases "save_attempt ?b d1") auto
      then show ?thesis using ambiguous [OF t] a same True False save_attempt_frame by (simp add: spent_def)
    next
      case no: False
      let ?b = "compensated_attempt retryable repair code clk a"
      let ?d2 = "case get_row rs_attempt (Some k) (db_reservations d) of None \<Rightarrow> d1
             | Some r \<Rightarrow> conclude_reservation (app_clock clk) r False code d1"
      let ?d3 = "if occ \<noteq> None \<or> get_row rs_attempt (Some k) (db_reservations d) \<noteq> None
                    then materialize cfg [at_agent a] ?d2 else ?d2"
      let ?d5 = "release_row quarantine code (db_clock clk) ?b
          (if at_compensated_at a = None then release_chat cfg (db_clock clk) (at_agent a) ?d3 else ?d3)"
      have r: "(case save_attempt ?b ?d5 of Inl e \<Rightarrow> Inl e | Inr d6 \<Rightarrow> Inr (d6, ?b)) = Inr (d', a')"
        using run' no by (simp only: if_True if_False simp_thms split: if_splits)
      then obtain d6 where "save_attempt ?b ?d5 = Inr d6" "d' = d6" "a' = ?b"
        by (cases "save_attempt ?b ?d5") auto
      moreover have "d6 = put_attempt ?b ?d5" using calculation(1) by (rule save_attempt_frame)
      ultimately have "d' = put_attempt ?b ?d5" "a' = ?b" by simp_all
      then show ?thesis using settled [OF t _ _ _ _ refl] a same False by (auto simp: Let_def)
    qed
  qed
qed

lemma compensate_chats:
  assumes "compensate_assignment_attempt cfg clk k retryable code quarantine repair d = Inr (d', a')"
    and "\<not> capacity_enforced cfg" and "attempt_of d k = Some a"
  shows "attempt_of d' k = Some a' \<and> at_agent a' = at_agent a \<and>
    (if spent a then spent a' \<and> map ag_chats (db_agents d') = map ag_chats (db_agents d)
     else (\<not> spent a' \<and> map ag_chats (db_agents d') = map ag_chats (db_agents d)) \<or>
          (spent a' \<and> map ag_chats (db_agents d') =
             map (\<lambda>g. if ag_pk g = at_agent a then max (ag_chats g - 1) 0 else ag_chats g) (db_agents d))) \<and>
    map ag_pk (db_agents d') = map ag_pk (db_agents d)"
  using assms(1)
proof (cases rule: compensate_cases)
  case (unchanged d1 occ)
  then show ?thesis using assms(3) assignment_transaction_tables [OF unchanged(1)] by (simp add: attempt_of_def)
next
  case (ambiguous d1 occ b)
  note tab = assignment_transaction_tables [OF ambiguous(1)]
  have b: "b = a" "at_pk a = k" using ambiguous(2) assms(3) attempt_of_key by auto
  have "attempt_of (put_attempt a' d1) (at_pk a') = Some a'"
    using assms(3) b ambiguous(6) by (intro attempt_of_put [of _ _ a]) (simp add: attempt_of_def tab)
  then have "attempt_of d' k = Some a'" using b ambiguous(6,7) by (simp add: attempt_of_def)
  moreover have "map ag_chats (db_agents d') = map ag_chats (db_agents d)"
    "map ag_pk (db_agents d') = map ag_pk (db_agents d)"
    using ambiguous(7) tab by (simp_all add: put_attempt_def degrade_agents_def)
  moreover have "\<not> spent a'" using ambiguous(3,6) b by (simp add: spent_def terminal_attempt_states_def)
  ultimately show ?thesis using ambiguous(3,6) b by simp
next
  case (settled d1 occ b d2)
  note tab = assignment_transaction_tables [OF settled(1)]
  have b: "b = a" "at_pk a = k" using settled(2) assms(3) attempt_of_key by auto
  have d2: "db_attempts d2 = db_attempts d" "db_agents d2 = db_agents d"
    using settled(6) tab by (simp_all split: option.splits)
  define d3 where "d3 = (if occ \<noteq> None \<or> get_row rs_attempt (Some k) (db_reservations d) \<noteq> None
                    then materialize cfg [at_agent b] d2 else d2)"
  have d3: "db_attempts d3 = db_attempts d" "map ag_chats (db_agents d3) = map ag_chats (db_agents d)"
    "map ag_pk (db_agents d3) = map ag_pk (db_agents d)"
    using d2 assms(2) by (simp_all add: d3_def)
  have zip: "map (\<lambda>g. if ag_pk g = x then max (ag_chats g - 1) 0 else ag_chats g) (db_agents d3) =
      map (\<lambda>g. if ag_pk g = x then max (ag_chats g - 1) 0 else ag_chats g) (db_agents d)" for x
  proof -
    have eq: "map (\<lambda>g. if ag_pk g = x then max (ag_chats g - 1) 0 else ag_chats g) gs =
        map2 (\<lambda>p c. if p = x then max (c - 1) 0 else c) (map ag_pk gs) (map ag_chats gs)" for gs
      by (induction gs) simp_all
    show ?thesis by (simp only: eq d3(2,3))
  qed
  define d4 where "d4 = (if at_compensated_at b = None then release_chat cfg (db_clock clk) (at_agent b) d3 else d3)"
  have d': "d' = put_attempt a' (release_row quarantine code (db_clock clk) a' d4)"
    using settled(7) by (simp add: d4_def d3_def Let_def)
  have d4: "db_attempts d4 = db_attempts d" "map ag_pk (db_agents d4) = map ag_pk (db_agents d)"
    "map ag_chats (db_agents d4) = (if at_compensated_at a = None
       then map (\<lambda>g. if ag_pk g = at_agent a then max (ag_chats g - 1) 0 else ag_chats g) (db_agents d)
       else map ag_chats (db_agents d))"
    using assms(2) d3 zip
    by (simp_all add: d4_def b release_chat_def) (simp_all add: update_rows_def o_def if_distrib cong: if_cong)
  have "attempt_of (put_attempt a' (release_row quarantine code (db_clock clk) a' d4)) (at_pk a') = Some a'"
    using assms(3) b settled(5) d4 by (intro attempt_of_put [of _ _ a]) (simp add: attempt_of_def)
  then have "attempt_of d' k = Some a'" using b settled(5) by (simp add: d')
  moreover have "db_agents d' = db_agents d4" by (simp add: d' put_attempt_def)
  moreover have "spent a'" using settled(5) by (simp add: spent_def split: option.splits)
  moreover have "spent a \<longleftrightarrow> at_compensated_at a \<noteq> None" using settled(3) b by (simp add: spent_def)
  ultimately show ?thesis using d4 settled(5) b by simp
qed

section \<open>Properties\<close>

text \<open>C4: an attempt is finalized exactly once, with all its records.  When finalization of an
  externally applied attempt returns, the attempt is completed; its queue row is gone; its
  cycle went from queued to assigned; the assignment log and the assigned conversation name
  the ticket and the confirmed owner; the agent's total grew by one; under enforcement the
  occupancy confirmed that owner; and finalizing again, at any later time, returns the same
  attempt and changes nothing.\<close>

theorem finalized_exactly_once:
  assumes "finalize_assignment_attempt cfg clk k d = Inr (d', a')"
    and "attempt_of d k = Some a" and "at_state a = External_Applied"
  shows "at_state a' = Completed \<and> attempt_of d' k = Some a' \<and>
    (\<forall>q. at_queue_row a = Some q \<longrightarrow> queue_of d' q = None) \<and>
    (\<forall>c. at_cycle a = Some c \<longrightarrow>
       (\<exists>x. cycle_of d c = Some x \<and> cy_state x = Queued \<and> cycle_of d' c = Some (x\<lparr>cy_state := Assigned\<rparr>))) \<and>
    (\<exists>l \<in> set (db_logs d'). lg_attempt l = Some k \<and> lg_owner l = Some (at_desired_owner a) \<and> lg_ticket l = at_ticket a) \<and>
    (\<exists>r \<in> set (db_assigned d'). assigned_lookup a r \<and> as_ticket r = at_ticket a \<and> as_agent r = Some (at_agent a) \<and>
       as_owner r = at_desired_owner a) \<and>
    db_agents d' = db_agents (count_assignment (at_agent a) d) \<and>
    (\<forall>later. finalize_assignment_attempt cfg later k d' = Inr (d', a'))"
  using assms(1)
proof (cases rule: finalize_cases)
  case again
  then show ?thesis using assms(2,3) by simp
next
  case (completes d1 occ b cy g)
  then have b: "b = a" using assms(2) by simp
  have pk: "at_pk a = k" using assms(2) by (rule attempt_of_key)
  have tables: "db_cycles d1 = db_cycles d" "db_agents d1 = db_agents d"
    using completes(1) by (simp_all add: assignment_transaction_tables)
  have cyc: "cy = None \<or> (\<exists>c x. at_cycle a = Some c \<and> cy = Some x \<and> cycle_of d1 c = Some x)"
    using completes(6) unfolding b by (rule queued_cycle_cases) auto
  have a1: "attempt_of d1 (at_pk a) = Some a" using completes(3) by (simp add: b pk)
  note r = complete_attempt_result [OF completes(8) [unfolded b] a1 cyc, unfolded pk]
  have c: "\<exists>x. cycle_of d c = Some x \<and> cy_state x = Queued \<and> cycle_of d' c = Some (x\<lparr>cy_state := Assigned\<rparr>)"
    if "at_cycle a = Some c" for c
    using completes(6) unfolding b
  proof (rule queued_cycle_cases)
    assume "at_cycle a = None"
    then show ?thesis using that by simp
  next
    fix c' x
    assume "at_cycle a = Some c'" "cy = Some x" "cycle_of d1 c' = Some x" "cy_state x = Queued"
    then show ?thesis using that r(7) tables by (auto simp: cycle_of_def)
  qed
  have "finalize_assignment_attempt cfg later k d' = Inr (d', a')" for later
  proof -
    have "assignment_transaction cfg k d' = Inr (d', occ)"
      using completes(1) assms(2) r(2,3,11) by (rule assignment_transaction_again)
    then show ?thesis using r(1,2) by (simp add: finalize_assignment_attempt_def)
  qed
  then show ?thesis using r c tables by (auto simp: count_assignment_def)
qed

text \<open>One call of a compensation, and a whole history of them; a call that raises changes nothing.\<close>

type_synonym compensation = "clock \<times> bool \<times> string \<times> bool \<times> bool"

definition compensate_call :: "settings \<Rightarrow> uuid \<Rightarrow> compensation \<Rightarrow> db \<Rightarrow> db" where
  "compensate_call cfg k c d =
     (case c of (clk, retryable, code, quarantine, repair) \<Rightarrow>
        (case compensate_assignment_attempt cfg clk k retryable code quarantine repair d of
           Inl e \<Rightarrow> d | Inr (d', _) \<Rightarrow> d'))"

lemma compensate_call_chats:
  assumes "\<not> capacity_enforced cfg" and "attempt_of d k = Some a"
  shows "\<exists>a'. attempt_of (compensate_call cfg k c d) k = Some a' \<and> at_agent a' = at_agent a \<and>
    map ag_pk (db_agents (compensate_call cfg k c d)) = map ag_pk (db_agents d) \<and>
    (if spent a then spent a' \<and> map ag_chats (db_agents (compensate_call cfg k c d)) = map ag_chats (db_agents d)
     else (\<not> spent a' \<and> map ag_chats (db_agents (compensate_call cfg k c d)) = map ag_chats (db_agents d)) \<or>
          (spent a' \<and> map ag_chats (db_agents (compensate_call cfg k c d)) =
             map (\<lambda>g. if ag_pk g = at_agent a then max (ag_chats g - 1) 0 else ag_chats g) (db_agents d)))"
proof -
  obtain clk retryable code quarantine repair where c: "c = (clk, retryable, code, quarantine, repair)" by (cases c) auto
  show ?thesis
  proof (cases "compensate_assignment_attempt cfg clk k retryable code quarantine repair d")
    case (Inl e)
    then show ?thesis using assms(2) by (simp add: compensate_call_def c)
  next
    case (Inr r)
    then obtain d' a' where r: "compensate_assignment_attempt cfg clk k retryable code quarantine repair d = Inr (d', a')"
      by (cases r) auto
    then show ?thesis using compensate_chats [OF r assms] by (simp add: compensate_call_def c)
  qed
qed

lemma spent_forever:
  assumes "\<not> capacity_enforced cfg" and "attempt_of d k = Some a" and "spent a"
  shows "map ag_chats (db_agents (fold (compensate_call cfg k) cs d)) = map ag_chats (db_agents d)"
  using assms
proof (induction cs arbitrary: d a)
  case Nil
  then show ?case by simp
next
  case (Cons c cs)
  from compensate_call_chats [OF Cons.prems(1,2), of c] Cons.prems(3)
  obtain a' where "attempt_of (compensate_call cfg k c d) k = Some a'" "spent a'"
    "map ag_chats (db_agents (compensate_call cfg k c d)) = map ag_chats (db_agents d)" by auto
  then show ?case using Cons.IH [OF Cons.prems(1)] by simp
qed

text \<open>Capacity is given back at most once.  In the legacy counting mode, whatever sequence of
  compensations is applied to an attempt (duplicates, retries of a crashed worker, different
  flags and codes), the chat counts end up either unchanged or with the selected agent's
  count lowered by one, never below zero; and not at all when the attempt was terminal or
  already compensated.\<close>

theorem capacity_released_at_most_once:
  assumes "\<not> capacity_enforced cfg" and "attempt_of d k = Some a"
  shows "map ag_chats (db_agents (fold (compensate_call cfg k) cs d)) \<in>
    (if spent a then {map ag_chats (db_agents d)}
     else {map ag_chats (db_agents d),
           map (\<lambda>g. if ag_pk g = at_agent a then max (ag_chats g - 1) 0 else ag_chats g) (db_agents d)})"
  using assms(2)
proof (induction cs arbitrary: d a)
  case Nil
  then show ?case by simp
next
  case (Cons c cs)
  let ?d = "compensate_call cfg k c d"
  from compensate_call_chats [OF assms(1) Cons.prems, of c]
  obtain a' where a': "attempt_of ?d k = Some a'" "at_agent a' = at_agent a"
    "map ag_pk (db_agents ?d) = map ag_pk (db_agents d)"
    and cases: "if spent a then spent a' \<and> map ag_chats (db_agents ?d) = map ag_chats (db_agents d)
     else (\<not> spent a' \<and> map ag_chats (db_agents ?d) = map ag_chats (db_agents d)) \<or>
          (spent a' \<and> map ag_chats (db_agents ?d) =
             map (\<lambda>g. if ag_pk g = at_agent a then max (ag_chats g - 1) 0 else ag_chats g) (db_agents d))"
    by auto
  have eq: "map (\<lambda>g. if ag_pk g = x then max (ag_chats g - 1) 0 else ag_chats g) gs =
        map2 (\<lambda>p c. if p = x then max (c - 1) 0 else c) (map ag_pk gs) (map ag_chats gs)" for gs x
    by (induction gs) simp_all
  show ?case
  proof (cases "spent a'")
    case True
    then have "map ag_chats (db_agents (fold (compensate_call cfg k) cs ?d)) = map ag_chats (db_agents ?d)"
      by (rule spent_forever [OF assms(1) a'(1)])
    then show ?thesis using cases True by (auto split: if_splits)
  next
    case False
    then have same: "map ag_chats (db_agents ?d) = map ag_chats (db_agents d)" "\<not> spent a"
      using cases by (auto split: if_splits)
    have "map (\<lambda>g. if ag_pk g = at_agent a then max (ag_chats g - 1) 0 else ag_chats g) (db_agents ?d) =
        map (\<lambda>g. if ag_pk g = at_agent a then max (ag_chats g - 1) 0 else ag_chats g) (db_agents d)"
      by (simp only: eq same(1) a'(3))
    then show ?thesis using Cons.IH [OF a'(1)] False same a'(2) by simp
  qed
qed

text \<open>Terminal attempts are frozen.  On a completed or compensated attempt, recording an
  effect, finalizing and compensating either raise or return the attempt as it is, and leave
  agents, queue, cycles, attempts, logs, assigned conversations and reservations alone; a
  compensated attempt can neither record an effect nor be finalized.\<close>

theorem terminal_attempts_frozen:
  assumes "attempt_of d k = Some a" and "at_state a \<in> set terminal_attempt_states"
    and "out \<in> {mark_external_applied cfg clk k what d, finalize_assignment_attempt cfg clk k d,
                compensate_assignment_attempt cfg clk k retryable code quarantine repair d}"
  shows "case out of
      Inl e \<Rightarrow> True
    | Inr (d', a') \<Rightarrow> a' = a \<and> db_attempts d' = db_attempts d \<and> db_agents d' = db_agents d \<and> db_queue d' = db_queue d \<and>
        db_cycles d' = db_cycles d \<and> db_logs d' = db_logs d \<and> db_assigned d' = db_assigned d \<and>
        db_reservations d' = db_reservations d \<and>
        (at_state a = Compensated \<longrightarrow> out = compensate_assignment_attempt cfg clk k retryable code quarantine repair d)"
proof (cases "assignment_transaction cfg k d")
  case (Inl e)
  then show ?thesis
    using assms(3) by (auto simp: mark_external_applied_def finalize_assignment_attempt_def compensate_assignment_attempt_def)
next
  case (Inr r)
  then obtain d1 occ where t: "assignment_transaction cfg k d = Inr (d1, occ)" by (cases r) auto
  note tab = assignment_transaction_tables [OF t]
  have a: "attempt_of d1 k = Some a" using assms(1) by (simp add: attempt_of_def tab)
  have "mark_external_applied cfg clk k what d = (if at_state a = Completed then Inr (d1, a) else Inl ValueError)"
    using assms(2) t a by (auto simp: mark_external_applied_def terminal_attempt_states_def)
  moreover have "finalize_assignment_attempt cfg clk k d = (if at_state a = Completed then Inr (d1, a) else Inl ValueError)"
    using assms(2) t a by (auto simp: finalize_assignment_attempt_def terminal_attempt_states_def)
  moreover have "compensate_assignment_attempt cfg clk k retryable code quarantine repair d = Inr (d1, a)"
    using assms(2) t a by (simp add: compensate_assignment_attempt_def)
  ultimately show ?thesis using assms(3) tab by (auto split: if_splits)
qed

text \<open>The retry delay is bounded.  Whatever the number of compensations, the next retry is
  between one and thirty minutes away, it never gets shorter with another compensation, and
  from the sixth on it stays at thirty minutes.\<close>

theorem backoff_bounded:
  "60 \<le> backoff_seconds n \<and> backoff_seconds n \<le> 1800 \<and> backoff_seconds n \<le> backoff_seconds (n + 1) \<and>
   (6 \<le> n \<longrightarrow> backoff_seconds n = 1800)"
proof -
  define p where "p m = (2::int) ^ nat (min (max (m - 1) 0) 5)" for m :: int
  have p: "1 \<le> p n" "p n \<le> p (n + 1)" unfolding p_def by (simp, rule power_increasing, simp_all add: nat_mono)
  have top: "p n = 32" if "6 \<le> n" using that by (simp add: p_def min_def max_def)
  have "backoff_seconds m = min (60 * p m) 1800" for m by (simp add: backoff_seconds_def p_def)
  then show ?thesis using p top by simp
qed

section \<open>Witnesses\<close>

definition demo_clock :: clock where
  "demo_clock = \<lparr>db_clock = 1000, app_clock = 1001\<rparr>"

definition demo_cycle :: cycle where
  "demo_cycle = \<lparr>cy_pk = 3, cy_key = ''K'', cy_source_system = ''hubspot'', cy_account = ''7'', cy_ticket = ''42'',
     cy_entered_at = Some 0, cy_source_event = [], cy_state = Queued, cy_opened_at = 0, cy_closed_at = None\<rparr>"

definition demo_row :: queue_row where
  "demo_row = \<lparr>nc_pk = 4, nc_ticket = ''42'', nc_cycle = Some 3, nc_pipeline = ''P'', nc_contact = (None, None, None, None),
     nc_entered_at = 0, nc_status = Pending, nc_attempts = 0, nc_last_attempt_at = None, nc_next_attempt_at = None,
     nc_failure_code = [], nc_auto = True, nc_claim_token = [], nc_claim_expires = None, nc_claimed_at = None\<rparr>"

definition demo_attempt :: attempt where
  "demo_attempt = \<lparr>at_pk = 5, at_key = (Cycle_Identity 3, Automatic), at_ticket = ''42'', at_cycle = Some 3,
     at_queue_row = Some 4, at_agent = 1, at_elig_revision = 1, at_desired_owner = 10, at_prior_owner = None,
     at_reason = ''eligible'', at_state = Reserved, at_type = Automatic, at_requested_by = [], at_result_class = [],
     at_reserved_at = 0, at_applied_at = None, at_finalized_at = None, at_comp_started_at = None,
     at_compensated_at = None, at_retry_count = 0, at_next_retry_at = None, at_last_error = [], at_updated_at = 0\<rparr>"

definition demo_assignment_db :: db where
  "demo_assignment_db = empty_db\<lparr>db_agents := [(demo_agent 1 10)\<lparr>ag_chats := 1\<rparr>, demo_agent 2 20], db_queue := [demo_row],
     db_cycles := [demo_cycle], db_attempts := [demo_attempt], db_next_pk := 100\<rparr>"

definition demo_applied_db :: db where
  "demo_applied_db = demo_assignment_db\<lparr>db_attempts := [demo_attempt\<lparr>at_state := External_Applied\<rparr>]\<rparr>"

theorem finalized_exactly_once_witness:
  "case finalize_assignment_attempt demo_cfg demo_clock 5 demo_applied_db of
     Inl e \<Rightarrow> False
   | Inr (d', a') \<Rightarrow> finalize_assignment_attempt demo_cfg (demo_clock\<lparr>db_clock := 2000\<rparr>) 5 d' = Inr (d', a') \<and> queue_of d' 4 = None"
proof -
  have ok: "is_ok (finalize_assignment_attempt demo_cfg demo_clock 5 demo_applied_db)" by code_simp
  obtain d' a' where r: "finalize_assignment_attempt demo_cfg demo_clock 5 demo_applied_db = Inr (d', a')"
    using ok by (cases "finalize_assignment_attempt demo_cfg demo_clock 5 demo_applied_db") auto
  have a: "attempt_of demo_applied_db 5 = Some (demo_attempt\<lparr>at_state := External_Applied\<rparr>)" by code_simp
  show ?thesis using finalized_exactly_once [OF r a] by (simp add: r demo_attempt_def)
qed

theorem capacity_released_at_most_once_witness:
  "map ag_chats (db_agents (fold (compensate_call demo_cfg 5)
     [(demo_clock, True, ''timeout'', False, False), (demo_clock, False, ''stale_cycle'', True, False)] demo_assignment_db)) = [0, 0]"
proof -
  let ?cs = "[(demo_clock, True, ''timeout'', False, False), (demo_clock, False, ''stale_cycle'', True, False)]"
  have p: "\<not> capacity_enforced demo_cfg" "attempt_of demo_assignment_db 5 = Some demo_attempt" by code_simp+
  have "map ag_chats (db_agents (fold (compensate_call demo_cfg 5) ?cs demo_assignment_db)) \<in> {[1, 0], [0, 0]}"
    using capacity_released_at_most_once [OF p, of ?cs]
    by (simp add: demo_assignment_db_def demo_agent_def demo_attempt_def spent_def terminal_attempt_states_def)
  moreover have "map ag_chats (db_agents (fold (compensate_call demo_cfg 5) ?cs demo_assignment_db)) \<noteq> [1, 0]" by code_simp
  ultimately show ?thesis by blast
qed

theorem terminal_attempts_frozen_witness:
  "let d = demo_assignment_db\<lparr>db_attempts := [demo_attempt\<lparr>at_state := Completed\<rparr>]\<rparr>
   in case compensate_assignment_attempt demo_cfg demo_clock 5 True ''timeout'' True True d of
        Inl e \<Rightarrow> False | Inr (d', a') \<Rightarrow> db_agents d' = db_agents d"
proof -
  let ?d = "demo_assignment_db\<lparr>db_attempts := [demo_attempt\<lparr>at_state := Completed\<rparr>]\<rparr>"
  have p: "attempt_of ?d 5 = Some (demo_attempt\<lparr>at_state := Completed\<rparr>)" by code_simp
  have s: "at_state (demo_attempt\<lparr>at_state := Completed\<rparr>) \<in> set terminal_attempt_states"
    by (simp add: terminal_attempt_states_def)
  have ok: "is_ok (compensate_assignment_attempt demo_cfg demo_clock 5 True ''timeout'' True True ?d)" by code_simp
  show ?thesis
    using terminal_attempts_frozen [OF p s, of "compensate_assignment_attempt demo_cfg demo_clock 5 True ''timeout'' True True ?d"
        demo_cfg demo_clock "[]" True "''timeout''" True True] ok
    by (cases "compensate_assignment_attempt demo_cfg demo_clock 5 True ''timeout'' True True ?d") (auto simp: Let_def)
qed

theorem backoff_bounded_witness: "map backoff_seconds [1, 2, 3, 4, 5, 6, 60] = [60, 120, 240, 480, 960, 1800, 1800]"
  using backoff_bounded [of 60] by (simp add: backoff_seconds_def)

end
