(* ===== verification/Service_Cycles.thy ===== *)
theory Service_Cycles
  imports Interfaces Py_Text
begin

text \<open>
  Conversation instances and their attendances: the rows of \<open>apps/ai_agents/models.py\<close> that the
  lifecycle uses and the operations of \<open>apps/ai_agents/services/service_cycles.py\<close>.

  Left out of the rows: the session texts, the JSON payloads and the metadata entries other than
  the provider cursor, the identity source and the supersession mark.  The idempotency key of a
  service cycle is \<open>uuid5\<close> of its instance and sequence, so it is represented by that pair.
  Every operation runs in one transaction: an exception commits nothing.
\<close>

section \<open>Rows\<close>

datatype conversation_state =
    St_Received | St_Normalized | St_Context_Hydrating | St_Context_Ready | St_Ai_Pending | St_Ai_Running
  | St_Waiting | St_Handoff_Requested | St_Queue_Pending | St_Human_Assigned | St_Human_In_Progress
  | St_Resolved_By_Ai | St_Resolved_By_Human | St_Closed | St_Failed_Retryable | St_Failed_Terminal | St_Ignored

text \<open>
  A webhook payload is a flat JSON object.  The fingerprint of an event is what it hashes: the
  source, the type and the entries.
\<close>

datatype scalar = J_Null | J_Bool bool | J_Int int | J_Text string

type_synonym payload = "(string \<times> scalar) list"

type_synonym event_key = "string \<times> string \<times> payload"

datatype instance_key = Thread_Key string | Ticket_Key string | Event_Key event_key | Superseded_Key uuid

record conversation =
  cn_pk :: uuid
  cn_thread :: "string option"
  cn_ticket :: "string option"
  cn_contact :: "string option"
  cn_channel :: string
  cn_pipeline :: "string option"
  cn_stage :: "string option"
  cn_state :: conversation_state
  cn_version :: nat
  cn_key :: instance_key
  cn_last_event :: string
  cn_last_message :: string
  cn_assigned :: "string option"
  cn_opened_at :: instant
  cn_created_at :: instant
  cn_activity_at :: "instant option"
  cn_closed_at :: "instant option"
  cn_failures :: nat
  cn_next_retry_at :: "instant option"
  cn_error :: string
  cn_cursor :: "instant option"
  cn_superseded_by :: "uuid option"

datatype cycle_status = Cycle_Open | Cycle_Closed

datatype cycle_source = Direct_Source | Legacy_Bootstrap | State_Reconciliation | Verified_Reopen uuid

record service_cycle =
  sc_pk :: uuid
  sc_instance :: uuid
  sc_seq :: nat
  sc_status :: cycle_status
  sc_opened_at :: instant
  sc_closed_at :: "instant option"
  sc_from :: "conversation_state option"
  sc_reason :: string
  sc_event :: string
  sc_closed_reason :: string
  sc_source :: cycle_source

datatype processing_status = Ev_Pending | Ev_Processed | Ev_Duplicate | Ev_Failed

record conversation_event =
  ev_pk :: uuid
  ev_instance :: uuid
  ev_cycle :: "uuid option"
  ev_source :: string
  ev_source_event :: string
  ev_type :: string
  ev_occurred_at :: "instant option"
  ev_key :: event_key
  ev_status :: processing_status
  ev_processed_at :: "instant option"
  ev_error :: string

record state_transition =
  tr_instance :: uuid
  tr_cycle :: "uuid option"
  tr_from :: conversation_state
  tr_to :: conversation_state
  tr_reason :: string
  tr_actor_type :: string
  tr_actor :: string
  tr_event :: string

record conv =
  cv_instances :: "conversation list"
  cv_cycles :: "service_cycle list"
  cv_events :: "conversation_event list"
  cv_moves :: "state_transition list"
  cv_next_pk :: uuid

definition conversation_of :: "conv \<Rightarrow> uuid \<Rightarrow> conversation option" where
  "conversation_of s k = get_row cn_pk k (cv_instances s)"

definition put_conversation :: "conversation \<Rightarrow> conv \<Rightarrow> conv" where
  "put_conversation i s = s\<lparr>cv_instances := save_row cn_pk i (cv_instances s)\<rparr>"

definition put_service_cycle :: "service_cycle \<Rightarrow> conv \<Rightarrow> conv" where
  "put_service_cycle c s = s\<lparr>cv_cycles := save_row sc_pk c (cv_cycles s)\<rparr>"

definition terminal_states :: "conversation_state list" where
  "terminal_states = [St_Closed, St_Failed_Terminal, St_Ignored]"

definition is_terminal :: "conversation_state \<Rightarrow> bool" where
  "is_terminal st \<longleftrightarrow> st \<in> set terminal_states"

section \<open>Operations\<close>

text \<open>The cycles of an instance, in the order of their creation.\<close>

definition cycles_of :: "conv \<Rightarrow> uuid \<Rightarrow> service_cycle list" where
  "cycles_of s k = filter (\<lambda>c. sc_instance c = k) (cv_cycles s)"

definition open_service_cycle :: "conv \<Rightarrow> uuid \<Rightarrow> service_cycle option" where
  "open_service_cycle s k = first_by sc_seq (\<lambda>c. sc_instance c = k \<and> sc_status c = Cycle_Open) (cv_cycles s)"

definition latest_service_cycle :: "conv \<Rightarrow> uuid \<Rightarrow> service_cycle option" where
  "latest_service_cycle s k = first_by (\<lambda>c. - int (sc_seq c)) (\<lambda>c. sc_instance c = k) (cv_cycles s)"

definition cycle_conflict :: "service_cycle \<Rightarrow> service_cycle \<Rightarrow> bool" where
  "cycle_conflict new old \<longleftrightarrow> sc_instance old = sc_instance new \<and>
     (sc_seq old = sc_seq new \<or> (sc_status old = Cycle_Open \<and> sc_status new = Cycle_Open))"

definition create_cycle :: "service_cycle \<Rightarrow> conv \<Rightarrow> (conv \<times> service_cycle) result" where
  "create_cycle c s =
     (if list_ex (cycle_conflict c) (cv_cycles s) then Inl IntegrityError
      else (let c' = c\<lparr>sc_pk := cv_next_pk s\<rparr>
            in Inr (s\<lparr>cv_cycles := cv_cycles s @ [c'], cv_next_pk := Suc (cv_next_pk s)\<rparr>, c')))"

definition blank_cycle :: "uuid \<Rightarrow> nat \<Rightarrow> cycle_status \<Rightarrow> instant \<Rightarrow> service_cycle" where
  "blank_cycle k n st t = \<lparr>sc_pk = 0, sc_instance = k, sc_seq = n, sc_status = st, sc_opened_at = t, sc_closed_at = None,
     sc_from = None, sc_reason = [], sc_event = [], sc_closed_reason = [], sc_source = Direct_Source\<rparr>"

definition bootstrap_legacy_cycle :: "instant \<Rightarrow> conversation \<Rightarrow> conv \<Rightarrow> (conv \<times> service_cycle) result" where
  "bootstrap_legacy_cycle now i s =
     (let done_already = is_terminal (cn_state i)
      in create_cycle
           ((blank_cycle (cn_pk i) 1 (if done_already then Cycle_Closed else Cycle_Open) (cn_opened_at i))
              \<lparr>sc_closed_at := (if done_already then Some (case cn_closed_at i of None \<Rightarrow> now | Some t \<Rightarrow> t) else None),
               sc_reason := ''Legacy conversation instance adopted by service-cycle tracking.'',
               sc_closed_reason := (if done_already then ''Legacy terminal state adopted by service-cycle tracking.'' else []),
               sc_source := Legacy_Bootstrap\<rparr>) s)"

definition ensure_current_service_cycle :: "instant \<Rightarrow> uuid \<Rightarrow> conv \<Rightarrow> (conv \<times> service_cycle) result" where
  "ensure_current_service_cycle now k s =
     (case conversation_of s k of
        None \<Rightarrow> Inl DoesNotExist
      | Some i \<Rightarrow>
          (case open_service_cycle s k of
             Some c \<Rightarrow> Inr (s, c)
           | None \<Rightarrow>
               (case latest_service_cycle s k of
                  None \<Rightarrow> bootstrap_legacy_cycle now i s
                | Some l \<Rightarrow>
                    (if is_terminal (cn_state i) then Inr (s, l)
                     else create_cycle
                            ((blank_cycle k (Suc (sc_seq l)) Cycle_Open now)
                               \<lparr>sc_from := sc_from l,
                                sc_reason := ''Recovered an open lifecycle state without an active service cycle.'',
                                sc_source := State_Reconciliation\<rparr>) s))))"

definition superseded_cycle :: "instant \<Rightarrow> service_cycle \<Rightarrow> service_cycle" where
  "superseded_cycle now c = c\<lparr>sc_status := Cycle_Closed,
     sc_closed_at := (case sc_closed_at c of None \<Rightarrow> Some now | Some t \<Rightarrow> Some t),
     sc_closed_reason := (if sc_closed_reason c = [] then ''Superseded by a verified conversation reopening.''
                          else sc_closed_reason c)\<rparr>"

definition reopen_service_cycle ::
  "instant \<Rightarrow> uuid \<Rightarrow> conversation_state \<Rightarrow> string \<Rightarrow> string \<Rightarrow> conv \<Rightarrow> (conv \<times> service_cycle) result" where
  "reopen_service_cycle now k from_state reason event s =
     (case conversation_of s k of
        None \<Rightarrow> Inl DoesNotExist
      | Some i \<Rightarrow>
          (case (case latest_service_cycle s k of Some l \<Rightarrow> Inr (s, l) | None \<Rightarrow> bootstrap_legacy_cycle now i s) of
             Inl e \<Rightarrow> Inl e
           | Inr (s1, first) \<Rightarrow>
               (let s2 = (case open_service_cycle s1 k of
                            None \<Rightarrow> s1 | Some c \<Rightarrow> put_service_cycle (superseded_cycle now c) s1);
                    l = (case latest_service_cycle s2 k of None \<Rightarrow> first | Some l \<Rightarrow> l)
                in create_cycle
                     ((blank_cycle k (Suc (sc_seq l)) Cycle_Open now)
                        \<lparr>sc_from := Some from_state, sc_reason := reason, sc_event := event,
                         sc_source := Verified_Reopen (sc_pk l)\<rparr>) s2)))"

definition close_current_service_cycle ::
  "instant \<Rightarrow> uuid \<Rightarrow> string \<Rightarrow> instant option \<Rightarrow> conv \<Rightarrow> (conv \<times> service_cycle) result" where
  "close_current_service_cycle now k reason occurred s =
     (case conversation_of s k of
        None \<Rightarrow> Inl DoesNotExist
      | Some _ \<Rightarrow>
          (case (case open_service_cycle s k of Some c \<Rightarrow> Inr (s, c) | None \<Rightarrow> ensure_current_service_cycle now k s) of
             Inl e \<Rightarrow> Inl e
           | Inr (s1, c) \<Rightarrow>
               (if sc_status c = Cycle_Closed then Inr (s1, c)
                else (let c' = c\<lparr>sc_status := Cycle_Closed,
                            sc_closed_at := Some (case occurred of None \<Rightarrow> now | Some t \<Rightarrow> t), sc_closed_reason := reason\<rparr>
                      in Inr (put_service_cycle c' s1, c')))))"

record cycle_context =
  cx_cycle :: uuid
  cx_sequence :: nat
  cx_reopened :: bool
  cx_reopen_count :: int
  cx_from :: "conversation_state option"
  cx_reason :: string

definition service_cycle_context :: "instant \<Rightarrow> uuid \<Rightarrow> conv \<Rightarrow> (conv \<times> cycle_context) result" where
  "service_cycle_context now k s =
     (case ensure_current_service_cycle now k s of
        Inl e \<Rightarrow> Inl e
      | Inr (s', c) \<Rightarrow>
          Inr (s', \<lparr>cx_cycle = sc_pk c, cx_sequence = sc_seq c, cx_reopened = (1 < sc_seq c),
             cx_reopen_count = max (int (sc_seq c) - 1) 0, cx_from = sc_from c, cx_reason = sc_reason c\<rparr>))"

section \<open>The numbering of attendances\<close>

text \<open>
  The attendances of an instance are numbered from one in the order of their creation, and only
  the last may be open.
\<close>

definition well_numbered :: "conv \<Rightarrow> bool" where
  "well_numbered s \<longleftrightarrow>
     distinct (map sc_pk (cv_cycles s)) \<and> (\<forall>c \<in> set (cv_cycles s). sc_pk c < cv_next_pk s) \<and>
     (\<forall>k. map sc_seq (cycles_of s k) = [1..<Suc (length (cycles_of s k))] \<and>
          (\<forall>c \<in> set (butlast (cycles_of s k)). sc_status c = Cycle_Closed))"

lemma well_numberedD:
  assumes "well_numbered s"
  shows "distinct (map sc_pk (cv_cycles s))" "\<And>c. c \<in> set (cv_cycles s) \<Longrightarrow> sc_pk c < cv_next_pk s"
    "\<And>k. map sc_seq (cycles_of s k) = [1..<Suc (length (cycles_of s k))]"
    "\<And>k c. c \<in> set (butlast (cycles_of s k)) \<Longrightarrow> sc_status c = Cycle_Closed"
  using assms unfolding well_numbered_def by blast+

lemma in_cycles_of [simp]: "c \<in> set (cycles_of s k) \<longleftrightarrow> c \<in> set (cv_cycles s) \<and> sc_instance c = k"
  by (auto simp: cycles_of_def)

lemma mem_nonempty: "x \<in> set xs \<Longrightarrow> xs \<noteq> []"
  by auto

lemma mem_butlast_or_last: "x \<in> set xs \<Longrightarrow> x \<in> set (butlast xs) \<or> x = last xs"
  by (induction xs) auto

lemma cycles_of_cong: "cv_cycles s' = cv_cycles s \<Longrightarrow> cycles_of s' k = cycles_of s k"
  by (simp add: cycles_of_def)

lemma well_numbered_cong:
  "well_numbered s \<Longrightarrow> cv_cycles s' = cv_cycles s \<Longrightarrow> cv_next_pk s' = cv_next_pk s \<Longrightarrow> well_numbered s'"
  by (simp add: well_numbered_def cycles_of_def)

lemma numbered_last:
  assumes "map f xs = [1..<Suc (length xs)]" and "x \<in> set xs" and "\<And>y. y \<in> set xs \<Longrightarrow> f y \<le> f x"
  shows "x = last xs"
proof -
  obtain i where i: "i < length xs" "xs ! i = x" using assms(2) by (auto simp: in_set_conv_nth)
  have f: "f (xs ! j) = Suc j" if "j < length xs" for j
    using arg_cong [OF assms(1), of "\<lambda>ys. ys ! j"] that by (simp del: upt_Suc)
  have "xs \<noteq> []" using assms(2) by auto
  then have "last xs = xs ! (length xs - 1)" "length xs - 1 < length xs" by (simp_all add: last_conv_nth)
  moreover have "f (last xs) \<le> f x" using assms(3) \<open>xs \<noteq> []\<close> by simp
  ultimately have "length xs \<le> Suc i" using f [of i] f [of "length xs - 1"] i by simp
  then have "i = length xs - 1" using i(1) by simp
  then show ?thesis using i \<open>last xs = xs ! (length xs - 1)\<close> by simp
qed

lemma numbered_seq_last:
  assumes "map f xs = [1..<Suc (length xs)]" and "xs \<noteq> []"
  shows "f (last xs) = length xs"
proof -
  have "f (last xs) = map f xs ! (length xs - 1)" using assms(2) by (simp add: last_conv_nth)
  then show ?thesis using assms by (simp del: upt_Suc)
qed

lemma latest_service_cycle_eq:
  assumes "well_numbered s"
  shows "latest_service_cycle s k = (if cycles_of s k = [] then None else Some (last (cycles_of s k)))"
proof (cases "latest_service_cycle s k")
  case None
  then have "\<forall>c \<in> set (cv_cycles s). sc_instance c \<noteq> k"
    by (simp add: latest_service_cycle_def first_by_None)
  then show ?thesis using None by (simp add: cycles_of_def filter_empty_conv)
next
  case (Some c)
  then have c: "c \<in> set (cycles_of s k)" using first_by_Some by (force simp: latest_service_cycle_def)
  have "sc_seq d \<le> sc_seq c" if "d \<in> set (cycles_of s k)" for d
    using first_by_least [of _ _ _ c d] Some that by (force simp: latest_service_cycle_def)
  then have "c = last (cycles_of s k)" by (rule numbered_last [OF well_numberedD(3) [OF assms] c])
  then show ?thesis using mem_nonempty [OF c] Some by simp
qed

lemma open_service_cycle_eq:
  assumes "well_numbered s"
  shows "open_service_cycle s k =
    (if cycles_of s k \<noteq> [] \<and> sc_status (last (cycles_of s k)) = Cycle_Open then Some (last (cycles_of s k)) else None)"
proof (cases "open_service_cycle s k")
  case None
  then have "\<forall>c \<in> set (cycles_of s k). sc_status c \<noteq> Cycle_Open"
    by (auto simp: open_service_cycle_def first_by_None)
  then show ?thesis using None last_in_set by metis
next
  case (Some c)
  then have c: "c \<in> set (cycles_of s k)" "sc_status c = Cycle_Open"
    using first_by_Some by (force simp: open_service_cycle_def)+
  then have n: "cycles_of s k \<noteq> []" by (intro mem_nonempty)
  have "c \<notin> set (butlast (cycles_of s k))" using well_numberedD(4) [OF assms] c(2) by force
  then have "c = last (cycles_of s k)" using mem_butlast_or_last [OF c(1)] by blast
  then show ?thesis using Some c n by simp
qed

lemma create_cycle_ok:
  assumes "well_numbered s" and "sc_seq c = Suc (length (cycles_of s (sc_instance c)))"
    and "cycles_of s (sc_instance c) = [] \<or> sc_status (last (cycles_of s (sc_instance c))) = Cycle_Closed"
  obtains s' c' where "create_cycle c s = Inr (s', c')" "c' = c\<lparr>sc_pk := cv_next_pk s\<rparr>" "well_numbered s'"
    "cycles_of s' = (cycles_of s)(sc_instance c := cycles_of s (sc_instance c) @ [c'])"
    "cv_instances s' = cv_instances s" "cv_events s' = cv_events s" "cv_moves s' = cv_moves s"
    "cv_next_pk s' = Suc (cv_next_pk s)"
proof -
  note w = well_numberedD [OF assms(1)]
  let ?k = "sc_instance c"
  let ?c = "c\<lparr>sc_pk := cv_next_pk s\<rparr>"
  let ?s = "s\<lparr>cv_cycles := cv_cycles s @ [?c], cv_next_pk := Suc (cv_next_pk s)\<rparr>"
  have closed: "sc_status d = Cycle_Closed" if "d \<in> set (cycles_of s ?k)" for d
  proof (cases "d \<in> set (butlast (cycles_of s ?k))")
    case False
    then have "d = last (cycles_of s ?k)" using mem_butlast_or_last [OF that] by blast
    then show ?thesis using assms(3) mem_nonempty [OF that] by simp
  qed (rule w(4))
  have seq: "sc_seq d \<le> length (cycles_of s ?k)" if "d \<in> set (cycles_of s ?k)" for d
  proof -
    have "sc_seq d \<in> set (map sc_seq (cycles_of s ?k))" unfolding set_map using that by (rule imageI)
    then show ?thesis unfolding w(3) by auto
  qed
  have "\<not> list_ex (cycle_conflict c) (cv_cycles s)"
    using closed seq assms(2) by (fastforce simp: list_ex_iff cycle_conflict_def)
  then have r: "create_cycle c s = Inr (?s, ?c)" by (simp add: create_cycle_def Let_def)
  have cyc: "cycles_of ?s = (cycles_of s)(?k := cycles_of s ?k @ [?c])"
    by (auto simp: cycles_of_def fun_eq_iff)
  have "well_numbered ?s"
    unfolding well_numbered_def cyc
  proof (intro conjI allI)
    show "distinct (map sc_pk (cv_cycles ?s))" using w(1) w(2) [of _] by (fastforce simp: image_iff)
    show "\<forall>d \<in> set (cv_cycles ?s). sc_pk d < cv_next_pk ?s" using w(2) by (auto intro: less_SucI)
    fix j
    show "map sc_seq (((cycles_of s)(?k := cycles_of s ?k @ [?c])) j) =
        [1..<Suc (length (((cycles_of s)(?k := cycles_of s ?k @ [?c])) j))]"
      using w(3) [of j] assms(2) by (cases "j = ?k") simp_all
    show "\<forall>d \<in> set (butlast (((cycles_of s)(?k := cycles_of s ?k @ [?c])) j)). sc_status d = Cycle_Closed"
      using w(4) [of _ j] closed by (cases "j = ?k") (simp_all add: butlast_append del: in_cycles_of)
  qed
  then show thesis using r cyc that by simp
qed

lemma put_last_cycle:
  assumes "well_numbered s" and "cycles_of s k \<noteq> []" and "c = last (cycles_of s k)"
    and "sc_pk c' = sc_pk c" and "sc_instance c' = k" and "sc_seq c' = sc_seq c"
  shows "well_numbered (put_service_cycle c' s)"
    "cycles_of (put_service_cycle c' s) = (cycles_of s)(k := butlast (cycles_of s k) @ [c'])"
proof -
  note w = well_numberedD [OF assms(1)]
  have c: "c \<in> set (cv_cycles s)" "sc_instance c = k" using last_in_set [OF assms(2)] assms(3) by auto
  have only: "d = c" if "d \<in> set (cv_cycles s)" "sc_pk d = sc_pk c" for d
    using w(1) that c(1) by (auto simp: distinct_map dest: inj_onD)
  have rep: "filter (\<lambda>d. sc_instance d = j) (save_row sc_pk c' rows) =
      map (\<lambda>d. if sc_pk d = sc_pk c' then c' else d) (filter (\<lambda>d. sc_instance d = j) rows)"
    if "set rows \<subseteq> set (cv_cycles s)" for j rows
    using that
  proof (induction rows)
    case Nil
    then show ?case by (simp add: save_row_def)
  next
    case (Cons d rows)
    have ih: "filter (\<lambda>d. sc_instance d = j) (save_row sc_pk c' rows) =
        map (\<lambda>d. if sc_pk d = sc_pk c' then c' else d) (filter (\<lambda>d. sc_instance d = j) rows)"
      using Cons by simp
    have head: "save_row sc_pk c' (d # rows) = (if sc_pk d = sc_pk c' then c' else d) # save_row sc_pk c' rows"
      by (simp add: save_row_def)
    show ?case
    proof (cases "sc_pk d = sc_pk c'")
      case True
      have "d = c" by (rule only) (use True Cons.prems assms(4) in simp_all)
      then have h: "(sc_instance d = j) = (sc_instance c' = j)" using c(2) assms(5) by simp
      show ?thesis
        by (cases "sc_instance c' = j") (simp_all only: head True if_True if_False filter.simps ih h list.map simp_thms)
    next
      case False
      then show ?thesis
        by (cases "sc_instance d = j") (simp_all only: head if_True if_False filter.simps ih list.map simp_thms)
    qed
  qed
  show cyc: "cycles_of (put_service_cycle c' s) = (cycles_of s)(k := butlast (cycles_of s k) @ [c'])"
  proof
    fix j
    have j: "cycles_of (put_service_cycle c' s) j = map (\<lambda>d. if sc_pk d = sc_pk c' then c' else d) (cycles_of s j)"
      using rep [of "cv_cycles s" j] by (simp add: cycles_of_def put_service_cycle_def)
    show "cycles_of (put_service_cycle c' s) j = ((cycles_of s)(k := butlast (cycles_of s k) @ [c'])) j"
    proof (cases "j = k")
      case True
      have split: "cycles_of s k = butlast (cycles_of s k) @ [c]" using assms(2,3) by simp
      have "distinct (map sc_pk (cycles_of s k))" unfolding cycles_of_def using w(1) by (rule distinct_map_filter)
      then have "distinct (map sc_pk (butlast (cycles_of s k) @ [c]))" by (simp only: split [symmetric])
      then have "\<forall>d \<in> set (butlast (cycles_of s k)). sc_pk d \<noteq> sc_pk c" by (auto simp: image_iff)
      then have "map (\<lambda>d. if sc_pk d = sc_pk c' then c' else d) (butlast (cycles_of s k)) = butlast (cycles_of s k)"
        using assms(4) by (simp add: map_idI)
      moreover have "map (\<lambda>d. if sc_pk d = sc_pk c' then c' else d) (cycles_of s k) =
          map (\<lambda>d. if sc_pk d = sc_pk c' then c' else d) (butlast (cycles_of s k)) @ [c']"
        using assms(4) arg_cong [OF split, of "map (\<lambda>d. if sc_pk d = sc_pk c' then c' else d)"] by simp
      ultimately show ?thesis using True j by simp
    next
      case False
      have "sc_pk d \<noteq> sc_pk c'" if "d \<in> set (cycles_of s j)" for d
        using that only [of d] c(2) False assms(4) by auto
      then show ?thesis using False j by (simp add: map_idI del: in_cycles_of)
    qed
  qed
  have split: "cycles_of s k = butlast (cycles_of s k) @ [c]" using assms(2,3) by simp
  show "well_numbered (put_service_cycle c' s)"
    unfolding well_numbered_def cyc
  proof (intro conjI allI)
    show "distinct (map sc_pk (cv_cycles (put_service_cycle c' s)))" using w(1) by (simp add: put_service_cycle_def)
    show "\<forall>d \<in> set (cv_cycles (put_service_cycle c' s)). sc_pk d < cv_next_pk (put_service_cycle c' s)"
      using w(2) c(1) assms(4) by (auto simp: put_service_cycle_def dest!: in_save_row)
    fix j
    have "map sc_seq (butlast (cycles_of s k) @ [c']) = map sc_seq (cycles_of s k)"
      using assms(6) arg_cong [OF split, of "map sc_seq"] by simp
    moreover have "length (butlast (cycles_of s k) @ [c']) = length (cycles_of s k)"
      using arg_cong [OF split, of length] by simp
    note ml = calculation this
    show "map sc_seq (((cycles_of s)(k := butlast (cycles_of s k) @ [c'])) j) =
        [1..<Suc (length (((cycles_of s)(k := butlast (cycles_of s k) @ [c'])) j))]"
    proof (cases "j = k")
      case True
      show ?thesis unfolding True fun_upd_same ml by (rule w(3))
    next
      case False
      show ?thesis unfolding fun_upd_other [OF False] by (rule w(3))
    qed
    show "\<forall>d \<in> set (butlast (((cycles_of s)(k := butlast (cycles_of s k) @ [c'])) j)). sc_status d = Cycle_Closed"
      using w(4) [of _ j] by (cases "j = k") simp_all
  qed
qed

section \<open>What the operations do\<close>

text \<open>The current cycle of an instance is its last one.\<close>

definition current_cycle :: "conv \<Rightarrow> uuid \<Rightarrow> service_cycle option" where
  "current_cycle s k = (if cycles_of s k = [] then None else Some (last (cycles_of s k)))"

definition same_rest :: "conv \<Rightarrow> conv \<Rightarrow> bool" where
  "same_rest s s' \<longleftrightarrow> cv_instances s' = cv_instances s \<and> cv_events s' = cv_events s \<and> cv_moves s' = cv_moves s"

lemma same_rest_conversation: "same_rest s s' \<Longrightarrow> conversation_of s' k = conversation_of s k"
  by (simp add: same_rest_def conversation_of_def)

lemma bootstrap_ok:
  assumes "well_numbered s" and "cycles_of s (cn_pk i) = []"
  obtains s' c where "bootstrap_legacy_cycle now i s = Inr (s', c)" "well_numbered s'" "same_rest s s'"
    "cycles_of s' = (cycles_of s)(cn_pk i := [c])"
    "sc_status c = (if is_terminal (cn_state i) then Cycle_Closed else Cycle_Open)" "sc_seq c = 1" "sc_instance c = cn_pk i"
proof -
  let ?c = "(blank_cycle (cn_pk i) 1 (if is_terminal (cn_state i) then Cycle_Closed else Cycle_Open) (cn_opened_at i))
     \<lparr>sc_closed_at := (if is_terminal (cn_state i) then Some (case cn_closed_at i of None \<Rightarrow> now | Some t \<Rightarrow> t) else None),
      sc_reason := ''Legacy conversation instance adopted by service-cycle tracking.'',
      sc_closed_reason := (if is_terminal (cn_state i) then ''Legacy terminal state adopted by service-cycle tracking.'' else []),
      sc_source := Legacy_Bootstrap\<rparr>"
  have "sc_seq ?c = Suc (length (cycles_of s (sc_instance ?c)))" "cycles_of s (sc_instance ?c) = []"
    using assms(2) by (simp_all add: blank_cycle_def)
  then obtain s' c' where r: "create_cycle ?c s = Inr (s', c')" "c' = ?c\<lparr>sc_pk := cv_next_pk s\<rparr>" "well_numbered s'"
    "cycles_of s' = (cycles_of s)(sc_instance ?c := cycles_of s (sc_instance ?c) @ [c'])"
    "cv_instances s' = cv_instances s" "cv_events s' = cv_events s" "cv_moves s' = cv_moves s"
    using create_cycle_ok [OF assms(1), of ?c] by metis
  show thesis
  proof (rule that)
    show "bootstrap_legacy_cycle now i s = Inr (s', c')" using r(1) by (simp add: bootstrap_legacy_cycle_def Let_def)
    show "cycles_of s' = (cycles_of s)(cn_pk i := [c'])" using r(4) assms(2) by (simp add: blank_cycle_def)
  qed (use r(2,3,5-7) in \<open>simp_all add: same_rest_def blank_cycle_def\<close>)
qed

lemma ensure_ok:
  assumes "well_numbered s" and "conversation_of s k = Some i"
  obtains s' c where "ensure_current_service_cycle now k s = Inr (s', c)" "well_numbered s'" "same_rest s s'"
    "current_cycle s' k = Some c" "sc_instance c = k"
    "\<not> is_terminal (cn_state i) \<Longrightarrow> sc_status c = Cycle_Open"
    "cycles_of s' = (cycles_of s)(k := cycles_of s' k)"
    "cycles_of s' k = cycles_of s k \<and> cycles_of s k \<noteq> [] \<and> s' = s \<or> cycles_of s' k = cycles_of s k @ [c] \<and>
       (cycles_of s k = [] \<or> \<not> is_terminal (cn_state i) \<and> sc_status (last (cycles_of s k)) = Cycle_Closed)"
proof -
  have k: "cn_pk i = k" using assms(2) unfolding conversation_of_def by (rule get_row_key)
  consider (new) "cycles_of s k = []" | (live) "cycles_of s k \<noteq> []" "sc_status (last (cycles_of s k)) = Cycle_Open"
    | (old) "cycles_of s k \<noteq> []" "sc_status (last (cycles_of s k)) = Cycle_Closed"
    using cycle_status.exhaust by metis
  then show thesis
  proof cases
    case new
    then obtain s' c where r: "bootstrap_legacy_cycle now i s = Inr (s', c)" "well_numbered s'" "same_rest s s'"
      "cycles_of s' = (cycles_of s)(k := [c])" "sc_status c = (if is_terminal (cn_state i) then Cycle_Closed else Cycle_Open)"
      "sc_instance c = k"
      using bootstrap_ok [OF assms(1), of i now] k by metis
    show thesis
    proof (rule that)
      show "ensure_current_service_cycle now k s = Inr (s', c)"
        using new assms r(1) by (simp add: ensure_current_service_cycle_def open_service_cycle_eq latest_service_cycle_eq)
    qed (use r new in \<open>simp_all add: current_cycle_def\<close>)
  next
    case live
    have "last (cycles_of s k) \<in> set (cycles_of s k)" using live(1) by (rule last_in_set)
    then have "sc_instance (last (cycles_of s k)) = k" by simp
    moreover have "ensure_current_service_cycle now k s = Inr (s, last (cycles_of s k))"
      using live assms by (simp add: ensure_current_service_cycle_def open_service_cycle_eq)
    ultimately show thesis using live assms(1) by (intro that) (simp_all add: current_cycle_def same_rest_def)
  next
    case old
    have "last (cycles_of s k) \<in> set (cycles_of s k)" using old(1) by (rule last_in_set)
    then have l: "sc_instance (last (cycles_of s k)) = k" by simp
    show thesis
    proof (cases "is_terminal (cn_state i)")
      case True
      have "ensure_current_service_cycle now k s = Inr (s, last (cycles_of s k))"
        using old assms True by (simp add: ensure_current_service_cycle_def open_service_cycle_eq latest_service_cycle_eq)
      then show thesis using l old True assms(1) by (intro that) (simp_all add: current_cycle_def same_rest_def)
    next
      case False
      let ?c = "(blank_cycle k (Suc (sc_seq (last (cycles_of s k)))) Cycle_Open now)
          \<lparr>sc_from := sc_from (last (cycles_of s k)),
           sc_reason := ''Recovered an open lifecycle state without an active service cycle.'',
           sc_source := State_Reconciliation\<rparr>"
      have i: "sc_instance ?c = k" "sc_seq ?c = Suc (length (cycles_of s k))" "sc_status ?c = Cycle_Open"
        using numbered_seq_last [OF well_numberedD(3) [OF assms(1)] old(1)] by (simp_all add: blank_cycle_def)
      then have "sc_seq ?c = Suc (length (cycles_of s (sc_instance ?c)))"
        "cycles_of s (sc_instance ?c) = [] \<or> sc_status (last (cycles_of s (sc_instance ?c))) = Cycle_Closed"
        using old by simp_all
      then obtain s' c' where r: "create_cycle ?c s = Inr (s', c')" "c' = ?c\<lparr>sc_pk := cv_next_pk s\<rparr>" "well_numbered s'"
        "cycles_of s' = (cycles_of s)(sc_instance ?c := cycles_of s (sc_instance ?c) @ [c'])"
        "cv_instances s' = cv_instances s" "cv_events s' = cv_events s" "cv_moves s' = cv_moves s"
        using create_cycle_ok [OF assms(1), of ?c] by metis
      have "ensure_current_service_cycle now k s = Inr (s', c')"
        using old assms False r(1)
        by (simp add: ensure_current_service_cycle_def open_service_cycle_eq latest_service_cycle_eq)
      then show thesis
      proof (rule that)
        show "cycles_of s' = (cycles_of s)(k := cycles_of s' k)" using r(4) i(1) by simp
        show "cycles_of s' k = cycles_of s k \<and> cycles_of s k \<noteq> [] \<and> s' = s \<or> cycles_of s' k = cycles_of s k @ [c'] \<and>
          (cycles_of s k = [] \<or> \<not> is_terminal (cn_state i) \<and> sc_status (last (cycles_of s k)) = Cycle_Closed)"
          using r(4) i(1) old False by simp
        show "current_cycle s' k = Some c'" using r(4) i(1) by (simp add: current_cycle_def)
      qed (use r i in \<open>simp_all add: same_rest_def\<close>)
    qed
  qed
qed

lemma close_ok:
  assumes "well_numbered s" and "conversation_of s k = Some i"
  obtains s' c where "close_current_service_cycle now k reason occurred s = Inr (s', c)" "well_numbered s'" "same_rest s s'"
    "current_cycle s' k = Some c" "sc_instance c = k"
    "is_terminal (cn_state i) \<or> current_cycle s k \<noteq> None \<Longrightarrow> sc_status c = Cycle_Closed"
    "cycles_of s' = (cycles_of s)(k := cycles_of s' k)"
    "length (cycles_of s' k) = (if cycles_of s k = [] then 1 else
       if sc_status (last (cycles_of s k)) = Cycle_Closed \<and> \<not> is_terminal (cn_state i) then Suc (length (cycles_of s k))
       else length (cycles_of s k))"
proof -
  obtain s1 c1 where e: "ensure_current_service_cycle now k s = Inr (s1, c1)" "well_numbered s1" "same_rest s s1"
    "current_cycle s1 k = Some c1" "sc_instance c1 = k" "\<not> is_terminal (cn_state i) \<Longrightarrow> sc_status c1 = Cycle_Open"
    "cycles_of s1 = (cycles_of s)(k := cycles_of s1 k)"
    "cycles_of s1 k = cycles_of s k \<and> cycles_of s k \<noteq> [] \<and> s1 = s \<or> cycles_of s1 k = cycles_of s k @ [c1] \<and>
       (cycles_of s k = [] \<or> \<not> is_terminal (cn_state i) \<and> sc_status (last (cycles_of s k)) = Cycle_Closed)"
    using ensure_ok [OF assms, of now] by metis
  have c1: "cycles_of s1 k \<noteq> []" "c1 = last (cycles_of s1 k)" using e(4) by (simp_all add: current_cycle_def split: if_splits)
  have start: "(case open_service_cycle s k of Some c \<Rightarrow> Inr (s, c) | None \<Rightarrow> ensure_current_service_cycle now k s) =
      (Inr (s1, c1) :: (conv \<times> service_cycle) result)"
  proof (cases "open_service_cycle s k")
    case None
    then show ?thesis using e(1) by simp
  next
    case (Some c)
    then have "ensure_current_service_cycle now k s = Inr (s, c)" using assms(2) by (simp add: ensure_current_service_cycle_def)
    then show ?thesis using e(1) Some by simp
  qed
  have len: "length (cycles_of s1 k) = (if cycles_of s k = [] then 1 else
       if sc_status (last (cycles_of s k)) = Cycle_Closed \<and> \<not> is_terminal (cn_state i) then Suc (length (cycles_of s k))
       else length (cycles_of s k))"
  proof -
    consider (same) "cycles_of s1 k = cycles_of s k" "cycles_of s k \<noteq> []"
      | (more) "cycles_of s1 k = cycles_of s k @ [c1]"
          "cycles_of s k = [] \<or> \<not> is_terminal (cn_state i) \<and> sc_status (last (cycles_of s k)) = Cycle_Closed"
      using e(8) by blast
    then show ?thesis
    proof cases
      case same
      then have "sc_status (last (cycles_of s k)) = Cycle_Open" if "\<not> is_terminal (cn_state i)" using e(6) that c1(2) by simp
      then show ?thesis using same by (cases "is_terminal (cn_state i)") simp_all
    next
      case more
      then show ?thesis by auto
    qed
  qed
  show thesis
  proof (cases "sc_status c1 = Cycle_Closed")
    case True
    then have r: "close_current_service_cycle now k reason occurred s = Inr (s1, c1)"
      using assms(2) start by (simp add: close_current_service_cycle_def)
    show thesis by (rule that [OF r e(2-5) _ e(7) len]) (rule True)
  next
    case False
    let ?c = "c1\<lparr>sc_status := Cycle_Closed, sc_closed_at := Some (case occurred of None \<Rightarrow> now | Some t \<Rightarrow> t),
        sc_closed_reason := reason\<rparr>"
    have r: "close_current_service_cycle now k reason occurred s = Inr (put_service_cycle ?c s1, ?c)"
      using assms(2) start False by (simp add: close_current_service_cycle_def Let_def)
    have p: "well_numbered (put_service_cycle ?c s1)"
      "cycles_of (put_service_cycle ?c s1) = (cycles_of s1)(k := butlast (cycles_of s1 k) @ [?c])"
      using put_last_cycle [OF e(2) c1, of ?c] e(5) by simp_all
    show thesis
    proof (rule that [OF r p(1)])
      show "same_rest s (put_service_cycle ?c s1)" using e(3) by (simp add: same_rest_def put_service_cycle_def)
      show "current_cycle (put_service_cycle ?c s1) k = Some ?c" by (simp add: current_cycle_def p(2))
      have "cycles_of (put_service_cycle ?c s1) j = cycles_of s j" if "j \<noteq> k" for j
        using fun_cong [OF p(2), of j] fun_cong [OF e(7), of j] that by simp
      then show "cycles_of (put_service_cycle ?c s1) = (cycles_of s)(k := cycles_of (put_service_cycle ?c s1) k)" by auto
      show "length (cycles_of (put_service_cycle ?c s1) k) = (if cycles_of s k = [] then 1 else
         if sc_status (last (cycles_of s k)) = Cycle_Closed \<and> \<not> is_terminal (cn_state i) then Suc (length (cycles_of s k))
         else length (cycles_of s k))"
        using len c1(1) by (simp add: p(2))
    qed (use e(5) in simp_all)
  qed
qed

lemma reopen_ok:
  assumes "well_numbered s" and "conversation_of s k = Some i"
  obtains s' c where "reopen_service_cycle now k st reason event s = Inr (s', c)" "well_numbered s'" "same_rest s s'"
    "current_cycle s' k = Some c" "sc_instance c = k" "sc_status c = Cycle_Open"
    "cycles_of s' = (cycles_of s)(k := cycles_of s' k)"
    "length (cycles_of s' k) = Suc (max 1 (length (cycles_of s k)))" "sc_from c = Some st"
proof -
  have k: "cn_pk i = k" using assms(2) unfolding conversation_of_def by (rule get_row_key)
  obtain s1 f where a: "(case latest_service_cycle s k of Some l \<Rightarrow> Inr (s, l) | None \<Rightarrow> bootstrap_legacy_cycle now i s) =
      (Inr (s1, f) :: (conv \<times> service_cycle) result)" and a1: "well_numbered s1" "same_rest s s1" "cycles_of s1 k \<noteq> []"
      "cycles_of s1 = (cycles_of s)(k := cycles_of s1 k)" "length (cycles_of s1 k) = max 1 (length (cycles_of s k))"
  proof (cases "cycles_of s k = []")
    case True
    then obtain s' c where "bootstrap_legacy_cycle now i s = Inr (s', c)" "well_numbered s'" "same_rest s s'"
      "cycles_of s' = (cycles_of s)(k := [c])"
      using bootstrap_ok [OF assms(1), of i now] k by metis
    then show ?thesis using True assms(1) by (intro that [of s' c]) (simp_all add: latest_service_cycle_eq)
  next
    case False
    then show ?thesis using assms(1) by (intro that [of s "last (cycles_of s k)"])
      (simp_all add: latest_service_cycle_eq same_rest_def max_def Suc_le_eq)
  qed
  define s2 where "s2 = (case open_service_cycle s1 k of
      None \<Rightarrow> s1 | Some c \<Rightarrow> put_service_cycle (superseded_cycle now c) s1)"
  have s2: "well_numbered s2" "cycles_of s2 k \<noteq> []" "sc_status (last (cycles_of s2 k)) = Cycle_Closed"
    "same_rest s s2" "cycles_of s2 = (cycles_of s)(k := cycles_of s2 k)" "length (cycles_of s2 k) = max 1 (length (cycles_of s k))"
  proof -
    let ?l = "last (cycles_of s1 k)"
    have "well_numbered s2 \<and> cycles_of s2 k \<noteq> [] \<and> sc_status (last (cycles_of s2 k)) = Cycle_Closed \<and> same_rest s s2 \<and>
      cycles_of s2 = (cycles_of s1)(k := cycles_of s2 k) \<and> length (cycles_of s2 k) = length (cycles_of s1 k)"
    proof (cases "sc_status ?l = Cycle_Open")
      case False
      then have "s2 = s1" using a1 by (simp add: s2_def open_service_cycle_eq)
      moreover have "sc_status ?l = Cycle_Closed" using False cycle_status.exhaust by blast
      ultimately show ?thesis using a1 by simp
    next
      case True
      then have e: "s2 = put_service_cycle (superseded_cycle now ?l) s1"
        using a1 by (simp add: s2_def open_service_cycle_eq)
      have "?l \<in> set (cycles_of s1 k)" using a1(3) by (rule last_in_set)
      then have "sc_instance (superseded_cycle now ?l) = k" by (simp add: superseded_cycle_def)
      then have p: "well_numbered s2" "cycles_of s2 = (cycles_of s1)(k := butlast (cycles_of s1 k) @ [superseded_cycle now ?l])"
        unfolding e using put_last_cycle [OF a1(1,3) refl, of "superseded_cycle now ?l"]
        by (simp_all add: superseded_cycle_def)
      moreover have "same_rest s s2" using a1(2) unfolding e by (simp add: same_rest_def put_service_cycle_def)
      ultimately show ?thesis using a1(3) by (simp add: p(2)) (simp add: superseded_cycle_def)
    qed
    then show "well_numbered s2" "cycles_of s2 k \<noteq> []" "sc_status (last (cycles_of s2 k)) = Cycle_Closed"
      "same_rest s s2" "cycles_of s2 = (cycles_of s)(k := cycles_of s2 k)" "length (cycles_of s2 k) = max 1 (length (cycles_of s k))"
      using a1(4,5) by (blast, blast, blast, blast, metis fun_upd_upd, metis)
  qed
  let ?l = "last (cycles_of s2 k)"
  let ?c = "(blank_cycle k (Suc (sc_seq ?l)) Cycle_Open now)
     \<lparr>sc_from := Some st, sc_reason := reason, sc_event := event, sc_source := Verified_Reopen (sc_pk ?l)\<rparr>"
  have i: "sc_instance ?c = k" "sc_seq ?c = Suc (length (cycles_of s2 k))" "sc_status ?c = Cycle_Open" "sc_from ?c = Some st"
    using numbered_seq_last [OF well_numberedD(3) [OF s2(1)] s2(2)] by (simp_all add: blank_cycle_def)
  then have "sc_seq ?c = Suc (length (cycles_of s2 (sc_instance ?c)))"
    "cycles_of s2 (sc_instance ?c) = [] \<or> sc_status (last (cycles_of s2 (sc_instance ?c))) = Cycle_Closed"
    using s2(3) by simp_all
  then obtain s' c' where r: "create_cycle ?c s2 = Inr (s', c')" "c' = ?c\<lparr>sc_pk := cv_next_pk s2\<rparr>" "well_numbered s'"
    "cycles_of s' = (cycles_of s2)(sc_instance ?c := cycles_of s2 (sc_instance ?c) @ [c'])"
    "cv_instances s' = cv_instances s2" "cv_events s' = cv_events s2" "cv_moves s' = cv_moves s2"
    using create_cycle_ok [OF s2(1), of ?c] by metis
  have run: "reopen_service_cycle now k st reason event s = Inr (s', c')"
    using assms(2) a r(1) s2(1,2)
    by (simp add: reopen_service_cycle_def Let_def s2_def [symmetric] latest_service_cycle_eq)
  have k': "cycles_of s' = (cycles_of s2)(k := cycles_of s2 k @ [c'])" using r(4) i(1) by simp
  show thesis
  proof (rule that [OF run r(3)])
    show "same_rest s s'" using s2(4) r(5-7) by (simp add: same_rest_def)
    show "current_cycle s' k = Some c'" by (simp add: current_cycle_def k')
    show "cycles_of s' = (cycles_of s)(k := cycles_of s' k)" unfolding k' by (subst s2(5)) simp
    show "length (cycles_of s' k) = Suc (max 1 (length (cycles_of s k)))" using s2(6) by (simp add: k')
  qed (use r(2) i in simp_all)
qed

end
