(* ===== verification/Lifecycle_Events.thy ===== *)
theory Lifecycle_Events
  imports Service_Cycles Runtime
begin

text \<open>
  Provider events before they reach the state machine: the normalizer and the routing policy of
  \<open>apps/ai_agents/services/lifecycle.py\<close>, \<open>normalize_channel\<close> and the event fingerprint of
  \<open>common/idempotency.py\<close>.

  A payload is a flat JSON object, a list of keys and scalars with distinct keys, as HubSpot sends
  it.  The fingerprint is the SHA-256 of a canonical serialization, so it is represented by what it
  hashes: the source, the type and the stable entries sorted by key.
\<close>

section \<open>Payloads\<close>

fun scalar_truthy :: "scalar \<Rightarrow> bool" where
  "scalar_truthy J_Null = False"
| "scalar_truthy (J_Bool b) = b"
| "scalar_truthy (J_Int n) = (n \<noteq> 0)"
| "scalar_truthy (J_Text s) = (s \<noteq> [])"

text \<open>\<open>"" if value is None else str(value)\<close>\<close>

fun as_text :: "scalar option \<Rightarrow> string" where
  "as_text None = []"
| "as_text (Some J_Null) = []"
| "as_text (Some (J_Bool b)) = (if b then ''True'' else ''False'')"
| "as_text (Some (J_Int n)) = int_text n"
| "as_text (Some (J_Text s)) = s"

text \<open>\<open>payload.get(a) or payload.get(b) or \<dots>\<close>; the value of the last key when none is truthy.\<close>

fun first_truthy :: "payload \<Rightarrow> string list \<Rightarrow> scalar option" where
  "first_truthy p [] = None"
| "first_truthy p [k] = map_of p k"
| "first_truthy p (k # k' # ks) =
     (case map_of p k of
        Some v \<Rightarrow> (if scalar_truthy v then Some v else first_truthy p (k' # ks))
      | None \<Rightarrow> first_truthy p (k' # ks))"

definition text_or_none :: "string \<Rightarrow> string option" where
  "text_or_none s = (if s = [] then None else Some s)"

definition upper_char :: "char \<Rightarrow> char" where
  "upper_char c = (if 97 \<le> code_point c \<and> code_point c \<le> 122 then char_of (code_point c - 32) else c)"

definition upper :: "string \<Rightarrow> string" where
  "upper s = map upper_char s"

fun contains :: "string \<Rightarrow> string \<Rightarrow> bool" where
  "contains pat [] = (pat = [])"
| "contains pat (c # cs) = (take (length pat) (c # cs) = pat \<or> contains pat cs)"

definition starts_with :: "string \<Rightarrow> string \<Rightarrow> bool" where
  "starts_with pre s \<longleftrightarrow> take (length pre) s = pre"

text \<open>\<open>value.strip()\<close> raises on a truthy value that is no text.\<close>

definition normalize_channel :: "scalar option \<Rightarrow> string result" where
  "normalize_channel v =
     and_then (case v of
                 None \<Rightarrow> Inr []
               | Some (J_Text s) \<Rightarrow> Inr s
               | Some x \<Rightarrow> (if scalar_truthy x then Inl (UnexpectedError ''AttributeError'') else Inr []))
       (\<lambda>s. let ch = lower (strip s) in Inr
         (if ch = [] then ''unknown''
          else if contains ''whatsapp'' ch \<or> ch \<in> {''wa'', ''waba''} then ''whatsapp''
          else if ch \<in> {''chat'', ''webchat'', ''webchat_central'', ''live_chat''} then ''chat''
          else if ch \<in> {''email'', ''mail''} then ''email''
          else ch))"

section \<open>The fingerprint of an event\<close>

definition transport_fields :: "string list" where
  "transport_fields = [''attemptNumber'', ''attempt_number'']"

definition canonical_event_key :: "string \<Rightarrow> string \<Rightarrow> payload \<Rightarrow> event_key" where
  "canonical_event_key source ty p =
     (let src = lower (strip source);
          stable = (if src = ''hubspot'' then filter (\<lambda>(k, v). k \<notin> set transport_fields) p else p)
      in (src, strip ty, sort_key fst stable))"

section \<open>Normalization\<close>

record normalized_event =
  ne_source :: string
  ne_source_event :: string
  ne_type :: string
  ne_key :: event_key
  ne_property :: string
  ne_occurred_at :: "instant option"
  ne_thread :: "string option"
  ne_ticket :: "string option"
  ne_contact :: "string option"
  ne_channel :: string
  ne_direction :: string
  ne_pipeline :: "string option"
  ne_stage :: "string option"
  ne_message :: string

text \<open>The webhook row the normalizer reads.\<close>

record webhook_view =
  wv_payload :: payload
  wv_type :: string
  wv_object :: string
  wv_event_id :: string
  wv_pk :: string

text \<open>
  Milliseconds to an instant.  A text that is no integer and a year outside 1 to 9999 are
  \<open>None\<close>; beyond the 64-bit \<open>time_t\<close> (of the nearest float) \<open>fromtimestamp\<close> raises
  \<open>OverflowError\<close>, which the code does not catch.
\<close>

definition epoch_ms :: "int \<Rightarrow> instant option result" where
  "epoch_ms n =
     (if 9223372036854775296000 \<le> n \<or> n < - 9223372036854776832000 then Inl (UnexpectedError ''OverflowError'')
      else if - 62135596800000 \<le> n \<and> n < 253402300800000 then Inr (Some (n * 1000)) else Inr None)"

definition event_time :: "string \<Rightarrow> instant option result" where
  "event_time s = (case py_int s of None \<Rightarrow> Inr None | Some n \<Rightarrow> epoch_ms n)"

definition prop_stage_novo :: "settings \<Rightarrow> string" where
  "prop_stage_novo cfg = ''hs_v2_date_entered_'' @ stage_novo_id cfg"

definition prop_stage_closed :: "settings \<Rightarrow> string" where
  "prop_stage_closed cfg = ''hs_v2_date_entered_'' @ stage_fechado_id cfg"

definition thread_id_from_payload :: "payload \<Rightarrow> string option" where
  "thread_id_from_payload p = text_or_none (as_text
     (first_truthy p [''threadId'', ''conversationThreadId'', ''conversationsThreadId'', ''thread_id'']))"

text \<open>Type, thread, ticket and stage, from the raw type.\<close>

definition classify_raw_event ::
  "settings \<Rightarrow> string \<Rightarrow> payload \<Rightarrow> string \<Rightarrow> string \<times> string option \<times> string option \<times> string option" where
  "classify_raw_event cfg raw p obj =
     (let property = as_text (first_truthy p [''propertyName'', ''property_name'']);
          val = as_text (first_truthy p [''propertyValue'', ''property_value'']);
          direction = upper (as_text (first_truthy p [''direction'', ''messageDirection'']));
          message_type = upper (as_text (map_of p ''messageType''))
      in if raw = ''conversation.newMessage'' then
           ((if message_type \<noteq> [] \<and> message_type \<noteq> ''MESSAGE'' then ''conversation_non_customer_message''
             else if direction \<in> {''INCOMING'', ''OUTGOING''} then ''conversation_message_received''
             else ''conversation_message_observed''),
            (case thread_id_from_payload p of Some t \<Rightarrow> Some t | None \<Rightarrow> text_or_none obj), None, None)
         else if raw = ''ticket.propertyChange'' then
           (if property = prop_stage_novo cfg then (''ticket_entered_n1'', None, text_or_none obj, Some (stage_novo_id cfg))
            else if property = prop_stage_closed cfg then
              (''ticket_closed'', None, text_or_none obj, Some (stage_fechado_id cfg))
            else if property = ''hubspot_owner_id'' then (''owner_changed'', None, text_or_none obj, None)
            else if property = ''hs_pipeline_stage'' then
              ((if val = stage_fechado_id cfg then ''ticket_closed'' else ''ticket_stage_changed''),
               None, text_or_none obj, text_or_none val)
            else (raw, None, text_or_none obj, None))
         else if raw \<in> {''ticket.creation'', ''ticket.created''} then (''ticket_created'', None, text_or_none obj, None)
         else if starts_with ''ticket.'' raw then (raw, None, text_or_none obj, None)
         else if starts_with ''contact.'' raw then (''contact_association_changed'', None, None, None)
         else (raw, None, None, None))"

definition normalize_webhook_event :: "settings \<Rightarrow> string \<Rightarrow> webhook_view \<Rightarrow> normalized_event result" where
  "normalize_webhook_event cfg source ev =
     (let p = wv_payload ev;
          raw = (if wv_type ev \<noteq> [] then wv_type ev
                 else (case map_of p ''subscriptionType'' of
                         Some v \<Rightarrow> (if scalar_truthy v then as_text (Some v) else ''unknown'') | None \<Rightarrow> ''unknown''));
          obj = as_text (case first_truthy p [''objectId'', ''object_id''] of
                           Some v \<Rightarrow> (if scalar_truthy v then Some v else Some (J_Text (wv_object ev)))
                         | None \<Rightarrow> Some (J_Text (wv_object ev)));
          given = as_text (first_truthy p [''eventId'', ''event_id'']);
          (ty, thread, ticket, stage) = classify_raw_event cfg raw p obj
      in and_then (event_time (as_text (first_truthy p [''occurredAt'', ''occurred_at'']))) (\<lambda>occurred.
         and_then (normalize_channel (first_truthy p [''channel'', ''channelType'', ''source'', ''sourceType''])) (\<lambda>ch.
         Inr \<lparr>ne_source = source,
          ne_source_event = (if ty = ''ticket_closed'' \<and> given = []
                             then (if wv_event_id ev \<noteq> [] then wv_event_id ev else wv_pk ev) else given),
          ne_type = ty, ne_key = canonical_event_key source raw p,
          ne_property = as_text (first_truthy p [''propertyName'', ''property_name'']),
          ne_occurred_at = occurred,
          ne_thread = thread, ne_ticket = ticket,
          ne_contact = text_or_none (as_text (first_truthy p [''contactId'', ''contact_id''])),
          ne_channel = ch,
          ne_direction = upper (as_text (first_truthy p [''direction'', ''messageDirection''])),
          ne_pipeline = text_or_none (as_text (first_truthy p [''pipelineId'', ''pipeline_id''])),
          ne_stage = stage,
          ne_message = as_text (first_truthy p [''messageId'', ''message_id'', ''id''])\<rparr>)))"

section \<open>Routing\<close>

datatype route = R_Ignore | R_Auto_Assignment | R_Ai_Service | R_Human_Handoff | R_Close

record route_decision =
  rd_route :: route
  rd_target :: conversation_state
  rd_reason :: string

definition route_event :: "normalized_event \<Rightarrow> route_decision" where
  "route_event ev =
     (if ne_direction ev \<noteq> [] \<and> ne_direction ev \<noteq> ''INCOMING'' then
        \<lparr>rd_route = R_Ignore, rd_target = St_Ignored, rd_reason = ''Non-incoming conversation message.''\<rparr>
      else if ne_type ev = ''ticket_closed'' then
        \<lparr>rd_route = R_Close, rd_target = St_Closed, rd_reason = ''HubSpot ticket closed.''\<rparr>
      else if ne_type ev = ''ticket_entered_n1'' then
        \<lparr>rd_route = R_Auto_Assignment, rd_target = St_Queue_Pending,
         rd_reason = ''Ticket entered the support N1 assignment stage.''\<rparr>
      else \<lparr>rd_route = R_Ignore, rd_target = St_Ignored, rd_reason = ''No lifecycle policy matched this event.''\<rparr>)"

datatype effect_policy = Preserve_Projection_Only | Revalidate_Current_Provider_State | Process_Idempotent_Occurrence

definition is_authoritative_stage_occurrence :: "settings \<Rightarrow> normalized_event \<Rightarrow> route_decision \<Rightarrow> bool" where
  "is_authoritative_stage_occurrence cfg ev dec \<longleftrightarrow>
     (ne_type ev = ''ticket_entered_n1'' \<and> rd_route dec = R_Auto_Assignment) \<or>
     (ne_source ev = ''hubspot'' \<and> ne_type ev = ''ticket_closed'' \<and> ne_property ev = prop_stage_closed cfg \<and>
      rd_route dec = R_Close)"

definition effect_ordering_policy :: "settings \<Rightarrow> normalized_event \<Rightarrow> route_decision \<Rightarrow> effect_policy" where
  "effect_ordering_policy cfg ev dec =
     (if is_authoritative_stage_occurrence cfg ev dec then Process_Idempotent_Occurrence
      else if rd_route dec = R_Ignore then Preserve_Projection_Only
      else Revalidate_Current_Provider_State)"

end
