(* ===== verification/Lifecycle.thy ===== *)
theory Lifecycle
  imports Lifecycle_Events
begin

text \<open>
  The conversation state machine and its ledger: \<open>LifecycleEngine\<close> of
  \<open>apps/ai_agents/services/lifecycle.py\<close> with the identity rules of
  \<open>apps/ai_agents/services/instance_identity.py\<close>.

  Every operation takes the reading of \<open>timezone.now()\<close> and the store, and returns the store it
  commits or the exception it raises.
\<close>

section \<open>Allowed transitions\<close>

fun valid_transitions :: "conversation_state \<Rightarrow> conversation_state list" where
  "valid_transitions St_Received = [St_Normalized, St_Ignored, St_Failed_Retryable]"
| "valid_transitions St_Normalized = [St_Context_Hydrating, St_Queue_Pending, St_Handoff_Requested, St_Resolved_By_Human,
     St_Closed, St_Ignored, St_Failed_Retryable]"
| "valid_transitions St_Context_Hydrating = [St_Context_Ready, St_Resolved_By_Ai, St_Handoff_Requested, St_Ignored,
     St_Failed_Retryable]"
| "valid_transitions St_Context_Ready = [St_Ai_Pending, St_Handoff_Requested, St_Queue_Pending, St_Failed_Retryable]"
| "valid_transitions St_Ai_Pending = [St_Ai_Running, St_Handoff_Requested, St_Failed_Retryable]"
| "valid_transitions St_Ai_Running = [St_Waiting, St_Resolved_By_Ai, St_Handoff_Requested, St_Ignored, St_Failed_Retryable]"
| "valid_transitions St_Waiting = [St_Context_Hydrating, St_Resolved_By_Ai, St_Handoff_Requested, St_Failed_Retryable,
     St_Closed]"
| "valid_transitions St_Handoff_Requested = [St_Queue_Pending, St_Ignored, St_Failed_Retryable]"
| "valid_transitions St_Queue_Pending = [St_Context_Hydrating, St_Human_Assigned, St_Failed_Retryable]"
| "valid_transitions St_Human_Assigned = [St_Human_In_Progress, St_Resolved_By_Human, St_Failed_Retryable]"
| "valid_transitions St_Human_In_Progress = [St_Resolved_By_Human, St_Failed_Retryable]"
| "valid_transitions St_Resolved_By_Ai = [St_Closed]"
| "valid_transitions St_Resolved_By_Human = [St_Closed]"
| "valid_transitions St_Failed_Retryable = [St_Context_Hydrating, St_Ai_Pending, St_Handoff_Requested, St_Resolved_By_Ai,
     St_Ignored, St_Failed_Terminal]"
| "valid_transitions st = []"

definition validate_transition ::
  "conversation_state \<Rightarrow> conversation_state \<Rightarrow> bool \<Rightarrow> bool \<Rightarrow> unit result" where
  "validate_transition from_state to_state reopen queue_entry =
     (if is_terminal from_state then (if reopen then Inr () else Inl InvalidStateTransitionError)
      else if queue_entry \<and> to_state = St_Queue_Pending then Inr ()
      else if to_state \<in> {St_Closed, St_Resolved_By_Human} then Inr ()
      else if to_state = St_Handoff_Requested then Inr ()
      else if to_state \<in> {St_Failed_Retryable, St_Ignored} then Inr ()
      else if to_state = St_Failed_Terminal \<and> from_state = St_Failed_Retryable then Inr ()
      else if to_state \<in> set (valid_transitions from_state) then Inr ()
      else Inl InvalidStateTransitionError)"

section \<open>One transition\<close>

record move =
  mv_to :: conversation_state
  mv_reason :: string
  mv_actor_type :: string
  mv_actor :: string
  mv_event :: string
  mv_reopen :: bool
  mv_queue_entry :: bool
  mv_occurred :: "instant option"

definition plain_move :: "conversation_state \<Rightarrow> string \<Rightarrow> string \<Rightarrow> move" where
  "plain_move st why ev = \<lparr>mv_to = st, mv_reason = why, mv_actor_type = ''system'', mv_actor = [], mv_event = ev,
     mv_reopen = False, mv_queue_entry = False, mv_occurred = None\<rparr>"

definition reopens :: "conversation_state \<Rightarrow> move \<Rightarrow> bool" where
  "reopens st m \<longleftrightarrow> mv_reopen m \<and> is_terminal st \<and> \<not> is_terminal (mv_to m)"

definition moved_conversation :: "instant \<Rightarrow> move \<Rightarrow> conversation \<Rightarrow> conversation" where
  "moved_conversation now m i = i\<lparr>cn_state := mv_to m, cn_version := Suc (cn_version i), cn_activity_at := Some now,
     cn_closed_at := (if mv_to m = St_Closed \<and> cn_closed_at i = None
                      then Some (case mv_occurred m of None \<Rightarrow> now | Some t \<Rightarrow> t)
                      else if reopens (cn_state i) m then None else cn_closed_at i),
     cn_assigned := (if reopens (cn_state i) m then None else cn_assigned i)\<rparr>"

definition audit_row :: "uuid \<Rightarrow> uuid option \<Rightarrow> conversation_state \<Rightarrow> move \<Rightarrow> state_transition" where
  "audit_row k c st m = \<lparr>tr_instance = k, tr_cycle = c, tr_from = st, tr_to = mv_to m, tr_reason = mv_reason m,
     tr_actor_type = mv_actor_type m, tr_actor = mv_actor m, tr_event = mv_event m\<rparr>"

definition transition :: "instant \<Rightarrow> uuid \<Rightarrow> move \<Rightarrow> conv \<Rightarrow> conv result" where
  "transition now k m s =
     (case conversation_of s k of
        None \<Rightarrow> Inl DoesNotExist
      | Some i \<Rightarrow>
          (if cn_state i = mv_to m then Inr s
           else
             and_then (validate_transition (cn_state i) (mv_to m) (mv_reopen m) (mv_queue_entry m)) (\<lambda>_.
             and_then (if reopens (cn_state i) m
                       then reopen_service_cycle now k (cn_state i) (mv_reason m) (mv_event m) s
                       else ensure_current_service_cycle now k s) (\<lambda>(s1, c).
               let s2 = put_conversation (moved_conversation now m i) s1;
                   s3 = s2\<lparr>cv_moves := cv_moves s2 @ [audit_row k (Some (sc_pk c)) (cn_state i) m]\<rparr>
               in if is_terminal (mv_to m) then
                    and_then (close_current_service_cycle now k (mv_reason m) (mv_occurred m) s3) (\<lambda>(s4, _). Inr s4)
                  else Inr s3))))"

section \<open>Identity\<close>

definition is_superseded :: "conversation \<Rightarrow> bool" where
  "is_superseded i = (case cn_key i of Superseded_Key _ \<Rightarrow> True | _ \<Rightarrow> False)"

definition threadless :: "conversation \<Rightarrow> bool" where
  "threadless i \<longleftrightarrow> \<not> opt_truthy (cn_thread i)"

definition ticket_scope :: "string \<Rightarrow> conversation \<Rightarrow> bool" where
  "ticket_scope t i \<longleftrightarrow> cn_ticket i = Some t \<and> threadless i \<and> \<not> is_superseded i"

definition canonical_thread :: "string \<Rightarrow> conversation \<Rightarrow> bool" where
  "canonical_thread t i \<longleftrightarrow> cn_ticket i = Some t \<and> \<not> threadless i \<and> \<not> is_superseded i"

text \<open>\<open>ORDER BY last_activity_at DESC, created_at DESC\<close>; PostgreSQL puts nulls first.\<close>

definition recency :: "conversation \<Rightarrow> instant option \<times> instant" where
  "recency i = (map_option uminus (cn_activity_at i), - cn_created_at i)"

definition find_by_thread :: "string \<Rightarrow> conv \<Rightarrow> conversation option" where
  "find_by_thread t s = first_by recency (\<lambda>i. cn_thread i = Some t) (cv_instances s)"

definition find_conversation_instance :: "string option \<Rightarrow> string option \<Rightarrow> conv \<Rightarrow> conversation option" where
  "find_conversation_instance thread ticket s =
     (let th = strip (opt_text thread); ti = strip (opt_text ticket) in
      if th \<noteq> [] then find_by_thread th s
      else if ti \<noteq> [] then
        (case first_by recency (ticket_scope ti) (cv_instances s) of
           Some i \<Rightarrow> Some i
         | None \<Rightarrow>
             (case sort_key (\<lambda>i. map_option uminus (cn_activity_at i)) (filter (canonical_thread ti) (cv_instances s)) of
                [i] \<Rightarrow> Some i
              | _ \<Rightarrow> None))
      else None)"

text \<open>Instances are unique by key and by thread.\<close>

definition instance_clash :: "conversation \<Rightarrow> conversation \<Rightarrow> bool" where
  "instance_clash new old \<longleftrightarrow> cn_key old = cn_key new \<or> (opt_truthy (cn_thread new) \<and> cn_thread old = cn_thread new)"

definition insert_conversation :: "conversation \<Rightarrow> conv \<Rightarrow> conv result" where
  "insert_conversation i s =
     (if list_ex (instance_clash i) (cv_instances s) then Inl IntegrityError
      else Inr (s\<lparr>cv_instances := cv_instances s @ [i], cv_next_pk := Suc (cv_next_pk s)\<rparr>))"

definition save_conversation :: "conversation \<Rightarrow> conv \<Rightarrow> conv result" where
  "save_conversation i s =
     (if list_ex (\<lambda>j. cn_pk j \<noteq> cn_pk i \<and> instance_clash i j) (cv_instances s) then Inl IntegrityError
      else Inr (put_conversation i s))"

definition supersede_placeholder :: "instant \<Rightarrow> uuid \<Rightarrow> string \<Rightarrow> conversation \<Rightarrow> conv \<Rightarrow> conv result" where
  "supersede_placeholder now canonical why p s =
     and_then (save_conversation (p\<lparr>cn_superseded_by := Some canonical, cn_key := Superseded_Key (cn_pk p),
          cn_state := St_Ignored, cn_version := Suc (cn_version p), cn_activity_at := Some now,
          cn_failures := 0, cn_next_retry_at := None, cn_error := []\<rparr>) s)
       (\<lambda>s'. Inr (s'\<lparr>cv_moves := cv_moves s' @
          [\<lparr>tr_instance = cn_pk p, tr_cycle = None, tr_from = cn_state p, tr_to = St_Ignored,
            tr_reason = ''Conversation identity superseded: '' @ why @ ''.'', tr_actor_type = ''identity_reconciliation'',
            tr_actor = nat_text canonical, tr_event = []\<rparr>]\<rparr>))"

fun supersede_all :: "instant \<Rightarrow> uuid \<Rightarrow> string \<Rightarrow> conversation list \<Rightarrow> conv \<Rightarrow> conv result" where
  "supersede_all now canonical why [] s = Inr s"
| "supersede_all now canonical why (p # ps) s =
     and_then (supersede_placeholder now canonical why p s) (supersede_all now canonical why ps)"

definition placeholders :: "string \<Rightarrow> conv \<Rightarrow> conversation list" where
  "placeholders ti s =
     (if ti = [] then [] else sort_key (\<lambda>i. (cn_created_at i, cn_pk i)) (filter (ticket_scope ti) (cv_instances s)))"

definition promote_or_get_thread_instance ::
  "instant \<Rightarrow> string option \<Rightarrow> string \<Rightarrow> conv \<Rightarrow> (conv \<times> uuid option) result" where
  "promote_or_get_thread_instance now ticket thread s =
     (let th = strip thread; ti = strip (opt_text ticket) in
      if th = [] then Inr (s, None)
      else
        (case find_by_thread th s of
           Some c \<Rightarrow>
             and_then (supersede_all now (cn_pk c) ''canonical_thread_already_exists'' (placeholders ti s) s)
               (\<lambda>s'. Inr (s', Some (cn_pk c)))
         | None \<Rightarrow>
             (case placeholders ti s of
                [] \<Rightarrow> Inr (s, None)
              | c # ps \<Rightarrow>
                  and_then (save_conversation (c\<lparr>cn_thread := Some th, cn_key := Thread_Key th, cn_activity_at := Some now\<rparr>) s)
                    (\<lambda>s1. and_then (supersede_all now (cn_pk c) ''duplicate_ticket_placeholder'' ps s1)
                       (\<lambda>s2. Inr (s2, Some (cn_pk c)))))))"

definition supersede_placeholder_if_canonical_exists ::
  "instant \<Rightarrow> uuid \<Rightarrow> conv \<Rightarrow> (conv \<times> uuid option) result" where
  "supersede_placeholder_if_canonical_exists now k s =
     (case conversation_of s k of
        None \<Rightarrow> Inl DoesNotExist
      | Some p \<Rightarrow>
          (if \<not> threadless p \<or> \<not> opt_truthy (cn_ticket p) then Inr (s, None)
           else (case first_by recency (canonical_thread (opt_text (cn_ticket p))) (cv_instances s) of
                   None \<Rightarrow> Inr (s, None)
                 | Some c \<Rightarrow>
                     and_then (supersede_placeholder now (cn_pk c) ''watchdog_found_canonical_thread'' p s)
                       (\<lambda>s'. Inr (s', Some (cn_pk c))))))"


section \<open>Consistency\<close>

text \<open>
  Instances are unique by primary key, by idempotency key and by thread, and every attendance
  belongs to an instance; a terminal instance has no open attendance, unless it was superseded.
\<close>

definition identified :: "conv \<Rightarrow> bool" where
  "identified s \<longleftrightarrow> distinct (map cn_pk (cv_instances s)) \<and> (\<forall>i \<in> set (cv_instances s). cn_pk i < cv_next_pk s) \<and>
     (\<forall>i \<in> set (cv_instances s). \<forall>j \<in> set (cv_instances s). cn_pk i \<noteq> cn_pk j \<longrightarrow> \<not> instance_clash i j) \<and>
     (\<forall>c \<in> set (cv_cycles s). conversation_of s (sc_instance c) \<noteq> None)"

definition settled :: "conv \<Rightarrow> bool" where
  "settled s \<longleftrightarrow> (\<forall>k i. conversation_of s k = Some i \<and> is_terminal (cn_state i) \<and> \<not> is_superseded i \<longrightarrow>
     (\<forall>c \<in> set (cycles_of s k). sc_status c = Cycle_Closed))"

definition consistent :: "conv \<Rightarrow> bool" where
  "consistent s \<longleftrightarrow> well_numbered s \<and> identified s \<and> settled s"

lemma consistentD: "consistent s \<Longrightarrow> well_numbered s" "consistent s \<Longrightarrow> identified s" "consistent s \<Longrightarrow> settled s"
  by (simp_all add: consistent_def)

lemma identifiedD:
  assumes "identified s"
  shows "distinct (map cn_pk (cv_instances s))" "\<And>i. i \<in> set (cv_instances s) \<Longrightarrow> cn_pk i < cv_next_pk s"
    "\<And>i j. i \<in> set (cv_instances s) \<Longrightarrow> j \<in> set (cv_instances s) \<Longrightarrow> cn_pk i \<noteq> cn_pk j \<Longrightarrow> \<not> instance_clash i j"
    "\<And>c. c \<in> set (cv_cycles s) \<Longrightarrow> conversation_of s (sc_instance c) \<noteq> None"
  using assms unfolding identified_def by blast+

lemma settledD:
  "settled s \<Longrightarrow> conversation_of s k = Some i \<Longrightarrow> is_terminal (cn_state i) \<Longrightarrow> \<not> is_superseded i \<Longrightarrow>
   c \<in> set (cycles_of s k) \<Longrightarrow> sc_status c = Cycle_Closed"
  unfolding settled_def by blast

lemma conversation_of_mem: "conversation_of s k = Some i \<Longrightarrow> i \<in> set (cv_instances s)"
  unfolding conversation_of_def by (rule get_row_mem)

lemma conversation_of_pk: "conversation_of s k = Some i \<Longrightarrow> cn_pk i = k"
  unfolding conversation_of_def by (rule get_row_key)

lemma conversation_of_unique: "identified s \<Longrightarrow> i \<in> set (cv_instances s) \<Longrightarrow> conversation_of s (cn_pk i) = Some i"
  unfolding conversation_of_def by (rule get_row_distinct [OF identifiedD(1)])

lemma conversation_of_put:
  "conversation_of (put_conversation x s) k =
     (if k = cn_pk x then map_option (\<lambda>_. x) (conversation_of s k) else conversation_of s k)"
  by (simp add: conversation_of_def put_conversation_def get_row_save_row map_option_case)

lemma put_conversation_simps [simp]:
  "cv_cycles (put_conversation x s) = cv_cycles s" "cv_events (put_conversation x s) = cv_events s"
  "cv_moves (put_conversation x s) = cv_moves s" "cv_next_pk (put_conversation x s) = cv_next_pk s"
  "cycles_of (put_conversation x s) = cycles_of s"
  by (simp_all add: put_conversation_def cycles_of_def fun_eq_iff)

lemma all_closed:
  assumes "well_numbered s" and "current_cycle s k = Some c" and "sc_status c = Cycle_Closed" and "d \<in> set (cycles_of s k)"
  shows "sc_status d = Cycle_Closed"
proof (cases "d \<in> set (butlast (cycles_of s k))")
  case True
  then show ?thesis by (rule well_numberedD(4) [OF assms(1)])
next
  case False
  then have "d = last (cycles_of s k)" using mem_butlast_or_last [OF assms(4)] by blast
  then show ?thesis using assms(2,3) by (simp add: current_cycle_def split: if_splits)
qed

subsection \<open>Operations on attendances\<close>

lemma create_cycle_next: "create_cycle c s = Inr (s', c') \<Longrightarrow> cv_next_pk s \<le> cv_next_pk s'"
  by (auto simp: create_cycle_def Let_def split: if_splits)

lemma bootstrap_next: "bootstrap_legacy_cycle now i s = Inr (s', c') \<Longrightarrow> cv_next_pk s \<le> cv_next_pk s'"
  by (auto simp: bootstrap_legacy_cycle_def Let_def dest: create_cycle_next)

lemma ensure_next: "ensure_current_service_cycle now k s = Inr (s', c') \<Longrightarrow> cv_next_pk s \<le> cv_next_pk s'"
  by (auto simp: ensure_current_service_cycle_def split: option.splits if_splits dest: create_cycle_next bootstrap_next)

lemma put_service_cycle_next [simp]: "cv_next_pk (put_service_cycle c s) = cv_next_pk s"
  by (simp add: put_service_cycle_def)

lemma close_next: "close_current_service_cycle now k why t s = Inr (s', c') \<Longrightarrow> cv_next_pk s \<le> cv_next_pk s'"
  by (auto simp: close_current_service_cycle_def Let_def split: option.splits sum.splits prod.splits if_splits dest: ensure_next)

lemma reopen_next: "reopen_service_cycle now k st why event s = Inr (s', c') \<Longrightarrow> cv_next_pk s \<le> cv_next_pk s'"
  by (auto simp: reopen_service_cycle_def Let_def split: option.splits sum.splits prod.splits if_splits
      dest!: create_cycle_next dest: bootstrap_next intro: le_trans)

lemma identified_cycles:
  assumes "identified s" and "conversation_of s k = Some i" and "same_rest s s'" and "cv_next_pk s \<le> cv_next_pk s'"
    and "cycles_of s' = (cycles_of s)(k := cycles_of s' k)"
  shows "identified s'"
proof -
  note d = identifiedD [OF assms(1)]
  have inst: "cv_instances s' = cv_instances s" using assms(3) by (simp add: same_rest_def)
  have "conversation_of s' (sc_instance c) \<noteq> None" if "c \<in> set (cv_cycles s')" for c
  proof (cases "sc_instance c = k")
    case True
    then show ?thesis using assms(2) by (simp add: same_rest_conversation [OF assms(3)])
  next
    case False
    have "c \<in> set (cycles_of s' (sc_instance c))" using that by simp
    then have "c \<in> set (cycles_of s (sc_instance c))" using fun_cong [OF assms(5), of "sc_instance c"] False by simp
    then have "c \<in> set (cv_cycles s)" by simp
    then show ?thesis using d(4) by (simp add: same_rest_conversation [OF assms(3)])
  qed
  moreover have "cn_pk j < cv_next_pk s'" if "j \<in> set (cv_instances s)" for j
    using d(2) [OF that] assms(4) by simp
  ultimately show ?thesis using d(1,3) unfolding identified_def inst by blast
qed

lemma settled_cycles:
  assumes "settled s" and "conversation_of s k = Some i" and "same_rest s s'"
    and "cycles_of s' = (cycles_of s)(k := cycles_of s' k)"
    and "is_terminal (cn_state i) \<Longrightarrow> \<not> is_superseded i \<Longrightarrow> \<forall>c \<in> set (cycles_of s' k). sc_status c = Cycle_Closed"
  shows "settled s'"
  unfolding settled_def
proof (intro allI impI)
  fix j x
  assume a: "conversation_of s' j = Some x \<and> is_terminal (cn_state x) \<and> \<not> is_superseded x"
  then have x: "conversation_of s j = Some x" using same_rest_conversation [OF assms(3)] by metis
  show "\<forall>c \<in> set (cycles_of s' j). sc_status c = Cycle_Closed"
  proof (cases "j = k")
    case True
    then show ?thesis using a x assms(2,5) by simp
  next
    case False
    have "cycles_of s' j = cycles_of s j" using fun_cong [OF assms(4), of j] False by simp
    then show ?thesis using settledD [OF assms(1) x] a by metis
  qed
qed

lemma ensure_consistent:
  assumes "consistent s" and "conversation_of s k = Some i"
  obtains s' c where "ensure_current_service_cycle now k s = Inr (s', c)" "consistent s'" "same_rest s s'"
    "current_cycle s' k = Some c" "cycles_of s' = (cycles_of s)(k := cycles_of s' k)"
proof -
  obtain s' c where e: "ensure_current_service_cycle now k s = Inr (s', c)" "well_numbered s'" "same_rest s s'"
    "current_cycle s' k = Some c" "cycles_of s' = (cycles_of s)(k := cycles_of s' k)"
    "cycles_of s' k = cycles_of s k \<and> cycles_of s k \<noteq> [] \<and> s' = s \<or> cycles_of s' k = cycles_of s k @ [c] \<and>
       (cycles_of s k = [] \<or> \<not> is_terminal (cn_state i) \<and> sc_status (last (cycles_of s k)) = Cycle_Closed)"
    using ensure_ok [OF consistentD(1) [OF assms(1)] assms(2), of now] by metis
  have "\<forall>c \<in> set (cycles_of s' k). sc_status c = Cycle_Closed" if "is_terminal (cn_state i)" "\<not> is_superseded i"
  proof (cases "cycles_of s k = []")
    case True
    have "cn_pk i = k" by (rule conversation_of_pk [OF assms(2)])
    moreover obtain s2 c2 where b: "bootstrap_legacy_cycle now i s = Inr (s2, c2)" "cycles_of s2 = (cycles_of s)(cn_pk i := [c2])"
      "sc_status c2 = (if is_terminal (cn_state i) then Cycle_Closed else Cycle_Open)"
      using bootstrap_ok [OF consistentD(1) [OF assms(1)], of i now] True calculation by metis
    moreover have "ensure_current_service_cycle now k s = bootstrap_legacy_cycle now i s"
      using True assms(2) consistentD(1) [OF assms(1)]
      by (simp add: ensure_current_service_cycle_def open_service_cycle_eq latest_service_cycle_eq)
    ultimately have "s' = s2" "cycles_of s2 k = [c2]" "sc_status c2 = Cycle_Closed" using e(1) that(1) by simp_all
    then show ?thesis by (simp del: in_cycles_of)
  next
    case False
    then have "cycles_of s' k = cycles_of s k" using e(6) that(1) by metis
    then show ?thesis using settledD [OF consistentD(3) [OF assms(1)] assms(2) that] by metis
  qed
  then have "settled s'" by (rule settled_cycles [OF consistentD(3) [OF assms(1)] assms(2) e(3,5)])
  moreover have "identified s'"
    by (rule identified_cycles [OF consistentD(2) [OF assms(1)] assms(2) e(3) ensure_next [OF e(1)] e(5)])
  ultimately show thesis using that [OF e(1) _ e(3-5)] e(2) by (simp add: consistent_def)
qed

subsection \<open>Rows\<close>

lemma identified_put:
  assumes "identified s" and "conversation_of s (cn_pk x) = Some i"
    and "\<And>j. j \<in> set (cv_instances s) \<Longrightarrow> cn_pk j \<noteq> cn_pk x \<Longrightarrow> \<not> instance_clash x j \<and> \<not> instance_clash j x"
  shows "identified (put_conversation x s)"
proof -
  note d = identifiedD [OF assms(1)]
  have mem: "j = x \<or> j \<in> set (cv_instances s) \<and> cn_pk j \<noteq> cn_pk x" if "j \<in> set (cv_instances (put_conversation x s))" for j
    using that in_save_row [of j cn_pk x] by (simp add: put_conversation_def)
  have px: "cn_pk x < cv_next_pk s"
    using d(2) [OF conversation_of_mem [OF assms(2)]] conversation_of_pk [OF assms(2)] by simp
  show ?thesis
    unfolding identified_def
  proof (intro conjI ballI impI)
    show "distinct (map cn_pk (cv_instances (put_conversation x s)))" using d(1) by (simp add: put_conversation_def)
    fix j
    assume j: "j \<in> set (cv_instances (put_conversation x s))"
    show "cn_pk j < cv_next_pk (put_conversation x s)" using mem [OF j] d(2) px by auto
    fix l
    assume l: "l \<in> set (cv_instances (put_conversation x s))" "cn_pk j \<noteq> cn_pk l"
    show "\<not> instance_clash j l" using mem [OF j] mem [OF l(1)] l(2) d(3) assms(3) by metis
  next
    fix c
    assume "c \<in> set (cv_cycles (put_conversation x s))"
    then have "conversation_of s (sc_instance c) \<noteq> None" using d(4) by simp
    then show "conversation_of (put_conversation x s) (sc_instance c) \<noteq> None"
      by (cases "sc_instance c = cn_pk x") (auto simp: conversation_of_put)
  qed
qed

lemma instance_clash_cong:
  "cn_key x = cn_key i \<Longrightarrow> cn_thread x = cn_thread i \<Longrightarrow> instance_clash x j = instance_clash i j \<and> instance_clash j x = instance_clash j i"
  by (simp add: instance_clash_def)

lemma identified_put_same:
  assumes "identified s" and "conversation_of s k = Some i" and "cn_pk x = k" "cn_key x = cn_key i" "cn_thread x = cn_thread i"
  shows "identified (put_conversation x s)"
proof (rule identified_put [OF assms(1)])
  have i: "i \<in> set (cv_instances s)" "cn_pk i = k" using conversation_of_mem conversation_of_pk assms(2) by blast+
  show "conversation_of s (cn_pk x) = Some i" using assms(2,3) by simp
  fix j
  assume j: "j \<in> set (cv_instances s)" "cn_pk j \<noteq> cn_pk x"
  then show "\<not> instance_clash x j \<and> \<not> instance_clash j x"
    using identifiedD(3) [OF assms(1)] i assms(3) instance_clash_cong [OF assms(4,5)] by metis
qed

lemma settled_put:
  assumes "settled s" and "conversation_of s (cn_pk x) = Some i"
    and "is_terminal (cn_state x) \<Longrightarrow> \<not> is_superseded x \<Longrightarrow> is_terminal (cn_state i) \<and> \<not> is_superseded i"
  shows "settled (put_conversation x s)"
  unfolding settled_def
proof (intro allI impI)
  fix k j
  assume a: "conversation_of (put_conversation x s) k = Some j \<and> is_terminal (cn_state j) \<and> \<not> is_superseded j"
  show "\<forall>c \<in> set (cycles_of (put_conversation x s) k). sc_status c = Cycle_Closed"
  proof (cases "k = cn_pk x")
    case True
    then have "j = x" using a assms(2) by (simp add: conversation_of_put)
    then have "is_terminal (cn_state i) \<and> \<not> is_superseded i" using a assms(3) by blast
    then show ?thesis using settledD [OF assms(1,2)] True by (simp del: in_cycles_of)
  next
    case False
    then show ?thesis using a settledD [OF assms(1), of k j] by (simp add: conversation_of_put del: in_cycles_of)
  qed
qed

lemma consistent_put:
  assumes "consistent s" and "conversation_of s k = Some i" and "cn_pk x = k" "cn_key x = cn_key i" "cn_thread x = cn_thread i"
    "cn_state x = cn_state i"
  shows "consistent (put_conversation x s)"
proof -
  have "identified (put_conversation x s)"
    by (rule identified_put_same [OF consistentD(2) [OF assms(1)] assms(2-5)])
  moreover have "settled (put_conversation x s)"
    by (rule settled_put [OF consistentD(3) [OF assms(1)], of _ i]) (use assms(2-6) in \<open>simp_all add: is_superseded_def\<close>)
  moreover have "well_numbered (put_conversation x s)" by (rule well_numbered_cong [OF consistentD(1) [OF assms(1)]]) simp_all
  ultimately show ?thesis by (simp add: consistent_def)
qed

lemma consistent_cong:
  assumes "consistent s" and "cv_instances s' = cv_instances s" "cv_cycles s' = cv_cycles s" "cv_next_pk s \<le> cv_next_pk s'"
  shows "consistent s'"
proof -
  have c: "conversation_of s' = conversation_of s" "cycles_of s' = cycles_of s"
    using assms by (simp_all add: conversation_of_def cycles_of_def fun_eq_iff)
  have "well_numbered s'" using consistentD(1) [OF assms(1)] assms(3,4) c(2) unfolding well_numbered_def by (auto intro: less_le_trans)
  moreover have "identified s'" using consistentD(2) [OF assms(1)] assms c(1) unfolding identified_def by (auto intro: less_le_trans)
  moreover have "settled s'" using consistentD(3) [OF assms(1)] c unfolding settled_def by simp
  ultimately show ?thesis by (simp add: consistent_def)
qed

section \<open>What a transition does\<close>

lemma put_conversation_instances: "same_rest s s1 \<Longrightarrow>
  cv_instances (put_conversation x s1) = save_row cn_pk x (cv_instances s)"
  by (simp add: same_rest_def put_conversation_def)

text \<open>The attendance a transition works on: reopened, or the current one.\<close>

lemma transition_cycle:
  assumes "well_numbered s" and "conversation_of s k = Some i"
  obtains s1 c where
    "(if reopens (cn_state i) m then reopen_service_cycle now k (cn_state i) why event s
      else ensure_current_service_cycle now k s) = Inr (s1, c)"
    "well_numbered s1" "same_rest s s1" "cv_next_pk s \<le> cv_next_pk s1" "current_cycle s1 k = Some c"
    "cycles_of s1 = (cycles_of s)(k := cycles_of s1 k)"
    "reopens (cn_state i) m \<or> \<not> is_terminal (cn_state i) \<Longrightarrow> sc_status c = Cycle_Open"
    "length (cycles_of s1 k) = (if reopens (cn_state i) m then Suc (max 1 (length (cycles_of s k)))
       else if cycles_of s k = [] then 1
       else if \<not> is_terminal (cn_state i) \<and> sc_status (last (cycles_of s k)) = Cycle_Closed then Suc (length (cycles_of s k))
       else length (cycles_of s k))"
proof (cases "reopens (cn_state i) m")
  case True
  obtain s1 c where r: "reopen_service_cycle now k (cn_state i) why event s = Inr (s1, c)" "well_numbered s1" "same_rest s s1"
    "current_cycle s1 k = Some c" "sc_instance c = k" "sc_status c = Cycle_Open"
    "cycles_of s1 = (cycles_of s)(k := cycles_of s1 k)" "length (cycles_of s1 k) = Suc (max 1 (length (cycles_of s k)))"
    using reopen_ok [OF assms, of now "cn_state i" why event] by metis
  show thesis by (rule that [OF _ r(2,3) reopen_next [OF r(1)] r(4,7)]) (use True r in simp_all)
next
  case False
  obtain s1 c where r: "ensure_current_service_cycle now k s = Inr (s1, c)" "well_numbered s1" "same_rest s s1"
    "current_cycle s1 k = Some c" "\<not> is_terminal (cn_state i) \<Longrightarrow> sc_status c = Cycle_Open"
    "cycles_of s1 = (cycles_of s)(k := cycles_of s1 k)"
    "cycles_of s1 k = cycles_of s k \<and> cycles_of s k \<noteq> [] \<and> s1 = s \<or> cycles_of s1 k = cycles_of s k @ [c] \<and>
       (cycles_of s k = [] \<or> \<not> is_terminal (cn_state i) \<and> sc_status (last (cycles_of s k)) = Cycle_Closed)"
    using ensure_ok [OF assms, of now] by metis
  have c: "c = last (cycles_of s1 k)" using r(4) by (simp add: current_cycle_def split: if_splits)
  show thesis
  proof (rule that [OF _ r(2,3) ensure_next [OF r(1)] r(4,6)])
    show "length (cycles_of s1 k) = (if reopens (cn_state i) m then Suc (max 1 (length (cycles_of s k)))
       else if cycles_of s k = [] then 1
       else if \<not> is_terminal (cn_state i) \<and> sc_status (last (cycles_of s k)) = Cycle_Closed then Suc (length (cycles_of s k))
       else length (cycles_of s k))"
    proof (cases "cycles_of s1 k = cycles_of s k \<and> cycles_of s k \<noteq> []")
      case True
      then have "sc_status (last (cycles_of s k)) = Cycle_Open" if "\<not> is_terminal (cn_state i)" using r(5) that c by simp
      then show ?thesis using True False by (cases "is_terminal (cn_state i)") simp_all
    next
      case other: False
      then have "cycles_of s1 k = cycles_of s k @ [c]"
        "cycles_of s k = [] \<or> \<not> is_terminal (cn_state i) \<and> sc_status (last (cycles_of s k)) = Cycle_Closed"
        using r(7) by blast+
      then show ?thesis using False by auto
    qed
  qed (use False r in simp_all)
qed

lemma moved_conversation_simps [simp]:
  "cn_pk (moved_conversation now m i) = cn_pk i" "cn_key (moved_conversation now m i) = cn_key i"
  "cn_thread (moved_conversation now m i) = cn_thread i" "cn_state (moved_conversation now m i) = mv_to m"
  "is_superseded (moved_conversation now m i) = is_superseded i"
  by (simp_all add: moved_conversation_def is_superseded_def)

lemma validate_terminal: "validate_transition a b r q = Inr () \<Longrightarrow> is_terminal a \<Longrightarrow> r"
  by (simp add: validate_transition_def split: if_splits)

lemma same_rest_append_moves [simp]:
  "cv_cycles (s\<lparr>cv_moves := x\<rparr>) = cv_cycles s" "cycles_of (s\<lparr>cv_moves := x\<rparr>) = cycles_of s"
  "conversation_of (s\<lparr>cv_moves := x\<rparr>) = conversation_of s"
  by (simp_all add: cycles_of_def conversation_of_def fun_eq_iff)

lemma transition_ok:
  assumes "consistent s" and "conversation_of s k = Some i" and "cn_state i \<noteq> mv_to m"
    and "validate_transition (cn_state i) (mv_to m) (mv_reopen m) (mv_queue_entry m) = Inr ()"
  obtains s' c d where "transition now k m s = Inr s'" "consistent s'"
    "cv_instances s' = save_row cn_pk (moved_conversation now m i) (cv_instances s)"
    "cv_events s' = cv_events s" "cv_moves s' = cv_moves s @ [audit_row k (Some c) (cn_state i) m]"
    "current_cycle s' k = Some d" "sc_status d = (if is_terminal (mv_to m) then Cycle_Closed else Cycle_Open)"
    "cycles_of s' = (cycles_of s)(k := cycles_of s' k)"
    "length (cycles_of s' k) = (if reopens (cn_state i) m then Suc (max 1 (length (cycles_of s k)))
       else if cycles_of s k = [] then 1
       else if \<not> is_terminal (cn_state i) \<and> sc_status (last (cycles_of s k)) = Cycle_Closed then Suc (length (cycles_of s k))
       else length (cycles_of s k))"
proof -
  have k: "cn_pk i = k" by (rule conversation_of_pk [OF assms(2)])
  obtain s1 c where a: "(if reopens (cn_state i) m then reopen_service_cycle now k (cn_state i) (mv_reason m) (mv_event m) s
      else ensure_current_service_cycle now k s) = Inr (s1, c)"
    "well_numbered s1" "same_rest s s1" "cv_next_pk s \<le> cv_next_pk s1" "current_cycle s1 k = Some c"
    "cycles_of s1 = (cycles_of s)(k := cycles_of s1 k)"
    "reopens (cn_state i) m \<or> \<not> is_terminal (cn_state i) \<Longrightarrow> sc_status c = Cycle_Open"
    "length (cycles_of s1 k) = (if reopens (cn_state i) m then Suc (max 1 (length (cycles_of s k)))
       else if cycles_of s k = [] then 1
       else if \<not> is_terminal (cn_state i) \<and> sc_status (last (cycles_of s k)) = Cycle_Closed then Suc (length (cycles_of s k))
       else length (cycles_of s k))"
    by (rule transition_cycle [OF consistentD(1) [OF assms(1)] assms(2), of m now "mv_reason m" "mv_event m"]) (rule that)
  let ?x = "moved_conversation now m i"
  let ?s2 = "put_conversation ?x s1"
  let ?s3 = "?s2\<lparr>cv_moves := cv_moves ?s2 @ [audit_row k (Some (sc_pk c)) (cn_state i) m]\<rparr>"
  have c1: "conversation_of s1 k = Some i" using assms(2) by (simp add: same_rest_conversation [OF a(3)])
  have i1: "identified s1" by (rule identified_cycles [OF consistentD(2) [OF assms(1)] assms(2) a(3,4,6)])
  have i2: "identified ?s2" by (rule identified_put_same [OF i1 c1]) (simp_all add: k)
  have w3: "well_numbered ?s3" by (rule well_numbered_cong [OF a(2)]) simp_all
  have c3: "conversation_of ?s3 k = Some ?x" using c1 k by (simp add: conversation_of_put)
  have i3: "identified ?s3" using i2 unfolding identified_def by simp
  have others: "conversation_of ?s3 j = conversation_of s j" if "j \<noteq> k" for j
    using that k by (simp add: conversation_of_put same_rest_conversation [OF a(3)])
  have settle: "settled s'" if "same_rest ?s3 s'" "cycles_of s' = (cycles_of s)(k := cycles_of s' k)"
      "is_terminal (mv_to m) \<Longrightarrow> \<forall>d \<in> set (cycles_of s' k). sc_status d = Cycle_Closed" for s'
    unfolding settled_def
  proof (intro allI impI)
    fix j y
    assume y: "conversation_of s' j = Some y \<and> is_terminal (cn_state y) \<and> \<not> is_superseded y"
    then have y3: "conversation_of ?s3 j = Some y" using same_rest_conversation [OF that(1)] by metis
    show "\<forall>d \<in> set (cycles_of s' j). sc_status d = Cycle_Closed"
    proof (cases "j = k")
      case True
      then have "y = ?x" using y3 c3 by simp
      then show ?thesis using y True that(3) by simp
    next
      case False
      then have "conversation_of s j = Some y" using y3 others by simp
      moreover have "cycles_of s' j = cycles_of s j" using fun_cong [OF that(2), of j] False by simp
      ultimately show ?thesis using settledD [OF consistentD(3) [OF assms(1)]] y by metis
    qed
  qed
  have run: "transition now k m s = (if is_terminal (mv_to m) then
      and_then (close_current_service_cycle now k (mv_reason m) (mv_occurred m) ?s3) (\<lambda>(s4, _). Inr s4) else Inr ?s3)"
    using assms(2-4) a(1) by (simp add: transition_def Let_def)
  have inst: "cv_instances ?s3 = save_row cn_pk ?x (cv_instances s)"
    using a(3) by (simp add: same_rest_def put_conversation_def)
  have rest: "cv_events ?s3 = cv_events s" "cv_moves ?s3 = cv_moves s @ [audit_row k (Some (sc_pk c)) (cn_state i) m]"
    using a(3) by (simp_all add: same_rest_def)
  show thesis
  proof (cases "is_terminal (mv_to m)")
    case False
    have "reopens (cn_state i) m \<or> \<not> is_terminal (cn_state i)"
      using validate_terminal [OF assms(4)] False by (auto simp: reopens_def)
    then have open_c: "sc_status c = Cycle_Open" by (rule a(7))
    have cyc: "cycles_of ?s3 = cycles_of s1" by simp
    have "settled ?s3" by (rule settle) (use False a(6) in \<open>simp_all add: same_rest_def\<close>)
    then have cons: "consistent ?s3" using w3 i3 by (simp add: consistent_def)
    have cur: "current_cycle ?s3 k = Some c" using a(5) unfolding current_cycle_def cyc .
    have r3: "transition now k m s = Inr ?s3" using run False by simp
    have cyc3: "cycles_of ?s3 = (cycles_of s)(k := cycles_of ?s3 k)" unfolding cyc by (rule a(6))
    show thesis by (rule that [OF r3 cons inst rest cur _ cyc3]) (use False open_c a(8) cyc in simp_all)
  next
    case True
    obtain s4 d where e: "close_current_service_cycle now k (mv_reason m) (mv_occurred m) ?s3 = Inr (s4, d)" "well_numbered s4"
      "same_rest ?s3 s4" "current_cycle s4 k = Some d" "is_terminal (cn_state ?x) \<or> current_cycle ?s3 k \<noteq> None \<Longrightarrow> sc_status d = Cycle_Closed"
      "cycles_of s4 = (cycles_of ?s3)(k := cycles_of s4 k)"
      "length (cycles_of s4 k) = (if cycles_of ?s3 k = [] then 1 else
         if sc_status (last (cycles_of ?s3 k)) = Cycle_Closed \<and> \<not> is_terminal (cn_state ?x) then Suc (length (cycles_of ?s3 k))
         else length (cycles_of ?s3 k))"
      using close_ok [OF w3 c3, of now "mv_reason m" "mv_occurred m"] by metis
    have d: "sc_status d = Cycle_Closed" using e(5) True by simp
    have cyc: "cycles_of s4 = (cycles_of s)(k := cycles_of s4 k)"
    proof
      fix j
      show "cycles_of s4 j = ((cycles_of s)(k := cycles_of s4 k)) j"
        using fun_cong [OF e(6), of j] fun_cong [OF a(6), of j] by (cases "j = k") simp_all
    qed
    have "cycles_of s1 k \<noteq> []" using a(5) by (simp add: current_cycle_def split: if_splits)
    then have len: "length (cycles_of s4 k) = length (cycles_of s1 k)" using e(7) True by simp
    have "settled s4" by (rule settle [OF e(3) cyc]) (rule ballI, rule all_closed [OF e(2,4) d])
    moreover have "identified s4" by (rule identified_cycles [OF i3 c3 e(3) close_next [OF e(1)] e(6)])
    ultimately have cons: "consistent s4" using e(2) by (simp add: consistent_def)
    have r4: "transition now k m s = Inr s4" using run True e(1) by simp
    have rest4: "cv_instances s4 = save_row cn_pk ?x (cv_instances s)" "cv_events s4 = cv_events s"
      "cv_moves s4 = cv_moves s @ [audit_row k (Some (sc_pk c)) (cn_state i) m]"
      using e(3) inst rest by (simp_all add: same_rest_def)
    show thesis by (rule that [OF r4 cons rest4 e(4) _ cyc]) (use d True len a(8) in simp_all)
  qed
qed

lemma transition_cases:
  assumes "consistent s" and "transition now k m s = Inr s'"
  obtains i where "conversation_of s k = Some i" "cn_state i = mv_to m" "s' = s"
  | i c where "conversation_of s k = Some i" "cn_state i \<noteq> mv_to m"
      "validate_transition (cn_state i) (mv_to m) (mv_reopen m) (mv_queue_entry m) = Inr ()" "consistent s'"
      "cv_instances s' = save_row cn_pk (moved_conversation now m i) (cv_instances s)"
      "cv_events s' = cv_events s" "cv_moves s' = cv_moves s @ [audit_row k (Some c) (cn_state i) m]"
proof -
  obtain i where i: "conversation_of s k = Some i" using assms(2) by (auto simp: transition_def split: option.splits)
  show thesis
  proof (cases "cn_state i = mv_to m")
    case True
    then show thesis using that(1) i assms(2) by (simp add: transition_def)
  next
    case False
    have v: "validate_transition (cn_state i) (mv_to m) (mv_reopen m) (mv_queue_entry m) = Inr ()"
      using assms(2) i False by (simp add: transition_def and_then_Inr_iff)
    show thesis
      using transition_ok [OF assms(1) i False v, of now] that(2) [OF i False v] assms(2) by (metis sum.inject(2))
  qed
qed

lemma transition_consistent:
  assumes "consistent s" and "transition now k m s = Inr s'"
  shows "consistent s'"
  using transition_cases [OF assms] assms(1) by metis

lemma transition_rows:
  assumes "consistent s" and "transition now k m s = Inr s'"
  shows "map cn_pk (cv_instances s') = map cn_pk (cv_instances s)" "cv_events s' = cv_events s"
    "map cn_key (cv_instances s') = map cn_key (cv_instances s)"
proof -
  have "map cn_key (save_row cn_pk (moved_conversation now m i) (cv_instances s)) = map cn_key (cv_instances s)"
    if "conversation_of s k = Some i" for i
  proof -
    have "cn_key j = cn_key i" if "j \<in> set (cv_instances s)" "cn_pk j = cn_pk i" for j
      using conversation_of_unique [OF consistentD(2) [OF assms(1)] that(1)] that(2) conversation_of_pk \<open>conversation_of s k = Some i\<close>
      by simp
    then show ?thesis by (auto simp: save_row_def)
  qed
  then show "map cn_pk (cv_instances s') = map cn_pk (cv_instances s)" "cv_events s' = cv_events s"
    "map cn_key (cv_instances s') = map cn_key (cv_instances s)"
    using transition_cases [OF assms] by (metis map_key_save_row, metis, metis)
qed

lemma conversation_exists: "conversation_of s k \<noteq> None \<longleftrightarrow> k \<in> set (map cn_pk (cv_instances s))"
  by (auto simp: conversation_of_def get_row_None dest: get_row_Some_in)

section \<open>What the identity functions do\<close>

lemma instance_clash_sym: "instance_clash i j = instance_clash j i"
  by (auto simp: instance_clash_def)

lemma save_conversation_identified:
  assumes "identified s" and "conversation_of s (cn_pk x) = Some i" and "save_conversation x s = Inr s'"
  shows "s' = put_conversation x s" "identified s'"
proof -
  have free: "\<not> list_ex (\<lambda>j. cn_pk j \<noteq> cn_pk x \<and> instance_clash x j) (cv_instances s)" and s': "s' = put_conversation x s"
    using assms(3) by (simp_all add: save_conversation_def split: if_splits)
  show "s' = put_conversation x s" by (rule s')
  show "identified s'"
    unfolding s' by (rule identified_put [OF assms(1,2)]) (use free in \<open>auto simp: list_ex_iff instance_clash_sym [of _ x]\<close>)
qed

lemma save_conversation_consistent:
  assumes "consistent s" and "conversation_of s (cn_pk x) = Some i" and "save_conversation x s = Inr s'"
    and "is_terminal (cn_state x) \<Longrightarrow> \<not> is_superseded x \<Longrightarrow> is_terminal (cn_state i) \<and> \<not> is_superseded i"
  shows "consistent s'"
proof -
  note r = save_conversation_identified [OF consistentD(2) [OF assms(1)] assms(2,3)]
  have "settled s'" unfolding r(1) by (rule settled_put [OF consistentD(3) [OF assms(1)] assms(2,4)])
  moreover have "well_numbered s'" unfolding r(1) by (rule well_numbered_cong [OF consistentD(1) [OF assms(1)]]) simp_all
  ultimately show ?thesis using r(2) by (simp add: consistent_def)
qed

lemma save_conversation_rows:
  "save_conversation x s = Inr s' \<Longrightarrow> map cn_pk (cv_instances s') = map cn_pk (cv_instances s) \<and> cv_events s' = cv_events s \<and>
     cv_cycles s' = cv_cycles s \<and> cv_moves s' = cv_moves s"
  by (auto simp: save_conversation_def put_conversation_def split: if_splits)

text \<open>What identity changes leave alone: the rows that exist, the events and the attendances.\<close>

definition same_ledger :: "conv \<Rightarrow> conv \<Rightarrow> bool" where
  "same_ledger s s' \<longleftrightarrow> map cn_pk (cv_instances s') = map cn_pk (cv_instances s) \<and> cv_events s' = cv_events s \<and>
     cv_cycles s' = cv_cycles s"

lemma same_ledger_trans: "same_ledger s s' \<Longrightarrow> same_ledger s' s'' \<Longrightarrow> same_ledger s s''"
  by (simp add: same_ledger_def)

lemma same_ledger_exists: "same_ledger s s' \<Longrightarrow> conversation_of s k \<noteq> None \<Longrightarrow> conversation_of s' k \<noteq> None"
  by (simp only: conversation_exists same_ledger_def)

lemma supersede_consistent:
  assumes "consistent s" and "conversation_of s (cn_pk p) \<noteq> None" and "supersede_placeholder now canonical why p s = Inr s'"
  shows "consistent s' \<and> same_ledger s s'"
proof -
  let ?x = "p\<lparr>cn_superseded_by := Some canonical, cn_key := Superseded_Key (cn_pk p), cn_state := St_Ignored,
     cn_version := Suc (cn_version p), cn_activity_at := Some now, cn_failures := 0, cn_next_retry_at := None, cn_error := []\<rparr>"
  from assms(3) obtain s1 where s1: "save_conversation ?x s = Inr s1"
    and s': "cv_instances s' = cv_instances s1" "cv_cycles s' = cv_cycles s1" "cv_next_pk s' = cv_next_pk s1" "cv_events s' = cv_events s1"
    unfolding supersede_placeholder_def by (elim and_then_InrE) auto
  obtain i where i: "conversation_of s (cn_pk ?x) = Some i" using assms(2) by auto
  have "consistent s1"
    by (rule save_conversation_consistent [OF assms(1) i s1]) (simp add: is_superseded_def)
  then have "consistent s'" by (rule consistent_cong) (simp_all add: s')
  then show ?thesis using save_conversation_rows [OF s1] s' by (simp add: same_ledger_def)
qed

lemma supersede_all_consistent:
  assumes "consistent s" and "\<forall>p \<in> set ps. conversation_of s (cn_pk p) \<noteq> None" and "supersede_all now canonical why ps s = Inr s'"
  shows "consistent s' \<and> same_ledger s s'"
  using assms
proof (induction ps arbitrary: s)
  case Nil
  then show ?case by (simp add: same_ledger_def)
next
  case (Cons p ps)
  from Cons.prems(3) obtain s1 where s1: "supersede_placeholder now canonical why p s = Inr s1"
    "supersede_all now canonical why ps s1 = Inr s'"
    by (auto elim!: and_then_InrE)
  have one: "consistent s1" "same_ledger s s1" using supersede_consistent [OF Cons.prems(1) _ s1(1)] Cons.prems(2) by simp_all
  have "\<forall>q \<in> set ps. conversation_of s1 (cn_pk q) \<noteq> None" using Cons.prems(2) same_ledger_exists [OF one(2)] by simp
  then show ?case using Cons.IH [OF one(1) _ s1(2)] same_ledger_trans [OF one(2)] by blast
qed

lemma placeholders_mem: "p \<in> set (placeholders ti s) \<Longrightarrow> p \<in> set (cv_instances s) \<and> ticket_scope ti p"
  by (auto simp: placeholders_def split: if_splits)

lemma promote_consistent:
  assumes "consistent s" and "promote_or_get_thread_instance now ticket thread s = Inr (s', found)"
  shows "consistent s' \<and> same_ledger s s' \<and> (\<forall>k. found = Some k \<longrightarrow> conversation_of s' k \<noteq> None)"
proof -
  let ?th = "strip thread" and ?ti = "strip (opt_text ticket)"
  have there: "conversation_of s (cn_pk p) = Some p" if "p \<in> set (placeholders ?ti s)" for p
    using placeholders_mem [OF that] conversation_of_unique [OF consistentD(2) [OF assms(1)]] by blast
  consider (none) "s' = s" "found = None"
    | (found) c where "find_by_thread ?th s = Some c" "found = Some (cn_pk c)"
        "supersede_all now (cn_pk c) ''canonical_thread_already_exists'' (placeholders ?ti s) s = Inr s'"
    | (promoted) c ps s1 where "placeholders ?ti s = c # ps" "found = Some (cn_pk c)"
        "save_conversation (c\<lparr>cn_thread := Some ?th, cn_key := Thread_Key ?th, cn_activity_at := Some now\<rparr>) s = Inr s1"
        "supersede_all now (cn_pk c) ''duplicate_ticket_placeholder'' ps s1 = Inr s'"
    using assms(2) unfolding promote_or_get_thread_instance_def Let_def
    by (auto split: if_splits option.splits list.splits elim!: and_then_InrE)
  then show ?thesis
  proof cases
    case none
    then show ?thesis using assms(1) by (simp add: same_ledger_def)
  next
    case (found c)
    have r: "consistent s' \<and> same_ledger s s'"
      by (rule supersede_all_consistent [OF assms(1) _ found(3)]) (use there in simp)
    have "c \<in> set (cv_instances s)" using found(1) first_by_Some by (fastforce simp: find_by_thread_def)
    then have "conversation_of s (cn_pk c) \<noteq> None" using conversation_of_unique [OF consistentD(2) [OF assms(1)]] by simp
    then show ?thesis using r found(2) same_ledger_exists by blast
  next
    case (promoted c ps s1)
    let ?x = "c\<lparr>cn_thread := Some ?th, cn_key := Thread_Key ?th, cn_activity_at := Some now\<rparr>"
    have c: "conversation_of s (cn_pk c) = Some c" "\<not> is_superseded c"
      using there [of c] placeholders_mem [of c ?ti s] promoted(1) by (simp_all add: ticket_scope_def)
    have s1: "consistent s1"
      by (rule save_conversation_consistent [OF assms(1) _ promoted(3)]) (use c in simp_all)
    have l1: "same_ledger s s1" using save_conversation_rows [OF promoted(3)] by (simp add: same_ledger_def)
    have "\<forall>p \<in> set ps. conversation_of s1 (cn_pk p) \<noteq> None"
      using there promoted(1) same_ledger_exists [OF l1] by simp
    then have r: "consistent s' \<and> same_ledger s1 s'" by (rule supersede_all_consistent [OF s1 _ promoted(4)])
    then have "same_ledger s s'" using same_ledger_trans [OF l1] by blast
    moreover have "conversation_of s (cn_pk c) \<noteq> None" using c(1) by simp
    ultimately show ?thesis using r promoted(2) same_ledger_exists by blast
  qed
qed

lemma supersede_if_canonical_consistent:
  assumes "consistent s" and "supersede_placeholder_if_canonical_exists now k s = Inr (s', found)"
  shows "consistent s' \<and> same_ledger s s'"
proof -
  consider (none) "s' = s"
    | (some) p c where "conversation_of s k = Some p" "supersede_placeholder now c ''watchdog_found_canonical_thread'' p s = Inr s'"
    using assms(2) unfolding supersede_placeholder_if_canonical_exists_def
    by (auto split: if_splits option.splits elim!: and_then_InrE)
  then show ?thesis
  proof cases
    case none
    then show ?thesis using assms(1) by (simp add: same_ledger_def)
  next
    case (some p c)
    have "conversation_of s (cn_pk p) \<noteq> None" using some(1) conversation_of_pk by auto
    then show ?thesis by (rule supersede_consistent [OF assms(1) _ some(2)])
  qed
qed

lemma insert_consistent:
  assumes "consistent s" and "cn_pk i = cv_next_pk s" and "cn_state i = St_Received" and "insert_conversation i s = Inr s'"
  shows "consistent s'" "conversation_of s' (cn_pk i) = Some i" "cv_instances s' = cv_instances s @ [i]" "cv_events s' = cv_events s"
    "cv_cycles s' = cv_cycles s" "cv_moves s' = cv_moves s"
proof -
  note d = identifiedD [OF consistentD(2) [OF assms(1)]]
  have free: "\<not> list_ex (instance_clash i) (cv_instances s)"
    and s': "s' = s\<lparr>cv_instances := cv_instances s @ [i], cv_next_pk := Suc (cv_next_pk s)\<rparr>"
    using assms(4) by (simp_all add: insert_conversation_def split: if_splits)
  have pk: "cn_pk j \<noteq> cn_pk i" if "j \<in> set (cv_instances s)" for j using d(2) [OF that] assms(2) by simp
  have old: "conversation_of s' k = Some j" if "conversation_of s k = Some j" for k j
    using that by (simp add: s' conversation_of_def get_row_append)
  have none: "get_row cn_pk (cn_pk i) (cv_instances s) = None" using pk by (simp add: get_row_None)
  show new: "conversation_of s' (cn_pk i) = Some i" by (simp add: s' conversation_of_def get_row_append none get_row_Cons)
  show "cv_instances s' = cv_instances s @ [i]" "cv_events s' = cv_events s" "cv_cycles s' = cv_cycles s" "cv_moves s' = cv_moves s"
    by (simp_all add: s')
  have "identified s'"
    unfolding identified_def
  proof (intro conjI ballI impI)
    have "cn_pk i \<notin> cn_pk ` set (cv_instances s)" using pk by (metis imageE)
    then show "distinct (map cn_pk (cv_instances s'))" using d(1) by (simp add: s')
    fix j
    assume j: "j \<in> set (cv_instances s')"
    show "cn_pk j < cv_next_pk s'" using j d(2) assms(2) by (auto simp: s' intro: less_SucI)
    fix l
    assume l: "l \<in> set (cv_instances s')" "cn_pk j \<noteq> cn_pk l"
    have c: "\<not> instance_clash i x" "\<not> instance_clash x i" if "x \<in> set (cv_instances s)" for x
      using free that by (simp_all add: list_ex_iff instance_clash_sym [of _ i])
    show "\<not> instance_clash j l"
      using j l c d(3) [of j l] by (auto simp: s')
  next
    fix c
    assume "c \<in> set (cv_cycles s')"
    then show "conversation_of s' (sc_instance c) \<noteq> None" using d(4) [of c] old by (fastforce simp: s')
  qed
  moreover have "settled s'"
    unfolding settled_def
  proof (intro allI impI)
    fix k j
    assume a: "conversation_of s' k = Some j \<and> is_terminal (cn_state j) \<and> \<not> is_superseded j"
    have cyc: "cycles_of s' k = cycles_of s k" by (simp add: s' cycles_of_def)
    show "\<forall>c \<in> set (cycles_of s' k). sc_status c = Cycle_Closed"
    proof (cases "conversation_of s k")
      case None
      then have "j = i" using a by (simp add: s' conversation_of_def get_row_append get_row_Cons split: if_splits)
      then show ?thesis using a assms(3) by (simp add: is_terminal_def terminal_states_def)
    next
      case (Some x)
      then show ?thesis using a old [OF Some] settledD [OF consistentD(3) [OF assms(1)] Some] cyc by (simp del: in_cycles_of)
    qed
  qed
  moreover have "well_numbered s'"
    using consistentD(1) [OF assms(1)] unfolding well_numbered_def s' cycles_of_def by (auto intro: less_SucI)
  ultimately show "consistent s'" by (simp add: consistent_def)
qed

end
