(* ===== verification/Lifecycle_Engine.thy ===== *)
theory Lifecycle_Engine
  imports Lifecycle
begin

text \<open>
  Recording provider events: \<open>record_normalized_event\<close>, the convergence of closed tickets and the
  lookups of \<open>LifecycleEngine\<close> in \<open>apps/ai_agents/services/lifecycle.py\<close>, with their theorems.

  Python keeps the instance as an object and the row under lock; both agree inside the transaction,
  so the model reads the row.
\<close>

section \<open>The instance of an event\<close>

definition instance_key_of :: "normalized_event \<Rightarrow> instance_key" where
  "instance_key_of ev =
     (if opt_truthy (ne_thread ev) then Thread_Key (opt_text (ne_thread ev))
      else if opt_truthy (ne_ticket ev) then Ticket_Key (opt_text (ne_ticket ev))
      else Event_Key (ne_key ev))"

definition customer_message :: "normalized_event \<Rightarrow> bool" where
  "customer_message ev \<longleftrightarrow> ne_type ev = ''conversation_message_received'' \<and> ne_direction ev = ''INCOMING''"

definition new_conversation :: "instant \<Rightarrow> uuid \<Rightarrow> normalized_event \<Rightarrow> conversation" where
  "new_conversation now k ev = \<lparr>cn_pk = k, cn_thread = ne_thread ev, cn_ticket = ne_ticket ev, cn_contact = ne_contact ev,
     cn_channel = ne_channel ev, cn_pipeline = ne_pipeline ev, cn_stage = ne_stage ev, cn_state = St_Received,
     cn_version = 0, cn_key = instance_key_of ev, cn_last_event = ne_source_event ev,
     cn_last_message = (if customer_message ev then ne_message ev else []), cn_assigned = None, cn_opened_at = now,
     cn_created_at = now, cn_activity_at = Some (case ne_occurred_at ev of None \<Rightarrow> now | Some t \<Rightarrow> t), cn_closed_at = None,
     cn_failures = 0, cn_next_retry_at = None, cn_error = [], cn_cursor = None, cn_superseded_by = None\<rparr>"

text \<open>Creation under a savepoint, and the read that recovers from a lost race.\<close>

definition create_or_recover :: "instant \<Rightarrow> normalized_event \<Rightarrow> conv \<Rightarrow> (conv \<times> uuid \<times> bool) result" where
  "create_or_recover now ev s =
     (case insert_conversation (new_conversation now (cv_next_pk s) ev) s of
        Inr s' \<Rightarrow> Inr (s', cv_next_pk s, True)
      | Inl _ \<Rightarrow>
          (case get_row cn_key (instance_key_of ev) (cv_instances s) of
             None \<Rightarrow> Inl DoesNotExist
           | Some i \<Rightarrow> Inr (s, cn_pk i, False)))"

definition get_or_create_instance :: "instant \<Rightarrow> normalized_event \<Rightarrow> conv \<Rightarrow> (conv \<times> uuid \<times> bool) result" where
  "get_or_create_instance now ev s =
     (if opt_truthy (ne_thread ev) then
        and_then (promote_or_get_thread_instance now (ne_ticket ev) (opt_text (ne_thread ev)) s) (\<lambda>(s1, found).
          case found of
            Some k \<Rightarrow> Inr (s1, k, False)
          | None \<Rightarrow>
              (case find_by_thread (opt_text (ne_thread ev)) s1 of
                 Some i \<Rightarrow> Inr (s1, cn_pk i, False)
               | None \<Rightarrow> create_or_recover now ev s1))
      else if opt_truthy (ne_ticket ev) then
        (case find_conversation_instance None (ne_ticket ev) s of
           Some i \<Rightarrow> Inr (s, cn_pk i, False)
         | None \<Rightarrow> create_or_recover now ev s)
      else create_or_recover now ev s)"

definition is_stale_provider_event :: "conversation \<Rightarrow> normalized_event \<Rightarrow> bool" where
  "is_stale_provider_event i ev =
     (case (ne_occurred_at ev, cn_cursor i) of (Some t, Some c) \<Rightarrow> t < c | _ \<Rightarrow> False)"

definition refresh_instance_snapshot :: "instant \<Rightarrow> normalized_event \<Rightarrow> conversation \<Rightarrow> conversation" where
  "refresh_instance_snapshot now ev i = i\<lparr>
     cn_last_event := (if ne_source_event ev \<noteq> [] then ne_source_event ev else cn_last_event i),
     cn_last_message := (if customer_message ev \<and> ne_message ev \<noteq> [] then ne_message ev else cn_last_message i),
     cn_activity_at := Some (case ne_occurred_at ev of None \<Rightarrow> now | Some t \<Rightarrow> t),
     cn_contact := (if opt_truthy (ne_contact ev) then ne_contact ev else cn_contact i),
     cn_channel := (if ne_channel ev \<noteq> ''unknown'' then ne_channel ev else cn_channel i),
     cn_pipeline := (if opt_truthy (ne_pipeline ev) then ne_pipeline ev else cn_pipeline i),
     cn_stage := (if opt_truthy (ne_stage ev) then ne_stage ev else cn_stage i),
     cn_cursor := (case ne_occurred_at ev of None \<Rightarrow> cn_cursor i | Some t \<Rightarrow> Some t)\<rparr>"

definition append_event :: "uuid \<Rightarrow> normalized_event \<Rightarrow> conv \<Rightarrow> conv \<times> conversation_event \<times> bool" where
  "append_event k ev s =
     (case get_row ev_key (ne_key ev) (cv_events s) of
        Some e \<Rightarrow> (s, e, False)
      | None \<Rightarrow>
          (let e = \<lparr>ev_pk = cv_next_pk s, ev_instance = k, ev_cycle = None, ev_source = ne_source ev,
                 ev_source_event = ne_source_event ev, ev_type = ne_type ev, ev_occurred_at = ne_occurred_at ev,
                 ev_key = ne_key ev, ev_status = Ev_Pending, ev_processed_at = None, ev_error = []\<rparr>
           in (s\<lparr>cv_events := cv_events s @ [e], cv_next_pk := Suc (cv_next_pk s)\<rparr>, e, True)))"

section \<open>Convergence of a closed ticket\<close>

definition converge_move :: "string \<Rightarrow> string \<Rightarrow> instant option \<Rightarrow> conversation_state \<Rightarrow> move" where
  "converge_move why event occurred st = (plain_move St_Closed why event)
     \<lparr>mv_actor_type := ''ticket_lifecycle_convergence'', mv_reopen := is_terminal st, mv_occurred := occurred\<rparr>"

fun close_each :: "instant \<Rightarrow> string \<Rightarrow> string \<Rightarrow> instant option \<Rightarrow> conversation list \<Rightarrow> conv \<Rightarrow> conv result" where
  "close_each now why event occurred [] s = Inr s"
| "close_each now why event occurred (i # is) s =
     (if cn_state i = St_Closed then close_each now why event occurred is s
      else and_then (transition now (cn_pk i) (converge_move why event occurred (cn_state i)) s)
             (close_each now why event occurred is))"

definition close_all_ticket_instances ::
  "instant \<Rightarrow> string \<Rightarrow> uuid option \<Rightarrow> string \<Rightarrow> string \<Rightarrow> instant option \<Rightarrow> conv \<Rightarrow> (conv \<times> bool) result" where
  "close_all_ticket_instances now ticket primary event why occurred s =
     (let rows = sort_key recency (filter (\<lambda>i. cn_ticket i = Some ticket \<and> Some (cn_pk i) \<noteq> primary) (cv_instances s))
      in and_then (close_each now why event occurred rows s) (\<lambda>s'. Inr (s', rows \<noteq> [])))"

definition close_event_time :: "conv \<Rightarrow> string \<Rightarrow> string \<Rightarrow> instant option" where
  "close_event_time s ticket event =
     (case first_by (\<lambda>e. map_option uminus (ev_occurred_at e))
             (\<lambda>e. (\<exists>i \<in> set (cv_instances s). cn_pk i = ev_instance e \<and> cn_ticket i = Some ticket) \<and>
                  ev_type e = ''ticket_closed'' \<and> ev_source_event e = event \<and> ev_occurred_at e \<noteq> None) (cv_events s) of
        None \<Rightarrow> None
      | Some e \<Rightarrow> ev_occurred_at e)"

definition advance_cursors :: "string \<Rightarrow> instant \<Rightarrow> conv \<Rightarrow> conv" where
  "advance_cursors ticket t s = s\<lparr>cv_instances := update_rows
     (\<lambda>i. cn_ticket i = Some ticket \<and> (case cn_cursor i of None \<Rightarrow> True | Some c \<Rightarrow> c < t))
     (\<lambda>i. i\<lparr>cn_cursor := Some t\<rparr>) (cv_instances s)\<rparr>"

definition close_ticket_instances ::
  "instant \<Rightarrow> string \<Rightarrow> string \<Rightarrow> string \<Rightarrow> instant option \<Rightarrow> conv \<Rightarrow> (conv \<times> bool) result" where
  "close_ticket_instances now ticket why event occurred s =
     and_then (close_all_ticket_instances now ticket None event why occurred s) (\<lambda>(s1, found).
       let at = (case occurred of Some t \<Rightarrow> Some t
                 | None \<Rightarrow> (if event \<noteq> [] then close_event_time s1 ticket event else None))
       in Inr ((if found then (case at of None \<Rightarrow> s1 | Some t \<Rightarrow> advance_cursors ticket t s1) else s1), found))"

section \<open>Recording an event\<close>

record event_record =
  er_instance :: uuid
  er_event :: uuid
  er_created :: bool
  er_stale :: bool
  er_policy :: effect_policy

definition defers_close :: "settings \<Rightarrow> normalized_event \<Rightarrow> route_decision \<Rightarrow> bool" where
  "defers_close cfg ev dec \<longleftrightarrow> rd_route dec = R_Close \<and>
     (effect_ordering_policy cfg ev dec = Process_Idempotent_Occurrence \<or> cycles_enforced cfg)"

text \<open>The transition a new event asks for, given the state it meets.\<close>

definition event_move ::
  "normalized_event \<Rightarrow> route_decision \<Rightarrow> bool \<Rightarrow> bool \<Rightarrow> conversation_state \<Rightarrow> move option" where
  "event_move ev dec deferred new st =
     (if rd_route dec = R_Ignore \<and> \<not> new \<and> st = St_Human_Assigned \<and>
         ne_type ev = ''conversation_message_received'' \<and> ne_direction ev = ''OUTGOING'' then
        Some (plain_move St_Human_In_Progress ''Assigned human agent sent the first outgoing message.'' (ne_source_event ev))
      else if rd_route dec \<noteq> R_Ignore \<and> \<not> deferred then
        Some ((plain_move (rd_target dec) (rd_reason dec) (ne_source_event ev))
          \<lparr>mv_reopen := (ne_type ev = ''ticket_entered_n1'' \<or> rd_route dec = R_Ai_Service),
           mv_queue_entry := (ne_type ev = ''ticket_entered_n1'' \<and> rd_route dec = R_Auto_Assignment \<and>
                              rd_target dec = St_Queue_Pending)\<rparr>)
      else if new \<and> \<not> opt_truthy (ne_ticket ev) then
        Some (plain_move (rd_target dec) (rd_reason dec) (ne_source_event ev))
      else None)"

definition state_of :: "conv \<Rightarrow> uuid \<Rightarrow> conversation_state" where
  "state_of s k = (case conversation_of s k of None \<Rightarrow> St_Received | Some i \<Rightarrow> cn_state i)"

definition link_event :: "uuid \<Rightarrow> uuid \<Rightarrow> conv \<Rightarrow> conv" where
  "link_event e c s = s\<lparr>cv_events := update_rows (\<lambda>r. ev_pk r = e) (\<lambda>r. r\<lparr>ev_cycle := Some c\<rparr>) (cv_events s)\<rparr>"

definition converge_reason :: string where
  "converge_reason = ''HubSpot ticket closure converged across conversation instances.''"

definition project_event ::
  "settings \<Rightarrow> instant \<Rightarrow> normalized_event \<Rightarrow> route_decision \<Rightarrow> bool \<Rightarrow> uuid \<Rightarrow> uuid \<Rightarrow> conv \<Rightarrow> conv result" where
  "project_event cfg now ev dec new k e s =
     (let deferred = defers_close cfg ev dec in
      and_then (if state_of s k = St_Received
                then transition now k (plain_move St_Normalized ''External event normalized.'' (ne_source_event ev)) s
                else Inr s) (\<lambda>s1.
      and_then (case event_move ev dec deferred new (state_of s1 k) of None \<Rightarrow> Inr s1 | Some m \<Rightarrow> transition now k m s1) (\<lambda>s2.
      and_then (if rd_route dec = R_Close \<and> opt_truthy (ne_ticket ev) \<and> \<not> deferred
                then close_all_ticket_instances now (opt_text (ne_ticket ev)) (Some k) (ne_source_event ev) converge_reason None s2
                else Inr (s2, False)) (\<lambda>(s3, _).
      and_then (ensure_current_service_cycle now k s3) (\<lambda>(s4, c). Inr (link_event e (sc_pk c) s4))))))"

definition record_normalized_event ::
  "settings \<Rightarrow> instant \<Rightarrow> normalized_event \<Rightarrow> route_decision \<Rightarrow> conv \<Rightarrow> (conv \<times> event_record) result" where
  "record_normalized_event cfg now ev dec s =
     and_then (get_or_create_instance now ev s) (\<lambda>(s1, k, new).
       case conversation_of s1 k of
         None \<Rightarrow> Inl DoesNotExist
       | Some i \<Rightarrow>
           (let stale = is_stale_provider_event i ev;
                s2 = (if \<not> stale \<and> \<not> defers_close cfg ev dec
                      then put_conversation (refresh_instance_snapshot now ev i) s1 else s1);
                (s3, e, created) = append_event k ev s2
            in and_then (if created \<and> \<not> stale then project_event cfg now ev dec new k (ev_pk e) s3 else Inr s3)
                 (\<lambda>s4. Inr (s4, \<lparr>er_instance = k, er_event = ev_pk e, er_created = created, er_stale = stale,
                    er_policy = effect_ordering_policy cfg ev dec\<rparr>))))"

definition record_lifecycle_for_webhook_event ::
  "settings \<Rightarrow> instant \<Rightarrow> webhook_view \<Rightarrow> conv \<Rightarrow> (conv \<times> event_record) result" where
  "record_lifecycle_for_webhook_event cfg now wv s =
     and_then (normalize_webhook_event cfg ''hubspot'' wv) (\<lambda>ev. record_normalized_event cfg now ev (route_event ev) s)"

section \<open>Other entry points\<close>

definition transition_by_ticket ::
  "instant \<Rightarrow> string \<Rightarrow> conversation_state \<Rightarrow> string \<Rightarrow> string \<Rightarrow> string \<Rightarrow> instant option \<Rightarrow> conv \<Rightarrow> (conv \<times> bool) result" where
  "transition_by_ticket now ticket st why actor event occurred s =
     (case find_conversation_instance None (Some ticket) s of
        None \<Rightarrow> Inr (s, False)
      | Some i \<Rightarrow> and_then (transition now (cn_pk i)
            ((plain_move st why event)\<lparr>mv_actor := actor, mv_occurred := occurred\<rparr>) s) (\<lambda>s'. Inr (s', True)))"

definition transition_by_thread ::
  "instant \<Rightarrow> string \<Rightarrow> conversation_state \<Rightarrow> string \<Rightarrow> string \<Rightarrow> conv \<Rightarrow> (conv \<times> bool) result" where
  "transition_by_thread now thread st why actor s =
     (case find_by_thread thread s of
        None \<Rightarrow> Inr (s, False)
      | Some i \<Rightarrow> and_then (transition now (cn_pk i) ((plain_move st why [])\<lparr>mv_actor := actor\<rparr>) s) (\<lambda>s'. Inr (s', True)))"

definition mark_event_processed :: "instant \<Rightarrow> uuid \<Rightarrow> conv \<Rightarrow> conv" where
  "mark_event_processed now e s = s\<lparr>cv_events := update_rows (\<lambda>r. ev_pk r = e \<and> ev_status r \<noteq> Ev_Duplicate)
     (\<lambda>r. r\<lparr>ev_status := Ev_Processed, ev_processed_at := Some now, ev_error := []\<rparr>) (cv_events s)\<rparr>"

definition mark_event_failed :: "string \<Rightarrow> uuid \<Rightarrow> conv \<Rightarrow> conv" where
  "mark_event_failed why e s = s\<lparr>cv_events := update_rows (\<lambda>r. ev_pk r = e \<and> ev_status r \<noteq> Ev_Duplicate)
     (\<lambda>r. r\<lparr>ev_status := Ev_Failed, ev_error := why\<rparr>) (cv_events s)\<rparr>"

section \<open>Every operation keeps the tables consistent\<close>

lemma find_conversation_instance_mem:
  assumes "find_conversation_instance thread t s = Some i"
  shows "i \<in> set (cv_instances s)"
proof -
  consider p where "find_by_thread p s = Some i" | P where "first_by recency P (cv_instances s) = Some i"
    | P where "sort_key (\<lambda>i. map_option uminus (cn_activity_at i)) (filter P (cv_instances s)) = [i]"
    using assms by (auto simp: find_conversation_instance_def Let_def split: if_splits option.splits list.splits)
  then show ?thesis
  proof cases
    case (1 p)
    then show ?thesis using first_by_Some by (fastforce simp: find_by_thread_def)
  next
    case (2 P)
    then show ?thesis using first_by_Some by fastforce
  next
    case (3 P)
    then have "i \<in> set (sort_key (\<lambda>i. map_option uminus (cn_activity_at i)) (filter P (cv_instances s)))" by simp
    then show ?thesis by simp
  qed
qed

lemma create_or_recover_consistent:
  assumes "consistent s" and "create_or_recover now ev s = Inr (s', k, new)"
  shows "consistent s' \<and> conversation_of s' k \<noteq> None \<and> cv_events s' = cv_events s \<and> cv_cycles s' = cv_cycles s \<and>
    cv_moves s' = cv_moves s \<and> (\<forall>j i. conversation_of s j = Some i \<longrightarrow> conversation_of s' j = Some i)"
proof -
  let ?i = "new_conversation now (cv_next_pk s) ev"
  have i: "cn_pk ?i = cv_next_pk s" "cn_state ?i = St_Received" by (simp_all add: new_conversation_def)
  consider (fresh) "insert_conversation ?i s = Inr s'" "k = cv_next_pk s"
    | (known) j where "get_row cn_key (instance_key_of ev) (cv_instances s) = Some j" "k = cn_pk j" "s' = s"
    using assms(2) by (auto simp: create_or_recover_def split: sum.splits option.splits)
  then show ?thesis
  proof cases
    case fresh
    note r = insert_consistent [OF assms(1) i fresh(1)]
    show ?thesis using r i(1) fresh(2) by (auto simp: conversation_of_def get_row_append)
  next
    case (known j)
    have "j \<in> set (cv_instances s)" using known(1) by (rule get_row_mem)
    then show ?thesis using known(2,3) assms(1) conversation_of_unique [OF consistentD(2) [OF assms(1)]] by simp
  qed
qed

lemma get_or_create_instance_consistent:
  assumes "consistent s" and "get_or_create_instance now ev s = Inr (s', k, new)"
  shows "consistent s' \<and> conversation_of s' k \<noteq> None \<and> cv_events s' = cv_events s \<and> cv_cycles s' = cv_cycles s"
proof -
  have mem: "conversation_of s (cn_pk i) \<noteq> None" if "i \<in> set (cv_instances s)" "consistent s" for s i
    using conversation_of_unique [OF consistentD(2) [OF that(2)] that(1)] by simp
  have thread: "i \<in> set (cv_instances s)" if "find_by_thread t s = Some i" for t i s
    using that first_by_Some by (fastforce simp: find_by_thread_def)
  have found: "i \<in> set (cv_instances s)" if "find_conversation_instance None t s = Some i" for t i
    using that by (rule find_conversation_instance_mem)
  consider (threaded) s1 f where "promote_or_get_thread_instance now (ne_ticket ev) (opt_text (ne_thread ev)) s = Inr (s1, f)"
      "f = Some k \<and> s' = s1 \<or> (\<exists>i. find_by_thread (opt_text (ne_thread ev)) s1 = Some i \<and> k = cn_pk i \<and> s' = s1) \<or>
       create_or_recover now ev s1 = Inr (s', k, new)"
    | (ticket) i where "find_conversation_instance None (ne_ticket ev) s = Some i" "k = cn_pk i" "s' = s"
    | (fresh) "create_or_recover now ev s = Inr (s', k, new)"
    using assms(2) unfolding get_or_create_instance_def
    by (auto split: if_splits option.splits elim!: and_then_InrE)
  then show ?thesis
  proof cases
    case (threaded s1 f)
    have p: "consistent s1" "cv_events s1 = cv_events s" "cv_cycles s1 = cv_cycles s" "\<And>j. f = Some j \<Longrightarrow> conversation_of s1 j \<noteq> None"
      using promote_consistent [OF assms(1) threaded(1)] by (auto simp: same_ledger_def)
    from threaded(2) show ?thesis
    proof (elim disjE exE conjE)
      assume "f = Some k" "s' = s1"
      then show ?thesis using p by blast
    next
      fix i
      assume "find_by_thread (opt_text (ne_thread ev)) s1 = Some i" "k = cn_pk i" "s' = s1"
      then show ?thesis using p mem [OF thread p(1)] by blast
    next
      assume "create_or_recover now ev s1 = Inr (s', k, new)"
      then show ?thesis using create_or_recover_consistent [OF p(1)] p(2,3) by metis
    qed
  next
    case (ticket i)
    then show ?thesis using assms(1) mem [OF found assms(1)] by blast
  next
    case fresh
    then show ?thesis using create_or_recover_consistent [OF assms(1)] by blast
  qed
qed

lemma close_each_consistent:
  assumes "consistent s" and "close_each now why event occurred is s = Inr s'"
  shows "consistent s' \<and> map cn_pk (cv_instances s') = map cn_pk (cv_instances s) \<and> cv_events s' = cv_events s"
  using assms
proof (induction "is" arbitrary: s)
  case Nil
  then show ?case by simp
next
  case (Cons i "is")
  show ?case
  proof (cases "cn_state i = St_Closed")
    case True
    then show ?thesis using Cons by simp
  next
    case False
    then obtain s1 where s1: "transition now (cn_pk i) (converge_move why event occurred (cn_state i)) s = Inr s1"
      "close_each now why event occurred is s1 = Inr s'"
      using Cons.prems(2) by (auto elim!: and_then_InrE)
    show ?thesis
      using Cons.IH [OF transition_consistent [OF Cons.prems(1) s1(1)] s1(2)] transition_rows [OF Cons.prems(1) s1(1)] by simp
  qed
qed

lemma close_all_consistent:
  assumes "consistent s" and "close_all_ticket_instances now ticket primary event why occurred s = Inr (s', found)"
  shows "consistent s' \<and> map cn_pk (cv_instances s') = map cn_pk (cv_instances s) \<and> cv_events s' = cv_events s"
proof -
  obtain rows where "close_each now why event occurred rows s = Inr s'"
    using assms(2) unfolding close_all_ticket_instances_def Let_def by (elim and_then_InrE) auto
  then show ?thesis by (rule close_each_consistent [OF assms(1)])
qed

lemma advance_cursors_consistent:
  assumes "consistent s"
  shows "consistent (advance_cursors ticket t s)"
proof -
  let ?P = "\<lambda>i. cn_ticket i = Some ticket \<and> (case cn_cursor i of None \<Rightarrow> True | Some c \<Rightarrow> c < t)"
  let ?f = "\<lambda>i. if ?P i then i\<lparr>cn_cursor := Some t\<rparr> else i"
  let ?s = "advance_cursors ticket t s"
  have rows: "cv_instances ?s = map ?f (cv_instances s)" by (simp add: advance_cursors_def update_rows_def)
  have get: "conversation_of ?s k = map_option ?f (conversation_of s k)" for k
    by (simp add: advance_cursors_def conversation_of_def get_row_update_rows)
  have f: "cn_pk (?f i) = cn_pk i" "cn_key (?f i) = cn_key i" "cn_thread (?f i) = cn_thread i" "cn_state (?f i) = cn_state i" for i
    by simp_all
  have keep: "cv_cycles ?s = cv_cycles s" "cv_next_pk ?s = cv_next_pk s" "cycles_of ?s = cycles_of s"
    by (simp_all add: advance_cursors_def cycles_of_def fun_eq_iff)
  note d = identifiedD [OF consistentD(2) [OF assms]]
  have "identified ?s"
    unfolding identified_def
  proof (intro conjI ballI impI)
    show "distinct (map cn_pk (cv_instances ?s))" using d(1) by (simp add: rows comp_def f(1) del: if_split)
    fix i
    assume "i \<in> set (cv_instances ?s)"
    then obtain i0 where i0: "i0 \<in> set (cv_instances s)" "i = ?f i0" by (auto simp: rows simp del: if_split)
    show "cn_pk i < cv_next_pk ?s" unfolding keep i0(2) f by (rule d(2) [OF i0(1)])
    fix j
    assume "j \<in> set (cv_instances ?s)" and n: "cn_pk i \<noteq> cn_pk j"
    then obtain j0 where j0: "j0 \<in> set (cv_instances s)" "j = ?f j0" by (auto simp: rows simp del: if_split)
    have "\<not> instance_clash i0 j0" by (rule d(3) [OF i0(1) j0(1)]) (use n in \<open>simp only: i0(2) j0(2) f not_False_eq_True\<close>)
    then show "\<not> instance_clash i j" unfolding instance_clash_def i0(2) j0(2) f .
  next
    fix c
    assume "c \<in> set (cv_cycles ?s)"
    then show "conversation_of ?s (sc_instance c) \<noteq> None" using d(4) by (simp add: get keep)
  qed
  moreover have "settled ?s"
    unfolding settled_def
  proof (intro allI impI)
    fix k i
    assume a: "conversation_of ?s k = Some i \<and> is_terminal (cn_state i) \<and> \<not> is_superseded i"
    then obtain i0 where i0: "conversation_of s k = Some i0" "i = ?f i0" by (auto simp: get simp del: if_split)
    have "is_terminal (cn_state i0)" "\<not> is_superseded i0" using a unfolding is_superseded_def i0(2) f by blast+
    then show "\<forall>c \<in> set (cycles_of ?s k). sc_status c = Cycle_Closed"
      using settledD [OF consistentD(3) [OF assms] i0(1)] by (simp add: keep del: in_cycles_of)
  qed
  moreover have "well_numbered ?s" by (rule well_numbered_cong [OF consistentD(1) [OF assms]]) (simp_all add: keep)
  ultimately show ?thesis by (simp add: consistent_def)
qed

lemma close_ticket_instances_consistent:
  assumes "consistent s" and "close_ticket_instances now ticket why event occurred s = Inr (s', found)"
  shows "consistent s'"
proof -
  obtain s1 b where s1: "close_all_ticket_instances now ticket None event why occurred s = Inr (s1, b)"
    and s': "s' = s1 \<or> (\<exists>t. s' = advance_cursors ticket t s1)"
  proof -
    obtain s1 b where "close_all_ticket_instances now ticket None event why occurred s = Inr (s1, b)"
      "s' = s1 \<or> (\<exists>t. s' = advance_cursors ticket t s1)"
      using assms(2) unfolding close_ticket_instances_def Let_def
      by (elim and_then_InrE) (fastforce split: if_splits option.splits)
    then show thesis by (rule that)
  qed
  have "consistent s1" using close_all_consistent [OF assms(1) s1] by blast
  then show ?thesis using s' advance_cursors_consistent by blast
qed

lemma append_event_facts:
  assumes "append_event k ev s = (s', e, created)"
  shows "cv_instances s' = cv_instances s" "cv_cycles s' = cv_cycles s" "cv_moves s' = cv_moves s" "cv_next_pk s \<le> cv_next_pk s'"
  using assms by (auto simp: append_event_def Let_def split: option.splits)

lemma link_event_simps [simp]:
  "cv_instances (link_event e c s) = cv_instances s" "cv_cycles (link_event e c s) = cv_cycles s"
  "cv_next_pk (link_event e c s) = cv_next_pk s" "map ev_key (cv_events (link_event e c s)) = map ev_key (cv_events s)"
  by (simp_all add: link_event_def)

lemma project_event_consistent:
  assumes "consistent s" and "conversation_of s k \<noteq> None" and "project_event cfg now ev dec new k e s = Inr s'"
  shows "consistent s' \<and> map ev_key (cv_events s') = map ev_key (cv_events s)"
proof -
  let ?keeps = "\<lambda>a b. consistent b \<and> map cn_pk (cv_instances b) = map cn_pk (cv_instances a) \<and> cv_events b = cv_events a"
  have tr: "?keeps a b" if "consistent a" "transition now k m a = Inr b" for a b m
    using transition_consistent [OF that] transition_rows [OF that] by blast
  from assms(3) obtain s1 s2 s3 b s4 c where
    1: "(if state_of s k = St_Received
         then transition now k (plain_move St_Normalized ''External event normalized.'' (ne_source_event ev)) s else Inr s) = Inr s1"
    and 2: "(case event_move ev dec (defers_close cfg ev dec) new (state_of s1 k) of None \<Rightarrow> Inr s1 | Some m \<Rightarrow> transition now k m s1) = Inr s2"
    and 3: "(if rd_route dec = R_Close \<and> opt_truthy (ne_ticket ev) \<and> \<not> defers_close cfg ev dec
         then close_all_ticket_instances now (opt_text (ne_ticket ev)) (Some k) (ne_source_event ev) converge_reason None s2
         else Inr (s2, False)) = Inr (s3, b)"
    and 4: "ensure_current_service_cycle now k s3 = Inr (s4, c)" "s' = link_event e (sc_pk c) s4"
    unfolding project_event_def Let_def by (elim and_then_InrE) (auto elim!: and_then_InrE)
  have k1: "?keeps s s1" using 1 assms(1) tr by (auto split: if_splits)
  have k2: "?keeps s1 s2" using 2 k1 tr by (auto split: option.splits)
  have k3: "?keeps s2 s3" using 3 k2 close_all_consistent by (auto split: if_splits)
  obtain i where i: "conversation_of s3 k = Some i"
    using assms(2) k1 k2 k3 conversation_exists [of s k] conversation_exists [of s3 k] by auto
  have "consistent s3" using k3 by blast
  then obtain s5 d where e: "ensure_current_service_cycle now k s3 = Inr (s5, d)" "consistent s5" "same_rest s3 s5"
    using ensure_consistent [OF _ i, of now] by metis
  then have "s5 = s4" "d = c" using 4(1) by simp_all
  then have "consistent s'" unfolding 4(2) using e(2) by (auto intro: consistent_cong)
  moreover have "map ev_key (cv_events s') = map ev_key (cv_events s)"
    unfolding 4(2) using k1 k2 k3 e(3) \<open>s5 = s4\<close> by (simp add: same_rest_def)
  ultimately show ?thesis by blast
qed

text \<open>The stages of a successful recording.\<close>

lemma record_parts:
  assumes "consistent s" and "record_normalized_event cfg now ev dec s = Inr (s', r)"
  obtains s1 k new i s2 s3 e created where "get_or_create_instance now ev s = Inr (s1, k, new)"
    "consistent s1" "conversation_of s1 k = Some i" "cv_events s1 = cv_events s"
    "s2 = (if \<not> is_stale_provider_event i ev \<and> \<not> defers_close cfg ev dec
           then put_conversation (refresh_instance_snapshot now ev i) s1 else s1)"
    "consistent s2" "append_event k ev s2 = (s3, e, created)" "consistent s3" "conversation_of s3 k \<noteq> None"
    "(if created \<and> \<not> is_stale_provider_event i ev then project_event cfg now ev dec new k (ev_pk e) s3 else Inr s3) = Inr s'"
    "r = \<lparr>er_instance = k, er_event = ev_pk e, er_created = created, er_stale = is_stale_provider_event i ev,
            er_policy = effect_ordering_policy cfg ev dec\<rparr>"
proof -
  from assms(2) obtain s1 k new where g: "get_or_create_instance now ev s = Inr (s1, k, new)"
    and rest: "(case conversation_of s1 k of
         None \<Rightarrow> Inl DoesNotExist
       | Some i \<Rightarrow>
           (let stale = is_stale_provider_event i ev;
                s2 = (if \<not> stale \<and> \<not> defers_close cfg ev dec
                      then put_conversation (refresh_instance_snapshot now ev i) s1 else s1);
                (s3, e, created) = append_event k ev s2
            in and_then (if created \<and> \<not> stale then project_event cfg now ev dec new k (ev_pk e) s3 else Inr s3)
                 (\<lambda>s4. Inr (s4, \<lparr>er_instance = k, er_event = ev_pk e, er_created = created, er_stale = stale,
                    er_policy = effect_ordering_policy cfg ev dec\<rparr>)))) = Inr (s', r)"
    unfolding record_normalized_event_def by (elim and_then_InrE) auto
  have s1: "consistent s1" "conversation_of s1 k \<noteq> None" "cv_events s1 = cv_events s"
    using get_or_create_instance_consistent [OF assms(1) g] by blast+
  then obtain i where i: "conversation_of s1 k = Some i" by auto
  define s2 where s2_def: "s2 = (if \<not> is_stale_provider_event i ev \<and> \<not> defers_close cfg ev dec
      then put_conversation (refresh_instance_snapshot now ev i) s1 else s1)"
  have s2: "consistent s2"
    unfolding s2_def
    by (auto intro!: consistent_put [OF s1(1) i] s1(1) conversation_of_pk [OF i] simp: refresh_instance_snapshot_def)
  have ex2: "conversation_of s2 k \<noteq> None" using i by (auto simp: s2_def conversation_of_put)
  obtain s3 e created where a: "append_event k ev s2 = (s3, e, created)" by (metis prod_cases3)
  have s3: "consistent s3" by (rule consistent_cong [OF s2]) (use append_event_facts [OF a] in simp_all)
  have ex3: "conversation_of s3 k \<noteq> None" using ex2 append_event_facts(1) [OF a] by (simp add: conversation_of_def)
  show thesis
    by (rule that [OF g s1(1) i s1(3) s2_def s2 a s3 ex3])
      (use rest i a in \<open>auto simp: s2_def [symmetric] Let_def elim!: and_then_InrE\<close>)
qed

lemma record_consistent:
  assumes "consistent s" and "record_normalized_event cfg now ev dec s = Inr (s', r)"
  shows "consistent s'"
proof (rule record_parts [OF assms])
  fix s3 i created new k e
  assume s3: "consistent s3" "conversation_of s3 k \<noteq> None"
    and run: "(if created \<and> \<not> is_stale_provider_event i ev then project_event cfg now ev dec new k (ev_pk e) s3 else Inr s3) = Inr s'"
  show ?thesis using run s3(1) project_event_consistent [OF s3] by (auto split: if_splits)
qed

section \<open>The ledger of events\<close>

interpretation event_ledger: unique_ledger cv_events ev_key "\<lambda>(k, ev). ne_key ev"
  "\<lambda>(k, ev) s. case append_event k ev s of (s', e, _) \<Rightarrow> (s', e)"
proof unfold_locales
  fix q :: "uuid \<times> normalized_event" and s :: conv and r
  assume a: "distinct (map ev_key (cv_events s))" "r \<in> set (cv_events s)" "ev_key r = (case q of (k, ev) \<Rightarrow> ne_key ev)"
  obtain k ev where q: "q = (k, ev)" by (cases q)
  have "get_row ev_key (ne_key ev) (cv_events s) = Some r"
    using get_row_distinct [OF a(1,2)] a(3) q by simp
  then show "(case q of (k, ev) \<Rightarrow> \<lambda>s. case append_event k ev s of (s', e, _) \<Rightarrow> (s', e)) s = (s, r)"
    by (simp add: q append_event_def)
next
  fix s :: conv and q :: "uuid \<times> normalized_event"
  assume a: "\<And>r. r \<in> set (cv_events s) \<Longrightarrow> ev_key r \<noteq> (case q of (k, ev) \<Rightarrow> ne_key ev)"
  obtain k ev where q: "q = (k, ev)" by (cases q)
  have "get_row ev_key (ne_key ev) (cv_events s) = None" using a by (simp add: q get_row_None)
  then show "ev_key (snd ((case q of (k, ev) \<Rightarrow> \<lambda>s. case append_event k ev s of (s', e, _) \<Rightarrow> (s', e)) s)) =
        (case q of (k, ev) \<Rightarrow> ne_key ev) \<and>
      cv_events (fst ((case q of (k, ev) \<Rightarrow> \<lambda>s. case append_event k ev s of (s', e, _) \<Rightarrow> (s', e)) s)) =
        cv_events s @ [snd ((case q of (k, ev) \<Rightarrow> \<lambda>s. case append_event k ev s of (s', e, _) \<Rightarrow> (s', e)) s)]"
    by (simp add: q append_event_def Let_def)
qed

lemma append_event_known:
  assumes "ne_key ev \<in> ev_key ` set (cv_events s)"
  obtains e where "append_event k ev s = (s, e, False)" "e \<in> set (cv_events s)" "ev_key e = ne_key ev"
proof -
  obtain e where e: "get_row ev_key (ne_key ev) (cv_events s) = Some e"
    using assms by (cases "get_row ev_key (ne_key ev) (cv_events s)") (auto simp: get_row_None)
  then show thesis using that get_row_Some_in by (fastforce simp: append_event_def)
qed

text \<open>A recorded event keeps its key distinct from the others.\<close>

lemma record_event_keys:
  assumes "consistent s" and "distinct (map ev_key (cv_events s))" and "record_normalized_event cfg now ev dec s = Inr (s', r)"
  shows "distinct (map ev_key (cv_events s')) \<and> ev_key ` set (cv_events s') = insert (ne_key ev) (ev_key ` set (cv_events s))"
proof (rule record_parts [OF assms(1,3)])
  fix s1 k new i s2 s3 e created
  assume e1: "cv_events s1 = cv_events s"
    and s2: "s2 = (if \<not> is_stale_provider_event i ev \<and> \<not> defers_close cfg ev dec
           then put_conversation (refresh_instance_snapshot now ev i) s1 else s1)"
    and a: "append_event k ev s2 = (s3, e, created)" and s3: "consistent s3" "conversation_of s3 k \<noteq> None"
    and run: "(if created \<and> \<not> is_stale_provider_event i ev then project_event cfg now ev dec new k (ev_pk e) s3 else Inr s3) = Inr s'"
  have e2: "cv_events s2 = cv_events s" using e1 by (simp add: s2)
  have keys: "map ev_key (cv_events s') = map ev_key (cv_events s3)"
    using run project_event_consistent [OF s3] by (auto split: if_splits)
  have s3': "s3 = fst ((\<lambda>(k, ev) s. case append_event k ev s of (s', e, _) \<Rightarrow> (s', e)) (k, ev) s2)" by (simp add: a)
  have d2: "distinct (map ev_key (cv_events s2))" using assms(2) e2 by simp
  have "distinct (map ev_key (cv_events s3))" unfolding s3' by (rule event_ledger.add_distinct [OF d2])
  moreover have "ev_key ` set (cv_events s3) = insert (ne_key ev) (ev_key ` set (cv_events s))"
    unfolding s3' by (rule event_ledger.add_cases [OF d2, of "(k, ev)"]) (force simp: e2)+
  ultimately show ?thesis using keys by (metis set_map)
qed

section \<open>Histories\<close>

text \<open>A committed operation of the engine; a failed one is rolled back and changes nothing.\<close>

inductive lifecycle_step :: "settings \<Rightarrow> conv \<Rightarrow> conv \<Rightarrow> bool" for cfg where
  recorded: "record_lifecycle_for_webhook_event cfg now wv s = Inr (s', r) \<Longrightarrow> lifecycle_step cfg s s'"
| moved: "transition now k m s = Inr s' \<Longrightarrow> lifecycle_step cfg s s'"
| closed: "close_ticket_instances now ticket why event occurred s = Inr (s', found) \<Longrightarrow> lifecycle_step cfg s s'"
| superseded: "supersede_placeholder_if_canonical_exists now k s = Inr (s', canonical) \<Longrightarrow> lifecycle_step cfg s s'"
| promoted: "promote_or_get_thread_instance now ticket thread s = Inr (s', canonical) \<Longrightarrow> lifecycle_step cfg s s'"
| inspected: "service_cycle_context now k s = Inr (s', ctx) \<Longrightarrow> lifecycle_step cfg s s'"
| processed: "lifecycle_step cfg s (mark_event_processed now e s)"
| failed: "lifecycle_step cfg s (mark_event_failed why e s)"

definition empty_conv :: conv where
  "empty_conv = \<lparr>cv_instances = [], cv_cycles = [], cv_events = [], cv_moves = [], cv_next_pk = 0\<rparr>"

lemma empty_consistent: "consistent empty_conv"
  by (simp add: consistent_def well_numbered_def identified_def settled_def empty_conv_def cycles_of_def conversation_of_def)

lemma step_consistent: "lifecycle_step cfg s s' \<Longrightarrow> consistent s \<Longrightarrow> consistent s'"
proof (induction rule: lifecycle_step.induct)
  case (recorded now wv s s' r)
  then obtain ev where "record_normalized_event cfg now ev (route_event ev) s = Inr (s', r)"
    unfolding record_lifecycle_for_webhook_event_def by (elim and_then_InrE)
  then show ?case by (rule record_consistent [OF recorded.prems])
next
  case (moved now k m s s')
  then show ?case using transition_consistent by blast
next
  case (closed now ticket why event occurred s s' found)
  then show ?case using close_ticket_instances_consistent by blast
next
  case (superseded now k s s' canonical)
  then show ?case using supersede_if_canonical_consistent by blast
next
  case (promoted now ticket thread s s' canonical)
  then show ?case using promote_consistent by blast
next
  case (inspected now k s s' ctx)
  then obtain c where c: "ensure_current_service_cycle now k s = Inr (s', c)"
    by (auto simp: service_cycle_context_def split: sum.splits)
  then obtain i where "conversation_of s k = Some i" by (auto simp: ensure_current_service_cycle_def split: option.splits)
  then show ?case using ensure_consistent [OF inspected.prems, of k i now] c by (metis Pair_inject sum.inject(2))
next
  case (processed s now e)
  then show ?case by (rule consistent_cong) (simp_all add: mark_event_processed_def)
next
  case (failed s why e)
  then show ?case by (rule consistent_cong) (simp_all add: mark_event_failed_def)
qed

lemma history_consistent: "(lifecycle_step cfg)\<^sup>*\<^sup>* empty_conv s \<Longrightarrow> consistent s"
  by (induction rule: rtranclp_induct) (simp_all add: empty_consistent step_consistent)

text \<open>C12: in every history of the engine the attendances of a conversation are numbered from one
  without gaps, only the last of them can be open, none is open while the conversation is in a
  terminal state (a superseded placeholder excepted), and no two conversations share an
  idempotency key or a thread.\<close>

theorem conversation_history_invariant:
  assumes "(lifecycle_step cfg)\<^sup>*\<^sup>* empty_conv s"
  shows "map sc_seq (cycles_of s k) = [1..<Suc (length (cycles_of s k))] \<and>
    (\<forall>c \<in> set (butlast (cycles_of s k)). sc_status c = Cycle_Closed) \<and>
    (\<forall>i c. conversation_of s k = Some i \<and> is_terminal (cn_state i) \<and> \<not> is_superseded i \<and> open_service_cycle s k = Some c \<longrightarrow> False) \<and>
    (\<forall>i \<in> set (cv_instances s). \<forall>j \<in> set (cv_instances s). cn_pk i \<noteq> cn_pk j \<longrightarrow> \<not> instance_clash i j)"
proof -
  have c: "consistent s" by (rule history_consistent [OF assms])
  have "False" if "conversation_of s k = Some i" "is_terminal (cn_state i)" "\<not> is_superseded i" "open_service_cycle s k = Some c" for i c
  proof -
    have "c \<in> set (cycles_of s k)" "sc_status c = Cycle_Open"
      using first_by_Some [OF that(4) [unfolded open_service_cycle_def]] by simp_all
    then show False using settledD [OF consistentD(3) [OF c] that(1-3)] by force
  qed
  then show ?thesis
    using well_numberedD(3,4) [OF consistentD(1) [OF c]] identifiedD(3) [OF consistentD(2) [OF c]] by blast
qed

section \<open>Transitions\<close>

lemma current_cycle_split: "current_cycle s k = Some c \<Longrightarrow> cycles_of s k = butlast (cycles_of s k) @ [c]"
  by (auto simp: current_cycle_def split: if_splits)

lemma close_moves: "close_current_service_cycle now k why occurred s = Inr (s', d) \<Longrightarrow> cv_moves s' = cv_moves s"
  by (auto simp: close_current_service_cycle_def ensure_current_service_cycle_def bootstrap_legacy_cycle_def create_cycle_def
      put_service_cycle_def Let_def split: option.splits if_splits sum.splits)

text \<open>Closing the current attendance of a terminal conversation writes that attendance.\<close>

definition closed_attendance :: "instant \<Rightarrow> string \<Rightarrow> instant option \<Rightarrow> service_cycle \<Rightarrow> service_cycle" where
  "closed_attendance now why occurred c = (if sc_status c = Cycle_Closed then c
     else c\<lparr>sc_status := Cycle_Closed, sc_closed_at := Some (case occurred of None \<Rightarrow> now | Some t \<Rightarrow> t), sc_closed_reason := why\<rparr>)"

lemma close_current_writes:
  assumes "well_numbered s" and "conversation_of s k = Some i" and "is_terminal (cn_state i)" and "current_cycle s k = Some c"
    and "close_current_service_cycle now k why occurred s = Inr (s', d)"
  shows "d = closed_attendance now why occurred c" "cycles_of s' k = butlast (cycles_of s k) @ [d]"
proof -
  have n: "cycles_of s k \<noteq> []" "c = last (cycles_of s k)" using assms(4) by (simp_all add: current_cycle_def split: if_splits)
  then have split: "cycles_of s k = butlast (cycles_of s k) @ [c]" by simp
  have c: "sc_instance c = k" using last_in_set [OF n(1)] n(2) by simp
  have "d = closed_attendance now why occurred c \<and> cycles_of s' k = butlast (cycles_of s k) @ [d]"
  proof (cases "sc_status c")
    case Cycle_Open
    let ?c = "c\<lparr>sc_status := Cycle_Closed, sc_closed_at := Some (case occurred of None \<Rightarrow> now | Some t \<Rightarrow> t), sc_closed_reason := why\<rparr>"
    have "open_service_cycle s k = Some c" using n Cycle_Open by (simp add: open_service_cycle_eq [OF assms(1)])
    then have "close_current_service_cycle now k why occurred s = Inr (put_service_cycle ?c s, ?c)"
      using assms(2) Cycle_Open by (simp add: close_current_service_cycle_def Let_def)
    then have e: "put_service_cycle ?c s = s'" "?c = d" unfolding assms(5) by (metis Pair_inject sum.inject(2))+
    have "cycles_of (put_service_cycle ?c s) k = butlast (cycles_of s k) @ [?c]"
      using put_last_cycle(2) [OF assms(1) n, of ?c] c by simp
    then have "cycles_of s' k = butlast (cycles_of s k) @ [d]" unfolding e(2) e(1) [unfolded e(2)] .
    moreover have "d = closed_attendance now why occurred c" using Cycle_Open by (simp add: closed_attendance_def e(2) [symmetric])
    ultimately show ?thesis by blast
  next
    case Cycle_Closed
    have "open_service_cycle s k = None" using n Cycle_Closed by (simp add: open_service_cycle_eq [OF assms(1)])
    moreover have "latest_service_cycle s k = Some c" using n by (simp add: latest_service_cycle_eq [OF assms(1)])
    ultimately have "s' = s" "d = c"
      using assms(2,3,5) Cycle_Closed by (simp_all add: close_current_service_cycle_def ensure_current_service_cycle_def)
    then show ?thesis using split Cycle_Closed by (simp add: closed_attendance_def)
  qed
  then show "d = closed_attendance now why occurred c" "cycles_of s' k = butlast (cycles_of s k) @ [d]" by blast+
qed

text \<open>The attendance a transition works on, and what it leaves of it.\<close>

lemma transition_attendance:
  assumes "consistent s" and "conversation_of s k = Some i" and "cn_state i \<noteq> mv_to m"
    and "validate_transition (cn_state i) (mv_to m) (mv_reopen m) (mv_queue_entry m) = Inr ()"
    and "transition now k m s = Inr s'"
  obtains s1 c d where "(if reopens (cn_state i) m then reopen_service_cycle now k (cn_state i) (mv_reason m) (mv_event m) s
      else ensure_current_service_cycle now k s) = Inr (s1, c)" "well_numbered s1" "current_cycle s1 k = Some c"
    "cv_moves s' = cv_moves s @ [audit_row k (Some (sc_pk d)) (cn_state i) m]" "current_cycle s' k = Some d"
    "d = (if is_terminal (mv_to m) then closed_attendance now (mv_reason m) (mv_occurred m) c else c)"
    "cycles_of s' k = butlast (cycles_of s1 k) @ [d]"
proof -
  have k: "cn_pk i = k" by (rule conversation_of_pk [OF assms(2)])
  obtain s1 c where a: "(if reopens (cn_state i) m then reopen_service_cycle now k (cn_state i) (mv_reason m) (mv_event m) s
      else ensure_current_service_cycle now k s) = Inr (s1, c)"
    "well_numbered s1" "same_rest s s1" "current_cycle s1 k = Some c"
    by (rule transition_cycle [OF consistentD(1) [OF assms(1)] assms(2), of m now "mv_reason m" "mv_event m"]) (rule that)
  let ?x = "moved_conversation now m i"
  let ?s2 = "put_conversation ?x s1"
  let ?s3 = "?s2\<lparr>cv_moves := cv_moves ?s2 @ [audit_row k (Some (sc_pk c)) (cn_state i) m]\<rparr>"
  have c1: "conversation_of s1 k = Some i" using assms(2) by (simp add: same_rest_conversation [OF a(3)])
  have w3: "well_numbered ?s3" by (rule well_numbered_cong [OF a(2)]) simp_all
  have c3: "conversation_of ?s3 k = Some ?x" using c1 k by (simp add: conversation_of_put)
  have cyc: "cycles_of ?s3 = cycles_of s1" by simp
  have cur: "current_cycle ?s3 k = Some c" using a(4) unfolding current_cycle_def cyc .
  note n = current_cycle_split [OF a(4)]
  have moves: "cv_moves ?s3 = cv_moves s @ [audit_row k (Some (sc_pk c)) (cn_state i) m]"
    using a(3) by (simp_all add: same_rest_def)
  have run: "transition now k m s = (if is_terminal (mv_to m) then
      and_then (close_current_service_cycle now k (mv_reason m) (mv_occurred m) ?s3) (\<lambda>(s4, _). Inr s4) else Inr ?s3)"
    using assms(2-4) a(1) by (simp add: transition_def Let_def)
  show thesis
  proof (cases "is_terminal (mv_to m)")
    case False
    then have "s' = ?s3" using run assms(5) by simp
    then show thesis using that [OF a(1,2,4), of c] moves cur cyc n False by simp
  next
    case True
    then have "and_then (close_current_service_cycle now k (mv_reason m) (mv_occurred m) ?s3) (\<lambda>(s4, _). Inr s4) = Inr s'"
      using run assms(5) by argo
    then obtain d where e: "close_current_service_cycle now k (mv_reason m) (mv_occurred m) ?s3 = Inr (s', d)"
      by (auto simp only: and_then_Inr_iff split_beta sum.inject fst_conv)
    have "is_terminal (cn_state ?x)" using True by (simp add: moved_conversation_def)
    note w = close_current_writes [OF w3 c3 this cur e]
    have "sc_pk d = sc_pk c" by (simp add: w(1) closed_attendance_def)
    moreover have "cv_moves s' = cv_moves ?s3" by (rule close_moves [OF e])
    moreover have "current_cycle s' k = Some d" using w(2) by (simp add: current_cycle_def)
    ultimately show thesis using that [OF a(1,2,4), of d] moves w cyc True by simp
  qed
qed

lemma ensure_open_attendance:
  assumes "well_numbered s" and "conversation_of s k = Some i" and "open_service_cycle s k = Some c"
  shows "ensure_current_service_cycle now k s = Inr (s, c)"
  using assms(2,3) by (simp add: ensure_current_service_cycle_def)

lemma reopen_attendance:
  assumes "well_numbered s" and "conversation_of s k = Some i" and "cycles_of s k \<noteq> []" and "open_service_cycle s k = None"
    and "reopen_service_cycle now k st why event s = Inr (s1, c)"
  shows "cycles_of s1 k = cycles_of s k @ [c]" "sc_from c = Some st" "sc_reason c = why" "sc_event c = event" "sc_opened_at c = now"
    "sc_closed_at c = None" "sc_source c = Verified_Reopen (sc_pk (last (cycles_of s k)))"
proof -
  have l: "latest_service_cycle s k = Some (last (cycles_of s k))" using assms(3) by (simp add: latest_service_cycle_eq [OF assms(1)])
  let ?c = "(blank_cycle k (Suc (sc_seq (last (cycles_of s k)))) Cycle_Open now)
      \<lparr>sc_from := Some st, sc_reason := why, sc_event := event, sc_source := Verified_Reopen (sc_pk (last (cycles_of s k)))\<rparr>"
  have "create_cycle ?c s = Inr (s1, c)" using assms(2,4,5) l by (simp add: reopen_service_cycle_def Let_def)
  then have "c = ?c\<lparr>sc_pk := cv_next_pk s\<rparr>" "cv_cycles s1 = cv_cycles s @ [c]"
    by (auto simp: create_cycle_def Let_def split: if_splits)
  then show "cycles_of s1 k = cycles_of s k @ [c]" "sc_from c = Some st" "sc_reason c = why" "sc_event c = event" "sc_opened_at c = now"
    "sc_closed_at c = None" "sc_source c = Verified_Reopen (sc_pk (last (cycles_of s k)))"
    by (simp_all add: cycles_of_def blank_cycle_def)
qed

text \<open>C13: an admissible transition always commits, with exactly this effect.  The row moves to the target with the
  next version; its closing time is set by the first move to \<open>CLOSED\<close> (the time the move occurred, or now), cleared by a
  reopening and kept otherwise, and only a reopening clears the assigned agent.  One audit row is appended, on the
  attendance that is current afterwards.  An open attendance stays as it is under a move that is not terminal and is
  closed, with the time and the reason, by a terminal one; a reopening of a conversation whose attendances are closed
  appends one, opened now with the reason, and leaves the others; in every case the number of attendances grows only by
  a reopening, by the adoption of a conversation without one, or by the recovery of an open conversation whose last
  attendance is closed.  Nothing else changes.\<close>

theorem transition_effect:
  assumes "consistent s" and "conversation_of s k = Some i" and "cn_state i \<noteq> mv_to m"
    and "validate_transition (cn_state i) (mv_to m) (mv_reopen m) (mv_queue_entry m) = Inr ()"
  shows "\<exists>s' d. transition now k m s = Inr s' \<and> consistent s' \<and>
    conversation_of s' k = Some (i\<lparr>cn_state := mv_to m, cn_version := Suc (cn_version i), cn_activity_at := Some now,
      cn_closed_at := (if mv_to m = St_Closed then (case cn_closed_at i of Some t \<Rightarrow> Some t
          | None \<Rightarrow> Some (case mv_occurred m of None \<Rightarrow> now | Some t \<Rightarrow> t))
        else if reopens (cn_state i) m then None else cn_closed_at i),
      cn_assigned := (if reopens (cn_state i) m then None else cn_assigned i)\<rparr>) \<and>
    (\<forall>j. j \<noteq> k \<longrightarrow> conversation_of s' j = conversation_of s j) \<and>
    cv_events s' = cv_events s \<and> cv_moves s' = cv_moves s @ [audit_row k (Some (sc_pk d)) (cn_state i) m] \<and>
    current_cycle s' k = Some d \<and> (sc_status d = Cycle_Open \<longleftrightarrow> \<not> is_terminal (mv_to m)) \<and>
    (\<forall>c. open_service_cycle s k = Some c \<and> \<not> reopens (cn_state i) m \<longrightarrow>
       cycles_of s' k = (if is_terminal (mv_to m) then butlast (cycles_of s k) @ [closed_attendance now (mv_reason m) (mv_occurred m) c]
         else cycles_of s k)) \<and>
    (reopens (cn_state i) m \<and> cycles_of s k \<noteq> [] \<and> open_service_cycle s k = None \<longrightarrow>
       cycles_of s' k = cycles_of s k @ [d] \<and> sc_from d = Some (cn_state i) \<and> sc_reason d = mv_reason m \<and>
       sc_event d = mv_event m \<and> sc_opened_at d = now \<and> sc_closed_at d = None) \<and>
    length (cycles_of s' k) = (if reopens (cn_state i) m then Suc (max 1 (length (cycles_of s k)))
       else if cycles_of s k = [] then 1
       else if \<not> is_terminal (cn_state i) \<and> sc_status (last (cycles_of s k)) = Cycle_Closed then Suc (length (cycles_of s k))
       else length (cycles_of s k)) \<and>
    (\<forall>j. j \<noteq> k \<longrightarrow> cycles_of s' j = cycles_of s j)"
proof (rule transition_ok [OF assms, of now])
  fix s' c d
  assume r: "transition now k m s = Inr s'" "consistent s'"
    "cv_instances s' = save_row cn_pk (moved_conversation now m i) (cv_instances s)" "cv_events s' = cv_events s"
    "cv_moves s' = cv_moves s @ [audit_row k (Some c) (cn_state i) m]" "current_cycle s' k = Some d"
    "sc_status d = (if is_terminal (mv_to m) then Cycle_Closed else Cycle_Open)" "cycles_of s' = (cycles_of s)(k := cycles_of s' k)"
    and len: "length (cycles_of s' k) = (if reopens (cn_state i) m then Suc (max 1 (length (cycles_of s k)))
       else if cycles_of s k = [] then 1
       else if \<not> is_terminal (cn_state i) \<and> sc_status (last (cycles_of s k)) = Cycle_Closed then Suc (length (cycles_of s k))
       else length (cycles_of s k))"
  let ?x = "moved_conversation now m i"
  have w: "well_numbered s" by (rule consistentD(1) [OF assms(1)])
  have k: "cn_pk i = k" by (rule conversation_of_pk [OF assms(2)])
  have rows: "conversation_of s' j = (if j = k then Some ?x else conversation_of s j)" for j
    using assms(2) k by (simp add: conversation_of_def r(3) get_row_save_row)
  have cyc: "cycles_of s' j = cycles_of s j" if "j \<noteq> k" for j using fun_cong [OF r(8), of j] that by simp
  have x: "?x = i\<lparr>cn_state := mv_to m, cn_version := Suc (cn_version i), cn_activity_at := Some now,
      cn_closed_at := (if mv_to m = St_Closed then (case cn_closed_at i of Some t \<Rightarrow> Some t
          | None \<Rightarrow> Some (case mv_occurred m of None \<Rightarrow> now | Some t \<Rightarrow> t))
        else if reopens (cn_state i) m then None else cn_closed_at i),
      cn_assigned := (if reopens (cn_state i) m then None else cn_assigned i)\<rparr>"
    by (cases "cn_closed_at i") (auto simp: moved_conversation_def reopens_def is_terminal_def terminal_states_def)
  have d: "sc_status d = Cycle_Open \<longleftrightarrow> \<not> is_terminal (mv_to m)" using r(7) by simp
  obtain s1 c' d' where t: "(if reopens (cn_state i) m then reopen_service_cycle now k (cn_state i) (mv_reason m) (mv_event m) s
      else ensure_current_service_cycle now k s) = Inr (s1, c')" "well_numbered s1" "current_cycle s1 k = Some c'"
    "cv_moves s' = cv_moves s @ [audit_row k (Some (sc_pk d')) (cn_state i) m]" "current_cycle s' k = Some d'"
    "d' = (if is_terminal (mv_to m) then closed_attendance now (mv_reason m) (mv_occurred m) c' else c')"
    "cycles_of s' k = butlast (cycles_of s1 k) @ [d']"
    by (rule transition_attendance [OF assms r(1)])
  have dd: "d' = d" using t(5) r(6) by simp
  have kept: "cycles_of s' k = (if is_terminal (mv_to m) then butlast (cycles_of s k) @ [closed_attendance now (mv_reason m) (mv_occurred m) c]
      else cycles_of s k)" if "open_service_cycle s k = Some c" "\<not> reopens (cn_state i) m" for c
  proof -
    have "s1 = s" "c' = c" using t(1) that ensure_open_attendance [OF w assms(2) that(1), of now] by simp_all
    then show ?thesis using current_cycle_split [OF t(3)] t(6,7) by (simp split: if_splits)
  qed
  have reopened: "cycles_of s' k = cycles_of s k @ [d] \<and> sc_from d = Some (cn_state i) \<and> sc_reason d = mv_reason m \<and>
       sc_event d = mv_event m \<and> sc_opened_at d = now \<and> sc_closed_at d = None"
    if "reopens (cn_state i) m" "cycles_of s k \<noteq> []" "open_service_cycle s k = None"
  proof -
    have "reopen_service_cycle now k (cn_state i) (mv_reason m) (mv_event m) s = Inr (s1, c')" using t(1) that(1) by simp
    note o = reopen_attendance [OF w assms(2) that(2,3) this]
    have "d = c'" using t(6) that(1) dd by (simp add: reopens_def)
    then show ?thesis using o t(7) dd by simp
  qed
  have "conversation_of s' k = Some ?x" "\<forall>j. j \<noteq> k \<longrightarrow> conversation_of s' j = conversation_of s j" using rows by simp_all
  then show ?thesis
    by (intro exI [of _ s'] exI [of _ d] conjI) (use r(1,2,4,6) t(4) [unfolded dd] cyc x d kept reopened len in \<open>simp_all only: simp_thms\<close>, auto)
qed

text \<open>Requests without the reopening flag form a checked state machine.\<close>

definition ordinary_request :: "move \<Rightarrow> conversation_state \<Rightarrow> conversation_state result" where
  "ordinary_request m st = and_then (validate_transition st (mv_to m) False (mv_queue_entry m)) (\<lambda>_. Inr (mv_to m))"

interpretation instance_machine: guarded_machine ordinary_request is_terminal
  by unfold_locales (simp add: ordinary_request_def validate_transition_def)

definition attempt_transition :: "instant \<times> uuid \<times> move \<Rightarrow> conv \<Rightarrow> conv" where
  "attempt_transition a s = (case a of (now, k, m) \<Rightarrow> (case transition now k m s of Inl _ \<Rightarrow> s | Inr s' \<Rightarrow> s'))"

lemma attempt_consistent: "consistent s \<Longrightarrow> consistent (attempt_transition a s)"
  by (auto simp: attempt_transition_def split: prod.splits sum.splits intro: transition_consistent)

lemma attempt_keeps_terminal:
  assumes "consistent s" and "conversation_of s k = Some i" and "is_terminal (cn_state i)" and "\<not> mv_reopen (snd (snd a))"
  shows "conversation_of (attempt_transition a s) k = Some i"
proof (cases "\<exists>s'. transition (fst a) (fst (snd a)) (snd (snd a)) s = Inr s'")
  case False
  then show ?thesis using assms(2) by (auto simp: attempt_transition_def split: prod.splits sum.splits)
next
  case True
  then obtain now j m s' where a: "a = (now, j, m)" "transition now j m s = Inr s'" by (cases a) auto
  have r: "attempt_transition a s = s'" using a by (simp add: attempt_transition_def)
  show ?thesis
    using transition_cases [OF assms(1) a(2)]
  proof cases
    case (1 x)
    then show ?thesis using assms(2) r by simp
  next
    case (2 x c)
    have "ordinary_request m (cn_state x) = Inr (mv_to m)" using 2(3) assms(4) a(1) by (simp add: ordinary_request_def)
    then have "\<not> is_terminal (cn_state x)" by (rule instance_machine.never_leaves_terminal)
    then have "j \<noteq> k" using 2(1) assms(2,3) by auto
    moreover have "cn_pk x = j" by (rule conversation_of_pk [OF 2(1)])
    ultimately show ?thesis using assms(2) 2(5) r by (simp add: conversation_of_def get_row_save_row)
  qed
qed

text \<open>No sequence of transition requests without the reopening flag changes a conversation
  in a terminal state, whatever their targets and however they interleave.\<close>

theorem terminal_conversations_stay:
  assumes "consistent s" and "conversation_of s k = Some i" and "is_terminal (cn_state i)"
    and "\<forall>a \<in> set requests. \<not> mv_reopen (snd (snd a))"
  shows "conversation_of (fold attempt_transition requests s) k = Some i"
  using assms
proof (induction requests arbitrary: s)
  case Nil
  then show ?case by simp
next
  case (Cons a requests)
  have "conversation_of (attempt_transition a s) k = Some i"
    by (rule attempt_keeps_terminal [OF Cons.prems(1-3)]) (use Cons.prems(4) in simp)
  then show ?case using Cons.IH [OF attempt_consistent [OF Cons.prems(1)]] Cons.prems(3,4) by simp
qed

section \<open>Redelivery\<close>

lemma classify_exclusive:
  "classify_raw_event cfg raw p obj = (ty, th, ti, st) \<Longrightarrow> th = None \<or> ti = None"
  by (auto simp: classify_raw_event_def Let_def split: if_splits)

lemma normalized_exclusive:
  assumes "normalize_webhook_event cfg source wv = Inr ev"
  shows "ne_thread ev = None \<or> ne_ticket ev = None"
  using assms unfolding normalize_webhook_event_def Let_def
  by (auto split: prod.splits elim!: and_then_InrE dest!: classify_exclusive)

text \<open>With a thread or a ticket alone the lookup always ends with an instance and leaves the rest of the tables alone.\<close>

lemma create_or_recover_total:
  assumes "opt_truthy (ne_thread ev) \<Longrightarrow> find_by_thread (opt_text (ne_thread ev)) s = None"
  shows "\<exists>s' k new. create_or_recover now ev s = Inr (s', k, new)"
proof (cases "get_row cn_key (instance_key_of ev) (cv_instances s)")
  case (Some i)
  then show ?thesis by (auto simp: create_or_recover_def split: sum.splits)
next
  case None
  then have keys: "\<forall>j \<in> set (cv_instances s). cn_key j \<noteq> instance_key_of ev" by (simp add: get_row_None)
  have threads: "\<forall>j \<in> set (cv_instances s). cn_thread j \<noteq> ne_thread ev" if "opt_truthy (ne_thread ev)"
    using assms [OF that] that by (cases "ne_thread ev") (auto simp: find_by_thread_def first_by_None)
  have "\<not> list_ex (instance_clash (new_conversation now (cv_next_pk s) ev)) (cv_instances s)"
    using keys threads by (auto simp: list_ex_iff instance_clash_def new_conversation_def)
  then show ?thesis by (auto simp: create_or_recover_def insert_conversation_def intro: exI [of _ True])
qed

lemma get_or_create_instance_total:
  assumes "consistent s" and "ne_thread ev = None \<or> ne_ticket ev = None"
  obtains s' k new where "get_or_create_instance now ev s = Inr (s', k, new)" "cv_events s' = cv_events s"
    "cv_cycles s' = cv_cycles s" "cv_moves s' = cv_moves s" "\<And>j i. conversation_of s j = Some i \<Longrightarrow> conversation_of s' j = Some i"
proof -
  have "(\<exists>k. get_or_create_instance now ev s = Inr (s, k, False)) \<or>
      get_or_create_instance now ev s = create_or_recover now ev s \<and>
      (opt_truthy (ne_thread ev) \<longrightarrow> find_by_thread (opt_text (ne_thread ev)) s = None)"
  proof (cases "opt_truthy (ne_thread ev)")
    case True
    then have "ne_ticket ev = None" using assms(2) by (cases "ne_thread ev") simp_all
    then have none: "placeholders (strip (opt_text (ne_ticket ev))) s = []" by (simp add: placeholders_def strip_def)
    obtain f where "promote_or_get_thread_instance now (ne_ticket ev) (opt_text (ne_thread ev)) s = Inr (s, f)"
      by (cases "strip (opt_text (ne_thread ev)) = []"; cases "find_by_thread (strip (opt_text (ne_thread ev))) s")
        (simp_all add: promote_or_get_thread_instance_def Let_def none)
    then show ?thesis
      using True
      by (cases f; cases "find_by_thread (opt_text (ne_thread ev)) s") (simp_all add: get_or_create_instance_def)
  next
    case False
    then show ?thesis
      by (cases "opt_truthy (ne_ticket ev)"; cases "find_conversation_instance None (ne_ticket ev) s")
        (simp_all add: get_or_create_instance_def)
  qed
  then show thesis
  proof (elim disjE exE conjE)
    fix k
    assume "get_or_create_instance now ev s = Inr (s, k, False)"
    then show thesis by (rule that) simp_all
  next
    assume e: "get_or_create_instance now ev s = create_or_recover now ev s"
      "opt_truthy (ne_thread ev) \<longrightarrow> find_by_thread (opt_text (ne_thread ev)) s = None"
    obtain s' k new where c: "create_or_recover now ev s = Inr (s', k, new)"
      using create_or_recover_total [of ev s now] e(2) by blast
    show thesis by (rule that [of s' k new]) (use e(1) c create_or_recover_consistent [OF assms(1) c] in simp_all)
  qed
qed

text \<open>C14: recording a webhook whose fingerprint is already in the ledger always succeeds and is
  inert: no event, transition or attendance is added, and every conversation keeps its state,
  version and assignee, however stale or out of order the delivery is.\<close>

theorem redelivery_is_inert:
  assumes "consistent s" and "normalize_webhook_event cfg ''hubspot'' wv = Inr ev" and "ne_key ev \<in> ev_key ` set (cv_events s)"
  shows "\<exists>s' r. record_lifecycle_for_webhook_event cfg now wv s = Inr (s', r) \<and> \<not> er_created r \<and>
    cv_events s' = cv_events s \<and> cv_moves s' = cv_moves s \<and> cv_cycles s' = cv_cycles s \<and>
    (\<forall>k i. conversation_of s k = Some i \<longrightarrow> (\<exists>i'. conversation_of s' k = Some i' \<and>
       cn_state i' = cn_state i \<and> cn_version i' = cn_version i \<and> cn_assigned i' = cn_assigned i))"
proof -
  obtain s1 k new where g: "get_or_create_instance now ev s = Inr (s1, k, new)" "cv_events s1 = cv_events s"
    "cv_cycles s1 = cv_cycles s" "cv_moves s1 = cv_moves s" "\<And>j i. conversation_of s j = Some i \<Longrightarrow> conversation_of s1 j = Some i"
    using get_or_create_instance_total [OF assms(1) normalized_exclusive [OF assms(2)], of now] by metis
  obtain i where i: "conversation_of s1 k = Some i" using get_or_create_instance_consistent [OF assms(1) g(1)] by auto
  let ?s2 = "if \<not> is_stale_provider_event i ev \<and> \<not> defers_close cfg ev (route_event ev)
      then put_conversation (refresh_instance_snapshot now ev i) s1 else s1"
  have e2: "cv_events ?s2 = cv_events s" "cv_moves ?s2 = cv_moves s" "cv_cycles ?s2 = cv_cycles s" using g(2-4) by simp_all
  obtain e where e: "append_event k ev ?s2 = (?s2, e, False)"
    using append_event_known [of ev ?s2 k] assms(3) e2(1) by metis
  have run: "record_lifecycle_for_webhook_event cfg now wv s = Inr (?s2, \<lparr>er_instance = k, er_event = ev_pk e,
      er_created = False, er_stale = is_stale_provider_event i ev, er_policy = effect_ordering_policy cfg ev (route_event ev)\<rparr>)"
    using assms(2) g(1) i e by (simp add: record_lifecycle_for_webhook_event_def record_normalized_event_def Let_def)
  have pk: "cn_pk (refresh_instance_snapshot now ev i) = k"
    using conversation_of_pk [OF i] by (simp add: refresh_instance_snapshot_def)
  have rows: "\<exists>x'. conversation_of ?s2 j = Some x' \<and> cn_state x' = cn_state x \<and> cn_version x' = cn_version x \<and>
      cn_assigned x' = cn_assigned x" if "conversation_of s j = Some x" for j x
    using g(5) [OF that] i pk by (cases "j = k") (auto simp: conversation_of_put refresh_instance_snapshot_def)
  show ?thesis
    by (rule exI [of _ ?s2], rule exI, rule conjI, rule run) (use e2 rows in simp)
qed

section \<open>Convergence of a closed ticket\<close>

lemma converge_valid: "validate_transition st St_Closed (is_terminal st) False = Inr ()"
  by (simp add: validate_transition_def)

lemma close_one:
  assumes "consistent s" and "conversation_of s (cn_pk i) = Some i" and "cn_state i \<noteq> St_Closed"
  obtains s' i' where "transition now (cn_pk i) (converge_move why event occurred (cn_state i)) s = Inr s'" "consistent s'"
    "conversation_of s' (cn_pk i) = Some i'" "cn_state i' = St_Closed" "cn_ticket i' = cn_ticket i"
    "\<And>k. k \<noteq> cn_pk i \<Longrightarrow> conversation_of s' k = conversation_of s k"
proof -
  let ?m = "converge_move why event occurred (cn_state i)"
  have m: "mv_to ?m = St_Closed" "mv_reopen ?m = is_terminal (cn_state i)" "\<not> mv_queue_entry ?m"
    by (simp_all add: converge_move_def plain_move_def)
  have v: "validate_transition (cn_state i) (mv_to ?m) (mv_reopen ?m) (mv_queue_entry ?m) = Inr ()"
    using converge_valid m by simp
  have n: "cn_state i \<noteq> mv_to ?m" using assms(3) m(1) by simp
  obtain s' where r: "transition now (cn_pk i) ?m s = Inr s'" "consistent s'"
    "cv_instances s' = save_row cn_pk (moved_conversation now ?m i) (cv_instances s)"
    using transition_ok [OF assms(1,2) n v, of now] by metis
  have rows: "conversation_of s' k = (if k = cn_pk i then Some (moved_conversation now ?m i) else conversation_of s k)" for k
    using assms(2) by (simp add: conversation_of_def r(3) get_row_save_row)
  show thesis
  proof (rule that [OF r(1,2)])
    show "conversation_of s' (cn_pk i) = Some (moved_conversation now ?m i)" by (simp add: rows)
    show "cn_state (moved_conversation now ?m i) = St_Closed" "cn_ticket (moved_conversation now ?m i) = cn_ticket i"
      using m(1) by (simp_all add: moved_conversation_def)
    show "conversation_of s' k = conversation_of s k" if "k \<noteq> cn_pk i" for k using rows that by simp
  qed
qed

lemma close_each_total:
  assumes "consistent s" and "distinct (map cn_pk is)" and "\<forall>i \<in> set is. conversation_of s (cn_pk i) = Some i"
  shows "\<exists>s'. close_each now why event occurred is s = Inr s' \<and> consistent s' \<and>
    (\<forall>i \<in> set is. \<exists>i'. conversation_of s' (cn_pk i) = Some i' \<and> cn_state i' = St_Closed \<and> cn_ticket i' = cn_ticket i) \<and>
    (\<forall>k. k \<notin> cn_pk ` set is \<longrightarrow> conversation_of s' k = conversation_of s k)"
  using assms
proof (induction "is" arbitrary: s)
  case Nil
  then show ?case by simp
next
  case (Cons i "is")
  have i: "conversation_of s (cn_pk i) = Some i" "cn_pk i \<notin> cn_pk ` set is" using Cons.prems(2,3) by auto
  have "\<exists>s1 i'. consistent s1 \<and> close_each now why event occurred (i # is) s = close_each now why event occurred is s1 \<and>
      conversation_of s1 (cn_pk i) = Some i' \<and> cn_state i' = St_Closed \<and> cn_ticket i' = cn_ticket i \<and>
      (\<forall>k. k \<noteq> cn_pk i \<longrightarrow> conversation_of s1 k = conversation_of s k)"
  proof (cases "cn_state i = St_Closed")
    case True
    then show ?thesis using Cons.prems(1) i(1) by (intro exI [of _ s] exI [of _ i]) simp
  next
    case False
    obtain s1 i' where "transition now (cn_pk i) (converge_move why event occurred (cn_state i)) s = Inr s1" "consistent s1"
      "conversation_of s1 (cn_pk i) = Some i'" "cn_state i' = St_Closed" "cn_ticket i' = cn_ticket i"
      "\<And>k. k \<noteq> cn_pk i \<Longrightarrow> conversation_of s1 k = conversation_of s k"
      using close_one [OF Cons.prems(1) i(1) False, of now why event occurred] by metis
    then show ?thesis using False by (intro exI [of _ s1] exI [of _ i']) simp
  qed
  then obtain s1 i' where s1: "consistent s1" "close_each now why event occurred (i # is) s = close_each now why event occurred is s1"
      "conversation_of s1 (cn_pk i) = Some i'" "cn_state i' = St_Closed" "cn_ticket i' = cn_ticket i"
      "\<And>k. k \<noteq> cn_pk i \<Longrightarrow> conversation_of s1 k = conversation_of s k" by blast
  have "conversation_of s1 (cn_pk j) = Some j" if "j \<in> set is" for j
  proof -
    have "cn_pk j \<noteq> cn_pk i" using i(2) that by (metis imageI)
    then show ?thesis using s1(6) Cons.prems(3) that by simp
  qed
  then have "\<forall>j \<in> set is. conversation_of s1 (cn_pk j) = Some j" by blast
  then obtain s' where s': "close_each now why event occurred is s1 = Inr s'" "consistent s'"
    "\<forall>j \<in> set is. \<exists>j'. conversation_of s' (cn_pk j) = Some j' \<and> cn_state j' = St_Closed \<and> cn_ticket j' = cn_ticket j"
    "\<forall>k. k \<notin> cn_pk ` set is \<longrightarrow> conversation_of s' k = conversation_of s1 k"
    using Cons.IH [OF s1(1)] Cons.prems(2) by auto
  have here: "conversation_of s' (cn_pk i) = Some i'" using s'(4) i(2) s1(3) by simp
  show ?case
    using s1(2) s'(1,2) here s1(4,5) s'(3,4) s1(6) by (intro exI [of _ s']) simp
qed

lemma ticket_rows_ready:
  assumes "consistent s"
  shows "distinct (map cn_pk (sort_key recency (filter P (cv_instances s))))"
    "\<forall>i \<in> set (sort_key recency (filter P (cv_instances s))). conversation_of s (cn_pk i) = Some i"
proof -
  have "distinct (map cn_pk (filter P (cv_instances s)))"
    by (rule distinct_map_filter [OF identifiedD(1) [OF consistentD(2) [OF assms]]])
  then show "distinct (map cn_pk (sort_key recency (filter P (cv_instances s))))" by (simp add: distinct_map)
  show "\<forall>i \<in> set (sort_key recency (filter P (cv_instances s))). conversation_of s (cn_pk i) = Some i"
    using conversation_of_unique [OF consistentD(2) [OF assms]] by simp
qed

lemma close_all_total:
  assumes "consistent s"
  shows "\<exists>s'. close_all_ticket_instances now ticket primary event why occurred s =
      Inr (s', \<exists>i \<in> set (cv_instances s). cn_ticket i = Some ticket \<and> Some (cn_pk i) \<noteq> primary) \<and> consistent s' \<and>
    (\<forall>k i. conversation_of s k = Some i \<and> cn_ticket i = Some ticket \<and> Some k \<noteq> primary \<longrightarrow>
       (\<exists>i'. conversation_of s' k = Some i' \<and> cn_state i' = St_Closed \<and> cn_ticket i' = Some ticket)) \<and>
    (\<forall>k. (\<forall>i. conversation_of s k = Some i \<longrightarrow> cn_ticket i \<noteq> Some ticket \<or> Some k = primary) \<longrightarrow>
       conversation_of s' k = conversation_of s k)"
proof -
  let ?P = "\<lambda>i. cn_ticket i = Some ticket \<and> Some (cn_pk i) \<noteq> primary"
  let ?rows = "sort_key recency (filter ?P (cv_instances s))"
  obtain s' where s': "close_each now why event occurred ?rows s = Inr s'" "consistent s'"
    "\<forall>i \<in> set ?rows. \<exists>i'. conversation_of s' (cn_pk i) = Some i' \<and> cn_state i' = St_Closed \<and> cn_ticket i' = cn_ticket i"
    "\<forall>k. k \<notin> cn_pk ` set ?rows \<longrightarrow> conversation_of s' k = conversation_of s k"
    using close_each_total [OF assms ticket_rows_ready [OF assms, of ?P], of now why event occurred] by blast
  have "?rows \<noteq> [] \<longleftrightarrow> (\<exists>i \<in> set (cv_instances s). ?P i)"
  proof -
    have "?rows \<noteq> [] \<longleftrightarrow> set ?rows \<noteq> {}" by (simp only: set_empty)
    then show ?thesis by auto
  qed
  then have run: "close_all_ticket_instances now ticket primary event why occurred s = Inr (s', \<exists>i \<in> set (cv_instances s). ?P i)"
    using s'(1) by (simp add: close_all_ticket_instances_def Let_def)
  have hit: "\<exists>i'. conversation_of s' k = Some i' \<and> cn_state i' = St_Closed \<and> cn_ticket i' = Some ticket"
    if "conversation_of s k = Some i" "cn_ticket i = Some ticket" "Some k \<noteq> primary" for k i
  proof -
    have "i \<in> set (cv_instances s)" "cn_pk i = k" using conversation_of_mem conversation_of_pk that(1) by blast+
    then have "i \<in> set ?rows" using that by simp
    then show ?thesis using s'(3) \<open>cn_pk i = k\<close> that(2) by force
  qed
  have miss: "conversation_of s' k = conversation_of s k"
    if "\<forall>i. conversation_of s k = Some i \<longrightarrow> cn_ticket i \<noteq> Some ticket \<or> Some k = primary" for k
  proof -
    have "k \<notin> cn_pk ` set ?rows"
      using that conversation_of_unique [OF consistentD(2) [OF assms]] by auto
    then show ?thesis using s'(4) by blast
  qed
  show ?thesis using run s'(2) hit miss by (intro exI [of _ s']) simp
qed

lemma advance_cursors_conversation:
  "conversation_of (advance_cursors ticket t s) k = map_option (\<lambda>i. if cn_ticket i = Some ticket \<and>
     (case cn_cursor i of None \<Rightarrow> True | Some c \<Rightarrow> c < t) then i\<lparr>cn_cursor := Some t\<rparr> else i) (conversation_of s k)"
  by (simp add: advance_cursors_def conversation_of_def get_row_update_rows)

lemma close_ticket_total:
  assumes "consistent s"
  shows "\<exists>s'. close_ticket_instances now ticket why event (Some t) s =
      Inr (s', \<exists>i \<in> set (cv_instances s). cn_ticket i = Some ticket) \<and> consistent s' \<and>
    (\<forall>k i. conversation_of s k = Some i \<and> cn_ticket i = Some ticket \<longrightarrow>
       (\<exists>i' u. conversation_of s' k = Some i' \<and> cn_state i' = St_Closed \<and> cn_cursor i' = Some u \<and> t \<le> u \<and>
          (\<not> is_superseded i' \<longrightarrow> open_service_cycle s' k = None))) \<and>
    (\<forall>k i. conversation_of s k = Some i \<and> cn_ticket i \<noteq> Some ticket \<longrightarrow> conversation_of s' k = Some i)"
proof -
  obtain s1 where s1: "close_all_ticket_instances now ticket None event why (Some t) s =
      Inr (s1, \<exists>i \<in> set (cv_instances s). cn_ticket i = Some ticket)" "consistent s1"
    "\<And>k i. conversation_of s k = Some i \<Longrightarrow> cn_ticket i = Some ticket \<Longrightarrow>
       \<exists>i'. conversation_of s1 k = Some i' \<and> cn_state i' = St_Closed \<and> cn_ticket i' = Some ticket"
    "\<And>k i. conversation_of s k = Some i \<Longrightarrow> cn_ticket i \<noteq> Some ticket \<Longrightarrow> conversation_of s1 k = conversation_of s k"
    using close_all_total [OF assms, of now ticket None event why "Some t"] by auto
  let ?found = "\<exists>i \<in> set (cv_instances s). cn_ticket i = Some ticket"
  let ?s = "if ?found then advance_cursors ticket t s1 else s1"
  have run: "close_ticket_instances now ticket why event (Some t) s = Inr (?s, ?found)"
    using s1(1) by (simp add: close_ticket_instances_def)
  have c: "consistent ?s" using s1(2) advance_cursors_consistent by simp
  have closed: "open_service_cycle ?s k = None" if "conversation_of ?s k = Some i'" "cn_state i' = St_Closed" "\<not> is_superseded i'" for k i'
  proof -
    have "is_terminal (cn_state i')" using that(2) by (simp add: is_terminal_def terminal_states_def)
    then have "\<forall>d \<in> set (cycles_of ?s k). sc_status d = Cycle_Closed"
      using settledD [OF consistentD(3) [OF c] that(1) _ that(3)] by blast
    then show ?thesis by (fastforce simp: open_service_cycle_def first_by_None)
  qed
  have hit: "\<exists>i' u. conversation_of ?s k = Some i' \<and> cn_state i' = St_Closed \<and> cn_cursor i' = Some u \<and> t \<le> u"
    if a: "conversation_of s k = Some i" "cn_ticket i = Some ticket" for k i
  proof -
    have "?found" using a conversation_of_mem by blast
    then have e: "?s = advance_cursors ticket t s1" by simp
    obtain j where j: "conversation_of s1 k = Some j" "cn_state j = St_Closed" "cn_ticket j = Some ticket" using s1(3) [OF a] by blast
    show ?thesis unfolding e by (cases "cn_cursor j") (auto simp: advance_cursors_conversation j)
  qed
  have miss: "conversation_of ?s k = Some i" if "conversation_of s k = Some i" "cn_ticket i \<noteq> Some ticket" for k i
    using s1(4) [OF that] that by (simp add: advance_cursors_conversation)
  show ?thesis using run c hit miss closed by (intro exI [of _ ?s]) blast
qed

text \<open>C15: closing the conversations of a ticket always succeeds.  Every conversation of the ticket,
  superseded and failed ones included, ends in \<open>CLOSED\<close>, without an open attendance unless it was
  superseded, and none of their cursors is behind the given occurrence time; conversations of other tickets are untouched.\<close>

theorem ticket_close_converges:
  assumes "consistent s"
  shows "\<exists>s'. close_ticket_instances now ticket why event (Some t) s =
      Inr (s', \<exists>i \<in> set (cv_instances s). cn_ticket i = Some ticket) \<and> consistent s' \<and>
    (\<forall>k i. conversation_of s k = Some i \<and> cn_ticket i = Some ticket \<longrightarrow>
       (\<exists>i' u. conversation_of s' k = Some i' \<and> cn_state i' = St_Closed \<and> cn_cursor i' = Some u \<and> t \<le> u \<and>
          (\<not> is_superseded i' \<longrightarrow> open_service_cycle s' k = None))) \<and>
    (\<forall>k i. conversation_of s k = Some i \<and> cn_ticket i \<noteq> Some ticket \<longrightarrow> conversation_of s' k = Some i)"
  by (rule close_ticket_total [OF assms])

section \<open>When recording fails\<close>

lemma transition_total:
  assumes "consistent s" and "conversation_of s k = Some i"
    and "cn_state i = mv_to m \<or> validate_transition (cn_state i) (mv_to m) (mv_reopen m) (mv_queue_entry m) = Inr ()"
  obtains s' i' where "transition now k m s = Inr s'" "consistent s'" "conversation_of s' k = Some i'" "cn_state i' = mv_to m"
proof (cases "cn_state i = mv_to m")
  case True
  then show thesis using that [of s i] assms(1,2) by (simp add: transition_def)
next
  case False
  then have v: "validate_transition (cn_state i) (mv_to m) (mv_reopen m) (mv_queue_entry m) = Inr ()" using assms(3) by blast
  obtain s' where s': "transition now k m s = Inr s'" "consistent s'"
    "cv_instances s' = save_row cn_pk (moved_conversation now m i) (cv_instances s)"
    using transition_ok [OF assms(1,2) False v, of now] by metis
  have "conversation_of s' k = Some (moved_conversation now m i)"
    using assms(2) conversation_of_pk [OF assms(2)] by (simp add: conversation_of_def s'(3) get_row_save_row)
  then show thesis by (rule that [OF s'(1,2)]) simp
qed

text \<open>The one request that is refused: closing a conversation that was ignored or failed for good.\<close>

definition refuses_close :: "settings \<Rightarrow> normalized_event \<Rightarrow> conversation_state \<Rightarrow> bool" where
  "refuses_close cfg ev st \<longleftrightarrow> rd_route (route_event ev) = R_Close \<and> \<not> defers_close cfg ev (route_event ev) \<and>
     is_terminal st \<and> st \<noteq> St_Closed"

lemma new_instance_received:
  assumes "consistent s" and "get_or_create_instance now ev s = Inr (s1, k, True)" and "conversation_of s1 k = Some i"
  shows "cn_state i = St_Received"
proof -
  obtain s0 where s0: "consistent s0" "create_or_recover now ev s0 = Inr (s1, k, True)"
  proof (cases "opt_truthy (ne_thread ev)")
    case True
    then obtain s2 f where p: "promote_or_get_thread_instance now (ne_ticket ev) (opt_text (ne_thread ev)) s = Inr (s2, f)"
      and "create_or_recover now ev s2 = Inr (s1, k, True)"
      using assms(2) by (auto simp: get_or_create_instance_def split: option.splits elim!: and_then_InrE)
    then show thesis using that promote_consistent [OF assms(1) p] by blast
  next
    case False
    then show thesis using that [of s] assms(1,2) by (auto simp: get_or_create_instance_def split: if_splits option.splits)
  qed
  let ?i = "new_conversation now (cv_next_pk s0) ev"
  have ins: "insert_conversation ?i s0 = Inr s1" "k = cv_next_pk s0"
    using s0(2) by (auto simp: create_or_recover_def split: sum.splits option.splits)
  have st: "cn_pk ?i = cv_next_pk s0" "cn_state ?i = St_Received" by (simp_all add: new_conversation_def)
  have "conversation_of s1 (cn_pk ?i) = Some ?i" by (rule insert_consistent(2) [OF s0(1) st ins(1)])
  then show ?thesis using assms(3) ins(2) st by simp
qed

lemma routes:
  "rd_route (route_event ev) = R_Close \<Longrightarrow> rd_target (route_event ev) = St_Closed \<and> ne_type ev = ''ticket_closed''"
  "rd_route (route_event ev) = R_Ignore \<Longrightarrow> rd_target (route_event ev) = St_Ignored"
  "rd_route (route_event ev) \<in> {R_Close, R_Ignore, R_Auto_Assignment}"
  "rd_route (route_event ev) = R_Auto_Assignment \<Longrightarrow> rd_target (route_event ev) = St_Queue_Pending \<and> ne_type ev = ''ticket_entered_n1''"
  by (auto simp: route_event_def split: if_splits)

lemma event_move_admissible:
  assumes "event_move ev (route_event ev) (defers_close cfg ev (route_event ev)) new st = Some m" and "\<not> refuses_close cfg ev st"
    and "new \<Longrightarrow> st = St_Normalized"
  shows "st = mv_to m \<or> validate_transition st (mv_to m) (mv_reopen m) (mv_queue_entry m) = Inr ()"
proof -
  let ?d = "route_event ev"
  have ig: "validate_transition St_Normalized St_Ignored False False = Inr ()"
    "validate_transition St_Normalized St_Closed False False = Inr ()"
    "validate_transition St_Human_Assigned St_Human_In_Progress False False = Inr ()"
    by (simp_all add: validate_transition_def is_terminal_def terminal_states_def)
  consider (human) "st = St_Human_Assigned" "m = plain_move St_Human_In_Progress ''Assigned human agent sent the first outgoing message.'' (ne_source_event ev)"
    | (routed) "rd_route ?d \<noteq> R_Ignore" "\<not> defers_close cfg ev ?d"
        "m = (plain_move (rd_target ?d) (rd_reason ?d) (ne_source_event ev))
          \<lparr>mv_reopen := (ne_type ev = ''ticket_entered_n1'' \<or> rd_route ?d = R_Ai_Service),
           mv_queue_entry := (ne_type ev = ''ticket_entered_n1'' \<and> rd_route ?d = R_Auto_Assignment \<and> rd_target ?d = St_Queue_Pending)\<rparr>"
    | (fresh) "new" "m = plain_move (rd_target ?d) (rd_reason ?d) (ne_source_event ev)" "rd_route ?d = R_Ignore \<or> defers_close cfg ev ?d"
    using assms(1) unfolding event_move_def by (auto split: if_splits)
  then show ?thesis
  proof cases
    case human
    then show ?thesis using ig(3) by (simp add: plain_move_def)
  next
    case fresh
    have "rd_target ?d \<in> {St_Ignored, St_Closed}" using fresh(3) routes(1,2) [of ev] by (auto simp: defers_close_def)
    then show ?thesis using assms(3) fresh(1,2) ig by (auto simp: plain_move_def)
  next
    case routed
    show ?thesis
    proof (cases "rd_route ?d = R_Close")
      case True
      then have "is_terminal st \<Longrightarrow> st = St_Closed" using assms(2) routed(2) by (auto simp: refuses_close_def)
      then show ?thesis using routes(1) [OF True] routed(3) by (auto simp: plain_move_def validate_transition_def)
    next
      case False
      then have "rd_route ?d = R_Auto_Assignment" using routes(3) [of ev] routed(1) by auto
      then show ?thesis using routes(4) [of ev] routed(3) by (simp add: plain_move_def validate_transition_def)
    qed
  qed
qed

lemma project_event_fails:
  assumes "conversation_of s k = Some i" and "refuses_close cfg ev (cn_state i)"
  shows "project_event cfg now ev (route_event ev) new k e s = Inl InvalidStateTransitionError"
proof -
  let ?d = "route_event ev"
  have t: "is_terminal (cn_state i)" "cn_state i \<noteq> St_Closed" "rd_route ?d = R_Close" "\<not> defers_close cfg ev ?d"
    using assms(2) by (simp_all add: refuses_close_def)
  have c: "rd_target ?d = St_Closed" "ne_type ev = ''ticket_closed''" using routes(1) [OF t(3)] by simp_all
  have "cn_state i \<noteq> St_Received" using t(1) by (auto simp: is_terminal_def terminal_states_def)
  moreover obtain m where m: "event_move ev ?d False new (cn_state i) = Some m" "mv_to m = St_Closed" "\<not> mv_reopen m"
    using t(3) c by (simp add: event_move_def plain_move_def)
  moreover have "transition now k m s = Inl InvalidStateTransitionError"
    using assms(1) t(1,2) m(2,3) by (simp add: transition_def validate_transition_def)
  ultimately show ?thesis using t(4) assms(1) by (simp add: project_event_def state_of_def)
qed

lemma project_event_total:
  assumes "consistent s" and "conversation_of s k = Some i" and "\<not> refuses_close cfg ev (cn_state i)"
    and "new \<Longrightarrow> cn_state i = St_Received"
  shows "\<exists>s'. project_event cfg now ev (route_event ev) new k e s = Inr s'"
proof -
  let ?d = "route_event ev" and ?def = "defers_close cfg ev (route_event ev)"
  have rn: "validate_transition St_Received St_Normalized False False = Inr ()"
    by (simp add: validate_transition_def is_terminal_def terminal_states_def)
  obtain s1 i1 where s1: "(if state_of s k = St_Received
       then transition now k (plain_move St_Normalized ''External event normalized.'' (ne_source_event ev)) s else Inr s) = Inr s1"
    "consistent s1" "conversation_of s1 k = Some i1" "cn_state i1 = (if cn_state i = St_Received then St_Normalized else cn_state i)"
  proof (cases "cn_state i = St_Received")
    case True
    obtain s1 i1 where "transition now k (plain_move St_Normalized ''External event normalized.'' (ne_source_event ev)) s = Inr s1"
      "consistent s1" "conversation_of s1 k = Some i1" "cn_state i1 = St_Normalized"
      by (rule transition_total [OF assms(1,2), of "plain_move St_Normalized ''External event normalized.'' (ne_source_event ev)" now])
        (simp_all add: plain_move_def True rn)
    then show ?thesis using that [of s1 i1] True assms(2) by (simp add: state_of_def)
  next
    case False
    then show ?thesis using that [of s i] assms(1,2) by (simp add: state_of_def)
  qed
  have ok1: "\<not> refuses_close cfg ev (cn_state i1)"
    using assms(3) s1(4) by (auto simp: refuses_close_def is_terminal_def terminal_states_def split: if_splits)
  have st1: "state_of s1 k = cn_state i1" using s1(3) by (simp add: state_of_def)
  obtain s2 where s2: "(case event_move ev ?d ?def new (state_of s1 k) of None \<Rightarrow> Inr s1 | Some m \<Rightarrow> transition now k m s1) = Inr s2"
    "consistent s2" "conversation_of s2 k \<noteq> None"
  proof (cases "event_move ev ?d ?def new (cn_state i1)")
    case None
    then show ?thesis using that [of s1] s1(2,3) st1 by simp
  next
    case (Some m)
    have "cn_state i1 = mv_to m \<or> validate_transition (cn_state i1) (mv_to m) (mv_reopen m) (mv_queue_entry m) = Inr ()"
      by (rule event_move_admissible [OF Some ok1]) (use assms(4) s1(4) in simp)
    then obtain s2 i2 where "transition now k m s1 = Inr s2" "consistent s2" "conversation_of s2 k = Some i2"
      using transition_total [OF s1(2,3), of m now] by metis
    then show ?thesis using that [of s2] Some st1 by simp
  qed
  obtain s3 b where s3: "(if rd_route ?d = R_Close \<and> opt_truthy (ne_ticket ev) \<and> \<not> ?def
       then close_all_ticket_instances now (opt_text (ne_ticket ev)) (Some k) (ne_source_event ev) converge_reason None s2
       else Inr (s2, False)) = Inr (s3, b)" "consistent s3" "conversation_of s3 k \<noteq> None"
  proof (cases "rd_route ?d = R_Close \<and> opt_truthy (ne_ticket ev) \<and> \<not> ?def")
    case True
    obtain s3 b where r: "close_all_ticket_instances now (opt_text (ne_ticket ev)) (Some k) (ne_source_event ev) converge_reason None s2 = Inr (s3, b)"
      using close_all_total [OF s2(2), of now "opt_text (ne_ticket ev)" "Some k" "ne_source_event ev" converge_reason None] by blast
    have c: "consistent s3" "map cn_pk (cv_instances s3) = map cn_pk (cv_instances s2)" using close_all_consistent [OF s2(2) r] by blast+
    then have "conversation_of s3 k \<noteq> None" using s2(3) by (simp only: conversation_exists)
    then show ?thesis using that [of s3 b] r True c(1) by simp
  next
    case False
    show ?thesis by (rule that [of s2 False]) (use False s2(2,3) in auto)
  qed
  obtain i3 where "conversation_of s3 k = Some i3" using s3(3) by auto
  then obtain s4 c where "ensure_current_service_cycle now k s3 = Inr (s4, c)" using ensure_consistent [OF s3(2), of k i3 now] by metis
  then have "project_event cfg now ev ?d new k e s = Inr (link_event e (sc_pk c) s4)"
    using s1(1) s2(1) s3(1) by (simp add: project_event_def Let_def)
  then show ?thesis by blast
qed

text \<open>Recording an event that is normalized and has its conversation.\<close>

lemma recording_fails_found:
  assumes "consistent s" and "normalize_webhook_event cfg ''hubspot'' wv = Inr ev"
    and "get_or_create_instance now ev s = Inr (s1, k, new)" and "conversation_of s1 k = Some i"
  shows "(record_lifecycle_for_webhook_event cfg now wv s = Inl InvalidStateTransitionError \<longleftrightarrow>
       ne_key ev \<notin> ev_key ` set (cv_events s) \<and> \<not> is_stale_provider_event i ev \<and> refuses_close cfg ev (cn_state i)) \<and>
    (is_ok (record_lifecycle_for_webhook_event cfg now wv s) \<longleftrightarrow>
       \<not> (ne_key ev \<notin> ev_key ` set (cv_events s) \<and> \<not> is_stale_provider_event i ev \<and> refuses_close cfg ev (cn_state i)))"
proof -
  have s1: "consistent s1" "cv_events s1 = cv_events s" using get_or_create_instance_consistent [OF assms(1,3)] by blast+
  define s2 where "s2 = (if \<not> is_stale_provider_event i ev \<and> \<not> defers_close cfg ev (route_event ev)
      then put_conversation (refresh_instance_snapshot now ev i) s1 else s1)"
  have pk: "cn_pk (refresh_instance_snapshot now ev i) = k" "cn_state (refresh_instance_snapshot now ev i) = cn_state i"
    using conversation_of_pk [OF assms(4)] by (simp_all add: refresh_instance_snapshot_def)
  have s2: "consistent s2"
    unfolding s2_def
    by (auto intro!: consistent_put [OF s1(1) assms(4)] s1(1) conversation_of_pk [OF assms(4)] simp: refresh_instance_snapshot_def)
  have e2: "cv_events s2 = cv_events s" using s1(2) by (simp add: s2_def)
  obtain i2 where i2: "conversation_of s2 k = Some i2" "cn_state i2 = cn_state i"
    using assms(4) pk by (cases "\<not> is_stale_provider_event i ev \<and> \<not> defers_close cfg ev (route_event ev)")
      (auto simp: s2_def conversation_of_put)
  obtain s3 e created where a: "append_event k ev s2 = (s3, e, created)" by (metis prod_cases3)
  have created: "created \<longleftrightarrow> ne_key ev \<notin> ev_key ` set (cv_events s)"
  proof (cases "ne_key ev \<in> ev_key ` set (cv_events s)")
    case True
    then show ?thesis using append_event_known [of ev s2 k] e2 a by (metis Pair_inject)
  next
    case False
    then have "get_row ev_key (ne_key ev) (cv_events s2) = None" unfolding get_row_None e2 by (metis imageI)
    then show ?thesis using False a by (simp add: append_event_def Let_def)
  qed
  have s3: "consistent s3" by (rule consistent_cong [OF s2]) (use append_event_facts [OF a] in simp_all)
  have i3: "conversation_of s3 k = Some i2" using i2(1) append_event_facts(1) [OF a] by (simp add: conversation_of_def)
  have new: "cn_state i2 = St_Received" if new
    using new_instance_received [OF assms(1) _ assms(4), of now ev] assms(3) that i2(2) by simp
  have run: "record_lifecycle_for_webhook_event cfg now wv s =
      and_then (if created \<and> \<not> is_stale_provider_event i ev then project_event cfg now ev (route_event ev) new k (ev_pk e) s3 else Inr s3)
        (\<lambda>s4. Inr (s4, \<lparr>er_instance = k, er_event = ev_pk e, er_created = created, er_stale = is_stale_provider_event i ev,
           er_policy = effect_ordering_policy cfg ev (route_event ev)\<rparr>))"
    using assms(2-4) a
    by (simp add: record_lifecycle_for_webhook_event_def record_normalized_event_def Let_def s2_def [symmetric])
  show ?thesis
  proof (cases "created \<and> \<not> is_stale_provider_event i ev \<and> refuses_close cfg ev (cn_state i)")
    case True
    then have "record_lifecycle_for_webhook_event cfg now wv s = Inl InvalidStateTransitionError"
      using run project_event_fails [OF i3, of cfg ev] i2(2) by simp
    then show ?thesis using True created by simp
  next
    case False
    have "is_ok (record_lifecycle_for_webhook_event cfg now wv s)"
    proof (cases "created \<and> \<not> is_stale_provider_event i ev")
      case True
      then have nr: "\<not> refuses_close cfg ev (cn_state i2)" using False i2(2) by simp
      obtain s4 where "project_event cfg now ev (route_event ev) new k (ev_pk e) s3 = Inr s4"
        using project_event_total [OF s3 i3 nr new, where now = now and e = "ev_pk e"] by blast
      then show ?thesis using run True by simp
    next
      case False
      then show ?thesis using run by auto
    qed
    then show ?thesis using False created by (cases "record_lifecycle_for_webhook_event cfg now wv s") auto
  qed
qed

text \<open>C16: recording a webhook fails in exactly these cases: its event cannot be normalized; its conversation can
  neither be found nor opened; or, once it has its event and its conversation, a close that is not deferred, new and
  not stale, meets a conversation in \<open>IGNORED\<close> or \<open>FAILED_TERMINAL\<close>, and then with \<open>InvalidStateTransitionError\<close>.
  In the first two cases the exception is the one of that step.\<close>

theorem recording_fails_exactly:
  assumes "consistent s"
  shows "case normalize_webhook_event cfg ''hubspot'' wv of
      Inl e \<Rightarrow> record_lifecycle_for_webhook_event cfg now wv s = Inl e
    | Inr ev \<Rightarrow> (case get_or_create_instance now ev s of
          Inl e \<Rightarrow> record_lifecycle_for_webhook_event cfg now wv s = Inl e
        | Inr (s1, k, new) \<Rightarrow> (\<exists>i. conversation_of s1 k = Some i \<and>
            (let refused = ne_key ev \<notin> ev_key ` set (cv_events s) \<and> \<not> is_stale_provider_event i ev \<and> refuses_close cfg ev (cn_state i)
             in (record_lifecycle_for_webhook_event cfg now wv s = Inl InvalidStateTransitionError \<longleftrightarrow> refused) \<and>
                (is_ok (record_lifecycle_for_webhook_event cfg now wv s) \<longleftrightarrow> \<not> refused))))"
proof (cases "normalize_webhook_event cfg ''hubspot'' wv")
  case (Inl e)
  then show ?thesis by (simp add: record_lifecycle_for_webhook_event_def)
next
  case n: (Inr ev)
  show ?thesis
  proof (cases "get_or_create_instance now ev s")
    case (Inl e)
    then show ?thesis by (simp add: n record_lifecycle_for_webhook_event_def record_normalized_event_def)
  next
    case g: (Inr y)
    obtain s1 k new where y: "y = (s1, k, new)" by (metis prod_cases3)
    obtain i where i: "conversation_of s1 k = Some i" using get_or_create_instance_consistent [OF assms g [unfolded y]] by blast
    note r = recording_fails_found [OF assms n g [unfolded y] i]
    show ?thesis unfolding n g y sum.case prod.case Let_def by (rule exI [of _ i]) (use i r in \<open>simp only: simp_thms\<close>)
  qed
qed

section \<open>Superseded placeholders\<close>

text \<open>Superseding a placeholder ends its conversation in \<open>IGNORED\<close> but leaves its attendances
  as they are, so an open one stays open.\<close>

theorem superseded_placeholder_keeps_cycle:
  assumes "conversation_of s (cn_pk p) = Some p" and "supersede_placeholder now canonical why p s = Inr s'"
  shows "state_of s' (cn_pk p) = St_Ignored \<and> is_terminal (state_of s' (cn_pk p)) \<and>
    open_service_cycle s' (cn_pk p) = open_service_cycle s (cn_pk p)"
proof -
  let ?x = "p\<lparr>cn_superseded_by := Some canonical, cn_key := Superseded_Key (cn_pk p), cn_state := St_Ignored,
     cn_version := Suc (cn_version p), cn_activity_at := Some now, cn_failures := 0, cn_next_retry_at := None, cn_error := []\<rparr>"
  from assms(2) obtain s1 where s1: "save_conversation ?x s = Inr s1"
    and s': "cv_instances s' = cv_instances s1" "cv_cycles s' = cv_cycles s1"
    unfolding supersede_placeholder_def by (elim and_then_InrE) auto
  have p: "s1 = put_conversation ?x s" using s1 by (simp add: save_conversation_def split: if_splits)
  have "conversation_of s1 (cn_pk p) = Some ?x" using assms(1) by (simp add: p conversation_of_put)
  then have "state_of s' (cn_pk p) = St_Ignored" using s'(1) by (simp add: state_of_def conversation_of_def)
  moreover have "open_service_cycle s' (cn_pk p) = open_service_cycle s (cn_pk p)"
    by (simp add: open_service_cycle_def s'(2) p)
  ultimately show ?thesis by (simp add: is_terminal_def terminal_states_def)
qed

section \<open>A concrete history\<close>

definition demo_webhook :: "settings \<Rightarrow> int \<Rightarrow> webhook_view" where
  "demo_webhook cfg n = \<lparr>wv_payload = [(''propertyName'', J_Text (prop_stage_novo cfg)), (''objectId'', J_Int 7), (''occurredAt'', J_Int n)],
     wv_type = ''ticket.propertyChange'', wv_object = ''7'', wv_event_id = ''e1'', wv_pk = ''1''\<rparr>"

definition demo_close_webhook :: webhook_view where
  "demo_close_webhook = \<lparr>wv_payload = [(''propertyName'', J_Text ''hs_pipeline_stage''), (''objectId'', J_Int 7),
       (''propertyValue'', J_Text (stage_fechado_id demo_cfg))],
     wv_type = ''ticket.propertyChange'', wv_object = ''7'', wv_event_id = ''e2'', wv_pk = ''2''\<rparr>"

definition ok_conv :: "conv \<Rightarrow> (conv \<times> 'a) result \<Rightarrow> conv" where
  "ok_conv d r = (case r of Inl _ \<Rightarrow> d | Inr (s, _) \<Rightarrow> s)"

definition demo_conv :: conv where
  "demo_conv = ok_conv empty_conv (record_lifecycle_for_webhook_event demo_cfg 900 (demo_webhook demo_cfg 1000) empty_conv)"

definition demo_instance :: conversation where
  "demo_instance = hd (cv_instances demo_conv)"

definition demo_ignored :: conv where
  "demo_ignored = (case transition 950 0 (plain_move St_Ignored [] []) demo_conv of Inl _ \<Rightarrow> demo_conv | Inr s \<Rightarrow> s)"

lemma demo_recorded:
  "is_ok (record_lifecycle_for_webhook_event demo_cfg 900 (demo_webhook demo_cfg 1000) empty_conv)"
  "is_ok (transition 950 0 (plain_move St_Ignored [] []) demo_conv)"
  "conversation_of demo_conv 0 = Some demo_instance" "cn_state demo_instance = St_Queue_Pending"
  by code_simp+

lemma demo_history: "(lifecycle_step demo_cfg)\<^sup>*\<^sup>* empty_conv demo_conv" "consistent demo_conv" "consistent demo_ignored"
proof -
  obtain s r where a: "record_lifecycle_for_webhook_event demo_cfg 900 (demo_webhook demo_cfg 1000) empty_conv = Inr (s, r)"
    using demo_recorded(1) by (cases "record_lifecycle_for_webhook_event demo_cfg 900 (demo_webhook demo_cfg 1000) empty_conv") auto
  then have "lifecycle_step demo_cfg empty_conv demo_conv"
    unfolding demo_conv_def ok_conv_def by (simp add: lifecycle_step.recorded)
  then show h: "(lifecycle_step demo_cfg)\<^sup>*\<^sup>* empty_conv demo_conv" by (rule r_into_rtranclp)
  show c: "consistent demo_conv" by (rule history_consistent [OF h])
  obtain s2 where b: "transition 950 0 (plain_move St_Ignored [] []) demo_conv = Inr s2"
    using demo_recorded(2) by (cases "transition 950 0 (plain_move St_Ignored [] []) demo_conv") auto
  then show "consistent demo_ignored" unfolding demo_ignored_def using transition_consistent [OF c b] by simp
qed

theorem conversation_history_invariant_witness:
  "map sc_seq (cycles_of demo_conv 0) = [1..<Suc (length (cycles_of demo_conv 0))] \<and> length (cycles_of demo_conv 0) = 1"
proof
  show "map sc_seq (cycles_of demo_conv 0) = [1..<Suc (length (cycles_of demo_conv 0))]"
    using conversation_history_invariant [OF demo_history(1), of 0] by blast
  show "length (cycles_of demo_conv 0) = 1" by code_simp
qed

theorem transition_effect_witness:
  "\<exists>s'. transition 1 0 (plain_move St_Human_Assigned [] []) demo_conv = Inr s' \<and> consistent s'"
proof -
  have n: "cn_state demo_instance \<noteq> mv_to (plain_move St_Human_Assigned [] [])" by code_simp
  have v: "validate_transition (cn_state demo_instance) (mv_to (plain_move St_Human_Assigned [] []))
      (mv_reopen (plain_move St_Human_Assigned [] [])) (mv_queue_entry (plain_move St_Human_Assigned [] [])) = Inr ()"
    by code_simp
  show ?thesis using transition_effect [OF demo_history(2) demo_recorded(3) n v, of 1] by blast
qed

theorem terminal_conversations_stay_witness:
  "let i = hd (cv_instances demo_ignored)
   in is_terminal (cn_state i) \<and>
      conversation_of (fold attempt_transition [(1, 0, plain_move St_Closed [] []), (2, 0, plain_move St_Normalized [] [])] demo_ignored) 0 = Some i"
proof -
  have i: "conversation_of demo_ignored 0 = Some (hd (cv_instances demo_ignored))" "is_terminal (cn_state (hd (cv_instances demo_ignored)))"
    by code_simp+
  have r: "\<forall>a \<in> set [(1, 0, plain_move St_Closed [] []), (2, 0, plain_move St_Normalized [] [])]. \<not> mv_reopen (snd (snd a))"
    by (simp add: plain_move_def)
  show ?thesis using terminal_conversations_stay [OF demo_history(3) i r] i(2) by (simp only: Let_def simp_thms)
qed

definition demo_event :: "settings \<Rightarrow> webhook_view \<Rightarrow> normalized_event" where
  "demo_event cfg wv = (case normalize_webhook_event cfg ''hubspot'' wv of Inr ev \<Rightarrow> ev | Inl _ \<Rightarrow> undefined)"

theorem redelivery_is_inert_witness:
  "\<exists>s' r. record_lifecycle_for_webhook_event demo_cfg 2000 (demo_webhook demo_cfg 1000) demo_conv = Inr (s', r) \<and>
     \<not> er_created r \<and> cv_events s' = cv_events demo_conv \<and> length (cv_events demo_conv) = 1"
proof -
  let ?ev = "demo_event demo_cfg (demo_webhook demo_cfg 1000)"
  have n: "normalize_webhook_event demo_cfg ''hubspot'' (demo_webhook demo_cfg 1000) = Inr ?ev" by code_simp
  have k: "ne_key ?ev \<in> ev_key ` set (cv_events demo_conv)" by code_simp
  have "length (cv_events demo_conv) = 1" by code_simp
  then show ?thesis using redelivery_is_inert [OF demo_history(2) n k, of 2000] by blast
qed

theorem ticket_close_converges_witness:
  "\<exists>s'. close_ticket_instances 50 ''7'' [] [] (Some 4000000) demo_ignored = Inr (s', True) \<and> consistent s'"
proof -
  have "\<exists>i \<in> set (cv_instances demo_ignored). cn_ticket i = Some ''7''" by code_simp
  then show ?thesis using ticket_close_converges [OF demo_history(3), of 50 "''7''" "[]" "[]" 4000000] by auto
qed

theorem recording_fails_exactly_witness:
  "record_lifecycle_for_webhook_event (demo_cfg\<lparr>cycles_enforced := False\<rparr>) 60 demo_close_webhook demo_ignored =
     Inl InvalidStateTransitionError"
proof -
  let ?cfg = "demo_cfg\<lparr>cycles_enforced := False\<rparr>"
  let ?ev = "demo_event ?cfg demo_close_webhook"
  have n: "normalize_webhook_event ?cfg ''hubspot'' demo_close_webhook = Inr ?ev" by code_simp
  have g: "get_or_create_instance 60 ?ev demo_ignored = Inr (demo_ignored, 0, False)" by code_simp
  have i: "conversation_of demo_ignored 0 = Some (hd (cv_instances demo_ignored))" by code_simp
  have "ne_key ?ev \<notin> ev_key ` set (cv_events demo_ignored)" "\<not> is_stale_provider_event (hd (cv_instances demo_ignored)) ?ev"
    "refuses_close ?cfg ?ev (cn_state (hd (cv_instances demo_ignored)))"
    by code_simp+
  then show ?thesis using recording_fails_exactly [OF demo_history(3), where cfg = ?cfg and wv = demo_close_webhook and now = 60] n g i by (simp add: Let_def)
qed

theorem superseded_placeholder_keeps_cycle_witness:
  "let r = supersede_placeholder 70 9 ''x'' demo_instance demo_conv
   in is_ok r \<and> (case r of Inl _ \<Rightarrow> False | Inr s \<Rightarrow> is_terminal (state_of s 0) \<and> open_service_cycle s 0 \<noteq> None)"
proof -
  let ?r = "supersede_placeholder 70 9 ''x'' demo_instance demo_conv"
  have ok: "is_ok ?r" by code_simp
  then obtain s where s: "?r = Inr s" by (cases ?r) auto
  have pk: "cn_pk demo_instance = 0" by code_simp
  then have p: "conversation_of demo_conv (cn_pk demo_instance) = Some demo_instance" using demo_recorded(3) by simp
  have "open_service_cycle demo_conv 0 \<noteq> None" by code_simp
  then have "is_terminal (state_of s 0) \<and> open_service_cycle s 0 \<noteq> None"
    using superseded_placeholder_keeps_cycle [OF p s] unfolding pk by metis
  then show ?thesis by (simp add: s)
qed

end
