(* ===== verification/Occurrences.thy ===== *)
theory Occurrences
  imports Settlement Lifecycle_Engine
begin

text \<open>
  Provider evidence before projection: the occurrence ledger of
  \<open>apps/support/lifecycle_occurrence_service.py\<close> over the table
  \<open>support_lifecycle_occurrences\<close>, and the interval a close belongs to
  (\<open>resolve_close_target\<close> of \<open>apps/support/ticket_close_service.py\<close>).

  A timestamp is an instant, hence timezone-aware.  An evidence key is represented by the parts its
  text joins with colons.  The source system is always \<open>hubspot\<close>.
\<close>

section \<open>Rows\<close>

datatype occurrence_type = Entered_Support_Queue | Ticket_Closed | Owner_Changed

datatype evidence_status = Proven | Materialization_Pending | Ambiguous | Rejected

datatype occurrence_processing = Occ_Pending | Occ_Processed | Occ_Repair_Required

datatype evidence_key = Temporal_Key string string occurrence_type instant | Pending_Key string string "uuid option"

record occurrence =
  ol_pk :: uuid
  ol_account :: string
  ol_ticket :: string
  ol_type :: occurrence_type
  ol_at :: "instant option"
  ol_status :: evidence_status
  ol_source :: string
  ol_key :: evidence_key
  ol_event :: string
  ol_updated :: "instant option"
  ol_observation :: string
  ol_processing :: occurrence_processing
  ol_retries :: nat
  ol_next :: "instant option"
  ol_error :: string
  ol_created :: instant

text \<open>The support tables, the conversations and the evidence, as one database.\<close>

record site =
  st_db :: db
  st_conv :: conv
  st_occs :: "occurrence list"

definition occurrence_of :: "site \<Rightarrow> uuid \<Rightarrow> occurrence option" where
  "occurrence_of s k = get_row ol_pk k (st_occs s)"

text \<open>Evidence keys and the temporal identity of a timed occurrence are unique.\<close>

definition occurrence_clash :: "occurrence \<Rightarrow> occurrence \<Rightarrow> bool" where
  "occurrence_clash new old \<longleftrightarrow> ol_pk old = ol_pk new \<or> ol_key old = ol_key new \<or>
     (ol_at new \<noteq> None \<and> ol_account old = ol_account new \<and> ol_ticket old = ol_ticket new \<and>
      ol_type old = ol_type new \<and> ol_at old = ol_at new)"

definition occurrence_check :: "occurrence \<Rightarrow> bool" where
  "occurrence_check r \<longleftrightarrow> (ol_status r = Proven \<longrightarrow> ol_at r \<noteq> None) \<and>
     (ol_status r = Materialization_Pending \<longrightarrow> ol_processing r \<noteq> Occ_Processed)"

definition insert_occurrence :: "occurrence \<Rightarrow> site \<Rightarrow> (site \<times> occurrence) result" where
  "insert_occurrence r s =
     (let r' = r\<lparr>ol_pk := db_next_pk (st_db s)\<rparr>
      in if \<not> occurrence_check r' \<or> list_ex (occurrence_clash r') (st_occs s) then Inl IntegrityError
         else Inr (s\<lparr>st_occs := st_occs s @ [r'], st_db := (st_db s)\<lparr>db_next_pk := Suc (db_next_pk (st_db s))\<rparr>\<rparr>, r'))"

definition save_occurrence :: "occurrence \<Rightarrow> site \<Rightarrow> site result" where
  "save_occurrence r s =
     (if \<not> occurrence_check r \<or> list_ex (\<lambda>o'. ol_pk o' \<noteq> ol_pk r \<and> occurrence_clash r o') (st_occs s) then Inl IntegrityError
      else Inr (s\<lparr>st_occs := save_row ol_pk r (st_occs s)\<rparr>))"

section \<open>The interval of a close\<close>

datatype close_classification =
  Applied_Current | Applied_Historical | Close_Duplicate | No_Cycle | Close_Identity_Unavailable |
  Reopen_Not_Materialized | Provider_Unavailable | Close_Conflict

record close_occurrence =
  to_ticket :: string
  to_at :: instant
  to_owner :: "int option"
  to_event :: string

record close_result =
  cr_class :: close_classification
  cr_cycle :: "uuid option"
  cr_current :: bool

definition close_result :: "close_classification \<Rightarrow> uuid option \<Rightarrow> bool \<Rightarrow> close_result" where
  "close_result c k cur = \<lparr>cr_class = c, cr_cycle = k, cr_current = cur\<rparr>"

definition resolve_close_target :: "cycle list \<Rightarrow> instant \<Rightarrow> close_result" where
  "resolve_close_target cycles t =
     (if cycles = [] then close_result No_Cycle None False
      else if list_ex (\<lambda>c. cy_entered_at c = None) cycles \<or>
              length (remdups (map (\<lambda>c. (cy_source_system c, cy_account c)) cycles)) \<noteq> 1
           then close_result Close_Identity_Unavailable None False
      else (let ordered = sort_key (\<lambda>c. the (cy_entered_at c)) cycles;
                eligible = filter (\<lambda>c. the (cy_entered_at c) \<le> t) ordered
            in if eligible = [] then close_result No_Cycle None False
               else (let target = last eligible;
                         historical = (cy_pk target \<noteq> cy_pk (last ordered))
                     in if cy_state target = Cancelled then close_result Close_Conflict (Some (cy_pk target)) False
                        else if cy_state target = Closed then close_result Close_Duplicate (Some (cy_pk target)) False
                        else close_result (if historical then Applied_Historical else Applied_Current)
                               (Some (cy_pk target)) (\<not> historical))))"

section \<open>Recording evidence\<close>

definition temporal_match :: "string \<Rightarrow> string \<Rightarrow> occurrence_type \<Rightarrow> instant \<Rightarrow> occurrence \<Rightarrow> bool" where
  "temporal_match account ticket ty t r \<longleftrightarrow> ol_account r = account \<and> ol_ticket r = ticket \<and> ol_type r = ty \<and> ol_at r = Some t"

record evidence =
  ob_source :: string
  ob_event :: string
  ob_updated :: "instant option"
  ob_observation :: string

definition reconcile_delay :: int where
  "reconcile_delay = seconds 30"

definition get_temporal :: "string \<Rightarrow> string \<Rightarrow> occurrence_type \<Rightarrow> instant \<Rightarrow> site \<Rightarrow> (site \<times> occurrence) result" where
  "get_temporal account ticket ty t s =
     (case first_row (temporal_match account ticket ty t) (st_occs s) of None \<Rightarrow> Inl DoesNotExist | Some r \<Rightarrow> Inr (s, r))"

definition proven_row :: "instant \<Rightarrow> string \<Rightarrow> string \<Rightarrow> occurrence_type \<Rightarrow> instant \<Rightarrow> evidence \<Rightarrow> occurrence" where
  "proven_row now account ticket ty t ev = \<lparr>ol_pk = 0, ol_account = account, ol_ticket = ticket, ol_type = ty, ol_at = Some t,
     ol_status = Proven, ol_source = ob_source ev, ol_key = Temporal_Key account ticket ty t, ol_event = ob_event ev,
     ol_updated = ob_updated ev, ol_observation = take 128 (ob_observation ev), ol_processing = Occ_Pending, ol_retries = 0,
     ol_next = (if ty \<in> {Ticket_Closed, Entered_Support_Queue} then Some (now + reconcile_delay) else None), ol_error = [],
     ol_created = now\<rparr>"

definition promoted_row :: "instant \<Rightarrow> instant \<Rightarrow> evidence \<Rightarrow> occurrence \<Rightarrow> occurrence" where
  "promoted_row now t ev r = r\<lparr>ol_at := Some t, ol_status := Proven, ol_source := ob_source ev, ol_event := ob_event ev,
     ol_updated := ob_updated ev, ol_observation := take 128 (ob_observation ev), ol_next := Some (now + reconcile_delay)\<rparr>"

definition ticket_cycles :: "site \<Rightarrow> string \<Rightarrow> string \<Rightarrow> cycle list" where
  "ticket_cycles s account ticket = filter (\<lambda>c. cy_account c = account \<and> cy_ticket c = ticket) (db_cycles (st_db s))"

text \<open>The pending close of the interval the timestamp falls into.\<close>

definition pending_close :: "string \<Rightarrow> string \<Rightarrow> instant \<Rightarrow> site \<Rightarrow> occurrence option" where
  "pending_close account ticket t s =
     first_row (\<lambda>r. ol_key r = Pending_Key account ticket (cr_cycle (resolve_close_target (ticket_cycles s account ticket) t)) \<and>
                    ol_status r = Materialization_Pending) (st_occs s)"

definition record_proven_occurrence ::
  "instant \<Rightarrow> string \<Rightarrow> string \<Rightarrow> occurrence_type \<Rightarrow> instant \<Rightarrow> evidence \<Rightarrow> site \<Rightarrow> (site \<times> occurrence) result" where
  "record_proven_occurrence now account ticket ty t ev s =
     (if strip account = [] \<or> strip ticket = [] then Inl InvalidOccurrenceEvidenceError
      else case first_row (temporal_match account ticket ty t) (st_occs s) of
             Some r \<Rightarrow> Inr (s, r)
           | None \<Rightarrow>
               (case (if ty = Ticket_Closed then pending_close account ticket t s else None) of
                  Some p \<Rightarrow>
                    (case save_occurrence (promoted_row now t ev p) s of
                       Inr s' \<Rightarrow> Inr (s', promoted_row now t ev p)
                     | Inl _ \<Rightarrow> get_temporal account ticket ty t s)
                | None \<Rightarrow>
                    (case insert_occurrence (proven_row now account ticket ty t ev) s of
                       Inr r \<Rightarrow> Inr r
                     | Inl _ \<Rightarrow> get_temporal account ticket ty t s)))"

definition pending_row :: "instant \<Rightarrow> string \<Rightarrow> string \<Rightarrow> uuid option \<Rightarrow> instant option \<Rightarrow> string \<Rightarrow> occurrence" where
  "pending_row now account ticket k updated obs = \<lparr>ol_pk = 0, ol_account = account, ol_ticket = ticket, ol_type = Ticket_Closed,
     ol_at = None, ol_status = Materialization_Pending, ol_source = ''crm_readback'', ol_key = Pending_Key account ticket k,
     ol_event = [], ol_updated = updated, ol_observation = take 128 obs, ol_processing = Occ_Pending, ol_retries = 0,
     ol_next = Some (now + reconcile_delay), ol_error = [], ol_created = now\<rparr>"

text \<open>The flag says whether the reconciliation task is scheduled on commit.\<close>

definition record_pending_close ::
  "instant \<Rightarrow> string \<Rightarrow> string \<Rightarrow> uuid option \<Rightarrow> instant option \<Rightarrow> string \<Rightarrow> bool \<Rightarrow> site \<Rightarrow> (site \<times> occurrence \<times> bool) result" where
  "record_pending_close now account ticket k updated obs schedule s =
     (if strip account = [] \<or> strip ticket = [] then Inl InvalidOccurrenceEvidenceError
      else case get_row ol_key (Pending_Key account ticket k) (st_occs s) of
             Some r \<Rightarrow> Inr (s, r, False)
           | None \<Rightarrow> and_then (insert_occurrence (pending_row now account ticket k updated obs) s)
                       (\<lambda>(s', r). Inr (s', r, schedule)))"

definition mark_processed :: "uuid \<Rightarrow> site \<Rightarrow> site" where
  "mark_processed k s = s\<lparr>st_occs := update_rows (\<lambda>r. ol_pk r = k \<and> ol_status r = Proven \<and> ol_processing r = Occ_Pending)
     (\<lambda>r. r\<lparr>ol_processing := Occ_Processed, ol_next := None\<rparr>) (st_occs s)\<rparr>"

definition owner_occurrence_matches_cycle :: "occurrence \<Rightarrow> uuid option \<Rightarrow> site \<Rightarrow> bool" where
  "owner_occurrence_matches_cycle r k s =
     (case (k, ol_at r) of
        (Some c, Some t) \<Rightarrow>
          exists_row (\<lambda>y. cy_pk y = c \<and> cy_account y = ol_account r \<and> cy_ticket y = ol_ticket r \<and>
              (case cy_entered_at y of None \<Rightarrow> False | Some e \<Rightarrow> e \<le> t) \<and>
              (case cy_closed_at y of None \<Rightarrow> True | Some u \<Rightarrow> t \<le> u)) (db_cycles (st_db s))
      | _ \<Rightarrow> False)"

text \<open>\<open>open_or_get_cycle\<close> on the tables, without a concurrent insert.\<close>

definition open_cycle :: "settings \<Rightarrow> string \<Rightarrow> entry_value \<Rightarrow> string option \<Rightarrow> string option \<Rightarrow> db \<Rightarrow> (db \<times> open_result) result" where
  "open_cycle cfg ticket v event account d =
     and_then (open_or_get_cycle (key_env cfg) (db_next_pk d) ticket v event account [] (db_cycles d)) (\<lambda>(rows, r).
       Inr (d\<lparr>db_cycles := rows,
              db_next_pk := (if or_classification r = Created then Suc (db_next_pk d) else db_next_pk d)\<rparr>, r))"

definition open_from_proven_occurrence ::
  "settings \<Rightarrow> instant \<Rightarrow> string \<Rightarrow> instant \<Rightarrow> string \<Rightarrow> evidence \<Rightarrow> site \<Rightarrow> (site \<times> open_result) result" where
  "open_from_proven_occurrence cfg now ticket entered account ev s =
     and_then (record_proven_occurrence now account ticket Entered_Support_Queue entered (ev\<lparr>ob_updated := None\<rparr>) s) (\<lambda>(s1, r).
     and_then (open_cycle cfg ticket (AwareDatetime entered) (Some (ob_event ev)) (Some account) (st_db s1)) (\<lambda>(d, res).
       let s2 = s1\<lparr>st_db := d\<rparr>
       in Inr (if or_classification res \<in> {Created, Duplicate} then mark_processed (ol_pk r) s2 else s2, res)))"

section \<open>The ledger\<close>

definition evidence_ok :: "site \<Rightarrow> bool" where
  "evidence_ok s \<longleftrightarrow> distinct (map ol_pk (st_occs s)) \<and>
     (\<forall>r \<in> set (st_occs s). ol_pk r < db_next_pk (st_db s) \<and> occurrence_check r) \<and>
     (\<forall>a \<in> set (st_occs s). \<forall>b \<in> set (st_occs s). ol_pk a \<noteq> ol_pk b \<longrightarrow> \<not> occurrence_clash a b) \<and>
     (\<forall>r \<in> set (st_occs s). case ol_key r of
         Temporal_Key account ticket ty t \<Rightarrow> temporal_match account ticket ty t r
       | Pending_Key account ticket k \<Rightarrow> ol_account r = account \<and> ol_ticket r = ticket \<and> ol_type r = Ticket_Closed)"

lemma evidence_okD:
  assumes "evidence_ok s"
  shows "distinct (map ol_pk (st_occs s))" "\<And>r. r \<in> set (st_occs s) \<Longrightarrow> ol_pk r < db_next_pk (st_db s)"
    "\<And>r. r \<in> set (st_occs s) \<Longrightarrow> occurrence_check r"
    "\<And>a b. a \<in> set (st_occs s) \<Longrightarrow> b \<in> set (st_occs s) \<Longrightarrow> ol_pk a \<noteq> ol_pk b \<Longrightarrow> \<not> occurrence_clash a b"
    "\<And>r account ticket ty t. r \<in> set (st_occs s) \<Longrightarrow> ol_key r = Temporal_Key account ticket ty t \<Longrightarrow> temporal_match account ticket ty t r"
    "\<And>r account ticket k. r \<in> set (st_occs s) \<Longrightarrow> ol_key r = Pending_Key account ticket k \<Longrightarrow>
       ol_account r = account \<and> ol_ticket r = ticket \<and> ol_type r = Ticket_Closed"
  using assms unfolding evidence_ok_def by (blast, blast, blast, blast, fastforce, fastforce)

lemma occurrence_clash_sym: "occurrence_clash a b = occurrence_clash b a"
  by (auto simp: occurrence_clash_def)

lemma same_row: "evidence_ok s \<Longrightarrow> a \<in> set (st_occs s) \<Longrightarrow> b \<in> set (st_occs s) \<Longrightarrow> ol_pk a = ol_pk b \<Longrightarrow> a = b"
  using evidence_okD(1) by (auto simp: distinct_map dest: inj_onD)

lemma temporal_unique:
  assumes "evidence_ok s" and "a \<in> set (st_occs s)" and "b \<in> set (st_occs s)"
    and "temporal_match account ticket ty t a" and "temporal_match account ticket ty t b"
  shows "a = b"
proof -
  have "occurrence_clash a b" using assms(4,5) by (simp add: occurrence_clash_def temporal_match_def)
  then have "ol_pk a = ol_pk b" using evidence_okD(4) [OF assms(1-3)] by blast
  then show ?thesis by (rule same_row [OF assms(1-3)])
qed

definition key_ok :: "occurrence \<Rightarrow> bool" where
  "key_ok r = (case ol_key r of
         Temporal_Key account ticket ty t \<Rightarrow> temporal_match account ticket ty t r
       | Pending_Key account ticket k \<Rightarrow> ol_account r = account \<and> ol_ticket r = ticket \<and> ol_type r = Ticket_Closed)"

lemma evidence_ok_key: "evidence_ok s \<Longrightarrow> r \<in> set (st_occs s) \<Longrightarrow> key_ok r"
  unfolding evidence_ok_def key_ok_def by blast

lemma evidence_okI:
  assumes "distinct (map ol_pk (st_occs s))" and "\<And>r. r \<in> set (st_occs s) \<Longrightarrow> ol_pk r < db_next_pk (st_db s)"
    and "\<And>r. r \<in> set (st_occs s) \<Longrightarrow> occurrence_check r" and "\<And>r. r \<in> set (st_occs s) \<Longrightarrow> key_ok r"
    and "\<And>a b. a \<in> set (st_occs s) \<Longrightarrow> b \<in> set (st_occs s) \<Longrightarrow> ol_pk a \<noteq> ol_pk b \<Longrightarrow> \<not> occurrence_clash a b"
  shows "evidence_ok s"
  unfolding evidence_ok_def using assms unfolding key_ok_def by blast

lemma insert_occurrence_ok:
  assumes "evidence_ok s" and "insert_occurrence r s = Inr (s', r')" and "key_ok r"
  shows "evidence_ok s'" "r' = r\<lparr>ol_pk := db_next_pk (st_db s)\<rparr>" "st_occs s' = st_occs s @ [r']"
    "st_conv s' = st_conv s" "st_db s' = (st_db s)\<lparr>db_next_pk := Suc (db_next_pk (st_db s))\<rparr>"
proof -
  have free: "\<not> list_ex (occurrence_clash (r\<lparr>ol_pk := db_next_pk (st_db s)\<rparr>)) (st_occs s)"
      "occurrence_check (r\<lparr>ol_pk := db_next_pk (st_db s)\<rparr>)"
    and e: "r' = r\<lparr>ol_pk := db_next_pk (st_db s)\<rparr>"
      "s' = s\<lparr>st_occs := st_occs s @ [r'], st_db := (st_db s)\<lparr>db_next_pk := Suc (db_next_pk (st_db s))\<rparr>\<rparr>"
    using assms(2) by (auto simp: insert_occurrence_def Let_def split: if_splits)
  show "r' = r\<lparr>ol_pk := db_next_pk (st_db s)\<rparr>" "st_occs s' = st_occs s @ [r']"
    "st_conv s' = st_conv s" "st_db s' = (st_db s)\<lparr>db_next_pk := Suc (db_next_pk (st_db s))\<rparr>"
    using e by simp_all
  note d = evidence_okD [OF assms(1)]
  have new: "\<not> occurrence_clash r' b" "\<not> occurrence_clash b r'" if "b \<in> set (st_occs s)" for b
    using free(1) that e(1) by (simp_all add: list_ex_iff occurrence_clash_sym [of b])
  show "evidence_ok s'"
  proof (rule evidence_okI)
    have "ol_pk r' \<notin> ol_pk ` set (st_occs s)"
    proof
      assume "ol_pk r' \<in> ol_pk ` set (st_occs s)"
      then obtain b where "b \<in> set (st_occs s)" "ol_pk b = ol_pk r'" by auto
      then show False using d(2) [of b] e(1) by simp
    qed
    then show "distinct (map ol_pk (st_occs s'))" using d(1) e(2) by simp
    fix a
    assume a: "a \<in> set (st_occs s')"
    show "ol_pk a < db_next_pk (st_db s')" using a d(2) [of a] e by auto
    show "occurrence_check a" using a d(3) [of a] e free(2) by auto
    have "key_ok r'" using assms(3) e(1) by (auto simp: key_ok_def temporal_match_def split: evidence_key.splits)
    then show "key_ok a" using a evidence_ok_key [OF assms(1)] e(2) by auto
    fix b
    assume "b \<in> set (st_occs s')" "ol_pk a \<noteq> ol_pk b"
    then show "\<not> occurrence_clash a b" using a new d(4) e(2) by auto
  qed
qed

lemma save_occurrence_ok:
  assumes "evidence_ok s" and "p \<in> set (st_occs s)" and "ol_pk r = ol_pk p" and "key_ok r" and "save_occurrence r s = Inr s'"
  shows "evidence_ok s'" "r \<in> set (st_occs s')" "s' = s\<lparr>st_occs := save_row ol_pk r (st_occs s)\<rparr>"
proof -
  note d = evidence_okD [OF assms(1)]
  have free: "\<not> list_ex (\<lambda>o'. ol_pk o' \<noteq> ol_pk r \<and> occurrence_clash r o') (st_occs s)" "occurrence_check r"
    and s': "s' = s\<lparr>st_occs := save_row ol_pk r (st_occs s)\<rparr>"
    using assms(5) by (simp_all add: save_occurrence_def split: if_splits)
  show "s' = s\<lparr>st_occs := save_row ol_pk r (st_occs s)\<rparr>" by (rule s')
  show "r \<in> set (st_occs s')" using assms(2,3) by (force simp: s' save_row_def)
  have mem: "x = r \<or> x \<in> set (st_occs s) \<and> ol_pk x \<noteq> ol_pk r" if "x \<in> set (st_occs s')" for x
    using that in_save_row [of x ol_pk r "st_occs s"] by (simp add: s')
  show "evidence_ok s'"
  proof (rule evidence_okI)
    show "distinct (map ol_pk (st_occs s'))" using d(1) by (simp add: s')
    fix a
    assume a: "a \<in> set (st_occs s')"
    show "ol_pk a < db_next_pk (st_db s')" using mem [OF a] d(2) assms(2,3) by (auto simp: s')
    show "occurrence_check a" using mem [OF a] d(3) free(2) by blast
    show "key_ok a" using mem [OF a] evidence_ok_key [OF assms(1)] assms(4) by blast
    fix b
    assume b: "b \<in> set (st_occs s')" "ol_pk a \<noteq> ol_pk b"
    have c: "\<not> occurrence_clash r x" "\<not> occurrence_clash x r" if "x \<in> set (st_occs s)" "ol_pk x \<noteq> ol_pk r" for x
      using free(1) that by (auto simp: list_ex_iff occurrence_clash_sym [of x])
    show "\<not> occurrence_clash a b" using mem [OF a] mem [OF b(1)] b(2) c d(4) by metis
  qed
qed

lemma mark_processed_ok:
  assumes "evidence_ok s"
  shows "evidence_ok (mark_processed k s)" "map ol_pk (st_occs (mark_processed k s)) = map ol_pk (st_occs s)"
proof -
  let ?P = "\<lambda>r. ol_pk r = k \<and> ol_status r = Proven \<and> ol_processing r = Occ_Pending"
  let ?f = "\<lambda>r. r\<lparr>ol_processing := Occ_Processed, ol_next := None\<rparr>"
  note d = evidence_okD [OF assms]
  have rows: "st_occs (mark_processed k s) = update_rows ?P ?f (st_occs s)" by (simp add: mark_processed_def)
  show pks: "map ol_pk (st_occs (mark_processed k s)) = map ol_pk (st_occs s)" by (simp add: rows)
  have src: "\<exists>b \<in> set (st_occs s). ol_pk a = ol_pk b \<and> ol_key a = ol_key b \<and> ol_account a = ol_account b \<and> ol_ticket a = ol_ticket b \<and>
      ol_type a = ol_type b \<and> ol_at a = ol_at b \<and> ol_status a = ol_status b \<and> (ol_processing a = ol_processing b \<or> ol_status b = Proven)"
    if "a \<in> set (st_occs (mark_processed k s))" for a
    proof -
    have "\<exists>b \<in> set (st_occs s). a = (if ?P b then ?f b else b)" using that unfolding rows by (rule in_update_rows)
    then obtain b where b: "b \<in> set (st_occs s)" "a = (if ?P b then ?f b else b)" by blast
    then show ?thesis by (intro bexI [of _ b]) (cases "?P b", simp_all)
  qed
  show "evidence_ok (mark_processed k s)"
  proof (rule evidence_okI)
    show "distinct (map ol_pk (st_occs (mark_processed k s)))" using d(1) pks by simp
    fix a
    assume a: "a \<in> set (st_occs (mark_processed k s))"
    then obtain a' where a': "a' \<in> set (st_occs s)" "ol_pk a = ol_pk a'" "ol_key a = ol_key a'" "ol_account a = ol_account a'"
      "ol_ticket a = ol_ticket a'" "ol_type a = ol_type a'" "ol_at a = ol_at a'" "ol_status a = ol_status a'"
      "ol_processing a = ol_processing a' \<or> ol_status a' = Proven"
      using src by blast
    show "ol_pk a < db_next_pk (st_db (mark_processed k s))" using d(2) [OF a'(1)] a'(2) by (simp add: mark_processed_def)
    show "occurrence_check a" using d(3) [OF a'(1)] a'(7-9) by (auto simp: occurrence_check_def)
    show "key_ok a" using evidence_ok_key [OF assms a'(1)] a'(3-7)
      by (auto simp: key_ok_def temporal_match_def split: evidence_key.splits)
    fix b
    assume "b \<in> set (st_occs (mark_processed k s))" and n: "ol_pk a \<noteq> ol_pk b"
    then obtain b' where b': "b' \<in> set (st_occs s)" "ol_pk b = ol_pk b'" "ol_key b = ol_key b'" "ol_account b = ol_account b'"
      "ol_ticket b = ol_ticket b'" "ol_type b = ol_type b'" "ol_at b = ol_at b'"
      using src by blast
    have "\<not> occurrence_clash a' b'" by (rule d(4) [OF a'(1) b'(1)]) (use n a'(2) b'(2) in simp)
    then show "\<not> occurrence_clash a b" using a'(2-7) b'(2-7) by (simp add: occurrence_clash_def)
  qed
qed

section \<open>Proven occurrences\<close>

definition identified_ticket :: "string \<Rightarrow> string \<Rightarrow> bool" where
  "identified_ticket account ticket \<longleftrightarrow> strip account \<noteq> [] \<and> strip ticket \<noteq> []"

lemma pending_close_row:
  assumes "evidence_ok s" and "pending_close account ticket t s = Some p"
  shows "p \<in> set (st_occs s)" "ol_account p = account" "ol_ticket p = ticket" "ol_type p = Ticket_Closed"
    "ol_status p = Materialization_Pending" "ol_key p = Pending_Key account ticket (cr_cycle (resolve_close_target (ticket_cycles s account ticket) t))"
  using first_row_Some [OF assms(2) [unfolded pending_close_def]] evidence_okD(6) [OF assms(1)] by auto

lemma no_match_clash:
  assumes "first_row (temporal_match account ticket ty t) (st_occs s) = None" and "r \<in> set (st_occs s)"
  shows "\<not> (ol_account r = account \<and> ol_ticket r = ticket \<and> ol_type r = ty \<and> ol_at r = Some t)"
  using assms by (auto simp: first_row_None temporal_match_def)

text \<open>What a recording commits: the row that was there, the promoted pending close, or a new row.\<close>

lemma record_proven_cases:
  assumes "evidence_ok s" and "identified_ticket account ticket"
  obtains (known) r where "first_row (temporal_match account ticket ty t) (st_occs s) = Some r"
      "record_proven_occurrence now account ticket ty t ev s = Inr (s, r)"
  | (promoted) p s' where "first_row (temporal_match account ticket ty t) (st_occs s) = None" "ty = Ticket_Closed"
      "pending_close account ticket t s = Some p"
      "record_proven_occurrence now account ticket ty t ev s = Inr (s', promoted_row now t ev p)"
      "s' = s\<lparr>st_occs := save_row ol_pk (promoted_row now t ev p) (st_occs s)\<rparr>" "evidence_ok s'" "promoted_row now t ev p \<in> set (st_occs s')"
  | (fresh) r s' where "first_row (temporal_match account ticket ty t) (st_occs s) = None"
      "ty = Ticket_Closed \<Longrightarrow> pending_close account ticket t s = None"
      "record_proven_occurrence now account ticket ty t ev s = Inr (s', r)" "st_occs s' = st_occs s @ [r]" "evidence_ok s'"
      "r = (proven_row now account ticket ty t ev)\<lparr>ol_pk := db_next_pk (st_db s)\<rparr>" "st_conv s' = st_conv s"
      "st_db s' = (st_db s)\<lparr>db_next_pk := Suc (db_next_pk (st_db s))\<rparr>"
proof -
  have ids: "strip account \<noteq> []" "strip ticket \<noteq> []" using assms(2) by (simp_all add: identified_ticket_def)
  note d = evidence_okD [OF assms(1)]
  show thesis
  proof (cases "first_row (temporal_match account ticket ty t) (st_occs s)")
    case (Some r)
    then show thesis using known ids by (simp add: record_proven_occurrence_def)
  next
    case None
    note free = no_match_clash [OF None]
    show thesis
    proof (cases "if ty = Ticket_Closed then pending_close account ticket t s else None")
      case (Some p)
      then have ty: "ty = Ticket_Closed" "pending_close account ticket t s = Some p" by (simp_all split: if_splits)
      note p = pending_close_row [OF assms(1) ty(2)]
      let ?r = "promoted_row now t ev p"
      have chk: "occurrence_check ?r" by (simp add: occurrence_check_def promoted_row_def)
      have "\<not> occurrence_clash ?r b" if "b \<in> set (st_occs s)" "ol_pk b \<noteq> ol_pk ?r" for b
      proof -
        have "\<not> occurrence_clash p b" by (rule d(4) [OF p(1) that(1)]) (use that(2) in \<open>simp add: promoted_row_def\<close>)
        moreover have "\<not> (ol_account b = account \<and> ol_ticket b = ticket \<and> ol_type b = Ticket_Closed \<and> ol_at b = Some t)"
          using free [OF that(1)] ty(1) by simp
        ultimately show ?thesis using p(2-4) by (auto simp: occurrence_clash_def promoted_row_def)
      qed
      then have save: "save_occurrence ?r s = Inr (s\<lparr>st_occs := save_row ol_pk ?r (st_occs s)\<rparr>)"
        using chk by (auto simp: save_occurrence_def list_ex_iff)
      have key: "key_ok ?r" using p by (simp add: key_ok_def promoted_row_def)
      have pk: "ol_pk ?r = ol_pk p" by (simp add: promoted_row_def)
      note ok = save_occurrence_ok [OF assms(1) p(1) pk key save]
      have "record_proven_occurrence now account ticket ty t ev s = Inr (s\<lparr>st_occs := save_row ol_pk ?r (st_occs s)\<rparr>, ?r)"
        using ids None ty save by (simp add: record_proven_occurrence_def)
      then show thesis using promoted [OF None ty] ok by simp
    next
      case none: None
      let ?r = "(proven_row now account ticket ty t ev)\<lparr>ol_pk := db_next_pk (st_db s)\<rparr>"
      have "\<not> occurrence_clash ?r b" if "b \<in> set (st_occs s)" for b
      proof -
        have "ol_key b \<noteq> Temporal_Key account ticket ty t"
          using d(5) [OF that] free [OF that] by (auto simp: temporal_match_def)
        moreover have "ol_pk b \<noteq> db_next_pk (st_db s)" using d(2) [OF that] by simp
        ultimately show ?thesis using free [OF that] by (auto simp: occurrence_clash_def proven_row_def)
      qed
      moreover have "occurrence_check ?r" by (simp add: occurrence_check_def proven_row_def)
      ultimately have ins: "insert_occurrence (proven_row now account ticket ty t ev) s =
          Inr (s\<lparr>st_occs := st_occs s @ [?r], st_db := (st_db s)\<lparr>db_next_pk := Suc (db_next_pk (st_db s))\<rparr>\<rparr>, ?r)"
        by (auto simp: insert_occurrence_def list_ex_iff Let_def)
      have key: "key_ok (proven_row now account ticket ty t ev)" by (simp add: key_ok_def proven_row_def temporal_match_def)
      note ok = insert_occurrence_ok [OF assms(1) ins key]
      have run: "record_proven_occurrence now account ticket ty t ev s =
          Inr (s\<lparr>st_occs := st_occs s @ [?r], st_db := (st_db s)\<lparr>db_next_pk := Suc (db_next_pk (st_db s))\<rparr>\<rparr>, ?r)"
        using ids None none ins by (simp add: record_proven_occurrence_def)
      have pend: "ty = Ticket_Closed \<Longrightarrow> pending_close account ticket t s = None" using none by simp
      show thesis by (rule fresh [OF None pend run]) (use ok in simp_all)
    qed
  qed
qed

lemma first_row_unique:
  assumes "evidence_ok s" and "r \<in> set (st_occs s)" and "temporal_match account ticket ty t r"
  shows "first_row (temporal_match account ticket ty t) (st_occs s) = Some r"
proof (cases "first_row (temporal_match account ticket ty t) (st_occs s)")
  case None
  then show ?thesis using assms by (auto simp: first_row_None)
next
  case (Some q)
  then show ?thesis using first_row_Some [OF Some] temporal_unique [OF assms(1) _ assms(2) _ assms(3), of q] by simp
qed

text \<open>Evidence for an identified ticket is always recorded, and once: the ledger keeps its
  unique identities, the row carries the given account, ticket, type and time, the row count grows
  by at most one, and recording the same identity again, with whatever evidence, changes nothing.\<close>

theorem evidence_recorded_once:
  assumes "evidence_ok s" and "identified_ticket account ticket"
  shows "\<exists>s' r. record_proven_occurrence now account ticket ty t ev s = Inr (s', r) \<and> evidence_ok s' \<and>
    r \<in> set (st_occs s') \<and> temporal_match account ticket ty t r \<and>
    length (st_occs s') \<le> Suc (length (st_occs s)) \<and> st_conv s' = st_conv s \<and>
    (\<forall>now' ev'. record_proven_occurrence now' account ticket ty t ev' s' = Inr (s', r))"
proof -
  have ids: "strip account \<noteq> []" "strip ticket \<noteq> []" using assms(2) by (simp_all add: identified_ticket_def)
  have again: "record_proven_occurrence now' account ticket ty t ev' s' = Inr (s', r)"
    if "evidence_ok s'" "r \<in> set (st_occs s')" "temporal_match account ticket ty t r" for s' r now' ev'
    using first_row_unique [OF that] ids by (simp add: record_proven_occurrence_def)
  from assms show ?thesis
  proof (cases rule: record_proven_cases [where ty = ty and t = t and now = now and ev = ev])
    case (known r)
    have "r \<in> set (st_occs s)" "temporal_match account ticket ty t r" using first_row_Some [OF known(1)] by blast+
    then show ?thesis using known(2) assms(1) again by (intro exI [of _ s] exI [of _ r]) simp
  next
    case (promoted p s')
    let ?r = "promoted_row now t ev p"
    have "temporal_match account ticket ty t ?r"
      using pending_close_row [OF assms(1) promoted(3)] promoted(2) by (simp add: temporal_match_def promoted_row_def)
    then show ?thesis using promoted again by (intro exI [of _ s'] exI [of _ ?r]) simp
  next
    case (fresh r s')
    have "temporal_match account ticket ty t r" using fresh(6) by (simp add: temporal_match_def proven_row_def)
    then show ?thesis using fresh again by (intro exI [of _ s'] exI [of _ r]) simp
  qed
qed

text \<open>A pending close is turned into the proven one, in its row: no second row appears.  The row
  keeps its pending key, so a later close observed without a timestamp under the same key (always
  the same one while no cycle is active) finds it and is not kept pending, nor scheduled.\<close>

theorem promoted_close_shadows_later_ones:
  assumes "evidence_ok s" and "identified_ticket account ticket" and "pending_close account ticket t s = Some p"
    and "first_row (temporal_match account ticket Ticket_Closed t) (st_occs s) = None"
  shows "\<exists>s' r. record_proven_occurrence now account ticket Ticket_Closed t ev s = Inr (s', r) \<and>
    map ol_pk (st_occs s') = map ol_pk (st_occs s) \<and> ol_pk r = ol_pk p \<and> ol_status r = Proven \<and> ol_at r = Some t \<and>
    (\<forall>now' updated obs. record_pending_close now' account ticket
       (cr_cycle (resolve_close_target (ticket_cycles s account ticket) t)) updated obs True s' = Inr (s', r, False))"
  using assms(1,2)
proof (cases rule: record_proven_cases [where ty = Ticket_Closed and t = t and now = now and ev = ev])
  case (known r)
  then show ?thesis using assms(4) by simp
next
  case (fresh r s')
  then show ?thesis using assms(3) by simp
next
  case (promoted q s')
  let ?r = "promoted_row now t ev p" and ?k = "cr_cycle (resolve_close_target (ticket_cycles s account ticket) t)"
  have q: "q = p" using promoted(3) assms(3) by simp
  have key: "ol_key ?r = Pending_Key account ticket ?k"
    using pending_close_row(6) [OF assms(1,3)] by (simp add: promoted_row_def)
  have rin: "?r \<in> set (st_occs s')" using promoted(7) q by simp
  have "get_row ol_key (Pending_Key account ticket ?k) (st_occs s') = Some ?r"
  proof (cases "get_row ol_key (Pending_Key account ticket ?k) (st_occs s')")
    case None
    then show ?thesis using rin key by (simp add: get_row_None)
  next
    case (Some x)
    have x: "x \<in> set (st_occs s')" "ol_key x = ol_key ?r" using get_row_Some_in [OF Some] key by simp_all
    then have "occurrence_clash x ?r" by (simp add: occurrence_clash_def)
    then have "ol_pk x = ol_pk ?r" using evidence_okD(4) [OF promoted(6) x(1) rin] by blast
    then have "x = ?r" by (rule same_row [OF promoted(6) x(1) rin])
    then show ?thesis using Some by simp
  qed
  then have "record_pending_close now' account ticket ?k updated obs True s' = Inr (s', ?r, False)" for now' updated obs
    using assms(2) by (simp add: record_pending_close_def identified_ticket_def)
  then show ?thesis using promoted(4,5) q
    by (intro exI [of _ s'] exI [of _ ?r]) (simp add: promoted_row_def)
qed

section \<open>Closes and intervals\<close>

definition comparable :: "cycle list \<Rightarrow> bool" where
  "comparable cycles \<longleftrightarrow> (\<forall>c \<in> set cycles. cy_entered_at c \<noteq> None) \<and>
     length (remdups (map (\<lambda>c. (cy_source_system c, cy_account c)) cycles)) = 1 \<and>
     distinct (map cy_entered_at cycles) \<and> distinct (map cy_pk cycles)"

lemma last_sort_key_max:
  assumes "x \<in> set xs"
  shows "f x \<le> f (last (sort_key f xs))"
proof -
  have ne: "sort_key f xs \<noteq> []" using assms by (metis empty_iff empty_set set_sort)
  have "sorted (map f (sort_key f xs))" by simp
  then have "\<forall>y \<in> set (butlast (sort_key f xs)). f y \<le> f (last (sort_key f xs))"
    using append_butlast_last_id [OF ne] by (metis (no_types, lifting) sorted_append map_append list.simps(9)
      list.set_intros(1) image_eqI list.set_map)
  moreover have "x \<in> set (sort_key f xs)" using assms by simp
  ultimately show ?thesis using mem_butlast_or_last [of x "sort_key f xs"] by auto
qed

lemma entered_inj:
  assumes "comparable cycles" and "c \<in> set cycles" and "d \<in> set cycles" and "the (cy_entered_at c) = the (cy_entered_at d)"
  shows "c = d"
proof -
  have "cy_entered_at c = cy_entered_at d" using assms unfolding comparable_def by (metis option.expand)
  then show ?thesis using assms(1-3) unfolding comparable_def by (auto simp: distinct_map dest: inj_onD)
qed

lemma resolve_hit:
  assumes "comparable cycles" and c: "c \<in> set cycles" "the (cy_entered_at c) \<le> t"
    and top: "\<forall>d \<in> set cycles. the (cy_entered_at d) \<le> t \<longrightarrow> the (cy_entered_at d) \<le> the (cy_entered_at c)"
  shows "resolve_close_target cycles t =
        (if cy_state c = Cancelled then close_result Close_Conflict (Some (cy_pk c)) False
         else if cy_state c = Closed then close_result Close_Duplicate (Some (cy_pk c)) False
         else if \<exists>d \<in> set cycles. t < the (cy_entered_at d) then close_result Applied_Historical (Some (cy_pk c)) False
         else close_result Applied_Current (Some (cy_pk c)) True)"
proof -
  let ?e = "\<lambda>c. the (cy_entered_at c)" and ?o = "sort_key (\<lambda>c. the (cy_entered_at c)) cycles"
  have ne: "cycles \<noteq> []" using c(1) by auto
  have ok: "\<not> list_ex (\<lambda>c. cy_entered_at c = None) cycles"
    "length (remdups (map (\<lambda>c. (cy_source_system c, cy_account c)) cycles)) = 1"
    using assms(1) by (auto simp: comparable_def list_ex_iff)
  let ?el = "filter (\<lambda>c. ?e c \<le> t) ?o"
  have cin: "c \<in> set ?el" using c by simp
  then have el: "?el \<noteq> []" by (rule mem_nonempty)
  have el_eq: "?el = sort_key ?e (filter (\<lambda>c. ?e c \<le> t) cycles)" by (simp add: filter_sort)
  have "last ?el \<in> set ?el" using el by (rule last_in_set)
  then have l: "last ?el \<in> set cycles" "?e (last ?el) \<le> t" by auto
  have "?e c \<le> ?e (last ?el)" unfolding el_eq by (rule last_sort_key_max) (use c in simp)
  moreover have "?e (last ?el) \<le> ?e c" using top l by blast
  ultimately have target: "last ?el = c" using entered_inj [OF assms(1) l(1) c(1)] by simp
  have o: "last ?o \<in> set cycles" using ne last_in_set [of ?o] by (metis set_sort sort_key_simps(1) set_empty)
  have hist: "(cy_pk c \<noteq> cy_pk (last ?o)) \<longleftrightarrow> (\<exists>d \<in> set cycles. t < ?e d)"
  proof
    assume "cy_pk c \<noteq> cy_pk (last ?o)"
    then have "last ?o \<noteq> c" by (metis (no_types))
    then have "?e (last ?o) \<noteq> ?e c" using entered_inj [OF assms(1) o c(1)] by metis
    moreover have "?e c \<le> ?e (last ?o)" by (rule last_sort_key_max [OF c(1)])
    ultimately have "\<not> ?e (last ?o) \<le> t" using top [rule_format, OF o] by linarith
    then show "\<exists>d \<in> set cycles. t < ?e d" using o by (intro bexI [of _ "last ?o"]) simp_all
  next
    assume "\<exists>d \<in> set cycles. t < ?e d"
    then obtain d where "d \<in> set cycles" "t < ?e d" by blast
    then have "?e c < ?e (last ?o)" using last_sort_key_max [of d cycles ?e] c(2) by simp
    then have "c \<noteq> last ?o" by auto
    moreover have "inj_on cy_pk (set cycles)" using assms(1) by (simp add: comparable_def distinct_map)
    ultimately show "cy_pk c \<noteq> cy_pk (last ?o)" using c(1) o by (auto dest: inj_onD)
  qed
  show ?thesis
  proof (cases "\<exists>d \<in> set cycles. t < ?e d")
    case True
    then have "cy_pk c \<noteq> cy_pk (last ?o)" using hist by blast
    then show ?thesis using ne ok el target True by (simp add: resolve_close_target_def Let_def del: bex_simps ball_simps)
  next
    case False
    then have "cy_pk c = cy_pk (last ?o)" using hist by blast
    then show ?thesis using ne ok el target False by (simp add: resolve_close_target_def Let_def)
  qed
  qed

lemma resolve_miss:
  assumes "comparable cycles" and "\<forall>c \<in> set cycles. t < the (cy_entered_at c)"
  shows "resolve_close_target cycles t = close_result No_Cycle None False"
proof -
  have "cycles \<noteq> []" "\<not> list_ex (\<lambda>c. cy_entered_at c = None) cycles"
    "length (remdups (map (\<lambda>c. (cy_source_system c, cy_account c)) cycles)) = 1"
    using assms(1) by (auto simp: comparable_def list_ex_iff)
  moreover have "filter (\<lambda>c. the (cy_entered_at c) \<le> t) (sort_key (\<lambda>c. the (cy_entered_at c)) cycles) = []"
    using assms(2) by (auto simp: filter_empty_conv)
  ultimately show ?thesis by (simp add: resolve_close_target_def Let_def)
qed

text \<open>With comparable cycles a close belongs to the attendance entered last before it: that one
  is applied, as historical exactly when a later attendance exists, unless it is cancelled (a
  conflict) or already closed (a duplicate); a close before every attendance has no cycle.\<close>

theorem close_belongs_to_its_interval:
  assumes "comparable cycles"
  shows "(\<forall>c \<in> set cycles. the (cy_entered_at c) \<le> t \<and> (\<forall>d \<in> set cycles. the (cy_entered_at d) \<le> t \<longrightarrow> the (cy_entered_at d) \<le> the (cy_entered_at c)) \<longrightarrow>
      resolve_close_target cycles t =
        (if cy_state c = Cancelled then close_result Close_Conflict (Some (cy_pk c)) False
         else if cy_state c = Closed then close_result Close_Duplicate (Some (cy_pk c)) False
         else if \<exists>d \<in> set cycles. t < the (cy_entered_at d) then close_result Applied_Historical (Some (cy_pk c)) False
         else close_result Applied_Current (Some (cy_pk c)) True)) \<and>
    ((\<forall>c \<in> set cycles. t < the (cy_entered_at c)) \<longrightarrow> resolve_close_target cycles t = close_result No_Cycle None False)"
  using resolve_hit [OF assms] resolve_miss [OF assms] by blast

section \<open>Opening a cycle from evidence\<close>

lemma mark_processed_again: "mark_processed k (mark_processed k s) = mark_processed k s"
  by (simp add: mark_processed_def update_rows_def comp_def)

lemma mark_processed_row:
  assumes "r \<in> set (st_occs s)" and "ol_pk r = k"
  obtains r' where "r' \<in> set (st_occs (mark_processed k s))" "ol_pk r' = k" "ol_account r' = ol_account r" "ol_ticket r' = ol_ticket r"
    "ol_type r' = ol_type r" "ol_at r' = ol_at r" "ol_status r' = ol_status r"
    "ol_status r = Proven \<Longrightarrow> ol_processing r' \<noteq> Occ_Pending"
proof -
  let ?P = "\<lambda>r. ol_pk r = k \<and> ol_status r = Proven \<and> ol_processing r = Occ_Pending"
  let ?r = "if ?P r then r\<lparr>ol_processing := Occ_Processed, ol_next := None\<rparr> else r"
  have "?r \<in> set (st_occs (mark_processed k s))"
    unfolding mark_processed_def update_rows_def using assms(1) by (simp del: if_split)
  then show thesis by (rule that) (use assms(2) in auto)
qed

lemma record_proven_facts:
  assumes "evidence_ok s" and "record_proven_occurrence now account ticket ty t ev s = Inr (s', r)"
  shows "identified_ticket account ticket" "evidence_ok s'" "r \<in> set (st_occs s')" "temporal_match account ticket ty t r"
    "db_cycles (st_db s') = db_cycles (st_db s)"
proof -
  show i: "identified_ticket account ticket"
    using assms(2) by (auto simp: record_proven_occurrence_def identified_ticket_def split: if_splits)
  from assms(1) i have "evidence_ok s' \<and> r \<in> set (st_occs s') \<and> temporal_match account ticket ty t r \<and>
      db_cycles (st_db s') = db_cycles (st_db s)"
  proof (cases rule: record_proven_cases [where ty = ty and t = t and now = now and ev = ev])
    case (known q)
    then show ?thesis using assms first_row_Some [OF known(1)] by simp
  next
    case (promoted p q)
    have e: "s' = q" "r = promoted_row now t ev p" using promoted(4) assms(2) by simp_all
    have "temporal_match account ticket ty t r"
      using pending_close_row [OF assms(1) promoted(3)] promoted(2) by (simp add: e temporal_match_def promoted_row_def)
    then show ?thesis using promoted(5-7) e by simp
  next
    case (fresh q u)
    have e: "s' = u" "r = q" using fresh(3) assms(2) by simp_all
    then show ?thesis using fresh(4-8) by (simp add: temporal_match_def proven_row_def)
  qed
  then show "evidence_ok s'" "r \<in> set (st_occs s')" "temporal_match account ticket ty t r"
    "db_cycles (st_db s') = db_cycles (st_db s)"
    by blast+
qed

lemma open_cycle_created:
  assumes "open_cycle cfg ticket (AwareDatetime t) event (Some account) d = Inr (d', res)" and "or_classification res = Created"
  obtains c ident where "build_cycle_identity (key_env cfg) ticket t (Some account) = Inr ident" "or_cycle res = Some c"
    "c = new_cycle (db_next_pk d) ident (opt_text event)" "db_cycles d' = db_cycles d @ [c]" "db_next_pk d' = Suc (db_next_pk d)"
proof -
  obtain ident where i: "build_cycle_identity (key_env cfg) ticket t (Some account) = Inr ident"
    and o: "open_identity (db_next_pk d) ident (opt_text event) [] (db_cycles d) = Inr (db_cycles d', res)"
    using assms by (auto simp: open_cycle_def open_or_get_cycle_def and_then_Inr_iff split: sum.splits)
  have "or_cycle res = Some (new_cycle (db_next_pk d) ident (opt_text event))"
    "db_cycles d' = db_cycles d @ [new_cycle (db_next_pk d) ident (opt_text event)]"
    using o assms(2) by (auto simp: open_identity_def Let_def insert_cycle_def split: sum.splits if_splits option.splits)
  moreover have "db_next_pk d' = Suc (db_next_pk d)"
    using assms by (auto simp: open_cycle_def and_then_Inr_iff)
  ultimately show thesis using that i by blast
qed

lemma open_cycle_again:
  assumes "build_cycle_identity (key_env cfg) ticket t (Some account) = Inr ident" and "c = new_cycle pk ident e"
    and "db_cycles d = rows @ [c]"
  shows "\<exists>res. open_cycle cfg ticket (AwareDatetime t) event (Some account) d = Inr (d, res) \<and>
    or_classification res = Duplicate \<and> or_cycle res = Some c"
proof -
  have known: "known_cycles ident (rows @ [c]) = known_cycles ident rows @ [c]"
    by (simp add: known_cycles_def assms(2) new_cycle_def)
  have key: "cy_key c = ci_key ident" by (simp add: assms(2) new_cycle_def)
  have "classify_cycle_admission ident (map snapshot_of (known_cycles ident (rows @ [c]))) = Inr Duplicate"
    by (simp add: classify_cycle_admission_def known snapshot_of_def key)
  moreover have "last_by_key (ci_key ident) (known_cycles ident (rows @ [c])) = Some c"
    by (simp add: last_by_key_def known key)
  ultimately show ?thesis
    using assms(1,3) by (simp add: open_cycle_def open_or_get_cycle_def open_identity_def Let_def)
qed

text \<open>A queue entry that opens a cycle leaves its evidence and a queued cycle with the proven
  entry time, the evidence no longer pending, and delivering the same entry again, with whatever
  evidence, answers duplicate with that cycle and changes nothing.\<close>

theorem queue_entry_opens_once:
  assumes "evidence_ok s" and "open_from_proven_occurrence cfg now ticket entered account ev s = Inr (s', res)"
    and "or_classification res = Created"
  shows "evidence_ok s' \<and> (\<exists>c. or_cycle res = Some c \<and> c \<in> set (db_cycles (st_db s')) \<and> cy_state c = Queued \<and>
      cy_entered_at c = Some entered \<and> length (db_cycles (st_db s')) = Suc (length (db_cycles (st_db s))) \<and>
      (\<exists>r \<in> set (st_occs s'). temporal_match account ticket Entered_Support_Queue entered r \<and>
         (ol_status r = Proven \<longrightarrow> ol_processing r \<noteq> Occ_Pending)) \<and>
      (\<forall>now' ev'. \<exists>res'. open_from_proven_occurrence cfg now' ticket entered account ev' s' = Inr (s', res') \<and>
         or_classification res' = Duplicate \<and> or_cycle res' = Some c))"
proof -
  from assms(2) obtain s1 r d where r: "record_proven_occurrence now account ticket Entered_Support_Queue entered (ev\<lparr>ob_updated := None\<rparr>) s = Inr (s1, r)"
    and o: "open_cycle cfg ticket (AwareDatetime entered) (Some (ob_event ev)) (Some account) (st_db s1) = Inr (d, res)"
    and s': "s' = mark_processed (ol_pk r) (s1\<lparr>st_db := d\<rparr>)"
    unfolding open_from_proven_occurrence_def Let_def using assms(3)
    by (elim and_then_InrE) (auto elim!: and_then_InrE)
  note f = record_proven_facts [OF assms(1) r]
  obtain c ident where c: "build_cycle_identity (key_env cfg) ticket entered (Some account) = Inr ident" "or_cycle res = Some c"
    "c = new_cycle (db_next_pk (st_db s1)) ident (opt_text (Some (ob_event ev)))" "db_cycles d = db_cycles (st_db s1) @ [c]"
    "db_next_pk d = Suc (db_next_pk (st_db s1))"
    by (rule open_cycle_created [OF o assms(3)])
  have ident: "ci_entered_at ident = entered"
    using c(1) by (auto simp: build_cycle_identity_def Let_def split: if_splits)
  have ok2: "evidence_ok (s1\<lparr>st_db := d\<rparr>)" using f(2) c(5) unfolding evidence_ok_def by (auto intro: less_SucI)
  have ok: "evidence_ok s'" unfolding s' by (rule mark_processed_ok(1) [OF ok2])
  have rin: "r \<in> set (st_occs (s1\<lparr>st_db := d\<rparr>))" using f(3) by simp
  obtain r' where r': "r' \<in> set (st_occs s')" "ol_pk r' = ol_pk r" "temporal_match account ticket Entered_Support_Queue entered r'"
    "ol_status r' = Proven \<longrightarrow> ol_processing r' \<noteq> Occ_Pending"
  proof (rule mark_processed_row [OF rin refl])
    fix x
    assume "x \<in> set (st_occs (mark_processed (ol_pk r) (s1\<lparr>st_db := d\<rparr>)))" "ol_pk x = ol_pk r" "ol_account x = ol_account r"
      "ol_ticket x = ol_ticket r" "ol_type x = ol_type r" "ol_at x = ol_at r" "ol_status x = ol_status r"
      and p: "ol_status r = Proven \<Longrightarrow> ol_processing x \<noteq> Occ_Pending"
    then show thesis using that [of x] f(4) by (simp add: s' temporal_match_def)
  qed
  have db: "st_db s' = d" by (simp add: s' mark_processed_def)
  have again: "\<exists>res'. open_from_proven_occurrence cfg now' ticket entered account ev' s' = Inr (s', res') \<and>
         or_classification res' = Duplicate \<and> or_cycle res' = Some c" for now' ev'
  proof -
    have "first_row (temporal_match account ticket Entered_Support_Queue entered) (st_occs s') = Some r'"
      by (rule first_row_unique [OF ok r'(1,3)])
    then have rec: "record_proven_occurrence now' account ticket Entered_Support_Queue entered (ev'\<lparr>ob_updated := None\<rparr>) s' = Inr (s', r')"
      using f(1) by (simp add: record_proven_occurrence_def identified_ticket_def)
    obtain res' where o': "open_cycle cfg ticket (AwareDatetime entered) (Some (ob_event ev')) (Some account) (st_db s') = Inr (st_db s', res')"
      "or_classification res' = Duplicate" "or_cycle res' = Some c"
      using open_cycle_again [OF c(1,3), of d "db_cycles (st_db s1)" "Some (ob_event ev')"] c(4) db by auto
    have "mark_processed (ol_pk r) s' = s'" by (simp add: s' mark_processed_again)
    then show ?thesis using rec o' r'(2) by (simp add: open_from_proven_occurrence_def)
  qed
  have "cy_state c = Queued" "cy_entered_at c = Some entered" "c \<in> set (db_cycles (st_db s'))"
    "length (db_cycles (st_db s')) = Suc (length (db_cycles (st_db s)))"
    using c(3,4) ident f(5) by (simp_all add: new_cycle_def db)
  then show ?thesis using ok c(2) r'(1,3,4) again by blast
qed

section \<open>Concrete runs\<close>

definition empty_site :: site where
  "empty_site = \<lparr>st_db = empty_db, st_conv = empty_conv, st_occs = []\<rparr>"

definition demo_evidence :: evidence where
  "demo_evidence = \<lparr>ob_source = ''crm_readback'', ob_event = ''e1'', ob_updated = Some 5, ob_observation = []\<rparr>"

lemma empty_site_ok: "evidence_ok empty_site"
  by (simp add: evidence_ok_def empty_site_def)

lemma demo_identified: "identified_ticket ''A'' ''7''"
  by code_simp

theorem evidence_recorded_once_witness:
  "\<exists>s' r. record_proven_occurrence 9 ''A'' ''7'' Ticket_Closed 100 demo_evidence empty_site = Inr (s', r) \<and>
     temporal_match ''A'' ''7'' Ticket_Closed 100 r \<and>
     record_proven_occurrence 50 ''A'' ''7'' Ticket_Closed 100 demo_evidence s' = Inr (s', r)"
  using evidence_recorded_once [OF empty_site_ok demo_identified, of 9 Ticket_Closed 100 demo_evidence] by blast

definition pending_site :: site where
  "pending_site = empty_site\<lparr>st_occs := [pending_row 3 ''A'' ''7'' None None []],
     st_db := empty_db\<lparr>db_next_pk := 1\<rparr>\<rparr>"

theorem promoted_close_shadows_later_ones_witness:
  "\<exists>s' r. record_proven_occurrence 9 ''A'' ''7'' Ticket_Closed 100 demo_evidence pending_site = Inr (s', r) \<and>
     length (st_occs s') = 1 \<and> record_pending_close 500 ''A'' ''7'' None None [] True s' = Inr (s', r, False)"
proof -
  let ?p = "pending_row 3 ''A'' ''7'' None None []"
  have ok: "evidence_ok pending_site"
    by (simp add: evidence_ok_def pending_site_def empty_site_def pending_row_def occurrence_check_def)
  have p: "pending_close ''A'' ''7'' 100 pending_site = Some ?p" by code_simp
  have n: "first_row (temporal_match ''A'' ''7'' Ticket_Closed 100) (st_occs pending_site) = None" by code_simp
  have k: "cr_cycle (resolve_close_target (ticket_cycles pending_site ''A'' ''7'') 100) = None" by code_simp
  have l: "length (st_occs pending_site) = 1" by (simp add: pending_site_def)
  obtain s' r where r: "record_proven_occurrence 9 ''A'' ''7'' Ticket_Closed 100 demo_evidence pending_site = Inr (s', r)"
    "map ol_pk (st_occs s') = map ol_pk (st_occs pending_site)"
    "record_pending_close 500 ''A'' ''7'' None None [] True s' = Inr (s', r, False)"
    using promoted_close_shadows_later_ones [OF ok demo_identified p n, of 9 demo_evidence] unfolding k by blast
  then have "length (st_occs s') = 1" using l map_eq_imp_length_eq by fastforce
  then show ?thesis using r by blast
qed

definition demo_attendance :: "uuid \<Rightarrow> instant \<Rightarrow> cycle_state \<Rightarrow> cycle" where
  "demo_attendance k t st = \<lparr>cy_pk = k, cy_key = nat_text k, cy_source_system = ''hubspot'', cy_account = ''A'', cy_ticket = ''7'',
     cy_entered_at = Some t, cy_source_event = [], cy_state = st, cy_opened_at = t, cy_closed_at = None\<rparr>"

theorem close_belongs_to_its_interval_witness:
  "resolve_close_target [demo_attendance 1 10 Assigned, demo_attendance 2 30 Queued] 20 = close_result Applied_Historical (Some 1) False \<and>
   resolve_close_target [demo_attendance 1 10 Assigned, demo_attendance 2 30 Queued] 5 = close_result No_Cycle None False"
proof -
  let ?cs = "[demo_attendance 1 10 Assigned, demo_attendance 2 30 Queued]"
  have c: "comparable ?cs" by (simp add: comparable_def demo_attendance_def)
  show ?thesis
    using close_belongs_to_its_interval [OF c, of 20] close_belongs_to_its_interval [OF c, of 5]
    by (simp add: demo_attendance_def)
qed

theorem queue_entry_opens_once_witness:
  "\<exists>s' res c. open_from_proven_occurrence demo_cfg 9 ''7'' 100 ''A'' demo_evidence empty_site = Inr (s', res) \<and>
     or_cycle res = Some c \<and> cy_state c = Queued \<and>
     (\<exists>res'. open_from_proven_occurrence demo_cfg 50 ''7'' 100 ''A'' demo_evidence s' = Inr (s', res') \<and> or_classification res' = Duplicate)"
proof -
  let ?run = "open_from_proven_occurrence demo_cfg 9 ''7'' 100 ''A'' demo_evidence empty_site"
  have "case ?run of Inl e \<Rightarrow> False | Inr (s', res) \<Rightarrow> or_classification res = Created" by code_simp
  then obtain s' res where r: "?run = Inr (s', res)" "or_classification res = Created" by (cases ?run) auto
  show ?thesis using queue_entry_opens_once [OF empty_site_ok r] r(1) by blast
qed

end
