(* ===== verification/Ticket_Close.thy ===== *)
theory Ticket_Close
  imports Occurrences
begin

text \<open>
  Materializing a proven close: \<open>apps/support/ticket_close_service.py\<close> and the lifecycle and
  parsing helpers of \<open>apps/support/auto_assign_service.py\<close> it uses.

  The provider snapshot is the dictionary of \<open>get_ticket_details\<close>, with the empty text for a missing
  entry; \<open>updated_at\<close> is what \<open>_timestamp\<close> reads from it.  A transaction that raises leaves the
  site unchanged.  Elapsed times are microseconds.
\<close>

section \<open>Provider snapshots\<close>

record provider_snapshot =
  tk_id :: string
  tk_pipeline :: string
  tk_stage :: string
  tk_owner :: string
  tk_novo :: entry_value
  tk_closed :: entry_value
  tk_updated :: "instant option"
  tk_archived :: bool

fun entry_given :: "entry_value \<Rightarrow> bool" where
  "entry_given (RawValue StageNone) = False"
| "entry_given (RawValue (StageInt n)) = (n \<noteq> 0)"
| "entry_given (RawValue (StageText s)) = (s \<noteq> [])"
| "entry_given (AwareDatetime t) = True"
| "entry_given (NaiveDatetime t) = True"

definition provider_decision :: "settings \<Rightarrow> close_occurrence \<Rightarrow> provider_snapshot \<Rightarrow> close_classification option" where
  "provider_decision cfg oc snap =
     (if tk_id snap \<noteq> to_ticket oc \<or> tk_stage snap = [] \<or> tk_pipeline snap = [] then Some Close_Conflict
      else case (if entry_given (tk_novo snap)
                 then (case entry_instant (tk_novo snap) of Inl _ \<Rightarrow> Some Close_Identity_Unavailable
                       | Inr t \<Rightarrow> (if to_at oc < t then Some Reopen_Not_Materialized else None))
                 else None) of
             Some r \<Rightarrow> Some r
           | None \<Rightarrow>
               (if tk_stage snap \<noteq> stage_fechado_id cfg \<and> tk_pipeline snap = support_pipeline_id cfg \<and> \<not> tk_archived snap
                then Some Reopen_Not_Materialized else None))"

definition classify_close_occurrence ::
  "settings \<Rightarrow> cycle list \<Rightarrow> close_occurrence \<Rightarrow> provider_snapshot option \<Rightarrow> close_result" where
  "classify_close_occurrence cfg cycles oc snap =
     (let r = resolve_close_target cycles (to_at oc)
      in if cr_current r then
           (case (case snap of Some p \<Rightarrow> provider_decision cfg oc p | None \<Rightarrow> Some Provider_Unavailable) of
              Some rejection \<Rightarrow> close_result rejection (cr_cycle r) False
            | None \<Rightarrow> r)
         else r)"

section \<open>Lifecycle steps\<close>

fun transition_lifecycle_best_effort ::
  "instant \<Rightarrow> string \<Rightarrow> conversation_state list \<Rightarrow> string \<Rightarrow> instant option \<Rightarrow> string \<Rightarrow> bool \<Rightarrow> conv \<Rightarrow> conv result" where
  "transition_lifecycle_best_effort now ticket [] why closed event strict s = Inr s"
| "transition_lifecycle_best_effort now ticket (st # sts) why closed event strict s =
     (case (if st = St_Closed then close_ticket_instances now ticket why event closed s
            else transition_by_ticket now ticket st why [] event None s) of
        Inr (s', moved) \<Rightarrow> (if moved then transition_lifecycle_best_effort now ticket sts why closed event strict s' else Inr s')
      | Inl e \<Rightarrow>
          (if e = InvalidStateTransitionError then (if strict \<and> st = St_Closed then Inl e else Inr s)
           else if strict then Inl e else Inr s))"

section \<open>Materializing\<close>

definition attendance_assigned :: "uuid option \<Rightarrow> string \<Rightarrow> assigned_row \<Rightarrow> bool" where
  "attendance_assigned k ticket r \<longleftrightarrow> as_cycle r = k \<and> as_ticket r = ticket"

definition attendance_pending :: "uuid option \<Rightarrow> string \<Rightarrow> queue_row \<Rightarrow> bool" where
  "attendance_pending k ticket q \<longleftrightarrow> nc_cycle q = k \<and> nc_ticket q = ticket"

definition assigned_of :: "db \<Rightarrow> uuid option \<Rightarrow> string \<Rightarrow> assigned_row option" where
  "assigned_of d k ticket =
     first_by (\<lambda>r. map_option uminus (as_assigned_at r)) (attendance_assigned k ticket) (db_assigned d)"

definition linked_agent :: "db \<Rightarrow> uuid option \<Rightarrow> agent option" where
  "linked_agent d k = (case k of None \<Rightarrow> None | Some g \<Rightarrow> agent_of d g)"

definition closing_agent :: "db \<Rightarrow> int option \<Rightarrow> agent option" where
  "closing_agent d owner = (case owner of None \<Rightarrow> None | Some n \<Rightarrow> first_by ag_name (\<lambda>g. ag_owner g = n) (db_agents d))"

definition closed_record :: "settings \<Rightarrow> db \<Rightarrow> uuid option \<Rightarrow> close_occurrence \<Rightarrow> closed_row" where
  "closed_record cfg d k oc =
     (let base = \<lparr>cl_pk = db_next_pk d, cl_ticket = to_ticket oc, cl_cycle = k, cl_agent = None, cl_owner = None,
            cl_agent_name = None, cl_pipeline = support_pipeline_id cfg, cl_entered_at = None, cl_assigned_at = None,
            cl_closed_at = to_at oc, cl_closed_by_owner = to_owner oc,
            cl_closed_by_name = map_option ag_name (closing_agent d (to_owner oc)), cl_wait = None, cl_handle = None,
            cl_resolution = None, cl_source = ''agent'', cl_contact = (None, None, None, None)\<rparr>
      in case assigned_of d k (to_ticket oc) of
           None \<Rightarrow> base
         | Some a \<Rightarrow> base\<lparr>
             cl_agent := as_agent a, cl_owner := Some (as_owner a), cl_agent_name := Some (as_agent_name a),
             cl_pipeline := as_pipeline a, cl_entered_at := as_entered_at a, cl_assigned_at := as_assigned_at a,
             cl_wait := as_wait a, cl_contact := as_contact a,
             cl_handle := map_option (\<lambda>t. to_at oc - t) (as_assigned_at a),
             cl_resolution := map_option (\<lambda>t. to_at oc - t) (as_entered_at a),
             cl_closed_by_name := (if opt_truthy (cl_closed_by_name base) then cl_closed_by_name base
                else case linked_agent d (as_agent a) of Some g \<Rightarrow> Some (ag_name g) | None \<Rightarrow> cl_closed_by_name base),
             cl_source := (case to_owner oc of Some n \<Rightarrow> (if n \<noteq> 0 \<and> n \<noteq> as_owner a then ''system'' else ''agent'')
                           | None \<Rightarrow> ''agent'')\<rparr>)"

definition insert_closed :: "closed_row \<Rightarrow> db \<Rightarrow> db result" where
  "insert_closed r d =
     (if cl_cycle r \<noteq> None \<and> exists_row (\<lambda>c. cl_cycle c = cl_cycle r) (db_closed d) then Inl IntegrityError
      else Inr (d\<lparr>db_closed := db_closed d @ [r], db_next_pk := Suc (db_next_pk d)\<rparr>))"

definition delete_pending :: "uuid option \<Rightarrow> string \<Rightarrow> db \<Rightarrow> db" where
  "delete_pending k ticket d =
     fold (\<lambda>q. delete_queue_row (nc_pk q)) (filter (attendance_pending k ticket) (db_queue d)) d"

text \<open>The load of the assigned agent is taken back for a current attendance, outside enforcing mode.\<close>

definition take_back_load :: "settings \<Rightarrow> instant \<Rightarrow> bool \<Rightarrow> assigned_row option \<Rightarrow> db \<Rightarrow> db result" where
  "take_back_load cfg now current a d =
     (case a of
        None \<Rightarrow> Inr d
      | Some r \<Rightarrow>
          (case linked_agent d (as_agent r) of
             None \<Rightarrow> Inr d
           | Some g \<Rightarrow> (if current \<and> \<not> capacity_enforced cfg then decrement_agent_chat_count cfg now (ag_pk g) d else Inr d)))"

definition materialize_support ::
  "settings \<Rightarrow> instant \<Rightarrow> cycle option \<Rightarrow> close_occurrence \<Rightarrow> bool \<Rightarrow> db \<Rightarrow> db result" where
  "materialize_support cfg now target oc current d =
     (let k = map_option cy_pk target; a = assigned_of d k (to_ticket oc)
      in and_then (take_back_load cfg now current a d) (\<lambda>d1.
         and_then (insert_closed (closed_record cfg d k oc) d1) (\<lambda>d2.
           let d3 = (case a of None \<Rightarrow> d2 | Some r \<Rightarrow> d2\<lparr>db_assigned := delete_rows (\<lambda>x. as_pk x = as_pk r) (db_assigned d2)\<rparr>);
               d4 = delete_pending k (to_ticket oc) d3
           in Inr (case target of None \<Rightarrow> d4 | Some c \<Rightarrow> put_cycle (c\<lparr>cy_state := Closed, cy_closed_at := Some (to_at oc)\<rparr>) d4))))"

definition close_reason :: string where
  "close_reason = ''Proven current support cycle closed.''"

definition materialize_close ::
  "settings \<Rightarrow> instant \<Rightarrow> cycle option \<Rightarrow> close_occurrence \<Rightarrow> bool \<Rightarrow> site \<Rightarrow> site result" where
  "materialize_close cfg now target oc current s =
     and_then (materialize_support cfg now target oc current (st_db s)) (\<lambda>d.
     and_then (if current
               then and_then (transition_lifecycle_best_effort now (to_ticket oc) [St_Resolved_By_Human] close_reason None (to_event oc) True (st_conv s))
                      (transition_lifecycle_best_effort now (to_ticket oc) [St_Closed] close_reason (Some (to_at oc)) (to_event oc) True)
               else Inr (st_conv s)) (\<lambda>v. Inr (s\<lparr>st_db := d, st_conv := v\<rparr>)))"

section \<open>Applying\<close>

definition cycles_of_ticket :: "db \<Rightarrow> string \<Rightarrow> cycle list" where
  "cycles_of_ticket d ticket = sort_key cy_pk (filter (\<lambda>c. cy_ticket c = ticket) (db_cycles d))"

definition closed_already :: "db \<Rightarrow> uuid option \<Rightarrow> string \<Rightarrow> bool" where
  "closed_already d k ticket =
     (case k of Some c \<Rightarrow> exists_row (\<lambda>r. cl_cycle r = Some c) (db_closed d)
      | None \<Rightarrow> exists_row (\<lambda>r. cl_ticket r = ticket \<and> cl_cycle r = None) (db_closed d))"

definition active_legacy :: "db \<Rightarrow> uuid option \<Rightarrow> string \<Rightarrow> bool" where
  "active_legacy d k ticket \<longleftrightarrow> k = None \<and>
     (exists_row (attendance_assigned None ticket) (db_assigned d) \<or> exists_row (attendance_pending None ticket) (db_queue d))"

definition close_verdict ::
  "settings \<Rightarrow> cycle list \<Rightarrow> close_occurrence \<Rightarrow> provider_snapshot option \<Rightarrow> bool \<Rightarrow> close_result" where
  "close_verdict cfg cycles oc snap allow_legacy =
     (if cycles = [] \<and> allow_legacy \<and> \<not> cycles_enforced cfg then
        (case (case snap of None \<Rightarrow> None | Some p \<Rightarrow> provider_decision cfg oc p) of
           Some rejection \<Rightarrow> close_result rejection None False
         | None \<Rightarrow> close_result Applied_Current None True)
      else classify_close_occurrence cfg cycles oc snap)"

definition applies :: "close_classification \<Rightarrow> bool" where
  "applies c \<longleftrightarrow> c = Applied_Current \<or> c = Applied_Historical"

definition apply_close_occurrence ::
  "settings \<Rightarrow> instant \<Rightarrow> close_occurrence \<Rightarrow> provider_snapshot option \<Rightarrow> bool \<Rightarrow> bool \<Rightarrow> site \<Rightarrow> (site \<times> close_result) result" where
  "apply_close_occurrence cfg now oc snap dry_run allow_legacy s =
     (let d = st_db s; cycles = cycles_of_ticket d (to_ticket oc);
          r = close_verdict cfg cycles oc snap allow_legacy
      in if \<not> applies (cr_class r) then Inr (s, r)
         else (let target = (case cr_cycle r of None \<Rightarrow> None | Some c \<Rightarrow> find (\<lambda>y. cy_pk y = c) cycles);
                   k = map_option cy_pk target
               in if closed_already d k (to_ticket oc) \<and> \<not> active_legacy d k (to_ticket oc)
                  then Inr (s, close_result (if target \<noteq> None then Close_Conflict else Close_Duplicate) (cr_cycle r) False)
                  else if dry_run then Inr (s, r)
                  else and_then (materialize_close cfg now target oc (cr_current r) s) (\<lambda>s'. Inr (s', r))))"

section \<open>Occurrences from webhook values\<close>

definition after_colon :: "string \<Rightarrow> string" where
  "after_colon s = rev (takeWhile (\<lambda>c. c \<noteq> CHR '':'') (rev s))"

fun owner_text :: "stage_value \<Rightarrow> string" where
  "owner_text StageNone = []"
| "owner_text (StageInt n) = (if n = 0 then [] else int_text n)"
| "owner_text (StageText s) = s"

definition safe_parse_owner_id :: "stage_value \<Rightarrow> int option" where
  "safe_parse_owner_id v =
     (let raw = strip (owner_text v)
      in if raw = [] \<or> raw = ''None'' \<or> raw = ''null'' then None else py_int (after_colon raw))"

definition webhook_close :: "string \<Rightarrow> stage_value \<Rightarrow> stage_value \<Rightarrow> string \<Rightarrow> close_occurrence option" where
  "webhook_close ticket at_ms owner event =
     (case parse_stage_entry_timestamp at_ms of
        Inl _ \<Rightarrow> None
      | Inr t \<Rightarrow> Some \<lparr>to_ticket = ticket, to_at = t, to_owner = safe_parse_owner_id owner, to_event = event\<rparr>)"

definition apply_ticket_closed ::
  "settings \<Rightarrow> instant \<Rightarrow> string \<Rightarrow> entry_value \<Rightarrow> stage_value \<Rightarrow> provider_snapshot option \<Rightarrow> site \<Rightarrow> (site \<times> close_result) result" where
  "apply_ticket_closed cfg now ticket v owner snap s =
     (case (case v of
              AwareDatetime t \<Rightarrow> Some \<lparr>to_ticket = ticket, to_at = t, to_owner = safe_parse_owner_id owner, to_event = []\<rparr>
            | NaiveDatetime t \<Rightarrow> None
            | RawValue x \<Rightarrow> webhook_close ticket x owner []) of
        None \<Rightarrow> Inr (s, close_result Close_Identity_Unavailable None False)
      | Some oc \<Rightarrow> apply_close_occurrence cfg now oc snap False (\<not> cycles_enforced cfg) s)"

section \<open>What materializing does to the support tables\<close>

lemma delete_queue_rows_tables:
  "db_queue (fold (\<lambda>q. delete_queue_row (nc_pk q)) qs d) = filter (\<lambda>q. nc_pk q \<notin> nc_pk ` set qs) (db_queue d)"
  "db_assigned (fold (\<lambda>q. delete_queue_row (nc_pk q)) qs d) = db_assigned d"
  "db_closed (fold (\<lambda>q. delete_queue_row (nc_pk q)) qs d) = db_closed d"
  "db_cycles (fold (\<lambda>q. delete_queue_row (nc_pk q)) qs d) = db_cycles d"
  "db_agents (fold (\<lambda>q. delete_queue_row (nc_pk q)) qs d) = db_agents d"
  "db_occupancies (fold (\<lambda>q. delete_queue_row (nc_pk q)) qs d) = db_occupancies d"
  "db_reservations (fold (\<lambda>q. delete_queue_row (nc_pk q)) qs d) = db_reservations d"
proof -
  show "db_queue (fold (\<lambda>q. delete_queue_row (nc_pk q)) qs d) = filter (\<lambda>q. nc_pk q \<notin> nc_pk ` set qs) (db_queue d)"
    by (induction qs arbitrary: d) (auto simp: delete_queue_row_def delete_rows_def intro: filter_cong)
  show "db_assigned (fold (\<lambda>q. delete_queue_row (nc_pk q)) qs d) = db_assigned d"
    by (induction qs arbitrary: d) (simp_all add: delete_queue_row_def)
  show "db_closed (fold (\<lambda>q. delete_queue_row (nc_pk q)) qs d) = db_closed d"
    by (induction qs arbitrary: d) (simp_all add: delete_queue_row_def)
  show "db_cycles (fold (\<lambda>q. delete_queue_row (nc_pk q)) qs d) = db_cycles d"
    by (induction qs arbitrary: d) (simp_all add: delete_queue_row_def)
  show "db_agents (fold (\<lambda>q. delete_queue_row (nc_pk q)) qs d) = db_agents d"
    by (induction qs arbitrary: d) (simp_all add: delete_queue_row_def)
  show "db_occupancies (fold (\<lambda>q. delete_queue_row (nc_pk q)) qs d) = db_occupancies d"
    by (induction qs arbitrary: d) (simp_all add: delete_queue_row_def)
  show "db_reservations (fold (\<lambda>q. delete_queue_row (nc_pk q)) qs d) = db_reservations d"
    by (induction qs arbitrary: d) (simp_all add: delete_queue_row_def)
qed

lemma delete_pending_tables:
  "db_queue (delete_pending k ticket d) =
     filter (\<lambda>q. \<not> (\<exists>p \<in> set (db_queue d). attendance_pending k ticket p \<and> nc_pk p = nc_pk q)) (db_queue d)"
  "db_assigned (delete_pending k ticket d) = db_assigned d" "db_closed (delete_pending k ticket d) = db_closed d"
  "db_cycles (delete_pending k ticket d) = db_cycles d" "db_agents (delete_pending k ticket d) = db_agents d"
  "db_occupancies (delete_pending k ticket d) = db_occupancies d"
  "db_reservations (delete_pending k ticket d) = db_reservations d"
proof -
  show "db_queue (delete_pending k ticket d) =
      filter (\<lambda>q. \<not> (\<exists>p \<in> set (db_queue d). attendance_pending k ticket p \<and> nc_pk p = nc_pk q)) (db_queue d)"
    unfolding delete_pending_def delete_queue_rows_tables by (rule filter_cong) (auto simp: image_iff)
qed (simp_all add: delete_pending_def delete_queue_rows_tables)

definition load_taken_back :: "settings \<Rightarrow> bool \<Rightarrow> db \<Rightarrow> assigned_row option \<Rightarrow> uuid option" where
  "load_taken_back cfg current d a =
     (case a of None \<Rightarrow> None
      | Some r \<Rightarrow> (case linked_agent d (as_agent r) of None \<Rightarrow> None
                   | Some g \<Rightarrow> (if current \<and> \<not> capacity_enforced cfg then Some (ag_pk g) else None)))"

lemma take_back_load_eq:
  "take_back_load cfg now current a d =
     (case load_taken_back cfg current d a of None \<Rightarrow> Inr d | Some g \<Rightarrow> decrement_agent_chat_count cfg now g d)"
proof (cases a)
  case (Some r)
  then show ?thesis
    by (cases "linked_agent d (as_agent r)"; cases current; cases "capacity_enforced cfg")
      (simp_all add: take_back_load_def load_taken_back_def)
qed (simp add: take_back_load_def load_taken_back_def)

lemma decrement_tables:
  "decrement_agent_chat_count cfg now g d = Inr d' \<Longrightarrow>
     d' = d\<lparr>db_agents := update_rows (\<lambda>a. ag_pk a = g)
             (\<lambda>a. a\<lparr>ag_chats := max (ag_chats a - 1) 0, ag_updated_at := Some now\<rparr>) (db_agents d)\<rparr>"
  by (simp add: decrement_agent_chat_count_def split: sum.splits if_splits)

text \<open>The tables after a materialization, whichever branch it took.\<close>

lemma materialize_support_tables:
  assumes "materialize_support cfg now target oc current d = Inr d'"
  shows "db_closed d' = db_closed d @ [closed_record cfg d (map_option cy_pk target) oc]"
    "\<not> (map_option cy_pk target \<noteq> None \<and> exists_row (\<lambda>c. cl_cycle c = map_option cy_pk target) (db_closed d))"
    "db_assigned d' = (case assigned_of d (map_option cy_pk target) (to_ticket oc) of None \<Rightarrow> db_assigned d
       | Some r \<Rightarrow> delete_rows (\<lambda>x. as_pk x = as_pk r) (db_assigned d))"
    "db_queue d' = filter (\<lambda>q. \<not> (\<exists>p \<in> set (db_queue d). attendance_pending (map_option cy_pk target) (to_ticket oc) p \<and> nc_pk p = nc_pk q)) (db_queue d)"
    "db_cycles d' = (case target of None \<Rightarrow> db_cycles d
       | Some c \<Rightarrow> save_row cy_pk (c\<lparr>cy_state := Closed, cy_closed_at := Some (to_at oc)\<rparr>) (db_cycles d))"
    "load_taken_back cfg current d (assigned_of d (map_option cy_pk target) (to_ticket oc)) = None \<Longrightarrow> db_agents d' = db_agents d"
    "db_occupancies d' = db_occupancies d" "db_reservations d' = db_reservations d"
proof -
  let ?k = "map_option cy_pk target"
  let ?a = "assigned_of d ?k (to_ticket oc)"
  from assms obtain d1 d2 where 1: "take_back_load cfg now current ?a d = Inr d1"
    and 2: "insert_closed (closed_record cfg d ?k oc) d1 = Inr d2"
    and 3: "d' = (let d3 = (case ?a of None \<Rightarrow> d2 | Some r \<Rightarrow> d2\<lparr>db_assigned := delete_rows (\<lambda>x. as_pk x = as_pk r) (db_assigned d2)\<rparr>);
               d4 = delete_pending ?k (to_ticket oc) d3
           in (case target of None \<Rightarrow> d4 | Some c \<Rightarrow> put_cycle (c\<lparr>cy_state := Closed, cy_closed_at := Some (to_at oc)\<rparr>) d4))"
    unfolding materialize_support_def Let_def by (elim and_then_InrE) auto
  have t1: "db_queue d1 = db_queue d" "db_assigned d1 = db_assigned d" "db_closed d1 = db_closed d" "db_cycles d1 = db_cycles d"
    "db_occupancies d1 = db_occupancies d" "db_reservations d1 = db_reservations d"
    "load_taken_back cfg current d ?a = None \<Longrightarrow> db_agents d1 = db_agents d"
    using 1 unfolding take_back_load_eq by (auto split: option.splits dest!: decrement_tables)
  have cc: "cl_cycle (closed_record cfg d ?k oc) = ?k" by (simp add: closed_record_def Let_def split: option.splits)
  have t2: "d2 = d1\<lparr>db_closed := db_closed d1 @ [closed_record cfg d ?k oc], db_next_pk := Suc (db_next_pk d1)\<rparr>"
    and free: "\<not> (?k \<noteq> None \<and> exists_row (\<lambda>c. cl_cycle c = ?k) (db_closed d1))"
    using 2 unfolding insert_closed_def cc by (simp_all split: if_splits)
  show "db_closed d' = db_closed d @ [closed_record cfg d ?k oc]"
    "db_assigned d' = (case ?a of None \<Rightarrow> db_assigned d | Some r \<Rightarrow> delete_rows (\<lambda>x. as_pk x = as_pk r) (db_assigned d))"
    "db_cycles d' = (case target of None \<Rightarrow> db_cycles d
       | Some c \<Rightarrow> save_row cy_pk (c\<lparr>cy_state := Closed, cy_closed_at := Some (to_at oc)\<rparr>) (db_cycles d))"
    "load_taken_back cfg current d ?a = None \<Longrightarrow> db_agents d' = db_agents d"
    "db_occupancies d' = db_occupancies d" "db_reservations d' = db_reservations d"
    "db_queue d' = filter (\<lambda>q. \<not> (\<exists>p \<in> set (db_queue d). attendance_pending ?k (to_ticket oc) p \<and> nc_pk p = nc_pk q)) (db_queue d)"
    unfolding 3 Let_def using t1
    by (auto simp: t2 put_cycle_def delete_pending_tables split: option.splits)
  show "\<not> (?k \<noteq> None \<and> exists_row (\<lambda>c. cl_cycle c = ?k) (db_closed d))" using free t1(3) by simp
qed

section \<open>When materializing succeeds\<close>

lemma materialize_support_total:
  assumes "may_write_routing_state cfg \<or> load_taken_back cfg current d (assigned_of d (map_option cy_pk target) (to_ticket oc)) = None"
    and "\<not> (map_option cy_pk target \<noteq> None \<and> exists_row (\<lambda>c. cl_cycle c = map_option cy_pk target) (db_closed d))"
  shows "\<exists>d'. materialize_support cfg now target oc current d = Inr d'"
proof -
  let ?k = "map_option cy_pk target"
  let ?a = "assigned_of d ?k (to_ticket oc)"
  have "\<exists>d1. take_back_load cfg now current ?a d = Inr d1 \<and> db_closed d1 = db_closed d"
  proof (cases "load_taken_back cfg current d ?a")
    case None
    then show ?thesis by (simp add: take_back_load_eq)
  next
    case (Some g)
    then have "\<not> capacity_enforced cfg" by (auto simp: load_taken_back_def split: option.splits if_splits)
    then show ?thesis using Some assms(1)
      by (simp add: take_back_load_eq decrement_agent_chat_count_def require_routing_writer_authority_def)
  qed
  then obtain d1 where d1: "take_back_load cfg now current ?a d = Inr d1" "db_closed d1 = db_closed d" by blast
  have cc: "cl_cycle (closed_record cfg d ?k oc) = ?k" by (simp add: closed_record_def Let_def split: option.splits)
  have "\<exists>d2. insert_closed (closed_record cfg d ?k oc) d1 = Inr d2"
    using assms(2) d1(2) unfolding insert_closed_def cc by auto
  then show ?thesis using d1(1) unfolding materialize_support_def Let_def by (auto simp: and_then_Inr_iff)
qed

text \<open>Moving the conversations of a closed ticket always succeeds.\<close>

lemma transition_by_ticket_outcome:
  assumes "consistent v"
  shows "(\<exists>v' b. transition_by_ticket now ticket st why actor event occurred v = Inr (v', b) \<and> consistent v' \<and>
      map cn_pk (cv_instances v') = map cn_pk (cv_instances v)) \<or>
    transition_by_ticket now ticket st why actor event occurred v = Inl InvalidStateTransitionError"
proof (cases "find_conversation_instance None (Some ticket) v")
  case None
  then have "transition_by_ticket now ticket st why actor event occurred v = Inr (v, False)"
    by (simp add: transition_by_ticket_def)
  then show ?thesis using assms by blast
next
  case (Some i)
  let ?m = "(plain_move st why event)\<lparr>mv_actor := actor, mv_occurred := occurred\<rparr>"
  have i: "conversation_of v (cn_pk i) = Some i"
    by (rule conversation_of_unique [OF consistentD(2) [OF assms] find_conversation_instance_mem [OF Some]])
  show ?thesis
  proof (cases "cn_state i = mv_to ?m \<or> validate_transition (cn_state i) (mv_to ?m) (mv_reopen ?m) (mv_queue_entry ?m) = Inr ()")
    case True
    then obtain v' i' where r: "transition now (cn_pk i) ?m v = Inr v'" "consistent v'"
      by (rule transition_total [OF assms i])
    then have "transition_by_ticket now ticket st why actor event occurred v = Inr (v', True)"
      using Some by (simp add: transition_by_ticket_def)
    then show ?thesis using r(2) transition_rows [OF assms r(1)] by blast
  next
    case False
    then have "validate_transition (cn_state i) (mv_to ?m) (mv_reopen ?m) (mv_queue_entry ?m) = Inl InvalidStateTransitionError"
      by (auto simp: validate_transition_def split: if_splits)
    then have "transition now (cn_pk i) ?m v = Inl InvalidStateTransitionError"
      using False i by (simp add: transition_def)
    then show ?thesis using Some by (simp add: transition_by_ticket_def)
  qed
qed

lemma transition_keeps_ticket:
  assumes "consistent v" and "transition now k m v = Inr v'" and "conversation_of v l = Some j"
  shows "\<exists>j'. conversation_of v' l = Some j' \<and> cn_ticket j' = cn_ticket j"
  using assms(1,2)
proof (cases rule: transition_cases)
  case (1 i)
  then show ?thesis using assms(3) by blast
next
  case (2 i c)
  have "conversation_of v' l = (if l = k then Some (moved_conversation now m i) else conversation_of v l)"
    using 2(1) conversation_of_pk [OF 2(1)] by (auto simp: conversation_of_def 2(5) get_row_save_row)
  then show ?thesis using assms(3) 2(1) by (auto simp: moved_conversation_def)
qed

lemma transition_by_ticket_keeps:
  assumes "consistent v" and "transition_by_ticket now ticket st why actor event occurred v = Inr (v', b)"
    and "conversation_of v l = Some j"
  shows "\<exists>j'. conversation_of v' l = Some j' \<and> cn_ticket j' = cn_ticket j"
  using assms(2) transition_keeps_ticket [OF assms(1) _ assms(3)] assms(3)
  by (auto simp: transition_by_ticket_def and_then_Inr_iff split: option.splits)

text \<open>The two lifecycle steps of a close never fail and close every conversation of the ticket.\<close>

lemma close_lifecycle_total:
  assumes "consistent v"
  obtains v1 v2 where
    "transition_lifecycle_best_effort now ticket [St_Resolved_By_Human] why None event True v = Inr v1"
    "transition_lifecycle_best_effort now ticket [St_Closed] why (Some t) event True v1 = Inr v2" "consistent v2"
    "\<forall>k i. conversation_of v k = Some i \<and> cn_ticket i = Some ticket \<longrightarrow>
       (\<exists>i'. conversation_of v2 k = Some i' \<and> cn_state i' = St_Closed)"
proof -
  have "\<exists>v1. transition_lifecycle_best_effort now ticket [St_Resolved_By_Human] why None event True v = Inr v1 \<and> consistent v1 \<and>
      (\<forall>l j. conversation_of v l = Some j \<longrightarrow> (\<exists>j'. conversation_of v1 l = Some j' \<and> cn_ticket j' = cn_ticket j))"
    using transition_by_ticket_outcome [OF assms, of now ticket St_Resolved_By_Human why "[]" event None]
  proof
    assume "transition_by_ticket now ticket St_Resolved_By_Human why [] event None v = Inl InvalidStateTransitionError"
    then show ?thesis using assms by simp
  next
    assume "\<exists>v' b. transition_by_ticket now ticket St_Resolved_By_Human why [] event None v = Inr (v', b) \<and> consistent v' \<and>
      map cn_pk (cv_instances v') = map cn_pk (cv_instances v)"
    then obtain v' b where r: "transition_by_ticket now ticket St_Resolved_By_Human why [] event None v = Inr (v', b)" "consistent v'"
      by blast
    moreover have "transition_lifecycle_best_effort now ticket [St_Resolved_By_Human] why None event True v = Inr v'"
      using r(1) by simp
    ultimately show ?thesis using transition_by_ticket_keeps [OF assms r(1)] by blast
  qed
  then obtain v1 where v1: "transition_lifecycle_best_effort now ticket [St_Resolved_By_Human] why None event True v = Inr v1"
    "consistent v1" "\<And>l j. conversation_of v l = Some j \<Longrightarrow> \<exists>j'. conversation_of v1 l = Some j' \<and> cn_ticket j' = cn_ticket j"
    by blast
  obtain v2 b where v2: "close_ticket_instances now ticket why event (Some t) v1 = Inr (v2, b)" "consistent v2"
    "\<And>k i. conversation_of v1 k = Some i \<Longrightarrow> cn_ticket i = Some ticket \<Longrightarrow> \<exists>i'. conversation_of v2 k = Some i' \<and> cn_state i' = St_Closed"
    using close_ticket_total [OF v1(2), of now ticket why event t] by metis
  show thesis
  proof (rule that [OF v1(1) _ v2(2)])
    show "transition_lifecycle_best_effort now ticket [St_Closed] why (Some t) event True v1 = Inr v2" using v2(1) by simp
    show "\<forall>k i. conversation_of v k = Some i \<and> cn_ticket i = Some ticket \<longrightarrow> (\<exists>i'. conversation_of v2 k = Some i' \<and> cn_state i' = St_Closed)"
      using v1(3) v2(3) by metis
  qed
qed

section \<open>Outcomes of an application\<close>

lemma apply_nothing:
  assumes "apply_close_occurrence cfg now oc snap dry_run allow_legacy s = Inr (s', r)"
    and "dry_run \<or> \<not> applies (cr_class r)"
  shows "s' = s"
  using assms by (auto simp: apply_close_occurrence_def Let_def and_then_Inr_iff split: if_splits)

text \<open>An applied close: the verdict, its target and the materialization.\<close>

lemma apply_applied:
  assumes "apply_close_occurrence cfg now oc snap False allow_legacy s = Inr (s', r)" and "applies (cr_class r)"
  obtains target where "r = close_verdict cfg (cycles_of_ticket (st_db s) (to_ticket oc)) oc snap allow_legacy"
    "target = (case cr_cycle r of None \<Rightarrow> None | Some c \<Rightarrow> find (\<lambda>y. cy_pk y = c) (cycles_of_ticket (st_db s) (to_ticket oc)))"
    "materialize_close cfg now target oc (cr_current r) s = Inr s'"
    "\<not> (closed_already (st_db s) (map_option cy_pk target) (to_ticket oc) \<and> \<not> active_legacy (st_db s) (map_option cy_pk target) (to_ticket oc))"
  using assms by (auto simp: apply_close_occurrence_def Let_def and_then_Inr_iff applies_def close_result_def split: if_splits)

lemma verdict_target:
  assumes "applies (cr_class (close_verdict cfg cycles oc snap allow_legacy))" and "cycles \<noteq> []"
  obtains c where "c \<in> set cycles" "cr_cycle (close_verdict cfg cycles oc snap allow_legacy) = Some (cy_pk c)"
    "cy_state c \<notin> {Closed, Cancelled}" "close_verdict cfg cycles oc snap allow_legacy = resolve_close_target cycles (to_at oc)"
proof -
  have v: "close_verdict cfg cycles oc snap allow_legacy = resolve_close_target cycles (to_at oc)"
    using assms by (auto simp: close_verdict_def classify_close_occurrence_def provider_decision_def Let_def applies_def close_result_def
        split: if_splits option.splits sum.splits)
  obtain c where "c \<in> set cycles" "cr_cycle (resolve_close_target cycles (to_at oc)) = Some (cy_pk c)"
    "cy_state c \<notin> {Closed, Cancelled}"
    using assms v last_in_set [of "filter (\<lambda>c. the (cy_entered_at c) \<le> to_at oc) (sort_key (\<lambda>c. the (cy_entered_at c)) cycles)"]
    by (auto simp: resolve_close_target_def Let_def applies_def close_result_def split: if_splits)
  then show thesis using that v by simp
qed

lemma resolve_current:
  assumes "applies (cr_class (resolve_close_target cycles t))"
  shows "cr_current (resolve_close_target cycles t) \<longleftrightarrow> cr_class (resolve_close_target cycles t) = Applied_Current"
  using assms by (auto simp: resolve_close_target_def Let_def applies_def close_result_def split: if_splits)

lemma mem_cycles_of_ticket [simp]: "c \<in> set (cycles_of_ticket d ticket) \<longleftrightarrow> c \<in> set (db_cycles d) \<and> cy_ticket c = ticket"
  by (auto simp: cycles_of_ticket_def)

lemma find_by_key:
  assumes "distinct (map f xs)" and "c \<in> set xs"
  shows "find (\<lambda>y. f y = f c) xs = Some c"
  using assms by (induction xs) auto

lemma distinct_cycles_of_ticket:
  assumes "distinct (map cy_pk (db_cycles d))"
  shows "distinct (map cy_pk (cycles_of_ticket d ticket))"
proof -
  have "inj_on cy_pk (set (db_cycles d))" and "distinct (db_cycles d)" using assms by (simp_all add: distinct_map)
  then show ?thesis by (auto simp: distinct_map cycles_of_ticket_def intro: inj_on_subset)
qed

text \<open>An assigned row per attendance is what the table's unique constraint keeps.\<close>

definition assigned_unique :: "db \<Rightarrow> bool" where
  "assigned_unique d \<longleftrightarrow>
     (\<forall>x \<in> set (db_assigned d). \<forall>y \<in> set (db_assigned d). as_cycle x \<noteq> None \<and> as_cycle x = as_cycle y \<longrightarrow> x = y)"

lemma assigned_gone:
  assumes "assigned_unique d"
  shows "\<not> exists_row (attendance_assigned (Some k) ticket)
    (case assigned_of d (Some k) ticket of None \<Rightarrow> db_assigned d | Some r \<Rightarrow> delete_rows (\<lambda>x. as_pk x = as_pk r) (db_assigned d))"
proof (cases "assigned_of d (Some k) ticket")
  case None
  then have "\<forall>r \<in> set (db_assigned d). \<not> attendance_assigned (Some k) ticket r" by (auto simp: assigned_of_def first_by_None)
  then show ?thesis using None by (simp add: exists_row_def list_ex_iff)
next
  case (Some r)
  then have r: "r \<in> set (db_assigned d)" "attendance_assigned (Some k) ticket r"
    unfolding assigned_of_def by (auto dest: first_by_Some)
  show ?thesis
  proof
    assume "exists_row (attendance_assigned (Some k) ticket)
      (case assigned_of d (Some k) ticket of None \<Rightarrow> db_assigned d | Some r \<Rightarrow> delete_rows (\<lambda>x. as_pk x = as_pk r) (db_assigned d))"
    then obtain x where "x \<in> set (db_assigned d)" "as_pk x \<noteq> as_pk r" "attendance_assigned (Some k) ticket x"
      using Some by (auto simp: exists_row_def list_ex_iff delete_rows_def)
    moreover from this have "x = r" using assms r by (auto simp: assigned_unique_def attendance_assigned_def)
    ultimately show False by simp
  qed
qed

lemma applied_close:
  assumes keys: "distinct (map cy_pk (db_cycles (st_db s)))" "assigned_unique (st_db s)"
    and run: "apply_close_occurrence cfg now oc snap False allow_legacy s = Inr (s', r)" "applies (cr_class r)"
    and ne: "exists_row (\<lambda>c. cy_ticket c = to_ticket oc) (db_cycles (st_db s))"
  obtains c where "c \<in> set (db_cycles (st_db s))" "cy_ticket c = to_ticket oc" "cr_cycle r = Some (cy_pk c)"
    "cy_state c \<notin> {Closed, Cancelled}"
    "db_cycles (st_db s') = save_row cy_pk (c\<lparr>cy_state := Closed, cy_closed_at := Some (to_at oc)\<rparr>) (db_cycles (st_db s))"
    "\<not> exists_row (\<lambda>x. cl_cycle x = Some (cy_pk c)) (db_closed (st_db s))"
    "db_closed (st_db s') = db_closed (st_db s) @ [closed_record cfg (st_db s) (Some (cy_pk c)) oc]"
    "\<not> exists_row (attendance_assigned (Some (cy_pk c)) (to_ticket oc)) (db_assigned (st_db s'))"
    "\<not> exists_row (attendance_pending (Some (cy_pk c)) (to_ticket oc)) (db_queue (st_db s'))"
    "cr_class r = Applied_Historical \<Longrightarrow> st_conv s' = st_conv s \<and> db_agents (st_db s') = db_agents (st_db s)"
    "st_occs s' = st_occs s"
proof -
  let ?cs = "cycles_of_ticket (st_db s) (to_ticket oc)"
  have ne': "?cs \<noteq> []" using ne unfolding exists_row_def list_ex_iff by (metis mem_cycles_of_ticket empty_iff list.set(1))
  obtain target where t: "r = close_verdict cfg ?cs oc snap allow_legacy"
    "target = (case cr_cycle r of None \<Rightarrow> None | Some c \<Rightarrow> find (\<lambda>y. cy_pk y = c) ?cs)"
    "materialize_close cfg now target oc (cr_current r) s = Inr s'"
    by (rule apply_applied [OF run])
  obtain c where c: "c \<in> set ?cs" "cr_cycle r = Some (cy_pk c)" "cy_state c \<notin> {Closed, Cancelled}"
    "r = resolve_close_target ?cs (to_at oc)"
    using verdict_target [OF _ ne'] run(2) unfolding t(1) by metis
  have target: "target = Some c"
    using find_by_key [OF distinct_cycles_of_ticket [OF keys(1)] c(1)] by (simp add: t(2) c(2))
  from t(3) obtain d v where m: "materialize_support cfg now (Some c) oc (cr_current r) (st_db s) = Inr d"
    and s': "s' = s\<lparr>st_db := d, st_conv := v\<rparr>" and v: "\<not> cr_current r \<Longrightarrow> v = st_conv s"
    unfolding materialize_close_def target by (auto simp: and_then_Inr_iff split: if_splits)
  note tables = materialize_support_tables [OF m, unfolded option.map option.case]
  have hist: "st_conv s' = st_conv s \<and> db_agents (st_db s') = db_agents (st_db s)" if "cr_class r = Applied_Historical"
  proof -
    have "\<not> cr_current r" using resolve_current [of ?cs "to_at oc"] that run(2) unfolding c(4) by simp
    moreover from this have "load_taken_back cfg (cr_current r) (st_db s) (assigned_of (st_db s) (Some (cy_pk c)) (to_ticket oc)) = None"
      by (simp add: load_taken_back_def split: option.splits)
    ultimately show ?thesis using v tables(6) by (simp add: s')
  qed
  have gone: "\<not> exists_row (attendance_pending (Some (cy_pk c)) (to_ticket oc)) (db_queue (st_db s'))"
    unfolding s' by (auto simp: tables(4) exists_row_def list_ex_iff)
  show thesis
    using that [of c] c(1-3) tables(1,2,3,5) assigned_gone [OF keys(2), of "cy_pk c" "to_ticket oc"] hist gone
    by (simp add: s')
qed

lemma insort_key_map: "(\<And>x. f (g x) = f x) \<Longrightarrow> insort_key f (g x) (map g xs) = map g (insort_key f x xs)"
  by (induction xs) auto

lemma sort_key_map: "(\<And>x. f (g x) = f x) \<Longrightarrow> sort_key f (map g xs) = map g (sort_key f xs)"
  by (induction xs) (simp_all add: insort_key_map)

abbreviation closed_by :: "uuid \<Rightarrow> instant \<Rightarrow> cycle \<Rightarrow> cycle" where
  "closed_by k t c \<equiv> (if cy_pk c = k then c\<lparr>cy_state := Closed, cy_closed_at := Some t\<rparr> else c)"

lemma resolve_closed:
  assumes "applies (cr_class (resolve_close_target cycles t))" and "cr_cycle (resolve_close_target cycles t) = Some k"
  shows "resolve_close_target (map (closed_by k u) cycles) t = close_result Close_Duplicate (Some k) False"
proof -
  let ?g = "closed_by k u" and ?e = "\<lambda>c. the (cy_entered_at c)"
  let ?el = "filter (\<lambda>c. ?e c \<le> t) (sort_key ?e cycles)"
  have sorted: "sort_key ?e (map ?g cycles) = map ?g (sort_key ?e cycles)" by (rule sort_key_map) simp
  have el: "filter (\<lambda>c. ?e c \<le> t) (map ?g xs) = map ?g (filter (\<lambda>c. ?e c \<le> t) xs)" for xs by (induction xs) simp_all
  have hd: "cycles \<noteq> []" "\<not> list_ex (\<lambda>c. cy_entered_at c = None) cycles"
    "length (remdups (map (\<lambda>c. (cy_source_system c, cy_account c)) cycles)) = 1" "?el \<noteq> []" "cy_pk (last ?el) = k"
    using assms by (auto simp: resolve_close_target_def Let_def applies_def close_result_def split: if_splits)
  have "list_ex (\<lambda>c. cy_entered_at c = None) (map ?g cycles) = list_ex (\<lambda>c. cy_entered_at c = None) cycles"
    by (induction cycles) simp_all
  moreover have "map (\<lambda>c. (cy_source_system c, cy_account c)) (map ?g cycles) = map (\<lambda>c. (cy_source_system c, cy_account c)) cycles"
    by simp
  ultimately show ?thesis using hd
    by (simp add: resolve_close_target_def Let_def sorted el last_map del: map_map)
qed

lemma cycles_of_ticket_save:
  assumes "distinct (map cy_pk (db_cycles d))" and "c \<in> set (db_cycles d)"
    and "db_cycles d' = save_row cy_pk (c\<lparr>cy_state := Closed, cy_closed_at := Some t\<rparr>) (db_cycles d)"
  shows "cycles_of_ticket d' ticket = map (closed_by (cy_pk c) t) (cycles_of_ticket d ticket)"
proof -
  have "save_row cy_pk (c\<lparr>cy_state := Closed, cy_closed_at := Some t\<rparr>) (db_cycles d) = map (closed_by (cy_pk c) t) (db_cycles d)"
    using assms(1,2) by (auto simp: save_row_def distinct_map inj_on_def)
  moreover have "filter (\<lambda>c. cy_ticket c = ticket) (map (closed_by (cy_pk c) t) xs) =
      map (closed_by (cy_pk c) t) (filter (\<lambda>c. cy_ticket c = ticket) xs)" for xs
    by (induction xs) simp_all
  ultimately show ?thesis unfolding cycles_of_ticket_def assms(3) by (simp add: sort_key_map)
qed

text \<open>C28: an applied close of a ticket that has cycles, current or historical, closes exactly one open attendance of the
  ticket at the provider's time: its cycle is closed and no other cycle changes, exactly one closed record of it
  is added where there was none, and neither an assigned nor a waiting row of it is left.  A historical
  close touches no conversation and no agent.  (A ticket without any cycle takes the legacy path, where there is no
  cycle to close.)\<close>

theorem applied_close_effect:
  assumes "distinct (map cy_pk (db_cycles (st_db s)))" and "assigned_unique (st_db s)"
    and "apply_close_occurrence cfg now oc snap False allow_legacy s = Inr (s', r)" and "applies (cr_class r)"
    and "exists_row (\<lambda>c. cy_ticket c = to_ticket oc) (db_cycles (st_db s))"
  shows "\<exists>c \<in> set (db_cycles (st_db s)). cy_ticket c = to_ticket oc \<and> cr_cycle r = Some (cy_pk c) \<and>
    cy_state c \<notin> {Closed, Cancelled} \<and>
    db_cycles (st_db s') = save_row cy_pk (c\<lparr>cy_state := Closed, cy_closed_at := Some (to_at oc)\<rparr>) (db_cycles (st_db s)) \<and>
    \<not> exists_row (\<lambda>x. cl_cycle x = Some (cy_pk c)) (db_closed (st_db s)) \<and>
    db_closed (st_db s') = db_closed (st_db s) @ [closed_record cfg (st_db s) (Some (cy_pk c)) oc] \<and>
    \<not> exists_row (attendance_assigned (Some (cy_pk c)) (to_ticket oc)) (db_assigned (st_db s')) \<and>
    \<not> exists_row (attendance_pending (Some (cy_pk c)) (to_ticket oc)) (db_queue (st_db s')) \<and>
    (cr_class r = Applied_Historical \<longrightarrow> st_conv s' = st_conv s \<and> db_agents (st_db s') = db_agents (st_db s))"
  by (rule applied_close [OF assms]) blast

text \<open>Applying a close a second time, in whatever configuration and with whatever reading of the
  provider, is a duplicate and changes nothing.\<close>

theorem close_applies_once:
  assumes "distinct (map cy_pk (db_cycles (st_db s)))" and "assigned_unique (st_db s)"
    and "apply_close_occurrence cfg now oc snap False allow_legacy s = Inr (s', r)" and "applies (cr_class r)"
    and "exists_row (\<lambda>c. cy_ticket c = to_ticket oc) (db_cycles (st_db s))"
  shows "apply_close_occurrence cfg' later oc snap' dry_run allow_legacy' s' =
    Inr (s', close_result Close_Duplicate (cr_cycle r) False)"
proof (rule applied_close [OF assms])
  fix c
  assume c: "c \<in> set (db_cycles (st_db s))" "cy_ticket c = to_ticket oc" "cr_cycle r = Some (cy_pk c)"
    "db_cycles (st_db s') = save_row cy_pk (c\<lparr>cy_state := Closed, cy_closed_at := Some (to_at oc)\<rparr>) (db_cycles (st_db s))"
  let ?cs = "cycles_of_ticket (st_db s) (to_ticket oc)"
  let ?cs' = "cycles_of_ticket (st_db s') (to_ticket oc)"
  have ne: "?cs \<noteq> []" by (rule mem_nonempty [of c]) (simp add: c(1,2))
  have r: "r = close_verdict cfg ?cs oc snap allow_legacy" by (rule apply_applied [OF assms(3,4)])
  have v: "r = resolve_close_target ?cs (to_at oc)" using verdict_target [OF _ ne] assms(4) unfolding r by metis
  have cs': "?cs' = map (closed_by (cy_pk c) (to_at oc)) ?cs" by (rule cycles_of_ticket_save [OF assms(1) c(1,4)])
  then have "resolve_close_target ?cs' (to_at oc) = close_result Close_Duplicate (Some (cy_pk c)) False"
    using resolve_closed [of ?cs "to_at oc" "cy_pk c" "to_at oc"] assms(4) c(3) unfolding v by simp
  then have "close_verdict cfg' ?cs' oc snap' allow_legacy' = close_result Close_Duplicate (Some (cy_pk c)) False"
    using cs' ne by (simp add: close_verdict_def classify_close_occurrence_def close_result_def)
  then show ?thesis by (simp add: apply_close_occurrence_def Let_def applies_def close_result_def c(3))
qed

text \<open>A reading that shows the ticket re-entered the support queue after the close keeps the close
  away from the current attendance: it is never applied as current and no conversation changes.\<close>

theorem later_queue_entry_blocks_close:
  assumes "entry_given (tk_novo snap)" and "entry_instant (tk_novo snap) = Inr t" and "to_at oc < t"
    and "apply_close_occurrence cfg now oc (Some snap) dry_run allow_legacy s = Inr (s', r)"
  shows "cr_class r \<noteq> Applied_Current \<and> st_conv s' = st_conv s"
proof -
  let ?cs = "cycles_of_ticket (st_db s) (to_ticket oc)"
  let ?v = "close_verdict cfg ?cs oc (Some snap) allow_legacy"
  let ?R = "resolve_close_target ?cs (to_at oc)"
  have "provider_decision cfg oc snap = Some Close_Conflict \<or> provider_decision cfg oc snap = Some Reopen_Not_Materialized"
    using assms(1-3) by (simp add: provider_decision_def)
  then obtain c where c: "provider_decision cfg oc snap = Some c" "\<not> applies c" by (auto simp: applies_def)
  have "classify_close_occurrence cfg ?cs oc (Some snap) = (if cr_current ?R then close_result c (cr_cycle ?R) False else ?R)"
    by (simp add: classify_close_occurrence_def Let_def c)
  then have v: "?v \<in> {close_result c None False, close_result c (cr_cycle ?R) False} \<or> (?v = ?R \<and> \<not> cr_current ?R)"
    by (simp add: close_verdict_def c)
  have verdict: "\<not> cr_current ?v \<and> cr_class ?v \<noteq> Applied_Current" if "applies (cr_class ?v)"
  proof -
    have "?v = ?R" "\<not> cr_current ?R" using v that c(2) by (auto simp: close_result_def)
    then show ?thesis using resolve_current [of ?cs "to_at oc"] that by simp
  qed
  show ?thesis
  proof (cases "applies (cr_class ?v)")
    case True
    then show ?thesis using assms(4) verdict
      by (auto simp: apply_close_occurrence_def materialize_close_def Let_def and_then_Inr_iff close_result_def split: if_splits)
  next
    case False
    then show ?thesis using assms(4) by (auto simp: apply_close_occurrence_def Let_def applies_def)
  qed
qed

text \<open>A current close always succeeds and ends every conversation of its ticket in CLOSED, keeping
  the conversations consistent; the only refusals are a missing writer authority for the agent's load
  and an attendance that is closed already.\<close>

theorem current_close_converges:
  assumes "consistent (st_conv s)" and "may_write_routing_state cfg \<or> capacity_enforced cfg"
    and "distinct (map cy_pk (db_cycles (st_db s)))"
    and "close_verdict cfg (cycles_of_ticket (st_db s) (to_ticket oc)) oc snap allow_legacy = close_result Applied_Current (Some k) True"
    and "cycle_of (st_db s) k = Some c" and "cy_ticket c = to_ticket oc"
    and "\<not> exists_row (\<lambda>x. cl_cycle x = Some k) (db_closed (st_db s))"
  shows "\<exists>s'. apply_close_occurrence cfg now oc snap False allow_legacy s = Inr (s', close_result Applied_Current (Some k) True) \<and>
    consistent (st_conv s') \<and>
    (\<forall>l i. conversation_of (st_conv s) l = Some i \<and> cn_ticket i = Some (to_ticket oc) \<longrightarrow>
       (\<exists>i'. conversation_of (st_conv s') l = Some i' \<and> cn_state i' = St_Closed))"
proof -
  let ?cs = "cycles_of_ticket (st_db s) (to_ticket oc)" and ?d = "st_db s"
  have c: "c \<in> set (db_cycles ?d)" "cy_pk c = k" using assms(5) by (auto simp: cycle_of_def dest: get_row_Some_in)
  have target: "find (\<lambda>y. cy_pk y = k) ?cs = Some c"
    using find_by_key [OF distinct_cycles_of_ticket [OF assms(3), of "to_ticket oc"], of c] c assms(6) by simp
  have load: "may_write_routing_state cfg \<or> load_taken_back cfg True ?d (assigned_of ?d (Some k) (to_ticket oc)) = None"
    using assms(2) by (auto simp: load_taken_back_def split: option.splits)
  obtain d' where d': "materialize_support cfg now (Some c) oc True ?d = Inr d'"
    using materialize_support_total [where target = "Some c" and oc = oc and current = True and d = ?d and cfg = cfg and now = now]
      load assms(7) c(2) by auto
  obtain v1 v2 where v: "transition_lifecycle_best_effort now (to_ticket oc) [St_Resolved_By_Human] close_reason None (to_event oc) True (st_conv s) = Inr v1"
    "transition_lifecycle_best_effort now (to_ticket oc) [St_Closed] close_reason (Some (to_at oc)) (to_event oc) True v1 = Inr v2" "consistent v2"
    "\<forall>l i. conversation_of (st_conv s) l = Some i \<and> cn_ticket i = Some (to_ticket oc) \<longrightarrow>
       (\<exists>i'. conversation_of v2 l = Some i' \<and> cn_state i' = St_Closed)"
    by (rule close_lifecycle_total [OF assms(1)])
  have m: "materialize_close cfg now (Some c) oc True s = Inr (s\<lparr>st_db := d', st_conv := v2\<rparr>)"
    unfolding materialize_close_def d' by (simp add: v(1,2) del: transition_lifecycle_best_effort.simps)
  have "apply_close_occurrence cfg now oc snap False allow_legacy s =
      Inr (s\<lparr>st_db := d', st_conv := v2\<rparr>, close_result Applied_Current (Some k) True)"
    using assms(7) c(2) m by (simp add: apply_close_occurrence_def Let_def assms(4) close_result_def applies_def closed_already_def target)
  then show ?thesis using v(3,4) by (intro exI [of _ "s\<lparr>st_db := d', st_conv := v2\<rparr>"]) simp
qed

section \<open>Concrete runs\<close>

definition demo_close :: "instant \<Rightarrow> close_occurrence" where
  "demo_close t = \<lparr>to_ticket = ''7'', to_at = t, to_owner = Some 10, to_event = ''e9''\<rparr>"

definition demo_snapshot :: provider_snapshot where
  "demo_snapshot = \<lparr>tk_id = ''7'', tk_pipeline = ''P'', tk_stage = ''F'', tk_owner = [], tk_novo = AwareDatetime 30,
     tk_closed = AwareDatetime 40, tk_updated = Some 41, tk_archived = False\<rparr>"

definition demo_site :: site where
  "demo_site = empty_site\<lparr>st_conv := demo_conv, st_db := empty_db\<lparr>db_agents := [demo_agent 1 10],
     db_cycles := [demo_attendance 1 10 Assigned, demo_attendance 2 30 Queued],
     db_queue := [demo_row\<lparr>nc_ticket := ''7'', nc_cycle := Some 2\<rparr>], db_next_pk := 50\<rparr>\<rparr>"

definition demo_outcome :: "instant \<Rightarrow> provider_snapshot \<Rightarrow> (site \<times> close_result) result" where
  "demo_outcome t snap = apply_close_occurrence demo_cfg 60 (demo_close t) (Some snap) False False demo_site"

lemma demo_site_keys:
  "distinct (map cy_pk (db_cycles (st_db demo_site)))" "assigned_unique (st_db demo_site)"
  "exists_row (\<lambda>c. cy_ticket c = to_ticket (demo_close t)) (db_cycles (st_db demo_site))"
  by (simp_all add: demo_site_def empty_site_def empty_db_def assigned_unique_def demo_attendance_def demo_close_def exists_row_def)

lemma demo_outcomes:
  "\<exists>s' r. demo_outcome 20 demo_snapshot = Inr (s', r) \<and> r = close_result Applied_Historical (Some 1) False"
  "\<exists>s' r. demo_outcome 40 demo_snapshot = Inr (s', r) \<and> r = close_result Applied_Current (Some 2) True"
  "\<exists>s' r. demo_outcome 40 (demo_snapshot\<lparr>tk_novo := AwareDatetime 50\<rparr>) = Inr (s', r)"
proof -
  have a: "case demo_outcome 20 demo_snapshot of Inl e \<Rightarrow> False | Inr (s', r) \<Rightarrow> r = close_result Applied_Historical (Some 1) False"
    "case demo_outcome 40 demo_snapshot of Inl e \<Rightarrow> False | Inr (s', r) \<Rightarrow> r = close_result Applied_Current (Some 2) True"
    "is_ok (demo_outcome 40 (demo_snapshot\<lparr>tk_novo := AwareDatetime 50\<rparr>))"
    by code_simp+
  show "\<exists>s' r. demo_outcome 20 demo_snapshot = Inr (s', r) \<and> r = close_result Applied_Historical (Some 1) False"
    using a(1) by (auto split: sum.splits)
  show "\<exists>s' r. demo_outcome 40 demo_snapshot = Inr (s', r) \<and> r = close_result Applied_Current (Some 2) True"
    using a(2) by (auto split: sum.splits)
  show "\<exists>s' r. demo_outcome 40 (demo_snapshot\<lparr>tk_novo := AwareDatetime 50\<rparr>) = Inr (s', r)"
    using a(3) by (cases "demo_outcome 40 (demo_snapshot\<lparr>tk_novo := AwareDatetime 50\<rparr>)") auto
qed

theorem applied_close_effect_witness:
  "\<exists>s' r. demo_outcome 20 demo_snapshot = Inr (s', r) \<and> st_conv s' = demo_conv \<and>
     length (db_closed (st_db s')) = 1"
proof -
  obtain s' r where r: "demo_outcome 20 demo_snapshot = Inr (s', r)" "r = close_result Applied_Historical (Some 1) False"
    using demo_outcomes(1) by blast
  have a: "applies (cr_class r)" "cr_class r = Applied_Historical" by (simp_all add: r(2) applies_def close_result_def)
  have "st_conv s' = st_conv demo_site \<and> length (db_closed (st_db s')) = Suc (length (db_closed (st_db demo_site)))"
    using applied_close_effect [OF demo_site_keys(1,2) r(1) [unfolded demo_outcome_def] a(1) demo_site_keys(3)] a(2) by auto
  then show ?thesis using r(1) by (simp add: demo_site_def empty_site_def empty_db_def)
qed

theorem close_applies_once_witness:
  "\<exists>s' r. demo_outcome 40 demo_snapshot = Inr (s', r) \<and>
     apply_close_occurrence demo_cfg 90 (demo_close 40) None False True s' = Inr (s', close_result Close_Duplicate (Some 2) False)"
proof -
  obtain s' r where r: "demo_outcome 40 demo_snapshot = Inr (s', r)" "r = close_result Applied_Current (Some 2) True"
    using demo_outcomes(2) by blast
  have a: "applies (cr_class r)" by (simp add: r(2) applies_def close_result_def)
  have "cr_cycle r = Some 2" by (simp add: r(2) close_result_def)
  then show ?thesis
    using close_applies_once [OF demo_site_keys(1,2) r(1) [unfolded demo_outcome_def] a demo_site_keys(3), of demo_cfg 90 None False True] r(1)
    by auto
qed

theorem later_queue_entry_blocks_close_witness:
  "\<exists>s' r. demo_outcome 40 (demo_snapshot\<lparr>tk_novo := AwareDatetime 50\<rparr>) = Inr (s', r) \<and> st_conv s' = demo_conv"
proof -
  let ?snap = "demo_snapshot\<lparr>tk_novo := AwareDatetime 50\<rparr>"
  obtain s' r where r: "demo_outcome 40 ?snap = Inr (s', r)" using demo_outcomes(3) by blast
  have p: "entry_given (tk_novo ?snap)" "entry_instant (tk_novo ?snap) = Inr 50" "to_at (demo_close 40) < 50"
    by (simp_all add: demo_close_def)
  show ?thesis using later_queue_entry_blocks_close [OF p r [unfolded demo_outcome_def]] r
    by (simp add: demo_site_def empty_site_def)
qed

theorem current_close_converges_witness:
  "\<exists>s'. apply_close_occurrence demo_cfg 60 (demo_close 40) (Some demo_snapshot) False False demo_site =
      Inr (s', close_result Applied_Current (Some 2) True) \<and>
    (\<exists>i'. conversation_of (st_conv s') 0 = Some i' \<and> cn_state i' = St_Closed)"
proof -
  have conv: "st_conv demo_site = demo_conv" by (simp add: demo_site_def)
  have cycles: "cycles_of_ticket (st_db demo_site) (to_ticket (demo_close 40)) = [demo_attendance 1 10 Assigned, demo_attendance 2 30 Queued]"
    by (simp add: demo_site_def cycles_of_ticket_def demo_attendance_def demo_close_def)
  have v: "close_verdict demo_cfg (cycles_of_ticket (st_db demo_site) (to_ticket (demo_close 40))) (demo_close 40) (Some demo_snapshot) False =
      close_result Applied_Current (Some 2) True"
    unfolding cycles by code_simp
  have c: "cycle_of (st_db demo_site) 2 = Some (demo_attendance 2 30 Queued)" "cy_ticket (demo_attendance 2 30 Queued) = to_ticket (demo_close 40)"
    "\<not> exists_row (\<lambda>x. cl_cycle x = Some 2) (db_closed (st_db demo_site))" "may_write_routing_state demo_cfg \<or> capacity_enforced demo_cfg"
    by code_simp+
  have t: "conversation_of demo_conv 0 = Some demo_instance" "cn_ticket demo_instance = Some (to_ticket (demo_close 40))"
    by code_simp+
  have "consistent (st_conv demo_site)" using demo_history(2) by (simp add: conv)
  from current_close_converges [OF this c(4) demo_site_keys(1) v c(1-3), of 60] t show ?thesis unfolding conv by blast
qed

end
