(* ===== verification/Owner_Reconciliation.thy ===== *)
theory Owner_Reconciliation
  imports Ticket_Close
begin

text \<open>
  Provider observations of a ticket's owner, \<open>apps/support/owner_reconciliation_service.py\<close>, and
  the close paths that rest on them (\<open>reconcile_close_occurrence\<close>, \<open>project_close_occurrence\<close>,
  \<open>handle_ticket_closed\<close>).

  A reading of the provider takes place outside every lock.  It is a function of the site: it
  returns what other transactions committed meanwhile and either the snapshot or the error the
  client raised.  An operation that may commit before it raises returns the site beside its result.
\<close>

section \<open>Projecting the owner on the attendance\<close>

definition agent_ids :: "uuid option \<Rightarrow> uuid list" where
  "agent_ids k = (case k of None \<Rightarrow> [] | Some g \<Rightarrow> [g])"

definition live_cycle :: "string \<Rightarrow> string \<Rightarrow> cycle \<Rightarrow> bool" where
  "live_cycle account ticket c \<longleftrightarrow> cy_account c = account \<and> cy_ticket c = ticket \<and> cy_state c \<in> {Queued, Assigned}"

definition assigned_to_ticket :: "db \<Rightarrow> string \<Rightarrow> assigned_row option" where
  "assigned_to_ticket d ticket = first_by (\<lambda>r. map_option uminus (as_assigned_at r)) (\<lambda>r. as_ticket r = ticket) (db_assigned d)"

definition observed_source :: string where
  "observed_source = provenance_text (classify_owner_effect None False False False)"

definition owner_transfer :: "db \<Rightarrow> assigned_row \<Rightarrow> uuid option \<Rightarrow> int option \<Rightarrow> reassign_row" where
  "owner_transfer d a agent owner = \<lparr>rr_pk = db_next_pk d, rr_ticket = as_ticket a, rr_cycle = as_cycle a,
     rr_from_agent = as_agent a, rr_from_owner = Some (as_owner a), rr_from_name = None,
     rr_to_agent = agent, rr_to_owner = owner, rr_to_name = None, rr_at = None, rr_time = None, rr_source = observed_source\<rparr>"

definition record_transfer :: "assigned_row \<Rightarrow> uuid option \<Rightarrow> int option \<Rightarrow> db \<Rightarrow> db" where
  "record_transfer a agent owner d =
     d\<lparr>db_reassigns := db_reassigns d @ [owner_transfer d a agent owner], db_next_pk := Suc (db_next_pk d)\<rparr>"

definition agent_name_of :: "db \<Rightarrow> uuid option \<Rightarrow> string" where
  "agent_name_of d k = (case linked_agent d k of None \<Rightarrow> [] | Some g \<Rightarrow> ag_name g)"

text \<open>An administrative transfer in progress is its own audit row.\<close>

definition administrative_intent :: "occupancy \<Rightarrow> db \<Rightarrow> bool" where
  "administrative_intent row d = exists_row (\<lambda>r. rs_occupancy r = oc_pk row \<and> rs_state r = Held \<and>
     rs_reassignment r \<noteq> None \<and> oc_agent row = Some (rs_agent r)) (db_reservations d)"

definition attempt_in_flight :: "occupancy \<Rightarrow> db \<Rightarrow> bool" where
  "attempt_in_flight row d = exists_row (\<lambda>r. rs_occupancy r = oc_pk row \<and> rs_state r \<in> {Held, Converted} \<and>
     oc_agent row = Some (rs_agent r) \<and>
     (case rs_attempt r of None \<Rightarrow> False
      | Some k \<Rightarrow> (case attempt_of d k of None \<Rightarrow> False
                   | Some a \<Rightarrow> at_state a \<in> {Reserved, External_Applied, Att_Repair_Required}))) (db_reservations d)"

definition transfer_assigned :: "assigned_row \<Rightarrow> occupancy \<Rightarrow> int \<Rightarrow> db \<Rightarrow> db" where
  "transfer_assigned a row owner d =
     (let d1 = put_assigned (a\<lparr>as_agent := oc_agent row, as_owner := owner,
                 as_agent_name := agent_name_of d (oc_agent row), as_count := as_count a + 1\<rparr>) d
      in if administrative_intent row d1 then d1 else record_transfer a (oc_agent row) (Some owner) d1)"

definition adopted_row :: "db \<Rightarrow> occupancy \<Rightarrow> int \<Rightarrow> cycle \<Rightarrow> queue_row \<Rightarrow> assigned_row" where
  "adopted_row d row owner c q = \<lparr>as_pk = db_next_pk d, as_ticket = oc_ticket row, as_cycle = Some (cy_pk c),
     as_agent = oc_agent row, as_owner = owner, as_agent_name = agent_name_of d (oc_agent row), as_pipeline = oc_pipeline row,
     as_entered_at = Some (nc_entered_at q), as_assigned_at = None, as_wait = None, as_count = 1,
     as_contact = (None, None, None, None)\<rparr>"

definition adopted_log :: "instant \<Rightarrow> db \<Rightarrow> occupancy \<Rightarrow> int \<Rightarrow> cycle \<Rightarrow> queue_row \<Rightarrow> log_row" where
  "adopted_log now d row owner c q = \<lparr>lg_pk = Suc (db_next_pk d), lg_attempt = None, lg_ticket = oc_ticket row,
     lg_cycle = Some (cy_pk c), lg_agent = oc_agent row, lg_agent_name = agent_name_of d (oc_agent row),
     lg_owner = Some owner, lg_type = observed_source, lg_by = Some [], lg_pipeline = Some (oc_pipeline row),
     lg_entered_at = Some (nc_entered_at q), lg_wait = None, lg_assigned_at = now\<rparr>"

definition adopt_queued :: "instant \<Rightarrow> occupancy \<Rightarrow> int \<Rightarrow> cycle \<Rightarrow> queue_row \<Rightarrow> db \<Rightarrow> db result" where
  "adopt_queued now row owner c q d =
     (if exists_row (\<lambda>r. as_cycle r = Some (cy_pk c)) (db_assigned d) then Inl IntegrityError
      else Inr (delete_queue_row (nc_pk q) (put_cycle (c\<lparr>cy_state := Assigned\<rparr>)
             (d\<lparr>db_assigned := db_assigned d @ [adopted_row d row owner c q],
                db_logs := db_logs d @ [adopted_log now d row owner c q],
                db_next_pk := Suc (Suc (db_next_pk d))\<rparr>))))"

definition adoptable :: "queue_row \<Rightarrow> bool" where
  "adoptable q \<longleftrightarrow> nc_status q \<in> {Pending, In_Queue} \<or> (nc_status q = Failed \<and> nc_failure_code q = ''hubspot_manual_owner_observed'')"

definition project_owner :: "instant \<Rightarrow> occupancy \<Rightarrow> db \<Rightarrow> (db \<times> occupancy \<times> uuid list) result" where
  "project_owner now row d =
     (let a = assigned_to_ticket d (oc_ticket row);
          affected = (case a of None \<Rightarrow> [] | Some r \<Rightarrow> agent_ids (as_agent r))
      in if oc_state row \<noteq> Oc_Active then
           Inr (case a of
                  Some r \<Rightarrow> (if oc_state row = Oc_Unassigned
                             then (record_transfer r None None d)\<lparr>db_assigned := delete_rows (\<lambda>x. as_pk x = as_pk r) (db_assigned d)\<rparr> else d)
                | None \<Rightarrow> d, row, affected)
         else
           (let c = first_row (live_cycle (oc_account row) (oc_ticket row)) (db_cycles d);
                row' = row\<lparr>oc_cycle := map_option cy_pk c\<rparr>
            in case a of
                 Some r \<Rightarrow>
                   (if as_cycle r \<noteq> None \<and> as_cycle r \<noteq> map_option cy_pk c then Inr (d, row', affected)
                    else if oc_owner row \<noteq> Some (as_owner r)
                    then (case oc_owner row of
                            Some owner \<Rightarrow> Inr (transfer_assigned r row' owner d, row', affected)
                          | None \<Rightarrow> Inl IntegrityError)
                    else Inr (d, row', affected))
               | None \<Rightarrow>
                   (case c of
                      Some y \<Rightarrow>
                        (case (if cy_state y = Queued then first_row (\<lambda>q. nc_cycle q = Some (cy_pk y)) (db_queue d) else None) of
                           Some q \<Rightarrow>
                             (if adoptable q \<and> \<not> attempt_in_flight row' d
                              then (case oc_owner row of
                                      Some owner \<Rightarrow> and_then (adopt_queued now row' owner y q d) (\<lambda>d'. Inr (d', row', affected))
                                    | None \<Rightarrow> Inl IntegrityError)
                              else Inr (d, row', affected))
                         | None \<Rightarrow> Inr (d, row', affected))
                    | None \<Rightarrow> Inr (d, row', affected))))"

section \<open>Reading the provider\<close>

type_synonym reading = "site \<Rightarrow> site \<times> provider_snapshot result"

definition given :: "provider_snapshot \<Rightarrow> reading" where
  "given snap s = (s, Inr snap)"

fun parse_hubspot_timestamp :: "entry_value \<Rightarrow> instant option result" where
  "parse_hubspot_timestamp (AwareDatetime t) = Inr (Some t)"
| "parse_hubspot_timestamp (NaiveDatetime t) = Inr None"
| "parse_hubspot_timestamp (RawValue StageNone) = Inr None"
| "parse_hubspot_timestamp (RawValue (StageInt n)) = (if n = 0 then Inr None else epoch_ms n)"
| "parse_hubspot_timestamp (RawValue (StageText s)) = event_time s"

definition owner_of_text :: "string \<Rightarrow> int option result" where
  "owner_of_text raw =
     (if raw = [] then Inr None
      else if \<not> isdigit raw then Inl CapacityObservationConflictError
      else case py_int raw of None \<Rightarrow> Inl ValueError | Some n \<Rightarrow> Inr (Some n))"

definition observed_agent :: "db \<Rightarrow> int option \<Rightarrow> agent option" where
  "observed_agent d owner = (case owner of None \<Rightarrow> None | Some n \<Rightarrow> (if n = 0 then None else closing_agent d (Some n)))"

definition readback_evidence :: "instant option \<Rightarrow> string \<Rightarrow> evidence" where
  "readback_evidence updated obs = \<lparr>ob_source = ''crm_readback'', ob_event = [], ob_updated = updated, ob_observation = obs\<rparr>"

definition open_observed ::
  "settings \<Rightarrow> instant \<Rightarrow> string \<Rightarrow> string \<Rightarrow> string \<Rightarrow> provider_snapshot \<Rightarrow> site \<Rightarrow> (site \<times> open_result option) result" where
  "open_observed cfg now account ticket obs snap s =
     (if provider_contract_mode cfg \<noteq> Contract_Off \<and> tk_pipeline snap = support_pipeline_id cfg \<and>
         tk_stage snap \<noteq> stage_fechado_id cfg \<and> entry_given (tk_novo snap)
      then and_then (parse_hubspot_timestamp (tk_novo snap)) (\<lambda>t.
             case t of None \<Rightarrow> Inr (s, None)
             | Some entered \<Rightarrow> and_then (open_from_proven_occurrence cfg now ticket entered account (readback_evidence None obs) s)
                                (\<lambda>(s', r). Inr (s', Some r)))
      else Inr (s, None))"

definition prove_close ::
  "settings \<Rightarrow> instant \<Rightarrow> string \<Rightarrow> string \<Rightarrow> string \<Rightarrow> close_occurrence option \<Rightarrow> provider_snapshot \<Rightarrow> site \<Rightarrow> (site \<times> occurrence option) result" where
  "prove_close cfg now account ticket obs close snap s =
     (if close = None \<and> provider_contract_mode cfg \<noteq> Contract_Off \<and> tk_pipeline snap = support_pipeline_id cfg \<and>
         tk_stage snap = stage_fechado_id cfg \<and> entry_given (tk_closed snap)
      then and_then (parse_hubspot_timestamp (tk_closed snap)) (\<lambda>t.
             case t of None \<Rightarrow> Inr (s, None)
             | Some at \<Rightarrow> and_then (record_proven_occurrence now account ticket Ticket_Closed at (readback_evidence (tk_updated snap) obs) s)
                                (\<lambda>(s', r). Inr (s', Some r)))
      else Inr (s, None))"

record ticket_observation =
  on_snap :: provider_snapshot
  on_owner :: "int option"
  on_opened :: "open_result option"
  on_proven :: "occurrence option"

text \<open>Before the lock: the snapshot is checked, and the evidence it carries is committed.\<close>

definition prepare_observation ::
  "settings \<Rightarrow> instant \<Rightarrow> string \<Rightarrow> string \<Rightarrow> string \<Rightarrow> close_occurrence option \<Rightarrow> provider_snapshot \<Rightarrow> site \<Rightarrow> site \<times> ticket_observation result" where
  "prepare_observation cfg now account ticket obs close snap s =
     (if tk_id snap \<noteq> ticket \<or> tk_pipeline snap = [] \<or> tk_stage snap = [] then (s, Inl CapacityObservationConflictError)
      else case owner_of_text (tk_owner snap) of
             Inl e \<Rightarrow> (s, Inl e)
           | Inr owner \<Rightarrow>
               (case open_observed cfg now account ticket obs snap s of
                  Inl e \<Rightarrow> (s, Inl e)
                | Inr (s1, opened) \<Rightarrow>
                    (case prove_close cfg now account ticket obs close snap s1 of
                       Inl e \<Rightarrow> (s1, Inl e)
                     | Inr (s2, proven) \<Rightarrow>
                         (s2, Inr \<lparr>on_snap = snap, on_owner = owner, on_opened = opened, on_proven = proven\<rparr>))))"

section \<open>Applying an observation under the lock\<close>

definition superseded_close :: "settings \<Rightarrow> db \<Rightarrow> string \<Rightarrow> close_occurrence option \<Rightarrow> provider_snapshot \<Rightarrow> bool" where
  "superseded_close cfg d ticket close snap =
     (case close of None \<Rightarrow> False
      | Some oc \<Rightarrow> (let cycles = filter (\<lambda>c. cy_ticket c = ticket) (db_cycles d)
                   in cycles \<noteq> [] \<and> \<not> cr_current (classify_close_occurrence cfg cycles oc (Some snap))))"

definition observation_conflict :: "int \<Rightarrow> instant option \<Rightarrow> int option \<Rightarrow> occupancy \<Rightarrow> bool" where
  "observation_conflict revision updated owner row \<longleftrightarrow> oc_revision row \<noteq> revision \<or>
     (case oc_provider_updated_at row of None \<Rightarrow> False
      | Some p \<Rightarrow> (case updated of None \<Rightarrow> True | Some u \<Rightarrow> u < p \<or> (u = p \<and> oc_owner row \<noteq> owner)))"

definition closed_stage :: "settings \<Rightarrow> provider_snapshot \<Rightarrow> bool" where
  "closed_stage cfg snap \<longleftrightarrow> tk_archived snap \<or> tk_stage snap = stage_fechado_id cfg"

definition observed_state :: "settings \<Rightarrow> provider_snapshot \<Rightarrow> int option \<Rightarrow> occupancy_state" where
  "observed_state cfg snap owner =
     (if tk_pipeline snap \<noteq> support_pipeline_id cfg then Oc_Out_Of_Scope
      else if closed_stage cfg snap then Oc_Closed
      else if owner \<noteq> None then Oc_Active else Oc_Unassigned)"

definition observed_row :: "settings \<Rightarrow> db \<Rightarrow> provider_snapshot \<Rightarrow> int option \<Rightarrow> occupancy \<Rightarrow> occupancy" where
  "observed_row cfg d snap owner row = row\<lparr>oc_owner := owner, oc_agent := map_option ag_pk (observed_agent d owner),
     oc_pipeline := tk_pipeline snap, oc_state := observed_state cfg snap owner\<rparr>"

definition latest_live_cycle :: "db \<Rightarrow> string \<Rightarrow> string \<Rightarrow> cycle option" where
  "latest_live_cycle d account ticket = first_by (\<lambda>c. map_option uminus (cy_entered_at c)) (live_cycle account ticket) (db_cycles d)"

text \<open>A queue row for the open cycle, not to be assigned automatically.\<close>

definition observed_queue_row :: "uuid \<Rightarrow> cycle \<Rightarrow> string \<Rightarrow> string \<Rightarrow> instant \<Rightarrow> queue_row" where
  "observed_queue_row k c ticket pipeline entered = \<lparr>nc_pk = k, nc_ticket = ticket, nc_cycle = Some (cy_pk c), nc_pipeline = pipeline,
     nc_contact = (None, None, None, None), nc_entered_at = entered, nc_status = Pending, nc_attempts = 0,
     nc_last_attempt_at = None, nc_next_attempt_at = None, nc_failure_code = [], nc_auto = False, nc_claim_token = [],
     nc_claim_expires = None, nc_claimed_at = None\<rparr>"

definition ensure_queue_row :: "string \<Rightarrow> string \<Rightarrow> cycle \<Rightarrow> db \<Rightarrow> db result" where
  "ensure_queue_row ticket pipeline c d =
     (case first_row (\<lambda>q. nc_cycle q = Some (cy_pk c)) (db_queue d) of
        Some _ \<Rightarrow> Inr d
      | None \<Rightarrow>
          (case cy_entered_at c of
             None \<Rightarrow> Inl IntegrityError
           | Some t \<Rightarrow> Inr (d\<lparr>db_queue := db_queue d @ [observed_queue_row (db_next_pk d) c ticket pipeline t],
                              db_next_pk := Suc (db_next_pk d)\<rparr>)))"

definition proven_attendance :: "open_result option \<Rightarrow> bool" where
  "proven_attendance opened =
     (case opened of None \<Rightarrow> False
      | Some r \<Rightarrow> or_classification r \<in> {Created, Duplicate} \<and>
          (case or_cycle r of None \<Rightarrow> False | Some c \<Rightarrow> cy_state c \<in> {Queued, Assigned}))"

definition queued_attendance :: "open_result option \<Rightarrow> cycle option" where
  "queued_attendance opened =
     (case opened of None \<Rightarrow> None
      | Some r \<Rightarrow> (case or_cycle r of None \<Rightarrow> None | Some c \<Rightarrow> (if cy_state c = Queued then Some c else None)))"

text \<open>Whether the owner may be projected, with the cycle and queue row the projection needs.\<close>

definition admit_projection ::
  "settings \<Rightarrow> provider_snapshot \<Rightarrow> open_result option \<Rightarrow> occupancy \<Rightarrow> db \<Rightarrow> (db \<times> bool) result" where
  "admit_projection cfg snap opened row d =
     (if oc_state row = Oc_Active \<and> entry_given (tk_novo snap) then
        and_then (if provider_contract_mode cfg = Contract_Off
                  then and_then (open_cycle cfg (oc_ticket row) (tk_novo snap) None (Some (oc_account row)) d) (\<lambda>(d', r). Inr (d', Some r))
                  else Inr (d, opened)) (\<lambda>(d1, o1).
        and_then (case queued_attendance o1 of None \<Rightarrow> Inr d1 | Some c \<Rightarrow> ensure_queue_row (oc_ticket row) (oc_pipeline row) c d1)
          (\<lambda>d2. Inr (d2, proven_attendance o1)))
      else if oc_state row = Oc_Active \<and> provider_contract_mode cfg = Contract_Enforce then
        Inr (d, exists_row (live_cycle (oc_account row) (oc_ticket row)) (db_cycles d))
      else Inr (d, provider_contract_mode cfg \<noteq> Contract_Enforce))"

definition project_observed ::
  "settings \<Rightarrow> instant \<Rightarrow> provider_snapshot \<Rightarrow> open_result option \<Rightarrow> occupancy \<Rightarrow> db \<Rightarrow> (db \<times> occupancy \<times> uuid list) result" where
  "project_observed cfg now snap opened row d =
     (if \<not> capacity_enforced cfg then Inr (d, row, [])
      else and_then (admit_projection cfg snap opened row d) (\<lambda>(d1, project).
        if project then project_owner now row d1
        else Inr (d1, row\<lparr>oc_cycle := None\<rparr>,
               concat (map (\<lambda>r. agent_ids (as_agent r)) (filter (\<lambda>r. as_ticket r = oc_ticket row) (db_assigned d1))))))"

text \<open>The current attendance of a closed ticket must close with it.\<close>

definition project_close ::
  "settings \<Rightarrow> instant \<Rightarrow> string \<Rightarrow> close_occurrence option \<Rightarrow> provider_snapshot \<Rightarrow> occurrence option \<Rightarrow> occupancy \<Rightarrow> site \<Rightarrow> site result" where
  "project_close cfg now ticket close snap proven row s =
     (if close = None \<and> oc_state row = Oc_Closed \<and> exists_row (live_cycle (oc_account row) ticket) (db_cycles (st_db s)) then
        (case apply_ticket_closed cfg now ticket (tk_closed snap) StageNone (Some snap) s of
           Inl e \<Rightarrow> Inl CloseProjectionError
         | Inr (s', r) \<Rightarrow>
             (if cr_class r \<noteq> Applied_Current then Inl CloseProjectionError
              else Inr (case proven of None \<Rightarrow> s' | Some p \<Rightarrow> mark_processed (ol_pk p) s')))
      else Inr s)"

definition held_of :: "occupancy \<Rightarrow> db \<Rightarrow> reservation list" where
  "held_of row d = filter (\<lambda>r. rs_occupancy r = oc_pk row \<and> rs_state r = Held) (db_reservations d)"

definition settle_reservation :: "instant \<Rightarrow> occupancy \<Rightarrow> int option \<Rightarrow> reservation \<Rightarrow> db \<Rightarrow> db" where
  "settle_reservation now row owner r d =
     (if oc_state row = Oc_Active \<and> owner \<noteq> None \<and> map_option ag_owner (agent_of d (rs_agent r)) = owner
      then conclude_reservation now r True ''confirmed_owner'' d
      else if oc_state row \<in> {Oc_Closed, Oc_Out_Of_Scope}
      then conclude_reservation now r False ''confirmed_terminal_scope'' d else d)"

definition observed_again :: "instant \<Rightarrow> instant option \<Rightarrow> string \<Rightarrow> string \<Rightarrow> occupancy \<Rightarrow> occupancy" where
  "observed_again now updated source obs row = row\<lparr>oc_revision := oc_revision row + 1, oc_provider_updated_at := updated,
     oc_observed_at := Some now, oc_source := take 64 source, oc_observation := take 128 obs\<rparr>"

definition stamp_assignment :: "settings \<Rightarrow> instant \<Rightarrow> occupancy \<Rightarrow> int option \<Rightarrow> db \<Rightarrow> db" where
  "stamp_assignment cfg now row previous d =
     (case oc_agent row of
        Some g \<Rightarrow> (if capacity_enforced cfg \<and> oc_state row = Oc_Active \<and> previous \<noteq> oc_owner row
          then d\<lparr>db_agents := update_rows (\<lambda>a. ag_pk a = g) (\<lambda>a. a\<lparr>ag_last_assignment_at := Some now\<rparr>) (db_agents d)\<rparr> else d)
      | None \<Rightarrow> d)"

text \<open>The result of an observation: the row, and the agents whose portfolio it touched, unless it was
  only recorded as pending or superseded.  A failure carries the agents affected when it is raised.\<close>

definition apply_observation ::
  "settings \<Rightarrow> instant \<Rightarrow> string \<Rightarrow> string \<Rightarrow> string \<Rightarrow> close_occurrence option \<Rightarrow> ticket_observation \<Rightarrow> uuid list \<Rightarrow> occupancy \<Rightarrow> site \<Rightarrow>
    uuid list \<times> py_error + site \<times> occupancy \<times> uuid list option" where
  "apply_observation cfg now ticket source obs close ob known row s =
     (let snap = on_snap ob; previous = oc_owner row; row1 = observed_row cfg (st_db s) snap (on_owner ob) row
      in case project_observed cfg now snap (on_opened ob) row1 (st_db s) of
           Inl e \<Rightarrow> Inl (known, e)
         | Inr (d2, row2, moved) \<Rightarrow>
             (case project_close cfg now ticket close snap (on_proven ob) row2 (s\<lparr>st_db := d2\<rparr>) of
                Inl e \<Rightarrow> Inl (known @ moved, e)
              | Inr s3 \<Rightarrow>
                  (let held = held_of row2 (st_db s3); touched = known @ moved @ map rs_agent held;
                       row3 = observed_again now (tk_updated snap) source obs row2;
                       d4 = fold (settle_reservation now row2 (on_owner ob)) held (st_db s3);
                       d5 = stamp_assignment cfg now row3 previous (materialize cfg touched (put_occupancy row3 d4))
                   in Inr (s3\<lparr>st_db := d5\<rparr>, row3, Some touched))))"

definition locked_observation ::
  "settings \<Rightarrow> instant \<Rightarrow> string \<Rightarrow> string \<Rightarrow> string \<Rightarrow> close_occurrence option \<Rightarrow> int \<Rightarrow> uuid list \<Rightarrow> ticket_observation \<Rightarrow> site \<Rightarrow>
    uuid list \<times> py_error + site \<times> occupancy \<times> uuid list option" where
  "locked_observation cfg now ticket source obs close revision base ob s =
     (case ticket_transaction cfg ticket (st_db s) of
        Inl e \<Rightarrow> Inl (base, e)
      | Inr (d, row) \<Rightarrow>
          (let snap = on_snap ob; s1 = s\<lparr>st_db := d\<rparr>;
               known = base @ agent_ids (oc_agent row) @ agent_ids (map_option ag_pk (observed_agent d (on_owner ob)))
           in if superseded_close cfg d ticket close snap then Inr (s1, row, None)
              else if observation_conflict revision (tk_updated snap) (on_owner ob) row
              then Inl (known, CapacityObservationConflictError)
              else if close = None \<and> tk_pipeline snap = support_pipeline_id cfg \<and> closed_stage cfg snap \<and> \<not> entry_given (tk_closed snap) then
                (if provider_contract_mode cfg = Contract_Off then Inl (known, CloseProjectionError)
                 else case record_pending_close now (oc_account row) ticket (map_option cy_pk (latest_live_cycle d (oc_account row) ticket))
                             (tk_updated snap) obs True s1 of
                        Inl e \<Rightarrow> Inl (known, e)
                      | Inr (s2, _, _) \<Rightarrow> Inr (s2, row, None))
              else apply_observation cfg now ticket source obs close ob known row s1))"

section \<open>Reconciling a ticket\<close>

definition degrade_site :: "uuid list \<Rightarrow> site \<Rightarrow> site" where
  "degrade_site ids s = s\<lparr>st_db := degrade_agents ids (st_db s)\<rparr>"

definition captured_agents :: "occupancy \<Rightarrow> db \<Rightarrow> uuid list" where
  "captured_agents row d = agent_ids (oc_agent row) @ map rs_agent (held_of row d)"

definition observe_ticket ::
  "settings \<Rightarrow> instant \<Rightarrow> string \<Rightarrow> string \<Rightarrow> string \<Rightarrow> close_occurrence option \<Rightarrow> occupancy \<Rightarrow> uuid list \<Rightarrow> provider_snapshot \<Rightarrow> site \<Rightarrow>
    site \<times> (occupancy \<times> uuid list option) result" where
  "observe_ticket cfg now ticket source obs close captured base snap s =
     (case prepare_observation cfg now (oc_account captured) ticket obs close snap s of
        (s1, Inl e) \<Rightarrow> (degrade_site base s1, Inl e)
      | (s1, Inr ob) \<Rightarrow>
          (case locked_observation cfg now ticket source obs close (oc_revision captured) base ob s1 of
             Inl (known, e) \<Rightarrow> (degrade_site known s1, Inl e)
           | Inr (s2, row, touched) \<Rightarrow> (s2, Inr (row, touched))))"

definition reconcile_ticket ::
  "settings \<Rightarrow> instant \<Rightarrow> string \<Rightarrow> string \<Rightarrow> string \<Rightarrow> close_occurrence option \<Rightarrow> reading \<Rightarrow> site \<Rightarrow>
    site \<times> (occupancy \<times> uuid list option) result" where
  "reconcile_ticket cfg now ticket source obs close rd s =
     (case ticket_transaction cfg ticket (st_db s) of
        Inl e \<Rightarrow> (s, Inl e)
      | Inr (d, captured) \<Rightarrow>
          (let base = captured_agents captured d
           in case rd (s\<lparr>st_db := d\<rparr>) of
                (s1, Inl e) \<Rightarrow> (degrade_site base s1, Inl e)
              | (s1, Inr snap) \<Rightarrow> observe_ticket cfg now ticket source obs close captured base snap s1))"

section \<open>Reconciling a close\<close>

definition settles :: "close_classification \<Rightarrow> bool" where
  "settles c \<longleftrightarrow> applies c \<or> c = Close_Duplicate"

text \<open>Everything under the outer ticket transaction is rolled back when it raises, and when the close
  is neither applied nor a duplicate.\<close>

definition close_under_lock ::
  "settings \<Rightarrow> instant \<Rightarrow> close_occurrence \<Rightarrow> int \<Rightarrow> provider_snapshot \<Rightarrow> bool \<Rightarrow> site \<Rightarrow> site \<times> close_result result" where
  "close_under_lock cfg now oc revision snap allow_legacy s =
     (case ticket_transaction cfg (to_ticket oc) (st_db s) of
        Inl e \<Rightarrow> (s, Inl e)
      | Inr (d, locked) \<Rightarrow>
          (if oc_revision locked \<noteq> revision then (s, Inl CapacityObservationConflictError)
           else case reconcile_ticket cfg now (to_ticket oc) ''close'' [] (Some oc) (given snap) (s\<lparr>st_db := d\<rparr>) of
                  (_, Inl e) \<Rightarrow> (s, Inl e)
                | (s1, Inr _) \<Rightarrow>
                    (case apply_close_occurrence cfg now oc (Some snap) False allow_legacy s1 of
                       Inl e \<Rightarrow> (s, Inl e)
                     | Inr (s2, r) \<Rightarrow> (if settles (cr_class r) then (s2, Inr r) else (s, Inr r)))))"

definition apply_unlocked ::
  "settings \<Rightarrow> instant \<Rightarrow> close_occurrence \<Rightarrow> provider_snapshot option \<Rightarrow> bool \<Rightarrow> bool \<Rightarrow> site \<Rightarrow> site \<times> close_result result" where
  "apply_unlocked cfg now oc snap dry_run allow_legacy s =
     (case apply_close_occurrence cfg now oc snap dry_run allow_legacy s of
        Inl e \<Rightarrow> (s, Inl e)
      | Inr (s', r) \<Rightarrow> (s', Inr r))"

text \<open>After the revision is captured: the read outside the locks, and the write.\<close>

definition close_after_capture ::
  "settings \<Rightarrow> instant \<Rightarrow> close_occurrence \<Rightarrow> bool \<Rightarrow> bool \<Rightarrow> bool \<Rightarrow> bool \<Rightarrow> reading \<Rightarrow> int \<Rightarrow> site \<Rightarrow> site \<times> close_result result" where
  "close_after_capture cfg now oc needs reads dry_run allow_legacy rd revision s =
     (if \<not> reads then apply_unlocked cfg now oc None dry_run allow_legacy s
      else case rd s of
             (s1, Inl e) \<Rightarrow> (s1, Inl e)
           | (s1, Inr snap) \<Rightarrow>
               (if needs then close_under_lock cfg now oc revision snap allow_legacy s1
                else apply_unlocked cfg now oc (Some snap) dry_run allow_legacy s1))"

definition reconcile_close_occurrence ::
  "settings \<Rightarrow> instant \<Rightarrow> close_occurrence \<Rightarrow> bool \<Rightarrow> bool \<Rightarrow> reading \<Rightarrow> site \<Rightarrow> site \<times> close_result result" where
  "reconcile_close_occurrence cfg now oc dry_run allow_legacy rd s =
     (let initial = resolve_close_target (cycles_of_ticket (st_db s) (to_ticket oc)) (to_at oc);
          legacy = (allow_legacy \<and> cr_class initial = No_Cycle);
          tracked = (capacity_mode_of cfg \<noteq> Capacity_Off);
          needs = ((cr_current initial \<or> legacy) \<and> \<not> dry_run \<and> tracked);
          reads = (cr_current initial \<or> (legacy \<and> tracked))
      in if needs then
           (case ticket_transaction cfg (to_ticket oc) (st_db s) of
              Inl e \<Rightarrow> (s, Inl e)
            | Inr (d, row) \<Rightarrow>
                close_after_capture cfg now oc needs reads dry_run allow_legacy rd (oc_revision row) (s\<lparr>st_db := d\<rparr>))
         else close_after_capture cfg now oc needs reads dry_run allow_legacy rd 0 s)"

definition webhook_evidence :: "string \<Rightarrow> evidence" where
  "webhook_evidence event = \<lparr>ob_source = ''webhook_property'', ob_event = event, ob_updated = None, ob_observation = []\<rparr>"

definition project_close_occurrence ::
  "settings \<Rightarrow> instant \<Rightarrow> close_occurrence \<Rightarrow> reading \<Rightarrow> site \<Rightarrow> site \<times> close_result result" where
  "project_close_occurrence cfg now oc rd s =
     (if provider_contract_mode cfg = Contract_Off
      then reconcile_close_occurrence cfg now oc False (\<not> cycles_enforced cfg) rd s
      else case record_proven_occurrence now (portal_id (key_env cfg)) (to_ticket oc) Ticket_Closed (to_at oc)
                  (webhook_evidence (to_event oc)) s of
             Inl e \<Rightarrow> (s, Inl e)
           | Inr (s1, p) \<Rightarrow>
               (case reconcile_close_occurrence cfg now oc False (\<not> cycles_enforced cfg) rd s1 of
                  (s2, Inl e) \<Rightarrow> (s2, Inl e)
                | (s2, Inr r) \<Rightarrow> ((if settles (cr_class r) then mark_processed (ol_pk p) s2 else s2), Inr r)))"

definition handle_ticket_closed ::
  "settings \<Rightarrow> instant \<Rightarrow> string \<Rightarrow> stage_value \<Rightarrow> stage_value \<Rightarrow> string \<Rightarrow> reading \<Rightarrow> site \<Rightarrow> site \<times> close_result result" where
  "handle_ticket_closed cfg now ticket at_ms owner event rd s =
     (case require_routing_writer_authority cfg of
        Inl e \<Rightarrow> (s, Inl e)
      | Inr _ \<Rightarrow>
          (case webhook_close ticket at_ms owner event of
             None \<Rightarrow> (s, Inr (close_result Close_Identity_Unavailable None False))
           | Some oc \<Rightarrow> project_close_occurrence cfg now oc rd s))"

section \<open>Refreshing the portfolio of an agent\<close>

definition held_tickets :: "db \<Rightarrow> uuid \<Rightarrow> string list" where
  "held_tickets d g = map oc_ticket (filter (\<lambda>o'. exists_row (\<lambda>r. rs_occupancy r = oc_pk o' \<and> rs_agent r = g \<and> rs_state r = Held)
     (db_reservations d)) (db_occupancies d))"

definition settled_ticket :: "string \<Rightarrow> db \<Rightarrow> string \<Rightarrow> bool" where
  "settled_ticket account d ticket = exists_row (\<lambda>o'. oc_account o' = account \<and> oc_ticket o' = ticket \<and>
     oc_state o' \<in> {Oc_Closed, Oc_Out_Of_Scope}) (db_occupancies d)"

definition local_tickets :: "string \<Rightarrow> db \<Rightarrow> uuid \<Rightarrow> string list" where
  "local_tickets account d g =
     map oc_ticket (filter (\<lambda>o'. oc_agent o' = Some g \<and> oc_state o' \<notin> {Oc_Closed, Oc_Out_Of_Scope}) (db_occupancies d)) @
     filter (\<lambda>t. \<not> settled_ticket account d t) (map as_ticket (filter (\<lambda>r. as_agent r = Some g) (db_assigned d)))"

text \<open>The tickets to read, and whether some are left for another batch.\<close>

definition portfolio_batch :: "settings \<Rightarrow> string \<Rightarrow> uuid \<Rightarrow> string list \<Rightarrow> db \<Rightarrow> (string list \<times> bool) result" where
  "portfolio_batch cfg account g remote d =
     (let critical = sort (remdups (remote @ held_tickets d g));
          limit = capacity_max_scan_tickets cfg;
          backlog = sort (remdups (filter (\<lambda>t. t \<notin> set critical) (local_tickets account d g)));
          slots = nat (limit - int (length critical))
      in if limit < int (length critical) then Inl CapacityObservationConflictError
         else Inr (critical @ take slots backlog, slots < length backlog))"

text \<open>The deadline is the number of tickets it leaves time for; without one the scan is unbounded.\<close>

fun scan_portfolio :: "settings \<Rightarrow> instant \<Rightarrow> uuid \<Rightarrow> nat option \<Rightarrow> (string \<Rightarrow> reading) \<Rightarrow> string list \<Rightarrow> int \<Rightarrow> site \<Rightarrow> site \<times> int result" where
  "scan_portfolio cfg now g budget rd [] revision s = (s, Inr revision)"
| "scan_portfolio cfg now g budget rd (t # ts) revision s =
     (if budget = Some 0 then (s, Inl CapacityObservationConflictError)
      else case reconcile_ticket cfg now t ''portfolio'' [] None (rd t) s of
             (s1, Inl e) \<Rightarrow> (s1, Inl e)
           | (s1, Inr (row, touched)) \<Rightarrow>
               scan_portfolio cfg now g (map_option (\<lambda>n. n - 1) budget) rd ts
                 (if g \<in> set (case touched of None \<Rightarrow> [] | Some ids \<Rightarrow> ids) then revision + 1 else revision) s1)"

definition unclassified_operation :: "db \<Rightarrow> uuid \<Rightarrow> bool" where
  "unclassified_operation d g = exists_row (\<lambda>a. at_agent a = g \<and> at_state a \<notin> {Completed, Compensated} \<and>
     \<not> exists_row (\<lambda>r. rs_attempt r = Some (at_pk a)) (db_reservations d)) (db_attempts d)"

definition ambiguous_reservation :: "db \<Rightarrow> uuid \<Rightarrow> bool" where
  "ambiguous_reservation d g = exists_row (\<lambda>r. rs_agent r = g \<and> rs_state r = Held \<and>
     (rs_reassignment r \<noteq> None \<or>
      (case rs_attempt r of None \<Rightarrow> False
       | Some k \<Rightarrow> (case attempt_of d k of None \<Rightarrow> False | Some a \<Rightarrow> at_state a = Att_Repair_Required)))) (db_reservations d)"

definition declare_ready :: "instant \<Rightarrow> uuid \<Rightarrow> int \<Rightarrow> site \<Rightarrow> site result" where
  "declare_ready now g revision s =
     (let d = st_db s in
      if unclassified_operation d g \<or> ambiguous_reservation d g then Inl CapacityObservationConflictError
      else case agent_of d g of
             None \<Rightarrow> Inl DoesNotExist
           | Some a \<Rightarrow>
               (if ag_cap_revision a \<noteq> revision then Inl CapacityObservationConflictError
                else Inr (s\<lparr>st_db := put_agent (a\<lparr>ag_cap_state := ''ready'', ag_cap_reconciled_at := Some now\<rparr>) d\<rparr>)))"

definition refresh_locked ::
  "settings \<Rightarrow> instant \<Rightarrow> string \<Rightarrow> agent \<Rightarrow> nat option \<Rightarrow> (string list \<times> bool) result \<Rightarrow> (string \<Rightarrow> reading) \<Rightarrow> site \<Rightarrow> site \<times> unit result" where
  "refresh_locked cfg now account a budget listing rd s =
     (case listing of
        Inl e \<Rightarrow> (s, Inl e)
      | Inr (remote, complete) \<Rightarrow>
          (if \<not> complete then (s, Inl CapacityObservationConflictError)
           else case portfolio_batch cfg account (ag_pk a) remote (st_db s) of
                  Inl e \<Rightarrow> (s, Inl e)
                | Inr (batch, left) \<Rightarrow>
                    (case scan_portfolio cfg now (ag_pk a) budget rd batch (ag_cap_revision a) s of
                       (s1, Inl e) \<Rightarrow> (s1, Inl e)
                     | (s1, Inr revision) \<Rightarrow>
                         (if left then (s1, Inl CapacityObservationConflictError)
                          else case declare_ready now (ag_pk a) revision s1 of Inl e \<Rightarrow> (s1, Inl e) | Inr s2 \<Rightarrow> (s2, Inr ())))))"

definition recently_reconciled :: "settings \<Rightarrow> instant \<Rightarrow> agent \<Rightarrow> bool" where
  "recently_reconciled cfg now a \<longleftrightarrow> ag_cap_state a = ''ready'' \<and>
     (case ag_cap_reconciled_at a of None \<Rightarrow> False | Some t \<Rightarrow> now - t < seconds (capacity_freshness_seconds cfg))"

definition refresh_agent_capacity ::
  "settings \<Rightarrow> instant \<Rightarrow> uuid \<Rightarrow> bool \<Rightarrow> nat option \<Rightarrow> bool \<Rightarrow> (string list \<times> bool) result \<Rightarrow> (string \<Rightarrow> reading) \<Rightarrow> site \<Rightarrow> site \<times> bool result" where
  "refresh_agent_capacity cfg now g force budget lock_free listing rd s =
     (if capacity_mode_of cfg = Capacity_Off then (s, Inr True)
      else case require_routing_writer_authority cfg of
             Inl e \<Rightarrow> (s, Inl e)
           | Inr _ \<Rightarrow>
               (case agent_of (st_db s) g of
                  None \<Rightarrow> (s, Inl DoesNotExist)
                | Some a \<Rightarrow>
                    (if \<not> force \<and> recently_reconciled cfg now a then (s, Inr True)
                     else case capacity_account cfg of
                            Inl e \<Rightarrow> (s, Inl e)
                          | Inr account \<Rightarrow>
                              (if \<not> lock_free then (s, Inr False)
                               else case refresh_locked cfg now account a budget listing rd s of
                                      (s1, Inl e) \<Rightarrow> (degrade_site [g] s1, Inr False)
                                    | (s1, Inr _) \<Rightarrow> (s1, Inr True)))))"

section \<open>The books: occupancies, reservations and agents\<close>

definition books :: "db \<Rightarrow> bool" where
  "books d \<longleftrightarrow> distinct (map oc_ident (db_occupancies d)) \<and> distinct (map oc_pk (db_occupancies d)) \<and>
     (\<forall>r \<in> set (db_occupancies d). oc_pk r < db_next_pk d) \<and> distinct (map rs_pk (db_reservations d))"

definition same_books :: "db \<Rightarrow> db \<Rightarrow> bool" where
  "same_books d d' \<longleftrightarrow> db_occupancies d' = db_occupancies d \<and> db_reservations d' = db_reservations d \<and>
     db_agents d' = db_agents d \<and> db_next_pk d \<le> db_next_pk d'"


lemma same_books_refl [simp]: "same_books d d"
  by (simp add: same_books_def)

lemma same_books_trans: "same_books d d1 \<Longrightarrow> same_books d1 d2 \<Longrightarrow> same_books d d2"
  by (simp add: same_books_def)

lemma same_books_count: "same_books d d' \<Longrightarrow> capacity_count d' g = capacity_count d g"
  by (simp add: same_books_def capacity_count_def occupied_pks_def reserved_pks_def)

lemma same_books_keep: "same_books d d' \<Longrightarrow> books d \<Longrightarrow> books d'"
  by (fastforce simp: same_books_def books_def)

lemma same_books_projected: "same_books d d' \<Longrightarrow> projected d \<Longrightarrow> projected d'"
  using same_books_count [of d d'] by (simp add: projected_def same_books_def)

lemma same_books_transfer: "same_books d (record_transfer a agent owner d)"
  by (simp add: same_books_def record_transfer_def)

lemma same_books_transfer_assigned: "same_books d (transfer_assigned a row owner d)"
  by (simp add: same_books_def transfer_assigned_def record_transfer_def put_assigned_def Let_def)

lemma same_books_adopt: "adopt_queued now row owner c q d = Inr d' \<Longrightarrow> same_books d d'"
  by (auto simp: same_books_def adopt_queued_def delete_queue_row_def put_cycle_def split: if_splits)

lemma same_books_open_cycle: "open_cycle cfg ticket v event account d = Inr (d', r) \<Longrightarrow> same_books d d'"
  by (auto simp: same_books_def open_cycle_def and_then_Inr_iff)

lemma same_books_ensure: "ensure_queue_row ticket pipeline c d = Inr d' \<Longrightarrow> same_books d d'"
  by (auto simp: same_books_def ensure_queue_row_def split: option.splits)

lemma same_books_project_owner:
  assumes "project_owner now row d = Inr (d', row', moved)"
  shows "same_books d d'" "\<exists>k. row' = row\<lparr>oc_cycle := k\<rparr>"
proof -
  have same: "\<exists>k. row = row\<lparr>oc_cycle := k\<rparr>" by (rule exI [of _ "oc_cycle row"]) simp
  let ?a = "assigned_to_ticket d (oc_ticket row)"
  have "same_books d d' \<and> (\<exists>k. row' = row\<lparr>oc_cycle := k\<rparr>)"
  proof (cases "oc_state row = Oc_Active")
    case False
    have deleted: "same_books d (d1\<lparr>db_assigned := x\<rparr>)" if "same_books d d1" for d1 x
      using that by (simp add: same_books_def)
    have "row' = row" using assms False by (simp add: project_owner_def Let_def)
    moreover have "same_books d d'"
      using assms False deleted same_books_transfer
      by (cases ?a) (auto simp: project_owner_def Let_def split: if_splits)
    ultimately show ?thesis using same by blast
  next
    case active: True
    let ?c = "first_row (live_cycle (oc_account row) (oc_ticket row)) (db_cycles d)"
    let ?row = "row\<lparr>oc_cycle := map_option cy_pk ?c\<rparr>"
    have "same_books d d' \<and> row' = ?row"
    proof (cases ?a)
      case (Some r)
      then show ?thesis using assms active same_books_transfer_assigned
        by (auto simp: project_owner_def Let_def split: if_splits option.splits)
    next
      case None
      have "\<exists>owner y q. adopt_queued now ?row owner y q d = Inr d' \<or> d' = d" and "row' = ?row"
        using assms active None by (auto simp: project_owner_def Let_def and_then_Inr_iff split: if_splits option.splits)
      then show ?thesis using same_books_adopt by auto
    qed
    then show ?thesis by blast
  qed
  then show "same_books d d'" "\<exists>k. row' = row\<lparr>oc_cycle := k\<rparr>" by simp_all
qed

lemma same_books_admit:
  assumes "admit_projection cfg snap opened row d = Inr (d', b)"
  shows "same_books d d'"
proof (cases "oc_state row = Oc_Active \<and> entry_given (tk_novo snap)")
  case False
  then show ?thesis using assms by (auto simp: admit_projection_def split: if_splits)
next
  case True
  then obtain d1 o1 d2 where 1: "(if provider_contract_mode cfg = Contract_Off
        then and_then (open_cycle cfg (oc_ticket row) (tk_novo snap) None (Some (oc_account row)) d) (\<lambda>(d', r). Inr (d', Some r))
        else Inr (d, opened)) = Inr (d1, o1)"
    and 2: "(case queued_attendance o1 of None \<Rightarrow> Inr d1 | Some c \<Rightarrow> ensure_queue_row (oc_ticket row) (oc_pipeline row) c d1) = Inr d'"
    using assms unfolding admit_projection_def by (auto simp: and_then_Inr_iff)
  have "same_books d d1" using 1 same_books_open_cycle by (auto simp: and_then_Inr_iff split: if_splits)
  moreover have "same_books d1 d'" using 2 same_books_ensure by (auto split: option.splits)
  ultimately show ?thesis by (rule same_books_trans)
qed

lemma project_observed_result:
  assumes "project_observed cfg now snap opened row d = Inr (d', row', moved)"
  shows "same_books d d'" "\<exists>k. row' = row\<lparr>oc_cycle := k\<rparr>"
proof -
  have same: "\<exists>k. row = row\<lparr>oc_cycle := k\<rparr>" by (rule exI [of _ "oc_cycle row"]) simp
  have "same_books d d' \<and> (\<exists>k. row' = row\<lparr>oc_cycle := k\<rparr>)"
  proof (cases "capacity_enforced cfg")
    case False
    then show ?thesis using assms same by (auto simp: project_observed_def)
  next
    case True
    then obtain d1 b where a: "admit_projection cfg snap opened row d = Inr (d1, b)"
      and b: "if b then project_owner now row d1 = Inr (d', row', moved) else d' = d1 \<and> row' = row\<lparr>oc_cycle := None\<rparr>"
      using assms by (auto simp: project_observed_def and_then_Inr_iff split: if_splits)
    show ?thesis
      using same_books_admit [OF a] b same_books_project_owner [of now row d1 d' row' moved] same_books_trans [of d d1 d']
      by (auto split: if_splits)
  qed
  then show "same_books d d'" "\<exists>k. row' = row\<lparr>oc_cycle := k\<rparr>" by simp_all
qed

text \<open>Evidence and closes leave the books alone; a close takes back load only outside enforcing mode.\<close>

lemma same_books_insert_occurrence:
  "insert_occurrence r s = Inr (s', r') \<Longrightarrow> same_books (st_db s) (st_db s')"
  by (auto simp: insert_occurrence_def same_books_def Let_def split: if_splits)

lemma save_occurrence_db: "save_occurrence r s = Inr s' \<Longrightarrow> st_db s' = st_db s"
  by (auto simp: save_occurrence_def split: if_splits)

lemma same_books_proven:
  "record_proven_occurrence now account ticket ty t ev s = Inr (s', r) \<Longrightarrow> same_books (st_db s) (st_db s')"
  by (auto simp: record_proven_occurrence_def get_temporal_def save_occurrence_db
      intro: same_books_insert_occurrence split: if_splits option.splits sum.splits)

lemma same_books_pending:
  "record_pending_close now account ticket k updated obs schedule s = Inr (s', r) \<Longrightarrow> same_books (st_db s) (st_db s')"
  by (auto simp: record_pending_close_def and_then_Inr_iff intro: same_books_insert_occurrence split: if_splits option.splits)

lemma mark_processed_db [simp]: "st_db (mark_processed k s) = st_db s"
  by (simp add: mark_processed_def)

lemma same_books_open_from:
  assumes "open_from_proven_occurrence cfg now ticket t account ev s = Inr (s', r)"
  shows "same_books (st_db s) (st_db s')"
proof -
  obtain s1 p d where 1: "record_proven_occurrence now account ticket Entered_Support_Queue t (ev\<lparr>ob_updated := None\<rparr>) s = Inr (s1, p)"
    and 2: "open_cycle cfg ticket (AwareDatetime t) (Some (ob_event ev)) (Some account) (st_db s1) = Inr (d, r)" and 3: "st_db s' = d"
    using assms by (auto simp: open_from_proven_occurrence_def and_then_Inr_iff Let_def split: if_splits)
  show ?thesis unfolding 3 using same_books_proven [OF 1] same_books_open_cycle [OF 2] same_books_trans by blast
qed

lemma same_books_materialize_support:
  assumes "materialize_support cfg now target oc current d = Inr d'" and "capacity_enforced cfg"
  shows "same_books d d'"
proof -
  have load: "load_taken_back cfg current d (assigned_of d (map_option cy_pk target) (to_ticket oc)) = None"
    using assms(2) by (simp add: load_taken_back_def split: option.splits)
  have pk: "db_next_pk (delete_pending k t d1) = db_next_pk d1" for k t d1
    unfolding delete_pending_def by (rule fold_invariant [where P = "\<lambda>d. db_next_pk d = db_next_pk d1" and Q = "\<lambda>_. True"])
      (simp_all add: delete_queue_row_def)
  have "db_next_pk d \<le> db_next_pk d'"
    using assms(1) load
    by (auto simp: materialize_support_def Let_def and_then_Inr_iff take_back_load_eq insert_closed_def put_cycle_def pk
        split: if_splits option.splits)
  then show ?thesis
    using materialize_support_tables(6-8) [OF assms(1)] load by (simp add: same_books_def)
qed

lemma same_books_apply_close:
  assumes "apply_close_occurrence cfg now oc snap dry_run allow_legacy s = Inr (s', r)" and "capacity_enforced cfg"
  shows "same_books (st_db s) (st_db s')"
  using assms
  by (auto simp: apply_close_occurrence_def materialize_close_def Let_def and_then_Inr_iff
      intro: same_books_materialize_support split: if_splits)

lemma same_books_ticket_closed:
  "apply_ticket_closed cfg now ticket v owner snap s = Inr (s', r) \<Longrightarrow> capacity_enforced cfg \<Longrightarrow> same_books (st_db s) (st_db s')"
  by (auto simp: apply_ticket_closed_def intro: same_books_apply_close split: option.splits)

lemma same_books_project_close:
  assumes "project_close cfg now ticket close snap proven row s = Inr s'" and "capacity_enforced cfg"
  shows "same_books (st_db s) (st_db s')"
proof -
  have "s' = s \<or> (\<exists>s1 r. apply_ticket_closed cfg now ticket (tk_closed snap) StageNone (Some snap) s = Inr (s1, r) \<and> st_db s' = st_db s1)"
    using assms(1) by (auto simp: project_close_def split: if_splits sum.splits option.splits)
  then show ?thesis using same_books_ticket_closed [OF _ assms(2)] by auto
qed

lemma same_books_prepare:
  assumes "prepare_observation cfg now account ticket obs close snap s = (s', r)"
  shows "same_books (st_db s) (st_db s')"
proof -
  have o: "same_books (st_db s) (st_db s1)" if "open_observed cfg now account ticket obs snap s = Inr (s1, x)" for s1 x
    using that same_books_open_from by (fastforce simp: open_observed_def and_then_Inr_iff split: if_splits option.splits)
  have p: "same_books (st_db s1) (st_db s2)" if "prove_close cfg now account ticket obs close snap s1 = Inr (s2, x)" for s1 s2 x
    using that same_books_proven by (fastforce simp: prove_close_def and_then_Inr_iff split: if_splits option.splits)
  show ?thesis
    using assms o p same_books_trans by (fastforce simp: prepare_observation_def split: if_splits sum.splits prod.splits)
qed

lemma count_eqI:
  "(\<And>k. k \<in> set (occupied_pks d' g) \<longleftrightarrow> k \<in> set (occupied_pks d g)) \<Longrightarrow>
   (\<And>k. k \<in> set (reserved_pks d' g) \<longleftrightarrow> k \<in> set (reserved_pks d g)) \<Longrightarrow> capacity_count d' g = capacity_count d g"
  by (rule capacity_count_cong) blast+

lemma ticket_transaction_books:
  assumes "ticket_transaction cfg ticket d = Inr (d', row)" and "books d"
  shows "books d'" "row \<in> set (db_occupancies d')" "oc_ticket row = ticket" "db_agents d' = db_agents d"
    "db_reservations d' = db_reservations d" "capacity_count d' g = capacity_count d g" "projected d \<Longrightarrow> projected d'"
    "db_cycles d' = db_cycles d" "db_closed d' = db_closed d" "db_assigned d' = db_assigned d" "db_queue d' = db_queue d"
    "ticket_transaction cfg ticket d' = Inr (d', row)"
proof -
  obtain account where acc: "capacity_account cfg = Inr account" "require_routing_writer_authority cfg = Inr ()"
    and t: "get_or_create_occupancy (account, ticket) d = (d', row)"
    using assms(1) by (auto simp: ticket_transaction_def split: sum.splits)
  have ids: "distinct (map oc_ident (db_occupancies d))" using assms(2) by (simp add: books_def)
  have tables: "db_agents d' = db_agents d \<and> db_reservations d' = db_reservations d \<and> db_cycles d' = db_cycles d \<and>
      db_closed d' = db_closed d \<and> db_assigned d' = db_assigned d \<and> db_queue d' = db_queue d \<and> books d' \<and> row \<in> set (db_occupancies d') \<and>
      oc_ident row = (account, ticket) \<and> (\<forall>g. capacity_count d' g = capacity_count d g)"
  proof (cases "get_row oc_ident (account, ticket) (db_occupancies d)")
    case None
    let ?r = "new_occupancy (db_next_pk d) account ticket"
    have d': "d' = d\<lparr>db_occupancies := db_occupancies d @ [?r], db_next_pk := Suc (db_next_pk d)\<rparr>" and row: "row = ?r"
      using get_or_create_occupancy_new [OF None] t by simp_all
    have fresh: "(account, ticket) \<notin> oc_ident ` set (db_occupancies d)" using None by (auto simp: get_row_None)
    have "capacity_count d' g = capacity_count d g" for g
      by (rule count_eqI) (auto simp: d' in_occupied in_reserved new_occupancy_def)
    moreover have "books d'" using assms(2) fresh by (auto simp: books_def d' new_occupancy_def oc_ident_def)
    ultimately show ?thesis by (simp add: d' row oc_ident_def new_occupancy_def)
  next
    case (Some r)
    have d': "d' = d" and row: "row = r" using get_or_create_occupancy_known [OF Some] t by simp_all
    show ?thesis using assms(2) get_row_Some_in [OF Some] by (simp add: d' row)
  qed
  then show "books d'" "row \<in> set (db_occupancies d')" "oc_ticket row = ticket" "db_agents d' = db_agents d"
    "db_reservations d' = db_reservations d" "capacity_count d' g = capacity_count d g" "db_cycles d' = db_cycles d" "db_closed d' = db_closed d"
    "db_assigned d' = db_assigned d" "db_queue d' = db_queue d" by (simp_all add: oc_ident_def)
  show "projected d \<Longrightarrow> projected d'" using tables by (simp add: projected_def)
  have "distinct (map oc_ident (db_occupancies d'))" using tables by (simp add: books_def)
  then have "get_row oc_ident (account, ticket) (db_occupancies d') = Some row"
    using get_row_distinct [of oc_ident "db_occupancies d'" row] tables by simp
  then show "ticket_transaction cfg ticket d' = Inr (d', row)"
    unfolding ticket_transaction_def acc by (simp add: get_or_create_occupancy_known)
qed

section \<open>Settling the reservations of a ticket\<close>

definition agents_agree :: "reservation list \<Rightarrow> db \<Rightarrow> bool" where
  "agents_agree rs d \<longleftrightarrow> (\<forall>r \<in> set rs. \<forall>x \<in> set (db_reservations d). rs_pk x = rs_pk r \<longrightarrow> rs_agent x = rs_agent r)"

lemma conclude_reserved:
  assumes "agents_agree [r] d" and "g \<noteq> rs_agent r"
  shows "k \<in> set (reserved_pks (conclude_reservation now r b why d) g) \<longleftrightarrow> k \<in> set (reserved_pks d g)"
  using assms by (force simp: in_reserved conclude_reservation_def put_reservation_def save_row_def agents_agree_def)

lemma conclude_agree:
  "agents_agree rs d \<Longrightarrow> agents_agree [r] d \<Longrightarrow> agents_agree rs (conclude_reservation now r b why d)"
  by (force simp: agents_agree_def conclude_reservation_def put_reservation_def save_row_def)

lemma conclude_settled_tables:
  "db_occupancies (conclude_reservation now r b why d) = db_occupancies d" "db_agents (conclude_reservation now r b why d) = db_agents d"
  "db_next_pk (conclude_reservation now r b why d) = db_next_pk d"
  "map rs_pk (db_reservations (conclude_reservation now r b why d)) = map rs_pk (db_reservations d)"
  by (auto simp: conclude_reservation_def put_reservation_def save_row_def)

lemma settle_conclude:
  "settle_reservation now row owner r d = d \<or> (\<exists>b why. settle_reservation now row owner r d = conclude_reservation now r b why d)"
  by (auto simp: settle_reservation_def)

lemma settle_all:
  assumes "agents_agree rs d"
  shows "db_occupancies (fold (settle_reservation now row owner) rs d) = db_occupancies d \<and>
    db_agents (fold (settle_reservation now row owner) rs d) = db_agents d \<and>
    db_next_pk (fold (settle_reservation now row owner) rs d) = db_next_pk d \<and>
    map rs_pk (db_reservations (fold (settle_reservation now row owner) rs d)) = map rs_pk (db_reservations d) \<and>
    (\<forall>g k. g \<notin> rs_agent ` set rs \<longrightarrow>
       (k \<in> set (reserved_pks (fold (settle_reservation now row owner) rs d) g) \<longleftrightarrow> k \<in> set (reserved_pks d g)))"
  using assms
proof (induction rs arbitrary: d)
  case Nil
  then show ?case by simp
next
  case (Cons r rs)
  let ?d = "settle_reservation now row owner r d"
  have r: "agents_agree [r] d" "agents_agree rs d" using Cons.prems by (simp_all add: agents_agree_def)
  have step: "db_occupancies ?d = db_occupancies d" "db_agents ?d = db_agents d" "db_next_pk ?d = db_next_pk d"
    "map rs_pk (db_reservations ?d) = map rs_pk (db_reservations d)" "agents_agree rs ?d"
    "\<And>g k. g \<noteq> rs_agent r \<Longrightarrow> k \<in> set (reserved_pks ?d g) \<longleftrightarrow> k \<in> set (reserved_pks d g)"
    using settle_conclude [of now row owner r d] r conclude_settled_tables conclude_agree [OF r(2,1)] conclude_reserved [OF r(1)] by auto
  show ?case using Cons.IH [OF step(5)] step(1-4,6) by simp
qed

lemma held_agree:
  assumes "distinct (map rs_pk (db_reservations d))"
  shows "agents_agree (held_of row d) d"
  using assms by (auto simp: agents_agree_def held_of_def distinct_map inj_on_def)

text \<open>An applied observation keeps the books and, in enforcing mode, the projection on agents.\<close>

lemma stamp_tables:
  "db_occupancies (stamp_assignment cfg now row p d) = db_occupancies d" "db_reservations (stamp_assignment cfg now row p d) = db_reservations d"
  "db_next_pk (stamp_assignment cfg now row p d) = db_next_pk d"
  "map (\<lambda>a. (ag_pk a, ag_chats a)) (db_agents (stamp_assignment cfg now row p d)) = map (\<lambda>a. (ag_pk a, ag_chats a)) (db_agents d)"
  by (auto simp: stamp_assignment_def update_rows_def split: option.splits)

lemma projected_alt: "projected d \<longleftrightarrow> (\<forall>(k, n) \<in> set (map (\<lambda>a. (ag_pk a, ag_chats a)) (db_agents d)). n = int (capacity_count d k))"
  by (auto simp: projected_def list_all_iff)

lemma projected_cong:
  "map (\<lambda>a. (ag_pk a, ag_chats a)) (db_agents d') = map (\<lambda>a. (ag_pk a, ag_chats a)) (db_agents d) \<Longrightarrow>
   db_occupancies d' = db_occupancies d \<Longrightarrow> db_reservations d' = db_reservations d \<Longrightarrow> projected d' = projected d"
  by (simp add: projected_alt capacity_count_def occupied_pks_def reserved_pks_def del: set_map)

lemma apply_observation_steps:
  assumes "apply_observation cfg now ticket source obs close ob known row s = Inr (s', row', touched)"
  obtains s3 :: site and row2 moved where "same_books (st_db s) (st_db s3) \<or> \<not> capacity_enforced cfg"
    "\<exists>k. row2 = (observed_row cfg (st_db s) (on_snap ob) (on_owner ob) row)\<lparr>oc_cycle := k\<rparr>"
    "row' = observed_again now (tk_updated (on_snap ob)) source obs row2"
    "touched = Some (known @ moved @ map rs_agent (held_of row2 (st_db s3)))"
    "st_db s' = stamp_assignment cfg now row' (oc_owner row) (materialize cfg (known @ moved @ map rs_agent (held_of row2 (st_db s3)))
       (put_occupancy row' (fold (settle_reservation now row2 (on_owner ob)) (held_of row2 (st_db s3)) (st_db s3))))"
proof -
  let ?row1 = "observed_row cfg (st_db s) (on_snap ob) (on_owner ob) row"
  obtain d2 row2 moved where 1: "project_observed cfg now (on_snap ob) (on_opened ob) ?row1 (st_db s) = Inr (d2, row2, moved)"
    using assms by (auto simp: apply_observation_def Let_def split: sum.splits)
  obtain s3 where 2: "project_close cfg now ticket close (on_snap ob) (on_proven ob) row2 (s\<lparr>st_db := d2\<rparr>) = Inr s3"
    using assms by (auto simp: apply_observation_def Let_def 1 split: sum.splits)
  have same: "same_books (st_db s) (st_db s3)" if "capacity_enforced cfg"
    using project_observed_result(1) [OF 1] same_books_project_close [OF 2 that] same_books_trans by simp
  show thesis
  proof (rule that [of s3 row2 moved])
    show "same_books (st_db s) (st_db s3) \<or> \<not> capacity_enforced cfg" using same by blast
    show "\<exists>k. row2 = (observed_row cfg (st_db s) (on_snap ob) (on_owner ob) row)\<lparr>oc_cycle := k\<rparr>"
      by (rule project_observed_result(2) [OF 1])
    show "row' = observed_again now (tk_updated (on_snap ob)) source obs row2"
      using assms by (auto simp: apply_observation_def Let_def 1 2)
    show "touched = Some (known @ moved @ map rs_agent (held_of row2 (st_db s3)))"
      using assms by (auto simp: apply_observation_def Let_def 1 2)
    show "st_db s' = stamp_assignment cfg now row' (oc_owner row) (materialize cfg (known @ moved @ map rs_agent (held_of row2 (st_db s3)))
       (put_occupancy row' (fold (settle_reservation now row2 (on_owner ob)) (held_of row2 (st_db s3)) (st_db s3))))"
      using assms by (auto simp: apply_observation_def Let_def 1 2)
  qed
qed

lemma in_occupied_put:
  assumes "distinct (map oc_pk (db_occupancies d))" and "row \<in> set (db_occupancies d)" and "oc_pk row' = oc_pk row"
    and "oc_agent row \<noteq> Some g" and "oc_agent row' \<noteq> Some g"
  shows "k \<in> set (occupied_pks (put_occupancy row' d) g) \<longleftrightarrow> k \<in> set (occupied_pks d g)"
proof -
  have "r = row" if "r \<in> set (db_occupancies d)" "oc_pk r = oc_pk row" for r
    using assms(1,2) that by (auto simp: distinct_map inj_on_def)
  then show ?thesis using assms(3-5) by (force simp: in_occupied put_occupancy_def save_row_def)
qed

lemma books_put:
  assumes "books d" and "row \<in> set (db_occupancies d)" and "oc_pk row' = oc_pk row" and "oc_ident row' = oc_ident row"
  shows "books (put_occupancy row' d)"
proof -
  have u: "r = row" if "r \<in> set (db_occupancies d)" "oc_pk r = oc_pk row" for r
    using assms(1,2) that by (auto simp: books_def distinct_map inj_on_def)
  then have "map oc_ident (save_row oc_pk row' (db_occupancies d)) = map oc_ident (db_occupancies d)"
    using assms(3,4) by (auto simp: save_row_def)
  moreover have "map oc_pk (save_row oc_pk row' (db_occupancies d)) = map oc_pk (db_occupancies d)"
    using assms(3) by (auto simp: save_row_def)
  moreover have "\<forall>r \<in> set (save_row oc_pk row' (db_occupancies d)). oc_pk r < db_next_pk d"
    using assms(1-3) by (auto simp: save_row_def books_def)
  ultimately show ?thesis using assms(1) by (simp add: books_def put_occupancy_def)
qed

lemma apply_observation_books:
  assumes "apply_observation cfg now ticket source obs close ob known row s = Inr (s', row', touched)"
    and "capacity_enforced cfg" and "books (st_db s)" and "row \<in> set (db_occupancies (st_db s))"
    and "set (agent_ids (oc_agent row)) \<subseteq> set known"
    and "set (agent_ids (map_option ag_pk (observed_agent (st_db s) (on_owner ob)))) \<subseteq> set known"
  shows "books (st_db s')" "projected (st_db s) \<Longrightarrow> projected (st_db s')" "row' \<in> set (db_occupancies (st_db s'))"
proof -
  obtain s3 :: site and row2 moved where same: "same_books (st_db s) (st_db s3) \<or> \<not> capacity_enforced cfg"
    and row2: "\<exists>k. row2 = (observed_row cfg (st_db s) (on_snap ob) (on_owner ob) row)\<lparr>oc_cycle := k\<rparr>"
    and row': "row' = observed_again now (tk_updated (on_snap ob)) source obs row2"
    and db: "st_db s' = stamp_assignment cfg now row' (oc_owner row) (materialize cfg (known @ moved @ map rs_agent (held_of row2 (st_db s3)))
       (put_occupancy row' (fold (settle_reservation now row2 (on_owner ob)) (held_of row2 (st_db s3)) (st_db s3))))"
    by (rule apply_observation_steps [OF assms(1)])
  let ?held = "held_of row2 (st_db s3)" and ?ids = "known @ moved @ map rs_agent (held_of row2 (st_db s3))"
  let ?d4 = "fold (settle_reservation now row2 (on_owner ob)) ?held (st_db s3)"
  let ?d5 = "put_occupancy row' ?d4"
  have b3: "same_books (st_db s) (st_db s3)" "books (st_db s3)" using same assms(2,3) same_books_keep by auto
  then have row: "row \<in> set (db_occupancies (st_db s3))" using assms(4) by (simp add: same_books_def)
  have ids: "oc_pk row' = oc_pk row" "oc_ident row' = oc_ident row"
    "oc_agent row' = map_option ag_pk (observed_agent (st_db s) (on_owner ob))"
    using row2 by (auto simp: row' observed_again_def observed_row_def oc_ident_def)
  have agree: "agents_agree ?held (st_db s3)" using b3(2) by (simp add: held_agree books_def)
  have settled: "db_occupancies ?d4 = db_occupancies (st_db s3)" "db_agents ?d4 = db_agents (st_db s3)" "db_next_pk ?d4 = db_next_pk (st_db s3)"
    "map rs_pk (db_reservations ?d4) = map rs_pk (db_reservations (st_db s3))"
    "\<And>g k. g \<notin> rs_agent ` set ?held \<Longrightarrow> k \<in> set (reserved_pks ?d4 g) \<longleftrightarrow> k \<in> set (reserved_pks (st_db s3) g)"
    using settle_all [OF agree, of now row2 "on_owner ob"] by (simp_all add: books_def)
  have b4: "books ?d4" using b3(2) settled by (simp add: books_def del: set_map)
  then have b5: "books ?d5" using books_put [OF b4, of row row'] row settled(1) ids by simp
  then show "books (st_db s')" by (simp add: db books_def stamp_tables)
  show "row' \<in> set (db_occupancies (st_db s'))"
    using row settled(1) ids(1) by (auto simp: db stamp_tables put_occupancy_def save_row_def image_iff)
  show "projected (st_db s')" if p: "projected (st_db s)"
  proof -
    have count: "capacity_count ?d5 g = capacity_count (st_db s) g" if "g \<notin> set ?ids" for g
    proof -
      have g: "oc_agent row \<noteq> Some g" "oc_agent row' \<noteq> Some g" "g \<notin> rs_agent ` set ?held"
        using that assms(5,6) by (auto simp: ids(3) agent_ids_def split: option.splits)
      have "k \<in> set (occupied_pks ?d5 g) \<longleftrightarrow> k \<in> set (occupied_pks (st_db s3) g)" for k
      proof -
        have "k \<in> set (occupied_pks ?d5 g) \<longleftrightarrow> k \<in> set (occupied_pks ?d4 g)"
          by (rule in_occupied_put [where row = row]) (use b4 row settled(1) ids(1) g in \<open>simp_all add: books_def\<close>)
        then show ?thesis by (simp add: in_occupied settled(1))
      qed
      moreover have "k \<in> set (reserved_pks ?d5 g) \<longleftrightarrow> k \<in> set (reserved_pks (st_db s3) g)" for k
        using settled(5) [OF g(3)] by simp
      ultimately have "capacity_count ?d5 g = capacity_count (st_db s3) g" by (rule count_eqI)
      then show ?thesis using same_books_count [OF b3(1)] by simp
    qed
    have "db_agents ?d5 = db_agents (st_db s)" using settled(2) b3(1) by (simp add: put_occupancy_def same_books_def)
    then have "projected (materialize cfg ?ids ?d5)" using materialize_projected [OF assms(2) p _ count] by blast
    then show ?thesis unfolding db by (subst projected_cong) (simp_all add: stamp_tables del: map_map)
  qed
qed

lemma settle_terminal:
  assumes "oc_state row \<in> {Oc_Closed, Oc_Out_Of_Scope}" and "\<forall>r \<in> set rs. rs_state r = Held"
  shows "\<forall>x \<in> set (db_reservations (fold (settle_reservation now row owner) rs d)).
    rs_state x = Held \<longrightarrow> x \<in> set (db_reservations d) \<and> rs_pk x \<notin> rs_pk ` set rs"
  using assms(2)
proof (induction rs arbitrary: d)
  case Nil
  then show ?case by simp
next
  case (Cons r rs)
  let ?d = "settle_reservation now row owner r d"
  have "?d = conclude_reservation now r False ''confirmed_terminal_scope'' d"
    using assms(1) by (auto simp: settle_reservation_def)
  then have "\<forall>x \<in> set (db_reservations ?d). rs_state x = Held \<longrightarrow> x \<in> set (db_reservations d) \<and> rs_pk x \<noteq> rs_pk r"
    using Cons.prems by (auto simp: conclude_reservation_def put_reservation_def save_row_def)
  moreover have "\<forall>x \<in> set (db_reservations (fold (settle_reservation now row owner) rs ?d)).
      rs_state x = Held \<longrightarrow> x \<in> set (db_reservations ?d) \<and> rs_pk x \<notin> rs_pk ` set rs"
    using Cons.IH [of ?d] Cons.prems by simp
  ultimately show ?case by auto
qed

lemma degrade_site_tables:
  "db_occupancies (degrade_agents ids d) = db_occupancies d" "db_reservations (degrade_agents ids d) = db_reservations d"
  "db_next_pk (degrade_agents ids d) = db_next_pk d" "db_assigned (degrade_agents ids d) = db_assigned d"
  "db_queue (degrade_agents ids d) = db_queue d" "db_closed (degrade_agents ids d) = db_closed d" "db_cycles (degrade_agents ids d) = db_cycles d"
  "map (\<lambda>a. (ag_pk a, ag_chats a)) (db_agents (degrade_agents ids d)) = map (\<lambda>a. (ag_pk a, ag_chats a)) (db_agents d)"
  by (auto simp: degrade_agents_def update_rows_def)

lemma degrade_books:
  "books (st_db s) \<Longrightarrow> books (st_db (degrade_site ids s))"
  "projected (st_db s) \<Longrightarrow> projected (st_db (degrade_site ids s))"
  by (simp_all add: degrade_site_def books_def degrade_site_tables) (subst projected_cong, simp_all add: degrade_site_tables)

lemma locked_observation_row:
  assumes "locked_observation cfg now ticket source obs close revision base ob s = Inr (s', row', touched)"
    and "books (st_db s)"
  obtains d row where "ticket_transaction cfg ticket (st_db s) = Inr (d, row)" "touched = None" "row' = row" "same_books d (st_db s')"
  | d row known where "ticket_transaction cfg ticket (st_db s) = Inr (d, row)"
      "\<not> observation_conflict revision (tk_updated (on_snap ob)) (on_owner ob) row"
      "apply_observation cfg now ticket source obs close ob known row (s\<lparr>st_db := d\<rparr>) = Inr (s', row', touched)"
      "known = base @ agent_ids (oc_agent row) @ agent_ids (map_option ag_pk (observed_agent d (on_owner ob)))"
proof -
  obtain d row where t: "ticket_transaction cfg ticket (st_db s) = Inr (d, row)"
    using assms(1) by (auto simp: locked_observation_def split: sum.splits)
  let ?known = "base @ agent_ids (oc_agent row) @ agent_ids (map_option ag_pk (observed_agent d (on_owner ob)))"
  have "(touched = None \<and> row' = row \<and> same_books d (st_db s')) \<or>
      (\<not> observation_conflict revision (tk_updated (on_snap ob)) (on_owner ob) row \<and>
       apply_observation cfg now ticket source obs close ob ?known row (s\<lparr>st_db := d\<rparr>) = Inr (s', row', touched))"
    using assms(1) same_books_pending [where s = "s\<lparr>st_db := d\<rparr>"]
    by (auto simp: locked_observation_def t Let_def split: if_splits sum.splits)
  then show thesis using that t by blast
qed

lemma locked_observation_books:
  assumes "locked_observation cfg now ticket source obs close revision base ob s = Inr (s', row', touched)"
    and "capacity_enforced cfg" and "books (st_db s)"
  shows "books (st_db s') \<and> (projected (st_db s) \<longrightarrow> projected (st_db s'))"
  using assms(1,3)
proof (cases rule: locked_observation_row)
  case (1 d row)
  then show ?thesis
    using ticket_transaction_books(1,7) [OF 1(1) assms(3)] same_books_keep [OF 1(4)] same_books_projected [OF 1(4)] by blast
next
  case (2 d row known)
  note t = ticket_transaction_books [OF 2(1) assms(3)]
  have k: "set (agent_ids (oc_agent row)) \<subseteq> set known"
    "set (agent_ids (map_option ag_pk (observed_agent (st_db (s\<lparr>st_db := d\<rparr>)) (on_owner ob)))) \<subseteq> set known"
    by (auto simp: 2(4))
  have b: "books (st_db (s\<lparr>st_db := d\<rparr>))" "row \<in> set (db_occupancies (st_db (s\<lparr>st_db := d\<rparr>)))" using t(1,2) by simp_all
  show ?thesis using apply_observation_books(1,2) [OF 2(3) assms(2) b k] t(7) by simp
qed

lemma observe_ticket_books:
  assumes "observe_ticket cfg now ticket source obs close captured base snap s = (s', r)"
    and "capacity_enforced cfg" and "books (st_db s)" and "projected (st_db s)"
  shows "books (st_db s') \<and> projected (st_db s')"
proof -
  obtain s1 p where 1: "prepare_observation cfg now (oc_account captured) ticket obs close snap s = (s1, p)" by fastforce
  have s1: "books (st_db s1)" "projected (st_db s1)"
    using same_books_prepare [OF 1] same_books_keep same_books_projected assms(3,4) by blast+
  show ?thesis
  proof (cases p)
    case (Inl e)
    then show ?thesis using assms(1) degrade_books [of s1] s1 by (auto simp: observe_ticket_def 1)
  next
    case (Inr ob)
    show ?thesis
    proof (cases "locked_observation cfg now ticket source obs close (oc_revision captured) base ob s1")
      case (Inl f)
      then show ?thesis using assms(1) degrade_books [of s1] s1 by (cases f) (auto simp: observe_ticket_def 1 Inr)
    next
      case ok: (Inr x)
      obtain s2 row touched where x: "x = (s2, row, touched)" by (cases x) simp
      have "s' = s2" using assms(1) by (simp add: observe_ticket_def 1 Inr ok x)
      then show ?thesis using locked_observation_books [OF ok [unfolded x] assms(2) s1(1)] s1(2) by blast
    qed
  qed
qed

definition sound_reading :: "reading \<Rightarrow> bool" where
  "sound_reading rd \<longleftrightarrow> (\<forall>s. books (st_db s) \<and> projected (st_db s) \<longrightarrow> books (st_db (fst (rd s))) \<and> projected (st_db (fst (rd s))))"

lemma given_sound [simp]: "sound_reading (given snap)"
  by (simp add: sound_reading_def given_def)

lemma reconcile_ticket_books:
  assumes "reconcile_ticket cfg now ticket source obs close rd s = (s', r)" and "capacity_enforced cfg"
    and "books (st_db s)" and "projected (st_db s)" and "sound_reading rd"
  shows "books (st_db s') \<and> projected (st_db s')"
proof (cases "ticket_transaction cfg ticket (st_db s)")
  case (Inl e)
  then show ?thesis using assms by (simp add: reconcile_ticket_def)
next
  case (Inr x)
  obtain d captured where x: "x = (d, captured)" by (cases x) simp
  note t = ticket_transaction_books [OF Inr [unfolded x] assms(3)]
  obtain s1 p where 1: "rd (s\<lparr>st_db := d\<rparr>) = (s1, p)" by fastforce
  have s1: "books (st_db s1)" "projected (st_db s1)"
    using assms(4,5) t(1,7) 1 unfolding sound_reading_def by (metis fst_conv site.select_convs(1) site.surjective site.update_convs(1))+
  show ?thesis
  proof (cases p)
    case (Inl e)
    then show ?thesis using assms(1) degrade_books [of s1] s1 by (auto simp: reconcile_ticket_def Inr x 1 Let_def)
  next
    case ok: (Inr snap)
    then have "observe_ticket cfg now ticket source obs close captured (captured_agents captured d) snap s1 = (s', r)"
      using assms(1) by (simp add: reconcile_ticket_def Inr x 1 Let_def)
    then show ?thesis using observe_ticket_books assms(2) s1 by blast
  qed
qed

definition sound :: "site \<Rightarrow> bool" where
  "sound s \<longleftrightarrow> books (st_db s) \<and> projected (st_db s)"

lemma sound_reading_apply: "sound_reading rd \<Longrightarrow> sound s \<Longrightarrow> rd s = (s', p) \<Longrightarrow> sound s'"
  unfolding sound_reading_def sound_def by (metis fst_conv)

lemma sound_same: "same_books (st_db s) (st_db s') \<Longrightarrow> sound s \<Longrightarrow> sound s'"
  unfolding sound_def using same_books_keep same_books_projected by blast

lemma sound_transaction:
  "ticket_transaction cfg ticket (st_db s) = Inr (d, row) \<Longrightarrow> sound s \<Longrightarrow> sound (s\<lparr>st_db := d\<rparr>)"
  unfolding sound_def using ticket_transaction_books(1,7) by simp

lemma sound_apply_unlocked:
  "apply_unlocked cfg now oc snap dry_run allow_legacy s = (s', r) \<Longrightarrow> capacity_enforced cfg \<Longrightarrow> sound s \<Longrightarrow> sound s'"
  using same_books_apply_close sound_same by (fastforce simp: apply_unlocked_def split: sum.splits)

lemma sound_close_under_lock:
  assumes "close_under_lock cfg now oc revision snap allow_legacy s = (s', r)" and "capacity_enforced cfg" and "sound s"
  shows "sound s'"
proof (cases "s' = s")
  case True
  then show ?thesis using assms(3) by simp
next
  case False
  then obtain d row s1 x res where 1: "ticket_transaction cfg (to_ticket oc) (st_db s) = Inr (d, row)"
    and 2: "reconcile_ticket cfg now (to_ticket oc) ''close'' [] (Some oc) (given snap) (s\<lparr>st_db := d\<rparr>) = (s1, x)"
    and 3: "apply_close_occurrence cfg now oc (Some snap) False allow_legacy s1 = Inr (s', res)"
    using assms(1) by (auto simp: close_under_lock_def split: sum.splits prod.splits if_splits)
  have "sound s1"
    using reconcile_ticket_books [OF 2 assms(2) _ _ given_sound] sound_transaction [OF 1 assms(3)] by (simp add: sound_def)
  then show ?thesis using same_books_apply_close [OF 3 assms(2)] sound_same by blast
qed

lemma sound_after_capture:
  assumes "close_after_capture cfg now oc needs reads dry_run allow_legacy rd revision s = (s', r)" and "capacity_enforced cfg"
    and "sound s" and "sound_reading rd"
  shows "sound s'"
proof (cases reads)
  case False
  then show ?thesis using assms(1) sound_apply_unlocked [OF _ assms(2,3)] by (simp add: close_after_capture_def)
next
  case True
  obtain s1 p where rd: "rd s = (s1, p)" by fastforce
  have s1: "sound s1" by (rule sound_reading_apply [OF assms(4,3) rd])
  show ?thesis
  proof (cases p)
    case (Inl e)
    then show ?thesis using assms(1) True s1 by (simp add: close_after_capture_def rd)
  next
    case (Inr snap)
    then show ?thesis
      using assms(1) True sound_close_under_lock [OF _ assms(2) s1] sound_apply_unlocked [OF _ assms(2) s1]
      by (cases needs) (simp_all add: close_after_capture_def rd)
  qed
qed

lemma sound_reconcile_close:
  assumes "reconcile_close_occurrence cfg now oc dry_run allow_legacy rd s = (s', r)" and "capacity_enforced cfg"
    and "sound s" and "sound_reading rd"
  shows "sound s'"
proof -
  have run: "sound s'" if "close_after_capture cfg now oc n rs dry_run allow_legacy rd v x = (s', r)" "sound x" for n rs v x
    using sound_after_capture that assms(2,4) by blast
  show ?thesis
    using assms(1,3) run sound_transaction [OF _ assms(3)]
    by (auto simp: reconcile_close_occurrence_def Let_def split: if_splits sum.splits prod.splits)
qed

lemma sound_handle_closed:
  assumes "handle_ticket_closed cfg now ticket at_ms owner event rd s = (s', r)" and "capacity_enforced cfg"
    and "sound s" and "sound_reading rd"
  shows "sound s'"
proof -
  have mark: "sound x \<Longrightarrow> sound (mark_processed k x)" for k x by (simp add: sound_def)
  have project: "sound s2" if "project_close_occurrence cfg now oc rd s = (s2, q)" for oc s2 q
  proof (cases "provider_contract_mode cfg = Contract_Off")
    case True
    then show ?thesis using that sound_reconcile_close [OF _ assms(2-4)] by (simp add: project_close_occurrence_def)
  next
    case False
    show ?thesis
    proof (cases "record_proven_occurrence now (portal_id (key_env cfg)) (to_ticket oc) Ticket_Closed (to_at oc)
        (webhook_evidence (to_event oc)) s")
      case (Inl e)
      then show ?thesis using that False assms(3) by (simp add: project_close_occurrence_def)
    next
      case (Inr x)
      obtain s1 p where x: "x = (s1, p)" by (cases x) simp
      have "sound s1" using sound_same [OF same_books_proven [OF Inr [unfolded x]] assms(3)] .
      moreover obtain s3 y where y: "reconcile_close_occurrence cfg now oc False (\<not> cycles_enforced cfg) rd s1 = (s3, y)" by fastforce
      ultimately have "sound s3" using sound_reconcile_close assms(2,4) by blast
      then show ?thesis using that False mark by (auto simp: project_close_occurrence_def Inr x y split: sum.splits)
    qed
  qed
  show ?thesis
    using assms(1,3) project by (auto simp: handle_ticket_closed_def split: sum.splits option.splits)
qed

lemma scan_portfolio_sound:
  assumes "scan_portfolio cfg now g budget rd ts revision s = (s', r)" and "capacity_enforced cfg"
    and "sound s" and "\<And>t. sound_reading (rd t)"
  shows "sound s'"
  using assms(1,3)
proof (induction ts arbitrary: budget revision s)
  case Nil
  then show ?case by simp
next
  case (Cons t ts)
  obtain s1 x where 1: "reconcile_ticket cfg now t ''portfolio'' [] None (rd t) s = (s1, x)" by fastforce
  have s1: "sound s1" using reconcile_ticket_books [OF 1 assms(2) _ _ assms(4)] Cons.prems(2) by (simp add: sound_def)
  show ?case
  proof (cases x)
    case (Inl e)
    then show ?thesis using Cons.prems s1 by (auto simp: 1 split: if_splits)
  next
    case (Inr y)
    obtain row touched where y: "y = (row, touched)" by (cases y) simp
    show ?thesis using Cons.prems Cons.IH s1 by (auto simp: 1 Inr y split: if_splits)
  qed
qed

lemma declare_ready_sound:
  assumes "declare_ready now g revision s = Inr s'" and "sound s"
  shows "sound s'"
proof -
  obtain a where a: "agent_of (st_db s) g = Some a"
    and s': "s' = s\<lparr>st_db := put_agent (a\<lparr>ag_cap_state := ''ready'', ag_cap_reconciled_at := Some now\<rparr>) (st_db s)\<rparr>"
    using assms(1) by (auto simp: declare_ready_def Let_def split: if_splits option.splits)
  let ?a = "a\<lparr>ag_cap_state := ''ready'', ag_cap_reconciled_at := Some now\<rparr>"
  have "a \<in> set (db_agents (st_db s))" using a by (auto simp: agent_of_def dest: get_row_mem)
  then have "\<forall>b \<in> set (save_row ag_pk ?a (db_agents (st_db s))).
      \<exists>c \<in> set (db_agents (st_db s)). ag_pk b = ag_pk c \<and> ag_chats b = ag_chats c"
    by (auto simp: save_row_def)
  then have "projected (st_db s')"
    using assms(2) by (fastforce simp: sound_def projected_def list_all_iff s' put_agent_def)
  then show ?thesis using assms(2) by (simp add: sound_def s' books_def put_agent_def)
qed

lemma refresh_sound:
  assumes "refresh_agent_capacity cfg now g force budget lock_free listing rd s = (s', r)" and "capacity_enforced cfg"
    and "sound s" and "\<And>t. sound_reading (rd t)"
  shows "sound s'"
proof -
  have degrade: "sound x \<Longrightarrow> sound (degrade_site ids x)" for x ids using degrade_books by (simp add: sound_def)
  have locked: "sound s1" if "refresh_locked cfg now account a budget listing rd s = (s1, x)" for account a s1 x
    using that assms(3) scan_portfolio_sound [OF _ assms(2,3,4)] declare_ready_sound
    by (auto simp: refresh_locked_def split: sum.splits prod.splits if_splits)
  show ?thesis
    using assms(1,3) locked degrade
    by (auto simp: refresh_agent_capacity_def split: if_splits sum.splits option.splits prod.splits)
qed

text \<open>C23: in enforcing mode the chat count of every agent stays the number of distinct tickets it
  occupies or has reserved, through every reconciliation of a ticket's owner, every refresh of a
  portfolio and every close event, whether they succeed, conflict or fail, provided what other transactions commit during the read of
  the provider keeps it.\<close>

theorem reconciliation_keeps_projection:
  assumes "capacity_enforced cfg" and "books (st_db s)" and "projected (st_db s)" and "sound_reading rd"
    and "\<forall>t. sound_reading (rds t)"
  shows "projected (st_db (fst (reconcile_ticket cfg now ticket source obs close rd s))) \<and>
    projected (st_db (fst (refresh_agent_capacity cfg now g force budget lock_free listing rds s))) \<and>
    projected (st_db (fst (reconcile_close_occurrence cfg now oc dry_run allow_legacy rd s))) \<and>
    projected (st_db (fst (handle_ticket_closed cfg now ticket at_ms owner event rd s)))"
proof -
  have s: "sound s" using assms(2,3) by (simp add: sound_def)
  have "projected (st_db (fst (reconcile_ticket cfg now ticket source obs close rd s)))"
    using reconcile_ticket_books [OF prod.collapse [symmetric] assms(1-4)] by blast
  moreover have "sound (fst (refresh_agent_capacity cfg now g force budget lock_free listing rds s))"
    using refresh_sound [OF prod.collapse [symmetric] assms(1) s] assms(5) by blast
  moreover have "sound (fst (reconcile_close_occurrence cfg now oc dry_run allow_legacy rd s))"
    by (rule sound_reconcile_close [OF prod.collapse [symmetric] assms(1) s assms(4)])
  moreover have "sound (fst (handle_ticket_closed cfg now ticket at_ms owner event rd s))"
    by (rule sound_handle_closed [OF prod.collapse [symmetric] assms(1) s assms(4)])
  ultimately show ?thesis by (simp add: sound_def)
qed

text \<open>In enforcing mode an applied observation stores exactly what the provider showed, one
  revision later; it never replaces a newer reading, nor another owner of the same reading; and once it
  shows a closed or foreign ticket, no reservation of the ticket is held any more.\<close>

lemma ticket_transaction_again:
  assumes "ticket_transaction cfg ticket d = Inr (d', row)" and "books d" and "db_occupancies d1 = db_occupancies d'"
  shows "ticket_transaction cfg ticket d1 = Inr (d1, row)"
proof -
  note t = ticket_transaction_books [OF assms(1,2)]
  obtain account where acc: "capacity_account cfg = Inr account" "require_routing_writer_authority cfg = Inr ()"
    and g: "get_or_create_occupancy (account, ticket) d' = (d', row)"
    using t(12) by (auto simp: ticket_transaction_def split: sum.splits)
  have "get_row oc_ident (account, ticket) (db_occupancies d') = Some row"
  proof (cases "get_row oc_ident (account, ticket) (db_occupancies d')")
    case None
    from get_or_create_occupancy_new [OF None] g
    have "d' = d'\<lparr>db_occupancies := db_occupancies d' @ [new_occupancy (db_next_pk d') account ticket], db_next_pk := Suc (db_next_pk d')\<rparr>"
      by simp
    then have "db_next_pk d' = Suc (db_next_pk d')" by (metis db.select_convs(12) db.surjective db.update_convs(12))
    then show ?thesis by simp
  next
    case (Some r)
    then show ?thesis using get_or_create_occupancy_known [OF Some] g by simp
  qed
  then show ?thesis unfolding ticket_transaction_def acc by (simp add: get_or_create_occupancy_known assms(3))
qed

text \<open>C24: with capacity enforced, an applied observation of a ticket advances its row.  Whatever other transactions
  committed during the read, the row still had the revision that was captured before it, and it then stores what the
  provider showed, one revision later: the owner and the agent of that owner, the pipeline, the provider's time, and
  foreign, closed, unassigned or active by pipeline, stage and owner.  It never replaces a newer reading,
  nor another owner of the same reading; and once it shows a closed or foreign ticket, no reservation of the
  ticket is held any more.\<close>

theorem observation_advances:
  assumes "capacity_enforced cfg" and "books (st_db s)" and "ticket_transaction cfg ticket (st_db s) = Inr (d, captured)"
    and "rd (s\<lparr>st_db := d\<rparr>) = (s1, Inr snap)" and "books (st_db s1)" and "ticket_transaction cfg ticket (st_db s1) = Inr (st_db s1, row)"
    and "reconcile_ticket cfg now ticket source obs close rd s = (s', Inr (row', Some touched))"
  shows "oc_revision row = oc_revision captured \<and> row' \<in> set (db_occupancies (st_db s')) \<and>
    oc_pk row' = oc_pk row \<and> oc_ident row' = oc_ident row \<and> oc_revision row' = oc_revision row + 1 \<and>
    owner_of_text (tk_owner snap) = Inr (oc_owner row') \<and> oc_agent row' = map_option ag_pk (observed_agent (st_db s1) (oc_owner row')) \<and>
    oc_pipeline row' = tk_pipeline snap \<and>
    oc_state row' = (if tk_pipeline snap \<noteq> support_pipeline_id cfg then Oc_Out_Of_Scope
      else if tk_archived snap \<or> tk_stage snap = stage_fechado_id cfg then Oc_Closed
      else if tk_owner snap = [] then Oc_Unassigned else Oc_Active) \<and>
    oc_provider_updated_at row' = tk_updated snap \<and> oc_observed_at row' = Some now \<and>
    (\<forall>p. oc_provider_updated_at row = Some p \<longrightarrow> (\<exists>u. tk_updated snap = Some u \<and> p \<le> u \<and> (u = p \<longrightarrow> oc_owner row = oc_owner row'))) \<and>
    (oc_state row' \<in> {Oc_Closed, Oc_Out_Of_Scope} \<longrightarrow> held_of row' (st_db s') = [])"
proof -
  have o: "observe_ticket cfg now ticket source obs close captured (captured_agents captured d) snap s1 = (s', Inr (row', Some touched))"
    using assms(7) by (simp add: reconcile_ticket_def assms(3,4) Let_def)
  obtain s2 ob where p: "prepare_observation cfg now (oc_account captured) ticket obs close snap s1 = (s2, Inr ob)"
    and l: "locked_observation cfg now ticket source obs close (oc_revision captured) (captured_agents captured d) ob s2 = Inr (s', row', Some touched)"
    using o by (auto simp: observe_ticket_def split: prod.splits sum.splits)
  have ob: "on_snap ob = snap" "owner_of_text (tk_owner snap) = Inr (on_owner ob)"
    using p by (auto simp: prepare_observation_def split: if_splits sum.splits prod.splits)
  have unowned: "on_owner ob = None \<longleftrightarrow> tk_owner snap = []"
    using ob(2) by (cases "on_owner ob") (auto simp: owner_of_text_def split: if_splits option.splits)
  have same: "same_books (st_db s1) (st_db s2)" using same_books_prepare [OF p] by simp
  have b2: "books (st_db s2)" using same_books_keep [OF same assms(5)] .
  have again: "ticket_transaction cfg ticket (st_db s2) = Inr (st_db s2, row)"
    using ticket_transaction_again [OF assms(6,5)] same by (simp add: same_books_def)
  have agents: "observed_agent (st_db s2) x = observed_agent (st_db s1) x" for x
    using same by (simp add: same_books_def observed_agent_def closing_agent_def split: option.split)
  show ?thesis
    using l b2
  proof (cases rule: locked_observation_row)
    case (1 d1 row1)
    then show ?thesis by simp
  next
    case (2 d1 row1 known)
    have row: "d1 = st_db s2" "row1 = row" using 2(1) again by simp_all
    have in_s2: "row \<in> set (db_occupancies (st_db s2))" using ticket_transaction_books(2) [OF again b2] .
    have k: "set (agent_ids (oc_agent row)) \<subseteq> set known"
      "set (agent_ids (map_option ag_pk (observed_agent (st_db s2) (on_owner ob)))) \<subseteq> set known"
      by (auto simp: 2(4) row)
    have run: "apply_observation cfg now ticket source obs close ob known row s2 = Inr (s', row', Some touched)" using 2(3) row by simp
    have mem: "row' \<in> set (db_occupancies (st_db s'))" by (rule apply_observation_books(3) [OF run assms(1) b2 in_s2 k])
    obtain s3 :: site and row2 moved where same3: "same_books (st_db s2) (st_db s3) \<or> \<not> capacity_enforced cfg"
      and row2: "\<exists>k. row2 = (observed_row cfg (st_db s2) (on_snap ob) (on_owner ob) row)\<lparr>oc_cycle := k\<rparr>"
      and row': "row' = observed_again now (tk_updated (on_snap ob)) source obs row2"
      and db: "st_db s' = stamp_assignment cfg now row' (oc_owner row) (materialize cfg (known @ moved @ map rs_agent (held_of row2 (st_db s3)))
         (put_occupancy row' (fold (settle_reservation now row2 (on_owner ob)) (held_of row2 (st_db s3)) (st_db s3))))"
      by (rule apply_observation_steps [OF run])
    have fields: "oc_pk row' = oc_pk row" "oc_ident row' = oc_ident row" "oc_revision row' = oc_revision row + 1" "oc_owner row' = on_owner ob"
      "oc_agent row' = map_option ag_pk (observed_agent (st_db s1) (on_owner ob))" "oc_pipeline row' = tk_pipeline snap"
      "oc_state row' = observed_state cfg snap (on_owner ob)" "oc_provider_updated_at row' = tk_updated snap" "oc_observed_at row' = Some now"
      "oc_state row2 = oc_state row'" "oc_pk row2 = oc_pk row'"
      using row2 by (auto simp: row' observed_again_def observed_row_def ob(1) oc_ident_def agents)
    have conflict: "\<not> observation_conflict (oc_revision captured) (tk_updated snap) (on_owner ob) row" using 2(2) by (simp add: row ob(1))
    have newer: "\<exists>u. tk_updated snap = Some u \<and> p \<le> u \<and> (u = p \<longrightarrow> oc_owner row = oc_owner row')"
      if "oc_provider_updated_at row = Some p" for p
      using conflict that by (auto simp: observation_conflict_def fields(4) split: option.splits)
    have none: "held_of row' (st_db s') = []" if "oc_state row' \<in> {Oc_Closed, Oc_Out_Of_Scope}"
    proof -
      let ?held = "held_of row2 (st_db s3)"
      let ?d4 = "fold (settle_reservation now row2 (on_owner ob)) ?held (st_db s3)"
      have rows: "db_reservations (st_db s') = db_reservations ?d4" by (simp add: db stamp_tables put_occupancy_def)
      have st: "oc_state row2 \<in> {Oc_Closed, Oc_Out_Of_Scope}" using that fields(10) by simp
      have hh: "\<forall>r \<in> set ?held. rs_state r = Held" by (simp add: held_of_def)
      have left: "x \<in> set (db_reservations (st_db s3)) \<and> rs_pk x \<notin> rs_pk ` set ?held"
        if "x \<in> set (db_reservations ?d4)" "rs_state x = Held" for x
        using settle_terminal [OF st hh] that by blast
      have "\<not> (rs_occupancy x = oc_pk row' \<and> rs_state x = Held)" if x: "x \<in> set (db_reservations ?d4)" for x
      proof
        assume h: "rs_occupancy x = oc_pk row' \<and> rs_state x = Held"
        then have "x \<in> set ?held" using left [OF x] fields(11) by (simp add: held_of_def)
        then show False using left [OF x] h by blast
      qed
      then show ?thesis unfolding held_of_def rows filter_empty_conv by blast
    qed
    have state: "oc_state row' = (if tk_pipeline snap \<noteq> support_pipeline_id cfg then Oc_Out_Of_Scope
      else if tk_archived snap \<or> tk_stage snap = stage_fechado_id cfg then Oc_Closed
      else if tk_owner snap = [] then Oc_Unassigned else Oc_Active)"
      unfolding fields(7) observed_state_def closed_stage_def using unowned by simp
    have "oc_revision row = oc_revision captured" using conflict by (simp add: observation_conflict_def)
    then show ?thesis
      using mem fields(1-3,5,6,8,9) ob(2) newer none state unfolding fields(4) by blast
  qed
qed

definition evidence_only :: "db \<Rightarrow> db \<Rightarrow> bool" where
  "evidence_only d d' \<longleftrightarrow> d'\<lparr>db_cycles := [], db_next_pk := 0\<rparr> = d\<lparr>db_cycles := [], db_next_pk := 0\<rparr>"

lemma evidence_onlyD:
  assumes "evidence_only d d'"
  shows "db_occupancies d' = db_occupancies d" "db_reservations d' = db_reservations d" "db_assigned d' = db_assigned d"
    "db_queue d' = db_queue d" "db_closed d' = db_closed d" "db_agents d' = db_agents d"
proof -
  let ?e = "\<lambda>d. d\<lparr>db_cycles := [], db_next_pk := 0\<rparr>"
  have e: "?e d' = ?e d" using assms by (simp add: evidence_only_def)
  show "db_occupancies d' = db_occupancies d" using arg_cong [OF e, of db_occupancies] by simp
  show "db_reservations d' = db_reservations d" using arg_cong [OF e, of db_reservations] by simp
  show "db_assigned d' = db_assigned d" using arg_cong [OF e, of db_assigned] by simp
  show "db_queue d' = db_queue d" using arg_cong [OF e, of db_queue] by simp
  show "db_closed d' = db_closed d" using arg_cong [OF e, of db_closed] by simp
  show "db_agents d' = db_agents d" using arg_cong [OF e, of db_agents] by simp
qed

lemma evidence_rows:
  assumes "prepare_observation cfg now account ticket obs close snap s = (s', r)"
  shows "evidence_only (st_db s) (st_db s')"
proof -
  note only_def = evidence_only_def
  have refl: "evidence_only d d" for d by (simp add: only_def)
  have trans: "evidence_only d d1 \<Longrightarrow> evidence_only d1 d2 \<Longrightarrow> evidence_only d d2" for d d1 d2 by (simp add: only_def)
  have next_pk: "evidence_only d (d\<lparr>db_next_pk := n\<rparr>)" for d n by (simp add: only_def)
  have ins: "evidence_only (st_db s) (st_db s1)" if "insert_occurrence x s = Inr (s1, y)" for s s1 x y
    using that next_pk by (auto simp: insert_occurrence_def Let_def split: if_splits)
  have rec: "evidence_only (st_db s) (st_db s1)" if "record_proven_occurrence now account ticket ty t ev s = Inr (s1, y)" for s s1 ty t ev y
    using that ins refl save_occurrence_db
    by (fastforce simp: record_proven_occurrence_def get_temporal_def split: if_splits option.splits sum.splits)
  have cyc: "evidence_only d d1" if "open_cycle cfg ticket v event acc d = Inr (d1, y)" for d d1 v event acc y
    using that by (auto simp: open_cycle_def and_then_Inr_iff only_def)
  have opn: "evidence_only (st_db s) (st_db s1)" if op: "open_from_proven_occurrence cfg now ticket t account ev s = Inr (s1, y)" for s s1 t ev y
  proof -
    obtain s2 p d where "record_proven_occurrence now account ticket Entered_Support_Queue t (ev\<lparr>ob_updated := None\<rparr>) s = Inr (s2, p)"
      and "open_cycle cfg ticket (AwareDatetime t) (Some (ob_event ev)) (Some account) (st_db s2) = Inr (d, y)" and "st_db s1 = d"
      using op by (auto simp: open_from_proven_occurrence_def and_then_Inr_iff Let_def split: if_splits)
    then show ?thesis using rec cyc trans by blast
  qed
  have o: "evidence_only (st_db s) (st_db s1)" if "open_observed cfg now account ticket obs snap s = Inr (s1, x)" for s1 x
    using that opn refl by (fastforce simp: open_observed_def and_then_Inr_iff split: if_splits option.splits)
  have p: "evidence_only (st_db s1) (st_db s2)" if "prove_close cfg now account ticket obs close snap s1 = Inr (s2, x)" for s1 s2 x
    using that rec refl by (fastforce simp: prove_close_def and_then_Inr_iff split: if_splits option.splits)
  show ?thesis
    using assms o p trans refl by (fastforce simp: prepare_observation_def split: if_splits sum.splits prod.splits)
qed

lemma degraded_agents:
  "a \<in> set (db_agents (degrade_agents ids d)) \<Longrightarrow> ag_pk a \<in> set ids \<Longrightarrow> ag_cap_state a = ''degraded''"
  by (auto simp: degrade_agents_def update_rows_def split: if_splits)

lemma observe_ticket_overtaken:
  assumes "observe_ticket cfg now ticket source obs None captured base snap s = (s', r)" and "books (st_db s)"
    and "ticket_transaction cfg ticket (st_db s) = Inr (st_db s, row)" and "oc_revision row \<noteq> oc_revision captured"
  shows "\<exists>e ids d. r = Inl e \<and> s' = degrade_site ids (s'\<lparr>st_db := d\<rparr>) \<and> set base \<subseteq> set ids \<and> evidence_only (st_db s) d"
proof -
  obtain s1 p where p: "prepare_observation cfg now (oc_account captured) ticket obs None snap s = (s1, p)" by fastforce
  have ev: "evidence_only (st_db s) (st_db s1)" by (rule evidence_rows [OF p])
  show ?thesis
  proof (cases p)
    case (Inl e)
    then have "r = Inl e" "s' = degrade_site base s1" using assms(1) by (auto simp: observe_ticket_def p)
    then show ?thesis using ev by (intro exI [of _ e] exI [of _ base] exI [of _ "st_db s1"]) (simp add: degrade_site_def)
  next
    case (Inr ob)
    have "ticket_transaction cfg ticket (st_db s1) = Inr (st_db s1, row)"
      by (rule ticket_transaction_again [OF assms(3,2)]) (rule evidence_onlyD(1) [OF ev])
    then have "locked_observation cfg now ticket source obs None (oc_revision captured) base ob s1 =
        Inl (base @ agent_ids (oc_agent row) @ agent_ids (map_option ag_pk (observed_agent (st_db s1) (on_owner ob))),
             CapacityObservationConflictError)"
      using assms(4) by (simp add: locked_observation_def Let_def superseded_close_def observation_conflict_def)
    then have "r = Inl CapacityObservationConflictError"
      "s' = degrade_site (base @ agent_ids (oc_agent row) @ agent_ids (map_option ag_pk (observed_agent (st_db s1) (on_owner ob)))) s1"
      using assms(1) by (auto simp: observe_ticket_def p Inr)
    then show ?thesis using ev
      by (intro exI [of _ CapacityObservationConflictError]
          exI [of _ "base @ agent_ids (oc_agent row) @ agent_ids (map_option ag_pk (observed_agent (st_db s1) (on_owner ob)))"]
          exI [of _ "st_db s1"]) (simp add: degrade_site_def)
  qed
qed

text \<open>A reading that another transaction overtook changes nothing but evidence: when the revision of
  the occupancy moved during the read, the reconciliation raises, leaves occupancies, reservations,
  assigned, waiting and closed rows as the others committed them, and degrades the agents it knew.\<close>

theorem overtaken_reading_changes_nothing:
  assumes "ticket_transaction cfg ticket (st_db s) = Inr (d, captured)" and "rd (s\<lparr>st_db := d\<rparr>) = (s1, Inr snap)"
    and "books (st_db s1)" and "ticket_transaction cfg ticket (st_db s1) = Inr (st_db s1, row)"
    and "oc_revision row \<noteq> oc_revision captured"
  shows "\<exists>s' e. reconcile_ticket cfg now ticket source obs None rd s = (s', Inl e) \<and>
    db_occupancies (st_db s') = db_occupancies (st_db s1) \<and> db_reservations (st_db s') = db_reservations (st_db s1) \<and>
    db_assigned (st_db s') = db_assigned (st_db s1) \<and> db_queue (st_db s') = db_queue (st_db s1) \<and>
    db_closed (st_db s') = db_closed (st_db s1) \<and>
    (\<forall>a \<in> set (db_agents (st_db s')). ag_pk a \<in> set (captured_agents captured d) \<longrightarrow> ag_cap_state a = ''degraded'')"
proof -
  obtain s' r where o: "observe_ticket cfg now ticket source obs None captured (captured_agents captured d) snap s1 = (s', r)" by fastforce
  obtain e ids d' where r: "r = Inl e" "s' = degrade_site ids (s'\<lparr>st_db := d'\<rparr>)" "set (captured_agents captured d) \<subseteq> set ids"
    "evidence_only (st_db s1) d'"
    using observe_ticket_overtaken [OF o assms(3,4,5)] by blast
  have run: "reconcile_ticket cfg now ticket source obs None rd s = (s', Inl e)"
    by (simp add: reconcile_ticket_def assms(1,2) Let_def o r(1))
  have db: "st_db s' = degrade_agents ids d'" using arg_cong [OF r(2), of st_db] by (simp add: degrade_site_def)
  show ?thesis
    using run evidence_onlyD [OF r(4)] degraded_agents [of _ ids d'] r(3) by (auto simp: db degrade_site_tables)
qed

lemma agent_of_degraded:
  assumes "agent_of (degrade_agents ids d) g = Some a" and "g \<in> set ids"
  shows "ag_cap_state a = ''degraded''"
proof -
  have "a \<in> set (db_agents (degrade_agents ids d))" "ag_pk a = g" using assms(1) by (auto simp: agent_of_def dest: get_row_Some_in)
  then show ?thesis using degraded_agents [of a ids d] assms(2) by simp
qed

lemma scan_within_budget: "scan_portfolio cfg now g (Some n) rd ts rv s = (s', Inr v) \<Longrightarrow> length ts \<le> n"
proof (induction ts arbitrary: n rv s)
  case (Cons t ts)
  then obtain m where n: "n = Suc m" by (cases n) auto
  obtain s1 row touched where "reconcile_ticket cfg now t ''portfolio'' [] None (rd t) s = (s1, Inr (row, touched))"
    using Cons.prems by (auto simp: n split: prod.splits sum.splits)
  then show ?case using Cons.prems Cons.IH [of m] by (auto simp: n)
qed simp

lemma portfolio_batch_whole:
  assumes "portfolio_batch cfg account g remote d = Inr (batch, False)"
  shows "set batch = set remote \<union> set (held_tickets d g) \<union> set (local_tickets account d g)" "int (length batch) \<le> capacity_max_scan_tickets cfg"
proof -
  let ?critical = "sort (remdups (remote @ held_tickets d g))"
  let ?backlog = "sort (remdups (filter (\<lambda>t. t \<notin> set ?critical) (local_tickets account d g)))"
  let ?slots = "nat (capacity_max_scan_tickets cfg - int (length ?critical))"
  have b: "\<not> capacity_max_scan_tickets cfg < int (length ?critical)" "batch = ?critical @ take ?slots ?backlog" "length ?backlog \<le> ?slots"
    using assms unfolding portfolio_batch_def Let_def by (auto split: if_splits)
  then have batch: "batch = ?critical @ ?backlog" by simp
  show "set batch = set remote \<union> set (held_tickets d g) \<union> set (local_tickets account d g)" unfolding batch by auto
  show "int (length batch) \<le> capacity_max_scan_tickets cfg" using b(1,3) unfolding batch by (simp add: length_append)
qed

lemma declared_ready:
  assumes "declare_ready now g rv s1 = Inr s'"
  obtains b where "agent_of (st_db s1) g = Some b" "ag_cap_revision b = rv"
    "s' = s1\<lparr>st_db := put_agent (b\<lparr>ag_cap_state := ''ready'', ag_cap_reconciled_at := Some now\<rparr>) (st_db s1)\<rparr>"
    "agent_of (st_db s') g = Some (b\<lparr>ag_cap_state := ''ready'', ag_cap_reconciled_at := Some now\<rparr>)"
    "\<forall>x \<in> set (db_attempts (st_db s1)). at_agent x = g \<and> at_state x \<notin> {Completed, Compensated} \<longrightarrow>
       (\<exists>v \<in> set (db_reservations (st_db s1)). rs_attempt v = Some (at_pk x))"
    "\<forall>v \<in> set (db_reservations (st_db s1)). rs_agent v = g \<and> rs_state v = Held \<longrightarrow> rs_reassignment v = None \<and>
       (\<forall>k x. rs_attempt v = Some k \<and> attempt_of (st_db s1) k = Some x \<longrightarrow> at_state x \<noteq> Att_Repair_Required)"
proof -
  have free: "\<not> unclassified_operation (st_db s1) g" "\<not> ambiguous_reservation (st_db s1) g"
    using assms by (auto simp: declare_ready_def Let_def split: if_splits)
  then obtain b where b: "agent_of (st_db s1) g = Some b" "ag_cap_revision b = rv"
    "s' = s1\<lparr>st_db := put_agent (b\<lparr>ag_cap_state := ''ready'', ag_cap_reconciled_at := Some now\<rparr>) (st_db s1)\<rparr>"
    using assms by (auto simp: declare_ready_def Let_def split: if_splits option.splits)
  have here: "agent_of (st_db s') g = Some (b\<lparr>ag_cap_state := ''ready'', ag_cap_reconciled_at := Some now\<rparr>)"
    using b(1) get_row_key [OF b(1) [unfolded agent_of_def]] by (simp add: b(3) agent_of_def put_agent_def get_row_save_row)
  have a: "\<forall>x \<in> set (db_attempts (st_db s1)). at_agent x = g \<and> at_state x \<notin> {Completed, Compensated} \<longrightarrow>
       (\<exists>v \<in> set (db_reservations (st_db s1)). rs_attempt v = Some (at_pk x))"
    using free(1) unfolding unclassified_operation_def exists_row_def list_ex_iff by blast
  have r: "\<forall>v \<in> set (db_reservations (st_db s1)). rs_agent v = g \<and> rs_state v = Held \<longrightarrow> rs_reassignment v = None \<and>
       (\<forall>k x. rs_attempt v = Some k \<and> attempt_of (st_db s1) k = Some x \<longrightarrow> at_state x \<noteq> Att_Repair_Required)"
    using free(2) unfolding ambiguous_reservation_def exists_row_def list_ex_iff by (auto split: option.splits)
  show thesis by (rule that [OF b here a r])
qed

text \<open>C25: refreshing a portfolio fails closed.  With tracking on, the answer yes comes from a reconciliation that is
  still fresh and not to be forced, or the agent is declared ready now: with the lock free, the provider's listing
  complete, every listed, reserved, occupied or assigned ticket of the agent read and reconciled within the limits of
  scan and time, no unfinished attempt of the agent without a reservation, no reservation of a
  reassignment or of an attempt under repair held, and the agent's revision the one the scan accounts for.  The answer
  no means that another refresh holds the lock and nothing was done, or that the agent is degraded.  It raises only
  without writer authority, for an agent that does not exist or without a provider account.\<close>

theorem refresh_fails_closed:
  assumes "capacity_mode_of cfg \<noteq> Capacity_Off"
    and "refresh_agent_capacity cfg now g force budget lock_free listing rd s = (s', r)"
  shows "case r of
      Inl e \<Rightarrow> s' = s \<and> (\<not> may_write_routing_state cfg \<or> agent_of (st_db s) g = None \<or> capacity_account cfg = Inl e)
    | Inr True \<Rightarrow>
        (\<exists>a t. agent_of (st_db s) g = Some a \<and> ag_cap_state a = ''ready'' \<and> ag_cap_reconciled_at a = Some t \<and>
           s' = s \<and> \<not> force \<and> now - t < seconds (capacity_freshness_seconds cfg)) \<or>
        (\<exists>account a remote batch s1 b. capacity_account cfg = Inr account \<and> agent_of (st_db s) g = Some a \<and> lock_free \<and>
           listing = Inr (remote, True) \<and>
           set batch = set remote \<union> set (held_tickets (st_db s) g) \<union> set (local_tickets account (st_db s) g) \<and>
           int (length batch) \<le> capacity_max_scan_tickets cfg \<and> (\<forall>n. budget = Some n \<longrightarrow> length batch \<le> n) \<and>
           agent_of (st_db s1) g = Some b \<and> scan_portfolio cfg now g budget rd batch (ag_cap_revision a) s = (s1, Inr (ag_cap_revision b)) \<and>
           (\<forall>x \<in> set (db_attempts (st_db s1)). at_agent x = g \<and> at_state x \<notin> {Completed, Compensated} \<longrightarrow>
              (\<exists>v \<in> set (db_reservations (st_db s1)). rs_attempt v = Some (at_pk x))) \<and>
           (\<forall>v \<in> set (db_reservations (st_db s1)). rs_agent v = g \<and> rs_state v = Held \<longrightarrow> rs_reassignment v = None \<and>
              (\<forall>k x. rs_attempt v = Some k \<and> attempt_of (st_db s1) k = Some x \<longrightarrow> at_state x \<noteq> Att_Repair_Required)) \<and>
           s' = s1\<lparr>st_db := put_agent (b\<lparr>ag_cap_state := ''ready'', ag_cap_reconciled_at := Some now\<rparr>) (st_db s1)\<rparr> \<and>
           agent_of (st_db s') g = Some (b\<lparr>ag_cap_state := ''ready'', ag_cap_reconciled_at := Some now\<rparr>))
    | Inr False \<Rightarrow> (\<not> lock_free \<and> s' = s) \<or> (\<forall>a. agent_of (st_db s') g = Some a \<longrightarrow> ag_cap_state a = ''degraded'')"
proof (cases "may_write_routing_state cfg")
  case False
  then show ?thesis using assms by (auto simp: refresh_agent_capacity_def require_routing_writer_authority_def)
next
  case auth: True
  show ?thesis
  proof (cases "agent_of (st_db s) g")
    case None
    then show ?thesis using assms auth by (auto simp: refresh_agent_capacity_def require_routing_writer_authority_def)
  next
    case (Some a)
    have pk: "ag_pk a = g" using Some by (auto simp: agent_of_def dest: get_row_key)
    have eq: "(s', r) = (if \<not> force \<and> recently_reconciled cfg now a then (s, Inr True)
        else case capacity_account cfg of
               Inl e \<Rightarrow> (s, Inl e)
             | Inr account \<Rightarrow>
                 (if \<not> lock_free then (s, Inr False)
                  else case refresh_locked cfg now account a budget listing rd s of
                         (s1, Inl e) \<Rightarrow> (degrade_site [g] s1, Inr False) | (s1, Inr _) \<Rightarrow> (s1, Inr True)))"
      using assms auth Some by (simp add: refresh_agent_capacity_def require_routing_writer_authority_def)
    consider (recent) "\<not> force" "recently_reconciled cfg now a" "s' = s" "r = Inr True"
      | (raised) e where "capacity_account cfg = Inl e" "s' = s" "r = Inl e"
      | (busy) "\<not> lock_free" "s' = s" "r = Inr False"
      | (failed) s1 :: site where "s' = degrade_site [g] s1" "r = Inr False"
      | (ready) account where "capacity_account cfg = Inr account" "lock_free"
          "refresh_locked cfg now account a budget listing rd s = (s', Inr ())" "r = Inr True"
      using eq by (auto split: if_splits prod.splits sum.splits)
    then show ?thesis
    proof cases
      case recent
      then show ?thesis using Some by (auto simp: recently_reconciled_def split: option.splits)
    next
      case raised
      then show ?thesis by simp
    next
      case busy
      then show ?thesis by simp
    next
      case failed
      then show ?thesis using agent_of_degraded [of "[g]" "st_db s1" g] by (auto simp: degrade_site_def)
    next
      case ready
      obtain remote batch s1 rv where l: "listing = Inr (remote, True)" and p: "portfolio_batch cfg account g remote (st_db s) = Inr (batch, False)"
        and sc: "scan_portfolio cfg now g budget rd batch (ag_cap_revision a) s = (s1, Inr rv)" and d: "declare_ready now g rv s1 = Inr s'"
        using ready(3) by (auto simp: refresh_locked_def pk split: sum.splits prod.splits if_splits)
      have n: "\<forall>n. budget = Some n \<longrightarrow> length batch \<le> n" using sc scan_within_budget by blast
      obtain b where b: "agent_of (st_db s1) g = Some b" "ag_cap_revision b = rv"
        "s' = s1\<lparr>st_db := put_agent (b\<lparr>ag_cap_state := ''ready'', ag_cap_reconciled_at := Some now\<rparr>) (st_db s1)\<rparr>"
        "agent_of (st_db s') g = Some (b\<lparr>ag_cap_state := ''ready'', ag_cap_reconciled_at := Some now\<rparr>)"
        "\<forall>x \<in> set (db_attempts (st_db s1)). at_agent x = g \<and> at_state x \<notin> {Completed, Compensated} \<longrightarrow>
           (\<exists>v \<in> set (db_reservations (st_db s1)). rs_attempt v = Some (at_pk x))"
        "\<forall>v \<in> set (db_reservations (st_db s1)). rs_agent v = g \<and> rs_state v = Held \<longrightarrow> rs_reassignment v = None \<and>
           (\<forall>k x. rs_attempt v = Some k \<and> attempt_of (st_db s1) k = Some x \<longrightarrow> at_state x \<noteq> Att_Repair_Required)"
        by (rule declared_ready [OF d])
      note yes = ready(1) Some ready(2) l portfolio_batch_whole [OF p] n b(1) sc [folded b(2)] b(5,6,3,4)
      show ?thesis
        unfolding ready(4) sum.case bool.case
        by (rule disjI2, intro exI conjI) (rule yes)+
    qed
  qed
qed

section \<open>Concrete runs\<close>

definition tracked_site :: site where
  "tracked_site = empty_site\<lparr>st_db := demo_capacity_db\<rparr>"

definition owner_snapshot :: "string \<Rightarrow> provider_snapshot" where
  "owner_snapshot owner = \<lparr>tk_id = ''42'', tk_pipeline = ''P'', tk_stage = ''N'', tk_owner = owner, tk_novo = RawValue StageNone,
     tk_closed = RawValue StageNone, tk_updated = Some 50, tk_archived = False\<rparr>"

lemma tracked_site_sound: "capacity_enforced enforce_cfg" "books (st_db tracked_site)" "projected (st_db tracked_site)"
  by code_simp+

theorem reconciliation_keeps_projection_witness:
  "projected (st_db (fst (reconcile_ticket enforce_cfg 9 ''42'' ''webhook'' [] None (given (owner_snapshot ''20'')) tracked_site))) \<and>
   map ag_chats (db_agents (st_db (fst (reconcile_ticket enforce_cfg 9 ''42'' ''webhook'' [] None (given (owner_snapshot ''20'')) tracked_site)))) = [0, 1]"
proof
  show "projected (st_db (fst (reconcile_ticket enforce_cfg 9 ''42'' ''webhook'' [] None (given (owner_snapshot ''20'')) tracked_site)))"
    using reconciliation_keeps_projection [OF tracked_site_sound given_sound, of "\<lambda>_. given (owner_snapshot [])"] by simp
  show "map ag_chats (db_agents (st_db (fst (reconcile_ticket enforce_cfg 9 ''42'' ''webhook'' [] None (given (owner_snapshot ''20'')) tracked_site)))) = [0, 1]"
    by code_simp
qed

theorem observation_advances_witness:
  "\<exists>s' row' touched. reconcile_ticket enforce_cfg 9 ''42'' ''webhook'' [] None (given (owner_snapshot ''20'')) tracked_site =
     (s', Inr (row', Some touched)) \<and> oc_owner row' = Some 20 \<and> oc_state row' = Oc_Active"
proof -
  let ?run = "reconcile_ticket enforce_cfg 9 ''42'' ''webhook'' [] None (given (owner_snapshot ''20'')) tracked_site"
  have "case snd ?run of Inl e \<Rightarrow> False | Inr (row, touched) \<Rightarrow> touched \<noteq> None" by code_simp
  then obtain s' row' touched where r: "?run = (s', Inr (row', Some touched))" by (cases ?run) (auto split: sum.splits)
  have t: "ticket_transaction enforce_cfg ''42'' (st_db tracked_site) = Inr (demo_capacity_db, demo_occupancy)" by code_simp
  have g: "given (owner_snapshot ''20'') (tracked_site\<lparr>st_db := demo_capacity_db\<rparr>) = (tracked_site, Inr (owner_snapshot ''20''))"
    by (simp add: given_def tracked_site_def)
  have again: "ticket_transaction enforce_cfg ''42'' (st_db tracked_site) = Inr (st_db tracked_site, demo_occupancy)"
    using t by (simp add: tracked_site_def)
  have v: "owner_of_text (tk_owner (owner_snapshot ''20'')) = Inr (Some 20)" "tk_pipeline (owner_snapshot ''20'') = support_pipeline_id enforce_cfg"
    "\<not> tk_archived (owner_snapshot ''20'')" "tk_stage (owner_snapshot ''20'') \<noteq> stage_fechado_id enforce_cfg" "tk_owner (owner_snapshot ''20'') \<noteq> []"
    by code_simp+
  have "oc_owner row' = Some 20 \<and> oc_state row' = Oc_Active"
    using observation_advances [OF tracked_site_sound(1,2) t g tracked_site_sound(2) again r] v by simp
  then show ?thesis using r by blast
qed

definition overtaken_site :: site where
  "overtaken_site = tracked_site\<lparr>st_db := demo_capacity_db\<lparr>db_occupancies := [demo_occupancy\<lparr>oc_revision := 1\<rparr>]\<rparr>\<rparr>"

theorem overtaken_reading_changes_nothing_witness:
  "\<exists>s' e. reconcile_ticket enforce_cfg 9 ''42'' ''webhook'' [] None (\<lambda>_. (overtaken_site, Inr (owner_snapshot ''20''))) tracked_site =
     (s', Inl e) \<and> db_occupancies (st_db s') = [demo_occupancy\<lparr>oc_revision := 1\<rparr>]"
proof -
  have t: "ticket_transaction enforce_cfg ''42'' (st_db tracked_site) = Inr (demo_capacity_db, demo_occupancy)"
    "ticket_transaction enforce_cfg ''42'' (st_db overtaken_site) = Inr (st_db overtaken_site, demo_occupancy\<lparr>oc_revision := 1\<rparr>)"
    by code_simp+
  have b: "books (st_db overtaken_site)" by code_simp
  have n: "oc_revision (demo_occupancy\<lparr>oc_revision := 1\<rparr>) \<noteq> oc_revision demo_occupancy" by (simp add: demo_occupancy_def new_occupancy_def)
  have "db_occupancies (st_db overtaken_site) = [demo_occupancy\<lparr>oc_revision := 1\<rparr>]" by (simp add: overtaken_site_def)
  then show ?thesis
    using overtaken_reading_changes_nothing [OF t(1) _ b t(2) n, of "\<lambda>_. (overtaken_site, Inr (owner_snapshot ''20''))"
        "owner_snapshot ''20''" 9 "''webhook''" "[]"] by auto
qed

theorem refresh_fails_closed_witness:
  "\<exists>s' a. refresh_agent_capacity enforce_cfg 9 1 True None True (Inr ([''42''], True)) (\<lambda>_. given (owner_snapshot ''10'')) tracked_site = (s', Inr True) \<and>
     agent_of (st_db s') 1 = Some a \<and> ag_cap_state a = ''ready'' \<and> ag_cap_reconciled_at a = Some 9"
proof -
  let ?run = "refresh_agent_capacity enforce_cfg 9 1 True None True (Inr ([''42''], True)) (\<lambda>_. given (owner_snapshot ''10'')) tracked_site"
  have "case snd ?run of Inl e \<Rightarrow> False | Inr b \<Rightarrow> b" by code_simp
  then obtain s' where r: "?run = (s', Inr True)" by (cases ?run) (auto split: sum.splits)
  have m: "capacity_mode_of enforce_cfg \<noteq> Capacity_Off" by code_simp
  show ?thesis using refresh_fails_closed [OF m r] r by fastforce
qed

end
