(* ===== verification/Sat_Tracking.thy ===== *)
theory Sat_Tracking
  imports Owner_Reconciliation
begin

text \<open>
  Support availability tracking, \<open>apps/support/sat_service.py\<close>: the singleton lease with its
  fencing generation, the heartbeat that writes availability, the off-hours veto, the daily time
  counters and the reconciliation of an agent's load.

  The decoding of the JSON schedules of a provider item (pydantic models) is the argument
  \<open>sched\<close>: \<open>None\<close> is an \<open>AvailabilityParseError\<close>, otherwise absences, working hours and zone.
  Left out: other exceptions of that decoding, the digest of the raw item, the audit metadata and the stored copies of the schedules.
\<close>

section \<open>State\<close>

record lease =
  ls_token :: string
  ls_writer :: string
  ls_env :: string
  ls_expires :: "instant option"
  ls_generation :: int

record availability_decision =
  dc_agent :: uuid
  dc_revision :: int
  dc_old :: agent_status
  dc_new :: agent_status
  dc_remote :: string
  dc_observed_at :: instant
  dc_state :: eligibility_state
  dc_reason :: string
  dc_task :: string
  dc_writer :: string
  dc_env :: string
  dc_fencing :: int

record status_change =
  sh_agent :: uuid
  sh_old :: agent_status
  sh_new :: agent_status
  sh_source :: string

record daily_log =
  dl_agent :: uuid
  dl_date :: int
  dl_online :: int
  dl_away :: int
  dl_transitions :: int

record tracking =
  tg_agents :: "agent list"
  tg_lease :: "lease option"
  tg_decisions :: "availability_decision list"
  tg_history :: "status_change list"
  tg_logs :: "daily_log list"

section \<open>The lease\<close>

definition blank_lease :: lease where
  "blank_lease = \<lparr>ls_token = [], ls_writer = [], ls_env = [], ls_expires = None, ls_generation = 0\<rparr>"

definition lease_row :: "lease option \<Rightarrow> lease" where
  "lease_row l = (case l of None \<Rightarrow> blank_lease | Some r \<Rightarrow> r)"

definition lease_taken :: "lease \<Rightarrow> instant \<Rightarrow> bool" where
  "lease_taken l now \<longleftrightarrow> (case ls_expires l of None \<Rightarrow> False | Some t \<Rightarrow> now < t) \<and> ls_token l \<noteq> []"

definition acquire_reconciliation_lease ::
  "settings \<Rightarrow> string \<Rightarrow> instant \<Rightarrow> lease option \<Rightarrow> lease option \<times> int option" where
  "acquire_reconciliation_lease cfg token now l =
     (let r = lease_row l
      in if lease_taken r now then (Some r, None)
         else (let r' = \<lparr>ls_token = token, ls_writer = availability_writer_id (runtime cfg), ls_env = runtime_environment (runtime cfg),
                   ls_expires = Some (now + seconds (availability_lease_ttl_seconds cfg)), ls_generation = ls_generation r + 1\<rparr>
               in (Some r', Some (ls_generation r'))))"

definition release_reconciliation_lease :: "string \<Rightarrow> lease option \<Rightarrow> lease option \<times> bool" where
  "release_reconciliation_lease token l =
     (case l of
        None \<Rightarrow> (None, False)
      | Some r \<Rightarrow> (if ls_token r \<noteq> token then (Some r, False) else (Some (r\<lparr>ls_token := [], ls_expires := None\<rparr>), True)))"

section \<open>Time accounting\<close>

definition log_key :: "daily_log \<Rightarrow> uuid \<times> int" where
  "log_key r = (dl_agent r, dl_date r)"

definition blank_log_day :: "uuid \<Rightarrow> int \<Rightarrow> daily_log" where
  "blank_log_day g day = \<lparr>dl_agent = g, dl_date = day, dl_online = 0, dl_away = 0, dl_transitions = 0\<rparr>"

definition ensure_log :: "uuid \<Rightarrow> int \<Rightarrow> daily_log list \<Rightarrow> daily_log list" where
  "ensure_log g day rows = (if get_row log_key (g, day) rows = None then rows @ [blank_log_day g day] else rows)"

definition elapsed_seconds :: "instant \<Rightarrow> instant \<Rightarrow> int" where
  "elapsed_seconds since now = (now - since) div 1000000"

definition credit_agent :: "agent_status \<Rightarrow> int \<Rightarrow> agent \<Rightarrow> agent" where
  "credit_agent old delta a =
     (if old = Online then a\<lparr>ag_online_secs := ag_online_secs a + delta\<rparr>
      else if old = Away \<or> old = Busy then a\<lparr>ag_away_secs := ag_away_secs a + delta\<rparr> else a)"

definition credit_log :: "agent_status \<Rightarrow> int \<Rightarrow> daily_log \<Rightarrow> daily_log" where
  "credit_log old delta r =
     (if old = Online then r\<lparr>dl_online := dl_online r + delta, dl_transitions := dl_transitions r + 1\<rparr>
      else if old = Away \<or> old = Busy then r\<lparr>dl_away := dl_away r + delta, dl_transitions := dl_transitions r + 1\<rparr> else r)"

definition sat_accumulate_time :: "int \<Rightarrow> agent_status \<Rightarrow> instant \<Rightarrow> agent \<Rightarrow> daily_log list \<Rightarrow> agent \<times> daily_log list" where
  "sat_accumulate_time today old now a logs =
     (case ag_last_status_change_at a of
        None \<Rightarrow> (a\<lparr>ag_last_status_change_at := Some now\<rparr>, logs)
      | Some t \<Rightarrow>
          (let delta = elapsed_seconds t now
           in if delta \<le> 0 then (a, logs)
              else (credit_agent old delta a,
                    update_rows (\<lambda>r. log_key r = (ag_pk a, today)) (credit_log old delta) (ensure_log (ag_pk a) today logs))))"

section \<open>Provider items\<close>

record remote_item =
  it_user :: string
  it_email :: string
  it_status :: string
  it_online :: bool
  it_absences :: string
  it_hours :: string
  it_zone :: string

type_synonym schedule_parser = "remote_item \<Rightarrow> ((instant \<times> instant) list \<times> working_window list \<times> string option) option"

definition normalize_text :: "string \<Rightarrow> string" where
  "normalize_text s = lower (strip s)"

definition normalize_availability_item :: "schedule_parser \<Rightarrow> remote_item \<Rightarrow> observation option" where
  "normalize_availability_item sched i =
     (case sched i of
        None \<Rightarrow> None
      | Some (absences, hours, zone) \<Rightarrow>
          Some \<lparr>ob_user_id = it_user i, ob_status = normalize_text (it_status i), ob_absences = absences, ob_hours = hours, ob_zone = zone\<rparr>)"

definition last_such :: "('a \<Rightarrow> bool) \<Rightarrow> 'a list \<Rightarrow> 'a option" where
  "last_such P xs = (case filter P xs of [] \<Rightarrow> None | ys \<Rightarrow> Some (last ys))"

text \<open>By provider user, the last item winning; else by an address that occurs once.\<close>

definition item_of :: "remote_item list \<Rightarrow> agent \<Rightarrow> remote_item option" where
  "item_of items a =
     (case last_such (\<lambda>i. it_user i \<noteq> [] \<and> it_user i = opt_text (ag_user_id a)) items of
        Some i \<Rightarrow> Some i
      | None \<Rightarrow>
          (case filter (\<lambda>i. normalize_text (it_email i) \<noteq> [] \<and> normalize_text (it_email i) = normalize_text (ag_email a)) items of
             [i] \<Rightarrow> Some i
           | _ \<Rightarrow> None))"

definition legacy_item :: "string \<Rightarrow> remote_item \<Rightarrow> remote_item" where
  "legacy_item email i = i\<lparr>
     it_user := (if it_user i = [] then ''legacy:'' @ email else it_user i),
     it_status := (if it_status i = [] then (if it_online i then ''available'' else ''away'') else it_status i),
     it_hours := (if it_hours i = [] then ''[{\"days\":\"EVERY_DAY\",\"startMinute\":0,\"endMinute\":1440}]'' else it_hours i),
     it_zone := (if it_zone i = [] then ''UTC'' else it_zone i)\<rparr>"

definition strict_evaluation :: "settings \<Rightarrow> bool" where
  "strict_evaluation cfg \<longleftrightarrow> absence_safe_shadow cfg \<or> absence_safe_enforced cfg"

text \<open>What a heartbeat learns about an agent: status text, observation and decision.\<close>

definition read_item ::
  "settings \<Rightarrow> schedule_parser \<Rightarrow> (string \<Rightarrow> instant \<Rightarrow> int \<times> int) \<Rightarrow> instant \<Rightarrow> agent \<Rightarrow> remote_item option \<Rightarrow>
    string \<times> observation option \<times> decision" where
  "read_item cfg sched local_time now a item =
     (case item of
        None \<Rightarrow> ([], None, reject MISSING_OBSERVATION)
      | Some i \<Rightarrow>
          (let i' = (if strict_evaluation cfg then i else legacy_item (normalize_text (ag_email a)) i)
           in case normalize_availability_item sched i' of
                None \<Rightarrow> (normalize_text (it_status i'), None, reject MALFORMED_REMOTE_DATA)
              | Some ob \<Rightarrow> (normalize_text (it_status i'), Some ob, evaluate_observation_signals local_time ob now (Some True))))"

definition administrative_veto :: "agent \<Rightarrow> decision \<Rightarrow> decision" where
  "administrative_veto a d =
     (if ag_is_active a = Some False then reject AGENT_INACTIVE
      else if \<not> ag_auto_assign a then reject AUTO_ASSIGN_DISABLED else d)"

section \<open>Stabilization\<close>

definition stabilize :: "settings \<Rightarrow> instant \<Rightarrow> agent \<Rightarrow> decision \<Rightarrow> decision \<times> instant option \<times> int" where
  "stabilize cfg now a d =
     (if \<not> eligible d then (d, None, 0)
      else if \<not> strict_evaluation cfg then (d, Some now, 1)
      else (let (since, n) = (case ag_online_since a of
                  Some t \<Rightarrow> (if ag_remote_status a = ''available'' then (t, ag_sample_count a + 1) else (now, 1))
                | None \<Rightarrow> (now, 1))
            in ((if n < availability_required_samples cfg \<or> now - since < seconds (availability_stable_seconds cfg)
                 then reject STABILIZING else d), Some since, n)))"

section \<open>One agent of a heartbeat\<close>

record beat =
  bt_now :: instant
  bt_today :: int
  bt_task :: string
  bt_fencing :: int

definition material_state :: "agent \<Rightarrow> agent_status \<times> eligibility_state \<times> string \<times> string \<times> bool \<times> bool option" where
  "material_state a = (ag_status a, ag_elig_state a, ag_elig_reason a, ag_remote_status a, ag_auto_assign a, ag_is_active a)"

definition next_status :: "settings \<Rightarrow> decision \<Rightarrow> string \<Rightarrow> agent_status" where
  "next_status cfg d remote =
     (if absence_safe_enforced cfg then (if eligible d then Online else Away)
      else if remote = ''available'' then Online else Away)"

definition came_online :: "settings \<Rightarrow> agent \<Rightarrow> decision \<Rightarrow> agent_status \<Rightarrow> bool" where
  "came_online cfg a d st \<longleftrightarrow>
     (absence_safe_enforced cfg \<and> ag_elig_state a \<noteq> El_Eligible \<and> eligible d) \<or>
     (\<not> absence_safe_enforced cfg \<and> ag_status a \<noteq> Online \<and> st = Online)"

text \<open>The availability fields a heartbeat writes, before the status change.\<close>

definition availability_fields ::
  "settings \<Rightarrow> beat \<Rightarrow> agent \<Rightarrow> decision \<Rightarrow> instant option \<Rightarrow> int \<Rightarrow> string \<Rightarrow> bool \<Rightarrow> agent" where
  "availability_fields cfg b a d since n remote changed = a\<lparr>
     ag_avail_revision := (if changed then ag_avail_revision a + 1 else ag_avail_revision a),
     ag_fencing_token := bt_fencing b, ag_writer_id := availability_writer_id (runtime cfg),
     ag_online_since := since, ag_sample_count := n, ag_remote_status := remote,
     ag_elig_state := decision_state d, ag_elig_reason := reason_value (reason d),
     ag_elig_evaluated_at := Some (bt_now b), ag_heartbeat_at := Some (bt_now b), ag_updated_at := Some (bt_now b)\<rparr>"

definition change_status :: "beat \<Rightarrow> agent_status \<Rightarrow> agent \<Rightarrow> daily_log list \<Rightarrow> agent \<times> daily_log list" where
  "change_status b st a logs =
     (if ag_status a = st then (a, logs)
      else (let (a', logs') = sat_accumulate_time (bt_today b) (ag_status a) (bt_now b) a logs
            in (a'\<lparr>ag_status := st, ag_last_status_change_at := Some (bt_now b)\<rparr>, logs')))"

definition decision_row :: "settings \<Rightarrow> beat \<Rightarrow> agent \<Rightarrow> agent \<Rightarrow> availability_decision" where
  "decision_row cfg b old a = \<lparr>dc_agent = ag_pk a, dc_revision = ag_avail_revision a, dc_old = ag_status old, dc_new = ag_status a,
     dc_remote = ag_remote_status a, dc_observed_at = bt_now b, dc_state = ag_elig_state a, dc_reason = ag_elig_reason a,
     dc_task = bt_task b, dc_writer = availability_writer_id (runtime cfg), dc_env = runtime_environment (runtime cfg),
     dc_fencing = bt_fencing b\<rparr>"

text \<open>The audit rows of one agent; a decision of a known revision violates its unique constraint.\<close>

definition record_audit :: "settings \<Rightarrow> beat \<Rightarrow> string \<Rightarrow> agent \<Rightarrow> agent \<Rightarrow> bool \<Rightarrow> tracking \<Rightarrow> tracking result" where
  "record_audit cfg b source old a changed s =
     (let s1 = (if ag_status old = ag_status a then s
                else s\<lparr>tg_history := tg_history s @ [\<lparr>sh_agent = ag_pk a, sh_old = ag_status old, sh_new = ag_status a, sh_source = source\<rparr>]\<rparr>);
          row = decision_row cfg b old a
      in if \<not> changed then Inr s1
         else if exists_row (\<lambda>r. dc_agent r = dc_agent row \<and> dc_revision r = dc_revision row) (tg_decisions s1) then Inl IntegrityError
         else Inr (s1\<lparr>tg_decisions := tg_decisions s1 @ [row]\<rparr>))"

definition put_tracked :: "agent \<Rightarrow> daily_log list \<Rightarrow> tracking \<Rightarrow> tracking" where
  "put_tracked a logs s = s\<lparr>tg_agents := save_row ag_pk a (tg_agents s), tg_logs := logs\<rparr>"

text \<open>The agent after a heartbeat, the logs, whether its material state changed and whether it came online.\<close>

definition beat_agent ::
  "settings \<Rightarrow> schedule_parser \<Rightarrow> (string \<Rightarrow> instant \<Rightarrow> int \<times> int) \<Rightarrow> beat \<Rightarrow> remote_item list \<Rightarrow> agent \<Rightarrow> daily_log list \<Rightarrow>
    agent \<times> daily_log list \<times> bool \<times> bool" where
  "beat_agent cfg sched local_time b items a logs =
     (let (remote, ob, d0) = read_item cfg sched local_time (bt_now b) a (item_of items a);
          (d, since, n) = stabilize cfg (bt_now b) a (administrative_veto a d0);
          st = next_status cfg d remote;
          changed = ((st, decision_state d, reason_value (reason d), remote, ag_auto_assign a, ag_is_active a) \<noteq> material_state a);
          a1 = (availability_fields cfg b a d since n remote changed)\<lparr>ag_observed_at := Some (bt_now b),
                  ag_user_id := (case ob of None \<Rightarrow> ag_user_id a | Some o' \<Rightarrow> Some (ob_user_id o'))\<rparr>;
          (a2, logs') = change_status b st a1 logs
      in (a2, logs', changed, came_online cfg a d st))"

definition track_agent ::
  "settings \<Rightarrow> schedule_parser \<Rightarrow> (string \<Rightarrow> instant \<Rightarrow> int \<times> int) \<Rightarrow> beat \<Rightarrow> remote_item list \<Rightarrow> agent \<Rightarrow> tracking \<Rightarrow> (tracking \<times> bool) result" where
  "track_agent cfg sched local_time b items a s =
     (let (a', logs, changed, on) = beat_agent cfg sched local_time b items a (tg_logs s)
      in and_then (record_audit cfg b (if strict_evaluation cfg then ''hubspot_users_reconciliation'' else ''sat_heartbeat'') a a' changed s)
           (\<lambda>s1. Inr (put_tracked a' logs s1, on)))"

definition veto_refresh_due :: "settings \<Rightarrow> instant \<Rightarrow> agent \<Rightarrow> bool" where
  "veto_refresh_due cfg now a \<longleftrightarrow>
     (case ag_heartbeat_at a of None \<Rightarrow> True | Some t \<Rightarrow> seconds (sat_off_hours_refresh_seconds cfg) \<le> now - t) \<or>
     ag_online_since a \<noteq> None \<or> ag_sample_count a \<noteq> 0"

definition vetoed_agent :: "settings \<Rightarrow> beat \<Rightarrow> agent \<Rightarrow> daily_log list \<Rightarrow> agent \<times> daily_log list \<times> bool" where
  "vetoed_agent cfg b a logs =
     (let d = reject OUTSIDE_WORKING_HOURS;
          changed = ((Away, decision_state d, reason_value (reason d), ag_remote_status a, ag_auto_assign a, ag_is_active a) \<noteq> material_state a);
          (a', logs') = change_status b Away (availability_fields cfg b a d None 0 (ag_remote_status a) changed) logs
      in (a', logs', changed))"

definition veto_agent :: "settings \<Rightarrow> beat \<Rightarrow> agent \<Rightarrow> tracking \<Rightarrow> (tracking \<times> bool) result" where
  "veto_agent cfg b a s =
     (let (a', logs, changed) = vetoed_agent cfg b a (tg_logs s)
      in and_then (record_audit cfg b ''local_business_hours_veto'' a a' changed s)
           (\<lambda>s1. Inr (if changed \<or> veto_refresh_due cfg (bt_now b) a then put_tracked a' logs s1 else s1, False)))"

section \<open>The heartbeat\<close>

definition tracked :: "agent \<Rightarrow> bool" where
  "tracked a \<longleftrightarrow> ag_is_active a \<noteq> Some False"

text \<open>All tracked agents in the order of their keys; the flag counts those that came online.  An agent
  written under a later generation is left alone.\<close>

fun track_all :: "(agent \<Rightarrow> tracking \<Rightarrow> (tracking \<times> bool) result) \<Rightarrow> int \<Rightarrow> agent list \<Rightarrow> tracking \<Rightarrow> (tracking \<times> nat) result" where
  "track_all step fencing [] s = Inr (s, 0)"
| "track_all step fencing (a # as) s =
     (if fencing < ag_fencing_token a then track_all step fencing as s
      else and_then (step a s) (\<lambda>(s1, on). and_then (track_all step fencing as s1) (\<lambda>(s2, n). Inr (s2, if on then Suc n else n))))"

definition fenced_write ::
  "(agent \<Rightarrow> tracking \<Rightarrow> (tracking \<times> bool) result) \<Rightarrow> int \<Rightarrow> tracking \<Rightarrow> (tracking \<times> nat) result" where
  "fenced_write step fencing s = track_all step fencing (sort_key ag_pk (filter tracked (tg_agents s))) s"

text \<open>\<open>hubspot_user_id\<close> is unique, and only a heartbeat writes it; the off-hours veto does not.  (Collisions
  that exist only between two rows of one bulk update are left out.)\<close>

definition distinct_users :: "tracking \<Rightarrow> bool" where
  "distinct_users s \<longleftrightarrow> distinct (List.map_filter ag_user_id (tg_agents s))"

definition heartbeat_write ::
  "settings \<Rightarrow> schedule_parser \<Rightarrow> (string \<Rightarrow> instant \<Rightarrow> int \<times> int) \<Rightarrow> beat \<Rightarrow> remote_item list \<Rightarrow> tracking \<Rightarrow> (tracking \<times> nat) result" where
  "heartbeat_write cfg sched local_time b items s =
     and_then (fenced_write (track_agent cfg sched local_time b items) (bt_fencing b) s)
       (\<lambda>(s', n). if distinct_users s' then Inr (s', n) else Inl IntegrityError)"

definition off_hours_write :: "settings \<Rightarrow> beat \<Rightarrow> tracking \<Rightarrow> (tracking \<times> nat) result" where
  "off_hours_write cfg b s = fenced_write (veto_agent cfg b) (bt_fencing b) s"

datatype beat_outcome =
    Sync_Disabled | Runtime_Rejected | Lease_Contended | Provider_Failure py_error | Off_Hours int | Beat_Done nat int

text \<open>What surrounds a run: its clocks, the token it draws, and the provider's answer.\<close>

record surroundings =
  sr_enabled :: bool
  sr_business_hours :: bool
  sr_acquired_at :: instant
  sr_now :: instant
  sr_today :: int
  sr_task :: string
  sr_token :: string
  sr_items :: "remote_item list result"

definition beat_of :: "surroundings \<Rightarrow> int \<Rightarrow> beat" where
  "beat_of e g = \<lparr>bt_now = sr_now e, bt_today = sr_today e, bt_task = sr_task e, bt_fencing = g\<rparr>"

text \<open>The write is one transaction, and the lease is released whatever happens to it.\<close>

definition under_lease :: "surroundings \<Rightarrow> (tracking \<Rightarrow> (tracking \<times> nat) result) \<Rightarrow> (nat \<Rightarrow> beat_outcome) \<Rightarrow> tracking \<Rightarrow> tracking \<times> beat_outcome result" where
  "under_lease e write out s =
     (let free = (\<lambda>s'. s'\<lparr>tg_lease := fst (release_reconciliation_lease (sr_token e) (tg_lease s'))\<rparr>)
      in case write s of
           Inl err \<Rightarrow> (free s, Inl err)
         | Inr (s1, n) \<Rightarrow> (free s1, Inr (out n)))"

definition sat_heartbeat ::
  "settings \<Rightarrow> schedule_parser \<Rightarrow> (string \<Rightarrow> instant \<Rightarrow> int \<times> int) \<Rightarrow> surroundings \<Rightarrow> tracking \<Rightarrow> tracking \<times> beat_outcome result" where
  "sat_heartbeat cfg sched local_time e s =
     (if \<not> sr_enabled e then (s, Inr Sync_Disabled)
      else if \<not> is_authoritative_availability_runtime (runtime cfg) then (s, Inr Runtime_Rejected)
      else case acquire_reconciliation_lease cfg (sr_token e) (sr_acquired_at e) (tg_lease s) of
             (l, None) \<Rightarrow> (s\<lparr>tg_lease := l\<rparr>, Inr Lease_Contended)
           | (l, Some g) \<Rightarrow>
               (let s1 = s\<lparr>tg_lease := l\<rparr>
                in if \<not> sr_business_hours e then under_lease e (off_hours_write cfg (beat_of e g)) (\<lambda>_. Off_Hours g) s1
                   else case sr_items e of
                          Inl err \<Rightarrow> (s1\<lparr>tg_lease := fst (release_reconciliation_lease (sr_token e) (tg_lease s1))\<rparr>, Inr (Provider_Failure err))
                        | Inr items \<Rightarrow> under_lease e (heartbeat_write cfg sched local_time (beat_of e g) items) (\<lambda>n. Beat_Done n g) s1))"

section \<open>The end of the day\<close>

definition flush_agent :: "instant \<Rightarrow> agent \<Rightarrow> agent" where
  "flush_agent now a =
     (case ag_last_status_change_at a of
        None \<Rightarrow> a
      | Some t \<Rightarrow> (let delta = elapsed_seconds t now in if 0 < delta then credit_agent (ag_status a) delta a else a))"

definition reset_agent :: "instant \<Rightarrow> agent \<Rightarrow> agent" where
  "reset_agent now a = a\<lparr>ag_online_secs := 0, ag_away_secs := 0, ag_last_status_change_at := Some now\<rparr>"

definition snapshot_day :: "int \<Rightarrow> agent \<Rightarrow> daily_log list \<Rightarrow> daily_log list" where
  "snapshot_day day a rows =
     (if 0 < ag_online_secs a \<or> 0 < ag_away_secs a
      then update_rows (\<lambda>r. log_key r = (ag_pk a, day)) (\<lambda>r. r\<lparr>dl_online := ag_online_secs a, dl_away := ag_away_secs a\<rparr>)
             (ensure_log (ag_pk a) day rows)
      else rows)"

definition sat_reset_daily_counters :: "settings \<Rightarrow> instant \<Rightarrow> int \<Rightarrow> tracking \<Rightarrow> tracking \<times> nat" where
  "sat_reset_daily_counters cfg now yesterday s =
     (if \<not> may_write_routing_state cfg then (s, 0)
      else (let flushed = map (flush_agent now) (filter tracked (tg_agents s))
            in (s\<lparr>tg_logs := fold (snapshot_day yesterday) flushed (tg_logs s),
                 tg_agents := update_rows tracked (reset_agent now) (tg_agents s)\<rparr>, length flushed)))"

section \<open>The load of an agent\<close>

definition sync_count :: "instant \<Rightarrow> uuid \<Rightarrow> (agent \<Rightarrow> int) \<Rightarrow> db \<Rightarrow> db" where
  "sync_count now k f d = d\<lparr>db_agents := update_rows (\<lambda>a. ag_pk a = k)
     (\<lambda>a. a\<lparr>ag_chats := f a, ag_count_sync_at := Some now, ag_updated_at := Some now\<rparr>) (db_agents d)\<rparr>"

text \<open>\<open>a\<close> is the caller's copy of the agent, \<open>refresh\<close> the portfolio refresh, \<open>remote\<close> the count of HubSpot.\<close>

definition sat_reconcile_agent_load ::
  "settings \<Rightarrow> instant \<Rightarrow> (site \<Rightarrow> site \<times> bool result) \<Rightarrow> int result \<Rightarrow> agent \<Rightarrow> site \<Rightarrow> site \<times> int result" where
  "sat_reconcile_agent_load cfg now refresh remote a s =
     (if \<not> may_write_routing_state cfg then (s, Inr (ag_chats a))
      else case (if capacity_mode_of cfg \<noteq> Capacity_Off then refresh s else (s, Inr True)) of
             (s1, Inl e) \<Rightarrow> (s1, Inl e)
           | (s1, Inr complete) \<Rightarrow>
               (if capacity_enforced cfg then
                  (case agent_of (st_db s1) (ag_pk a) of None \<Rightarrow> (s1, Inl DoesNotExist) | Some g \<Rightarrow> (s1, Inr (ag_chats g)))
                else (let known = ag_chats (if capacity_mode_of cfg = Capacity_Off then a
                            else case agent_of (st_db (if complete then s1 else s)) (ag_pk a) of None \<Rightarrow> a | Some g \<Rightarrow> g)
                      in case remote of
                           Inl e \<Rightarrow> (s1, Inr known)
                         | Inr n \<Rightarrow>
                             (if n < 0 then (s1, Inr known)
                              else if known < n then (s1\<lparr>st_db := sync_count now (ag_pk a) (\<lambda>_. n) (st_db s1)\<rparr>, Inr n)
                              else (s1\<lparr>st_db := sync_count now (ag_pk a) ag_chats (st_db s1)\<rparr>, Inr known)))))"

section \<open>The lease excludes\<close>

definition lease_holder :: "lease option \<Rightarrow> instant \<Rightarrow> string option" where
  "lease_holder l now = (if lease_taken (lease_row l) now then Some (ls_token (lease_row l)) else None)"

definition try_lease :: "settings \<Rightarrow> string \<Rightarrow> instant \<Rightarrow> lease option \<Rightarrow> lease option option" where
  "try_lease cfg token now l = (case acquire_reconciliation_lease cfg token now l of (l', Some g) \<Rightarrow> Some l' | (l', None) \<Rightarrow> None)"

definition lease_lasts :: "lease option \<Rightarrow> instant \<Rightarrow> string \<Rightarrow> bool" where
  "lease_lasts l until token \<longleftrightarrow> ls_token (lease_row l) = token \<and> lease_taken (lease_row l) until"

lemma try_lease_eq:
  "try_lease cfg token now l = (if lease_taken (lease_row l) now then None
     else Some (Some \<lparr>ls_token = token, ls_writer = availability_writer_id (runtime cfg), ls_env = runtime_environment (runtime cfg),
        ls_expires = Some (now + seconds (availability_lease_ttl_seconds cfg)), ls_generation = ls_generation (lease_row l) + 1\<rparr>))"
  by (simp add: try_lease_def acquire_reconciliation_lease_def Let_def)

lemma lease_taken_earlier: "lease_taken r until \<Longrightarrow> now \<le> until \<Longrightarrow> lease_taken r now"
  by (auto simp: lease_taken_def split: option.splits)

lemma release_row:
  "lease_row (fst (release_reconciliation_lease token l)) =
     (if l \<noteq> None \<and> ls_token (lease_row l) = token then (lease_row l)\<lparr>ls_token := [], ls_expires := None\<rparr> else lease_row l)"
  by (auto simp: release_reconciliation_lease_def lease_row_def split: option.splits)

interpretation sat_lease: owned_lease lease_holder "try_lease cfg" "\<lambda>p at l. fst (release_reconciliation_lease p l)" lease_lasts
  "\<lambda>p. p \<noteq> []" "seconds (availability_lease_ttl_seconds cfg)" for cfg
proof unfold_locales
  fix p q :: string and now until :: instant and l l' :: "lease option"
  show "try_lease cfg p now l = Some l' \<Longrightarrow> p \<noteq> [] \<Longrightarrow> until < now + seconds (availability_lease_ttl_seconds cfg) \<Longrightarrow> lease_lasts l' until p"
    by (auto simp: try_lease_eq lease_lasts_def lease_row_def lease_taken_def split: if_splits)
  show "lease_lasts l until p \<Longrightarrow> now \<le> until \<Longrightarrow> q \<noteq> p \<Longrightarrow> try_lease cfg q now l = None"
    by (auto simp: try_lease_eq lease_lasts_def dest: lease_taken_earlier)
  show "lease_holder l now = None \<Longrightarrow> try_lease cfg p now l \<noteq> None"
    by (simp add: lease_holder_def try_lease_eq split: if_splits)
  show "lease_lasts l until p \<Longrightarrow> now \<le> until \<Longrightarrow> lease_holder l now = Some p"
    by (auto simp: lease_lasts_def lease_holder_def dest: lease_taken_earlier)
  show "lease_lasts l until p \<Longrightarrow> q \<noteq> p \<Longrightarrow> lease_lasts (fst (release_reconciliation_lease q l)) until p"
    by (auto simp: lease_lasts_def release_row)
  show "lease_holder l now = Some p \<Longrightarrow> lease_holder (fst (release_reconciliation_lease p l)) now = None"
    by (cases l) (auto simp: lease_holder_def release_reconciliation_lease_def lease_row_def blank_lease_def lease_taken_def
        split: if_splits)
qed

text \<open>The availability lease excludes.  Once a heartbeat holds it, every attempt of another party to
  take it fails until it runs out, whatever those parties acquire or release meanwhile, and after its own
  release anyone can take it again.\<close>

theorem availability_lease_excludes:
  fixes es :: "(string \<times> instant + string \<times> instant) list"
  assumes "acquire_reconciliation_lease cfg p now l = (l', Some g)" and "p \<noteq> []"
    and "until < now + seconds (availability_lease_ttl_seconds cfg)"
    and "\<forall>q at. Inl (q, at) \<in> set es \<longrightarrow> q \<noteq> p \<and> at \<le> until" and "\<forall>q at. Inr (q, at) \<in> set es \<longrightarrow> q \<noteq> p"
    and "q \<noteq> p" and "at \<le> until"
  shows "let l'' = fold (\<lambda>e l. case e of Inl (q, at) \<Rightarrow> fst (acquire_reconciliation_lease cfg q at l)
        | Inr (q, at) \<Rightarrow> fst (release_reconciliation_lease q l)) es l'
    in snd (acquire_reconciliation_lease cfg q at l'') = None \<and>
       snd (acquire_reconciliation_lease cfg q at (fst (release_reconciliation_lease p l''))) \<noteq> None"
proof -
  let ?step = "\<lambda>e l. case e of Inl (q, at) \<Rightarrow> (case try_lease cfg q at l of None \<Rightarrow> l | Some l' \<Rightarrow> l')
      | Inr (q, at :: instant) \<Rightarrow> fst (release_reconciliation_lease q l)"
  let ?code = "\<lambda>e l. case e of Inl (q, at) \<Rightarrow> fst (acquire_reconciliation_lease cfg q at l)
      | Inr (q, at :: instant) \<Rightarrow> fst (release_reconciliation_lease q l)"
  have p: "try_lease cfg p now l = Some l'" using assms(1) by (simp add: try_lease_def)
  have row: "l'' \<noteq> None \<Longrightarrow> ?code e l'' = ?step e l''" for e l''
    by (cases e) (auto simp: try_lease_eq acquire_reconciliation_lease_def Let_def lease_row_def)
  have some: "l'' \<noteq> None \<Longrightarrow> ?step e l'' \<noteq> None" for e l''
    by (cases e) (auto simp: try_lease_eq release_reconciliation_lease_def split: prod.splits)
  have same: "l'' \<noteq> None \<Longrightarrow> fold ?code fs l'' = fold ?step fs l''" for fs l''
  proof (induction fs arbitrary: l'')
    case (Cons e fs)
    show ?case by (simp only: fold_simps row [OF Cons.prems] Cons.IH [OF some [OF Cons.prems]])
  qed simp
  have l': "l' \<noteq> None" using assms(1) by (auto simp: acquire_reconciliation_lease_def Let_def split: if_splits)
  have lasts: "lease_lasts (fold ?step es l') until p"
    by (rule sat_lease.lasting_foreign_schedule [OF sat_lease.acquire_held [OF p assms(2,3)]]) (use assms(4,5) in blast)+
  have "try_lease cfg q at (fold ?step es l') = None"
    by (rule sat_lease.granted_lease_excludes [OF p assms(2,3)]) (use assms(4-7) in blast)+
  moreover have "try_lease cfg q at (fst (release_reconciliation_lease p (fold ?step es l'))) \<noteq> None"
    by (rule sat_lease.reacquire_after_release [OF lasts assms(7)])
  ultimately show ?thesis unfolding same [OF l'] Let_def
    by (auto simp: try_lease_def split: prod.splits option.splits)
qed

section \<open>Stabilization against its specification\<close>

lemma accumulate_fields [simp]:
  "ag_pk (fst (sat_accumulate_time today old now a logs)) = ag_pk a"
  "ag_online_since (fst (sat_accumulate_time today old now a logs)) = ag_online_since a"
  "ag_sample_count (fst (sat_accumulate_time today old now a logs)) = ag_sample_count a"
  "ag_remote_status (fst (sat_accumulate_time today old now a logs)) = ag_remote_status a"
  "ag_elig_state (fst (sat_accumulate_time today old now a logs)) = ag_elig_state a"
  "ag_elig_reason (fst (sat_accumulate_time today old now a logs)) = ag_elig_reason a"
  "ag_fencing_token (fst (sat_accumulate_time today old now a logs)) = ag_fencing_token a"
  "ag_avail_revision (fst (sat_accumulate_time today old now a logs)) = ag_avail_revision a"
  "ag_auto_assign (fst (sat_accumulate_time today old now a logs)) = ag_auto_assign a"
  "ag_is_active (fst (sat_accumulate_time today old now a logs)) = ag_is_active a"
  "ag_user_id (fst (sat_accumulate_time today old now a logs)) = ag_user_id a"
  by (auto simp: sat_accumulate_time_def credit_agent_def Let_def split: option.splits)

lemma change_status_fields [simp]:
  "ag_pk (fst (change_status b st a logs)) = ag_pk a"
  "ag_online_since (fst (change_status b st a logs)) = ag_online_since a"
  "ag_sample_count (fst (change_status b st a logs)) = ag_sample_count a"
  "ag_remote_status (fst (change_status b st a logs)) = ag_remote_status a"
  "ag_elig_state (fst (change_status b st a logs)) = ag_elig_state a"
  "ag_elig_reason (fst (change_status b st a logs)) = ag_elig_reason a"
  "ag_fencing_token (fst (change_status b st a logs)) = ag_fencing_token a"
  "ag_avail_revision (fst (change_status b st a logs)) = ag_avail_revision a"
  "ag_auto_assign (fst (change_status b st a logs)) = ag_auto_assign a"
  "ag_is_active (fst (change_status b st a logs)) = ag_is_active a"
  "ag_user_id (fst (change_status b st a logs)) = ag_user_id a"
  "ag_status (fst (change_status b st a logs)) = st"
proof -
  obtain a' logs' where "sat_accumulate_time (bt_today b) (ag_status a) (bt_now b) a logs = (a', logs')" by fastforce
  then have e: "fst (change_status b st a logs) = (if ag_status a = st then a
      else (fst (sat_accumulate_time (bt_today b) (ag_status a) (bt_now b) a logs))\<lparr>ag_status := st, ag_last_status_change_at := Some (bt_now b)\<rparr>)"
    by (simp add: change_status_def)
  show "ag_pk (fst (change_status b st a logs)) = ag_pk a"
    "ag_online_since (fst (change_status b st a logs)) = ag_online_since a"
    "ag_sample_count (fst (change_status b st a logs)) = ag_sample_count a"
    "ag_remote_status (fst (change_status b st a logs)) = ag_remote_status a"
    "ag_elig_state (fst (change_status b st a logs)) = ag_elig_state a"
    "ag_elig_reason (fst (change_status b st a logs)) = ag_elig_reason a"
    "ag_fencing_token (fst (change_status b st a logs)) = ag_fencing_token a"
    "ag_avail_revision (fst (change_status b st a logs)) = ag_avail_revision a"
    "ag_auto_assign (fst (change_status b st a logs)) = ag_auto_assign a"
    "ag_is_active (fst (change_status b st a logs)) = ag_is_active a"
    "ag_user_id (fst (change_status b st a logs)) = ag_user_id a"
    "ag_status (fst (change_status b st a logs)) = st"
    by (simp_all add: e)
qed

text \<open>The specification: the sightings of an agent, newest first, each with its time and whether every
  signal allowed the agent.  An agent is stable when the unbroken run of allowed sightings that ends
  now is long enough, in number and in time.\<close>

type_synonym sightings = "(instant \<times> bool) list"

definition allowed_run :: "sightings \<Rightarrow> sightings" where
  "allowed_run h = takeWhile snd h"

definition stable_run :: "settings \<Rightarrow> sightings \<Rightarrow> bool" where
  "stable_run cfg h \<longleftrightarrow> allowed_run h \<noteq> [] \<and>
     availability_required_samples cfg \<le> int (length (allowed_run h)) \<and>
     seconds (availability_stable_seconds cfg) \<le> fst (hd (allowed_run h)) - fst (last (allowed_run h))"

definition represents :: "agent \<Rightarrow> sightings \<Rightarrow> bool" where
  "represents a h \<longleftrightarrow> ag_sample_count a = int (length (allowed_run h)) \<and>
     (if allowed_run h = [] then ag_online_since a = None
      else ag_online_since a = Some (fst (last (allowed_run h))) \<and> ag_remote_status a = ''available'')"

definition sighting ::
  "settings \<Rightarrow> schedule_parser \<Rightarrow> (string \<Rightarrow> instant \<Rightarrow> int \<times> int) \<Rightarrow> beat \<Rightarrow> remote_item list \<Rightarrow> agent \<Rightarrow> instant \<times> bool" where
  "sighting cfg sched local_time b items a = (bt_now b,
     eligible (administrative_veto a (snd (snd (read_item cfg sched local_time (bt_now b) a (item_of items a))))))"

lemma allowed_is_available:
  assumes "read_item cfg sched local_time now a item = (remote, ob, d)" and "eligible (administrative_veto a d)"
  shows "remote = ''available''"
proof -
  have d: "eligible d" using assms(2) by (simp add: administrative_veto_def split: if_splits)
  show ?thesis
    using assms(1) d
    by (auto simp: read_item_def normalize_availability_item_def evaluate_observation_signals_def hours_decision_def Let_def
        split: option.splits if_splits prod.splits)
qed

lemma represents_cons:
  "allowed_run ((t, ok) # h) = (if ok then (t, ok) # allowed_run h else [])"
  by (simp add: allowed_run_def)

lemma stabilize_run:
  assumes "strict_evaluation cfg" and "represents a h" and "stabilize cfg now a d = (d', since, n)"
  shows "n = int (length (allowed_run ((now, eligible d) # h)))"
    "since = (if eligible d then Some (fst (last (allowed_run ((now, eligible d) # h)))) else None)"
    "eligible d' \<longleftrightarrow> stable_run cfg ((now, eligible d) # h)"
proof -
  show n: "n = int (length (allowed_run ((now, eligible d) # h)))"
    and s: "since = (if eligible d then Some (fst (last (allowed_run ((now, eligible d) # h)))) else None)"
    using assms by (auto simp: stabilize_def represents_def represents_cons split: if_splits option.splits prod.splits)
  have d': "eligible d' \<longleftrightarrow> eligible d \<and> availability_required_samples cfg \<le> n \<and>
      (case since of None \<Rightarrow> False | Some t \<Rightarrow> seconds (availability_stable_seconds cfg) \<le> now - t)"
  proof (cases "ag_online_since a")
    case None
    then show ?thesis using assms(1,3) by (auto simp: stabilize_def seconds_def split: if_splits)
  next
    case (Some t)
    have "eligible d \<Longrightarrow> since = Some (if ag_remote_status a = ''available'' then t else now)"
      and "\<not> eligible d \<Longrightarrow> d' = d"
      and "eligible d \<Longrightarrow> d' = (if n < availability_required_samples cfg \<or>
        now - (if ag_remote_status a = ''available'' then t else now) < seconds (availability_stable_seconds cfg) then reject STABILIZING else d)"
      using assms(1,3) Some by (auto simp: stabilize_def)
    then show ?thesis by (cases "eligible d") auto
  qed
  show "eligible d' \<longleftrightarrow> stable_run cfg ((now, eligible d) # h)"
    unfolding d' n s stable_run_def by (simp add: represents_cons)
qed

lemma beat_agent_eq:
  assumes "read_item cfg sched local_time (bt_now b) a (item_of items a) = (remote, ob, d0)"
    and "stabilize cfg (bt_now b) a (administrative_veto a d0) = (d, since, n)"
    and "beat_agent cfg sched local_time b items a logs = (a', logs', changed, on)"
  shows "ag_sample_count a' = n" "ag_online_since a' = since" "ag_remote_status a' = remote"
    "ag_elig_state a' = decision_state d" "ag_status a' = next_status cfg d remote" "ag_pk a' = ag_pk a"
    "ag_fencing_token a' = bt_fencing b" "ag_avail_revision a' = (if changed then ag_avail_revision a + 1 else ag_avail_revision a)"
    "ag_is_active a' = ag_is_active a"
proof -
  let ?st = "next_status cfg d remote"
  let ?c = "(?st, decision_state d, reason_value (reason d), remote, ag_auto_assign a, ag_is_active a) \<noteq> material_state a"
  let ?a1 = "(availability_fields cfg b a d since n remote ?c)\<lparr>ag_observed_at := Some (bt_now b),
                  ag_user_id := (case ob of None \<Rightarrow> ag_user_id a | Some o' \<Rightarrow> Some (ob_user_id o'))\<rparr>"
  have a': "a' = fst (change_status b ?st ?a1 logs)" and c: "changed = ?c"
    using assms(3) by (auto simp: beat_agent_def assms(1,2) Let_def split: prod.splits)
  show "ag_sample_count a' = n" "ag_online_since a' = since" "ag_remote_status a' = remote"
    "ag_elig_state a' = decision_state d" "ag_status a' = ?st" "ag_pk a' = ag_pk a"
    "ag_fencing_token a' = bt_fencing b" "ag_avail_revision a' = (if changed then ag_avail_revision a + 1 else ag_avail_revision a)"
    "ag_is_active a' = ag_is_active a"
    by (simp_all add: a' c availability_fields_def)
qed

text \<open>C27: the stored counters implement the specification.  Under strict evaluation (the shadow or the enforcing mode of
  the absence safety) a heartbeat takes an agent that represents its sightings to one that represents them with the new
  sighting, makes it eligible exactly when the run is stable, and in the enforcing mode online exactly then.  Without
  it the counters start over: the agent represents the new sighting alone and is eligible exactly when that
  sighting allows it.  The off-hours veto ends every run, whether or not it writes the row.\<close>

theorem stabilization_refines:
  assumes "represents a h"
  shows "(let x = sighting cfg sched local_time b items a; h' = (if strict_evaluation cfg then x # h else [x]);
        a' = fst (beat_agent cfg sched local_time b items a logs)
     in represents a' h' \<and> (ag_elig_state a' = El_Eligible \<longleftrightarrow> (if strict_evaluation cfg then stable_run cfg h' else snd x)) \<and>
        (absence_safe_enforced cfg \<longrightarrow> (ag_status a' = Online \<longleftrightarrow> stable_run cfg h'))) \<and>
    (let h' = (bt_now v, False) # h; (a', logs', changed) = vetoed_agent cfg v a logs
     in represents (if changed \<or> veto_refresh_due cfg (bt_now v) a then a' else a) h' \<and> \<not> stable_run cfg h')"
proof
  obtain remote ob d0 where r: "read_item cfg sched local_time (bt_now b) a (item_of items a) = (remote, ob, d0)" by (metis prod_cases3)
  let ?d = "administrative_veto a d0"
  obtain d since n where s: "stabilize cfg (bt_now b) a ?d = (d, since, n)" by (metis prod_cases3)
  obtain a' logs' changed on where a': "beat_agent cfg sched local_time b items a logs = (a', logs', changed, on)" by (metis prod_cases4)
  note f = beat_agent_eq [OF r s a']
  have sight: "sighting cfg sched local_time b items a = (bt_now b, eligible ?d)" by (simp add: sighting_def r)
  have avail: "eligible ?d \<Longrightarrow> remote = ''available''" by (rule allowed_is_available [OF r])
  have elig: "ag_elig_state a' = El_Eligible \<longleftrightarrow> eligible d" by (simp add: f(4) decision_state_def)
  have online: "absence_safe_enforced cfg \<longrightarrow> (ag_status a' = Online \<longleftrightarrow> eligible d)" by (simp add: f(5) next_status_def)
  show "let x = sighting cfg sched local_time b items a; h' = (if strict_evaluation cfg then x # h else [x]);
        a' = fst (beat_agent cfg sched local_time b items a logs)
     in represents a' h' \<and> (ag_elig_state a' = El_Eligible \<longleftrightarrow> (if strict_evaluation cfg then stable_run cfg h' else snd x)) \<and>
        (absence_safe_enforced cfg \<longrightarrow> (ag_status a' = Online \<longleftrightarrow> stable_run cfg h'))"
  proof (cases "strict_evaluation cfg")
    case True
    note run = stabilize_run [OF True assms s]
    have "represents a' ((bt_now b, eligible ?d) # h)"
      using f(1-3) run(1,2) avail by (simp add: represents_def represents_cons)
    then show ?thesis using elig online True by (simp add: Let_def sight a' run(3))
  next
    case False
    have d: "d = ?d" "n = (if eligible ?d then 1 else 0)" "since = (if eligible ?d then Some (bt_now b) else None)"
      using s False by (auto simp: stabilize_def split: if_splits)
    have "represents a' [(bt_now b, eligible ?d)]" using f(1-3) avail by (simp add: represents_def represents_cons d allowed_run_def)
    moreover have "\<not> absence_safe_enforced cfg" using False by (simp add: strict_evaluation_def)
    ultimately show ?thesis using elig False by (simp add: Let_def sight a' d(1))
  qed
next
  obtain a' logs' changed where v: "vetoed_agent cfg v a logs = (a', logs', changed)" by (metis prod_cases3)
  have "ag_sample_count a' = 0" "ag_online_since a' = None"
    using v by (auto simp: vetoed_agent_def Let_def availability_fields_def split: prod.splits dest!: arg_cong [where f = fst])
  moreover have "ag_online_since a = None \<and> ag_sample_count a = 0" if "\<not> veto_refresh_due cfg (bt_now v) a"
    using that by (simp add: veto_refresh_due_def)
  ultimately show "let h' = (bt_now v, False) # h; (a', logs', changed) = vetoed_agent cfg v a logs
     in represents (if changed \<or> veto_refresh_due cfg (bt_now v) a then a' else a) h' \<and> \<not> stable_run cfg h'"
    by (simp add: v represents_def represents_cons stable_run_def)
qed

section \<open>The fence\<close>

definition trail :: "uuid \<Rightarrow> tracking \<Rightarrow> availability_decision list" where
  "trail g s = filter (\<lambda>d. dc_agent d = g) (tg_decisions s)"

text \<open>The audit trail of an agent: revisions strictly increase, generations never decrease, and the row
  is at least as recent as its last decision.\<close>

definition audited :: "agent \<Rightarrow> tracking \<Rightarrow> bool" where
  "audited a s \<longleftrightarrow> sorted_wrt (<) (map dc_revision (trail (ag_pk a) s)) \<and> sorted (map dc_fencing (trail (ag_pk a) s)) \<and>
     (\<forall>d \<in> set (trail (ag_pk a) s). dc_revision d \<le> ag_avail_revision a \<and> dc_fencing d \<le> ag_fencing_token a)"

definition audit_ok :: "tracking \<Rightarrow> bool" where
  "audit_ok s \<longleftrightarrow> distinct (map ag_pk (tg_agents s)) \<and> (\<forall>a \<in> set (tg_agents s). audited a s)"

text \<open>What writing one agent under a generation may do: nothing, a refresh, or a new revision with its decision.\<close>

definition decided :: "int \<Rightarrow> agent \<Rightarrow> agent \<Rightarrow> availability_decision list \<Rightarrow> bool" where
  "decided fencing a a' rows \<longleftrightarrow>
     (rows = [] \<and> (a' = a \<or> ag_fencing_token a' = fencing \<and> ag_avail_revision a' = ag_avail_revision a)) \<or>
     (\<exists>row. rows = [row] \<and> dc_agent row = ag_pk a \<and> dc_revision row = ag_avail_revision a' \<and> dc_fencing row = fencing \<and>
        ag_fencing_token a' = fencing \<and> ag_avail_revision a' = ag_avail_revision a + 1)"

definition writes :: "int \<Rightarrow> agent \<Rightarrow> agent \<Rightarrow> tracking \<Rightarrow> tracking \<Rightarrow> bool" where
  "writes fencing a a' s s' \<longleftrightarrow> ag_pk a' = ag_pk a \<and> tg_lease s' = tg_lease s \<and> tg_agents s' = save_row ag_pk a' (tg_agents s) \<and>
     (\<exists>rows. tg_decisions s' = tg_decisions s @ rows \<and> decided fencing a a' rows)"

lemma trail_writes:
  assumes "writes fencing a a' s s'"
  shows "g \<noteq> ag_pk a \<Longrightarrow> trail g s' = trail g s"
    and "\<exists>rows. trail (ag_pk a) s' = trail (ag_pk a) s @ rows \<and> decided fencing a a' rows"
  using assms by (auto simp: writes_def trail_def decided_def)

lemma decided_audited:
  assumes "audited a s" and "decided fencing a a' rows" and "ag_fencing_token a \<le> fencing" and "ag_pk a' = ag_pk a"
    and "trail (ag_pk a) s' = trail (ag_pk a) s @ rows"
  shows "audited a' s'"
  using assms unfolding audited_def decided_def
  by (auto simp: sorted_wrt_append sorted_append)

lemma writes_audit:
  assumes "audit_ok s" and "a \<in> set (tg_agents s)" and "ag_fencing_token a \<le> fencing" and "writes fencing a a' s s'"
  shows "audit_ok s'"
proof -
  have w: "ag_pk a' = ag_pk a" "tg_agents s' = save_row ag_pk a' (tg_agents s)" using assms(4) by (auto simp: writes_def)
  obtain rows where rows: "trail (ag_pk a) s' = trail (ag_pk a) s @ rows" "decided fencing a a' rows"
    using trail_writes(2) [OF assms(4)] by blast
  have "audited a' s'"
    using decided_audited [OF _ rows(2) assms(3) w(1) rows(1)] assms(1,2) by (auto simp: audit_ok_def)
  moreover have "audited r s'" if "r \<in> set (tg_agents s)" "ag_pk r \<noteq> ag_pk a" for r
    using that assms(1) trail_writes(1) [OF assms(4) that(2)] by (auto simp: audit_ok_def audited_def)
  ultimately show ?thesis
    using assms(1) w unfolding audit_ok_def by (auto dest!: in_save_row)
qed

text \<open>What a write of some agents under a generation keeps.\<close>

definition kept :: "int \<Rightarrow> agent list \<Rightarrow> tracking \<Rightarrow> tracking \<Rightarrow> bool" where
  "kept fencing as s s' \<longleftrightarrow> tg_lease s' = tg_lease s \<and> map ag_pk (tg_agents s') = map ag_pk (tg_agents s) \<and>
     (\<forall>r \<in> set (tg_agents s). (ag_pk r \<in> ag_pk ` set as \<and> ag_fencing_token r \<le> fencing) \<or> r \<in> set (tg_agents s')) \<and>
     (\<forall>r \<in> set (tg_agents s). \<exists>r' \<in> set (tg_agents s'). ag_pk r' = ag_pk r \<and> ag_avail_revision r \<le> ag_avail_revision r' \<and>
        ag_fencing_token r \<le> ag_fencing_token r' \<and> (ag_fencing_token r' = ag_fencing_token r \<or> ag_fencing_token r' = fencing))"

lemma kept_refl [simp]: "kept fencing as s s"
  by (auto simp: kept_def)

lemma kept_mono: "kept fencing as s s' \<Longrightarrow> set as \<subseteq> set bs \<Longrightarrow> kept fencing bs s s'"
  unfolding kept_def by blast

text \<open>The contract of a writer: given the current row of an agent in an ordered history it succeeds and
  writes only that agent.\<close>

locale fenced_writer =
  fixes step :: "agent \<Rightarrow> tracking \<Rightarrow> (tracking \<times> bool) result" and fencing :: int
  assumes step_writes: "audit_ok s \<Longrightarrow> a \<in> set (tg_agents s) \<Longrightarrow> \<exists>a' s' on. step a s = Inr (s', on) \<and> writes fencing a a' s s'"
begin

lemma kept_trans: "kept fencing as s s' \<Longrightarrow> kept fencing as s' s'' \<Longrightarrow> kept fencing as s s''"
proof -
  assume k: "kept fencing as s s'" "kept fencing as s' s''"
  have "\<exists>r'' \<in> set (tg_agents s''). ag_pk r'' = ag_pk r \<and> ag_avail_revision r \<le> ag_avail_revision r'' \<and>
      ag_fencing_token r \<le> ag_fencing_token r'' \<and> (ag_fencing_token r'' = ag_fencing_token r \<or> ag_fencing_token r'' = fencing)"
    if r: "r \<in> set (tg_agents s)" for r
  proof -
    obtain r' where r': "r' \<in> set (tg_agents s')" "ag_pk r' = ag_pk r" "ag_avail_revision r \<le> ag_avail_revision r'"
      "ag_fencing_token r \<le> ag_fencing_token r'" "ag_fencing_token r' = ag_fencing_token r \<or> ag_fencing_token r' = fencing"
      using k(1) r unfolding kept_def by blast
    obtain r'' where "r'' \<in> set (tg_agents s'')" "ag_pk r'' = ag_pk r'" "ag_avail_revision r' \<le> ag_avail_revision r''"
      "ag_fencing_token r' \<le> ag_fencing_token r''" "ag_fencing_token r'' = ag_fencing_token r' \<or> ag_fencing_token r'' = fencing"
      using k(2) r'(1) unfolding kept_def by blast
    then show ?thesis using r' by (intro bexI [of _ r'']) auto
  qed
  moreover have "(ag_pk r \<in> ag_pk ` set as \<and> ag_fencing_token r \<le> fencing) \<or> r \<in> set (tg_agents s'')"
    if "r \<in> set (tg_agents s)" for r
    using k that unfolding kept_def by blast
  ultimately show ?thesis using k by (simp add: kept_def)
qed

lemma kept_write:
  assumes "distinct (map ag_pk (tg_agents s))" "a \<in> set (tg_agents s)" "ag_fencing_token a \<le> fencing" "writes fencing a a' s s'" "a \<in> set as"
  shows "kept fencing as s s'"
proof -
  have w: "ag_pk a' = ag_pk a" "tg_lease s' = tg_lease s" "tg_agents s' = save_row ag_pk a' (tg_agents s)"
    "ag_avail_revision a \<le> ag_avail_revision a'" "ag_fencing_token a' = ag_fencing_token a \<or> ag_fencing_token a' = fencing"
    using assms(4) by (auto simp: writes_def decided_def)
  have mem: "a' \<in> set (tg_agents s')" "\<And>r. r \<in> set (tg_agents s) \<Longrightarrow> ag_pk r \<noteq> ag_pk a \<Longrightarrow> r \<in> set (tg_agents s')"
    using assms(2) w(1,3) by (force simp: save_row_def)+
  have same: "r = a" if "r \<in> set (tg_agents s)" "ag_pk r = ag_pk a" for r
    using that assms(1,2) by (metis get_row_distinct option.inject)
  have "(ag_pk r \<in> ag_pk ` set as \<and> ag_fencing_token r \<le> fencing) \<or> r \<in> set (tg_agents s')" if "r \<in> set (tg_agents s)" for r
    using mem(2) same that assms(3,5) by (cases "ag_pk r = ag_pk a") auto
  moreover have "\<exists>r' \<in> set (tg_agents s'). ag_pk r' = ag_pk r \<and> ag_avail_revision r \<le> ag_avail_revision r' \<and>
      ag_fencing_token r \<le> ag_fencing_token r' \<and> (ag_fencing_token r' = ag_fencing_token r \<or> ag_fencing_token r' = fencing)"
    if "r \<in> set (tg_agents s)" for r
  proof (cases "ag_pk r = ag_pk a")
    case True
    then have r: "r = a" using same that by blast
    show ?thesis using mem(1) w(1,4,5) assms(3) unfolding r by (intro bexI [of _ a']) auto
  next
    case False
    then show ?thesis using mem(2) that by (intro bexI [of _ r]) auto
  qed
  ultimately show ?thesis using w(2,3) by (simp add: kept_def)
qed

lemma track_all_total:
  assumes "audit_ok s" and "set as \<subseteq> set (tg_agents s)" and "distinct (map ag_pk as)"
  shows "\<exists>s' n. track_all step fencing as s = Inr (s', n) \<and> audit_ok s' \<and> kept fencing as s s'"
  using assms
proof (induction "as" arbitrary: s)
  case Nil
  then show ?case by simp
next
  case (Cons a as)
  have tail: "set as \<subseteq> set (tg_agents s)" "distinct (map ag_pk as)" using Cons.prems(2,3) by auto
  show ?case
  proof (cases "fencing < ag_fencing_token a")
    case True
    obtain s' n where "track_all step fencing as s = Inr (s', n)" "audit_ok s'" "kept fencing as s s'"
      using Cons.IH [OF Cons.prems(1) tail] by blast
    then show ?thesis using True kept_mono [of fencing "as" s s' "a # as"] by auto
  next
    case False
    have a: "a \<in> set (tg_agents s)" using Cons.prems(2) by simp
    obtain a' s1 on where s1: "step a s = Inr (s1, on)" "writes fencing a a' s s1"
      using step_writes [OF Cons.prems(1) a] by blast
    have f: "ag_fencing_token a \<le> fencing" using False by simp
    have ok1: "audit_ok s1" by (rule writes_audit [OF Cons.prems(1) a f s1(2)])
    have d: "distinct (map ag_pk (tg_agents s))" using Cons.prems(1) by (simp add: audit_ok_def)
    have k1: "kept fencing (a # as) s s1" by (rule kept_write [OF d a f s1(2)]) simp
    have sub: "set as \<subseteq> set (tg_agents s1)"
    proof
      fix r
      assume "r \<in> set as"
      then have "r \<in> set (tg_agents s)" "ag_pk r \<in> ag_pk ` set as" using tail(1) by auto
      then have "r \<in> set (tg_agents s)" "ag_pk r \<noteq> ag_pk a" using Cons.prems(3) by auto
      then show "r \<in> set (tg_agents s1)" using s1(2) by (force simp: writes_def save_row_def)
    qed
    obtain s' n where s': "track_all step fencing as s1 = Inr (s', n)" "audit_ok s'" "kept fencing as s1 s'"
      using Cons.IH [OF ok1 sub tail(2)] by blast
    have "kept fencing (a # as) s1 s'" by (rule kept_mono [OF s'(3)]) auto
    then show ?thesis using s1(1) s'(1,2) False kept_trans [OF k1] by (simp add: and_then_def split: sum.splits)
  qed
qed

lemma fenced_write_total:
  assumes "audit_ok s"
  shows "\<exists>s' n. fenced_write step fencing s = Inr (s', n) \<and> audit_ok s' \<and> kept fencing (filter tracked (tg_agents s)) s s'"
proof -
  let ?as = "sort_key ag_pk (filter tracked (tg_agents s))"
  have "distinct (map ag_pk ?as)"
  proof -
    have "distinct (map ag_pk (filter tracked (tg_agents s)))" using assms by (auto simp: audit_ok_def distinct_map_filter)
    then show ?thesis by (metis distinct_map distinct_sort set_sort)
  qed
  then obtain s' n where "track_all step fencing ?as s = Inr (s', n)" "audit_ok s'" "kept fencing ?as s s'"
    using track_all_total [OF assms, of ?as] by auto
  then show ?thesis by (auto simp: fenced_write_def intro: kept_mono)
qed

end

lemma audit_fresh:
  assumes "audit_ok s" and "a \<in> set (tg_agents s)" and "r = ag_avail_revision a + 1"
  shows "\<not> (\<exists>d \<in> set (tg_decisions s). dc_agent d = ag_pk a \<and> dc_revision d = r)"
  using assms by (fastforce simp: audit_ok_def audited_def trail_def)

lemma record_audit_eq:
  assumes "audit_ok s" and "a \<in> set (tg_agents s)" and "ag_pk a' = ag_pk a"
    and "ag_avail_revision a' = (if changed then ag_avail_revision a + 1 else ag_avail_revision a)"
  shows "\<exists>s1. record_audit cfg b source a a' changed s = Inr s1 \<and> tg_agents s1 = tg_agents s \<and> tg_lease s1 = tg_lease s \<and>
    tg_decisions s1 = tg_decisions s @ (if changed then [decision_row cfg b a a'] else [])"
proof (cases changed)
  case True
  have "\<not> exists_row (\<lambda>r. dc_agent r = dc_agent (decision_row cfg b a a') \<and> dc_revision r = dc_revision (decision_row cfg b a a')) (tg_decisions s)"
    using audit_fresh [OF assms(1,2)] assms(3,4) True by (auto simp: decision_row_def)
  then show ?thesis using True by (simp add: record_audit_def Let_def)
qed (simp add: record_audit_def Let_def)

lemma written_decision:
  assumes "ag_pk a' = ag_pk a" and "ag_fencing_token a' = bt_fencing b"
    and "ag_avail_revision a' = (if changed then ag_avail_revision a + 1 else ag_avail_revision a)"
  shows "decided (bt_fencing b) a a' (if changed then [decision_row cfg b a a'] else [])"
  using assms by (simp add: decided_def decision_row_def)

interpretation beat_writer: fenced_writer "track_agent cfg sched local_time b items" "bt_fencing b" for cfg sched local_time b items
proof
  fix s a
  assume ok: "audit_ok s" "a \<in> set (tg_agents s)"
  obtain remote ob d0 where r: "read_item cfg sched local_time (bt_now b) a (item_of items a) = (remote, ob, d0)" by (metis prod_cases3)
  obtain d since n where st: "stabilize cfg (bt_now b) a (administrative_veto a d0) = (d, since, n)" by (metis prod_cases3)
  obtain a' logs changed on where a': "beat_agent cfg sched local_time b items a (tg_logs s) = (a', logs, changed, on)" by (metis prod_cases4)
  note f = beat_agent_eq [OF r st a']
  obtain s1 where s1: "record_audit cfg b (if strict_evaluation cfg then ''hubspot_users_reconciliation'' else ''sat_heartbeat'') a a' changed s = Inr s1"
    "tg_agents s1 = tg_agents s" "tg_lease s1 = tg_lease s"
    "tg_decisions s1 = tg_decisions s @ (if changed then [decision_row cfg b a a'] else [])"
    using record_audit_eq [OF ok f(6,8)] by blast
  have "writes (bt_fencing b) a a' s (put_tracked a' logs s1)"
    using written_decision [OF f(6,7,8), of cfg] s1(2-4) f(6) by (auto simp: writes_def put_tracked_def)
  then show "\<exists>a' s' on. track_agent cfg sched local_time b items a s = Inr (s', on) \<and> writes (bt_fencing b) a a' s s'"
    by (auto simp: track_agent_def a' s1(1) and_then_def)
qed

lemma vetoed_agent_eq:
  assumes "vetoed_agent cfg b a logs = (a', logs', changed)"
  shows "ag_pk a' = ag_pk a" "ag_fencing_token a' = bt_fencing b"
    "ag_avail_revision a' = (if changed then ag_avail_revision a + 1 else ag_avail_revision a)"
    "ag_status a' = Away" "ag_elig_state a' = El_Ineligible" "\<not> changed \<Longrightarrow> ag_status a = Away"
proof -
  let ?c = "(Away, decision_state (reject OUTSIDE_WORKING_HOURS), reason_value (reason (reject OUTSIDE_WORKING_HOURS)),
      ag_remote_status a, ag_auto_assign a, ag_is_active a) \<noteq> material_state a"
  have a': "a' = fst (change_status b Away (availability_fields cfg b a (reject OUTSIDE_WORKING_HOURS) None 0 (ag_remote_status a) ?c) logs)"
    and c: "changed = ?c"
    using assms by (auto simp: vetoed_agent_def Let_def split: prod.splits)
  show "ag_pk a' = ag_pk a" "ag_fencing_token a' = bt_fencing b" "ag_status a' = Away" "ag_elig_state a' = El_Ineligible"
    "ag_avail_revision a' = (if changed then ag_avail_revision a + 1 else ag_avail_revision a)"
    by (simp_all add: a' c availability_fields_def decision_state_def reject_def)
  show "\<not> changed \<Longrightarrow> ag_status a = Away" by (simp add: c material_state_def)
qed

lemma save_row_same: "distinct (map key rows) \<Longrightarrow> r \<in> set rows \<Longrightarrow> save_row key r rows = rows"
  unfolding save_row_def by (rule map_idI) (auto simp: distinct_map dest: inj_onD)

interpretation veto_writer: fenced_writer "veto_agent cfg b" "bt_fencing b" for cfg b
proof
  fix s a
  assume ok: "audit_ok s" "a \<in> set (tg_agents s)"
  obtain a' logs changed where v: "vetoed_agent cfg b a (tg_logs s) = (a', logs, changed)" by (metis prod_cases3)
  note f = vetoed_agent_eq [OF v]
  obtain s1 where s1: "record_audit cfg b ''local_business_hours_veto'' a a' changed s = Inr s1"
    "tg_agents s1 = tg_agents s" "tg_lease s1 = tg_lease s"
    "tg_decisions s1 = tg_decisions s @ (if changed then [decision_row cfg b a a'] else [])"
    using record_audit_eq [OF ok f(1,3)] by blast
  show "\<exists>a' s' on. veto_agent cfg b a s = Inr (s', on) \<and> writes (bt_fencing b) a a' s s'"
  proof (cases "changed \<or> veto_refresh_due cfg (bt_now b) a")
    case True
    have "writes (bt_fencing b) a a' s (put_tracked a' logs s1)"
      using written_decision [OF f(1,2,3), of cfg] s1(2-4) f(1) by (auto simp: writes_def put_tracked_def)
    then show ?thesis using True by (auto simp: veto_agent_def v s1(1) and_then_def)
  next
    case False
    have "writes (bt_fencing b) a a s s1"
      using False s1(2-4) ok by (auto simp: writes_def decided_def audit_ok_def save_row_same)
    then show ?thesis using False s1(1) by (auto simp: veto_agent_def v and_then_def)
  qed
qed

text \<open>Runs of any number of workers: attempts at the lease, releases, writes of a heartbeat under a
  generation drawn earlier (whether or not its lease has run out meanwhile) and daily resets.\<close>

inductive sat_step :: "settings \<Rightarrow> schedule_parser \<Rightarrow> (string \<Rightarrow> instant \<Rightarrow> int \<times> int) \<Rightarrow> tracking \<Rightarrow> tracking \<Rightarrow> bool"
  for cfg sched local_time where
  acquire: "sat_step cfg sched local_time s (s\<lparr>tg_lease := fst (acquire_reconciliation_lease cfg token now (tg_lease s))\<rparr>)"
| release: "sat_step cfg sched local_time s (s\<lparr>tg_lease := fst (release_reconciliation_lease token (tg_lease s))\<rparr>)"
| heartbeat: "bt_fencing b \<le> ls_generation (lease_row (tg_lease s)) \<Longrightarrow> heartbeat_write cfg sched local_time b items s = Inr (s', n) \<Longrightarrow>
    sat_step cfg sched local_time s s'"
| off_hours: "bt_fencing b \<le> ls_generation (lease_row (tg_lease s)) \<Longrightarrow> off_hours_write cfg b s = Inr (s', n) \<Longrightarrow>
    sat_step cfg sched local_time s s'"
| reset: "sat_step cfg sched local_time s (fst (sat_reset_daily_counters cfg now day s))"

inductive_cases sat_stepE [consumes 1, case_names acquire release heartbeat off_hours reset]: "sat_step cfg sched local_time s s'"

definition sat_inv :: "tracking \<Rightarrow> bool" where
  "sat_inv s \<longleftrightarrow> audit_ok s \<and> (\<forall>a \<in> set (tg_agents s). ag_fencing_token a \<le> ls_generation (lease_row (tg_lease s)))"

definition forward :: "tracking \<Rightarrow> tracking \<Rightarrow> bool" where
  "forward s s' \<longleftrightarrow> ls_generation (lease_row (tg_lease s)) \<le> ls_generation (lease_row (tg_lease s')) \<and>
     map ag_pk (tg_agents s') = map ag_pk (tg_agents s) \<and>
     (\<forall>r \<in> set (tg_agents s). \<exists>r' \<in> set (tg_agents s'). ag_pk r' = ag_pk r \<and> ag_avail_revision r \<le> ag_avail_revision r' \<and>
        ag_fencing_token r \<le> ag_fencing_token r')"

lemma forward_refl: "forward s s"
  by (auto simp: forward_def)

lemma forward_trans:
  assumes "forward s s'" and "forward s' s''"
  shows "forward s s''"
proof -
  have "\<exists>r'' \<in> set (tg_agents s''). ag_pk r'' = ag_pk r \<and> ag_avail_revision r \<le> ag_avail_revision r'' \<and> ag_fencing_token r \<le> ag_fencing_token r''"
    if r: "r \<in> set (tg_agents s)" for r
  proof -
    obtain r' where r': "r' \<in> set (tg_agents s')" "ag_pk r' = ag_pk r" "ag_avail_revision r \<le> ag_avail_revision r'"
      "ag_fencing_token r \<le> ag_fencing_token r'"
      using assms(1) r unfolding forward_def by blast
    obtain r'' where "r'' \<in> set (tg_agents s'')" "ag_pk r'' = ag_pk r'" "ag_avail_revision r' \<le> ag_avail_revision r''"
      "ag_fencing_token r' \<le> ag_fencing_token r''"
      using assms(2) r'(1) unfolding forward_def by blast
    then show ?thesis using r' by (intro bexI [of _ r'']) auto
  qed
  then show ?thesis using assms by (simp add: forward_def)
qed

lemma generation_grows:
  "ls_generation (lease_row l) \<le> ls_generation (lease_row (fst (acquire_reconciliation_lease cfg token now l)))"
  "ls_generation (lease_row (fst (release_reconciliation_lease token l))) = ls_generation (lease_row l)"
proof -
  show "ls_generation (lease_row l) \<le> ls_generation (lease_row (fst (acquire_reconciliation_lease cfg token now l)))"
    by (auto simp: acquire_reconciliation_lease_def Let_def lease_row_def)
  show "ls_generation (lease_row (fst (release_reconciliation_lease token l))) = ls_generation (lease_row l)"
    by (simp add: release_row)
qed

lemma trail_lease [simp]: "trail g (s\<lparr>tg_lease := l\<rparr>) = trail g s"
  by (simp add: trail_def)

lemma audit_ok_lease [simp]: "audit_ok (s\<lparr>tg_lease := l\<rparr>) = audit_ok s"
  by (simp add: audit_ok_def audited_def)

lemma reset_fields [simp]:
  "ag_pk (reset_agent now a) = ag_pk a" "ag_avail_revision (reset_agent now a) = ag_avail_revision a"
  "ag_fencing_token (reset_agent now a) = ag_fencing_token a"
  by (simp_all add: reset_agent_def)

lemma reset_step:
  "let s' = fst (sat_reset_daily_counters cfg now day s)
   in tg_lease s' = tg_lease s \<and> tg_decisions s' = tg_decisions s \<and> (\<exists>P. tg_agents s' = update_rows P (reset_agent now) (tg_agents s))"
proof (cases "may_write_routing_state cfg")
  case True
  then show ?thesis by (auto simp: sat_reset_daily_counters_def)
next
  case False
  then show ?thesis by (auto simp: sat_reset_daily_counters_def update_rows_def intro!: exI [of _ "\<lambda>_. False"])
qed

lemma kept_forward:
  assumes "sat_inv s" and "audit_ok s'" and "kept fencing as s s'" and "fencing \<le> ls_generation (lease_row (tg_lease s))"
  shows "sat_inv s' \<and> forward s s'"
proof -
  have k: "tg_lease s' = tg_lease s" "map ag_pk (tg_agents s') = map ag_pk (tg_agents s)"
    and g: "\<And>r. r \<in> set (tg_agents s) \<Longrightarrow> \<exists>r' \<in> set (tg_agents s'). ag_pk r' = ag_pk r \<and> ag_avail_revision r \<le> ag_avail_revision r' \<and>
        ag_fencing_token r \<le> ag_fencing_token r' \<and> (ag_fencing_token r' = ag_fencing_token r \<or> ag_fencing_token r' = fencing)"
    using assms(3) by (auto simp: kept_def)
  have "ag_fencing_token r' \<le> ls_generation (lease_row (tg_lease s))" if r': "r' \<in> set (tg_agents s')" for r'
  proof -
    have "ag_pk r' \<in> set (map ag_pk (tg_agents s))" using r' k(2) by (metis image_eqI set_map)
    then obtain r where r: "r \<in> set (tg_agents s)" "ag_pk r = ag_pk r'" by auto
    obtain q where q: "q \<in> set (tg_agents s')" "ag_pk q = ag_pk r" "ag_fencing_token q = ag_fencing_token r \<or> ag_fencing_token q = fencing"
      using g [OF r(1)] by blast
    have "q = r'"
      using q(1,2) r(2) r' assms(2) by (metis audit_ok_def get_row_distinct option.inject)
    then show ?thesis using q(3) assms(1,4) r(1) by (auto simp: sat_inv_def)
  qed
  moreover have "forward s s'" unfolding forward_def using k g by (metis order_refl)
  ultimately show ?thesis using assms(2) k(1) by (simp add: sat_inv_def)
qed

lemma sat_step_keeps:
  assumes "sat_inv s" and "sat_step cfg sched local_time s s'"
  shows "sat_inv s' \<and> forward s s'"
  using assms(2)
proof (cases rule: sat_stepE)
  case (acquire token now)
  then show ?thesis using assms(1) generation_grows(1) [of "tg_lease s" cfg token now] unfolding sat_inv_def forward_def
    by (auto intro: order_trans)
next
  case (release token)
  then show ?thesis using assms(1) by (auto simp: sat_inv_def forward_def generation_grows(2))
next
  case (heartbeat b items n)
  have "audit_ok s" using assms(1) by (simp add: sat_inv_def)
  then obtain t m where "fenced_write (track_agent cfg sched local_time b items) (bt_fencing b) s = Inr (t, m)" "audit_ok t"
      "kept (bt_fencing b) (filter tracked (tg_agents s)) s t"
    using beat_writer.fenced_write_total by blast
  then show ?thesis using kept_forward [OF assms(1) _ _ heartbeat(1)] heartbeat(2)
    by (auto simp: heartbeat_write_def and_then_def split: if_splits)
next
  case (off_hours b n)
  have "audit_ok s" using assms(1) by (simp add: sat_inv_def)
  then obtain t m where "off_hours_write cfg b s = Inr (t, m)" "audit_ok t"
      "kept (bt_fencing b) (filter tracked (tg_agents s)) s t"
    unfolding off_hours_write_def using veto_writer.fenced_write_total by blast
  then show ?thesis using kept_forward [OF assms(1) _ _ off_hours(1)] off_hours(2) by auto
next
  case (reset now day)
  let ?s' = "fst (sat_reset_daily_counters cfg now day s)"
  have r: "tg_lease ?s' = tg_lease s" "tg_decisions ?s' = tg_decisions s"
    using reset_step [of cfg now day s] by (auto simp: Let_def)
  obtain P where P: "tg_agents ?s' = update_rows P (reset_agent now) (tg_agents s)"
    using reset_step [of cfg now day s] by (auto simp: Let_def)
  have "audited (reset_agent now a) ?s'" "audited a ?s'" if "audited a s" for a
    using that by (auto simp: audited_def trail_def r(2))
  then have "sat_inv ?s'" using assms(1) by (auto simp: sat_inv_def audit_ok_def r(1) P dest!: in_update_rows)
  moreover have "\<exists>r' \<in> set (tg_agents ?s'). ag_pk r' = ag_pk q \<and> ag_avail_revision q \<le> ag_avail_revision r' \<and>
      ag_fencing_token q \<le> ag_fencing_token r'" if "q \<in> set (tg_agents s)" for q
    using that by (intro bexI [of _ "if P q then reset_agent now q else q"]) (auto simp: P update_rows_def)
  then have "forward s ?s'" using r(1) P by (simp add: forward_def)
  ultimately show ?thesis using reset by simp
qed

lemma sat_steps_keep:
  assumes "(sat_step cfg sched local_time)\<^sup>*\<^sup>* s s'" and "sat_inv s"
  shows "sat_inv s' \<and> forward s s'"
  using assms
proof (induction rule: rtranclp_induct)
  case base
  then show ?case by (simp add: forward_refl)
next
  case (step t t')
  then show ?case using sat_step_keeps [of t cfg sched local_time t'] forward_trans by blast
qed

text \<open>C26: the fence.  However workers acquire, lose and release the lease, write with a generation drawn
  earlier and reset the counters, revisions and generations of an agent never decrease, its audit trail
  has strictly increasing revisions, and a write leaves every agent that is untracked or written under
  a later generation exactly as it is.  A heartbeat fails only when two agents would get one provider
  user, the off-hours veto never.\<close>

theorem availability_fencing:
  assumes "(sat_step cfg sched local_time)\<^sup>*\<^sup>* s s'" and "sat_inv s"
  shows "sat_inv s' \<and> forward s s' \<and>
    (\<exists>t n. heartbeat_write cfg sched local_time b items s' = (if distinct_users t then Inr (t, n) else Inl IntegrityError) \<and>
       kept (bt_fencing b) (filter tracked (tg_agents s')) s' t \<and> audit_ok t) \<and>
    (\<exists>t n. off_hours_write cfg b s' = Inr (t, n) \<and>
       kept (bt_fencing b) (filter tracked (tg_agents s')) s' t \<and> audit_ok t)"
proof -
  have s': "sat_inv s'" "forward s s'" using sat_steps_keep [OF assms] by auto
  have ok: "audit_ok s'" using s'(1) by (simp add: sat_inv_def)
  obtain t n where "fenced_write (track_agent cfg sched local_time b items) (bt_fencing b) s' = Inr (t, n)" "audit_ok t"
      "kept (bt_fencing b) (filter tracked (tg_agents s')) s' t"
    using beat_writer.fenced_write_total [OF ok] by blast
  then have "\<exists>t n. heartbeat_write cfg sched local_time b items s' = (if distinct_users t then Inr (t, n) else Inl IntegrityError) \<and>
       kept (bt_fencing b) (filter tracked (tg_agents s')) s' t \<and> audit_ok t"
    by (auto simp: heartbeat_write_def and_then_def)
  moreover have "\<exists>t n. off_hours_write cfg b s' = Inr (t, n) \<and>
       kept (bt_fencing b) (filter tracked (tg_agents s')) s' t \<and> audit_ok t"
    unfolding off_hours_write_def using veto_writer.fenced_write_total [OF ok] by blast
  ultimately show ?thesis using s' by blast
qed

section \<open>The daily counters\<close>

datatype visit = Beat_Visit beat "remote_item list" | Veto_Visit beat

fun visited_at :: "visit \<Rightarrow> instant" where
  "visited_at (Beat_Visit b items) = bt_now b"
| "visited_at (Veto_Visit b) = bt_now b"

fun visit_agent ::
  "settings \<Rightarrow> schedule_parser \<Rightarrow> (string \<Rightarrow> instant \<Rightarrow> int \<times> int) \<Rightarrow> visit \<Rightarrow> agent \<times> daily_log list \<Rightarrow> agent \<times> daily_log list" where
  "visit_agent cfg sched local_time (Beat_Visit b items) (a, logs) =
     (let (a', logs', changed, on) = beat_agent cfg sched local_time b items a logs in (a', logs'))"
| "visit_agent cfg sched local_time (Veto_Visit b) (a, logs) = (let (a', logs', changed) = vetoed_agent cfg b a logs in (a', logs'))"

text \<open>What an agent's counters amount to after \<open>n\<close> visits since they were reset at \<open>t0\<close>.\<close>

definition counted :: "instant \<Rightarrow> nat \<Rightarrow> instant \<Rightarrow> agent \<Rightarrow> bool" where
  "counted t0 n now a \<longleftrightarrow> ag_status a \<in> {Online, Away, Busy} \<and> 0 \<le> ag_online_secs a \<and> 0 \<le> ag_away_secs a \<and>
     (\<exists>t. ag_last_status_change_at a = Some t \<and> t0 \<le> t \<and> t \<le> now \<and>
        ag_online_secs a + ag_away_secs a \<le> elapsed_seconds t0 t \<and>
        elapsed_seconds t0 t \<le> ag_online_secs a + ag_away_secs a + int n)"

lemma elapsed_split:
  "elapsed_seconds t0 t + elapsed_seconds t now \<le> elapsed_seconds t0 now"
  "elapsed_seconds t0 now \<le> elapsed_seconds t0 t + elapsed_seconds t now + 1"
  by (simp_all add: elapsed_seconds_def)

lemma elapsed_nonneg: "t \<le> now \<Longrightarrow> 0 \<le> elapsed_seconds t now"
  by (simp add: elapsed_seconds_def)

lemma accumulate_counts:
  assumes "ag_last_status_change_at a = Some t" and "t \<le> now"
  shows "ag_online_secs (fst (sat_accumulate_time today old now a logs)) =
      ag_online_secs a + (if old = Online then elapsed_seconds t now else 0)"
    and "ag_away_secs (fst (sat_accumulate_time today old now a logs)) =
      ag_away_secs a + (if old = Away \<or> old = Busy then elapsed_seconds t now else 0)"
  using elapsed_nonneg [OF assms(2)] by (auto simp: sat_accumulate_time_def assms(1) Let_def credit_agent_def)

lemma change_status_counts:
  assumes "counted t0 n now a" and "now \<le> bt_now b" and "st \<in> {Online, Away, Busy}"
  shows "counted t0 (Suc n) (bt_now b) (fst (change_status b st a logs))"
proof -
  obtain t where t: "ag_last_status_change_at a = Some t" "t0 \<le> t" "t \<le> now"
      "ag_online_secs a + ag_away_secs a \<le> elapsed_seconds t0 t" "elapsed_seconds t0 t \<le> ag_online_secs a + ag_away_secs a + int n"
    and a: "ag_status a \<in> {Online, Away, Busy}" "0 \<le> ag_online_secs a" "0 \<le> ag_away_secs a"
    using assms(1) by (auto simp: counted_def)
  have le: "t \<le> bt_now b" using t(3) assms(2) by simp
  show ?thesis
  proof (cases "ag_status a = st")
    case True
    then show ?thesis using t a le by (auto simp: change_status_def counted_def)
  next
    case False
    obtain a' logs' where acc: "sat_accumulate_time (bt_today b) (ag_status a) (bt_now b) a logs = (a', logs')" by fastforce
    have sum: "ag_online_secs a' + ag_away_secs a' = ag_online_secs a + ag_away_secs a + elapsed_seconds t (bt_now b)"
      and pos: "0 \<le> ag_online_secs a'" "0 \<le> ag_away_secs a'"
      using accumulate_counts [OF t(1) le, of "bt_today b" "ag_status a" logs] acc a elapsed_nonneg [OF le] by auto
    have "fst (change_status b st a logs) = a'\<lparr>ag_status := st, ag_last_status_change_at := Some (bt_now b)\<rparr>"
      using False acc by (simp add: change_status_def)
    then show ?thesis
      using assms(3) pos sum t(2,4,5) le elapsed_split(1) [of t0 t "bt_now b"] elapsed_split(2) [of t0 "bt_now b" t]
      by (simp add: counted_def)
  qed
qed

lemma counted_fields:
  assumes "counted t0 n now a" "ag_status a' = ag_status a" "ag_online_secs a' = ag_online_secs a" "ag_away_secs a' = ag_away_secs a"
    "ag_last_status_change_at a' = ag_last_status_change_at a"
  shows "counted t0 n now a'"
  using assms by (simp add: counted_def)

lemma visit_counts:
  assumes "counted t0 n now a" and "now \<le> visited_at v"
  shows "counted t0 (Suc n) (visited_at v) (fst (visit_agent cfg sched local_time v (a, logs)))"
proof (cases v)
  case (Beat_Visit b items)
  obtain remote ob d0 where r: "read_item cfg sched local_time (bt_now b) a (item_of items a) = (remote, ob, d0)" by (metis prod_cases3)
  obtain d since n' where st: "stabilize cfg (bt_now b) a (administrative_veto a d0) = (d, since, n')" by (metis prod_cases3)
  let ?st = "next_status cfg d remote"
  obtain a1 where a1: "fst (visit_agent cfg sched local_time v (a, logs)) = fst (change_status b ?st a1 logs)"
    and same: "ag_status a1 = ag_status a" "ag_online_secs a1 = ag_online_secs a" "ag_away_secs a1 = ag_away_secs a"
      "ag_last_status_change_at a1 = ag_last_status_change_at a"
    by (rule that [of "(availability_fields cfg b a d since n' remote
          ((?st, decision_state d, reason_value (reason d), remote, ag_auto_assign a, ag_is_active a) \<noteq> material_state a))
          \<lparr>ag_observed_at := Some (bt_now b), ag_user_id := (case ob of None \<Rightarrow> ag_user_id a | Some o' \<Rightarrow> Some (ob_user_id o'))\<rparr>"])
      (simp_all add: Beat_Visit beat_agent_def r st Let_def availability_fields_def split: prod.split)
  have "?st \<in> {Online, Away, Busy}" by (simp add: next_status_def)
  from change_status_counts [OF counted_fields [OF assms(1) same] _ this] show ?thesis
    using assms(2) a1 by (simp add: Beat_Visit)
next
  case (Veto_Visit b)
  obtain a1 where a1: "fst (visit_agent cfg sched local_time v (a, logs)) = fst (change_status b Away a1 logs)"
    and same: "ag_status a1 = ag_status a" "ag_online_secs a1 = ag_online_secs a" "ag_away_secs a1 = ag_away_secs a"
      "ag_last_status_change_at a1 = ag_last_status_change_at a"
    by (rule that [of "availability_fields cfg b a (reject OUTSIDE_WORKING_HOURS) None 0 (ag_remote_status a)
          ((Away, decision_state (reject OUTSIDE_WORKING_HOURS), reason_value (reason (reject OUTSIDE_WORKING_HOURS)),
            ag_remote_status a, ag_auto_assign a, ag_is_active a) \<noteq> material_state a)"])
      (simp_all add: Veto_Visit vetoed_agent_def Let_def availability_fields_def split: prod.split)
  from change_status_counts [OF counted_fields [OF assms(1) same]] show ?thesis
    using assms(2) a1 by (simp add: Veto_Visit)
qed

lemma visits_count:
  assumes "counted t0 n now a" and "sorted (now # map visited_at vs)"
  shows "counted t0 (n + length vs) (last (now # map visited_at vs)) (fst (fold (visit_agent cfg sched local_time) vs (a, logs)))"
  using assms
proof (induction vs arbitrary: n now a logs)
  case Nil
  then show ?case by simp
next
  case (Cons v vs)
  obtain a' logs' where v: "visit_agent cfg sched local_time v (a, logs) = (a', logs')" by fastforce
  have "counted t0 (Suc n) (visited_at v) a'" using visit_counts [OF Cons.prems(1), of v cfg sched local_time logs] Cons.prems(2) v by simp
  from Cons.IH [OF this, of logs'] show ?case using Cons.prems(2) v by simp
qed

text \<open>The daily counters.  From a reset on, under any heartbeats and vetoes in the order of their
  times, online and away seconds stay non-negative, their sum never exceeds the elapsed time, and the
  flush of the end of the day misses less than one second for every visit and one for itself.\<close>

theorem daily_counters_bounded:
  assumes "ag_status a \<in> {Online, Away, Busy}" and "sorted (t0 # map visited_at vs @ [now])"
  shows "let f = flush_agent now (fst (fold (visit_agent cfg sched local_time) vs (reset_agent t0 a, logs)))
    in 0 \<le> ag_online_secs f \<and> 0 \<le> ag_away_secs f \<and> ag_online_secs f + ag_away_secs f \<le> elapsed_seconds t0 now \<and>
       elapsed_seconds t0 now \<le> ag_online_secs f + ag_away_secs f + int (length vs) + 1"
proof -
  let ?a = "fst (fold (visit_agent cfg sched local_time) vs (reset_agent t0 a, logs))"
  have sorted: "sorted (t0 # map visited_at vs)" "\<forall>x \<in> set (t0 # map visited_at vs). x \<le> now"
    using assms(2) sorted_append [of "t0 # map visited_at vs" "[now]"] by auto
  moreover have "last (t0 # map visited_at vs) \<in> set (t0 # map visited_at vs)" by (rule last_in_set) simp
  ultimately have le: "last (t0 # map visited_at vs) \<le> now" by blast
  have "counted t0 0 t0 (reset_agent t0 a)" using assms(1) by (simp add: counted_def reset_agent_def elapsed_seconds_def)
  from visits_count [OF this sorted(1)] le obtain t where
    t: "ag_last_status_change_at ?a = Some t" "t \<le> now" "ag_online_secs ?a + ag_away_secs ?a \<le> elapsed_seconds t0 t"
      "elapsed_seconds t0 t \<le> ag_online_secs ?a + ag_away_secs ?a + int (length vs)"
    and a: "ag_status ?a \<in> {Online, Away, Busy}" "0 \<le> ag_online_secs ?a" "0 \<le> ag_away_secs ?a"
    by (fastforce simp: counted_def)
  have "ag_online_secs (flush_agent now ?a) + ag_away_secs (flush_agent now ?a) =
      ag_online_secs ?a + ag_away_secs ?a + elapsed_seconds t now"
    and "0 \<le> ag_online_secs (flush_agent now ?a)" "0 \<le> ag_away_secs (flush_agent now ?a)"
    using a t(1) elapsed_nonneg [OF t(2)] by (auto simp: flush_agent_def Let_def credit_agent_def)
  then show ?thesis
    using t(3,4) elapsed_split(1) [of t0 t now] elapsed_split(2) [of t0 now t] unfolding Let_def by linarith
qed

text \<open>A change of status between midnight and the reset is counted twice: in the log of the new day,
  written as it happens, and in the snapshot of the old one.\<close>

lemma change_before_reset_counts_twice:
  assumes "ag_last_status_change_at a = Some t" and "elapsed_seconds t now = delta" and "0 < delta" and "ag_status a = Online"
    and "ag_online_secs a = 0" and "ag_away_secs a = 0" and "bt_now b = now" and "bt_today b = today"
  shows "let (a', logs) = change_status b Away a []
    in dl_online (hd logs) = delta \<and> log_key (hd logs) = (ag_pk a, today) \<and>
       map dl_online (snapshot_day (today - 1) (flush_agent now a') logs) = [delta, delta]"
  using assms by (auto simp: change_status_def sat_accumulate_time_def Let_def credit_agent_def ensure_log_def get_row_def blank_log_day_def
      log_key_def update_rows_def credit_log_def flush_agent_def elapsed_seconds_def snapshot_day_def)

section \<open>Witnesses\<close>

definition demo_beat :: "instant \<Rightarrow> int \<Rightarrow> beat" where
  "demo_beat t g = \<lparr>bt_now = t, bt_today = 0, bt_task = ''t'', bt_fencing = g\<rparr>"

definition demo_item :: remote_item where
  "demo_item = \<lparr>it_user = ''u'', it_email = ''a@x'', it_status = ''Available'', it_online = True, it_absences = [], it_hours = [], it_zone = []\<rparr>"

definition demo_sched :: schedule_parser where
  "demo_sched i = Some ([], [\<lparr>ww_days = ''EVERY_DAY'', ww_start = 0, ww_end = 1440\<rparr>], Some ''UTC'')"

definition demo_tracking :: tracking where
  "demo_tracking = \<lparr>tg_agents = [(demo_agent 1 10)\<lparr>ag_fencing_token := 0\<rparr>], tg_lease = None, tg_decisions = [], tg_history = [], tg_logs = []\<rparr>"

definition shadow_cfg :: settings where
  "shadow_cfg = demo_cfg\<lparr>availability_stable_seconds := 30\<rparr>"

theorem availability_lease_excludes_witness:
  "let l = fst (acquire_reconciliation_lease demo_cfg ''p'' 0 None)
   in snd (acquire_reconciliation_lease demo_cfg ''q'' 20
        (fst (release_reconciliation_lease ''q'' (fst (acquire_reconciliation_lease demo_cfg ''q'' 10 l))))) = None"
proof -
  have "acquire_reconciliation_lease demo_cfg ''p'' 0 None = (fst (acquire_reconciliation_lease demo_cfg ''p'' 0 None), Some 1)" by code_simp
  from availability_lease_excludes [OF this, of 30 "[Inl (''q'', 10), Inr (''q'', 15)]" "''q''" 20]
  show ?thesis by (simp add: Let_def demo_cfg_def seconds_def)
qed

definition cold_agent :: agent where
  "cold_agent = (demo_agent 1 10)\<lparr>ag_online_since := None, ag_sample_count := 0, ag_elig_state := El_Ineligible, ag_status := Away\<rparr>"

theorem stabilization_refines_witness:
  "let a = cold_agent; lt = (\<lambda>_ _. (0, 0));
       a1 = fst (beat_agent shadow_cfg demo_sched lt (demo_beat 0 1) [demo_item] a []);
       a2 = fst (beat_agent shadow_cfg demo_sched lt (demo_beat 30000000 1) [demo_item] a1 [])
   in represents a [] \<and> ag_status a1 = Away \<and> represents a2 [(30000000, True), (0, True)] \<and> ag_status a2 = Online \<and>
      ag_elig_state a2 = El_Eligible"
proof -
  let ?lt = "\<lambda>_ _. (0, 0)"
  let ?a1 = "fst (beat_agent shadow_cfg demo_sched ?lt (demo_beat 0 1) [demo_item] cold_agent [])"
  have strict: "strict_evaluation shadow_cfg" "absence_safe_enforced shadow_cfg" by code_simp+
  have a: "represents cold_agent []" by code_simp
  have s1: "sighting shadow_cfg demo_sched ?lt (demo_beat 0 1) [demo_item] cold_agent = (0, True)"
    and s2: "sighting shadow_cfg demo_sched ?lt (demo_beat 30000000 1) [demo_item] ?a1 = (30000000, True)" by code_simp+
  have one: "represents ?a1 [(0, True)]"
    using stabilization_refines [OF a, of shadow_cfg demo_sched ?lt "demo_beat 0 1" "[demo_item]" "[]" "demo_beat 0 1"]
    by (simp add: Let_def s1 strict(1))
  have run: "stable_run shadow_cfg [(30000000, True), (0, True)]" "\<not> stable_run shadow_cfg [(0, True)]" by code_simp+
  have "ag_status ?a1 = Away" by code_simp
  then show ?thesis
    using stabilization_refines [OF one, of shadow_cfg demo_sched ?lt "demo_beat 30000000 1" "[demo_item]" "[]" "demo_beat 0 1"] strict run a
    by (simp add: Let_def s2)
qed

theorem availability_fencing_witness:
  "let cfg = demo_cfg; lt = (\<lambda>_ _. (0, 0)); s = demo_tracking\<lparr>tg_lease := fst (acquire_reconciliation_lease cfg ''p'' 0 None)\<rparr>
   in sat_inv demo_tracking \<and> (\<exists>t n. off_hours_write cfg (demo_beat 5 1) s = Inr (t, n) \<and> audit_ok t \<and>
        map ag_fencing_token (tg_agents t) = [1] \<and> map dc_revision (tg_decisions t) = [2])"
proof -
  let ?lt = "\<lambda>_ _. (0, 0)"
  let ?s = "demo_tracking\<lparr>tg_lease := fst (acquire_reconciliation_lease demo_cfg ''p'' 0 None)\<rparr>"
  have inv: "sat_inv demo_tracking" by code_simp
  have "sat_step demo_cfg demo_sched ?lt demo_tracking
      (demo_tracking\<lparr>tg_lease := fst (acquire_reconciliation_lease demo_cfg ''p'' 0 (tg_lease demo_tracking))\<rparr>)" by (rule sat_step.acquire)
  then have "(sat_step demo_cfg demo_sched ?lt)\<^sup>*\<^sup>* demo_tracking ?s" by (simp add: demo_tracking_def)
  from availability_fencing [OF this inv, of "demo_beat 5 1" "[]"] obtain t n where
    t: "off_hours_write demo_cfg (demo_beat 5 1) ?s = Inr (t, n)" "audit_ok t" by blast
  have "(case off_hours_write demo_cfg (demo_beat 5 1) ?s of Inl e \<Rightarrow> False
      | Inr (t, n) \<Rightarrow> map ag_fencing_token (tg_agents t) = [1] \<and> map dc_revision (tg_decisions t) = [2])" by code_simp
  then show ?thesis using t inv by (simp add: Let_def)
qed

theorem daily_counters_bounded_witness:
  "let f = flush_agent 90500000 (fst (fold (visit_agent shadow_cfg demo_sched (\<lambda>_ _. (0, 0)))
      [Beat_Visit (demo_beat 30500000 1) [demo_item], Veto_Visit (demo_beat 60000000 1)] (reset_agent 0 (demo_agent 1 10), [])))
   in ag_online_secs f + ag_away_secs f \<le> 90 \<and> 90 \<le> ag_online_secs f + ag_away_secs f + 3"
  using daily_counters_bounded [of "demo_agent 1 10" 0
      "[Beat_Visit (demo_beat 30500000 1) [demo_item], Veto_Visit (demo_beat 60000000 1)]" 90500000 shadow_cfg demo_sched "\<lambda>_ _. (0, 0)"]
  by (simp add: demo_agent_def demo_beat_def elapsed_seconds_def Let_def)

text \<open>An item without provider user, found by its address, writes the empty user; two of them collide and
  the whole heartbeat fails.\<close>

lemma empty_users_collide:
  "heartbeat_write shadow_cfg demo_sched (\<lambda>_ _. (0, 0)) (demo_beat 0 1)
     [demo_item\<lparr>it_user := []\<rparr>, demo_item\<lparr>it_user := [], it_email := ''b@x''\<rparr>]
     (demo_tracking\<lparr>tg_agents := [demo_agent 1 10, (demo_agent 2 20)\<lparr>ag_email := ''b@x'', ag_user_id := Some ''v''\<rparr>]\<rparr>) = Inl IntegrityError"
  by code_simp

end
