(* ===== verification/Opening_Cohort.thy ===== *)
theory Opening_Cohort
  imports Eligibility
begin

text \<open>
  The opening-window barrier, \<open>apps/support/opening_cohort_service.py\<close>: while agents seen at the
  opening of a window are still stabilizing, the backlog of the night is held back, at most
  until a deadline frozen when the cohort is created.

  The start of the operational window at \<open>now\<close> is an argument (\<open>None\<close>: no window), as is the
  cohort a concurrent transaction inserts first.  Metrics and log lines are left out; the
  callback published on commit is the stamp \<open>callback_scheduled_at\<close>.
\<close>

datatype barrier_outcome =
  Not_Applicable | Shadow_Would_Defer | Deferred | Released_All_Settled | Released_Deadline

record barrier_decision =
  bd_outcome :: barrier_outcome
  bd_cohort :: "uuid option"
  bd_recheck :: "instant option"
  bd_released_now :: bool

definition is_deferred :: "barrier_decision \<Rightarrow> bool" where
  "is_deferred b = (bd_outcome b = Deferred)"

definition decide :: "barrier_outcome \<Rightarrow> cohort \<Rightarrow> barrier_decision" where
  "decide out co = \<lparr>bd_outcome = out, bd_cohort = Some (co_pk co), bd_recheck = Some (co_recheck_at co),
     bd_released_now = False\<rparr>"

definition not_applicable :: barrier_decision where
  "not_applicable = \<lparr>bd_outcome = Not_Applicable, bd_cohort = None, bd_recheck = None, bd_released_now = False\<rparr>"

definition recheck_jitter_seconds :: int where
  "recheck_jitter_seconds = 2"

section \<open>Creating a cohort\<close>

definition is_candidate :: "settings \<Rightarrow> agent \<Rightarrow> bool" where
  "is_candidate cfg a \<longleftrightarrow>
     ag_is_active a \<noteq> Some False \<and> ag_auto_assign a \<and> opt_truthy (ag_user_id a) \<and>
     ag_chats a < max_chats_coalesced a \<and>
     (ag_elig_state a = El_Eligible \<or> ag_elig_reason a = ''stabilizing'') \<and>
     (is_automatic_assignment_canary_configured cfg \<longrightarrow>
        ag_pk a \<in> set (automatic_assignment_canary_agent_ids cfg))"

definition candidate_snapshots :: "settings \<Rightarrow> db \<Rightarrow> agent list" where
  "candidate_snapshots cfg d = sort_key ag_pk (filter (is_candidate cfg) (db_agents d))"

fun least :: "int list \<Rightarrow> int" where
  "least [] = 0"
| "least (x # xs) = fold min xs x"

fun greatest :: "int list \<Rightarrow> int" where
  "greatest [] = 0"
| "greatest (x # xs) = fold max xs x"

definition cohort_observed_at :: "instant \<Rightarrow> agent list \<Rightarrow> instant \<Rightarrow> instant" where
  "cohort_observed_at start agents now =
     (if list_ex (\<lambda>a. ag_online_since a = None) agents then now
      else max start (least (List.map_filter ag_online_since agents)))"

definition stabilizing_eta :: "settings \<Rightarrow> agent list \<Rightarrow> instant \<Rightarrow> instant" where
  "stabilizing_eta cfg agents now =
     greatest (map (\<lambda>a. (case ag_online_since a of None \<Rightarrow> now | Some t \<Rightarrow> t) +
       seconds (availability_stable_seconds cfg)) agents)"

definition new_cohort :: "settings \<Rightarrow> uuid \<Rightarrow> instant \<Rightarrow> agent list \<Rightarrow> instant \<Rightarrow> cohort option" where
  "new_cohort cfg k start agents now =
     (let ready = filter (\<lambda>a. ag_elig_state a = El_Eligible) agents;
          stabilizing = filter (\<lambda>a. ag_elig_reason a = ''stabilizing'') agents
      in if ready = [] \<or> stabilizing = [] then None
         else
           (let observed = cohort_observed_at start agents now;
                deadline = observed + seconds (availability_stable_seconds cfg + sat_heartbeat_interval_seconds cfg)
            in if deadline \<le> now then None
               else Some \<lparr>co_pk = k, co_window_started_at = start, co_observed_at = observed,
                  co_recheck_at = min deadline
                    (max now (stabilizing_eta cfg stabilizing now) + seconds recheck_jitter_seconds),
                  co_deadline_at = deadline, co_members = map ag_pk agents,
                  co_initial_eligible = length ready, co_initial_stabilizing = length stabilizing,
                  co_state = Cohort_Active, co_release_reason = No_Reason, co_callback_at = None,
                  co_released_at = None\<rparr>))"

definition cohort_for :: "instant \<Rightarrow> db \<Rightarrow> cohort option" where
  "cohort_for start d = get_row co_window_started_at start (db_cohorts d)"

text \<open>\<open>racing\<close>: the cohort another transaction commits between the lookup and the insert.\<close>

definition locked_get_or_create ::
  "settings \<Rightarrow> instant \<Rightarrow> agent list \<Rightarrow> instant \<Rightarrow> cohort option \<Rightarrow> db \<Rightarrow> db \<times> (cohort \<times> bool) option" where
  "locked_get_or_create cfg start agents now racing d =
     (case cohort_for start d of
        Some co \<Rightarrow> (d, Some (co, False))
      | None \<Rightarrow>
          (case new_cohort cfg (db_next_pk d) start agents now of
             None \<Rightarrow> (d, None)
           | Some co \<Rightarrow>
               (case racing of
                  Some other \<Rightarrow> (d\<lparr>db_cohorts := db_cohorts d @ [other]\<rparr>, Some (other, False))
                | None \<Rightarrow> (d\<lparr>db_cohorts := db_cohorts d @ [co], db_next_pk := Suc (db_next_pk d)\<rparr>, Some (co, True)))))"

section \<open>Releasing\<close>

definition release_cohort :: "cohort \<Rightarrow> release_reason \<Rightarrow> instant \<Rightarrow> db \<Rightarrow> db" where
  "release_cohort co why now d =
     put_cohort (co\<lparr>co_state := Cohort_Released, co_release_reason := why, co_released_at := Some now\<rparr>) d"

definition stabilizing_member_count :: "cohort \<Rightarrow> db \<Rightarrow> nat" where
  "stabilizing_member_count co d =
     count_rows (\<lambda>a. ag_pk a \<in> set (co_members co) \<and> ag_elig_reason a = ''stabilizing'' \<and>
        ag_is_active a \<noteq> Some False \<and> ag_auto_assign a \<and> ag_chats a < max_chats_coalesced a) (db_agents d)"

definition released_outcome :: "cohort \<Rightarrow> barrier_outcome" where
  "released_outcome co = (if co_release_reason co = Deadline then Released_Deadline else Released_All_Settled)"

definition finalize_opening_assignment_cohort ::
  "settings \<Rightarrow> uuid \<Rightarrow> instant \<Rightarrow> db \<Rightarrow> (db \<times> barrier_decision) result" where
  "finalize_opening_assignment_cohort cfg k now d =
     (case require_routing_writer_authority cfg of
        Inl e \<Rightarrow> Inl e
      | Inr _ \<Rightarrow>
          Inr (case get_row co_pk k (db_cohorts d) of
                 None \<Rightarrow> (d, not_applicable)
               | Some co \<Rightarrow>
                   (if co_state co = Cohort_Released then (d, decide (released_outcome co) co)
                    else if stabilizing_member_count co d = 0 then
                      (release_cohort co All_Settled now d, (decide Released_All_Settled co)\<lparr>bd_released_now := True\<rparr>)
                    else if co_deadline_at co \<le> now then
                      (release_cohort co Deadline now d, (decide Released_Deadline co)\<lparr>bd_released_now := True\<rparr>)
                    else (d, decide Deferred co))))"

definition schedule_recheck :: "cohort \<Rightarrow> instant \<Rightarrow> db \<Rightarrow> db" where
  "schedule_recheck co now d =
     (if co_callback_at co \<noteq> None then d else put_cohort (co\<lparr>co_callback_at := Some now\<rparr>) d)"

section \<open>The barrier\<close>

definition defer_row :: "queue_row \<Rightarrow> cohort \<Rightarrow> db \<Rightarrow> db" where
  "defer_row q co d =
     (if nc_next_attempt_at q \<noteq> Some (co_recheck_at co)
      then put_queue (q\<lparr>nc_next_attempt_at := Some (co_recheck_at co)\<rparr>) d else d)"

definition judge_cohort ::
  "settings \<Rightarrow> queue_row \<Rightarrow> instant \<Rightarrow> cohort \<Rightarrow> db \<Rightarrow> db \<times> barrier_decision" where
  "judge_cohort cfg q now co d =
     (if co_state co = Cohort_Released then (d, decide (released_outcome co) co)
      else if stabilizing_member_count co d = 0 then
        (release_cohort co All_Settled now d, decide Released_All_Settled co)
      else if co_deadline_at co \<le> now then (release_cohort co Deadline now d, decide Released_Deadline co)
      else if opening_barrier_mode cfg = Barrier_Shadow then (schedule_recheck co now d, decide Shadow_Would_Defer co)
      else (defer_row q co (schedule_recheck co now d), decide Deferred co))"

definition evaluate_opening_cohort_barrier ::
  "settings \<Rightarrow> instant option \<Rightarrow> cohort option \<Rightarrow> queue_row \<Rightarrow> instant \<Rightarrow> db \<Rightarrow> db \<times> barrier_decision" where
  "evaluate_opening_cohort_barrier cfg window racing q now d =
     (if opening_barrier_mode cfg = Barrier_Off then (d, not_applicable)
      else case window of
             None \<Rightarrow> (d, not_applicable)
           | Some start \<Rightarrow>
               (if start \<le> nc_entered_at q then (d, not_applicable)
                else case locked_get_or_create cfg start (candidate_snapshots cfg d) now racing d of
                       (d1, None) \<Rightarrow> (d1, not_applicable)
                     | (d1, Some (co, created)) \<Rightarrow> judge_cohort cfg q now co d1))"

section \<open>Facts\<close>

lemma decide_simps [simp]:
  "bd_outcome (decide out co) = out" "bd_cohort (decide out co) = Some (co_pk co)"
  "bd_recheck (decide out co) = Some (co_recheck_at co)" "is_deferred (decide out co) \<longleftrightarrow> out = Deferred"
  "\<not> is_deferred not_applicable" "bd_outcome not_applicable = Not_Applicable"
  by (simp_all add: decide_def is_deferred_def not_applicable_def)

lemma released_outcome_not_deferred [simp]: "released_outcome co \<noteq> Deferred"
  by (simp add: released_outcome_def)

lemma fold_min_le: "fold min xs (x::int) \<le> x \<and> (\<forall>y \<in> set xs. fold min xs x \<le> y)"
proof (induction xs arbitrary: x)
  case Nil
  then show ?case by simp
next
  case (Cons z zs)
  from Cons.IH [of "min z x"] show ?case by auto
qed

lemma new_cohort_Some:
  assumes "new_cohort cfg k start agents now = Some co"
  shows "co_window_started_at co = start" "co_pk co = k" "co_state co = Cohort_Active"
    "now < co_deadline_at co" "co_recheck_at co \<le> co_deadline_at co"
    "co_deadline_at co = cohort_observed_at start agents now +
       seconds (availability_stable_seconds cfg + sat_heartbeat_interval_seconds cfg)"
    "now < co_recheck_at co" "agents \<noteq> []"
  using assms by (auto simp: new_cohort_def Let_def recheck_jitter_seconds_def seconds_def split: if_splits)

lemma put_cohort_windows:
  "co_window_started_at x = w \<Longrightarrow> get_row co_pk (co_pk x) (db_cohorts d) = Some y \<Longrightarrow> co_window_started_at y = w \<Longrightarrow>
   distinct (map co_pk (db_cohorts d)) \<Longrightarrow>
   map co_window_started_at (db_cohorts (put_cohort x d)) = map co_window_started_at (db_cohorts d)"
proof -
  assume a: "co_window_started_at x = w" "get_row co_pk (co_pk x) (db_cohorts d) = Some y" "co_window_started_at y = w"
    "distinct (map co_pk (db_cohorts d))"
  have "co_window_started_at r = w" if "r \<in> set (db_cohorts d)" "co_pk r = co_pk x" for r
    using get_row_distinct [OF a(4) that(1)] that(2) a(2,3) by simp
  then show ?thesis using a(1) by (simp add: put_cohort_def save_row_def)
qed

lemma get_row_save_by:
  assumes "distinct (map key rows)" and "get_row f w rows = Some r" and "key x = key r" and "f x = w"
  shows "get_row f w (save_row key x rows) = Some x"
  using assms
proof (induction rows)
  case Nil
  then show ?case by simp
next
  case (Cons q rows)
  show ?case
  proof (cases "f q = w")
    case True
    then have "q = r" using Cons.prems(2) by (simp add: get_row_Cons)
    then show ?thesis using Cons.prems(3,4) by (simp add: save_row_def get_row_Cons)
  next
    case False
    then have r: "get_row f w rows = Some r" using Cons.prems(2) by (simp add: get_row_Cons)
    have "key q \<noteq> key x" using Cons.prems(1,3) get_row_mem [OF r] by auto
    then show ?thesis using False Cons r by (simp add: save_row_def get_row_Cons)
  qed
qed

lemma cohort_for_put:
  assumes "distinct (map co_pk (db_cohorts d))" and "cohort_for w d = Some co" and "co_pk x = co_pk co"
    and "co_window_started_at x = w"
  shows "cohort_for w (put_cohort x d) = Some x"
  using assms by (simp add: cohort_for_def put_cohort_def get_row_save_by)

lemma cohort_for_window: "cohort_for w d = Some co \<Longrightarrow> co_window_started_at co = w"
  unfolding cohort_for_def by (rule get_row_key)

lemma cohort_for_put_queue [simp]: "cohort_for w (put_queue q d) = cohort_for w d"
  by (simp add: cohort_for_def put_queue_def)

lemma locked_get_or_create_cases:
  assumes "locked_get_or_create cfg start agents now racing d = (d1, Some (co, created))"
    and "\<forall>other. racing = Some other \<longrightarrow> co_window_started_at other = start"
  obtains (known) "cohort_for start d = Some co" "d1 = d"
  | (other) "cohort_for start d = None" "racing = Some co" "d1 = d\<lparr>db_cohorts := db_cohorts d @ [co]\<rparr>"
      "cohort_for start d1 = Some co"
  | (created) "cohort_for start d = None" "new_cohort cfg (db_next_pk d) start agents now = Some co"
      "d1 = d\<lparr>db_cohorts := db_cohorts d @ [co], db_next_pk := Suc (db_next_pk d)\<rparr>" "cohort_for start d1 = Some co"
proof (cases "cohort_for start d")
  case (Some c)
  then have "locked_get_or_create cfg start agents now racing d = (d, Some (c, False))"
    by (simp add: locked_get_or_create_def)
  then have "d1 = d" "c = co" using assms(1) by simp_all
  with Some show ?thesis by (intro known) simp_all
next
  case none: None
  show ?thesis
  proof (cases racing)
    case (Some o')
    then have "racing = Some co" "d1 = d\<lparr>db_cohorts := db_cohorts d @ [co]\<rparr>"
      using assms(1) none
      by (cases "new_cohort cfg (db_next_pk d) start agents now"; simp add: locked_get_or_create_def)+
    moreover from this assms(2) none have "cohort_for start d1 = Some co"
      by (simp add: cohort_for_def get_row_append get_row_Cons)
    ultimately show ?thesis using other none by blast
  next
    case None
    then have n: "new_cohort cfg (db_next_pk d) start agents now = Some co"
      "d1 = d\<lparr>db_cohorts := db_cohorts d @ [co], db_next_pk := Suc (db_next_pk d)\<rparr>"
      using assms(1) none
      by (cases "new_cohort cfg (db_next_pk d) start agents now"; simp add: locked_get_or_create_def)+
    moreover from n(2) none new_cohort_Some(1) [OF n(1)] have "cohort_for start d1 = Some co"
      by (simp add: cohort_for_def get_row_append get_row_Cons)
    ultimately show ?thesis using created none by blast
  qed
qed

lemma evaluate_skips:
  "opening_barrier_mode cfg = Barrier_Off \<or> window = None \<or> (\<exists>start. window = Some start \<and> start \<le> nc_entered_at q) \<Longrightarrow>
   evaluate_opening_cohort_barrier cfg window racing q now d = (d, not_applicable)"
  by (auto simp: evaluate_opening_cohort_barrier_def)

lemma judge_cohort_frame:
  assumes "judge_cohort cfg q now co d = (d', b)"
  shows "db_agents d' = db_agents d" "db_attempts d' = db_attempts d" "db_cycles d' = db_cycles d"
    "db_occupancies d' = db_occupancies d" "db_reservations d' = db_reservations d" "db_next_pk d' = db_next_pk d"
    "\<not> is_deferred b \<Longrightarrow> db_queue d' = db_queue d"
  using assms
  by (auto simp: judge_cohort_def release_cohort_def schedule_recheck_def defer_row_def put_cohort_def put_queue_def
      split: if_splits)

lemma locked_get_or_create_frame:
  assumes "locked_get_or_create cfg start agents now racing d = (d1, c)"
  shows "db_agents d1 = db_agents d" "db_attempts d1 = db_attempts d" "db_cycles d1 = db_cycles d"
    "db_occupancies d1 = db_occupancies d" "db_reservations d1 = db_reservations d" "db_queue d1 = db_queue d"
  using assms
  by (cases "cohort_for start d"; cases "new_cohort cfg (db_next_pk d) start agents now"; cases racing;
      auto simp: locked_get_or_create_def)+

lemma barrier_frame:
  assumes "evaluate_opening_cohort_barrier cfg window racing q now d = (d', b)"
  shows "db_agents d' = db_agents d" "db_attempts d' = db_attempts d" "db_cycles d' = db_cycles d"
    "db_occupancies d' = db_occupancies d" "db_reservations d' = db_reservations d"
    "\<not> is_deferred b \<Longrightarrow> db_queue d' = db_queue d"
proof -
  have "db_agents d' = db_agents d \<and> db_attempts d' = db_attempts d \<and> db_cycles d' = db_cycles d \<and>
      db_occupancies d' = db_occupancies d \<and> db_reservations d' = db_reservations d \<and>
      (\<not> is_deferred b \<longrightarrow> db_queue d' = db_queue d)"
  proof (cases "opening_barrier_mode cfg = Barrier_Off \<or> window = None \<or> (\<exists>start. window = Some start \<and> start \<le> nc_entered_at q)")
    case True
    then show ?thesis using assms evaluate_skips [of cfg window q] by auto
  next
    case False
    then obtain start where start: "window = Some start" by auto
    let ?l = "locked_get_or_create cfg start (candidate_snapshots cfg d) now racing d"
    obtain d1 c where l: "?l = (d1, c)" by (cases ?l)
    note f = locked_get_or_create_frame [OF l]
    show ?thesis
    proof (cases c)
      case None
      then show ?thesis using assms False start l f by (auto simp: evaluate_opening_cohort_barrier_def)
    next
      case (Some p)
      then obtain co cr where "c = Some (co, cr)" by (cases p) auto
      then have "judge_cohort cfg q now co d1 = (d', b)"
        using assms False start l by (auto simp: evaluate_opening_cohort_barrier_def)
      then show ?thesis using judge_cohort_frame f by metis
    qed
  qed
  then show "db_agents d' = db_agents d" "db_attempts d' = db_attempts d" "db_cycles d' = db_cycles d"
    "db_occupancies d' = db_occupancies d" "db_reservations d' = db_reservations d"
    "\<not> is_deferred b \<Longrightarrow> db_queue d' = db_queue d" by blast+
qed

section \<open>Properties\<close>

text \<open>A deferral has a cause and a bound.  The barrier defers a row only in the enforcing
  mode, only when the row entered the queue before the window opened, and only while a member
  of the cohort of that window is still stabilizing before the deadline; the row is then
  scheduled for the recheck of the cohort.  In the other modes no queue row changes.\<close>

theorem deferral_has_cause:
  assumes "evaluate_opening_cohort_barrier cfg window racing q now d = (d', b)"
    and "\<forall>other. racing = Some other \<longrightarrow> window = Some (co_window_started_at other)"
    and "queue_of d (nc_pk q) = Some q"
  shows "(is_deferred b \<longrightarrow> opening_barrier_mode cfg = Barrier_Enforce \<and>
      (\<exists>start co. window = Some start \<and> nc_entered_at q < start \<and> co_window_started_at co = start \<and>
         bd_cohort b = Some (co_pk co) \<and> now < co_deadline_at co \<and> 0 < stabilizing_member_count co d \<and>
         queue_of d' (nc_pk q) = Some (q\<lparr>nc_next_attempt_at := Some (co_recheck_at co)\<rparr>))) \<and>
    (opening_barrier_mode cfg \<noteq> Barrier_Enforce \<longrightarrow> db_queue d' = db_queue d)"
proof (cases "opening_barrier_mode cfg = Barrier_Off \<or> window = None \<or> (\<exists>start. window = Some start \<and> start \<le> nc_entered_at q)")
  case True
  then have "d' = d" "b = not_applicable" using assms(1) evaluate_skips [of cfg window q] by auto
  then show ?thesis by simp
next
  case False
  then obtain start where start: "window = Some start" "nc_entered_at q < start" "opening_barrier_mode cfg \<noteq> Barrier_Off"
    by (cases window) auto
  let ?l = "locked_get_or_create cfg start (candidate_snapshots cfg d) now racing d"
  obtain d1 c where l: "?l = (d1, c)" by (cases ?l)
  show ?thesis
  proof (cases c)
    case None
    then have "d1 = d"
      using l by (auto simp: locked_get_or_create_def split: option.splits)
    then show ?thesis using assms(1) start l None by (simp add: evaluate_opening_cohort_barrier_def)
  next
    case (Some p)
    then obtain co cr where c: "c = Some (co, cr)" by (cases p) auto
    have race: "\<forall>other. racing = Some other \<longrightarrow> co_window_started_at other = start" using assms(2) start(1) by auto
    have same: "db_queue d1 = db_queue d" "db_agents d1 = db_agents d" "co_window_started_at co = start"
      by (rule locked_get_or_create_cases [OF l [unfolded c] race]; simp add: cohort_for_window)+
    have count: "stabilizing_member_count co d1 = stabilizing_member_count co d"
      by (simp add: stabilizing_member_count_def same)
    have run: "judge_cohort cfg q now co d1 = (d', b)"
      using assms(1) start l c by (simp add: evaluate_opening_cohort_barrier_def)
    have q: "queue_of d1 (nc_pk q) = Some q" using assms(3) by (simp add: queue_of_def same)
    have deferred: "queue_of (defer_row q co (schedule_recheck co now d1)) (nc_pk q) =
        Some (q\<lparr>nc_next_attempt_at := Some (co_recheck_at co)\<rparr>)"
    proof -
      have q2: "queue_of (schedule_recheck co now d1) (nc_pk q) = Some q"
        using q by (simp add: schedule_recheck_def put_cohort_def queue_of_def)
      show ?thesis
      proof (cases "nc_next_attempt_at q = Some (co_recheck_at co)")
        case True
        then have "q\<lparr>nc_next_attempt_at := Some (co_recheck_at co)\<rparr> = q" by (metis queue_row.surjective queue_row.update_convs(10))
        then show ?thesis using True q2 by (simp add: defer_row_def)
      next
        case no: False
        then show ?thesis using q2 by (simp add: defer_row_def put_queue_def queue_of_def get_row_save_row)
      qed
    qed
    have frame: "db_queue (release_cohort co why now d1) = db_queue d" "db_queue (schedule_recheck co now d1) = db_queue d" for why
      by (simp_all add: release_cohort_def schedule_recheck_def put_cohort_def same)
    show ?thesis
      using run start same(1,3) deferred count frame
      by (cases "opening_barrier_mode cfg") (auto simp: judge_cohort_def split: if_splits)
  qed
qed

text \<open>A deferral ends.  From the deadline of the cohort of a window on, no row is deferred on
  its account: the evaluation releases the cohort, and a released cohort stays as it is and
  defers nothing, whatever the state of the agents and the number of evaluations.\<close>

theorem deferral_ends_at_deadline:
  assumes "cohort_for start d = Some co" and "distinct (map co_pk (db_cohorts d))"
    and "co_state co = Cohort_Released \<or> co_deadline_at co \<le> now"
    and "evaluate_opening_cohort_barrier cfg (Some start) racing q now d = (d', b)"
  shows "\<not> is_deferred b \<and> db_queue d' = db_queue d \<and>
    (opening_barrier_mode cfg \<noteq> Barrier_Off \<and> nc_entered_at q < start \<longrightarrow>
       (\<exists>co'. cohort_for start d' = Some co' \<and> co_state co' = Cohort_Released \<and> co_deadline_at co' = co_deadline_at co) \<and>
       (\<forall>racing' q' later. \<exists>b'. evaluate_opening_cohort_barrier cfg (Some start) racing' q' later d' = (d', b') \<and> \<not> is_deferred b'))"
proof (cases "opening_barrier_mode cfg = Barrier_Off \<or> start \<le> nc_entered_at q")
  case True
  then have "d' = d" "b = not_applicable" using assms(4) evaluate_skips [of cfg "Some start" q] by auto
  then show ?thesis using True by auto
next
  case False
  have run: "judge_cohort cfg q now co d = (d', b)"
    using assms(1,4) False by (simp add: evaluate_opening_cohort_barrier_def locked_get_or_create_def)
  have w: "co_window_started_at co = start" using assms(1) by (rule cohort_for_window)
  have rel: "cohort_for start (release_cohort co why now d) =
      Some (co\<lparr>co_state := Cohort_Released, co_release_reason := why, co_released_at := Some now\<rparr>)" for why
    unfolding release_cohort_def using assms(1,2) w by (intro cohort_for_put) simp_all
  have frame: "db_queue (release_cohort co why now d) = db_queue d" for why
    by (simp add: release_cohort_def put_cohort_def)
  have out: "\<not> is_deferred b" "db_queue d' = db_queue d"
    and co': "\<exists>co'. cohort_for start d' = Some co' \<and> co_state co' = Cohort_Released \<and> co_deadline_at co' = co_deadline_at co"
    using run assms(1,3) rel frame by (auto simp: judge_cohort_def split: if_splits)
  have stays: "\<exists>b'. evaluate_opening_cohort_barrier cfg (Some start) racing' q' later d' = (d', b') \<and> \<not> is_deferred b'"
    for racing' q' later
    using co'
    by (auto simp: evaluate_opening_cohort_barrier_def locked_get_or_create_def judge_cohort_def)
  show ?thesis using out co' stays by blast
qed

text \<open>The schedule of a new cohort.  A cohort created at \<open>now\<close> has its recheck strictly after
  \<open>now\<close> and not after its deadline, and when the window is open and no agent was seen online
  in the future, the deadline is at most the stabilization time plus one heartbeat away.\<close>

theorem cohort_schedule_bounded:
  assumes "new_cohort cfg k start agents now = Some co" and "start \<le> now"
    and "\<forall>a \<in> set agents. \<forall>t. ag_online_since a = Some t \<longrightarrow> t \<le> now"
  shows "now < co_recheck_at co \<and> co_recheck_at co \<le> co_deadline_at co \<and>
    start + seconds (availability_stable_seconds cfg + sat_heartbeat_interval_seconds cfg) \<le> co_deadline_at co \<and>
    co_deadline_at co \<le> now + seconds (availability_stable_seconds cfg + sat_heartbeat_interval_seconds cfg)"
proof -
  note c = new_cohort_Some [OF assms(1)]
  have "start \<le> cohort_observed_at start agents now \<and> cohort_observed_at start agents now \<le> now"
  proof (cases "list_ex (\<lambda>a. ag_online_since a = None) agents")
    case True
    then show ?thesis using assms(2) by (simp add: cohort_observed_at_def)
  next
    case False
    obtain a as where agents: "agents = a # as" using c(8) by (cases agents) auto
    then obtain t where t: "ag_online_since a = Some t" using False by auto
    then have "List.map_filter ag_online_since agents = t # List.map_filter ag_online_since as"
      by (simp add: agents List.map_filter_simps)
    moreover have "fold min (List.map_filter ag_online_since as) t \<le> t" using fold_min_le by blast
    ultimately have "least (List.map_filter ag_online_since agents) \<le> t" by simp
    moreover have "t \<le> now" using assms(3) t agents by simp
    ultimately show ?thesis using False assms(2) by (simp add: cohort_observed_at_def)
  qed
  then show ?thesis using c by simp
qed

section \<open>Witnesses\<close>

definition barrier_cfg :: settings where
  "barrier_cfg = demo_cfg\<lparr>opening_barrier_mode := Barrier_Enforce\<rparr>"

definition barrier_agents :: "agent list" where
  "barrier_agents = [(demo_agent 1 10)\<lparr>ag_online_since := Some 1000000\<rparr>,
     (demo_agent 2 20)\<lparr>ag_online_since := Some 2000000, ag_elig_state := El_Ineligible, ag_elig_reason := ''stabilizing''\<rparr>]"

definition night_row :: queue_row where
  "night_row = \<lparr>nc_pk = 4, nc_ticket = ''42'', nc_cycle = None, nc_pipeline = ''P'', nc_contact = (None, None, None, None),
     nc_entered_at = 0, nc_status = Pending, nc_attempts = 0, nc_last_attempt_at = None, nc_next_attempt_at = None,
     nc_failure_code = [], nc_auto = True, nc_claim_token = [], nc_claim_expires = None, nc_claimed_at = None\<rparr>"

definition barrier_db :: db where
  "barrier_db = empty_db\<lparr>db_agents := barrier_agents, db_queue := [night_row]\<rparr>"

definition barrier_run :: "db \<times> barrier_decision" where
  "barrier_run = evaluate_opening_cohort_barrier barrier_cfg (Some 1000000) None night_row 3000000 barrier_db"

theorem deferral_has_cause_witness:
  "is_deferred (snd barrier_run) \<and>
   (\<exists>co. bd_cohort (snd barrier_run) = Some (co_pk co) \<and> 3000000 < co_deadline_at co \<and>
      0 < stabilizing_member_count co barrier_db)"
proof -
  have deferred: "is_deferred (snd barrier_run)" by code_simp
  have q: "queue_of barrier_db (nc_pk night_row) = Some night_row" by code_simp
  have run: "evaluate_opening_cohort_barrier barrier_cfg (Some 1000000) None night_row 3000000 barrier_db =
      (fst barrier_run, snd barrier_run)" by (simp add: barrier_run_def)
  show ?thesis using deferral_has_cause [OF run _ q] deferred by auto
qed

theorem deferral_ends_at_deadline_witness:
  "\<not> is_deferred (snd (evaluate_opening_cohort_barrier barrier_cfg (Some 1000000) None night_row 900000000 (fst barrier_run)))"
proof -
  let ?co = "the (cohort_for 1000000 (fst barrier_run))"
  have co: "cohort_for 1000000 (fst barrier_run) = Some ?co" by code_simp
  have dist: "distinct (map co_pk (db_cohorts (fst barrier_run)))" by code_simp
  have late: "co_state ?co = Cohort_Released \<or> co_deadline_at ?co \<le> 900000000" by code_simp
  obtain d' b where r: "evaluate_opening_cohort_barrier barrier_cfg (Some 1000000) None night_row 900000000 (fst barrier_run) = (d', b)"
    by (cases "evaluate_opening_cohort_barrier barrier_cfg (Some 1000000) None night_row 900000000 (fst barrier_run)")
  show ?thesis using deferral_ends_at_deadline [OF co dist late r] by (simp add: r)
qed

theorem cohort_schedule_bounded_witness:
  "case new_cohort barrier_cfg 7 1000000 barrier_agents 3000000 of None \<Rightarrow> False | Some co \<Rightarrow> co_recheck_at co \<le> co_deadline_at co"
proof -
  obtain co where co: "new_cohort barrier_cfg 7 1000000 barrier_agents 3000000 = Some co"
  proof -
    have "new_cohort barrier_cfg 7 1000000 barrier_agents 3000000 \<noteq> None" by code_simp
    then show ?thesis using that by blast
  qed
  have seen: "\<forall>a \<in> set barrier_agents. \<forall>t. ag_online_since a = Some t \<longrightarrow> t \<le> 3000000"
    by (simp add: barrier_agents_def)
  show ?thesis using cohort_schedule_bounded [OF co _ seen] by (simp add: co)
qed

end
