(* ===== verification/Assignment_Reserve.thy ===== *)
theory Assignment_Reserve
  imports Settlement Opening_Cohort
begin

text \<open>
  Reserving an agent for a ticket: the first phase of
  \<open>apps/support/durable_assignment_service.py\<close>, automatic and manual.

  What a reservation learns from outside the database is a \<open>world\<close>: the clocks, the start of the
  operational window, the answers of HubSpot about users, whether it is business hours, the
  claim token, and \<open>refresh_agent_capacity\<close> as a function on the database.
\<close>

section \<open>Provider veto\<close>

datatype user_read = User_Unreadable | User_Empty | User_Malformed | User_Observed observation

record world =
  wd_clock :: clock
  wd_window :: "instant option"
  wd_racing :: "cohort option"
  wd_refresh :: "uuid \<Rightarrow> db \<Rightarrow> db \<times> bool"
  wd_user :: "uuid \<Rightarrow> user_read"
  wd_local_time :: "string \<Rightarrow> instant \<Rightarrow> int \<times> int"
  wd_business_hours :: bool
  wd_token :: string

definition sat_verify_agent_assignment_eligibility :: "world \<Rightarrow> agent \<Rightarrow> decision" where
  "sat_verify_agent_assignment_eligibility w a =
     (if strip (opt_text (ag_user_id a)) = [] then reject MISSING_IDENTITY
      else case wd_user w (ag_pk a) of
             User_Unreadable \<Rightarrow> reject MISSING_OBSERVATION
           | User_Empty \<Rightarrow> reject MISSING_OBSERVATION
           | User_Malformed \<Rightarrow> reject MALFORMED_REMOTE_DATA
           | User_Observed ob \<Rightarrow>
               evaluate_observation_signals (wd_local_time w) ob (app_clock (wd_clock w)) (Some (wd_business_hours w)))"

section \<open>Vocabulary\<close>

datatype reserve_outcome =
    Reserved_Now | Existing_Attempt | Completed_Same_Cycle | Legacy_Cycle_Ambiguous | Stale_Cycle
  | Queue_Empty_Or_Claimed | No_Eligible_Candidate | Candidate_Changed | Deferred_Stabilizing_Cohort
  | Capacity_Not_Ready | Queue_Row_Missing | Eligibility_Revision_Changed | Refused reason

record reserve_view =
  rv_attempt :: "attempt option"
  rv_outcome :: reserve_outcome
  rv_queue :: "uuid option"
  rv_cycle :: "uuid option"

definition outcome_only :: "reserve_outcome \<Rightarrow> uuid option \<Rightarrow> reserve_view" where
  "outcome_only out q = \<lparr>rv_attempt = None, rv_outcome = out, rv_queue = q, rv_cycle = None\<rparr>"

definition row_outcome :: "attempt option \<Rightarrow> reserve_outcome \<Rightarrow> queue_row \<Rightarrow> reserve_view" where
  "row_outcome a out q = \<lparr>rv_attempt = a, rv_outcome = out, rv_queue = Some (nc_pk q), rv_cycle = nc_cycle q\<rparr>"

definition attempt_scope :: "queue_row \<Rightarrow> attempt \<Rightarrow> bool" where
  "attempt_scope q a =
     (case nc_cycle q of Some c \<Rightarrow> at_cycle a = Some c | None \<Rightarrow> at_ticket a = nc_ticket q \<and> at_cycle a = None)"

definition assignment_idempotency_key :: "queue_row \<Rightarrow> assignment_type \<Rightarrow> idempotency_key" where
  "assignment_idempotency_key q ty =
     ((case nc_cycle q of Some c \<Rightarrow> Cycle_Identity c | None \<Rightarrow> Legacy_Ticket (nc_ticket q)), ty)"

text \<open>\<open>_lock_assignable_cycle\<close> on a row with a cycle: whether the cycle is still queued.\<close>

definition cycle_assignable :: "db \<Rightarrow> queue_row \<Rightarrow> bool" where
  "cycle_assignable d q =
     (case nc_cycle q of None \<Rightarrow> False
      | Some c \<Rightarrow> (case cycle_of d c of None \<Rightarrow> False | Some cy \<Rightarrow> cy_state cy = Queued))"

definition queue_key :: "queue_row \<Rightarrow> instant \<times> uuid" where
  "queue_key q = (nc_entered_at q, nc_pk q)"

definition waiting_row :: "string option \<Rightarrow> uuid list \<Rightarrow> queue_row \<Rightarrow> bool" where
  "waiting_row ticket excluded q \<longleftrightarrow>
     nc_auto q \<and> nc_status q \<in> {Pending, In_Queue} \<and>
     (case ticket of None \<Rightarrow> True | Some t \<Rightarrow> nc_ticket q = t) \<and> nc_pk q \<notin> set excluded"

definition ready_row :: "instant \<Rightarrow> string option \<Rightarrow> uuid list \<Rightarrow> queue_row \<Rightarrow> bool" where
  "ready_row now ticket excluded q \<longleftrightarrow>
     waiting_row ticket excluded q \<and>
     (case nc_next_attempt_at q of None \<Rightarrow> True | Some t \<Rightarrow> t \<le> now) \<and>
     (case nc_claim_expires q of None \<Rightarrow> True | Some t \<Rightarrow> t \<le> now)"

section \<open>Candidates\<close>

text \<open>\<open>refresh_agent_capacity\<close> on every agent, collecting the refreshed ones.\<close>

fun refresh_all :: "(uuid \<Rightarrow> db \<Rightarrow> db \<times> bool) \<Rightarrow> uuid list \<Rightarrow> db \<Rightarrow> db \<times> uuid list" where
  "refresh_all refresh [] d = (d, [])"
| "refresh_all refresh (k # ks) d =
     (let (d1, ok) = refresh k d; (d2, done) = refresh_all refresh ks d1
      in (d2, if ok then k # done else done))"

definition verified_candidate :: "settings \<Rightarrow> world \<Rightarrow> agent \<Rightarrow> (agent \<times> string) option" where
  "verified_candidate cfg w a =
     (if \<not> eligible (evaluate_persisted_agent cfg a (app_clock (wd_clock w))) then None
      else (let remote = sat_verify_agent_assignment_eligibility w a
            in if eligible remote then Some (a, reason_value (reason remote)) else None))"

definition verify_candidates :: "settings \<Rightarrow> world \<Rightarrow> db \<Rightarrow> db \<times> (agent \<times> string) list" where
  "verify_candidates cfg w d =
     (let now = app_clock (wd_clock w);
          (d1, candidates) =
            (if capacity_enforced cfg then
               (let (d', fresh) = refresh_all (wd_refresh w) (map ag_pk (get_eligible_agents cfg now True d)) d
                in (d', filter (\<lambda>a. ag_pk a \<in> set fresh) (ordered_candidates cfg now d')))
             else (d, ordered_candidates cfg now d))
      in if \<not> absence_safe_enforced cfg then (d1, map (\<lambda>a. (a, ''legacy_rollout'')) candidates)
         else (d1, List.map_filter (verified_candidate cfg w) candidates))"

section \<open>Reserving\<close>

definition quarantine_row :: "string \<Rightarrow> queue_row \<Rightarrow> db \<Rightarrow> db" where
  "quarantine_row code q d = put_queue (q\<lparr>nc_status := Failed, nc_failure_code := code\<rparr>) d"

definition claimed_row :: "settings \<Rightarrow> world \<Rightarrow> queue_row \<Rightarrow> queue_row" where
  "claimed_row cfg w q =
     (let now = db_clock (wd_clock w) in
      q\<lparr>nc_claim_token := wd_token w, nc_claimed_at := Some now,
        nc_claim_expires := Some (now + seconds (assignment_claim_ttl_seconds cfg)),
        nc_attempts := nc_attempts q + 1, nc_last_attempt_at := Some now\<rparr>)"

definition loaded_agent :: "settings \<Rightarrow> instant \<Rightarrow> agent \<Rightarrow> agent" where
  "loaded_agent cfg now g =
     g\<lparr>ag_chats := (if capacity_enforced cfg then ag_chats g else ag_chats g + 1),
       ag_last_assignment_at := Some now, ag_updated_at := Some now\<rparr>"

definition new_attempt ::
  "uuid \<Rightarrow> clock \<Rightarrow> queue_row \<Rightarrow> agent \<Rightarrow> assignment_type \<Rightarrow> string \<Rightarrow> string \<Rightarrow> attempt" where
  "new_attempt k clk q g ty why by = \<lparr>at_pk = k, at_key = assignment_idempotency_key q ty, at_ticket = nc_ticket q,
     at_cycle = nc_cycle q, at_queue_row = Some (nc_pk q), at_agent = ag_pk g, at_elig_revision = ag_avail_revision g,
     at_desired_owner = ag_owner g, at_prior_owner = None, at_reason = why, at_state = Reserved, at_type = ty,
     at_requested_by = by, at_result_class = [], at_reserved_at = db_clock clk, at_applied_at = None,
     at_finalized_at = None, at_comp_started_at = None, at_compensated_at = None, at_retry_count = 0,
     at_next_retry_at = None, at_last_error = [], at_updated_at = app_clock clk\<rparr>"

text \<open>The writes of a reservation: claim the row, load the agent, insert the attempt, hold capacity.\<close>

definition write_reservation ::
  "settings \<Rightarrow> world \<Rightarrow> occupancy option \<Rightarrow> queue_row \<Rightarrow> agent \<Rightarrow> assignment_type \<Rightarrow> string \<Rightarrow> string \<Rightarrow> db \<Rightarrow> (db \<times> attempt) result" where
  "write_reservation cfg w occ q g ty why by d =
     (let now = db_clock (wd_clock w);
          d1 = put_agent (loaded_agent cfg now g) (put_queue (claimed_row cfg w q) d);
          (k, d2) = fresh_pk d1;
          a = new_attempt k (wd_clock w) q g ty why by
      in case insert_attempt a d2 of
           Inl e \<Rightarrow> Inl e
         | Inr d3 \<Rightarrow>
             Inr (case occ of
                    None \<Rightarrow> d3
                  | Some r \<Rightarrow> hold_capacity cfg (app_clock (wd_clock w)) r (ag_pk g) (Attempt_Op k) d3, a))"

definition eligible_now :: "settings \<Rightarrow> instant \<Rightarrow> agent \<Rightarrow> bool" where
  "eligible_now cfg now g =
     (if absence_safe_enforced cfg then eligible (evaluate_persisted_agent cfg g now)
      else ag_chats g < max_chats_or_5 g)"

definition admissible :: "settings \<Rightarrow> world \<Rightarrow> db \<Rightarrow> agent \<Rightarrow> bool" where
  "admissible cfg w d g \<longleftrightarrow>
     eligible_now cfg (db_clock (wd_clock w)) g \<and>
     (capacity_enforced cfg \<longrightarrow> capacity_ready cfg (app_clock (wd_clock w)) d g)"

text \<open>
  A locked row and one candidate.  \<open>None\<close> is \<open>continue\<close>: the candidate was rejected by the
  database and the next one is tried.
\<close>

definition claim_row ::
  "settings \<Rightarrow> world \<Rightarrow> occupancy option \<Rightarrow> queue_row \<Rightarrow> uuid \<Rightarrow> string \<Rightarrow> db \<Rightarrow> (db \<times> reserve_view option) result" where
  "claim_row cfg w occ q candidate why d =
     (if nc_cycle q \<noteq> None \<and> \<not> cycle_assignable d q then
        Inr (quarantine_row ''stale_cycle'' q d, Some (row_outcome None Stale_Cycle q))
      else if nc_cycle q = None \<and>
              exists_row (\<lambda>a. at_ticket a = nc_ticket q \<and> at_state a = Completed) (db_attempts d) then
        Inr (quarantine_row ''legacy_cycle_ambiguous'' q d, Some (row_outcome None Legacy_Cycle_Ambiguous q))
      else
        (case first_row (\<lambda>a. attempt_scope q a \<and> at_state a = Completed) (db_attempts d) of
           Some a \<Rightarrow> Inr (delete_queue_row (nc_pk q) d, Some (row_outcome (Some a) Completed_Same_Cycle q))
         | None \<Rightarrow>
             (case first_row (\<lambda>a. attempt_scope q a \<and> is_live (at_state a)) (db_attempts d) of
                Some a \<Rightarrow> Inr (d, Some (row_outcome (Some a) Existing_Attempt q))
              | None \<Rightarrow>
                  (case agent_of d candidate of
                     None \<Rightarrow> Inl DoesNotExist
                   | Some g \<Rightarrow>
                       (if \<not> admissible cfg w d g then Inr (d, None)
                        else case write_reservation cfg w occ q g Automatic why [] d of
                               Inl e \<Rightarrow> Inl e
                             | Inr (d', a) \<Rightarrow> Inr (d', Some (row_outcome (Some a) Reserved_Now q)))))))"

definition reserve_candidate ::
  "settings \<Rightarrow> world \<Rightarrow> string option \<Rightarrow> uuid list \<Rightarrow> queue_row \<Rightarrow> uuid \<Rightarrow> string \<Rightarrow> db \<Rightarrow>
   (db \<times> reserve_view option) result" where
  "reserve_candidate cfg w ticket excluded pre candidate why d =
     (case optional_ticket_transaction cfg (nc_ticket pre) d of
        Inl e \<Rightarrow> Inl e
      | Inr (d1, occ) \<Rightarrow>
          (let now = db_clock (wd_clock w) in
           case first_by queue_key
                  (\<lambda>q. ready_row now ticket excluded q \<and> (capacity_enforced cfg \<longrightarrow> nc_pk q = nc_pk pre)) (db_queue d1) of
             None \<Rightarrow> Inr (d1, Some (outcome_only Queue_Empty_Or_Claimed None))
           | Some q \<Rightarrow>
               (case evaluate_opening_cohort_barrier cfg (wd_window w) (wd_racing w) q now d1 of
                  (d2, b) \<Rightarrow>
                    (if is_deferred b then Inr (d2, Some (row_outcome None Deferred_Stabilizing_Cohort q))
                     else claim_row cfg w occ q candidate why d2))))"

text \<open>
  The loop over the candidates.  Every iteration is a transaction of its own; one that raises
  rolls back and ends the call with its exception.
\<close>

fun try_candidates ::
  "settings \<Rightarrow> world \<Rightarrow> string option \<Rightarrow> uuid list \<Rightarrow> queue_row \<Rightarrow> (agent \<times> string) list \<Rightarrow> db \<Rightarrow>
   db \<times> reserve_view option result" where
  "try_candidates cfg w ticket excluded pre [] d = (d, Inr None)"
| "try_candidates cfg w ticket excluded pre ((g, why) # cs) d =
     (case reserve_candidate cfg w ticket excluded pre (ag_pk g) why d of
        Inl e \<Rightarrow> (d, Inl e)
      | Inr (d', Some v) \<Rightarrow> (d', Inr (Some v))
      | Inr (d', None) \<Rightarrow> try_candidates cfg w ticket excluded pre cs d')"

definition defer_without_candidate :: "clock \<Rightarrow> string option \<Rightarrow> uuid list \<Rightarrow> db \<Rightarrow> db \<times> uuid option" where
  "defer_without_candidate clk ticket excluded d =
     (let now = app_clock clk in
      case first_by queue_key (waiting_row ticket excluded) (db_queue d) of
        None \<Rightarrow> (d, None)
      | Some q \<Rightarrow>
          (put_queue (q\<lparr>nc_status := In_Queue, nc_attempts := nc_attempts q + 1, nc_last_attempt_at := Some now,
             nc_next_attempt_at := Some (now + seconds 30), nc_failure_code := ''no_eligible_candidate''\<rparr>) d,
           Some (nc_pk q)))"

definition reserve_next_assignment ::
  "settings \<Rightarrow> world \<Rightarrow> string option \<Rightarrow> uuid list \<Rightarrow> db \<Rightarrow> db \<times> reserve_view result" where
  "reserve_next_assignment cfg w ticket excluded d =
     (let now = db_clock (wd_clock w) in
      case first_by queue_key (ready_row now ticket excluded) (db_queue d) of
        None \<Rightarrow> (d, Inr (outcome_only Queue_Empty_Or_Claimed None))
      | Some pre \<Rightarrow>
          (case evaluate_opening_cohort_barrier cfg (wd_window w) (wd_racing w) pre now d of
             (d1, b) \<Rightarrow>
               (if is_deferred b then (d1, Inr (row_outcome None Deferred_Stabilizing_Cohort pre))
                else
                  (case verify_candidates cfg w d1 of
                     (d2, []) \<Rightarrow>
                       (case defer_without_candidate (wd_clock w) ticket excluded d2 of
                          (d3, deferred) \<Rightarrow>
                            (d3, Inr (outcome_only
                               (if capacity_enforced cfg \<and>
                                   list_ex (\<lambda>a. ag_cap_state a \<noteq> ''ready'')
                                     (ordered_candidates cfg (app_clock (wd_clock w)) d3)
                                then Capacity_Not_Ready else No_Eligible_Candidate) deferred)))
                   | (d2, cs) \<Rightarrow>
                       (case try_candidates cfg w ticket excluded pre cs d2 of
                          (d3, Inl e) \<Rightarrow> (d3, Inl e)
                        | (d3, Inr (Some v)) \<Rightarrow> (d3, Inr v)
                        | (d3, Inr None) \<Rightarrow>
                            (case defer_without_candidate (wd_clock w) ticket excluded d3 of
                               (d4, deferred) \<Rightarrow> (d4, Inr (outcome_only Candidate_Changed deferred))))))))"

section \<open>Manual reservations\<close>

text \<open>The checks before the transaction; \<open>Some\<close> is the refusal.\<close>

definition manual_precheck :: "settings \<Rightarrow> world \<Rightarrow> agent \<Rightarrow> reserve_outcome option" where
  "manual_precheck cfg w g =
     (if \<not> absence_safe_enforced cfg then None
      else (let stored = evaluate_persisted_agent cfg g (app_clock (wd_clock w)) in
            if \<not> eligible stored then Some (Refused (reason stored))
            else (let remote = sat_verify_agent_assignment_eligibility w g
                  in if eligible remote then None else Some (Refused (reason remote)))))"

definition manual_transaction ::
  "settings \<Rightarrow> world \<Rightarrow> string \<Rightarrow> agent \<Rightarrow> string \<Rightarrow> db \<Rightarrow> (db \<times> reserve_view) result" where
  "manual_transaction cfg w ticket candidate by d =
     (case optional_ticket_transaction cfg ticket d of
        Inl e \<Rightarrow> Inl e
      | Inr (d1, occ) \<Rightarrow>
          (case first_by nc_entered_at (\<lambda>q. nc_ticket q = ticket) (db_queue d1) of
             None \<Rightarrow> Inr (d1, outcome_only Queue_Row_Missing None)
           | Some q \<Rightarrow>
               (if nc_cycle q \<noteq> None \<and> \<not> cycle_assignable d1 q then Inr (d1, outcome_only Stale_Cycle None)
                else
                  (case first_row (\<lambda>a. attempt_scope q a \<and> is_live (at_state a)) (db_attempts d1) of
                     Some a \<Rightarrow> Inr (d1, (outcome_only Existing_Attempt None)\<lparr>rv_attempt := Some a\<rparr>)
                   | None \<Rightarrow>
                       (case agent_of d1 (ag_pk candidate) of
                          None \<Rightarrow> Inl DoesNotExist
                        | Some g \<Rightarrow>
                            (if \<not> admissible cfg w d1 g \<or> ag_avail_revision g \<noteq> ag_avail_revision candidate then
                               Inr (d1, outcome_only Eligibility_Revision_Changed None)
                             else
                               (case write_reservation cfg w occ q g Manual
                                       (if absence_safe_enforced cfg
                                        then reason_value (reason (evaluate_persisted_agent cfg g (db_clock (wd_clock w))))
                                        else ''manual_rollout'') by d1 of
                                  Inl e \<Rightarrow> Inl e
                                | Inr (d', a) \<Rightarrow> Inr (d', (outcome_only Reserved_Now None)\<lparr>rv_attempt := Some a\<rparr>))))))))"

definition reserve_manual_assignment ::
  "settings \<Rightarrow> world \<Rightarrow> string \<Rightarrow> uuid \<Rightarrow> string \<Rightarrow> db \<Rightarrow> db \<times> reserve_view result" where
  "reserve_manual_assignment cfg w ticket agent_id by d =
     (case agent_of d agent_id of
        None \<Rightarrow> (d, Inl DoesNotExist)
      | Some stale \<Rightarrow>
          (case (if capacity_enforced cfg then wd_refresh w agent_id d else (d, True)) of
             (d1, False) \<Rightarrow> (d1, Inr (outcome_only Capacity_Not_Ready None))
           | (d1, True) \<Rightarrow>
               (let candidate = (if capacity_enforced cfg
                      then (case agent_of d1 agent_id of None \<Rightarrow> stale | Some g \<Rightarrow> g) else stale)
                in case manual_precheck cfg w candidate of
                     Some out \<Rightarrow> (d1, Inr (outcome_only out None))
                   | None \<Rightarrow>
                       (case manual_transaction cfg w ticket candidate by d1 of
                          Inl e \<Rightarrow> (d1, Inl e)
                        | Inr (d2, v) \<Rightarrow> (d2, Inr v)))))"

section \<open>Facts\<close>

lemma insert_attempt_cases:
  assumes "insert_attempt a d = Inr d'"
  shows "d' = d\<lparr>db_attempts := db_attempts d @ [a]\<rparr>" "\<forall>b \<in> set (db_attempts d). \<not> attempt_clash a b"
  using assms by (auto simp: insert_attempt_def list_ex_iff split: if_splits)

lemma hold_capacity_tables [simp]:
  "db_attempts (hold_capacity cfg now r g op d) = db_attempts d"
  "db_queue (hold_capacity cfg now r g op d) = db_queue d"
  "db_cycles (hold_capacity cfg now r g op d) = db_cycles d"
  by (simp_all add: hold_capacity_def put_occupancy_def record_hold_def put_reservation_def Let_def split: prod.splits)

lemma optional_ticket_transaction_frame:
  assumes "optional_ticket_transaction cfg t d = Inr (d1, occ)"
  shows "db_agents d1 = db_agents d" "db_attempts d1 = db_attempts d" "db_queue d1 = db_queue d"
    "db_cycles d1 = db_cycles d" "db_reservations d1 = db_reservations d" "\<not> capacity_enforced cfg \<Longrightarrow> occ = None"
proof -
  have "d1 = d\<lparr>db_occupancies := db_occupancies d1, db_next_pk := db_next_pk d1\<rparr>"
  proof (cases "capacity_enforced cfg")
    case False
    then show ?thesis using assms by (simp add: optional_ticket_transaction_def)
  next
    case True
    then obtain r where "ticket_transaction cfg t d = Inr (d1, r)"
      using assms by (cases "ticket_transaction cfg t d") (auto simp: optional_ticket_transaction_def)
    then obtain account where "get_or_create_occupancy (account, t) d = (d1, r)" by (rule ticket_transaction_cases)
    then show ?thesis using get_or_create_occupancy_frame [of "(account, t)" d] by simp
  qed
  then show "db_agents d1 = db_agents d" "db_attempts d1 = db_attempts d" "db_queue d1 = db_queue d"
    "db_cycles d1 = db_cycles d" "db_reservations d1 = db_reservations d"
    by (rule occupancy_frame)+
  show "\<not> capacity_enforced cfg \<Longrightarrow> occ = None" using assms by (simp add: optional_ticket_transaction_def)
qed

lemma write_reservation_result:
  assumes "write_reservation cfg w occ q g ty why by d = Inr (d', a)"
  shows "a = new_attempt (db_next_pk d) (wd_clock w) q g ty why by" "db_attempts d' = db_attempts d @ [a]"
    "\<forall>b \<in> set (db_attempts d). \<not> attempt_clash a b"
    "db_queue d' = save_row nc_pk (claimed_row cfg w q) (db_queue d)" "db_cycles d' = db_cycles d"
    "occ = None \<Longrightarrow> db_agents d' = save_row ag_pk (loaded_agent cfg (db_clock (wd_clock w)) g) (db_agents d)"
proof -
  let ?d2 = "snd (fresh_pk (put_agent (loaded_agent cfg (db_clock (wd_clock w)) g) (put_queue (claimed_row cfg w q) d)))"
  let ?a = "new_attempt (db_next_pk d) (wd_clock w) q g ty why by"
  have k: "fst (fresh_pk (put_agent (loaded_agent cfg (db_clock (wd_clock w)) g) (put_queue (claimed_row cfg w q) d))) = db_next_pk d"
    by (simp add: fresh_pk_def put_agent_def put_queue_def)
  have run: "write_reservation cfg w occ q g ty why by d = (case insert_attempt ?a ?d2 of Inl e \<Rightarrow> Inl e
      | Inr d3 \<Rightarrow> Inr (case occ of None \<Rightarrow> d3
          | Some r \<Rightarrow> hold_capacity cfg (app_clock (wd_clock w)) r (ag_pk g) (Attempt_Op (db_next_pk d)) d3, ?a))"
    unfolding write_reservation_def Let_def split_beta k by (rule refl)
  obtain d3 where d3: "insert_attempt ?a ?d2 = Inr d3" using assms run by (cases "insert_attempt ?a ?d2") simp_all
  note ins = insert_attempt_cases [OF d3]
  have res: "a = ?a" "d' = (case occ of None \<Rightarrow> d3
          | Some r \<Rightarrow> hold_capacity cfg (app_clock (wd_clock w)) r (ag_pk g) (Attempt_Op (db_next_pk d)) d3)"
    using assms run d3 by simp_all
  have tab: "db_attempts ?d2 = db_attempts d" "db_queue ?d2 = save_row nc_pk (claimed_row cfg w q) (db_queue d)"
    "db_cycles ?d2 = db_cycles d" "db_agents ?d2 = save_row ag_pk (loaded_agent cfg (db_clock (wd_clock w)) g) (db_agents d)"
    by (simp_all add: fresh_pk_def put_agent_def put_queue_def)
  show "a = ?a" by (rule res(1))
  show "db_attempts d' = db_attempts d @ [a]" "\<forall>b \<in> set (db_attempts d). \<not> attempt_clash a b"
    "db_queue d' = save_row nc_pk (claimed_row cfg w q) (db_queue d)" "db_cycles d' = db_cycles d"
    using res ins tab by (simp_all split: option.splits)
  show "occ = None \<Longrightarrow> db_agents d' = save_row ag_pk (loaded_agent cfg (db_clock (wd_clock w)) g) (db_agents d)"
    using res(2) ins(1) tab by simp
qed

lemma claim_row_reserved:
  assumes "claim_row cfg w occ q k why d = Inr (d', Some v)" and "rv_outcome v = Reserved_Now"
  obtains g a where "agent_of d k = Some g" "admissible cfg w d g" "v = row_outcome (Some a) Reserved_Now q"
    "write_reservation cfg w occ q g Automatic why [] d = Inr (d', a)"
    "nc_cycle q \<noteq> None \<Longrightarrow> cycle_assignable d q"
    "\<And>b. b \<in> set (db_attempts d) \<Longrightarrow> attempt_scope q b \<Longrightarrow> \<not> is_live (at_state b) \<and> at_state b \<noteq> Completed"
proof -
  have c: "nc_cycle q \<noteq> None \<longrightarrow> cycle_assignable d q"
    "\<not> (nc_cycle q = None \<and> exists_row (\<lambda>a. at_ticket a = nc_ticket q \<and> at_state a = Completed) (db_attempts d))"
    using assms by (auto simp: claim_row_def row_outcome_def split: if_splits)
  note run = assms(1) [unfolded claim_row_def]
  have f1: "first_row (\<lambda>a. attempt_scope q a \<and> at_state a = Completed) (db_attempts d) = None"
    using assms c by (cases "first_row (\<lambda>a. attempt_scope q a \<and> at_state a = Completed) (db_attempts d)")
      (auto simp: claim_row_def row_outcome_def split: if_splits)
  have f2: "first_row (\<lambda>a. attempt_scope q a \<and> is_live (at_state a)) (db_attempts d) = None"
    using assms c f1 by (cases "first_row (\<lambda>a. attempt_scope q a \<and> is_live (at_state a)) (db_attempts d)")
      (auto simp: claim_row_def row_outcome_def split: if_splits)
  obtain g where g: "agent_of d k = Some g"
    using assms(1) c f1 f2 by (cases "agent_of d k") (auto simp: claim_row_def split: if_splits)
  have adm: "admissible cfg w d g" using assms(1) c f1 f2 g by (auto simp: claim_row_def split: if_splits)
  obtain a where a: "write_reservation cfg w occ q g Automatic why [] d = Inr (d', a)"
    "v = row_outcome (Some a) Reserved_Now q"
    using assms(1) c f1 f2 g adm
    by (cases "write_reservation cfg w occ q g Automatic why [] d") (auto simp: claim_row_def split: if_splits)
  have "\<not> is_live (at_state b) \<and> at_state b \<noteq> Completed" if "b \<in> set (db_attempts d)" "attempt_scope q b" for b
    using f1 f2 that by (auto simp: first_row_None)
  then show ?thesis using that g adm a c by blast
qed

lemma attempt_of_appended:
  assumes "\<forall>b \<in> set (db_attempts d). \<not> attempt_clash a b" and "db_attempts d' = db_attempts d @ [a]"
  shows "attempt_of d' (at_pk a) = Some a"
proof -
  have "get_row at_pk (at_pk a) (db_attempts d) = None"
    using assms(1) by (auto simp: get_row_None attempt_clash_def)
  then show ?thesis using assms(2) by (simp add: attempt_of_def get_row_append get_row_Cons)
qed

section \<open>Properties\<close>

text \<open>A reservation is sound.  When a reservation transaction reports a new attempt, the
  claimed row was ready (automatic, waiting, due and not claimed), no ready row of the selection is
  older, its cycle is queued, and no attempt of that cycle was alive or completed.  The
  candidate passed the re-evaluation under lock.  Afterwards the attempt is stored as
  reserved for the owner of that agent, the row is claimed until the end of the claim
  period, and in the legacy mode exactly that agent carries one more chat.\<close>

theorem reservation_is_sound:
  assumes "reserve_candidate cfg w ticket excluded pre k why d = Inr (d', Some v)" and "rv_outcome v = Reserved_Now"
  shows "\<exists>q g a. q \<in> set (db_queue d) \<and> ready_row (db_clock (wd_clock w)) ticket excluded q \<and>
    (\<forall>p \<in> set (db_queue d). ready_row (db_clock (wd_clock w)) ticket excluded p \<longrightarrow>
       (capacity_enforced cfg \<longrightarrow> nc_pk p = nc_pk pre) \<longrightarrow> queue_key q \<le> queue_key p) \<and>
    (nc_cycle q \<noteq> None \<longrightarrow> cycle_assignable d q) \<and>
    (\<forall>b \<in> set (db_attempts d). attempt_scope q b \<longrightarrow> \<not> is_live (at_state b) \<and> at_state b \<noteq> Completed) \<and>
    agent_of d k = Some g \<and> eligible_now cfg (db_clock (wd_clock w)) g \<and>
    v = row_outcome (Some a) Reserved_Now q \<and> attempt_of d' (at_pk a) = Some a \<and> at_state a = Reserved \<and>
    at_ticket a = nc_ticket q \<and> at_cycle a = nc_cycle q \<and> at_agent a = k \<and> at_desired_owner a = ag_owner g \<and>
    queue_of d' (nc_pk q) = Some (claimed_row cfg w q) \<and>
    (\<not> capacity_enforced cfg \<longrightarrow>
       db_agents d' = save_row ag_pk (loaded_agent cfg (db_clock (wd_clock w)) g) (db_agents d))"
proof -
  let ?now = "db_clock (wd_clock w)"
  obtain d1 occ where t: "optional_ticket_transaction cfg (nc_ticket pre) d = Inr (d1, occ)"
    using assms(1) by (auto simp: reserve_candidate_def split: sum.splits)
  note f = optional_ticket_transaction_frame [OF t]
  let ?P = "\<lambda>q. ready_row ?now ticket excluded q \<and> (capacity_enforced cfg \<longrightarrow> nc_pk q = nc_pk pre)"
  obtain q where q: "first_by queue_key ?P (db_queue d1) = Some q"
    using assms t by (auto simp: reserve_candidate_def Let_def outcome_only_def split: option.splits)
  obtain d2 b where b: "evaluate_opening_cohort_barrier cfg (wd_window w) (wd_racing w) q ?now d1 = (d2, b)"
    by (cases "evaluate_opening_cohort_barrier cfg (wd_window w) (wd_racing w) q ?now d1")
  note bf = barrier_frame [OF b]
  have nd: "\<not> is_deferred b" and c: "claim_row cfg w occ q k why d2 = Inr (d', Some v)"
    using assms t q b by (auto simp: reserve_candidate_def Let_def row_outcome_def split: if_splits)
  from c assms(2) obtain g a where g: "agent_of d2 k = Some g" "admissible cfg w d2 g"
    and v: "v = row_outcome (Some a) Reserved_Now q"
    and wr: "write_reservation cfg w occ q g Automatic why [] d2 = Inr (d', a)"
    and cyc: "nc_cycle q \<noteq> None \<Longrightarrow> cycle_assignable d2 q"
    and scope: "\<And>b. b \<in> set (db_attempts d2) \<Longrightarrow> attempt_scope q b \<Longrightarrow> \<not> is_live (at_state b) \<and> at_state b \<noteq> Completed"
    by (rule claim_row_reserved) blast
  note r = write_reservation_result [OF wr]
  have qin: "q \<in> set (db_queue d)" "?P q" using first_by_Some [OF q] f by auto
  have ord: "queue_key q \<le> queue_key p" if "p \<in> set (db_queue d)" "?P p" for p
    using first_by_least [OF q, of p] that f by simp
  have claimed: "queue_of d' (nc_pk q) = Some (claimed_row cfg w q)"
  proof -
    have "nc_pk (claimed_row cfg w q) = nc_pk q" by (simp add: claimed_row_def Let_def)
    moreover have "get_row nc_pk (nc_pk q) (db_queue d2) \<noteq> None"
      using qin f(3) bf(6) nd by (auto simp: get_row_None)
    ultimately show ?thesis by (auto simp: queue_of_def r(4) get_row_save_row split: option.splits)
  qed
  have gk: "ag_pk g = k" using g(1) unfolding agent_of_def by (rule get_row_key)
  have a: "at_state a = Reserved" "at_ticket a = nc_ticket q" "at_cycle a = nc_cycle q" "at_agent a = k"
    "at_desired_owner a = ag_owner g" by (simp_all add: r(1) new_attempt_def gk)
  have stored: "attempt_of d' (at_pk a) = Some a" using r(3,2) by (rule attempt_of_appended)
  have "agent_of d k = Some g" using g(1) f bf by (simp add: agent_of_def)
  moreover have "cycle_assignable d q = cycle_assignable d2 q"
  proof -
    have "cycle_of d2 = cycle_of d" using f bf by (simp add: cycle_of_def fun_eq_iff)
    then show ?thesis unfolding cycle_assignable_def by (rule ssubst) (rule refl)
  qed
  moreover have "eligible_now cfg ?now g" using g(2) by (simp add: admissible_def)
  moreover have "\<not> capacity_enforced cfg \<longrightarrow> db_agents d' = save_row ag_pk (loaded_agent cfg ?now g) (db_agents d)"
    using r(6) f bf by simp
  ultimately show ?thesis
    using qin ord cyc scope v a stored claimed f bf by (intro exI [of _ q] exI [of _ g] exI [of _ a]) simp
qed

text \<open>A rejected cycle cannot be reserved again.  The idempotency key is a function of the
  cycle and the kind of assignment, so when a row of a queued cycle is ready again although a
  compensated automatic attempt of the cycle exists, every admissible candidate makes the
  reservation raise \<open>IntegrityError\<close>, and the call ends with that exception instead of
  trying the next row.\<close>

theorem rejected_cycle_raises:
  assumes "b \<in> set (db_attempts d)" and "at_key b = assignment_idempotency_key q Automatic"
    and "nc_cycle q = Some c" and "cycle_assignable d q"
    and "\<forall>a \<in> set (db_attempts d). attempt_scope q a \<longrightarrow> at_state a = Compensated"
    and "agent_of d k = Some g" and "admissible cfg w d g"
  shows "claim_row cfg w occ q k why d = Inl IntegrityError"
proof -
  have f: "first_row (\<lambda>a. attempt_scope q a \<and> at_state a = Completed) (db_attempts d) = None"
    "first_row (\<lambda>a. attempt_scope q a \<and> is_live (at_state a)) (db_attempts d) = None"
    using assms(5) by (auto simp: first_row_None)
  have "write_reservation cfg w occ q g Automatic why [] d = Inl IntegrityError"
  proof (cases "write_reservation cfg w occ q g Automatic why [] d")
    case (Inr r)
    then obtain d' a where r: "write_reservation cfg w occ q g Automatic why [] d = Inr (d', a)" by (cases r) auto
    have "attempt_clash a b"
      using assms(2) write_reservation_result(1) [OF r] by (simp add: attempt_clash_def new_attempt_def)
    then show ?thesis using write_reservation_result(3) [OF r] assms(1) by blast
  next
    case (Inl e)
    then show ?thesis
      by (auto simp: write_reservation_def Let_def split_beta insert_attempt_def split: if_splits)
  qed
  then show ?thesis using assms f by (simp add: claim_row_def)
qed

text \<open>A deferral backs off the oldest waiting row, ready or not.  When no candidate is found,
  the row that is pushed back by thirty seconds is the oldest waiting one, even when it is
  claimed or already scheduled for later; every other row, the one that was ready included,
  is left as it was.\<close>

theorem deferral_backs_off_oldest:
  assumes "first_by queue_key (waiting_row ticket excluded) (db_queue d) = Some q"
    and "defer_without_candidate clk ticket excluded d = (d', out)"
  shows "out = Some (nc_pk q) \<and>
    (\<exists>q'. queue_of d' (nc_pk q) = Some q' \<and> nc_next_attempt_at q' = Some (app_clock clk + seconds 30) \<and>
       nc_attempts q' = nc_attempts q + 1 \<and> nc_status q' = In_Queue) \<and>
    (\<forall>k. k \<noteq> nc_pk q \<longrightarrow> queue_of d' k = queue_of d k) \<and>
    db_attempts d' = db_attempts d \<and> db_agents d' = db_agents d \<and> db_cycles d' = db_cycles d"
proof -
  let ?q = "q\<lparr>nc_status := In_Queue, nc_attempts := nc_attempts q + 1, nc_last_attempt_at := Some (app_clock clk),
             nc_next_attempt_at := Some (app_clock clk + seconds 30), nc_failure_code := ''no_eligible_candidate''\<rparr>"
  have d': "d' = put_queue ?q d" "out = Some (nc_pk q)"
    using assms by (simp_all add: defer_without_candidate_def Let_def)
  have "queue_of d (nc_pk q) \<noteq> None"
    using first_by_Some [OF assms(1)] by (auto simp: queue_of_def get_row_None)
  then have "queue_of d' (nc_pk q) = Some ?q"
    by (auto simp: d' queue_of_def put_queue_def get_row_save_row split: option.splits)
  moreover have "queue_of d' k = queue_of d k" if "k \<noteq> nc_pk q" for k
    using that by (simp add: d' queue_of_def put_queue_def get_row_save_row)
  ultimately show ?thesis using d' by (auto simp: put_queue_def)
qed

text \<open>A manual assignment looks at the oldest row only.  When the oldest queue row of a ticket
  belongs to a cycle that is no longer queued, the manual reservation refuses the ticket,
  whatever newer rows the ticket has, and changes nothing.\<close>

theorem manual_sees_oldest_row_only:
  assumes "first_by nc_entered_at (\<lambda>q. nc_ticket q = ticket) (db_queue d) = Some q"
    and "nc_cycle q = Some c" and "cycle_of d c = Some cy" and "cy_state cy \<noteq> Queued" and "\<not> capacity_enforced cfg"
  shows "manual_transaction cfg w ticket candidate by d = Inr (d, outcome_only Stale_Cycle None)"
  using assms
  by (simp add: manual_transaction_def optional_ticket_transaction_def cycle_assignable_def)

section \<open>Witnesses\<close>

definition demo_observation :: observation where
  "demo_observation = \<lparr>ob_user_id = ''u'', ob_status = ''available'', ob_absences = [], ob_hours = [], ob_zone = None\<rparr>"

definition demo_world :: world where
  "demo_world = \<lparr>wd_clock = demo_clock, wd_window = None, wd_racing = None, wd_refresh = (\<lambda>_ d. (d, True)),
     wd_user = (\<lambda>_. User_Observed demo_observation), wd_local_time = (\<lambda>_ _. (0, 0)), wd_business_hours = True,
     wd_token = ''token''\<rparr>"

definition demo_waiting_db :: db where
  "demo_waiting_db = empty_db\<lparr>db_agents := [demo_agent 1 10], db_queue := [demo_row], db_cycles := [demo_cycle],
     db_next_pk := 100\<rparr>"

theorem reservation_is_sound_witness:
  "case reserve_candidate demo_cfg demo_world None [] demo_row 1 ''eligible'' demo_waiting_db of
     Inr (d', Some v) \<Rightarrow> (\<exists>a. rv_attempt v = Some a \<and> attempt_of d' (at_pk a) = Some a \<and> at_desired_owner a = 10)
   | _ \<Rightarrow> False"
proof -
  let ?r = "reserve_candidate demo_cfg demo_world None [] demo_row 1 ''eligible'' demo_waiting_db"
  have "case ?r of Inr (d', Some v) \<Rightarrow> rv_outcome v = Reserved_Now | _ \<Rightarrow> False" by code_simp
  then obtain d' v where r: "?r = Inr (d', Some v)" "rv_outcome v = Reserved_Now"
    by (auto split: sum.splits prod.splits option.splits)
  have g: "agent_of demo_waiting_db 1 = Some (demo_agent 1 10)" by code_simp
  from reservation_is_sound [OF r] g obtain q a where
    "v = row_outcome (Some a) Reserved_Now q" "attempt_of d' (at_pk a) = Some a" "at_desired_owner a = ag_owner (demo_agent 1 10)"
    by auto
  then show ?thesis using r by (simp add: row_outcome_def demo_agent_def)
qed

definition demo_rejected_db :: db where
  "demo_rejected_db = (case compensate_assignment_attempt enforce_cfg demo_clock 5 False ''hubspot_http_403'' False False
      (demo_assignment_db\<lparr>db_queue := [claimed_row demo_cfg demo_world demo_row]\<rparr>) of
     Inl e \<Rightarrow> demo_assignment_db | Inr (d, _) \<Rightarrow> d)"

theorem rejected_cycle_raises_witness:
  "let d = demo_rejected_db; q = hd (db_queue d) in
   ready_row 1000 None [] q \<and> claim_row enforce_cfg demo_world None q 2 ''eligible'' d = Inl IntegrityError"
proof -
  let ?d = demo_rejected_db
  let ?q = "hd (db_queue ?d)"
  have r: "ready_row 1000 None [] ?q" by code_simp
  have p: "hd (db_attempts ?d) \<in> set (db_attempts ?d)" by code_simp
  have k: "at_key (hd (db_attempts ?d)) = assignment_idempotency_key ?q Automatic" by code_simp
  have c: "nc_cycle ?q = Some 3" "cycle_assignable ?d ?q"
    "\<forall>a \<in> set (db_attempts ?d). attempt_scope ?q a \<longrightarrow> at_state a = Compensated" by code_simp+
  have g: "agent_of ?d 2 = Some (demo_agent 2 20)" "admissible enforce_cfg demo_world ?d (demo_agent 2 20)" by code_simp+
  show ?thesis using r rejected_cycle_raises [OF p k c g] by (simp add: Let_def)
qed

definition two_rows_db :: db where
  "two_rows_db = demo_waiting_db\<lparr>db_queue := [demo_row\<lparr>nc_next_attempt_at := Some 1800000000\<rparr>,
     demo_row\<lparr>nc_pk := 6, nc_cycle := None, nc_ticket := ''43'', nc_entered_at := 7\<rparr>]\<rparr>"

theorem deferral_backs_off_oldest_witness:
  "\<not> ready_row 1001 None [] (hd (db_queue two_rows_db)) \<and> ready_row 1001 None [] (db_queue two_rows_db ! 1) \<and>
   (\<exists>q'. queue_of (fst (defer_without_candidate demo_clock None [] two_rows_db)) 4 = Some q' \<and>
      nc_next_attempt_at q' = Some 30001001) \<and>
   queue_of (fst (defer_without_candidate demo_clock None [] two_rows_db)) 6 = queue_of two_rows_db 6"
proof -
  have f: "first_by queue_key (waiting_row None []) (db_queue two_rows_db) =
      Some (demo_row\<lparr>nc_next_attempt_at := Some 1800000000\<rparr>)" by code_simp
  obtain d' out where r: "defer_without_candidate demo_clock None [] two_rows_db = (d', out)"
    by (cases "defer_without_candidate demo_clock None [] two_rows_db")
  have "\<not> ready_row 1001 None [] (hd (db_queue two_rows_db))" "ready_row 1001 None [] (db_queue two_rows_db ! 1)"
    by code_simp+
  moreover have "app_clock demo_clock = 1001" by (simp add: demo_clock_def)
  ultimately show ?thesis
    using deferral_backs_off_oldest [OF f r] by (auto simp: r demo_row_def seconds_def)
qed

definition reopened_db :: db where
  "reopened_db = demo_waiting_db\<lparr>
     db_queue := [demo_row\<lparr>nc_status := Failed, nc_failure_code := ''stale_cycle''\<rparr>,
       demo_row\<lparr>nc_pk := 6, nc_cycle := Some 8, nc_entered_at := 7\<rparr>],
     db_cycles := [demo_cycle\<lparr>cy_state := Closed\<rparr>, demo_cycle\<lparr>cy_pk := 8, cy_key := ''L'', cy_entered_at := Some 7\<rparr>]\<rparr>"

theorem manual_sees_oldest_row_only_witness:
  "cycle_assignable reopened_db (db_queue reopened_db ! 1) \<and>
   manual_transaction demo_cfg demo_world ''42'' (demo_agent 1 10) ''admin'' reopened_db =
     Inr (reopened_db, outcome_only Stale_Cycle None)"
proof -
  have f: "first_by nc_entered_at (\<lambda>q. nc_ticket q = ''42'') (db_queue reopened_db) =
      Some (demo_row\<lparr>nc_status := Failed, nc_failure_code := ''stale_cycle''\<rparr>)" by code_simp
  have c: "nc_cycle (demo_row\<lparr>nc_status := Failed, nc_failure_code := ''stale_cycle''\<rparr>) = Some 3"
    "cycle_of reopened_db 3 = Some (demo_cycle\<lparr>cy_state := Closed\<rparr>)"
    "cy_state (demo_cycle\<lparr>cy_state := Closed\<rparr>) \<noteq> Queued" "\<not> capacity_enforced demo_cfg" by code_simp+
  have "cycle_assignable reopened_db (db_queue reopened_db ! 1)" by code_simp
  then show ?thesis using manual_sees_oldest_row_only [OF f c] by simp
qed

end
