(* ===== verification/Durable_Assignment.thy ===== *)
theory Durable_Assignment
  imports Assignment_Reserve
begin

text \<open>
  Driving an attempt to convergence: execution against the provider, the readback of an
  ambiguous outcome, retries, the repair batch and the retention purge of
  \<open>apps/support/durable_assignment_service.py\<close>, and the step relation of the whole protocol.

  One call meets the provider through a \<open>provider\<close>: the outcomes of its reads and of the owner
  PATCH, and \<open>reconcile_ticket\<close> as a function on the database (used by the enforcing mode).
  These calls are sequences of transactions, so they return the database together with a
  result that may be an exception.
\<close>

section \<open>The provider\<close>

record provider_ticket =
  pt_pipeline :: "string option"
  pt_stage :: "string option"
  pt_owner :: "string option"
  pt_archived :: bool

datatype ticket_read = Ticket_Read provider_ticket | Ticket_Missing | Ticket_Unreadable

record provider_error =
  pe_code :: string
  pe_status :: "int option"
  pe_retryable :: bool

datatype patch_result = Patched | Patch_Missing | Patch_Failed provider_error | Patch_Crashed py_error

datatype reconciled = Reconciled provider_ticket occupancy | Reconcile_Missing | Reconcile_Failed

record provider =
  pv_allowed :: bool
  pv_precondition :: ticket_read
  pv_patch :: patch_result
  pv_readback :: ticket_read
  pv_reconcile :: "string \<Rightarrow> string \<Rightarrow> db \<Rightarrow> db \<times> reconciled"
  pv_lock_free :: bool
  pv_release_ok :: bool

definition returning :: "db \<Rightarrow> (db \<times> attempt) result \<Rightarrow> string \<Rightarrow> db \<times> string result" where
  "returning d r out = (case r of Inl e \<Rightarrow> (d, Inl e) | Inr (d', _) \<Rightarrow> (d', Inr out))"

text \<open>\<open>int(raw) if str(raw).isdigit() else None\<close>\<close>

definition owner_number :: "string option \<Rightarrow> int option" where
  "owner_number raw = (case raw of None \<Rightarrow> None | Some s \<Rightarrow> (if isdigit s then py_int s else None))"

definition confirm_and_finalize :: "settings \<Rightarrow> clock \<Rightarrow> string \<Rightarrow> uuid \<Rightarrow> db \<Rightarrow> db \<times> string result" where
  "confirm_and_finalize cfg clk what k d =
     (case mark_external_applied cfg clk k what d of
        Inl e \<Rightarrow> (d, Inl e)
      | Inr (d1, _) \<Rightarrow> returning d1 (finalize_assignment_attempt cfg clk k d1) ''assigned'')"

definition cycle_state_of :: "db \<Rightarrow> attempt \<Rightarrow> cycle_state option" where
  "cycle_state_of d a = (case at_cycle a of None \<Rightarrow> None | Some c \<Rightarrow> map_option cy_state (cycle_of d c))"

section \<open>Reading back an ambiguous outcome\<close>

definition effect_error_code :: "provider_error option \<Rightarrow> string" where
  "effect_error_code err =
     (case err of
        None \<Rightarrow> ''ambiguous_provider_result''
      | Some e \<Rightarrow>
          (case pe_status e of
             Some s \<Rightarrow> (if pe_code e = ''unknown'' then ''hubspot_http_'' @ int_text s else pe_code e)
           | None \<Rightarrow> pe_code e))"

definition conclusive_rejection :: "provider_error option \<Rightarrow> bool" where
  "conclusive_rejection err =
     (case err of None \<Rightarrow> False
      | Some e \<Rightarrow> \<not> pe_retryable e \<and> pe_status e \<in> {Some 400, Some 401, Some 403, Some 404, Some 422})"

definition unreadable_owner ::
  "settings \<Rightarrow> clock \<Rightarrow> uuid \<Rightarrow> string \<Rightarrow> db \<Rightarrow> db \<times> string result" where
  "unreadable_owner cfg clk k code d =
     returning d (compensate_assignment_attempt cfg clk k False (code @ ''_owner_unreadable'') False True d) ''repair_required''"

text \<open>Deciding on the owner that was read.\<close>

definition converge_on_owner ::
  "settings \<Rightarrow> clock \<Rightarrow> attempt \<Rightarrow> provider_error option \<Rightarrow> string option \<Rightarrow> db \<Rightarrow> db \<times> string result" where
  "converge_on_owner cfg clk a err raw d =
     (let k = at_pk a; code = effect_error_code err; owner = owner_number raw in
      if owner = Some (at_desired_owner a) then confirm_and_finalize cfg clk ''confirmed_by_read'' k d
      else if capacity_enforced cfg then
        (if conclusive_rejection err \<and> (owner = None \<or> owner = at_prior_owner a) then
           returning d (compensate_assignment_attempt cfg clk k False code False False d) ''rejected_external_error''
         else
           returning d (compensate_assignment_attempt cfg clk k False (code @ ''_unconfirmed_owner'') False True d)
             ''repair_required'')
      else if (owner = None \<or> owner = at_prior_owner a) \<and> (case err of None \<Rightarrow> True | Some e \<Rightarrow> pe_retryable e) then
        returning d (compensate_assignment_attempt cfg clk k True code False False d) ''retryable_external_error''
      else
        returning d (compensate_assignment_attempt cfg clk k False (code @ ''_owner_conflict'') False True d)
          ''repair_required'')"

definition reconcile_ambiguous_attempt ::
  "settings \<Rightarrow> clock \<Rightarrow> provider \<Rightarrow> uuid \<Rightarrow> provider_error option \<Rightarrow> db \<Rightarrow> db \<times> string result" where
  "reconcile_ambiguous_attempt cfg clk pv k err d =
     (case attempt_of d k of
        None \<Rightarrow> (d, Inl DoesNotExist)
      | Some a \<Rightarrow>
          (if at_cycle a \<noteq> None \<and> cycle_state_of d a \<notin> {Some Queued, Some Assigned} then
             returning d (compensate_assignment_attempt cfg clk k False ''stale_cycle'' False False d) ''skipped_stale_cycle''
           else if capacity_enforced cfg then
             (case pv_reconcile pv (at_ticket a) ''effect_readback'' d of
                (d1, Reconciled t r) \<Rightarrow>
                  (if oc_state r \<in> {Oc_Closed, Oc_Out_Of_Scope} then
                     (case compensate_assignment_attempt cfg clk k False ''confirmed_terminal_scope'' False False d1 of
                        Inl e \<Rightarrow> unreadable_owner cfg clk k (effect_error_code err) d1
                      | Inr (d2, _) \<Rightarrow> (d2, Inr ''stale_ticket''))
                   else converge_on_owner cfg clk a err (map_option int_text (oc_owner r)) d1)
              | (d1, _) \<Rightarrow> unreadable_owner cfg clk k (effect_error_code err) d1)
           else
             (case pv_readback pv of
                Ticket_Read t \<Rightarrow> converge_on_owner cfg clk a err (pt_owner t) d
              | _ \<Rightarrow> unreadable_owner cfg clk k (effect_error_code err) d)))"

section \<open>Executing\<close>

fun attempt_state_value :: "attempt_state \<Rightarrow> string" where
  "attempt_state_value Reserved = ''reserved''"
| "attempt_state_value External_Applied = ''external_applied''"
| "attempt_state_value Completed = ''completed''"
| "attempt_state_value Compensating = ''compensating''"
| "attempt_state_value Compensated = ''compensated''"
| "attempt_state_value Retryable = ''retryable''"
| "attempt_state_value Att_Repair_Required = ''repair_required''"

text \<open>The read before the write: the database it leaves (reconciliation writes) and the ticket.\<close>

definition precondition_read :: "settings \<Rightarrow> provider \<Rightarrow> attempt \<Rightarrow> db \<Rightarrow> db \<times> ticket_read" where
  "precondition_read cfg pv a d =
     (if capacity_enforced cfg then
        (case pv_reconcile pv (at_ticket a) ''precondition'' d of
           (d1, Reconciled t r) \<Rightarrow> (d1, Ticket_Read t)
         | (d1, Reconcile_Missing) \<Rightarrow> (d1, Ticket_Missing)
         | (d1, Reconcile_Failed) \<Rightarrow> (d1, Ticket_Unreadable))
      else (d, pv_precondition pv))"

definition in_scope :: "settings \<Rightarrow> provider_ticket \<Rightarrow> bool" where
  "in_scope cfg t \<longleftrightarrow> opt_text (pt_pipeline t) = support_pipeline_id cfg \<and> opt_text (pt_stage t) = stage_novo_id cfg \<and>
     \<not> pt_archived t"

definition external_owner ::
  "settings \<Rightarrow> clock \<Rightarrow> provider \<Rightarrow> attempt \<Rightarrow> db \<Rightarrow> db \<times> string result" where
  "external_owner cfg clk pv a d =
     (case compensate_assignment_attempt cfg clk (at_pk a) False ''hubspot_manual_owner_observed'' True False d of
        Inl e \<Rightarrow> (d, Inl e)
      | Inr (d1, _) \<Rightarrow>
          (if capacity_enforced cfg then
             (case pv_reconcile pv (at_ticket a) ''external_owner'' d1 of
                (d2, Reconciled t r) \<Rightarrow> (d2, Inr ''converged_external_owner'')
              | (d2, _) \<Rightarrow> (d2, Inl RuntimeError))
           else (d1, Inr ''converged_external_owner'')))"

definition apply_owner ::
  "settings \<Rightarrow> clock \<Rightarrow> provider \<Rightarrow> attempt \<Rightarrow> db \<Rightarrow> db \<times> string result" where
  "apply_owner cfg clk pv a d =
     (case pv_patch pv of
        Patch_Missing \<Rightarrow>
          returning d (compensate_assignment_attempt cfg clk (at_pk a) False ''hubspot_ticket_not_found'' True False d)
            ''stale_ticket''
      | Patch_Failed e \<Rightarrow> reconcile_ambiguous_attempt cfg clk pv (at_pk a) (Some e) d
      | Patch_Crashed e \<Rightarrow> (d, Inl e)
      | Patched \<Rightarrow> reconcile_ambiguous_attempt cfg clk pv (at_pk a) None d)"

definition apply_effect :: "settings \<Rightarrow> clock \<Rightarrow> provider \<Rightarrow> attempt \<Rightarrow> db \<Rightarrow> db \<times> string result" where
  "apply_effect cfg clk pv a d =
     (let k = at_pk a in
      case precondition_read cfg pv a d of
        (d1, Ticket_Missing) \<Rightarrow>
          returning d1 (compensate_assignment_attempt cfg clk k False ''hubspot_ticket_not_found'' True False d1) ''stale_ticket''
      | (d1, Ticket_Unreadable) \<Rightarrow>
          returning d1 (compensate_assignment_attempt cfg clk k True ''hubspot_precondition_unreadable'' False False d1)
            ''retryable_external_error''
      | (d1, Ticket_Read t) \<Rightarrow>
          (if \<not> in_scope cfg t then
             returning d1 (compensate_assignment_attempt cfg clk k False ''stale_ticket'' True False d1) ''stale_ticket''
           else
             (let raw = strip (opt_text (pt_owner t)) in
              if raw \<noteq> [] then
                (if owner_number (Some raw) = Some (at_desired_owner a)
                 then confirm_and_finalize cfg clk ''confirmed_before_write'' k d1
                 else external_owner cfg clk pv a d1)
              else apply_owner cfg clk pv a d1)))"

definition execute_unlocked :: "settings \<Rightarrow> clock \<Rightarrow> provider \<Rightarrow> uuid \<Rightarrow> db \<Rightarrow> db \<times> string result" where
  "execute_unlocked cfg clk pv k d =
     (case attempt_of d k of
        None \<Rightarrow> (d, Inl DoesNotExist)
      | Some a \<Rightarrow>
          (if at_state a = Completed then (d, Inr ''assigned'')
           else if at_cycle a \<noteq> None \<and> cycle_state_of d a \<noteq> Some Queued then
             returning d (compensate_assignment_attempt cfg clk k False ''stale_cycle'' False False d) ''skipped_stale_cycle''
           else if at_state a = External_Applied then reconcile_ambiguous_attempt cfg clk pv k None d
           else if at_state a \<noteq> Reserved then (d, Inr (attempt_state_value (at_state a)))
           else if \<not> pv_allowed pv then
             returning d (compensate_assignment_attempt cfg clk k True ''hubspot_provider_contract_unavailable'' False False d)
               ''retryable_external_error''
           else apply_effect cfg clk pv a d))"

text \<open>
  In the enforcing mode the effect of an attempt is serialized by a cache lock, whose release
  may raise.
\<close>

definition execute_assignment_attempt :: "settings \<Rightarrow> clock \<Rightarrow> provider \<Rightarrow> uuid \<Rightarrow> db \<Rightarrow> db \<times> string result" where
  "execute_assignment_attempt cfg clk pv k d =
     (if \<not> capacity_enforced cfg then execute_unlocked cfg clk pv k d
      else if \<not> pv_lock_free pv then (d, Inr ''effect_in_progress'')
      else (case execute_unlocked cfg clk pv k d of
              (d', r) \<Rightarrow> (d', if pv_release_ok pv then r else Inl ConnectionError)))"

section \<open>Retrying\<close>

definition released_reservation :: "db \<Rightarrow> uuid \<Rightarrow> bool" where
  "released_reservation d k = exists_row (\<lambda>r. rs_attempt r = Some k \<and> rs_state r = Released) (db_reservations d)"

definition reserved_again :: "clock \<Rightarrow> agent \<Rightarrow> attempt \<Rightarrow> attempt" where
  "reserved_again clk g a = a\<lparr>at_state := Reserved, at_reserved_at := db_clock clk, at_comp_started_at := None,
     at_compensated_at := None, at_next_retry_at := None, at_elig_revision := ag_avail_revision g,
     at_updated_at := app_clock clk\<rparr>"

text \<open>\<open>Some out\<close>: the transaction returns early; \<open>None\<close>: the attempt is reserved again.\<close>

definition retry_transaction ::
  "settings \<Rightarrow> world \<Rightarrow> uuid \<Rightarrow> db \<Rightarrow> (db \<times> string option) result" where
  "retry_transaction cfg w k d =
     (case assignment_transaction cfg k d of
        Inl e \<Rightarrow> Inl e
      | Inr (d1, occ) \<Rightarrow>
          (case attempt_of d1 k of
             None \<Rightarrow> Inl DoesNotExist
           | Some a \<Rightarrow>
               (if capacity_enforced cfg \<and> \<not> released_reservation d1 k then
                  Inr (d1, Some ''capacity_reservation_not_released'')
                else
                  (case agent_of d1 (at_agent a) of
                     None \<Rightarrow> Inl DoesNotExist
                   | Some g \<Rightarrow>
                       (let now = db_clock (wd_clock w) in
                        if at_state a \<noteq> Retryable \<or> \<not> eligible (evaluate_persisted_agent cfg g now) \<or>
                           (capacity_enforced cfg \<and> \<not> capacity_ready cfg (app_clock (wd_clock w)) d1 g)
                        then Inr (d1, Some (attempt_state_value (at_state a)))
                        else
                          (case save_attempt (reserved_again (wd_clock w) g a) (put_agent (loaded_agent cfg now g) d1) of
                             Inl e \<Rightarrow> Inl e
                           | Inr d2 \<Rightarrow>
                               Inr (case occ of
                                      None \<Rightarrow> d2
                                    | Some r \<Rightarrow> hold_capacity cfg (app_clock (wd_clock w)) r (ag_pk g) (Attempt_Op k) d2,
                                    None)))))))"

definition retry_assignment_attempt ::
  "settings \<Rightarrow> world \<Rightarrow> provider \<Rightarrow> uuid \<Rightarrow> db \<Rightarrow> db \<times> string result" where
  "retry_assignment_attempt cfg w pv k d =
     (case attempt_of d k of
        None \<Rightarrow> (d, Inl DoesNotExist)
      | Some a \<Rightarrow>
          (if at_state a \<noteq> Retryable then (d, Inr (attempt_state_value (at_state a)))
           else if capacity_enforced cfg \<and> \<not> released_reservation d k then (d, Inr ''capacity_reservation_not_released'')
           else if at_cycle a \<noteq> None \<and> cycle_state_of d a \<noteq> Some Queued then (d, Inr ''skipped_stale_cycle'')
           else
             (case (if capacity_enforced cfg then wd_refresh w (at_agent a) d else (d, True)) of
                (d1, False) \<Rightarrow> (d1, Inr ''capacity_not_ready'')
              | (d1, True) \<Rightarrow>
                  (case agent_of d1 (at_agent a) of
                     None \<Rightarrow> (d1, Inl DoesNotExist)
                   | Some g \<Rightarrow>
                       (if \<not> eligible (evaluate_persisted_agent cfg g (app_clock (wd_clock w))) then (d1, Inr ''retryable'')
                        else if \<not> eligible (sat_verify_agent_assignment_eligibility w g) then (d1, Inr ''retryable'')
                        else
                          (case retry_transaction cfg w k d1 of
                             Inl e \<Rightarrow> (d1, Inl e)
                           | Inr (d2, Some out) \<Rightarrow> (d2, Inr out)
                           | Inr (d2, None) \<Rightarrow> execute_assignment_attempt cfg (wd_clock w) pv k d2))))))"

section \<open>Repairing\<close>

type_synonym counts = "(string \<times> nat) list"

definition bump :: "string \<Rightarrow> counts \<Rightarrow> counts" where
  "bump key cs = map (\<lambda>(k, n). if k = key then (k, Suc n) else (k, n)) cs"

definition count_of :: "string \<Rightarrow> counts \<Rightarrow> nat" where
  "count_of key cs = (case map_of cs key of None \<Rightarrow> 0 | Some n \<Rightarrow> n)"

fun error_name :: "py_error \<Rightarrow> string" where
  "error_name DoesNotExist = ''DoesNotExist''"
| "error_name MultipleObjectsReturned = ''MultipleObjectsReturned''"
| "error_name IntegrityError = ''IntegrityError''"
| "error_name ValueError = ''ValueError''"
| "error_name ForbiddenError = ''ForbiddenError''"
| "error_name RuntimeError = ''RuntimeError''"
| "error_name ConflictError = ''ConflictError''"
| "error_name TypeError = ''TypeError''"
| "error_name ConnectionError = ''ConnectionError''"
| "error_name InvalidStateTransitionError = ''InvalidStateTransitionError''"
| "error_name InvalidOccurrenceEvidenceError = ''InvalidOccurrenceEvidenceError''"
| "error_name CapacityObservationConflictError = ''CapacityObservationConflictError''"
| "error_name ExternalServiceError = ''ExternalServiceError''"
| "error_name (UnexpectedError name) = name"

text \<open>
  What one batch meets besides the provider: rows locked by other transactions, effect locks
  held by other workers, and whether the release of an effect lock reaches the cache.
\<close>

record repair_env =
  re_provider :: "uuid \<Rightarrow> provider"
  re_row_locked :: "uuid \<Rightarrow> bool"
  re_effect_lock :: "uuid \<Rightarrow> bool"
  re_release_ok :: "uuid \<Rightarrow> bool"

definition repair_due :: "settings \<Rightarrow> instant \<Rightarrow> attempt \<Rightarrow> bool" where
  "repair_due cfg now a =
     (let stale = now - seconds (assignment_stuck_after_seconds cfg) in
      (at_state a = External_Applied \<and> at_updated_at a \<le> stale) \<or>
      (at_state a = Retryable \<and> (case at_next_retry_at a of None \<Rightarrow> False | Some t \<Rightarrow> t \<le> now)) \<or>
      (at_state a = Reserved \<and> at_reserved_at a \<le> stale) \<or>
      (at_state a = Att_Repair_Required \<and> at_updated_at a \<le> stale))"

definition repair_batch :: "settings \<Rightarrow> instant \<Rightarrow> nat \<Rightarrow> db \<Rightarrow> attempt list" where
  "repair_batch cfg now limit d =
     take limit (sort_key (\<lambda>a. (at_updated_at a, at_pk a)) (filter (repair_due cfg now) (db_attempts d)))"

text \<open>
  One item: the database left behind, the outcome to count, and the name of an exception.  When
  the release of the effect lock fails, an item has both.
\<close>

type_synonym repair_item = "db \<times> string option \<times> string option"

definition item_of :: "db \<Rightarrow> db \<times> string result \<Rightarrow> repair_item" where
  "item_of d r = (case r of (d', Inl e) \<Rightarrow> (d, None, Some (error_name e)) | (d', Inr out) \<Rightarrow> (d', Some out, None))"

definition repair_locked_row :: "settings \<Rightarrow> world \<Rightarrow> repair_env \<Rightarrow> uuid \<Rightarrow> db \<Rightarrow> repair_item" where
  "repair_locked_row cfg w env k d =
     (case (if re_row_locked env k then None else attempt_of d k) of
        None \<Rightarrow> (d, Some ''conflict'', None)
      | Some a \<Rightarrow>
          item_of d
            (if at_state a = Retryable then retry_assignment_attempt cfg w (re_provider env k) k d
             else reconcile_ambiguous_attempt cfg (wd_clock w) (re_provider env k) k None d))"

definition repair_effect_locked :: "settings \<Rightarrow> world \<Rightarrow> repair_env \<Rightarrow> attempt \<Rightarrow> db \<Rightarrow> repair_item" where
  "repair_effect_locked cfg w env a d =
     (let k = at_pk a in
      if \<not> re_effect_lock env k then (d, Some ''conflict'', None)
      else if at_state a = Retryable then
        (if \<not> re_release_ok env k then (d, None, Some ''ConnectionError'')
         else (let r = retry_assignment_attempt cfg w (re_provider env k) k d in item_of (fst r) r))
      else
        (let r = reconcile_ambiguous_attempt cfg (wd_clock w) (re_provider env k) k None d;
             (d', out, name) = item_of (fst r) r
         in (d', out, if re_release_ok env k then name else Some ''ConnectionError'')))"

definition mark_repair_failed :: "uuid \<Rightarrow> string \<Rightarrow> db \<Rightarrow> db result" where
  "mark_repair_failed k name d =
     (case attempt_of d k of
        None \<Rightarrow> Inr d
      | Some a \<Rightarrow> save_attempt (a\<lparr>at_state := Att_Repair_Required, at_last_error := take 64 name\<rparr>) d)"

definition repair_outcome :: "string \<Rightarrow> string" where
  "repair_outcome out = (if out = ''assigned'' then ''completed'' else out)"

fun repair_items ::
  "settings \<Rightarrow> world \<Rightarrow> repair_env \<Rightarrow> attempt list \<Rightarrow> counts \<Rightarrow> db \<Rightarrow> db \<times> counts result" where
  "repair_items cfg w env [] cs d = (d, Inr cs)"
| "repair_items cfg w env (a # as) cs d =
     (case (if capacity_enforced cfg then repair_effect_locked cfg w env a d
            else repair_locked_row cfg w env (at_pk a) d) of
        (d', out, name) \<Rightarrow>
          (let cs' = (case out of None \<Rightarrow> cs | Some o' \<Rightarrow> bump (repair_outcome o') cs) in
           case name of
             None \<Rightarrow> repair_items cfg w env as cs' d'
           | Some e \<Rightarrow>
               (case mark_repair_failed (at_pk a) e d' of
                  Inl e' \<Rightarrow> (d', Inl e')
                | Inr d'' \<Rightarrow> repair_items cfg w env as (bump ''failed_unexpected'' cs') d'')))"

definition repair_assignment_attempts ::
  "settings \<Rightarrow> world \<Rightarrow> repair_env \<Rightarrow> nat \<Rightarrow> db \<Rightarrow> db \<times> counts result" where
  "repair_assignment_attempts cfg w env limit d =
     (let batch = repair_batch cfg (app_clock (wd_clock w)) limit d
      in repair_items cfg w env batch
           [(''scanned'', length batch), (''completed'', 0), (''retryable'', 0), (''repair_required'', 0),
            (''conflict'', 0), (''failed_unexpected'', 0), (''skipped_stale_cycle'', 0)] d)"

section \<open>Retention\<close>

definition purge_selection :: "settings \<Rightarrow> instant \<Rightarrow> int option \<Rightarrow> nat \<Rightarrow> db \<Rightarrow> uuid list" where
  "purge_selection cfg now days limit d =
     (let period = (case days of None \<Rightarrow> assignment_retention_days cfg | Some n \<Rightarrow> n);
          cutoff = now - seconds (86400 * period)
      in map at_pk (take limit (sort_key at_updated_at
           (filter (\<lambda>a. at_state a \<in> set terminal_attempt_states \<and> at_updated_at a < cutoff) (db_attempts d)))))"

text \<open>Deleting attempts deletes their reservations and clears the reference of their logs.\<close>

definition delete_attempts :: "uuid list \<Rightarrow> db \<Rightarrow> db" where
  "delete_attempts ks d = d\<lparr>
     db_attempts := delete_rows (\<lambda>a. at_pk a \<in> set ks) (db_attempts d),
     db_reservations := delete_rows (\<lambda>r. \<exists>k \<in> set ks. rs_attempt r = Some k) (db_reservations d),
     db_logs := update_rows (\<lambda>l. \<exists>k \<in> set ks. lg_attempt l = Some k) (\<lambda>l. l\<lparr>lg_attempt := None\<rparr>) (db_logs d)\<rparr>"

definition purge_terminal_assignment_attempts ::
  "settings \<Rightarrow> instant \<Rightarrow> int option \<Rightarrow> nat \<Rightarrow> db \<Rightarrow> db \<times> nat" where
  "purge_terminal_assignment_attempts cfg now days limit d =
     (let ks = purge_selection cfg now days limit d
      in if ks = [] then (d, 0)
         else (delete_attempts ks d,
               count_rows (\<lambda>a. at_pk a \<in> set ks) (db_attempts d) +
               count_rows (\<lambda>r. \<exists>k \<in> set ks. rs_attempt r = Some k) (db_reservations d)))"

section \<open>The protocol as a step relation\<close>

text \<open>The identity an attempt is unique for: its cycle, or its ticket when it has none.\<close>

definition scope_of :: "attempt \<Rightarrow> assignment_identity" where
  "scope_of a = (case at_cycle a of Some c \<Rightarrow> Cycle_Identity c | None \<Rightarrow> Legacy_Ticket (at_ticket a))"

definition row_scope :: "queue_row \<Rightarrow> assignment_identity" where
  "row_scope q = (case nc_cycle q of Some c \<Rightarrow> Cycle_Identity c | None \<Rightarrow> Legacy_Ticket (nc_ticket q))"

lemma attempt_scope_iff: "attempt_scope q a \<longleftrightarrow> scope_of a = row_scope q"
  by (auto simp: attempt_scope_def scope_of_def row_scope_def split: option.splits)

text \<open>
  One transaction of the protocol, or a write of another component.  Other components change
  agents, queue rows, occupancies and cohorts freely; they insert cycles under new keys and
  move cycles to any state but \<open>queued\<close> (closing, cancelling, repair).  The write of the
  repair job's exception handler is a step (\<open>failing\<close>), but for a terminal attempt that has
  no cycle, which no constraint of the database protects.
\<close>

inductive protocol_step :: "settings \<Rightarrow> db \<Rightarrow> db \<Rightarrow> bool" for cfg where
  reserving: "reserve_candidate cfg w ticket excluded pre k why d = Inr (d', v) \<Longrightarrow> protocol_step cfg d d'"
| manually: "manual_transaction cfg w ticket candidate by d = Inr (d', v) \<Longrightarrow> protocol_step cfg d d'"
| applying: "mark_external_applied cfg clk k what d = Inr (d', a) \<Longrightarrow> protocol_step cfg d d'"
| finalizing: "finalize_assignment_attempt cfg clk k d = Inr (d', a) \<Longrightarrow> protocol_step cfg d d'"
| compensating: "compensate_assignment_attempt cfg clk k retryable code quarantine repair d = Inr (d', a) \<Longrightarrow> protocol_step cfg d d'"
| retrying: "retry_transaction cfg w k d = Inr (d', out) \<Longrightarrow> protocol_step cfg d d'"
| deferring: "defer_without_candidate clk ticket excluded d = (d', out') \<Longrightarrow> protocol_step cfg d d'"
| failing: "mark_repair_failed k name d = Inr d' \<Longrightarrow>
    \<forall>a. attempt_of d k = Some a \<longrightarrow> at_cycle a \<noteq> None \<or> is_live (at_state a) \<Longrightarrow> protocol_step cfg d d'"
| purging: "protocol_step cfg d (fst (purge_terminal_assignment_attempts cfg now days limit d))"
| admitting: "cycle_of d (cy_pk c) = None \<Longrightarrow> \<forall>a \<in> set (db_attempts d). at_cycle a \<noteq> Some (cy_pk c) \<Longrightarrow>
    protocol_step cfg d (d\<lparr>db_cycles := db_cycles d @ [c]\<rparr>)"
| moving: "cycle_of d (cy_pk c) = Some c \<Longrightarrow> s \<noteq> Queued \<Longrightarrow> protocol_step cfg d (put_cycle (c\<lparr>cy_state := s\<rparr>) d)"
| elsewhere: "protocol_step cfg d (d\<lparr>db_agents := gs, db_queue := qs, db_occupancies := os, db_cohorts := cs, db_next_pk := n\<rparr>)"

inductive reachable :: "settings \<Rightarrow> db \<Rightarrow> bool" for cfg where
  start: "reachable cfg empty_db"
| step: "reachable cfg d \<Longrightarrow> protocol_step cfg d d' \<Longrightarrow> reachable cfg d'"

inductive_cases protocol_stepE: "protocol_step cfg d d'"

definition protocol_inv :: "db \<Rightarrow> bool" where
  "protocol_inv d \<longleftrightarrow>
     distinct (map at_pk (db_attempts d)) \<and>
     (\<forall>a \<in> set (db_attempts d). \<forall>b \<in> set (db_attempts d). is_live (at_state a) \<longrightarrow> is_live (at_state b) \<longrightarrow>
        scope_of a = scope_of b \<longrightarrow> at_pk a = at_pk b) \<and>
     (\<forall>a \<in> set (db_attempts d). \<forall>b \<in> set (db_attempts d). at_key a = at_key b \<longrightarrow> at_pk a = at_pk b) \<and>
     (\<forall>a \<in> set (db_attempts d). \<forall>c. at_state a = Completed \<longrightarrow> at_cycle a = Some c \<longrightarrow>
        (\<exists>x. cycle_of d c = Some x \<and> cy_state x \<noteq> Queued)) \<and>
     (\<forall>a \<in> set (db_attempts d). \<forall>b \<in> set (db_attempts d). at_state a = Completed \<longrightarrow> at_state b = Completed \<longrightarrow>
        at_cycle a \<noteq> None \<longrightarrow> at_cycle a = at_cycle b \<longrightarrow> at_pk a = at_pk b)"

section \<open>The invariant is preserved\<close>

text \<open>
  Every transaction changes the attempts in one of two ways: it appends an attempt that clashes
  with none and is alone alive in its scope, or it replaces one attempt by one with the same
  identity that is alive only if the old one was.
\<close>

definition same_identity :: "attempt \<Rightarrow> attempt \<Rightarrow> bool" where
  "same_identity a b \<longleftrightarrow> at_pk a = at_pk b \<and> at_key a = at_key b \<and> at_cycle a = at_cycle b \<and> at_ticket a = at_ticket b"

lemma same_identity_scope: "same_identity a b \<Longrightarrow> scope_of a = scope_of b"
  by (simp add: same_identity_def scope_of_def split: option.splits)

lemma protocol_invD:
  assumes "protocol_inv d"
  shows "distinct (map at_pk (db_attempts d))"
    "\<And>a b. a \<in> set (db_attempts d) \<Longrightarrow> b \<in> set (db_attempts d) \<Longrightarrow> is_live (at_state a) \<Longrightarrow> is_live (at_state b) \<Longrightarrow>
       scope_of a = scope_of b \<Longrightarrow> at_pk a = at_pk b"
    "\<And>a b. a \<in> set (db_attempts d) \<Longrightarrow> b \<in> set (db_attempts d) \<Longrightarrow> at_key a = at_key b \<Longrightarrow> at_pk a = at_pk b"
    "\<And>a c. a \<in> set (db_attempts d) \<Longrightarrow> at_state a = Completed \<Longrightarrow> at_cycle a = Some c \<Longrightarrow>
       \<exists>x. cycle_of d c = Some x \<and> cy_state x \<noteq> Queued"
    "\<And>a b. a \<in> set (db_attempts d) \<Longrightarrow> b \<in> set (db_attempts d) \<Longrightarrow> at_state a = Completed \<Longrightarrow> at_state b = Completed \<Longrightarrow>
       at_cycle a \<noteq> None \<Longrightarrow> at_cycle a = at_cycle b \<Longrightarrow> at_pk a = at_pk b"
  using assms unfolding protocol_inv_def by blast+

text \<open>Steps that keep the attempts and only move cycles away from \<open>queued\<close>.\<close>

lemma protocol_inv_cong:
  assumes "protocol_inv d" and "db_attempts d' = db_attempts d"
    and "\<And>c x. cycle_of d c = Some x \<Longrightarrow> cy_state x \<noteq> Queued \<Longrightarrow> \<exists>y. cycle_of d' c = Some y \<and> cy_state y \<noteq> Queued"
  shows "protocol_inv d'"
proof -
  note inv = protocol_invD [OF assms(1)]
  show ?thesis
    unfolding protocol_inv_def assms(2)
  proof (intro conjI ballI impI allI)
    fix a c
    assume "a \<in> set (db_attempts d)" "at_state a = Completed" "at_cycle a = Some c"
    then obtain x where "cycle_of d c = Some x" "cy_state x \<noteq> Queued" using inv(4) by blast
    then show "\<exists>x. cycle_of d' c = Some x \<and> cy_state x \<noteq> Queued" by (rule assms(3))
  qed (fact inv(1), erule (4) inv(2), erule (2) inv(3), erule (5) inv(5))
qed

lemma protocol_inv_insert:
  assumes "protocol_inv d" and "db_attempts d' = db_attempts d @ [a]" and "\<forall>b \<in> set (db_attempts d). \<not> attempt_clash a b"
    and "at_state a \<noteq> Completed" and "db_cycles d' = db_cycles d"
    and "\<And>b. b \<in> set (db_attempts d) \<Longrightarrow> scope_of b = scope_of a \<Longrightarrow> \<not> is_live (at_state b)"
  shows "protocol_inv d'"
proof -
  note inv = protocol_invD [OF assms(1)]
  have key: "at_key b \<noteq> at_key a" "at_pk b \<noteq> at_pk a" if "b \<in> set (db_attempts d)" for b
    using assms(3) that by (auto simp: attempt_clash_def)
  have "cycle_of d' = cycle_of d" using assms(5) by (simp add: cycle_of_def fun_eq_iff)
  moreover have "distinct (map at_pk (db_attempts d'))"
  proof -
    have "at_pk a \<notin> at_pk ` set (db_attempts d)" using key(2) by (metis imageE)
    then show ?thesis by (simp add: assms(2) inv(1))
  qed
  moreover have mem: "b = a \<or> b \<in> set (db_attempts d)" if "b \<in> set (db_attempts d')" for b
    using that assms(2) by auto
  ultimately show ?thesis
    unfolding protocol_inv_def
  proof (intro conjI ballI impI allI)
    fix b c
    assume b: "b \<in> set (db_attempts d')" "c \<in> set (db_attempts d')" "is_live (at_state b)" "is_live (at_state c)"
      "scope_of b = scope_of c"
    then show "at_pk b = at_pk c" using mem [OF b(1)] mem [OF b(2)] inv(2) [of b c] assms(6) by metis
  next
    fix b c
    assume b: "b \<in> set (db_attempts d')" "c \<in> set (db_attempts d')" "at_key b = at_key c"
    then show "at_pk b = at_pk c" using mem [OF b(1)] mem [OF b(2)] inv(3) [of b c] key(1) by metis
  next
    fix b c
    assume b: "b \<in> set (db_attempts d')" "at_state b = Completed" "at_cycle b = Some c"
    then have "b \<in> set (db_attempts d)" using mem [OF b(1)] assms(4) by auto
    then show "\<exists>x. cycle_of d' c = Some x \<and> cy_state x \<noteq> Queued"
      using inv(4) [OF _ b(2,3)] \<open>cycle_of d' = cycle_of d\<close> by simp
  next
    fix b c
    assume b: "b \<in> set (db_attempts d')" "c \<in> set (db_attempts d')" "at_state b = Completed" "at_state c = Completed"
      "at_cycle b \<noteq> None" "at_cycle b = at_cycle c"
    have "b \<in> set (db_attempts d)" "c \<in> set (db_attempts d)"
      using mem [OF b(1)] mem [OF b(2)] b(3,4) assms(4) by auto
    then show "at_pk b = at_pk c" using inv(5) b(3-6) by blast
  qed
qed

lemma live_not_completed: "is_live s \<Longrightarrow> s \<noteq> Completed"
  by (auto simp: is_live_iff terminal_attempt_states_def)

lemma protocol_inv_replace:
  assumes "protocol_inv d" and "a \<in> set (db_attempts d)" and "same_identity a' a"
    and "is_live (at_state a') \<Longrightarrow> is_live (at_state a)"
    and rows: "\<And>b. b \<in> set (db_attempts d') \<Longrightarrow> b = a' \<or>
        (\<exists>o'. o' \<in> set (db_attempts d) \<and> same_identity b o' \<and> at_state b = at_state o' \<and> at_pk o' \<noteq> at_pk a')"
    and pks: "map at_pk (db_attempts d') = map at_pk (db_attempts d)"
    and cycles: "\<And>c x. cycle_of d c = Some x \<Longrightarrow> cy_state x \<noteq> Queued \<Longrightarrow> \<exists>y. cycle_of d' c = Some y \<and> cy_state y \<noteq> Queued"
    and completed: "at_state a' = Completed \<Longrightarrow> at_state a \<noteq> Completed \<Longrightarrow>
        (\<forall>c. at_cycle a' = Some c \<longrightarrow> (\<exists>x. cycle_of d' c = Some x \<and> cy_state x \<noteq> Queued) \<and>
           (\<forall>b \<in> set (db_attempts d). at_state b = Completed \<longrightarrow> at_cycle b \<noteq> Some c))"
  shows "protocol_inv d'"
proof -
  note inv = protocol_invD [OF assms(1)]
  have id: "at_pk a' = at_pk a" "at_key a' = at_key a" "at_cycle a' = at_cycle a" "scope_of a' = scope_of a"
    using assms(3) same_identity_scope [OF assms(3)] unfolding same_identity_def by blast+
  define old where "old b o' \<longleftrightarrow> o' \<in> set (db_attempts d) \<and> at_pk b = at_pk o' \<and> at_key b = at_key o' \<and>
      at_cycle b = at_cycle o' \<and> scope_of b = scope_of o' \<and> (is_live (at_state b) \<longrightarrow> is_live (at_state o')) \<and>
      (at_state b = Completed \<longrightarrow> at_state o' = Completed \<or> (b = a' \<and> o' = a))" for b o'
  have old: "\<exists>o'. old b o'" if "b \<in> set (db_attempts d')" for b
    using rows [OF that]
  proof
    assume "b = a'"
    then have "old b a" using assms(2,4) id unfolding old_def by blast
    then show ?thesis ..
  next
    assume "\<exists>o'. o' \<in> set (db_attempts d) \<and> same_identity b o' \<and> at_state b = at_state o' \<and> at_pk o' \<noteq> at_pk a'"
    then obtain o' where "o' \<in> set (db_attempts d)" "same_identity b o'" "at_state b = at_state o'" by blast
    then have "old b o'" using same_identity_scope [of b o'] unfolding old_def same_identity_def by metis
    then show ?thesis ..
  qed
  show ?thesis
    unfolding protocol_inv_def
  proof (intro conjI ballI impI allI)
    show "distinct (map at_pk (db_attempts d'))" using inv(1) pks by simp
  next
    fix b c
    assume "b \<in> set (db_attempts d')" "c \<in> set (db_attempts d')" "is_live (at_state b)" "is_live (at_state c)"
      "scope_of b = scope_of c"
    then show "at_pk b = at_pk c" using old inv(2) unfolding old_def by metis
  next
    fix b c
    assume "b \<in> set (db_attempts d')" "c \<in> set (db_attempts d')" "at_key b = at_key c"
    then show "at_pk b = at_pk c" using old inv(3) unfolding old_def by metis
  next
    fix b c
    assume b: "b \<in> set (db_attempts d')" "at_state b = Completed" "at_cycle b = Some c"
    then obtain o' where o': "old b o'" using old by blast
    show "\<exists>x. cycle_of d' c = Some x \<and> cy_state x \<noteq> Queued"
    proof (cases "at_state o' = Completed")
      case True
      then obtain x where "cycle_of d c = Some x" "cy_state x \<noteq> Queued" using inv(4) o' b unfolding old_def by metis
      then show ?thesis by (rule cycles)
    next
      case False
      then have "b = a'" "o' = a" using o' b(2) unfolding old_def by auto
      then show ?thesis using completed False b by auto
    qed
  next
    fix b c
    assume b: "b \<in> set (db_attempts d')" "c \<in> set (db_attempts d')" "at_state b = Completed" "at_state c = Completed"
      "at_cycle b \<noteq> None" "at_cycle b = at_cycle c"
    obtain p q where p: "old b p" and q: "old c q" using old b(1,2) by blast
    have new: False if "old x p'" "old y q'" "at_state p' = Completed" "at_state q' \<noteq> Completed" "at_state y = Completed"
      and cyc: "at_cycle x = at_cycle y" "at_cycle x \<noteq> None" for x y p' q'
    proof -
      have y: "y = a'" "q' = a" using that(2,4,5) unfolding old_def by auto
      obtain k where k: "at_cycle a' = Some k" using cyc y by auto
      have "at_state a' = Completed" "at_state a \<noteq> Completed" using that(4,5) y by auto
      then have "\<forall>b \<in> set (db_attempts d). at_state b = Completed \<longrightarrow> at_cycle b \<noteq> Some k" using completed k by blast
      moreover have "p' \<in> set (db_attempts d)" "at_cycle p' = Some k" using that(1) cyc(1) k y unfolding old_def by auto
      ultimately show False using that(3) by blast
    qed
    show "at_pk b = at_pk c"
    proof (cases "at_state p = Completed \<and> at_state q = Completed")
      case True
      have "at_pk p = at_pk q"
        by (rule inv(5)) (use True p q b(5,6) in \<open>simp_all add: old_def\<close>)
      then show ?thesis using p q unfolding old_def by simp
    next
      case False
      then consider "at_state p = Completed" "at_state q \<noteq> Completed" | "at_state q = Completed" "at_state p \<noteq> Completed"
        | "at_state p \<noteq> Completed" "at_state q \<noteq> Completed" by blast
      then show ?thesis
      proof cases
        case 1
        show ?thesis using new [OF p q 1 b(4,6,5)] ..
      next
        case 2
        have "at_cycle c \<noteq> None" using b(5,6) by simp
        then show ?thesis using new [OF q p 2 b(3) b(6) [symmetric]] by blast
      next
        case 3
        have "b = a'" "c = a'" using p q b(3,4) 3 unfolding old_def by blast+
        then show ?thesis by simp
      qed
    qed
  qed
qed

lemma protocol_inv_save:
  assumes "protocol_inv d" and "a \<in> set (db_attempts d)" and "same_identity a' a"
    and "is_live (at_state a') \<Longrightarrow> is_live (at_state a)" and "at_state a' \<noteq> Completed"
    and "db_attempts d' = save_row at_pk a' (db_attempts d)" and "db_cycles d' = db_cycles d"
  shows "protocol_inv d'"
proof (rule protocol_inv_replace [OF assms(1-4)])
  show "b = a' \<or> (\<exists>o'. o' \<in> set (db_attempts d) \<and> same_identity b o' \<and> at_state b = at_state o' \<and> at_pk o' \<noteq> at_pk a')"
    if "b \<in> set (db_attempts d')" for b
    using in_save_row [of b at_pk a' "db_attempts d"] that assms(6) by (auto simp: same_identity_def)
  show "\<exists>y. cycle_of d' c = Some y \<and> cy_state y \<noteq> Queued" if "cycle_of d c = Some x" "cy_state x \<noteq> Queued" for c x
    using that assms(7) by (simp add: cycle_of_def)
qed (use assms(5,6) in simp_all)

lemma protocol_inv_map:
  assumes "protocol_inv d" and "db_attempts d' = map f (db_attempts d)" and "db_cycles d' = db_cycles d"
    and "\<And>a. same_identity (f a) a \<and> at_state (f a) = at_state a"
  shows "protocol_inv d'"
proof -
  note inv = protocol_invD [OF assms(1)]
  have f: "at_pk (f a) = at_pk a" "at_key (f a) = at_key a" "at_cycle (f a) = at_cycle a" "scope_of (f a) = scope_of a"
    "at_state (f a) = at_state a" for a
    using assms(4) [of a] same_identity_scope [of "f a" a] unfolding same_identity_def by blast+
  have c: "cycle_of d' = cycle_of d" using assms(3) by (simp add: cycle_of_def fun_eq_iff)
  show ?thesis
    unfolding protocol_inv_def assms(2) c
  proof (intro conjI ballI impI allI)
    show "distinct (map at_pk (map f (db_attempts d)))" using inv(1) by (simp add: o_def f(1))
  next
    fix a c
    assume "a \<in> set (map f (db_attempts d))" "at_state a = Completed" "at_cycle a = Some c"
    then obtain x where "x \<in> set (db_attempts d)" "at_state x = Completed" "at_cycle x = Some c" using f by auto
    then show "\<exists>x. cycle_of d c = Some x \<and> cy_state x \<noteq> Queued" by (rule inv(4))
  next
    fix a b
    assume "a \<in> set (map f (db_attempts d))" "b \<in> set (map f (db_attempts d))"
    then obtain x y where i: "x \<in> set (db_attempts d)" "y \<in> set (db_attempts d)" and xy: "a = f x" "b = f y" by auto
    show "at_pk a = at_pk b" if "is_live (at_state a)" "is_live (at_state b)" "scope_of a = scope_of b"
      using inv(2) [OF i] that by (simp only: xy f)
    show "at_pk a = at_pk b" if "at_key a = at_key b" using inv(3) [OF i] that by (simp only: xy f)
    show "at_pk a = at_pk b" if "at_state a = Completed" "at_state b = Completed" "at_cycle a \<noteq> None" "at_cycle a = at_cycle b"
      using inv(5) [OF i] that unfolding xy f by blast
  qed
qed

lemma protocol_inv_unlink: "protocol_inv d \<Longrightarrow> protocol_inv (delete_queue_row q d)"
  by (rule protocol_inv_map [where f = "\<lambda>a. if at_queue_row a = Some q then a\<lparr>at_queue_row := None\<rparr> else a"])
    (auto simp: delete_queue_row_def update_rows_def same_identity_def)

lemma protocol_inv_subset:
  assumes "protocol_inv d" and "db_attempts d' = filter P (db_attempts d)" and "db_cycles d' = db_cycles d"
  shows "protocol_inv d'"
proof -
  note inv = protocol_invD [OF assms(1)]
  have c: "cycle_of d' = cycle_of d" using assms(3) by (simp add: cycle_of_def fun_eq_iff)
  show ?thesis
    unfolding protocol_inv_def assms(2) c
  proof (intro conjI ballI impI allI)
    show "distinct (map at_pk (filter P (db_attempts d)))" using inv(1) by (rule distinct_map_filter)
  next
    fix a c
    assume "a \<in> set (filter P (db_attempts d))" "at_state a = Completed" "at_cycle a = Some c"
    then show "\<exists>x. cycle_of d c = Some x \<and> cy_state x \<noteq> Queued" using inv(4) [of a c] by simp
  next
    fix a b
    assume ab: "a \<in> set (filter P (db_attempts d))" "b \<in> set (filter P (db_attempts d))"
    then have i: "a \<in> set (db_attempts d)" "b \<in> set (db_attempts d)" by simp_all
    show "at_pk a = at_pk b" if "is_live (at_state a)" "is_live (at_state b)" "scope_of a = scope_of b"
      using inv(2) [OF i that] .
    show "at_pk a = at_pk b" if "at_key a = at_key b" using inv(3) [OF i that] .
    show "at_pk a = at_pk b" if "at_state a = Completed" "at_state b = Completed" "at_cycle a \<noteq> None" "at_cycle a = at_cycle b"
      using inv(5) [OF i that] .
  qed
qed

lemma protocol_inv_tables:
  "protocol_inv d \<Longrightarrow> db_attempts d' = db_attempts d \<Longrightarrow> db_cycles d' = db_cycles d \<Longrightarrow> protocol_inv d'"
  by (rule protocol_inv_cong) (auto simp: cycle_of_def)

lemma attempt_of_in: "attempt_of d k = Some a \<Longrightarrow> a \<in> set (db_attempts d)"
  unfolding attempt_of_def by (rule get_row_mem)

lemma mark_keeps_inv:
  assumes "protocol_inv d" and "mark_external_applied cfg clk k what d = Inr (d', a')"
  shows "protocol_inv d'"
proof -
  obtain d1 occ where t: "assignment_transaction cfg k d = Inr (d1, occ)"
    using assms(2) by (auto simp: mark_external_applied_def split: sum.splits)
  note tab = assignment_transaction_tables [OF t]
  obtain a where a: "attempt_of d1 k = Some a"
    using assms(2) t by (auto simp: mark_external_applied_def split: option.splits)
  have ain: "a \<in> set (db_attempts d)" using attempt_of_in [OF a] tab by simp
  show ?thesis
  proof (cases "at_state a = Completed")
    case True
    then have "d' = d1" using assms(2) t a by (simp add: mark_external_applied_def)
    then show ?thesis using assms(1) tab by (simp add: protocol_inv_tables)
  next
    case False
    have live: "is_live (at_state a)"
      using assms(2) t a False by (auto simp: mark_external_applied_def split: if_splits)
    define b where "b = a\<lparr>at_state := External_Applied,
          at_applied_at := (case at_applied_at a of None \<Rightarrow> Some (db_clock clk) | Some t \<Rightarrow> Some t),
          at_result_class := what, at_last_error := [], at_updated_at := app_clock clk\<rparr>"
    have "(case save_attempt b d1 of Inl e \<Rightarrow> Inl e | Inr d2 \<Rightarrow> Inr (d2, b)) = Inr (d', a')"
      using assms(2) t a False by (simp add: mark_external_applied_def b_def [symmetric] Let_def split: if_splits)
    then have "d' = put_attempt b d1" by (cases "save_attempt b d1") (auto dest: save_attempt_frame)
    then show ?thesis
      using tab live by (intro protocol_inv_save [OF assms(1) ain, of b]) (simp_all add: b_def same_identity_def put_attempt_def)
  qed
qed

lemma compensate_keeps_inv:
  assumes "protocol_inv d" and "compensate_assignment_attempt cfg clk k retryable code quarantine repair d = Inr (d', a')"
  shows "protocol_inv d'"
  using assms(2)
proof (cases rule: compensate_cases)
  case (unchanged d1 occ)
  then show ?thesis using assms(1) assignment_transaction_tables [OF unchanged(1)] by (simp add: protocol_inv_tables)
next
  case (ambiguous d1 occ a)
  note tab = assignment_transaction_tables [OF ambiguous(1)]
  have "is_live (at_state a)" using ambiguous(3) by (simp add: spent_def is_live_iff)
  then show ?thesis
    using tab ambiguous(6,7)
    by (intro protocol_inv_save [OF assms(1) attempt_of_in [OF ambiguous(2)], of a'])
      (simp_all add: same_identity_def put_attempt_def)
next
  case (settled d1 occ a d2)
  note tab = assignment_transaction_tables [OF settled(1)]
  have "is_live (at_state a)" using settled(3) by (simp add: is_live_iff)
  moreover have "db_attempts d2 = db_attempts d" "db_cycles d2 = db_cycles d"
    using settled(6) tab by (simp_all split: option.splits)
  ultimately show ?thesis
    using settled(5,7)
    by (intro protocol_inv_save [OF assms(1) attempt_of_in [OF settled(2)], of a'])
      (simp_all add: same_identity_def put_attempt_def Let_def)
qed

lemma finalize_keeps_inv:
  assumes "protocol_inv d" and "finalize_assignment_attempt cfg clk k d = Inr (d', a')"
  shows "protocol_inv d'"
  using assms(2)
proof (cases rule: finalize_cases)
  case (again d1 occ)
  then show ?thesis using assms(1) assignment_transaction_tables [OF again(1)] by (simp add: protocol_inv_tables)
next
  case (completes d1 occ a cy g)
  note tab = assignment_transaction_tables [OF completes(1)]
  from completes(8) obtain rows where r: "db_attempts d' = save_row at_pk a' rows"
    "\<forall>b \<in> set rows. at_pk b \<noteq> at_pk a' \<longrightarrow> \<not> attempt_clash a' b"
    "rows = db_attempts d1 \<or> (\<exists>q. rows = db_attempts (delete_queue_row q d1))"
    and id: "at_pk a' = at_pk a" "at_key a' = at_key a" "at_cycle a' = at_cycle a" "at_ticket a' = at_ticket a"
      "at_state a' = Completed"
    and cyc: "db_cycles d' = (case cy of None \<Rightarrow> db_cycles d1 | Some c \<Rightarrow> save_row cy_pk (c\<lparr>cy_state := Assigned\<rparr>) (db_cycles d1))"
    by (rule complete_attempt_saved)
  obtain dm where dm: "protocol_inv dm" "db_attempts dm = rows" "db_cycles dm = db_cycles d"
  proof -
    have i1: "protocol_inv d1" using assms(1) tab by (simp add: protocol_inv_tables)
    from r(3) show ?thesis
    proof
      assume "rows = db_attempts d1"
      then show ?thesis using that [OF i1] tab by simp
    next
      assume "\<exists>q. rows = db_attempts (delete_queue_row q d1)"
      then obtain q where "rows = db_attempts (delete_queue_row q d1)" ..
      then show ?thesis using that [OF protocol_inv_unlink [OF i1, of q]] tab by simp
    qed
  qed
  have "a \<in> set (db_attempts d)" using completes(2) by (rule attempt_of_in)
  then obtain b where b: "b \<in> set rows" "same_identity b a" "at_state b = at_state a"
  proof -
    from r(3) show ?thesis
    proof
      assume "rows = db_attempts d1"
      then show ?thesis using that [of a] \<open>a \<in> set (db_attempts d)\<close> tab by (simp add: same_identity_def)
    next
      assume "\<exists>q. rows = db_attempts (delete_queue_row q d1)"
      then obtain q where "rows = map (\<lambda>a. if at_queue_row a = Some q then a\<lparr>at_queue_row := None\<rparr> else a) (db_attempts d)"
        using tab by (auto simp: delete_queue_row_def update_rows_def)
      then have "(if at_queue_row a = Some q then a\<lparr>at_queue_row := None\<rparr> else a) \<in> set rows"
        using \<open>a \<in> set (db_attempts d)\<close> by (simp only: set_map image_eqI)
      then show ?thesis by (rule that) (simp_all add: same_identity_def)
    qed
  qed
  have bid: "same_identity a' b" using b(2) id by (simp add: same_identity_def)
  have old: "\<exists>y. cycle_of d' c = Some y \<and> cy_state y \<noteq> Queued" if "cycle_of dm c = Some x" "cy_state x \<noteq> Queued" for c x
    using that dm(3) cyc tab
    by (auto simp: cycle_of_def get_row_save_row split: option.splits)
  have new: "\<exists>x. cycle_of d' c = Some x \<and> cy_state x \<noteq> Queued" if c: "at_cycle a' = Some c" for c
    using completes(6)
  proof (cases rule: queued_cycle_cases)
    case 1
    then show ?thesis using c id by simp
  next
    case (2 c' x)
    have "cy_pk x = c'" using 2(3) unfolding cycle_of_def by (rule get_row_key)
    then show ?thesis using 2 c id cyc by (simp add: cycle_of_def get_row_save_row)
  qed
  show ?thesis
  proof (rule protocol_inv_replace [OF dm(1) b(1) [folded dm(2)] bid])
    show "is_live (at_state a') \<Longrightarrow> is_live (at_state b)" using id by simp
    show "map at_pk (db_attempts d') = map at_pk (db_attempts dm)" using r(1) dm(2) by simp
    show "x = a' \<or> (\<exists>o'. o' \<in> set (db_attempts dm) \<and> same_identity x o' \<and> at_state x = at_state o' \<and> at_pk o' \<noteq> at_pk a')"
      if "x \<in> set (db_attempts d')" for x
      using in_save_row [of x at_pk a' rows] that r(1) dm(2) by (auto simp: same_identity_def)
    show "\<forall>c. at_cycle a' = Some c \<longrightarrow> (\<exists>x. cycle_of d' c = Some x \<and> cy_state x \<noteq> Queued) \<and>
        (\<forall>x \<in> set (db_attempts dm). at_state x = Completed \<longrightarrow> at_cycle x \<noteq> Some c)" if "at_state b \<noteq> Completed"
    proof (intro allI impI conjI ballI)
      fix c
      assume c: "at_cycle a' = Some c"
      show "\<exists>x. cycle_of d' c = Some x \<and> cy_state x \<noteq> Queued" using c by (rule new)
      fix x
      assume x: "x \<in> set (db_attempts dm)" "at_state x = Completed"
      have "at_pk x \<noteq> at_pk a'"
        using protocol_invD(1) [OF dm(1)] x b(1) bid that dm(2)
        by (metis (no_types, lifting) distinct_map inj_onD same_identity_def)
      then have "\<not> attempt_clash a' x" using r(2) x dm(2) by simp
      then show "at_cycle x \<noteq> Some c" using c x id by (simp add: attempt_clash_def)
    qed
  qed (fact old)
qed

lemma write_reservation_keeps_inv:
  assumes "protocol_inv d" and "write_reservation cfg w occ q g ty why by d = Inr (d', a)"
    and "\<And>b. b \<in> set (db_attempts d) \<Longrightarrow> attempt_scope q b \<Longrightarrow> \<not> is_live (at_state b)"
  shows "protocol_inv d'"
proof -
  note r = write_reservation_result [OF assms(2)]
  have "scope_of a = row_scope q" by (simp add: r(1) new_attempt_def scope_of_def row_scope_def split: option.splits)
  moreover have "at_state a = Reserved" by (simp add: r(1) new_attempt_def)
  ultimately show ?thesis
    using assms(3) by (intro protocol_inv_insert [OF assms(1) r(2,3) _ r(5)]) (simp_all add: attempt_scope_iff)
qed

lemma quarantine_row_tables [simp]:
  "db_attempts (quarantine_row code q d) = db_attempts d" "db_cycles (quarantine_row code q d) = db_cycles d"
  by (simp_all add: quarantine_row_def put_queue_def)

lemma claim_row_keeps_inv:
  assumes "protocol_inv d" and "claim_row cfg w occ q k why d = Inr (d', v)"
  shows "protocol_inv d'"
proof (cases "\<exists>u. v = Some u \<and> rv_outcome u = Reserved_Now")
  case True
  then obtain u where "v = Some u" "rv_outcome u = Reserved_Now" by blast
  then obtain g a where "write_reservation cfg w occ q g Automatic why [] d = Inr (d', a)"
    "\<And>b. b \<in> set (db_attempts d) \<Longrightarrow> attempt_scope q b \<Longrightarrow> \<not> is_live (at_state b) \<and> at_state b \<noteq> Completed"
    using claim_row_reserved [of cfg w occ q k why d d' u] assms(2) by metis
  then show ?thesis using write_reservation_keeps_inv [OF assms(1)] by blast
next
  case False
  then have "d' \<in> {d, quarantine_row ''stale_cycle'' q d, quarantine_row ''legacy_cycle_ambiguous'' q d, delete_queue_row (nc_pk q) d}"
    using assms(2) by (auto simp: claim_row_def row_outcome_def split: if_splits option.splits sum.splits)
  then show ?thesis
    using assms(1) protocol_inv_unlink by (auto intro: protocol_inv_tables)
qed

lemma reserve_keeps_inv:
  assumes "protocol_inv d" and "reserve_candidate cfg w ticket excluded pre k why d = Inr (d', v)"
  shows "protocol_inv d'"
proof -
  obtain d1 occ where t: "optional_ticket_transaction cfg (nc_ticket pre) d = Inr (d1, occ)"
    using assms(2) by (auto simp: reserve_candidate_def split: sum.splits)
  note f = optional_ticket_transaction_frame [OF t]
  have i1: "protocol_inv d1" using assms(1) f by (simp add: protocol_inv_tables)
  let ?now = "db_clock (wd_clock w)"
  let ?P = "\<lambda>q. ready_row ?now ticket excluded q \<and> (capacity_enforced cfg \<longrightarrow> nc_pk q = nc_pk pre)"
  show ?thesis
  proof (cases "first_by queue_key ?P (db_queue d1)")
    case None
    then have "d' = d1" using assms(2) t by (simp add: reserve_candidate_def Let_def)
    then show ?thesis using i1 by simp
  next
    case (Some q)
    obtain d2 b where b: "evaluate_opening_cohort_barrier cfg (wd_window w) (wd_racing w) q ?now d1 = (d2, b)"
      by (cases "evaluate_opening_cohort_barrier cfg (wd_window w) (wd_racing w) q ?now d1")
    have i2: "protocol_inv d2" using i1 barrier_frame [OF b] by (simp add: protocol_inv_tables)
    have "d' = d2 \<or> claim_row cfg w occ q k why d2 = Inr (d', v)"
      using assms(2) t Some b by (simp add: reserve_candidate_def Let_def split: if_splits)
    then show ?thesis using i2 claim_row_keeps_inv by blast
  qed
qed

lemma manual_keeps_inv:
  assumes "protocol_inv d" and "manual_transaction cfg w ticket candidate by d = Inr (d', v)"
  shows "protocol_inv d'"
proof -
  obtain d1 occ where t: "optional_ticket_transaction cfg ticket d = Inr (d1, occ)"
    using assms(2) by (auto simp: manual_transaction_def split: sum.splits)
  note f = optional_ticket_transaction_frame [OF t]
  have i1: "protocol_inv d1" using assms(1) f by (simp add: protocol_inv_tables)
  show ?thesis
  proof (cases "d' = d1")
    case True
    then show ?thesis using i1 by simp
  next
    case False
    then obtain q where q: "first_by nc_entered_at (\<lambda>q. nc_ticket q = ticket) (db_queue d1) = Some q"
      using assms(2) t by (auto simp: manual_transaction_def split: option.splits)
    have live: "first_row (\<lambda>a. attempt_scope q a \<and> is_live (at_state a)) (db_attempts d1) = None"
      using assms(2) t q False by (auto simp: manual_transaction_def split: option.splits if_splits)
    obtain g why a where "write_reservation cfg w occ q g Manual why by d1 = Inr (d', a)"
      using assms(2) t q False live
      by (auto simp: manual_transaction_def split: option.splits if_splits sum.splits)
    then show ?thesis
      using live by (intro write_reservation_keeps_inv [OF i1]) (auto simp: first_row_None)
  qed
qed

lemma retry_keeps_inv:
  assumes "protocol_inv d" and "retry_transaction cfg w k d = Inr (d', out)"
  shows "protocol_inv d'"
proof -
  obtain d1 occ where t: "assignment_transaction cfg k d = Inr (d1, occ)"
    using assms(2) by (auto simp: retry_transaction_def split: sum.splits)
  note tab = assignment_transaction_tables [OF t]
  show ?thesis
  proof (cases "d' = d1")
    case True
    then show ?thesis using assms(1) tab by (simp add: protocol_inv_tables)
  next
    case False
    obtain a where a: "attempt_of d1 k = Some a"
      using assms(2) t by (auto simp: retry_transaction_def split: option.splits)
    have rel: "\<not> (capacity_enforced cfg \<and> \<not> released_reservation d1 k)"
    proof
      assume "capacity_enforced cfg \<and> \<not> released_reservation d1 k"
      then have "retry_transaction cfg w k d = Inr (d1, Some ''capacity_reservation_not_released'')"
        by (simp add: retry_transaction_def t a)
      then show False using assms(2) False by simp
    qed
    obtain g where g: "agent_of d1 (at_agent a) = Some g"
      using assms(2) t a rel by (auto simp: retry_transaction_def split: option.splits if_splits)
    have st: "at_state a = Retryable"
      using assms(2) t a g rel False by (auto simp: retry_transaction_def Let_def split: if_splits)
    let ?b = "reserved_again (wd_clock w) g a"
    obtain d2 where "save_attempt ?b (put_agent (loaded_agent cfg (db_clock (wd_clock w)) g) d1) = Inr d2"
      "db_attempts d' = db_attempts d2" "db_cycles d' = db_cycles d2"
      using assms(2) t a g rel False
      by (auto simp: retry_transaction_def Let_def split: if_splits sum.splits option.splits)
    then have "db_attempts d' = save_row at_pk ?b (db_attempts d)" "db_cycles d' = db_cycles d"
      using tab by (auto dest!: save_attempt_frame simp: put_attempt_def put_agent_def)
    moreover have "a \<in> set (db_attempts d)" using attempt_of_in [OF a] tab by simp
    ultimately show ?thesis
      using st by (intro protocol_inv_save [OF assms(1), of a ?b]) (simp_all add: reserved_again_def same_identity_def)
  qed
qed

lemma defer_keeps_inv:
  assumes "protocol_inv d" and "defer_without_candidate clk ticket excluded d = (d', out)"
  shows "protocol_inv d'"
proof -
  have "db_attempts d' = db_attempts d" "db_cycles d' = db_cycles d"
    using assms(2) by (auto simp: defer_without_candidate_def put_queue_def Let_def split: option.splits)
  with assms(1) show ?thesis by (rule protocol_inv_tables)
qed

lemma purge_keeps_inv:
  assumes "protocol_inv d"
  shows "protocol_inv (fst (purge_terminal_assignment_attempts cfg now days limit d))"
proof -
  define ks where "ks = purge_selection cfg now days limit d"
  have "protocol_inv (delete_attempts ks d)"
    using assms
    by (rule protocol_inv_subset [where P = "\<lambda>a. at_pk a \<notin> set ks"]) (simp_all add: delete_attempts_def delete_rows_def)
  moreover have "fst (purge_terminal_assignment_attempts cfg now days limit d) \<in> {d, delete_attempts ks d}"
    by (simp add: purge_terminal_assignment_attempts_def Let_def ks_def)
  ultimately show ?thesis using assms by auto
qed

lemma admit_cycle_keeps_inv:
  assumes "protocol_inv d"
  shows "protocol_inv (d\<lparr>db_cycles := db_cycles d @ [c]\<rparr>)"
proof (rule protocol_inv_cong [OF assms])
  show "\<exists>y. cycle_of (d\<lparr>db_cycles := db_cycles d @ [c]\<rparr>) k = Some y \<and> cy_state y \<noteq> Queued"
    if "cycle_of d k = Some x" "cy_state x \<noteq> Queued" for k x
    using that by (simp add: cycle_of_def get_row_append)
qed simp

lemma move_cycle_keeps_inv:
  assumes "protocol_inv d" and "s \<noteq> Queued"
  shows "protocol_inv (put_cycle (c\<lparr>cy_state := s\<rparr>) d)"
proof (rule protocol_inv_cong [OF assms(1)])
  show "\<exists>y. cycle_of (put_cycle (c\<lparr>cy_state := s\<rparr>) d) k = Some y \<and> cy_state y \<noteq> Queued"
    if "cycle_of d k = Some x" "cy_state x \<noteq> Queued" for k x
    using that assms(2) by (cases "k = cy_pk c") (simp_all add: cycle_of_def put_cycle_def get_row_save_row)
qed (simp add: put_cycle_def)

lemma failed_keeps_inv:
  assumes "protocol_inv d" and "mark_repair_failed k name d = Inr d'"
    and "\<forall>a. attempt_of d k = Some a \<longrightarrow> at_cycle a \<noteq> None \<or> is_live (at_state a)"
  shows "protocol_inv d'"
proof (cases "attempt_of d k")
  case None
  then show ?thesis using assms(1,2) by (simp add: mark_repair_failed_def)
next
  case (Some a)
  note inv = protocol_invD [OF assms(1)]
  let ?b = "a\<lparr>at_state := Att_Repair_Required, at_last_error := take 64 name\<rparr>"
  have run: "save_attempt ?b d = Inr d'" using assms(2) Some by (simp add: mark_repair_failed_def)
  have clash: "\<not> attempt_clash ?b x" if "x \<in> set (db_attempts d)" "at_pk x \<noteq> at_pk a" for x
    using run that by (auto simp: save_attempt_def list_ex_iff split: if_splits)
  have "d' = put_attempt ?b d" using run by (rule save_attempt_frame)
  then have rows: "db_attempts d' = save_row at_pk ?b (db_attempts d)" and cyc: "cycle_of d' = cycle_of d"
    by (simp_all add: put_attempt_def cycle_of_def fun_eq_iff)
  have ain: "a \<in> set (db_attempts d)" using attempt_of_in [OF Some] .
  have mem: "x = ?b \<or> (x \<in> set (db_attempts d) \<and> at_pk x \<noteq> at_pk a)" if "x \<in> set (db_attempts d')" for x
    using in_save_row [of x at_pk ?b "db_attempts d"] that rows by auto
  have sc: "scope_of ?b = scope_of a" by (simp add: scope_of_def split: option.split)
  have alone: "\<not> is_live (at_state x)" if "x \<in> set (db_attempts d)" "at_pk x \<noteq> at_pk a" "scope_of x = scope_of a" for x
  proof (cases "at_cycle a")
    case None
    then have "is_live (at_state a)" using assms(3) Some by simp
    then show ?thesis using inv(2) [OF that(1) ain _ _ that(3)] that(2) by blast
  next
    case (Some c)
    then have "at_cycle x = Some c" using that(3) by (auto simp: scope_of_def split: option.splits)
    then show ?thesis using clash [OF that(1,2)] Some by (auto simp: attempt_clash_def is_live_iff terminal_attempt_states_def)
  qed
  show ?thesis
    unfolding protocol_inv_def
  proof (intro conjI ballI impI allI)
    show "distinct (map at_pk (db_attempts d'))" using inv(1) rows by simp
  next
    fix x y
    assume "x \<in> set (db_attempts d')" "y \<in> set (db_attempts d')"
    note m = mem [OF this(1)] mem [OF this(2)]
    then consider "x = ?b" "y = ?b" | "x = ?b" "y \<in> set (db_attempts d)" "at_pk y \<noteq> at_pk a"
      | "y = ?b" "x \<in> set (db_attempts d)" "at_pk x \<noteq> at_pk a" | "x \<in> set (db_attempts d)" "y \<in> set (db_attempts d)"
      by blast
    note m = this
    show "at_pk x = at_pk y" if l: "is_live (at_state x)" "is_live (at_state y)" "scope_of x = scope_of y"
    proof (cases rule: m)
      case 2
      then show ?thesis using alone [OF 2(2,3)] l sc by simp
    next
      case 3
      then show ?thesis using alone [OF 3(2,3)] l sc by simp
    next
      case 4
      then show ?thesis using inv(2) l by blast
    qed simp
    show "at_pk x = at_pk y" if l: "at_key x = at_key y"
    proof (cases rule: m)
      case 2
      then show ?thesis using inv(3) [OF ain 2(2)] l by simp
    next
      case 3
      then show ?thesis using inv(3) [OF 3(2) ain] l by simp
    next
      case 4
      then show ?thesis using inv(3) l by blast
    qed simp
    show "at_pk x = at_pk y" if l: "at_state x = Completed" "at_state y = Completed" "at_cycle x \<noteq> None" "at_cycle x = at_cycle y"
    proof (cases rule: m)
      case 4
      then show ?thesis using inv(5) l by blast
    qed (use l in simp_all)
  next
    fix x c
    assume "x \<in> set (db_attempts d')" "at_state x = Completed" "at_cycle x = Some c"
    then show "\<exists>y. cycle_of d' c = Some y \<and> cy_state y \<noteq> Queued" using mem [of x] inv(4) [of x c] cyc by auto
  qed
qed

lemma protocol_step_keeps_inv:
  assumes "protocol_step cfg d d'" and "protocol_inv d"
  shows "protocol_inv d'"
  using assms(1)
proof (cases rule: protocol_step.cases)
  case reserving
  then show ?thesis using reserve_keeps_inv [OF assms(2)] by simp
next
  case manually
  then show ?thesis using manual_keeps_inv [OF assms(2)] by simp
next
  case applying
  then show ?thesis using mark_keeps_inv [OF assms(2)] by simp
next
  case finalizing
  then show ?thesis using finalize_keeps_inv [OF assms(2)] by simp
next
  case compensating
  then show ?thesis using compensate_keeps_inv [OF assms(2)] by simp
next
  case retrying
  then show ?thesis using retry_keeps_inv [OF assms(2)] by simp
next
  case deferring
  then show ?thesis using defer_keeps_inv [OF assms(2)] by simp
next
  case failing
  then show ?thesis using failed_keeps_inv [OF assms(2)] by simp
next
  case purging
  then show ?thesis using purge_keeps_inv [OF assms(2)] by simp
next
  case admitting
  then show ?thesis using admit_cycle_keeps_inv [OF assms(2)] by simp
next
  case moving
  then show ?thesis using move_cycle_keeps_inv [OF assms(2)] by simp
next
  case elsewhere
  then show ?thesis using protocol_inv_tables [OF assms(2)] by simp
qed

lemma empty_inv: "protocol_inv empty_db"
  by (simp add: protocol_inv_def empty_db_def)

lemma reachable_inv: "reachable cfg d \<Longrightarrow> protocol_inv d"
proof (induction rule: reachable.induct)
  case start
  show ?case by (rule empty_inv)
next
  case (step d d')
  then show ?case using protocol_step_keeps_inv by blast
qed

section \<open>Single attempts along the protocol\<close>

lemma attempt_of_unique:
  "protocol_inv d \<Longrightarrow> a \<in> set (db_attempts d) \<Longrightarrow> attempt_of d (at_pk a) = Some a"
  unfolding attempt_of_def by (rule get_row_distinct) (simp_all add: protocol_invD(1))

lemma attempt_of_save:
  "db_attempts d' = save_row at_pk x (db_attempts d) \<Longrightarrow> attempt_of d k = Some a \<Longrightarrow>
   attempt_of d' k = Some (if k = at_pk x then x else a)"
  by (cases "k = at_pk x") (simp_all add: attempt_of_def get_row_save_row)

lemma save_attempt_ok:
  assumes "protocol_inv d" and "a \<in> set (db_attempts d)" and "same_identity a' a"
    and "is_live (at_state a') \<Longrightarrow> is_live (at_state a)"
    and "at_state a' = Completed \<Longrightarrow>
      \<forall>b \<in> set (db_attempts d). at_state b = Completed \<longrightarrow> at_cycle a \<noteq> None \<longrightarrow> at_cycle b = at_cycle a \<longrightarrow> at_pk b = at_pk a"
  shows "save_attempt a' d = Inr (put_attempt a' d)"
proof -
  note inv = protocol_invD [OF assms(1)]
  have "\<not> attempt_clash a' b" if b: "b \<in> set (db_attempts d)" "at_pk b \<noteq> at_pk a'" for b
  proof
    assume clash: "attempt_clash a' b"
    have id: "at_pk a' = at_pk a" "at_key a' = at_key a" "at_cycle a' = at_cycle a"
      using assms(3) by (simp_all add: same_identity_def)
    have "at_key b \<noteq> at_key a" using inv(3) [OF b(1) assms(2)] b(2) id by auto
    then have c: "at_cycle a \<noteq> None" "at_cycle b = at_cycle a"
      "(is_live (at_state b) \<and> is_live (at_state a')) \<or> (at_state b = Completed \<and> at_state a' = Completed)"
      using clash b(2) id by (auto simp: attempt_clash_def)
    then have "scope_of b = scope_of a" by (auto simp: scope_of_def)
    then show False using c inv(2) [OF b(1) assms(2)] assms(4,5) b id by auto
  qed
  then show ?thesis by (auto simp: save_attempt_def list_ex_iff)
qed

text \<open>The moves of an attempt: the abstract protocol every step follows.\<close>

fun attempt_move :: "attempt_state \<Rightarrow> attempt_state \<Rightarrow> bool" where
  "attempt_move s External_Applied = (s = Reserved \<or> s = Att_Repair_Required)"
| "attempt_move s Completed = (s = External_Applied)"
| "attempt_move s Reserved = (s = Retryable)"
| "attempt_move s Compensating = False"
| "attempt_move s s' = is_live s"

lemma mark_move:
  assumes "mark_external_applied cfg clk k what d = Inr (d', x)" and "attempt_of d j = Some a" and "attempt_of d' j = Some a'"
  shows "at_state a' = at_state a \<or> attempt_move (at_state a) (at_state a')"
proof -
  obtain d1 occ where t: "assignment_transaction cfg k d = Inr (d1, occ)"
    using assms(1) by (auto simp: mark_external_applied_def split: sum.splits)
  note tab = assignment_transaction_tables [OF t]
  obtain b where b: "attempt_of d1 k = Some b"
    using assms(1) t by (auto simp: mark_external_applied_def split: option.splits)
  show ?thesis
  proof (cases "at_state b = Completed")
    case True
    then have "d' = d1" using assms(1) t b by (simp add: mark_external_applied_def)
    then show ?thesis using assms(2,3) tab by (simp add: attempt_of_def)
  next
    case False
    then have st: "at_state b \<in> {Reserved, External_Applied, Att_Repair_Required}"
      using assms(1) t b by (auto simp: mark_external_applied_def split: if_splits)
    define c where "c = b\<lparr>at_state := External_Applied,
          at_applied_at := (case at_applied_at b of None \<Rightarrow> Some (db_clock clk) | Some t \<Rightarrow> Some t),
          at_result_class := what, at_last_error := [], at_updated_at := app_clock clk\<rparr>"
    have "(case save_attempt c d1 of Inl e \<Rightarrow> Inl e | Inr d2 \<Rightarrow> Inr (d2, c)) = Inr (d', x)"
      using assms(1) t b False by (simp add: mark_external_applied_def c_def [symmetric] Let_def split: if_splits)
    then have "d' = put_attempt c d1" by (cases "save_attempt c d1") (auto dest: save_attempt_frame)
    then have "db_attempts d' = save_row at_pk c (db_attempts d)" using tab by (simp add: put_attempt_def)
    from attempt_of_save [OF this assms(2)] assms(3) have a': "a' = (if j = at_pk c then c else a)" by simp
    have "at_pk c = k" using attempt_of_key [OF b] by (simp add: c_def)
    then show ?thesis
      using a' st assms(2) b tab by (auto simp: c_def attempt_of_def)
  qed
qed

lemma compensate_move:
  assumes "compensate_assignment_attempt cfg clk k retryable code quarantine repair d = Inr (d', x)"
    and "attempt_of d j = Some a" and "attempt_of d' j = Some a'"
  shows "at_state a' = at_state a \<or> attempt_move (at_state a) (at_state a')"
  using assms(1)
proof (cases rule: compensate_cases)
  case (unchanged d1 occ)
  then show ?thesis using assms(2,3) assignment_transaction_tables [OF unchanged(1)] by (simp add: attempt_of_def)
next
  case (ambiguous d1 occ b)
  have "db_attempts d' = save_row at_pk x (db_attempts d)"
    using ambiguous(7) assignment_transaction_tables [OF ambiguous(1)] by (simp add: put_attempt_def)
  from attempt_of_save [OF this assms(2)] assms(3) have a': "a' = (if j = at_pk x then x else a)" by simp
  have "at_pk x = k" using attempt_of_key [OF ambiguous(2)] ambiguous(6) by simp
  moreover have "is_live (at_state b)" using ambiguous(3) by (simp add: spent_def is_live_iff)
  ultimately show ?thesis using a' assms(2) ambiguous(2,6) by (auto split: if_splits)
next
  case (settled d1 occ b d2)
  note tab = assignment_transaction_tables [OF settled(1)]
  have "db_attempts d2 = db_attempts d" using settled(6) tab by (simp split: option.splits)
  then have "db_attempts d' = save_row at_pk x (db_attempts d)"
    using settled(7) by (simp add: put_attempt_def Let_def)
  from attempt_of_save [OF this assms(2)] assms(3) have a': "a' = (if j = at_pk x then x else a)" by simp
  have "at_pk x = k" using attempt_of_key [OF settled(2)] settled(5) by simp
  moreover have "is_live (at_state b)" using settled(3) by (simp add: is_live_iff)
  ultimately show ?thesis using a' assms(2) settled(2,5) by (auto split: if_splits)
qed

lemma finalize_move:
  assumes "finalize_assignment_attempt cfg clk k d = Inr (d', x)" and "attempt_of d j = Some a" and "attempt_of d' j = Some a'"
  shows "at_state a' = at_state a \<or> attempt_move (at_state a) (at_state a')"
  using assms(1)
proof (cases rule: finalize_cases)
  case (again d1 occ)
  then show ?thesis using assms(2,3) assignment_transaction_tables [OF again(1)] by (simp add: attempt_of_def)
next
  case (completes d1 occ b cy g)
  note tab = assignment_transaction_tables [OF completes(1)]
  from completes(8) obtain rows where r: "db_attempts d' = save_row at_pk x rows"
    "rows = db_attempts d1 \<or> (\<exists>q. rows = db_attempts (delete_queue_row q d1))" "at_pk x = at_pk b" "at_state x = Completed"
    by (rule complete_attempt_saved)
  have "\<exists>a0. get_row at_pk j rows = Some a0 \<and> at_state a0 = at_state a"
  proof -
    have "attempt_of d1 j = Some a" using assms(2) tab by (simp add: attempt_of_def)
    then have "\<exists>a0. attempt_of (delete_queue_row q d1) j = Some a0 \<and> at_state a0 = at_state a" for q
      by (simp add: attempt_of_delete_queue_row)
    then show ?thesis using r(2) \<open>attempt_of d1 j = Some a\<close> by (auto simp: attempt_of_def)
  qed
  then obtain a0 where a0: "get_row at_pk j rows = Some a0" "at_state a0 = at_state a" by blast
  then have a': "a' = (if j = at_pk x then x else a0)"
    using assms(3) r(1) by (simp add: attempt_of_def get_row_save_row split: if_splits)
  have "at_pk x = k" using attempt_of_key [OF completes(2)] r(3) by simp
  then show ?thesis using a' a0 assms(2) completes(2,4) r(4) by (auto split: if_splits)
qed

lemma retry_move:
  assumes "retry_transaction cfg w k d = Inr (d', out)" and "attempt_of d j = Some a" and "attempt_of d' j = Some a'"
  shows "at_state a' = at_state a \<or> attempt_move (at_state a) (at_state a')"
proof -
  obtain d1 occ where t: "assignment_transaction cfg k d = Inr (d1, occ)"
    using assms(1) by (auto simp: retry_transaction_def split: sum.splits)
  note tab = assignment_transaction_tables [OF t]
  show ?thesis
  proof (cases "d' = d1")
    case True
    then show ?thesis using assms(2,3) tab by (simp add: attempt_of_def)
  next
    case False
    obtain b where b: "attempt_of d1 k = Some b"
      using assms(1) t by (auto simp: retry_transaction_def split: option.splits)
    have rel: "\<not> (capacity_enforced cfg \<and> \<not> released_reservation d1 k)"
    proof
      assume "capacity_enforced cfg \<and> \<not> released_reservation d1 k"
      then have "retry_transaction cfg w k d = Inr (d1, Some ''capacity_reservation_not_released'')"
        by (simp add: retry_transaction_def t b)
      then show False using assms(1) False by simp
    qed
    obtain g where g: "agent_of d1 (at_agent b) = Some g"
      using assms(1) t b rel by (auto simp: retry_transaction_def split: option.splits if_splits)
    have st: "at_state b = Retryable"
      using assms(1) t b g rel False by (auto simp: retry_transaction_def Let_def split: if_splits)
    let ?c = "reserved_again (wd_clock w) g b"
    obtain d2 where "save_attempt ?c (put_agent (loaded_agent cfg (db_clock (wd_clock w)) g) d1) = Inr d2"
      "db_attempts d' = db_attempts d2"
      using assms(1) t b g rel False
      by (auto simp: retry_transaction_def Let_def split: if_splits sum.splits option.splits)
    then have "db_attempts d' = save_row at_pk ?c (db_attempts d)"
      using tab by (auto dest!: save_attempt_frame simp: put_attempt_def put_agent_def)
    from attempt_of_save [OF this assms(2)] assms(3) have a': "a' = (if j = at_pk ?c then ?c else a)" by simp
    have "at_pk ?c = k" using attempt_of_key [OF b] by (simp add: reserved_again_def)
    then show ?thesis using a' assms(2) b st tab by (auto simp: reserved_again_def attempt_of_def split: if_splits)
  qed
qed

text \<open>Reservations leave the states of existing attempts alone.\<close>

definition attempts_grow :: "db \<Rightarrow> db \<Rightarrow> bool" where
  "attempts_grow d d' \<longleftrightarrow> db_attempts d' = db_attempts d \<or> (\<exists>q. db_attempts d' = db_attempts (delete_queue_row q d)) \<or>
     (\<exists>x. db_attempts d' = db_attempts d @ [x])"

lemma attempts_grow_state:
  assumes "attempts_grow d d'" and "attempt_of d j = Some a"
  shows "\<exists>a'. attempt_of d' j = Some a' \<and> at_state a' = at_state a"
proof -
  have "\<exists>a'. attempt_of (delete_queue_row q d) j = Some a' \<and> at_state a' = at_state a" for q
    using assms(2) by (simp add: attempt_of_delete_queue_row)
  then show ?thesis using assms by (auto simp: attempts_grow_def attempt_of_def get_row_append)
qed

lemma claim_row_grows: "claim_row cfg w occ q k why d = Inr (d', v) \<Longrightarrow> attempts_grow d d'"
proof (cases "\<exists>u. v = Some u \<and> rv_outcome u = Reserved_Now")
  case True
  moreover assume c: "claim_row cfg w occ q k why d = Inr (d', v)"
  ultimately obtain u where "v = Some u" "rv_outcome u = Reserved_Now" by blast
  then obtain g a where "write_reservation cfg w occ q g Automatic why [] d = Inr (d', a)"
    using claim_row_reserved [of cfg w occ q k why d d' u] c by metis
  then show ?thesis using write_reservation_result(2) unfolding attempts_grow_def by blast
next
  case False
  moreover assume c: "claim_row cfg w occ q k why d = Inr (d', v)"
  ultimately have "d' \<in> {d, quarantine_row ''stale_cycle'' q d, quarantine_row ''legacy_cycle_ambiguous'' q d, delete_queue_row (nc_pk q) d}"
    by (auto simp: claim_row_def row_outcome_def split: if_splits option.splits sum.splits)
  then show ?thesis unfolding attempts_grow_def by auto
qed

lemma attempts_grow_cong:
  "attempts_grow d d' \<Longrightarrow> db_attempts d0 = db_attempts d \<Longrightarrow> attempts_grow d0 d'"
  by (auto simp: attempts_grow_def delete_queue_row_def)

lemma reserve_grows:
  assumes "reserve_candidate cfg w ticket excluded pre k why d = Inr (d', v)"
  shows "attempts_grow d d'"
proof -
  obtain d1 occ where t: "optional_ticket_transaction cfg (nc_ticket pre) d = Inr (d1, occ)"
    using assms by (auto simp: reserve_candidate_def split: sum.splits)
  note f = optional_ticket_transaction_frame [OF t]
  let ?now = "db_clock (wd_clock w)"
  let ?P = "\<lambda>q. ready_row ?now ticket excluded q \<and> (capacity_enforced cfg \<longrightarrow> nc_pk q = nc_pk pre)"
  show ?thesis
  proof (cases "first_by queue_key ?P (db_queue d1)")
    case None
    then have "d' = d1" using assms t by (simp add: reserve_candidate_def Let_def)
    then show ?thesis using f by (simp add: attempts_grow_def)
  next
    case (Some q)
    obtain d2 b where b: "evaluate_opening_cohort_barrier cfg (wd_window w) (wd_racing w) q ?now d1 = (d2, b)"
      by (cases "evaluate_opening_cohort_barrier cfg (wd_window w) (wd_racing w) q ?now d1")
    have same: "db_attempts d = db_attempts d2" using f barrier_frame [OF b] by simp
    have "d' = d2 \<or> claim_row cfg w occ q k why d2 = Inr (d', v)"
      using assms t Some b by (simp add: reserve_candidate_def Let_def split: if_splits)
    then have "attempts_grow d2 d'"
    proof
      assume "d' = d2"
      then show ?thesis by (simp add: attempts_grow_def)
    qed (rule claim_row_grows)
    then show ?thesis using same by (rule attempts_grow_cong)
  qed
qed

lemma manual_grows:
  assumes "manual_transaction cfg w ticket candidate by d = Inr (d', v)"
  shows "attempts_grow d d'"
proof -
  obtain d1 occ where t: "optional_ticket_transaction cfg ticket d = Inr (d1, occ)"
    using assms by (auto simp: manual_transaction_def split: sum.splits)
  note f = optional_ticket_transaction_frame [OF t]
  have "d' = d1 \<or> (\<exists>q g why a. write_reservation cfg w occ q g Manual why by d1 = Inr (d', a))"
    using assms t by (auto simp: manual_transaction_def split: option.splits if_splits sum.splits)
  then show ?thesis using f write_reservation_result(2) by (fastforce simp: attempts_grow_def)
qed

lemma step_move:
  assumes "protocol_step cfg d d'" and "protocol_inv d" and "attempt_of d j = Some a" and "attempt_of d' j = Some a'"
  shows "at_state a' = at_state a \<or> attempt_move (at_state a) (at_state a') \<or>
    (\<exists>name. mark_repair_failed j name d = Inr d' \<and> at_state a' = Att_Repair_Required)"
  using assms(1)
proof (cases rule: protocol_step.cases)
  case reserving
  then show ?thesis using attempts_grow_state [OF reserve_grows assms(3)] assms(4) by fastforce
next
  case manually
  then show ?thesis using attempts_grow_state [OF manual_grows assms(3)] assms(4) by fastforce
next
  case applying
  then show ?thesis using mark_move assms(3,4) by blast
next
  case finalizing
  then show ?thesis using finalize_move assms(3,4) by blast
next
  case compensating
  then show ?thesis using compensate_move assms(3,4) by blast
next
  case retrying
  then show ?thesis using retry_move assms(3,4) by blast
next
  case (deferring clk ticket excluded out)
  then have "db_attempts d' = db_attempts d"
    by (auto simp: defer_without_candidate_def put_queue_def Let_def split: option.splits)
  then show ?thesis using assms(3,4) by (simp add: attempt_of_def)
next
  case (failing k name)
  show ?thesis
  proof (cases "j = k")
    case True
    let ?b = "a\<lparr>at_state := Att_Repair_Required, at_last_error := take 64 name\<rparr>"
    have "save_attempt ?b d = Inr d'" using failing(1) assms(3) True by (simp add: mark_repair_failed_def)
    then have "d' = put_attempt ?b d" by (rule save_attempt_frame)
    moreover have "attempt_of d (at_pk ?b) = Some a" using assms(3) attempt_of_key [OF assms(3)] by simp
    note attempt_of_put [OF this]
    ultimately have "attempt_of d' (at_pk ?b) = Some ?b" by simp
    then have "a' = ?b" using assms(4) attempt_of_key [OF assms(3)] by simp
    then show ?thesis using failing(1) True by auto
  next
    case False
    have "attempt_of d' j = attempt_of d j"
    proof (cases "attempt_of d k")
      case None
      then show ?thesis using failing(1) by (simp add: mark_repair_failed_def)
    next
      case (Some x)
      then have "d' = put_attempt (x\<lparr>at_state := Att_Repair_Required, at_last_error := take 64 name\<rparr>) d"
        using failing(1) by (auto simp: mark_repair_failed_def dest: save_attempt_frame)
      then show ?thesis using False attempt_of_key [OF Some] by (simp add: attempt_of_put_other)
    qed
    then show ?thesis using assms(3,4) by simp
  qed
next
  case (purging now days limit)
  define ks where "ks = purge_selection cfg now days limit d"
  have "d' = d \<or> d' = delete_attempts ks d"
    using purging by (auto simp: purge_terminal_assignment_attempts_def Let_def ks_def)
  then have "a' \<in> set (db_attempts d)" using attempt_of_in [OF assms(4)] by (auto simp: delete_attempts_def)
  then have "attempt_of d (at_pk a') = Some a'" by (rule attempt_of_unique [OF assms(2)])
  then show ?thesis using attempt_of_key [OF assms(4)] assms(3) by simp
next
  case admitting
  then show ?thesis using assms(3,4) by (simp add: attempt_of_def)
next
  case moving
  then show ?thesis using assms(3,4) by (simp add: attempt_of_def put_cycle_def)
next
  case elsewhere
  then show ?thesis using assms(3,4) by (simp add: attempt_of_def)
qed

section \<open>What an outcome says\<close>

lemma returning_outcome: "returning d r out = (d', Inr out') \<Longrightarrow> out' = out"
  by (auto simp: returning_def split: sum.splits)

lemma finalize_stores:
  assumes "finalize_assignment_attempt cfg clk k d = Inr (d', a')"
  shows "attempt_of d' k = Some a' \<and> at_state a' = Completed"
  using assms
proof (cases rule: finalize_cases)
  case (again d1 occ)
  then show ?thesis using assignment_transaction_tables [OF again(1)] by (simp add: attempt_of_def)
next
  case (completes d1 occ a cy g)
  have k: "at_pk a = k" using completes(2) by (rule attempt_of_key)
  have c: "cy = None \<or> (\<exists>c x. at_cycle a = Some c \<and> cy = Some x \<and> cycle_of d1 c = Some x)"
    using completes(6) by (rule queued_cycle_cases) auto
  show ?thesis
    using complete_attempt_result(1,2) [OF completes(8) _ c] completes(3) k by simp
qed

lemma confirm_completed:
  assumes "confirm_and_finalize cfg clk what k d = (d', Inr out)"
  shows "\<exists>a'. attempt_of d' k = Some a' \<and> at_state a' = Completed"
proof -
  obtain d1 x where "mark_external_applied cfg clk k what d = Inr (d1, x)"
    using assms by (auto simp: confirm_and_finalize_def split: sum.splits)
  then obtain a' where "finalize_assignment_attempt cfg clk k d1 = Inr (d', a')"
    using assms by (auto simp: confirm_and_finalize_def returning_def split: sum.splits)
  then show ?thesis using finalize_stores by blast
qed

lemma converge_assigned:
  assumes "converge_on_owner cfg clk a err raw d = (d', Inr ''assigned'')"
  shows "owner_number raw = Some (at_desired_owner a) \<and> (\<exists>a'. attempt_of d' (at_pk a) = Some a' \<and> at_state a' = Completed)"
  using assms
  by (auto simp: converge_on_owner_def Let_def dest: returning_outcome confirm_completed split: if_splits)

lemma reconcile_assigned:
  assumes "\<not> capacity_enforced cfg" and "reconcile_ambiguous_attempt cfg clk pv k err d = (d', Inr ''assigned'')"
    and "attempt_of d k = Some a"
  shows "(\<exists>t. pv_readback pv = Ticket_Read t \<and> owner_number (pt_owner t) = Some (at_desired_owner a)) \<and>
    (\<exists>a'. attempt_of d' k = Some a' \<and> at_state a' = Completed)"
proof -
  have c: "\<not> (at_cycle a \<noteq> None \<and> cycle_state_of d a \<notin> {Some Queued, Some Assigned})"
    using assms by (auto simp: reconcile_ambiguous_attempt_def dest: returning_outcome split: if_splits)
  have u: "unreadable_owner cfg clk k code d \<noteq> (d', Inr ''assigned'')" for code
    by (auto simp: unreadable_owner_def dest: returning_outcome)
  obtain t where t: "pv_readback pv = Ticket_Read t"
    using assms c u by (cases "pv_readback pv") (auto simp: reconcile_ambiguous_attempt_def)
  then have "converge_on_owner cfg clk a err (pt_owner t) d = (d', Inr ''assigned'')"
    using assms c by (auto simp: reconcile_ambiguous_attempt_def)
  from converge_assigned [OF this] show ?thesis using t attempt_of_key [OF assms(3)] by simp
qed

lemma state_value_not_assigned: "attempt_state_value s \<noteq> ''assigned''"
  by (cases s) simp_all

lemma returning_assigned: "out \<noteq> ''assigned'' \<Longrightarrow> returning d r out \<noteq> (d', Inr ''assigned'')"
  by (auto dest: returning_outcome)

lemma execute_unlocked_assigned:
  assumes "execute_unlocked cfg clk pv k d = (d', Inr ''assigned'')" and "attempt_of d k = Some a"
  shows "(at_state a = Completed \<and> d' = d) \<or> (\<exists>err. reconcile_ambiguous_attempt cfg clk pv k err d = (d', Inr ''assigned'')) \<or>
    apply_effect cfg clk pv a d = (d', Inr ''assigned'')"
proof (cases "at_state a = Completed")
  case True
  then show ?thesis using assms by (simp add: execute_unlocked_def)
next
  case c: False
  have fresh: "\<not> (at_cycle a \<noteq> None \<and> cycle_state_of d a \<noteq> Some Queued)"
  proof
    assume "at_cycle a \<noteq> None \<and> cycle_state_of d a \<noteq> Some Queued"
    then show False using assms c by (simp add: execute_unlocked_def returning_assigned)
  qed
  show ?thesis
  proof (cases "at_state a = External_Applied")
    case True
    then show ?thesis using assms c fresh by (auto simp: execute_unlocked_def)
  next
    case e: False
    have r: "at_state a = Reserved"
    proof (rule ccontr)
      assume "at_state a \<noteq> Reserved"
      then have "Inr (attempt_state_value (at_state a)) = (Inr ''assigned'' :: string result)"
        using assms c fresh e by (auto simp: execute_unlocked_def returning_assigned split: if_splits)
      then show False using state_value_not_assigned by simp
    qed
    have "pv_allowed pv"
    proof (rule ccontr)
      assume "\<not> pv_allowed pv"
      then show False using assms c fresh r by (auto simp: execute_unlocked_def returning_assigned split: if_splits)
    qed
    then show ?thesis using assms fresh r by (auto simp: execute_unlocked_def split: if_splits)
  qed
qed

section \<open>Confirming\<close>

lemma mark_frame:
  assumes "mark_external_applied cfg clk k what d = Inr (d', x)"
  shows "db_agents d' = db_agents d" "db_cycles d' = db_cycles d" "attempt_of d' k = Some x"
    "\<exists>a. attempt_of d k = Some a \<and> same_identity x a \<and>
       at_state x = (if at_state a = Completed then Completed else External_Applied)"
proof -
  obtain d1 occ where t: "assignment_transaction cfg k d = Inr (d1, occ)"
    using assms by (auto simp: mark_external_applied_def split: sum.splits)
  note tab = assignment_transaction_tables [OF t]
  obtain a where a: "attempt_of d1 k = Some a"
    using assms t by (auto simp: mark_external_applied_def split: option.splits)
  have same: "attempt_of d k = Some a" using a tab by (simp add: attempt_of_def)
  have "db_agents d' = db_agents d \<and> db_cycles d' = db_cycles d \<and> attempt_of d' k = Some x \<and> same_identity x a \<and>
    at_state x = (if at_state a = Completed then Completed else External_Applied)"
  proof (cases "at_state a = Completed")
    case True
    then have "d' = d1" "x = a" using assms t a by (simp_all add: mark_external_applied_def)
    then show ?thesis using tab a True by (simp add: same_identity_def)
  next
    case False
    define b where "b = a\<lparr>at_state := External_Applied,
          at_applied_at := (case at_applied_at a of None \<Rightarrow> Some (db_clock clk) | Some t \<Rightarrow> Some t),
          at_result_class := what, at_last_error := [], at_updated_at := app_clock clk\<rparr>"
    have "(case save_attempt b d1 of Inl e \<Rightarrow> Inl e | Inr d2 \<Rightarrow> Inr (d2, b)) = Inr (d', x)"
      using assms t a False by (simp add: mark_external_applied_def b_def [symmetric] Let_def split: if_splits)
    then have "d' = put_attempt b d1" "x = b" by (cases "save_attempt b d1"; auto dest: save_attempt_frame)+
    moreover have "attempt_of d1 (at_pk b) = Some a" "at_pk b = k"
      using a attempt_of_key [OF a] by (simp_all add: b_def)
    moreover note attempt_of_put [OF this(1)]
    ultimately show ?thesis using tab False by (simp add: put_attempt_def) (simp add: b_def same_identity_def)
  qed
  then show "db_agents d' = db_agents d" "db_cycles d' = db_cycles d" "attempt_of d' k = Some x"
    "\<exists>a. attempt_of d k = Some a \<and> same_identity x a \<and>
       at_state x = (if at_state a = Completed then Completed else External_Applied)" using same by blast+
qed

lemma finalize_chats:
  assumes "finalize_assignment_attempt cfg clk k d = Inr (d', x)"
  shows "map ag_chats (db_agents d') = map ag_chats (db_agents d)"
  using assms
proof (cases rule: finalize_cases)
  case (again d1 occ)
  then show ?thesis using assignment_transaction_tables [OF again(1)] by simp
next
  case (completes d1 occ a cy g)
  have k: "at_pk a = k" using completes(2) by (rule attempt_of_key)
  have c: "cy = None \<or> (\<exists>c x. at_cycle a = Some c \<and> cy = Some x \<and> cycle_of d1 c = Some x)"
    using completes(6) by (rule queued_cycle_cases) auto
  have "db_agents d' = db_agents (count_assignment (at_agent a) d1)"
    using complete_attempt_result(10) [OF completes(8) _ c] completes(3) k by simp
  then show ?thesis
    using assignment_transaction_tables [OF completes(1)]
    by (auto simp: count_assignment_def update_rows_def intro!: map_cong)
qed

text \<open>A cycle that left \<open>queued\<close> blocks every later confirmation of an attempt that is not completed.\<close>

lemma confirm_blocked:
  assumes "attempt_of d k = Some a" and "at_state a \<noteq> Completed" and "at_cycle a = Some c"
    and "cycle_of d c = Some cy" and "cy_state cy \<noteq> Queued"
  shows "\<exists>d' e. confirm_and_finalize cfg clk what k d = (d', Inl e)"
proof (cases "confirm_and_finalize cfg clk what k d")
  case (Pair d' r)
  show ?thesis
  proof (cases r)
    case (Inl e)
    then show ?thesis using Pair by simp
  next
    case (Inr out)
    obtain d1 x where m: "mark_external_applied cfg clk k what d = Inr (d1, x)"
      using Pair Inr by (auto simp: confirm_and_finalize_def split: sum.splits)
    obtain y where f: "finalize_assignment_attempt cfg clk k d1 = Inr (d', y)"
      using Pair Inr m by (auto simp: confirm_and_finalize_def returning_def split: sum.splits)
    have x: "at_cycle x = Some c" using mark_frame(4) [OF m] assms(1,3) by (auto simp: same_identity_def)
    have nc: "at_state x \<noteq> Completed" using mark_frame(4) [OF m] assms(1,2) by auto
    from f show ?thesis
    proof (cases rule: finalize_cases)
      case (again d2 occ)
      then show ?thesis using mark_frame(3) [OF m] nc by simp
    next
      case (completes d2 occ b cyo g)
      then have "b = x" using mark_frame(3) [OF m] by simp
      then have "queued_cycle d2 (Some c) = Inr cyo" using completes(6) x by simp
      moreover have "cycle_of d2 c = Some cy"
        using assms(4) mark_frame(2) [OF m] assignment_transaction_tables [OF completes(1)] by (simp add: cycle_of_def)
      ultimately show ?thesis using assms(5) by (simp add: queued_cycle_def)
    qed
  qed
qed

text \<open>Both steps of a confirmation succeed on an open attempt of a queued cycle.\<close>

lemma mark_ok:
  assumes "\<not> capacity_enforced cfg" and "protocol_inv d" and "attempt_of d k = Some a"
    and "at_state a \<in> {Reserved, External_Applied, Att_Repair_Required}"
  shows "\<exists>x. mark_external_applied cfg clk k what d = Inr (put_attempt x d, x) \<and> same_identity x a \<and>
    at_state x = External_Applied \<and> at_agent x = at_agent a"
proof -
  define b where "b = a\<lparr>at_state := External_Applied,
          at_applied_at := (case at_applied_at a of None \<Rightarrow> Some (db_clock clk) | Some t \<Rightarrow> Some t),
          at_result_class := what, at_last_error := [], at_updated_at := app_clock clk\<rparr>"
  have "save_attempt b d = Inr (put_attempt b d)"
    by (rule save_attempt_ok [OF assms(2) attempt_of_in [OF assms(3)]])
      (use assms(4) in \<open>auto simp: b_def same_identity_def is_live_iff terminal_attempt_states_def\<close>)
  then have "mark_external_applied cfg clk k what d = Inr (put_attempt b d, b)"
    using assms(1,3,4) by (auto simp: mark_external_applied_def assignment_transaction_def b_def [symmetric] Let_def)
  then show ?thesis by (intro exI [of _ b]) (simp add: b_def same_identity_def)
qed

lemma complete_ok:
  assumes "protocol_inv d" and "attempt_of d (at_pk a) = Some a" and "at_cycle a = Some c"
    and "\<forall>b \<in> set (db_attempts d). at_state b = Completed \<longrightarrow> at_cycle b \<noteq> Some c"
    and "\<forall>r \<in> set (db_assigned d). as_cycle r \<noteq> Some c"
  shows "is_ok (complete_attempt cfg clk a g cy d)"
proof -
  let ?q = "row_of d (at_queue_row a)"
  have "filter (assigned_lookup a) (db_assigned d) = []"
    using assms(3,5) by (simp add: assigned_lookup_def filter_empty_conv)
  then obtain d1 where d1: "upsert_assigned cfg a g ?q (db_clock clk) d = Inr d1"
    by (simp add: upsert_assigned_def)
  define d2 where "d2 = count_assignment (at_agent a) (upsert_log clk a g ?q d1)"
  define d3 where "d3 = (case ?q of None \<Rightarrow> d2 | Some qr \<Rightarrow> delete_queue_row (nc_pk qr) d2)"
  define b where "b = a\<lparr>at_queue_row := (if ?q = None then at_queue_row a else None), at_state := Completed,
      at_finalized_at := Some (db_clock clk), at_next_retry_at := None, at_updated_at := app_clock clk\<rparr>"
  have t2: "db_attempts d2 = db_attempts d" "db_cycles d2 = db_cycles d"
    by (simp_all add: d2_def count_assignment_def upsert_assigned_tables [OF d1])
  have inv2: "protocol_inv d2" using assms(1) t2 by (rule protocol_inv_tables)
  have inv3: "protocol_inv d3"
    using inv2 by (cases ?q) (simp_all add: d3_def protocol_inv_unlink)
  have "attempt_of d2 (at_pk a) = Some a" using assms(2) t2 by (simp add: attempt_of_def)
  then have "\<exists>a0. attempt_of d3 (at_pk a) = Some a0 \<and> same_identity b a0"
    by (cases ?q) (auto simp: d3_def attempt_of_delete_queue_row b_def same_identity_def)
  then obtain a0 where a0: "a0 \<in> set (db_attempts d3)" "same_identity b a0" using attempt_of_in by blast
  have others: "at_cycle x \<noteq> Some c" if "x \<in> set (db_attempts d3)" "at_state x = Completed" for x
  proof -
    from that have "\<exists>y \<in> set (db_attempts d). at_state y = Completed \<and> at_cycle y = at_cycle x"
      by (cases ?q) (auto simp: d3_def t2 delete_queue_row_def update_rows_def split: if_splits)
    then show ?thesis using assms(4) by auto
  qed
  have "save_attempt b d3 = Inr (put_attempt b d3)"
  proof (rule save_attempt_ok [OF inv3 a0])
    show "is_live (at_state a0)" if "is_live (at_state b)" using that live_not_completed by (simp add: b_def)
    have "at_cycle a0 = Some c" using a0(2) assms(3) by (simp add: b_def same_identity_def)
    then show "\<forall>x \<in> set (db_attempts d3). at_state x = Completed \<longrightarrow> at_cycle a0 \<noteq> None \<longrightarrow> at_cycle x = at_cycle a0 \<longrightarrow>
        at_pk x = at_pk a0" using others by auto
  qed
  then show ?thesis
    using d1 by (simp add: complete_attempt_def Let_def d2_def [symmetric] d3_def [symmetric] b_def [symmetric])
qed

lemma confirm_ok:
  assumes "protocol_inv d" and "\<not> capacity_enforced cfg" and "attempt_of d k = Some a"
    and "at_state a \<in> {Reserved, External_Applied, Att_Repair_Required}"
    and "at_cycle a = Some c" and "cycle_of d c = Some cy" and "cy_state cy = Queued"
    and "agent_of d (at_agent a) = Some g" and "\<forall>r \<in> set (db_assigned d). as_cycle r \<noteq> Some c"
  shows "\<exists>d'. confirm_and_finalize cfg clk what k d = (d', Inr ''assigned'')"
proof -
  obtain x where m: "mark_external_applied cfg clk k what d = Inr (put_attempt x d, x)"
    and x: "same_identity x a" "at_state x = External_Applied" "at_agent x = at_agent a"
    using mark_ok [OF assms(2,1,3,4)] by blast
  let ?d = "put_attempt x d"
  have inv: "protocol_inv ?d" using mark_keeps_inv [OF assms(1) m] .
  have k: "at_pk x = k" using x(1) attempt_of_key [OF assms(3)] by (simp add: same_identity_def)
  have ax: "attempt_of ?d k = Some x" by (rule mark_frame(3) [OF m])
  have c: "at_cycle x = Some c" using x(1) assms(5) by (simp add: same_identity_def)
  have cyc: "cycle_of ?d c = Some cy" using assms(6) by (simp add: cycle_of_def put_attempt_def)
  have "\<forall>b \<in> set (db_attempts ?d). at_state b = Completed \<longrightarrow> at_cycle b \<noteq> Some c"
    using protocol_invD(4) [OF inv] cyc assms(7) by fastforce
  then have "is_ok (complete_attempt cfg clk x g (Some cy) ?d)"
    using complete_ok [OF inv _ c] ax k assms(9) by (simp add: put_attempt_def)
  moreover have "finalize_assignment_attempt cfg clk k ?d = complete_attempt cfg clk x g (Some cy) ?d"
    using assms(2,7,8) x ax c cyc
    by (simp add: finalize_assignment_attempt_def assignment_transaction_def occupancy_confirms_def queued_cycle_def
        agent_of_def put_attempt_def)
  ultimately have "is_ok (finalize_assignment_attempt cfg clk k ?d)" by simp
  then show ?thesis
    using m by (cases "finalize_assignment_attempt cfg clk k ?d") (auto simp: confirm_and_finalize_def returning_def)
qed

section \<open>Properties\<close>

text \<open>A reservation, automatic or manual, only adds an attempt for a row whose cycle is queued.\<close>

lemma reserve_adds_queued:
  assumes "reserve_candidate cfg w ticket excluded pre k why d = Inr (d', v)" and "a \<in> set (db_attempts d')"
    and "at_pk a \<notin> at_pk ` set (db_attempts d)" and "at_cycle a = Some c"
  shows "\<exists>x. cycle_of d c = Some x \<and> cy_state x = Queued"
proof -
  have grown: "db_attempts d' \<noteq> db_attempts d" using assms(2,3) by auto
  obtain d1 occ where t: "optional_ticket_transaction cfg (nc_ticket pre) d = Inr (d1, occ)"
    using assms(1) by (auto simp: reserve_candidate_def split: sum.splits)
  note f = optional_ticket_transaction_frame [OF t]
  let ?now = "db_clock (wd_clock w)"
  obtain q where q: "first_by queue_key (\<lambda>q. ready_row ?now ticket excluded q \<and> (capacity_enforced cfg \<longrightarrow> nc_pk q = nc_pk pre)) (db_queue d1) = Some q"
    using assms(1) t f grown by (auto simp: reserve_candidate_def Let_def split: option.splits)
  obtain d2 b where b: "evaluate_opening_cohort_barrier cfg (wd_window w) (wd_racing w) q ?now d1 = (d2, b)" by fastforce
  note bf = barrier_frame [OF b]
  have c: "claim_row cfg w occ q k why d2 = Inr (d', v)"
    using assms(1) t q b grown f bf by (auto simp: reserve_candidate_def Let_def split: if_splits)
  show ?thesis
  proof (cases "\<exists>u. v = Some u \<and> rv_outcome u = Reserved_Now")
    case True
    then obtain u where u: "v = Some u" "rv_outcome u = Reserved_Now" by blast
    from claim_row_reserved [OF c [unfolded u(1)] u(2)] obtain g a' where
      w: "write_reservation cfg w occ q g Automatic why [] d2 = Inr (d', a')" and cyc: "nc_cycle q \<noteq> None \<Longrightarrow> cycle_assignable d2 q"
      by metis
    have "a = a'" using write_reservation_result(2) [OF w] assms(2,3) f bf by (auto simp: image_iff)
    then have "nc_cycle q = Some c" using write_reservation_result(1) [OF w] assms(4) by (simp add: new_attempt_def)
    then show ?thesis using cyc f bf by (auto simp: cycle_assignable_def cycle_of_def split: option.splits)
  next
    case False
    then have "d' \<in> {d2, quarantine_row ''stale_cycle'' q d2, quarantine_row ''legacy_cycle_ambiguous'' q d2, delete_queue_row (nc_pk q) d2}"
      using c by (auto simp: claim_row_def row_outcome_def split: if_splits option.splits sum.splits)
    moreover have "map at_pk (db_attempts (delete_queue_row k d)) = map at_pk (db_attempts d)" for k d
      by (simp add: delete_queue_row_def update_rows_def)
    ultimately have "map at_pk (db_attempts d') = map at_pk (db_attempts d)"
      using f bf by (auto simp: quarantine_row_def put_queue_def)
    then have "at_pk ` set (db_attempts d') = at_pk ` set (db_attempts d)" by (simp only: set_map [symmetric])
    then show ?thesis using assms(2,3) by blast
  qed
qed

lemma manual_adds_queued:
  assumes "manual_transaction cfg w ticket candidate by d = Inr (d', v)" and "a \<in> set (db_attempts d')"
    and "at_pk a \<notin> at_pk ` set (db_attempts d)" and "at_cycle a = Some c"
  shows "\<exists>x. cycle_of d c = Some x \<and> cy_state x = Queued"
proof -
  obtain d1 occ where t: "optional_ticket_transaction cfg ticket d = Inr (d1, occ)"
    using assms(1) by (auto simp: manual_transaction_def split: sum.splits)
  note f = optional_ticket_transaction_frame [OF t]
  have other: "d' \<noteq> d1" using assms(2,3) f(2) by auto
  then obtain q where q: "first_by nc_entered_at (\<lambda>q. nc_ticket q = ticket) (db_queue d1) = Some q"
    using assms(1) t by (auto simp: manual_transaction_def split: option.splits)
  have cyc: "nc_cycle q \<noteq> None \<Longrightarrow> cycle_assignable d1 q"
    using assms(1) t q other by (auto simp: manual_transaction_def split: option.splits if_splits)
  obtain g why a' where w: "write_reservation cfg w occ q g Manual why by d1 = Inr (d', a')"
    using assms(1) t q other by (auto simp: manual_transaction_def split: option.splits if_splits sum.splits)
  have "a = a'" using write_reservation_result(2) [OF w] assms(2,3) f by (auto simp: image_iff)
  then have "nc_cycle q = Some c" using write_reservation_result(1) [OF w] assms(4) by (simp add: new_attempt_def)
  then show ?thesis using cyc f by (auto simp: cycle_assignable_def cycle_of_def split: option.splits)
qed
text \<open>C1: no double assignment.  However the transactions of concurrent workers, of the repair and
  purge jobs and of the other components interleave from the empty database, a cycle (or a
  ticket without cycle) never has two live attempts, a cycle never has two completed ones, a
  cycle with a completed attempt is not queued; no row of it is claimed for a new reservation, and neither the
  automatic nor the manual reservation transaction adds an attempt for it.\<close>

theorem no_double_assignment:
  assumes "reachable cfg d"
  shows "(\<forall>a \<in> set (db_attempts d). \<forall>b \<in> set (db_attempts d). scope_of a = scope_of b \<longrightarrow>
      is_live (at_state a) \<longrightarrow> is_live (at_state b) \<longrightarrow> a = b) \<and>
    (\<forall>a \<in> set (db_attempts d). \<forall>b \<in> set (db_attempts d). at_cycle a \<noteq> None \<longrightarrow> at_cycle a = at_cycle b \<longrightarrow>
      at_state a = Completed \<longrightarrow> at_state b = Completed \<longrightarrow> a = b) \<and>
    (\<forall>a \<in> set (db_attempts d). \<forall>c. at_state a = Completed \<longrightarrow> at_cycle a = Some c \<longrightarrow>
      (\<exists>x. cycle_of d c = Some x \<and> cy_state x \<noteq> Queued) \<and>
      (\<forall>w occ q k why d' v. nc_cycle q = Some c \<longrightarrow> claim_row cfg w occ q k why d = Inr (d', Some v) \<longrightarrow>
         rv_outcome v \<noteq> Reserved_Now) \<and>
      (\<forall>w ticket excluded pre k why d' v b. reserve_candidate cfg w ticket excluded pre k why d = Inr (d', v) \<longrightarrow>
         b \<in> set (db_attempts d') \<longrightarrow> at_cycle b = Some c \<longrightarrow> at_pk b \<in> at_pk ` set (db_attempts d)) \<and>
      (\<forall>w ticket candidate by d' v b. manual_transaction cfg w ticket candidate by d = Inr (d', v) \<longrightarrow>
         b \<in> set (db_attempts d') \<longrightarrow> at_cycle b = Some c \<longrightarrow> at_pk b \<in> at_pk ` set (db_attempts d)))"
proof -
  have inv: "protocol_inv d" by (rule reachable_inv [OF assms])
  note i = protocol_invD [OF inv]
  have same: "a = b" if "a \<in> set (db_attempts d)" "b \<in> set (db_attempts d)" "at_pk a = at_pk b" for a b
    using attempt_of_unique [OF inv that(1)] attempt_of_unique [OF inv that(2)] unfolding that(3) by simp
  have blocked: "rv_outcome v \<noteq> Reserved_Now"
    if "a \<in> set (db_attempts d)" "at_state a = Completed" "at_cycle a = Some c" "nc_cycle q = Some c"
      "claim_row cfg w occ q k why d = Inr (d', Some v)" for a c w occ q k why d' v
  proof
    assume r: "rv_outcome v = Reserved_Now"
    have sc: "attempt_scope q a" by (simp add: attempt_scope_def that(3,4))
    show False
    proof (rule claim_row_reserved [OF that(5) r])
      assume "\<And>b. b \<in> set (db_attempts d) \<Longrightarrow> attempt_scope q b \<Longrightarrow> \<not> is_live (at_state b) \<and> at_state b \<noteq> Completed"
      from this [OF that(1) sc] show False using that(2) by simp
    qed
  qed
  show ?thesis
  proof (intro conjI ballI allI impI)
    fix a b
    assume ab: "a \<in> set (db_attempts d)" "b \<in> set (db_attempts d)"
    show "a = b" if "scope_of a = scope_of b" "is_live (at_state a)" "is_live (at_state b)"
      using same [OF ab] i(2) [OF ab that(2,3,1)] .
    show "a = b" if "at_cycle a \<noteq> None" "at_cycle a = at_cycle b" "at_state a = Completed" "at_state b = Completed"
      using same [OF ab] i(5) [OF ab that(3,4,1,2)] .
  next
    fix a c
    assume a: "a \<in> set (db_attempts d)" "at_state a = Completed" "at_cycle a = Some c"
    show moved: "\<exists>x. cycle_of d c = Some x \<and> cy_state x \<noteq> Queued" using a by (rule i(4))
    then have left: "\<not> (\<exists>x. cycle_of d c = Some x \<and> cy_state x = Queued)" by auto
    show "at_pk b \<in> at_pk ` set (db_attempts d)"
      if "reserve_candidate cfg w ticket excluded pre k why d = Inr (d', v)" "b \<in> set (db_attempts d')" "at_cycle b = Some c"
      for w ticket excluded pre k why d' v b
      using reserve_adds_queued [OF that(1,2) _ that(3)] left by blast
    show "at_pk b \<in> at_pk ` set (db_attempts d)"
      if "manual_transaction cfg w ticket candidate by d = Inr (d', v)" "b \<in> set (db_attempts d')" "at_cycle b = Some c"
      for w ticket candidate "by" d' v b
      using manual_adds_queued [OF that(1,2) _ that(3)] left by blast
    fix w occ q k why d' v
    assume "nc_cycle q = Some c" "claim_row cfg w occ q k why d = Inr (d', Some v)"
    with a show "rv_outcome v \<noteq> Reserved_Now" by (rule blocked)
  qed
qed

text \<open>C2: attempts follow the protocol.  Any step, in any interleaving, either leaves the state of
  an attempt or moves it along the protocol: an effect is recorded only on a reserved or
  ambiguous attempt, completion comes only from a recorded effect, a reservation is renewed
  only from \<open>retryable\<close>, and terminal attempts never move again.  The one exception is the
  write of the repair job's exception handler, which may take any attempt back to
  \<open>repair_required\<close>.\<close>

theorem attempts_follow_protocol:
  assumes "reachable cfg d" and "protocol_step cfg d d'" and "attempt_of d k = Some a" and "attempt_of d' k = Some a'"
    and "\<forall>name. mark_repair_failed k name d \<noteq> Inr d'"
  shows "(at_state a' = at_state a \<or> attempt_move (at_state a) (at_state a')) \<and>
    (at_state a \<in> set terminal_attempt_states \<longrightarrow> at_state a' = at_state a)"
proof -
  have m: "at_state a' = at_state a \<or> attempt_move (at_state a) (at_state a')"
    using step_move [OF assms(2) reachable_inv [OF assms(1)] assms(3,4)] assms(5) by blast
  moreover have "\<not> attempt_move s s'" if "s \<in> set terminal_attempt_states" for s s'
    using that by (cases s') (auto simp: terminal_attempt_states_def)
  ultimately show ?thesis by blast
qed

lemma assigned_confirmed_legacy:
  assumes "execute_assignment_attempt cfg clk pv k d = (d', Inr ''assigned'')" and "\<not> capacity_enforced cfg"
    and "attempt_of d k = Some a"
  shows "(\<exists>a'. attempt_of d' k = Some a' \<and> at_state a' = Completed) \<and>
    (at_state a = Completed \<or>
     (\<exists>t. pv_precondition pv = Ticket_Read t \<and> owner_number (Some (strip (opt_text (pt_owner t)))) = Some (at_desired_owner a)) \<or>
     (\<exists>t. pv_readback pv = Ticket_Read t \<and> owner_number (pt_owner t) = Some (at_desired_owner a)))"
proof -
  have k: "at_pk a = k" using assms(3) by (rule attempt_of_key)
  have run: "execute_unlocked cfg clk pv k d = (d', Inr ''assigned'')"
    using assms(1,2) by (simp add: execute_assignment_attempt_def)
  note rec = reconcile_assigned [OF assms(2) _ assms(3)]
  consider "at_state a = Completed" "d' = d"
    | err where "reconcile_ambiguous_attempt cfg clk pv k err d = (d', Inr ''assigned'')"
    | "apply_effect cfg clk pv a d = (d', Inr ''assigned'')"
    using execute_unlocked_assigned [OF run assms(3)] by blast
  then show ?thesis
  proof cases
    case 1
    then show ?thesis using assms(3) by simp
  next
    case 2
    then show ?thesis using rec by blast
  next
    case 3
    obtain t where t: "pv_precondition pv = Ticket_Read t"
      using 3 assms(2)
      by (cases "pv_precondition pv") (auto simp: apply_effect_def Let_def precondition_read_def dest: returning_outcome)
    have scope: "in_scope cfg t"
      using 3 t assms(2) by (auto simp: apply_effect_def Let_def precondition_read_def dest: returning_outcome split: if_splits)
    have ext: "external_owner cfg clk pv a d \<noteq> (d', Inr ''assigned'')"
      using assms(2) by (auto simp: external_owner_def split: sum.splits)
    show ?thesis
    proof (cases "strip (opt_text (pt_owner t)) = []")
      case True
      then have "apply_owner cfg clk pv a d = (d', Inr ''assigned'')"
        using 3 t scope assms(2) by (simp add: apply_effect_def Let_def precondition_read_def)
      then obtain err where "reconcile_ambiguous_attempt cfg clk pv k err d = (d', Inr ''assigned'')"
        by (cases "pv_patch pv") (auto simp: apply_owner_def k dest: returning_outcome)
      then show ?thesis using rec by blast
    next
      case False
      then have "owner_number (Some (strip (opt_text (pt_owner t)))) = Some (at_desired_owner a)"
        "confirm_and_finalize cfg clk ''confirmed_before_write'' k d = (d', Inr ''assigned'')"
        using 3 t scope assms(2) ext
        by (simp_all add: apply_effect_def Let_def precondition_read_def k split: if_splits)
      then show ?thesis using confirm_completed t by blast
    qed
  qed
qed

text \<open>The reconciliation run on \<open>d\<close> for an attempt named its owner: the ticket read before the write, or the occupancy
  read back.\<close>

definition confirmed_by_reconciliation :: "provider \<Rightarrow> attempt \<Rightarrow> db \<Rightarrow> bool" where
  "confirmed_by_reconciliation pv a d \<longleftrightarrow>
     (case snd (pv_reconcile pv (at_ticket a) ''precondition'' d) of
        Reconciled t r \<Rightarrow> owner_number (Some (strip (opt_text (pt_owner t)))) = Some (at_desired_owner a)
      | _ \<Rightarrow> False) \<or>
     (case snd (pv_reconcile pv (at_ticket a) ''effect_readback'' d) of
        Reconciled t r \<Rightarrow> owner_number (map_option int_text (oc_owner r)) = Some (at_desired_owner a)
      | _ \<Rightarrow> False)"

lemma reconcile_assigned_enforced:
  assumes "capacity_enforced cfg" and "reconcile_ambiguous_attempt cfg clk pv k err d = (d', Inr ''assigned'')"
  obtains b where "attempt_of d k = Some b" "confirmed_by_reconciliation pv b d" "\<exists>a'. attempt_of d' k = Some a' \<and> at_state a' = Completed"
proof -
  obtain b where b: "attempt_of d k = Some b" using assms(2) by (auto simp: reconcile_ambiguous_attempt_def split: option.splits)
  have c: "\<not> (at_cycle b \<noteq> None \<and> cycle_state_of d b \<notin> {Some Queued, Some Assigned})"
    using assms b by (auto simp: reconcile_ambiguous_attempt_def dest: returning_outcome split: if_splits)
  have u: "unreadable_owner cfg clk k code x \<noteq> (d', Inr ''assigned'')" for code x
    by (auto simp: unreadable_owner_def dest: returning_outcome)
  obtain d1 y where y: "pv_reconcile pv (at_ticket b) ''effect_readback'' d = (d1, y)" by fastforce
  obtain t r where r: "y = Reconciled t r"
    using assms b c u y by (cases y) (auto simp: reconcile_ambiguous_attempt_def)
  have "converge_on_owner cfg clk b err (map_option int_text (oc_owner r)) d1 = (d', Inr ''assigned'')"
    using assms b c u y r by (auto simp: reconcile_ambiguous_attempt_def split: if_splits sum.splits)
  from converge_assigned [OF this] show thesis
    using that [OF b] y r attempt_of_key [OF b] by (simp add: confirmed_by_reconciliation_def)
qed

lemma apply_effect_assigned_enforced:
  assumes "capacity_enforced cfg" and "apply_effect cfg clk pv a d = (d', Inr ''assigned'')" and "attempt_of d k = Some a"
  obtains d0 b where "d0 = d \<or> d0 = fst (pv_reconcile pv (at_ticket a) ''precondition'' d)" "attempt_of d0 k = Some b"
    "confirmed_by_reconciliation pv b d0" "\<exists>a'. attempt_of d' k = Some a' \<and> at_state a' = Completed"
proof -
  have k: "at_pk a = k" using assms(3) by (rule attempt_of_key)
  obtain d1 y where y: "pv_reconcile pv (at_ticket a) ''precondition'' d = (d1, y)" by fastforce
  obtain t r where r: "y = Reconciled t r"
    using assms(1,2) y by (cases y) (auto simp: apply_effect_def Let_def precondition_read_def dest: returning_outcome)
  have pre: "precondition_read cfg pv a d = (d1, Ticket_Read t)" using assms(1) y r by (simp add: precondition_read_def)
  have scope: "in_scope cfg t" using assms(2) pre by (auto simp: apply_effect_def Let_def dest: returning_outcome split: if_splits)
  have ext: "external_owner cfg clk pv a d1 \<noteq> (d', Inr ''assigned'')"
    by (auto simp: external_owner_def split: sum.splits reconciled.splits prod.splits if_splits)
  show thesis
  proof (cases "strip (opt_text (pt_owner t)) = []")
    case True
    then have "apply_owner cfg clk pv a d1 = (d', Inr ''assigned'')" using assms(2) pre scope by (simp add: apply_effect_def Let_def)
    then obtain err where rec: "reconcile_ambiguous_attempt cfg clk pv k err d1 = (d', Inr ''assigned'')"
      by (cases "pv_patch pv") (auto simp: apply_owner_def k dest: returning_outcome)
    from reconcile_assigned_enforced [OF assms(1) rec] obtain b where
      b: "attempt_of d1 k = Some b" "confirmed_by_reconciliation pv b d1" "\<exists>a'. attempt_of d' k = Some a' \<and> at_state a' = Completed" .
    show thesis using that [of d1 b] b y by simp
  next
    case False
    then have own: "owner_number (Some (strip (opt_text (pt_owner t)))) = Some (at_desired_owner a)"
      and fin: "confirm_and_finalize cfg clk ''confirmed_before_write'' k d1 = (d', Inr ''assigned'')"
      using assms(2) pre scope ext by (simp_all add: apply_effect_def Let_def k split: if_splits)
    have "confirmed_by_reconciliation pv a d" using own y r by (simp add: confirmed_by_reconciliation_def)
    then show thesis using that [of d a] assms(3) confirm_completed [OF fin] by simp
  qed
qed

text \<open>C3: \<open>assigned\<close> means confirmed.  When executing an attempt returns \<open>assigned\<close>, then the attempt is stored as completed,
  and unless it already was, HubSpot itself named the owner the attempt desires: without capacity enforcement in the read before the
  write or in the read after it; in the enforcing mode in a reconciliation of the ticket, run on the database the execution started
  from or on the one the first reconciliation left.  An acknowledged PATCH alone is never taken as an assignment.\<close>

theorem assigned_means_confirmed:
  assumes "execute_assignment_attempt cfg clk pv k d = (d', Inr ''assigned'')" and "attempt_of d k = Some a"
  shows "(\<exists>a'. attempt_of d' k = Some a' \<and> at_state a' = Completed) \<and>
    (at_state a = Completed \<or>
     (if capacity_enforced cfg
      then \<exists>d0 b. (d0 = d \<or> d0 = fst (pv_reconcile pv (at_ticket a) ''precondition'' d)) \<and> attempt_of d0 k = Some b \<and>
             confirmed_by_reconciliation pv b d0
      else (\<exists>t. pv_precondition pv = Ticket_Read t \<and> owner_number (Some (strip (opt_text (pt_owner t)))) = Some (at_desired_owner a)) \<or>
           (\<exists>t. pv_readback pv = Ticket_Read t \<and> owner_number (pt_owner t) = Some (at_desired_owner a))))"
proof (cases "capacity_enforced cfg")
  case True
  have run: "execute_unlocked cfg clk pv k d = (d', Inr ''assigned'')"
    using assms(1) True by (auto simp: execute_assignment_attempt_def split: prod.splits if_splits)
  consider "at_state a = Completed" "d' = d"
    | err where "reconcile_ambiguous_attempt cfg clk pv k err d = (d', Inr ''assigned'')"
    | "apply_effect cfg clk pv a d = (d', Inr ''assigned'')"
    using execute_unlocked_assigned [OF run assms(2)] by blast
  then show ?thesis
  proof cases
    case 1
    then show ?thesis using assms(2) by simp
  next
    case 2
    then show ?thesis using reconcile_assigned_enforced [OF True 2] True by metis
  next
    case 3
    then show ?thesis using apply_effect_assigned_enforced [OF True 3 assms(2)] True by metis
  qed
next
  case False
  show ?thesis using assigned_confirmed_legacy [OF assms(1) False assms(2)] False by simp
qed

text \<open>The purge removes history only.  It deletes at most \<open>limit\<close> attempts, each terminal and
  last updated before the retention period; every other attempt is kept as it is.\<close>

theorem purge_removes_history_only:
  assumes "purge_terminal_assignment_attempts cfg now days limit d = (d', n)" and "distinct (map at_pk (db_attempts d))"
  shows "set (db_attempts d') \<subseteq> set (db_attempts d) \<and>
    (\<forall>a \<in> set (db_attempts d) - set (db_attempts d'). at_state a \<in> set terminal_attempt_states \<and>
       at_updated_at a < now - seconds (86400 * (case days of None \<Rightarrow> assignment_retention_days cfg | Some p \<Rightarrow> p))) \<and>
    card (set (db_attempts d) - set (db_attempts d')) \<le> limit"
proof -
  define cand where "cand = take limit (sort_key at_updated_at (filter (\<lambda>a. at_state a \<in> set terminal_attempt_states \<and>
      at_updated_at a < now - seconds (86400 * (case days of None \<Rightarrow> assignment_retention_days cfg | Some p \<Rightarrow> p)))
      (db_attempts d)))"
  have ks: "purge_selection cfg now days limit d = map at_pk cand"
    by (simp add: purge_selection_def Let_def cand_def)
  have sub: "set cand \<subseteq> {a \<in> set (db_attempts d). at_state a \<in> set terminal_attempt_states \<and>
      at_updated_at a < now - seconds (86400 * (case days of None \<Rightarrow> assignment_retention_days cfg | Some p \<Rightarrow> p))}"
    unfolding cand_def using set_take_subset by fastforce
  have d': "db_attempts d' = filter (\<lambda>a. at_pk a \<notin> at_pk ` set cand) (db_attempts d)"
    using assms(1) ks
    by (cases cand) (auto simp: purge_terminal_assignment_attempts_def Let_def delete_attempts_def delete_rows_def)
  have gone: "set (db_attempts d) - set (db_attempts d') \<subseteq> set cand"
  proof
    fix a
    assume a: "a \<in> set (db_attempts d) - set (db_attempts d')"
    then have "at_pk a \<in> at_pk ` set cand" by (simp add: d')
    then obtain c where c: "c \<in> set cand" "at_pk a = at_pk c" by blast
    have "inj_on at_pk (set (db_attempts d))" using assms(2) by (simp add: distinct_map)
    moreover have "a \<in> set (db_attempts d)" "c \<in> set (db_attempts d)" using a c(1) sub by auto
    ultimately have "a = c" using c(2) by (simp only: inj_on_eq_iff)
    then show "a \<in> set cand" using c(1) by simp
  qed
  have "card (set (db_attempts d) - set (db_attempts d')) \<le> card (set cand)" using gone by (intro card_mono) simp_all
  also have "\<dots> \<le> length cand" by (rule card_length)
  also have "\<dots> \<le> limit" by (simp add: cand_def)
  finally have "card (set (db_attempts d) - set (db_attempts d')) \<le> limit" .
  moreover have "set (db_attempts d') \<subseteq> set (db_attempts d)" unfolding d' by (rule filter_is_subset)
  ultimately show ?thesis using subset_trans [OF gone sub] by blast
qed

text \<open>The repair converges.  In the legacy mode an attempt whose outcome is open and whose cycle
  is still queued is completed by one reading that shows the desired owner: the repair of an
  applied assignment terminates with success and does not raise.\<close>

theorem repair_converges:
  assumes "reachable cfg d" and "\<not> capacity_enforced cfg" and "attempt_of d k = Some a"
    and "at_state a \<in> {Reserved, External_Applied, Att_Repair_Required}"
    and "at_cycle a = Some c" and "cycle_of d c = Some cy" and "cy_state cy = Queued"
    and "agent_of d (at_agent a) = Some g" and "\<forall>r \<in> set (db_assigned d). as_cycle r \<noteq> Some c"
    and "pv_readback pv = Ticket_Read t" and "owner_number (pt_owner t) = Some (at_desired_owner a)"
  shows "\<exists>d' a'. reconcile_ambiguous_attempt cfg clk pv k err d = (d', Inr ''assigned'') \<and>
    attempt_of d' k = Some a' \<and> at_state a' = Completed"
proof -
  have inv: "protocol_inv d" by (rule reachable_inv [OF assms(1)])
  obtain d' where d': "confirm_and_finalize cfg clk ''confirmed_by_read'' k d = (d', Inr ''assigned'')"
    using confirm_ok [OF inv assms(2-9)] by blast
  have "at_pk a = k" using assms(3) by (rule attempt_of_key)
  then have "converge_on_owner cfg clk a err (pt_owner t) d = (d', Inr ''assigned'')"
    using d' assms(11) by (simp add: converge_on_owner_def Let_def)
  then have "reconcile_ambiguous_attempt cfg clk pv k err d = (d', Inr ''assigned'')"
    using assms(2,3,5-7,10) by (simp add: reconcile_ambiguous_attempt_def cycle_state_of_def)
  then show ?thesis using confirm_completed [OF d'] by blast
qed

text \<open>A failed lock release reopens a completed attempt.  In the enforcing mode, when the repair of
  an item completes the assignment and then the release of the effect lock raises, the item is
  counted twice and the exception handler takes the completed attempt back to
  \<open>repair_required\<close>; its cycle has left \<open>queued\<close>, so no later confirmation completes it again.\<close>

theorem repair_reopens_completed:
  assumes "capacity_enforced cfg" and "at_pk a = k" and "re_effect_lock env k" and "\<not> re_release_ok env k"
    and "at_state a \<noteq> Retryable"
    and "reconcile_ambiguous_attempt cfg (wd_clock w) (re_provider env k) k None d = (d1, Inr ''assigned'')"
    and "attempt_of d1 k = Some a1" and "at_cycle a1 = Some c" and "cycle_of d1 c = Some cy" and "cy_state cy \<noteq> Queued"
    and "mark_repair_failed k ''ConnectionError'' d1 = Inr d2"
  shows "repair_items cfg w env [a] cs d = (d2, Inr (bump ''failed_unexpected'' (bump ''completed'' cs))) \<and>
    attempt_of d2 k = Some (a1\<lparr>at_state := Att_Repair_Required, at_last_error := ''ConnectionError''\<rparr>) \<and>
    (\<forall>clk what. \<exists>d3 e. confirm_and_finalize cfg clk what k d2 = (d3, Inl e))"
proof -
  let ?b = "a1\<lparr>at_state := Att_Repair_Required, at_last_error := ''ConnectionError''\<rparr>"
  have "repair_effect_locked cfg w env a d = (d1, Some ''assigned'', Some ''ConnectionError'')"
    using assms(2-6) by (simp add: repair_effect_locked_def item_of_def)
  then have "repair_items cfg w env [a] cs d = (d2, Inr (bump ''failed_unexpected'' (bump ''completed'' cs)))"
    using assms(1,2,11) by (simp add: repair_outcome_def)
  moreover have "save_attempt ?b d1 = Inr d2" using assms(7,11) by (simp add: mark_repair_failed_def)
  then have d2: "d2 = put_attempt ?b d1" by (rule save_attempt_frame)
  have "attempt_of d1 (at_pk ?b) = Some a1" using assms(7) attempt_of_key [OF assms(7)] by simp
  note attempt_of_put [OF this]
  then have b: "attempt_of d2 k = Some ?b" using d2 attempt_of_key [OF assms(7)] by simp
  have "\<exists>d3 e. confirm_and_finalize cfg clk what k d2 = (d3, Inl e)" for clk what
    by (rule confirm_blocked [OF b]) (use assms(8-10) d2 in \<open>simp_all add: cycle_of_def put_attempt_def\<close>)
  ultimately show ?thesis using b by blast
qed

text \<open>A repair in the legacy mode loses a chat.  Sending an ambiguous attempt to
  \<open>repair_required\<close> gives the agent's chat back although the assignment may stand; when a later
  reading confirms it, the attempt completes and the agent's counter stays one too low.\<close>

theorem repair_loses_load:
  assumes "\<not> capacity_enforced cfg" and "attempt_of d k = Some a" and "\<not> spent a"
    and "get_row rs_attempt (Some k) (db_reservations d) = None"
    and "compensate_assignment_attempt cfg clk k False code quarantine True d = Inr (d1, a1)"
    and "confirm_and_finalize cfg clk' what k d1 = (d2, Inr ''assigned'')"
  shows "at_state a1 = Att_Repair_Required \<and> (\<exists>a2. attempt_of d2 k = Some a2 \<and> at_state a2 = Completed) \<and>
    map ag_chats (db_agents d2) =
      map (\<lambda>g. if ag_pk g = at_agent a then max (ag_chats g - 1) 0 else ag_chats g) (db_agents d)"
proof -
  have a1: "at_state a1 = Att_Repair_Required" "spent a1"
  proof -
    from assms(5) have "at_state a1 = Att_Repair_Required \<and> spent a1"
    proof (cases rule: compensate_cases)
      case (unchanged d' occ)
      then show ?thesis using assms(2,3) by simp
    next
      case (ambiguous d' occ b)
      then show ?thesis using assms(1,4) by (auto elim: assignment_transaction_cases)
    next
      case (settled d' occ b d'')
      then show ?thesis
        by (simp add: compensated_attempt_def compensation_state_def spent_def Let_def)
    qed
    then show "at_state a1 = Att_Repair_Required" "spent a1" by blast+
  qed
  have c: "map ag_chats (db_agents d1) =
      map (\<lambda>g. if ag_pk g = at_agent a then max (ag_chats g - 1) 0 else ag_chats g) (db_agents d)"
    using compensate_chats [OF assms(5,1,2)] assms(3) a1(2) by simp
  obtain d' x where m: "mark_external_applied cfg clk' k what d1 = Inr (d', x)"
    using assms(6) by (auto simp: confirm_and_finalize_def split: sum.splits)
  obtain y where f: "finalize_assignment_attempt cfg clk' k d' = Inr (d2, y)"
    using assms(6) m by (auto simp: confirm_and_finalize_def returning_def split: sum.splits)
  have "map ag_chats (db_agents d2) = map ag_chats (db_agents d1)" using finalize_chats [OF f] mark_frame(1) [OF m] by simp
  then show ?thesis using c a1(1) confirm_completed [OF assms(6)] by simp
qed

section \<open>Witnesses\<close>

definition ok_db :: "db \<Rightarrow> (db \<times> 'a) result \<Rightarrow> db" where
  "ok_db d r = (case r of Inl e \<Rightarrow> d | Inr (d', _) \<Rightarrow> d')"

lemma ok_db_run: "is_ok r \<Longrightarrow> \<exists>x. r = Inr (ok_db d r, x)"
  by (cases r) (auto simp: ok_db_def)

definition demo_reserved_db :: db where
  "demo_reserved_db = ok_db demo_waiting_db (reserve_candidate demo_cfg demo_world None [] demo_row 1 ''eligible'' demo_waiting_db)"

definition demo_effect_db :: db where
  "demo_effect_db = ok_db demo_reserved_db (mark_external_applied demo_cfg demo_clock 100 ''confirmed_by_read'' demo_reserved_db)"

definition demo_final_db :: db where
  "demo_final_db = ok_db demo_effect_db (finalize_assignment_attempt demo_cfg demo_clock 100 demo_effect_db)"

lemma reachable_waiting: "reachable demo_cfg demo_waiting_db"
proof -
  have a: "protocol_step demo_cfg empty_db (empty_db\<lparr>db_cycles := db_cycles empty_db @ [demo_cycle]\<rparr>)"
    by (rule admitting) (simp_all add: empty_db_def cycle_of_def get_row_def)
  have b: "demo_waiting_db = (empty_db\<lparr>db_cycles := db_cycles empty_db @ [demo_cycle]\<rparr>)
      \<lparr>db_agents := [demo_agent 1 10], db_queue := [demo_row], db_occupancies := [], db_cohorts := [], db_next_pk := 100\<rparr>"
    by (simp add: demo_waiting_db_def empty_db_def)
  show ?thesis unfolding b by (rule reachable.step [OF reachable.step [OF start a] elsewhere])
qed

lemma demo_runs:
  "\<exists>x. reserve_candidate demo_cfg demo_world None [] demo_row 1 ''eligible'' demo_waiting_db = Inr (demo_reserved_db, x)"
  "\<exists>x. mark_external_applied demo_cfg demo_clock 100 ''confirmed_by_read'' demo_reserved_db = Inr (demo_effect_db, x)"
  "\<exists>x. finalize_assignment_attempt demo_cfg demo_clock 100 demo_effect_db = Inr (demo_final_db, x)"
  unfolding demo_reserved_db_def demo_effect_db_def demo_final_db_def
  by (rule ok_db_run; code_simp)+

lemma reachable_demo: "reachable demo_cfg demo_reserved_db" "reachable demo_cfg demo_effect_db" "reachable demo_cfg demo_final_db"
proof -
  show r: "reachable demo_cfg demo_reserved_db"
    using reachable.step [OF reachable_waiting] demo_runs(1) protocol_step.reserving by blast
  show e: "reachable demo_cfg demo_effect_db"
    using reachable.step [OF r] demo_runs(2) protocol_step.applying by blast
  show "reachable demo_cfg demo_final_db"
    using reachable.step [OF e] demo_runs(3) protocol_step.finalizing by blast
qed

theorem no_double_assignment_witness:
  "map at_state (db_attempts demo_final_db) = [Completed] \<and>
   (\<exists>x. cycle_of demo_final_db 3 = Some x \<and> cy_state x \<noteq> Queued) \<and>
   (case claim_row demo_cfg demo_world None demo_row 1 ''eligible'' demo_final_db of
      Inr (_, Some v) \<Rightarrow> rv_outcome v \<noteq> Reserved_Now | _ \<Rightarrow> False)"
proof -
  let ?a = "hd (db_attempts demo_final_db)"
  have p: "?a \<in> set (db_attempts demo_final_db)" "at_state ?a = Completed" "at_cycle ?a = Some 3" "nc_cycle demo_row = Some 3"
    by code_simp+
  have ok: "case claim_row demo_cfg demo_world None demo_row 1 ''eligible'' demo_final_db of
      Inr (_, Some v) \<Rightarrow> True | _ \<Rightarrow> False" by code_simp
  have "map at_state (db_attempts demo_final_db) = [Completed]" by code_simp
  moreover note no_double_assignment [OF reachable_demo(3), THEN conjunct2, THEN conjunct2, rule_format, OF p(1-3)]
  ultimately show ?thesis using p(4) ok by (auto split: sum.splits prod.splits option.splits)
qed

theorem attempts_follow_protocol_witness:
  "attempt_move (at_state (hd (db_attempts demo_effect_db))) (at_state (hd (db_attempts demo_final_db))) \<and>
   at_state (hd (db_attempts demo_final_db)) = Completed"
proof -
  have s: "protocol_step demo_cfg demo_effect_db demo_final_db" using demo_runs(3) protocol_step.finalizing by blast
  have a: "attempt_of demo_effect_db 100 = Some (hd (db_attempts demo_effect_db))"
    "attempt_of demo_final_db 100 = Some (hd (db_attempts demo_final_db))" by code_simp+
  have st: "at_state (hd (db_attempts demo_effect_db)) = External_Applied" "at_state (hd (db_attempts demo_final_db)) = Completed"
    by code_simp+
  have "mark_repair_failed 100 name demo_effect_db \<noteq> Inr demo_final_db" for name
  proof
    assume "mark_repair_failed 100 name demo_effect_db = Inr demo_final_db"
    then have "demo_final_db = put_attempt ((hd (db_attempts demo_effect_db))\<lparr>at_state := Att_Repair_Required, at_last_error := take 64 name\<rparr>) demo_effect_db"
      using a(1) by (auto simp: mark_repair_failed_def dest: save_attempt_frame)
    from arg_cong [OF this, of db_cycles] have "db_cycles demo_final_db = db_cycles demo_effect_db" by (simp add: put_attempt_def)
    moreover have "map cy_state (db_cycles demo_final_db) \<noteq> map cy_state (db_cycles demo_effect_db)" by code_simp
    ultimately show False by simp
  qed
  then show ?thesis using attempts_follow_protocol [OF reachable_demo(2) s a] st by simp
qed

definition demo_provider :: provider where
  "demo_provider = \<lparr>pv_allowed = True,
     pv_precondition = Ticket_Read \<lparr>pt_pipeline = Some ''P'', pt_stage = Some ''N'', pt_owner = None, pt_archived = False\<rparr>,
     pv_patch = Patched,
     pv_readback = Ticket_Read \<lparr>pt_pipeline = Some ''P'', pt_stage = Some ''N'', pt_owner = Some ''10'', pt_archived = False\<rparr>,
     pv_reconcile = (\<lambda>_ _ d. (d, Reconcile_Failed)), pv_lock_free = True, pv_release_ok = True\<rparr>"

theorem assigned_means_confirmed_witness:
  "\<exists>d'. execute_assignment_attempt demo_cfg demo_clock demo_provider 5 demo_assignment_db = (d', Inr ''assigned'') \<and>
     (\<exists>a'. attempt_of d' 5 = Some a' \<and> at_state a' = Completed)"
proof -
  let ?r = "execute_assignment_attempt demo_cfg demo_clock demo_provider 5 demo_assignment_db"
  have "snd ?r = Inr ''assigned''" by code_simp
  then have r: "?r = (fst ?r, Inr ''assigned'')" by (cases ?r) simp
  have "attempt_of demo_assignment_db 5 = Some demo_attempt" by code_simp
  from assigned_means_confirmed [OF r this] show ?thesis using r by blast
qed

theorem purge_removes_history_only_witness:
  "purge_terminal_assignment_attempts demo_cfg (seconds 864000) (Some 9) 1 demo_final_db = (empty_db\<lparr>db_agents := db_agents demo_final_db,
      db_queue := [], db_cycles := db_cycles demo_final_db, db_assigned := db_assigned demo_final_db,
      db_logs := map (\<lambda>l. l\<lparr>lg_attempt := None\<rparr>) (db_logs demo_final_db), db_next_pk := db_next_pk demo_final_db\<rparr>, 1) \<and>
   card (set (db_attempts demo_final_db)) \<le> 1"
proof -
  let ?r = "purge_terminal_assignment_attempts demo_cfg (seconds 864000) (Some 9) 1 demo_final_db"
  have r: "?r = (fst ?r, snd ?r)" by simp
  have d: "distinct (map at_pk (db_attempts demo_final_db))" by code_simp
  have e: "db_attempts (fst ?r) = []" by code_simp
  have v: "?r = (empty_db\<lparr>db_agents := db_agents demo_final_db,
      db_queue := [], db_cycles := db_cycles demo_final_db, db_assigned := db_assigned demo_final_db,
      db_logs := map (\<lambda>l. l\<lparr>lg_attempt := None\<rparr>) (db_logs demo_final_db), db_next_pk := db_next_pk demo_final_db\<rparr>, 1)"
    by code_simp
  show ?thesis using purge_removes_history_only [OF r d] v unfolding e by simp
qed

theorem repair_converges_witness:
  "\<exists>d' a'. reconcile_ambiguous_attempt demo_cfg demo_clock demo_provider 100 None demo_effect_db = (d', Inr ''assigned'') \<and>
     attempt_of d' 100 = Some a' \<and> at_state a' = Completed"
proof -
  let ?a = "hd (db_attempts demo_effect_db)"
  have a: "\<not> capacity_enforced demo_cfg" "attempt_of demo_effect_db 100 = Some ?a" "at_state ?a = External_Applied"
    "at_cycle ?a = Some 3" "cycle_of demo_effect_db 3 = Some (hd (db_cycles demo_effect_db))"
    "cy_state (hd (db_cycles demo_effect_db)) = Queued" "agent_of demo_effect_db (at_agent ?a) = Some (hd (db_agents demo_effect_db))"
    "\<forall>r \<in> set (db_assigned demo_effect_db). as_cycle r \<noteq> Some 3"
    by code_simp+
  have o: "owner_number (Some ''10'') = Some (at_desired_owner ?a)" by code_simp
  show ?thesis
    using repair_converges [OF reachable_demo(2) a(1,2) _ a(4-8), of demo_provider _ demo_clock None] a(3) o
    by (simp add: demo_provider_def)
qed

definition demo_repair_env :: repair_env where
  "demo_repair_env = \<lparr>re_provider = (\<lambda>_. demo_provider\<lparr>pv_reconcile := (\<lambda>t _ d. (d,
       Reconciled \<lparr>pt_pipeline = Some ''P'', pt_stage = Some ''N'', pt_owner = Some ''10'', pt_archived = False\<rparr>
         (new_occupancy 9 ''7'' ''42'' \<lparr>oc_state := Oc_Active, oc_owner := Some 10\<rparr>)))\<rparr>),
     re_row_locked = (\<lambda>_. False), re_effect_lock = (\<lambda>_. True), re_release_ok = (\<lambda>_. False)\<rparr>"

definition demo_enforced_db :: db where
  "demo_enforced_db = demo_applied_db\<lparr>db_occupancies := [new_occupancy 9 ''7'' ''42'' \<lparr>oc_state := Oc_Active, oc_owner := Some 10\<rparr>]\<rparr>"

theorem repair_reopens_completed_witness:
  "case repair_items enforce_cfg demo_world demo_repair_env [demo_attempt\<lparr>at_state := External_Applied\<rparr>] [] demo_enforced_db of
     (d', Inr _) \<Rightarrow> map at_state (db_attempts d') = [Att_Repair_Required] \<and> map cy_state (db_cycles d') = [Assigned] \<and>
       (\<exists>d3 e. confirm_and_finalize enforce_cfg demo_clock ''confirmed_by_read'' 5 d' = (d3, Inl e))
   | _ \<Rightarrow> False"
proof -
  let ?a = "demo_attempt\<lparr>at_state := External_Applied\<rparr>"
  let ?rec = "reconcile_ambiguous_attempt enforce_cfg (wd_clock demo_world) (re_provider demo_repair_env 5) 5 None demo_enforced_db"
  let ?d1 = "fst ?rec"
  let ?m = "mark_repair_failed 5 ''ConnectionError'' ?d1"
  have p: "capacity_enforced enforce_cfg" "at_pk ?a = 5" "re_effect_lock demo_repair_env 5" "\<not> re_release_ok demo_repair_env 5"
    "at_state ?a \<noteq> Retryable" by code_simp+
  have "snd ?rec = Inr ''assigned''" by code_simp
  then have r: "?rec = (?d1, Inr ''assigned'')" by (cases ?rec) simp
  have a1: "attempt_of ?d1 5 = Some (hd (db_attempts ?d1))" "at_cycle (hd (db_attempts ?d1)) = Some 3"
    "cycle_of ?d1 3 = Some (hd (db_cycles ?d1))" "cy_state (hd (db_cycles ?d1)) \<noteq> Queued" by code_simp+
  have "is_ok ?m" by code_simp
  then obtain d2 where m: "?m = Inr d2" by (cases ?m) auto
  have st: "case ?m of Inr d \<Rightarrow> map at_state (db_attempts d) = [Att_Repair_Required] \<and> map cy_state (db_cycles d) = [Assigned] | _ \<Rightarrow> False"
    by code_simp
  show ?thesis using repair_reopens_completed [OF p r a1 m, of "[]"] st m by simp
qed

definition demo_ambiguous_db :: db where
  "demo_ambiguous_db = ok_db demo_assignment_db
     (compensate_assignment_attempt demo_cfg demo_clock 5 False ''timeout_owner_unreadable'' False True demo_assignment_db)"

theorem repair_loses_load_witness:
  "case confirm_and_finalize demo_cfg demo_clock ''confirmed_by_read'' 5 demo_ambiguous_db of
     (d2, out) \<Rightarrow> out = Inr ''assigned'' \<and> map at_state (db_attempts d2) = [Completed] \<and> map ag_chats (db_agents d2) = [0, 0]"
proof -
  let ?c = "compensate_assignment_attempt demo_cfg demo_clock 5 False ''timeout_owner_unreadable'' False True demo_assignment_db"
  let ?f = "confirm_and_finalize demo_cfg demo_clock ''confirmed_by_read'' 5 demo_ambiguous_db"
  have p: "\<not> capacity_enforced demo_cfg" "attempt_of demo_assignment_db 5 = Some demo_attempt"
    "get_row rs_attempt (Some 5) (db_reservations demo_assignment_db) = None" by code_simp+
  have n: "\<not> spent demo_attempt" by (simp add: spent_def demo_attempt_def terminal_attempt_states_def)
  have "is_ok ?c" by code_simp
  from ok_db_run [OF this, of demo_assignment_db] obtain x where c: "?c = Inr (demo_ambiguous_db, x)"
    unfolding demo_ambiguous_db_def by blast
  have "snd ?f = Inr ''assigned''" by code_simp
  then have f: "?f = (fst ?f, Inr ''assigned'')" by (cases ?f) simp
  have "map at_state (db_attempts (fst ?f)) = [Completed]" by code_simp
  moreover have "map ag_chats (db_agents (fst ?f)) = [0, 0]"
    using repair_loses_load [OF p(1,2) n p(3) c f] by (simp add: demo_assignment_db_def demo_agent_def demo_attempt_def)
  ultimately show ?thesis using f by (cases ?f) simp
qed

end
