(* ===== verification/Matchmaker.thy ===== *)
theory Matchmaker
  imports Durable_Assignment Owner_Reconciliation
begin

text \<open>
  The matchmaker, \<open>apps/support/matchmaker_service.py\<close>, with the entry points of
  \<open>auto_assign_service.py\<close> around it and \<open>conversation_attendant_service.py\<close>: processing one queue row,
  draining the queue, enqueueing a ticket and synchronizing the NOVO stage.  What the outside answers
  during one turn of a drain (clock, provider, candidates) is the record \<open>turn\<close>; a drain takes a
  sequence of them.  Left out: logging and the free metadata of attendants.
\<close>

section \<open>Attendants\<close>

datatype attendant_source =
    Automatic_Assignment | Manual_Assignment | Owner_Change | Forced_Reassignment | External_Integration | Unknown_External

record attendant =
  an_instance :: uuid
  an_cycle :: uuid
  an_agent :: uuid
  an_owner :: int
  an_name :: string
  an_source :: attendant_source
  an_first_seen :: instant
  an_last_seen :: instant

record desk =
  dk_site :: site
  dk_attendants :: "attendant list"

definition attendance_key :: "attendant \<Rightarrow> uuid \<times> uuid" where
  "attendance_key r = (an_cycle r, an_agent r)"

definition seen_again :: "instant \<Rightarrow> agent \<Rightarrow> attendant \<Rightarrow> attendant" where
  "seen_again now g r = r\<lparr>an_owner := ag_owner g, an_name := ag_name g, an_last_seen := now\<rparr>"

definition record_instance_attendant ::
  "instant \<Rightarrow> uuid \<Rightarrow> agent \<Rightarrow> attendant_source \<Rightarrow> conv \<Rightarrow> attendant list \<Rightarrow> (conv \<times> attendant list \<times> attendant) result" where
  "record_instance_attendant now k g src s rows =
     (case conversation_of s k of
        None \<Rightarrow> Inl DoesNotExist
      | Some i \<Rightarrow>
          and_then (ensure_current_service_cycle now k s) (\<lambda>(s1, c).
            let (rows1, r, created) = get_or_create attendance_key
                  \<lparr>an_instance = k, an_cycle = sc_pk c, an_agent = ag_pk g, an_owner = ag_owner g, an_name = ag_name g,
                   an_source = src, an_first_seen = now, an_last_seen = now\<rparr> rows
            in if created then Inr (s1, rows1, r)
               else Inr (s1, save_row attendance_key (seen_again now g r) rows1, seen_again now g r)))"

definition human_states :: "conversation_state list" where
  "human_states = [St_Handoff_Requested, St_Queue_Pending, St_Human_Assigned, St_Human_In_Progress, St_Resolved_By_Human]"

definition latest_activity :: "(conversation \<Rightarrow> bool) \<Rightarrow> conv \<Rightarrow> conversation list" where
  "latest_activity P s = take 1 (sort_key (\<lambda>i. map_option uminus (cn_activity_at i)) (filter P (cv_instances s)))"

text \<open>The conversations of a ticket that an attendant is recorded on.\<close>

definition attended_instances :: "string \<Rightarrow> conv \<Rightarrow> conversation list" where
  "attended_instances ticket s =
     (case sort_key (\<lambda>i. (cn_created_at i, cn_pk i))
             (filter (\<lambda>i. cn_ticket i = Some ticket \<and> cn_state i \<in> set human_states) (cv_instances s)) of
        [] \<Rightarrow> (case latest_activity (ticket_scope ticket) s of [] \<Rightarrow> latest_activity (canonical_thread ticket) s | is \<Rightarrow> is)
      | is \<Rightarrow> is)"

text \<open>Every instance is recorded in a transaction of its own; an exception ends the loop.\<close>

fun record_each :: "instant \<Rightarrow> agent \<Rightarrow> attendant_source \<Rightarrow> uuid list \<Rightarrow> conv \<Rightarrow> attendant list \<Rightarrow> conv \<times> attendant list \<times> attendant list result" where
  "record_each now g src [] s rows = (s, rows, Inr [])"
| "record_each now g src (k # ks) s rows =
     (case record_instance_attendant now k g src s rows of
        Inl e \<Rightarrow> (s, rows, Inl e)
      | Inr (s1, rows1, r) \<Rightarrow>
          (case record_each now g src ks s1 rows1 of
             (s2, rows2, Inl e) \<Rightarrow> (s2, rows2, Inl e)
           | (s2, rows2, Inr rs) \<Rightarrow> (s2, rows2, Inr (r # rs))))"

definition record_ticket_attendant ::
  "instant \<Rightarrow> string \<Rightarrow> agent \<Rightarrow> attendant_source \<Rightarrow> conv \<Rightarrow> attendant list \<Rightarrow> conv \<times> attendant list \<times> attendant list result" where
  "record_ticket_attendant now ticket g src s rows =
     (if strip ticket = [] then (s, rows, Inr [])
      else record_each now g src (map cn_pk (attended_instances (strip ticket) s)) s rows)"

section \<open>The conversations of an assigned ticket\<close>

definition assignment_move :: "agent \<Rightarrow> move" where
  "assignment_move g = (plain_move St_Human_Assigned ''Matchmaker assigned the conversation to a human agent.'' [])
     \<lparr>mv_actor_type := ''matchmaker'', mv_actor := int_text (ag_owner g)\<rparr>"

text \<open>Each waiting conversation is handed to the agent; the writes of a conversation commit one by one,
  refused transitions and failing attendant rows are skipped, any other exception ends the loop.\<close>

fun hand_over :: "instant \<Rightarrow> agent \<Rightarrow> uuid list \<Rightarrow> conv \<Rightarrow> attendant list \<Rightarrow> conv \<times> attendant list" where
  "hand_over now g [] s rows = (s, rows)"
| "hand_over now g (k # ks) s rows =
     (case conversation_of s k of
        None \<Rightarrow> (s, rows)
      | Some i \<Rightarrow>
          (let s1 = put_conversation (i\<lparr>cn_assigned := Some (int_text (ag_owner g))\<rparr>) s
           in case transition now k (assignment_move g) s1 of
                Inl e \<Rightarrow> (if e = InvalidStateTransitionError then hand_over now g ks s1 rows else (s1, rows))
              | Inr s2 \<Rightarrow>
                  (case record_instance_attendant now k g Automatic_Assignment s2 rows of
                     Inl _ \<Rightarrow> hand_over now g ks s2 rows
                   | Inr (s3, rows1, _) \<Rightarrow> hand_over now g ks s3 rows1)))"

definition transition_assigned_lifecycle :: "instant \<Rightarrow> string \<Rightarrow> agent \<Rightarrow> conv \<Rightarrow> attendant list \<Rightarrow> conv \<times> attendant list" where
  "transition_assigned_lifecycle now ticket g s rows =
     hand_over now g (map cn_pk (filter (\<lambda>i. cn_ticket i = Some ticket \<and> cn_state i = St_Queue_Pending) (cv_instances s))) s rows"

section \<open>One queue row\<close>

datatype queue_item_outcome =
    Assigned_New_Effect | Converged_Completed | Converged_External_Owner
  | Quarantined_Legacy_Ambiguous | Quarantined_Stale_Cycle | Quarantined_Permanent_Provider_Error
  | Deferred_No_Agent | Deferred_Candidate_Changed | Deferred_Provider_Transient | Deferred_Cohort | Deferred_Capacity_Not_Ready
  | Claimed_Elsewhere | Queue_Empty | Systemic_Failure

record queue_item_result =
  qi_outcome :: queue_item_outcome
  qi_row :: "uuid option"
  qi_cycle :: "uuid option"
  qi_progress :: bool
  qi_effect :: bool

record turn =
  tn_world :: world
  tn_provider :: provider
  tn_gate :: "string option"

definition active_row :: "queue_row \<Rightarrow> bool" where
  "active_row q \<longleftrightarrow> nc_auto q \<and> nc_status q \<in> {Pending, In_Queue}"

definition active_queue :: "db \<Rightarrow> nat" where
  "active_queue d = count_rows active_row (db_queue d)"

definition item_result :: "queue_item_outcome \<Rightarrow> uuid option \<Rightarrow> uuid option \<Rightarrow> bool \<Rightarrow> queue_item_result" where
  "item_result out row c progress = \<lparr>qi_outcome = out, qi_row = row, qi_cycle = c, qi_progress = progress, qi_effect = False\<rparr>"

definition unreserved_result :: "reserve_view \<Rightarrow> queue_item_result" where
  "unreserved_result v =
     (case rv_outcome v of
        Queue_Empty_Or_Claimed \<Rightarrow> item_result Queue_Empty None None False
      | Legacy_Cycle_Ambiguous \<Rightarrow> item_result Quarantined_Legacy_Ambiguous (rv_queue v) (rv_cycle v) True
      | Stale_Cycle \<Rightarrow> item_result Quarantined_Stale_Cycle (rv_queue v) (rv_cycle v) True
      | Candidate_Changed \<Rightarrow> item_result Deferred_Candidate_Changed (rv_queue v) (rv_cycle v) False
      | Deferred_Stabilizing_Cohort \<Rightarrow> item_result Deferred_Cohort (rv_queue v) (rv_cycle v) False
      | Capacity_Not_Ready \<Rightarrow> item_result Deferred_Capacity_Not_Ready (rv_queue v) (rv_cycle v) False
      | _ \<Rightarrow> item_result Deferred_No_Agent (rv_queue v) (rv_cycle v) False)"

definition executed_outcome :: "string \<Rightarrow> bool \<Rightarrow> queue_item_outcome" where
  "executed_outcome out effect_pending =
     (if out = ''assigned'' then (if effect_pending then Assigned_New_Effect else Converged_Completed)
      else if out = ''converged_external_owner'' then Converged_External_Owner
      else if out = ''stale_ticket'' then Quarantined_Permanent_Provider_Error
      else if out = ''skipped_stale_cycle'' then Quarantined_Stale_Cycle
      else if out = ''retryable_external_error'' then Deferred_Provider_Transient
      else if out = ''repair_required'' then Systemic_Failure
      else Claimed_Elsewhere)"

definition progress_outcomes :: "queue_item_outcome list" where
  "progress_outcomes = [Assigned_New_Effect, Converged_Completed, Converged_External_Owner, Quarantined_Permanent_Provider_Error,
     Quarantined_Stale_Cycle]"

definition executed_result :: "string \<Rightarrow> bool \<Rightarrow> reserve_view \<Rightarrow> queue_item_result" where
  "executed_result out effect_pending v =
     (let typed = executed_outcome out effect_pending
      in (item_result typed (rv_queue v) (rv_cycle v) (typed \<in> set progress_outcomes))\<lparr>qi_effect := (typed = Assigned_New_Effect)\<rparr>)"

definition put_db :: "db \<Rightarrow> desk \<Rightarrow> desk" where
  "put_db d k = k\<lparr>dk_site := (dk_site k)\<lparr>st_db := d\<rparr>\<rparr>"

definition desk_db :: "desk \<Rightarrow> db" where
  "desk_db k = st_db (dk_site k)"

text \<open>After an assignment; a selected agent that is missing would raise inside the guarded block.\<close>

definition assigned_desk :: "instant \<Rightarrow> attempt \<Rightarrow> desk \<Rightarrow> desk" where
  "assigned_desk now a k =
     (case agent_of (desk_db k) (at_agent a) of
        None \<Rightarrow> k
      | Some g \<Rightarrow>
          (let (s, rows) = transition_assigned_lifecycle now (at_ticket a) g (st_conv (dk_site k)) (dk_attendants k)
           in k\<lparr>dk_site := (dk_site k)\<lparr>st_conv := s\<rparr>, dk_attendants := rows\<rparr>))"

definition process_queue_item :: "settings \<Rightarrow> turn \<Rightarrow> string option \<Rightarrow> uuid list \<Rightarrow> desk \<Rightarrow> desk \<times> queue_item_result result" where
  "process_queue_item cfg t ticket excluded k =
     (if \<not> may_assign cfg (tn_gate t) then (k, Inr (item_result Deferred_No_Agent None None False))
      else case reserve_next_assignment cfg (tn_world t) ticket excluded (desk_db k) of
             (d, Inl e) \<Rightarrow> (put_db d k, Inl e)
           | (d, Inr v) \<Rightarrow>
               (case rv_attempt v of
                  None \<Rightarrow> (put_db d k, Inr (unreserved_result v))
                | Some a \<Rightarrow>
                    (if rv_outcome v = Completed_Same_Cycle
                     then (put_db d k, Inr (item_result Converged_Completed (rv_queue v) (rv_cycle v) True))
                     else case execute_assignment_attempt cfg (wd_clock (tn_world t)) (tn_provider t) (at_pk a) d of
                            (d1, Inl e) \<Rightarrow> (put_db d1 k, Inl e)
                          | (d1, Inr out) \<Rightarrow>
                              (if out = ''assigned'' then assigned_desk (app_clock (wd_clock (tn_world t))) a (put_db d1 k) else put_db d1 k,
                               Inr (executed_result out (at_state a = Reserved) v)))))"

datatype assignment_outcome =
    Outcome_Assigned | Outcome_Queue_Empty | Outcome_No_Agent | Outcome_Locked | Outcome_Stale_Ticket
  | Outcome_Retryable | Outcome_Non_Retryable

fun facade_outcome :: "queue_item_outcome \<Rightarrow> assignment_outcome" where
  "facade_outcome Assigned_New_Effect = Outcome_Assigned"
| "facade_outcome Converged_Completed = Outcome_Assigned"
| "facade_outcome Queue_Empty = Outcome_Queue_Empty"
| "facade_outcome Deferred_No_Agent = Outcome_No_Agent"
| "facade_outcome Deferred_Candidate_Changed = Outcome_No_Agent"
| "facade_outcome Deferred_Cohort = Outcome_No_Agent"
| "facade_outcome Deferred_Capacity_Not_Ready = Outcome_No_Agent"
| "facade_outcome Quarantined_Stale_Cycle = Outcome_Stale_Ticket"
| "facade_outcome Quarantined_Permanent_Provider_Error = Outcome_Stale_Ticket"
| "facade_outcome Deferred_Provider_Transient = Outcome_Retryable"
| "facade_outcome Systemic_Failure = Outcome_Retryable"
| "facade_outcome _ = Outcome_Locked"

definition matchmaker_assign_next :: "settings \<Rightarrow> turn \<Rightarrow> string option \<Rightarrow> desk \<Rightarrow> desk \<times> assignment_outcome result" where
  "matchmaker_assign_next cfg t ticket k =
     (case process_queue_item cfg t ticket [] k of
        (k', Inl e) \<Rightarrow> (k', Inl e)
      | (k', Inr r) \<Rightarrow> (k', Inr (facade_outcome (qi_outcome r))))"

section \<open>Draining\<close>

record drain_counts =
  dn_assigned :: nat
  dn_converged :: nat
  dn_quarantined :: nat
  dn_deferred :: nat
  dn_elsewhere :: nat
  dn_failures :: nat

definition zero_counts :: drain_counts where
  "zero_counts = \<lparr>dn_assigned = 0, dn_converged = 0, dn_quarantined = 0, dn_deferred = 0, dn_elsewhere = 0, dn_failures = 0\<rparr>"

fun count_outcome :: "queue_item_outcome \<Rightarrow> drain_counts \<Rightarrow> drain_counts" where
  "count_outcome Assigned_New_Effect c = c\<lparr>dn_assigned := Suc (dn_assigned c)\<rparr>"
| "count_outcome Converged_Completed c = c\<lparr>dn_converged := Suc (dn_converged c)\<rparr>"
| "count_outcome Converged_External_Owner c = c\<lparr>dn_converged := Suc (dn_converged c)\<rparr>"
| "count_outcome Quarantined_Legacy_Ambiguous c = c\<lparr>dn_quarantined := Suc (dn_quarantined c)\<rparr>"
| "count_outcome Quarantined_Stale_Cycle c = c\<lparr>dn_quarantined := Suc (dn_quarantined c)\<rparr>"
| "count_outcome Quarantined_Permanent_Provider_Error c = c\<lparr>dn_quarantined := Suc (dn_quarantined c)\<rparr>"
| "count_outcome Claimed_Elsewhere c = c\<lparr>dn_elsewhere := Suc (dn_elsewhere c)\<rparr>"
| "count_outcome Systemic_Failure c = c\<lparr>dn_failures := Suc (dn_failures c)\<rparr>"
| "count_outcome Queue_Empty c = c"
| "count_outcome _ c = c\<lparr>dn_deferred := Suc (dn_deferred c)\<rparr>"

record drain_state =
  dr_desk :: desk
  dr_seen :: "uuid list"
  dr_counts :: drain_counts
  dr_no_progress :: nat

definition see_row :: "uuid option \<Rightarrow> uuid list \<Rightarrow> uuid list" where
  "see_row row seen = (case row of None \<Rightarrow> seen | Some r \<Rightarrow> List.insert r seen)"

text \<open>One turn of the loop; the flag says whether the loop goes on.\<close>

definition drain_turn :: "settings \<Rightarrow> turn \<Rightarrow> drain_state \<Rightarrow> (drain_state \<times> bool) \<times> py_error option" where
  "drain_turn cfg t s =
     (case process_queue_item cfg t None (dr_seen s) (dr_desk s) of
        (k, Inl e) \<Rightarrow> ((s\<lparr>dr_desk := k\<rparr>, False), Some e)
      | (k, Inr r) \<Rightarrow>
          (let s1 = s\<lparr>dr_desk := k, dr_seen := see_row (qi_row r) (dr_seen s)\<rparr>
           in if qi_outcome r = Queue_Empty then ((s1, False), None)
              else (let s2 = s1\<lparr>dr_counts := count_outcome (qi_outcome r) (dr_counts s1)\<rparr>
                    in if qi_outcome r = Systemic_Failure then ((s2, False), None)
                       else if qi_progress r then ((s2, True), None)
                       else ((s2\<lparr>dr_no_progress := Suc (dr_no_progress s2)\<rparr>, qi_row r \<noteq> None), None))))"

text \<open>The loop with fuel; \<open>None\<close> is running out of it.\<close>

fun drain_loop :: "settings \<Rightarrow> nat \<Rightarrow> nat \<Rightarrow> turn list \<Rightarrow> turn \<Rightarrow> drain_state \<Rightarrow> (drain_state \<times> py_error option) option" where
  "drain_loop cfg fuel pending ts t0 s =
     (if pending \<le> length (dr_seen s) then Some (s, None)
      else case fuel of
             0 \<Rightarrow> None
           | Suc n \<Rightarrow>
               (case drain_turn cfg (case ts of [] \<Rightarrow> t0 | t # _ \<Rightarrow> t) s of
                  ((s1, True), _) \<Rightarrow> drain_loop cfg n pending (tl ts) t0 s1
                | ((s1, False), e) \<Rightarrow> Some (s1, e)))"

record drain_report =
  rp_counts :: drain_counts
  rp_remaining :: nat
  rp_pending :: nat
  rp_processed :: nat
  rp_no_progress :: nat

definition idle_report :: "nat \<Rightarrow> nat \<Rightarrow> drain_report" where
  "idle_report remaining pending = \<lparr>rp_counts = zero_counts, rp_remaining = remaining, rp_pending = pending, rp_processed = 0, rp_no_progress = 0\<rparr>"

text \<open>\<open>ts\<close> are the turns of the loop, then \<open>t0\<close> for ever; \<open>t0\<close> also gives the gate and the clock at the start.\<close>

definition matchmaker_drain_queue :: "settings \<Rightarrow> nat \<Rightarrow> turn list \<Rightarrow> turn \<Rightarrow> desk \<Rightarrow> (desk \<times> drain_report result) option" where
  "matchmaker_drain_queue cfg fuel ts t0 k =
     (let pending = active_queue (desk_db k);
          now = app_clock (wd_clock (tn_world t0))
      in if \<not> may_assign cfg (tn_gate t0) \<or> pending = 0 then Some (k, Inr (idle_report pending pending))
         else if get_eligible_agents cfg now (capacity_enforced cfg) (desk_db k) = [] then Some (k, Inr (idle_report pending pending))
         else (case drain_loop cfg fuel pending ts t0 \<lparr>dr_desk = k, dr_seen = [], dr_counts = zero_counts, dr_no_progress = 0\<rparr> of
                 None \<Rightarrow> None
               | Some (s, Some e) \<Rightarrow> Some (dr_desk s, Inl e)
               | Some (s, None) \<Rightarrow>
                   Some (dr_desk s,
                     if pending < dn_assigned (dr_counts s) then Inl (UnexpectedError ''AssertionError'')
                     else Inr \<lparr>rp_counts = dr_counts s, rp_remaining = active_queue (desk_db (dr_desk s)), rp_pending = pending,
                           rp_processed = length (dr_seen s), rp_no_progress = dr_no_progress s\<rparr>)))"

section \<open>A drain ends\<close>

lemma claim_row_view:
  assumes "claim_row cfg w occ q candidate why d = Inr (d', Some v)"
  shows "rv_queue v = Some (nc_pk q)"
proof -
  have row: "rv_queue (row_outcome a out q) = Some (nc_pk q)" for a out by (simp add: row_outcome_def)
  show ?thesis
  proof (cases "nc_cycle q \<noteq> None \<and> \<not> cycle_assignable d q \<or>
      nc_cycle q = None \<and> exists_row (\<lambda>a. at_ticket a = nc_ticket q \<and> at_state a = Completed) (db_attempts d)")
    case True
    then show ?thesis using assms by (auto simp: claim_row_def row_outcome_def split: if_splits)
  next
    case fresh: False
    let ?x = "first_row (\<lambda>a. attempt_scope q a \<and> at_state a = Completed) (db_attempts d)"
    let ?y = "first_row (\<lambda>a. attempt_scope q a \<and> is_live (at_state a)) (db_attempts d)"
    show ?thesis
    proof (cases "?x \<noteq> None \<or> ?y \<noteq> None")
      case True
      then show ?thesis using assms fresh row by (cases ?x; cases ?y) (auto simp: claim_row_def split: if_splits)
    next
      case False
      then obtain g where g: "agent_of d candidate = Some g" "admissible cfg w d g"
        using assms fresh by (cases "agent_of d candidate") (auto simp: claim_row_def split: if_splits)
      show ?thesis
        using assms fresh False g row
        by (cases "write_reservation cfg w occ q g Automatic why [] d") (auto simp: claim_row_def split: if_splits)
    qed
  qed
qed

text \<open>What the views of a reservation say about the row: it is not excluded, and a view without row has
  no attempt and no verdict on a row.\<close>

definition view_ok :: "uuid list \<Rightarrow> reserve_view \<Rightarrow> bool" where
  "view_ok excluded v \<longleftrightarrow> (case rv_queue v of
      Some r \<Rightarrow> r \<notin> set excluded
    | None \<Rightarrow> rv_attempt v = None \<and> rv_outcome v \<notin> {Legacy_Cycle_Ambiguous, Stale_Cycle})"

lemma ready_not_excluded: "ready_row now ticket excluded q \<Longrightarrow> nc_pk q \<notin> set excluded"
  by (simp add: ready_row_def waiting_row_def)

lemma reserve_candidate_view:
  assumes "reserve_candidate cfg w ticket excluded pre candidate why d = Inr (d', Some v)"
  shows "view_ok excluded v"
proof -
  obtain d1 occ where t: "optional_ticket_transaction cfg (nc_ticket pre) d = Inr (d1, occ)"
    using assms by (auto simp: reserve_candidate_def split: sum.splits)
  let ?ready = "\<lambda>q. ready_row (db_clock (wd_clock w)) ticket excluded q \<and> (capacity_enforced cfg \<longrightarrow> nc_pk q = nc_pk pre)"
  show ?thesis
  proof (cases "first_by queue_key ?ready (db_queue d1)")
    case None
    then have "v = outcome_only Queue_Empty_Or_Claimed None" using assms t by (simp add: reserve_candidate_def Let_def)
    then show ?thesis by (simp add: outcome_only_def view_ok_def)
  next
    case (Some q)
    then have q: "nc_pk q \<notin> set excluded" using first_by_Some [OF Some] ready_not_excluded by blast
    obtain d2 b where b: "evaluate_opening_cohort_barrier cfg (wd_window w) (wd_racing w) q (db_clock (wd_clock w)) d1 = (d2, b)"
      by fastforce
    have "v = row_outcome None Deferred_Stabilizing_Cohort q \<or> claim_row cfg w occ q candidate why d2 = Inr (d', Some v)"
      using assms t Some b by (simp add: reserve_candidate_def Let_def split: if_splits)
    then have "rv_queue v = Some (nc_pk q)" using claim_row_view by (auto simp: row_outcome_def)
    then show ?thesis using q by (simp add: view_ok_def)
  qed
qed

lemma try_candidates_view:
  assumes "try_candidates cfg w ticket excluded pre cs d = (d', Inr (Some v))"
  shows "view_ok excluded v"
  using assms
proof (induction cs arbitrary: d)
  case (Cons c cs)
  obtain g why where c: "c = (g, why)" by fastforce
  show ?case
  proof (cases "reserve_candidate cfg w ticket excluded pre (ag_pk g) why d")
    case (Inr p)
    then show ?thesis
      using Cons c by (cases p; cases "snd p") (auto intro: reserve_candidate_view)
  qed (use Cons c in simp)
qed simp

lemma deferred_not_excluded:
  "defer_without_candidate clk ticket excluded d = (d', Some r) \<Longrightarrow> r \<notin> set excluded"
  by (auto simp: defer_without_candidate_def Let_def waiting_row_def split: option.splits dest!: first_by_Some)

lemma view_ok_deferred:
  assumes "defer_without_candidate clk ticket excluded d = (d', r)" and "out \<notin> {Legacy_Cycle_Ambiguous, Stale_Cycle}"
  shows "view_ok excluded (outcome_only out r)"
  using assms deferred_not_excluded by (auto simp: view_ok_def outcome_only_def split: option.splits)

lemma reserve_next_view:
  assumes "reserve_next_assignment cfg w ticket excluded d = (d', Inr v)"
  shows "view_ok excluded v"
proof (cases "first_by queue_key (ready_row (db_clock (wd_clock w)) ticket excluded) (db_queue d)")
  case None
  then have "v = outcome_only Queue_Empty_Or_Claimed None" using assms by (simp add: reserve_next_assignment_def Let_def)
  then show ?thesis by (simp add: outcome_only_def view_ok_def)
next
  case (Some pre)
  then have pre: "nc_pk pre \<notin> set excluded" using first_by_Some [OF Some] ready_not_excluded by blast
  obtain d1 b where b: "evaluate_opening_cohort_barrier cfg (wd_window w) (wd_racing w) pre (db_clock (wd_clock w)) d = (d1, b)" by fastforce
  show ?thesis
  proof (cases "is_deferred b")
    case True
    then have "v = row_outcome None Deferred_Stabilizing_Cohort pre" using assms by (simp add: reserve_next_assignment_def Let_def Some b)
    then show ?thesis using pre by (simp add: row_outcome_def view_ok_def)
  next
    case go: False
    obtain d2 cs where c: "verify_candidates cfg w d1 = (d2, cs)" by fastforce
    obtain d3 r where f: "defer_without_candidate (wd_clock w) ticket excluded d2 = (d3, r)" by fastforce
    show ?thesis
    proof (cases cs)
      case Nil
      then obtain out where "v = outcome_only out r" "out \<notin> {Legacy_Cycle_Ambiguous, Stale_Cycle}"
        using assms go that [of Capacity_Not_Ready] that [of No_Eligible_Candidate]
        by (auto simp: reserve_next_assignment_def Let_def Some b c f split: if_splits)
      then show ?thesis using view_ok_deferred [OF f] by simp
    next
      case (Cons x xs)
      obtain d4 res where t: "try_candidates cfg w ticket excluded pre cs d2 = (d4, res)" by fastforce
      obtain d5 r5 where f5: "defer_without_candidate (wd_clock w) ticket excluded d4 = (d5, r5)" by fastforce
      have "res = Inr (Some v) \<or> v = outcome_only Candidate_Changed r5"
        using assms go t f5 Cons by (cases res) (auto simp: reserve_next_assignment_def Let_def Some b c split: option.splits)
      then show ?thesis
      proof
        assume "res = Inr (Some v)"
        then show ?thesis using t by (auto intro: try_candidates_view)
      next
        assume "v = outcome_only Candidate_Changed r5"
        then show ?thesis using view_ok_deferred [OF f5] by simp
      qed
    qed
  qed
qed

lemma process_item_row:
  assumes "process_queue_item cfg t ticket excluded k = (k', Inr r)"
  shows "case qi_row r of Some q \<Rightarrow> q \<notin> set excluded | None \<Rightarrow> \<not> qi_progress r \<and> qi_outcome r \<noteq> Assigned_New_Effect"
proof (cases "may_assign cfg (tn_gate t)")
  case False
  then show ?thesis using assms by (auto simp: process_queue_item_def item_result_def)
next
  case True
  obtain d res where v0: "reserve_next_assignment cfg (tn_world t) ticket excluded (desk_db k) = (d, res)" by fastforce
  then obtain v where v: "res = Inr v" using assms True by (cases res) (simp_all add: process_queue_item_def)
  have ok: "view_ok excluded v" using reserve_next_view v0 v by blast
  show ?thesis
  proof (cases "rv_attempt v")
    case None
    then have "r = unreserved_result v" using assms True v0 v by (simp add: process_queue_item_def)
    then show ?thesis using ok by (cases "rv_queue v"; cases "rv_outcome v") (auto simp: unreserved_result_def item_result_def view_ok_def)
  next
    case (Some a)
    then have row: "rv_queue v \<noteq> None" using ok by (auto simp: view_ok_def split: option.splits)
    have "qi_row r = rv_queue v"
    proof (cases "rv_outcome v = Completed_Same_Cycle")
      case same: True
      then show ?thesis using assms True v0 v Some by (auto simp: process_queue_item_def item_result_def)
    next
      case go: False
      obtain d1 out where ex: "execute_assignment_attempt cfg (wd_clock (tn_world t)) (tn_provider t) (at_pk a) d = (d1, out)" by fastforce
      then show ?thesis
        using assms True v0 v Some go
        by (cases out) (auto simp: process_queue_item_def executed_result_def item_result_def Let_def)
    qed
    then show ?thesis using ok row by (auto simp: view_ok_def)
  qed
qed

lemma count_outcome_assigned:
  "dn_assigned (count_outcome out c) = (if out = Assigned_New_Effect then Suc (dn_assigned c) else dn_assigned c)"
  by (cases out) auto

definition counted_rows :: "drain_counts \<Rightarrow> nat" where
  "counted_rows c = dn_assigned c + dn_converged c + dn_quarantined c + dn_deferred c + dn_elsewhere c + dn_failures c"

lemma count_outcome_rows: "out \<noteq> Queue_Empty \<Longrightarrow> counted_rows (count_outcome out c) = Suc (counted_rows c)"
  by (cases out) (auto simp: counted_rows_def)

text \<open>What holds between two turns: the rows seen are distinct, every turn that goes on has seen one.\<close>

definition drain_ok :: "drain_state \<Rightarrow> bool" where
  "drain_ok s \<longleftrightarrow> distinct (dr_seen s) \<and> counted_rows (dr_counts s) = length (dr_seen s)"

lemma drain_turn_goes_on:
  assumes "drain_ok s" and "drain_turn cfg t s = ((s1, True), e)"
  shows "drain_ok s1 \<and> length (dr_seen s1) = Suc (length (dr_seen s))"
proof -
  obtain k res where p: "process_queue_item cfg t None (dr_seen s) (dr_desk s) = (k, res)" by fastforce
  then obtain r where r: "res = Inr r" using assms(2) by (cases res) (simp_all add: drain_turn_def)
  note row = process_item_row [OF p [unfolded r]]
  have out: "qi_outcome r \<noteq> Queue_Empty" "qi_progress r \<or> qi_row r \<noteq> None"
    using assms(2) p r by (auto simp: drain_turn_def Let_def split: if_splits)
  then obtain q where q: "qi_row r = Some q" "q \<notin> set (dr_seen s)" using row by (auto split: option.splits)
  have "dr_seen s1 = List.insert q (dr_seen s)" "dr_counts s1 = count_outcome (qi_outcome r) (dr_counts s)"
    using assms(2) p r q(1) by (auto simp: drain_turn_def Let_def see_row_def split: if_splits)
  then show ?thesis using assms(1) q(2) count_outcome_rows [OF out(1)] by (simp add: drain_ok_def)
qed

lemma drain_turn_stops:
  assumes "drain_ok s" and "drain_turn cfg t s = ((s1, False), e)"
  shows "distinct (dr_seen s1) \<and> length (dr_seen s1) \<le> Suc (length (dr_seen s)) \<and> dn_assigned (dr_counts s1) \<le> length (dr_seen s) \<and>
    counted_rows (dr_counts s1) \<le> Suc (length (dr_seen s)) \<and>
    (\<forall>x. e = Some x \<longrightarrow> snd (process_queue_item cfg t None (dr_seen s) (dr_desk s)) = Inl x)"
proof -
  obtain k res where p: "process_queue_item cfg t None (dr_seen s) (dr_desk s) = (k, res)" by fastforce
  have s: "distinct (dr_seen s)" "counted_rows (dr_counts s) = length (dr_seen s)" using assms(1) by (auto simp: drain_ok_def)
  have a: "dn_assigned (dr_counts s) \<le> length (dr_seen s)" using s(2) by (simp add: counted_rows_def)
  show ?thesis
  proof (cases res)
    case (Inl x)
    then show ?thesis using assms(2) p s a by (auto simp: drain_turn_def)
  next
    case (Inr r)
    have seen: "dr_seen s1 = see_row (qi_row r) (dr_seen s)"
      using assms(2) p Inr by (auto simp: drain_turn_def Let_def split: if_splits)
    have len: "distinct (dr_seen s1)" "length (dr_seen s1) \<le> Suc (length (dr_seen s))"
      using s(1) unfolding seen see_row_def by (auto simp: List.insert_def split: option.splits)
    consider "qi_outcome r = Queue_Empty" "dr_counts s1 = dr_counts s"
      | "qi_outcome r \<noteq> Queue_Empty" "dr_counts s1 = count_outcome (qi_outcome r) (dr_counts s)" "qi_outcome r \<noteq> Assigned_New_Effect"
      using assms(2) p Inr process_item_row [OF p [unfolded Inr]] by (auto simp: drain_turn_def Let_def split: if_splits)
    moreover have "e = None" using assms(2) p Inr by (auto simp: drain_turn_def Let_def split: if_splits)
    ultimately show ?thesis
      using len a s(2) by cases (auto simp: count_outcome_assigned count_outcome_rows)
  qed
qed

text \<open>The exceptions of turns, with any rows excluded and from any state.\<close>

definition raised_by :: "settings \<Rightarrow> turn set \<Rightarrow> py_error \<Rightarrow> bool" where
  "raised_by cfg T x \<longleftrightarrow> (\<exists>t \<in> T. \<exists>seen k. snd (process_queue_item cfg t None seen k) = Inl x)"

lemma raised_byI: "snd (process_queue_item cfg t None seen k) = Inl x \<Longrightarrow> t \<in> T \<Longrightarrow> raised_by cfg T x"
  unfolding raised_by_def by blast

lemma raised_by_mono: "raised_by cfg T x \<Longrightarrow> T \<subseteq> T' \<Longrightarrow> raised_by cfg T' x"
  unfolding raised_by_def by blast

lemma drain_loop_ends:
  assumes "drain_ok s" and "pending \<le> fuel + length (dr_seen s)" and "length (dr_seen s) \<le> pending"
  shows "\<exists>s' e. drain_loop cfg fuel pending ts t0 s = Some (s', e) \<and> distinct (dr_seen s') \<and> length (dr_seen s') \<le> pending \<and>
    dn_assigned (dr_counts s') \<le> pending \<and> counted_rows (dr_counts s') \<le> pending \<and>
    (\<forall>x. e = Some x \<longrightarrow> raised_by cfg (insert t0 (set ts)) x)"
  using assms
proof (induction fuel arbitrary: s ts)
  case 0
  then show ?case by (auto simp: drain_ok_def counted_rows_def intro!: exI [of _ s])
next
  case (Suc n)
  have a: "dn_assigned (dr_counts s) \<le> length (dr_seen s)" using Suc.prems(1) by (simp add: drain_ok_def counted_rows_def)
  show ?case
  proof (cases "pending \<le> length (dr_seen s)")
    case True
    then show ?thesis using Suc.prems a by (auto simp: drain_ok_def)
  next
    case False
    let ?t = "case ts of [] \<Rightarrow> t0 | t # _ \<Rightarrow> t"
    have mem: "?t \<in> insert t0 (set ts)" "insert t0 (set (tl ts)) \<subseteq> insert t0 (set ts)" by (cases ts; auto)+
    obtain s1 on e where t: "drain_turn cfg ?t s = ((s1, on), e)" by (metis prod.collapse)
    show ?thesis
    proof (cases on)
      case True
      with t drain_turn_goes_on [OF Suc.prems(1)] have "drain_ok s1" "length (dr_seen s1) = Suc (length (dr_seen s))" by auto
      then obtain s' e' where l: "drain_loop cfg n pending (tl ts) t0 s1 = Some (s', e')" "distinct (dr_seen s')"
          "length (dr_seen s') \<le> pending" "dn_assigned (dr_counts s') \<le> pending" "counted_rows (dr_counts s') \<le> pending"
          "\<forall>x. e' = Some x \<longrightarrow> raised_by cfg (insert t0 (set (tl ts))) x"
        using Suc.IH [of s1 "tl ts"] Suc.prems(2) False by auto
      have "drain_loop cfg (Suc n) pending ts t0 s = drain_loop cfg n pending (tl ts) t0 s1" using False t True by simp
      moreover have "\<forall>x. e' = Some x \<longrightarrow> raised_by cfg (insert t0 (set ts)) x" using l(6) raised_by_mono mem(2) by blast
      ultimately show ?thesis using l(1-5) by auto
    next
      case stop: False
      have d: "drain_turn cfg ?t s = ((s1, False), e)" using t stop by simp
      note drain_turn_stops [OF Suc.prems(1) d]
      then show ?thesis using False t stop raised_byI [OF _ mem(1)] by auto
    qed
  qed
qed

text \<open>The results of consecutive turns, each of which excludes the rows of the earlier ones.\<close>

fun item_run :: "settings \<Rightarrow> turn list \<Rightarrow> turn \<Rightarrow> uuid list \<Rightarrow> desk \<Rightarrow> queue_item_result list \<Rightarrow> desk \<Rightarrow> bool" where
  "item_run cfg ts t0 seen k [] k' \<longleftrightarrow> k' = k"
| "item_run cfg ts t0 seen k (r # rs) k' \<longleftrightarrow>
     (case process_queue_item cfg (case ts of [] \<Rightarrow> t0 | t # _ \<Rightarrow> t) None seen k of
        (k1, x) \<Rightarrow> x = Inr r \<and> item_run cfg (tl ts) t0 (see_row (qi_row r) seen) k1 rs k')"

definition rows_of_run :: "queue_item_result list \<Rightarrow> uuid list" where
  "rows_of_run rs = List.map_filter qi_row rs"

lemma rows_of_run_simps [simp]:
  "rows_of_run [] = []" "rows_of_run (r # rs) = (case qi_row r of None \<Rightarrow> rows_of_run rs | Some q \<Rightarrow> q # rows_of_run rs)"
  by (simp_all add: rows_of_run_def split: option.split)

lemma run_rows_distinct:
  "item_run cfg ts t0 seen k rs k' \<Longrightarrow> distinct (rows_of_run rs) \<and> set (rows_of_run rs) \<inter> set seen = {}"
proof (induction rs arbitrary: ts seen k)
  case (Cons r rs)
  let ?t = "case ts of [] \<Rightarrow> t0 | t # _ \<Rightarrow> t"
  obtain k1 where p: "process_queue_item cfg ?t None seen k = (k1, Inr r)"
    and run: "item_run cfg (tl ts) t0 (see_row (qi_row r) seen) k1 rs k'" using Cons.prems by (auto split: prod.splits)
  show ?case using Cons.IH [OF run] process_item_row [OF p] by (auto simp: see_row_def split: option.splits)
qed simp

text \<open>How a run of turns is counted.\<close>

definition counts_of_run :: "queue_item_result list \<Rightarrow> drain_counts" where
  "counts_of_run rs = (let n = (\<lambda>outs. count_rows (\<lambda>r. qi_outcome r \<in> outs) rs);
       converged = {Converged_Completed, Converged_External_Owner};
       quarantined = {Quarantined_Legacy_Ambiguous, Quarantined_Stale_Cycle, Quarantined_Permanent_Provider_Error}
     in \<lparr>dn_assigned = n {Assigned_New_Effect}, dn_converged = n converged, dn_quarantined = n quarantined,
         dn_deferred = n (- ({Assigned_New_Effect, Claimed_Elsewhere, Systemic_Failure, Queue_Empty} \<union> converged \<union> quarantined)),
         dn_elsewhere = n {Claimed_Elsewhere}, dn_failures = n {Systemic_Failure}\<rparr>)"

definition add_counts :: "drain_counts \<Rightarrow> drain_counts \<Rightarrow> drain_counts" where
  "add_counts c c' = \<lparr>dn_assigned = dn_assigned c + dn_assigned c', dn_converged = dn_converged c + dn_converged c',
     dn_quarantined = dn_quarantined c + dn_quarantined c', dn_deferred = dn_deferred c + dn_deferred c',
     dn_elsewhere = dn_elsewhere c + dn_elsewhere c', dn_failures = dn_failures c + dn_failures c'\<rparr>"

lemma counts_of_run_Nil: "counts_of_run [] = zero_counts"
  by (simp add: counts_of_run_def zero_counts_def Let_def)

lemma add_zero_counts [simp]: "add_counts c zero_counts = c"
  by (simp add: add_counts_def zero_counts_def)

lemma counts_of_run_Cons: "add_counts c (counts_of_run (r # rs)) = add_counts (count_outcome (qi_outcome r) c) (counts_of_run rs)"
  by (cases "qi_outcome r") (simp_all add: counts_of_run_def add_counts_def Let_def)

text \<open>Why a drain stops before it saw as many rows as were waiting.\<close>

definition ends_drain :: "queue_item_result \<Rightarrow> bool" where
  "ends_drain r \<longleftrightarrow> qi_outcome r \<in> {Queue_Empty, Systemic_Failure} \<or> (\<not> qi_progress r \<and> qi_row r = None)"

lemma drain_loop_run:
  assumes "drain_loop cfg fuel pending ts t0 s = Some (s', None)"
  shows "\<exists>rs. item_run cfg ts t0 (dr_seen s) (dr_desk s) rs (dr_desk s') \<and>
    dr_counts s' = add_counts (dr_counts s) (counts_of_run rs) \<and> length (dr_seen s') = length (dr_seen s) + length (rows_of_run rs) \<and>
    (\<forall>r \<in> set (butlast rs). \<not> ends_drain r) \<and> (length (dr_seen s') < pending \<longrightarrow> rs \<noteq> [] \<and> ends_drain (last rs))"
  using assms
proof (induction fuel arbitrary: s ts)
  case 0
  then show ?case by (auto simp: counts_of_run_Nil split: if_splits intro!: exI [of _ "[]"])
next
  case (Suc n)
  show ?case
  proof (cases "pending \<le> length (dr_seen s)")
    case True
    then show ?thesis using Suc.prems by (auto simp: counts_of_run_Nil intro!: exI [of _ "[]"])
  next
    case False
    let ?t = "case ts of [] \<Rightarrow> t0 | t # _ \<Rightarrow> t"
    obtain s1 on e where t: "drain_turn cfg ?t s = ((s1, on), e)" by (metis prod.collapse)
    obtain k1 x where p: "process_queue_item cfg ?t None (dr_seen s) (dr_desk s) = (k1, x)" by fastforce
    obtain r where r: "x = Inr r"
      using Suc.prems False t p by (cases x) (auto simp: drain_turn_def)
    have s1: "dr_desk s1 = k1" "dr_seen s1 = see_row (qi_row r) (dr_seen s)" "dr_counts s1 = count_outcome (qi_outcome r) (dr_counts s)"
      and on: "on \<longleftrightarrow> \<not> ends_drain r"
      using t p r by (auto simp: drain_turn_def ends_drain_def Let_def split: if_splits)
    have len: "length (dr_seen s1) = length (dr_seen s) + length (rows_of_run [r])"
      using s1(2) process_item_row [OF p [unfolded r]] by (auto simp: see_row_def split: option.splits)
    show ?thesis
    proof (cases on)
      case True
      then have "drain_loop cfg n pending (tl ts) t0 s1 = Some (s', None)" using Suc.prems False t by simp
      from Suc.IH [OF this] obtain rs where rs: "item_run cfg (tl ts) t0 (dr_seen s1) (dr_desk s1) rs (dr_desk s')"
        "dr_counts s' = add_counts (dr_counts s1) (counts_of_run rs)" "length (dr_seen s') = length (dr_seen s1) + length (rows_of_run rs)"
        "\<forall>r \<in> set (butlast rs). \<not> ends_drain r" "length (dr_seen s') < pending \<longrightarrow> rs \<noteq> [] \<and> ends_drain (last rs)" by blast
      have "item_run cfg ts t0 (dr_seen s) (dr_desk s) (r # rs) (dr_desk s')" using p r rs(1) s1 by simp
      moreover have "dr_counts s' = add_counts (dr_counts s) (counts_of_run (r # rs))" using rs(2) s1(3) counts_of_run_Cons by simp
      moreover have "length (dr_seen s') = length (dr_seen s) + length (rows_of_run (r # rs))"
        using rs(3) len by (simp split: option.splits)
      moreover have "\<forall>r' \<in> set (butlast (r # rs)). \<not> ends_drain r'" using rs(4) on True by auto
      ultimately show ?thesis using rs(5) by (intro exI [of _ "r # rs"]) auto
    next
      case stop: False
      then have s': "s' = s1" using Suc.prems False t by simp
      have "item_run cfg ts t0 (dr_seen s) (dr_desk s) [r] (dr_desk s')" using p r s1 s' by simp
      moreover have "dr_counts s' = add_counts (dr_counts s) (counts_of_run [r])" using s1(3) s' counts_of_run_Cons [of _ r "[]"] by (simp add: counts_of_run_Nil)
      ultimately show ?thesis using len s' on stop by (intro exI [of _ "[r]"]) simp
    qed
  qed
qed

text \<open>C5: a drain always ends and accounts for what it did.  With one unit of fuel for each waiting row the loop never runs out,
  whatever the provider, the clock and the other workers do in between, and an exception is one that a turn raised.  Otherwise the
  report describes the run of the turns: no row is processed by two of them, the processed rows are the rows of the turns, each
  counter is the number of turns with its outcomes, and what remains is counted in the queue it leaves.  It never assigns or counts more
  rows than were waiting (so its assertion holds), and it processes fewer only if the gate was closed, no agent was eligible, or its
  last turn found the queue empty, met a systemic failure or made no progress on any row; no earlier turn did.\<close>

theorem drain_terminates:
  "\<exists>k' r. matchmaker_drain_queue cfg (active_queue (desk_db k)) ts t0 k = Some (k', r) \<and>
     (case r of
        Inl e \<Rightarrow> raised_by cfg (insert t0 (set ts)) e
      | Inr rp \<Rightarrow> rp_pending rp = active_queue (desk_db k) \<and> rp_remaining rp = active_queue (desk_db k') \<and>
          rp_processed rp \<le> rp_pending rp \<and> dn_assigned (rp_counts rp) \<le> rp_pending rp \<and> counted_rows (rp_counts rp) \<le> rp_pending rp \<and>
          (\<exists>rs. item_run cfg ts t0 [] k rs k' \<and> distinct (rows_of_run rs) \<and> rp_processed rp = length (rows_of_run rs) \<and>
             rp_counts rp = counts_of_run rs \<and> (\<forall>x \<in> set (butlast rs). \<not> ends_drain x) \<and>
             (rp_processed rp < rp_pending rp \<longrightarrow> \<not> may_assign cfg (tn_gate t0) \<or>
                get_eligible_agents cfg (app_clock (wd_clock (tn_world t0))) (capacity_enforced cfg) (desk_db k) = [] \<or>
                (rs \<noteq> [] \<and> ends_drain (last rs)))))"
proof -
  let ?n = "active_queue (desk_db k)"
  let ?s = "\<lparr>dr_desk = k, dr_seen = [], dr_counts = zero_counts, dr_no_progress = 0\<rparr>"
  let ?idle = "\<not> may_assign cfg (tn_gate t0) \<or> ?n = 0 \<or>
    get_eligible_agents cfg (app_clock (wd_clock (tn_world t0))) (capacity_enforced cfg) (desk_db k) = []"
  have zero: "counted_rows zero_counts = 0" "dn_assigned zero_counts = 0" by (simp_all add: counted_rows_def zero_counts_def)
  show ?thesis
  proof (cases ?idle)
    case True
    then have "matchmaker_drain_queue cfg ?n ts t0 k = Some (k, Inr (idle_report ?n ?n))"
      by (auto simp: matchmaker_drain_queue_def Let_def)
    then show ?thesis using zero True by (auto simp: idle_report_def counts_of_run_Nil intro!: exI [of _ "[]"])
  next
    case False
    have "drain_ok ?s" using zero by (simp add: drain_ok_def)
    from drain_loop_ends [OF this, of ?n ?n cfg ts t0] obtain s' e where
      l: "drain_loop cfg ?n ?n ts t0 ?s = Some (s', e)" "length (dr_seen s') \<le> ?n" "dn_assigned (dr_counts s') \<le> ?n"
        "counted_rows (dr_counts s') \<le> ?n" "\<forall>x. e = Some x \<longrightarrow> raised_by cfg (insert t0 (set ts)) x" by auto
    show ?thesis
    proof (cases e)
      case (Some x)
      then show ?thesis using False l by (auto simp: matchmaker_drain_queue_def Let_def)
    next
      case None
      from drain_loop_run [OF l(1) [unfolded None]] obtain rs where
        rs: "item_run cfg ts t0 [] k rs (dr_desk s')" "dr_counts s' = add_counts zero_counts (counts_of_run rs)"
          "length (dr_seen s') = length (rows_of_run rs)" "\<forall>r \<in> set (butlast rs). \<not> ends_drain r"
          "length (dr_seen s') < ?n \<longrightarrow> rs \<noteq> [] \<and> ends_drain (last rs)" by auto
      have "add_counts zero_counts (counts_of_run rs) = counts_of_run rs"
        by (simp add: add_counts_def zero_counts_def counts_of_run_def Let_def)
      then show ?thesis
        using False l None rs run_rows_distinct [OF rs(1)]
        by (auto simp: matchmaker_drain_queue_def Let_def intro!: exI [of _ rs])
    qed
  qed
qed

section \<open>Handing over the conversations\<close>

definition handed_over :: "instant \<Rightarrow> agent \<Rightarrow> conversation \<Rightarrow> conversation" where
  "handed_over now g i = moved_conversation now (assignment_move g) (i\<lparr>cn_assigned := Some (int_text (ag_owner g))\<rparr>)"

lemma handed_over_simps [simp]:
  "cn_pk (handed_over now g i) = cn_pk i" "cn_state (handed_over now g i) = St_Human_Assigned"
  "cn_assigned (handed_over now g i) = Some (int_text (ag_owner g))" "cn_ticket (handed_over now g i) = cn_ticket i"
  by (simp_all add: handed_over_def moved_conversation_def assignment_move_def plain_move_def reopens_def)

lemma record_attendant_ok:
  assumes "consistent s" and "conversation_of s k = Some i" and "distinct (map attendance_key rows)"
  obtains s' rows' r c where "record_instance_attendant now k g src s rows = Inr (s', rows', r)" "consistent s'" "same_rest s s'"
    "current_cycle s' k = Some c" "(sc_pk c, ag_pk g) \<in> attendance_key ` set rows'" "distinct (map attendance_key rows')"
    "attendance_key ` set rows \<subseteq> attendance_key ` set rows'"
proof -
  obtain s1 c where e: "ensure_current_service_cycle now k s = Inr (s1, c)" "consistent s1" "same_rest s s1" "current_cycle s1 k = Some c"
    using ensure_consistent [OF assms(1,2)] by metis
  let ?new = "\<lparr>an_instance = k, an_cycle = sc_pk c, an_agent = ag_pk g, an_owner = ag_owner g, an_name = ag_name g,
                   an_source = src, an_first_seen = now, an_last_seen = now\<rparr>"
  obtain rows1 r created where n: "get_or_create attendance_key ?new rows = (rows1, r, created)" by (metis prod_cases3)
  have key: "attendance_key r = (sc_pk c, ag_pk g)" using get_or_create_ident [OF n] by (simp add: attendance_key_def)
  have again: "attendance_key (seen_again now g r) = attendance_key r" by (simp add: seen_again_def attendance_key_def)
  have rows1: "distinct (map attendance_key rows1)" "r \<in> set rows1" "attendance_key ` set rows \<subseteq> attendance_key ` set rows1"
    using get_or_create_distinct [OF assms(3), of ?new] get_or_create_present [OF n] n
    by (auto simp: get_or_create_def split: option.splits)
  let ?rows = "if created then rows1 else save_row attendance_key (seen_again now g r) rows1"
  have keys: "map attendance_key ?rows = map attendance_key rows1" by simp
  have "record_instance_attendant now k g src s rows = Inr (s1, ?rows, if created then r else seen_again now g r)"
    using assms(2) e(1) n by (simp add: record_instance_attendant_def)
  moreover have "(sc_pk c, ag_pk g) \<in> attendance_key ` set ?rows" "attendance_key ` set rows \<subseteq> attendance_key ` set ?rows"
    using rows1 key keys by (metis image_eqI set_map)+
  moreover have "distinct (map attendance_key ?rows)" using rows1(1) keys by metis
  ultimately show ?thesis using that e(2-4) by blast
qed

lemma hand_over_one:
  assumes "consistent s" and "conversation_of s k = Some i" and "cn_state i = St_Queue_Pending" and "distinct (map attendance_key rows)"
  obtains s' rows' c where "hand_over now g (k # ks) s rows = hand_over now g ks s' rows'" "consistent s'"
    "cv_instances s' = save_row cn_pk (handed_over now g i) (cv_instances s)" "distinct (map attendance_key rows')"
    "current_cycle s' k = Some c" "(sc_pk c, ag_pk g) \<in> attendance_key ` set rows'" "attendance_key ` set rows \<subseteq> attendance_key ` set rows'"
proof -
  let ?i = "i\<lparr>cn_assigned := Some (int_text (ag_owner g))\<rparr>"
  let ?s1 = "put_conversation ?i s"
  have k: "cn_pk i = k" using assms(2) by (rule conversation_of_pk)
  have c1: "consistent ?s1" by (rule consistent_put [OF assms(1,2)]) (simp_all add: k)
  have i1: "conversation_of ?s1 k = Some ?i" using assms(2) k by (simp add: conversation_of_put)
  have "validate_transition (cn_state ?i) (mv_to (assignment_move g)) (mv_reopen (assignment_move g)) (mv_queue_entry (assignment_move g)) = Inr ()"
    using assms(3) by (simp add: assignment_move_def plain_move_def validate_transition_def is_terminal_def terminal_states_def)
  then obtain s2 where s2: "transition now k (assignment_move g) ?s1 = Inr s2" "consistent s2"
    "cv_instances s2 = save_row cn_pk (moved_conversation now (assignment_move g) ?i) (cv_instances ?s1)"
    using transition_ok [OF c1 i1, of "assignment_move g" now] assms(3) by (auto simp: assignment_move_def plain_move_def)
  have inst: "cv_instances s2 = save_row cn_pk (handed_over now g i) (cv_instances s)"
    unfolding s2(3) by (simp add: put_conversation_def handed_over_def save_row_def k)
  have "conversation_of s2 k = Some (handed_over now g i)"
    using assms(2) k by (simp add: conversation_of_def inst get_row_save_row)
  then obtain s3 rows' r c where r: "record_instance_attendant now k g Automatic_Assignment s2 rows = Inr (s3, rows', r)" "consistent s3"
    "same_rest s2 s3" "current_cycle s3 k = Some c" "(sc_pk c, ag_pk g) \<in> attendance_key ` set rows'" "distinct (map attendance_key rows')"
    "attendance_key ` set rows \<subseteq> attendance_key ` set rows'"
    using record_attendant_ok [OF s2(2) _ assms(4)] by metis
  have "hand_over now g (k # ks) s rows = hand_over now g ks s3 rows'"
    by (simp add: assms(2) Let_def s2(1) r(1))
  then show ?thesis using that r inst by (simp add: same_rest_def)
qed

lemma hand_over_all:
  assumes "consistent s" and "distinct ks" and "distinct (map attendance_key rows)"
    and "\<And>k. k \<in> set ks \<Longrightarrow> \<exists>i. conversation_of s k = Some i \<and> cn_state i = St_Queue_Pending"
  shows "\<exists>s' rows'. hand_over now g ks s rows = (s', rows') \<and> consistent s' \<and> distinct (map attendance_key rows') \<and>
    cv_instances s' = map (\<lambda>i. if cn_pk i \<in> set ks then handed_over now g i else i) (cv_instances s) \<and>
    attendance_key ` set rows \<subseteq> attendance_key ` set rows'"
  using assms
proof (induction ks arbitrary: s rows)
  case Nil
  then show ?case by simp
next
  case (Cons k ks)
  obtain i where i: "conversation_of s k = Some i" "cn_state i = St_Queue_Pending" using Cons.prems(4) by auto
  have k: "cn_pk i = k" using i(1) by (rule conversation_of_pk)
  obtain s1 rows1 c where one: "hand_over now g (k # ks) s rows = hand_over now g ks s1 rows1" "consistent s1"
    "cv_instances s1 = save_row cn_pk (handed_over now g i) (cv_instances s)" "distinct (map attendance_key rows1)"
    "attendance_key ` set rows \<subseteq> attendance_key ` set rows1"
    using hand_over_one [OF Cons.prems(1) i Cons.prems(3)] by metis
  have "\<exists>j. conversation_of s1 k' = Some j \<and> cn_state j = St_Queue_Pending" if mem: "k' \<in> set ks" for k'
  proof -
    obtain j where "conversation_of s k' = Some j" "cn_state j = St_Queue_Pending" using Cons.prems(4) [OF list.set_intros(2) [OF mem]] by blast
    moreover have "k' \<noteq> k" using mem Cons.prems(2) by auto
    ultimately show ?thesis using one(3) k by (simp add: conversation_of_def)
  qed
  then obtain s' rows' where rest: "hand_over now g ks s1 rows1 = (s', rows')" "consistent s'" "distinct (map attendance_key rows')"
    "cv_instances s' = map (\<lambda>i. if cn_pk i \<in> set ks then handed_over now g i else i) (cv_instances s1)"
    "attendance_key ` set rows1 \<subseteq> attendance_key ` set rows'"
    using Cons.IH [OF one(2) _ one(4)] Cons.prems(2) by auto
  have same: "j = i" if "j \<in> set (cv_instances s)" "cn_pk j = k" for j
    using that i(1) identifiedD(1) [OF consistentD(2) [OF Cons.prems(1)]] get_row_distinct [of cn_pk "cv_instances s" j]
    by (simp add: conversation_of_def)
  have "cv_instances s' = map (\<lambda>j. if cn_pk j \<in> set (k # ks) then handed_over now g j else j) (cv_instances s)"
    unfolding rest(4) one(3) save_row_def using Cons.prems(2) k same by auto
  then show ?case using one(1,5) rest by auto
qed

text \<open>The conversations of an assigned ticket follow the assignment.  Every conversation of the
  ticket that waited in the queue is handed to the agent (assigned, HUMAN_ASSIGNED, one version later),
  every other one stays as it is, and the invariants of the conversations and of the attendants hold.\<close>

theorem assigned_conversations_follow:
  assumes "consistent s" and "distinct (map attendance_key rows)"
  shows "\<exists>s' rows'. transition_assigned_lifecycle now ticket g s rows = (s', rows') \<and> consistent s' \<and>
    cv_instances s' = map (\<lambda>i. if cn_ticket i = Some ticket \<and> cn_state i = St_Queue_Pending then handed_over now g i else i) (cv_instances s) \<and>
    distinct (map attendance_key rows') \<and> attendance_key ` set rows \<subseteq> attendance_key ` set rows'"
proof -
  let ?P = "\<lambda>i. cn_ticket i = Some ticket \<and> cn_state i = St_Queue_Pending"
  let ?ks = "map cn_pk (filter ?P (cv_instances s))"
  have d: "distinct (map cn_pk (cv_instances s))" by (rule identifiedD(1) [OF consistentD(2) [OF assms(1)]])
  have row: "conversation_of s (cn_pk i) = Some i" if "i \<in> set (cv_instances s)" for i
    using get_row_distinct [OF d that] by (simp add: conversation_of_def)
  have "distinct ?ks" using d by (simp add: distinct_map_filter)
  moreover have "\<exists>i. conversation_of s k = Some i \<and> cn_state i = St_Queue_Pending" if "k \<in> set ?ks" for k
    using that row by auto
  ultimately obtain s' rows' where h: "hand_over now g ?ks s rows = (s', rows')" "consistent s'" "distinct (map attendance_key rows')"
    "cv_instances s' = map (\<lambda>i. if cn_pk i \<in> set ?ks then handed_over now g i else i) (cv_instances s)"
    "attendance_key ` set rows \<subseteq> attendance_key ` set rows'"
    using hand_over_all [OF assms(1) _ assms(2)] by blast
  have mem: "cn_pk i \<in> set ?ks \<longleftrightarrow> ?P i" if "i \<in> set (cv_instances s)" for i
    using that row by auto (metis option.inject)+
  have "cv_instances s' = map (\<lambda>i. if ?P i then handed_over now g i else i) (cv_instances s)"
    unfolding h(4) using mem by (intro map_cong) auto
  then show ?thesis using h by (auto simp: transition_assigned_lifecycle_def)
qed

section \<open>Witness\<close>

definition demo_queued :: conv where
  "demo_queued = (case transition 950 0 ((plain_move St_Queue_Pending [] [])\<lparr>mv_queue_entry := True\<rparr>) demo_conv of Inl _ \<Rightarrow> demo_conv | Inr s \<Rightarrow> s)"

lemma demo_queued_consistent: "consistent demo_queued"
proof (cases "transition 950 0 ((plain_move St_Queue_Pending [] [])\<lparr>mv_queue_entry := True\<rparr>) demo_conv")
  case (Inr s)
  then show ?thesis using transition_consistent [OF demo_history(2) Inr] by (simp add: demo_queued_def)
qed (simp add: demo_queued_def demo_history(2))

theorem assigned_conversations_follow_witness:
  "let (s', rows') = transition_assigned_lifecycle 960 ''7'' (demo_agent 1 10) demo_queued []
   in consistent s' \<and> map cn_state (cv_instances s') = [St_Human_Assigned] \<and> map cn_assigned (cv_instances s') = [Some ''10''] \<and>
      map an_agent rows' = [1]"
proof -
  have "distinct (map attendance_key [])" by simp
  from assigned_conversations_follow [OF demo_queued_consistent this, of 960 "''7''" "demo_agent 1 10"]
  obtain s' rows' where r: "transition_assigned_lifecycle 960 ''7'' (demo_agent 1 10) demo_queued [] = (s', rows')" "consistent s'" by blast
  have "case transition_assigned_lifecycle 960 ''7'' (demo_agent 1 10) demo_queued [] of (s', rows') \<Rightarrow>
      map cn_state (cv_instances s') = [St_Human_Assigned] \<and> map cn_assigned (cv_instances s') = [Some ''10''] \<and> map an_agent rows' = [1]"
    by code_simp
  then show ?thesis using r by simp
qed

text \<open>A desk with one waiting row and one free agent.\<close>

definition one_waiting :: desk where
  "one_waiting = \<lparr>dk_site = empty_site\<lparr>st_db := demo_waiting_db\<rparr>, dk_attendants = []\<rparr>"

definition plain_turn :: turn where
  "plain_turn = \<lparr>tn_world = demo_world, tn_provider = demo_provider, tn_gate = None\<rparr>"

theorem drain_terminates_witness:
  "\<exists>k' rp rs. matchmaker_drain_queue demo_cfg 1 [] plain_turn one_waiting = Some (k', Inr rp) \<and>
     item_run demo_cfg [] plain_turn [] one_waiting rs k' \<and> rp_counts rp = counts_of_run rs \<and> dn_assigned (rp_counts rp) = 1 \<and>
     rp_processed rp = 1 \<and> rp_remaining rp = 0"
proof -
  have n: "active_queue (desk_db one_waiting) = 1" by code_simp
  have c: "(case matchmaker_drain_queue demo_cfg 1 [] plain_turn one_waiting of
      Some (_, Inr rp) \<Rightarrow> dn_assigned (rp_counts rp) = 1 \<and> rp_processed rp = 1 \<and> rp_remaining rp = 0 | _ \<Rightarrow> False)" by code_simp
  obtain k' r where r: "matchmaker_drain_queue demo_cfg 1 [] plain_turn one_waiting = Some (k', r)"
    "case r of Inl e \<Rightarrow> True | Inr rp \<Rightarrow> \<exists>rs. item_run demo_cfg [] plain_turn [] one_waiting rs k' \<and> rp_counts rp = counts_of_run rs"
    using drain_terminates [of demo_cfg one_waiting "[]" plain_turn] unfolding n by (fastforce split: sum.splits)
  then show ?thesis using c by (cases r) auto
qed

end
