(* ===== verification/Queue_Intake.thy ===== *)
theory Queue_Intake
  imports Matchmaker
begin

text \<open>
  The way of a ticket into the queue: \<open>enqueue_new_ticket\<close> of \<open>matchmaker_service.py\<close> and
  \<open>process_new_ticket_event\<close>, \<open>attempt_auto_assign\<close>, \<open>assign_pending_tickets\<close> and
  \<open>sync_novo_stage_tickets\<close> of \<open>auto_assign_service.py\<close>.  The provider's answers are arguments.  The
  statements of an enqueue commit one by one, so an exception leaves what was written before it.
\<close>

section \<open>Reading a ticket\<close>

text \<open>\<open>ms / 1000\<close> beyond the C time type raises \<open>OverflowError\<close>, which the handler does not catch; a
  year outside 1 to 9999 is a \<open>ValueError\<close>, which it does.  (Instants after the year 2242 are
  rounded to the floats the code computes with; the model keeps them exact.)\<close>

definition time_t_limit :: int where
  "time_t_limit = (2 ^ 63 - 512) * 1000"

definition min_datetime_ms :: int where
  "min_datetime_ms = - 62135596800000"

definition max_datetime_ms :: int where
  "max_datetime_ms = 253402300799999"

fun stage_given :: "stage_value \<Rightarrow> bool" where
  "stage_given StageNone = False"
| "stage_given (StageInt n) = (n \<noteq> 0)"
| "stage_given (StageText s) = (s \<noteq> [])"

fun parse_hubspot_timestamp :: "entry_value \<Rightarrow> instant option result" where
  "parse_hubspot_timestamp (AwareDatetime t) = Inr (Some t)"
| "parse_hubspot_timestamp (NaiveDatetime t) = Inr None"
| "parse_hubspot_timestamp (RawValue v) =
     (if \<not> stage_given v then Inr None
      else case stage_milliseconds v of
             None \<Rightarrow> Inr None
           | Some ms \<Rightarrow>
               (if time_t_limit \<le> ms \<or> ms < - (2 ^ 63 + 1024) * 1000 then Inl (UnexpectedError ''OverflowError'')
                else if min_datetime_ms \<le> ms \<and> ms \<le> max_datetime_ms then Inr (Some (ms * 1000))
                else Inr None))"

definition owner_present :: "string \<Rightarrow> bool" where
  "owner_present owner \<longleftrightarrow> owner \<noteq> [] \<and> strip owner \<notin> {[], ''None'', ''null''}"

definition is_ticket_eligible :: "settings \<Rightarrow> provider_snapshot \<Rightarrow> bool" where
  "is_ticket_eligible cfg t \<longleftrightarrow> tk_pipeline t = support_pipeline_id cfg \<and>
     (tk_stage t = [] \<or> tk_stage t = stage_novo_id cfg) \<and> \<not> owner_present (tk_owner t)"

section \<open>Enqueueing\<close>

definition proven_mode :: "settings \<Rightarrow> bool" where
  "proven_mode cfg \<longleftrightarrow> portal_id (key_env cfg) \<noteq> [] \<and> provider_contract_mode cfg \<noteq> Contract_Off"

definition attachable :: "open_result \<Rightarrow> bool" where
  "attachable r \<longleftrightarrow> or_classification r \<in> {Created, Duplicate}"

text \<open>The cycle of a queue entry, from proven evidence or from the value itself.\<close>

definition entry_cycle ::
  "settings \<Rightarrow> instant \<Rightarrow> string \<Rightarrow> entry_value \<Rightarrow> instant option \<Rightarrow> string \<Rightarrow> string option \<Rightarrow> site \<Rightarrow> (site \<times> open_result) result" where
  "entry_cycle cfg now ticket v proven source event s =
     (case proven of
        Some t \<Rightarrow>
          (if proven_mode cfg
           then open_from_proven_occurrence cfg now ticket t (portal_id (key_env cfg))
                  \<lparr>ob_source = source, ob_event = opt_text event, ob_updated = None, ob_observation = []\<rparr> s
           else and_then (open_cycle cfg ticket v event None (st_db s)) (\<lambda>(d, r). Inr (s\<lparr>st_db := d\<rparr>, r)))
      | None \<Rightarrow> and_then (open_cycle cfg ticket v event None (st_db s)) (\<lambda>(d, r). Inr (s\<lparr>st_db := d\<rparr>, r)))"

definition new_queue_row :: "uuid \<Rightarrow> string \<Rightarrow> uuid option \<Rightarrow> string \<Rightarrow> contact \<Rightarrow> instant \<Rightarrow> bool \<Rightarrow> queue_row" where
  "new_queue_row k ticket c pipeline contact entered auto = \<lparr>nc_pk = k, nc_ticket = ticket, nc_cycle = c, nc_pipeline = pipeline,
     nc_contact = contact, nc_entered_at = entered, nc_status = Pending, nc_attempts = 0, nc_last_attempt_at = None,
     nc_next_attempt_at = None, nc_failure_code = [], nc_auto = auto, nc_claim_token = [], nc_claim_expires = None, nc_claimed_at = None\<rparr>"

definition can_reactivate :: "queue_row \<Rightarrow> bool" where
  "can_reactivate q \<longleftrightarrow> nc_status q = Failed \<and> nc_failure_code q = ''hubspot_ticket_not_found''"

definition reactivated :: "bool \<Rightarrow> queue_row \<Rightarrow> queue_row" where
  "reactivated auto q = q\<lparr>nc_status := Pending, nc_auto := auto, nc_attempts := 0, nc_last_attempt_at := None,
     nc_next_attempt_at := None, nc_failure_code := []\<rparr>"

definition insert_queue_row :: "queue_row \<Rightarrow> db \<Rightarrow> db result" where
  "insert_queue_row q d =
     (if nc_cycle q \<noteq> None \<and> exists_row (\<lambda>r. nc_cycle r = nc_cycle q) (db_queue d) then Inl IntegrityError
      else Inr (d\<lparr>db_queue := db_queue d @ [q], db_next_pk := Suc (db_next_pk d)\<rparr>))"

text \<open>\<open>get_or_create(hubspot_ticket_id=...)\<close>: the column is not unique.\<close>

definition get_or_create_row ::
  "string \<Rightarrow> string \<Rightarrow> contact \<Rightarrow> instant \<Rightarrow> db \<Rightarrow> (db \<times> queue_row \<times> bool) result" where
  "get_or_create_row ticket pipeline contact entered d =
     (case filter (\<lambda>q. nc_ticket q = ticket) (db_queue d) of
        [] \<Rightarrow> (let q = new_queue_row (db_next_pk d) ticket None pipeline contact entered True
               in and_then (insert_queue_row q d) (\<lambda>d'. Inr (d', q, True)))
      | [q] \<Rightarrow> Inr (d, q, False)
      | _ \<Rightarrow> Inl MultipleObjectsReturned)"

text \<open>Attaching a cycle; a cycle belongs to one row.\<close>

definition attach_cycle :: "uuid option \<Rightarrow> queue_row \<Rightarrow> db \<Rightarrow> db \<times> queue_row result" where
  "attach_cycle c q d =
     (if c = None \<or> nc_cycle q = c then (d, Inr q)
      else if exists_row (\<lambda>r. nc_pk r \<noteq> nc_pk q \<and> nc_cycle r = c) (db_queue d) then (d, Inl IntegrityError)
      else (put_queue (q\<lparr>nc_cycle := c\<rparr>) d, Inr (q\<lparr>nc_cycle := c\<rparr>)))"

definition queue_entry :: "string \<Rightarrow> string \<Rightarrow> contact \<Rightarrow> instant \<Rightarrow> uuid option \<Rightarrow> db \<Rightarrow> db \<times> queue_row result" where
  "queue_entry ticket pipeline contact entered c d =
     (case get_or_create_row ticket pipeline contact entered d of
        Inl e \<Rightarrow> (d, Inl e)
      | Inr (d1, q, created) \<Rightarrow>
          (if \<not> created \<and> can_reactivate q
           then attach_cycle c (reactivated True q) (put_queue (reactivated True q) d1)
           else attach_cycle c q d1))"

text \<open>\<open>entered\<close> is the timestamp of the webhook; the read failing with another exception raises it.\<close>

definition enqueue_new_ticket ::
  "settings \<Rightarrow> instant \<Rightarrow> (provider_snapshot \<times> contact) result \<Rightarrow> string \<Rightarrow> stage_value \<Rightarrow> string \<Rightarrow> site \<Rightarrow> site \<times> queue_row option result" where
  "enqueue_new_ticket cfg now read ticket entered event s =
     (if \<not> may_ingest_queue cfg then (s, Inr None)
      else case read of
             Inl e \<Rightarrow> (s, if e = ExternalServiceError then Inr None else Inl e)
           | Inr (t, contact) \<Rightarrow>
               (if \<not> is_ticket_eligible cfg t then (s, Inr None)
                else (let confirmed = (if stage_given entered then RawValue entered else tk_novo t);
                          source = (if stage_given entered then ''webhook_property'' else ''crm_readback'')
                      in case parse_hubspot_timestamp confirmed of
                           Inl e \<Rightarrow> (s, Inl e)
                         | Inr proven \<Rightarrow>
                             (case entry_cycle cfg now ticket confirmed proven source (Some event) s of
                                Inl e \<Rightarrow> (s, Inl e)
                              | Inr (s1, r) \<Rightarrow>
                                  (if \<not> attachable r \<and> cycles_enforced cfg then (s1, Inr None)
                                   else case proven of
                                          None \<Rightarrow> (s1, Inr None)
                                        | Some at \<Rightarrow>
                                            (case queue_entry ticket (tk_pipeline t) contact at (map_option cy_pk (or_cycle r)) (st_db s1) of
                                               (d, res) \<Rightarrow> (s1\<lparr>st_db := d\<rparr>, map_sum id Some res)))))))"

section \<open>Events and drains\<close>

definition attempt_auto_assign :: "settings \<Rightarrow> turn \<Rightarrow> desk \<Rightarrow> desk \<times> bool result" where
  "attempt_auto_assign cfg t k =
     (if \<not> may_assign cfg (tn_gate t) then (k, Inr False)
      else case matchmaker_assign_next cfg t None k of
             (k', r) \<Rightarrow> (k', map_sum id (\<lambda>out. out = Outcome_Assigned) r))"

definition process_new_ticket_event ::
  "settings \<Rightarrow> instant \<Rightarrow> (provider_snapshot \<times> contact) result \<Rightarrow> turn \<Rightarrow> string \<Rightarrow> stage_value \<Rightarrow> desk \<Rightarrow> desk \<times> bool result" where
  "process_new_ticket_event cfg now read t ticket entered k =
     (if \<not> may_ingest_queue cfg then (k, Inr False)
      else case enqueue_new_ticket cfg now read ticket entered [] (dk_site k) of
             (s, Inl e) \<Rightarrow> (k\<lparr>dk_site := s\<rparr>, Inl e)
           | (s, Inr None) \<Rightarrow> (k\<lparr>dk_site := s\<rparr>, Inr False)
           | (s, Inr (Some q)) \<Rightarrow>
               (case transition_lifecycle_best_effort now ticket [St_Queue_Pending] ''Ticket enqueued for automatic assignment.'' None []
                       False (st_conv s) of
                  Inl e \<Rightarrow> (k\<lparr>dk_site := s\<rparr>, Inl e)
                | Inr c \<Rightarrow>
                    (let k1 = k\<lparr>dk_site := s\<lparr>st_conv := c\<rparr>\<rparr>
                     in if \<not> may_assign cfg (tn_gate t) then (k1, Inr False) else attempt_auto_assign cfg t k1)))"

record pending_report =
  pr_assigned :: nat
  pr_skipped :: nat
  pr_pending :: nat

definition assign_pending_tickets :: "settings \<Rightarrow> nat \<Rightarrow> turn list \<Rightarrow> turn \<Rightarrow> desk \<Rightarrow> (desk \<times> pending_report result) option" where
  "assign_pending_tickets cfg fuel ts t0 k =
     map_option (\<lambda>(k', r). (k', map_sum id (\<lambda>rp. \<lparr>pr_assigned = (if may_assign cfg (tn_gate t0) then dn_assigned (rp_counts rp) else 0),
        pr_skipped = rp_remaining rp, pr_pending = rp_pending rp\<rparr>) r))
       (matchmaker_drain_queue cfg fuel ts t0 k)"

section \<open>Synchronizing the NOVO stage\<close>

record sync_counts =
  yc_created :: nat
  yc_skipped :: nat
  yc_assigned :: nat

text \<open>The rows known before the loop: of a ticket with several, the one entered last.\<close>

definition last_known_row :: "string \<Rightarrow> db \<Rightarrow> queue_row option" where
  "last_known_row ticket d =
     (case sort_key nc_entered_at (filter (\<lambda>q. nc_ticket q = ticket) (db_queue d)) of [] \<Rightarrow> None | qs \<Rightarrow> Some (last qs))"

definition known_assigned :: "string \<Rightarrow> db \<Rightarrow> bool" where
  "known_assigned ticket d = exists_row (\<lambda>r. as_ticket r = ticket) (db_assigned d)"

text \<open>One ticket of the stage; \<open>d0\<close> is the database before the loop.  A row that was reactivated for an
  earlier item of the list is seen so.\<close>

definition sync_ticket ::
  "settings \<Rightarrow> instant \<Rightarrow> db \<Rightarrow> provider_snapshot \<times> contact \<Rightarrow> site \<times> sync_counts \<Rightarrow> (site \<times> sync_counts) \<times> py_error option" where
  "sync_ticket cfg now d0 p w =
     (case (p, w) of ((t, contact), (s, c)) \<Rightarrow>
       (let skip = ((s, c\<lparr>yc_skipped := Suc (yc_skipped c)\<rparr>), None)
        in if owner_present (tk_owner t) then skip
           else case last_known_row (tk_id t) d0 of
                  Some q0 \<Rightarrow>
                    (let q = (case queue_of (st_db s) (nc_pk q0) of None \<Rightarrow> q0 | Some r \<Rightarrow> r)
                     in if can_reactivate q
                        then ((s\<lparr>st_db := put_queue (reactivated False q) (st_db s)\<rparr>, c\<lparr>yc_created := Suc (yc_created c)\<rparr>), None)
                        else skip)
                | None \<Rightarrow>
                    (if known_assigned (tk_id t) d0 then ((s, c\<lparr>yc_assigned := Suc (yc_assigned c)\<rparr>), None)
                     else case parse_hubspot_timestamp (tk_novo t) of
                            Inl e \<Rightarrow> ((s, c), Some e)
                          | Inr None \<Rightarrow> skip
                          | Inr (Some at) \<Rightarrow>
                              (case entry_cycle cfg now (tk_id t) (AwareDatetime at) (Some at) ''crm_readback'' None s of
                                 Inl e \<Rightarrow> ((s, c), Some e)
                               | Inr (s1, r) \<Rightarrow>
                                   (let cy = (if attachable r then or_cycle r else None)
                                    in if cy = None \<and> cycles_enforced cfg then ((s1, c\<lparr>yc_skipped := Suc (yc_skipped c)\<rparr>), None)
                                       else case insert_queue_row (new_queue_row (db_next_pk (st_db s1)) (tk_id t) (map_option cy_pk cy)
                                                   (if tk_pipeline t = [] then support_pipeline_id cfg else tk_pipeline t) contact at False) (st_db s1) of
                                              Inl e \<Rightarrow> ((s1, c), Some e)
                                            | Inr d \<Rightarrow> ((s1\<lparr>st_db := d\<rparr>, c\<lparr>yc_created := Suc (yc_created c)\<rparr>), None))))))"

fun sync_tickets ::
  "settings \<Rightarrow> instant \<Rightarrow> db \<Rightarrow> (provider_snapshot \<times> contact) list \<Rightarrow> site \<times> sync_counts \<Rightarrow> (site \<times> sync_counts) \<times> py_error option" where
  "sync_tickets cfg now d0 [] w = (w, None)"
| "sync_tickets cfg now d0 (p # ps) w =
     (case sync_ticket cfg now d0 p w of
        (w1, Some e) \<Rightarrow> (w1, Some e)
      | (w1, None) \<Rightarrow> sync_tickets cfg now d0 ps w1)"

definition no_sync :: sync_counts where
  "no_sync = \<lparr>yc_created = 0, yc_skipped = 0, yc_assigned = 0\<rparr>"

definition sync_novo_stage_tickets ::
  "settings \<Rightarrow> instant \<Rightarrow> (provider_snapshot \<times> contact) list result \<Rightarrow> nat \<Rightarrow> turn list \<Rightarrow> turn \<Rightarrow> desk \<Rightarrow> (desk \<times> sync_counts result) option" where
  "sync_novo_stage_tickets cfg now search fuel ts t0 k =
     (if \<not> may_reconcile_queue cfg then Some (k, Inr no_sync)
      else case search of
             Inl e \<Rightarrow> Some (k, if e = ExternalServiceError then Inr no_sync else Inl e)
           | Inr ps \<Rightarrow>
               (case sync_tickets cfg now (desk_db k) ps (dk_site k, no_sync) of
                  ((s, c), Some e) \<Rightarrow> Some (k\<lparr>dk_site := s\<rparr>, Inl e)
                | ((s, c), None) \<Rightarrow>
                    (if 0 < yc_created c \<and> may_assign cfg (tn_gate t0)
                     then map_option (\<lambda>(k', r). (k', map_sum id (\<lambda>_. c) r)) (assign_pending_tickets cfg fuel ts t0 (k\<lparr>dk_site := s\<rparr>))
                     else Some (k\<lparr>dk_site := s\<rparr>, Inr c))))"

section \<open>A ticket has one row\<close>

definition ticket_rows :: "string \<Rightarrow> db \<Rightarrow> queue_row list" where
  "ticket_rows ticket d = filter (\<lambda>q. nc_ticket q = ticket) (db_queue d)"

definition entered_row :: "string \<Rightarrow> string \<Rightarrow> contact \<Rightarrow> instant \<Rightarrow> uuid option \<Rightarrow> db \<Rightarrow> queue_row" where
  "entered_row ticket pipeline contact entered c d =
     (let q = (case ticket_rows ticket d of
                 [] \<Rightarrow> new_queue_row (db_next_pk d) ticket None pipeline contact entered True
               | q # _ \<Rightarrow> (if can_reactivate q then reactivated True q else q))
      in if c = None then q else q\<lparr>nc_cycle := c\<rparr>)"

lemma filter_save_row:
  "(\<And>r. key r = key q \<Longrightarrow> r \<in> set rows \<Longrightarrow> P r = P q) \<Longrightarrow> filter P (save_row key q rows) = save_row key q (filter P rows)"
  by (induction rows) (auto simp: save_row_def)

lemma reactivated_simps [simp]:
  "nc_pk (reactivated auto q) = nc_pk q" "nc_ticket (reactivated auto q) = nc_ticket q" "nc_cycle (reactivated auto q) = nc_cycle q"
  "\<not> can_reactivate (reactivated auto q)" "nc_status (reactivated auto q) = Pending" "nc_auto (reactivated auto q) = auto"
  by (simp_all add: reactivated_def can_reactivate_def)

lemma new_queue_row_simps [simp]:
  "nc_pk (new_queue_row k t c p x e auto) = k" "nc_ticket (new_queue_row k t c p x e auto) = t"
  "nc_cycle (new_queue_row k t c p x e auto) = c" "nc_status (new_queue_row k t c p x e auto) = Pending"
  "nc_auto (new_queue_row k t c p x e auto) = auto" "\<not> can_reactivate (new_queue_row k t c p x e auto)"
  by (simp_all add: new_queue_row_def can_reactivate_def)

lemma row_keys:
  assumes "distinct (map nc_pk (db_queue d))" and "q \<in> set (db_queue d)" and "r \<in> set (db_queue d)" and "nc_pk r = nc_pk q"
  shows "r = q"
  using assms by (metis get_row_distinct option.inject)

lemma ticket_rows_put:
  assumes "distinct (map nc_pk (db_queue d))" and "q \<in> set (db_queue d)" and "nc_pk q' = nc_pk q" and "nc_ticket q' = nc_ticket q"
  shows "ticket_rows t (put_queue q' d) = save_row nc_pk q' (ticket_rows t d)"
proof -
  have "nc_ticket r = t \<longleftrightarrow> nc_ticket q' = t" if "nc_pk r = nc_pk q'" "r \<in> set (db_queue d)" for r
    using row_keys [OF assms(1,2) that(2)] that(1) assms(3,4) by simp
  then show ?thesis unfolding ticket_rows_def put_queue_def by (simp add: filter_save_row)
qed

lemma save_row_single: "nc_pk q' = nc_pk q \<Longrightarrow> save_row nc_pk q' [q] = [q']"
  by (simp add: save_row_def)

definition queue_keys_ok :: "db \<Rightarrow> bool" where
  "queue_keys_ok d \<longleftrightarrow> distinct (map nc_pk (db_queue d)) \<and> (\<forall>q \<in> set (db_queue d). nc_pk q < db_next_pk d)"

text \<open>The cycle is free: no row of another ticket holds it.\<close>

definition cycle_free :: "string \<Rightarrow> uuid option \<Rightarrow> db \<Rightarrow> bool" where
  "cycle_free ticket c d \<longleftrightarrow> c = None \<or> (\<forall>r \<in> set (db_queue d). nc_ticket r \<noteq> ticket \<longrightarrow> nc_cycle r \<noteq> c)"

lemma attach_known:
  assumes "queue_keys_ok d" and "ticket_rows t d = [q]" and "cycle_free t c d"
  shows "\<exists>d'. attach_cycle c q d = (d', Inr (if c = None then q else q\<lparr>nc_cycle := c\<rparr>)) \<and>
    ticket_rows t d' = [if c = None then q else q\<lparr>nc_cycle := c\<rparr>] \<and> queue_keys_ok d'"
proof -
  have q: "q \<in> set (db_queue d)" "nc_ticket q = t" using assms(2) by (auto simp: ticket_rows_def dest: filter_eq_ConsD)
  have one: "r = q" if "r \<in> set (db_queue d)" "nc_ticket r = t" for r
  proof -
    have "r \<in> set (ticket_rows t d)" using that by (simp add: ticket_rows_def)
    then show ?thesis using assms(2) by simp
  qed
  show ?thesis
  proof (cases "c = None \<or> nc_cycle q = c")
    case True
    then have "(if c = None then q else q\<lparr>nc_cycle := c\<rparr>) = q" by auto
    then show ?thesis using True assms(1,2) by (simp add: attach_cycle_def)
  next
    case False
    let ?q = "q\<lparr>nc_cycle := c\<rparr>"
    have "\<not> exists_row (\<lambda>r. nc_pk r \<noteq> nc_pk q \<and> nc_cycle r = c) (db_queue d)"
      using assms(3) one False by (auto simp: cycle_free_def)
    then have "attach_cycle c q d = (put_queue ?q d, Inr ?q)" using False by (auto simp: attach_cycle_def)
    moreover have "ticket_rows t (put_queue ?q d) = [?q]"
      using ticket_rows_put [OF _ q(1), of ?q t] assms(1,2) by (simp add: queue_keys_ok_def save_row_single)
    moreover have "queue_keys_ok (put_queue ?q d)"
      using assms(1) q(1) by (auto simp: queue_keys_ok_def put_queue_def dest!: in_save_row)
    moreover have "(if c = None then q else ?q) = ?q" using False by auto
    ultimately show ?thesis by (intro exI [of _ "put_queue ?q d"]) simp
  qed
qed

text \<open>C10: entering the queue.  When the ticket has at most one row and no row of another ticket holds the
  cycle, entering it always succeeds with the one row of the ticket: a new waiting row, or the known
  one with the cycle attached, restarted when its ticket had been missing.  Entering it again changes
  nothing.  Two rows of the ticket make every attempt fail.\<close>

theorem queue_entry_effect:
  assumes "queue_keys_ok d"
  shows "(length (ticket_rows t d) \<le> 1 \<and> cycle_free t c d \<longrightarrow>
      (\<exists>d'. queue_entry t p x e c d = (d', Inr (entered_row t p x e c d)) \<and> ticket_rows t d' = [entered_row t p x e c d] \<and>
        queue_keys_ok d' \<and> queue_entry t p x e c d' = (d', Inr (entered_row t p x e c d)))) \<and>
    (2 \<le> length (ticket_rows t d) \<longrightarrow> queue_entry t p x e c d = (d, Inl MultipleObjectsReturned))"
proof (intro conjI impI)
  assume "length (ticket_rows t d) \<le> 1 \<and> cycle_free t c d"
  then have rows: "length (ticket_rows t d) \<le> 1" and free: "cycle_free t c d" by auto
  have again: "queue_entry t p x e c d' = (d', Inr q)"
    if "ticket_rows t d' = [q]" "c = None \<or> nc_cycle q = c" "\<not> can_reactivate q" for d' q
    using that by (auto simp: queue_entry_def get_or_create_row_def ticket_rows_def attach_cycle_def)
  show "\<exists>d'. queue_entry t p x e c d = (d', Inr (entered_row t p x e c d)) \<and> ticket_rows t d' = [entered_row t p x e c d] \<and>
        queue_keys_ok d' \<and> queue_entry t p x e c d' = (d', Inr (entered_row t p x e c d))"
  proof (cases "ticket_rows t d")
    case Nil
    let ?q = "new_queue_row (db_next_pk d) t None p x e True"
    let ?d = "d\<lparr>db_queue := db_queue d @ [?q], db_next_pk := Suc (db_next_pk d)\<rparr>"
    have ok: "queue_keys_ok ?d" "ticket_rows t ?d = [?q]" "cycle_free t c ?d"
      using assms Nil free by (auto simp: queue_keys_ok_def ticket_rows_def cycle_free_def less_Suc_eq)
    obtain d' where d': "attach_cycle c ?q ?d = (d', Inr (if c = None then ?q else ?q\<lparr>nc_cycle := c\<rparr>))"
      "ticket_rows t d' = [if c = None then ?q else ?q\<lparr>nc_cycle := c\<rparr>]" "queue_keys_ok d'"
      using attach_known [OF ok] by blast
    have "queue_entry t p x e c d = attach_cycle c ?q ?d"
      using Nil by (simp add: queue_entry_def get_or_create_row_def ticket_rows_def insert_queue_row_def Let_def)
    moreover have "entered_row t p x e c d = (if c = None then ?q else ?q\<lparr>nc_cycle := c\<rparr>)" using Nil by (simp add: entered_row_def Let_def)
    moreover have "\<not> can_reactivate (?q\<lparr>nc_cycle := c\<rparr>)" by (simp add: can_reactivate_def)
    ultimately show ?thesis using d' again [OF d'(2)] by auto
  next
    case (Cons q qs)
    then have one: "ticket_rows t d = [q]" using rows by simp
    have q: "q \<in> set (db_queue d)" using one by (auto simp: ticket_rows_def dest: filter_eq_ConsD)
    let ?q = "if can_reactivate q then reactivated True q else q"
    let ?d = "if can_reactivate q then put_queue (reactivated True q) d else d"
    have ok: "queue_keys_ok ?d" "ticket_rows t ?d = [?q]" "cycle_free t c ?d"
      using assms one q free ticket_rows_put [OF _ q, of "reactivated True q" t] save_row_single [of "reactivated True q" q]
      by (auto simp: queue_keys_ok_def cycle_free_def put_queue_def dest!: in_save_row)
    obtain d' where d': "attach_cycle c ?q ?d = (d', Inr (if c = None then ?q else ?q\<lparr>nc_cycle := c\<rparr>))"
      "ticket_rows t d' = [if c = None then ?q else ?q\<lparr>nc_cycle := c\<rparr>]" "queue_keys_ok d'"
      using attach_known [OF ok] by blast
    have "queue_entry t p x e c d = attach_cycle c ?q ?d"
      using one by (simp add: queue_entry_def get_or_create_row_def ticket_rows_def)
    moreover have "entered_row t p x e c d = (if c = None then ?q else ?q\<lparr>nc_cycle := c\<rparr>)" using one by (simp add: entered_row_def Let_def)
    moreover have "\<not> can_reactivate (if c = None then ?q else ?q\<lparr>nc_cycle := c\<rparr>)" by (auto simp: can_reactivate_def reactivated_def)
    ultimately show ?thesis using d' again [OF d'(2)] by auto
  qed
next
  assume "2 \<le> length (ticket_rows t d)"
  then obtain a b r where "ticket_rows t d = a # b # r" by (metis Suc_1 Suc_le_length_iff numeral_2_eq_2)
  then show "queue_entry t p x e c d = (d, Inl MultipleObjectsReturned)"
    by (simp add: queue_entry_def get_or_create_row_def ticket_rows_def)
qed

section \<open>Synchronized rows\<close>

definition queue_frame :: "site \<Rightarrow> site \<Rightarrow> bool" where
  "queue_frame s s' \<longleftrightarrow> db_queue (st_db s') = db_queue (st_db s) \<and> db_next_pk (st_db s) \<le> db_next_pk (st_db s')"

lemma queue_frame_trans: "queue_frame s s' \<Longrightarrow> queue_frame s' s'' \<Longrightarrow> queue_frame s s''"
  by (simp add: queue_frame_def)

lemma record_entry_frame:
  assumes "record_proven_occurrence now account ticket Entered_Support_Queue t ev s = Inr (s', r)"
  shows "queue_frame s s'"
proof -
  have "get_temporal account ticket Entered_Support_Queue t s = Inr (s', r) \<Longrightarrow> s' = s"
    by (auto simp: get_temporal_def split: option.splits)
  then show ?thesis
    using assms by (auto simp: record_proven_occurrence_def insert_occurrence_def queue_frame_def Let_def split: if_splits option.splits sum.splits)
qed

lemma open_cycle_frame:
  "open_cycle cfg ticket v event account d = Inr (d', r) \<Longrightarrow> db_queue d' = db_queue d \<and> db_next_pk d \<le> db_next_pk d'"
  by (auto simp: open_cycle_def elim!: and_then_InrE split: prod.splits)

lemma mark_processed_queue: "st_db (mark_processed k s) = st_db s"
  by (simp add: mark_processed_def split: option.splits)

lemma entry_cycle_frame:
  assumes "entry_cycle cfg now ticket v proven source event s = Inr (s', r)"
  shows "queue_frame s s'"
proof (cases "proven \<noteq> None \<and> proven_mode cfg")
  case True
  then obtain t where t: "proven = Some t" by blast
  let ?ev = "\<lparr>ob_source = source, ob_event = opt_text event, ob_updated = None, ob_observation = []\<rparr>"
  have "open_from_proven_occurrence cfg now ticket t (portal_id (key_env cfg)) ?ev s = Inr (s', r)"
    using assms True t by (simp add: entry_cycle_def)
  then obtain s1 o1 d where s1: "record_proven_occurrence now (portal_id (key_env cfg)) ticket Entered_Support_Queue t ?ev s = Inr (s1, o1)"
    "open_cycle cfg ticket (AwareDatetime t) (Some (opt_text event)) (Some (portal_id (key_env cfg))) (st_db s1) = Inr (d, r)"
    "s' = (if or_classification r \<in> {Created, Duplicate} then mark_processed (ol_pk o1) (s1\<lparr>st_db := d\<rparr>) else s1\<lparr>st_db := d\<rparr>)"
    by (auto simp: open_from_proven_occurrence_def Let_def elim!: and_then_InrE)
  have "st_db s' = d" unfolding s1(3) by (simp add: mark_processed_queue)
  then have "queue_frame s1 s'" using open_cycle_frame [OF s1(2)] by (simp add: queue_frame_def)
  with record_entry_frame [OF s1(1)] show ?thesis by (rule queue_frame_trans)
next
  case False
  then have "\<exists>d. open_cycle cfg ticket v event None (st_db s) = Inr (d, r) \<and> s' = s\<lparr>st_db := d\<rparr>"
    using assms by (auto simp: entry_cycle_def split: option.splits if_splits elim!: and_then_InrE)
  then show ?thesis using open_cycle_frame by (auto simp: queue_frame_def)
qed

definition same_active :: "site \<Rightarrow> site \<Rightarrow> bool" where
  "same_active s s' \<longleftrightarrow> filter active_row (db_queue (st_db s')) = filter active_row (db_queue (st_db s))"

lemma reactivated_inactive: "\<not> active_row (reactivated False q)"
  by (simp add: active_row_def)

lemma filter_save_inactive:
  assumes "\<And>r. r \<in> set rows \<Longrightarrow> key r = key q \<Longrightarrow> \<not> P r" and "\<not> P q"
  shows "filter P (save_row key q rows) = filter P rows"
  using assms by (induction rows) (auto simp: save_row_def)

lemma sync_ticket_active:
  assumes "queue_keys_ok (st_db s)" and "\<And>q0. last_known_row (tk_id (fst p)) d0 = Some q0 \<Longrightarrow> queue_of (st_db s) (nc_pk q0) \<noteq> None"
    and "sync_ticket cfg now d0 p (s, c) = ((s', c'), e)"
  shows "same_active s s' \<and> queue_keys_ok (st_db s') \<and> nc_pk ` set (db_queue (st_db s)) \<subseteq> nc_pk ` set (db_queue (st_db s'))"
proof -
  obtain t contact where p: "p = (t, contact)" by (cases p)
  consider (same) "s' = s" | (reactivated) q where "q \<in> set (db_queue (st_db s))" "can_reactivate q"
      "s' = s\<lparr>st_db := put_queue (reactivated False q) (st_db s)\<rparr>"
    | (framed) "queue_frame s s'"
    | (created) s1 at cy pipeline where "queue_frame s s1" "s' = s1\<lparr>st_db := (st_db s1)\<lparr>db_queue := db_queue (st_db s1) @
        [new_queue_row (db_next_pk (st_db s1)) (tk_id t) cy pipeline contact at False], db_next_pk := Suc (db_next_pk (st_db s1))\<rparr>\<rparr>"
  proof (cases "owner_present (tk_owner t)")
    case True
    then show ?thesis using that(1) assms(3) p by (simp add: sync_ticket_def Let_def)
  next
    case free: False
    show ?thesis
    proof (cases "last_known_row (tk_id t) d0")
      case (Some q0)
      then obtain q where q: "queue_of (st_db s) (nc_pk q0) = Some q" using assms(2) p by auto
      then have m: "q \<in> set (db_queue (st_db s))" unfolding queue_of_def by (rule get_row_mem)
      show ?thesis
      proof (cases "can_reactivate q")
        case True
        then have "s' = s\<lparr>st_db := put_queue (reactivated False q) (st_db s)\<rparr>"
          using assms(3) p free Some q by (simp add: sync_ticket_def Let_def)
        then show ?thesis using that(2) [OF m True] by simp
      next
        case False
        then show ?thesis using that(1) assms(3) p free Some q by (simp add: sync_ticket_def Let_def)
      qed
    next
      case None
      show ?thesis
      proof (cases "known_assigned (tk_id t) d0 \<or> (\<nexists>at. parse_hubspot_timestamp (tk_novo t) = Inr (Some at))")
        case True
        then show ?thesis using that(1) assms(3) p free None
          by (auto simp: sync_ticket_def Let_def split: if_splits sum.splits option.splits)
      next
        case False
        then obtain at where at: "parse_hubspot_timestamp (tk_novo t) = Inr (Some at)" "\<not> known_assigned (tk_id t) d0" by auto
        show ?thesis
        proof (cases "entry_cycle cfg now (tk_id t) (AwareDatetime at) (Some at) ''crm_readback'' None s")
          case (Inl x)
          then show ?thesis using that(1) assms(3) p free None at by (simp add: sync_ticket_def Let_def)
        next
          case (Inr sr)
          obtain s1 r where sr: "sr = (s1, r)" by fastforce
          note frame = entry_cycle_frame [OF Inr [unfolded sr]]
          let ?cy = "if attachable r then or_cycle r else None"
          show ?thesis
          proof (cases "?cy = None \<and> cycles_enforced cfg")
            case True
            then show ?thesis using that(3) frame assms(3) p free None at Inr sr by (simp add: sync_ticket_def Let_def)
          next
            case go: False
            let ?q = "new_queue_row (db_next_pk (st_db s1)) (tk_id t) (map_option cy_pk ?cy)
                (if tk_pipeline t = [] then support_pipeline_id cfg else tk_pipeline t) contact at False"
            show ?thesis
            proof (cases "insert_queue_row ?q (st_db s1)")
              case (Inl x)
              then have "s' = s1" using assms(3) p free None at Inr sr go by (simp add: sync_ticket_def Let_def)
              then show ?thesis using that(3) frame by simp
            next
              case ins: (Inr d)
              then have "s' = s1\<lparr>st_db := d\<rparr>" using assms(3) p free None at Inr sr go by (simp add: sync_ticket_def Let_def)
              moreover have "d = (st_db s1)\<lparr>db_queue := db_queue (st_db s1) @ [?q], db_next_pk := Suc (db_next_pk (st_db s1))\<rparr>"
                using ins by (auto simp: insert_queue_row_def split: if_splits)
              ultimately show ?thesis using that(4) frame by blast
            qed
          qed
        qed
      qed
    qed
  qed
  then show ?thesis
  proof cases
    case same
    then show ?thesis using assms(1) by (simp add: same_active_def)
  next
    case (reactivated q)
    have "\<not> active_row r" if "r \<in> set (db_queue (st_db s))" "nc_pk r = nc_pk q" for r
      using row_keys [OF _ reactivated(1) that] assms(1) reactivated(2) by (auto simp: queue_keys_ok_def can_reactivate_def active_row_def)
    then have "same_active s s'"
      unfolding same_active_def reactivated(3) put_queue_def by (auto intro!: filter_save_inactive simp: active_row_def)
    moreover have "queue_keys_ok (st_db s')"
      using assms(1) reactivated(1) by (auto simp: queue_keys_ok_def reactivated(3) put_queue_def dest!: in_save_row)
    moreover have "map nc_pk (db_queue (st_db s')) = map nc_pk (db_queue (st_db s))" by (simp add: reactivated(3) put_queue_def)
    ultimately show ?thesis by (metis set_map subset_refl)
  next
    case framed
    then show ?thesis using assms(1) by (fastforce simp: queue_frame_def same_active_def queue_keys_ok_def)
  next
    case (created s1 at cy pipeline)
    have "queue_keys_ok (st_db s1)" using created(1) assms(1) by (fastforce simp: queue_frame_def queue_keys_ok_def)
    then show ?thesis
      using created(1) by (auto simp: created(2) queue_frame_def same_active_def queue_keys_ok_def active_row_def less_Suc_eq)
  qed
qed

definition synced_ok :: "db \<Rightarrow> site \<Rightarrow> bool" where
  "synced_ok d0 s \<longleftrightarrow> queue_keys_ok (st_db s) \<and> nc_pk ` set (db_queue d0) \<subseteq> nc_pk ` set (db_queue (st_db s))"

lemma last_known_row_mem: "last_known_row t d = Some q \<Longrightarrow> q \<in> set (db_queue d)"
proof -
  assume l: "last_known_row t d = Some q"
  let ?qs = "sort_key nc_entered_at (filter (\<lambda>q. nc_ticket q = t) (db_queue d))"
  from l have "?qs \<noteq> []" "q = last ?qs" by (auto simp: last_known_row_def split: list.splits)
  then have "q \<in> set ?qs" using last_in_set by metis
  then show ?thesis by simp
qed

lemma synced_row:
  assumes "synced_ok d0 s" and "last_known_row t d0 = Some q0"
  shows "queue_of (st_db s) (nc_pk q0) \<noteq> None"
proof -
  have "nc_pk q0 \<in> nc_pk ` set (db_queue (st_db s))" using assms last_known_row_mem by (auto simp: synced_ok_def)
  then show ?thesis by (auto simp: queue_of_def get_row_None)
qed

lemma sync_tickets_active:
  assumes "synced_ok d0 s" and "sync_tickets cfg now d0 ps (s, c) = ((s', c'), e)"
  shows "same_active s s' \<and> synced_ok d0 s'"
  using assms
proof (induction ps arbitrary: s c)
  case Nil
  then show ?case by (simp add: same_active_def)
next
  case (Cons p ps)
  obtain s1 c1 e1 where one: "sync_ticket cfg now d0 p (s, c) = ((s1, c1), e1)" by (metis prod_cases3 prod.collapse)
  have "same_active s s1 \<and> synced_ok d0 s1"
    using sync_ticket_active [OF _ _ one] Cons.prems(1) synced_row [OF Cons.prems(1)] by (fastforce simp: synced_ok_def)
  then show ?case
    using Cons.IH [of s1 c1] Cons.prems(2) one by (cases e1) (auto simp: same_active_def)
qed

text \<open>Synchronized tickets wait.  A synchronization of the NOVO stage never adds a row that a drain
  would take: the rows it creates or reactivates are not eligible for automatic assignment, and the
  rows that were eligible before stay exactly as they are, whatever the listing holds.\<close>

theorem synced_rows_wait:
  assumes "queue_keys_ok (st_db s)" and "sync_tickets cfg now (st_db s) ps (s, no_sync) = ((s', c'), e)"
  shows "filter active_row (db_queue (st_db s')) = filter active_row (db_queue (st_db s)) \<and>
    active_queue (st_db s') = active_queue (st_db s)"
proof -
  have "synced_ok (st_db s) s" using assms(1) by (simp add: synced_ok_def)
  from sync_tickets_active [OF this assms(2)]
  have f: "filter active_row (db_queue (st_db s')) = filter active_row (db_queue (st_db s))" by (simp add: same_active_def)
  then have "active_queue (st_db s') = active_queue (st_db s)" unfolding active_queue_def count_rows_def by simp
  with f show ?thesis by simp
qed

section \<open>What reopening a ticket can meet\<close>

text \<open>A quarantined row of the ticket stays quarantined when the ticket reopens: its new cycle is attached
  to a row that no drain takes.\<close>

lemma quarantined_row_stays:
  assumes "queue_keys_ok d" and "ticket_rows t d = [q]" and "nc_status q = Failed" and "nc_failure_code q \<noteq> ''hubspot_ticket_not_found''"
    and "cycle_free t c d"
  shows "\<exists>d' q'. queue_entry t p x e c d = (d', Inr q') \<and> nc_status q' = Failed \<and> (c \<noteq> None \<longrightarrow> nc_cycle q' = c)"
proof -
  have "\<not> can_reactivate q" using assms(4) by (simp add: can_reactivate_def)
  then have "queue_entry t p x e c d = attach_cycle c q d"
    using assms(2) by (simp add: queue_entry_def get_or_create_row_def ticket_rows_def)
  then show ?thesis using attach_known [OF assms(1,2,5)] assms(3) by auto
qed

text \<open>A listing that names a ticket twice ends the synchronization with an exception.\<close>

lemma repeated_listing_raises:
  "\<exists>s t. snd (sync_tickets demo_cfg 0 (st_db s) [t, t] (s, no_sync)) = Some IntegrityError \<and> queue_keys_ok (st_db s)"
proof -
  let ?t = "(\<lparr>tk_id = ''42'', tk_pipeline = ''P'', tk_stage = ''N'', tk_owner = [], tk_novo = AwareDatetime 1700000000000000,
    tk_closed = RawValue StageNone, tk_updated = None, tk_archived = False\<rparr>, (None, None, None, None))"
  let ?s = "\<lparr>st_db = empty_db, st_conv = \<lparr>cv_instances = [], cv_cycles = [], cv_events = [], cv_moves = [], cv_next_pk = 0\<rparr>, st_occs = []\<rparr>"
  have "snd (sync_tickets demo_cfg 0 (st_db ?s) [?t, ?t] (?s, no_sync)) = Some IntegrityError" "queue_keys_ok (st_db ?s)" by code_simp+
  then show ?thesis by blast
qed

section \<open>Witnesses\<close>

definition reopened_db :: db where
  "reopened_db = empty_db\<lparr>db_queue := [demo_row\<lparr>nc_pk := 3, nc_ticket := ''7'', nc_cycle := Some 1, nc_status := Failed,
     nc_failure_code := ''hubspot_ticket_not_found''\<rparr>], db_next_pk := 9\<rparr>"

theorem queue_entry_effect_witness:
  "\<exists>d'. queue_entry ''7'' ''P'' (None, None, None, None) 5 (Some 2) reopened_db = (d', Inr (entered_row ''7'' ''P'' (None, None, None, None) 5 (Some 2) reopened_db)) \<and>
     map nc_status (ticket_rows ''7'' d') = [Pending] \<and> map nc_cycle (ticket_rows ''7'' d') = [Some 2]"
proof -
  let ?x = "(None, None, None, None)"
  have ok: "queue_keys_ok reopened_db" "length (ticket_rows ''7'' reopened_db) \<le> 1 \<and> cycle_free ''7'' (Some 2) reopened_db" by code_simp+
  obtain d' where d': "queue_entry ''7'' ''P'' ?x 5 (Some 2) reopened_db = (d', Inr (entered_row ''7'' ''P'' ?x 5 (Some 2) reopened_db))"
    "ticket_rows ''7'' d' = [entered_row ''7'' ''P'' ?x 5 (Some 2) reopened_db]"
    using queue_entry_effect [OF ok(1), of "''7''" "Some 2" "''P''" ?x 5] ok(2) by blast
  have "nc_status (entered_row ''7'' ''P'' ?x 5 (Some 2) reopened_db) = Pending" "nc_cycle (entered_row ''7'' ''P'' ?x 5 (Some 2) reopened_db) = Some 2"
    by code_simp+
  then show ?thesis using d' by simp
qed

definition listed_ticket :: "string \<Rightarrow> instant \<Rightarrow> provider_snapshot \<times> contact" where
  "listed_ticket t at = (\<lparr>tk_id = t, tk_pipeline = ''P'', tk_stage = ''N'', tk_owner = [], tk_novo = AwareDatetime at,
    tk_closed = RawValue StageNone, tk_updated = None, tk_archived = False\<rparr>, (None, None, None, None))"

theorem synced_rows_wait_witness:
  "let s = empty_site\<lparr>st_db := reopened_db\<rparr>; s' = fst (fst (sync_tickets demo_cfg 0 (st_db s) [listed_ticket ''7'' 5, listed_ticket ''8'' 6] (s, no_sync)))
   in active_queue (st_db s') = 0 \<and> map nc_ticket (db_queue (st_db s')) = [''7'', ''8''] \<and> map nc_status (db_queue (st_db s')) = [Pending, Pending]"
proof -
  let ?s = "empty_site\<lparr>st_db := reopened_db\<rparr>"
  let ?r = "sync_tickets demo_cfg 0 (st_db ?s) [listed_ticket ''7'' 5, listed_ticket ''8'' 6] (?s, no_sync)"
  have r: "?r = ((fst (fst ?r), snd (fst ?r)), snd ?r)" by simp
  have ok: "queue_keys_ok (st_db ?s)" by code_simp
  have "active_queue (st_db ?s) = 0" by code_simp
  moreover have "map nc_ticket (db_queue (st_db (fst (fst ?r)))) = [''7'', ''8'']" "map nc_status (db_queue (st_db (fst (fst ?r)))) = [Pending, Pending]"
    by code_simp+
  ultimately show ?thesis using synced_rows_wait [OF ok r] unfolding Let_def by simp
qed

end
