(* ===== verification/Cache_Lock.thy ===== *)
theory Cache_Lock
  imports Interfaces Prelude
begin

text \<open>
  The owner-token cache lock, \<open>apps/support/owned_cache_lock.py\<close>.  The cache is a map from keys to a
  token and its expiry; Redis runs \<open>SET NX EX\<close> and the compare-and-delete script atomically, the
  local-memory fallback reads and deletes in two steps.
\<close>

section \<open>The cache\<close>

type_synonym cache = "string \<Rightarrow> (string \<times> instant) option"

record owned_lock =
  lk_key :: string
  lk_timeout :: int
  lk_token :: string
  lk_acquired :: bool

definition cache_get :: "instant \<Rightarrow> string \<Rightarrow> cache \<Rightarrow> string option" where
  "cache_get now k c = (case c k of None \<Rightarrow> None | Some (token, expiry) \<Rightarrow> if now < expiry then Some token else None)"

definition cache_add :: "instant \<Rightarrow> string \<Rightarrow> string \<Rightarrow> int \<Rightarrow> cache \<Rightarrow> cache option" where
  "cache_add now k token timeout c = (if cache_get now k c = None then Some (c(k \<mapsto> (token, now + seconds timeout))) else None)"

definition cache_delete :: "string \<Rightarrow> cache \<Rightarrow> cache" where
  "cache_delete k c = c(k := None)"

definition compare_delete :: "instant \<Rightarrow> string \<Rightarrow> string \<Rightarrow> cache \<Rightarrow> cache \<times> bool" where
  "compare_delete now k token c = (if cache_get now k c = Some token then (cache_delete k c, True) else (c, False))"

section \<open>The lock\<close>

definition lock_acquire :: "instant \<Rightarrow> owned_lock \<Rightarrow> cache \<Rightarrow> owned_lock \<times> cache \<times> bool" where
  "lock_acquire now l c =
     (case cache_add now (lk_key l) (lk_token l) (lk_timeout l) c of
        None \<Rightarrow> (l\<lparr>lk_acquired := False\<rparr>, c, False)
      | Some c' \<Rightarrow> (l\<lparr>lk_acquired := True\<rparr>, c', True))"

definition lock_release :: "instant \<Rightarrow> owned_lock \<Rightarrow> cache \<Rightarrow> owned_lock \<times> cache \<times> bool" where
  "lock_release now l c =
     (if \<not> lk_acquired l then (l, c, False)
      else (let (c', released) = compare_delete now (lk_key l) (lk_token l) c in (l\<lparr>lk_acquired := False\<rparr>, c', released)))"

text \<open>The release of the fallback: what it decides at the read, and what it does later.\<close>

definition fallback_read :: "instant \<Rightarrow> owned_lock \<Rightarrow> cache \<Rightarrow> bool" where
  "fallback_read now l c \<longleftrightarrow> cache_get now (lk_key l) c = Some (lk_token l)"

definition fallback_delete :: "bool \<Rightarrow> owned_lock \<Rightarrow> cache \<Rightarrow> owned_lock \<times> cache \<times> bool" where
  "fallback_delete released l c = (l\<lparr>lk_acquired := False\<rparr>, if released then cache_delete (lk_key l) c else c, released)"

section \<open>The lock is a lease\<close>

definition take_key :: "string \<Rightarrow> int \<Rightarrow> string \<Rightarrow> instant \<Rightarrow> cache \<Rightarrow> cache option" where
  "take_key k timeout token now c = cache_add now k token timeout c"

definition give_key :: "string \<Rightarrow> string \<Rightarrow> instant \<Rightarrow> cache \<Rightarrow> cache" where
  "give_key k token now c = fst (compare_delete now k token c)"

definition key_lasts :: "string \<Rightarrow> cache \<Rightarrow> instant \<Rightarrow> string \<Rightarrow> bool" where
  "key_lasts k c until token \<longleftrightarrow> cache_get until k c = Some token"

lemma cache_get_earlier: "cache_get until k c = Some token \<Longrightarrow> now \<le> until \<Longrightarrow> cache_get now k c = Some token"
  by (auto simp: cache_get_def split: option.splits if_splits)

interpretation cache_lock: owned_lease "\<lambda>c now. cache_get now k c" "take_key k timeout" "give_key k" "key_lasts k" "\<lambda>_. True" "seconds timeout"
  for k timeout
proof unfold_locales
  fix p q :: string and now until :: instant and c c' :: cache
  show "take_key k timeout p now c = Some c' \<Longrightarrow> True \<Longrightarrow> until < now + seconds timeout \<Longrightarrow> key_lasts k c' until p"
    by (auto simp: take_key_def cache_add_def key_lasts_def cache_get_def split: if_splits)
  show "key_lasts k c until p \<Longrightarrow> now \<le> until \<Longrightarrow> q \<noteq> p \<Longrightarrow> take_key k timeout q now c = None"
    by (auto simp: take_key_def cache_add_def key_lasts_def dest: cache_get_earlier)
  show "cache_get now k c = None \<Longrightarrow> take_key k timeout q now c \<noteq> None"
    by (simp add: take_key_def cache_add_def)
  show "key_lasts k c until p \<Longrightarrow> now \<le> until \<Longrightarrow> cache_get now k c = Some p"
    unfolding key_lasts_def by (rule cache_get_earlier)
  show "key_lasts k c until p \<Longrightarrow> q \<noteq> p \<Longrightarrow> key_lasts k (give_key k q now c) until p"
    by (auto simp: key_lasts_def give_key_def compare_delete_def cache_get_def split: option.splits if_splits)
  show "cache_get now k c = Some p \<Longrightarrow> cache_get now k (give_key k p now c) = None"
    by (simp add: give_key_def compare_delete_def cache_delete_def cache_get_def)
qed

text \<open>The lock excludes.  While an acquired lock has not timed out, every other token is refused,
  whatever the others acquire or release (also under other keys of the cache the entry stands); once
  its owner has released it, it is free.\<close>

theorem cache_lock_excludes:
  assumes "lock_acquire now l c = (l', c', True)" and "until < now + seconds (lk_timeout l)"
    and "\<forall>q at. Inl (q, at) \<in> set es \<longrightarrow> q \<noteq> lk_token l \<and> at \<le> until" and "\<forall>q at. Inr (q, at) \<in> set es \<longrightarrow> q \<noteq> lk_token l"
    and "lk_key m = lk_key l" and "lk_token m \<noteq> lk_token l" and "at \<le> until"
  shows "let c'' = fold (\<lambda>e c. case e of Inl (q, at) \<Rightarrow> fst (snd (lock_acquire at (l\<lparr>lk_token := q\<rparr>) c))
        | Inr (q, at) \<Rightarrow> fst (snd (lock_release at (l\<lparr>lk_token := q, lk_acquired := True\<rparr>) c))) es c'
    in snd (snd (lock_acquire at m c'')) = False \<and> snd (snd (lock_release at l' c'')) = True \<and>
       snd (snd (lock_acquire at m (fst (snd (lock_release at l' c''))))) = True"
proof -
  let ?k = "lk_key l" and ?p = "lk_token l"
  let ?step = "\<lambda>e c. case e of Inl (q, at) \<Rightarrow> (case take_key ?k (lk_timeout l) q at c of None \<Rightarrow> c | Some c' \<Rightarrow> c')
      | Inr (q, at) \<Rightarrow> give_key ?k q at c"
  let ?code = "\<lambda>e c. case e of Inl (q, at) \<Rightarrow> fst (snd (lock_acquire at (l\<lparr>lk_token := q\<rparr>) c))
        | Inr (q, at) \<Rightarrow> fst (snd (lock_release at (l\<lparr>lk_token := q, lk_acquired := True\<rparr>) c))"
  have same: "?code = ?step"
    by (intro ext) (auto simp: lock_acquire_def lock_release_def take_key_def give_key_def split: sum.splits option.splits prod.splits)
  have held: "take_key ?k (lk_timeout l) ?p now c = Some c'" "l' = l\<lparr>lk_acquired := True\<rparr>"
    using assms(1) by (auto simp: lock_acquire_def take_key_def split: option.splits)
  have lasts: "key_lasts ?k (fold ?step es c') until ?p"
    by (rule cache_lock.lasting_foreign_schedule [OF cache_lock.acquire_held [OF held(1) TrueI assms(2)]]) (use assms(3,4) in blast)+
  have got: "cache_get at ?k (fold ?step es c') = Some ?p" by (rule cache_lock.lasting_holder [OF lasts assms(7)])
  have free: "cache_get at ?k (give_key ?k ?p at (fold ?step es c')) = None" by (rule cache_lock.release_own [OF got])
  show ?thesis
    unfolding same Let_def using got free assms(5)
    by (simp add: lock_acquire_def lock_release_def held(2) cache_add_def compare_delete_def give_key_def)
qed

theorem cache_lock_excludes_witness:
  "let l = \<lparr>lk_key = ''k'', lk_timeout = 60, lk_token = ''p'', lk_acquired = False\<rparr>; c' = fst (snd (lock_acquire 0 l (\<lambda>_. None)))
   in snd (snd (lock_acquire 20 (l\<lparr>lk_token := ''q''\<rparr>) (fst (snd (lock_release 10 (l\<lparr>lk_token := ''q'', lk_acquired := True\<rparr>) c'))))) = False"
proof -
  let ?l = "\<lparr>lk_key = ''k'', lk_timeout = 60, lk_token = ''p'', lk_acquired = False\<rparr>"
  let ?r = "lock_acquire 0 ?l (\<lambda>_. None)"
  have "snd (snd ?r) = True" by code_simp
  then have "?r = (fst ?r, fst (snd ?r), True)" by (metis prod.collapse)
  from cache_lock_excludes [OF this, of 30 "[Inr (''q'', 10)]" "?l\<lparr>lk_token := ''q''\<rparr>" 20]
  show ?thesis by (simp add: Let_def seconds_def)
qed

text \<open>The fallback is not atomic: when the lock runs out between its read and its delete, it removes the
  entry of the next owner.\<close>

lemma fallback_removes_foreign_entry:
  "let l = \<lparr>lk_key = ''k'', lk_timeout = 60, lk_token = ''p'', lk_acquired = True\<rparr>;
       c = (\<lambda>_. None)(''k'' \<mapsto> (''p'', 100));
       c' = fst (snd (lock_acquire 100 (l\<lparr>lk_token := ''q''\<rparr>) c))
   in fallback_read 99 l c \<and> cache_get 100 ''k'' c' = Some ''q'' \<and>
      cache_get 100 ''k'' (fst (snd (fallback_delete (fallback_read 99 l c) l c'))) = None"
  by code_simp

end
