(* ===== verification/Civil_Time.thy ===== *)
theory Civil_Time
  imports Prelude
begin

text \<open>
  The calendar dates of Python's \<open>datetime.date\<close>: year, month and day, ordered lexicographically, with
  \<open>toordinal\<close> and \<open>weekday\<close> (Monday is 0) as the standard library computes them.  A time of day is the
  number of microseconds since midnight, a time of the form HH:MM the number of minutes.  A time zone
  is what \<open>zoneinfo\<close> answers: the local date and time of an instant, and the instant of a local one.
\<close>

type_synonym day = "int \<times> int \<times> int"
type_synonym local_time = "day \<times> int"

record zone =
  zn_local :: "instant \<Rightarrow> local_time"
  zn_utc :: "local_time \<Rightarrow> instant"

definition clock :: "int \<Rightarrow> int \<Rightarrow> int" where
  "clock h m = (h * 60 + m) * 60000000"

definition minute :: "int \<Rightarrow> int" where
  "minute m = m * 60000000"

definition leap :: "int \<Rightarrow> bool" where
  "leap y \<longleftrightarrow> y mod 4 = 0 \<and> (y mod 100 \<noteq> 0 \<or> y mod 400 = 0)"

definition month_length :: "int \<Rightarrow> int \<Rightarrow> int" where
  "month_length y m = (if m = 2 then (if leap y then 29 else 28) else if m \<in> {4, 6, 9, 11} then 30 else 31)"

definition days_before_month :: "int \<Rightarrow> int \<Rightarrow> int" where
  "days_before_month y m = sum_list (map (month_length y) [1..m - 1])"

definition days_before_year :: "int \<Rightarrow> int" where
  "days_before_year y = (y - 1) * 365 + (y - 1) div 4 - (y - 1) div 100 + (y - 1) div 400"

fun toordinal :: "day \<Rightarrow> int" where
  "toordinal (y, m, d) = days_before_year y + days_before_month y m + d"

definition weekday :: "day \<Rightarrow> int" where
  "weekday d = (toordinal d + 6) mod 7"

definition day_month :: "day \<Rightarrow> int" where
  "day_month d = fst (snd d)"

definition day_of_month :: "day \<Rightarrow> int" where
  "day_of_month d = snd (snd d)"

fun valid_day :: "day \<Rightarrow> bool" where
  "valid_day (y, m, d) \<longleftrightarrow> 1 \<le> m \<and> m \<le> 12 \<and> 1 \<le> d \<and> d \<le> month_length y m"

fun next_day :: "day \<Rightarrow> day" where
  "next_day (y, m, d) = (if d < month_length y m then (y, m, d + 1) else if m < 12 then (y, m + 1, 1) else (y + 1, 1, 1))"

definition days_from :: "day \<Rightarrow> nat \<Rightarrow> day list" where
  "days_from d n = map (\<lambda>k. (next_day ^^ k) d) [0..<n]"

section \<open>Consecutive days\<close>

lemma month_length_pos: "1 \<le> month_length y m"
  by (simp add: month_length_def)

lemma days_before_next_month: "1 \<le> m \<Longrightarrow> days_before_month y (m + 1) = days_before_month y m + month_length y m"
  by (simp add: days_before_month_def upto_rec2)

lemma year_length: "days_before_month y 12 + 31 = 365 + (if leap y then 1 else 0)"
proof -
  have "[1..11] = [1, 2, 3, 4, 5, 6, 7, 8, 9, 10, 11 :: int]" by code_simp
  then show ?thesis by (simp add: days_before_month_def month_length_def)
qed

lemma div_step:
  fixes y n :: int
  assumes "0 < n"
  shows "y div n = (y - 1) div n + (if y mod n = 0 then 1 else 0)"
proof -
  have y: "y = n * (y div n) + y mod n" by simp
  have r: "0 \<le> y mod n" "y mod n < n" using assms by simp_all
  show ?thesis
  proof (cases "y mod n = 0")
    case True
    have "(y - 1) div n = y div n - 1"
      by (rule int_div_pos_eq [where r = "n - 1"]) (use True y assms in \<open>auto simp: algebra_simps\<close>)
    then show ?thesis using True by simp
  next
    case False
    have "(y - 1) div n = y div n" by (rule int_div_pos_eq [where r = "y mod n - 1"]) (use False y r in auto)
    then show ?thesis using False by simp
  qed
qed

lemma year_sum:
  fixes y a b c :: int
  shows "a = a' + u \<Longrightarrow> b = b' + v \<Longrightarrow> c = c' + w \<Longrightarrow> y * 365 + a - b + c = (y - 1) * 365 + a' - b' + c' + 365 + u - v + w"
  by simp

lemma days_before_next_year: "days_before_year (y + 1) = days_before_year y + 365 + (if leap y then 1 else 0)"
proof -
  have mods: "y mod 400 = 0 \<longrightarrow> y mod 100 = 0" "y mod 100 = 0 \<longrightarrow> y mod 4 = 0"
    using mod_mod_cancel [of 100 400 y] mod_mod_cancel [of 4 100 y] by auto
  have "days_before_year (y + 1) = days_before_year y + 365 + (if y mod 4 = 0 then 1 else 0) - (if y mod 100 = 0 then 1 else 0)
      + (if y mod 400 = 0 then 1 else 0)"
    unfolding days_before_year_def add_diff_cancel_right'
    by (rule year_sum [OF div_step [of 4 y] div_step [of 100 y] div_step [of 400 y]]) simp_all
  then show ?thesis using mods unfolding leap_def by (cases "y mod 4 = 0"; cases "y mod 100 = 0"; cases "y mod 400 = 0") simp_all
qed

lemma next_day_ok:
  assumes "valid_day d"
  shows "toordinal (next_day d) = toordinal d + 1" and "valid_day (next_day d)"
proof -
  obtain y m k where d: "d = (y, m, k)" by (cases d) auto
  show "valid_day (next_day d)" using assms d month_length_pos by auto
  show "toordinal (next_day d) = toordinal d + 1"
  proof (cases "k < month_length y m")
    case True
    then show ?thesis by (simp add: d)
  next
    case False
    then have k: "k = month_length y m" using assms d by simp
    show ?thesis
    proof (cases "m < 12")
      case True
      then show ?thesis using assms by (simp add: d k days_before_next_month)
    next
      case False
      then have m: "m = 12" using assms d by simp
      have "days_before_month (y + 1) 1 = 0" "month_length y 12 = 31" by (simp_all add: days_before_month_def month_length_def)
      then show ?thesis using year_length [of y] by (simp add: d k m days_before_next_year)
    qed
  qed
qed

lemma days_from_ordinals:
  assumes "valid_day d"
  shows "map toordinal (days_from d n) = map (\<lambda>k. toordinal d + int k) [0..<n]" and "\<forall>x \<in> set (days_from d n). valid_day x"
proof -
  have step: "toordinal ((next_day ^^ k) d) = toordinal d + int k \<and> valid_day ((next_day ^^ k) d)" for k
    by (induction k) (use assms next_day_ok in auto)
  then show "map toordinal (days_from d n) = map (\<lambda>k. toordinal d + int k) [0..<n]" "\<forall>x \<in> set (days_from d n). valid_day x"
    by (auto simp: days_from_def)
qed

lemma length_days_from [simp]: "length (days_from d n) = n"
  by (simp add: days_from_def)

lemma weekday_range: "0 \<le> weekday d \<and> weekday d < 7"
  by (simp add: weekday_def)

lemma weekday_next: "valid_day d \<Longrightarrow> weekday (next_day d) = (weekday d + 1) mod 7"
  unfolding weekday_def using next_day_ok(1) by presburger

end
