(* ===== verification/Helpdesk_Calendar.thy ===== *)
theory Helpdesk_Calendar
  imports Civil_Time Py_Text
begin

text \<open>
  The helpdesk calendar, \<open>apps/support/helpdesk_calendar/service.py\<close>, with its tables of \<open>models.py\<close>,
  the rule request of \<open>schemas.py\<close> and the holiday and weekly tables of \<open>business_rules.py\<close>.  A stored
  JSON item that \<open>int\<close> or \<open>date.fromisoformat\<close> refuses is \<open>Unreadable\<close> with the exception.  Times of rules
  have microseconds; the \<open>HH:MM\<close> texts of a resolution are minutes of the day.  The zone database is an
  argument.  The intervals of a rule are listed in the order of their insertion; the query of the source names none,
  and the table has no default order.  The plain text derived from a message is left out.
\<close>

section \<open>Tables\<close>

datatype 'a stored = Stored 'a | Unreadable py_error

fun read_all :: "'a stored list \<Rightarrow> 'a list result" where
  "read_all [] = Inr []"
| "read_all (Stored x # xs) = and_then (read_all xs) (\<lambda>ys. Inr (x # ys))"
| "read_all (Unreadable e # xs) = Inl e"

datatype rule_kind = Service_Rule | Absence_Rule
datatype recurrence = Once | Weekly | Monthly | Yearly

record schedule =
  hs_pk :: "uuid option"
  hs_zone :: string
  hs_published :: bool
  hs_version :: nat

record rule =
  ru_pk :: uuid
  ru_schedule :: uuid
  ru_name :: string
  ru_kind :: rule_kind
  ru_recurrence :: recurrence
  ru_starts :: day
  ru_ends :: "day option"
  ru_weekdays :: "int stored list"
  ru_week :: "int option"
  ru_dates :: "day stored list"
  ru_priority :: int
  ru_active :: bool
  ru_version :: nat

record interval =
  iv_rule :: uuid
  iv_weekday :: "int option"
  iv_date :: "day option"
  iv_start :: int
  iv_end :: int

record special =
  sx_day :: day
  sx_closed :: bool
  sx_start :: "int option"
  sx_end :: "int option"
  sx_reason :: string

record hours_config =
  bh_pk :: uuid
  bh_active :: bool
  bh_hours :: "(int \<times> int) list"

record calendar =
  hc_schedules :: "schedule list"
  hc_rules :: "rule list"
  hc_intervals :: "interval list"
  hc_messages :: "(uuid \<times> string) list"
  hc_specials :: "special list"
  hc_configs :: "hours_config list"
  hc_next_pk :: uuid

definition default_zone :: string where
  "default_zone = ''America/Sao_Paulo''"

definition holidays :: "day list" where
  "holidays = [(2026, 1, 1), (2026, 2, 16), (2026, 2, 17), (2026, 4, 3), (2026, 4, 21), (2026, 5, 1), (2026, 6, 4), (2026, 9, 7),
     (2026, 10, 12), (2026, 11, 2), (2026, 11, 15), (2026, 12, 25), (2026, 12, 24), (2026, 12, 31)]"

definition weekly_hours :: "int \<Rightarrow> int \<times> int" where
  "weekly_hours w = (if w = 6 then (8 * 60, 12 * 60) else if w = 5 then (9 * 60, 13 * 60) else (9 * 60, 17 * 60 + 50))"

definition hours_for_weekday :: "hours_config \<Rightarrow> int \<Rightarrow> (int \<times> int) option" where
  "hours_for_weekday c w =
     (if w < 0 \<or> length (bh_hours c) \<le> nat w then None
      else case bh_hours c ! nat w of (a, b) \<Rightarrow> if b \<le> a then None else Some (a, b))"

section \<open>Rules of a day\<close>

definition published_schedule :: "calendar \<Rightarrow> schedule option" where
  "published_schedule cal = first_by hs_pk hs_published (hc_schedules cal)"

definition get_schedule :: "calendar \<Rightarrow> schedule" where
  "get_schedule cal = (case published_schedule cal of Some s \<Rightarrow> s
     | None \<Rightarrow> \<lparr>hs_pk = None, hs_zone = default_zone, hs_published = True, hs_version = 1\<rparr>)"

definition active_rules :: "schedule \<Rightarrow> calendar \<Rightarrow> rule list" where
  "active_rules s cal = (if hs_pk s = None then [] else filter (\<lambda>r. Some (ru_schedule r) = hs_pk s \<and> ru_active r) (hc_rules cal))"

definition recurs_on :: "rule \<Rightarrow> int list \<Rightarrow> day list \<Rightarrow> day \<Rightarrow> bool" where
  "recurs_on r weekdays dates d =
     (case ru_recurrence r of
        Once \<Rightarrow> d \<in> set dates \<or> (dates = [] \<and> d = ru_starts r)
      | Weekly \<Rightarrow> weekday d \<in> set weekdays
      | Monthly \<Rightarrow> (weekdays = [] \<or> weekday d \<in> set weekdays) \<and>
          (case ru_week r of None \<Rightarrow> True | Some k \<Rightarrow> (day_of_month d - 1) div 7 + 1 = k)
      | Yearly \<Rightarrow> (if dates = [] then snd d = snd (ru_starts r) else (\<exists>x \<in> set dates. snd x = snd d)))"

definition rule_matches :: "rule \<Rightarrow> day \<Rightarrow> bool result" where
  "rule_matches r d =
     (if \<not> ru_active r \<or> d < ru_starts r \<or> (case ru_ends r of None \<Rightarrow> False | Some e \<Rightarrow> e < d) then Inr False
      else and_then (read_all (ru_weekdays r)) (\<lambda>weekdays.
             and_then (read_all (ru_dates r)) (\<lambda>dates. Inr (recurs_on r weekdays dates d))))"

fun matching_rules :: "rule list \<Rightarrow> day \<Rightarrow> rule list result" where
  "matching_rules [] d = Inr []"
| "matching_rules (r # rs) d =
     and_then (rule_matches r d) (\<lambda>b. and_then (matching_rules rs d) (\<lambda>ms. Inr (if b then r # ms else ms)))"

definition minute_of :: "int \<Rightarrow> int" where
  "minute_of t = t div 60000000"

definition intervals_for :: "rule \<Rightarrow> day \<Rightarrow> calendar \<Rightarrow> (int \<times> int) list" where
  "intervals_for r d cal =
     (let all = filter (\<lambda>i. iv_rule i = ru_pk r) (hc_intervals cal);
          selected = filter (\<lambda>i. iv_date i = Some d \<or> iv_weekday i = Some (weekday d)) all;
          general = filter (\<lambda>i. iv_date i = None \<and> iv_weekday i = None) all
      in map (\<lambda>i. (minute_of (iv_start i), minute_of (iv_end i))) (if selected = [] then general else selected))"

section \<open>The legacy tables\<close>

datatype reason =
    Rule_Name string | Special_Reason string | Special_Closed | Holiday day | Hours_Closed
  | Degraded | Quinta_Fire | Absence_Of string | Off_Hours

text \<open>\<open>time(hour)\<close>, in minutes.\<close>

definition time_of_hour :: "int \<Rightarrow> int result" where
  "time_of_hour h = (if 0 \<le> h \<and> h \<le> 23 then Inr (h * 60) else Inl ValueError)"

definition special_of :: "day \<Rightarrow> calendar \<Rightarrow> special option" where
  "special_of d cal = first_row (\<lambda>x. sx_day x = d) (hc_specials cal)"

definition active_config :: "calendar \<Rightarrow> hours_config option" where
  "active_config cal = first_by bh_pk bh_active (hc_configs cal)"

definition text_reason :: "string \<Rightarrow> reason option" where
  "text_reason s = (if s = [] then None else Some (Special_Reason s))"

text \<open>The hours of the week, with the Thursday meeting cut out when the day spans it.\<close>

definition split_thursday :: "day \<Rightarrow> int \<times> int \<Rightarrow> (int \<times> int) list" where
  "split_thursday d h = (if weekday d = 3 \<and> fst h < 12 * 60 \<and> 13 * 60 < snd h then [(fst h, 12 * 60), (13 * 60, snd h)] else [h])"

definition week_resolution :: "day \<Rightarrow> calendar \<Rightarrow> ((int \<times> int) list \<times> reason option) result" where
  "week_resolution d cal =
     (case active_config cal of
        None \<Rightarrow> Inr (split_thursday d (weekly_hours (weekday d)), None)
      | Some c \<Rightarrow>
          (case hours_for_weekday c (weekday d) of
             None \<Rightarrow> Inr ([], Some Hours_Closed)
           | Some (a, b) \<Rightarrow>
               and_then (time_of_hour a) (\<lambda>start. and_then (time_of_hour b) (\<lambda>end_at.
                 Inr (split_thursday d (if weekday d \<le> 4 \<and> (a, b) = (9, 18) then weekly_hours (weekday d) else (start, end_at)), None)))))"

definition legacy_resolution :: "day \<Rightarrow> calendar \<Rightarrow> ((int \<times> int) list \<times> reason option) result" where
  "legacy_resolution d cal =
     (let week = (if d \<in> set holidays then Inr ([], Some (Holiday d)) else week_resolution d cal)
      in case special_of d cal of
           None \<Rightarrow> week
         | Some x \<Rightarrow>
             (if sx_closed x then Inr ([], Some (if sx_reason x = [] then Special_Closed else Special_Reason (sx_reason x)))
              else case (sx_start x, sx_end x) of
                     (Some a, Some b) \<Rightarrow> Inr ([(a * 60, b * 60)], text_reason (sx_reason x))
                   | _ \<Rightarrow> week))"

section \<open>The resolution of a day\<close>

datatype day_state = Open_Day | Closed_Day | Absence_Day

record day_plan =
  dp_day :: day
  dp_state :: day_state
  dp_intervals :: "(int \<times> int) list"
  dp_reason :: "reason option"
  dp_message :: "string option"
  dp_rule :: "(uuid \<times> string \<times> int) option"

definition message_of :: "uuid \<Rightarrow> calendar \<Rightarrow> string option" where
  "message_of k cal = map_of (hc_messages cal) k"

definition rule_plan :: "rule \<Rightarrow> day \<Rightarrow> calendar \<Rightarrow> day_plan" where
  "rule_plan r d cal =
     (let ivs = (if ru_kind r = Absence_Rule then [] else intervals_for r d cal)
      in \<lparr>dp_day = d, dp_state = (if ru_kind r = Absence_Rule then Absence_Day else if ivs \<noteq> [] then Open_Day else Closed_Day),
          dp_intervals = ivs, dp_reason = Some (Rule_Name (ru_name r)), dp_message = message_of (ru_pk r) cal,
          dp_rule = Some (ru_pk r, ru_name r, ru_priority r)\<rparr>)"

definition rule_rank :: "rule \<Rightarrow> int \<times> uuid" where
  "rule_rank r = (- ru_priority r, ru_pk r)"

definition resolve_day :: "schedule \<Rightarrow> calendar \<Rightarrow> day \<Rightarrow> day_plan result" where
  "resolve_day s cal d =
     and_then (matching_rules (active_rules s cal) d) (\<lambda>matching.
       (let absences = filter (\<lambda>r. ru_kind r = Absence_Rule) matching
        in case first_by rule_rank (\<lambda>_. True) (if absences = [] then matching else absences) of
             Some r \<Rightarrow> Inr (rule_plan r d cal)
           | None \<Rightarrow>
               and_then (legacy_resolution d cal) (\<lambda>(ivs, why).
                 Inr \<lparr>dp_day = d, dp_state = (if ivs \<noteq> [] then Open_Day else Closed_Day), dp_intervals = ivs, dp_reason = why,
                      dp_message = None, dp_rule = None\<rparr>)))"

definition degraded_plan :: "day \<Rightarrow> day_plan" where
  "degraded_plan d = \<lparr>dp_day = d, dp_state = Closed_Day, dp_intervals = [], dp_reason = Some Degraded, dp_message = None, dp_rule = None\<rparr>"

definition degrades :: "py_error \<Rightarrow> bool" where
  "degrades e \<longleftrightarrow> e = ValueError \<or> e = UnexpectedError ''ValidationError''"

type_synonym zones = "string \<Rightarrow> zone option"

definition zone_of :: "zones \<Rightarrow> string \<Rightarrow> zone result" where
  "zone_of zs name = (case zs name of None \<Rightarrow> Inl (UnexpectedError ''ValidationError'') | Some z \<Rightarrow> Inr z)"

section \<open>Ranges\<close>

fun resolve_days :: "schedule \<Rightarrow> calendar \<Rightarrow> day list \<Rightarrow> day_plan list result" where
  "resolve_days s cal [] = Inr []"
| "resolve_days s cal (d # ds) = and_then (resolve_day s cal d) (\<lambda>p. and_then (resolve_days s cal ds) (\<lambda>ps. Inr (p # ps)))"

definition resolve_range :: "zones \<Rightarrow> calendar \<Rightarrow> day \<Rightarrow> day \<Rightarrow> (schedule \<times> day_plan list \<times> bool) result" where
  "resolve_range zs cal start end_day =
     (if end_day < start \<or> 366 < toordinal end_day - toordinal start then Inl (UnexpectedError ''ValidationError'')
      else (let s = get_schedule cal;
                days = days_from start (nat (toordinal end_day - toordinal start + 1))
            in case and_then (zone_of zs (hs_zone s)) (\<lambda>_. resolve_days s cal days) of
                 Inr ps \<Rightarrow> Inr (s, ps, False)
               | Inl e \<Rightarrow> if degrades e then Inr (s, map degraded_plan days, True) else Inl e))"

section \<open>The current moment\<close>

text \<open>A moment: an aware datetime with its date in its own zone, or a naive one.\<close>

datatype moment = Aware instant day | Naive local_time

record window =
  ow_start :: instant
  ow_end :: instant
  ow_zone :: string
  ow_rule :: "uuid option"

fun local_moment :: "zone \<Rightarrow> moment \<Rightarrow> local_time" where
  "local_moment z (Aware t d) = zn_local z t"
| "local_moment z (Naive l) = l"

fun moment_instant :: "zone \<Rightarrow> moment \<Rightarrow> instant" where
  "moment_instant z (Aware t d) = t"
| "moment_instant z (Naive l) = zn_utc z l"

fun moment_day :: "moment \<Rightarrow> day" where
  "moment_day (Aware t d) = d"
| "moment_day (Naive l) = fst l"

text \<open>\<open>time.fromisoformat\<close> of \<open>HH:MM\<close>; the text 24:00 is midnight (Python 3.14).\<close>

definition iso_clock :: "int \<Rightarrow> int result" where
  "iso_clock m = (if 0 \<le> m \<and> m < 1440 then Inr (minute m) else if m = 1440 then Inr 0 else Inl ValueError)"

fun active_interval :: "int \<Rightarrow> (int \<times> int) list \<Rightarrow> (int \<times> int) option result" where
  "active_interval now [] = Inr None"
| "active_interval now ((a, b) # ivs) =
     and_then (iso_clock a) (\<lambda>start.
       if now < start then active_interval now ivs
       else and_then (iso_clock b) (\<lambda>end_at. if now < end_at then Inr (Some (start, end_at)) else active_interval now ivs))"

definition quinta_fire_at :: "local_time \<Rightarrow> bool" where
  "quinta_fire_at l \<longleftrightarrow> weekday (fst l) = 3 \<and> clock 12 0 \<le> snd l \<and> snd l < clock 13 0"

definition refined_reason :: "bool \<Rightarrow> bool \<Rightarrow> day_plan \<Rightarrow> reason option" where
  "refined_reason is_open quinta p =
     (let why = (if \<not> is_open \<and> quinta \<and> dp_rule p = None then Some Quinta_Fire else dp_reason p)
      in if dp_state p = Absence_Day then Some (Absence_Of (case why of Some (Rule_Name n) \<Rightarrow> n | _ \<Rightarrow> []))
         else if \<not> is_open \<and> (why = None \<or> why = Some (Rule_Name [])) then Some Off_Hours else why)"

definition current_resolution :: "zones \<Rightarrow> zone \<Rightarrow> calendar \<Rightarrow> moment \<Rightarrow> ((day_plan \<times> bool) \<times> window option) result" where
  "current_resolution zs sp cal m =
     (let s = get_schedule cal
      in case and_then (zone_of zs (hs_zone s)) (\<lambda>z. and_then (resolve_day s cal (fst (local_moment z m))) (\<lambda>p. Inr (z, p))) of
           Inl e \<Rightarrow> (if degrades e then Inr ((degraded_plan (moment_day m), False), None) else Inl e)
         | Inr (z, p) \<Rightarrow>
             (let l = local_moment z m
              in and_then (active_interval (snd l) (dp_intervals p)) (\<lambda>iv.
                   (let is_open = (dp_state p = Open_Day \<and> iv \<noteq> None);
                        quinta = quinta_fire_at (zn_local sp (moment_instant z m));
                        p' = p\<lparr>dp_reason := refined_reason is_open quinta p\<rparr>
                    in Inr ((p', is_open),
                         case iv of
                           Some (start, end_at) \<Rightarrow>
                             (if is_open then Some \<lparr>ow_start = zn_utc z (fst l, start), ow_end = zn_utc z (fst l, end_at),
                                ow_zone = hs_zone s, ow_rule = map_option fst (dp_rule p)\<rparr> else None)
                         | None \<Rightarrow> None)))))"

definition resolve_operational_window :: "zones \<Rightarrow> zone \<Rightarrow> calendar \<Rightarrow> moment \<Rightarrow> window option result" where
  "resolve_operational_window zs sp cal m = map_sum id snd (current_resolution zs sp cal m)"

definition resolve_now :: "zones \<Rightarrow> zone \<Rightarrow> calendar \<Rightarrow> moment \<Rightarrow> (day_plan \<times> bool) result" where
  "resolve_now zs sp cal m = map_sum id fst (current_resolution zs sp cal m)"

end
