(* ===== verification/Calendar_Rules.thy ===== *)
theory Calendar_Rules
  imports Helpdesk_Calendar
begin

text \<open>
  Editing the calendar: the rule request with its validators (\<open>schemas.py\<close>), \<open>save_rule\<close>,
  \<open>deactivate_rule\<close> and \<open>serialize_rule\<close> of \<open>helpdesk_calendar/service.py\<close>, the well-formedness that
  editing keeps, the optimistic versions and the round trip of a rule.
\<close>

section \<open>Requests\<close>

record request =
  rq_name :: string
  rq_kind :: rule_kind
  rq_recurrence :: recurrence
  rq_starts :: day
  rq_ends :: "day option"
  rq_weekdays :: "int list"
  rq_week :: "int option"
  rq_dates :: "day list"
  rq_intervals :: "(int \<times> int) list"
  rq_message :: "string option"
  rq_priority :: int

definition overlap_free :: "(int \<times> int) list \<Rightarrow> bool" where
  "overlap_free ivs = successively (\<lambda>p c. snd p \<le> fst c) (sort_key fst ivs)"

definition valid_request :: "request \<Rightarrow> bool" where
  "valid_request q \<longleftrightarrow>
     1 \<le> length (rq_name q) \<and> length (rq_name q) \<le> 160 \<and> length (rq_weekdays q) \<le> 7 \<and> length (rq_dates q) \<le> 366 \<and>
     length (rq_intervals q) \<le> 24 \<and> 0 \<le> rq_priority q \<and> rq_priority q \<le> 10000 \<and>
     (case rq_week q of None \<Rightarrow> True | Some k \<Rightarrow> 1 \<le> k \<and> k \<le> 5) \<and>
     (case rq_message q of None \<Rightarrow> True | Some t \<Rightarrow> length t \<le> 4000 \<and> CHR ''<'' \<notin> set t \<and> CHR ''>'' \<notin> set t) \<and>
     (\<forall>i \<in> set (rq_intervals q). 0 \<le> fst i \<and> fst i < snd i \<and> snd i < clock 24 0) \<and>
     (case rq_ends q of None \<Rightarrow> True | Some e \<Rightarrow> rq_starts q \<le> e) \<and>
     (\<forall>w \<in> set (rq_weekdays q). 0 \<le> w \<and> w \<le> 6) \<and> distinct (rq_weekdays q) \<and> distinct (rq_dates q) \<and>
     (rq_recurrence q = Once \<longrightarrow> rq_dates q \<noteq> []) \<and> (rq_recurrence q = Weekly \<longrightarrow> rq_weekdays q \<noteq> []) \<and>
     (rq_recurrence q = Monthly \<longrightarrow> rq_weekdays q \<noteq> [] \<or> rq_week q \<noteq> None) \<and>
     (rq_kind q = Service_Rule \<longrightarrow> rq_intervals q \<noteq> []) \<and> (rq_kind q = Absence_Rule \<longrightarrow> rq_intervals q = []) \<and>
     overlap_free (rq_intervals q)"

section \<open>Saving\<close>

definition rule_of :: "uuid \<Rightarrow> calendar \<Rightarrow> rule option" where
  "rule_of k cal = get_row ru_pk k (hc_rules cal)"

definition not_found :: py_error where
  "not_found = UnexpectedError ''NotFoundError''"

definition ensure_schedule :: "calendar \<Rightarrow> calendar \<times> schedule" where
  "ensure_schedule cal =
     (case published_schedule cal of
        Some s \<Rightarrow> (cal, s)
      | None \<Rightarrow>
          (let s = \<lparr>hs_pk = Some (hc_next_pk cal), hs_zone = default_zone, hs_published = True, hs_version = 1\<rparr>
           in (cal\<lparr>hc_schedules := hc_schedules cal @ [s], hc_next_pk := Suc (hc_next_pk cal)\<rparr>, s)))"

text \<open>The row a request is written to: a new one, or the stored one when its version is the expected one.\<close>

definition target_rule :: "uuid option \<Rightarrow> nat option \<Rightarrow> calendar \<Rightarrow> rule option result" where
  "target_rule rule_id expected cal =
     (case rule_id of
        None \<Rightarrow> Inr None
      | Some k \<Rightarrow>
          (case rule_of k cal of
             None \<Rightarrow> Inl not_found
           | Some r \<Rightarrow> (if expected \<noteq> None \<and> expected \<noteq> Some (ru_version r) then Inl ConflictError else Inr (Some r))))"

definition written_rule :: "request \<Rightarrow> schedule \<Rightarrow> uuid \<Rightarrow> rule option \<Rightarrow> rule" where
  "written_rule q s k old =
     \<lparr>ru_pk = (case old of None \<Rightarrow> k | Some r \<Rightarrow> ru_pk r), ru_schedule = (case old of None \<Rightarrow> the (hs_pk s) | Some r \<Rightarrow> ru_schedule r),
      ru_name = rq_name q, ru_kind = rq_kind q, ru_recurrence = rq_recurrence q, ru_starts = rq_starts q, ru_ends = rq_ends q,
      ru_weekdays = map Stored (rq_weekdays q), ru_week = rq_week q, ru_dates = map Stored (rq_dates q),
      ru_priority = rq_priority q, ru_active = (case old of None \<Rightarrow> True | Some r \<Rightarrow> ru_active r),
      ru_version = (case old of None \<Rightarrow> 1 | Some r \<Rightarrow> ru_version r + 1)\<rparr>"

text \<open>\<open>full_clean\<close>: the blank name, its length and the check constraints of the table.\<close>

definition clean_rule :: "rule \<Rightarrow> bool" where
  "clean_rule r \<longleftrightarrow> ru_name r \<noteq> [] \<and> length (ru_name r) \<le> 160 \<and> 0 \<le> ru_priority r \<and>
     (case ru_ends r of None \<Rightarrow> True | Some e \<Rightarrow> ru_starts r \<le> e) \<and> (case ru_week r of None \<Rightarrow> True | Some k \<Rightarrow> 1 \<le> k \<and> k \<le> 5)"

definition store_rule :: "rule \<Rightarrow> rule option \<Rightarrow> calendar \<Rightarrow> calendar" where
  "store_rule r old cal =
     (if old = None then cal\<lparr>hc_rules := hc_rules cal @ [r], hc_next_pk := Suc (hc_next_pk cal)\<rparr>
      else cal\<lparr>hc_rules := save_row ru_pk r (hc_rules cal)\<rparr>)"

definition store_intervals :: "uuid \<Rightarrow> (int \<times> int) list \<Rightarrow> calendar \<Rightarrow> calendar result" where
  "store_intervals k ivs cal =
     (if \<exists>i \<in> set ivs. snd i \<le> fst i then Inl IntegrityError
      else Inr (cal\<lparr>hc_intervals := filter (\<lambda>i. iv_rule i \<noteq> k) (hc_intervals cal) @
             map (\<lambda>i. \<lparr>iv_rule = k, iv_weekday = None, iv_date = None, iv_start = fst i, iv_end = snd i\<rparr>) ivs\<rparr>))"

definition store_message :: "uuid \<Rightarrow> request \<Rightarrow> calendar \<Rightarrow> calendar" where
  "store_message k q cal =
     (let others = filter (\<lambda>m. fst m \<noteq> k) (hc_messages cal)
      in cal\<lparr>hc_messages := (if rq_kind q = Absence_Rule then others @ [(k, opt_text (rq_message q))] else others)\<rparr>)"

definition set_schedule_version :: "schedule \<Rightarrow> nat \<Rightarrow> calendar \<Rightarrow> calendar" where
  "set_schedule_version s v cal = cal\<lparr>hc_schedules := update_rows (\<lambda>x. hs_pk x = hs_pk s) (\<lambda>x. x\<lparr>hs_version := v\<rparr>) (hc_schedules cal)\<rparr>"

text \<open>The transaction, with the schedule as it was read at its start (the schedule row is not locked).\<close>

definition save_under :: "schedule \<Rightarrow> request \<Rightarrow> uuid option \<Rightarrow> nat option \<Rightarrow> calendar \<Rightarrow> (calendar \<times> rule) result" where
  "save_under s q rule_id expected cal =
     and_then (target_rule rule_id expected cal) (\<lambda>old.
       (let r = written_rule q s (hc_next_pk cal) old
        in if \<not> clean_rule r then Inl (UnexpectedError ''ValidationError'')
           else and_then (store_intervals (ru_pk r) (rq_intervals q) (store_rule r old cal)) (\<lambda>cal1.
                  Inr (set_schedule_version s (hs_version s + 1) (store_message (ru_pk r) q cal1), r))))"

definition save_rule :: "request \<Rightarrow> uuid option \<Rightarrow> nat option \<Rightarrow> calendar \<Rightarrow> (calendar \<times> rule) result" where
  "save_rule q rule_id expected cal = (case ensure_schedule cal of (cal1, s) \<Rightarrow> save_under s q rule_id expected cal1)"

definition deactivate_rule :: "uuid \<Rightarrow> nat option \<Rightarrow> calendar \<Rightarrow> calendar result" where
  "deactivate_rule k expected cal =
     and_then (target_rule (Some k) expected cal) (\<lambda>old.
       (case old of
          None \<Rightarrow> Inl not_found
        | Some r \<Rightarrow>
            Inr (cal\<lparr>hc_rules := save_row ru_pk (r\<lparr>ru_active := False, ru_version := ru_version r + 1\<rparr>) (hc_rules cal),
                     hc_schedules := update_rows (\<lambda>x. hs_pk x = Some (ru_schedule r)) (\<lambda>x. x\<lparr>hs_version := hs_version x + 1\<rparr>) (hc_schedules cal)\<rparr>)))"

section \<open>Serializing\<close>



section \<open>Histories of edits\<close>

datatype edit = Save request "uuid option" "nat option" | Deactivate uuid "nat option"

fun apply_edit :: "edit \<Rightarrow> calendar \<Rightarrow> calendar result" where
  "apply_edit (Save q k v) cal = map_sum id fst (save_rule q k v cal)"
| "apply_edit (Deactivate k v) cal = deactivate_rule k v cal"

fun edit_step :: "edit \<Rightarrow> calendar \<Rightarrow> calendar" where
  "edit_step e cal = (case apply_edit e cal of Inl _ \<Rightarrow> cal | Inr cal' \<Rightarrow> cal')"

fun valid_edit :: "edit \<Rightarrow> bool" where
  "valid_edit (Save q k v) = valid_request q"
| "valid_edit (Deactivate k v) = True"

text \<open>What editing keeps: identities, schedules and owners of rows, readable rules, and the shape of a
  rule (intervals in order and apart, a message exactly on absences).\<close>

definition readable_rule :: "rule \<Rightarrow> bool" where
  "readable_rule r \<longleftrightarrow> (\<exists>ws ds. ru_weekdays r = map Stored ws \<and> ru_dates r = map Stored ds \<and> (\<forall>w \<in> set ws. 0 \<le> w \<and> w \<le> 6))"

definition rule_intervals :: "uuid \<Rightarrow> calendar \<Rightarrow> interval list" where
  "rule_intervals k cal = filter (\<lambda>i. iv_rule i = k) (hc_intervals cal)"

definition apart :: "interval list \<Rightarrow> bool" where
  "apart ivs \<longleftrightarrow> (\<forall>i \<in> set ivs. \<forall>j \<in> set ivs. i = j \<or> iv_end i \<le> iv_start j \<or> iv_end j \<le> iv_start i)"

definition rule_ok :: "calendar \<Rightarrow> rule \<Rightarrow> bool" where
  "rule_ok cal r \<longleftrightarrow> readable_rule r \<and> clean_rule r \<and> apart (rule_intervals (ru_pk r) cal) \<and>
     (ru_kind r = Absence_Rule \<longrightarrow> rule_intervals (ru_pk r) cal = [] \<and> message_of (ru_pk r) cal \<noteq> None) \<and>
     (ru_kind r = Service_Rule \<longrightarrow> rule_intervals (ru_pk r) cal \<noteq> [] \<and> message_of (ru_pk r) cal = None)"

definition keys_ok :: "calendar \<Rightarrow> bool" where
  "keys_ok cal \<longleftrightarrow> distinct (map ru_pk (hc_rules cal)) \<and> (\<forall>r \<in> set (hc_rules cal). ru_pk r < hc_next_pk cal) \<and>
     distinct (map hs_pk (hc_schedules cal)) \<and> (\<forall>s \<in> set (hc_schedules cal). \<exists>k < hc_next_pk cal. hs_pk s = Some k) \<and>
     length (filter hs_published (hc_schedules cal)) \<le> 1"

definition calendar_ok :: "calendar \<Rightarrow> bool" where
  "calendar_ok cal \<longleftrightarrow> keys_ok cal \<and> (\<forall>r \<in> set (hc_rules cal). rule_ok cal r \<and> Some (ru_schedule r) \<in> hs_pk ` set (hc_schedules cal)) \<and>
     (\<forall>i \<in> set (hc_intervals cal). 0 \<le> iv_start i \<and> iv_start i < iv_end i \<and> iv_end i < clock 24 0 \<and> iv_rule i \<in> ru_pk ` set (hc_rules cal)) \<and>
     distinct (map fst (hc_messages cal)) \<and> fst ` set (hc_messages cal) \<subseteq> ru_pk ` set (hc_rules cal)"

section \<open>What a save writes\<close>

definition new_intervals :: "uuid \<Rightarrow> request \<Rightarrow> interval list" where
  "new_intervals k q = map (\<lambda>i. \<lparr>iv_rule = k, iv_weekday = None, iv_date = None, iv_start = fst i, iv_end = snd i\<rparr>) (rq_intervals q)"

lemma save_under_effect:
  assumes "save_under s q rule_id expected cal = Inr (cal', r)"
  obtains old where "target_rule rule_id expected cal = Inr old" and "r = written_rule q s (hc_next_pk cal) old" and "clean_rule r"
    and "\<forall>i \<in> set (rq_intervals q). fst i < snd i"
    and "hc_rules cal' = (if old = None then hc_rules cal @ [r] else save_row ru_pk r (hc_rules cal))"
    and "hc_next_pk cal' = (if old = None then Suc (hc_next_pk cal) else hc_next_pk cal)"
    and "hc_intervals cal' = filter (\<lambda>i. iv_rule i \<noteq> ru_pk r) (hc_intervals cal) @ new_intervals (ru_pk r) q"
    and "hc_messages cal' = filter (\<lambda>m. fst m \<noteq> ru_pk r) (hc_messages cal) @
          (if rq_kind q = Absence_Rule then [(ru_pk r, opt_text (rq_message q))] else [])"
    and "hc_schedules cal' = update_rows (\<lambda>x. hs_pk x = hs_pk s) (\<lambda>x. x\<lparr>hs_version := hs_version s + 1\<rparr>) (hc_schedules cal)"
proof -
  obtain old where old: "target_rule rule_id expected cal = Inr old"
    using assms by (auto simp: save_under_def elim!: and_then_InrE)
  let ?r = "written_rule q s (hc_next_pk cal) old"
  have clean: "clean_rule ?r" using assms old by (auto simp: save_under_def Let_def split: if_splits)
  have ivs: "\<forall>i \<in> set (rq_intervals q). fst i < snd i"
    using assms old clean by (auto simp: save_under_def Let_def store_intervals_def split: if_splits)
  have fits: "\<not> (\<exists>i \<in> set (rq_intervals q). snd i \<le> fst i)" using ivs by (auto simp: not_le)
  have eq: "cal' = set_schedule_version s (hs_version s + 1) (store_message (ru_pk ?r) q (store_rule ?r old cal
      \<lparr>hc_intervals := filter (\<lambda>i. iv_rule i \<noteq> ru_pk ?r) (hc_intervals (store_rule ?r old cal)) @ new_intervals (ru_pk ?r) q\<rparr>))" "r = ?r"
    using assms old clean fits by (auto simp: save_under_def Let_def store_intervals_def new_intervals_def)
  show ?thesis
    by (rule that [OF old eq(2)]; (use clean ivs in \<open>simp add: eq set_schedule_version_def store_message_def store_rule_def Let_def\<close>)?)
qed

lemma target_ruleD:
  assumes "target_rule rule_id expected cal = Inr old"
  shows "(rule_id = None \<and> old = None) \<or>
    (\<exists>k r. rule_id = Some k \<and> old = Some r \<and> rule_of k cal = Some r \<and> (expected = None \<or> expected = Some (ru_version r)))"
  using assms by (auto simp: target_rule_def split: option.splits if_splits)

lemma rule_of_mem: "rule_of k cal = Some r \<Longrightarrow> r \<in> set (hc_rules cal) \<and> ru_pk r = k"
  unfolding rule_of_def by (rule get_row_Some_in)

lemma rule_intervals_saved:
  assumes "hc_intervals cal' = filter (\<lambda>i. iv_rule i \<noteq> k) (hc_intervals cal) @ new_intervals k q"
  shows "rule_intervals k' cal' = (if k' = k then new_intervals k q else rule_intervals k' cal)"
proof -
  have "filter (\<lambda>i. iv_rule i = k') (new_intervals k q) = (if k' = k then new_intervals k q else [])"
    by (auto simp: new_intervals_def filter_map o_def)
  moreover have "filter (\<lambda>i. iv_rule i = k') (filter (\<lambda>i. iv_rule i \<noteq> k) (hc_intervals cal)) =
      (if k' = k then [] else filter (\<lambda>i. iv_rule i = k') (hc_intervals cal))"
    by (auto intro: filter_cong)
  ultimately show ?thesis by (simp add: rule_intervals_def assms del: filter_filter)
qed

lemma map_of_filter_key: "map_of (filter (\<lambda>m. fst m \<noteq> k) ms) k' = (if k' = k then None else map_of ms k')"
  by (induction ms) auto

lemma message_saved:
  assumes "hc_messages cal' = filter (\<lambda>m. fst m \<noteq> k) (hc_messages cal) @ (if b then [(k, t)] else [])"
  shows "message_of k' cal' = (if k' = k then (if b then Some t else None) else message_of k' cal)"
  by (auto simp: message_of_def assms map_of_filter_key map_add_def split: option.splits)

section \<open>Well-formed calendars\<close>

lemma overlap_free_apart:
  assumes "overlap_free ivs" and "\<forall>i \<in> set ivs. fst i < snd i"
  shows "\<forall>i \<in> set ivs. \<forall>j \<in> set ivs. i = j \<or> snd i \<le> fst j \<or> snd j \<le> fst i"
proof -
  let ?P = "\<lambda>p c :: int \<times> int. snd p \<le> fst c"
  have "sorted_wrt ?P (sort_key fst ivs)"
    using assms(1) unfolding overlap_free_def
  proof (subst successively_iff_sorted_wrt_strong [symmetric])
    fix x y z :: "int \<times> int"
    assume "y \<in> set (sort_key fst ivs)" "?P x y" "?P y z"
    moreover have "fst y < snd y" using assms(2) \<open>y \<in> set (sort_key fst ivs)\<close> by simp
    ultimately show "?P x z" by simp
  qed
  then have "\<forall>i < length ivs. \<forall>j < length ivs. i < j \<longrightarrow> ?P (sort_key fst ivs ! i) (sort_key fst ivs ! j)"
    by (auto simp: sorted_wrt_iff_nth_less)
  then have "i = j \<or> snd i \<le> fst j \<or> snd j \<le> fst i" if "i \<in> set (sort_key fst ivs)" "j \<in> set (sort_key fst ivs)" for i j
    using that unfolding in_set_conv_nth by (metis length_sort linorder_neqE_nat)
  then show ?thesis by simp
qed

lemma written_rule_simps [simp]:
  "ru_kind (written_rule q s k old) = rq_kind q" "ru_starts (written_rule q s k old) = rq_starts q"
  "readable_rule (written_rule q s k old) \<longleftrightarrow> (\<forall>w \<in> set (rq_weekdays q). 0 \<le> w \<and> w \<le> 6)"
  "ru_pk (written_rule q s k (Some r)) = ru_pk r" "ru_pk (written_rule q s k None) = k"
  "ru_schedule (written_rule q s k (Some r)) = ru_schedule r" "ru_schedule (written_rule q s k None) = the (hs_pk s)"
  "ru_version (written_rule q s k (Some r)) = ru_version r + 1"
  by (auto simp: written_rule_def readable_rule_def dest: map_injective [OF _ injI])

lemma rule_ok_cong:
  assumes "rule_intervals (ru_pk r) cal' = rule_intervals (ru_pk r) cal" and "message_of (ru_pk r) cal' = message_of (ru_pk r) cal"
  shows "rule_ok cal' r = rule_ok cal r"
  by (simp add: rule_ok_def assms)

lemma new_intervals_apart:
  "valid_request q \<Longrightarrow> apart (new_intervals k q)"
proof -
  assume v: "valid_request q"
  have "overlap_free (rq_intervals q)" "\<forall>i \<in> set (rq_intervals q). fst i < snd i" using v unfolding valid_request_def by blast+
  from overlap_free_apart [OF this] show ?thesis by (simp add: apart_def new_intervals_def prod_eq_iff)
qed

text \<open>The schedule a save runs under: a stored one.\<close>

definition stored_schedule :: "schedule \<Rightarrow> calendar \<Rightarrow> bool" where
  "stored_schedule s cal \<longleftrightarrow> hs_pk s \<noteq> None \<and> hs_pk s \<in> hs_pk ` set (hc_schedules cal)"

lemma schedules_versioned:
  assumes "hc_schedules cal' = update_rows P (\<lambda>x. x\<lparr>hs_version := f x\<rparr>) (hc_schedules cal)"
  shows "map hs_pk (hc_schedules cal') = map hs_pk (hc_schedules cal)" "hs_pk ` set (hc_schedules cal') = hs_pk ` set (hc_schedules cal)"
    "map hs_published (hc_schedules cal') = map hs_published (hc_schedules cal)"
    "length (filter hs_published (hc_schedules cal')) = length (filter hs_published (hc_schedules cal))"
proof -
  show m: "map hs_pk (hc_schedules cal') = map hs_pk (hc_schedules cal)" "map hs_published (hc_schedules cal') = map hs_published (hc_schedules cal)"
    by (simp_all add: assms update_rows_def)
  show "hs_pk ` set (hc_schedules cal') = hs_pk ` set (hc_schedules cal)" using m(1) by (metis set_map)
  have "length (filter hs_published xs) = length (filter id (map hs_published xs))" for xs :: "schedule list" by (induction xs) auto
  then show "length (filter hs_published (hc_schedules cal')) = length (filter hs_published (hc_schedules cal))" by (simp only: m(2))
qed

lemma keys_okD: "keys_ok cal \<Longrightarrow> r \<in> set (hc_rules cal) \<Longrightarrow> rule_of (ru_pk r) cal = Some r"
  unfolding rule_of_def keys_ok_def by (rule get_row_distinct) simp_all

lemma ensure_schedule_ok:
  assumes "calendar_ok cal" and "ensure_schedule cal = (cal1, s)"
  shows "calendar_ok cal1" and "stored_schedule s cal1" and "hc_rules cal1 = hc_rules cal" and "hs_published s"
    and "published_schedule cal1 = Some s"
proof -
  have "calendar_ok cal1 \<and> stored_schedule s cal1 \<and> hc_rules cal1 = hc_rules cal \<and> hs_published s \<and> published_schedule cal1 = Some s"
  proof (cases "published_schedule cal")
    case (Some x)
    then have x: "x \<in> set (hc_schedules cal)" "hs_published x" using first_by_Some [OF Some [unfolded published_schedule_def]] by auto
    then obtain k where k: "hs_pk x = Some k" using assms(1) by (auto simp: calendar_ok_def keys_ok_def)
    have "Some k \<in> hs_pk ` set (hc_schedules cal)" using x(1) k by force
    then show ?thesis using k assms Some x by (auto simp: ensure_schedule_def stored_schedule_def)
  next
    case None
    let ?s = "\<lparr>hs_pk = Some (hc_next_pk cal), hs_zone = default_zone, hs_published = True, hs_version = 1\<rparr>"
    let ?cal = "cal\<lparr>hc_schedules := hc_schedules cal @ [?s], hc_next_pk := Suc (hc_next_pk cal)\<rparr>"
    have eq: "cal1 = ?cal" "s = ?s" using assms(2) None by (auto simp: ensure_schedule_def Let_def)
    have none: "filter hs_published (hc_schedules cal) = []" using None by (simp add: published_schedule_def first_by_None filter_empty_conv)
    have keys: "keys_ok ?cal"
      using assms(1) none by (fastforce simp: calendar_ok_def keys_ok_def less_Suc_eq)
    have "rule_ok ?cal r = rule_ok cal r" for r by (rule rule_ok_cong) (simp_all add: rule_intervals_def message_of_def)
    then have "calendar_ok ?cal" using assms(1) keys by (auto simp: calendar_ok_def)
    moreover have "published_schedule ?cal = Some ?s" by (simp add: published_schedule_def first_by_def none)
    ultimately show ?thesis by (simp add: eq stored_schedule_def)
  qed
  then show "calendar_ok cal1" "stored_schedule s cal1" "hc_rules cal1 = hc_rules cal" "hs_published s" "published_schedule cal1 = Some s" by auto
qed

lemma save_under_ok:
  assumes ok: "calendar_ok cal" and s: "stored_schedule s cal" and v: "valid_request q"
    and saved: "save_under s q rule_id expected cal = Inr (cal', r)"
  shows "calendar_ok cal'" and "rule_of (ru_pk r) cal' = Some r" and "rule_intervals (ru_pk r) cal' = new_intervals (ru_pk r) q"
    and "message_of (ru_pk r) cal' = (if rq_kind q = Absence_Rule then Some (opt_text (rq_message q)) else None)"
proof -
  obtain old where old: "target_rule rule_id expected cal = Inr old" and r: "r = written_rule q s (hc_next_pk cal) old"
    and clean: "clean_rule r" and ivs: "\<forall>i \<in> set (rq_intervals q). fst i < snd i"
    and rules: "hc_rules cal' = (if old = None then hc_rules cal @ [r] else save_row ru_pk r (hc_rules cal))"
    and next_pk: "hc_next_pk cal' = (if old = None then Suc (hc_next_pk cal) else hc_next_pk cal)"
    and intervals: "hc_intervals cal' = filter (\<lambda>i. iv_rule i \<noteq> ru_pk r) (hc_intervals cal) @ new_intervals (ru_pk r) q"
    and messages: "hc_messages cal' = filter (\<lambda>m. fst m \<noteq> ru_pk r) (hc_messages cal) @
          (if rq_kind q = Absence_Rule then [(ru_pk r, opt_text (rq_message q))] else [])"
    and schedules: "hc_schedules cal' = update_rows (\<lambda>x. hs_pk x = hs_pk s) (\<lambda>x. x\<lparr>hs_version := hs_version s + 1\<rparr>) (hc_schedules cal)"
    using saved by (rule save_under_effect)
  note sched = schedules_versioned [OF schedules]
  have known: "\<exists>x \<in> set (hc_rules cal). ru_pk x = ru_pk r \<and> ru_schedule x = ru_schedule r" if "old \<noteq> None"
    using target_ruleD [OF old] that rule_of_mem r by fastforce
  have fresh: "ru_pk r = hc_next_pk cal" "Some (ru_schedule r) = hs_pk s" if "old = None"
    using that r s by (auto simp: stored_schedule_def)
  have pks: "ru_pk ` set (hc_rules cal') = insert (ru_pk r) (ru_pk ` set (hc_rules cal))"
    using known rules by (auto simp: save_row_def image_iff)
  have members: "x = r \<or> (x \<in> set (hc_rules cal) \<and> ru_pk x \<noteq> ru_pk r)" if "x \<in> set (hc_rules cal')" for x
    using that rules fresh ok by (auto simp: calendar_ok_def keys_ok_def dest!: in_save_row split: if_splits)
  have keys: "keys_ok cal'"
  proof -
    have "distinct (map ru_pk (hc_rules cal'))"
      using ok rules fresh by (auto simp: calendar_ok_def keys_ok_def)
    moreover have "ru_pk x < hc_next_pk cal'" if "x \<in> set (hc_rules cal')" for x
      using members [OF that] ok next_pk known fresh by (cases "old = None") (auto simp: calendar_ok_def keys_ok_def less_Suc_eq)
    moreover have "\<exists>k < hc_next_pk cal'. hs_pk x = Some k" if "x \<in> set (hc_schedules cal')" for x
    proof -
      have "hs_pk x \<in> hs_pk ` set (hc_schedules cal)" using that sched(2) by blast
      then obtain k where "k < hc_next_pk cal" "hs_pk x = Some k" using ok by (fastforce simp: calendar_ok_def keys_ok_def)
      then show ?thesis using next_pk by auto
    qed
    ultimately show ?thesis using ok sched by (simp add: calendar_ok_def keys_ok_def)
  qed
  have times: "\<forall>i \<in> set (rq_intervals q). 0 \<le> fst i \<and> fst i < snd i \<and> snd i < clock 24 0"
    using v unfolding valid_request_def by (elim conjE)
  have message: "message_of k' cal' = (if k' = ru_pk r then (if rq_kind q = Absence_Rule then Some (opt_text (rq_message q)) else None) else message_of k' cal)" for k'
    by (rule message_saved [OF messages])
  note intervals_of = rule_intervals_saved [OF intervals]
  have "rule_ok cal' r"
    using v clean new_intervals_apart [OF v]
    by (auto simp: rule_ok_def intervals_of message r new_intervals_def valid_request_def)
  moreover have "rule_ok cal' x" if "x \<in> set (hc_rules cal)" "ru_pk x \<noteq> ru_pk r" for x
  proof -
    have "rule_ok cal' x = rule_ok cal x" by (rule rule_ok_cong) (use that in \<open>simp_all add: intervals_of message\<close>)
    then show ?thesis using ok that by (simp add: calendar_ok_def)
  qed
  moreover have "Some (ru_schedule r) \<in> hs_pk ` set (hc_schedules cal')"
    unfolding sched(2) using known fresh s ok by (cases "old = None") (auto simp: calendar_ok_def stored_schedule_def)
  ultimately have "\<forall>x \<in> set (hc_rules cal'). rule_ok cal' x \<and> Some (ru_schedule x) \<in> hs_pk ` set (hc_schedules cal')"
    using members ok unfolding sched(2) by (auto simp: calendar_ok_def)
  moreover have "\<forall>i \<in> set (hc_intervals cal'). 0 \<le> iv_start i \<and> iv_start i < iv_end i \<and> iv_end i < clock 24 0 \<and> iv_rule i \<in> ru_pk ` set (hc_rules cal')"
    using ok times unfolding pks intervals by (auto simp: calendar_ok_def new_intervals_def)
  moreover have "distinct (map fst (hc_messages cal'))" "fst ` set (hc_messages cal') \<subseteq> ru_pk ` set (hc_rules cal')"
    using ok unfolding pks messages by (auto simp: calendar_ok_def distinct_map_filter)
  ultimately show "calendar_ok cal'" using keys by (simp add: calendar_ok_def)
  have "r \<in> set (hc_rules cal')" using rules known by (auto simp: save_row_def image_iff)
  then show "rule_of (ru_pk r) cal' = Some r" by (rule keys_okD [OF keys])
  show "rule_intervals (ru_pk r) cal' = new_intervals (ru_pk r) q" by (simp add: intervals_of)
  show "message_of (ru_pk r) cal' = (if rq_kind q = Absence_Rule then Some (opt_text (rq_message q)) else None)" by (simp add: message)
qed

lemma deactivate_ok:
  assumes ok: "calendar_ok cal" and d: "deactivate_rule k expected cal = Inr cal'"
  obtains r where "rule_of k cal = Some r" and "expected = None \<or> expected = Some (ru_version r)" and "calendar_ok cal'"
    and "rule_of k cal' = Some (r\<lparr>ru_active := False, ru_version := ru_version r + 1\<rparr>)"
    and "\<And>j. j \<noteq> k \<Longrightarrow> rule_of j cal' = rule_of j cal"
proof -
  obtain r where t: "target_rule (Some k) expected cal = Inr (Some r)"
    using d by (auto simp: deactivate_rule_def elim!: and_then_InrE split: option.splits)
  have r: "rule_of k cal = Some r" "expected = None \<or> expected = Some (ru_version r)" using target_ruleD [OF t] by auto
  then have m: "r \<in> set (hc_rules cal)" "ru_pk r = k" using rule_of_mem by blast+
  let ?r = "r\<lparr>ru_active := False, ru_version := ru_version r + 1\<rparr>"
  have rules: "hc_rules cal' = save_row ru_pk ?r (hc_rules cal)" and frame: "hc_next_pk cal' = hc_next_pk cal"
      "hc_intervals cal' = hc_intervals cal" "hc_messages cal' = hc_messages cal"
    and schedules: "hc_schedules cal' = update_rows (\<lambda>x. hs_pk x = Some (ru_schedule r)) (\<lambda>x. x\<lparr>hs_version := hs_version x + 1\<rparr>) (hc_schedules cal)"
    using d t by (auto simp: deactivate_rule_def)
  note sched = schedules_versioned [OF schedules]
  have pks: "map ru_pk (hc_rules cal') = map ru_pk (hc_rules cal)" by (simp add: rules)
  have same: "rule_ok cal' x = rule_ok cal x" for x by (rule rule_ok_cong) (simp_all add: rule_intervals_def message_of_def frame)
  have "rule_ok cal ?r = rule_ok cal r" by (simp add: rule_ok_def readable_rule_def clean_rule_def cong: option.case_cong)
  then have rules_ok: "\<forall>x \<in> set (hc_rules cal'). rule_ok cal' x \<and> Some (ru_schedule x) \<in> hs_pk ` set (hc_schedules cal')"
    using ok m unfolding same sched(2) rules by (auto simp: calendar_ok_def dest!: in_save_row)
  have "keys_ok cal'"
  proof -
    have "\<exists>j < hc_next_pk cal'. hs_pk x = Some j" if "x \<in> set (hc_schedules cal')" for x
    proof -
      have "hs_pk x \<in> hs_pk ` set (hc_schedules cal)" using that sched(2) by blast
      then show ?thesis using ok frame by (fastforce simp: calendar_ok_def keys_ok_def)
    qed
    moreover have "ru_pk x < hc_next_pk cal'" if "x \<in> set (hc_rules cal')" for x
      using that ok m frame rules by (auto simp: calendar_ok_def keys_ok_def dest!: in_save_row)
    ultimately show ?thesis using ok sched(1,4) pks by (simp add: calendar_ok_def keys_ok_def)
  qed
  moreover have "ru_pk ` set (hc_rules cal') = ru_pk ` set (hc_rules cal)" using pks by (metis set_map)
  ultimately have "calendar_ok cal'" using ok rules_ok by (auto simp: calendar_ok_def frame)
  moreover have "rule_of k cal' = Some ?r" "\<And>j. j \<noteq> k \<Longrightarrow> rule_of j cal' = rule_of j cal"
    using r m by (auto simp: rule_of_def rules get_row_save_row)
  ultimately show ?thesis using that [OF r] by blast
qed

lemma save_rule_ok:
  assumes ok: "calendar_ok cal" and v: "valid_request q" and saved: "save_rule q rule_id expected cal = Inr (cal', r)"
  shows "calendar_ok cal'" and "rule_of (ru_pk r) cal' = Some r" and "rule_intervals (ru_pk r) cal' = new_intervals (ru_pk r) q"
    and "message_of (ru_pk r) cal' = (if rq_kind q = Absence_Rule then Some (opt_text (rq_message q)) else None)"
    and "\<And>j. j \<noteq> ru_pk r \<Longrightarrow> rule_of j cal' = rule_of j cal"
    and "\<And>k x. rule_of k cal = Some x \<Longrightarrow> (if rule_id = Some k then ru_pk r = k \<and> ru_version r = ru_version x + 1 \<and> (expected = None \<or> expected = Some (ru_version x))
           else ru_pk r \<noteq> k)"
proof -
  obtain cal1 s where e: "ensure_schedule cal = (cal1, s)" by fastforce
  note ens = ensure_schedule_ok [OF ok e]
  have u: "save_under s q rule_id expected cal1 = Inr (cal', r)" using saved e by (simp add: save_rule_def)
  show "calendar_ok cal'" "rule_of (ru_pk r) cal' = Some r" "rule_intervals (ru_pk r) cal' = new_intervals (ru_pk r) q"
    "message_of (ru_pk r) cal' = (if rq_kind q = Absence_Rule then Some (opt_text (rq_message q)) else None)"
    by (rule save_under_ok [OF ens(1,2) v u])+
  obtain old where old: "target_rule rule_id expected cal1 = Inr old" and r: "r = written_rule q s (hc_next_pk cal1) old"
    and rules: "hc_rules cal' = (if old = None then hc_rules cal1 @ [r] else save_row ru_pk r (hc_rules cal1))"
    using u by (rule save_under_effect)
  have same: "rule_of j cal1 = rule_of j cal" for j by (simp add: rule_of_def ens(3))
  show "rule_of j cal' = rule_of j cal" if "j \<noteq> ru_pk r" for j
    using that by (simp add: same [symmetric]) (auto simp: rule_of_def rules get_row_append get_row_save_row get_row_Cons split: option.splits)
  show "if rule_id = Some k then ru_pk r = k \<and> ru_version r = ru_version x + 1 \<and> (expected = None \<or> expected = Some (ru_version x)) else ru_pk r \<noteq> k"
    if "rule_of k cal = Some x" for k x
  proof -
    have x: "rule_of k cal1 = Some x" using that same by simp
    have m: "x \<in> set (hc_rules cal1)" "ru_pk x = k" using rule_of_mem [OF x] by auto
    consider (new) "rule_id = None" "old = None"
      | (stored) j y where "rule_id = Some j" "old = Some y" "rule_of j cal1 = Some y" "expected = None \<or> expected = Some (ru_version y)"
      using target_ruleD [OF old] by blast
    then show ?thesis
    proof cases
      case new
      then show ?thesis using m ens(1) r by (auto simp: calendar_ok_def keys_ok_def)
    next
      case stored
      then have "ru_pk r = j" using r rule_of_mem by auto
      then show ?thesis using stored x by (cases "j = k") (auto simp: r)
    qed
  qed
qed

lemma edit_step_ok:
  assumes "calendar_ok cal" and "valid_edit e"
  shows "calendar_ok (edit_step e cal)"
proof (cases e)
  case (Save q k v)
  then show ?thesis
    using assms save_rule_ok(1) [OF assms(1), of q k v] by (cases "save_rule q k v cal") auto
next
  case (Deactivate k v)
  then show ?thesis using assms by (cases "deactivate_rule k v cal") (auto elim: deactivate_ok)
qed

lemma edits_ok: "calendar_ok cal \<Longrightarrow> \<forall>e \<in> set es. valid_edit e \<Longrightarrow> calendar_ok (fold edit_step es cal)"
  by (induction es arbitrary: cal) (simp_all add: edit_step_ok del: edit_step.simps)

lemma edit_step_version:
  assumes ok: "calendar_ok cal" and e: "valid_edit e" and r: "rule_of k cal = Some r"
  shows "\<exists>r'. rule_of k (edit_step e cal) = Some r' \<and> ru_version r \<le> ru_version r'"
proof (cases e)
  case (Save q j v)
  show ?thesis
  proof (cases "save_rule q j v cal")
    case (Inr p)
    obtain cal' x where p: "p = (cal', x)" by (cases p)
    have v: "valid_request q" using e Save by simp
    note s = save_rule_ok [OF ok v Inr [unfolded p]]
    show ?thesis
    proof (cases "j = Some k")
      case True
      then show ?thesis using s(2) s(6) [OF r] Save Inr p by auto
    next
      case False
      then have "ru_pk x \<noteq> k" using s(6) [OF r] by simp
      then show ?thesis using s(5) [of k] r Save Inr p by auto
    qed
  qed (use Save r in simp)
next
  case (Deactivate j v)
  show ?thesis
  proof (cases "deactivate_rule j v cal")
    case (Inr cal')
    obtain x where "rule_of j cal = Some x" "rule_of j cal' = Some (x\<lparr>ru_active := False, ru_version := ru_version x + 1\<rparr>)"
      "\<And>i. i \<noteq> j \<Longrightarrow> rule_of i cal' = rule_of i cal"
      using deactivate_ok [OF ok Inr] by metis
    then show ?thesis using r Deactivate Inr by (cases "k = j") auto
  qed (use Deactivate r in simp)
qed

lemma edits_version:
  assumes "calendar_ok cal" and "\<forall>e \<in> set es. valid_edit e" and "rule_of k cal = Some r"
  shows "\<exists>r'. rule_of k (fold edit_step es cal) = Some r' \<and> ru_version r \<le> ru_version r'"
  using assms
proof (induction es arbitrary: cal r)
  case (Cons e es)
  then obtain r1 where "rule_of k (edit_step e cal) = Some r1" "ru_version r \<le> ru_version r1"
    using edit_step_version [OF Cons.prems(1)] by (metis list.set_intros(1))
  then show ?case using Cons.IH [of "edit_step e cal" r1] Cons.prems edit_step_ok by (fastforce simp del: edit_step.simps)
qed auto

section \<open>Readable rules resolve\<close>

lemma read_all_Stored: "read_all (map Stored xs) = Inr xs"
  by (induction xs) auto

lemma readable_matches: "readable_rule r \<Longrightarrow> \<exists>b. rule_matches r d = Inr b"
  by (auto simp: readable_rule_def rule_matches_def read_all_Stored)

lemma readable_matching: "\<forall>r \<in> set rs. readable_rule r \<Longrightarrow> \<exists>ms. matching_rules rs d = Inr ms"
proof (induction rs)
  case (Cons r rs)
  then obtain b ms where "rule_matches r d = Inr b" "matching_rules rs d = Inr ms" using readable_matches by fastforce
  then show ?case by simp
qed simp

lemma active_rules_subset: "set (active_rules s cal) \<subseteq> set (hc_rules cal)"
  by (auto simp: active_rules_def)

lemma valid_clean: "valid_request q \<Longrightarrow> clean_rule (written_rule q s k old)"
  by (auto simp: valid_request_def clean_rule_def written_rule_def cong: option.case_cong)

text \<open>Edits write neither the special days nor the configured hours, from which a day without a rule is resolved.\<close>

lemma edit_step_legacy:
  "hc_specials (edit_step e cal) = hc_specials cal \<and> hc_configs (edit_step e cal) = hc_configs cal"
proof (cases e)
  case (Save q k v)
  have e: "hc_specials c = hc_specials cal \<and> hc_configs c = hc_configs cal" if "ensure_schedule cal = (c, s)" for c s
    using that by (auto simp: ensure_schedule_def Let_def split: option.splits)
  have "hc_specials c' = hc_specials c \<and> hc_configs c' = hc_configs c" if "save_under s q k v c = Inr (c', r)" for s c c' r
    using that
    by (auto simp: save_under_def Let_def store_intervals_def store_rule_def store_message_def set_schedule_version_def and_then_Inr_iff
        split: if_splits option.splits)
  then have "hc_specials c' = hc_specials cal \<and> hc_configs c' = hc_configs cal" if "save_rule q k v cal = Inr (c', r)" for c' r
    using e that by (auto simp: save_rule_def split: prod.splits)
  then show ?thesis by (cases "save_rule q k v cal") (auto simp: Save)
next
  case (Deactivate k v)
  show ?thesis by (auto simp: Deactivate deactivate_rule_def and_then_Inr_iff split: sum.splits option.splits)
qed

lemma edits_legacy: "legacy_resolution d (fold edit_step es cal) = legacy_resolution d cal"
proof -
  have f: "hc_specials (fold edit_step es cal) = hc_specials cal \<and> hc_configs (fold edit_step es cal) = hc_configs cal"
    by (induction es arbitrary: cal) (simp_all add: edit_step_legacy del: edit_step.simps)
  have a: "active_config (fold edit_step es cal) = active_config cal" and s: "special_of d (fold edit_step es cal) = special_of d cal"
    using f by (simp_all add: active_config_def special_of_def)
  show ?thesis unfolding legacy_resolution_def week_resolution_def a s ..
qed

lemma legacy_error: "legacy_resolution d cal = Inl e \<Longrightarrow> e = ValueError"
  by (auto simp: legacy_resolution_def week_resolution_def time_of_hour_def Let_def and_then_def split: option.splits if_splits sum.splits)

lemma day_resolution_cases:
  assumes "matching_rules (active_rules s cal) d = Inr ms"
  shows "(\<exists>p. resolve_day s cal d = Inr p) \<or> (ms = [] \<and> legacy_resolution d cal = Inl ValueError)"
proof (cases "ms = []")
  case False
  let ?rs = "if filter (\<lambda>r. ru_kind r = Absence_Rule) ms = [] then ms else filter (\<lambda>r. ru_kind r = Absence_Rule) ms"
  have "?rs \<noteq> []" using False by simp
  then have "first_by rule_rank (\<lambda>_. True) ?rs \<noteq> None" by (auto simp: first_by_None neq_Nil_conv)
  then obtain r where "first_by rule_rank (\<lambda>_. True) ?rs = Some r" by blast
  then have "resolve_day s cal d = Inr (rule_plan r d cal)" using assms unfolding resolve_day_def Let_def by simp
  then show ?thesis by blast
next
  case True
  have "first_by rule_rank (\<lambda>_. True) [] = None" by (simp add: first_by_None)
  then have "resolve_day s cal d = and_then (legacy_resolution d cal) (\<lambda>(ivs, why).
       Inr \<lparr>dp_day = d, dp_state = (if ivs \<noteq> [] then Open_Day else Closed_Day), dp_intervals = ivs, dp_reason = why,
            dp_message = None, dp_rule = None\<rparr>)"
    using assms True by (simp add: resolve_day_def Let_def)
  then show ?thesis using True legacy_error by (cases "legacy_resolution d cal") auto
qed

text \<open>C35: editing keeps the calendar well formed.  Every history of valid saves and deactivations,
  refused ones included, keeps identities unique, one published schedule, intervals that are increasing
  and apart, a message exactly on absences and only readable rules.  The rules of every later
  calendar can then be matched on every day, and the day is resolved, unless no rule matches it and the
  legacy hours of the day, which no edit writes, are not hours of the clock.\<close>

theorem calendar_well_formed:
  assumes "calendar_ok cal" and "\<forall>e \<in> set es. valid_edit e"
  shows "calendar_ok (fold edit_step es cal) \<and>
    (\<forall>s d. \<exists>ms. matching_rules (active_rules s (fold edit_step es cal)) d = Inr ms \<and>
       ((\<exists>p. resolve_day s (fold edit_step es cal) d = Inr p) \<or> (ms = [] \<and> legacy_resolution d cal = Inl ValueError)))"
proof -
  have ok: "calendar_ok (fold edit_step es cal)" by (rule edits_ok [OF assms])
  have "\<exists>ms. matching_rules (active_rules s (fold edit_step es cal)) d = Inr ms" for s d
    using ok active_rules_subset by (intro readable_matching) (fastforce simp: calendar_ok_def rule_ok_def)
  then have "\<exists>ms. matching_rules (active_rules s (fold edit_step es cal)) d = Inr ms \<and>
      ((\<exists>p. resolve_day s (fold edit_step es cal) d = Inr p) \<or> (ms = [] \<and> legacy_resolution d cal = Inl ValueError))" for s d
    using day_resolution_cases [of s "fold edit_step es cal" d] unfolding edits_legacy by metis
  with ok show ?thesis by blast
qed

text \<open>An edit of a stored rule that names its current version, a save or a deactivation.\<close>

lemma current_edit_applied:
  assumes ok: "calendar_ok cal" and r: "rule_of k cal = Some r" and v: "valid_edit e"
    and e: "(\<exists>q. e = Save q (Some k) (Some (ru_version r))) \<or> e = Deactivate k (Some (ru_version r))"
  obtains cal1 r1 where "apply_edit e cal = Inr cal1" "rule_of k cal1 = Some r1" "ru_version r1 = ru_version r + 1"
    "\<And>j. j \<noteq> k \<Longrightarrow> rule_of j cal1 = rule_of j cal" "calendar_ok cal1"
  using e
proof (elim disjE exE)
  fix q
  assume q: "e = Save q (Some k) (Some (ru_version r))"
  obtain c s0 where e: "ensure_schedule cal = (c, s0)" by fastforce
  note ens = ensure_schedule_ok [OF ok e]
  have vq: "valid_request q" using v q by simp
  have t: "target_rule (Some k) (Some (ru_version r)) c = Inr (Some r)"
    using r by (simp add: target_rule_def rule_of_def ens(3))
  have "clean_rule (written_rule q s0 (hc_next_pk c) (Some r))" by (rule valid_clean [OF vq])
  moreover have "\<not> (\<exists>i \<in> set (rq_intervals q). snd i \<le> fst i)" using vq by (auto simp: valid_request_def not_le)
  ultimately obtain cal1 r1 where saved: "save_rule q (Some k) (Some (ru_version r)) cal = Inr (cal1, r1)"
    using t by (auto simp: save_rule_def e save_under_def Let_def store_intervals_def)
  note s = save_rule_ok [OF ok vq saved]
  have r1: "ru_pk r1 = k" "ru_version r1 = ru_version r + 1" using s(6) [OF r] by simp_all
  show thesis by (rule that [of cal1 r1]) (use s(1,2,5) r1 saved in \<open>auto simp: q\<close>)
next
  assume d: "e = Deactivate k (Some (ru_version r))"
  have "target_rule (Some k) (Some (ru_version r)) cal = Inr (Some r)" using r by (simp add: target_rule_def)
  then obtain cal1 where c: "deactivate_rule k (Some (ru_version r)) cal = Inr cal1" by (auto simp: deactivate_rule_def)
  obtain x where x: "rule_of k cal = Some x" "calendar_ok cal1"
      "rule_of k cal1 = Some (x\<lparr>ru_active := False, ru_version := ru_version x + 1\<rparr>)"
      "\<forall>j. j \<noteq> k \<longrightarrow> rule_of j cal1 = rule_of j cal"
    by (rule deactivate_ok [OF ok c]) blast
  show thesis by (rule that [of cal1 "x\<lparr>ru_active := False, ru_version := ru_version x + 1\<rparr>"]) (use x r c in \<open>auto simp: d\<close>)
qed

text \<open>C36: no lost update.  A valid edit, a save or a deactivation, that names the current version of a
  rule is applied to this rule alone and counts its version up; from then on every save and every deactivation
  that names the old version is a conflict that changes nothing, whatever valid edits come in between.\<close>

theorem stale_edits_conflict:
  assumes "calendar_ok cal" and "rule_of k cal = Some r" and "valid_edit e"
    and "(\<exists>q. e = Save q (Some k) (Some (ru_version r))) \<or> e = Deactivate k (Some (ru_version r))"
    and "\<forall>e' \<in> set es. valid_edit e'"
  shows "\<exists>cal1 r1. apply_edit e cal = Inr cal1 \<and> rule_of k cal1 = Some r1 \<and>
     ru_version r1 = ru_version r + 1 \<and> (\<forall>j. j \<noteq> k \<longrightarrow> rule_of j cal1 = rule_of j cal) \<and>
     (\<forall>q'. save_rule q' (Some k) (Some (ru_version r)) (fold edit_step es cal1) = Inl ConflictError) \<and>
     deactivate_rule k (Some (ru_version r)) (fold edit_step es cal1) = Inl ConflictError"
proof -
  obtain cal1 r1 where a: "apply_edit e cal = Inr cal1" "rule_of k cal1 = Some r1" "ru_version r1 = ru_version r + 1"
      "\<forall>j. j \<noteq> k \<longrightarrow> rule_of j cal1 = rule_of j cal" "calendar_ok cal1"
    by (rule current_edit_applied [OF assms(1-4)]) blast
  let ?cal = "fold edit_step es cal1"
  obtain r2 where r2: "rule_of k ?cal = Some r2" "ru_version r < ru_version r2"
    using edits_version [OF a(5) assms(5) a(2)] a(3) by auto
  have conflict: "target_rule (Some k) (Some (ru_version r)) x = Inl ConflictError" if "hc_rules x = hc_rules ?cal" for x
    using r2 that by (simp add: target_rule_def rule_of_def)
  have "save_rule q' (Some k) (Some (ru_version r)) ?cal = Inl ConflictError" for q'
  proof -
    obtain c2 s2 where e2: "ensure_schedule ?cal = (c2, s2)" by fastforce
    have "calendar_ok ?cal" by (rule edits_ok [OF a(5) assms(5)])
    then have "hc_rules c2 = hc_rules ?cal" by (rule ensure_schedule_ok(3) [OF _ e2])
    then show ?thesis using conflict by (simp add: save_rule_def e2 save_under_def)
  qed
  moreover have "deactivate_rule k (Some (ru_version r)) ?cal = Inl ConflictError"
    using conflict [of ?cal] by (simp add: deactivate_rule_def)
  ultimately show ?thesis using a(1-4) by blast
qed


section \<open>What editing does not keep\<close>

text \<open>Two saves that read the schedule before either wrote it count its version up once.\<close>

lemma schedule_version_lost:
  assumes "save_under s q None None cal = Inr (cal1, r1)" and "save_under s q' None None cal1 = Inr (cal2, r2)"
    and "x \<in> set (hc_schedules cal2)" and "hs_pk x = hs_pk s"
  shows "hs_version x = hs_version s + 1"
proof -
  have "hc_schedules cal2 = update_rows (\<lambda>x. hs_pk x = hs_pk s) (\<lambda>x. x\<lparr>hs_version := hs_version s + 1\<rparr>) (hc_schedules cal1)"
    using assms(2) by (rule save_under_effect)
  then show ?thesis using assms(3,4) by (auto simp: update_rows_def split: if_splits)
qed

section \<open>Witnesses\<close>

definition empty_calendar :: calendar where
  "empty_calendar = \<lparr>hc_schedules = [], hc_rules = [], hc_intervals = [], hc_messages = [], hc_specials = [], hc_configs = [], hc_next_pk = 0\<rparr>"

definition weekday_request :: request where
  "weekday_request = \<lparr>rq_name = ''week'', rq_kind = Service_Rule, rq_recurrence = Weekly, rq_starts = (2026, 1, 1), rq_ends = None,
     rq_weekdays = [0, 1, 2, 3, 4], rq_week = None, rq_dates = [], rq_intervals = [(clock 9 0, clock 12 0), (clock 13 0, clock 18 0)],
     rq_message = None, rq_priority = 50\<rparr>"

definition retreat_request :: request where
  "retreat_request = \<lparr>rq_name = ''retreat'', rq_kind = Absence_Rule, rq_recurrence = Once, rq_starts = (2026, 3, 2), rq_ends = None,
     rq_weekdays = [], rq_week = None, rq_dates = [(2026, 3, 3)], rq_intervals = [], rq_message = Some ''back soon'', rq_priority = 10\<rparr>"

definition week_calendar :: calendar where
  "week_calendar = edit_step (Save weekday_request None None) empty_calendar"

lemma week_calendar_ok: "calendar_ok week_calendar" "rule_of 1 week_calendar \<noteq> None"
proof -
  have "calendar_ok empty_calendar" by (simp add: calendar_ok_def keys_ok_def empty_calendar_def)
  moreover have "valid_edit (Save weekday_request None None)" by code_simp
  ultimately show "calendar_ok week_calendar" unfolding week_calendar_def by (rule edit_step_ok)
  show "rule_of 1 week_calendar \<noteq> None" by code_simp
qed

theorem calendar_well_formed_witness:
  "let es = [Save retreat_request None None, Save weekday_request (Some 1) (Some 5), Deactivate 1 (Some 1), Save retreat_request (Some 7) None];
       cal = fold edit_step es week_calendar
   in length (hc_rules cal) = 2 \<and> map ru_active (hc_rules cal) = [False, True] \<and> calendar_ok cal"
proof -
  let ?es = "[Save retreat_request None None, Save weekday_request (Some 1) (Some 5), Deactivate 1 (Some 1), Save retreat_request (Some 7) None]"
  have v: "\<forall>e \<in> set ?es. valid_edit e" by code_simp
  have "length (hc_rules (fold edit_step ?es week_calendar)) = 2" "map ru_active (hc_rules (fold edit_step ?es week_calendar)) = [False, True]"
    by code_simp+
  then show ?thesis using calendar_well_formed [OF week_calendar_ok(1) v] unfolding Let_def by blast
qed

theorem stale_edits_conflict_witness:
  "\<exists>cal1 r r1. rule_of 1 week_calendar = Some r \<and> deactivate_rule 1 (Some (ru_version r)) week_calendar = Inr cal1 \<and>
     rule_of 1 cal1 = Some r1 \<and> ru_version r1 = ru_version r + 1 \<and>
     save_rule weekday_request (Some 1) (Some (ru_version r)) (fold edit_step [Save retreat_request None None] cal1) = Inl ConflictError"
proof -
  obtain r where r: "rule_of 1 week_calendar = Some r" using week_calendar_ok(2) by blast
  have v: "valid_edit (Deactivate 1 (Some (ru_version r)))" "\<forall>e \<in> set [Save retreat_request None None]. valid_edit e" by code_simp+
  show ?thesis using stale_edits_conflict [OF week_calendar_ok(1) r v(1) disjI2 [OF refl] v(2)] r by auto
qed


end
