(* ===== verification/Business_Hours.thy ===== *)
theory Business_Hours
  imports Calendar_Rules
begin

text \<open>
  Who is open when: \<open>is_business_hours\<close> and \<open>off_hours_reason\<close> of \<open>ai_agents/utils/business_rules.py\<close>,
  \<open>is_business_hours\<close> of \<open>agent_sync_service.py\<close> with their fallbacks, and what the calendar answers for
  a moment: absences close, windows are half open, a range covers its days, and the fallbacks agree with
  the calendar.  The storage is an option: \<open>None\<close> when reading the tables raises.
\<close>

section \<open>The business rules of the conversation agent\<close>

definition is_holiday_at :: "local_time \<Rightarrow> bool" where
  "is_holiday_at l \<longleftrightarrow> fst l \<in> set holidays"

definition weekly_open :: "local_time \<Rightarrow> bool" where
  "weekly_open l = (case weekly_hours (weekday (fst l)) of (a, b) \<Rightarrow> minute a \<le> snd l \<and> snd l < minute b)"

definition fallback_hours :: "local_time \<Rightarrow> bool" where
  "fallback_hours l \<longleftrightarrow> \<not> is_holiday_at l \<and> \<not> quinta_fire_at l \<and> weekly_open l"

definition calendar_answer :: "zones \<Rightarrow> zone \<Rightarrow> calendar option \<Rightarrow> moment \<Rightarrow> (day_plan \<times> bool) option" where
  "calendar_answer zs sp storage m =
     (case storage of None \<Rightarrow> None | Some cal \<Rightarrow> (case resolve_now zs sp cal m of Inl e \<Rightarrow> None | Inr r \<Rightarrow> Some r))"

definition is_business_hours :: "zones \<Rightarrow> zone \<Rightarrow> calendar option \<Rightarrow> moment \<Rightarrow> bool" where
  "is_business_hours zs sp storage m =
     (case calendar_answer zs sp storage m of Some (p, is_open) \<Rightarrow> is_open | None \<Rightarrow> fallback_hours (local_moment sp m))"

definition off_hours_reason :: "zones \<Rightarrow> zone \<Rightarrow> calendar option \<Rightarrow> moment \<Rightarrow> reason option" where
  "off_hours_reason zs sp storage m =
     (let l = local_moment sp m; here = Aware (moment_instant sp m) (fst l)
      in if is_holiday_at l then Some (Holiday (fst l))
         else if quinta_fire_at l then Some Quinta_Fire
         else case calendar_answer zs sp storage here of
                Some (p, is_open) \<Rightarrow>
                  (if is_open then None
                   else if dp_state p = Absence_Day then Some (case dp_reason p of Some why \<Rightarrow> why | None \<Rightarrow> Off_Hours)
                   else Some Off_Hours)
              | None \<Rightarrow> (if is_business_hours zs sp storage here then None else Some Off_Hours))"

section \<open>The hours of the agents\<close>

definition hours_of_times :: "int \<Rightarrow> int \<Rightarrow> (int \<times> int) option" where
  "hours_of_times a b = (case (time_of_hour a, time_of_hour b) of (Inr s, Inr e) \<Rightarrow> Some (s, e) | _ \<Rightarrow> None)"

text \<open>\<open>l\<close> is the local time of Django's zone, \<open>lsp\<close> that of Sao Paulo.\<close>

definition configured_hours :: "calendar option \<Rightarrow> day \<Rightarrow> (int \<times> int) option" where
  "configured_hours storage d =
     (let default = Some (weekly_hours (weekday d))
      in case storage of None \<Rightarrow> default
         | Some cal \<Rightarrow> (case active_config cal of None \<Rightarrow> default
             | Some c \<Rightarrow> (case hours_for_weekday c (weekday d) of None \<Rightarrow> None
                 | Some (a, b) \<Rightarrow> (if weekday d \<le> 4 \<and> a = 9 \<and> b = 18 then default
                     else case hours_of_times a b of None \<Rightarrow> default | Some h \<Rightarrow> Some h))))"

definition hours_for_today :: "calendar option \<Rightarrow> local_time \<Rightarrow> local_time \<Rightarrow> (int \<times> int) option" where
  "hours_for_today storage l lsp =
     (let week = (if is_holiday_at lsp \<or> quinta_fire_at lsp then None else configured_hours storage (fst l))
      in case storage of None \<Rightarrow> week
         | Some cal \<Rightarrow> (case special_of (fst l) cal of None \<Rightarrow> week
             | Some x \<Rightarrow> (if sx_closed x then None
                 else case (sx_start x, sx_end x) of
                        (Some a, Some b) \<Rightarrow> (case hours_of_times a b of None \<Rightarrow> week | Some h \<Rightarrow> Some h)
                      | _ \<Rightarrow> week)))"

definition agent_fallback :: "calendar option \<Rightarrow> local_time \<Rightarrow> local_time \<Rightarrow> bool" where
  "agent_fallback storage l lsp =
     (case hours_for_today storage l lsp of None \<Rightarrow> False | Some (a, b) \<Rightarrow> minute a \<le> snd l \<and> snd l < minute b)"

definition agent_business_hours :: "zones \<Rightarrow> zone \<Rightarrow> zone \<Rightarrow> calendar option \<Rightarrow> instant \<Rightarrow> bool" where
  "agent_business_hours zs sp django storage t =
     (case calendar_answer zs sp storage (Aware t (fst (zn_local django t))) of
        Some (p, is_open) \<Rightarrow> is_open
      | None \<Rightarrow> agent_fallback storage (zn_local django t) (zn_local sp t))"

definition poll_interval_seconds :: "zones \<Rightarrow> zone \<Rightarrow> zone \<Rightarrow> calendar option \<Rightarrow> instant \<Rightarrow> int" where
  "poll_interval_seconds zs sp django storage t = (if agent_business_hours zs sp django storage t then 30 else 3600)"

section \<open>Active intervals\<close>

definition in_minute :: "int \<Rightarrow> int \<times> int \<Rightarrow> bool" where
  "in_minute u i \<longleftrightarrow> minute (fst i) \<le> u \<and> u < minute (snd i)"

definition day_minutes :: "(int \<times> int) list \<Rightarrow> bool" where
  "day_minutes ivs \<longleftrightarrow> (\<forall>i \<in> set ivs. 0 \<le> fst i \<and> fst i < 1440 \<and> 0 \<le> snd i \<and> snd i < 1440)"

lemma active_interval_find:
  "day_minutes ivs \<Longrightarrow> active_interval u ivs = Inr (map_option (\<lambda>i. (minute (fst i), minute (snd i))) (find (in_minute u) ivs))"
  by (induction u ivs rule: active_interval.induct) (auto simp: day_minutes_def iso_clock_def in_minute_def)

definition plan_apart :: "(int \<times> int) list \<Rightarrow> bool" where
  "plan_apart ivs \<longleftrightarrow> (\<forall>i \<in> set ivs. \<forall>j \<in> set ivs. i = j \<or> snd i \<le> fst j \<or> snd j \<le> fst i)"

lemma minute_mono [simp]: "minute a \<le> minute b \<longleftrightarrow> a \<le> b" "minute a < minute b \<longleftrightarrow> a < b"
  by (simp_all add: minute_def)

lemma active_interval_bounds:
  "active_interval u ivs = Inr (Some (s, e)) \<Longrightarrow> 0 \<le> s \<and> e < clock 24 0 \<and> s \<le> u \<and> u < e"
  by (induction u ivs rule: active_interval.induct)
    (auto simp: iso_clock_def minute_def clock_def elim!: and_then_InrE split: if_splits)

lemma find_Some_in: "find P xs = Some x \<Longrightarrow> x \<in> set xs \<and> P x"
  by (auto simp: find_Some_iff)

text \<open>An interval that is active at one time is the active one during all of it.\<close>

lemma active_interval_stable:
  assumes "active_interval u ivs = Inr (Some (s, e))" and "s \<le> u'" and "u' < e"
    and "(day_minutes ivs \<and> plan_apart ivs) \<or> length ivs = 1"
  shows "active_interval u' ivs = Inr (Some (s, e))"
proof (cases "length ivs = 1")
  case True
  then obtain a b where "ivs = [(a, b)]" by (auto simp: length_Suc_conv numeral_eq_Suc)
  then show ?thesis using assms(1-3) by (auto simp: and_then_def split: sum.splits if_splits)
next
  case False
  then have d: "day_minutes ivs" "plan_apart ivs" using assms(4) by auto
  obtain i where i: "find (in_minute u) ivs = Some i" "s = minute (fst i)" "e = minute (snd i)"
    using assms(1) by (auto simp: active_interval_find [OF d(1)])
  then have m: "i \<in> set ivs" "in_minute u i" "in_minute u' i" using assms(2,3) i(2,3) find_Some_in [OF i(1)] by (auto simp: in_minute_def)
  have "find (in_minute u') ivs \<noteq> None" unfolding find_None_iff using m(1,3) by blast
  then obtain j where j: "find (in_minute u') ivs = Some j" by blast
  then have mj: "j \<in> set ivs" "in_minute u' j" using find_Some_in [OF j] by auto
  have "i = j \<or> snd i \<le> fst j \<or> snd j \<le> fst i" using d(2) m(1) mj(1) by (auto simp: plan_apart_def)
  then have "i = j" using m(3) mj(2) unfolding in_minute_def by (metis minute_mono(1) not_less order_trans)
  then show ?thesis using j i(2,3) m(2) by (simp add: active_interval_find [OF d(1)] in_minute_def)
qed

section \<open>The windows of a plan\<close>

lemma minute_of_range:
  assumes "0 \<le> x" and "x < clock 24 0"
  shows "0 \<le> minute_of x \<and> minute_of x < 1440"
proof -
  have "x div 60000000 \<le> 86399999999 div 60000000" using assms(2) by (intro zdiv_mono1) (simp_all add: clock_def)
  then show ?thesis using assms(1) by (simp add: minute_of_def pos_imp_zdiv_nonneg_iff)
qed

lemma rule_plan_intervals:
  assumes ok: "calendar_ok cal" and r: "r \<in> set (hc_rules cal)"
  shows "day_minutes (intervals_for r d cal) \<and> plan_apart (intervals_for r d cal)"
proof -
  let ?f = "\<lambda>i. (minute_of (iv_start i), minute_of (iv_end i))"
  have sub: "set (intervals_for r d cal) \<subseteq> ?f ` set (rule_intervals (ru_pk r) cal)"
    by (auto simp: intervals_for_def rule_intervals_def Let_def)
  have ap: "apart (rule_intervals (ru_pk r) cal)" using ok r by (simp add: calendar_ok_def rule_ok_def)
  have "?f i = ?f j \<or> snd (?f i) \<le> fst (?f j) \<or> snd (?f j) \<le> fst (?f i)"
    if "i \<in> set (rule_intervals (ru_pk r) cal)" "j \<in> set (rule_intervals (ru_pk r) cal)" for i j
  proof -
    have "i = j \<or> iv_end i \<le> iv_start j \<or> iv_end j \<le> iv_start i" using ap that unfolding apart_def by blast
    then show ?thesis by (auto simp: minute_of_def intro: zdiv_mono1)
  qed
  then have "plan_apart (intervals_for r d cal)" using sub unfolding plan_apart_def by blast
  moreover have "0 \<le> minute_of (iv_start i) \<and> minute_of (iv_start i) < 1440 \<and> 0 \<le> minute_of (iv_end i) \<and> minute_of (iv_end i) < 1440"
    if "i \<in> set (rule_intervals (ru_pk r) cal)" for i
  proof -
    have "0 \<le> iv_start i" "iv_start i < iv_end i" "iv_end i < clock 24 0"
      using ok that by (auto simp: calendar_ok_def rule_intervals_def)
    then show ?thesis using minute_of_range [of "iv_start i"] minute_of_range [of "iv_end i"] by simp
  qed
  then have "day_minutes (intervals_for r d cal)" using sub unfolding day_minutes_def by fastforce
  ultimately show ?thesis by simp
qed

lemma weekly_minutes: "day_minutes [weekly_hours w]" "0 \<le> fst (weekly_hours w)" "fst (weekly_hours w) < 1440"
    "0 \<le> snd (weekly_hours w)" "snd (weekly_hours w) < 1440"
  by (simp_all add: weekly_hours_def day_minutes_def)

lemma split_minutes:
  assumes "0 \<le> fst h" "fst h < 1440" "0 \<le> snd h" "snd h < 1440"
  shows "day_minutes (split_thursday d h) \<and> plan_apart (split_thursday d h)"
  using assms by (auto simp: split_thursday_def day_minutes_def plan_apart_def)

lemma week_intervals:
  assumes "week_resolution d cal = Inr (ivs, why)"
  shows "day_minutes ivs \<and> plan_apart ivs"
proof (cases "active_config cal")
  case None
  then have "ivs = split_thursday d (weekly_hours (weekday d))" using assms by (simp add: week_resolution_def)
  then show ?thesis using split_minutes [OF weekly_minutes(2-5)] by simp
next
  case (Some c)
  show ?thesis
  proof (cases "hours_for_weekday c (weekday d)")
    case None
    then have "ivs = []" using assms Some by (simp add: week_resolution_def)
    then show ?thesis by (simp add: day_minutes_def plan_apart_def)
  next
    case (Some h)
    obtain a b where h: "h = (a, b)" by (cases h)
    let ?h = "if weekday d \<le> 4 \<and> (a, b) = (9, 18) then weekly_hours (weekday d) else (a * 60, b * 60)"
    have e: "ivs = split_thursday d ?h" "0 \<le> a \<and> a \<le> 23 \<and> 0 \<le> b \<and> b \<le> 23"
      using assms \<open>active_config cal = Some c\<close> Some h
      by (auto simp: week_resolution_def time_of_hour_def and_then_def split: if_splits)
    have "day_minutes (split_thursday d ?h) \<and> plan_apart (split_thursday d ?h)"
      by (rule split_minutes) (use e(2) weekly_minutes(2-5) [of "weekday d"] in auto)
    then show ?thesis unfolding e(1) .
  qed
qed

lemma legacy_intervals:
  assumes "legacy_resolution d cal = Inr (ivs, why)"
  shows "(day_minutes ivs \<and> plan_apart ivs) \<or> length ivs = 1"
proof -
  have "week_resolution d cal = Inr (ivs, why) \<or> ivs = [] \<or> length ivs = 1"
    using assms by (auto simp: legacy_resolution_def Let_def split: option.splits if_splits)
  moreover have "day_minutes [] \<and> plan_apart []" by (simp add: day_minutes_def plan_apart_def)
  ultimately show ?thesis using week_intervals by blast
qed

lemma matching_subset: "matching_rules rs d = Inr ms \<Longrightarrow> set ms \<subseteq> set rs"
  by (induction rs arbitrary: ms) (fastforce elim!: and_then_InrE split: if_splits)+

lemma resolve_day_cases:
  assumes "resolve_day s cal d = Inr p"
  obtains (rule) ms r where "matching_rules (active_rules s cal) d = Inr ms" "r \<in> set ms" "p = rule_plan r d cal"
      "\<And>q. q \<in> set ms \<Longrightarrow> ru_kind q = Absence_Rule \<Longrightarrow> ru_kind r = Absence_Rule \<and> ru_priority q \<le> ru_priority r"
  | (legacy) ivs why where "matching_rules (active_rules s cal) d = Inr []" "legacy_resolution d cal = Inr (ivs, why)"
      "p = \<lparr>dp_day = d, dp_state = (if ivs \<noteq> [] then Open_Day else Closed_Day), dp_intervals = ivs, dp_reason = why, dp_message = None, dp_rule = None\<rparr>"
proof -
  obtain ms where ms: "matching_rules (active_rules s cal) d = Inr ms" using assms by (auto simp: resolve_day_def elim!: and_then_InrE)
  let ?absences = "filter (\<lambda>r. ru_kind r = Absence_Rule) ms"
  let ?pool = "if ?absences = [] then ms else ?absences"
  show ?thesis
  proof (cases "first_by rule_rank (\<lambda>_. True) ?pool")
    case None
    then have "ms = []" by (auto simp: first_by_None filter_empty_conv split: if_splits)
    then show ?thesis using assms ms legacy by (auto simp: resolve_day_def first_by_def elim!: and_then_InrE)
  next
    case (Some r)
    then have r: "r \<in> set ?pool" using first_by_Some [OF Some] by simp
    have "p = rule_plan r d cal" using assms ms Some by (simp add: resolve_day_def Let_def)
    moreover have "ru_kind r = Absence_Rule \<and> ru_priority q \<le> ru_priority r" if "q \<in> set ms" "ru_kind q = Absence_Rule" for q
    proof -
      have "q \<in> set ?absences" using that by simp
      then have pool: "?pool = ?absences" by (metis empty_iff list.set(1))
      have "rule_rank r \<le> rule_rank q" using first_by_least [OF Some, of q] \<open>q \<in> set ?absences\<close> by (simp add: pool)
      then show ?thesis using r unfolding pool by (auto simp: rule_rank_def)
    qed
    moreover have "r \<in> set ms" using r by (auto split: if_splits)
    ultimately show ?thesis using rule [OF ms] by blast
  qed
qed

lemma plan_windows:
  assumes "calendar_ok cal" and "resolve_day s cal d = Inr p"
  shows "(day_minutes (dp_intervals p) \<and> plan_apart (dp_intervals p)) \<or> length (dp_intervals p) = 1"
  using assms(2)
proof (cases rule: resolve_day_cases)
  case (rule ms r)
  then have "r \<in> set (hc_rules cal)" using matching_subset active_rules_subset by blast
  then show ?thesis using rule_plan_intervals [OF assms(1)] rule(3)
    by (auto simp: rule_plan_def Let_def day_minutes_def plan_apart_def)
next
  case (legacy ivs why)
  then show ?thesis using legacy_intervals by simp
qed

section \<open>Absences and windows\<close>

lemma current_resolution_cases:
  assumes "current_resolution zs sp cal m = Inr ((p, is_open), w)" and "zs (hs_zone (get_schedule cal)) = Some z"
  obtains (degraded) e where "resolve_day (get_schedule cal) cal (fst (local_moment z m)) = Inl e" "degrades e"
      "p = degraded_plan (moment_day m)" "\<not> is_open" "w = None"
  | (resolved) p0 iv where "resolve_day (get_schedule cal) cal (fst (local_moment z m)) = Inr p0"
      "active_interval (snd (local_moment z m)) (dp_intervals p0) = Inr iv"
      "is_open \<longleftrightarrow> dp_state p0 = Open_Day \<and> iv \<noteq> None" "dp_state p = dp_state p0" "dp_rule p = dp_rule p0"
      "w = (case iv of Some (start, end_at) \<Rightarrow> if is_open then Some \<lparr>ow_start = zn_utc z (fst (local_moment z m), start),
              ow_end = zn_utc z (fst (local_moment z m), end_at), ow_zone = hs_zone (get_schedule cal), ow_rule = map_option fst (dp_rule p0)\<rparr> else None
            | None \<Rightarrow> None)"
proof (cases "resolve_day (get_schedule cal) cal (fst (local_moment z m))")
  case (Inl e)
  then show ?thesis using assms degraded by (auto simp: current_resolution_def zone_of_def Let_def split: if_splits)
next
  case (Inr p0)
  then obtain iv where "active_interval (snd (local_moment z m)) (dp_intervals p0) = Inr iv"
    using assms by (auto simp: current_resolution_def zone_of_def Let_def elim!: and_then_InrE)
  then show ?thesis using assms Inr resolved [OF Inr] by (auto simp: current_resolution_def zone_of_def Let_def)
qed

text \<open>C38: absences prevail.  While an active absence rule covers the local day, the desk is not open and
  has no operational window, whatever service rules of whatever priority also match; the reported rule
  is an absence of at least its priority, unless the calendar could not be read and is degraded.\<close>

theorem absence_prevails:
  assumes "zs (hs_zone (get_schedule cal)) = Some z" and "r \<in> set (active_rules (get_schedule cal) cal)" and "ru_kind r = Absence_Rule"
    and "rule_matches r (fst (local_moment z m)) = Inr True" and "current_resolution zs sp cal m = Inr ((p, is_open), w)"
  shows "\<not> is_open \<and> w = None \<and>
    (dp_reason p = Some Degraded \<or> (dp_state p = Absence_Day \<and> (\<exists>k n prio. dp_rule p = Some (k, n, prio) \<and> ru_priority r \<le> prio)))"
  using assms(5,1)
proof (cases rule: current_resolution_cases)
  case (degraded e)
  then show ?thesis by (simp add: degraded_plan_def)
next
  case (resolved p0 iv)
  let ?d = "fst (local_moment z m)"
  have member: "r \<in> set ms" if "matching_rules rs ?d = Inr ms" "r \<in> set rs" for rs ms
    using that assms(4) by (induction rs arbitrary: ms) (auto elim!: and_then_InrE)
  from resolved(1) show ?thesis
  proof (cases rule: resolve_day_cases)
    case (rule ms q)
    have "ru_kind q = Absence_Rule \<and> ru_priority r \<le> ru_priority q" using rule(4) member [OF rule(1) assms(2)] assms(3) by blast
    then show ?thesis using resolved rule(3) by (auto simp: rule_plan_def Let_def split: option.splits prod.splits)
  next
    case (legacy ivs why)
    then show ?thesis using member [OF legacy(1) assms(2)] by simp
  qed
qed

text \<open>A day without a change of the offset: its midnight is at \<open>base\<close>.\<close>

definition regular_day :: "zone \<Rightarrow> instant \<Rightarrow> day \<Rightarrow> bool" where
  "regular_day z base d \<longleftrightarrow> (\<forall>u. 0 \<le> u \<and> u < clock 24 0 \<longrightarrow> zn_local z (base + u) = (d, u) \<and> zn_utc z (d, u) = base + u)"

text \<open>The operational window is authoritative.  On a day without a change of the offset the desk is
  open at a moment exactly when there is a window, the window contains the moment, and every moment from
  its start up to, but not including, its end has the same window.\<close>

theorem operational_window_half_open:
  assumes "calendar_ok cal" and "zs (hs_zone (get_schedule cal)) = Some z" and "regular_day z base d"
    and "base \<le> t" and "t < base + clock 24 0" and "current_resolution zs sp cal (Aware t dd) = Inr ((p, is_open), w)"
  shows "(is_open \<longleftrightarrow> w \<noteq> None) \<and> (\<forall>win. w = Some win \<longrightarrow> ow_start win \<le> t \<and> t < ow_end win \<and>
    (\<forall>t'. ow_start win \<le> t' \<and> t' < ow_end win \<longrightarrow> resolve_operational_window zs sp cal (Aware t' dd) = Inr (Some win)))"
  using assms(6,2)
proof (cases rule: current_resolution_cases)
  case (degraded e)
  then show ?thesis by simp
next
  case (resolved p0 iv)
  have at: "zn_local z (base + u) = (d, u)" "zn_utc z (d, u) = base + u" if "0 \<le> u" "u < clock 24 0" for u
    using assms(3) that unfolding regular_day_def by blast+
  have local: "zn_local z t = (d, t - base)" using at(1) [of "t - base"] assms(4,5) by simp
  have plan: "resolve_day (get_schedule cal) cal d = Inr p0" using resolved(1) local by simp
  note windows = plan_windows [OF assms(1) plan]
  show ?thesis
  proof (cases iv)
    case None
    then show ?thesis using resolved by simp
  next
    case (Some se)
    then obtain s e where iv: "iv = Some (s, e)" by (cases se) auto
    have found: "active_interval (t - base) (dp_intervals p0) = Inr (Some (s, e))" using resolved(2) iv local by simp
    note bounds = active_interval_bounds [OF found]
    show ?thesis
    proof (cases is_open)
      case False
      then show ?thesis using resolved(6) iv by simp
    next
      case True
      let ?win = "\<lparr>ow_start = base + s, ow_end = base + e, ow_zone = hs_zone (get_schedule cal), ow_rule = map_option fst (dp_rule p0)\<rparr>"
      have ends: "zn_utc z (d, s) = base + s" "zn_utc z (d, e) = base + e" using at(2) bounds by simp_all
      then have w: "w = Some ?win" using resolved(6) iv True local by simp
      have open_day: "dp_state p0 = Open_Day" using resolved(3) True by simp
      have "resolve_operational_window zs sp cal (Aware t' dd) = Inr (Some ?win)" if "base + s \<le> t'" "t' < base + e" for t'
      proof -
        have here: "zn_local z t' = (d, t' - base)" using at(1) [of "t' - base"] that bounds by simp
        have "active_interval (t' - base) (dp_intervals p0) = Inr (Some (s, e))"
          by (rule active_interval_stable [OF found _ _ windows]) (use that in simp_all)
        then show ?thesis
          using plan here ends open_day assms(2)
          by (simp add: resolve_operational_window_def current_resolution_def zone_of_def Let_def)
      qed
      then show ?thesis using w bounds True by simp
    qed
  qed
qed

section \<open>The fallbacks and the calendar\<close>

text \<open>The legacy tables hold hours of the clock, and the hours of a Thursday span the meeting or avoid it.\<close>

definition usable_hours :: "calendar \<Rightarrow> day \<Rightarrow> bool" where
  "usable_hours cal d \<longleftrightarrow>
     (case special_of d cal of None \<Rightarrow> True
      | Some x \<Rightarrow> sx_closed x \<or> (case (sx_start x, sx_end x) of (Some a, Some b) \<Rightarrow> 0 \<le> a \<and> a \<le> 23 \<and> 0 \<le> b \<and> b \<le> 23 | _ \<Rightarrow> True)) \<and>
     (case active_config cal of None \<Rightarrow> True
      | Some c \<Rightarrow> (case hours_for_weekday c (weekday d) of None \<Rightarrow> True
          | Some (a, b) \<Rightarrow> 0 \<le> a \<and> b \<le> 23 \<and> (weekday d = 3 \<longrightarrow> (a < 12 \<and> 13 < b) \<or> b \<le> 12 \<or> 13 \<le> a)))"

lemma split_open:
  assumes "weekday d = 3 \<longrightarrow> (fst h < 720 \<and> 780 < snd h) \<or> snd h \<le> 720 \<or> 780 \<le> fst h"
  shows "find (in_minute u) (split_thursday d h) \<noteq> None \<longleftrightarrow> in_minute u h \<and> \<not> quinta_fire_at (d, u)"
  using assms by (auto simp: split_thursday_def quinta_fire_at_def in_minute_def minute_def clock_def)

lemma hours_for_weekday_less: "hours_for_weekday c w = Some (a, b) \<Longrightarrow> a < b"
  by (auto simp: hours_for_weekday_def split: if_splits prod.splits)

text \<open>The configured hours of a day as both sides read them.\<close>

definition week_hours :: "day \<Rightarrow> calendar \<Rightarrow> (int \<times> int) option" where
  "week_hours d cal =
     (case active_config cal of None \<Rightarrow> Some (weekly_hours (weekday d))
      | Some c \<Rightarrow> map_option (\<lambda>(a, b). if weekday d \<le> 4 \<and> a = 9 \<and> b = 18 then weekly_hours (weekday d) else (a * 60, b * 60))
          (hours_for_weekday c (weekday d)))"

lemma usable_config:
  assumes "usable_hours cal d" and "active_config cal = Some c" and "hours_for_weekday c (weekday d) = Some (a, b)"
  shows "0 \<le> a" "a \<le> 23" "0 \<le> b" "b \<le> 23" "weekday d = 3 \<Longrightarrow> (a < 12 \<and> 13 < b) \<or> b \<le> 12 \<or> 13 \<le> a"
  using assms hours_for_weekday_less [OF assms(3)] by (simp_all add: usable_hours_def)

lemma week_resolution_hours:
  assumes "usable_hours cal d"
  shows "\<exists>why. week_resolution d cal = Inr (case week_hours d cal of None \<Rightarrow> [] | Some h \<Rightarrow> split_thursday d h, why)"
proof (cases "active_config cal")
  case None
  then show ?thesis by (simp add: week_resolution_def week_hours_def)
next
  case (Some c)
  show ?thesis
  proof (cases "hours_for_weekday c (weekday d)")
    case None
    then show ?thesis using Some by (simp add: week_resolution_def week_hours_def)
  next
    case hours: (Some h)
    obtain a b where h: "h = (a, b)" by (cases h)
    then show ?thesis using Some hours usable_config [OF assms Some hours [unfolded h]]
      by (simp add: week_resolution_def week_hours_def time_of_hour_def)
  qed
qed

lemma week_hours_thursday:
  assumes "usable_hours cal d" and "week_hours d cal = Some h" and "weekday d = 3"
  shows "(fst h < 720 \<and> 780 < snd h) \<or> snd h \<le> 720 \<or> 780 \<le> fst h"
proof (cases "active_config cal")
  case None
  then show ?thesis using assms(2,3) by (auto simp: week_hours_def weekly_hours_def)
next
  case (Some c)
  then obtain a b where "hours_for_weekday c (weekday d) = Some (a, b)" using assms(2) by (auto simp: week_hours_def)
  then show ?thesis using usable_config(5) [OF assms(1) Some _ assms(3)] assms(2,3) Some
    by (auto simp: week_hours_def weekly_hours_def split: if_splits)
qed

lemma configured_week_hours:
  assumes "usable_hours cal d"
  shows "configured_hours (Some cal) d = week_hours d cal"
proof (cases "active_config cal")
  case None
  then show ?thesis by (simp add: configured_hours_def week_hours_def)
next
  case (Some c)
  show ?thesis
  proof (cases "hours_for_weekday c (weekday d)")
    case None
    then show ?thesis using Some by (simp add: configured_hours_def week_hours_def)
  next
    case hours: (Some h)
    obtain a b where h: "h = (a, b)" by (cases h)
    then show ?thesis using Some hours usable_config [OF assms Some hours [unfolded h]]
      by (simp add: configured_hours_def week_hours_def hours_of_times_def time_of_hour_def Let_def)
  qed
qed

lemma fallback_resolution:
  assumes "usable_hours cal d"
  obtains ivs why where "legacy_resolution d cal = Inr (ivs, why)" and "day_minutes ivs"
    and "find (in_minute u) ivs \<noteq> None \<longleftrightarrow> agent_fallback (Some cal) (d, u) (d, u)"
proof -
  let ?ivs = "case week_hours d cal of None \<Rightarrow> [] | Some h \<Rightarrow> split_thursday d h"
  obtain why where week: "week_resolution d cal = Inr (?ivs, why)" using week_resolution_hours [OF assms] by blast
  have week_minutes: "day_minutes ?ivs" using week_intervals [OF week] by simp
  have week_open: "find (in_minute u) ?ivs \<noteq> None \<longleftrightarrow> \<not> quinta_fire_at (d, u) \<and> (\<exists>h. week_hours d cal = Some h \<and> in_minute u h)"
  proof (cases "week_hours d cal")
    case (Some h)
    then show ?thesis using split_open [of d h u] week_hours_thursday [OF assms Some] by auto
  qed simp
  let ?open = "\<not> is_holiday_at (d, u) \<and> \<not> quinta_fire_at (d, u) \<and> (\<exists>h. week_hours d cal = Some h \<and> in_minute u h)"
  let ?rest = "if d \<in> set holidays then Inr ([], Some (Holiday d)) else week_resolution d cal"
  have rest: "\<exists>ivs why. ?rest = Inr (ivs, why) \<and> day_minutes ivs \<and> (find (in_minute u) ivs \<noteq> None \<longleftrightarrow> ?open)"
    using week week_minutes week_open by (auto simp: is_holiday_at_def day_minutes_def)
  note fb = agent_fallback_def hours_for_today_def Let_def configured_week_hours [OF assms]
  show ?thesis
  proof (cases "special_of d cal")
    case None
    then have "agent_fallback (Some cal) (d, u) (d, u) \<longleftrightarrow> ?open"
      by (auto simp: fb in_minute_def split: option.splits)
    then show ?thesis using rest None that by (auto simp: legacy_resolution_def)
  next
    case (Some x)
    show ?thesis
    proof (cases "sx_closed x")
      case True
      have "\<exists>why. legacy_resolution d cal = Inr ([], why)" using Some True by (simp add: legacy_resolution_def Let_def)
      moreover have "\<not> agent_fallback (Some cal) (d, u) (d, u)" using Some True by (simp add: fb)
      ultimately show ?thesis using that [of "[]"] by (auto simp: day_minutes_def)
    next
      case open_special: False
      show ?thesis
      proof (cases "sx_start x = None \<or> sx_end x = None")
        case True
        then have "agent_fallback (Some cal) (d, u) (d, u) \<longleftrightarrow> ?open"
          using Some open_special by (auto simp: fb in_minute_def split: option.splits)
        moreover have "legacy_resolution d cal = ?rest"
          using Some open_special True by (auto simp: legacy_resolution_def Let_def split: option.splits)
        ultimately show ?thesis using rest that by auto
      next
        case False
        then obtain a b where ab: "sx_start x = Some a" "sx_end x = Some b" by auto
        have r: "0 \<le> a" "a \<le> 23" "0 \<le> b" "b \<le> 23" using assms Some open_special ab by (simp_all add: usable_hours_def)
        have "legacy_resolution d cal = Inr ([(a * 60, b * 60)], text_reason (sx_reason x))"
          using Some open_special ab by (simp add: legacy_resolution_def Let_def)
        moreover have "agent_fallback (Some cal) (d, u) (d, u) \<longleftrightarrow> in_minute u (a * 60, b * 60)"
          using Some open_special ab r by (simp add: fb hours_of_times_def time_of_hour_def in_minute_def)
        ultimately show ?thesis using that [of "[(a * 60, b * 60)]"] r by (simp add: day_minutes_def)
      qed
    qed
  qed
qed

lemma calendar_answer_fallback:
  assumes "zs (hs_zone (get_schedule cal)) = Some z" and "zn_local z t = (d, u)"
    and "matching_rules (active_rules (get_schedule cal) cal) d = Inr []" and "usable_hours cal d"
  shows "\<exists>p. calendar_answer zs sp (Some cal) (Aware t dd) = Some (p, agent_fallback (Some cal) (d, u) (d, u))"
proof -
  obtain ivs why where l: "legacy_resolution d cal = Inr (ivs, why)" "day_minutes ivs"
      "find (in_minute u) ivs \<noteq> None \<longleftrightarrow> agent_fallback (Some cal) (d, u) (d, u)"
    using fallback_resolution [OF assms(4)] .
  have "ivs \<noteq> []" if "find (in_minute u) ivs \<noteq> None" using that by auto
  then show ?thesis
    using assms(1-3) l
    by (auto simp: calendar_answer_def resolve_now_def current_resolution_def zone_of_def Let_def resolve_day_def first_by_def
        active_interval_find split: option.splits)
qed

text \<open>C39: the fallbacks compute what the calendar computes.  When the schedule is kept in the zone the fallbacks use
  (the desk's and the process's zone are one), no rule of the calendar covers the day, and the day's configured hours lie
  within the day and, on a Thursday, either contain the meeting or do not meet it (\<open>usable_hours\<close>), the calendar
  answers exactly what the fallback of the agents' hours answers from the same tables; when the day in addition has no
  special schedule and no configuration is active, exactly what the fallback of the business rules answers.\<close>

theorem fallbacks_agree:
  assumes "zs (hs_zone (get_schedule cal)) = Some sp" and "zn_local sp t = (d, u)"
    and "matching_rules (active_rules (get_schedule cal) cal) d = Inr []" and "usable_hours cal d"
  shows "agent_business_hours zs sp sp (Some cal) t = agent_fallback (Some cal) (d, u) (d, u) \<and>
    (special_of d cal = None \<and> active_config cal = None \<longrightarrow>
       is_business_hours zs sp (Some cal) (Aware t dd) = is_business_hours zs sp None (Aware t dd) \<and>
       agent_business_hours zs sp sp (Some cal) t = is_business_hours zs sp None (Aware t dd))"
proof -
  obtain p where "calendar_answer zs sp (Some cal) (Aware t (fst (zn_local sp t))) = Some (p, agent_fallback (Some cal) (d, u) (d, u))"
    using calendar_answer_fallback [of zs cal sp t d u, OF assms] by blast
  then have agents: "agent_business_hours zs sp sp (Some cal) t = agent_fallback (Some cal) (d, u) (d, u)" by (simp add: agent_business_hours_def)
  obtain p' where "calendar_answer zs sp (Some cal) (Aware t dd) = Some (p', agent_fallback (Some cal) (d, u) (d, u))"
    using calendar_answer_fallback [of zs cal sp t d u, OF assms] by blast
  then have rules: "is_business_hours zs sp (Some cal) (Aware t dd) = agent_fallback (Some cal) (d, u) (d, u)" by (simp add: is_business_hours_def)
  have "is_business_hours zs sp None (Aware t dd) = fallback_hours (d, u)" by (simp add: is_business_hours_def calendar_answer_def assms(2))
  moreover have "agent_fallback (Some cal) (d, u) (d, u) = fallback_hours (d, u)" if "special_of d cal = None" "active_config cal = None"
    using that by (auto simp: agent_fallback_def hours_for_today_def configured_hours_def fallback_hours_def weekly_open_def split: prod.splits)
  ultimately show ?thesis using agents rules by simp
qed

section \<open>Ranges\<close>

lemma resolve_day_day: "resolve_day s cal d = Inr p \<Longrightarrow> dp_day p = d"
  by (elim resolve_day_cases) (simp_all add: rule_plan_def Let_def)

lemma resolve_days_days: "resolve_days s cal ds = Inr ps \<Longrightarrow> map dp_day ps = ds"
  by (induction ds arbitrary: ps) (auto elim!: and_then_InrE dest: resolve_day_day)

text \<open>A range covers its days.  An answered range is ordered and at most 367 days long and has one
  entry for each day from its start to its end, in order; a degraded range keeps every one of them closed.\<close>

theorem range_covers_its_days:
  assumes "valid_day start" and "resolve_range zs cal start end_day = Inr (s, ps, degraded)"
  shows "start \<le> end_day \<and> length ps \<le> 367 \<and> map (\<lambda>p. toordinal (dp_day p)) ps = [toordinal start..toordinal end_day] \<and>
    (degraded \<longrightarrow> (\<forall>p \<in> set ps. dp_state p = Closed_Day \<and> dp_intervals p = []))"
proof -
  let ?n = "nat (toordinal end_day - toordinal start + 1)"
  let ?days = "days_from start ?n"
  have ordered: "start \<le> end_day" "toordinal end_day - toordinal start \<le> 366"
    using assms(2) by (auto simp: resolve_range_def split: if_splits)
  have "map dp_day ps = ?days \<and> (degraded \<longrightarrow> (\<forall>p \<in> set ps. dp_state p = Closed_Day \<and> dp_intervals p = []))"
    using assms(2) ordered
    by (auto simp: resolve_range_def Let_def degraded_plan_def o_def elim!: and_then_InrE dest: resolve_days_days split: sum.splits if_splits)
  then have days: "map dp_day ps = ?days" and closed: "degraded \<longrightarrow> (\<forall>p \<in> set ps. dp_state p = Closed_Day \<and> dp_intervals p = [])" by auto
  have "map (\<lambda>p. toordinal (dp_day p)) ps = map toordinal (map dp_day ps)" by simp
  also have "\<dots> = map (\<lambda>k. toordinal start + int k) [0..<?n]" by (simp only: days days_from_ordinals(1) [OF assms(1)])
  also have "\<dots> = [toordinal start..toordinal end_day]" by (simp add: list_eq_iff_nth_eq)
  finally have ords: "map (\<lambda>p. toordinal (dp_day p)) ps = [toordinal start..toordinal end_day]" .
  then have "length ps = ?n" by (metis length_map length_days_from days)
  then show ?thesis using ords ordered closed by simp
qed

section \<open>Where the answers differ\<close>

text \<open>A service rule opens a holiday, but the reason for being closed still names the holiday.\<close>

definition sp_day :: "day \<Rightarrow> instant \<Rightarrow> zone" where
  "sp_day d base = \<lparr>zn_local = \<lambda>t. (d, t - base), zn_utc = \<lambda>l. base + snd l\<rparr>"

lemma open_holiday_has_reason:
  "let z = sp_day (2026, 4, 21) 0; t = Aware (clock 10 0) (2026, 4, 21)
   in is_business_hours (\<lambda>_. Some z) z (Some week_calendar) t \<and>
      off_hours_reason (\<lambda>_. Some z) z (Some week_calendar) t = Some (Holiday (2026, 4, 21))"
  by code_simp

text \<open>Hours of a Thursday that begin or end in the meeting are not cut: the calendar is open during it,
  the fallback of the agents is not.\<close>

definition thursday_config :: calendar where
  "thursday_config = empty_calendar\<lparr>hc_configs := [\<lparr>bh_pk = 0, bh_active = True, bh_hours = replicate 7 (8, 13)\<rparr>]\<rparr>"

lemma short_thursday_ignores_meeting:
  "let z = sp_day (2026, 3, 5) 0; t = clock 12 30
   in agent_business_hours (\<lambda>_. Some z) z z (Some thursday_config) t \<and>
      \<not> agent_fallback (Some thursday_config) (zn_local z t) (zn_local z t)"
  by code_simp

text \<open>The seconds of an interval are lost: one inside a minute makes the day open at no time.\<close>

lemma seconds_of_intervals_lost:
  "let q = weekday_request\<lparr>rq_intervals := [(clock 9 0 + seconds 10, clock 9 0 + seconds 50)]\<rparr>; cal = edit_step (Save q None None) empty_calendar
   in valid_request q \<and> map_sum id (\<lambda>p. (dp_state p, dp_intervals p)) (resolve_day (get_schedule cal) cal (2026, 3, 2)) = Inr (Open_Day, [(540, 540)])"
  by code_simp

text \<open>A special schedule up to 24 hours, which its request admits, never opens.\<close>

lemma special_until_midnight_never_opens:
  "active_interval u [(a * 60, 24 * 60)] = Inr (Some i) \<Longrightarrow> \<not> (0 \<le> a \<and> a \<le> 23)"
  by (auto simp: iso_clock_def minute_def and_then_def split: if_splits)

section \<open>Witnesses\<close>

definition retreat_calendar :: calendar where
  "retreat_calendar = edit_step (Save retreat_request None None) week_calendar"

lemma retreat_calendar_ok: "calendar_ok retreat_calendar"
  unfolding retreat_calendar_def by (rule edit_step_ok [OF week_calendar_ok(1)]) code_simp

theorem absence_prevails_witness:
  "let z = sp_day (2026, 3, 3) 0; r = current_resolution (\<lambda>_. Some z) z retreat_calendar (Aware (clock 10 0) (2026, 3, 3))
   in map_sum id snd r = Inr None"
proof -
  let ?z = "sp_day (2026, 3, 3) 0" and ?m = "Aware (clock 10 0) (2026, 3, 3)"
  let ?r = "the (rule_of 2 retreat_calendar)"
  let ?c = "current_resolution (\<lambda>_. Some ?z) ?z retreat_calendar ?m"
  have "?r \<in> set (active_rules (get_schedule retreat_calendar) retreat_calendar)" "ru_kind ?r = Absence_Rule"
    "rule_matches ?r (fst (local_moment ?z ?m)) = Inr True" by code_simp+
  note prevails = absence_prevails [of "\<lambda>_. Some ?z", OF refl this]
  have "is_ok ?c" by code_simp
  then obtain p b w where c: "?c = Inr ((p, b), w)" by (cases ?c) auto
  then show ?thesis using prevails [OF c] by simp
qed

theorem operational_window_half_open_witness:
  "let z = sp_day (2026, 3, 2) 1000
   in resolve_operational_window (\<lambda>_. Some z) z week_calendar (Aware (1000 + clock 11 59) (2026, 3, 2)) =
      resolve_operational_window (\<lambda>_. Some z) z week_calendar (Aware (1000 + clock 9 0) (2026, 3, 2))"
proof -
  let ?z = "sp_day (2026, 3, 2) 1000" and ?d = "(2026, 3, 2) :: day"
  let ?c = "\<lambda>t. current_resolution (\<lambda>_. Some ?z) ?z week_calendar (Aware t ?d)"
  have reg: "regular_day ?z 1000 ?d" by (simp add: regular_day_def sp_day_def)
  have "map_sum id snd (?c (1000 + clock 9 0)) =
      Inr (Some \<lparr>ow_start = 1000 + clock 9 0, ow_end = 1000 + clock 12 0, ow_zone = default_zone, ow_rule = Some 1\<rparr>)" by code_simp
  then obtain p b where c: "?c (1000 + clock 9 0) =
      Inr ((p, b), Some \<lparr>ow_start = 1000 + clock 9 0, ow_end = 1000 + clock 12 0, ow_zone = default_zone, ow_rule = Some 1\<rparr>)"
    by (cases "?c (1000 + clock 9 0)") auto
  have t: "(1000 :: int) \<le> 1000 + clock 9 0" "1000 + clock 9 0 < 1000 + clock 24 0" by (simp_all add: clock_def)
  show ?thesis
    using operational_window_half_open [of week_calendar "\<lambda>_. Some ?z", OF week_calendar_ok(1) refl reg t c] c
    by (simp add: Let_def resolve_operational_window_def clock_def)
qed

theorem fallbacks_agree_witness:
  "let z = sp_day (2026, 3, 5) 0; t = clock 12 30
   in \<not> agent_business_hours (\<lambda>_. Some z) z z (Some empty_calendar) t \<and> \<not> is_business_hours (\<lambda>_. Some z) z None (Aware t (2026, 3, 5))"
proof -
  let ?z = "sp_day (2026, 3, 5) 0" and ?t = "clock 12 30"
  have a: "zn_local ?z ?t = ((2026, 3, 5), clock 12 30)"
    "matching_rules (active_rules (get_schedule empty_calendar) empty_calendar) (2026, 3, 5) = Inr []" "usable_hours empty_calendar (2026, 3, 5)"
    by code_simp+
  have n: "\<not> agent_fallback (Some empty_calendar) ((2026, 3, 5), clock 12 30) ((2026, 3, 5), clock 12 30)"
    "special_of (2026, 3, 5) empty_calendar = None" "active_config empty_calendar = None" by code_simp+
  show ?thesis using fallbacks_agree [of "\<lambda>_. Some ?z" empty_calendar ?z, OF refl a] n unfolding Let_def by simp
qed

theorem range_covers_its_days_witness:
  "map_sum id (\<lambda>(s, ps, b). map dp_state ps) (resolve_range (\<lambda>_. None) week_calendar (2026, 2, 27) (2026, 3, 1)) = Inr [Closed_Day, Closed_Day, Closed_Day] \<and>
   map_sum id (\<lambda>(s, ps, b). map (\<lambda>p. toordinal (dp_day p)) ps) (resolve_range (\<lambda>_. None) week_calendar (2026, 2, 27) (2026, 3, 1)) =
     Inr [toordinal (2026, 2, 27)..toordinal (2026, 3, 1)]"
proof -
  let ?r = "resolve_range (\<lambda>_. None) week_calendar (2026, 2, 27) (2026, 3, 1)"
  have states: "map_sum id (\<lambda>(s, ps, b). map dp_state ps) ?r = Inr [Closed_Day, Closed_Day, Closed_Day]" by code_simp
  then obtain s ps b where r: "?r = Inr (s, ps, b)" by (cases ?r) auto
  have "valid_day (2026, 2, 27)" by code_simp
  from range_covers_its_days [OF this r] states r show ?thesis by simp
qed

end
