(* ===== verification/N8n_Outbox.thy ===== *)
theory N8n_Outbox
  imports Interfaces Py_Text
begin

text \<open>
  The delivery of messages to n8n: the tables of \<open>apps/webhooks/models.py\<close> it works on and
  \<open>apps/webhooks/n8n_outbox.py\<close>.  A delivery claims an outbox row and the lease of its thread in one
  transaction, posts without holding a lock and records the outcome in another; \<open>delivery\<close> is one step of
  one worker, and a list of them is an interleaving.  Settings in seconds are durations, the random part
  of a delay, the answer of n8n and the HMAC are arguments.  A JSON body is the record of the fields
  the code reads or writes.  Left out: metrics, logging and the fixed
  message that follows the kind in the stored error.
\<close>

section \<open>Tables\<close>

record n8n_settings =
  n8_enabled :: bool
  n8_url :: string
  n8_secret :: string
  n8_connect :: instant
  n8_read :: instant
  n8_stale :: instant
  n8_retry_base :: instant
  n8_retry_max :: instant
  n8_batch :: nat
  n8_max_attempts :: nat
  n8_bot_sender :: string
  n8_portal :: string
  n8_reconcile_enabled :: bool
  n8_reconcile_batch :: nat
  n8_interval :: instant
  n8_lookback :: instant

datatype delivery_method = By_Webhook | By_Reconciliation
datatype ledger_status = Lg_Received | Lg_Ready | Lg_Ignored | Lg_Error

record webhook_event =
  we_pk :: uuid
  we_key :: "string option"
  we_object :: string
  we_portal :: string
  we_thread :: string
  we_ticket :: string
  we_contact :: string
  we_message :: "string option"
  we_message_type :: string
  we_method :: delivery_method
  we_occurred :: "instant option"
  we_status :: ledger_status
  we_ignored :: string
  we_body :: string
  we_evidence :: "string option"
  we_processed :: bool
  we_processed_at :: "instant option"
  we_error :: string

record n8n_payload =
  pl_event :: uuid
  pl_message :: string
  pl_occurred :: "instant option"
  pl_portal :: string
  pl_thread :: string
  pl_ticket :: "string option"
  pl_method :: delivery_method
  pl_text :: string
  pl_sender :: string
  pl_email :: "string option"
  pl_phone :: "string option"
  pl_identifier :: "string option"
  pl_key :: string

datatype outbox_status = Ox_Pending | Ox_Processing | Ox_Retry | Ox_Delivered | Ox_Dead | Ox_Cancelled

record outbox =
  ox_pk :: uuid
  ox_event :: uuid
  ox_key :: string
  ox_payload :: n8n_payload
  ox_status :: outbox_status
  ox_attempts :: nat
  ox_max :: nat
  ox_available :: instant
  ox_locked :: "instant option"
  ox_delivered_at :: "instant option"
  ox_dead_at :: "instant option"
  ox_error :: string
  ox_http :: "int option"
  ox_created :: instant

record thread_lock =
  tl_thread :: string
  tl_outbox :: "uuid option"
  tl_locked :: "instant option"

record n8n =
  nn_events :: "webhook_event list"
  nn_outbox :: "outbox list"
  nn_locks :: "thread_lock list"
  nn_next_pk :: uuid

definition event_row :: "uuid \<Rightarrow> n8n \<Rightarrow> webhook_event option" where
  "event_row k s = get_row we_pk k (nn_events s)"

definition outbox_row :: "uuid \<Rightarrow> n8n \<Rightarrow> outbox option" where
  "outbox_row k s = get_row ox_pk k (nn_outbox s)"

definition put_outbox :: "outbox \<Rightarrow> n8n \<Rightarrow> n8n" where
  "put_outbox x s = s\<lparr>nn_outbox := save_row ox_pk x (nn_outbox s)\<rparr>"

section \<open>Delays and the thread\<close>

definition tenth_of_second :: instant where
  "tenth_of_second = 100000"

definition retry_delay :: "n8n_settings \<Rightarrow> instant \<Rightarrow> nat \<Rightarrow> instant" where
  "retry_delay cfg jitter attempt =
     (let base = max (n8_retry_base cfg) tenth_of_second;
          cap = max (n8_retry_max cfg) base;
          exponential = min (base * 2 ^ (attempt - 1)) cap
      in min (exponential + jitter) cap)"

text \<open>The random draw is between 0 and the exponential part.\<close>

definition admissible_jitter :: "n8n_settings \<Rightarrow> nat \<Rightarrow> instant \<Rightarrow> bool" where
  "admissible_jitter cfg attempt jitter \<longleftrightarrow> 0 \<le> jitter \<and>
     jitter \<le> min (max (n8_retry_base cfg) tenth_of_second * 2 ^ (attempt - 1)) (max (n8_retry_max cfg) (max (n8_retry_base cfg) tenth_of_second))"

definition processing_stale :: "n8n_settings \<Rightarrow> instant" where
  "processing_stale cfg = max (n8_stale cfg) (2 * (n8_connect cfg + n8_read cfg) + seconds 30)"

definition thread_of :: "outbox \<Rightarrow> n8n \<Rightarrow> string" where
  "thread_of x s = strip (if pl_thread (ox_payload x) \<noteq> [] then pl_thread (ox_payload x)
     else case event_row (ox_event x) s of None \<Rightarrow> [] | Some e \<Rightarrow> we_thread e)"

section \<open>Claiming\<close>

record delivery_claim =
  cm_outbox :: uuid
  cm_event :: uuid
  cm_key :: string
  cm_payload :: n8n_payload
  cm_attempt :: nat
  cm_max :: nat
  cm_thread :: string

definition lock_of :: "string \<Rightarrow> thread_lock list \<Rightarrow> thread_lock option" where
  "lock_of thread locks = get_row tl_thread thread locks"

definition lock_refuses :: "instant \<Rightarrow> instant \<Rightarrow> uuid \<Rightarrow> thread_lock \<Rightarrow> bool" where
  "lock_refuses stale now k l \<longleftrightarrow> tl_outbox l \<noteq> None \<and> tl_outbox l \<noteq> Some k \<and> (case tl_locked l of None \<Rightarrow> False | Some t \<Rightarrow> now - stale < t)"

text \<open>\<open>get_or_create\<close> of the thread's lease, and its acquisition for an outbox row.\<close>

definition take_thread :: "instant \<Rightarrow> string \<Rightarrow> uuid \<Rightarrow> instant \<Rightarrow> thread_lock list \<Rightarrow> thread_lock list option" where
  "take_thread stale thread k now locks =
     (case get_or_create tl_thread \<lparr>tl_thread = thread, tl_outbox = None, tl_locked = None\<rparr> locks of (locks1, l, created) \<Rightarrow>
        (if lock_refuses stale now k l then None else Some (save_row tl_thread (l\<lparr>tl_outbox := Some k, tl_locked := Some now\<rparr>) locks1)))"

definition release_thread :: "string \<Rightarrow> uuid \<Rightarrow> thread_lock list \<Rightarrow> thread_lock list" where
  "release_thread thread k locks =
     (case lock_of thread locks of
        None \<Rightarrow> locks
      | Some l \<Rightarrow> (if tl_outbox l = Some k then save_row tl_thread (l\<lparr>tl_outbox := None, tl_locked := None\<rparr>) locks else locks))"

definition claimable :: "instant \<Rightarrow> instant \<Rightarrow> outbox \<Rightarrow> bool" where
  "claimable stale now x \<longleftrightarrow> ox_status x \<notin> {Ox_Delivered, Ox_Dead, Ox_Cancelled} \<and>
     \<not> (ox_status x = Ox_Processing \<and> (case ox_locked x of None \<Rightarrow> False | Some t \<Rightarrow> now - stale < t)) \<and> ox_available x \<le> now"

definition claimed :: "instant \<Rightarrow> outbox \<Rightarrow> outbox" where
  "claimed now x = x\<lparr>ox_status := Ox_Processing, ox_locked := Some now, ox_attempts := ox_attempts x + 1\<rparr>"

definition claim_outbox_event :: "n8n_settings \<Rightarrow> instant \<Rightarrow> uuid \<Rightarrow> n8n \<Rightarrow> n8n \<times> delivery_claim option" where
  "claim_outbox_event cfg now k s =
     (case outbox_row k s of
        None \<Rightarrow> (s, None)
      | Some x \<Rightarrow>
          (if \<not> claimable (processing_stale cfg) now x \<or> thread_of x s = [] then (s, None)
           else case take_thread (processing_stale cfg) (thread_of x s) k now (nn_locks s) of
                  None \<Rightarrow> (s, None)
                | Some locks \<Rightarrow>
                    ((put_outbox (claimed now x) s)\<lparr>nn_locks := locks\<rparr>,
                     Some \<lparr>cm_outbox = k, cm_event = ox_event x, cm_key = ox_key x, cm_payload = ox_payload x,
                       cm_attempt = ox_attempts x + 1, cm_max = ox_max x, cm_thread = thread_of x s\<rparr>)))"

section \<open>Answers\<close>

datatype failure_kind = Authentication | Rate_Limit | N8n_Error | Timeout | Connection | Rejected | Invalid_Response

record delivery_failure =
  df_kind :: failure_kind
  df_retryable :: bool
  df_http :: "int option"
  df_unconfigured :: bool

text \<open>The body of an answer: not JSON, JSON other than an object, or the status and event id of one.\<close>

datatype answer_body = Not_Json | Not_Object | Accepting string string
datatype answer = Timed_Out | Unreachable | Answered int answer_body

definition failure :: "failure_kind \<Rightarrow> bool \<Rightarrow> int option \<Rightarrow> delivery_failure" where
  "failure kind retryable http = \<lparr>df_kind = kind, df_retryable = retryable, df_http = http, df_unconfigured = False\<rparr>"

fun validate_success :: "answer_body \<Rightarrow> int \<Rightarrow> string \<Rightarrow> delivery_failure option" where
  "validate_success (Accepting status event) code expected =
     (if status = ''accepted'' \<and> event = expected then None else Some (failure Invalid_Response True (Some code)))"
| "validate_success _ code expected = Some (failure Invalid_Response True (Some code))"

definition classify_response :: "int \<Rightarrow> answer_body \<Rightarrow> string \<Rightarrow> delivery_failure option" where
  "classify_response code body expected =
     (if 200 \<le> code \<and> code < 300 then validate_success body code expected
      else if code = 429 then Some (failure Rate_Limit True (Some code))
      else if 500 \<le> code \<or> code \<in> {408, 425} then Some (failure N8n_Error True (Some code))
      else if code \<in> {401, 403} then Some (failure Authentication True (Some code))
      else Some (failure Rejected False (Some code)))"

fun outcome_of :: "answer \<Rightarrow> string \<Rightarrow> delivery_failure option" where
  "outcome_of Timed_Out expected = Some (failure Timeout True None)"
| "outcome_of Unreachable expected = Some (failure Connection True None)"
| "outcome_of (Answered code body) expected = classify_response code body expected"

section \<open>Recording the outcome\<close>

fun kind_text :: "failure_kind \<Rightarrow> string" where
  "kind_text Authentication = ''authentication_configuration''"
| "kind_text Rate_Limit = ''rate_limit''"
| "kind_text N8n_Error = ''n8n_error''"
| "kind_text Timeout = ''timeout''"
| "kind_text Connection = ''connection''"
| "kind_text Rejected = ''payload_rejected''"
| "kind_text Invalid_Response = ''invalid_response''"

definition release_claim :: "delivery_claim \<Rightarrow> n8n \<Rightarrow> n8n" where
  "release_claim c s = s\<lparr>nn_locks := release_thread (cm_thread c) (cm_outbox c) (nn_locks s)\<rparr>"

definition delivered :: "instant \<Rightarrow> int \<Rightarrow> outbox \<Rightarrow> outbox" where
  "delivered now http x = x\<lparr>ox_status := Ox_Delivered, ox_delivered_at := Some now, ox_locked := None, ox_error := [], ox_http := Some http\<rparr>"

definition record_success :: "instant \<Rightarrow> delivery_claim \<Rightarrow> int \<Rightarrow> n8n \<Rightarrow> n8n result" where
  "record_success now c http s =
     (case outbox_row (cm_outbox c) s of
        None \<Rightarrow> Inl DoesNotExist
      | Some x \<Rightarrow> Inr (release_claim c (if ox_status x = Ox_Delivered then s else put_outbox (delivered now http x) s)))"

definition failed_delivery :: "n8n_settings \<Rightarrow> instant \<Rightarrow> instant \<Rightarrow> delivery_claim \<Rightarrow> delivery_failure \<Rightarrow> outbox \<Rightarrow> outbox" where
  "failed_delivery cfg now jitter c f x =
     (let exhausted = (\<not> df_unconfigured f \<and> cm_max c \<le> cm_attempt c);
          x1 = (if df_unconfigured f then x\<lparr>ox_attempts := ox_attempts x - 1\<rparr> else x);
          x2 = (if \<not> df_retryable f \<or> exhausted then x1\<lparr>ox_status := Ox_Dead, ox_dead_at := Some now, ox_available := now\<rparr>
                else x1\<lparr>ox_status := Ox_Retry, ox_available := now + retry_delay cfg jitter (max (cm_attempt c) 1)\<rparr>)
      in x2\<lparr>ox_locked := None, ox_error := kind_text (df_kind f), ox_http := df_http f\<rparr>)"

definition record_failure :: "n8n_settings \<Rightarrow> instant \<Rightarrow> instant \<Rightarrow> delivery_claim \<Rightarrow> delivery_failure \<Rightarrow> n8n \<Rightarrow> n8n result" where
  "record_failure cfg now jitter c f s =
     (case outbox_row (cm_outbox c) s of
        None \<Rightarrow> Inl DoesNotExist
      | Some x \<Rightarrow> Inr (release_claim c (if ox_status x = Ox_Delivered then s else put_outbox (failed_delivery cfg now jitter c f x) s)))"

definition unconfigured :: "n8n_settings \<Rightarrow> bool" where
  "unconfigured cfg \<longleftrightarrow> strip (n8_url cfg) = [] \<or> n8_secret cfg = []"

text \<open>What the worker of a claim does once it has the answer.\<close>

definition conclude_delivery :: "n8n_settings \<Rightarrow> instant \<Rightarrow> instant \<Rightarrow> answer \<Rightarrow> delivery_claim \<Rightarrow> n8n \<Rightarrow> (n8n \<times> bool) result" where
  "conclude_delivery cfg now jitter ans c s =
     (if unconfigured cfg
      then and_then (record_failure cfg now jitter c \<lparr>df_kind = Authentication, df_retryable = True, df_http = None, df_unconfigured = True\<rparr> s)
             (\<lambda>s'. Inr (s', False))
      else case outcome_of ans (nat_text (cm_event c)) of
             None \<Rightarrow> (case ans of Answered code body \<Rightarrow> and_then (record_success now c code s) (\<lambda>s'. Inr (s', True)) | _ \<Rightarrow> Inr (s, False))
           | Some f \<Rightarrow> and_then (record_failure cfg now jitter c f s) (\<lambda>s'. Inr (s', False)))"

definition deliver_outbox_event :: "n8n_settings \<Rightarrow> instant \<Rightarrow> instant \<Rightarrow> instant \<Rightarrow> answer \<Rightarrow> uuid \<Rightarrow> n8n \<Rightarrow> (n8n \<times> bool) result" where
  "deliver_outbox_event cfg now later jitter ans k s =
     (if \<not> n8_enabled cfg then Inr (s, False)
      else case claim_outbox_event cfg now k s of
             (s1, None) \<Rightarrow> Inr (s1, False)
           | (s1, Some c) \<Rightarrow> conclude_delivery cfg later jitter ans c s1)"

section \<open>The dispatcher\<close>

definition due :: "n8n_settings \<Rightarrow> instant \<Rightarrow> outbox \<Rightarrow> bool" where
  "due cfg now x \<longleftrightarrow> (ox_status x \<in> {Ox_Pending, Ox_Retry} \<or>
      (ox_status x = Ox_Processing \<and> (case ox_locked x of None \<Rightarrow> False | Some t \<Rightarrow> t \<le> now - processing_stale cfg))) \<and> ox_available x \<le> now"

definition due_outbox_ids :: "n8n_settings \<Rightarrow> instant \<Rightarrow> nat \<Rightarrow> n8n \<Rightarrow> uuid list" where
  "due_outbox_ids cfg now limit s =
     map ox_pk (take limit (sort_key (\<lambda>x. (ox_available x, ox_created x)) (filter (due cfg now) (nn_outbox s))))"

definition pending_outbox_count :: "n8n \<Rightarrow> nat" where
  "pending_outbox_count s = count_rows (\<lambda>x. ox_status x \<in> {Ox_Pending, Ox_Retry, Ox_Processing}) (nn_outbox s)"

text \<open>The request of a delivery: exact bytes, signed with the time.\<close>

record post =
  ps_body :: n8n_payload
  ps_event :: string
  ps_key :: string
  ps_time :: string
  ps_signature :: string
  ps_attempt :: nat

definition sign_payload :: "(string \<Rightarrow> string \<Rightarrow> string) \<Rightarrow> string \<Rightarrow> string \<Rightarrow> string \<Rightarrow> string" where
  "sign_payload hmac secret time body = ''sha256='' @ hmac secret (time @ ''.'' @ body)"

definition request_of :: "(string \<Rightarrow> string \<Rightarrow> string) \<Rightarrow> (n8n_payload \<Rightarrow> string) \<Rightarrow> n8n_settings \<Rightarrow> instant \<Rightarrow> delivery_claim \<Rightarrow> post" where
  "request_of hmac serialize cfg now c =
     (let time = int_text (now div seconds 1)
      in \<lparr>ps_body = cm_payload c, ps_event = nat_text (cm_event c), ps_key = cm_key c, ps_time = time,
          ps_signature = sign_payload hmac (n8_secret cfg) time (serialize (cm_payload c)), ps_attempt = cm_attempt c\<rparr>)"

section \<open>The lease of a thread\<close>

definition thread_holder :: "instant \<Rightarrow> string \<Rightarrow> thread_lock list \<Rightarrow> instant \<Rightarrow> uuid option" where
  "thread_holder stale thread locks now =
     (case lock_of thread locks of
        None \<Rightarrow> None
      | Some l \<Rightarrow> (case tl_locked l of None \<Rightarrow> None | Some t \<Rightarrow> if now - stale < t then tl_outbox l else None))"

lemma lock_of_get_or_create:
  assumes "get_or_create tl_thread \<lparr>tl_thread = thread, tl_outbox = None, tl_locked = None\<rparr> locks = (locks1, l, created)"
  shows "tl_thread l = thread" "lock_of thread locks1 = Some l" "thread' \<noteq> thread \<Longrightarrow> lock_of thread' locks1 = lock_of thread' locks"
    "thread_holder stale thread locks now = thread_holder stale thread locks1 now"
  using assms
  by (auto simp: get_or_create_def lock_of_def thread_holder_def get_row_append get_row_Cons split: option.splits dest: get_row_key)

lemma take_thread_lock:
  assumes "take_thread stale thread k now locks = Some locks'"
  shows "\<exists>l. lock_of thread locks' = Some (l\<lparr>tl_outbox := Some k, tl_locked := Some now\<rparr>)"
    and "thread' \<noteq> thread \<Longrightarrow> lock_of thread' locks' = lock_of thread' locks"
proof -
  obtain locks1 l created where g: "get_or_create tl_thread \<lparr>tl_thread = thread, tl_outbox = None, tl_locked = None\<rparr> locks = (locks1, l, created)"
    by (metis prod_cases3)
  have eq: "locks' = save_row tl_thread (l\<lparr>tl_outbox := Some k, tl_locked := Some now\<rparr>) locks1"
    using assms by (simp add: take_thread_def g split: if_splits)
  note l = lock_of_get_or_create [OF g]
  show "\<exists>l. lock_of thread locks' = Some (l\<lparr>tl_outbox := Some k, tl_locked := Some now\<rparr>)"
    using l(1,2) by (auto simp: eq lock_of_def get_row_save_row)
  show "lock_of thread' locks' = lock_of thread' locks" if "thread' \<noteq> thread"
    using l(1) l(3) [OF that] that by (auto simp: eq lock_of_def get_row_save_row)
qed

lemma take_thread_iff:
  "take_thread stale thread k now locks = None \<longleftrightarrow> (\<exists>j. thread_holder stale thread locks now = Some j \<and> j \<noteq> k)"
proof -
  obtain locks1 l created where g: "get_or_create tl_thread \<lparr>tl_thread = thread, tl_outbox = None, tl_locked = None\<rparr> locks = (locks1, l, created)"
    by (metis prod_cases3)
  have "thread_holder stale thread locks now = (case tl_locked l of None \<Rightarrow> None | Some t \<Rightarrow> if now - stale < t then tl_outbox l else None)"
    unfolding lock_of_get_or_create(4) [OF g] by (simp add: thread_holder_def lock_of_get_or_create(2) [OF g])
  then show ?thesis by (auto simp: take_thread_def g lock_refuses_def split: option.splits if_splits)
qed

lemma release_thread_lock:
  "lock_of thread' (release_thread thread k locks) =
     (if thread' = thread then map_option (\<lambda>l. if tl_outbox l = Some k then l\<lparr>tl_outbox := None, tl_locked := None\<rparr> else l) (lock_of thread locks)
      else lock_of thread' locks)"
  by (auto simp: release_thread_def lock_of_def get_row_save_row split: option.splits dest: get_row_key)

lemma thread_holder_earlier: "thread_holder stale thread locks until = Some p \<Longrightarrow> now \<le> until \<Longrightarrow> thread_holder stale thread locks now = Some p"
  by (auto simp: thread_holder_def split: option.splits if_splits)

interpretation thread_lease: owned_lease "thread_holder stale thread" "\<lambda>k now locks. take_thread stale thread k now locks"
    "\<lambda>k now locks. release_thread thread k locks" "\<lambda>locks until k. thread_holder stale thread locks until = Some k" "\<lambda>_. True" stale
  for stale thread
proof unfold_locales
  fix p q :: uuid and now until :: instant and locks locks' :: "thread_lock list"
  show "take_thread stale thread p now locks = Some locks' \<Longrightarrow> True \<Longrightarrow> until < now + stale \<Longrightarrow> thread_holder stale thread locks' until = Some p"
    using take_thread_lock(1) [of stale thread p now locks locks'] by (auto simp: thread_holder_def)
  show "thread_holder stale thread locks until = Some p \<Longrightarrow> now \<le> until \<Longrightarrow> q \<noteq> p \<Longrightarrow> take_thread stale thread q now locks = None"
    unfolding take_thread_iff using thread_holder_earlier by blast
  show "thread_holder stale thread locks now = None \<Longrightarrow> take_thread stale thread q now locks \<noteq> None"
    unfolding take_thread_iff by simp
  show "thread_holder stale thread locks until = Some p \<Longrightarrow> now \<le> until \<Longrightarrow> thread_holder stale thread locks now = Some p"
    by (rule thread_holder_earlier)
  show "thread_holder stale thread locks until = Some p \<Longrightarrow> q \<noteq> p \<Longrightarrow> thread_holder stale thread (release_thread thread q locks) until = Some p"
    by (auto simp: thread_holder_def release_thread_lock split: option.splits if_splits)
  show "thread_holder stale thread locks now = Some p \<Longrightarrow> thread_holder stale thread (release_thread thread p locks) now = None"
    by (auto simp: thread_holder_def release_thread_lock split: option.splits if_splits)
qed

section \<open>Workers\<close>

text \<open>A step of some worker: a claim, or the conclusion of a claim of whatever age.\<close>

datatype delivery = Claim uuid instant | Conclude delivery_claim instant instant answer

fun delivery_step :: "n8n_settings \<Rightarrow> delivery \<Rightarrow> n8n \<Rightarrow> n8n" where
  "delivery_step cfg (Claim k now) s = fst (claim_outbox_event cfg now k s)"
| "delivery_step cfg (Conclude c now jitter ans) s = (case conclude_delivery cfg now jitter ans c s of Inl e \<Rightarrow> s | Inr (s', ok) \<Rightarrow> s')"

lemma conclude_delivery_cases:
  obtains (unchanged) "delivery_step cfg (Conclude c now jitter ans) s = s"
  | (recorded) x x' where "outbox_row (cm_outbox c) s = Some x" "(\<exists>http. x' = delivered now http x) \<or> (\<exists>f. x' = failed_delivery cfg now jitter c f x)"
      "delivery_step cfg (Conclude c now jitter ans) s = release_claim c (if ox_status x = Ox_Delivered then s else put_outbox x' s)"
proof (cases "outbox_row (cm_outbox c) s")
  case None
  then have "conclude_delivery cfg now jitter ans c s = Inl DoesNotExist \<or> conclude_delivery cfg now jitter ans c s = Inr (s, False)"
    by (auto simp: conclude_delivery_def record_success_def record_failure_def split: option.splits answer.splits)
  then show ?thesis using unchanged by auto
next
  case (Some x)
  have "(\<exists>f. conclude_delivery cfg now jitter ans c s = and_then (record_failure cfg now jitter c f s) (\<lambda>s'. Inr (s', False))) \<or>
      (\<exists>code. conclude_delivery cfg now jitter ans c s = and_then (record_success now c code s) (\<lambda>s'. Inr (s', True)))"
  proof (cases "unconfigured cfg")
    case True
    then show ?thesis by (auto simp: conclude_delivery_def)
  next
    case False
    then show ?thesis
      by (cases "outcome_of ans (nat_text (cm_event c))"; cases ans) (auto simp: conclude_delivery_def)
  qed
  then show ?thesis
  proof (elim disjE exE)
    fix f
    assume "conclude_delivery cfg now jitter ans c s = and_then (record_failure cfg now jitter c f s) (\<lambda>s'. Inr (s', False))"
    then show thesis using Some recorded [OF Some, of "failed_delivery cfg now jitter c f x"] by (auto simp: record_failure_def)
  next
    fix code
    assume "conclude_delivery cfg now jitter ans c s = and_then (record_success now c code s) (\<lambda>s'. Inr (s', True))"
    then show thesis using Some recorded [OF Some, of "delivered now code x"] by (auto simp: record_success_def)
  qed
qed

lemma outbox_row_put: "outbox_row k (put_outbox x s) = (if k = ox_pk x then map_option (\<lambda>_. x) (outbox_row k s) else outbox_row k s)"
  by (auto simp: outbox_row_def put_outbox_def get_row_save_row split: option.splits)

lemma outbox_row_frame [simp]: "outbox_row k (release_claim c s) = outbox_row k s" "outbox_row k (s\<lparr>nn_locks := locks\<rparr>) = outbox_row k s"
  by (simp_all add: outbox_row_def release_claim_def)

lemma outbox_row_key: "outbox_row k s = Some x \<Longrightarrow> ox_pk x = k"
  unfolding outbox_row_def by (rule get_row_key)

text \<open>The immutable part of a row.\<close>

definition body_of :: "outbox \<Rightarrow> uuid \<times> uuid \<times> string \<times> n8n_payload \<times> nat \<times> instant" where
  "body_of x = (ox_pk x, ox_event x, ox_key x, ox_payload x, ox_max x, ox_created x)"

lemma body_of_simps [simp]:
  "body_of (claimed now x) = body_of x" "body_of (delivered now http x) = body_of x" "body_of (failed_delivery cfg now jitter c f x) = body_of x"
  by (auto simp: body_of_def claimed_def delivered_def failed_delivery_def Let_def)

lemma row_pk_simps [simp]:
  "ox_pk (claimed now x) = ox_pk x" "ox_pk (delivered now http x) = ox_pk x" "ox_pk (failed_delivery cfg now jitter c f x) = ox_pk x"
  by (auto simp: claimed_def delivered_def failed_delivery_def Let_def)

definition row_ok :: "outbox \<Rightarrow> bool" where
  "row_ok x \<longleftrightarrow> (ox_status x = Ox_Processing \<longleftrightarrow> ox_locked x \<noteq> None) \<and>
     (ox_status x = Ox_Delivered \<longrightarrow> ox_delivered_at x \<noteq> None) \<and> (ox_status x = Ox_Dead \<longrightarrow> ox_dead_at x \<noteq> None)"

lemma row_ok_simps: "row_ok (claimed now x)" "row_ok (delivered now http x)" "row_ok (failed_delivery cfg now jitter c f x)"
  by (simp_all add: row_ok_def claimed_def delivered_def failed_delivery_def Let_def)

lemma claim_cases:
  obtains (refused) "claim_outbox_event cfg now k s = (s, None)"
  | (granted) x locks where "outbox_row k s = Some x" "claimable (processing_stale cfg) now x" "thread_of x s \<noteq> []"
      "take_thread (processing_stale cfg) (thread_of x s) k now (nn_locks s) = Some locks"
      "claim_outbox_event cfg now k s = ((put_outbox (claimed now x) s)\<lparr>nn_locks := locks\<rparr>,
         Some \<lparr>cm_outbox = k, cm_event = ox_event x, cm_key = ox_key x, cm_payload = ox_payload x, cm_attempt = ox_attempts x + 1,
           cm_max = ox_max x, cm_thread = thread_of x s\<rparr>)"
proof (cases "outbox_row k s")
  case None
  then show ?thesis using refused by (simp add: claim_outbox_event_def)
next
  case (Some x)
  show ?thesis
  proof (cases "\<not> claimable (processing_stale cfg) now x \<or> thread_of x s = []")
    case True
    then show ?thesis using refused Some by (simp add: claim_outbox_event_def)
  next
    case False
    then show ?thesis
      using refused granted [OF Some] Some by (cases "take_thread (processing_stale cfg) (thread_of x s) k now (nn_locks s)")
        (auto simp: claim_outbox_event_def)
  qed
qed

lemma delivery_step_row:
  assumes "outbox_row k s = Some x" and "row_ok x"
  shows "\<exists>x'. outbox_row k (delivery_step cfg d s) = Some x' \<and> body_of x' = body_of x \<and> row_ok x' \<and> (ox_status x = Ox_Delivered \<longrightarrow> x' = x)"
proof (cases d)
  case (Claim j now)
  show ?thesis
  proof (rule claim_cases [of cfg now j s])
    assume "claim_outbox_event cfg now j s = (s, None)"
    then show ?thesis using assms Claim by simp
  next
    fix y locks
    assume y: "outbox_row j s = Some y" "claimable (processing_stale cfg) now y"
      "claim_outbox_event cfg now j s = ((put_outbox (claimed now y) s)\<lparr>nn_locks := locks\<rparr>,
         Some \<lparr>cm_outbox = j, cm_event = ox_event y, cm_key = ox_key y, cm_payload = ox_payload y, cm_attempt = ox_attempts y + 1,
           cm_max = ox_max y, cm_thread = thread_of y s\<rparr>)"
    then show ?thesis
      using assms Claim outbox_row_key [OF y(1)] row_ok_simps(1) by (auto simp: outbox_row_put claimable_def)
  qed
next
  case (Conclude c now jitter ans)
  show ?thesis
  proof (rule conclude_delivery_cases [of cfg c now jitter ans s])
    assume "delivery_step cfg (Conclude c now jitter ans) s = s"
    then show ?thesis using assms Conclude by simp
  next
    fix y y'
    assume y: "outbox_row (cm_outbox c) s = Some y" "(\<exists>http. y' = delivered now http y) \<or> (\<exists>f. y' = failed_delivery cfg now jitter c f y)"
      "delivery_step cfg (Conclude c now jitter ans) s = release_claim c (if ox_status y = Ox_Delivered then s else put_outbox y' s)"
    have y': "ox_pk y' = ox_pk y" "body_of y' = body_of y" "row_ok y'" using y(2) row_ok_simps by auto
    then show ?thesis
      using assms Conclude y(1,3) outbox_row_key [OF y(1)] by (cases "k = cm_outbox c") (auto simp: outbox_row_put)
  qed
qed

text \<open>A delivered message is final.  In every interleaving of claims and of conclusions of claims of
  any age, no outbox row is lost, its body never changes, a delivered row never changes at all, and the
  bookkeeping of every row stays consistent.\<close>

theorem delivered_rows_final:
  assumes "outbox_row k s = Some x" and "row_ok x"
  shows "\<exists>x'. outbox_row k (fold (delivery_step cfg) ds s) = Some x' \<and> body_of x' = body_of x \<and> row_ok x' \<and>
    (ox_status x = Ox_Delivered \<longrightarrow> x' = x)"
  using assms
proof (induction ds arbitrary: s x)
  case (Cons d ds)
  obtain x1 where "outbox_row k (delivery_step cfg d s) = Some x1" "body_of x1 = body_of x" "row_ok x1" "ox_status x = Ox_Delivered \<longrightarrow> x1 = x"
    using delivery_step_row [OF Cons.prems] by blast
  then show ?case using Cons.IH [of "delivery_step cfg d s" x1] by auto
qed simp

section \<open>One delivery per thread\<close>

lemma event_row_frame: "nn_events s' = nn_events s \<Longrightarrow> event_row k s' = event_row k s"
  by (simp add: event_row_def)

lemma delivery_step_events: "nn_events (delivery_step cfg d s) = nn_events s"
proof (cases d)
  case (Claim j now)
  then show ?thesis by (cases rule: claim_cases [of cfg now j s]) (auto simp: put_outbox_def)
next
  case (Conclude c now jitter ans)
  then show ?thesis by (cases rule: conclude_delivery_cases [of cfg c now jitter ans s]) (auto simp: put_outbox_def release_claim_def simp del: delivery_step.simps)
qed

lemma thread_of_body: "body_of x = body_of y \<Longrightarrow> nn_events s = nn_events s' \<Longrightarrow> thread_of x s = thread_of y s'"
  by (simp add: thread_of_def body_of_def event_row_def)

text \<open>The state of a row during the delivery of its claim: it holds the lease of its thread.\<close>

definition delivering :: "n8n_settings \<Rightarrow> instant \<Rightarrow> uuid \<Rightarrow> string \<Rightarrow> instant \<Rightarrow> n8n \<Rightarrow> bool" where
  "delivering cfg now k thread until s \<longleftrightarrow> thread_holder (processing_stale cfg) thread (nn_locks s) until = Some k \<and>
     (\<exists>x. outbox_row k s = Some x \<and> thread_of x s = thread \<and> ox_status x = Ox_Processing \<and> ox_locked x = Some now)"

lemma delivering_refuses:
  assumes "delivering cfg now k thread until s" and "until < now + processing_stale cfg" and "at \<le> until"
    and "outbox_row q s = Some y" and "thread_of y s = thread"
  shows "claim_outbox_event cfg at q s = (s, None)"
proof (cases rule: claim_cases [of cfg at q s])
  case (granted x locks)
  have "q = k"
  proof (rule ccontr)
    assume "q \<noteq> k"
    moreover have "thread_holder (processing_stale cfg) thread (nn_locks s) until = Some k" using assms(1) by (simp add: delivering_def)
    ultimately have "take_thread (processing_stale cfg) thread q at (nn_locks s) = None" using thread_lease.acquire_refused assms(3) by blast
    then show False using granted(1,4) assms(4,5) by simp
  qed
  then have "\<not> claimable (processing_stale cfg) at x" using assms(1-3) granted(1) by (auto simp: delivering_def claimable_def)
  then show ?thesis using granted(2) by simp
qed

lemma delivering_step:
  assumes d: "delivering cfg now k thread until s" and "until < now + processing_stale cfg"
    and claims: "\<And>q at. e = Claim q at \<Longrightarrow> at \<le> until" and others: "\<And>c at jitter ans. e = Conclude c at jitter ans \<Longrightarrow> cm_outbox c \<noteq> k"
  shows "delivering cfg now k thread until (delivery_step cfg e s)"
proof -
  obtain x where x: "outbox_row k s = Some x" "thread_of x s = thread" "ox_status x = Ox_Processing" "ox_locked x = Some now"
    and holder: "thread_holder (processing_stale cfg) thread (nn_locks s) until = Some k" using d by (auto simp: delivering_def)
  show ?thesis
  proof (cases e)
    case (Claim q at)
    show ?thesis
    proof (cases rule: claim_cases [of cfg at q s])
      case refused
      then show ?thesis using d Claim by simp
    next
      case (granted y locks)
      have "thread_of y s \<noteq> thread" using delivering_refuses [OF d assms(2) claims [OF Claim] granted(1)] granted(5) by auto
      then have other: "q \<noteq> k" "thread_holder (processing_stale cfg) thread locks until = Some k"
        using x(1,2) granted(1) holder take_thread_lock(2) [OF granted(4), of thread] by (auto simp: thread_holder_def)
      then have "outbox_row k (delivery_step cfg e s) = Some x" using x(1) granted(5) outbox_row_key [OF granted(1)] by (simp add: Claim outbox_row_put)
      moreover have "thread_of x (delivery_step cfg e s) = thread_of x s" by (simp add: thread_of_def event_row_def delivery_step_events)
      ultimately show ?thesis using other(2) granted(5) x by (simp add: delivering_def Claim)
    qed
  next
    case (Conclude c at jitter ans)
    have c: "cm_outbox c \<noteq> k" by (rule others [OF Conclude])
    show ?thesis
    proof (cases rule: conclude_delivery_cases [of cfg c at jitter ans s])
      case unchanged
      then show ?thesis using d Conclude by simp
    next
      case (recorded y y')
      have pk: "ox_pk y' = cm_outbox c" using recorded(2) outbox_row_key [OF recorded(1)] by auto
      have "outbox_row k (delivery_step cfg e s) = Some x" unfolding Conclude recorded(3) using x(1) c pk by (simp add: outbox_row_put)
      moreover have "thread_of x (delivery_step cfg e s) = thread_of x s" by (simp add: thread_of_def event_row_def delivery_step_events)
      moreover have "thread_holder (processing_stale cfg) thread (nn_locks (delivery_step cfg e s)) until = Some k"
      proof -
        have locks: "nn_locks (delivery_step cfg e s) = release_thread (cm_thread c) (cm_outbox c) (nn_locks s)"
          unfolding Conclude recorded(3) by (simp add: release_claim_def put_outbox_def)
        show ?thesis
        proof (cases "cm_thread c = thread")
          case True
          then show ?thesis unfolding locks using thread_lease.release_foreign [OF holder c] by simp
        next
          case False
          then show ?thesis unfolding locks using holder by (simp add: thread_holder_def release_thread_lock)
        qed
      qed
      ultimately show ?thesis using x by (simp add: delivering_def)
    qed
  qed
qed

text \<open>C34: deliveries of a thread exclude each other.  While a claim has not gone stale and no worker has concluded the
  claimed row (its own worker, or one that claimed the row before and was late), no row of its thread can be claimed,
  not even its own again, whatever other claims and conclusions of other rows happen meanwhile.\<close>

theorem thread_deliveries_exclude:
  assumes "claim_outbox_event cfg now k s = (s1, Some c)" and "until < now + processing_stale cfg"
    and "\<forall>q at. Claim q at \<in> set ds \<longrightarrow> at \<le> until" and "\<forall>c' at jitter ans. Conclude c' at jitter ans \<in> set ds \<longrightarrow> cm_outbox c' \<noteq> k"
    and "outbox_row q (fold (delivery_step cfg) ds s1) = Some y" and "thread_of y (fold (delivery_step cfg) ds s1) = cm_thread c" and "at \<le> until"
  shows "claim_outbox_event cfg at q (fold (delivery_step cfg) ds s1) = (fold (delivery_step cfg) ds s1, None)"
proof -
  have start: "delivering cfg now k (cm_thread c) until s1"
  proof (cases rule: claim_cases [of cfg now k s])
    case refused
    then show ?thesis using assms(1) by simp
  next
    case (granted x locks)
    have "thread_of (claimed now x) s1 = thread_of x s"
      by (rule thread_of_body) (use assms(1) granted(5) in \<open>auto simp: put_outbox_def\<close>)
    then show ?thesis
      using assms(1) granted thread_lease.acquire_held [OF granted(4) TrueI assms(2)] outbox_row_key [OF granted(1)]
      by (auto simp: delivering_def outbox_row_put claimed_def)
  qed
  have "delivering cfg now k (cm_thread c) until (fold (delivery_step cfg) ds s1)"
    using start assms(3,4)
  proof (induction ds arbitrary: s1)
    case (Cons d ds)
    have "delivering cfg now k (cm_thread c) until (delivery_step cfg d s1)"
      by (rule delivering_step [OF Cons.prems(1) assms(2)]) (use Cons.prems(2,3) in auto)
    from Cons.IH [OF this] show ?case using Cons.prems(2,3) by (metis fold_simps(2) list.set_intros(2))
  qed simp
  then show ?thesis using delivering_refuses assms(2,5-7) by blast
qed

section \<open>Retries\<close>

text \<open>Retries back off within their bounds.  Whatever the random draw, the delay before the next
  attempt is at least the exponential part, which doubles from the base, and never above the cap.\<close>

theorem retry_delay_bounds:
  assumes "admissible_jitter cfg n jitter"
  shows "max (n8_retry_base cfg) tenth_of_second \<le> retry_delay cfg jitter n \<and>
    min (max (n8_retry_base cfg) tenth_of_second * 2 ^ (n - 1)) (max (n8_retry_max cfg) (max (n8_retry_base cfg) tenth_of_second)) \<le> retry_delay cfg jitter n \<and>
    retry_delay cfg jitter n \<le> max (n8_retry_max cfg) (max (n8_retry_base cfg) tenth_of_second)"
proof -
  let ?base = "max (n8_retry_base cfg) tenth_of_second"
  let ?cap = "max (n8_retry_max cfg) ?base"
  have "0 \<le> ?base" by (simp add: tenth_of_second_def)
  then have "?base * 1 \<le> ?base * 2 ^ (n - 1)" by (rule mult_left_mono [rotated]) simp
  then have "?base \<le> ?base * 2 ^ (n - 1)" by simp
  then have "?base \<le> min (?base * 2 ^ (n - 1)) ?cap" by simp
  moreover have "retry_delay cfg jitter n = min (min (?base * 2 ^ (n - 1)) ?cap + jitter) ?cap" by (simp add: retry_delay_def Let_def)
  moreover have step: "e \<le> min (e + jitter) c \<and> min (e + jitter) c \<le> c" if "e \<le> c" for e c
    using that assms by (simp add: admissible_jitter_def)
  note step [OF min.cobounded2, of "?base * 2 ^ (n - 1)" ?cap]
  ultimately show ?thesis by (metis order_trans)
qed

text \<open>One sequential delivery of a row, with the number of posts it makes.\<close>

record run =
  rn_start :: instant
  rn_end :: instant
  rn_jitter :: instant
  rn_answer :: answer

fun delivery_runs :: "n8n_settings \<Rightarrow> uuid \<Rightarrow> run list \<Rightarrow> n8n \<Rightarrow> n8n \<times> nat" where
  "delivery_runs cfg k [] s = (s, 0)"
| "delivery_runs cfg k (r # rs) s =
     (case deliver_outbox_event cfg (rn_start r) (rn_end r) (rn_jitter r) (rn_answer r) k s of
        Inl e \<Rightarrow> (s, 0)
      | Inr (s1, ok) \<Rightarrow>
          (case delivery_runs cfg k rs s1 of (s2, n) \<Rightarrow>
             (s2, n + (if n8_enabled cfg \<and> snd (claim_outbox_event cfg (rn_start r) k s) \<noteq> None then 1 else 0))))"

text \<open>The row after a delivery that was claimed.\<close>

definition concluded_row :: "n8n_settings \<Rightarrow> instant \<Rightarrow> instant \<Rightarrow> answer \<Rightarrow> delivery_claim \<Rightarrow> outbox \<Rightarrow> outbox \<times> bool" where
  "concluded_row cfg later jitter ans c x =
     (if unconfigured cfg
      then (failed_delivery cfg later jitter c \<lparr>df_kind = Authentication, df_retryable = True, df_http = None, df_unconfigured = True\<rparr> x, False)
      else case outcome_of ans (nat_text (cm_event c)) of
             Some f \<Rightarrow> (failed_delivery cfg later jitter c f x, False)
           | None \<Rightarrow> (case ans of Answered code body \<Rightarrow> (delivered later code x, True) | _ \<Rightarrow> (x, False)))"

lemma outcome_None: "outcome_of ans e = None \<Longrightarrow> \<exists>code body. ans = Answered code body"
  by (cases ans) auto

lemma concluded_claim:
  assumes claim: "claim_outbox_event cfg now k s = (s1, Some c)" and x: "outbox_row k s = Some x"
    and y: "concluded_row cfg later jitter ans c (claimed now x) = (y, ok)"
  shows "\<exists>s2. conclude_delivery cfg later jitter ans c s1 = Inr (s2, ok) \<and> outbox_row k s2 = Some y \<and>
    thread_holder (processing_stale cfg) (cm_thread c) (nn_locks s2) t = None \<and> cm_attempt c = ox_attempts x + 1 \<and> cm_max c = ox_max x"
proof (cases rule: claim_cases [of cfg now k s])
  case (granted z locks)
  have z: "z = x" using granted(1) x by simp
  note pk = outbox_row_key [OF x]
  have s1: "s1 = (put_outbox (claimed now x) s)\<lparr>nn_locks := locks\<rparr>" and c: "cm_outbox c = k" "cm_thread c = thread_of x s"
      "cm_attempt c = ox_attempts x + 1" "cm_max c = ox_max x"
    using claim granted(5) z by auto
  have row: "outbox_row k s1 = Some (claimed now x)" using x pk by (simp add: s1 outbox_row_put)
  have live: "ox_status (claimed now x) \<noteq> Ox_Delivered" by (simp add: claimed_def)
  let ?s2 = "release_claim c (put_outbox y s1)"
  have ypk: "ox_pk y = k" using y pk by (auto simp: concluded_row_def split: if_splits option.splits answer.splits)
  have "conclude_delivery cfg later jitter ans c s1 = Inr (?s2, ok)"
  proof (cases "unconfigured cfg \<or> outcome_of ans (nat_text (cm_event c)) \<noteq> None")
    case True
    then show ?thesis using y row live c(1)
      by (auto simp: conclude_delivery_def concluded_row_def record_failure_def split: if_splits)
  next
    case False
    then obtain code body where "ans = Answered code body" "\<not> unconfigured cfg" "outcome_of ans (nat_text (cm_event c)) = None"
      using outcome_None by blast
    then show ?thesis using y row live c(1) by (auto simp: conclude_delivery_def concluded_row_def record_success_def)
  qed
  moreover have "outbox_row k ?s2 = Some y" using row ypk by (simp add: outbox_row_put)
  moreover have "thread_holder (processing_stale cfg) (cm_thread c) (nn_locks ?s2) t = None"
  proof -
    have "\<exists>l. lock_of (thread_of x s) locks = Some (l\<lparr>tl_outbox := Some k, tl_locked := Some now\<rparr>)"
      using take_thread_lock(1) [OF granted(4)] z by simp
    then show ?thesis by (auto simp: release_claim_def put_outbox_def s1 c thread_holder_def release_thread_lock split: option.splits)
  qed
  ultimately show ?thesis using c(3,4) by blast
next
  case refused
  then show ?thesis using claim by simp
qed

text \<open>What a delivery leaves behind.  A claimed delivery always concludes and gives the lease of the
  thread back.  It answers yes exactly when n8n accepted this event, and then the row is delivered;
  otherwise the row is scheduled again when the failure is retryable and attempts remain, and dead when
  not; without a configuration it is scheduled again and the attempt is not counted.\<close>

theorem delivery_outcome:
  assumes "n8_enabled cfg" and "outbox_row k s = Some x" and "claim_outbox_event cfg now k s = (s1, Some c)"
  shows "\<exists>s2 ok y. deliver_outbox_event cfg now later jitter ans k s = Inr (s2, ok) \<and> outbox_row k s2 = Some y \<and>
    thread_holder (processing_stale cfg) (cm_thread c) (nn_locks s2) later = None \<and>
    (ok \<longleftrightarrow> \<not> unconfigured cfg \<and> outcome_of ans (nat_text (cm_event c)) = None) \<and>
    (ok \<longrightarrow> ox_status y = Ox_Delivered \<and> ox_delivered_at y = Some later \<and> ox_attempts y = ox_attempts x + 1) \<and>
    (unconfigured cfg \<longrightarrow> ox_status y = Ox_Retry \<and> ox_attempts y = ox_attempts x) \<and>
    (\<forall>f. \<not> unconfigured cfg \<and> outcome_of ans (nat_text (cm_event c)) = Some f \<longrightarrow> ox_attempts y = ox_attempts x + 1 \<and>
       (if df_retryable f \<and> ox_attempts x + 1 < ox_max x
        then ox_status y = Ox_Retry \<and> ox_available y = later + retry_delay cfg jitter (ox_attempts x + 1)
        else ox_status y = Ox_Dead \<and> ox_dead_at y = Some later))"
proof -
  obtain y ok where y: "concluded_row cfg later jitter ans c (claimed now x) = (y, ok)" by fastforce
  obtain s2 where s2: "conclude_delivery cfg later jitter ans c s1 = Inr (s2, ok)" "outbox_row k s2 = Some y"
      "thread_holder (processing_stale cfg) (cm_thread c) (nn_locks s2) later = None" "cm_attempt c = ox_attempts x + 1" "cm_max c = ox_max x"
    using concluded_claim [OF assms(3,2) y] by blast
  have d: "deliver_outbox_event cfg now later jitter ans k s = Inr (s2, ok)" using assms(1,3) s2(1) by (simp add: deliver_outbox_event_def)
  have fields: "df_unconfigured f = False" if "outcome_of ans (nat_text (cm_event c)) = Some f" for f
  proof (cases ans)
    case (Answered code body)
    then show ?thesis using that by (cases body) (auto simp: classify_response_def failure_def split: if_splits)
  qed (use that in \<open>auto simp: failure_def\<close>)
  have row: "(ok \<longleftrightarrow> \<not> unconfigured cfg \<and> outcome_of ans (nat_text (cm_event c)) = None)"
      "ok \<Longrightarrow> ox_status y = Ox_Delivered \<and> ox_delivered_at y = Some later \<and> ox_attempts y = ox_attempts x + 1"
      "unconfigured cfg \<Longrightarrow> ox_status y = Ox_Retry \<and> ox_attempts y = ox_attempts x"
    using y outcome_None [of ans "nat_text (cm_event c)"] s2(4,5)
    by (auto simp: concluded_row_def delivered_def claimed_def failed_delivery_def Let_def split: if_splits option.splits answer.splits)
  have failed: "ox_attempts y = ox_attempts x + 1 \<and>
       (if df_retryable f \<and> ox_attempts x + 1 < ox_max x
        then ox_status y = Ox_Retry \<and> ox_available y = later + retry_delay cfg jitter (ox_attempts x + 1)
        else ox_status y = Ox_Dead \<and> ox_dead_at y = Some later)"
    if "\<not> unconfigured cfg" "outcome_of ans (nat_text (cm_event c)) = Some f" for f
  proof -
    have "y = failed_delivery cfg later jitter c f (claimed now x)" using y that by (simp add: concluded_row_def)
    then show ?thesis using fields [OF that(2)] s2(4,5) by (auto simp: failed_delivery_def claimed_def Let_def)
  qed
  show ?thesis using d s2(2,3) row failed by blast
qed

definition post_bound :: "outbox \<Rightarrow> nat" where
  "post_bound x = (if ox_status x \<in> {Ox_Delivered, Ox_Dead, Ox_Cancelled} then 0 else max 1 (ox_max x - ox_attempts x))"

lemma concluded_bound:
  assumes "\<not> unconfigured cfg" and "cm_attempt c = ox_attempts x + 1" and "cm_max c = ox_max x" and "claimable stale now x"
    and "concluded_row cfg later jitter ans c (claimed now x) = (y, ok)"
  shows "Suc (post_bound y) \<le> post_bound x"
proof -
  have live: "post_bound x = max 1 (ox_max x - ox_attempts x)" using assms(4) by (simp add: post_bound_def claimable_def)
  show ?thesis
  proof (cases "outcome_of ans (nat_text (cm_event c))")
    case None
    then show ?thesis using assms(1,5) outcome_None [OF None] live by (auto simp: concluded_row_def post_bound_def delivered_def)
  next
    case (Some f)
    then have y: "y = failed_delivery cfg later jitter c f (claimed now x)" using assms(1,5) by (simp add: concluded_row_def)
    have "df_unconfigured f = False"
    proof (cases ans)
      case (Answered code body)
      then show ?thesis using Some by (cases body) (auto simp: classify_response_def failure_def split: if_splits)
    qed (use Some in \<open>auto simp: failure_def\<close>)
    then show ?thesis using assms(2,3) live by (auto simp: y failed_delivery_def claimed_def Let_def post_bound_def)
  qed
qed

text \<open>A message is posted a bounded number of times.  Sequential deliveries of a row, at whatever
  times and with whatever answers, post it at most as often as attempts remain (once when none does).\<close>

theorem posts_are_bounded:
  assumes "outbox_row k s = Some x" and "\<not> unconfigured cfg"
  shows "snd (delivery_runs cfg k rs s) \<le> post_bound x"
  using assms(1)
proof (induction rs arbitrary: s x)
  case (Cons r rs)
  show ?case
  proof (cases "n8_enabled cfg \<and> snd (claim_outbox_event cfg (rn_start r) k s) \<noteq> None")
    case True
    then obtain s1 c where c: "claim_outbox_event cfg (rn_start r) k s = (s1, Some c)"
      by (cases "claim_outbox_event cfg (rn_start r) k s") auto
    have live: "claimable (processing_stale cfg) (rn_start r) x"
      using c Cons.prems by (cases rule: claim_cases [of cfg "rn_start r" k s]) auto
    obtain y ok where y: "concluded_row cfg (rn_end r) (rn_jitter r) (rn_answer r) c (claimed (rn_start r) x) = (y, ok)" by fastforce
    obtain s2 where s2: "conclude_delivery cfg (rn_end r) (rn_jitter r) (rn_answer r) c s1 = Inr (s2, ok)" "outbox_row k s2 = Some y"
        "cm_attempt c = ox_attempts x + 1" "cm_max c = ox_max x"
      using concluded_claim [OF c Cons.prems y] by blast
    have "Suc (post_bound y) \<le> post_bound x" by (rule concluded_bound [OF assms(2) s2(3,4) live y])
    then show ?thesis using Cons.IH [OF s2(2)] True c s2(1) by (cases "delivery_runs cfg k rs s2") (simp add: deliver_outbox_event_def)
  next
    case False
    then have "deliver_outbox_event cfg (rn_start r) (rn_end r) (rn_jitter r) (rn_answer r) k s = Inr (s, False)"
      by (cases rule: claim_cases [of cfg "rn_start r" k s]) (simp_all add: deliver_outbox_event_def)
    then show ?thesis using Cons.IH [OF Cons.prems] False by (auto split: prod.splits)
  qed
qed simp

section \<open>What the lease does not exclude\<close>

definition demo_n8n_cfg :: n8n_settings where
  "demo_n8n_cfg = \<lparr>n8_enabled = True, n8_url = ''u'', n8_secret = ''k'', n8_connect = seconds 5, n8_read = seconds 20, n8_stale = seconds 300,
     n8_retry_base = seconds 10, n8_retry_max = seconds 900, n8_batch = 50, n8_max_attempts = 2, n8_bot_sender = ''B'', n8_portal = ''p'',
     n8_reconcile_enabled = True, n8_reconcile_batch = 25, n8_interval = seconds 60, n8_lookback = seconds 300\<rparr>"

definition demo_payload :: n8n_payload where
  "demo_payload = \<lparr>pl_event = 7, pl_message = ''m'', pl_occurred = None, pl_portal = ''p'', pl_thread = ''t'', pl_ticket = None,
     pl_method = By_Webhook, pl_text = ''hi'', pl_sender = ''V-1'', pl_email = None, pl_phone = None, pl_identifier = None, pl_key = ''k''\<rparr>"

definition demo_outbox :: "uuid \<Rightarrow> outbox" where
  "demo_outbox k = \<lparr>ox_pk = k, ox_event = 7, ox_key = nat_text k, ox_payload = demo_payload, ox_status = Ox_Pending, ox_attempts = 0,
     ox_max = 2, ox_available = 0, ox_locked = None, ox_delivered_at = None, ox_dead_at = None, ox_error = [], ox_http = None, ox_created = 0\<rparr>"

definition demo_n8n :: n8n where
  "demo_n8n = \<lparr>nn_events = [], nn_outbox = [demo_outbox 1, demo_outbox 2], nn_locks = [], nn_next_pk = 10\<rparr>"

text \<open>A worker that comes back after its claim went stale frees the lease of the worker that took the
  row over: the other row of the thread is then claimed while this delivery is still running.\<close>

lemma stale_worker_frees_lease:
  "let (s1, c1) = claim_outbox_event demo_n8n_cfg 0 1 demo_n8n;
       (s2, c2) = claim_outbox_event demo_n8n_cfg (seconds 300) 1 s1;
       s3 = delivery_step demo_n8n_cfg (Conclude (the c1) (seconds 301) 0 Timed_Out) s2;
       (s4, c3) = claim_outbox_event demo_n8n_cfg (seconds 302) 2 s3
   in c2 \<noteq> None \<and> c3 \<noteq> None \<and> cm_thread (the c2) = cm_thread (the c3)"
  by code_simp

text \<open>Its failure also schedules the row again although the newer attempt is running.\<close>

lemma stale_failure_reschedules:
  "let (s1, c1) = claim_outbox_event demo_n8n_cfg 0 1 demo_n8n;
       (s2, c2) = claim_outbox_event demo_n8n_cfg (seconds 300) 1 s1;
       s3 = delivery_step demo_n8n_cfg (Conclude (the c1) (seconds 301) 0 Timed_Out) s2
   in map_option ox_status (outbox_row 1 s2) = Some Ox_Processing \<and> map_option ox_status (outbox_row 1 s3) = Some Ox_Retry"
  by code_simp

text \<open>A row that was given up is delivered when the late worker succeeds; it keeps its death time.\<close>

lemma dead_row_delivered_late:
  "let (s1, c1) = claim_outbox_event demo_n8n_cfg 0 1 demo_n8n;
       (s2, c2) = claim_outbox_event demo_n8n_cfg (seconds 300) 1 s1;
       s3 = delivery_step demo_n8n_cfg (Conclude (the c2) (seconds 301) 0 Timed_Out) s2;
       s4 = delivery_step demo_n8n_cfg (Conclude (the c1) (seconds 302) 0 (Answered 200 (Accepting ''accepted'' ''7''))) s3
   in map_option ox_status (outbox_row 1 s3) = Some Ox_Dead \<and> map_option ox_status (outbox_row 1 s4) = Some Ox_Delivered \<and>
      map_option ox_dead_at (outbox_row 1 s4) = Some (Some (seconds 301))"
  by code_simp

section \<open>Witnesses\<close>

definition claimed_demo :: "n8n \<times> delivery_claim option" where
  "claimed_demo = claim_outbox_event demo_n8n_cfg 0 1 demo_n8n"

lemma claimed_demo_eq: "claim_outbox_event demo_n8n_cfg 0 1 demo_n8n = (fst claimed_demo, Some (the (snd claimed_demo)))"
proof -
  have "snd claimed_demo \<noteq> None" by code_simp
  then show ?thesis by (simp add: claimed_demo_def)
qed

lemma demo_row: "outbox_row 1 demo_n8n = Some (demo_outbox 1)"
  by (simp add: outbox_row_def demo_n8n_def get_row_Cons demo_outbox_def)

theorem delivered_rows_final_witness:
  "\<exists>x'. outbox_row 1 (fold (delivery_step demo_n8n_cfg) [Claim 1 0, Claim 2 1] demo_n8n) = Some x' \<and> body_of x' = body_of (demo_outbox 1)"
proof -
  have "row_ok (demo_outbox 1)" by code_simp
  from delivered_rows_final [OF demo_row this, of demo_n8n_cfg "[Claim 1 0, Claim 2 1]"] show ?thesis by blast
qed

theorem thread_deliveries_exclude_witness:
  "snd (claim_outbox_event demo_n8n_cfg (seconds 299) 2 (fold (delivery_step demo_n8n_cfg) [Claim 2 (seconds 100), Claim 1 (seconds 200)] (fst claimed_demo))) = None"
proof -
  let ?c = "the (snd claimed_demo)"
  let ?ds = "[Claim 2 (seconds 100), Claim 1 (seconds 200)]"
  let ?s = "fold (delivery_step demo_n8n_cfg) ?ds (fst claimed_demo)"
  have u: "seconds 299 < 0 + processing_stale demo_n8n_cfg" by code_simp
  have ds: "\<forall>q at. Claim q at \<in> set ?ds \<longrightarrow> at \<le> seconds 299" "\<forall>c' at jitter ans. Conclude c' at jitter ans \<in> set ?ds \<longrightarrow> cm_outbox c' \<noteq> 1"
    by (simp_all add: seconds_def)
  have y: "outbox_row 2 ?s = Some (demo_outbox 2)" "thread_of (demo_outbox 2) ?s = cm_thread ?c" by code_simp+
  from thread_deliveries_exclude [OF claimed_demo_eq u ds y, of "seconds 299"] show ?thesis by simp
qed

theorem retry_delay_bounds_witness:
  "seconds 20 \<le> retry_delay demo_n8n_cfg (seconds 3) 2 \<and> retry_delay demo_n8n_cfg (seconds 3) 2 \<le> seconds 900"
proof -
  have a: "admissible_jitter demo_n8n_cfg 2 (seconds 3)" by code_simp
  have "min (max (n8_retry_base demo_n8n_cfg) tenth_of_second * 2 ^ (2 - 1)) (max (n8_retry_max demo_n8n_cfg) (max (n8_retry_base demo_n8n_cfg) tenth_of_second)) = seconds 20"
    "max (n8_retry_max demo_n8n_cfg) (max (n8_retry_base demo_n8n_cfg) tenth_of_second) = seconds 900" by code_simp+
  then show ?thesis using retry_delay_bounds [OF a] by simp
qed

theorem delivery_outcome_witness:
  "\<exists>s2 y. deliver_outbox_event demo_n8n_cfg 0 (seconds 1) 0 (Answered 200 (Accepting ''accepted'' ''7'')) 1 demo_n8n = Inr (s2, True) \<and>
     outbox_row 1 s2 = Some y \<and> ox_status y = Ox_Delivered"
proof -
  have e: "n8_enabled demo_n8n_cfg" "\<not> unconfigured demo_n8n_cfg" by code_simp+
  have o: "outcome_of (Answered 200 (Accepting ''accepted'' ''7'')) (nat_text (cm_event (the (snd claimed_demo)))) = None" by code_simp
  obtain s2 ok y where "deliver_outbox_event demo_n8n_cfg 0 (seconds 1) 0 (Answered 200 (Accepting ''accepted'' ''7'')) 1 demo_n8n = Inr (s2, ok)"
      "outbox_row 1 s2 = Some y" "ok \<longrightarrow> ox_status y = Ox_Delivered"
      "ok \<longleftrightarrow> \<not> unconfigured demo_n8n_cfg \<and> outcome_of (Answered 200 (Accepting ''accepted'' ''7'')) (nat_text (cm_event (the (snd claimed_demo)))) = None"
    using delivery_outcome [OF e(1) demo_row claimed_demo_eq, of "seconds 1" 0 "Answered 200 (Accepting ''accepted'' ''7'')"] by blast
  then show ?thesis using e(2) o by simp
qed

theorem posts_are_bounded_witness:
  "snd (delivery_runs demo_n8n_cfg 1 (replicate 5 \<lparr>rn_start = seconds 100, rn_end = seconds 20, rn_jitter = 0, rn_answer = Timed_Out\<rparr>) demo_n8n) \<le> 2"
proof -
  have "\<not> unconfigured demo_n8n_cfg" "post_bound (demo_outbox 1) = 2" by code_simp+
  then show ?thesis using posts_are_bounded [OF demo_row] by metis
qed

end
