(* ===== verification/N8n_Inbound.thy ===== *)
theory N8n_Inbound
  imports N8n_Outbox Lifecycle_Events
begin

text \<open>
  The ingestion of HubSpot messages, \<open>apps/webhooks/n8n_inbound.py\<close> with \<open>hydrate_webhook_message_event\<close> of
  \<open>reconciliation.py\<close>: the ledger of events, the filter of messages and the creation of the outbox row, all
  in one transaction.  A message and a thread are the records of the fields the code reads, missing text
  being empty; a SHA-256 key is the text that is hashed.  Left out: metrics, logging, the text of
  an exception and the broker call after the commit, which only saves the wait for the poll.
\<close>

section \<open>Messages and threads\<close>

record sender =
  sd_actor :: string
  sd_identifier :: "(string \<times> string) option"

record hub_message =
  mg_id :: string
  mg_thread :: string
  mg_type :: string
  mg_archived :: bool
  mg_direction :: string
  mg_text :: string
  mg_created :: "instant option"
  mg_sender :: "sender option"
  mg_sender_actor :: string

datatype associations = Assoc_One "string option" | Assoc_List "string option list" | Assoc_Missing

record hub_thread =
  td_id :: string
  td_tickets :: associations
  td_contact :: string
  td_status :: string
  td_spam :: bool

definition message_key :: "string \<Rightarrow> string \<Rightarrow> string \<Rightarrow> string" where
  "message_key portal thread message = ''hubspot:'' @ portal @ '':'' @ thread @ '':'' @ message"

fun associated_ticket_id :: "associations \<Rightarrow> string option" where
  "associated_ticket_id (Assoc_One t) = t"
| "associated_ticket_id (Assoc_List ts) = (case remdups (concat (map (\<lambda>t. case t of None \<Rightarrow> [] | Some x \<Rightarrow> [x]) ts)) of [t] \<Rightarrow> Some t | _ \<Rightarrow> None)"
| "associated_ticket_id Assoc_Missing = None"

definition actor_of :: "hub_message \<Rightarrow> string" where
  "actor_of m = (case mg_sender m of None \<Rightarrow> mg_sender_actor m | Some s \<Rightarrow> if sd_actor s = [] then mg_sender_actor m else sd_actor s)"

definition agent_actor :: "string \<Rightarrow> bool" where
  "agent_actor a \<longleftrightarrow> take 2 a = ''A-''"

definition ignored_reason :: "n8n_settings \<Rightarrow> hub_message \<Rightarrow> string option" where
  "ignored_reason cfg m =
     (if upper (if mg_type m = [] then ''MESSAGE'' else mg_type m) \<noteq> ''MESSAGE'' then Some ''non_message_event''
      else if mg_archived m then Some ''archived_message''
      else if upper (mg_direction m) \<noteq> ''INCOMING'' then Some ''outgoing_message''
      else if n8_bot_sender cfg \<noteq> [] \<and> actor_of m = n8_bot_sender cfg then Some ''bot_message''
      else if agent_actor (actor_of m) then Some ''agent_message''
      else if strip (mg_text m) = [] then Some ''empty_message''
      else None)"

definition delivery_identifiers :: "hub_message \<Rightarrow> string option \<times> string option \<times> string option" where
  "delivery_identifiers m =
     (case mg_sender m of
        None \<Rightarrow> (None, None, None)
      | Some s \<Rightarrow>
          (case sd_identifier s of
             None \<Rightarrow> (None, None, None)
           | Some (ty, v) \<Rightarrow>
               (if v \<noteq> [] \<and> upper ty = ''EMAIL'' then Some v else None,
                if v \<noteq> [] \<and> upper ty \<in> {''PHONE'', ''PHONE_NUMBER''} then Some v else None,
                if v \<noteq> [] \<and> upper ty \<noteq> [] then Some (lower (upper ty)) else None)))"

definition n8n_payload_of :: "webhook_event \<Rightarrow> hub_message \<Rightarrow> hub_thread \<Rightarrow> string \<Rightarrow> delivery_method \<Rightarrow> n8n_payload" where
  "n8n_payload_of e m th key how =
     (case delivery_identifiers m of (email, phone, source) \<Rightarrow>
        \<lparr>pl_event = we_pk e, pl_message = mg_id m, pl_occurred = mg_created m, pl_portal = we_portal e, pl_thread = we_thread e,
         pl_ticket = associated_ticket_id (td_tickets th), pl_method = how, pl_text = mg_text m, pl_sender = actor_of m,
         pl_email = email, pl_phone = phone, pl_identifier = source, pl_key = key\<rparr>)"

section \<open>The ledger\<close>

record ingestion =
  ig_event :: uuid
  ig_key :: "string option"
  ig_duplicate :: bool
  ig_ignored :: bool
  ig_reason :: "string option"
  ig_outbox :: "uuid option"

definition keyed_event :: "string \<Rightarrow> n8n \<Rightarrow> webhook_event option" where
  "keyed_event key s = first_row (\<lambda>e. we_key e = Some key) (nn_events s)"

text \<open>\<open>INSERT ... ON CONFLICT DO NOTHING\<close>, then the row of the key; the flag says whether it is the new one.\<close>

definition insert_event_if_absent :: "webhook_event \<Rightarrow> string \<Rightarrow> n8n \<Rightarrow> n8n \<times> webhook_event \<times> bool" where
  "insert_event_if_absent e key s =
     (case keyed_event key s of
        Some x \<Rightarrow> (s, x, False)
      | None \<Rightarrow> (s\<lparr>nn_events := nn_events s @ [e], nn_next_pk := Suc (nn_next_pk s)\<rparr>, e, True))"

definition new_event :: "uuid \<Rightarrow> string \<Rightarrow> string \<Rightarrow> string \<Rightarrow> string \<Rightarrow> delivery_method \<Rightarrow> string \<Rightarrow> webhook_event" where
  "new_event k key portal thread message how body =
     \<lparr>we_pk = k, we_key = Some key, we_object = thread, we_portal = portal, we_thread = thread, we_ticket = [], we_contact = [],
      we_message = (if message = [] then None else Some message), we_message_type = [], we_method = how, we_occurred = None,
      we_status = Lg_Received, we_ignored = [], we_body = body, we_evidence = None, we_processed = False, we_processed_at = None,
      we_error = []\<rparr>"

record envelope =
  ep_portal :: string
  ep_thread :: string
  ep_message :: string
  ep_fingerprint :: string
  ep_body :: string

definition record_hubspot_message_envelope :: "n8n_settings \<Rightarrow> instant \<Rightarrow> envelope \<Rightarrow> n8n \<Rightarrow> n8n \<times> ingestion" where
  "record_hubspot_message_envelope cfg now p s =
     (let portal = strip (if ep_portal p = [] then n8_portal cfg else ep_portal p);
          thread = strip (ep_thread p);
          message = strip (ep_message p)
      in if portal = [] \<or> thread = [] \<or> message = []
         then (case insert_event_if_absent ((new_event (nn_next_pk s) (ep_fingerprint p) portal thread message By_Webhook (ep_body p))
                     \<lparr>we_status := Lg_Ignored, we_ignored := ''missing_canonical_identifier'', we_processed := True, we_processed_at := Some now\<rparr>)
                 (ep_fingerprint p) s of
                 (s1, e, created) \<Rightarrow>
                   (s1, \<lparr>ig_event = we_pk e, ig_key = None, ig_duplicate = \<not> created, ig_ignored = True,
                         ig_reason = Some ''missing_canonical_identifier'', ig_outbox = None\<rparr>))
         else (let key = message_key portal thread message
               in case insert_event_if_absent (new_event (nn_next_pk s) key portal thread message By_Webhook (ep_body p)) key s of
                    (s1, e, created) \<Rightarrow>
                      (s1, \<lparr>ig_event = we_pk e, ig_key = Some key, ig_duplicate = \<not> created, ig_ignored = False, ig_reason = None, ig_outbox = None\<rparr>)))"

section \<open>Ingestion\<close>

definition put_event :: "webhook_event \<Rightarrow> n8n \<Rightarrow> n8n" where
  "put_event e s = s\<lparr>nn_events := save_row we_pk e (nn_events s)\<rparr>"

definition outbox_of_event :: "uuid \<Rightarrow> n8n \<Rightarrow> outbox option" where
  "outbox_of_event k s = first_row (\<lambda>x. ox_event x = k) (nn_outbox s)"

text \<open>The event with what the message and the thread say.\<close>

definition observed_event :: "n8n_settings \<Rightarrow> instant \<Rightarrow> hub_message \<Rightarrow> hub_thread \<Rightarrow> webhook_event \<Rightarrow> webhook_event" where
  "observed_event cfg now m th e =
     e\<lparr>we_ticket := opt_text (associated_ticket_id (td_tickets th)), we_contact := td_contact th, we_occurred := mg_created m,
       we_message_type := mg_type m,
       we_evidence := (if ignored_reason cfg m = Some ''outgoing_message''
                       then (if agent_actor (actor_of m) \<and> actor_of m \<noteq> n8_bot_sender cfg then Some (actor_of m) else None) else we_evidence e),
       we_processed := True, we_processed_at := Some now, we_error := [],
       we_status := (if ignored_reason cfg m = None then Lg_Ready else Lg_Ignored), we_ignored := opt_text (ignored_reason cfg m)\<rparr>"

definition new_outbox :: "n8n_settings \<Rightarrow> instant \<Rightarrow> uuid \<Rightarrow> webhook_event \<Rightarrow> string \<Rightarrow> n8n_payload \<Rightarrow> outbox" where
  "new_outbox cfg now k e key p =
     \<lparr>ox_pk = k, ox_event = we_pk e, ox_key = key, ox_payload = p, ox_status = Ox_Pending, ox_attempts = 0, ox_max = n8_max_attempts cfg,
      ox_available = now, ox_locked = None, ox_delivered_at = None, ox_dead_at = None, ox_error = [], ox_http = None, ox_created = now\<rparr>"

text \<open>\<open>get_or_create\<close> on the unique idempotency key; an event has one outbox row.\<close>

definition get_or_create_outbox :: "outbox \<Rightarrow> n8n \<Rightarrow> (n8n \<times> outbox \<times> bool) result" where
  "get_or_create_outbox x s =
     (case get_row ox_key (ox_key x) (nn_outbox s) of
        Some y \<Rightarrow> Inr (s, y, False)
      | None \<Rightarrow>
          (if outbox_of_event (ox_event x) s \<noteq> None then Inl IntegrityError
           else Inr (s\<lparr>nn_outbox := nn_outbox s @ [x], nn_next_pk := Suc (nn_next_pk s)\<rparr>, x, True)))"

definition locked_event ::
  "string \<Rightarrow> string \<Rightarrow> string \<Rightarrow> string \<Rightarrow> delivery_method \<Rightarrow> string \<Rightarrow> uuid option \<Rightarrow> n8n \<Rightarrow> (n8n \<times> webhook_event \<times> bool) result" where
  "locked_event key portal thread message how body existing s =
     (case existing of
        Some k \<Rightarrow>
          (case event_row k s of
             None \<Rightarrow> Inl DoesNotExist
           | Some e \<Rightarrow> (if we_key e \<noteq> Some key then Inl ValueError else Inr (s, e, False)))
      | None \<Rightarrow> Inr (insert_event_if_absent (new_event (nn_next_pk s) key portal thread message how body) key s))"

definition ingest_hubspot_message ::
  "n8n_settings \<Rightarrow> instant \<Rightarrow> string \<Rightarrow> hub_thread \<Rightarrow> hub_message \<Rightarrow> delivery_method \<Rightarrow> string \<Rightarrow> uuid option \<Rightarrow> n8n \<Rightarrow> (n8n \<times> ingestion) result" where
  "ingest_hubspot_message cfg now portal th m how body existing s =
     (let thread = strip (if td_id th = [] then mg_thread m else td_id th);
          message = strip (mg_id m);
          key = message_key portal thread message
      in if portal = [] \<or> thread = [] \<or> message = [] then Inl ValueError
         else and_then (locked_event key portal thread message how body existing s) (\<lambda>(s1, e, created).
           if \<not> created \<and> we_status e \<in> {Lg_Ready, Lg_Ignored}
           then Inr (s1, \<lparr>ig_event = we_pk e, ig_key = Some key, ig_duplicate = True, ig_ignored = (we_status e = Lg_Ignored),
                          ig_reason = (if we_ignored e = [] then None else Some (we_ignored e)),
                          ig_outbox = map_option ox_pk (outbox_of_event (we_pk e) s1)\<rparr>)
           else (let e1 = observed_event cfg now m th e; s2 = put_event e1 s1
                 in case ignored_reason cfg m of
                      Some why \<Rightarrow>
                        Inr (s2, \<lparr>ig_event = we_pk e, ig_key = Some key, ig_duplicate = False, ig_ignored = True, ig_reason = Some why, ig_outbox = None\<rparr>)
                    | None \<Rightarrow>
                        and_then (get_or_create_outbox (new_outbox cfg now (nn_next_pk s2) e1 key (n8n_payload_of e1 m th key (we_method e))) s2)
                          (\<lambda>(s3, x, made).
                             Inr (s3, \<lparr>ig_event = we_pk e, ig_key = Some key, ig_duplicate = \<not> made, ig_ignored = False, ig_reason = None,
                                       ig_outbox = Some (ox_pk x)\<rparr>)))))"

section \<open>Hydration\<close>

text \<open>\<open>fetch\<close> is what HubSpot answers for the thread and the message of the envelope.\<close>

definition hydrate_webhook_message_event ::
  "n8n_settings \<Rightarrow> instant \<Rightarrow> (hub_thread \<times> hub_message) result \<Rightarrow> uuid \<Rightarrow> n8n \<Rightarrow> n8n \<times> bool result" where
  "hydrate_webhook_message_event cfg now fetch k s =
     (case event_row k s of
        None \<Rightarrow> (s, Inr False)
      | Some e \<Rightarrow>
          (if we_status e \<in> {Lg_Ready, Lg_Ignored} then (s, Inr True)
           else if we_portal e = [] \<or> we_thread e = [] \<or> we_message e = None \<or> we_message e = Some [] then (s, Inr False)
           else case and_then fetch (\<lambda>(th, m). ingest_hubspot_message cfg now (we_portal e) th m By_Webhook (we_body e) (Some k) s) of
                  Inr (s1, r) \<Rightarrow> (s1, Inr True)
                | Inl err \<Rightarrow>
                    (s\<lparr>nn_events := update_rows (\<lambda>x. we_pk x = k \<and> we_status x \<notin> {Lg_Ready, Lg_Ignored})
                         (\<lambda>x. x\<lparr>we_status := Lg_Error, we_error := ''error''\<rparr>) (nn_events s)\<rparr>, Inl err)))"

section \<open>The ledger is keyed\<close>

definition keyed_rows :: "n8n \<Rightarrow> webhook_event list" where
  "keyed_rows s = filter (\<lambda>e. we_key e \<noteq> None) (nn_events s)"

type_synonym arrival = "string \<times> string \<times> string \<times> delivery_method \<times> string"

fun arrival_key :: "arrival \<Rightarrow> string option" where
  "arrival_key (portal, thread, message, how, body) = Some (message_key portal thread message)"

fun add_arrival :: "arrival \<Rightarrow> n8n \<Rightarrow> n8n \<times> webhook_event" where
  "add_arrival (portal, thread, message, how, body) s =
     (let key = message_key portal thread message
      in case insert_event_if_absent (new_event (nn_next_pk s) key portal thread message how body) key s of (s1, e, created) \<Rightarrow> (s1, e))"

lemma keyed_event_Some: "keyed_event key s = Some e \<Longrightarrow> e \<in> set (keyed_rows s) \<and> e \<in> set (nn_events s) \<and> we_key e = Some key"
  unfolding keyed_event_def keyed_rows_def using first_row_Some [of _ _ e] by fastforce

lemma keyed_event_None: "keyed_event key s = None \<longleftrightarrow> (\<forall>e \<in> set (nn_events s). we_key e \<noteq> Some key)"
  by (simp add: keyed_event_def first_row_None)

lemma keyed_unique:
  assumes "distinct (map we_key (keyed_rows s))" and "e \<in> set (nn_events s)" and "f \<in> set (nn_events s)" and "we_key e = Some key" and "we_key f = Some key"
  shows "e = f"
proof -
  have "e \<in> set (keyed_rows s)" "f \<in> set (keyed_rows s)" using assms(2-5) by (simp_all add: keyed_rows_def)
  then show ?thesis using assms(1,4,5) by (metis get_row_distinct option.inject)
qed

interpretation message_ledger: unique_ledger keyed_rows we_key arrival_key add_arrival
proof unfold_locales
  fix s :: n8n and r :: webhook_event and q :: arrival
  obtain portal thread message how body where q: "q = (portal, thread, message, how, body)" by (metis prod_cases5)
  let ?key = "message_key portal thread message"
  show "distinct (map we_key (keyed_rows s)) \<Longrightarrow> r \<in> set (keyed_rows s) \<Longrightarrow> we_key r = arrival_key q \<Longrightarrow> add_arrival q s = (s, r)"
  proof -
    assume d: "distinct (map we_key (keyed_rows s))" and r: "r \<in> set (keyed_rows s)" "we_key r = arrival_key q"
    then have m: "r \<in> set (nn_events s)" "we_key r = Some ?key" by (simp_all add: keyed_rows_def q)
    then obtain e where e: "keyed_event ?key s = Some e" by (cases "keyed_event ?key s") (auto simp: keyed_event_None)
    then have "e = r" using keyed_unique [OF d _ m(1) _ m(2)] keyed_event_Some [OF e] by blast
    then show ?thesis using e by (simp add: q insert_event_if_absent_def Let_def)
  qed
  show "(\<And>r. r \<in> set (keyed_rows s) \<Longrightarrow> we_key r \<noteq> arrival_key q) \<Longrightarrow>
      we_key (snd (add_arrival q s)) = arrival_key q \<and> keyed_rows (fst (add_arrival q s)) = keyed_rows s @ [snd (add_arrival q s)]"
  proof -
    assume "\<And>r. r \<in> set (keyed_rows s) \<Longrightarrow> we_key r \<noteq> arrival_key q"
    then have "keyed_event ?key s = None" unfolding keyed_event_None by (auto simp: keyed_rows_def q)
    then show ?thesis by (simp add: q insert_event_if_absent_def Let_def keyed_rows_def new_event_def)
  qed
qed

section \<open>Every message has one delivery\<close>

definition settled :: "webhook_event \<Rightarrow> bool" where
  "settled e \<longleftrightarrow> we_status e \<in> {Lg_Ready, Lg_Ignored}"

definition inbox_ok :: "n8n \<Rightarrow> bool" where
  "inbox_ok s \<longleftrightarrow> distinct (map we_pk (nn_events s)) \<and> distinct (map we_key (keyed_rows s)) \<and> (\<forall>e \<in> set (nn_events s). we_pk e < nn_next_pk s) \<and>
     distinct (map ox_pk (nn_outbox s)) \<and> distinct (map ox_key (nn_outbox s)) \<and> distinct (map ox_event (nn_outbox s)) \<and>
     (\<forall>x \<in> set (nn_outbox s). ox_pk x < nn_next_pk s) \<and>
     (\<forall>x \<in> set (nn_outbox s). \<exists>e \<in> set (nn_events s). we_pk e = ox_event x \<and> we_key e = Some (ox_key x) \<and> we_status e = Lg_Ready) \<and>
     (\<forall>e \<in> set (nn_events s). we_status e = Lg_Ready \<longrightarrow> (\<exists>x \<in> set (nn_outbox s). ox_event x = we_pk e))"

lemma event_row_mem: "event_row k s = Some e \<Longrightarrow> e \<in> set (nn_events s) \<and> we_pk e = k"
  unfolding event_row_def by (rule get_row_Some_in)

lemma inbox_event_unique: "inbox_ok s \<Longrightarrow> e \<in> set (nn_events s) \<Longrightarrow> f \<in> set (nn_events s) \<Longrightarrow> we_pk e = we_pk f \<Longrightarrow> e = f"
  unfolding inbox_ok_def by (metis get_row_distinct option.inject)

lemma insert_event_ok:
  assumes ok: "inbox_ok s" and new: "we_pk e = nn_next_pk s" "we_key e = Some key" "we_status e \<noteq> Lg_Ready"
    and ins: "insert_event_if_absent e key s = (s1, f, created)"
  shows "inbox_ok s1" and "f \<in> set (nn_events s1)" and "we_key f = Some key" and "nn_outbox s1 = nn_outbox s" and "nn_locks s1 = nn_locks s"
    and "set (nn_events s) \<subseteq> set (nn_events s1)" and "created \<Longrightarrow> f = e" and "\<not> created \<Longrightarrow> s1 = s"
proof -
  have "inbox_ok s1 \<and> f \<in> set (nn_events s1) \<and> we_key f = Some key \<and> nn_outbox s1 = nn_outbox s \<and> nn_locks s1 = nn_locks s \<and>
      set (nn_events s) \<subseteq> set (nn_events s1) \<and> (created \<longrightarrow> f = e) \<and> (\<not> created \<longrightarrow> s1 = s)"
  proof (cases "keyed_event key s")
    case (Some x)
    then show ?thesis using ins ok keyed_event_Some [OF Some] by (auto simp: insert_event_if_absent_def)
  next
    case None
    then have s1: "s1 = s\<lparr>nn_events := nn_events s @ [e], nn_next_pk := Suc (nn_next_pk s)\<rparr>" "f = e" "created"
      using ins by (auto simp: insert_event_if_absent_def)
    have "Some key \<notin> we_key ` set (keyed_rows s)" using None by (auto simp: keyed_event_None keyed_rows_def)
    moreover have "keyed_rows s1 = keyed_rows s @ [e]" by (simp add: s1 keyed_rows_def new(2))
    ultimately have "distinct (map we_key (keyed_rows s1))" using ok new(2) by (simp add: inbox_ok_def)
    moreover have "nn_next_pk s \<notin> we_pk ` set (nn_events s)" using ok by (auto simp: inbox_ok_def)
    ultimately have "inbox_ok s1" using ok new by (auto simp: inbox_ok_def s1 less_Suc_eq)
    then show ?thesis using new(2) by (auto simp: s1)
  qed
  then show "inbox_ok s1" "f \<in> set (nn_events s1)" "we_key f = Some key" "nn_outbox s1 = nn_outbox s" "nn_locks s1 = nn_locks s"
    "set (nn_events s) \<subseteq> set (nn_events s1)" "created \<Longrightarrow> f = e" "\<not> created \<Longrightarrow> s1 = s" by auto
qed

lemma keys_put_event:
  assumes ok: "inbox_ok s" and e: "e \<in> set (nn_events s)" and f: "we_pk f = we_pk e" "we_key f = we_key e"
  shows "map we_key (keyed_rows (put_event f s)) = map we_key (keyed_rows s)"
proof -
  have keys: "map we_key (save_row we_pk f rows) = map we_key rows" if "set rows \<subseteq> set (nn_events s)" for rows
    using that f inbox_event_unique [OF ok _ e] by (induction rows) (auto simp: save_row_def)
  have "map we_key (filter (\<lambda>e. we_key e \<noteq> None) rows) = filter (\<lambda>k. k \<noteq> None) (map we_key rows)" for rows :: "webhook_event list"
    by (induction rows) auto
  then show ?thesis unfolding keyed_rows_def put_event_def using keys [of "nn_events s"] by simp
qed

text \<open>Changing an unsettled event, without making it ready.\<close>

lemma put_event_ok:
  assumes ok: "inbox_ok s" and e: "e \<in> set (nn_events s)" "we_status e \<noteq> Lg_Ready" and f: "we_pk f = we_pk e" "we_key f = we_key e" "we_status f \<noteq> Lg_Ready"
  shows "inbox_ok (put_event f s)"
proof -
  note keyed = keys_put_event [OF ok e(1) f(1,2)]
  have "\<exists>e' \<in> set (nn_events (put_event f s)). we_pk e' = ox_event x \<and> we_key e' = Some (ox_key x) \<and> we_status e' = Lg_Ready"
    if x: "x \<in> set (nn_outbox s)" for x
  proof -
    obtain e' where e': "e' \<in> set (nn_events s)" "we_pk e' = ox_event x" "we_key e' = Some (ox_key x)" "we_status e' = Lg_Ready"
      using ok x by (auto simp: inbox_ok_def)
    then have "we_pk e' \<noteq> we_pk f" using inbox_event_unique [OF ok e'(1) e(1)] e(2) f(1) by auto
    then have "e' \<in> set (nn_events (put_event f s))" using e'(1) by (auto simp: put_event_def save_row_def)
    then show ?thesis using e' by blast
  qed
  then show ?thesis using ok keyed f e by (auto simp: inbox_ok_def put_event_def dest!: in_save_row)
qed

text \<open>Making an unsettled event ready, with the outbox row of the message.\<close>

lemma no_outbox_yet:
  assumes ok: "inbox_ok s" and e: "e \<in> set (nn_events s)" "we_key e = Some key" "we_status e \<noteq> Lg_Ready"
  shows "x \<in> set (nn_outbox s) \<Longrightarrow> ox_event x \<noteq> we_pk e \<and> ox_key x \<noteq> key"
proof -
  assume "x \<in> set (nn_outbox s)"
  then obtain f where f: "f \<in> set (nn_events s)" "we_pk f = ox_event x" "we_key f = Some (ox_key x)" "we_status f = Lg_Ready"
    using ok by (auto simp: inbox_ok_def)
  then have "f \<noteq> e" using e(3) by auto
  then show ?thesis
    using f inbox_event_unique [OF ok f(1) e(1)] keyed_unique [OF _ f(1) e(1), of key] e(2) ok by (auto simp: inbox_ok_def)
qed

lemma ready_event_ok:
  assumes ok: "inbox_ok s" and e: "e \<in> set (nn_events s)" "we_key e = Some key" "we_status e \<noteq> Lg_Ready"
    and f: "we_pk f = we_pk e" "we_key f = we_key e" "we_status f = Lg_Ready" and x: "ox_pk x = nn_next_pk s" "ox_event x = we_pk e" "ox_key x = key"
  shows "inbox_ok ((put_event f s)\<lparr>nn_outbox := nn_outbox s @ [x], nn_next_pk := Suc (nn_next_pk s)\<rparr>)" (is "inbox_ok ?s")
proof -
  note none = no_outbox_yet [OF ok e]
  have events: "nn_events ?s = save_row we_pk f (nn_events s)" by (simp add: put_event_def)
  have mem: "f \<in> set (nn_events ?s)" using e(1) f(1) by (force simp: events save_row_def)
  have keep: "e' \<in> set (nn_events ?s)" if "e' \<in> set (nn_events s)" "we_pk e' \<noteq> we_pk e" for e'
    using that f(1) by (auto simp: events save_row_def)
  have "distinct (map we_key (keyed_rows ?s))" using keys_put_event [OF ok e(1) f(1,2)] ok by (simp add: inbox_ok_def keyed_rows_def)
  moreover have "distinct (map we_pk (nn_events ?s))" "\<forall>e' \<in> set (nn_events ?s). we_pk e' < nn_next_pk ?s"
    using ok e(1) f(1) by (auto simp: events inbox_ok_def less_Suc_eq dest!: in_save_row)
  moreover have "distinct (map ox_pk (nn_outbox ?s))" "\<forall>y \<in> set (nn_outbox ?s). ox_pk y < nn_next_pk ?s"
    using ok x(1) by (auto simp: inbox_ok_def less_Suc_eq)
  moreover have "ox_key x \<notin> ox_key ` set (nn_outbox s)" "ox_event x \<notin> ox_event ` set (nn_outbox s)" using none x(2,3) by fastforce+
  then have "distinct (map ox_key (nn_outbox ?s))" "distinct (map ox_event (nn_outbox ?s))" using ok by (simp_all add: inbox_ok_def)
  moreover have "\<forall>y \<in> set (nn_outbox ?s). \<exists>e' \<in> set (nn_events ?s). we_pk e' = ox_event y \<and> we_key e' = Some (ox_key y) \<and> we_status e' = Lg_Ready"
  proof
    fix y
    assume "y \<in> set (nn_outbox ?s)"
    then consider "y \<in> set (nn_outbox s)" | "y = x" by auto
    then show "\<exists>e' \<in> set (nn_events ?s). we_pk e' = ox_event y \<and> we_key e' = Some (ox_key y) \<and> we_status e' = Lg_Ready"
    proof cases
      case 1
      then obtain e' where "e' \<in> set (nn_events s)" "we_pk e' = ox_event y" "we_key e' = Some (ox_key y)" "we_status e' = Lg_Ready"
        using ok by (auto simp: inbox_ok_def)
      then show ?thesis using keep none [OF 1] by metis
    next
      case 2
      then show ?thesis using mem f e(2) x by metis
    qed
  qed
  moreover have "\<forall>e' \<in> set (nn_events ?s). we_status e' = Lg_Ready \<longrightarrow> (\<exists>y \<in> set (nn_outbox ?s). ox_event y = we_pk e')"
    using ok f(1) x(2) by (auto simp: events inbox_ok_def dest!: in_save_row)
  ultimately show ?thesis by (simp add: inbox_ok_def)
qed

section \<open>Ingestion\<close>

lemma observed_event_frame [simp]:
  "we_pk (observed_event cfg now m th e) = we_pk e" "we_key (observed_event cfg now m th e) = we_key e"
  "we_status (observed_event cfg now m th e) = (if ignored_reason cfg m = None then Lg_Ready else Lg_Ignored)"
  by (simp_all add: observed_event_def)

lemma locked_event_ok:
  assumes ok: "inbox_ok s" and l: "locked_event key portal thread message how body existing s = Inr (s1, e, created)"
  shows "inbox_ok s1" and "e \<in> set (nn_events s1)" and "we_key e = Some key" and "nn_outbox s1 = nn_outbox s"
    and "set (nn_events s) \<subseteq> set (nn_events s1)" and "created \<Longrightarrow> \<not> settled e" and "\<not> created \<Longrightarrow> s1 = s"
proof -
  have "inbox_ok s1 \<and> e \<in> set (nn_events s1) \<and> we_key e = Some key \<and> nn_outbox s1 = nn_outbox s \<and>
      set (nn_events s) \<subseteq> set (nn_events s1) \<and> (created \<longrightarrow> \<not> settled e) \<and> (\<not> created \<longrightarrow> s1 = s)"
  proof (cases existing)
    case None
    then have i: "insert_event_if_absent (new_event (nn_next_pk s) key portal thread message how body) key s = (s1, e, created)"
      using l by (simp add: locked_event_def)
    show ?thesis using insert_event_ok [OF ok _ _ _ i] by (auto simp: new_event_def settled_def)
  next
    case (Some k)
    then show ?thesis using l ok event_row_mem by (auto simp: locked_event_def split: option.splits if_splits)
  qed
  then show "inbox_ok s1" "e \<in> set (nn_events s1)" "we_key e = Some key" "nn_outbox s1 = nn_outbox s"
    "set (nn_events s) \<subseteq> set (nn_events s1)" "created \<Longrightarrow> \<not> settled e" "\<not> created \<Longrightarrow> s1 = s" by auto
qed

lemma put_event_keeps: "e' \<in> set (nn_events s) \<Longrightarrow> we_pk e' \<noteq> we_pk f \<Longrightarrow> e' \<in> set (nn_events (put_event f s))"
  by (auto simp: put_event_def save_row_def)

lemma put_event_in: "e \<in> set (nn_events s) \<Longrightarrow> we_pk f = we_pk e \<Longrightarrow> f \<in> set (nn_events (put_event f s))"
  by (force simp: put_event_def save_row_def)

text \<open>The part of the ingestion after the event is locked.\<close>

lemma ingest_locked:
  assumes ids: "portal \<noteq> []" "strip (if td_id th = [] then mg_thread m else td_id th) = thread" "thread \<noteq> []"
      "strip (mg_id m) = message" "message \<noteq> []" "message_key portal thread message = key"
    and l: "locked_event key portal thread message how body existing s = Inr (s1, e, created)" and c: "created \<Longrightarrow> \<not> settled e"
  shows "ingest_hubspot_message cfg now portal th m how body existing s =
    (if settled e
     then Inr (s1, \<lparr>ig_event = we_pk e, ig_key = Some key, ig_duplicate = True, ig_ignored = (we_status e = Lg_Ignored),
       ig_reason = (if we_ignored e = [] then None else Some (we_ignored e)), ig_outbox = map_option ox_pk (outbox_of_event (we_pk e) s1)\<rparr>)
     else case ignored_reason cfg m of
       Some why \<Rightarrow> Inr (put_event (observed_event cfg now m th e) s1,
         \<lparr>ig_event = we_pk e, ig_key = Some key, ig_duplicate = False, ig_ignored = True, ig_reason = Some why, ig_outbox = None\<rparr>)
     | None \<Rightarrow>
         and_then (get_or_create_outbox (new_outbox cfg now (nn_next_pk s1) (observed_event cfg now m th e) key
             (n8n_payload_of (observed_event cfg now m th e) m th key (we_method e))) (put_event (observed_event cfg now m th e) s1))
           (\<lambda>(s3, x, made). Inr (s3, \<lparr>ig_event = we_pk e, ig_key = Some key, ig_duplicate = \<not> made, ig_ignored = False, ig_reason = None,
              ig_outbox = Some (ox_pk x)\<rparr>)))"
proof -
  have pk: "nn_next_pk (put_event (observed_event cfg now m th e) s1) = nn_next_pk s1" by (simp add: put_event_def)
  have "(\<not> created \<and> we_status e \<in> {Lg_Ready, Lg_Ignored}) = settled e" using c by (auto simp: settled_def)
  then show ?thesis unfolding ingest_hubspot_message_def Let_def ids(2,4,6) using ids(1,3,5) l pk by (simp cong: option.case_cong)
qed

lemma ingest_effect:
  assumes ok: "inbox_ok s" and ids: "portal \<noteq> []" "thread = strip (if td_id th = [] then mg_thread m else td_id th)" "thread \<noteq> []"
      "message = strip (mg_id m)" "message \<noteq> []" "key = message_key portal thread message"
    and l: "locked_event key portal thread message how body existing s = Inr (s1, e, created)"
  shows "if settled e
    then ingest_hubspot_message cfg now portal th m how body existing s =
      Inr (s1, \<lparr>ig_event = we_pk e, ig_key = Some key, ig_duplicate = True, ig_ignored = (we_status e = Lg_Ignored),
        ig_reason = (if we_ignored e = [] then None else Some (we_ignored e)), ig_outbox = map_option ox_pk (outbox_of_event (we_pk e) s1)\<rparr>)
    else \<exists>s2 r. ingest_hubspot_message cfg now portal th m how body existing s = Inr (s2, r) \<and> inbox_ok s2 \<and>
      ig_event r = we_pk e \<and> ig_key r = Some key \<and> \<not> ig_duplicate r \<and> ig_reason r = ignored_reason cfg m \<and> ig_ignored r = (ignored_reason cfg m \<noteq> None) \<and>
      nn_events s2 = nn_events (put_event (observed_event cfg now m th e) s1) \<and>
      (if ignored_reason cfg m = None
       then \<exists>x. ig_outbox r = Some (ox_pk x) \<and> nn_outbox s2 = nn_outbox s @ [x] \<and> ox_event x = we_pk e \<and> ox_key x = key \<and> ox_status x = Ox_Pending \<and>
         ox_attempts x = 0 \<and> ox_available x = now \<and>
         ox_payload x = n8n_payload_of (observed_event cfg now m th e) m th key (we_method e)
       else ig_outbox r = None \<and> nn_outbox s2 = nn_outbox s)"
proof -
  note lk = locked_event_ok [OF ok l]
  note eq = ingest_locked [OF ids(1) ids(2) [symmetric] ids(3) ids(4) [symmetric] ids(5) ids(6) [symmetric] l lk(6), of cfg now]
  let ?e = "observed_event cfg now m th e"
  let ?s = "put_event ?e s1"
  have frame: "nn_outbox ?s = nn_outbox s" "nn_next_pk ?s = nn_next_pk s1" by (simp_all add: put_event_def lk(4))
  show ?thesis
  proof (cases "settled e")
    case True
    then show ?thesis using eq by simp
  next
    case fresh: False
    then have unready: "we_status e \<noteq> Lg_Ready" by (simp add: settled_def)
    show ?thesis
    proof (cases "ignored_reason cfg m")
      case (Some why)
      moreover have "inbox_ok ?s" by (rule put_event_ok [OF lk(1,2) unready]) (simp_all add: Some)
      ultimately show ?thesis using fresh frame by (simp add: eq)
    next
      case None
      let ?x = "new_outbox cfg now (nn_next_pk s1) ?e key (n8n_payload_of ?e m th key (we_method e))"
      have x: "ox_pk ?x = nn_next_pk s1" "ox_event ?x = we_pk e" "ox_key ?x = key" by (simp_all add: new_outbox_def)
      have "get_row ox_key key (nn_outbox s) = None" "outbox_of_event (we_pk e) ?s = None"
        using no_outbox_yet [OF lk(1-3) unready] lk(4) frame(1) by (auto simp: get_row_None outbox_of_event_def first_row_None)
      then have "get_or_create_outbox ?x ?s = Inr (?s\<lparr>nn_outbox := nn_outbox s @ [?x], nn_next_pk := Suc (nn_next_pk s1)\<rparr>, ?x, True)"
        using x frame by (simp add: get_or_create_outbox_def)
      moreover have "inbox_ok (?s\<lparr>nn_outbox := nn_outbox s @ [?x], nn_next_pk := Suc (nn_next_pk s1)\<rparr>)"
        using ready_event_ok [OF lk(1-3) unready _ _ _ x, of ?e] None lk(4) by simp
      moreover have "ox_status ?x = Ox_Pending" "ox_attempts ?x = 0" "ox_available ?x = now"
          "ox_payload ?x = n8n_payload_of ?e m th key (we_method e)" by (simp_all add: new_outbox_def)
      ultimately show ?thesis using fresh x None by (simp add: eq)
    qed
  qed
qed

section \<open>Histories\<close>

text \<open>What the workers do to the ledger and the outbox: record the envelope of a webhook, hydrate it,
  ingest a message of the reconciliation, and deliver.  A step that raises has no effect of its own.\<close>

datatype inbox_work =
    Receive instant envelope
  | Hydrate instant "(hub_thread \<times> hub_message) result" uuid
  | Reconcile instant string hub_thread hub_message string
  | Deliver delivery

fun inbox_step :: "n8n_settings \<Rightarrow> inbox_work \<Rightarrow> n8n \<Rightarrow> n8n" where
  "inbox_step cfg (Receive now p) s = fst (record_hubspot_message_envelope cfg now p s)"
| "inbox_step cfg (Hydrate now fetch k) s = fst (hydrate_webhook_message_event cfg now fetch k s)"
| "inbox_step cfg (Reconcile now portal th m body) s =
     (case ingest_hubspot_message cfg now portal th m By_Reconciliation body None s of Inl err \<Rightarrow> s | Inr (s', r) \<Rightarrow> s')"
| "inbox_step cfg (Deliver d) s = delivery_step cfg d s"

text \<open>No event is lost, a settled event never changes, and no outbox row loses its body.\<close>

definition extends_inbox :: "n8n \<Rightarrow> n8n \<Rightarrow> bool" where
  "extends_inbox s s' \<longleftrightarrow> (\<forall>e \<in> set (nn_events s). \<exists>e' \<in> set (nn_events s'). we_pk e' = we_pk e \<and> we_key e' = we_key e \<and> (settled e \<longrightarrow> e' = e)) \<and>
     set (map body_of (nn_outbox s)) \<subseteq> set (map body_of (nn_outbox s'))"

lemma extends_inbox_refl [simp]: "extends_inbox s s"
  by (auto simp: extends_inbox_def)

lemma extends_inbox_trans: "extends_inbox s s1 \<Longrightarrow> extends_inbox s1 s2 \<Longrightarrow> extends_inbox s s2"
  unfolding extends_inbox_def by (intro conjI ballI; fastforce)

lemma extends_inbox_more: "set (nn_events s) \<subseteq> set (nn_events s') \<Longrightarrow> set (nn_outbox s) \<subseteq> set (nn_outbox s') \<Longrightarrow> extends_inbox s s'"
  by (auto simp: extends_inbox_def)

lemma extends_inbox_put:
  assumes "inbox_ok s" and "e \<in> set (nn_events s)" and "\<not> settled e" and "we_pk f = we_pk e" and "we_key f = we_key e"
    and "nn_events s' = nn_events (put_event f s)" and "set (nn_outbox s) \<subseteq> set (nn_outbox s')"
  shows "extends_inbox s s'"
proof -
  have "\<exists>e'' \<in> set (nn_events s'). we_pk e'' = we_pk e' \<and> we_key e'' = we_key e' \<and> (settled e' \<longrightarrow> e'' = e')" if "e' \<in> set (nn_events s)" for e'
  proof (cases "we_pk e' = we_pk e")
    case True
    then have "e' = e" using inbox_event_unique [OF assms(1) that assms(2)] by simp
    then show ?thesis using assms(3-6) put_event_in [OF assms(2,4)] by auto
  next
    case False
    then show ?thesis using put_event_keeps [OF that, of f] assms(4,6) by auto
  qed
  then show ?thesis using assms(7) by (auto simp: extends_inbox_def)
qed

lemma ingest_step:
  assumes ok: "inbox_ok s" and i: "ingest_hubspot_message cfg now portal th m how body existing s = Inr (s', r)"
  shows "inbox_ok s' \<and> extends_inbox s s'"
proof -
  let ?thread = "strip (if td_id th = [] then mg_thread m else td_id th)"
  let ?message = "strip (mg_id m)"
  let ?key = "message_key portal ?thread ?message"
  have ids: "portal \<noteq> []" "?thread \<noteq> []" "?message \<noteq> []" using i by (auto simp: ingest_hubspot_message_def Let_def split: if_splits)
  have "locked_event ?key portal ?thread ?message how body existing s \<noteq> Inl err" for err
    using i ids by (auto simp: ingest_hubspot_message_def Let_def)
  then obtain s1 e created where l: "locked_event ?key portal ?thread ?message how body existing s = Inr (s1, e, created)"
    by (cases "locked_event ?key portal ?thread ?message how body existing s") auto
  note lk = locked_event_ok [OF ok l]
  note eff = ingest_effect [OF ok ids(1) refl ids(2) refl ids(3) refl l, of cfg now]
  have grow: "extends_inbox s s1" using lk(4,5) by (simp add: extends_inbox_more)
  show ?thesis
  proof (cases "settled e")
    case True
    then show ?thesis using eff i lk(1) grow by simp
  next
    case False
    then have s': "inbox_ok s'" "nn_events s' = nn_events (put_event (observed_event cfg now m th e) s1)" "set (nn_outbox s) \<subseteq> set (nn_outbox s')"
      using eff i by (auto split: if_splits)
    then have "extends_inbox s1 s'"
      by (intro extends_inbox_put [OF lk(1,2) False _ _ s'(2)]) (simp_all add: lk(4))
    then show ?thesis using s'(1) extends_inbox_trans [OF grow] by blast
  qed
qed

lemma receive_step:
  assumes ok: "inbox_ok s"
  shows "inbox_ok (fst (record_hubspot_message_envelope cfg now p s)) \<and> extends_inbox s (fst (record_hubspot_message_envelope cfg now p s))"
proof -
  have step: "inbox_ok (fst (insert_event_if_absent e key s)) \<and> extends_inbox s (fst (insert_event_if_absent e key s))"
    if new: "we_pk e = nn_next_pk s" "we_key e = Some key" "we_status e \<noteq> Lg_Ready" for e :: webhook_event and key
  proof -
    obtain s1 f created where i: "insert_event_if_absent e key s = (s1, f, created)" by (metis prod_cases3)
    note ins = insert_event_ok [OF ok new i]
    show ?thesis using ins(1,4,6) i by (simp add: extends_inbox_more)
  qed
  define ids where "ids = (strip (if ep_portal p = [] then n8_portal cfg else ep_portal p), strip (ep_thread p), strip (ep_message p))"
  obtain portal thread message where [simp]: "ids = (portal, thread, message)" by (metis prod_cases3)
  have eq: "strip (if ep_portal p = [] then n8_portal cfg else ep_portal p) = portal" "strip (ep_thread p) = thread" "strip (ep_message p) = message"
    using ids_def by simp_all
  show ?thesis
  proof (cases "portal = [] \<or> thread = [] \<or> message = []")
    case True
    let ?e = "(new_event (nn_next_pk s) (ep_fingerprint p) portal thread message By_Webhook (ep_body p))
        \<lparr>we_status := Lg_Ignored, we_ignored := ''missing_canonical_identifier'', we_processed := True, we_processed_at := Some now\<rparr>"
    have "fst (record_hubspot_message_envelope cfg now p s) = fst (insert_event_if_absent ?e (ep_fingerprint p) s)"
      using True unfolding record_hubspot_message_envelope_def Let_def eq by (simp add: split_def)
    then show ?thesis using step [of ?e "ep_fingerprint p"] by (simp add: new_event_def)
  next
    case False
    let ?key = "message_key portal thread message"
    let ?e = "new_event (nn_next_pk s) ?key portal thread message By_Webhook (ep_body p)"
    have "fst (record_hubspot_message_envelope cfg now p s) = fst (insert_event_if_absent ?e ?key s)"
      using False unfolding record_hubspot_message_envelope_def Let_def eq by (simp add: split_def)
    then show ?thesis using step [of ?e ?key] by (simp add: new_event_def)
  qed
qed

lemma put_outbox_bodies:
  assumes "distinct (map ox_pk (nn_outbox s))" and "outbox_row k s = Some x" and "body_of y = body_of x"
  shows "map body_of (nn_outbox (put_outbox y s)) = map body_of (nn_outbox s)"
proof -
  have x: "x \<in> set (nn_outbox s)" using assms(2) unfolding outbox_row_def by (rule get_row_mem)
  have pk: "ox_pk y = ox_pk x" using assms(3) by (simp add: body_of_def)
  have "body_of (if ox_pk z = ox_pk y then y else z) = body_of z" if "z \<in> set (nn_outbox s)" for z
  proof (cases "ox_pk z = ox_pk x")
    case True
    then have "z = x" using assms(1) x that by (metis distinct_map inj_onD)
    then show ?thesis using assms(3) by simp
  qed (simp add: pk)
  then show ?thesis by (simp add: put_outbox_def save_row_def)
qed

lemma delivery_step_bodies:
  assumes "distinct (map ox_pk (nn_outbox s))"
  shows "map body_of (nn_outbox (delivery_step cfg d s)) = map body_of (nn_outbox s) \<and> nn_next_pk (delivery_step cfg d s) = nn_next_pk s"
proof (cases d)
  case (Claim j now)
  then show ?thesis
    by (cases rule: claim_cases [of cfg now j s]) (auto simp: put_outbox_bodies [OF assms] put_outbox_def [of _ s] put_outbox_bodies [OF assms, unfolded put_outbox_def, simplified])
next
  case (Conclude c now jitter ans)
  show ?thesis
  proof (cases rule: conclude_delivery_cases [of cfg c now jitter ans s])
    case unchanged
    then show ?thesis by (simp add: Conclude del: delivery_step.simps)
  next
    case (recorded x x')
    then have "body_of x' = body_of x" by auto
    from put_outbox_bodies [OF assms recorded(1) this] show ?thesis
      unfolding Conclude recorded(3) by (simp add: release_claim_def put_outbox_def)
  qed
qed

lemma body_projections:
  assumes "map body_of xs = map body_of ys"
  shows "map ox_pk xs = map ox_pk ys" and "map ox_key xs = map ox_key ys" and "map ox_event xs = map ox_event ys"
proof -
  have "map ox_pk zs = map fst (map body_of zs)" "map ox_key zs = map (fst \<circ> snd \<circ> snd) (map body_of zs)"
      "map ox_event zs = map (fst \<circ> snd) (map body_of zs)" for zs
    by (simp_all add: body_of_def)
  then show "map ox_pk xs = map ox_pk ys" "map ox_key xs = map ox_key ys" "map ox_event xs = map ox_event ys"
    using assms by metis+
qed

text \<open>Deliveries, which change no identity, keep the ledger as it is.\<close>

definition outbox_ids :: "outbox list \<Rightarrow> (uuid \<times> string \<times> uuid) set" where
  "outbox_ids xs = (\<lambda>x. (ox_pk x, ox_key x, ox_event x)) ` set xs"

lemma inbox_ok_ids:
  "inbox_ok s \<longleftrightarrow> distinct (map we_pk (nn_events s)) \<and> distinct (map we_key (keyed_rows s)) \<and> (\<forall>e \<in> set (nn_events s). we_pk e < nn_next_pk s) \<and>
     distinct (map ox_pk (nn_outbox s)) \<and> distinct (map ox_key (nn_outbox s)) \<and> distinct (map ox_event (nn_outbox s)) \<and>
     (\<forall>(k, key, ev) \<in> outbox_ids (nn_outbox s). k < nn_next_pk s) \<and>
     (\<forall>(k, key, ev) \<in> outbox_ids (nn_outbox s). \<exists>e \<in> set (nn_events s). we_pk e = ev \<and> we_key e = Some key \<and> we_status e = Lg_Ready) \<and>
     (\<forall>e \<in> set (nn_events s). we_status e = Lg_Ready \<longrightarrow> (\<exists>(k, key, ev) \<in> outbox_ids (nn_outbox s). ev = we_pk e))"
  by (simp add: inbox_ok_def outbox_ids_def)

lemma inbox_ok_bodies:
  assumes "inbox_ok s" and "map body_of (nn_outbox s') = map body_of (nn_outbox s)" and "nn_events s' = nn_events s" and "nn_next_pk s' = nn_next_pk s"
  shows "inbox_ok s'"
proof -
  have "outbox_ids xs = (\<lambda>(a, b, c, d). (a, c, b)) ` set (map body_of xs)" for xs
    by (auto simp: outbox_ids_def body_of_def image_image)
  then have "outbox_ids (nn_outbox s') = outbox_ids (nn_outbox s)" using assms(2) by metis
  then show ?thesis using assms(1) body_projections [OF assms(2)] assms(3,4) by (simp add: inbox_ok_ids keyed_rows_def)
qed

lemma deliver_step:
  assumes "inbox_ok s"
  shows "inbox_ok (delivery_step cfg d s) \<and> extends_inbox s (delivery_step cfg d s)"
proof -
  have "distinct (map ox_pk (nn_outbox s))" using assms by (simp add: inbox_ok_def)
  from delivery_step_bodies [OF this, of cfg d] have b: "map body_of (nn_outbox (delivery_step cfg d s)) = map body_of (nn_outbox s)"
      "nn_next_pk (delivery_step cfg d s) = nn_next_pk s" by auto
  have "extends_inbox s (delivery_step cfg d s)" unfolding extends_inbox_def b(1) delivery_step_events by blast
  then show ?thesis using inbox_ok_bodies [OF assms b(1) delivery_step_events b(2)] by blast
qed

lemma hydration_failure:
  assumes ok: "inbox_ok s" and e: "event_row k s = Some e"
  shows "inbox_ok (s\<lparr>nn_events := update_rows (\<lambda>x. we_pk x = k \<and> we_status x \<notin> {Lg_Ready, Lg_Ignored})
      (\<lambda>x. x\<lparr>we_status := Lg_Error, we_error := err\<rparr>) (nn_events s)\<rparr>) \<and>
    extends_inbox s (s\<lparr>nn_events := update_rows (\<lambda>x. we_pk x = k \<and> we_status x \<notin> {Lg_Ready, Lg_Ignored})
      (\<lambda>x. x\<lparr>we_status := Lg_Error, we_error := err\<rparr>) (nn_events s)\<rparr>)" (is "inbox_ok ?s \<and> extends_inbox s ?s")
proof -
  note e = event_row_mem [OF e]
  let ?f = "e\<lparr>we_status := Lg_Error, we_error := err\<rparr>"
  have upd: "nn_events ?s = (if settled e then nn_events s else nn_events (put_event ?f s))"
    using e inbox_event_unique [OF ok _ conjunct1 [OF e]]
    by (fastforce simp: update_rows_def settled_def put_event_def save_row_def intro!: map_idI)
  show ?thesis
  proof (cases "settled e")
    case True
    then have "?s = s" using upd by simp
    then show ?thesis using ok by simp
  next
    case False
    then have s: "?s = put_event ?f s" using upd by (simp add: put_event_def)
    have "inbox_ok (put_event ?f s)" using put_event_ok [OF ok conjunct1 [OF e], of ?f] False by (simp add: settled_def)
    moreover have "extends_inbox s (put_event ?f s)"
      by (rule extends_inbox_put [OF ok conjunct1 [OF e] False]) (simp_all add: put_event_def)
    ultimately show ?thesis unfolding s by blast
  qed
qed

lemma hydrate_step:
  assumes "inbox_ok s"
  shows "inbox_ok (fst (hydrate_webhook_message_event cfg now fetch k s)) \<and> extends_inbox s (fst (hydrate_webhook_message_event cfg now fetch k s))"
proof (cases "event_row k s")
  case None
  then show ?thesis using assms by (simp add: hydrate_webhook_message_event_def)
next
  case (Some e)
  let ?r = "and_then fetch (\<lambda>(th, m). ingest_hubspot_message cfg now (we_portal e) th m By_Webhook (we_body e) (Some k) s)"
  show ?thesis
  proof (cases "we_status e \<in> {Lg_Ready, Lg_Ignored} \<or> we_portal e = [] \<or> we_thread e = [] \<or> we_message e = None \<or> we_message e = Some []")
    case True
    then show ?thesis using assms Some by (auto simp: hydrate_webhook_message_event_def)
  next
    case False
    show ?thesis
    proof (cases ?r)
      case (Inl err)
      then show ?thesis using hydration_failure [OF assms Some, of "''error''"] False Some by (auto simp: hydrate_webhook_message_event_def)
    next
      case (Inr x)
      then obtain s' r th m where r: "x = (s', r)" "ingest_hubspot_message cfg now (we_portal e) th m By_Webhook (we_body e) (Some k) s = Inr (s', r)"
        by (cases x) (auto simp: and_then_Inr_iff)
      have "fst (hydrate_webhook_message_event cfg now fetch k s) = s'" using False Some Inr r(1) by (auto simp: hydrate_webhook_message_event_def)
      then show ?thesis using ingest_step [OF assms r(2)] by simp
    qed
  qed
qed

lemma inbox_step_ok: "inbox_ok s \<Longrightarrow> inbox_ok (inbox_step cfg w s) \<and> extends_inbox s (inbox_step cfg w s)"
  by (cases w) (simp_all add: receive_step hydrate_step deliver_step del: delivery_step.simps split: sum.split prod.split add: ingest_step)

text \<open>C32: every message is settled once and delivered through one outbox row.  In every interleaving of
  webhook envelopes, hydrations, reconciled messages and deliveries the ledger holds one event per
  message key and one outbox row per ready event, with the key of its event; no event is lost, a settled
  event never changes and no outbox row changes its body.\<close>

theorem messages_settle_once:
  assumes "inbox_ok s"
  shows "inbox_ok (fold (inbox_step cfg) ws s) \<and> extends_inbox s (fold (inbox_step cfg) ws s)"
  using assms
proof (induction ws arbitrary: s)
  case (Cons w ws)
  then show ?case using inbox_step_ok [OF Cons.prems, of cfg w] Cons.IH [of "inbox_step cfg w s"] extends_inbox_trans by fastforce
qed simp

text \<open>What ingesting a message of the reconciliation does.  It fails exactly when an identifier is
  missing.  A message that was settled before is a duplicate that changes nothing; any other one is
  settled: ignored for the reason of the filter, or ready with a new pending outbox row, due at once,
  that carries its payload.\<close>

theorem message_ingestion_effect:
  assumes "inbox_ok s" and "key = message_key portal (strip (if td_id th = [] then mg_thread m else td_id th)) (strip (mg_id m))"
  shows "if portal = [] \<or> strip (if td_id th = [] then mg_thread m else td_id th) = [] \<or> strip (mg_id m) = []
    then ingest_hubspot_message cfg now portal th m how body None s = Inl ValueError
    else \<exists>s' r e. ingest_hubspot_message cfg now portal th m how body None s = Inr (s', r) \<and> e \<in> set (nn_events s') \<and>
      we_key e = Some key \<and> settled e \<and> ig_event r = we_pk e \<and> ig_key r = Some key \<and>
      (if \<exists>e0 \<in> set (nn_events s). we_key e0 = Some key \<and> settled e0 then s' = s \<and> ig_duplicate r
       else \<not> ig_duplicate r \<and> ig_reason r = ignored_reason cfg m \<and> we_status e = (if ignored_reason cfg m = None then Lg_Ready else Lg_Ignored) \<and>
         (if ignored_reason cfg m = None
          then \<exists>x. nn_outbox s' = nn_outbox s @ [x] \<and> ig_outbox r = Some (ox_pk x) \<and> ox_event x = we_pk e \<and> ox_key x = key \<and> ox_status x = Ox_Pending \<and>
            ox_available x = now \<and> pl_event (ox_payload x) = we_pk e \<and> pl_text (ox_payload x) = mg_text m \<and> pl_key (ox_payload x) = key
          else nn_outbox s' = nn_outbox s \<and> ig_outbox r = None))"
proof (cases "portal = [] \<or> strip (if td_id th = [] then mg_thread m else td_id th) = [] \<or> strip (mg_id m) = []")
  case True
  then show ?thesis by (auto simp: ingest_hubspot_message_def Let_def)
next
  case False
  let ?thread = "strip (if td_id th = [] then mg_thread m else td_id th)"
  let ?message = "strip (mg_id m)"
  have ids: "portal \<noteq> []" "?thread \<noteq> []" "?message \<noteq> []" using False by simp_all
  obtain s1 e created where i: "insert_event_if_absent (new_event (nn_next_pk s) key portal ?thread ?message how body) key s = (s1, e, created)"
    by (metis prod_cases3)
  then have l: "locked_event key portal ?thread ?message how body None s = Inr (s1, e, created)" by (simp add: locked_event_def)
  note lk = locked_event_ok [OF assms(1) l]
  note eff = ingest_effect [OF assms(1) ids(1) refl ids(2) refl ids(3) assms(2) l, of cfg now]
  have known: "(\<exists>e0 \<in> set (nn_events s). we_key e0 = Some key \<and> settled e0) \<longleftrightarrow> settled e"
  proof
    assume "\<exists>e0 \<in> set (nn_events s). we_key e0 = Some key \<and> settled e0"
    then obtain e0 where e0: "e0 \<in> set (nn_events s1)" "we_key e0 = Some key" "settled e0" using lk(5) by blast
    have "distinct (map we_key (keyed_rows s1))" using lk(1) by (simp add: inbox_ok_def)
    from keyed_unique [OF this e0(1) lk(2) e0(2) lk(3)] show "settled e" using e0(3) by simp
  next
    assume "settled e"
    then show "\<exists>e0 \<in> set (nn_events s). we_key e0 = Some key \<and> settled e0" using lk by blast
  qed
  show ?thesis
  proof (cases "settled e")
    case True
    then have "s1 = s" using lk(6,7) by blast
    then show ?thesis using True eff lk(2,3) False known by auto
  next
    case unsettled: False
    let ?e = "observed_event cfg now m th e"
    obtain s2 r where r: "ingest_hubspot_message cfg now portal th m how body None s = Inr (s2, r)" "ig_event r = we_pk e" "ig_key r = Some key"
        "\<not> ig_duplicate r" "ig_reason r = ignored_reason cfg m" "nn_events s2 = nn_events (put_event ?e s1)"
        "if ignored_reason cfg m = None
         then \<exists>x. ig_outbox r = Some (ox_pk x) \<and> nn_outbox s2 = nn_outbox s @ [x] \<and> ox_event x = we_pk e \<and> ox_key x = key \<and> ox_status x = Ox_Pending \<and>
           ox_attempts x = 0 \<and> ox_available x = now \<and> ox_payload x = n8n_payload_of ?e m th key (we_method e)
         else ig_outbox r = None \<and> nn_outbox s2 = nn_outbox s"
      using eff unsettled by auto
    have e: "?e \<in> set (nn_events s2)" "we_key ?e = Some key" "settled ?e" "we_pk ?e = we_pk e"
      using put_event_in [OF lk(2)] lk(3) r(6) by (auto simp: settled_def)
    have "pl_event (n8n_payload_of ?e m th key (we_method e)) = we_pk e" "pl_text (n8n_payload_of ?e m th key (we_method e)) = mg_text m"
        "pl_key (n8n_payload_of ?e m th key (we_method e)) = key"
      by (simp_all add: n8n_payload_of_def split: prod.split)
    then have "\<exists>s' r e. ingest_hubspot_message cfg now portal th m how body None s = Inr (s', r) \<and> e \<in> set (nn_events s') \<and>
        we_key e = Some key \<and> settled e \<and> ig_event r = we_pk e \<and> ig_key r = Some key \<and> \<not> ig_duplicate r \<and> ig_reason r = ignored_reason cfg m \<and>
        we_status e = (if ignored_reason cfg m = None then Lg_Ready else Lg_Ignored) \<and>
        (if ignored_reason cfg m = None
         then \<exists>x. nn_outbox s' = nn_outbox s @ [x] \<and> ig_outbox r = Some (ox_pk x) \<and> ox_event x = we_pk e \<and> ox_key x = key \<and> ox_status x = Ox_Pending \<and>
            ox_available x = now \<and> pl_event (ox_payload x) = we_pk e \<and> pl_text (ox_payload x) = mg_text m \<and> pl_key (ox_payload x) = key
         else nn_outbox s' = nn_outbox s \<and> ig_outbox r = None)"
      using r e by (intro exI [of _ s2] exI [of _ r] exI [of _ ?e]) (auto split: if_splits)
    then show ?thesis unfolding known if_not_P [OF False] if_not_P [OF unsettled] by blast
  qed
qed

section \<open>Witnesses\<close>

definition demo_message :: "string \<Rightarrow> string \<Rightarrow> hub_message" where
  "demo_message mid direction = \<lparr>mg_id = mid, mg_thread = ''t'', mg_type = ''MESSAGE'', mg_archived = False, mg_direction = direction, mg_text = ''hi'',
     mg_created = Some 5, mg_sender = Some \<lparr>sd_actor = ''V-1'', sd_identifier = None\<rparr>, mg_sender_actor = []\<rparr>"

definition demo_thread :: hub_thread where
  "demo_thread = \<lparr>td_id = ''t'', td_tickets = Assoc_One (Some ''9''), td_contact = ''c'', td_status = ''OPEN'', td_spam = False\<rparr>"

definition demo_envelope :: "string \<Rightarrow> envelope" where
  "demo_envelope mid = \<lparr>ep_portal = ''p'', ep_thread = ''t'', ep_message = mid, ep_fingerprint = ''f'', ep_body = ''b''\<rparr>"

definition empty_inbox :: n8n where
  "empty_inbox = \<lparr>nn_events = [], nn_outbox = [], nn_locks = [], nn_next_pk = 0\<rparr>"

lemma empty_inbox_ok: "inbox_ok empty_inbox"
  by (simp add: inbox_ok_def empty_inbox_def keyed_rows_def)

text \<open>A webhook and the reconciliation bring the same message, in either order: one outbox row.\<close>

theorem messages_settle_once_witness:
  "inbox_ok (fold (inbox_step demo_n8n_cfg)
      [Receive 1 (demo_envelope ''m''), Reconcile 2 ''p'' demo_thread (demo_message ''m'' ''INCOMING'') ''b'',
       Hydrate 3 (Inr (demo_thread, demo_message ''m'' ''INCOMING'')) 0, Deliver (Claim 1 4), Receive 5 (demo_envelope ''n''),
       Hydrate 6 (Inl ConnectionError) 2, Hydrate 7 (Inr (demo_thread, demo_message ''n'' ''OUTGOING'')) 2] empty_inbox) \<and>
   length (nn_outbox (fold (inbox_step demo_n8n_cfg)
      [Receive 1 (demo_envelope ''m''), Reconcile 2 ''p'' demo_thread (demo_message ''m'' ''INCOMING'') ''b'',
       Hydrate 3 (Inr (demo_thread, demo_message ''m'' ''INCOMING'')) 0, Deliver (Claim 1 4), Receive 5 (demo_envelope ''n''),
       Hydrate 6 (Inl ConnectionError) 2, Hydrate 7 (Inr (demo_thread, demo_message ''n'' ''OUTGOING'')) 2] empty_inbox)) = 1"
proof
  show "inbox_ok (fold (inbox_step demo_n8n_cfg)
      [Receive 1 (demo_envelope ''m''), Reconcile 2 ''p'' demo_thread (demo_message ''m'' ''INCOMING'') ''b'',
       Hydrate 3 (Inr (demo_thread, demo_message ''m'' ''INCOMING'')) 0, Deliver (Claim 1 4), Receive 5 (demo_envelope ''n''),
       Hydrate 6 (Inl ConnectionError) 2, Hydrate 7 (Inr (demo_thread, demo_message ''n'' ''OUTGOING'')) 2] empty_inbox)"
    using messages_settle_once [OF empty_inbox_ok] by blast
qed code_simp

theorem message_ingestion_effect_witness:
  "\<exists>s' r x. ingest_hubspot_message demo_n8n_cfg 2 ''p'' demo_thread (demo_message ''m'' ''INCOMING'') By_Reconciliation ''b'' None empty_inbox = Inr (s', r) \<and>
     nn_outbox s' = [x] \<and> ig_outbox r = Some (ox_pk x) \<and> pl_text (ox_payload x) = ''hi''"
proof -
  let ?m = "demo_message ''m'' ''INCOMING''"
  have v: "\<not> (''p'' = [] \<or> strip (if td_id demo_thread = [] then mg_thread ?m else td_id demo_thread) = [] \<or> strip (mg_id ?m) = [])"
      "ignored_reason demo_n8n_cfg ?m = None" "nn_outbox empty_inbox = []" "mg_text ?m = ''hi''" by code_simp+
  have e: "nn_events empty_inbox = []" by (simp add: empty_inbox_def)
  show ?thesis
    using message_ingestion_effect [OF empty_inbox_ok refl, of "''p''" demo_thread ?m demo_n8n_cfg 2 By_Reconciliation "''b''"] v(2-4) e
    unfolding if_not_P [OF v(1)] by auto
qed

end
