(* ===== verification/Occurrence_Retry.thy ===== *)
theory Occurrence_Retry
  imports Owner_Reconciliation
begin

text \<open>
  The background reconciliation of lifecycle evidence, \<open>task_reconcile_lifecycle_occurrence\<close> and
  \<open>task_scan_lifecycle_occurrences\<close> of \<open>apps/support/tasks.py\<close>.  A run claims an attempt of the retry
  budget in one transaction, projects the evidence and records the outcome.  The two readings of the
  provider are the arguments of the projections; \<open>now\<close> is the time of the claim and \<open>later\<close> the time
  after it.  The provider's error codes are arguments.
\<close>

section \<open>The task\<close>

record task_env =
  te_cfg :: settings
  te_max_attempts :: nat
  te_max_age :: instant
  te_capability :: "py_error \<Rightarrow> bool"
  te_code :: "py_error \<Rightarrow> string"
  te_name :: "py_error \<Rightarrow> string"

datatype task_answer = Not_Found | Not_Due | Answered_Status occurrence_processing

fun cycle_class_text :: "classification \<Rightarrow> string" where
  "cycle_class_text Created = ''created''"
| "cycle_class_text Duplicate = ''duplicate''"
| "cycle_class_text Stale = ''stale''"
| "cycle_class_text Active_Conflict = ''active_conflict''"
| "cycle_class_text Identity_Unavailable = ''identity_unavailable''"
| "cycle_class_text Admission_Repair_Required = ''repair_required''"

fun close_class_text :: "close_classification \<Rightarrow> string" where
  "close_class_text Applied_Current = ''applied_current''"
| "close_class_text Applied_Historical = ''applied_historical''"
| "close_class_text Close_Duplicate = ''duplicate''"
| "close_class_text No_Cycle = ''no_cycle''"
| "close_class_text Close_Identity_Unavailable = ''identity_unavailable''"
| "close_class_text Reopen_Not_Materialized = ''reopen_not_materialized''"
| "close_class_text Provider_Unavailable = ''provider_unavailable''"
| "close_class_text Close_Conflict = ''conflict''"

definition put_occurrence :: "occurrence \<Rightarrow> site \<Rightarrow> site" where
  "put_occurrence r s = s\<lparr>st_occs := save_row ol_pk r (st_occs s)\<rparr>"

definition exhausted :: "task_env \<Rightarrow> instant \<Rightarrow> occurrence \<Rightarrow> bool" where
  "exhausted e now r \<longleftrightarrow> te_max_attempts e \<le> ol_retries r \<or> te_max_age e \<le> now - ol_created r"

definition given_up :: "string \<Rightarrow> occurrence \<Rightarrow> occurrence" where
  "given_up why r = r\<lparr>ol_status := (if ol_status r = Proven then Proven else Ambiguous), ol_processing := Occ_Repair_Required,
     ol_error := why, ol_next := None\<rparr>"

definition claimed_attempt :: "instant \<Rightarrow> occurrence \<Rightarrow> occurrence" where
  "claimed_attempt now r = r\<lparr>ol_retries := Suc (ol_retries r), ol_next := Some (now + seconds (min (15 * 2 ^ Suc (ol_retries r)) 300))\<rparr>"

text \<open>The claim of an attempt: an answer at once, or the row to reconcile.\<close>

definition claim_attempt :: "task_env \<Rightarrow> instant \<Rightarrow> uuid \<Rightarrow> site \<Rightarrow> site \<times> (task_answer + occurrence)" where
  "claim_attempt e now k s =
     (case occurrence_of s k of
        None \<Rightarrow> (s, Inl Not_Found)
      | Some r \<Rightarrow>
          (if ol_processing r \<noteq> Occ_Pending then (s, Inl (Answered_Status (ol_processing r)))
           else if (case ol_next r of None \<Rightarrow> False | Some t \<Rightarrow> now < t) then (s, Inl Not_Due)
           else if exhausted e now r
           then (put_occurrence (given_up ''reconcile_budget_exhausted'' r) s, Inl (Answered_Status Occ_Repair_Required))
           else (put_occurrence (claimed_attempt now r) s, Inr (claimed_attempt now r))))"

definition retry_later :: "task_env \<Rightarrow> instant \<Rightarrow> uuid \<Rightarrow> string \<Rightarrow> site \<Rightarrow> site \<times> task_answer result" where
  "retry_later e later k why s =
     (case occurrence_of s k of
        None \<Rightarrow> (s, Inl DoesNotExist)
      | Some r \<Rightarrow>
          (if ol_processing r \<noteq> Occ_Pending then (s, Inr (Answered_Status (ol_processing r)))
           else if exhausted e later r then (put_occurrence (given_up why r) s, Inr (Answered_Status Occ_Repair_Required))
           else (put_occurrence (r\<lparr>ol_error := why\<rparr>) s, Inr (Answered_Status Occ_Pending))))"

definition fail_capability :: "uuid \<Rightarrow> site \<Rightarrow> site \<times> task_answer result" where
  "fail_capability k s =
     (case occurrence_of s k of
        None \<Rightarrow> (s, Inl DoesNotExist)
      | Some r \<Rightarrow> (put_occurrence (given_up ''provider_capability_failure'' r) s, Inr (Answered_Status Occ_Repair_Required)))"

text \<open>A failed provider operation.\<close>

definition provider_failed :: "task_env \<Rightarrow> instant \<Rightarrow> uuid \<Rightarrow> py_error \<Rightarrow> site \<Rightarrow> site \<times> task_answer result" where
  "provider_failed e later k err s = (if te_capability e err then fail_capability k s else retry_later e later k (te_code e err) s)"

definition occurrence_evidence :: "occurrence \<Rightarrow> evidence" where
  "occurrence_evidence r = \<lparr>ob_source = ol_source r, ob_event = ol_event r, ob_updated = None, ob_observation = ol_observation r\<rparr>"

definition reconcile_entry :: "task_env \<Rightarrow> instant \<Rightarrow> uuid \<Rightarrow> site \<Rightarrow> site \<times> task_answer result" where
  "reconcile_entry e later k s =
     (case occurrence_of s k of
        None \<Rightarrow> (s, Inl DoesNotExist)
      | Some r \<Rightarrow>
          (if ol_processing r \<noteq> Occ_Pending then (s, Inr (Answered_Status (ol_processing r)))
           else case (if ol_status r = Proven then ol_at r else None) of
                  None \<Rightarrow> retry_later e later k ''entry_evidence_unproven'' s
                | Some t \<Rightarrow>
                    (case open_from_proven_occurrence (te_cfg e) later (ol_ticket r) t (ol_account r) (occurrence_evidence r) s of
                       Inl err \<Rightarrow> retry_later e later k (te_name e err) s
                     | Inr (s1, res) \<Rightarrow>
                         (if or_classification res \<in> {Created, Duplicate} then (s1, Inr (Answered_Status Occ_Processed))
                          else retry_later e later k (cycle_class_text (or_classification res)) s1))))"

definition reconcile_owner :: "task_env \<Rightarrow> instant \<Rightarrow> occurrence \<Rightarrow> reading \<Rightarrow> site \<Rightarrow> site \<times> task_answer result" where
  "reconcile_owner e later r rd s =
     (case reconcile_ticket (te_cfg e) later (ol_ticket r) ''lifecycle_retry'' (ol_event r) None rd s of
        (s1, Inl err) \<Rightarrow> provider_failed e later (ol_pk r) err s1
      | (s1, Inr (row, touched)) \<Rightarrow>
          (if \<not> owner_occurrence_matches_cycle r (oc_cycle row) s1 then retry_later e later (ol_pk r) ''owner_cycle_pending'' s1
           else (mark_processed (ol_pk r) s1, Inr (Answered_Status Occ_Processed))))"

text \<open>The proof of a close: the evidence itself, or the timestamp the provider gives now.  A failure is the
  answer of the task, or the exception it raises.\<close>

definition prove_pending_close ::
  "task_env \<Rightarrow> instant \<Rightarrow> occurrence \<Rightarrow> reading \<Rightarrow> site \<Rightarrow> (site \<times> task_answer result) + (site \<times> occurrence)" where
  "prove_pending_close e later r rd s =
     (if ol_status r = Proven then Inr (s, r)
      else case rd s of
             (s1, Inl err) \<Rightarrow> Inl (provider_failed e later (ol_pk r) err s1)
           | (s1, Inr snap) \<Rightarrow>
               (case tk_closed snap of
                  AwareDatetime t \<Rightarrow>
                    (case record_proven_occurrence later (ol_account r) (ol_ticket r) Ticket_Closed t
                            (readback_evidence (ol_updated r) (ol_observation r)) s1 of
                       Inl err \<Rightarrow> Inl (s1, Inl err)
                     | Inr x \<Rightarrow> Inr x)
                | _ \<Rightarrow> Inl (retry_later e later (ol_pk r) ''provider_materialization_pending'' s1)))"

definition reject_duplicate :: "uuid \<Rightarrow> site \<Rightarrow> site" where
  "reject_duplicate k s = s\<lparr>st_occs := update_rows (\<lambda>x. ol_pk x = k \<and> ol_status x = Materialization_Pending)
     (\<lambda>x. x\<lparr>ol_status := Rejected, ol_processing := Occ_Processed, ol_error := ''duplicate_proven_occurrence'', ol_next := None\<rparr>) (st_occs s)\<rparr>"

definition reconcile_close :: "task_env \<Rightarrow> instant \<Rightarrow> occurrence \<Rightarrow> reading \<Rightarrow> reading \<Rightarrow> site \<Rightarrow> site \<times> task_answer result" where
  "reconcile_close e later r rd rd' s =
     (case prove_pending_close e later r rd s of
        Inl answer \<Rightarrow> answer
      | Inr (s1, p) \<Rightarrow>
          (case ol_at p of
             None \<Rightarrow> retry_later e later (ol_pk r) (te_name e TypeError) s1
           | Some t \<Rightarrow>
               (case reconcile_close_occurrence (te_cfg e) later \<lparr>to_ticket = ol_ticket p, to_at = t, to_owner = None, to_event = []\<rparr> False False rd' s1 of
                  (s2, Inl err) \<Rightarrow> retry_later e later (ol_pk r) (te_name e err) s2
                | (s2, Inr res) \<Rightarrow>
                    (if settles (cr_class res)
                     then ((if ol_pk p = ol_pk r then mark_processed (ol_pk p) s2 else reject_duplicate (ol_pk r) (mark_processed (ol_pk p) s2)),
                           Inr (Answered_Status Occ_Processed))
                     else retry_later e later (ol_pk r) (close_class_text (cr_class res)) s2))))"

record task_run =
  tr_now :: instant
  tr_later :: instant
  tr_first :: reading
  tr_second :: reading

definition reconcile_occurrence :: "task_env \<Rightarrow> task_run \<Rightarrow> uuid \<Rightarrow> site \<Rightarrow> site \<times> task_answer result" where
  "reconcile_occurrence e t k s =
     (case claim_attempt e (tr_now t) k s of
        (s1, Inl answer) \<Rightarrow> (s1, Inr answer)
      | (s1, Inr r) \<Rightarrow>
          (case ol_type r of
             Entered_Support_Queue \<Rightarrow> reconcile_entry e (tr_later t) k s1
           | Owner_Changed \<Rightarrow> reconcile_owner e (tr_later t) r (tr_first t) s1
           | Ticket_Closed \<Rightarrow> reconcile_close e (tr_later t) r (tr_first t) (tr_second t) s1))"

definition scan_due :: "instant \<Rightarrow> occurrence \<Rightarrow> bool" where
  "scan_due now r \<longleftrightarrow> ol_processing r = Occ_Pending \<and>
     (case ol_next r of Some t \<Rightarrow> t \<le> now | None \<Rightarrow> ol_type r = Entered_Support_Queue)"

text \<open>PostgreSQL sorts missing times last.\<close>

definition scan_lifecycle_occurrences :: "instant \<Rightarrow> site \<Rightarrow> uuid list" where
  "scan_lifecycle_occurrences now s =
     map ol_pk (take 100 (sort_key (\<lambda>r. case ol_next r of None \<Rightarrow> (1::nat, 0) | Some t \<Rightarrow> (0, t)) (filter (scan_due now) (st_occs s))))"

section \<open>What the projections do to the evidence\<close>

text \<open>Evidence is carried on: identity, age and proofs stay, attempts are never given back, and what is no longer
  pending does not become pending again.  Processed evidence stays processed, unless a capability failure marks it for
  repair; evidence marked for repair stays so, with its reason or with that of a capability failure, unless it is a
  pending close that turns out to be a duplicate.\<close>

definition capability_failure :: string where
  "capability_failure = ''provider_capability_failure''"

definition stays_concluded :: "occurrence \<Rightarrow> occurrence \<Rightarrow> bool" where
  "stays_concluded r r' \<longleftrightarrow>
     (case ol_processing r of
        Occ_Pending \<Rightarrow> True
      | Occ_Processed \<Rightarrow> ol_processing r' = Occ_Processed \<or> (ol_processing r' = Occ_Repair_Required \<and> ol_error r' = capability_failure)
      | Occ_Repair_Required \<Rightarrow>
          (ol_processing r' = Occ_Repair_Required \<and> ol_error r' \<in> {ol_error r, capability_failure}) \<or>
          (ol_status r = Materialization_Pending \<and> ol_processing r' = Occ_Processed))"

definition carried :: "occurrence \<Rightarrow> occurrence \<Rightarrow> bool" where
  "carried r r' \<longleftrightarrow> ol_pk r' = ol_pk r \<and> ol_account r' = ol_account r \<and> ol_ticket r' = ol_ticket r \<and> ol_type r' = ol_type r \<and>
     ol_created r' = ol_created r \<and> ol_retries r \<le> ol_retries r' \<and> stays_concluded r r' \<and>
     (ol_status r = Proven \<longrightarrow> ol_status r' = Proven \<and> ol_at r' = ol_at r) \<and>
     (ol_status r' = Materialization_Pending \<longrightarrow> ol_status r = Materialization_Pending)"

definition tracked :: "site \<Rightarrow> bool" where
  "tracked s \<longleftrightarrow> distinct (map ol_pk (st_occs s))"

definition steady :: "site \<Rightarrow> site \<Rightarrow> bool" where
  "steady s s' \<longleftrightarrow> (tracked s \<longrightarrow> tracked s' \<and> (\<forall>k r. occurrence_of s k = Some r \<longrightarrow> (\<exists>r'. occurrence_of s' k = Some r' \<and> carried r r')))"

named_theorems steadiness \<open>operations that carry the evidence on\<close>

lemma concluded_refl [simp]: "stays_concluded r r"
  by (simp add: stays_concluded_def split: occurrence_processing.split)

lemma concluded_pending: "ol_processing r = Occ_Pending \<Longrightarrow> stays_concluded r r'"
  by (simp add: stays_concluded_def)

lemma concluded_trans:
  assumes "stays_concluded r r1" and "stays_concluded r1 r2" and "ol_status r1 = Materialization_Pending \<longrightarrow> ol_status r = Materialization_Pending"
  shows "stays_concluded r r2"
  using assms by (cases "ol_processing r"; cases "ol_processing r1") (auto simp: stays_concluded_def)

lemma concluded_same:
  "ol_processing r' = ol_processing r \<Longrightarrow> ol_error r' = ol_error r \<Longrightarrow> stays_concluded r r'"
  by (simp add: stays_concluded_def split: occurrence_processing.split)

lemma carried_refl [simp]: "carried r r"
  by (simp add: carried_def)

lemma carried_retries: "carried r r' \<Longrightarrow> ol_retries r \<le> ol_retries r'"
  by (simp add: carried_def)

lemma carried_trans:
  assumes "carried r r1" and "carried r1 r2"
  shows "carried r r2"
proof -
  have "stays_concluded r r2" by (rule concluded_trans [of r r1 r2]) (use assms in \<open>unfold carried_def, blast+\<close>)
  moreover have "ol_status r2 = Materialization_Pending \<longrightarrow> ol_status r = Materialization_Pending"
    "ol_status r = Proven \<longrightarrow> ol_status r2 = Proven \<and> ol_at r2 = ol_at r"
    using assms unfolding carried_def by metis+
  moreover have "ol_retries r \<le> ol_retries r2" using carried_retries [OF assms(1)] carried_retries [OF assms(2)] by simp
  moreover have "(ol_pk r2, ol_account r2, ol_ticket r2, ol_type r2, ol_created r2) = (ol_pk r, ol_account r, ol_ticket r, ol_type r, ol_created r)"
    using assms unfolding carried_def by metis
  ultimately show ?thesis by (simp add: carried_def)
qed

lemma steady_occs: "st_occs s' = st_occs s \<Longrightarrow> steady s s'"
  by (auto simp: steady_def tracked_def occurrence_of_def intro!: exI [of _ "_ :: occurrence"] carried_refl)

lemma steady_refl [simp]: "steady s s"
  by (simp add: steady_occs)

lemma steady_trans: "steady s s1 \<Longrightarrow> steady s1 s2 \<Longrightarrow> steady s s2"
  unfolding steady_def using carried_trans by meson

lemma steady_then: "steady s1 s2 \<Longrightarrow> steady s s1 \<Longrightarrow> steady s s2"
  by (rule steady_trans)

lemma steadyD: "steady s s' \<Longrightarrow> tracked s \<Longrightarrow> occurrence_of s k = Some r \<Longrightarrow> \<exists>r'. occurrence_of s' k = Some r' \<and> carried r r'"
  by (simp add: steady_def)

lemma steady_tracked: "steady s s' \<Longrightarrow> tracked s \<Longrightarrow> tracked s'"
  by (simp add: steady_def)

lemma occurrence_of_key: "occurrence_of s k = Some r \<Longrightarrow> ol_pk r = k"
  unfolding occurrence_of_def by (rule get_row_key)

lemma occurrence_of_put:
  "occurrence_of (put_occurrence r s) k = (if k = ol_pk r then map_option (\<lambda>_. r) (occurrence_of s k) else occurrence_of s k)"
  by (auto simp: occurrence_of_def put_occurrence_def get_row_save_row split: option.splits)

lemma steady_put:
  assumes "occurrence_of s k = Some r" and "carried r r'"
  shows "steady s (put_occurrence r' s)"
proof -
  have pk: "ol_pk r' = k" using assms(2) occurrence_of_key [OF assms(1)] by (simp add: carried_def)
  have "\<exists>q'. occurrence_of (put_occurrence r' s) j = Some q' \<and> carried q q'" if "occurrence_of s j = Some q" for j q
    using that assms pk by (cases "j = k") (auto simp: occurrence_of_put)
  then show ?thesis by (simp add: steady_def tracked_def put_occurrence_def)
qed

lemma steady_update:
  assumes "\<And>r. P r \<Longrightarrow> carried r (f r)"
  shows "steady s (s\<lparr>st_occs := update_rows P f (st_occs s)\<rparr>)"
proof -
  have pks: "map ol_pk (update_rows P f (st_occs s)) = map ol_pk (st_occs s)"
    using assms by (simp add: update_rows_def carried_def)
  have "get_row ol_pk k (update_rows P f rows) = map_option (\<lambda>r. if P r then f r else r) (get_row ol_pk k rows)" for k and rows :: "occurrence list"
    using assms by (induction rows) (auto simp: update_rows_def get_row_def carried_def)
  then show ?thesis using assms pks by (auto simp: steady_def tracked_def occurrence_of_def)
qed

lemma steady_mark [steadiness]: "steady s (mark_processed k s)"
  unfolding mark_processed_def by (rule steady_update) (auto simp: carried_def concluded_pending)

lemma steady_reject: "steady s (reject_duplicate k s)"
  unfolding reject_duplicate_def by (rule steady_update) (auto simp: carried_def stays_concluded_def split: occurrence_processing.split)

lemma steady_insert [steadiness]:
  assumes "insert_occurrence r s = Inr (s', r')"
  shows "steady s s'"
proof -
  have s': "st_occs s' = st_occs s @ [r']" "ol_pk r' \<notin> ol_pk ` set (st_occs s)"
    using assms by (auto simp: insert_occurrence_def Let_def occurrence_clash_def list_ex_iff split: if_splits)
  then show ?thesis by (auto simp: steady_def tracked_def occurrence_of_def get_row_append)
qed

lemma steady_promote:
  assumes "save_occurrence (promoted_row now t ev p) s = Inr s'" and "p \<in> set (st_occs s)" and "ol_status p \<noteq> Proven"
  shows "steady s s'"
proof -
  have s': "s' = put_occurrence (promoted_row now t ev p) s" using assms(1) by (simp add: save_occurrence_def put_occurrence_def split: if_splits)
  have c: "carried p (promoted_row now t ev p)" using assms(3) by (simp add: carried_def promoted_row_def concluded_same)
  show ?thesis
  proof (cases "tracked s")
    case True
    then have "occurrence_of s (ol_pk p) = Some p" using get_row_distinct assms(2) by (simp add: tracked_def occurrence_of_def)
    then show ?thesis unfolding s' using c by (rule steady_put)
  qed (simp add: steady_def)
qed

lemma steady_proven [steadiness]:
  assumes "record_proven_occurrence now account ticket ty t ev s = Inr (s', r)"
  shows "steady s s'"
proof -
  have p: "p \<in> set (st_occs s)" "ol_status p \<noteq> Proven" if "pending_close account ticket t s = Some p" for p
    using first_row_Some [OF that [unfolded pending_close_def]] by auto
  show ?thesis
    using assms steady_promote [OF _ p(1) p(2)] steady_insert
    by (fastforce simp: record_proven_occurrence_def get_temporal_def split: if_splits option.splits sum.splits)
qed

lemma steady_pending [steadiness]: "record_pending_close now account ticket k updated obs schedule s = Inr (s', r) \<Longrightarrow> steady s s'"
  by (auto simp: record_pending_close_def and_then_Inr_iff intro: steady_insert split: if_splits option.splits)

lemma steady_open [steadiness]:
  assumes "open_from_proven_occurrence cfg now ticket t account ev s = Inr (s', r)"
  shows "steady s s'"
proof -
  obtain s1 p d where 1: "record_proven_occurrence now account ticket Entered_Support_Queue t (ev\<lparr>ob_updated := None\<rparr>) s = Inr (s1, p)"
    and 2: "s' = mark_processed (ol_pk p) (s1\<lparr>st_db := d\<rparr>) \<or> s' = s1\<lparr>st_db := d\<rparr>"
    using assms by (auto simp: open_from_proven_occurrence_def and_then_Inr_iff Let_def split: if_splits)
  have "steady s1 (s1\<lparr>st_db := d\<rparr>)" by (simp add: steady_occs)
  then have "steady s1 s'" using 2 steady_mark steady_trans by blast
  then show ?thesis using steady_proven [OF 1] steady_trans by blast
qed

lemma apply_close_occs: "apply_close_occurrence cfg now oc snap dry_run allow_legacy s = Inr (s', r) \<Longrightarrow> st_occs s' = st_occs s"
  by (auto simp: apply_close_occurrence_def materialize_close_def Let_def and_then_Inr_iff split: if_splits)

lemma ticket_closed_occs: "apply_ticket_closed cfg now ticket v owner snap s = Inr (s', r) \<Longrightarrow> st_occs s' = st_occs s"
  by (auto simp: apply_ticket_closed_def dest: apply_close_occs split: option.splits)

lemma steady_project_close:
  assumes "project_close cfg now ticket close snap proven row s = Inr s'"
  shows "steady s s'"
proof -
  have "s' = s \<or> (\<exists>s1 r. apply_ticket_closed cfg now ticket (tk_closed snap) StageNone (Some snap) s = Inr (s1, r) \<and>
      (s' = s1 \<or> (\<exists>k. s' = mark_processed k s1)))"
    using assms by (auto simp: project_close_def split: if_splits sum.splits option.splits)
  then show ?thesis using steady_trans [OF steady_occs [OF ticket_closed_occs] steady_mark] steady_occs [OF ticket_closed_occs] by auto
qed

lemma steady_prepare:
  assumes "prepare_observation cfg now account ticket obs close snap s = (s', r)"
  shows "steady s s'"
proof -
  have o: "steady s s1" if "open_observed cfg now account ticket obs snap s = Inr (s1, x)" for s1 x
    using that steady_open by (fastforce simp: open_observed_def and_then_Inr_iff split: if_splits option.splits)
  have p: "steady s1 s2" if "prove_close cfg now account ticket obs close snap s1 = Inr (s2, x)" for s1 s2 x
    using that steady_proven by (fastforce simp: prove_close_def and_then_Inr_iff split: if_splits option.splits)
  show ?thesis
    using assms o p steady_trans by (fastforce simp: prepare_observation_def split: if_splits sum.splits prod.splits)
qed

lemma steady_apply_observation:
  assumes "apply_observation cfg now ticket source obs close ob known row s = Inr (s', x)"
  shows "steady s s'"
proof -
  obtain d2 row2 s3 where 1: "project_close cfg now ticket close (on_snap ob) (on_proven ob) row2 (s\<lparr>st_db := d2\<rparr>) = Inr s3"
    and 2: "st_occs s' = st_occs s3"
    using assms by (auto simp: apply_observation_def Let_def split: sum.splits)
  have "steady s (s\<lparr>st_db := d2\<rparr>)" "steady s3 s'" by (simp_all add: steady_occs 2)
  then show ?thesis using steady_project_close [OF 1] steady_trans by blast
qed

lemma steady_locked:
  assumes "locked_observation cfg now ticket source obs close revision base ob s = Inr (s', x)"
  shows "steady s s'"
proof -
  obtain d row where t: "ticket_transaction cfg ticket (st_db s) = Inr (d, row)"
    using assms by (auto simp: locked_observation_def split: sum.splits)
  have d: "steady s (s\<lparr>st_db := d\<rparr>)" by (simp add: steady_occs)
  show ?thesis
  proof -
    have "s' = s\<lparr>st_db := d\<rparr> \<or> (\<exists>account k updated r. record_pending_close now account ticket k updated obs True (s\<lparr>st_db := d\<rparr>) = Inr (s', r)) \<or>
        (\<exists>known y. apply_observation cfg now ticket source obs close ob known row (s\<lparr>st_db := d\<rparr>) = Inr (s', y))"
      using assms by (cases x) (auto simp: locked_observation_def Let_def t split: if_splits sum.splits)
    then show ?thesis
      by (elim disjE exE) (simp_all add: d steady_trans [OF d steady_pending] steady_trans [OF d steady_apply_observation])
  qed
qed

lemma steady_degrade [simp]: "steady s (degrade_site ids s)"
  by (simp add: steady_occs degrade_site_def)

lemma steady_observe:
  assumes "observe_ticket cfg now ticket source obs close captured base snap s = (s', r)"
  shows "steady s s'"
proof -
  obtain s1 ob where p: "prepare_observation cfg now (oc_account captured) ticket obs close snap s = (s1, ob)"
    by (metis prod.exhaust)
  have "steady s1 s'"
    using assms p steady_locked by (auto simp: observe_ticket_def split: sum.splits prod.splits)
  then show ?thesis using steady_prepare [OF p] steady_trans by blast
qed

definition steady_reading :: "reading \<Rightarrow> bool" where
  "steady_reading rd \<longleftrightarrow> (\<forall>s. steady s (fst (rd s)))"

lemma given_steady [simp]: "steady_reading (given snap)"
  by (simp add: steady_reading_def given_def)

lemma steady_readingD: "steady_reading rd \<Longrightarrow> rd s = (s', p) \<Longrightarrow> steady s s'"
  unfolding steady_reading_def by (metis fst_conv)

lemma steady_reconcile [steadiness]:
  assumes "reconcile_ticket cfg now ticket source obs close rd s = (s', r)" and "steady_reading rd"
  shows "steady s s'"
proof (cases "ticket_transaction cfg ticket (st_db s)")
  case (Inl e)
  then show ?thesis using assms(1) by (simp add: reconcile_ticket_def)
next
  case (Inr x)
  obtain d captured where x: "x = (d, captured)" by (cases x)
  obtain s1 p where rd: "rd (s\<lparr>st_db := d\<rparr>) = (s1, p)" by (metis prod.exhaust)
  have 1: "steady s s1" by (rule steady_trans [OF steady_occs steady_readingD [OF assms(2) rd]]) simp
  have "steady s1 s'"
    using assms(1) steady_observe by (auto simp: reconcile_ticket_def Inr x rd Let_def split: sum.splits)
  then show ?thesis using 1 steady_trans by blast
qed

lemma steady_under_lock:
  assumes "close_under_lock cfg now oc revision snap allow_legacy s = (s', r)"
  shows "steady s s'"
proof (cases "s' = s")
  case False
  obtain d locked where t: "ticket_transaction cfg (to_ticket oc) (st_db s) = Inr (d, locked)"
    using assms False by (auto simp: close_under_lock_def split: sum.splits)
  obtain s1 x res where 1: "reconcile_ticket cfg now (to_ticket oc) ''close'' [] (Some oc) (given snap) (s\<lparr>st_db := d\<rparr>) = (s1, x)"
    and 2: "apply_close_occurrence cfg now oc (Some snap) False allow_legacy s1 = Inr (s', res)"
    using assms False t by (auto simp: close_under_lock_def split: if_splits sum.splits prod.splits)
  have "steady s s1" using steady_trans [OF steady_occs steady_reconcile [OF 1]] by simp
  then show ?thesis using steady_trans [OF _ steady_occs [OF apply_close_occs [OF 2]]] by blast
qed simp

lemma steady_close_reconciled [steadiness]:
  assumes "reconcile_close_occurrence cfg now oc dry_run allow_legacy rd s = (s', r)" and "steady_reading rd"
  shows "steady s s'"
proof -
  have unlocked: "steady s0 s2" if "apply_unlocked cfg now oc snap dry_run allow_legacy s0 = (s2, r)" for s0 s2 snap
    using that steady_occs [OF apply_close_occs] by (auto simp: apply_unlocked_def split: sum.splits prod.splits)
  have captured: "steady s0 s'" if "close_after_capture cfg now oc needs reads dry_run allow_legacy rd revision s0 = (s', r)" for needs reads revision s0
  proof (cases reads)
    case False
    then show ?thesis using that unlocked by (simp add: close_after_capture_def)
  next
    case True
    obtain s1 p where rd: "rd s0 = (s1, p)" by (metis prod.exhaust)
    have "steady s1 s'"
      using that True rd unlocked steady_under_lock by (auto simp: close_after_capture_def split: sum.splits if_splits)
    then show ?thesis using steady_readingD [OF assms(2) rd] steady_trans by blast
  qed
  have moved: "close_after_capture cfg now oc needs reads dry_run allow_legacy rd revision s1 = (s', r) \<Longrightarrow> st_occs s1 = st_occs s \<Longrightarrow> steady s s'"
    for needs reads revision s1
    using steady_trans [OF steady_occs captured] by blast
  show ?thesis
    using assms(1) by (auto simp: reconcile_close_occurrence_def Let_def intro: moved split: if_splits sum.splits)
qed

section \<open>The budget\<close>

lemma given_up_carried [simp]: "ol_processing r = Occ_Pending \<Longrightarrow> carried r (given_up why r)"
  by (simp add: carried_def given_up_def concluded_pending)

lemma capability_carried [simp]: "carried r (given_up ''provider_capability_failure'' r)"
  by (simp add: carried_def given_up_def stays_concluded_def capability_failure_def split: occurrence_processing.split)

lemma claimed_carried [simp]: "carried r (claimed_attempt now r)"
  by (simp add: carried_def claimed_attempt_def concluded_same)

lemma error_carried [simp]: "ol_processing r = Occ_Pending \<Longrightarrow> carried r (r\<lparr>ol_error := why\<rparr>)"
  by (simp add: carried_def concluded_pending)

lemma steady_retry [steadiness]: "retry_later e later k why s = (s', r) \<Longrightarrow> steady s s'"
  by (auto simp: retry_later_def intro: steady_put split: option.splits if_splits)

lemma steady_capability [steadiness]: "fail_capability k s = (s', r) \<Longrightarrow> steady s s'"
  by (auto simp: fail_capability_def intro: steady_put split: option.splits)

lemma steady_failed [steadiness]: "provider_failed e later k err s = (s', r) \<Longrightarrow> steady s s'"
  by (auto simp: provider_failed_def intro: steady_retry steady_capability split: if_splits)

lemma steady_claim [steadiness]: "claim_attempt e now k s = (s', x) \<Longrightarrow> steady s s'"
  by (auto simp: claim_attempt_def intro: steady_put split: option.splits if_splits)

lemma steady_entry [steadiness]: "reconcile_entry e later k s = (s', r) \<Longrightarrow> steady s s'"
  by (auto simp: reconcile_entry_def intro: steady_retry steady_open steady_trans [OF steady_open steady_retry]
      split: option.splits if_splits sum.splits)

lemma steady_owner [steadiness]:
  assumes "reconcile_owner e later r rd s = (s', x)" and "steady_reading rd"
  shows "steady s s'"
proof -
  obtain s1 y where 1: "reconcile_ticket (te_cfg e) later (ol_ticket r) ''lifecycle_retry'' (ol_event r) None rd s = (s1, y)" by (metis prod.exhaust)
  have "steady s1 s'"
    using assms(1) steady_mark steady_retry steady_failed by (auto simp: reconcile_owner_def 1 split: sum.splits if_splits)
  then show ?thesis using steady_reconcile [OF 1 assms(2)] steady_trans by blast
qed

lemma steady_proof:
  assumes "steady_reading rd"
  shows "prove_pending_close e later r rd s = Inl (s', x) \<Longrightarrow> steady s s'" "prove_pending_close e later r rd s = Inr (s', p) \<Longrightarrow> steady s s'"
proof -
  obtain s1 y where 1: "rd s = (s1, y)" by (metis prod.exhaust)
  note s1 = steady_readingD [OF assms 1]
  show "prove_pending_close e later r rd s = Inl (s', x) \<Longrightarrow> steady s s'"
    using steady_trans [OF s1 steady_failed] steady_trans [OF s1 steady_retry] s1
    by (auto simp: prove_pending_close_def 1 split: if_splits sum.splits entry_value.splits)
  show "prove_pending_close e later r rd s = Inr (s', p) \<Longrightarrow> steady s s'"
    using steady_trans [OF s1 steady_proven] by (auto simp: prove_pending_close_def 1 split: if_splits sum.splits entry_value.splits)
qed

lemma steady_close [steadiness]:
  assumes "reconcile_close e later r rd rd' s = (s', x)" and "steady_reading rd" and "steady_reading rd'"
  shows "steady s s'"
proof (cases "prove_pending_close e later r rd s")
  case (Inl y)
  then show ?thesis using assms(1) steady_proof(1) [OF assms(2)] by (cases y) (simp add: reconcile_close_def)
next
  case (Inr y)
  obtain s1 p where y: "y = (s1, p)" by (cases y)
  have 1: "steady s s1" using steady_proof(2) [OF assms(2)] Inr y by simp
  have "steady s1 s'"
  proof (cases "ol_at p")
    case None
    then show ?thesis using assms(1) steady_retry by (simp add: reconcile_close_def Inr y)
  next
    case (Some t)
    obtain s2 z where 2: "reconcile_close_occurrence (te_cfg e) later \<lparr>to_ticket = ol_ticket p, to_at = t, to_owner = None, to_event = []\<rparr> False False rd' s1 = (s2, z)"
      by (metis prod.exhaust)
    have "steady s2 s'"
      using assms(1) steady_retry steady_mark steady_trans [OF steady_mark steady_reject]
      by (auto simp: reconcile_close_def Inr y Some 2 split: sum.splits if_splits)
    then show ?thesis using steady_close_reconciled [OF 2 assms(3)] steady_trans by blast
  qed
  then show ?thesis using 1 steady_trans by blast
qed

definition steady_run :: "task_run \<Rightarrow> bool" where
  "steady_run t \<longleftrightarrow> steady_reading (tr_first t) \<and> steady_reading (tr_second t)"

lemma steady_run [steadiness]:
  assumes "reconcile_occurrence e t k s = (s', r)" and "steady_run t"
  shows "steady s s'"
proof -
  obtain s1 x where 1: "claim_attempt e (tr_now t) k s = (s1, x)" by (metis prod.exhaust)
  have "steady s1 s'"
    using assms steady_entry steady_owner steady_close
    by (auto simp: reconcile_occurrence_def steady_run_def 1 split: sum.splits occurrence_type.splits)
  then show ?thesis using steady_claim [OF 1] steady_trans by blast
qed

text \<open>Turns of an occurrence: what others commit before a run, and the run.  The number counts the
  attempts that were claimed.\<close>

type_synonym turn = "(site \<Rightarrow> site) \<times> task_run"

fun reconcile_turns :: "task_env \<Rightarrow> uuid \<Rightarrow> turn list \<Rightarrow> site \<Rightarrow> site \<times> nat" where
  "reconcile_turns e k [] s = (s, 0)"
| "reconcile_turns e k ((before, t) # ts) s =
     (case reconcile_turns e k ts (fst (reconcile_occurrence e t k (before s))) of (s', n) \<Rightarrow>
        (s', (case snd (claim_attempt e (tr_now t) k (before s)) of Inl answer \<Rightarrow> n | Inr r \<Rightarrow> Suc n)))"

lemma claim_counts:
  assumes "claim_attempt e now k s = (s1, Inr r1)"
  shows "\<exists>r. occurrence_of s k = Some r \<and> ol_processing r = Occ_Pending \<and> ol_retries r < te_max_attempts e \<and> r1 = claimed_attempt now r \<and>
    s1 = put_occurrence r1 s \<and> occurrence_of s1 k = Some r1"
proof -
  obtain r where r: "occurrence_of s k = Some r" "ol_processing r = Occ_Pending" "\<not> exhausted e now r" "r1 = claimed_attempt now r"
      "s1 = put_occurrence r1 s"
    using assms by (auto simp: claim_attempt_def split: option.splits if_splits)
  moreover have "ol_pk r1 = k" using occurrence_of_key [OF r(1)] by (simp add: r(4) claimed_attempt_def)
  ultimately show ?thesis by (auto simp: exhausted_def occurrence_of_put)
qed

text \<open>However often and whenever the task runs, it claims at most the attempts that are left, and carries the evidence on.\<close>

lemma turns_within_budget:
  assumes "tracked s" and "occurrence_of s k = Some r"
    and "\<forall>(before, t) \<in> set ts. (\<forall>s. steady s (before s)) \<and> steady_run t"
  shows "\<exists>s' n r'. reconcile_turns e k ts s = (s', n) \<and> n \<le> te_max_attempts e - ol_retries r \<and>
    occurrence_of s' k = Some r' \<and> carried r r'"
  using assms
proof (induction ts arbitrary: s r)
  case (Cons x ts)
  obtain before t where x: "x = (before, t)" by (cases x)
  have st: "steady s (before s)" "steady_run t" using Cons.prems(3) x by auto
  obtain r0 where r0: "occurrence_of (before s) k = Some r0" "carried r r0" using steadyD [OF st(1) Cons.prems(1,2)] by blast
  have t0: "tracked (before s)" by (rule steady_tracked [OF st(1) Cons.prems(1)])
  obtain s1 y where c: "claim_attempt e (tr_now t) k (before s) = (s1, y)" by (metis prod.exhaust)
  obtain s2 a where 2: "reconcile_occurrence e t k (before s) = (s2, a)" by (metis prod.exhaust)
  have t2: "tracked s2" by (rule steady_tracked [OF steady_run [OF 2 st(2)] t0])
  have rest: "\<forall>(before, t) \<in> set ts. (\<forall>s. steady s (before s)) \<and> steady_run t" using Cons.prems(3) by auto
  show ?case
  proof (cases y)
    case (Inl answer)
    obtain r2 where r2: "occurrence_of s2 k = Some r2" "carried r0 r2" using steadyD [OF steady_run [OF 2 st(2)] t0 r0(1)] by blast
    obtain s' n r' where "reconcile_turns e k ts s2 = (s', n)" "n \<le> te_max_attempts e - ol_retries r2" "occurrence_of s' k = Some r'" "carried r2 r'"
      using Cons.IH [OF t2 r2(1) rest] by blast
    moreover have "ol_retries r \<le> ol_retries r2" "carried r r2"
      using carried_retries [OF r0(2)] carried_retries [OF r2(2)] carried_trans [OF r0(2) r2(2)] by simp_all
    ultimately show ?thesis using carried_trans [of r r2] by (auto simp: x 2 c Inl)
  next
    case (Inr r1)
    obtain q where q: "occurrence_of (before s) k = Some q" "ol_retries q < te_max_attempts e" "r1 = claimed_attempt (tr_now t) q"
        "occurrence_of s1 k = Some r1"
      using claim_counts [OF c [unfolded Inr]] by blast
    have t1: "tracked s1" by (rule steady_tracked [OF steady_claim [OF c] t0])
    have "steady s1 s2" using 2 st(2) steady_entry steady_owner steady_close
      by (auto simp: reconcile_occurrence_def steady_run_def c Inr split: occurrence_type.splits)
    then obtain r2 where r2: "occurrence_of s2 k = Some r2" "carried r1 r2" using steadyD t1 q(4) by blast
    obtain s' n r' where "reconcile_turns e k ts s2 = (s', n)" "n \<le> te_max_attempts e - ol_retries r2" "occurrence_of s' k = Some r'" "carried r2 r'"
      using Cons.IH [OF t2 r2(1) rest] by blast
    moreover have rq: "carried r q" using q(1) r0 by simp
    moreover have "carried r r2" by (rule carried_trans [OF carried_trans [OF rq claimed_carried] r2(2) [unfolded q(3)]])
    moreover have "ol_retries q < ol_retries r2" using carried_retries [OF r2(2)] by (simp add: q(3) claimed_attempt_def)
    ultimately show ?thesis using q(2) carried_retries [OF rq] carried_trans [of r r2] by (auto simp: x 2 c Inr)
  qed
qed simp

text \<open>C29: reconciliation has a budget.  However often and whenever the task runs for an occurrence, whatever
  the provider answers and whatever others commit meanwhile as long as that carries the evidence on, it claims at most
  the attempts that are left.  The evidence keeps its identity, its age and its proof, and never becomes pending
  again once it is concluded: processed evidence stays processed, except that a capability failure of the provider marks
  it for repair, and proven evidence marked for repair keeps its reason or takes that of a capability failure.\<close>

theorem reconciliation_budget:
  assumes "tracked s" and "occurrence_of s k = Some r"
    and "\<forall>(before, t) \<in> set ts. (\<forall>s. steady s (before s)) \<and> steady_run t"
  shows "\<exists>s' n r'. reconcile_turns e k ts s = (s', n) \<and> n \<le> te_max_attempts e - ol_retries r \<and> occurrence_of s' k = Some r' \<and>
    (ol_account r', ol_ticket r', ol_type r', ol_created r') = (ol_account r, ol_ticket r, ol_type r, ol_created r) \<and>
    (ol_status r = Proven \<longrightarrow> ol_status r' = Proven \<and> ol_at r' = ol_at r) \<and>
    (ol_processing r \<noteq> Occ_Pending \<longrightarrow> ol_processing r' \<noteq> Occ_Pending) \<and>
    (ol_processing r = Occ_Processed \<longrightarrow> ol_processing r' = Occ_Processed \<or>
       (ol_processing r' = Occ_Repair_Required \<and> ol_error r' = ''provider_capability_failure'')) \<and>
    (ol_processing r = Occ_Repair_Required \<and> ol_status r \<noteq> Materialization_Pending \<longrightarrow>
       ol_processing r' = Occ_Repair_Required \<and> ol_error r' \<in> {ol_error r, ''provider_capability_failure''})"
proof -
  obtain s' n r' where t: "reconcile_turns e k ts s = (s', n)" "n \<le> te_max_attempts e - ol_retries r" "occurrence_of s' k = Some r'"
    and c: "carried r r'"
    using turns_within_budget [OF assms] by blast
  have "stays_concluded r r'" using c by (simp add: carried_def)
  then have p: "ol_processing r \<noteq> Occ_Pending \<longrightarrow> ol_processing r' \<noteq> Occ_Pending"
    "ol_processing r = Occ_Processed \<longrightarrow> ol_processing r' = Occ_Processed \<or>
       (ol_processing r' = Occ_Repair_Required \<and> ol_error r' = ''provider_capability_failure'')"
    "ol_processing r = Occ_Repair_Required \<and> ol_status r \<noteq> Materialization_Pending \<longrightarrow>
       ol_processing r' = Occ_Repair_Required \<and> ol_error r' \<in> {ol_error r, ''provider_capability_failure''}"
    by (auto simp: stays_concluded_def capability_failure_def split: occurrence_processing.splits)
  have k: "(ol_account r', ol_ticket r', ol_type r', ol_created r') = (ol_account r, ol_ticket r, ol_type r, ol_created r)"
    "ol_status r = Proven \<longrightarrow> ol_status r' = Proven \<and> ol_at r' = ol_at r"
    using c by (simp_all add: carried_def)
  show ?thesis by (intro exI conjI) (rule t k p)+
qed

section \<open>Retrying a queue entry\<close>

definition after_failure :: "task_env \<Rightarrow> instant \<Rightarrow> string \<Rightarrow> occurrence \<Rightarrow> occurrence" where
  "after_failure e later why r = (if exhausted e later r then given_up why r else r\<lparr>ol_error := why\<rparr>)"

lemma retry_later_eq:
  assumes "occurrence_of s k = Some r" and "ol_processing r = Occ_Pending"
  shows "retry_later e later k why s =
    (put_occurrence (after_failure e later why r) s, Inr (Answered_Status (ol_processing (after_failure e later why r))))"
  using assms by (simp add: retry_later_def after_failure_def given_up_def)

lemma after_failure_pk [simp]: "ol_pk (after_failure e later why r) = ol_pk r"
  by (simp add: after_failure_def given_up_def)

lemma entry_row_known:
  assumes "tracked s" and "occurrence_of s k = Some r" and "ol_at r = Some at" and "ol_type r = Entered_Support_Queue"
    and "\<forall>q \<in> set (st_occs s). temporal_match (ol_account r) (ol_ticket r) Entered_Support_Queue at q \<longrightarrow> ol_pk q = k"
    and "identified_ticket (ol_account r) (ol_ticket r)"
  shows "record_proven_occurrence now (ol_account r) (ol_ticket r) Entered_Support_Queue at ev s = Inr (s, r)"
proof -
  have r: "r \<in> set (st_occs s)" "ol_pk r = k" using assms(2) get_row_Some_in unfolding occurrence_of_def by fastforce+
  then have "temporal_match (ol_account r) (ol_ticket r) Entered_Support_Queue at r" using assms(3,4) by (simp add: temporal_match_def)
  then obtain q where q: "first_row (temporal_match (ol_account r) (ol_ticket r) Entered_Support_Queue at) (st_occs s) = Some q"
    using r(1) by (cases "first_row (temporal_match (ol_account r) (ol_ticket r) Entered_Support_Queue at) (st_occs s)") (auto simp: first_row_None)
  then have "q \<in> set (st_occs s)" "ol_pk q = k" using first_row_Some [OF q] assms(5) by auto
  then have "q = r" using assms(1) r by (auto simp: tracked_def distinct_map dest: inj_onD)
  then show ?thesis using q assms(6) by (simp add: record_proven_occurrence_def identified_ticket_def)
qed

text \<open>What the retry of a proven queue entry does.  A due run with budget left counts its attempt and opens
  the attendance of the entry, unless it was opened before; then the evidence is processed.  When the
  admission refuses or raises, nothing but the evidence changes: it stays pending with the reason, to be
  retried within five minutes, or needs repair when the budget is spent.\<close>

theorem entry_retry_effect:
  assumes "tracked s" and "occurrence_of s k = Some r" and "ol_processing r = Occ_Pending" and "ol_status r = Proven"
    and "ol_type r = Entered_Support_Queue" and "ol_at r = Some at" and "identified_ticket (ol_account r) (ol_ticket r)"
    and "\<forall>q \<in> set (st_occs s). temporal_match (ol_account r) (ol_ticket r) Entered_Support_Queue at q \<longrightarrow> ol_pk q = k"
    and "ol_next r = None \<or> the (ol_next r) \<le> tr_now t" and "\<not> exhausted e (tr_now t) r"
  shows "\<exists>s' a r'. reconcile_occurrence e t k s = (s', Inr (Answered_Status a)) \<and> occurrence_of s' k = Some r' \<and>
    ol_processing r' = a \<and> ol_retries r' = Suc (ol_retries r) \<and> st_conv s' = st_conv s \<and>
    (case open_cycle (te_cfg e) (ol_ticket r) (AwareDatetime at) (Some (ol_event r)) (Some (ol_account r)) (st_db s) of
       Inl err \<Rightarrow> a \<noteq> Occ_Processed \<and> st_db s' = st_db s \<and> ol_error r' = te_name e err
     | Inr (d, res) \<Rightarrow> st_db s' = d \<and>
         (if or_classification res \<in> {Created, Duplicate} then a = Occ_Processed \<and> ol_next r' = None
          else a \<noteq> Occ_Processed \<and> ol_error r' = cycle_class_text (or_classification res))) \<and>
    (a = Occ_Pending \<longrightarrow> (\<exists>n. ol_next r' = Some n \<and> n \<le> tr_now t + seconds 300)) \<and>
    (a = Occ_Repair_Required \<longrightarrow> te_max_attempts e \<le> Suc (ol_retries r) \<or> te_max_age e \<le> tr_later t - ol_created r)"
proof -
  let ?r = "claimed_attempt (tr_now t) r"
  let ?s = "put_occurrence ?r s"
  note pk = occurrence_of_key [OF assms(2)]
  have due: "(case ol_next r of None \<Rightarrow> False | Some n \<Rightarrow> tr_now t < n) = False" using assms(9) by (auto split: option.split)
  have claim: "claim_attempt e (tr_now t) k s = (?s, Inr ?r)"
    using assms(3,10) by (simp add: claim_attempt_def assms(2) due)
  have row: "occurrence_of ?s k = Some ?r" using assms(2) pk by (simp add: occurrence_of_put claimed_attempt_def)
  have t: "tracked ?s" using assms(1) by (simp add: tracked_def put_occurrence_def)
  have fields: "ol_at ?r = Some at" "ol_type ?r = Entered_Support_Queue" "ol_account ?r = ol_account r" "ol_ticket ?r = ol_ticket r"
    "ol_status ?r = Proven" "ol_processing ?r = Occ_Pending" "ol_event ?r = ol_event r" "ol_retries ?r = Suc (ol_retries r)"
    "ol_created ?r = ol_created r" "ol_pk ?r = k" "\<exists>n. ol_next ?r = Some n \<and> n \<le> tr_now t + seconds 300"
    using assms(3-6) pk by (simp_all add: claimed_attempt_def)
  have uniq: "\<forall>q \<in> set (st_occs ?s). temporal_match (ol_account ?r) (ol_ticket ?r) Entered_Support_Queue at q \<longrightarrow> ol_pk q = k"
    using assms(8) fields(3,4,10) by (auto simp: put_occurrence_def dest!: in_save_row)
  note known = entry_row_known [OF t row fields(1,2) uniq]
  have known: "record_proven_occurrence (tr_later t) (ol_account r) (ol_ticket r) Entered_Support_Queue at
      ((occurrence_evidence ?r)\<lparr>ob_updated := None\<rparr>) ?s = Inr (?s, ?r)"
    using known assms(7) fields(3,4) by simp
  have db: "st_db ?s = st_db s" "st_conv ?s = st_conv s" by (simp_all add: put_occurrence_def)
  have run: "reconcile_occurrence e t k s = reconcile_entry e (tr_later t) k ?s"
    using fields(2) by (simp add: reconcile_occurrence_def claim)
  have ev: "ob_event (occurrence_evidence ?r) = ol_event r" using fields(7) by (simp add: occurrence_evidence_def)
  let ?open = "open_cycle (te_cfg e) (ol_ticket r) (AwareDatetime at) (Some (ol_event r)) (Some (ol_account r)) (st_db s)"
  have rowd: "occurrence_of (?s\<lparr>st_db := d\<rparr>) k = Some ?r" for d using row by (simp add: occurrence_of_def)
  have failed: "\<exists>r'. occurrence_of (put_occurrence (after_failure e (tr_later t) why ?r) (?s\<lparr>st_db := d\<rparr>)) k = Some r' \<and>
      r' = after_failure e (tr_later t) why ?r \<and> ol_retries r' = Suc (ol_retries r) \<and> ol_error r' = why \<and> ol_processing r' \<noteq> Occ_Processed \<and>
      (ol_processing r' = Occ_Pending \<longrightarrow> (\<exists>n. ol_next r' = Some n \<and> n \<le> tr_now t + seconds 300)) \<and>
      (ol_processing r' = Occ_Repair_Required \<longrightarrow> te_max_attempts e \<le> Suc (ol_retries r) \<or> te_max_age e \<le> tr_later t - ol_created r)" for why d
    using rowd [of d] fields(6,8-11) by (auto simp: occurrence_of_put after_failure_def given_up_def exhausted_def)
  have opened: "open_from_proven_occurrence (te_cfg e) (tr_later t) (ol_ticket ?r) at (ol_account ?r) (occurrence_evidence ?r) ?s =
      and_then ?open (\<lambda>(d, res). Inr (if or_classification res \<in> {Created, Duplicate} then mark_processed k (?s\<lparr>st_db := d\<rparr>) else ?s\<lparr>st_db := d\<rparr>, res))"
    using known fields(3,4,10) by (simp add: open_from_proven_occurrence_def ev db Let_def cong: if_cong)
  show ?thesis
  proof (cases ?open)
    case (Inl err)
    have s: "?s\<lparr>st_db := st_db s\<rparr> = ?s" using db(1) by simp
    have "reconcile_entry e (tr_later t) k ?s = retry_later e (tr_later t) k (te_name e err) ?s"
      using fields opened by (simp add: reconcile_entry_def row Inl)
    then show ?thesis using failed [of "te_name e err" "st_db s"] retry_later_eq [OF row fields(6)] db
      unfolding run s by (auto simp: Inl put_occurrence_def)
  next
    case (Inr x)
    obtain d res where x: "x = (d, res)" by (cases x)
    show ?thesis
    proof (cases "or_classification res \<in> {Created, Duplicate}")
      case True
      have "reconcile_entry e (tr_later t) k ?s = (mark_processed k (?s\<lparr>st_db := d\<rparr>), Inr (Answered_Status Occ_Processed))"
        using fields opened True by (simp add: reconcile_entry_def row Inr x)
      moreover have "occurrence_of (mark_processed k (?s\<lparr>st_db := d\<rparr>)) k = Some (?r\<lparr>ol_processing := Occ_Processed, ol_next := None\<rparr>)"
        using rowd [of d] fields(5,6,10) by (simp add: occurrence_of_def mark_processed_def get_row_update_rows)
      ultimately show ?thesis using True fields db unfolding run by (simp add: Inr x mark_processed_def)
    next
      case False
      have "reconcile_entry e (tr_later t) k ?s = retry_later e (tr_later t) k (cycle_class_text (or_classification res)) (?s\<lparr>st_db := d\<rparr>)"
        using fields opened False by (simp add: reconcile_entry_def row Inr x)
      then show ?thesis using failed [of "cycle_class_text (or_classification res)" d] retry_later_eq [OF rowd fields(6)] False db
        unfolding run by (auto simp: Inr x put_occurrence_def)
    qed
  qed
qed

section \<open>What is never retried, and what is retried in vain\<close>

text \<open>Evidence of an owner change gets no retry time, so the scan does not find it: when its own
  processing fails it stays pending.\<close>

lemma owner_evidence_never_scanned:
  "\<not> scan_due later (proven_row now account ticket Owner_Changed at ev)"
  by (simp add: scan_due_def proven_row_def)

definition retry_env :: task_env where
  "retry_env = \<lparr>te_cfg = enforce_cfg\<lparr>provider_contract_mode := Contract_Enforce\<rparr>, te_max_attempts = 2, te_max_age = seconds 3600,
     te_capability = (\<lambda>err. err = ExternalServiceError), te_code = (\<lambda>_. ''code''), te_name = (\<lambda>_. ''Error'')\<rparr>"

definition entry_site :: site where
  "entry_site = empty_site\<lparr>st_occs := [(proven_row 0 ''A'' ''7'' Entered_Support_Queue 100 demo_evidence)\<lparr>ol_pk := 0\<rparr>],
     st_db := empty_db\<lparr>db_next_pk := 1\<rparr>\<rparr>"

definition owner_site :: site where
  "owner_site = empty_site\<lparr>st_occs := [(proven_row 0 ''A'' ''7'' Owner_Changed 100 demo_evidence)\<lparr>ol_pk := 0\<rparr>],
     st_db := empty_db\<lparr>db_next_pk := 1\<rparr>\<rparr>"

text \<open>A capability failure does not look at what happened meanwhile: evidence that another worker
  processed during the reading is marked as needing repair.\<close>

lemma capability_failure_reopens_processed:
  "let run = \<lparr>tr_now = seconds 60, tr_later = seconds 61, tr_first = (\<lambda>s. (mark_processed 0 s, Inl ExternalServiceError)), tr_second = given demo_snapshot\<rparr>
   in map_option ol_processing (occurrence_of (mark_processed 0 owner_site) 0) = Some Occ_Processed \<and>
      map_option ol_processing (occurrence_of (fst (reconcile_occurrence retry_env run 0 owner_site)) 0) = Some Occ_Repair_Required"
  by code_simp

section \<open>Witnesses\<close>

definition quiet_run :: "instant \<Rightarrow> task_run" where
  "quiet_run now = \<lparr>tr_now = now, tr_later = now, tr_first = given demo_snapshot, tr_second = given demo_snapshot\<rparr>"

theorem reconciliation_budget_witness:
  "\<exists>s' n. reconcile_turns retry_env 0 [(\<lambda>s. s, quiet_run (seconds 60)), (\<lambda>s. s, quiet_run (seconds 400)), (\<lambda>s. s, quiet_run (seconds 800))] owner_site = (s', n) \<and>
     n \<le> 2 \<and> occurrence_of s' 0 \<noteq> None"
proof -
  have s: "tracked owner_site" by code_simp
  have r: "occurrence_of owner_site 0 = Some ((proven_row 0 ''A'' ''7'' Owner_Changed 100 demo_evidence)\<lparr>ol_pk := 0\<rparr>)" by code_simp
  have t: "\<forall>(before, t) \<in> set [(\<lambda>s. s, quiet_run (seconds 60)), (\<lambda>s. s, quiet_run (seconds 400)), (\<lambda>s. s, quiet_run (seconds 800))].
      (\<forall>s. steady s (before s)) \<and> steady_run t"
    by (simp add: quiet_run_def steady_run_def)
  have n: "te_max_attempts retry_env - ol_retries ((proven_row 0 ''A'' ''7'' Owner_Changed 100 demo_evidence)\<lparr>ol_pk := 0\<rparr>) = 2" by code_simp
  show ?thesis using reconciliation_budget [OF s r t, of retry_env] unfolding n by auto
qed

theorem entry_retry_effect_witness:
  "\<exists>s' r'. reconcile_occurrence retry_env (quiet_run (seconds 60)) 0 entry_site = (s', Inr (Answered_Status Occ_Processed)) \<and>
     occurrence_of s' 0 = Some r' \<and> ol_processing r' = Occ_Processed"
proof -
  let ?r = "(proven_row 0 ''A'' ''7'' Entered_Support_Queue 100 demo_evidence)\<lparr>ol_pk := 0\<rparr>"
  have s: "tracked entry_site" by code_simp
  have r: "occurrence_of entry_site 0 = Some ?r" by code_simp
  have f: "ol_processing ?r = Occ_Pending" "ol_status ?r = Proven" "ol_type ?r = Entered_Support_Queue" "ol_at ?r = Some 100"
    "identified_ticket (ol_account ?r) (ol_ticket ?r)" "ol_next ?r = None \<or> the (ol_next ?r) \<le> tr_now (quiet_run (seconds 60))"
    "\<not> exhausted retry_env (tr_now (quiet_run (seconds 60))) ?r" by code_simp+
  have u: "\<forall>q \<in> set (st_occs entry_site). temporal_match (ol_account ?r) (ol_ticket ?r) Entered_Support_Queue 100 q \<longrightarrow> ol_pk q = 0"
    by (simp add: entry_site_def)
  have o: "case open_cycle (te_cfg retry_env) (ol_ticket ?r) (AwareDatetime 100) (Some (ol_event ?r)) (Some (ol_account ?r)) (st_db entry_site) of
      Inl err \<Rightarrow> False | Inr (d, res) \<Rightarrow> or_classification res = Created" by code_simp
  then obtain d res where o: "open_cycle (te_cfg retry_env) (ol_ticket ?r) (AwareDatetime 100) (Some (ol_event ?r)) (Some (ol_account ?r)) (st_db entry_site) = Inr (d, res)"
      "or_classification res = Created"
    by (auto split: sum.splits)
  show ?thesis using entry_retry_effect [OF s r f(1-5) u f(6,7)] o by auto
qed

end
