(* ===== verification/Owner_Change.thy ===== *)
theory Owner_Change
  imports Matchmaker Occurrence_Retry
begin

text \<open>
  The handling of an owner change reported by a webhook, \<open>task_handle_owner_change\<close> and
  \<open>_do_handle_owner_change\<close> of \<open>apps/support/tasks.py\<close>.  A raised exception ends in
  \<open>self.retry\<close> and is the \<open>Inl\<close> of the result; what earlier transactions committed stays.
  The readings of the provider and the answer of the cache lock are arguments.
\<close>

section \<open>Applying an owner change\<close>

definition waiting_of_ticket :: "string \<Rightarrow> db \<Rightarrow> queue_row option" where
  "waiting_of_ticket ticket d = first_by nc_entered_at (\<lambda>q. nc_ticket q = ticket \<and> nc_status q \<in> {Pending, In_Queue}) (db_queue d)"

definition live_attempt_of :: "queue_row \<Rightarrow> db \<Rightarrow> attempt option" where
  "live_attempt_of q d = first_by at_pk (\<lambda>a. at_queue_row a = Some (nc_pk q) \<and> is_live (at_state a)) (db_attempts d)"

text \<open>The owner whose attempt was applied is confirmed; the flag says so.  Any other live attempt is compensated.\<close>

definition conclude_live :: "settings \<Rightarrow> clock \<Rightarrow> queue_row \<Rightarrow> int \<Rightarrow> db \<Rightarrow> (db \<times> bool) result" where
  "conclude_live cfg clk q owner d =
     (case live_attempt_of q d of
        None \<Rightarrow> Inr (d, False)
      | Some a \<Rightarrow>
          (if at_desired_owner a = owner \<and> at_state a = External_Applied
           then and_then (finalize_assignment_attempt cfg clk (at_pk a) d) (\<lambda>(d', _). Inr (d', True))
           else and_then (compensate_assignment_attempt cfg clk (at_pk a) False ''hubspot_manual_owner_observed'' False False d)
                  (\<lambda>(d', _). Inr (d', False))))"

definition external_row :: "instant \<Rightarrow> queue_row \<Rightarrow> int \<Rightarrow> agent option \<Rightarrow> db \<Rightarrow> assigned_row" where
  "external_row now q owner g d = \<lparr>as_pk = db_next_pk d, as_ticket = nc_ticket q, as_cycle = nc_cycle q, as_agent = map_option ag_pk g,
     as_owner = owner, as_agent_name = (case g of None \<Rightarrow> [] | Some a \<Rightarrow> ag_name a), as_pipeline = nc_pipeline q,
     as_entered_at = Some (nc_entered_at q), as_assigned_at = Some now, as_wait = Some (now - nc_entered_at q), as_count = 1,
     as_contact = nc_contact q\<rparr>"

definition external_log :: "instant \<Rightarrow> queue_row \<Rightarrow> int \<Rightarrow> agent option \<Rightarrow> db \<Rightarrow> log_row" where
  "external_log now q owner g d = \<lparr>lg_pk = Suc (db_next_pk d), lg_attempt = None, lg_ticket = nc_ticket q, lg_cycle = nc_cycle q,
     lg_agent = map_option ag_pk g, lg_agent_name = (case g of None \<Rightarrow> [] | Some a \<Rightarrow> ag_name a), lg_owner = Some owner,
     lg_type = observed_source, lg_by = Some [], lg_pipeline = Some (nc_pipeline q), lg_entered_at = Some (nc_entered_at q),
     lg_wait = Some (now - nc_entered_at q), lg_assigned_at = now\<rparr>"

definition assign_queued_cycle :: "uuid option \<Rightarrow> db \<Rightarrow> db" where
  "assign_queued_cycle k d = d\<lparr>db_cycles := update_rows (\<lambda>c. Some (cy_pk c) = k \<and> cy_state c = Queued) (\<lambda>c. c\<lparr>cy_state := Assigned\<rparr>) (db_cycles d)\<rparr>"

definition count_chat :: "settings \<Rightarrow> instant \<Rightarrow> agent option \<Rightarrow> db \<Rightarrow> db result" where
  "count_chat cfg now g d = (case g of None \<Rightarrow> Inr d | Some a \<Rightarrow> increment_agent_chat_count cfg now (ag_pk a) d)"

definition release_from :: "settings \<Rightarrow> instant \<Rightarrow> agent option \<Rightarrow> db \<Rightarrow> db result" where
  "release_from cfg now g d = (case g of None \<Rightarrow> Inr d | Some a \<Rightarrow> decrement_agent_chat_count cfg now (ag_pk a) d)"

definition take_from_queue :: "settings \<Rightarrow> instant \<Rightarrow> queue_row \<Rightarrow> int \<Rightarrow> agent option \<Rightarrow> db \<Rightarrow> db result" where
  "take_from_queue cfg now q owner g d =
     (if nc_cycle q \<noteq> None \<and> exists_row (\<lambda>r. as_cycle r = nc_cycle q) (db_assigned d) then Inl IntegrityError
      else and_then (count_chat cfg now g (d\<lparr>db_assigned := db_assigned d @ [external_row now q owner g d],
                                            db_logs := db_logs d @ [external_log now q owner g d],
                                            db_next_pk := Suc (Suc (db_next_pk d))\<rparr>))
             (\<lambda>d1. Inr (delete_queue_row (nc_pk q) (assign_queued_cycle (nc_cycle q) d1))))"

text \<open>Everything under the transaction: the attendants too.\<close>

definition attend :: "instant \<Rightarrow> string \<Rightarrow> agent option \<Rightarrow> desk \<Rightarrow> desk \<times> unit result" where
  "attend now ticket g k =
     (case g of
        None \<Rightarrow> (k, Inr ())
      | Some a \<Rightarrow>
          (case record_ticket_attendant now ticket a Unknown_External (st_conv (dk_site k)) (dk_attendants k) of
             (s, rows, r) \<Rightarrow> (k\<lparr>dk_site := (dk_site k)\<lparr>st_conv := s\<rparr>, dk_attendants := rows\<rparr>,
                             (case r of Inl e \<Rightarrow> Inl e | Inr _ \<Rightarrow> Inr ()))))"

definition converge_queued :: "settings \<Rightarrow> clock \<Rightarrow> string \<Rightarrow> queue_row \<Rightarrow> int \<Rightarrow> desk \<Rightarrow> desk \<times> unit result" where
  "converge_queued cfg clk ticket q owner k =
     (let g = closing_agent (desk_db k) (Some owner) in
      case conclude_live cfg clk q owner (desk_db k) of
        Inl e \<Rightarrow> (k, Inl e)
      | Inr (d1, True) \<Rightarrow> (put_db d1 k, Inr ())
      | Inr (d1, False) \<Rightarrow>
          (case take_from_queue cfg (app_clock clk) q owner g d1 of
             Inl e \<Rightarrow> (k, Inl e)
           | Inr d2 \<Rightarrow>
               (case attend (app_clock clk) ticket g (put_db d2 k) of
                  (k', Inl e) \<Rightarrow> (k, Inl e)
                | (k', Inr u) \<Rightarrow> (k', Inr u))))"

text \<open>\<open>hubspot_owner_id\<close> is not nullable: an assigned row cannot lose its owner.\<close>

definition reassigned_row :: "assigned_row \<Rightarrow> int option \<Rightarrow> agent option \<Rightarrow> assigned_row result" where
  "reassigned_row a owner g =
     (case (g, owner) of
        (Some t, _) \<Rightarrow> Inr (a\<lparr>as_agent := Some (ag_pk t), as_owner := ag_owner t, as_agent_name := ag_name t, as_count := as_count a + 1\<rparr>)
      | (None, Some n) \<Rightarrow> Inr (a\<lparr>as_agent := None, as_owner := n, as_agent_name := []\<rparr>)
      | (None, None) \<Rightarrow> Inl IntegrityError)"

definition reassignment_row :: "instant \<Rightarrow> assigned_row \<Rightarrow> agent option \<Rightarrow> int option \<Rightarrow> agent option \<Rightarrow> db \<Rightarrow> reassign_row" where
  "reassignment_row now a from_agent owner g d = \<lparr>rr_pk = db_next_pk d, rr_ticket = as_ticket a, rr_cycle = as_cycle a,
     rr_from_agent = map_option ag_pk from_agent, rr_from_owner = Some (as_owner a), rr_from_name = map_option ag_name from_agent,
     rr_to_agent = map_option ag_pk g, rr_to_owner = owner, rr_to_name = map_option ag_name g, rr_at = Some now,
     rr_time = map_option (\<lambda>t. now - t) (as_assigned_at a), rr_source = observed_source\<rparr>"

definition move_assigned :: "settings \<Rightarrow> instant \<Rightarrow> assigned_row \<Rightarrow> int option \<Rightarrow> agent option \<Rightarrow> db \<Rightarrow> db result" where
  "move_assigned cfg now a owner g d =
     (let from_agent = linked_agent d (as_agent a) in
      and_then (release_from cfg now from_agent d) (\<lambda>d1.
      and_then (count_chat cfg now g d1) (\<lambda>d2.
      and_then (reassigned_row a owner g) (\<lambda>a'.
        Inr ((put_assigned a' d2)\<lparr>db_reassigns := db_reassigns d2 @ [reassignment_row now a from_agent owner g d2],
                                  db_next_pk := Suc (db_next_pk d2)\<rparr>)))))"

definition overtaken_change :: "int option \<Rightarrow> int option \<Rightarrow> assigned_row \<Rightarrow> bool" where
  "overtaken_change prev owner a \<longleftrightarrow> (prev \<noteq> None \<and> prev \<noteq> Some (as_owner a)) \<or> owner = Some (as_owner a)"

definition do_handle_owner_change :: "settings \<Rightarrow> clock \<Rightarrow> string \<Rightarrow> int option \<Rightarrow> int option \<Rightarrow> desk \<Rightarrow> desk \<times> unit result" where
  "do_handle_owner_change cfg clk ticket prev owner k =
     (case require_routing_writer_authority cfg of
        Inl e \<Rightarrow> (k, Inl e)
      | Inr _ \<Rightarrow>
          (case assigned_to_ticket (desk_db k) ticket of
             None \<Rightarrow>
               (case (owner, waiting_of_ticket ticket (desk_db k)) of
                  (Some n, Some q) \<Rightarrow> converge_queued cfg clk ticket q n k
                | _ \<Rightarrow> (k, Inr ()))
           | Some a \<Rightarrow>
               (if overtaken_change prev owner a then (k, Inr ())
                else case move_assigned cfg (app_clock clk) a owner (closing_agent (desk_db k) owner) (desk_db k) of
                       Inl e \<Rightarrow> (k, Inl e)
                     | Inr d \<Rightarrow> attend (app_clock clk) ticket (closing_agent (desk_db k) owner) (put_db d k))))"

section \<open>The task\<close>

record owner_payload =
  op_new :: stage_value
  op_previous :: stage_value
  op_occurred :: stage_value
  op_event :: string

definition property_evidence :: "string \<Rightarrow> evidence" where
  "property_evidence event = \<lparr>ob_source = ''webhook_property'', ob_event = event, ob_updated = None, ob_observation = []\<rparr>"

definition owner_evidence :: "settings \<Rightarrow> instant \<Rightarrow> string \<Rightarrow> owner_payload \<Rightarrow> site \<Rightarrow> (site \<times> occurrence option) result" where
  "owner_evidence cfg now ticket p s =
     (if provider_contract_mode cfg = Contract_Off \<or> portal_id (key_env cfg) = [] then Inr (s, None)
      else and_then (parse_hubspot_timestamp (RawValue (op_occurred p))) (\<lambda>t.
             case t of
               None \<Rightarrow> Inr (s, None)
             | Some at \<Rightarrow> and_then (record_proven_occurrence now (portal_id (key_env cfg)) ticket Owner_Changed at
                                    (property_evidence (op_event p)) s) (\<lambda>(s', r). Inr (s', Some r))))"

text \<open>In the enforcing mode the evidence is concluded or scheduled.\<close>

definition schedule_owner_evidence :: "instant \<Rightarrow> uuid \<Rightarrow> site \<Rightarrow> site" where
  "schedule_owner_evidence now k s = s\<lparr>st_occs := update_rows (\<lambda>r. ol_pk r = k \<and> ol_processing r = Occ_Pending)
     (\<lambda>r. r\<lparr>ol_next := Some (now + seconds 30), ol_error := ''owner_cycle_pending''\<rparr>) (st_occs s)\<rparr>"

definition settle_owner_evidence :: "instant \<Rightarrow> occurrence option \<Rightarrow> occupancy \<Rightarrow> site \<Rightarrow> site" where
  "settle_owner_evidence now ev occ s =
     (case ev of
        None \<Rightarrow> s
      | Some r \<Rightarrow> (if ol_processing r = Occ_Pending \<and> owner_occurrence_matches_cycle r (oc_cycle occ) s then mark_processed (ol_pk r) s
                   else schedule_owner_evidence now (ol_pk r) s))"

text \<open>The owner to apply; \<open>None\<close> ends the task.\<close>

definition owner_to_apply ::
  "settings \<Rightarrow> string \<Rightarrow> owner_payload \<Rightarrow> occupancy option \<Rightarrow> reading \<Rightarrow> site \<Rightarrow> site \<times> int option option result" where
  "owner_to_apply cfg ticket p occ rd s =
     (let owner = safe_parse_owner_id (op_new p); prev = safe_parse_owner_id (op_previous p);
          persisted = map_option as_owner (assigned_to_ticket (st_db s) ticket)
      in if capacity_mode_of cfg = Capacity_Shadow \<and> occ \<noteq> None then (s, Inr (Some (oc_owner (the occ))))
         else if capacity_mode_of cfg = Capacity_Off \<and> prev = None then
           (if persisted = owner then (s, Inr None)
            else if persisted = None \<and> waiting_of_ticket ticket (st_db s) = None then (s, Inr None)
            else case rd s of
                   (s1, Inl e) \<Rightarrow> (s1, Inl e)
                 | (s1, Inr snap) \<Rightarrow> (s1, Inr (Some (safe_parse_owner_id (StageText (tk_owner snap))))))
         else (s, Inr (Some owner)))"

definition apply_owner_change ::
  "settings \<Rightarrow> clock \<Rightarrow> string \<Rightarrow> owner_payload \<Rightarrow> bool \<Rightarrow> occurrence option \<Rightarrow> occupancy option \<Rightarrow> reading \<Rightarrow> desk \<Rightarrow> desk \<times> unit result" where
  "apply_owner_change cfg clk ticket p acquired ev occ rd k =
     (case owner_to_apply cfg ticket p occ rd (dk_site k) of
        (s1, Inl e) \<Rightarrow> (k\<lparr>dk_site := s1\<rparr>, Inl e)
      | (s1, Inr None) \<Rightarrow> (k\<lparr>dk_site := s1\<rparr>, Inr ())
      | (s1, Inr (Some owner)) \<Rightarrow>
          (if \<not> acquired then (k\<lparr>dk_site := s1\<rparr>, Inr ())
           else case do_handle_owner_change cfg clk ticket (safe_parse_owner_id (op_previous p)) owner (k\<lparr>dk_site := s1\<rparr>) of
                  (k', Inl e) \<Rightarrow> (k', Inl e)
                | (k', Inr _) \<Rightarrow>
                    (case ev of None \<Rightarrow> k' | Some r \<Rightarrow> k'\<lparr>dk_site := mark_processed (ol_pk r) (dk_site k')\<rparr>, Inr ())))"

definition task_handle_owner_change ::
  "settings \<Rightarrow> clock \<Rightarrow> string \<Rightarrow> owner_payload \<Rightarrow> bool \<Rightarrow> reading \<Rightarrow> reading \<Rightarrow> desk \<Rightarrow> desk \<times> unit result" where
  "task_handle_owner_change cfg clk ticket p acquired rd rd' k =
     (if \<not> may_write_routing_state cfg then (k, Inr ())
      else case owner_evidence cfg (app_clock clk) ticket p (dk_site k) of
             Inl e \<Rightarrow> (k, Inl e)
           | Inr (s1, ev) \<Rightarrow>
               (if provider_contract_mode cfg = Contract_Enforce \<and> capacity_mode_of cfg \<noteq> Capacity_Enforce
                then (k\<lparr>dk_site := s1\<rparr>, Inl RuntimeError)
                else if capacity_mode_of cfg = Capacity_Off
                then apply_owner_change cfg clk ticket p acquired ev None rd' (k\<lparr>dk_site := s1\<rparr>)
                else case reconcile_ticket cfg (app_clock clk) ticket ''webhook'' (op_event p) None rd s1 of
                       (s2, Inl e) \<Rightarrow>
                         (if e = CloseProjectionError \<or> capacity_mode_of cfg = Capacity_Enforce then (k\<lparr>dk_site := s2\<rparr>, Inl e)
                          else apply_owner_change cfg clk ticket p acquired ev None rd' (k\<lparr>dk_site := s2\<rparr>))
                     | (s2, Inr (occ, _)) \<Rightarrow>
                         (if capacity_mode_of cfg = Capacity_Enforce
                          then (k\<lparr>dk_site := settle_owner_evidence (app_clock clk) ev occ s2\<rparr>, Inr ())
                          else apply_owner_change cfg clk ticket p acquired ev (Some occ) rd' (k\<lparr>dk_site := s2\<rparr>))))"

section \<open>A transfer\<close>

lemma first_by_map:
  assumes "\<And>x. key (g x) = key x" and "\<And>x. P (g x) = P x"
  shows "first_by key P (map g rows) = map_option g (first_by key P rows)"
proof -
  have "filter P (map g rows) = map g (filter P rows)" by (simp add: filter_map o_def assms(2))
  then show ?thesis by (simp add: first_by_def sort_key_map [where f = key and g = g, OF assms(1)] split: list.split)
qed

definition transferred :: "assigned_row \<Rightarrow> agent \<Rightarrow> assigned_row \<Rightarrow> assigned_row" where
  "transferred a g r = (if as_pk r = as_pk a
     then r\<lparr>as_agent := Some (ag_pk g), as_owner := ag_owner g, as_agent_name := ag_name g, as_count := as_count a + 1\<rparr> else r)"

lemma transferred_keeps [simp]: "as_pk (transferred a g r) = as_pk r" "as_ticket (transferred a g r) = as_ticket r"
  "as_assigned_at (transferred a g r) = as_assigned_at r"
  by (simp_all add: transferred_def)

lemma assigned_to_ticketD: "assigned_to_ticket d ticket = Some a \<Longrightarrow> a \<in> set (db_assigned d) \<and> as_ticket a = ticket"
  unfolding assigned_to_ticket_def by (rule first_by_Some)

lemma put_transferred:
  assumes "distinct (map as_pk (db_assigned d))" and "a \<in> set (db_assigned d)" and "reassigned_row a owner (Some g) = Inr a'"
  shows "db_assigned (put_assigned a' d) = map (transferred a g) (db_assigned d)"
proof -
  have a': "a' = transferred a g a" using assms(3) by (auto simp: reassigned_row_def transferred_def)
  have "(if as_pk r = as_pk a' then a' else r) = transferred a g r" if "r \<in> set (db_assigned d)" for r
  proof (cases "as_pk r = as_pk a")
    case True
    then have "r = a" using assms(1,2) that by (metis distinct_map inj_onD)
    then show ?thesis by (simp add: a')
  qed (simp add: a' transferred_def)
  then show ?thesis by (simp add: put_assigned_def save_row_def)
qed

lemma assigned_after_transfer:
  assumes "db_assigned d' = map (transferred a g) (db_assigned d)" and "assigned_to_ticket d ticket = Some a"
  shows "assigned_to_ticket d' ticket = Some (transferred a g a)"
  unfolding assigned_to_ticket_def assms(1)
  using assms(2) [unfolded assigned_to_ticket_def] by (subst first_by_map) simp_all

text \<open>The chats after a transfer.\<close>

definition chats_moved :: "uuid option \<Rightarrow> uuid \<Rightarrow> agent \<Rightarrow> int" where
  "chats_moved from_pk to_pk x = (let n = (if from_pk = Some (ag_pk x) then max (ag_chats x - 1) 0 else ag_chats x)
     in if ag_pk x = to_pk then n + 1 else n)"

lemma closing_agentD: "closing_agent d (Some n) = Some g \<Longrightarrow> g \<in> set (db_agents d) \<and> ag_owner g = n"
  unfolding closing_agent_def option.case by (rule first_by_Some)

lemma agent_of_key: "agent_of d k = Some g \<Longrightarrow> ag_pk g = k"
  unfolding agent_of_def by (rule get_row_key)

lemma linked_agent_key: "linked_agent d k = Some g \<Longrightarrow> k = Some (ag_pk g)"
  by (auto simp: linked_agent_def dest: agent_of_key split: option.splits)

lemma counted_chats:
  assumes "may_write_routing_state cfg" and "\<not> capacity_enforced cfg"
  obtains d2 where "and_then (release_from cfg now (linked_agent d k) d) (count_chat cfg now (Some g)) = Inr d2"
    "map ag_chats (db_agents d2) = map (chats_moved (map_option ag_pk (linked_agent d k)) (ag_pk g)) (db_agents d)"
    "d2 = d\<lparr>db_agents := db_agents d2\<rparr>"
proof (cases "linked_agent d k")
  case None
  then show thesis using assms by (intro that) (auto simp: release_from_def count_chat_def increment_agent_chat_count_def
      require_routing_writer_authority_def update_rows_def chats_moved_def Let_def)
next
  case (Some f)
  then show thesis using assms by (intro that) (auto simp: release_from_def count_chat_def increment_agent_chat_count_def
      decrement_agent_chat_count_def require_routing_writer_authority_def update_rows_def chats_moved_def Let_def)
qed

lemma move_assigned_effect:
  assumes "may_write_routing_state cfg" and "\<not> capacity_enforced cfg"
    and "distinct (map as_pk (db_assigned d))" and "a \<in> set (db_assigned d)"
  obtains d' where "move_assigned cfg now a owner (Some g) d = Inr d'"
    "db_assigned d' = map (transferred a g) (db_assigned d)"
    "map ag_chats (db_agents d') = map (chats_moved (map_option ag_pk (linked_agent d (as_agent a))) (ag_pk g)) (db_agents d)"
    "db_reassigns d' = db_reassigns d @ [reassignment_row now a (linked_agent d (as_agent a)) owner (Some g) d]"
    "d' = d\<lparr>db_agents := db_agents d', db_assigned := db_assigned d', db_reassigns := db_reassigns d', db_next_pk := Suc (db_next_pk d)\<rparr>"
proof -
  let ?f = "linked_agent d (as_agent a)"
  obtain d2 where "and_then (release_from cfg now ?f d) (count_chat cfg now (Some g)) = Inr d2"
    and 2: "map ag_chats (db_agents d2) = map (chats_moved (map_option ag_pk ?f) (ag_pk g)) (db_agents d)" "d2 = d\<lparr>db_agents := db_agents d2\<rparr>"
    by (rule counted_chats [OF assms(1,2)])
  then obtain d1 where 1: "release_from cfg now ?f d = Inr d1" "count_chat cfg now (Some g) d1 = Inr d2"
    by (auto elim!: and_then_InrE)
  obtain a' where a': "reassigned_row a owner (Some g) = Inr a'" by (simp add: reassigned_row_def)
  let ?d' = "(put_assigned a' d2)\<lparr>db_reassigns := db_reassigns d2 @ [reassignment_row now a ?f owner (Some g) d2], db_next_pk := Suc (db_next_pk d2)\<rparr>"
  have run: "move_assigned cfg now a owner (Some g) d = Inr ?d'" by (simp add: move_assigned_def Let_def 1 a')
  have e: "db_assigned d2 = db_assigned d" "db_reassigns d2 = db_reassigns d" "db_next_pk d2 = db_next_pk d"
    by (subst 2(2), simp)+
  have t: "db_assigned (put_assigned a' d2) = map (transferred a g) (db_assigned d)"
    using put_transferred [of d2 a owner g a'] assms(3,4) a' by (simp add: e)
  have n: "reassignment_row now a ?f owner (Some g) d2 = reassignment_row now a ?f owner (Some g) d" by (simp add: reassignment_row_def e)
  have ag: "db_agents ?d' = db_agents d2" by (simp add: put_assigned_def)
  show thesis
  proof (rule that [OF run])
    show "db_assigned ?d' = map (transferred a g) (db_assigned d)" using t by simp
    show "map ag_chats (db_agents ?d') = map (chats_moved (map_option ag_pk ?f) (ag_pk g)) (db_agents d)" using 2(1) ag by simp
    show "db_reassigns ?d' = db_reassigns d @ [reassignment_row now a ?f owner (Some g) d]" by (simp add: n e)
    have "?d' = d2\<lparr>db_assigned := db_assigned ?d', db_reassigns := db_reassigns ?d', db_next_pk := Suc (db_next_pk d)\<rparr>"
      by (simp add: put_assigned_def e)
    also have "\<dots> = d\<lparr>db_agents := db_agents ?d', db_assigned := db_assigned ?d', db_reassigns := db_reassigns ?d', db_next_pk := Suc (db_next_pk d)\<rparr>"
      unfolding ag by (subst 2(2)) (simp only: db.simps db.update_convs)
    finally show "?d' = d\<lparr>db_agents := db_agents ?d', db_assigned := db_assigned ?d', db_reassigns := db_reassigns ?d', db_next_pk := Suc (db_next_pk d)\<rparr>" .
  qed
qed

lemma attend_db [simp]: "desk_db (fst (attend now ticket g k)) = desk_db k"
  by (simp add: attend_def desk_db_def split: option.split prod.split)

lemma attend_run: "attend now ticket g k = (k', r) \<Longrightarrow> desk_db k' = desk_db k"
  using attend_db [of now ticket g k] by simp

lemma desk_db_put_db [simp]: "desk_db (put_db d k) = d"
  by (simp add: desk_db_def put_db_def)

text \<open>C30: a transfer moves one chat.  A change from the owner on record to another known agent, in a runtime
  that counts chats itself, gives the ticket's row to that agent, takes one chat from the former agent and
  gives one to the new one, changes no other counter, queue row or cycle, and adds one reassignment with
  both owners and the time spent.  Whenever the change is delivered again, whatever owner it names as the
  previous one, it does nothing.\<close>

theorem owner_transfer_effect:
  assumes "may_write_routing_state cfg" and "\<not> capacity_enforced cfg"
    and "assigned_to_ticket (desk_db k) ticket = Some a" and "closing_agent (desk_db k) (Some n) = Some g"
    and "n \<noteq> as_owner a" and "prev = None \<or> prev = Some (as_owner a)" and "distinct (map as_pk (db_assigned (desk_db k)))"
  shows "let d = desk_db k; d' = desk_db (fst (do_handle_owner_change cfg clk ticket prev (Some n) k)) in
    assigned_to_ticket d' ticket =
      Some (a\<lparr>as_agent := Some (ag_pk g), as_owner := n, as_agent_name := ag_name g, as_count := as_count a + 1\<rparr>) \<and>
    map ag_chats (db_agents d') = map (chats_moved (map_option ag_pk (linked_agent d (as_agent a))) (ag_pk g)) (db_agents d) \<and>
    (\<exists>r. db_reassigns d' = db_reassigns d @ [r] \<and> rr_from_owner r = Some (as_owner a) \<and> rr_to_owner r = Some n \<and>
      rr_to_agent r = Some (ag_pk g) \<and> rr_time r = map_option (\<lambda>t. app_clock clk - t) (as_assigned_at a)) \<and>
    db_queue d' = db_queue d \<and> db_cycles d' = db_cycles d \<and>
    (\<forall>clk' prev' k''. desk_db k'' = d' \<longrightarrow> do_handle_owner_change cfg clk' ticket prev' (Some n) k'' = (k'', Inr ()))"
proof -
  let ?d = "desk_db k" and ?a = "transferred a g a"
  have mem: "a \<in> set (db_assigned ?d)" using assigned_to_ticketD [OF assms(3)] by blast
  have g: "ag_owner g = n" using closing_agentD [OF assms(4)] by blast
  obtain d' where m: "move_assigned cfg (app_clock clk) a (Some n) (Some g) ?d = Inr d'"
      "db_assigned d' = map (transferred a g) (db_assigned ?d)"
      "map ag_chats (db_agents d') = map (chats_moved (map_option ag_pk (linked_agent ?d (as_agent a))) (ag_pk g)) (db_agents ?d)"
      "db_reassigns d' = db_reassigns ?d @ [reassignment_row (app_clock clk) a (linked_agent ?d (as_agent a)) (Some n) (Some g) ?d]"
    and frame: "d' = ?d\<lparr>db_agents := db_agents d', db_assigned := db_assigned d', db_reassigns := db_reassigns d', db_next_pk := Suc (db_next_pk ?d)\<rparr>"
    by (rule move_assigned_effect [OF assms(1,2,7) mem])
  have "do_handle_owner_change cfg clk ticket prev (Some n) k = attend (app_clock clk) ticket (Some g) (put_db d' k)"
    using assms(1,3-6) m(1) by (auto simp: do_handle_owner_change_def require_routing_writer_authority_def overtaken_change_def)
  then have d': "desk_db (fst (do_handle_owner_change cfg clk ticket prev (Some n) k)) = d'" by simp
  have row: "assigned_to_ticket d' ticket = Some ?a" by (rule assigned_after_transfer [OF m(2) assms(3)])
  have q: "db_queue d' = db_queue ?d" "db_cycles d' = db_cycles ?d" by (subst frame, simp)+
  have again: "do_handle_owner_change cfg clk' ticket prev' (Some n) k'' = (k'', Inr ())" if "desk_db k'' = d'" for clk' prev' k''
    using that assms(1) row g by (simp add: do_handle_owner_change_def require_routing_writer_authority_def overtaken_change_def transferred_def)
  show ?thesis unfolding Let_def d' using row m(3,4) q again g by (simp add: transferred_def reassignment_row_def)
qed

section \<open>A queued ticket\<close>

lemma compensation_assigned [simp]: "db_assigned (conclude_reservation now r c w d) = db_assigned d"
  "db_assigned (release_chat cfg now g d) = db_assigned d" "db_assigned (release_row quarantine code now a d) = db_assigned d"
  "map nc_pk (db_queue (release_row quarantine code now a d)) = map nc_pk (db_queue d)"
  by (simp_all add: conclude_reservation_def put_reservation_def release_chat_def release_row_def put_queue_def split: option.split)

lemma compensated_for_good:
  assumes "compensate_assignment_attempt cfg clk k False code False False d = Inr (d', a')"
  shows "attempt_of d' k = Some a' \<and> at_state a' \<in> set terminal_attempt_states"
    "db_assigned d' = db_assigned d" "db_cycles d' = db_cycles d" "map nc_pk (db_queue d') = map nc_pk (db_queue d)"
proof -
  have terminal: "at_state a' \<in> set terminal_attempt_states"
    using assms by (auto simp: compensate_assignment_attempt_def compensated_attempt_def compensation_state_def terminal_attempt_states_def Let_def
        split: sum.splits option.splits if_splits)
  show "attempt_of d' k = Some a' \<and> at_state a' \<in> set terminal_attempt_states"
    using assms
  proof (cases rule: compensate_cases)
    case (unchanged d1 occ)
    then show ?thesis using terminal by (simp add: attempt_of_def assignment_transaction_tables [OF unchanged(1)])
  next
    case (settled d1 occ a d2)
    have pk: "at_pk a' = k" using attempt_of_key [OF settled(2)] settled(5) by simp
    have orig: "attempt_of d1 (at_pk a') = Some a" using settled(2) by (simp add: pk attempt_of_def assignment_transaction_tables [OF settled(1)])
    have "attempt_of d' (at_pk a') = Some a'" unfolding settled(7)
      by (rule attempt_of_put [where b = a]) (use orig in \<open>simp add: attempt_of_def settled(6) Let_def split: option.split\<close>)
    then show ?thesis using terminal by (simp add: pk)
  qed simp
  show "db_assigned d' = db_assigned d" "db_cycles d' = db_cycles d" "map nc_pk (db_queue d') = map nc_pk (db_queue d)"
    using assms
    by (cases rule: compensate_cases, simp_all add: assignment_transaction_tables Let_def put_attempt_def split: option.split)+
qed

lemma upsert_assigned_only:
  assumes "upsert_assigned cfg a g q now d = Inr d1" and "\<forall>r \<in> set (db_assigned d). as_ticket r \<noteq> at_ticket a"
    and "distinct (map as_pk (db_assigned d))"
  shows "\<exists>r. filter (\<lambda>r. as_ticket r = at_ticket a) (db_assigned d1) = [r] \<and> as_owner r = at_desired_owner a \<and> as_cycle r = at_cycle a"
proof -
  have none: "filter (\<lambda>r. as_ticket r = at_ticket a) (db_assigned d) = []" using assms(2) by (simp add: filter_empty_conv)
  have sets: "as_ticket (assigned_defaults a g q now r) = at_ticket a \<and> as_owner (assigned_defaults a g q now r) = at_desired_owner a \<and>
      as_cycle (assigned_defaults a g q now r) = at_cycle a \<and> as_pk (assigned_defaults a g q now r) = as_pk r" for r
    by (simp add: assigned_defaults_def Let_def split: option.split)
  show ?thesis
  proof (cases "filter (assigned_lookup a) (db_assigned d)")
    case Nil
    then show ?thesis using assms(1) none sets by (auto simp: upsert_assigned_def)
  next
    case (Cons x xs)
    then have one: "filter (assigned_lookup a) (db_assigned d) = [x]" and d1: "d1 = put_assigned (assigned_defaults a g q now x) d"
      using assms(1) by (auto simp: upsert_assigned_def split: list.splits)
    have mem: "x \<in> set (db_assigned d)" using one by (auto simp: filter_eq_Cons_iff)
    have split: "filter (\<lambda>r. as_ticket r = at_ticket a) (map (\<lambda>r. if as_pk r = as_pk x then y else r) rows) = [y]"
      if "x \<in> set rows" "distinct (map as_pk rows)" "\<forall>r \<in> set rows. as_ticket r \<noteq> at_ticket a" "as_ticket y = at_ticket a" for rows y
      using that
    proof (induction rows)
      case (Cons r rows)
      have no: "filter (\<lambda>r. as_ticket r = at_ticket a) (map (\<lambda>r. if as_pk r = as_pk x then y else r) rows) = []" if "as_pk x \<notin> as_pk ` set rows"
      proof -
        have "map (\<lambda>r. if as_pk r = as_pk x then y else r) rows = rows" proof (rule map_idI)
          fix r
          assume "r \<in> set rows"
          then have "as_pk r \<noteq> as_pk x" using that by (metis imageI)
          then show "(if as_pk r = as_pk x then y else r) = r" by simp
        qed
        then show ?thesis using Cons.prems(3) by (simp add: filter_empty_conv)
      qed
      show ?case
      proof (cases "r = x")
        case True
        then show ?thesis using Cons.prems no by simp
      next
        case False
        then have "x \<in> set rows" using Cons.prems(1) by simp
        then have "as_pk r \<noteq> as_pk x" using Cons.prems(2) by force
        then show ?thesis using Cons.IH [OF \<open>x \<in> set rows\<close>] Cons.prems(2-4) by simp
      qed
    qed simp
    let ?y = "assigned_defaults a g q now x"
    have "db_assigned d1 = map (\<lambda>r. if as_pk r = as_pk x then ?y else r) (db_assigned d)" using sets [of x] by (simp add: d1 put_assigned_def save_row_def)
    then have "filter (\<lambda>r. as_ticket r = at_ticket a) (db_assigned d1) = [?y]" using split [OF mem assms(3,2)] sets [of x] by simp
    then show ?thesis using sets by auto
  qed
qed

lemma complete_attempt_assigned:
  assumes "complete_attempt cfg clk a g cy d = Inr (d', a')"
  shows "\<exists>d1. upsert_assigned cfg a g (row_of d (at_queue_row a)) (db_clock clk) d = Inr d1 \<and> db_assigned d' = db_assigned d1"
  using assms by (auto simp: complete_attempt_def Let_def count_assignment_def upsert_log_def put_cycle_def put_attempt_def
      dest!: save_attempt_frame split: sum.splits option.splits)

lemma completed_others:
  assumes "complete_attempt cfg clk a g cy d = Inr (d', a')" and "attempt_of d j = Some b" and "j \<noteq> at_pk a"
  shows "\<exists>b'. attempt_of d' j = Some b' \<and> at_state b' = at_state b"
proof -
  obtain rows where r: "db_attempts d' = save_row at_pk a' rows" "at_pk a' = at_pk a" "rows = db_attempts d \<or> (\<exists>q. rows = db_attempts (delete_queue_row q d))"
    by (rule complete_attempt_saved [OF assms(1)])
  have "\<exists>b'. get_row at_pk j rows = Some b' \<and> at_state b' = at_state b"
    using r(3)
  proof (elim disjE exE)
    fix q
    assume q: "rows = db_attempts (delete_queue_row q d)"
    have "attempt_of (delete_queue_row q d) j = Some (if at_queue_row b = Some q then b\<lparr>at_queue_row := None\<rparr> else b)"
      using assms(2) by (simp add: attempt_of_delete_queue_row)
    then show ?thesis by (simp add: q attempt_of_def)
  qed (use assms(2) in \<open>simp add: attempt_of_def\<close>)
  then show ?thesis using assms(3) r(2) by (simp add: attempt_of_def r(1))
qed

lemma compensated_others:
  assumes "compensate_assignment_attempt cfg clk k False code False False d = Inr (d', a')" and "attempt_of d j = Some b" and "j \<noteq> k"
  shows "attempt_of d' j = Some b"
  using assms(1)
proof (cases rule: compensate_cases)
  case (unchanged d1 occ)
  then show ?thesis using assms(2) by (simp add: attempt_of_def assignment_transaction_tables [OF unchanged(1)])
next
  case (settled d1 occ a d2)
  have pk: "at_pk a' = k" using attempt_of_key [OF settled(2)] settled(5) by simp
  have "attempt_of d1 j = Some b" using assms(2) by (simp add: attempt_of_def assignment_transaction_tables [OF settled(1)])
  then show ?thesis unfolding settled(7)
    using assms(3) pk by (simp add: attempt_of_put_other) (simp add: attempt_of_def settled(6) Let_def split: option.split)
qed simp

definition converged_to :: "string \<Rightarrow> int \<Rightarrow> queue_row \<Rightarrow> db \<Rightarrow> db \<Rightarrow> bool" where
  "converged_to ticket n q d d' \<longleftrightarrow>
     (\<exists>r. filter (\<lambda>r. as_ticket r = ticket) (db_assigned d') = [r] \<and> as_owner r = n \<and> as_cycle r = nc_cycle q) \<and>
     queue_of d' (nc_pk q) = None \<and> (\<forall>c \<in> set (db_cycles d'). Some (cy_pk c) = nc_cycle q \<longrightarrow> cy_state c \<noteq> Queued) \<and>
     (\<forall>a \<in> set (db_attempts d). at_queue_row a = Some (nc_pk q) \<longrightarrow> (\<exists>b. attempt_of d' (at_pk a) = Some b \<and> \<not> is_live (at_state b)))"

lemma live_attemptD: "live_attempt_of q d = Some a \<Longrightarrow> a \<in> set (db_attempts d) \<and> at_queue_row a = Some (nc_pk q) \<and> is_live (at_state a)"
  unfolding live_attempt_of_def by (rule first_by_Some)

text \<open>The live attempts of a row are for its ticket and cycle, and there is at most one.\<close>

definition one_live_attempt :: "queue_row \<Rightarrow> db \<Rightarrow> bool" where
  "one_live_attempt q d \<longleftrightarrow> length (filter (\<lambda>a. at_queue_row a = Some (nc_pk q) \<and> is_live (at_state a)) (db_attempts d)) \<le> 1 \<and>
     (\<forall>a \<in> set (db_attempts d). at_queue_row a = Some (nc_pk q) \<and> is_live (at_state a) \<longrightarrow> at_ticket a = nc_ticket q \<and> at_cycle a = nc_cycle q)"

lemma live_attempt_only:
  assumes "one_live_attempt q d"
  shows "(case live_attempt_of q d of
      None \<Rightarrow> \<forall>b \<in> set (db_attempts d). at_queue_row b = Some (nc_pk q) \<longrightarrow> \<not> is_live (at_state b)
    | Some a \<Rightarrow> a \<in> set (db_attempts d) \<and> at_queue_row a = Some (nc_pk q) \<and> is_live (at_state a) \<and> at_ticket a = nc_ticket q \<and> at_cycle a = nc_cycle q \<and>
        (\<forall>b \<in> set (db_attempts d). at_queue_row b = Some (nc_pk q) \<and> is_live (at_state b) \<longrightarrow> b = a))"
proof (cases "filter (\<lambda>a. at_queue_row a = Some (nc_pk q) \<and> is_live (at_state a)) (db_attempts d)")
  case Nil
  then have "live_attempt_of q d = None" by (simp add: live_attempt_of_def first_by_def)
  then show ?thesis using Nil by (auto simp: filter_empty_conv)
next
  case (Cons a as)
  then have one: "filter (\<lambda>a. at_queue_row a = Some (nc_pk q) \<and> is_live (at_state a)) (db_attempts d) = [a]" using assms by (simp add: one_live_attempt_def)
  have "live_attempt_of q d = Some a" by (simp add: live_attempt_of_def first_by_def one)
  moreover have "set (filter (\<lambda>a. at_queue_row a = Some (nc_pk q) \<and> is_live (at_state a)) (db_attempts d)) = {a}" by (simp add: one)
  ultimately show ?thesis using assms by (auto simp: one_live_attempt_def)
qed

lemma finalized_converges:
  assumes "finalize_assignment_attempt cfg clk (at_pk a) d = Inr (d', a')" and "attempt_of d (at_pk a) = Some a"
    and "at_state a = External_Applied" and "live_attempt_of q d = Some a" and "one_live_attempt q d"
    and "\<forall>r \<in> set (db_assigned d). as_ticket r \<noteq> nc_ticket q" and "distinct (map as_pk (db_assigned d))" and "distinct (map at_pk (db_attempts d))"
  shows "converged_to (nc_ticket q) (at_desired_owner a) q d d'"
  using assms(1)
proof (cases rule: finalize_cases)
  case (again d1 occ)
  then show ?thesis using assms(2,3) by simp
next
  case (completes d1 occ b cy g)
  have only: "a \<in> set (db_attempts d)" "at_queue_row a = Some (nc_pk q)" "at_ticket a = nc_ticket q" "at_cycle a = nc_cycle q"
    "\<forall>b \<in> set (db_attempts d). at_queue_row b = Some (nc_pk q) \<and> is_live (at_state b) \<longrightarrow> b = a"
    using live_attempt_only [OF assms(5)] assms(4) by simp_all
  have b: "b = a" using completes(2) assms(2) by simp
  note tab = assignment_transaction_tables [OF completes(1)]
  have c: "cy = None \<or> (\<exists>c x. at_cycle a = Some c \<and> cy = Some x \<and> cycle_of d1 c = Some x)"
    using completes(6) by (auto simp: b queued_cycle_def split: option.splits if_splits)
  note run = completes(8) [unfolded b]
  note res = complete_attempt_result [OF run completes(3) [unfolded b] c]
  have "cy_state y \<noteq> Queued" if "y \<in> set (db_cycles d')" "Some (cy_pk y) = nc_cycle q" for y
  proof -
    from that(2) only(4) have some: "at_cycle a = Some (cy_pk y)" by simp
    obtain k x where k: "at_cycle a = Some k" "cy = Some x" "cycle_of d1 k = Some x" "cy_pk y = k"
      using completes(6) by (rule queued_cycle_cases) (use some in \<open>auto simp: b\<close>)
    have "cy_pk x = k" using k(3) unfolding cycle_of_def by (rule get_row_key)
    moreover obtain rows where "db_cycles d' = save_row cy_pk (x\<lparr>cy_state := Assigned\<rparr>) rows"
      using complete_attempt_saved [OF completes(8)] k(2) by (metis option.simps(5))
    ultimately show ?thesis using that(1) k(4) by (auto dest: in_save_row)
  qed
  moreover have "queue_of d' (nc_pk q) = None" by (rule res(6)) (rule only(2))
  moreover have "\<exists>r. filter (\<lambda>r. as_ticket r = nc_ticket q) (db_assigned d') = [r] \<and> as_owner r = at_desired_owner a \<and> as_cycle r = nc_cycle q"
  proof -
    obtain d2 where d2: "upsert_assigned cfg a g (row_of d1 (at_queue_row a)) (db_clock clk) d1 = Inr d2" "db_assigned d' = db_assigned d2"
      using complete_attempt_assigned [OF run] by blast
    have "\<forall>r \<in> set (db_assigned d1). as_ticket r \<noteq> at_ticket a" "distinct (map as_pk (db_assigned d1))" using assms(6,7) only(3) by (simp_all add: tab)
    then show ?thesis using upsert_assigned_only [OF d2(1)] only(3,4) by (simp add: d2(2))
  qed
  moreover have "\<exists>y. attempt_of d' (at_pk x) = Some y \<and> \<not> is_live (at_state y)" if x: "x \<in> set (db_attempts d)" "at_queue_row x = Some (nc_pk q)" for x
  proof (cases "x = a")
    case True
    then show ?thesis using res(1,2) by simp
  next
    case False
    then have dead: "\<not> is_live (at_state x)" using only(5) x by blast
    have other: "at_pk x \<noteq> at_pk a" using False only(1) x(1) assms(8) by (metis distinct_map inj_onD)
    have "attempt_of d1 (at_pk x) = Some x" unfolding attempt_of_def tab by (rule get_row_distinct [OF assms(8) x(1)])
    from completed_others [OF run this other] show ?thesis using dead by auto
  qed
  ultimately show ?thesis unfolding converged_to_def by blast
qed

lemma taken_from_queue:
  assumes "take_from_queue cfg now q n g d = Inr d'"
  shows "external_row now q n g d \<in> set (db_assigned d')" "queue_of d' (nc_pk q) = None"
    "\<forall>c \<in> set (db_cycles d'). Some (cy_pk c) = nc_cycle q \<longrightarrow> cy_state c \<noteq> Queued"
    "\<And>k b. attempt_of d k = Some b \<Longrightarrow> \<exists>b'. attempt_of d' k = Some b' \<and> at_state b' = at_state b"
proof -
  let ?d0 = "d\<lparr>db_assigned := db_assigned d @ [external_row now q n g d], db_logs := db_logs d @ [external_log now q n g d],
    db_next_pk := Suc (Suc (db_next_pk d))\<rparr>"
  obtain d1 where 1: "count_chat cfg now g ?d0 = Inr d1" and d': "d' = delete_queue_row (nc_pk q) (assign_queued_cycle (nc_cycle q) d1)"
    using assms by (auto simp: take_from_queue_def split: if_splits elim!: and_then_InrE)
  have "db_assigned d1 = db_assigned ?d0 \<and> db_attempts d1 = db_attempts ?d0"
    using 1 by (auto simp: count_chat_def increment_agent_chat_count_def split: option.splits sum.splits if_splits)
  then have t: "db_assigned d1 = db_assigned d @ [external_row now q n g d]" "db_attempts d1 = db_attempts d" by simp_all
  show "external_row now q n g d \<in> set (db_assigned d')" by (simp add: d' assign_queued_cycle_def t)
  show "queue_of d' (nc_pk q) = None" unfolding d' by (rule queue_of_delete)
  show "\<forall>c \<in> set (db_cycles d'). Some (cy_pk c) = nc_cycle q \<longrightarrow> cy_state c \<noteq> Queued"
    by (auto simp: d' assign_queued_cycle_def update_rows_def)
  show "\<exists>b'. attempt_of d' k = Some b' \<and> at_state b' = at_state b" if "attempt_of d k = Some b" for k b
    using that by (simp add: d' attempt_of_delete_queue_row assign_queued_cycle_def attempt_of_def t delete_queue_row_def get_row_update_rows)
qed

lemma counting_allowed: "may_write_routing_state cfg \<Longrightarrow> \<not> capacity_enforced cfg \<Longrightarrow> \<exists>d'. count_chat cfg now g d = Inr d'"
  by (auto simp: count_chat_def increment_agent_chat_count_def require_routing_writer_authority_def split: option.split)

text \<open>Everything the settlement of the live attempt, the unique cycle of an assigned row and the attendant's record can raise.\<close>

definition convergence_fails :: "settings \<Rightarrow> clock \<Rightarrow> string \<Rightarrow> int \<Rightarrow> queue_row \<Rightarrow> desk \<Rightarrow> py_error \<Rightarrow> bool" where
  "convergence_fails cfg clk ticket n q k e \<longleftrightarrow>
     (case live_attempt_of q (desk_db k) of
        None \<Rightarrow> False
      | Some a \<Rightarrow>
          (if at_desired_owner a = n \<and> at_state a = External_Applied then finalize_assignment_attempt cfg clk (at_pk a) (desk_db k) = Inl e
           else compensate_assignment_attempt cfg clk (at_pk a) False ''hubspot_manual_owner_observed'' False False (desk_db k) = Inl e)) \<or>
     (nc_cycle q \<noteq> None \<and> exists_row (\<lambda>r. as_cycle r = nc_cycle q) (db_assigned (desk_db k)) \<and> e = IntegrityError) \<or>
     (case closing_agent (desk_db k) (Some n) of
        None \<Rightarrow> False
      | Some g \<Rightarrow> snd (snd (record_ticket_attendant (app_clock clk) ticket g Unknown_External (st_conv (dk_site k)) (dk_attendants k))) = Inl e)"

lemma attend_fails:
  assumes "attend now ticket g (put_db d k) = (k', Inl e)"
  shows "case g of None \<Rightarrow> False
    | Some g \<Rightarrow> snd (snd (record_ticket_attendant now ticket g Unknown_External (st_conv (dk_site k)) (dk_attendants k))) = Inl e"
  using assms by (auto simp: attend_def put_db_def split: option.splits prod.splits sum.splits)

text \<open>C31: a queued ticket that gets an owner leaves the queue.  Outside the capacity-enforcing mode, when no assigned row
  of the ticket exists and the waiting row has at most one live attempt, the run ends with exactly one assigned row of
  the ticket, for that owner and the cycle of the waiting row, the waiting row gone, its cycle not queued, and no
  attempt of the row live any more; or it raises and leaves everything as it was, which happens only when the settlement
  of the live attempt raises, another assigned row holds the cycle, or the attendant's record raises.\<close>

theorem queued_ticket_converges:
  assumes "may_write_routing_state cfg" and "assigned_to_ticket (desk_db k) ticket = None"
    and "waiting_of_ticket ticket (desk_db k) = Some q" and "one_live_attempt q (desk_db k)"
    and "distinct (map at_pk (db_attempts (desk_db k)))" and "distinct (map as_pk (db_assigned (desk_db k)))"
    and "\<not> capacity_enforced cfg"
  shows "case do_handle_owner_change cfg clk ticket prev (Some n) k of
      (k', Inl e) \<Rightarrow> k' = k \<and> convergence_fails cfg clk ticket n q k e
    | (k', Inr _) \<Rightarrow> converged_to ticket n q (desk_db k) (desk_db k')"
proof -
  let ?d = "desk_db k" and ?g = "closing_agent (desk_db k) (Some n)"
  have t: "nc_ticket q = ticket" using first_by_Some [OF assms(3) [unfolded waiting_of_ticket_def]] by simp
  have free: "\<forall>r \<in> set (db_assigned ?d). as_ticket r \<noteq> ticket"
    using assms(2) by (simp add: assigned_to_ticket_def first_by_None)
  have run: "do_handle_owner_change cfg clk ticket prev (Some n) k = converge_queued cfg clk ticket q n k"
    using assms(1-3) by (simp add: do_handle_owner_change_def require_routing_writer_authority_def)
  have same: "attempt_of ?d (at_pk a) = Some a" if "a \<in> set (db_attempts ?d)" for a
    unfolding attempt_of_def by (rule get_row_distinct [OF assms(5) that])
  note only = live_attempt_only [OF assms(4)]
  show ?thesis
  proof (cases "conclude_live cfg clk q n ?d")
    case (Inl e)
    then have "convergence_fails cfg clk ticket n q k e"
      by (auto simp: convergence_fails_def conclude_live_def and_then_def split: option.splits if_splits sum.splits)
    then show ?thesis using Inl by (simp add: run converge_queued_def Let_def)
  next
    case (Inr x)
    obtain d1 ended where x: "x = (d1, ended)" by (cases x)
    show ?thesis
    proof (cases ended)
      case True
      obtain a a' where a: "live_attempt_of q ?d = Some a" "at_desired_owner a = n" "at_state a = External_Applied"
          "finalize_assignment_attempt cfg clk (at_pk a) ?d = Inr (d1, a')"
        using Inr True by (auto simp: x conclude_live_def split: option.splits if_splits elim!: and_then_InrE)
      have "converged_to ticket n q ?d d1"
        using finalized_converges [OF a(4) same a(3,1) assms(4) _ assms(6,5)] a(1,2) only free by (simp add: t)
      then show ?thesis using Inr True by (simp add: run converge_queued_def Let_def x)
    next
      case False
      have both: "db_assigned d1 = db_assigned ?d \<and> (\<forall>y \<in> set (db_attempts ?d). at_queue_row y = Some (nc_pk q) \<longrightarrow>
          (\<exists>b. attempt_of d1 (at_pk y) = Some b \<and> \<not> is_live (at_state b)))"
        proof (cases "live_attempt_of q ?d")
          case None
          then have "d1 = ?d" using Inr by (simp add: x conclude_live_def)
          then show ?thesis using only same None by auto
        next
          case (Some a)
          then obtain b where c: "compensate_assignment_attempt cfg clk (at_pk a) False ''hubspot_manual_owner_observed'' False False ?d = Inr (d1, b)"
            using Inr False by (auto simp: x conclude_live_def split: if_splits elim!: and_then_InrE)
          note good = compensated_for_good [OF c]
          have "\<exists>b. attempt_of d1 (at_pk y) = Some b \<and> \<not> is_live (at_state b)" if y: "y \<in> set (db_attempts ?d)" "at_queue_row y = Some (nc_pk q)" for y
          proof (cases "y = a")
            case True
            then show ?thesis using good(1) by (simp add: is_live_iff)
          next
            case False
            then have dead: "\<not> is_live (at_state y)" using only y Some by auto
            have "a \<in> set (db_attempts ?d)" using only Some by simp
            then have "at_pk y \<noteq> at_pk a" using False y(1) assms(5) by (metis distinct_map inj_onD)
            then show ?thesis using compensated_others [OF c same [OF y(1)]] dead by simp
          qed
          then show ?thesis using good(2) by simp
        qed
      note rows = both [THEN conjunct1]
      have over: "\<exists>b. attempt_of d1 (at_pk y) = Some b \<and> \<not> is_live (at_state b)"
        if "y \<in> set (db_attempts ?d)" "at_queue_row y = Some (nc_pk q)" for y using both that by blast
      show ?thesis
      proof (cases "take_from_queue cfg (app_clock clk) q n ?g d1")
        case (Inl e)
        then have "nc_cycle q \<noteq> None \<and> exists_row (\<lambda>r. as_cycle r = nc_cycle q) (db_assigned d1) \<and> e = IntegrityError"
          using counting_allowed [OF assms(1,7)] by (auto simp: take_from_queue_def and_then_def split: if_splits sum.splits) (metis Inl_Inr_False)+
        then show ?thesis using Inl Inr False rows by (simp add: run converge_queued_def Let_def x convergence_fails_def)
      next
        case took: (Inr d2)
        note tk = taken_from_queue [OF took]
        obtain k' r where att: "attend (app_clock clk) ticket ?g (put_db d2 k) = (k', r)" by (metis prod.exhaust)
        have d': "desk_db k' = d2" using attend_run [OF att] by simp
        show ?thesis
        proof (cases r)
          case (Inl e)
          then show ?thesis using Inr False took att attend_fails [OF att [unfolded Inl]]
            by (simp add: run converge_queued_def Let_def x convergence_fails_def)
        next
          case fine: (Inr u)
          have "converged_to ticket n q ?d d2" unfolding converged_to_def
          proof (intro conjI ballI impI)
            have "db_assigned d2 = db_assigned d1 @ [external_row (app_clock clk) q n ?g d1]"
              using took by (auto simp: take_from_queue_def count_chat_def increment_agent_chat_count_def assign_queued_cycle_def
                  split: option.splits sum.splits if_splits elim!: and_then_InrE)
            then show "\<exists>r. filter (\<lambda>r. as_ticket r = ticket) (db_assigned d2) = [r] \<and> as_owner r = n \<and> as_cycle r = nc_cycle q"
              using free rows t by (simp add: external_row_def)
            show "\<exists>b. attempt_of d2 (at_pk y) = Some b \<and> \<not> is_live (at_state b)" if "y \<in> set (db_attempts ?d)" "at_queue_row y = Some (nc_pk q)" for y
              using over [OF that] tk(4) by metis
            show "queue_of d2 (nc_pk q) = None" by (rule tk(2))
            show "cy_state c \<noteq> Queued" if "c \<in> set (db_cycles d2)" "Some (cy_pk c) = nc_cycle q" for c using tk(3) that by blast
          qed
          then show ?thesis using Inr False took att d' fine by (simp add: run converge_queued_def Let_def x)
        qed
      qed
    qed
  qed
qed

section \<open>The evidence of an owner change\<close>

lemma recorded_owner_evidence:
  assumes "evidence_ok s" and "identified_ticket account ticket"
    and "record_proven_occurrence now account ticket Owner_Changed t ev s = Inr (s1, r)"
  shows "occurrence_of s1 (ol_pk r) = Some r \<and> tracked s1 \<and> temporal_match account ticket Owner_Changed t r"
  using assms(1,2)
proof (cases rule: record_proven_cases [where ty = Owner_Changed and t = t and now = now and ev = ev])
  case (known q)
  then have e: "s1 = s" "r = q" using assms(3) by simp_all
  note q = first_row_Some [OF known(1)]
  show ?thesis
    using q evidence_okD(1) [OF assms(1)] by (simp_all add: e occurrence_of_def tracked_def get_row_distinct)
next
  case (fresh q s')
  then have e: "s1 = s'" "r = q" using assms(3) by simp_all
  have "temporal_match account ticket Owner_Changed t q" by (simp add: fresh(6) temporal_match_def proven_row_def)
  moreover have "q \<in> set (st_occs s')" by (simp add: fresh(4))
  ultimately show ?thesis
    using evidence_okD(1) [OF fresh(5)] by (simp_all add: e occurrence_of_def tracked_def get_row_distinct)
qed simp_all

lemma settled_owner_evidence:
  assumes "occurrence_of s (ol_pk r) = Some r'" and "ol_status r' = Proven"
  obtains q where "occurrence_of (settle_owner_evidence now (Some r) occ s) (ol_pk r) = Some q"
    "ol_account q = ol_account r'" "ol_ticket q = ol_ticket r'" "ol_type q = ol_type r'" "ol_at q = ol_at r'"
    "ol_processing q \<noteq> Occ_Pending \<or> scan_due (now + seconds 30) q"
proof -
  have pk: "ol_pk r' = ol_pk r" by (rule occurrence_of_key [OF assms(1)])
  show thesis
  proof (cases "ol_processing r = Occ_Pending \<and> owner_occurrence_matches_cycle r (oc_cycle occ) s")
    case True
    then show thesis using assms pk
      by (intro that [of "if ol_processing r' = Occ_Pending then r'\<lparr>ol_processing := Occ_Processed, ol_next := None\<rparr> else r'"])
        (simp_all add: settle_owner_evidence_def mark_processed_def occurrence_of_def get_row_update_rows)
  next
    case False
    then show thesis using assms pk
      by (intro that [of "if ol_processing r' = Occ_Pending then r'\<lparr>ol_next := Some (now + seconds 30), ol_error := ''owner_cycle_pending''\<rparr> else r'"])
        (auto simp: settle_owner_evidence_def schedule_owner_evidence_def occurrence_of_def get_row_update_rows scan_due_def)
  qed
qed

text \<open>The evidence of an owner change is not lost.  In the enforcing mode a run that does not raise leaves
  the evidence of the change concluded, or due for the background scan thirty seconds later.\<close>

theorem owner_evidence_settled:
  assumes "may_write_routing_state cfg" and "capacity_mode_of cfg = Capacity_Enforce" and "provider_contract_mode cfg \<noteq> Contract_Off"
    and "evidence_ok (dk_site k)" and "\<forall>r \<in> set (st_occs (dk_site k)). ol_type r = Owner_Changed \<longrightarrow> ol_status r = Proven"
    and "identified_ticket (portal_id (key_env cfg)) ticket" and "parse_hubspot_timestamp (RawValue (op_occurred p)) = Inr (Some t)"
    and "steady_reading rd" and "task_handle_owner_change cfg clk ticket p acquired rd rd' k = (k', Inr u)"
  shows "\<exists>q \<in> set (st_occs (dk_site k')). temporal_match (portal_id (key_env cfg)) ticket Owner_Changed t q \<and>
    (ol_processing q \<noteq> Occ_Pending \<or> scan_due (app_clock clk + seconds 30) q)"
proof -
  let ?acc = "portal_id (key_env cfg)"
  have portal: "?acc \<noteq> []" using assms(6) by (auto simp: identified_ticket_def strip_def)
  note run = assms(9) [unfolded task_handle_owner_change_def owner_evidence_def]
  obtain s1 r where rec: "record_proven_occurrence (app_clock clk) ?acc ticket Owner_Changed t (property_evidence (op_event p)) (dk_site k) = Inr (s1, r)"
    using run assms(1-3,7) portal
    by (cases "record_proven_occurrence (app_clock clk) ?acc ticket Owner_Changed t (property_evidence (op_event p)) (dk_site k)") auto
  note r = recorded_owner_evidence [OF assms(4,6) rec, THEN conjunct1] recorded_owner_evidence [OF assms(4,6) rec, THEN conjunct2, THEN conjunct1]
    recorded_owner_evidence [OF assms(4,6) rec, THEN conjunct2, THEN conjunct2]
  have proven: "ol_status r = Proven" using assms(4,6)
  proof (cases rule: record_proven_cases [where ty = Owner_Changed and t = t and now = "app_clock clk" and ev = "property_evidence (op_event p)"])
    case (known q)
    then show ?thesis using rec assms(5) first_row_Some [OF known(1)] by (simp add: temporal_match_def)
  next
    case (fresh q s')
    then show ?thesis using rec by (simp add: proven_row_def)
  qed simp_all
  obtain s2 occ ids where 2: "reconcile_ticket cfg (app_clock clk) ticket ''webhook'' (op_event p) None rd s1 = (s2, Inr (occ, ids))"
    and k': "dk_site k' = settle_owner_evidence (app_clock clk) (Some r) occ s2"
    using run assms(1-3,7) portal by (auto simp: rec split: prod.splits sum.splits if_splits)
  obtain r' where r': "occurrence_of s2 (ol_pk r) = Some r'" "carried r r'"
    using steadyD [OF steady_reconcile [OF 2 assms(8)] r(2) r(1)] by blast
  have "ol_status r' = Proven" using r'(2) proven by (simp add: carried_def)
  with r'(1) obtain q where q: "occurrence_of (dk_site k') (ol_pk r) = Some q" "ol_account q = ol_account r'" "ol_ticket q = ol_ticket r'"
      "ol_type q = ol_type r'" "ol_at q = ol_at r'" "ol_processing q \<noteq> Occ_Pending \<or> scan_due (app_clock clk + seconds 30) q"
    unfolding k' by (rule settled_owner_evidence)
  have "q \<in> set (st_occs (dk_site k'))" using q(1) unfolding occurrence_of_def by (rule get_row_mem)
  moreover have "temporal_match ?acc ticket Owner_Changed t q" using r(3) r'(2) proven q by (simp add: temporal_match_def carried_def)
  ultimately show ?thesis using q(6) by blast
qed

section \<open>What goes wrong\<close>

text \<open>An assigned ticket whose owner is removed: the row cannot lose its owner, so every run raises and
  rolls back; the former owner keeps the conversation and the chat.\<close>

lemma removed_owner_never_applied:
  assumes "may_write_routing_state cfg" and "\<not> capacity_enforced cfg" and "assigned_to_ticket (desk_db k) ticket = Some a"
    and "prev = None \<or> prev = Some (as_owner a)"
  shows "do_handle_owner_change cfg clk ticket prev None k = (k, Inl IntegrityError)"
proof -
  have "move_assigned cfg (app_clock clk) a None None (desk_db k) = Inl IntegrityError"
    using assms(1,2) by (auto simp: move_assigned_def release_from_def count_chat_def decrement_agent_chat_count_def
        require_routing_writer_authority_def reassigned_row_def Let_def split: option.split)
  then show ?thesis using assms(1,3,4)
    by (auto simp: do_handle_owner_change_def require_routing_writer_authority_def overtaken_change_def closing_agent_def)
qed

definition demo_desk :: "db \<Rightarrow> desk" where
  "demo_desk d = \<lparr>dk_site = empty_site\<lparr>st_db := d\<rparr>, dk_attendants = []\<rparr>"

text \<open>The webhook of an automatic assignment that arrives before the worker recorded its effect: the attempt is
  compensated and the assignment is logged as an external one.\<close>

lemma own_assignment_compensated:
  "let d' = desk_db (fst (do_handle_owner_change demo_cfg demo_clock ''42'' None (Some 10) (demo_desk demo_assignment_db)))
   in map at_state (db_attempts d') = [Compensated] \<and> map lg_type (db_logs d') = [''unknown_external''] \<and>
      map as_owner (db_assigned d') = [10]"
  by code_simp

section \<open>Witnesses\<close>

definition demo_taken_db :: db where
  "demo_taken_db = demo_assignment_db\<lparr>db_queue := [], db_attempts := [],
     db_assigned := [external_row 900 demo_row 10 (Some (demo_agent 1 10)) demo_assignment_db]\<rparr>"

theorem owner_transfer_effect_witness:
  "let d' = desk_db (fst (do_handle_owner_change demo_cfg demo_clock ''42'' (Some 10) (Some 20) (demo_desk demo_taken_db)))
   in map_option as_owner (assigned_to_ticket d' ''42'') = Some 20 \<and> map ag_chats (db_agents d') = [0, 1]"
proof -
  let ?a = "external_row 900 demo_row 10 (Some (demo_agent 1 10)) demo_assignment_db"
  have h: "may_write_routing_state demo_cfg" "\<not> capacity_enforced demo_cfg" by code_simp+
  have a: "assigned_to_ticket (desk_db (demo_desk demo_taken_db)) ''42'' = Some ?a" by code_simp
  have g: "closing_agent (desk_db (demo_desk demo_taken_db)) (Some 20) = Some (demo_agent 2 20)" by code_simp
  have n: "20 \<noteq> as_owner ?a" "Some 10 = None \<or> Some 10 = Some (as_owner ?a)" by code_simp+
  have d: "distinct (map as_pk (db_assigned (desk_db (demo_desk demo_taken_db))))" by code_simp
  have c: "map (chats_moved (map_option ag_pk (linked_agent (desk_db (demo_desk demo_taken_db)) (as_agent ?a))) (ag_pk (demo_agent 2 20)))
      (db_agents (desk_db (demo_desk demo_taken_db))) = [0, 1]" by code_simp
  note x = owner_transfer_effect [OF h a g n d, of demo_clock, unfolded Let_def c]
  from x [THEN conjunct1] x [THEN conjunct2, THEN conjunct1] show ?thesis by (simp add: Let_def)
qed

theorem queued_ticket_converges_witness:
  "case do_handle_owner_change demo_cfg demo_clock ''42'' None (Some 20) (demo_desk demo_assignment_db) of
     (k', Inl e) \<Rightarrow> False
   | (k', Inr u) \<Rightarrow> converged_to ''42'' 20 demo_row demo_assignment_db (desk_db k')"
proof -
  let ?k = "demo_desk demo_assignment_db"
  have h: "may_write_routing_state demo_cfg" "\<not> capacity_enforced demo_cfg" by code_simp+
  have a: "assigned_to_ticket (desk_db ?k) ''42'' = None" by code_simp
  have q: "waiting_of_ticket ''42'' (desk_db ?k) = Some demo_row" by code_simp
  have o: "one_live_attempt demo_row (desk_db ?k)" by code_simp
  have d: "distinct (map at_pk (db_attempts (desk_db ?k)))" "distinct (map as_pk (db_assigned (desk_db ?k)))" by code_simp+
  have ok: "is_ok (snd (do_handle_owner_change demo_cfg demo_clock ''42'' None (Some 20) ?k))" by code_simp
  have e: "desk_db ?k = demo_assignment_db" by (simp add: demo_desk_def desk_db_def)
  obtain k' r where r: "do_handle_owner_change demo_cfg demo_clock ''42'' None (Some 20) ?k = (k', r)" by (metis prod.exhaust)
  show ?thesis using queued_ticket_converges [OF h(1) a q o d h(2), where clk = demo_clock and prev = None and n = 20] ok by (cases r) (simp_all add: r e)
qed

definition enforced_owner_cfg :: settings where
  "enforced_owner_cfg = enforce_cfg\<lparr>provider_contract_mode := Contract_Enforce\<rparr>"

definition owner_payload_demo :: owner_payload where
  "owner_payload_demo = \<lparr>op_new = StageText ''10'', op_previous = StageNone, op_occurred = StageText ''1700000000000'', op_event = ''e''\<rparr>"

definition owned_snapshot :: provider_snapshot where
  "owned_snapshot = demo_snapshot\<lparr>tk_id := ''42'', tk_stage := ''N'', tk_owner := ''10'', tk_novo := RawValue StageNone, tk_closed := RawValue StageNone\<rparr>"

theorem owner_evidence_settled_witness:
  "\<exists>k' t. task_handle_owner_change enforced_owner_cfg demo_clock ''42'' owner_payload_demo True (given owned_snapshot) (given owned_snapshot)
      (demo_desk (empty_db\<lparr>db_agents := [demo_agent 1 10]\<rparr>)) = (k', Inr ()) \<and>
     (\<exists>q \<in> set (st_occs (dk_site k')). temporal_match (portal_id (key_env enforced_owner_cfg)) ''42'' Owner_Changed t q)"
proof -
  let ?k = "demo_desk (empty_db\<lparr>db_agents := [demo_agent 1 10]\<rparr>)"
  let ?run = "task_handle_owner_change enforced_owner_cfg demo_clock ''42'' owner_payload_demo True (given owned_snapshot) (given owned_snapshot) ?k"
  have h: "may_write_routing_state enforced_owner_cfg" "capacity_mode_of enforced_owner_cfg = Capacity_Enforce"
    "provider_contract_mode enforced_owner_cfg \<noteq> Contract_Off" by code_simp+
  have e: "evidence_ok (dk_site ?k)" "\<forall>r \<in> set (st_occs (dk_site ?k)). ol_type r = Owner_Changed \<longrightarrow> ol_status r = Proven"
    by (simp_all add: evidence_ok_def demo_desk_def empty_site_def)
  have i: "identified_ticket (portal_id (key_env enforced_owner_cfg)) ''42''" by code_simp
  have "(case parse_hubspot_timestamp (RawValue (op_occurred owner_payload_demo)) of Inr (Some t) \<Rightarrow> True | _ \<Rightarrow> False)" by code_simp
  then obtain t where t: "parse_hubspot_timestamp (RawValue (op_occurred owner_payload_demo)) = Inr (Some t)"
    by (auto split: sum.splits option.splits)
  have ok: "is_ok (snd ?run)" by code_simp
  obtain k' where r: "?run = (k', Inr ())" using ok by (cases ?run; cases "snd ?run") auto
  show ?thesis using owner_evidence_settled [OF h e i t given_steady r] r by blast
qed

end
