(* ===== verification/Webhook_Intake.thy ===== *)
theory Webhook_Intake
  imports Lifecycle_Engine Ticket_Close N8n_Inbound
begin

text \<open>
  The intake of provider webhooks: the ledger and the processing of \<open>apps/webhooks/services.py\<close>, the
  HubSpot handler, the retried task of \<open>tasks.py\<close>, the signatures of \<open>signatures.py\<close> and the receiver of
  \<open>api.py\<close>.  A job is a Celery task handed to the broker; the broker is a function that says which
  hand-over raises.  Digests are arguments.  Left out: metrics and logging (the Jira handler only logs),
  and the property columns of the ledger, which nothing here reads.
\<close>

section \<open>The ledger\<close>

datatype job =
    Job_Assign_Single string scalar string
  | Job_Ticket_Closed string scalar "string option" string
  | Job_Owner_Change string scalar payload
  | Job_Process_Event uuid
  | Job_Hydrate uuid

record hook =
  hk_pk :: uuid
  hk_source :: string
  hk_key :: event_key
  hk_type :: string
  hk_event :: string
  hk_object :: string
  hk_payload :: payload
  hk_processed :: bool
  hk_processed_at :: "instant option"
  hk_retries :: nat
  hk_error :: string

text \<open>\<open>ik_sent\<close> are the jobs handed over, each with the event it was handed over for.\<close>

record intake =
  ik_hooks :: "hook list"
  ik_dead :: "(uuid \<times> string) list"
  ik_conv :: conv
  ik_n8n :: n8n
  ik_sent :: "(uuid \<times> job) list"
  ik_next_pk :: uuid

record intake_env =
  ie_cfg :: settings
  ie_schema_ready :: bool
  ie_broker :: "job \<Rightarrow> py_error option"
  ie_text :: "py_error \<Rightarrow> string"
  ie_now :: instant

definition max_retries :: nat where
  "max_retries = 3"

definition hook_row :: "uuid \<Rightarrow> intake \<Rightarrow> hook option" where
  "hook_row k s = get_row hk_pk k (ik_hooks s)"

definition put_hook :: "hook \<Rightarrow> intake \<Rightarrow> intake" where
  "put_hook h s = s\<lparr>ik_hooks := save_row hk_pk h (ik_hooks s)\<rparr>"

definition truthy_text :: "payload \<Rightarrow> string list \<Rightarrow> string" where
  "truthy_text p ks = (case first_truthy p ks of Some v \<Rightarrow> (if scalar_truthy v then as_text (Some v) else []) | None \<Rightarrow> [])"

definition new_hook :: "uuid \<Rightarrow> string \<Rightarrow> string \<Rightarrow> payload \<Rightarrow> hook" where
  "new_hook k source ty p = \<lparr>hk_pk = k, hk_source = source, hk_key = canonical_event_key source ty p, hk_type = ty,
     hk_event = truthy_text p [''eventId''], hk_object = truthy_text p [''objectId'', ''object_id''], hk_payload = p,
     hk_processed = False, hk_processed_at = None, hk_retries = 0, hk_error = []\<rparr>"

definition record_webhook_event :: "string \<Rightarrow> string \<Rightarrow> payload \<Rightarrow> intake \<Rightarrow> intake \<times> hook" where
  "record_webhook_event source ty p s =
     (case get_or_create hk_key (new_hook (ik_next_pk s) source ty p) (ik_hooks s) of
        (rows, h, created) \<Rightarrow> (s\<lparr>ik_hooks := rows, ik_next_pk := (if created then Suc (ik_next_pk s) else ik_next_pk s)\<rparr>, h))"

section \<open>The HubSpot handler\<close>

definition post_job :: "intake_env \<Rightarrow> uuid \<Rightarrow> job \<Rightarrow> intake \<Rightarrow> intake result" where
  "post_job e k j s = (case ie_broker e j of None \<Rightarrow> Inr (s\<lparr>ik_sent := ik_sent s @ [(k, j)]\<rparr>) | Some err \<Rightarrow> Inl err)"

text \<open>\<open>str(value)\<close>, and the value of a key with the default of the call.\<close>

fun str_of :: "scalar \<Rightarrow> string" where
  "str_of J_Null = ''None''"
| "str_of v = as_text (Some v)"

definition value_or_empty :: "payload \<Rightarrow> string \<Rightarrow> scalar" where
  "value_or_empty p k = (case map_of p k of None \<Rightarrow> J_Text [] | Some v \<Rightarrow> v)"

definition entered_novo :: "intake_env \<Rightarrow> uuid \<Rightarrow> string \<Rightarrow> scalar \<Rightarrow> string \<Rightarrow> intake \<Rightarrow> intake result" where
  "entered_novo e k ticket entered event s =
     (if may_ingest_queue (ie_cfg e) then post_job e k (Job_Assign_Single ticket entered event) s else Inr s)"

text \<open>An owner that is no number is not passed on.\<close>

definition closed_owner :: "payload \<Rightarrow> string option" where
  "closed_owner p =
     (case map_of p ''hubspot_owner_id'' of
        None \<Rightarrow> None
      | Some v \<Rightarrow>
          (if \<not> scalar_truthy v then None
           else let raw = strip (str_of v) in if raw \<noteq> [] \<and> py_int (after_colon raw) = None then None else Some raw))"

definition handle_pipeline_stage_change :: "intake_env \<Rightarrow> uuid \<Rightarrow> string \<Rightarrow> scalar \<Rightarrow> intake \<Rightarrow> intake result" where
  "handle_pipeline_stage_change e k ticket stage s =
     (if (if scalar_truthy stage then str_of stage else []) = stage_novo_id (ie_cfg e) then entered_novo e k ticket J_Null [] s else Inr s)"

definition handle_ticket_event :: "intake_env \<Rightarrow> uuid \<Rightarrow> string \<Rightarrow> payload \<Rightarrow> string \<Rightarrow> intake \<Rightarrow> intake result" where
  "handle_ticket_event e k ty p event s =
     (let ticket = str_of (value_or_empty p ''objectId''); property = value_or_empty p ''propertyName''; v = value_or_empty p ''propertyValue''
      in if ticket = [] \<or> ty \<noteq> ''ticket.propertyChange'' then Inr s
         else if property = J_Text (prop_stage_novo (ie_cfg e)) then entered_novo e k ticket v event s
         else if property = J_Text (prop_stage_closed (ie_cfg e)) then post_job e k (Job_Ticket_Closed ticket v (closed_owner p) event) s
         else if property = J_Text ''hs_pipeline_stage'' then handle_pipeline_stage_change e k ticket v s
         else if property = J_Text ''hubspot_owner_id'' then post_job e k (Job_Owner_Change ticket v p) s
         else Inr s)"

definition handle_hubspot_event :: "intake_env \<Rightarrow> hook \<Rightarrow> intake \<Rightarrow> intake result" where
  "handle_hubspot_event e h s =
     (if starts_with ''ticket.'' (lower (hk_type h))
      then handle_ticket_event e (hk_pk h) (hk_type h) (hk_payload h) (if hk_event h \<noteq> [] then hk_event h else nat_text (hk_pk h)) s
      else Inr s)"

section \<open>Processing an event\<close>

definition hubspot_prefixes :: "string list" where
  "hubspot_prefixes = [''ticket.'', ''contact.'', ''deal.'', ''company.'', ''conversation.'']"

definition hook_view :: "hook \<Rightarrow> webhook_view" where
  "hook_view h = \<lparr>wv_payload = hk_payload h, wv_type = hk_type h, wv_object = hk_object h, wv_event_id = hk_event h, wv_pk = nat_text (hk_pk h)\<rparr>"

definition unsettled_event :: "conv \<Rightarrow> uuid \<Rightarrow> bool" where
  "unsettled_event c k \<longleftrightarrow> (case get_row ev_pk k (cv_events c) of None \<Rightarrow> False | Some x \<Rightarrow> ev_status x \<in> {Ev_Pending, Ev_Failed})"

text \<open>Whether the recorded event has effects: new or unsettled, and when it is stale only an occurrence that is
  revalidated.\<close>

definition stale_occurrence :: "event_record \<Rightarrow> conv \<Rightarrow> bool" where
  "stale_occurrence r c \<longleftrightarrow> er_stale r \<and> er_policy r = Process_Idempotent_Occurrence \<and> (er_created r \<or> unsettled_event c (er_event r))"

definition has_effects :: "event_record \<Rightarrow> conv \<Rightarrow> bool" where
  "has_effects r c \<longleftrightarrow>
     (if er_stale r \<and> \<not> stale_occurrence r c then False
      else stale_occurrence r c \<or> er_created r \<or> unsettled_event c (er_event r))"

definition dispatched_routes :: "route list" where
  "dispatched_routes = [R_Auto_Assignment, R_Close, R_Ignore]"

definition webhook_route :: "settings \<Rightarrow> hook \<Rightarrow> route" where
  "webhook_route cfg h = (case normalize_webhook_event cfg ''hubspot'' (hook_view h) of Inl _ \<Rightarrow> R_Ignore | Inr ev \<Rightarrow> rd_route (route_event ev))"

definition dispatch_hubspot_lifecycle :: "intake_env \<Rightarrow> hook \<Rightarrow> intake \<Rightarrow> intake result" where
  "dispatch_hubspot_lifecycle e h s =
     (if webhook_route (ie_cfg e) h \<in> set dispatched_routes then handle_hubspot_event e h s else Inr s)"

text \<open>The effects of an event: the state, the lifecycle event that was recorded, and the exception.\<close>

definition settle_effects :: "intake \<Rightarrow> uuid option \<Rightarrow> intake result \<Rightarrow> intake \<times> uuid option \<times> py_error option" where
  "settle_effects s c r = (case r of Inl err \<Rightarrow> (s, c, Some err) | Inr s' \<Rightarrow> (s', c, None))"

definition run_effects :: "intake_env \<Rightarrow> hook \<Rightarrow> intake \<Rightarrow> intake \<times> uuid option \<times> py_error option" where
  "run_effects e h s =
     (if \<not> list_ex (\<lambda>pre. starts_with pre (lower (hk_type h))) hubspot_prefixes then (s, None, None)
      else if \<not> ie_schema_ready e then settle_effects s None (handle_hubspot_event e h s)
      else case record_lifecycle_for_webhook_event (ie_cfg e) (ie_now e) (hook_view h) (ik_conv s) of
             Inl _ \<Rightarrow> settle_effects s None (handle_hubspot_event e h s)
           | Inr (c, r) \<Rightarrow>
               (let s1 = s\<lparr>ik_conv := c\<rparr>
                in settle_effects s1 (Some (er_event r)) (if has_effects r c then dispatch_hubspot_lifecycle e h s1 else Inr s1)))"

definition done_hook :: "intake_env \<Rightarrow> hook \<Rightarrow> hook" where
  "done_hook e h = h\<lparr>hk_processed := True, hk_processed_at := Some (ie_now e)\<rparr>"

definition failed_hook :: "string \<Rightarrow> hook \<Rightarrow> hook" where
  "failed_hook why h = h\<lparr>hk_retries := Suc (hk_retries h), hk_error := why\<rparr>"

definition bury :: "hook \<Rightarrow> string \<Rightarrow> intake \<Rightarrow> intake" where
  "bury h why s = s\<lparr>ik_dead := fst (get_or_create fst (hk_pk h, why) (ik_dead s))\<rparr>"

definition mark_lifecycle :: "(uuid \<Rightarrow> conv \<Rightarrow> conv) \<Rightarrow> uuid option \<Rightarrow> intake \<Rightarrow> intake" where
  "mark_lifecycle f c s = (case c of None \<Rightarrow> s | Some k \<Rightarrow> s\<lparr>ik_conv := f k (ik_conv s)\<rparr>)"

text \<open>\<open>save(update_fields=...)\<close> writes its columns into the row as it is at that time.\<close>

definition save_columns :: "(hook \<Rightarrow> hook) \<Rightarrow> uuid \<Rightarrow> intake \<Rightarrow> intake" where
  "save_columns f k s = (case hook_row k s of None \<Rightarrow> s | Some x \<Rightarrow> put_hook (f x) s)"

definition counted_failure :: "nat \<Rightarrow> string \<Rightarrow> hook \<Rightarrow> hook" where
  "counted_failure n why h = h\<lparr>hk_retries := n, hk_error := why\<rparr>"

text \<open>The end of an execution that read \<open>h\<close>: the effects raised nothing, or \<open>err\<close>.\<close>

definition conclude_event :: "intake_env \<Rightarrow> hook \<Rightarrow> uuid option \<Rightarrow> py_error option \<Rightarrow> intake \<Rightarrow> intake \<times> bool" where
  "conclude_event e h c err s =
     (case err of
        None \<Rightarrow> (mark_lifecycle (mark_event_processed (ie_now e)) c (save_columns (done_hook e) (hk_pk h) s), True)
      | Some x \<Rightarrow>
          (let s2 = mark_lifecycle (mark_event_failed (ie_text e x)) c s; h' = failed_hook (ie_text e x) h;
               s3 = (if max_retries \<le> hk_retries h' then bury h (ie_text e x) s2 else s2)
           in (save_columns (counted_failure (hk_retries h') (ie_text e x)) (hk_pk h) s3, False)))"

definition process_webhook_event :: "intake_env \<Rightarrow> uuid \<Rightarrow> intake \<Rightarrow> intake \<times> bool" where
  "process_webhook_event e k s =
     (case hook_row k s of
        None \<Rightarrow> (s, False)
      | Some h \<Rightarrow>
          (if hk_processed h then (s, True)
           else case run_effects e h s of (s1, c, err) \<Rightarrow> conclude_event e h c err s1))"

section \<open>The retried task\<close>

definition retry_countdown :: "nat \<Rightarrow> int" where
  "retry_countdown n = min (10 * 2 ^ n) 120"

datatype task_end = Ended bool | Waiting nat | Exhausted

text \<open>One execution of the task: it ends, or Celery schedules the next one (at most two retries).\<close>

definition process_task_step :: "intake_env \<Rightarrow> uuid \<Rightarrow> nat \<Rightarrow> intake \<Rightarrow> intake \<times> task_end" where
  "process_task_step e k n s =
     (case process_webhook_event e k s of
        (s1, True) \<Rightarrow> (s1, Ended True)
      | (s1, False) \<Rightarrow>
          (case hook_row k s1 of
             None \<Rightarrow> (s1, Ended False)
           | Some h \<Rightarrow> (if max_retries \<le> hk_retries h then (s1, Ended False)
                        else if n < max_retries - 1 then (s1, Waiting (Suc n)) else (s1, Exhausted))))"

text \<open>The executions of one task, each with the environment it meets.\<close>

fun process_task :: "intake_env list \<Rightarrow> uuid \<Rightarrow> nat \<Rightarrow> intake \<Rightarrow> intake \<times> task_end" where
  "process_task [] k n s = (s, Waiting n)"
| "process_task (e # es) k n s =
     (case process_task_step e k n s of
        (s1, Waiting m) \<Rightarrow> process_task es k m s1
      | (s1, r) \<Rightarrow> (s1, r))"

section \<open>The frame of an execution\<close>

lemma post_job_frame:
  "post_job e k j s = Inr s' \<Longrightarrow> s' = s\<lparr>ik_sent := ik_sent s @ [(k, j)]\<rparr>"
  by (simp add: post_job_def split: option.splits)

text \<open>A handler hands over nothing or one job of the event.\<close>

definition posted :: "uuid \<Rightarrow> intake \<Rightarrow> intake \<Rightarrow> bool" where
  "posted k s s' \<longleftrightarrow> s' = s \<or> (\<exists>j. s' = s\<lparr>ik_sent := ik_sent s @ [(k, j)]\<rparr>)"

lemma posted_refl [simp]: "posted k s s"
  by (simp add: posted_def)

lemma posted_job: "post_job e k j s = Inr s' \<Longrightarrow> posted k s s'"
  unfolding posted_def by (drule post_job_frame) blast

lemma posted_novo: "entered_novo e k ticket v event s = Inr s' \<Longrightarrow> posted k s s'"
  by (auto simp: entered_novo_def dest: posted_job split: if_splits)

lemma posted_stage: "handle_pipeline_stage_change e k ticket stage s = Inr s' \<Longrightarrow> posted k s s'"
  by (simp add: handle_pipeline_stage_change_def posted_novo split: if_split_asm)

lemma posted_event: "handle_hubspot_event e h s = Inr s' \<Longrightarrow> posted (hk_pk h) s s'"
  using posted_job posted_novo posted_stage
  by (simp add: handle_hubspot_event_def handle_ticket_event_def Let_def split: if_split_asm)

lemma posted_dispatch: "dispatch_hubspot_lifecycle e h s = Inr s' \<Longrightarrow> posted (hk_pk h) s s'"
  by (auto simp: dispatch_hubspot_lifecycle_def dest: posted_event split: if_splits)

lemma run_effects_frame:
  assumes "run_effects e h s = (s', c, err)"
  shows "ik_hooks s' = ik_hooks s" "ik_dead s' = ik_dead s" "ik_next_pk s' = ik_next_pk s" "ik_n8n s' = ik_n8n s"
    "err \<noteq> None \<Longrightarrow> ik_sent s' = ik_sent s" "ik_sent s' = ik_sent s \<or> (\<exists>j. ik_sent s' = ik_sent s @ [(hk_pk h, j)])"
proof -
  have settle: "(\<exists>s0. posted (hk_pk h) s1 s0 \<and> s0 = s' \<and> err = None) \<or> (s' = s1 \<and> err \<noteq> None)"
    if "settle_effects s1 c0 r = (s', c, err)" "\<And>s0. r = Inr s0 \<Longrightarrow> posted (hk_pk h) s1 s0" for s1 c0 and r :: "intake result"
    using that by (auto simp: settle_effects_def split: sum.splits)
  have "\<exists>v. (posted (hk_pk h) (s\<lparr>ik_conv := v\<rparr>) s' \<and> err = None) \<or> (s' = s\<lparr>ik_conv := v\<rparr> \<and> err \<noteq> None)"
  proof (cases "\<not> list_ex (\<lambda>pre. starts_with pre (lower (hk_type h))) hubspot_prefixes")
    case True
    then show ?thesis using assms by (auto simp: run_effects_def intro!: exI [of _ "ik_conv s"])
  next
    case no: False
    have self: "s\<lparr>ik_conv := ik_conv s\<rparr> = s" by simp
    show ?thesis
    proof (cases "\<not> ie_schema_ready e \<or> (\<exists>x. record_lifecycle_for_webhook_event (ie_cfg e) (ie_now e) (hook_view h) (ik_conv s) = Inl x)")
      case True
      then have "settle_effects s None (handle_hubspot_event e h s) = (s', c, err)"
        using assms no by (cases "ie_schema_ready e") (auto simp: run_effects_def)
      then have "(\<exists>s0. posted (hk_pk h) s s0 \<and> s0 = s' \<and> err = None) \<or> (s' = s \<and> err \<noteq> None)"
        by (rule settle) (rule posted_event)
      then show ?thesis by (metis self)
    next
      case False
      then obtain v r where r: "record_lifecycle_for_webhook_event (ie_cfg e) (ie_now e) (hook_view h) (ik_conv s) = Inr (v, r)"
        by (metis sumE surj_pair)
      let ?x = "if has_effects r v then dispatch_hubspot_lifecycle e h (s\<lparr>ik_conv := v\<rparr>) else Inr (s\<lparr>ik_conv := v\<rparr>)"
      have "settle_effects (s\<lparr>ik_conv := v\<rparr>) (Some (er_event r)) ?x = (s', c, err)"
        using assms no False r by (simp add: run_effects_def Let_def)
      then have "(\<exists>s0. posted (hk_pk h) (s\<lparr>ik_conv := v\<rparr>) s0 \<and> s0 = s' \<and> err = None) \<or> (s' = s\<lparr>ik_conv := v\<rparr> \<and> err \<noteq> None)"
        by (rule settle) (auto dest: posted_dispatch split: if_splits)
      then show ?thesis by blast
    qed
  qed
  then show "ik_hooks s' = ik_hooks s" "ik_dead s' = ik_dead s" "ik_next_pk s' = ik_next_pk s" "ik_n8n s' = ik_n8n s"
    "err \<noteq> None \<Longrightarrow> ik_sent s' = ik_sent s" "ik_sent s' = ik_sent s \<or> (\<exists>j. ik_sent s' = ik_sent s @ [(hk_pk h, j)])"
    by (auto simp: posted_def)
qed

lemma mark_lifecycle_frame [simp]:
  "ik_hooks (mark_lifecycle f c s) = ik_hooks s" "ik_dead (mark_lifecycle f c s) = ik_dead s" "ik_sent (mark_lifecycle f c s) = ik_sent s"
  "ik_next_pk (mark_lifecycle f c s) = ik_next_pk s" "ik_n8n (mark_lifecycle f c s) = ik_n8n s"
  by (simp_all add: mark_lifecycle_def split: option.split)

lemma put_hook_frame [simp]:
  "ik_dead (put_hook h s) = ik_dead s" "ik_sent (put_hook h s) = ik_sent s" "ik_conv (put_hook h s) = ik_conv s"
  "ik_next_pk (put_hook h s) = ik_next_pk s" "ik_n8n (put_hook h s) = ik_n8n s"
  by (simp_all add: put_hook_def)

lemma bury_frame [simp]:
  "ik_hooks (bury h why s) = ik_hooks s" "ik_sent (bury h why s) = ik_sent s" "ik_conv (bury h why s) = ik_conv s"
  "ik_next_pk (bury h why s) = ik_next_pk s" "ik_n8n (bury h why s) = ik_n8n s"
  by (simp_all add: bury_def)

lemma hook_row_key: "hook_row k s = Some h \<Longrightarrow> hk_pk h = k"
  unfolding hook_row_def by (rule get_row_key)

lemma hook_row_put: "hook_row k s = Some h \<Longrightarrow> hk_pk h' = k \<Longrightarrow> ik_hooks s' = ik_hooks s \<Longrightarrow> hook_row k (put_hook h' s') = Some h'"
  by (auto simp: hook_row_def put_hook_def get_row_save_row)

lemma save_columns_at: "hook_row k s = Some h \<Longrightarrow> save_columns f k s = put_hook (f h) s"
  by (simp add: save_columns_def)

text \<open>The two ways an execution of an open event ends.\<close>

lemma process_cases:
  assumes "process_webhook_event e k s = (s', ok)" and "hook_row k s = Some h" and "\<not> hk_processed h"
  obtains (finished) "ok" "ik_hooks s' = save_row hk_pk (done_hook e h) (ik_hooks s)" "hook_row k s' = Some (done_hook e h)"
      "ik_dead s' = ik_dead s" "ik_sent s' = ik_sent s \<or> (\<exists>j. ik_sent s' = ik_sent s @ [(k, j)])" "ik_next_pk s' = ik_next_pk s"
  | (failed) why where "\<not> ok" "ik_hooks s' = save_row hk_pk (failed_hook why h) (ik_hooks s)" "hook_row k s' = Some (failed_hook why h)"
      "ik_dead s' = (if max_retries \<le> Suc (hk_retries h) then fst (get_or_create fst (k, why) (ik_dead s)) else ik_dead s)"
      "ik_sent s' = ik_sent s" "ik_next_pk s' = ik_next_pk s"
proof -
  obtain s1 c err where r: "run_effects e h s = (s1, c, err)" by (metis prod_cases3)
  note f = run_effects_frame [OF r] and pk = hook_row_key [OF assms(2)]
  show thesis
  proof (cases err)
    case None
    then have s': "s' = mark_lifecycle (mark_event_processed (ie_now e)) c (put_hook (done_hook e h) s1)" "ok"
      using assms r f(1) pk by (simp_all add: process_webhook_event_def conclude_event_def save_columns_at hook_row_def)
    have "hook_row k s' = Some (done_hook e h)"
      using hook_row_put [OF assms(2) _ f(1)] pk by (simp add: s' hook_row_def done_hook_def)
    then show thesis using finished f pk s' by (simp add: put_hook_def)
  next
    case (Some x)
    let ?h = "failed_hook (ie_text e x) h" and ?s2 = "mark_lifecycle (mark_event_failed (ie_text e x)) c s1"
    let ?s3 = "if max_retries \<le> Suc (hk_retries h) then bury h (ie_text e x) ?s2 else ?s2"
    have hooks: "ik_hooks ?s3 = ik_hooks s" using f(1) by simp
    then have at: "hook_row k ?s3 = Some h" using assms(2) by (simp add: hook_row_def)
    have h': "counted_failure (Suc (hk_retries h)) (ie_text e x) h = ?h" by (simp add: counted_failure_def failed_hook_def)
    have "(s', ok) = (save_columns (counted_failure (Suc (hk_retries h)) (ie_text e x)) k ?s3, False)"
      using assms r Some pk by (simp add: process_webhook_event_def conclude_event_def Let_def failed_hook_def)
    then have s': "s' = put_hook ?h ?s3" "\<not> ok" by (simp_all only: save_columns_at [OF at] h' Pair_inject prod.inject) simp_all
    have "hook_row k s' = Some ?h" unfolding s'(1)
      by (rule hook_row_put [OF assms(2)]) (use pk hooks in \<open>simp_all add: failed_hook_def\<close>)
    moreover have "ik_dead s' = (if max_retries \<le> Suc (hk_retries h) then fst (get_or_create fst (k, ie_text e x) (ik_dead s)) else ik_dead s)"
      using f(2) pk by (simp add: s'(1) bury_def)
    ultimately show thesis using failed f(3,5) hooks s' Some by (simp add: put_hook_def)
  qed
qed

section \<open>Every event ends\<close>

lemma buried: "k \<in> fst ` set (fst (get_or_create fst (k, why) rows))"
  by (auto simp: get_or_create_def split: option.split dest: get_row_Some_in intro: rev_image_eqI)

text \<open>C19: a recorded event is processed or becomes a dead letter.  A task of an open event, whose executions no other
  execution of the event interrupts, ends within three executions in all, whatever the handlers and the broker do in
  each of them, and however often the event failed before (at least once for every execution of the task so far): it
  ends without an exception, with the event processed, or with at least three counted failures and a dead letter.
  It never exhausts the retries of the broker.\<close>

theorem webhook_task_ends:
  assumes "hook_row k s = Some h" and "\<not> hk_processed h" and "n \<le> hk_retries h" and "n + length es = max_retries" and "es \<noteq> []"
  shows "\<exists>s' ok h'. process_task es k n s = (s', Ended ok) \<and> hook_row k s' = Some h' \<and> hk_processed h' = ok \<and>
    (\<not> ok \<longrightarrow> max_retries \<le> hk_retries h' \<and> hk_retries h < hk_retries h' \<and> k \<in> fst ` set (ik_dead s'))"
  using assms
proof (induction es arbitrary: s h n)
  case (Cons e es)
  obtain s1 ok where p: "process_webhook_event e k s = (s1, ok)" by (metis prod.exhaust)
  from p Cons.prems(1,2) show ?case
  proof (cases rule: process_cases)
    case finished
    then show ?thesis by (intro exI [of _ s1] exI [of _ True]) (simp add: process_task_step_def p done_hook_def)
  next
    case (failed why)
    have n: "Suc (n + length es) = max_retries" using Cons.prems(4) by simp
    have open_row: "\<not> hk_processed (failed_hook why h)" "hk_retries (failed_hook why h) = Suc (hk_retries h)"
      using Cons.prems(2) by (simp_all add: failed_hook_def)
    show ?thesis
    proof (cases "max_retries \<le> Suc (hk_retries h)")
      case True
      then have d: "ik_dead s1 = fst (get_or_create fst (k, why) (ik_dead s))" using failed(4) by simp
      have step: "process_task_step e k n s = (s1, Ended False)"
        using failed(1,3) True open_row(2) by (simp add: process_task_step_def p)
      show ?thesis
        by (intro exI [of _ s1] exI [of _ False] exI [of _ "failed_hook why h"])
          (use step failed(3) open_row True buried in \<open>simp add: d\<close>)
    next
      case False
      then have more: "Suc n < max_retries" "es \<noteq> []" using Cons.prems(3) n by auto
      then have step: "process_task_step e k n s = (s1, Waiting (Suc n))"
        using failed(1,3) False open_row(2) by (simp add: process_task_step_def p)
      obtain s' ok h' where r: "process_task es k (Suc n) s1 = (s', Ended ok)" "hook_row k s' = Some h'" "hk_processed h' = ok"
          "\<not> ok \<longrightarrow> max_retries \<le> hk_retries h' \<and> hk_retries (failed_hook why h) < hk_retries h' \<and> k \<in> fst ` set (ik_dead s')"
        using Cons.IH [OF failed(3) open_row(1), of "Suc n"] Cons.prems(3) open_row(2) n more(2) by auto
      show ?thesis
        by (intro exI [of _ s'] exI [of _ ok] exI [of _ h'] conjI impI) (use r open_row(2) in \<open>auto simp: step\<close>)
    qed
  qed
qed simp

section \<open>At most one job per event\<close>

interpretation hook_ledger: unique_ledger ik_hooks hk_key "\<lambda>(source, ty, p). canonical_event_key source ty p"
  "\<lambda>(source, ty, p). record_webhook_event source ty p"
proof unfold_locales
  fix q :: "string \<times> string \<times> payload" and s :: intake and r
  assume a: "distinct (map hk_key (ik_hooks s))" "r \<in> set (ik_hooks s)" "hk_key r = (case q of (source, ty, p) \<Rightarrow> canonical_event_key source ty p)"
  obtain source ty p where q: "q = (source, ty, p)" by (cases q)
  have "get_row hk_key (canonical_event_key source ty p) (ik_hooks s) = Some r"
    using get_row_distinct [OF a(1,2)] a(3) q by simp
  then show "(case q of (source, ty, p) \<Rightarrow> record_webhook_event source ty p) s = (s, r)"
    by (simp add: q record_webhook_event_def get_or_create_def new_hook_def)
next
  fix s :: intake and q :: "string \<times> string \<times> payload"
  assume a: "\<And>r. r \<in> set (ik_hooks s) \<Longrightarrow> hk_key r \<noteq> (case q of (source, ty, p) \<Rightarrow> canonical_event_key source ty p)"
  obtain source ty p where q: "q = (source, ty, p)" by (cases q)
  have "get_row hk_key (canonical_event_key source ty p) (ik_hooks s) = None" using a by (simp add: q get_row_None)
  then show "hk_key (snd ((case q of (source, ty, p) \<Rightarrow> record_webhook_event source ty p) s)) =
        (case q of (source, ty, p) \<Rightarrow> canonical_event_key source ty p) \<and>
      ik_hooks (fst ((case q of (source, ty, p) \<Rightarrow> record_webhook_event source ty p) s)) =
        ik_hooks s @ [snd ((case q of (source, ty, p) \<Rightarrow> record_webhook_event source ty p) s)]"
    by (simp add: q record_webhook_event_def get_or_create_def new_hook_def)
qed

section \<open>Workers\<close>

text \<open>
  An execution takes no lock and no transaction of its own: it reads the event, then runs the effects (which hand a job
  over), then saves the columns of the event.  Each of the three steps may interleave with the steps of other workers
  and with deliveries.  A worker at work has the event as it read it and, once the effects have run, their outcome.
\<close>

record crew =
  cw_intake :: intake
  cw_running :: "(nat \<times> hook \<times> (uuid option \<times> py_error option) option) list"

datatype crew_op = Deliver string string payload | Read_Event nat uuid | Run_Effects intake_env nat | Save_Event intake_env nat

fun crew_step :: "crew_op \<Rightarrow> crew \<Rightarrow> crew" where
  "crew_step (Deliver source ty p) c = c\<lparr>cw_intake := fst (record_webhook_event source ty p (cw_intake c))\<rparr>"
| "crew_step (Read_Event w k) c =
     (case hook_row k (cw_intake c) of
        None \<Rightarrow> c
      | Some h \<Rightarrow> (if hk_processed h \<or> w \<in> fst ` set (cw_running c) then c else c\<lparr>cw_running := cw_running c @ [(w, h, None)]\<rparr>))"
| "crew_step (Run_Effects e w) c =
     (case map_of (cw_running c) w of
        Some (h, None) \<Rightarrow>
          (case run_effects e h (cw_intake c) of
             (s, lc, err) \<Rightarrow> c\<lparr>cw_intake := s, cw_running := map (\<lambda>x. if fst x = w then (w, h, Some (lc, err)) else x) (cw_running c)\<rparr>)
      | _ \<Rightarrow> c)"
| "crew_step (Save_Event e w) c =
     (case map_of (cw_running c) w of
        Some (h, Some (lc, err)) \<Rightarrow>
          c\<lparr>cw_intake := fst (conclude_event e h lc err (cw_intake c)), cw_running := filter (\<lambda>x. fst x \<noteq> w) (cw_running c)\<rparr>
      | _ \<Rightarrow> c)"

definition fresh_intake :: intake where
  "fresh_intake = \<lparr>ik_hooks = [], ik_dead = [], ik_conv = empty_conv, ik_n8n = \<lparr>nn_events = [], nn_outbox = [], nn_locks = [], nn_next_pk = 0\<rparr>,
     ik_sent = [], ik_next_pk = 0\<rparr>"

definition fresh_crew :: crew where
  "fresh_crew = \<lparr>cw_intake = fresh_intake, cw_running = []\<rparr>"

text \<open>An execution on its own is the three steps of one worker.\<close>

lemma process_in_steps:
  assumes "w \<notin> fst ` set (cw_running c)" and "hook_row k (cw_intake c) = Some h" and "\<not> hk_processed h"
  shows "fold crew_step [Read_Event w k, Run_Effects e w, Save_Event e w] c = c\<lparr>cw_intake := fst (process_webhook_event e k (cw_intake c))\<rparr>"
proof -
  obtain s lc err where r: "run_effects e h (cw_intake c) = (s, lc, err)" by (metis prod_cases3)
  have n: "map_of (cw_running c) w = None" using assms(1) by (simp add: map_of_eq_None_iff)
  have m: "map (\<lambda>x. if fst x = w then y else x) (cw_running c) = cw_running c" for y
    using assms(1) by (intro map_idI) auto
  have f: "filter (\<lambda>x. fst x \<noteq> w) (cw_running c) = cw_running c" using assms(1) by (intro filter_True) auto
  let ?c1 = "c\<lparr>cw_running := cw_running c @ [(w, h, None)]\<rparr>"
  let ?c2 = "c\<lparr>cw_intake := s, cw_running := cw_running c @ [(w, h, Some (lc, err))]\<rparr>"
  have 1: "crew_step (Read_Event w k) c = ?c1" using assms by simp
  have "map_of (cw_running ?c1) w = Some (h, None)" by (simp add: n map_add_def)
  then have 2: "crew_step (Run_Effects e w) ?c1 = ?c2" by (simp add: r m)
  have "map_of (cw_running ?c2) w = Some (h, Some (lc, err))" by (simp add: n map_add_def)
  then have 3: "crew_step (Save_Event e w) ?c2 = c\<lparr>cw_intake := fst (conclude_event e h lc err s)\<rparr>" by (simp add: f)
  have "fst (process_webhook_event e k (cw_intake c)) = fst (conclude_event e h lc err s)"
    using assms(2,3) r by (simp add: process_webhook_event_def)
  then show ?thesis by (simp only: fold_simps 1 2 3)
qed

text \<open>A worker overlaps another when it reads an event that is at work.\<close>

fun overlaps :: "crew_op \<Rightarrow> crew \<Rightarrow> bool" where
  "overlaps (Read_Event w k) c = (k \<in> (\<lambda>x. hk_pk (fst (snd x))) ` set (cw_running c))"
| "overlaps _ c = False"

fun one_at_a_time :: "crew_op list \<Rightarrow> crew \<Rightarrow> bool" where
  "one_at_a_time [] c = True"
| "one_at_a_time (x # xs) c = (\<not> overlaps x c \<and> one_at_a_time xs (crew_step x c))"

section \<open>What the steps keep\<close>

definition ledger_ok :: "intake \<Rightarrow> bool" where
  "ledger_ok s \<longleftrightarrow> distinct (map hk_pk (ik_hooks s)) \<and> (\<forall>h \<in> set (ik_hooks s). hk_pk h < ik_next_pk s) \<and>
     distinct (map hk_key (ik_hooks s))"

lemma ledger_row: "ledger_ok s \<Longrightarrow> h \<in> set (ik_hooks s) \<Longrightarrow> hook_row (hk_pk h) s = Some h"
  unfolding hook_row_def ledger_ok_def by (blast intro: get_row_distinct)

lemma ledger_same: "ledger_ok s \<Longrightarrow> g \<in> set (ik_hooks s) \<Longrightarrow> h \<in> set (ik_hooks s) \<Longrightarrow> hk_pk g = hk_pk h \<Longrightarrow> g = h"
  unfolding ledger_ok_def by (metis distinct_map inj_onD)

lemma record_ledger:
  assumes "ledger_ok s" and "fst (record_webhook_event source ty p s) = s'"
  shows "ledger_ok s'" "set (ik_hooks s) \<subseteq> set (ik_hooks s')" "ik_sent s' = ik_sent s" "ik_dead s' = ik_dead s"
proof -
  have "ledger_ok s' \<and> set (ik_hooks s) \<subseteq> set (ik_hooks s') \<and> ik_sent s' = ik_sent s \<and> ik_dead s' = ik_dead s"
  proof (cases "get_row hk_key (canonical_event_key source ty p) (ik_hooks s)")
    case (Some h)
    then have "s' = s" using assms(2) by (simp add: record_webhook_event_def get_or_create_def new_hook_def)
    then show ?thesis using assms(1) by simp
  next
    case None
    let ?h = "new_hook (ik_next_pk s) source ty p"
    have r: "s' = s\<lparr>ik_hooks := ik_hooks s @ [?h], ik_next_pk := Suc (ik_next_pk s)\<rparr>"
      using None assms(2) by (auto simp: record_webhook_event_def get_or_create_def new_hook_def)
    have "distinct (map hk_key (ik_hooks s @ [?h]))"
      using hook_ledger.add_distinct [of s "(source, ty, p)"] assms r by (simp add: ledger_ok_def)
    moreover have "ik_next_pk s \<notin> hk_pk ` set (ik_hooks s)" using assms(1) by (force simp: ledger_ok_def)
    ultimately show ?thesis using assms(1) by (auto simp: ledger_ok_def r new_hook_def less_Suc_eq)
  qed
  then show "ledger_ok s'" "set (ik_hooks s) \<subseteq> set (ik_hooks s')" "ik_sent s' = ik_sent s" "ik_dead s' = ik_dead s" by blast+
qed

lemma save_columns_hooks:
  assumes "ledger_ok s" and "\<And>x. hk_pk (f x) = hk_pk x"
  shows "ik_hooks (save_columns f k s) = map (\<lambda>x. if hk_pk x = k then f x else x) (ik_hooks s)"
proof (cases "hook_row k s")
  case None
  then have "\<forall>x \<in> set (ik_hooks s). hk_pk x \<noteq> k" by (simp add: hook_row_def get_row_None)
  then show ?thesis using None by (simp add: save_columns_def map_idI)
next
  case (Some g)
  then have g: "g \<in> set (ik_hooks s)" "hk_pk g = k" unfolding hook_row_def by (auto dest: get_row_Some_in)
  have "(if hk_pk x = hk_pk (f g) then f g else x) = (if hk_pk x = k then f x else x)" if "x \<in> set (ik_hooks s)" for x
    using ledger_same [OF assms(1) that g(1)] g(2) assms(2) [of g] by (cases "hk_pk x = k") auto
  then have "map (\<lambda>x. if hk_pk x = hk_pk (f g) then f g else x) (ik_hooks s) = map (\<lambda>x. if hk_pk x = k then f x else x) (ik_hooks s)"
    by (rule map_cong [OF refl])
  then show ?thesis using Some by (simp add: save_columns_def put_hook_def save_row_def)
qed

lemma save_columns_frame [simp]:
  "ik_dead (save_columns f k s) = ik_dead s" "ik_sent (save_columns f k s) = ik_sent s" "ik_next_pk (save_columns f k s) = ik_next_pk s"
  by (simp_all add: save_columns_def split: option.split)

text \<open>What a save makes of a row.\<close>

definition saved_hook :: "intake_env \<Rightarrow> hook \<Rightarrow> py_error option \<Rightarrow> hook \<Rightarrow> hook" where
  "saved_hook e h err x = (if hk_pk x \<noteq> hk_pk h then x
     else case err of None \<Rightarrow> done_hook e x | Some why \<Rightarrow> counted_failure (Suc (hk_retries h)) (ie_text e why) x)"

lemma saved_hook_fields [simp]:
  "hk_pk (saved_hook e h err x) = hk_pk x" "hk_key (saved_hook e h err x) = hk_key x"
  by (simp_all add: saved_hook_def done_hook_def counted_failure_def split: option.split)

lemma saved_hook_processed: "hk_processed x \<Longrightarrow> hk_processed (saved_hook e h err x)"
  by (simp add: saved_hook_def done_hook_def counted_failure_def split: option.split)

lemma saved_hook_other: "hk_pk x \<noteq> hk_pk h \<Longrightarrow> saved_hook e h err x = x"
  by (simp add: saved_hook_def)

lemma ledger_cong: "ik_hooks s' = ik_hooks s \<Longrightarrow> ik_next_pk s' = ik_next_pk s \<Longrightarrow> ledger_ok s' = ledger_ok s"
  by (simp add: ledger_ok_def)

lemma conclude_frame:
  assumes "ledger_ok s" and "fst (conclude_event e h lc err s) = s'"
  shows "ik_hooks s' = map (saved_hook e h err) (ik_hooks s)" "ik_sent s' = ik_sent s" "ledger_ok s'"
    "ik_dead s' = (case err of None \<Rightarrow> ik_dead s
       | Some why \<Rightarrow> if max_retries \<le> Suc (hk_retries h) then fst (get_or_create fst (hk_pk h, ie_text e why) (ik_dead s)) else ik_dead s)"
proof -
  have "ik_hooks s' = map (saved_hook e h err) (ik_hooks s) \<and> ik_sent s' = ik_sent s \<and> ik_next_pk s' = ik_next_pk s \<and>
      ik_dead s' = (case err of None \<Rightarrow> ik_dead s
       | Some why \<Rightarrow> if max_retries \<le> Suc (hk_retries h) then fst (get_or_create fst (hk_pk h, ie_text e why) (ik_dead s)) else ik_dead s)"
  proof (cases err)
    case None
    then have s': "s' = mark_lifecycle (mark_event_processed (ie_now e)) lc (save_columns (done_hook e) (hk_pk h) s)"
      using assms(2) by (simp add: conclude_event_def)
    have "ik_hooks s' = map (\<lambda>x. if hk_pk x = hk_pk h then done_hook e x else x) (ik_hooks s)"
      unfolding s' mark_lifecycle_frame by (rule save_columns_hooks [OF assms(1)]) (simp add: done_hook_def)
    then show ?thesis using None s' by (simp add: saved_hook_def fun_eq_iff cong: map_cong)
  next
    case (Some why)
    let ?s2 = "mark_lifecycle (mark_event_failed (ie_text e why)) lc s"
    let ?s3 = "if max_retries \<le> Suc (hk_retries h) then bury h (ie_text e why) ?s2 else ?s2"
    have s': "s' = save_columns (counted_failure (Suc (hk_retries h)) (ie_text e why)) (hk_pk h) ?s3"
      using assms(2) Some by (simp add: conclude_event_def Let_def failed_hook_def)
    have s3: "ik_hooks ?s3 = ik_hooks s" "ik_sent ?s3 = ik_sent s" "ik_next_pk ?s3 = ik_next_pk s" by simp_all
    have "ik_hooks s' = map (\<lambda>x. if hk_pk x = hk_pk h then counted_failure (Suc (hk_retries h)) (ie_text e why) x else x) (ik_hooks s)"
      using save_columns_hooks [of ?s3 "counted_failure (Suc (hk_retries h)) (ie_text e why)" "hk_pk h"]
        assms(1) ledger_cong [OF s3(1,3)] unfolding s' s3(1) by (simp add: counted_failure_def)
    moreover have "ik_dead ?s3 = (if max_retries \<le> Suc (hk_retries h)
        then fst (get_or_create fst (hk_pk h, ie_text e why) (ik_dead s)) else ik_dead s)"
      by (simp add: bury_def)
    ultimately show ?thesis using Some s' s3 by (simp add: saved_hook_def cong: map_cong)
  qed
  note all = this
  show rows: "ik_hooks s' = map (saved_hook e h err) (ik_hooks s)" using all by blast
  show "ik_sent s' = ik_sent s" using all by blast
  show "ik_dead s' = (case err of None \<Rightarrow> ik_dead s
       | Some why \<Rightarrow> if max_retries \<le> Suc (hk_retries h) then fst (get_or_create fst (hk_pk h, ie_text e why) (ik_dead s)) else ik_dead s)"
    using all by blast
  have "ik_next_pk s' = ik_next_pk s" using all by blast
  then show "ledger_ok s'" using assms(1) by (auto simp: ledger_ok_def o_def rows)
qed

definition crew_ok :: "crew \<Rightarrow> bool" where
  "crew_ok c \<longleftrightarrow> ledger_ok (cw_intake c) \<and> distinct (map fst (cw_running c)) \<and> distinct (map fst (ik_dead (cw_intake c))) \<and>
     (\<forall>k \<in> fst ` set (ik_sent (cw_intake c)) \<union> fst ` set (ik_dead (cw_intake c)) \<union> (\<lambda>x. hk_pk (fst (snd x))) ` set (cw_running c).
        k \<in> hk_pk ` set (ik_hooks (cw_intake c)))"

lemma crew_step_cases:
  obtains (idle) "crew_step x c = c"
  | (delivered) source ty p where "x = Deliver source ty p"
      "crew_step x c = c\<lparr>cw_intake := fst (record_webhook_event source ty p (cw_intake c))\<rparr>"
  | (read) w k h where "x = Read_Event w k" "hook_row k (cw_intake c) = Some h" "\<not> hk_processed h" "w \<notin> fst ` set (cw_running c)"
      "crew_step x c = c\<lparr>cw_running := cw_running c @ [(w, h, None)]\<rparr>"
  | (ran) e w h s lc err where "(w, h, None) \<in> set (cw_running c)" "run_effects e h (cw_intake c) = (s, lc, err)"
      "crew_step x c = c\<lparr>cw_intake := s, cw_running := map (\<lambda>x. if fst x = w then (w, h, Some (lc, err)) else x) (cw_running c)\<rparr>"
  | (saved) e w h lc err where "(w, h, Some (lc, err)) \<in> set (cw_running c)"
      "crew_step x c = c\<lparr>cw_intake := fst (conclude_event e h lc err (cw_intake c)), cw_running := filter (\<lambda>x. fst x \<noteq> w) (cw_running c)\<rparr>"
proof (cases x)
  case (Deliver source ty p)
  then show thesis using delivered by simp
next
  case (Read_Event w k)
  show thesis
  proof (cases "\<exists>h. hook_row k (cw_intake c) = Some h \<and> \<not> hk_processed h \<and> w \<notin> fst ` set (cw_running c)")
    case True
    then show thesis using read [OF Read_Event] Read_Event by auto
  next
    case False
    then show thesis using idle Read_Event by (auto split: option.split)
  qed
next
  case (Run_Effects e w)
  show thesis
  proof (cases "\<exists>h. map_of (cw_running c) w = Some (h, None)")
    case True
    then obtain h where h: "map_of (cw_running c) w = Some (h, None)" by blast
    obtain s lc err where r: "run_effects e h (cw_intake c) = (s, lc, err)" by (metis prod_cases3)
    show thesis using ran [OF map_of_SomeD [OF h] r] h r Run_Effects by simp
  next
    case False
    then show thesis using idle Run_Effects by (auto split: option.split)
  qed
next
  case (Save_Event e w)
  show thesis
  proof (cases "\<exists>h lc err. map_of (cw_running c) w = Some (h, Some (lc, err))")
    case True
    then obtain h lc err where h: "map_of (cw_running c) w = Some (h, Some (lc, err))" by blast
    show thesis using saved [OF map_of_SomeD [OF h], of e] h Save_Event by simp
  next
    case False
    then show thesis using idle Save_Event by (auto split: option.split)
  qed
qed

lemma running_same: "distinct (map fst xs) \<Longrightarrow> (w, a) \<in> set xs \<Longrightarrow> (w, b) \<in> set xs \<Longrightarrow> a = b"
  by (metis eq_key_imp_eq_value)

lemma buried_keys: "fst ` set (fst (get_or_create fst (k, why) rows)) \<subseteq> insert k (fst ` set rows)"
  by (auto simp: get_or_create_def split: option.split)

lemma crew_step_ok:
  assumes "crew_ok c"
  shows "crew_ok (crew_step x c)"
    "hook_row k (cw_intake c) = Some h \<Longrightarrow> hk_processed h \<Longrightarrow> \<exists>g. hook_row k (cw_intake (crew_step x c)) = Some g \<and> hk_processed g"
proof -
  let ?s = "cw_intake c"
  have l: "ledger_ok ?s" "distinct (map fst (cw_running c))" "distinct (map fst (ik_dead ?s))"
    and known: "fst ` set (ik_sent ?s) \<subseteq> hk_pk ` set (ik_hooks ?s)" "fst ` set (ik_dead ?s) \<subseteq> hk_pk ` set (ik_hooks ?s)"
      "(\<lambda>x. hk_pk (fst (snd x))) ` set (cw_running c) \<subseteq> hk_pk ` set (ik_hooks ?s)"
    using assms unfolding crew_ok_def by blast+
  have intro_ok: "crew_ok c'" if "ledger_ok (cw_intake c')" "distinct (map fst (cw_running c'))" "distinct (map fst (ik_dead (cw_intake c')))"
      "fst ` set (ik_sent (cw_intake c')) \<subseteq> hk_pk ` set (ik_hooks (cw_intake c'))" "fst ` set (ik_dead (cw_intake c')) \<subseteq> hk_pk ` set (ik_hooks (cw_intake c'))"
      "(\<lambda>x. hk_pk (fst (snd x))) ` set (cw_running c') \<subseteq> hk_pk ` set (ik_hooks (cw_intake c'))" for c' :: crew
    using that unfolding crew_ok_def by blast
  have "crew_ok (crew_step x c) \<and> (\<forall>g \<in> set (ik_hooks ?s). hk_processed g \<longrightarrow>
      (\<exists>g' \<in> set (ik_hooks (cw_intake (crew_step x c))). hk_pk g' = hk_pk g \<and> hk_processed g'))"
  proof (cases rule: crew_step_cases [of x c])
    case idle
    then show ?thesis using assms by auto
  next
    case (delivered source ty p)
    note r = record_ledger [OF l(1) refl, of source ty p]
    have "hk_pk ` set (ik_hooks ?s) \<subseteq> hk_pk ` set (ik_hooks (fst (record_webhook_event source ty p ?s)))" using r(2) by (rule image_mono)
    then have "crew_ok (crew_step x c)" unfolding delivered(2) by (intro intro_ok) (use r l known in \<open>auto\<close>)
    then show ?thesis using r(2) by (auto simp: delivered(2))
  next
    case (read w k h)
    have "h \<in> set (ik_hooks ?s)" using read(2) unfolding hook_row_def by (rule get_row_mem)
    then have "crew_ok (crew_step x c)" unfolding read(5) by (intro intro_ok) (use read l known in \<open>auto\<close>)
    then show ?thesis by (auto simp: read(5))
  next
    case (ran e w h s lc err)
    note f = run_effects_frame [OF ran(2)]
    have ks: "map fst (map (\<lambda>x. if fst x = w then (w, h, Some (lc, err)) else x) (cw_running c)) = map fst (cw_running c)" by auto
    have once: "distinct (map fst (map (\<lambda>x. if fst x = w then (w, h, Some (lc, err)) else x) (cw_running c)))" using l(2) by (simp only: ks)
    have h: "hk_pk h \<in> hk_pk ` set (ik_hooks ?s)" using known(3) ran(1) by force
    have rows: "(\<lambda>x. hk_pk (fst (snd x))) ` set (map (\<lambda>x. if fst x = w then (w, h, Some (lc, err)) else x) (cw_running c)) \<subseteq> hk_pk ` set (ik_hooks ?s)"
      using known(3) h by (auto split: if_splits)
    have "fst ` set (ik_sent s) \<subseteq> insert (hk_pk h) (fst ` set (ik_sent ?s))"
      using f(6) by (elim disjE exE) (simp_all add: subset_insertI)
    also have "\<dots> \<subseteq> hk_pk ` set (ik_hooks ?s)" using known(1) h by simp
    finally have sent: "fst ` set (ik_sent s) \<subseteq> hk_pk ` set (ik_hooks ?s)" .
    have "ledger_ok s" using l(1) ledger_cong [OF f(1,3)] by simp
    then have "crew_ok (crew_step x c)"
      unfolding ran(3) by (intro intro_ok) (use l known(2) f(1,2) sent rows once in simp_all)
    then show ?thesis using f(1) by (auto simp: ran(3))
  next
    case (saved e w h lc err)
    let ?s' = "fst (conclude_event e h lc err ?s)"
    note f = conclude_frame [OF l(1) refl, of e h lc err]
    have keys: "hk_pk ` set (ik_hooks ?s') = hk_pk ` set (ik_hooks ?s)" by (simp add: f(1) image_image)
    have h: "hk_pk h \<in> hk_pk ` set (ik_hooks ?s)" using known(3) saved(1) by force
    have once: "distinct (map fst (ik_dead ?s'))"
      using l(3) get_or_create_distinct [of fst "ik_dead ?s"] unfolding f(4) by (simp split: option.split)
    have "fst ` set (ik_dead ?s') \<subseteq> insert (hk_pk h) (fst ` set (ik_dead ?s))"
      unfolding f(4) by (simp add: subset_insertI buried_keys split: option.split)
    also have "\<dots> \<subseteq> hk_pk ` set (ik_hooks ?s)" using known(2) h by simp
    finally have dead: "fst ` set (ik_dead ?s') \<subseteq> hk_pk ` set (ik_hooks ?s)" .
    have "distinct (map fst (filter (\<lambda>x. fst x \<noteq> w) (cw_running c)))" using l(2) by (rule distinct_map_filter)
    moreover have "(\<lambda>x. hk_pk (fst (snd x))) ` set (filter (\<lambda>x. fst x \<noteq> w) (cw_running c)) \<subseteq> hk_pk ` set (ik_hooks ?s)"
      using known(3) by (auto simp only: set_filter)
    ultimately have "crew_ok (crew_step x c)"
      unfolding saved(2) by (intro intro_ok) (use f(2,3) once dead known(1) in \<open>simp_all add: keys\<close>)
    moreover have "\<exists>g' \<in> set (ik_hooks ?s'). hk_pk g' = hk_pk g \<and> hk_processed g'" if "g \<in> set (ik_hooks ?s)" "hk_processed g" for g
      by (rule bexI [of _ "saved_hook e h err g"]) (use that saved_hook_processed in \<open>simp_all add: f(1)\<close>)
    ultimately show ?thesis by (simp add: saved(2))
  qed
  then have kept: "crew_ok (crew_step x c)" and rows: "\<And>g. g \<in> set (ik_hooks ?s) \<Longrightarrow> hk_processed g \<Longrightarrow>
      \<exists>g' \<in> set (ik_hooks (cw_intake (crew_step x c))). hk_pk g' = hk_pk g \<and> hk_processed g'" by blast+
  show "crew_ok (crew_step x c)" by (rule kept)
  show "\<exists>g. hook_row k (cw_intake (crew_step x c)) = Some g \<and> hk_processed g" if h: "hook_row k ?s = Some h" "hk_processed h"
  proof -
    have "h \<in> set (ik_hooks ?s)" "hk_pk h = k" using h(1) hook_row_key [OF h(1)] unfolding hook_row_def by (auto dest: get_row_mem)
    then obtain g where "g \<in> set (ik_hooks (cw_intake (crew_step x c)))" "hk_pk g = k" "hk_processed g" using rows h(2) by blast
    moreover have "ledger_ok (cw_intake (crew_step x c))" using kept by (simp add: crew_ok_def)
    ultimately show ?thesis using ledger_row by blast
  qed
qed

text \<open>Whether the effects of an execution went through, and its event.\<close>

definition handed :: "nat \<times> hook \<times> (uuid option \<times> py_error option) option \<Rightarrow> bool" where
  "handed x \<longleftrightarrow> (case snd (snd x) of Some (lc, None) \<Rightarrow> True | _ \<Rightarrow> False)"

definition event_of :: "nat \<times> hook \<times> (uuid option \<times> py_error option) option \<Rightarrow> uuid" where
  "event_of x = hk_pk (fst (snd x))"

text \<open>What holds in addition while no execution overlaps another of the same event.\<close>

definition serial_ok :: "crew \<Rightarrow> bool" where
  "serial_ok c \<longleftrightarrow> distinct (map event_of (cw_running c)) \<and> distinct (map fst (ik_sent (cw_intake c))) \<and>
     (\<forall>x \<in> set (cw_running c). fst (snd x) \<in> set (ik_hooks (cw_intake c)) \<and> \<not> hk_processed (fst (snd x)) \<and>
        (handed x \<or> event_of x \<notin> fst ` set (ik_sent (cw_intake c)))) \<and>
     (\<forall>k \<in> fst ` set (ik_sent (cw_intake c)).
        (\<exists>g \<in> set (ik_hooks (cw_intake c)). hk_pk g = k \<and> hk_processed g) \<or> (\<exists>x \<in> set (cw_running c). event_of x = k \<and> handed x)) \<and>
     (\<forall>k \<in> fst ` set (ik_dead (cw_intake c)). \<exists>g \<in> set (ik_hooks (cw_intake c)). hk_pk g = k \<and> max_retries \<le> hk_retries g)"

lemma serial_okD:
  assumes "serial_ok c"
  shows "distinct (map event_of (cw_running c))" "distinct (map fst (ik_sent (cw_intake c)))"
    "\<And>x. x \<in> set (cw_running c) \<Longrightarrow> fst (snd x) \<in> set (ik_hooks (cw_intake c)) \<and> \<not> hk_processed (fst (snd x)) \<and>
        (handed x \<or> event_of x \<notin> fst ` set (ik_sent (cw_intake c)))"
    "\<And>k. k \<in> fst ` set (ik_sent (cw_intake c)) \<Longrightarrow>
        (\<exists>g \<in> set (ik_hooks (cw_intake c)). hk_pk g = k \<and> hk_processed g) \<or> (\<exists>x \<in> set (cw_running c). event_of x = k \<and> handed x)"
    "\<And>k. k \<in> fst ` set (ik_dead (cw_intake c)) \<Longrightarrow> \<exists>g \<in> set (ik_hooks (cw_intake c)). hk_pk g = k \<and> max_retries \<le> hk_retries g"
  using assms unfolding serial_ok_def by blast+

lemma serial_okI:
  assumes "distinct (map event_of (cw_running c))" "distinct (map fst (ik_sent (cw_intake c)))"
    "\<And>x. x \<in> set (cw_running c) \<Longrightarrow> fst (snd x) \<in> set (ik_hooks (cw_intake c)) \<and> \<not> hk_processed (fst (snd x)) \<and>
        (handed x \<or> event_of x \<notin> fst ` set (ik_sent (cw_intake c)))"
    "\<And>k. k \<in> fst ` set (ik_sent (cw_intake c)) \<Longrightarrow>
        (\<exists>g \<in> set (ik_hooks (cw_intake c)). hk_pk g = k \<and> hk_processed g) \<or> (\<exists>x \<in> set (cw_running c). event_of x = k \<and> handed x)"
    "\<And>k. k \<in> fst ` set (ik_dead (cw_intake c)) \<Longrightarrow> \<exists>g \<in> set (ik_hooks (cw_intake c)). hk_pk g = k \<and> max_retries \<le> hk_retries g"
  shows "serial_ok c"
  using assms unfolding serial_ok_def by blast

lemma serial_step:
  assumes "crew_ok c" and "serial_ok c" and "\<not> overlaps x c"
  shows "serial_ok (crew_step x c)"
proof -
  let ?s = "cw_intake c"
  note d = serial_okD [OF assms(2)]
  have l: "ledger_ok ?s" "distinct (map fst (cw_running c))" using assms(1) unfolding crew_ok_def by blast+
  have only_run: "y = z" if "y \<in> set (cw_running c)" "z \<in> set (cw_running c)" "event_of y = event_of z" for y z
    using d(1) that by (metis distinct_map inj_onD)
  show ?thesis
  proof (cases rule: crew_step_cases [of x c])
    case idle
    then show ?thesis using assms(2) by simp
  next
    case (delivered source ty p)
    note r = record_ledger [OF l(1) refl, of source ty p]
    show ?thesis
      unfolding delivered(2)
    proof (rule serial_okI)
      show "fst (snd y) \<in> set (ik_hooks (cw_intake (c\<lparr>cw_intake := fst (record_webhook_event source ty p ?s)\<rparr>))) \<and> \<not> hk_processed (fst (snd y)) \<and>
        (handed y \<or> event_of y \<notin> fst ` set (ik_sent (cw_intake (c\<lparr>cw_intake := fst (record_webhook_event source ty p ?s)\<rparr>))))"
        if "y \<in> set (cw_running (c\<lparr>cw_intake := fst (record_webhook_event source ty p ?s)\<rparr>))" for y
        using d(3) [of y] that r(2,3) by (simp add: subsetD)
      show "(\<exists>g \<in> set (ik_hooks (cw_intake (c\<lparr>cw_intake := fst (record_webhook_event source ty p ?s)\<rparr>))). hk_pk g = k \<and> hk_processed g) \<or>
          (\<exists>y \<in> set (cw_running (c\<lparr>cw_intake := fst (record_webhook_event source ty p ?s)\<rparr>)). event_of y = k \<and> handed y)"
        if "k \<in> fst ` set (ik_sent (cw_intake (c\<lparr>cw_intake := fst (record_webhook_event source ty p ?s)\<rparr>)))" for k
        using d(4) [of k] that r(2,3) by auto
      show "\<exists>g \<in> set (ik_hooks (cw_intake (c\<lparr>cw_intake := fst (record_webhook_event source ty p ?s)\<rparr>))). hk_pk g = k \<and> max_retries \<le> hk_retries g"
        if "k \<in> fst ` set (ik_dead (cw_intake (c\<lparr>cw_intake := fst (record_webhook_event source ty p ?s)\<rparr>)))" for k
        using d(5) [of k] that r(2,4) by auto
    qed (use d(1,2) r(3) in simp_all)
  next
    case (read w k h)
    have h: "h \<in> set (ik_hooks ?s)" "hk_pk h = k" using read(2) hook_row_key [OF read(2)] unfolding hook_row_def by (auto dest: get_row_mem)
    have new: "event_of (w, h, None) \<notin> event_of ` set (cw_running c)"
      using assms(3) h(2) unfolding read(1) by (simp add: event_of_def)
    have unsent: "k \<notin> fst ` set (ik_sent ?s)"
    proof
      assume "k \<in> fst ` set (ik_sent ?s)"
      from d(4) [OF this] show False
      proof (elim disjE bexE conjE)
        fix g
        assume g: "g \<in> set (ik_hooks ?s)" "hk_pk g = k" "hk_processed g"
        then have "g = h" using ledger_same [OF l(1) g(1) h(1)] h(2) by simp
        then show False using g(3) read(3) by simp
      next
        fix y
        assume "y \<in> set (cw_running c)" "event_of y = k"
        then show False using new h(2) by (auto simp: event_of_def)
      qed
    qed
    show ?thesis
      unfolding read(5)
    proof (rule serial_okI)
      show "fst (snd y) \<in> set (ik_hooks (cw_intake (c\<lparr>cw_running := cw_running c @ [(w, h, None)]\<rparr>))) \<and> \<not> hk_processed (fst (snd y)) \<and>
        (handed y \<or> event_of y \<notin> fst ` set (ik_sent (cw_intake (c\<lparr>cw_running := cw_running c @ [(w, h, None)]\<rparr>))))"
        if "y \<in> set (cw_running (c\<lparr>cw_running := cw_running c @ [(w, h, None)]\<rparr>))" for y
      proof (cases "y \<in> set (cw_running c)")
        case True
        then show ?thesis using d(3) by simp
      next
        case False
        then have "y = (w, h, None)" using that by simp
        then show ?thesis using h read(3) unsent by (simp add: event_of_def)
      qed
      show "(\<exists>g \<in> set (ik_hooks (cw_intake (c\<lparr>cw_running := cw_running c @ [(w, h, None)]\<rparr>))). hk_pk g = j \<and> hk_processed g) \<or>
          (\<exists>y \<in> set (cw_running (c\<lparr>cw_running := cw_running c @ [(w, h, None)]\<rparr>)). event_of y = j \<and> handed y)"
        if "j \<in> fst ` set (ik_sent (cw_intake (c\<lparr>cw_running := cw_running c @ [(w, h, None)]\<rparr>)))" for j
        using d(4) [of j] that by auto
    qed (use d(1,2,5) new in simp_all)
  next
    case (ran e w h s lc err)
    note f = run_effects_frame [OF ran(2)]
    let ?x = "(w, h, None)" and ?y = "(w, h, Some (lc, err))"
    let ?c = "c\<lparr>cw_intake := s, cw_running := map (\<lambda>x. if fst x = w then ?y else x) (cw_running c)\<rparr>"
    have at: "y = ?x" if "y \<in> set (cw_running c)" "fst y = w" for y
      using running_same [OF l(2), of w "snd y" "(h, None)"] that ran(1) by (cases y) auto
    have rows: "set (cw_running ?c) = insert ?y {y \<in> set (cw_running c). fst y \<noteq> w}" using ran(1) by (auto split: if_splits)
    have events: "map event_of (cw_running ?c) = map event_of (cw_running c)" using at by (auto simp: event_of_def)
    have h: "h \<in> set (ik_hooks ?s)" "\<not> hk_processed h" "hk_pk h \<notin> fst ` set (ik_sent ?s)"
      using d(3) [OF ran(1)] by (simp_all add: handed_def event_of_def)
    have other: "event_of y \<noteq> hk_pk h" if "y \<in> set (cw_running c)" "fst y \<noteq> w" for y
      using only_run [OF that(1) ran(1)] that(2) by (auto simp: event_of_def)
    have sent: "set (ik_sent s) \<subseteq> set (ik_sent ?s) \<union> {hk_pk h} \<times> UNIV" using f(6) by (elim disjE exE) auto
    have once: "distinct (map fst (ik_sent s))" using f(6) d(2) h(3) by (elim disjE exE) simp_all
    show ?thesis
      unfolding ran(3)
    proof (rule serial_okI)
      show "distinct (map event_of (cw_running ?c))" unfolding events by (rule d(1))
      show "distinct (map fst (ik_sent (cw_intake ?c)))" using once by simp
      show "fst (snd y) \<in> set (ik_hooks (cw_intake ?c)) \<and> \<not> hk_processed (fst (snd y)) \<and>
          (handed y \<or> event_of y \<notin> fst ` set (ik_sent (cw_intake ?c)))" if y: "y \<in> set (cw_running ?c)" for y
      proof (cases "y = ?y")
        case True
        have "handed ?y \<or> hk_pk h \<notin> fst ` set (ik_sent s)" using f(5) h(3) by (cases err) (simp_all add: handed_def)
        then show ?thesis using True h f(1) by (simp add: event_of_def)
      next
        case False
        then have o: "y \<in> set (cw_running c)" "fst y \<noteq> w" using y rows by auto
        have "event_of y \<in> fst ` set (ik_sent ?s)" if "event_of y \<in> fst ` set (ik_sent s)" using that sent other [OF o] by force
        then show ?thesis using d(3) [OF o(1)] f(1) by auto
      qed
      show "(\<exists>g \<in> set (ik_hooks (cw_intake ?c)). hk_pk g = k \<and> hk_processed g) \<or> (\<exists>y \<in> set (cw_running ?c). event_of y = k \<and> handed y)"
        if k: "k \<in> fst ` set (ik_sent (cw_intake ?c))" for k
      proof (cases "k = hk_pk h")
        case True
        have "err = None"
        proof (rule ccontr)
          assume "err \<noteq> None"
          then show False using f(5) h(3) k True by simp
        qed
        then have "event_of ?y = k \<and> handed ?y" using True by (simp add: event_of_def handed_def)
        then show ?thesis unfolding rows by blast
      next
        case False
        then have "k \<in> fst ` set (ik_sent ?s)" using k sent by force
        from d(4) [OF this] show ?thesis
        proof (elim disjE bexE conjE)
          fix g
          assume "g \<in> set (ik_hooks ?s)" "hk_pk g = k" "hk_processed g"
          then show ?thesis using f(1) by auto
        next
          fix y
          assume y: "y \<in> set (cw_running c)" "event_of y = k" "handed y"
          have "fst y \<noteq> w"
          proof
            assume "fst y = w"
            from at [OF y(1) this] show False using y(2) False by (simp add: event_of_def)
          qed
          then show ?thesis using y unfolding rows by blast
        qed
      qed
      show "\<exists>g \<in> set (ik_hooks (cw_intake ?c)). hk_pk g = k \<and> max_retries \<le> hk_retries g"
        if "k \<in> fst ` set (ik_dead (cw_intake ?c))" for k
        using d(5) [of k] that f(1,2) by simp
    qed
  next
    case (saved e w h lc err)
    let ?s' = "fst (conclude_event e h lc err ?s)" and ?x = "(w, h, Some (lc, err))"
    let ?c = "c\<lparr>cw_intake := ?s', cw_running := filter (\<lambda>x. fst x \<noteq> w) (cw_running c)\<rparr>"
    note f = conclude_frame [OF l(1) refl, of e h lc err]
    have x: "h \<in> set (ik_hooks ?s)" "handed ?x \<or> hk_pk h \<notin> fst ` set (ik_sent ?s)"
      using d(3) [OF saved(1)] by (simp_all add: event_of_def)
    have other: "event_of y \<noteq> hk_pk h" if "y \<in> set (cw_running c)" "fst y \<noteq> w" for y
      using only_run [OF that(1) saved(1)] that(2) by (auto simp: event_of_def)
    have at: "y = ?x" if "y \<in> set (cw_running c)" "fst y = w" for y
      using running_same [OF l(2), of w "snd y" "snd ?x"] that saved(1) by (cases y) auto
    have done_row: "saved_hook e h err g \<in> set (ik_hooks ?s')" if "g \<in> set (ik_hooks ?s)" for g using that by (simp add: f(1))
    show ?thesis
      unfolding saved(2)
    proof (rule serial_okI)
      show "distinct (map event_of (cw_running ?c))" using d(1) by (simp add: distinct_map_filter)
      show "distinct (map fst (ik_sent (cw_intake ?c)))" using d(2) f(2) by simp
      show "fst (snd y) \<in> set (ik_hooks (cw_intake ?c)) \<and> \<not> hk_processed (fst (snd y)) \<and>
          (handed y \<or> event_of y \<notin> fst ` set (ik_sent (cw_intake ?c)))" if y: "y \<in> set (cw_running ?c)" for y
      proof -
        have o: "y \<in> set (cw_running c)" "fst y \<noteq> w" using y by simp_all
        have "saved_hook e h err (fst (snd y)) = fst (snd y)" using other [OF o] by (simp add: saved_hook_other event_of_def)
        then show ?thesis using done_row [of "fst (snd y)"] d(3) [OF o(1)] f(2) by simp
      qed
      show "(\<exists>g \<in> set (ik_hooks (cw_intake ?c)). hk_pk g = k \<and> hk_processed g) \<or> (\<exists>y \<in> set (cw_running ?c). event_of y = k \<and> handed y)"
        if k: "k \<in> fst ` set (ik_sent (cw_intake ?c))" for k
      proof -
        have "k \<in> fst ` set (ik_sent ?s)" using k f(2) by simp
        from d(4) [OF this] show ?thesis
        proof (elim disjE bexE conjE)
          fix g
          assume g: "g \<in> set (ik_hooks ?s)" "hk_pk g = k" "hk_processed g"
          then have "saved_hook e h err g \<in> set (ik_hooks ?s') \<and> hk_pk (saved_hook e h err g) = k \<and> hk_processed (saved_hook e h err g)"
            using done_row saved_hook_processed by simp
          then show ?thesis by auto
        next
          fix y
          assume y: "y \<in> set (cw_running c)" "event_of y = k" "handed y"
          show ?thesis
          proof (cases "fst y = w")
            case False
            then have "y \<in> set (cw_running ?c)" using y(1) by simp
            then show ?thesis using y(2,3) by blast
          next
            case True
            then have "err = None" "hk_pk h = k" using at [OF y(1)] y(2,3) by (auto simp: handed_def event_of_def split: option.splits)
            then have "hk_pk (saved_hook e h err h) = k \<and> hk_processed (saved_hook e h err h)" by (simp add: saved_hook_def done_hook_def)
            then show ?thesis using done_row [OF x(1)] by auto
          qed
        qed
      qed
      show "\<exists>g \<in> set (ik_hooks (cw_intake ?c)). hk_pk g = k \<and> max_retries \<le> hk_retries g"
        if k: "k \<in> fst ` set (ik_dead (cw_intake ?c))" for k
      proof -
        have keeps: "\<exists>g \<in> set (ik_hooks ?s'). hk_pk g = k \<and> max_retries \<le> hk_retries g" if "k \<in> fst ` set (ik_dead ?s)"
        proof -
          from d(5) [OF that] obtain g where g: "g \<in> set (ik_hooks ?s)" "hk_pk g = k" "max_retries \<le> hk_retries g" by blast
          have "max_retries \<le> hk_retries (saved_hook e h err g)"
          proof (cases "hk_pk g = hk_pk h")
            case True
            then have "g = h" by (rule ledger_same [OF l(1) g(1) x(1)])
            then show ?thesis using g(3) by (simp add: saved_hook_def done_hook_def counted_failure_def split: option.split)
          qed (use g(3) in \<open>simp add: saved_hook_other\<close>)
          then show ?thesis using done_row [OF g(1)] g(2) by (intro bexI [of _ "saved_hook e h err g"]) simp_all
        qed
        show ?thesis
        proof (cases "k \<in> fst ` set (ik_dead ?s)")
          case True
          then show ?thesis using keeps by simp
        next
          case False
          then obtain why where err: "err = Some why" "max_retries \<le> Suc (hk_retries h)"
            using k f(4) by (auto split: option.splits if_splits)
          then have "k = hk_pk h" using k f(4) False buried_keys [of "hk_pk h" "ie_text e why" "ik_dead ?s"] by auto
          moreover have "hk_retries (saved_hook e h err h) = Suc (hk_retries h)" using err(1) by (simp add: saved_hook_def counted_failure_def)
          ultimately show ?thesis using done_row [OF x(1)] err(2) by (intro bexI [of _ "saved_hook e h err h"]) simp_all
        qed
      qed
    qed
  qed
qed

lemma serial_history:
  "crew_ok c \<Longrightarrow> serial_ok c \<Longrightarrow> one_at_a_time ops c \<Longrightarrow> serial_ok (fold crew_step ops c)"
  by (induction ops arbitrary: c) (simp_all add: serial_step crew_step_ok(1) del: crew_step.simps overlaps.simps)

lemma crew_history: "crew_ok c \<Longrightarrow> crew_ok (fold crew_step ops c)"
  by (induction ops arbitrary: c) (simp_all add: crew_step_ok(1) del: crew_step.simps)

lemma processed_history:
  "crew_ok c \<Longrightarrow> hook_row k (cw_intake c) = Some h \<Longrightarrow> hk_processed h \<Longrightarrow>
     \<exists>g. hook_row k (cw_intake (fold crew_step ops c)) = Some g \<and> hk_processed g"
proof (induction ops arbitrary: c h)
  case (Cons x ops)
  obtain g where g: "hook_row k (cw_intake (crew_step x c)) = Some g" "hk_processed g" using crew_step_ok(2) [OF Cons.prems] by blast
  have "\<exists>g. hook_row k (cw_intake (fold crew_step ops (crew_step x c))) = Some g \<and> hk_processed g"
    by (rule Cons.IH [OF crew_step_ok(1) [OF Cons.prems(1)] g])
  then show ?case by simp
qed auto

text \<open>C18: however deliveries and the steps of the workers interleave (an execution reads the event, runs its effects and
  saves it in three steps, without a lock), no two events share a fingerprint, a payload whose fingerprint is in the
  ledger is recognized and changes nothing, an event has at most one dead letter, and a processed event stays
  processed.  As long as no execution starts on an event that is at work, an event also has at most one job handed
  over, it is then processed or its execution is about to save it, and its dead letter comes after three failures.\<close>

theorem intake_hands_over_once:
  assumes "c = fold crew_step ops fresh_crew" and "s = cw_intake c"
  shows "distinct (map hk_key (ik_hooks s)) \<and> distinct (map fst (ik_dead s)) \<and>
    (\<forall>h \<in> set (ik_hooks s). \<forall>source ty p. canonical_event_key source ty p = hk_key h \<longrightarrow> record_webhook_event source ty p s = (s, h)) \<and>
    (\<forall>k h. hook_row k s = Some h \<and> hk_processed h \<longrightarrow>
       (\<forall>more. \<exists>g. hook_row k (cw_intake (fold crew_step more c)) = Some g \<and> hk_processed g)) \<and>
    (one_at_a_time ops fresh_crew \<longrightarrow> distinct (map fst (ik_sent s)) \<and>
       (\<forall>k j. (k, j) \<in> set (ik_sent s) \<longrightarrow> (\<exists>h. hook_row k s = Some h \<and> hk_processed h) \<or>
          (\<exists>x \<in> set (cw_running c). event_of x = k \<and> handed x)) \<and>
       (\<forall>k why. (k, why) \<in> set (ik_dead s) \<longrightarrow> (\<exists>h. hook_row k s = Some h \<and> max_retries \<le> hk_retries h)))"
proof -
  have fresh: "crew_ok fresh_crew" "serial_ok fresh_crew"
    by (simp_all add: crew_ok_def serial_ok_def ledger_ok_def fresh_crew_def fresh_intake_def)
  have ok: "crew_ok c" using crew_history [OF fresh(1)] assms(1) by simp
  then have l: "ledger_ok s" "distinct (map fst (ik_dead s))" unfolding crew_ok_def assms(2) by blast+
  have keys: "distinct (map hk_key (ik_hooks s))" using l(1) by (simp add: ledger_ok_def)
  have known: "record_webhook_event source ty p s = (s, h)" if "h \<in> set (ik_hooks s)" "canonical_event_key source ty p = hk_key h" for h source ty p
    using hook_ledger.add_known [OF keys that(1), of "(source, ty, p)"] that(2) by simp
  have stays: "\<exists>g. hook_row k (cw_intake (fold crew_step more c)) = Some g \<and> hk_processed g"
    if "hook_row k s = Some h" "hk_processed h" for k h more
    using processed_history [OF ok, of k h more] that assms(2) by simp
  have serial: "distinct (map fst (ik_sent s)) \<and>
       (\<forall>k j. (k, j) \<in> set (ik_sent s) \<longrightarrow> (\<exists>h. hook_row k s = Some h \<and> hk_processed h) \<or>
          (\<exists>x \<in> set (cw_running c). event_of x = k \<and> handed x)) \<and>
       (\<forall>k why. (k, why) \<in> set (ik_dead s) \<longrightarrow> (\<exists>h. hook_row k s = Some h \<and> max_retries \<le> hk_retries h))"
    if "one_at_a_time ops fresh_crew"
  proof -
    have "serial_ok c" using serial_history [OF fresh that] assms(1) by simp
    note d = serial_okD [OF this, folded assms(2)]
    have "(\<exists>h. hook_row k s = Some h \<and> hk_processed h) \<or> (\<exists>x \<in> set (cw_running c). event_of x = k \<and> handed x)"
      if "(k, j) \<in> set (ik_sent s)" for k j
      using d(4) [of k] that ledger_row [OF l(1)] by force
    moreover have "\<exists>h. hook_row k s = Some h \<and> max_retries \<le> hk_retries h" if "(k, why) \<in> set (ik_dead s)" for k why
      using d(5) [of k] that ledger_row [OF l(1)] by force
    ultimately show ?thesis using d(2) by blast
  qed
  show ?thesis using keys l(2) known stays serial by blast
qed

section \<open>A stage entry is never suppressed\<close>

lemma ticket_type_facts:
  "starts_with ''ticket.'' (lower ''ticket.propertyChange'')" "list_ex (\<lambda>pre. starts_with pre (lower ''ticket.propertyChange'')) hubspot_prefixes"
  by code_simp+

lemma recorded_event_has_effects:
  assumes "consistent s" and "distinct (map ev_pk (cv_events s))" and "record_normalized_event cfg now ev dec s = Inr (c, r)"
    and "\<forall>x \<in> set (cv_events s). ev_key x = ne_key ev \<longrightarrow> ev_status x \<in> {Ev_Pending, Ev_Failed}"
    and "effect_ordering_policy cfg ev dec = Process_Idempotent_Occurrence"
  shows "has_effects r c"
proof (rule record_parts [OF assms(1,3)])
  fix s1 k new i s2 s3 e created
  assume e1: "cv_events s1 = cv_events s"
    and s2: "s2 = (if \<not> is_stale_provider_event i ev \<and> \<not> defers_close cfg ev dec then put_conversation (refresh_instance_snapshot now ev i) s1 else s1)"
    and a: "append_event k ev s2 = (s3, e, created)"
    and run: "(if created \<and> \<not> is_stale_provider_event i ev then project_event cfg now ev dec new k (ev_pk e) s3 else Inr s3) = Inr c"
    and r: "r = \<lparr>er_instance = k, er_event = ev_pk e, er_created = created, er_stale = is_stale_provider_event i ev,
            er_policy = effect_ordering_policy cfg ev dec\<rparr>"
  have e2: "cv_events s2 = cv_events s" using e1 by (simp add: s2)
  have "unsettled_event c (ev_pk e)" if "\<not> created"
  proof -
    have known: "get_row ev_key (ne_key ev) (cv_events s2) = Some e" "s3 = s2"
      using a that by (auto simp: append_event_def Let_def split: option.splits)
    have mem: "e \<in> set (cv_events s)" "ev_key e = ne_key ev" using get_row_Some_in [OF known(1)] by (simp_all add: e2)
    have "c = s2" using run that known(2) by simp
    moreover have "get_row ev_pk (ev_pk e) (cv_events s) = Some e" by (rule get_row_distinct [OF assms(2) mem(1)])
    ultimately show ?thesis using mem assms(4) by (simp add: unsettled_event_def e2)
  qed
  then show ?thesis using assms(5) by (auto simp: has_effects_def stale_occurrence_def r)
qed

text \<open>A ticket that enters the queue stage is never lost.  Whatever the lifecycle projection makes of the event
  (recorded, stale, refused, or not available), as long as no earlier execution settled it, the execution hands the
  assignment of the ticket over with the entry time and the event, once, and concludes the event.\<close>

theorem stage_entry_handed_over:
  assumes "hook_row k s = Some h" and "\<not> hk_processed h" and "hk_type h = ''ticket.propertyChange''"
    and "hk_key h = canonical_event_key ''hubspot'' (hk_type h) (hk_payload h)"
    and "map_of (hk_payload h) ''propertyName'' = Some (J_Text (prop_stage_novo (ie_cfg e)))"
    and "str_of (value_or_empty (hk_payload h) ''objectId'') = ticket" and "ticket \<noteq> []"
    and "upper (as_text (first_truthy (hk_payload h) [''direction'', ''messageDirection''])) \<in> {[], ''INCOMING''}"
    and "may_ingest_queue (ie_cfg e)" and "\<forall>j. ie_broker e j = None"
    and "consistent (ik_conv s)" and "distinct (map ev_pk (cv_events (ik_conv s)))"
    and "\<forall>x \<in> set (cv_events (ik_conv s)). ev_key x = hk_key h \<longrightarrow> ev_status x \<in> {Ev_Pending, Ev_Failed}"
  shows "\<exists>s' h'. process_webhook_event e k s = (s', True) \<and> hook_row k s' = Some h' \<and> hk_processed h' \<and>
    ik_sent s' = ik_sent s @ [(k, Job_Assign_Single ticket (value_or_empty (hk_payload h) ''propertyValue'')
      (if hk_event h \<noteq> [] then hk_event h else nat_text k))]"
proof -
  let ?j = "Job_Assign_Single ticket (value_or_empty (hk_payload h) ''propertyValue'') (if hk_event h \<noteq> [] then hk_event h else nat_text k)"
  have pk: "hk_pk h = k" by (rule hook_row_key [OF assms(1)])
  have name: "value_or_empty (hk_payload h) ''propertyName'' = J_Text (prop_stage_novo (ie_cfg e))" by (simp add: value_or_empty_def assms(5))
  have handler: "handle_hubspot_event e h s1 = Inr (s1\<lparr>ik_sent := ik_sent s1 @ [(k, ?j)]\<rparr>)" for s1
    by (simp only: handle_hubspot_event_def handle_ticket_event_def assms(3) ticket_type_facts(1) if_True Let_def name pk entered_novo_def post_job_def)
      (simp add: assms(6,7,9,10))
  have run: "\<exists>v c. run_effects e h s = (s\<lparr>ik_conv := v, ik_sent := ik_sent s @ [(k, ?j)]\<rparr>, c, None)"
  proof (cases "\<not> ie_schema_ready e \<or> (\<exists>x. record_lifecycle_for_webhook_event (ie_cfg e) (ie_now e) (hook_view h) (ik_conv s) = Inl x)")
    case True
    then have "run_effects e h s = (s\<lparr>ik_sent := ik_sent s @ [(k, ?j)]\<rparr>, None, None)"
      unfolding run_effects_def assms(3) using ticket_type_facts(2) by (auto simp: handler settle_effects_def)
    then show ?thesis by (intro exI [of _ "ik_conv s"] exI [of _ None]) simp
  next
    case False
    then obtain v r where r: "record_lifecycle_for_webhook_event (ie_cfg e) (ie_now e) (hook_view h) (ik_conv s) = Inr (v, r)"
      by (metis sumE surj_pair)
    then obtain ev where n: "normalize_webhook_event (ie_cfg e) ''hubspot'' (hook_view h) = Inr ev"
        and rn: "record_normalized_event (ie_cfg e) (ie_now e) ev (route_event ev) (ik_conv s) = Inr (v, r)"
      unfolding record_lifecycle_for_webhook_event_def by (elim and_then_InrE)
    have property: "as_text (first_truthy (hk_payload h) [''propertyName'', ''property_name'']) = prop_stage_novo (ie_cfg e)"
      by (simp add: assms(5) prop_stage_novo_def)
    have raw: "wv_type (hook_view h) = ''ticket.propertyChange''" "wv_payload (hook_view h) = hk_payload h" by (simp_all add: hook_view_def assms(3))
    have ev: "ne_type ev = ''ticket_entered_n1''" "ne_key ev = hk_key h" "ne_source ev = ''hubspot''"
        "ne_direction ev = upper (as_text (first_truthy (hk_payload h) [''direction'', ''messageDirection'']))"
      using n unfolding normalize_webhook_event_def raw Let_def
      by (auto simp: classify_raw_event_def property assms(3,4) Let_def simp del: first_truthy.simps elim!: and_then_InrE split: prod.splits)
    have route: "rd_route (route_event ev) = R_Auto_Assignment" using ev(1,4) assms(8) by (auto simp: route_event_def)
    then have pol: "effect_ordering_policy (ie_cfg e) ev (route_event ev) = Process_Idempotent_Occurrence"
      by (simp add: effect_ordering_policy_def is_authoritative_stage_occurrence_def ev(1))
    have "has_effects r v"
      by (rule recorded_event_has_effects [OF assms(11,12) rn _ pol]) (use assms(13) in \<open>simp add: ev(2)\<close>)
    moreover have "webhook_route (ie_cfg e) h \<in> set dispatched_routes" by (simp add: webhook_route_def n route dispatched_routes_def)
    ultimately have "run_effects e h s = (s\<lparr>ik_conv := v, ik_sent := ik_sent s @ [(k, ?j)]\<rparr>, Some (er_event r), None)"
      unfolding run_effects_def assms(3) using ticket_type_facts(2) False r
      by (simp add: dispatch_hubspot_lifecycle_def handler settle_effects_def Let_def)
    then show ?thesis by blast
  qed
  then obtain v c where run: "run_effects e h s = (s\<lparr>ik_conv := v, ik_sent := ik_sent s @ [(k, ?j)]\<rparr>, c, None)" by blast
  let ?s' = "mark_lifecycle (mark_event_processed (ie_now e)) c (put_hook (done_hook e h) (s\<lparr>ik_conv := v, ik_sent := ik_sent s @ [(k, ?j)]\<rparr>))"
  have "hook_row k (s\<lparr>ik_conv := v, ik_sent := ik_sent s @ [(k, ?j)]\<rparr>) = Some h" using assms(1) by (simp add: hook_row_def)
  then have "process_webhook_event e k s = (?s', True)"
    using assms(1,2) run by (simp add: process_webhook_event_def conclude_event_def pk save_columns_at)
  moreover have "hook_row k ?s' = Some (done_hook e h)"
    using hook_row_put [OF assms(1), of "done_hook e h"] pk by (simp add: hook_row_def done_hook_def put_hook_def)
  ultimately show ?thesis by (intro exI [of _ ?s'] exI [of _ "done_hook e h"]) (simp add: done_hook_def)
qed

section \<open>Signatures\<close>

text \<open>A text is its bytes.  \<open>dg_sha256\<close> is the hexadecimal SHA-256, \<open>dg_hmac\<close> the Base64 of the HMAC-SHA256 of a key and
  a message, \<open>dg_hmac_hex\<close> its hexadecimal form.\<close>

record digests =
  dg_sha256 :: "string \<Rightarrow> string"
  dg_hmac :: "string \<Rightarrow> string \<Rightarrow> string"
  dg_hmac_hex :: "string \<Rightarrow> string \<Rightarrow> string"
  dg_key :: "event_key \<Rightarrow> string"
  dg_json :: "payload \<Rightarrow> string"

record request =
  hq_verb :: string
  hq_uri :: string
  hq_body :: string
  hq_signature_v1 :: string
  hq_signature_v3 :: string
  hq_timestamp :: string
  hq_hub_signature :: string

text \<open>\<open>hmac.compare_digest\<close> refuses texts with characters beyond ASCII.\<close>

definition is_ascii :: "string \<Rightarrow> bool" where
  "is_ascii s \<longleftrightarrow> list_all (\<lambda>c. code_point c < 128) s"

definition compare_digest :: "string \<Rightarrow> string \<Rightarrow> bool result" where
  "compare_digest a b = (if is_ascii a \<and> is_ascii b then Inr (a = b) else Inl TypeError)"

definition verify_v1 :: "digests \<Rightarrow> request \<Rightarrow> string \<Rightarrow> bool result" where
  "verify_v1 dg r secret =
     (if hq_signature_v1 r = [] then Inr False else compare_digest (hq_signature_v1 r) (dg_sha256 dg (secret @ hq_body r)))"

text \<open>\<open>str.replace\<close>\<close>

function replace_all :: "string \<Rightarrow> string \<Rightarrow> string \<Rightarrow> string" where
  "replace_all pat rep [] = []"
| "replace_all pat rep (c # cs) =
     (if pat \<noteq> [] \<and> starts_with pat (c # cs) then rep @ replace_all pat rep (drop (length pat - 1) cs) else c # replace_all pat rep cs)"
  by pat_completeness auto
termination by (relation "measure (\<lambda>(pat, rep, s). length s)") (auto simp: less_Suc_eq_le)

definition uri_decodings :: "(string \<times> string) list" where
  "uri_decodings = [(''%3A'', '':''), (''%2F'', ''/''), (''%3F'', ''?''), (''%40'', ''@''), (''%21'', ''!''), (''%24'', ''$''),
     (''%27'', [char_of (39 :: nat)]), (''%28'', ''(''), (''%29'', '')''), (''%2A'', ''*''), (''%2C'', '',''), (''%3B'', '';'')]"

definition decode_v3_uri :: "string \<Rightarrow> string" where
  "decode_v3_uri uri = fold (\<lambda>(enc, plain) s. replace_all (lower enc) plain (replace_all enc plain s)) uri_decodings uri"

definition v3_max_age_ms :: int where
  "v3_max_age_ms = 300000"

definition verify_v3 :: "digests \<Rightarrow> int \<Rightarrow> request \<Rightarrow> string \<Rightarrow> bool result" where
  "verify_v3 dg now_ms r secret =
     (if hq_signature_v3 r = [] \<or> hq_timestamp r = [] then Inr False
      else case py_int (hq_timestamp r) of
             None \<Rightarrow> Inr False
           | Some t \<Rightarrow>
               (if now_ms - t < 0 \<or> v3_max_age_ms < now_ms - t then Inr False
                else compare_digest (hq_signature_v3 r)
                       (dg_hmac dg secret (upper (hq_verb r) @ decode_v3_uri (hq_uri r) @ hq_body r @ hq_timestamp r))))"

definition is_valid_hubspot_request :: "digests \<Rightarrow> int \<Rightarrow> request \<Rightarrow> string \<Rightarrow> bool result" where
  "is_valid_hubspot_request dg now_ms r secret =
     and_then (verify_v1 dg r secret) (\<lambda>ok. if ok then Inr True else verify_v3 dg now_ms r secret)"

definition verify_jira_signature :: "digests \<Rightarrow> request \<Rightarrow> string \<Rightarrow> bool result" where
  "verify_jira_signature dg r secret =
     (if starts_with ''sha256='' (hq_hub_signature r) then compare_digest (drop 7 (hq_hub_signature r)) (dg_hmac_hex dg secret (hq_body r))
      else Inr False)"

section \<open>The receivers\<close>

record receiver =
  hr_env :: intake_env
  hr_n8n :: n8n_settings
  hr_debug :: bool
  hr_max_body :: nat
  hr_max_batch :: nat
  hr_now_ms :: int

datatype http_answer = Http_Accepted nat | Http_Rejected nat

definition envelope_of :: "digests \<Rightarrow> payload \<Rightarrow> envelope" where
  "envelope_of dg p = \<lparr>ep_portal = truthy_text p [''portalId'', ''portal_id''],
     ep_thread = truthy_text p [''threadId'', ''thread_id'', ''objectId'', ''conversationsThreadId''],
     ep_message = truthy_text p [''messageId'', ''message_id'', ''id''],
     ep_fingerprint = dg_key dg (canonical_event_key ''hubspot'' ''conversation.newMessage'' p), ep_body = dg_json dg p\<rparr>"

definition subscription_type :: "payload \<Rightarrow> scalar" where
  "subscription_type p = (case map_of p ''subscriptionType'' of None \<Rightarrow> J_Text ''unknown'' | Some v \<Rightarrow> v)"

text \<open>One item of the batch: the state, the job handed over, and the exception that ends the request.  A message whose
  job the broker refuses stays in the ledger for the reconciliation.  An event type that is null is refused by the table.\<close>

definition receive_item :: "receiver \<Rightarrow> digests \<Rightarrow> payload \<Rightarrow> intake \<Rightarrow> intake \<times> job list \<times> py_error option" where
  "receive_item hr dg p s =
     (if subscription_type p = J_Text ''conversation.newMessage''
      then (case record_hubspot_message_envelope (hr_n8n hr) (ie_now (hr_env hr)) (envelope_of dg p) (ik_n8n s) of
              (m, g) \<Rightarrow> (s\<lparr>ik_n8n := m\<rparr>,
                         if \<not> ig_ignored g \<and> ie_broker (hr_env hr) (Job_Hydrate (ig_event g)) = None then [Job_Hydrate (ig_event g)] else [], None))
      else if subscription_type p = J_Null then (s, [], Some IntegrityError)
      else (case record_webhook_event ''hubspot'' (str_of (subscription_type p)) p s of
              (s1, h) \<Rightarrow>
                (case ie_broker (hr_env hr) (Job_Process_Event (hk_pk h)) of
                   None \<Rightarrow> (s1, [Job_Process_Event (hk_pk h)], None)
                 | Some err \<Rightarrow> (s1, [], Some err))))"

fun receive_items :: "receiver \<Rightarrow> digests \<Rightarrow> payload list \<Rightarrow> intake \<Rightarrow> intake \<times> job list \<times> py_error option" where
  "receive_items hr dg [] s = (s, [], None)"
| "receive_items hr dg (p # ps) s =
     (case receive_item hr dg p s of
        (s1, js, Some err) \<Rightarrow> (s1, js, Some err)
      | (s1, js, None) \<Rightarrow> (case receive_items hr dg ps s1 of (s2, js2, err) \<Rightarrow> (s2, js @ js2, err)))"

text \<open>What the authentication and the limits answer before anything is written; \<open>None\<close> goes on.\<close>

definition refuse_hubspot :: "receiver \<Rightarrow> digests \<Rightarrow> request \<Rightarrow> string \<Rightarrow> nat \<Rightarrow> nat option result" where
  "refuse_hubspot hr dg r secret batch =
     (if secret = [] \<and> \<not> hr_debug hr then Inr (Some 500)
      else and_then (if secret = [] then Inr True else is_valid_hubspot_request dg (hr_now_ms hr) r secret) (\<lambda>ok.
        Inr (if \<not> ok then Some 401
             else if hr_max_body hr < length (hq_body r) \<or> hr_max_batch hr < batch then Some 413 else None)))"

definition receive_hubspot_webhook ::
  "receiver \<Rightarrow> digests \<Rightarrow> request \<Rightarrow> payload list \<Rightarrow> string \<Rightarrow> intake \<Rightarrow> intake \<times> job list \<times> http_answer result" where
  "receive_hubspot_webhook hr dg r ps secret s =
     (case refuse_hubspot hr dg r secret (length ps) of
        Inl err \<Rightarrow> (s, [], Inl err)
      | Inr (Some code) \<Rightarrow> (s, [], Inr (Http_Rejected code))
      | Inr None \<Rightarrow>
          (case receive_items hr dg ps s of
             (s1, js, Some err) \<Rightarrow> (s1, js, Inl err)
           | (s1, js, None) \<Rightarrow> (s1, js, Inr (Http_Accepted (length ps)))))"

definition receive_jira_webhook ::
  "receiver \<Rightarrow> digests \<Rightarrow> request \<Rightarrow> payload \<Rightarrow> string \<Rightarrow> intake \<Rightarrow> intake \<times> job list \<times> http_answer result" where
  "receive_jira_webhook hr dg r p secret s =
     (case (if secret = [] then Inr (hr_debug hr) else verify_jira_signature dg r secret) of
        Inl err \<Rightarrow> (s, [], Inl err)
      | Inr False \<Rightarrow> (s, [], Inr (Http_Rejected (if secret = [] then 500 else 401)))
      | Inr True \<Rightarrow>
          (case (case map_of p ''webhookEvent'' of None \<Rightarrow> J_Text ''unknown'' | Some v \<Rightarrow> v) of
             J_Null \<Rightarrow> (s, [], Inl IntegrityError)
           | v \<Rightarrow>
               (case record_webhook_event ''jira'' (str_of v) p s of
                  (s1, h) \<Rightarrow>
                    (case ie_broker (hr_env hr) (Job_Process_Event (hk_pk h)) of
                       None \<Rightarrow> (s1, [Job_Process_Event (hk_pk h)], Inr (Http_Accepted 1))
                     | Some err \<Rightarrow> (s1, [], Inl err)))))"

section \<open>Only authentic requests are recorded\<close>

definition authentic :: "digests \<Rightarrow> int \<Rightarrow> request \<Rightarrow> string \<Rightarrow> bool" where
  "authentic dg now_ms r secret \<longleftrightarrow>
     (hq_signature_v1 r \<noteq> [] \<and> hq_signature_v1 r = dg_sha256 dg (secret @ hq_body r)) \<or>
     (hq_signature_v3 r \<noteq> [] \<and> (\<exists>t. py_int (hq_timestamp r) = Some t \<and> t \<le> now_ms \<and> now_ms \<le> t + v3_max_age_ms) \<and>
      hq_signature_v3 r = dg_hmac dg secret (upper (hq_verb r) @ decode_v3_uri (hq_uri r) @ hq_body r @ hq_timestamp r))"

lemma compare_digestD: "compare_digest a b = Inr True \<Longrightarrow> a = b"
  by (simp add: compare_digest_def split: if_splits)

lemma valid_authentic:
  assumes "is_valid_hubspot_request dg now_ms r secret = Inr True"
  shows "authentic dg now_ms r secret"
proof -
  obtain ok where v: "verify_v1 dg r secret = Inr ok" "(if ok then Inr True else verify_v3 dg now_ms r secret) = Inr True"
    using assms unfolding is_valid_hubspot_request_def by (rule and_then_InrE)
  show ?thesis
  proof (cases ok)
    case True
    then show ?thesis using v(1) by (auto simp: verify_v1_def authentic_def dest!: compare_digestD split: if_splits)
  next
    case False
    then have "verify_v3 dg now_ms r secret = Inr True" using v(2) by simp
    then show ?thesis by (force simp: verify_v3_def authentic_def dest!: compare_digestD split: if_splits option.splits)
  qed
qed

text \<open>C17: nothing is recorded for a request that is not authentic.  A request of the webhook receiver that changes the
  ledger, hands a job over or is accepted is within the limits of body and batch and carries the digest of the body
  under the application's secret (which has no time in it, so it does not age), or a signature of verb, address, body
  and time that is at most five minutes old and not from the future; without a configured secret only the debug mode
  accepts, and then any request within the limits.\<close>

theorem only_authentic_recorded:
  assumes "receive_hubspot_webhook hr dg r ps secret s = (s', js, answer)" and "s' \<noteq> s \<or> js \<noteq> [] \<or> (\<exists>n. answer = Inr (Http_Accepted n))"
  shows "length (hq_body r) \<le> hr_max_body hr \<and> length ps \<le> hr_max_batch hr \<and>
    (if secret = [] then hr_debug hr else authentic dg (hr_now_ms hr) r secret)"
proof -
  have none: "refuse_hubspot hr dg r secret (length ps) = Inr None"
    using assms by (auto simp: receive_hubspot_webhook_def split: sum.splits option.splits)
  show ?thesis
  proof (cases "secret = []")
    case True
    then show ?thesis using none by (auto simp: refuse_hubspot_def split: if_splits)
  next
    case False
    then obtain ok where "is_valid_hubspot_request dg (hr_now_ms hr) r secret = Inr ok"
        "(if \<not> ok then Some 401 else if hr_max_body hr < length (hq_body r) \<or> hr_max_batch hr < length ps then Some 413 else None) = (None :: nat option)"
      using none by (auto simp: refuse_hubspot_def elim!: and_then_InrE)
    then show ?thesis using valid_authentic False by (cases ok) (simp_all split: if_splits)
  qed
qed

section \<open>An accepted batch is recorded\<close>

text \<open>A message is in the inbox under its identifiers and its hydration was handed over, or the broker refused that job
  and it is left to the reconciliation; one without an identifier is kept under its fingerprint, with nothing to do.  Any
  other item is in the ledger under its fingerprint and its processing was handed over.\<close>

definition message_recorded :: "receiver \<Rightarrow> digests \<Rightarrow> payload \<Rightarrow> n8n \<Rightarrow> job list \<Rightarrow> bool" where
  "message_recorded hr dg p s js =
     (let portal = strip (if truthy_text p [''portalId'', ''portal_id''] = [] then n8_portal (hr_n8n hr) else truthy_text p [''portalId'', ''portal_id'']);
          thread = strip (truthy_text p [''threadId'', ''thread_id'', ''objectId'', ''conversationsThreadId'']);
          message = strip (truthy_text p [''messageId'', ''message_id'', ''id''])
      in if portal = [] \<or> thread = [] \<or> message = []
         then list_ex (\<lambda>e. we_key e = Some (dg_key dg (canonical_event_key ''hubspot'' ''conversation.newMessage'' p))) (nn_events s)
         else list_ex (\<lambda>e. we_key e = Some (message_key portal thread message) \<and>
                (Job_Hydrate (we_pk e) \<in> set js \<or> ie_broker (hr_env hr) (Job_Hydrate (we_pk e)) \<noteq> None)) (nn_events s))"

definition recorded :: "receiver \<Rightarrow> digests \<Rightarrow> payload \<Rightarrow> intake \<Rightarrow> job list \<Rightarrow> bool" where
  "recorded hr dg p s js \<longleftrightarrow>
     (if subscription_type p = J_Text ''conversation.newMessage'' then message_recorded hr dg p (ik_n8n s) js
      else list_ex (\<lambda>h. hk_key h = canonical_event_key ''hubspot'' (str_of (subscription_type p)) p \<and> Job_Process_Event (hk_pk h) \<in> set js)
             (ik_hooks s))"

definition keeps_rows :: "intake \<Rightarrow> intake \<Rightarrow> bool" where
  "keeps_rows s s' \<longleftrightarrow> set (ik_hooks s) \<subseteq> set (ik_hooks s') \<and> set (nn_events (ik_n8n s)) \<subseteq> set (nn_events (ik_n8n s'))"

lemma inserted_event:
  assumes "insert_event_if_absent e key s = (s', x, created)" and "we_key e = Some key"
  shows "x \<in> set (nn_events s') \<and> we_key x = Some key \<and> set (nn_events s) \<subseteq> set (nn_events s')"
  using assms by (auto simp: insert_event_if_absent_def dest: keyed_event_Some split: option.splits)

lemma envelope_recorded:
  assumes "record_hubspot_message_envelope cfg now q m = (m', g)"
    and "portal = strip (if ep_portal q = [] then n8_portal cfg else ep_portal q)" "thread = strip (ep_thread q)" "message = strip (ep_message q)"
  shows "set (nn_events m) \<subseteq> set (nn_events m')"
    "if portal = [] \<or> thread = [] \<or> message = [] then ig_ignored g \<and> (\<exists>e \<in> set (nn_events m'). we_key e = Some (ep_fingerprint q))
     else \<not> ig_ignored g \<and> (\<exists>e \<in> set (nn_events m'). we_key e = Some (message_key portal thread message) \<and> we_pk e = ig_event g)"
proof -
  note r = assms(1) [unfolded record_hubspot_message_envelope_def Let_def, folded assms(2-4)]
  have "set (nn_events m) \<subseteq> set (nn_events m') \<and>
    (if portal = [] \<or> thread = [] \<or> message = [] then ig_ignored g \<and> (\<exists>e \<in> set (nn_events m'). we_key e = Some (ep_fingerprint q))
     else \<not> ig_ignored g \<and> (\<exists>e \<in> set (nn_events m'). we_key e = Some (message_key portal thread message) \<and> we_pk e = ig_event g))"
  proof (cases "portal = [] \<or> thread = [] \<or> message = []")
    case True
    let ?e = "(new_event (nn_next_pk m) (ep_fingerprint q) portal thread message By_Webhook (ep_body q))
      \<lparr>we_status := Lg_Ignored, we_ignored := ''missing_canonical_identifier'', we_processed := True, we_processed_at := Some now\<rparr>"
    obtain m1 x created where i: "insert_event_if_absent ?e (ep_fingerprint q) m = (m1, x, created)" by (metis prod_cases3)
    have k: "we_key ?e = Some (ep_fingerprint q)" by (simp add: new_event_def)
    show ?thesis using r [unfolded if_P [OF True] i] inserted_event [OF i k] True by auto
  next
    case False
    obtain m1 x created where i: "insert_event_if_absent (new_event (nn_next_pk m) (message_key portal thread message) portal thread message By_Webhook (ep_body q))
        (message_key portal thread message) m = (m1, x, created)" by (metis prod_cases3)
    have k: "we_key (new_event (nn_next_pk m) (message_key portal thread message) portal thread message By_Webhook (ep_body q)) = Some (message_key portal thread message)"
      by (simp add: new_event_def)
    show ?thesis using r [unfolded if_not_P [OF False] i] inserted_event [OF i k] False by auto
  qed
  then show "set (nn_events m) \<subseteq> set (nn_events m')"
    "if portal = [] \<or> thread = [] \<or> message = [] then ig_ignored g \<and> (\<exists>e \<in> set (nn_events m'). we_key e = Some (ep_fingerprint q))
     else \<not> ig_ignored g \<and> (\<exists>e \<in> set (nn_events m'). we_key e = Some (message_key portal thread message) \<and> we_pk e = ig_event g)"
    by blast+
qed

lemma message_item_recorded:
  assumes "subscription_type p = J_Text ''conversation.newMessage''" and "receive_item hr dg p s = (s', js, err)"
  shows "message_recorded hr dg p (ik_n8n s') js \<and> ik_hooks s' = ik_hooks s \<and> set (nn_events (ik_n8n s)) \<subseteq> set (nn_events (ik_n8n s')) \<and> err = None"
proof -
  obtain m g where q: "record_hubspot_message_envelope (hr_n8n hr) (ie_now (hr_env hr)) (envelope_of dg p) (ik_n8n s) = (m, g)"
    by (metis prod.exhaust)
  define portal where "portal = strip (if truthy_text p [''portalId'', ''portal_id''] = [] then n8_portal (hr_n8n hr) else truthy_text p [''portalId'', ''portal_id''])"
  define thread where "thread = strip (truthy_text p [''threadId'', ''thread_id'', ''objectId'', ''conversationsThreadId''])"
  define message where "message = strip (truthy_text p [''messageId'', ''message_id'', ''id''])"
  define key where "key = dg_key dg (canonical_event_key ''hubspot'' ''conversation.newMessage'' p)"
  note e = envelope_recorded [OF q refl refl refl, unfolded envelope_of_def envelope.simps, folded portal_def thread_def message_def key_def]
  have s': "s' = s\<lparr>ik_n8n := m\<rparr>" "err = None"
    and js: "js = (if \<not> ig_ignored g \<and> ie_broker (hr_env hr) (Job_Hydrate (ig_event g)) = None then [Job_Hydrate (ig_event g)] else [])"
    using assms(2) q by (auto simp: assms(1) receive_item_def)
  have "message_recorded hr dg p m js"
  proof (cases "portal = [] \<or> thread = [] \<or> message = []")
    case True
    then have "\<exists>x \<in> set (nn_events m). we_key x = Some key" using e(2) by (simp split: if_splits)
    then show ?thesis using True
      unfolding message_recorded_def Let_def portal_def [symmetric] thread_def [symmetric] message_def [symmetric] key_def [symmetric] list_ex_iff by simp
  next
    case False
    then obtain x where x: "\<not> ig_ignored g" "x \<in> set (nn_events m)" "we_key x = Some (message_key portal thread message)" "we_pk x = ig_event g"
      using e(2) by auto
    then have "Job_Hydrate (we_pk x) \<in> set js \<or> ie_broker (hr_env hr) (Job_Hydrate (we_pk x)) \<noteq> None" by (cases "ie_broker (hr_env hr) (Job_Hydrate (ig_event g))") (simp_all add: js)
    then show ?thesis using False x(2,3)
      unfolding message_recorded_def Let_def portal_def [symmetric] thread_def [symmetric] message_def [symmetric] list_ex_iff by auto
  qed
  then show ?thesis using e(1) by (simp add: s')
qed

lemma record_present:
  assumes "distinct (map hk_key (ik_hooks s))" and "record_webhook_event source ty p s = (s', h)"
  shows "h \<in> set (ik_hooks s') \<and> hk_key h = canonical_event_key source ty p \<and> set (ik_hooks s) \<subseteq> set (ik_hooks s') \<and> distinct (map hk_key (ik_hooks s'))"
proof (rule hook_ledger.add_cases [OF assms(1), where q = "(source, ty, p)"])
  fix x
  assume "x \<in> set (ik_hooks s)" "hk_key x = (case (source, ty, p) of (source, ty, p) \<Rightarrow> canonical_event_key source ty p)"
    "(case (source, ty, p) of (source, ty, p) \<Rightarrow> record_webhook_event source ty p) s = (s, x)"
  then show ?thesis using assms by simp
next
  assume "hk_key (snd ((case (source, ty, p) of (source, ty, p) \<Rightarrow> record_webhook_event source ty p) s)) =
      (case (source, ty, p) of (source, ty, p) \<Rightarrow> canonical_event_key source ty p)"
    "ik_hooks (fst ((case (source, ty, p) of (source, ty, p) \<Rightarrow> record_webhook_event source ty p) s)) =
      ik_hooks s @ [snd ((case (source, ty, p) of (source, ty, p) \<Rightarrow> record_webhook_event source ty p) s)]"
  then show ?thesis using assms(2) hook_ledger.add_distinct [OF assms(1), of "(source, ty, p)"] by auto
qed

lemma record_keeps_inbox: "ik_n8n (fst (record_webhook_event source ty p s)) = ik_n8n s"
  by (simp add: record_webhook_event_def get_or_create_def split: option.split)

lemma receive_item_recorded:
  assumes "distinct (map hk_key (ik_hooks s))" and "receive_item hr dg p s = (s', js, None)"
  shows "recorded hr dg p s' js \<and> keeps_rows s s' \<and> distinct (map hk_key (ik_hooks s'))"
proof (cases "subscription_type p = J_Text ''conversation.newMessage''")
  case True
  note m = message_item_recorded [OF True assms(2)]
  then show ?thesis using True assms(1) by (simp add: recorded_def keeps_rows_def)
next
  case False
  obtain s1 h where r: "record_webhook_event ''hubspot'' (str_of (subscription_type p)) p s = (s1, h)" by (metis prod.exhaust)
  have e: "s' = s1" "js = [Job_Process_Event (hk_pk h)]"
    using assms(2) False r by (auto simp: receive_item_def split: if_splits option.splits)
  have "ik_n8n s1 = ik_n8n s" using record_keeps_inbox [of "''hubspot''" "str_of (subscription_type p)" p s] r by simp
  then show ?thesis using record_present [OF assms(1) r] False by (auto simp: recorded_def keeps_rows_def list_ex_iff e)
qed

lemma message_recorded_mono:
  "message_recorded hr dg p s js \<Longrightarrow> set (nn_events s) \<subseteq> set (nn_events s') \<Longrightarrow> set js \<subseteq> set js' \<Longrightarrow> message_recorded hr dg p s' js'"
  unfolding message_recorded_def Let_def list_ex_iff by (simp split: if_splits) blast+

lemma recorded_mono: "recorded hr dg p s js \<Longrightarrow> keeps_rows s s' \<Longrightarrow> set js \<subseteq> set js' \<Longrightarrow> recorded hr dg p s' js'"
  using message_recorded_mono [of hr dg p "ik_n8n s" js "ik_n8n s'" js']
  unfolding recorded_def keeps_rows_def list_ex_iff by (simp split: if_splits) blast

lemma receive_items_recorded:
  assumes "distinct (map hk_key (ik_hooks s))" and "receive_items hr dg ps s = (s', js, None)"
  shows "(\<forall>p \<in> set ps. recorded hr dg p s' js) \<and> keeps_rows s s' \<and> distinct (map hk_key (ik_hooks s'))"
  using assms
proof (induction ps arbitrary: s js)
  case (Cons p ps)
  obtain s1 js1 err1 where 1: "receive_item hr dg p s = (s1, js1, err1)" by (metis prod_cases3)
  obtain js2 where e: "err1 = None" and 2: "receive_items hr dg ps s1 = (s', js2, None)" and js: "js = js1 @ js2"
    using Cons.prems(2) 1 by (auto split: option.splits prod.splits)
  note r1 = receive_item_recorded [OF Cons.prems(1) 1 [unfolded e]]
  have r2: "(\<forall>q \<in> set ps. recorded hr dg q s' js2) \<and> keeps_rows s1 s' \<and> distinct (map hk_key (ik_hooks s'))"
    by (rule Cons.IH [OF _ 2]) (use r1 in blast)
  then have "recorded hr dg p s' js" using r1 recorded_mono [of hr dg p s1 js1 s' js] js by simp
  moreover have "recorded hr dg q s' js" if "q \<in> set ps" for q
    using r2 that recorded_mono [of hr dg q s' js2 s' js] js by (simp add: keeps_rows_def)
  ultimately show ?case using r1 r2 by (auto simp: keeps_rows_def)
qed (simp add: keeps_rows_def)

text \<open>C20: an accepted batch is recorded and handed over.  The answer counts its items.  Every message of it is in the
  inbox under its portal, thread and message, and its hydration was handed over unless the broker refused that job (a
  message without an identifier is kept under its fingerprint); for every other item the ledger has the event with its
  fingerprint and the processing of that event was handed over.  What was in the inbox and in the ledger stays there.\<close>

theorem accepted_batch_recorded:
  assumes "receive_hubspot_webhook hr dg r ps secret s = (s', js, Inr (Http_Accepted n))" and "distinct (map hk_key (ik_hooks s))"
  shows "n = length ps \<and> (\<forall>p \<in> set ps. recorded hr dg p s' js) \<and> keeps_rows s s' \<and> distinct (map hk_key (ik_hooks s'))"
proof -
  have "receive_items hr dg ps s = (s', js, None)" "n = length ps"
    using assms(1) by (auto simp: receive_hubspot_webhook_def split: sum.splits option.splits prod.splits)
  then show ?thesis using receive_items_recorded [OF assms(2)] by blast
qed

section \<open>What goes wrong\<close>

text \<open>A signature header with a character beyond ASCII makes the comparison raise: the request ends in a server error
  instead of the answer for a wrong signature.\<close>

lemma non_ascii_signature_raises:
  assumes "hq_signature_v1 r \<noteq> []" and "\<not> is_ascii (hq_signature_v1 r)" and "secret \<noteq> []"
  shows "receive_hubspot_webhook hr dg r ps secret s = (s, [], Inl TypeError)"
  using assms by (simp add: receive_hubspot_webhook_def refuse_hubspot_def is_valid_hubspot_request_def verify_v1_def compare_digest_def)

text \<open>A dead letter outlives the success of its event: a redelivery that is processed leaves it.\<close>

lemma dead_letter_outlives_success:
  assumes "process_webhook_event e k s = (s', True)" and "k \<in> fst ` set (ik_dead s)" and "hook_row k s = Some h" and "\<not> hk_processed h"
  shows "k \<in> fst ` set (ik_dead s') \<and> (\<exists>h'. hook_row k s' = Some h' \<and> hk_processed h')"
  using assms(1,3,4) by (cases rule: process_cases) (use assms(2) in \<open>simp_all add: done_hook_def\<close>)

section \<open>Witnesses\<close>

definition demo_entry :: payload where
  "demo_entry = [(''subscriptionType'', J_Text ''ticket.propertyChange''), (''eventId'', J_Int 5), (''objectId'', J_Int 42),
     (''propertyName'', J_Text ''hs_v2_date_entered_N''), (''propertyValue'', J_Text ''1700000000000''), (''occurredAt'', J_Int 1700000000000)]"

definition demo_intake_env :: "bool \<Rightarrow> intake_env" where
  "demo_intake_env up = \<lparr>ie_cfg = demo_cfg, ie_schema_ready = True, ie_broker = (\<lambda>j. if up then None else Some ConnectionError),
     ie_text = (\<lambda>_. ''down''), ie_now = 1700000001000000\<rparr>"

definition demo_intake :: intake where
  "demo_intake = fst (record_webhook_event ''hubspot'' ''ticket.propertyChange'' demo_entry fresh_intake)"

definition demo_hook :: hook where
  "demo_hook = new_hook 0 ''hubspot'' ''ticket.propertyChange'' demo_entry"

lemma demo_hook_row: "hook_row 0 demo_intake = Some demo_hook" "\<not> hk_processed demo_hook" "hk_retries demo_hook = 0"
  by code_simp+

theorem webhook_task_ends_witness:
  "case process_task (replicate 3 (demo_intake_env False)) 0 0 demo_intake of
     (s', r) \<Rightarrow> (r = Ended False \<and> ik_dead s' \<noteq> []) \<or> r = Ended True"
proof -
  have l: "0 \<le> hk_retries demo_hook" "0 + length (replicate 3 (demo_intake_env False)) = max_retries" "replicate 3 (demo_intake_env False) \<noteq> []"
    by (simp_all add: max_retries_def)
  show ?thesis using webhook_task_ends [OF demo_hook_row(1,2) l] by (elim exE conjE) auto
qed

text \<open>Workers of a process that found no lifecycle tables.\<close>

definition bare_env :: "bool \<Rightarrow> intake_env" where
  "bare_env up = (demo_intake_env up)\<lparr>ie_schema_ready := False\<rparr>"

definition demo_crew_ops :: "crew_op list" where
  "demo_crew_ops = [Deliver ''hubspot'' ''ticket.propertyChange'' demo_entry, Read_Event 0 0, Run_Effects (bare_env False) 0,
     Deliver ''hubspot'' ''ticket.propertyChange'' ((''attemptNumber'', J_Int 1) # demo_entry), Save_Event (bare_env False) 0,
     Read_Event 1 0, Run_Effects (bare_env True) 1, Save_Event (bare_env True) 1, Read_Event 0 0, Run_Effects (bare_env True) 0]"

lemma demo_crew_serial: "one_at_a_time demo_crew_ops fresh_crew"
  by code_simp

theorem intake_hands_over_once_witness:
  "let s = cw_intake (fold crew_step demo_crew_ops fresh_crew)
   in distinct (map fst (ik_sent s)) \<and> distinct (map hk_key (ik_hooks s)) \<and> distinct (map fst (ik_dead s))"
  using intake_hands_over_once [OF refl refl, of demo_crew_ops] demo_crew_serial unfolding Let_def by blast

text \<open>Nothing keeps two executions of an event apart: every delivery enqueues the processing again, and the execution
  reads whether the event is processed without a lock, so that two of them hand its job over twice.\<close>

lemma overlapping_executions_hand_over_twice:
  "map fst (ik_sent (cw_intake (fold crew_step [Deliver ''hubspot'' ''ticket.propertyChange'' demo_entry, Read_Event 0 0, Read_Event 1 0,
     Run_Effects (bare_env True) 0, Run_Effects (bare_env True) 1, Save_Event (bare_env True) 0,
     Save_Event (bare_env True) 1] fresh_crew))) = [0, 0]"
  by code_simp

theorem stage_entry_handed_over_witness:
  "\<exists>s'. process_webhook_event (demo_intake_env True) 0 demo_intake = (s', True) \<and>
     ik_sent s' = [(0, Job_Assign_Single ''42'' (J_Text ''1700000000000'') ''5'')]"
proof -
  have t: "hk_type demo_hook = ''ticket.propertyChange''" "hk_key demo_hook = canonical_event_key ''hubspot'' (hk_type demo_hook) (hk_payload demo_hook)"
    "map_of (hk_payload demo_hook) ''propertyName'' = Some (J_Text (prop_stage_novo (ie_cfg (demo_intake_env True))))"
    "str_of (value_or_empty (hk_payload demo_hook) ''objectId'') = ''42''" "''42'' \<noteq> []"
    "upper (as_text (first_truthy (hk_payload demo_hook) [''direction'', ''messageDirection''])) \<in> {[], ''INCOMING''}"
    "may_ingest_queue (ie_cfg (demo_intake_env True))" by code_simp+
  have b: "\<forall>j. ie_broker (demo_intake_env True) j = None" by (simp add: demo_intake_env_def)
  have c: "ik_conv demo_intake = empty_conv"
    by (simp add: demo_intake_def record_webhook_event_def fresh_intake_def get_or_create_def)
  have e: "consistent (ik_conv demo_intake)" "distinct (map ev_pk (cv_events (ik_conv demo_intake)))"
    "\<forall>x \<in> set (cv_events (ik_conv demo_intake)). ev_key x = hk_key demo_hook \<longrightarrow> ev_status x \<in> {Ev_Pending, Ev_Failed}"
    using empty_consistent by (simp_all add: c) (simp_all add: empty_conv_def)
  have v: "value_or_empty (hk_payload demo_hook) ''propertyValue'' = J_Text ''1700000000000''"
    "(if hk_event demo_hook \<noteq> [] then hk_event demo_hook else nat_text 0) = ''5''" "ik_sent demo_intake = []" by code_simp+
  show ?thesis using stage_entry_handed_over [OF demo_hook_row(1,2) t b e] unfolding v by auto
qed

definition demo_digests :: digests where
  "demo_digests = \<lparr>dg_sha256 = (\<lambda>s. ''d'' @ s), dg_hmac = (\<lambda>k m. k @ m), dg_hmac_hex = (\<lambda>k m. k @ m), dg_key = (\<lambda>_. ''k''), dg_json = (\<lambda>_. ''j'')\<rparr>"

definition demo_receiver :: receiver where
  "demo_receiver = \<lparr>hr_env = demo_intake_env True, hr_n8n = demo_n8n_cfg, hr_debug = False, hr_max_body = 100, hr_max_batch = 10,
     hr_now_ms = 1700000000000\<rparr>"

definition demo_request :: request where
  "demo_request = \<lparr>hq_verb = ''post'', hq_uri = ''https%3A//x'', hq_body = ''b'', hq_signature_v1 = [],
     hq_signature_v3 = ''kPOSThttps://xb1699999999999'', hq_timestamp = ''1699999999999'', hq_hub_signature = []\<rparr>"

lemma demo_received:
  "case receive_hubspot_webhook demo_receiver demo_digests demo_request [demo_entry] ''k'' fresh_intake of
     (s', js, Inr (Http_Accepted n)) \<Rightarrow> js = [Job_Process_Event 0] | _ \<Rightarrow> False"
  by code_simp

lemma demo_receivedE:
  obtains s' n where "receive_hubspot_webhook demo_receiver demo_digests demo_request [demo_entry] ''k'' fresh_intake =
    (s', [Job_Process_Event 0], Inr (Http_Accepted n))"
proof -
  obtain s' js answer where r: "receive_hubspot_webhook demo_receiver demo_digests demo_request [demo_entry] ''k'' fresh_intake = (s', js, answer)"
    by (metis prod_cases3)
  obtain n where "js = [Job_Process_Event 0]" "answer = Inr (Http_Accepted n)"
    using demo_received unfolding r by (cases answer) (simp_all split: http_answer.splits)
  then show thesis using that r by simp
qed

theorem only_authentic_recorded_witness:
  "authentic demo_digests 1700000000000 demo_request ''k''"
proof -
  obtain s' n where r: "receive_hubspot_webhook demo_receiver demo_digests demo_request [demo_entry] ''k'' fresh_intake =
    (s', [Job_Process_Event 0], Inr (Http_Accepted n))" by (rule demo_receivedE)
  have w: "s' \<noteq> fresh_intake \<or> [Job_Process_Event 0] \<noteq> [] \<or> (\<exists>m. Inr (Http_Accepted n) = (Inr (Http_Accepted m) :: http_answer result))" by simp
  show ?thesis using only_authentic_recorded [OF r w] by (simp add: demo_receiver_def)
qed

definition demo_message_item :: payload where
  "demo_message_item = [(''subscriptionType'', J_Text ''conversation.newMessage''), (''objectId'', J_Int 7), (''messageId'', J_Text ''m1'')]"

lemma demo_batch_received:
  "case receive_hubspot_webhook demo_receiver demo_digests demo_request [demo_entry, demo_message_item] ''k'' fresh_intake of
     (s', js, Inr (Http_Accepted n)) \<Rightarrow> js = [Job_Process_Event 0, Job_Hydrate 0] | _ \<Rightarrow> False"
  by code_simp

theorem accepted_batch_recorded_witness:
  "\<exists>s'. fst (receive_hubspot_webhook demo_receiver demo_digests demo_request [demo_entry, demo_message_item] ''k'' fresh_intake) = s' \<and>
     recorded demo_receiver demo_digests demo_message_item s' [Job_Process_Event 0, Job_Hydrate 0]"
proof -
  obtain s' js answer where r: "receive_hubspot_webhook demo_receiver demo_digests demo_request [demo_entry, demo_message_item] ''k'' fresh_intake = (s', js, answer)"
    by (metis prod_cases3)
  obtain n where a: "js = [Job_Process_Event 0, Job_Hydrate 0]" "answer = Inr (Http_Accepted n)"
    using demo_batch_received unfolding r by (cases answer) (simp_all split: http_answer.splits)
  have d: "distinct (map hk_key (ik_hooks fresh_intake))" by (simp add: fresh_intake_def)
  show ?thesis using accepted_batch_recorded [OF r [unfolded a] d] by (simp add: r a)
qed

end
