(* ===== verification/Thread_Reconciliation.thy ===== *)
theory Thread_Reconciliation
  imports N8n_Inbound
begin

text \<open>
  The periodic reconciliation of HubSpot threads, \<open>apps/webhooks/reconciliation.py\<close>: the cursors of the active
  conversations, their claims, and the run that lists a thread and ingests what the cursor has not passed.  The
  answers of HubSpot are arguments; a page is its messages and whether it names a next page.  A message carries
  the text of its creation time, by which the listing is sorted, beside the parsed time.
\<close>

section \<open>Cursors\<close>

record cursor =
  kc_pk :: uuid
  kc_instance :: uuid
  kc_thread :: string
  kc_message :: string
  kc_created_at :: "instant option"
  kc_reconciled_at :: "instant option"
  kc_error :: string
  kc_next :: "instant option"
  kc_locked :: "instant option"

record recon =
  rk_cursors :: "cursor list"
  rk_instances :: "conversation list"
  rk_n8n :: n8n
  rk_next_pk :: uuid

definition finished_states :: "conversation_state list" where
  "finished_states = [St_Resolved_By_Ai, St_Resolved_By_Human, St_Closed, St_Failed_Terminal, St_Ignored]"

definition cursor_row :: "uuid \<Rightarrow> recon \<Rightarrow> cursor option" where
  "cursor_row k s = get_row kc_pk k (rk_cursors s)"

definition put_cursor :: "cursor \<Rightarrow> recon \<Rightarrow> recon" where
  "put_cursor c s = s\<lparr>rk_cursors := save_row kc_pk c (rk_cursors s)\<rparr>"

text \<open>PostgreSQL sorts missing times last.\<close>

definition active_threads :: "nat \<Rightarrow> recon \<Rightarrow> conversation list" where
  "active_threads limit s = take limit (sort_key (\<lambda>i. (cn_activity_at i = None, cn_activity_at i, cn_created_at i))
     (filter (\<lambda>i. cn_state i \<notin> set finished_states \<and> opt_truthy (cn_thread i)) (rk_instances s)))"

definition new_cursor :: "uuid \<Rightarrow> conversation \<Rightarrow> cursor" where
  "new_cursor k i = \<lparr>kc_pk = k, kc_instance = cn_pk i, kc_thread = opt_text (cn_thread i), kc_message = [], kc_created_at = None,
     kc_reconciled_at = None, kc_error = [], kc_next = None, kc_locked = None\<rparr>"

text \<open>The cursor of the conversation, a new one, or the one that already follows the thread.\<close>

definition ensure_cursor :: "conversation \<Rightarrow> recon \<Rightarrow> recon \<times> uuid" where
  "ensure_cursor i s =
     (case first_row (\<lambda>c. kc_instance c = cn_pk i) (rk_cursors s) of
        Some c \<Rightarrow> (s, kc_pk c)
      | None \<Rightarrow>
          (case first_row (\<lambda>c. kc_thread c = opt_text (cn_thread i)) (rk_cursors s) of
             Some c \<Rightarrow> (s, kc_pk c)
           | None \<Rightarrow> (s\<lparr>rk_cursors := rk_cursors s @ [new_cursor (rk_next_pk s) i], rk_next_pk := Suc (rk_next_pk s)\<rparr>, rk_next_pk s)))"

fun ensure_each :: "conversation list \<Rightarrow> recon \<Rightarrow> recon \<times> uuid list" where
  "ensure_each [] s = (s, [])"
| "ensure_each (i # is) s = (case ensure_cursor i s of (s1, k) \<Rightarrow> (case ensure_each is s1 of (s2, ks) \<Rightarrow> (s2, k # ks)))"

definition ensure_active_reconciliation_cursors :: "nat \<Rightarrow> recon \<Rightarrow> recon \<times> uuid list" where
  "ensure_active_reconciliation_cursors limit s = ensure_each (active_threads limit s) s"

definition claimable_cursor :: "n8n_settings \<Rightarrow> instant \<Rightarrow> cursor \<Rightarrow> bool" where
  "claimable_cursor cfg now c \<longleftrightarrow> (case kc_locked c of None \<Rightarrow> True | Some t \<Rightarrow> t \<le> now - n8_stale cfg) \<and>
     (case kc_next c of None \<Rightarrow> True | Some t \<Rightarrow> t \<le> now)"

definition claim_cursor :: "n8n_settings \<Rightarrow> instant \<Rightarrow> uuid \<Rightarrow> recon \<Rightarrow> recon \<times> string option" where
  "claim_cursor cfg now k s =
     (case cursor_row k s of
        None \<Rightarrow> (s, None)
      | Some c \<Rightarrow> (if claimable_cursor cfg now c then (put_cursor (c\<lparr>kc_locked := Some now\<rparr>) s, Some (kc_thread c)) else (s, None)))"

text \<open>The position moves to a message that is not older.\<close>

definition advance :: "hub_message \<Rightarrow> cursor \<Rightarrow> cursor" where
  "advance m c =
     (if (case (kc_created_at c, mg_created m) of
            (None, _) \<Rightarrow> True
          | (Some t, None) \<Rightarrow> False
          | (Some t, Some u) \<Rightarrow> t < u \<or> (t = u \<and> kc_message c \<le> mg_id m))
      then c\<lparr>kc_created_at := mg_created m, kc_message := mg_id m\<rparr> else c)"

definition succeeded :: "instant \<Rightarrow> cursor \<Rightarrow> cursor" where
  "succeeded now c = c\<lparr>kc_reconciled_at := Some now, kc_error := [], kc_next := None, kc_locked := None\<rparr>"

definition record_cursor_success :: "instant \<Rightarrow> uuid \<Rightarrow> hub_message option \<Rightarrow> recon \<Rightarrow> recon result" where
  "record_cursor_success now k m s =
     (case cursor_row k s of
        None \<Rightarrow> Inl DoesNotExist
      | Some c \<Rightarrow> Inr (put_cursor (succeeded now (case m of None \<Rightarrow> c | Some x \<Rightarrow> advance x c)) s))"

definition record_cursor_failure :: "n8n_settings \<Rightarrow> instant \<Rightarrow> uuid \<Rightarrow> string \<Rightarrow> recon \<Rightarrow> recon" where
  "record_cursor_failure cfg now k why s = s\<lparr>rk_cursors := update_rows (\<lambda>c. kc_pk c = k)
     (\<lambda>c. c\<lparr>kc_error := take 2000 why, kc_next := Some (now + n8_interval cfg), kc_locked := None\<rparr>) (rk_cursors s)\<rparr>"

section \<open>A run\<close>

record listed =
  lm_created :: string
  lm_message :: hub_message
  lm_body :: string

text \<open>The answers to the page requests: the pages that name a next one, and the last answer.\<close>

type_synonym listing = "listed list list \<times> listed list result"

fun list_messages :: "listing \<Rightarrow> listed list result" where
  "list_messages (pages, Inl err) = Inl err"
| "list_messages (pages, Inr last_page) = Inr (concat pages @ last_page)"

definition cutoff_of :: "n8n_settings \<Rightarrow> cursor \<Rightarrow> instant option" where
  "cutoff_of cfg c = map_option (\<lambda>t. t - n8_lookback cfg) (kc_created_at c)"

definition passed :: "instant option \<Rightarrow> hub_message \<Rightarrow> bool" where
  "passed cutoff m \<longleftrightarrow> (case (cutoff, mg_created m) of (Some t, Some u) \<Rightarrow> u < t | _ \<Rightarrow> False)"

definition touch_conversation :: "uuid \<Rightarrow> hub_message \<Rightarrow> recon \<Rightarrow> recon" where
  "touch_conversation k m s =
     (case mg_created m of
        None \<Rightarrow> s
      | Some t \<Rightarrow> s\<lparr>rk_instances := update_rows (\<lambda>i. cn_pk i = k \<and> (case cn_activity_at i of None \<Rightarrow> True | Some u \<Rightarrow> u < t))
          (\<lambda>i. i\<lparr>cn_activity_at := Some t, cn_last_message := mg_id m\<rparr>) (rk_instances s)\<rparr>)"

text \<open>The loop: the state, the messages ingested, and the exception that ended it.\<close>

fun reconcile_messages ::
  "n8n_settings \<Rightarrow> instant \<Rightarrow> string \<Rightarrow> hub_thread \<Rightarrow> uuid \<Rightarrow> uuid \<Rightarrow> instant option \<Rightarrow> listed list \<Rightarrow> recon \<Rightarrow> recon \<times> nat \<times> py_error option" where
  "reconcile_messages cfg now portal th k i cutoff [] s = (s, 0, None)"
| "reconcile_messages cfg now portal th k i cutoff (x # xs) s =
     (if passed cutoff (lm_message x) then reconcile_messages cfg now portal th k i cutoff xs s
      else case ingest_hubspot_message cfg now portal th (lm_message x) By_Reconciliation (lm_body x) None (rk_n8n s) of
             Inl err \<Rightarrow> (s, 0, Some err)
           | Inr (n, g) \<Rightarrow>
               (case record_cursor_success now k (Some (lm_message x)) (s\<lparr>rk_n8n := n\<rparr>) of
                  Inl err \<Rightarrow> (s\<lparr>rk_n8n := n\<rparr>, 0, Some err)
                | Inr s1 \<Rightarrow>
                    (case reconcile_messages cfg now portal th k i cutoff xs (touch_conversation i (lm_message x) s1) of
                       (s2, count, err) \<Rightarrow> (s2, Suc count, err))))"

definition thread_closed :: "hub_thread \<Rightarrow> bool" where
  "thread_closed th \<longleftrightarrow> td_spam th \<or> upper (td_status th) = ''CLOSED''"

definition in_listing_order :: "listed list \<Rightarrow> listed list" where
  "in_listing_order = sort_key (\<lambda>x. (lm_created x, mg_id (lm_message x)))"

text \<open>The claimed run, up to the exception that ends it.\<close>

definition run_cursor ::
  "n8n_settings \<Rightarrow> instant \<Rightarrow> string \<Rightarrow> cursor \<Rightarrow> hub_thread result \<Rightarrow> listing \<Rightarrow> recon \<Rightarrow> recon \<times> nat \<times> py_error option" where
  "run_cursor cfg now portal c th ms s =
     (case th of
        Inl err \<Rightarrow> (s, 0, Some err)
      | Inr t \<Rightarrow>
          (if thread_closed t
           then (case record_cursor_success now (kc_pk c) None s of Inl err \<Rightarrow> (s, 0, Some err) | Inr s1 \<Rightarrow> (s1, 0, None))
           else case list_messages ms of
                  Inl err \<Rightarrow> (s, 0, Some err)
                | Inr xs \<Rightarrow>
                    (case reconcile_messages cfg now portal t (kc_pk c) (kc_instance c) (cutoff_of cfg c) (in_listing_order xs) s of
                       (s1, n, Some err) \<Rightarrow> (s1, n, Some err)
                     | (s1, n, None) \<Rightarrow>
                         (case record_cursor_success now (kc_pk c) None s1 of Inl err \<Rightarrow> (s1, n, Some err) | Inr s2 \<Rightarrow> (s2, n, None)))))"

definition reconcile_cursor ::
  "n8n_settings \<Rightarrow> (py_error \<Rightarrow> string) \<Rightarrow> instant \<Rightarrow> hub_thread result \<Rightarrow> listing \<Rightarrow> uuid \<Rightarrow> recon \<Rightarrow> recon \<times> nat result" where
  "reconcile_cursor cfg name now th ms k s =
     (case claim_cursor cfg now k s of
        (s1, None) \<Rightarrow> (s1, Inr 0)
      | (s1, Some _) \<Rightarrow>
          (case cursor_row k s1 of
             None \<Rightarrow> (s1, Inl DoesNotExist)
           | Some c \<Rightarrow>
               (if strip (n8_portal cfg) = [] then (record_cursor_failure cfg now k (name RuntimeError) s1, Inl RuntimeError)
                else case run_cursor cfg now (strip (n8_portal cfg)) c th ms s1 of
                       (s2, n, None) \<Rightarrow> (s2, Inr n)
                     | (s2, n, Some err) \<Rightarrow> (record_cursor_failure cfg now k (name err) s2, Inl err))))"

text \<open>A pass over the active threads; a failing thread does not stop it.  The last argument answers for a cursor.\<close>

fun reconcile_each ::
  "n8n_settings \<Rightarrow> (py_error \<Rightarrow> string) \<Rightarrow> instant \<Rightarrow> (uuid \<Rightarrow> hub_thread result \<times> listing) \<Rightarrow> uuid list \<Rightarrow> recon \<Rightarrow> recon \<times> nat" where
  "reconcile_each cfg name now answers [] s = (s, 0)"
| "reconcile_each cfg name now answers (k # ks) s =
     (case reconcile_cursor cfg name now (fst (answers k)) (snd (answers k)) k s of
        (s1, r) \<Rightarrow> (case reconcile_each cfg name now answers ks s1 of (s2, n) \<Rightarrow> (s2, (case r of Inl _ \<Rightarrow> n | Inr m \<Rightarrow> m + n))))"

definition reconcile_active_threads ::
  "n8n_settings \<Rightarrow> (py_error \<Rightarrow> string) \<Rightarrow> instant \<Rightarrow> (uuid \<Rightarrow> hub_thread result \<times> listing) \<Rightarrow> recon \<Rightarrow> recon \<times> nat" where
  "reconcile_active_threads cfg name now answers s =
     (if n8_reconcile_enabled cfg
      then (case ensure_active_reconciliation_cursors (n8_reconcile_batch cfg) s of (s1, ks) \<Rightarrow> reconcile_each cfg name now answers ks s1)
      else (s, 0))"

section \<open>No message is lost\<close>

text \<open>The messages of the listing come in the order of their parsed times.\<close>

definition not_later :: "listed \<Rightarrow> listed \<Rightarrow> bool" where
  "not_later x y \<longleftrightarrow> (case (mg_created (lm_message x), mg_created (lm_message y)) of (Some t, Some u) \<Rightarrow> t \<le> u | _ \<Rightarrow> True)"

text \<open>The ledger holds the settled event of a message.\<close>

definition message_settled :: "string \<Rightarrow> hub_thread \<Rightarrow> n8n \<Rightarrow> listed \<Rightarrow> bool" where
  "message_settled portal th s x \<longleftrightarrow> (\<exists>e \<in> set (nn_events s). settled e \<and>
     we_key e = Some (message_key portal (strip (if td_id th = [] then mg_thread (lm_message x) else td_id th)) (strip (mg_id (lm_message x)))))"

lemma message_settled_extends: "message_settled portal th s x \<Longrightarrow> extends_inbox s s' \<Longrightarrow> message_settled portal th s' x"
  unfolding message_settled_def extends_inbox_def by (metis (no_types, lifting))

lemma ingested_message_settled:
  assumes ok: "inbox_ok s" and i: "ingest_hubspot_message cfg now portal th (lm_message x) how body None s = Inr (s', r)"
  shows "message_settled portal th s' x"
proof -
  let ?m = "lm_message x"
  let ?thread = "strip (if td_id th = [] then mg_thread ?m else td_id th)"
  let ?message = "strip (mg_id ?m)"
  let ?key = "message_key portal ?thread ?message"
  have ids: "portal \<noteq> []" "?thread \<noteq> []" "?message \<noteq> []" using i by (auto simp: ingest_hubspot_message_def Let_def split: if_splits)
  obtain s1 e created where "insert_event_if_absent (new_event (nn_next_pk s) ?key portal ?thread ?message how body) ?key s = (s1, e, created)"
    by (metis prod_cases3)
  then have l: "locked_event ?key portal ?thread ?message how body None s = Inr (s1, e, created)" by (simp add: locked_event_def)
  note lk = locked_event_ok [OF ok l]
  note eff = ingest_effect [OF ok ids(1) refl ids(2) refl ids(3) refl l, of cfg now]
  show ?thesis
  proof (cases "settled e")
    case True
    then have "s' = s1" using eff i by simp
    then show ?thesis using True lk(2,3) by (auto simp: message_settled_def)
  next
    case False
    let ?e = "observed_event cfg now ?m th e"
    have "nn_events s' = nn_events (put_event ?e s1)" using eff i False by auto
    then have "?e \<in> set (nn_events s')" using put_event_in [OF lk(2), of ?e] by (simp add: observed_event_def)
    moreover have "we_key ?e = Some ?key" "settled ?e" using lk(3) by (auto simp: settled_def observed_event_def)
    ultimately show ?thesis unfolding message_settled_def by blast
  qed
qed

lemma cursor_row_frame [simp]:
  "cursor_row k (touch_conversation i m s) = cursor_row k s" "rk_n8n (touch_conversation i m s) = rk_n8n s"
  "cursor_row k (rk_n8n_update f s) = cursor_row k s"
  by (simp_all add: touch_conversation_def cursor_row_def split: option.split)

lemma success_row:
  assumes "cursor_row k s = Some c"
  shows "\<exists>s'. record_cursor_success now k m s = Inr s' \<and> rk_n8n s' = rk_n8n s \<and> rk_instances s' = rk_instances s \<and>
    cursor_row k s' = Some (succeeded now (case m of None \<Rightarrow> c | Some x \<Rightarrow> advance x c))"
proof -
  have "kc_pk c = k" using assms get_row_key [of kc_pk k _ c] by (simp add: cursor_row_def)
  then show ?thesis using assms
    by (auto simp: record_cursor_success_def put_cursor_def cursor_row_def get_row_save_row succeeded_def advance_def split: option.split)
qed

lemma advance_keeps_due:
  assumes "not_later y x" and "passed cutoff (lm_message y) = False" and "0 \<le> n8_lookback cfg"
    and "passed (cutoff_of cfg c) (lm_message x) \<Longrightarrow> passed cutoff (lm_message x)"
  shows "passed (cutoff_of cfg (succeeded now (advance (lm_message y) c))) (lm_message x) \<Longrightarrow> passed cutoff (lm_message x)"
  using assms by (auto simp: passed_def cutoff_of_def advance_def succeeded_def not_later_def split: option.splits if_splits)

text \<open>What a run leaves: the part of the listing it has seen is old or in the ledger, and the rest stays due.\<close>

definition run_outcome ::
  "n8n_settings \<Rightarrow> string \<Rightarrow> hub_thread \<Rightarrow> uuid \<Rightarrow> instant option \<Rightarrow> listed list \<Rightarrow> recon \<Rightarrow> py_error option \<Rightarrow> bool" where
  "run_outcome cfg portal th k cutoff xs s1 err \<longleftrightarrow>
     (\<exists>seen rest c1. xs = seen @ rest \<and> (err = None \<longleftrightarrow> rest = []) \<and> cursor_row k s1 = Some c1 \<and>
        (\<forall>x \<in> set seen. passed cutoff (lm_message x) \<or> message_settled portal th (rk_n8n s1) x) \<and>
        (rest \<noteq> [] \<longrightarrow> \<not> passed cutoff (lm_message (hd rest))) \<and>
        (\<forall>x \<in> set rest. passed (cutoff_of cfg c1) (lm_message x) \<longrightarrow> passed cutoff (lm_message x)))"

lemma messages_not_lost:
  assumes "reconcile_messages cfg now portal th k i cutoff xs s = (s1, n, err)" and "cursor_row k s = Some c"
    and "inbox_ok (rk_n8n s)" and "sorted_wrt not_later xs" and "0 \<le> n8_lookback cfg"
    and "\<And>x. x \<in> set xs \<Longrightarrow> passed (cutoff_of cfg c) (lm_message x) \<Longrightarrow> passed cutoff (lm_message x)"
  shows "run_outcome cfg portal th k cutoff xs s1 err \<and> inbox_ok (rk_n8n s1) \<and> extends_inbox (rk_n8n s) (rk_n8n s1)"
  using assms
proof (induction xs arbitrary: s c s1 n)
  case Nil
  then show ?case by (auto simp: run_outcome_def)
next
  case (Cons x xs)
  have later: "sorted_wrt not_later xs" "\<And>y. y \<in> set xs \<Longrightarrow> not_later x y" using Cons.prems(4) by simp_all
  show ?case
  proof (cases "passed cutoff (lm_message x)")
    case True
    have "reconcile_messages cfg now portal th k i cutoff xs s = (s1, n, err)" using Cons.prems(1) True by simp
    from Cons.IH [OF this Cons.prems(2,3) later(1) Cons.prems(5) Cons.prems(6)] obtain seen rest c1 where r:
        "xs = seen @ rest" "err = None \<longleftrightarrow> rest = []" "cursor_row k s1 = Some c1"
        "\<forall>x \<in> set seen. passed cutoff (lm_message x) \<or> message_settled portal th (rk_n8n s1) x"
        "rest \<noteq> [] \<longrightarrow> \<not> passed cutoff (lm_message (hd rest))"
        "\<forall>x \<in> set rest. passed (cutoff_of cfg c1) (lm_message x) \<longrightarrow> passed cutoff (lm_message x)"
        "inbox_ok (rk_n8n s1)" "extends_inbox (rk_n8n s) (rk_n8n s1)"
      unfolding run_outcome_def by (metis list.set_intros(2))
    have "run_outcome cfg portal th k cutoff (x # xs) s1 err" unfolding run_outcome_def
      using r True by (intro exI [of _ "x # seen"] exI [of _ rest] exI [of _ c1]) auto
    then show ?thesis using r(7,8) by blast
  next
    case due: False
    show ?thesis
    proof (cases "ingest_hubspot_message cfg now portal th (lm_message x) By_Reconciliation (lm_body x) None (rk_n8n s)")
      case (Inl e)
      then have "s1 = s" "err = Some e" using Cons.prems(1) due by simp_all
      moreover have "run_outcome cfg portal th k cutoff (x # xs) s (Some e)" unfolding run_outcome_def
        using due Cons.prems(2,6) by (intro exI [of _ "[]"] exI [of _ "x # xs"] exI [of _ c]) simp
      ultimately show ?thesis using Cons.prems(3) by simp
    next
      case (Inr p)
      then obtain q g where p: "ingest_hubspot_message cfg now portal th (lm_message x) By_Reconciliation (lm_body x) None (rk_n8n s) = Inr (q, g)"
        by (cases p) simp
      note q = ingest_step [OF Cons.prems(3) p] ingested_message_settled [OF Cons.prems(3) p]
      let ?c = "succeeded now (advance (lm_message x) c)"
      have "cursor_row k (s\<lparr>rk_n8n := q\<rparr>) = Some c" using Cons.prems(2) by (simp add: cursor_row_def)
      from success_row [OF this, of now "Some (lm_message x)"] obtain s2 where s2:
          "record_cursor_success now k (Some (lm_message x)) (s\<lparr>rk_n8n := q\<rparr>) = Inr s2" "rk_n8n s2 = q" "cursor_row k s2 = Some ?c" by auto
      let ?s = "touch_conversation i (lm_message x) s2"
      obtain s3 m e where rest: "reconcile_messages cfg now portal th k i cutoff xs ?s = (s3, m, e)" by (metis prod_cases3)
      then have eq: "s1 = s3" "e = err" using Cons.prems(1) due p s2(1) by simp_all
      have ok: "inbox_ok (rk_n8n ?s)" "cursor_row k ?s = Some ?c" using q s2 by simp_all
      have keep: "passed cutoff (lm_message y)" if "y \<in> set xs" and "passed (cutoff_of cfg ?c) (lm_message y)" for y
        using advance_keeps_due [OF later(2) [OF that(1)] _ Cons.prems(5) _ that(2), of cutoff] due Cons.prems(6) that(1) by simp
      from Cons.IH [OF rest [unfolded eq(2)] ok(2,1) later(1) Cons.prems(5) keep] obtain seen rest c1 where r:
          "xs = seen @ rest" "err = None \<longleftrightarrow> rest = []" "cursor_row k s3 = Some c1"
          "\<forall>x \<in> set seen. passed cutoff (lm_message x) \<or> message_settled portal th (rk_n8n s3) x"
          "rest \<noteq> [] \<longrightarrow> \<not> passed cutoff (lm_message (hd rest))"
          "\<forall>x \<in> set rest. passed (cutoff_of cfg c1) (lm_message x) \<longrightarrow> passed cutoff (lm_message x)"
          "inbox_ok (rk_n8n s3)" "extends_inbox q (rk_n8n s3)"
        unfolding run_outcome_def using s2(2) by fastforce
      have "message_settled portal th (rk_n8n s3) x" using message_settled_extends [OF q(2) r(8)] .
      then have "run_outcome cfg portal th k cutoff (x # xs) s3 err" unfolding run_outcome_def
        using r by (intro exI [of _ "x # seen"] exI [of _ rest] exI [of _ c1]) auto
      then show ?thesis unfolding eq using r(7) extends_inbox_trans [OF _ r(8)] q(1) by blast
    qed
  qed
qed

lemma claimed_row:
  assumes "cursor_row k s = Some c" and "claimable_cursor cfg now c"
  shows "claim_cursor cfg now k s = (put_cursor (c\<lparr>kc_locked := Some now\<rparr>) s, Some (kc_thread c)) \<and>
    cursor_row k (put_cursor (c\<lparr>kc_locked := Some now\<rparr>) s) = Some (c\<lparr>kc_locked := Some now\<rparr>)"
proof -
  have "kc_pk c = k" using assms get_row_key [of kc_pk k _ c] by (simp add: cursor_row_def)
  then show ?thesis using assms by (simp add: claim_cursor_def cursor_row_def put_cursor_def get_row_save_row)
qed

lemma failure_row:
  assumes "cursor_row k s = Some c"
  shows "cursor_row k (record_cursor_failure cfg now k why s) =
    Some (c\<lparr>kc_error := take 2000 why, kc_next := Some (now + n8_interval cfg), kc_locked := None\<rparr>)"
proof -
  have "kc_pk c = k" using assms get_row_key [of kc_pk k _ c] by (simp add: cursor_row_def)
  then show ?thesis using assms by (simp add: record_cursor_failure_def cursor_row_def get_row_update_rows)
qed

lemma put_cursor_n8n [simp]: "rk_n8n (put_cursor c s) = rk_n8n s"
  by (simp add: put_cursor_def)

lemma record_failure_n8n [simp]: "rk_n8n (record_cursor_failure cfg now k why s) = rk_n8n s"
  by (simp add: record_cursor_failure_def)

lemma cutoff_frame [simp]:
  "cutoff_of cfg (c\<lparr>kc_locked := l\<rparr>) = cutoff_of cfg c" "cutoff_of cfg (succeeded now c) = cutoff_of cfg c"
  "cutoff_of cfg (c\<lparr>kc_error := e, kc_next := x\<rparr>) = cutoff_of cfg c"
  by (simp_all add: cutoff_of_def succeeded_def)

text \<open>C33: reconciling a thread loses no message, also when it fails midway.  A claimed run of an open thread
  splits the listing: every message of the first part is older than the cutoff the run began with or has its
  settled event in the ledger, where nothing settled was changed.  When the run ends well the first part is the
  whole listing, and the cursor is free, without error and due at once.  When a message fails, the rest begins
  with it, the cursor is free again with the next attempt one interval later, and its new position passes no
  message of the rest that was still due: the next run ingests them.\<close>

theorem reconciliation_loses_nothing:
  assumes ok: "inbox_ok (rk_n8n s)" and c: "cursor_row k s = Some c" "claimable_cursor cfg now c" and portal: "strip (n8_portal cfg) \<noteq> []"
    and th: "\<not> thread_closed th" and ms: "list_messages ms = Inr xs" and order: "sorted_wrt not_later (in_listing_order xs)"
    and lookback: "0 \<le> n8_lookback cfg"
  shows "\<exists>s' r c' seen rest. reconcile_cursor cfg name now (Inr th) ms k s = (s', r) \<and> in_listing_order xs = seen @ rest \<and>
    cursor_row k s' = Some c' \<and> kc_locked c' = None \<and> extends_inbox (rk_n8n s) (rk_n8n s') \<and>
    (\<forall>x \<in> set seen. passed (cutoff_of cfg c) (lm_message x) \<or> message_settled (strip (n8_portal cfg)) th (rk_n8n s') x) \<and>
    (if rest = [] then (\<exists>n. r = Inr n) \<and> kc_error c' = [] \<and> kc_next c' = None \<and> kc_reconciled_at c' = Some now
     else (\<exists>err. r = Inl err) \<and> kc_next c' = Some (now + n8_interval cfg) \<and> \<not> passed (cutoff_of cfg c) (lm_message (hd rest)) \<and>
       (\<forall>x \<in> set rest. passed (cutoff_of cfg c') (lm_message x) \<longrightarrow> passed (cutoff_of cfg c) (lm_message x)))"
proof -
  let ?portal = "strip (n8_portal cfg)"
  let ?c = "c\<lparr>kc_locked := Some now\<rparr>"
  let ?s = "put_cursor ?c s"
  have pk: "kc_pk c = k" using c(1) get_row_key [of kc_pk k _ c] by (simp add: cursor_row_def)
  note cl = claimed_row [OF c]
  obtain s1 n err where run: "reconcile_messages cfg now ?portal th k (kc_instance c) (cutoff_of cfg ?c) (in_listing_order xs) ?s = (s1, n, err)"
    by (metis prod_cases3)
  have ok1: "inbox_ok (rk_n8n ?s)" using ok by simp
  from messages_not_lost [OF run conjunct2 [OF cl] ok1 order lookback] obtain seen rest c1 where o:
      "in_listing_order xs = seen @ rest" "err = None \<longleftrightarrow> rest = []" "cursor_row k s1 = Some c1"
      "\<forall>x \<in> set seen. passed (cutoff_of cfg c) (lm_message x) \<or> message_settled ?portal th (rk_n8n s1) x"
      "rest \<noteq> [] \<longrightarrow> \<not> passed (cutoff_of cfg c) (lm_message (hd rest))"
      "\<forall>x \<in> set rest. passed (cutoff_of cfg c1) (lm_message x) \<longrightarrow> passed (cutoff_of cfg c) (lm_message x)"
      "extends_inbox (rk_n8n s) (rk_n8n s1)"
    unfolding run_outcome_def by auto
  show ?thesis
  proof (cases err)
    case None
    obtain s2 where s2: "record_cursor_success now k None s1 = Inr s2" "rk_n8n s2 = rk_n8n s1" "cursor_row k s2 = Some (succeeded now c1)"
      using success_row [OF o(3), of now None] by auto
    have "reconcile_cursor cfg name now (Inr th) ms k s = (s2, Inr n)"
      using cl portal th ms run s2(1) pk None by (simp add: reconcile_cursor_def run_cursor_def)
    then show ?thesis using o s2 None
      by (intro exI [of _ s2] exI [of _ "Inr n"] exI [of _ "succeeded now c1"] exI [of _ seen] exI [of _ rest]) (simp add: succeeded_def)
  next
    case (Some e)
    have "reconcile_cursor cfg name now (Inr th) ms k s = (record_cursor_failure cfg now k (name e) s1, Inl e)"
      using cl portal th ms run pk Some by (simp add: reconcile_cursor_def run_cursor_def)
    moreover have "rest \<noteq> []" using o(2) Some by simp
    ultimately show ?thesis using o failure_row [OF o(3), of cfg now "name e"]
      by - (intro exI [of _ "record_cursor_failure cfg now k (name e) s1"] exI [of _ "Inl e"]
            exI [of _ "c1\<lparr>kc_error := take 2000 (name e), kc_next := Some (now + n8_interval cfg), kc_locked := None\<rparr>"],
          rule exI [of _ seen], rule exI [of _ rest], simp)
  qed
qed

text \<open>A run releases its claim after the first message: while it goes on, another worker can claim the cursor.\<close>

lemma claim_released_midway:
  assumes "cursor_row k s = Some c" and "record_cursor_success now k (Some m) s = Inr s1"
  shows "snd (claim_cursor cfg now k s1) = Some (kc_thread c)"
proof -
  obtain s2 where s2: "record_cursor_success now k (Some m) s = Inr s2" "cursor_row k s2 = Some (succeeded now (advance m c))"
    using success_row [OF assms(1), of now "Some m"] by auto
  have "claimable_cursor cfg now (succeeded now (advance m c))" "kc_thread (succeeded now (advance m c)) = kc_thread c"
    by (simp_all add: claimable_cursor_def succeeded_def advance_def)
  then show ?thesis using claimed_row [OF s2(2)] s2(1) assms(2) by simp
qed

section \<open>Witnesses\<close>

definition demo_listed :: "string \<Rightarrow> string \<Rightarrow> instant \<Rightarrow> listed" where
  "demo_listed at mid t = \<lparr>lm_created = at, lm_message = (demo_message mid ''INCOMING'')\<lparr>mg_created := Some t\<rparr>, lm_body = ''b''\<rparr>"

definition demo_cursor :: cursor where
  "demo_cursor = \<lparr>kc_pk = 0, kc_instance = 7, kc_thread = ''t'', kc_message = ''a'', kc_created_at = Some 900000000, kc_reconciled_at = None,
     kc_error = [], kc_next = None, kc_locked = None\<rparr>"

definition demo_recon :: recon where
  "demo_recon = \<lparr>rk_cursors = [demo_cursor], rk_instances = [], rk_n8n = empty_inbox, rk_next_pk = 1\<rparr>"

text \<open>The second message has no identifier: the run fails there, after the first one was ingested.\<close>

theorem reconciliation_loses_nothing_witness:
  "\<exists>s' r c' seen rest. reconcile_cursor (demo_n8n_cfg\<lparr>n8_portal := ''p''\<rparr>) (\<lambda>_. ''ValueError'') 1000000000 (Inr demo_thread)
      ([[demo_listed ''3'' ''c'' 980000000]], Inr [demo_listed ''1'' ''b'' 950000000, demo_listed ''2'' [] 960000000]) 0 demo_recon = (s', r) \<and>
    in_listing_order [demo_listed ''3'' ''c'' 980000000, demo_listed ''1'' ''b'' 950000000, demo_listed ''2'' [] 960000000] = seen @ rest \<and>
    (if rest = [] then (\<exists>n. r = Inr n) else \<exists>err. r = Inl err) \<and> cursor_row 0 s' = Some c' \<and> kc_locked c' = None"
proof -
  let ?cfg = "demo_n8n_cfg\<lparr>n8_portal := ''p''\<rparr>"
  let ?ms = "([[demo_listed ''3'' ''c'' 980000000]], Inr [demo_listed ''1'' ''b'' 950000000, demo_listed ''2'' [] 960000000])"
  let ?xs = "[demo_listed ''3'' ''c'' 980000000, demo_listed ''1'' ''b'' 950000000, demo_listed ''2'' [] 960000000]"
  have h: "cursor_row 0 demo_recon = Some demo_cursor" "claimable_cursor ?cfg 1000000000 demo_cursor" "strip (n8_portal ?cfg) \<noteq> []"
      "\<not> thread_closed demo_thread" "list_messages ?ms = Inr ?xs" "sorted_wrt not_later (in_listing_order ?xs)" "0 \<le> n8_lookback ?cfg"
    by code_simp+
  have "inbox_ok (rk_n8n demo_recon)" using empty_inbox_ok by (simp add: demo_recon_def)
  from reconciliation_loses_nothing [OF this h, of "\<lambda>_. ''ValueError''"] obtain s' r c' seen rest where
      "reconcile_cursor ?cfg (\<lambda>_. ''ValueError'') 1000000000 (Inr demo_thread) ?ms 0 demo_recon = (s', r)" "in_listing_order ?xs = seen @ rest"
      "cursor_row 0 s' = Some c'" "kc_locked c' = None" "if rest = [] then (\<exists>n. r = Inr n) else \<exists>err. r = Inl err"
    by (metis (full_types))
  then show ?thesis by blast
qed

end
