(* ===== verification/Queue_Retention.thy ===== *)
theory Queue_Retention
  imports Matchmaker
begin

text \<open>
  No waiting ticket is lost: what becomes of the rows of the waiting queue (\<open>NewConversation\<close>) while the matchmaker
  reserves, executes and settles attempts and while the owners of tickets are reconciled.  A row leaves the queue
  only when a completed attempt served it, or when its attendance moved on: assigned or closed.
\<close>

section \<open>Rows and what explains their absence\<close>

text \<open>The same waiting row: its ticket, its attendance, its place in the queue and whether it is assigned automatically.\<close>

definition same_row :: "queue_row \<Rightarrow> queue_row \<Rightarrow> bool" where
  "same_row q r \<longleftrightarrow> nc_pk r = nc_pk q \<and> nc_ticket r = nc_ticket q \<and> nc_cycle r = nc_cycle q \<and>
     nc_entered_at r = nc_entered_at q \<and> nc_auto r = nc_auto q"

definition moved_on :: "db \<Rightarrow> uuid \<Rightarrow> bool" where
  "moved_on d c \<longleftrightarrow> (case cycle_of d c of None \<Rightarrow> False | Some x \<Rightarrow> cy_state x \<in> {Assigned, Closed})"

definition left_queue :: "db \<Rightarrow> uuid \<Rightarrow> bool" where
  "left_queue d c \<longleftrightarrow> (case cycle_of d c of None \<Rightarrow> False | Some x \<Rightarrow> cy_state x \<noteq> Queued)"

text \<open>The foreign key of a row.\<close>

definition known_cycle :: "queue_row \<Rightarrow> db \<Rightarrow> bool" where
  "known_cycle q d \<longleftrightarrow> (case nc_cycle q of None \<Rightarrow> True | Some c \<Rightarrow> cycle_of d c \<noteq> None)"

definition fits :: "queue_row \<Rightarrow> attempt \<Rightarrow> bool" where
  "fits q a \<longleftrightarrow> at_ticket a = nc_ticket q \<and> (at_cycle a = nc_cycle q \<or> at_cycle a = None)"

definition waits :: "queue_row \<Rightarrow> bool" where
  "waits q \<longleftrightarrow> nc_status q \<in> {Pending, In_Queue}"

text \<open>The codes under which an execution sets a row aside: the ticket is gone, is stale, or has an owner in HubSpot.\<close>

definition effect_codes :: "string list" where
  "effect_codes = [''hubspot_ticket_not_found'', ''stale_ticket'', ''hubspot_manual_owner_observed'']"

text \<open>
  A row is set aside with a reason that the tables show: its attendance is not queued, or it has none and its
  ticket a completed attempt, or an attempt of it was compensated under the code the row carries.
\<close>

definition set_aside :: "queue_row \<Rightarrow> db \<Rightarrow> bool" where
  "set_aside r d \<longleftrightarrow> nc_status r = Failed \<and>
     (nc_failure_code r = ''stale_cycle'' \<and> (case nc_cycle r of None \<Rightarrow> False | Some c \<Rightarrow> left_queue d c) \<or>
      nc_failure_code r = ''legacy_cycle_ambiguous'' \<and> nc_cycle r = None \<and>
        (\<exists>a \<in> set (db_attempts d). at_ticket a = nc_ticket r \<and> at_state a = Completed) \<or>
      nc_failure_code r \<in> set effect_codes \<and>
        (\<exists>a \<in> set (db_attempts d). fits r a \<and> at_state a = Compensated \<and> at_result_class a = nc_failure_code r))"

definition still_there :: "queue_row \<Rightarrow> db \<Rightarrow> bool" where
  "still_there q d \<longleftrightarrow> (\<exists>r \<in> set (db_queue d). same_row q r \<and>
     (waits r \<or> nc_status r = nc_status q \<and> nc_failure_code r = nc_failure_code q \<or> set_aside r d))"

text \<open>
  What explains that a row of \<open>d0\<close> is gone in \<open>d\<close>: a completed attempt of its attendance, or one that fits it and
  was completed since; an attendance that is assigned or closed, or, for a row without one, a closed row of the
  ticket that was written since.
\<close>

definition served :: "queue_row \<Rightarrow> db \<Rightarrow> db \<Rightarrow> bool" where
  "served q d0 d \<longleftrightarrow> (\<exists>a \<in> set (db_attempts d). at_state a = Completed \<and>
     (nc_cycle q \<noteq> None \<and> at_cycle a = nc_cycle q \<or>
      fits q a \<and> \<not> (\<exists>b \<in> set (db_attempts d0). at_pk b = at_pk a \<and> at_state b = Completed)))"

definition concluded :: "queue_row \<Rightarrow> db \<Rightarrow> db \<Rightarrow> bool" where
  "concluded q d0 d \<longleftrightarrow> (case nc_cycle q of Some c \<Rightarrow> moved_on d c
     | None \<Rightarrow> (\<exists>x \<in> set (db_closed d). cl_ticket x = nc_ticket q \<and> cl_cycle x = None \<and> x \<notin> set (db_closed d0)))"

definition accounted :: "queue_row \<Rightarrow> db \<Rightarrow> db \<Rightarrow> bool" where
  "accounted q d0 d \<longleftrightarrow> still_there q d \<or> served q d0 d \<or> concluded q d0 d"

text \<open>The keys of the queue and of the closed rows, and the rows attempts refer to.\<close>

definition linked :: "db \<Rightarrow> bool" where
  "linked d \<longleftrightarrow> distinct (map nc_pk (db_queue d)) \<and> (\<forall>q \<in> set (db_queue d). nc_pk q < db_next_pk d) \<and>
     distinct (map at_pk (db_attempts d)) \<and> (\<forall>x \<in> set (db_closed d). cl_pk x < db_next_pk d) \<and>
     (\<forall>a \<in> set (db_attempts d). case at_queue_row a of None \<Rightarrow> True
        | Some k \<Rightarrow> k < db_next_pk d \<and> (\<forall>q \<in> set (db_queue d). nc_pk q = k \<longrightarrow> fits q a))"

definition same_verdict :: "attempt \<Rightarrow> attempt \<Rightarrow> bool" where
  "same_verdict a b \<longleftrightarrow> at_pk b = at_pk a \<and> at_state b = at_state a \<and> at_ticket b = at_ticket a \<and> at_cycle b = at_cycle a \<and>
     at_result_class b = at_result_class a"

definition keeps :: "db \<Rightarrow> db \<Rightarrow> bool" where
  "keeps d d' \<longleftrightarrow> db_next_pk d \<le> db_next_pk d' \<and> (\<forall>q \<in> set (db_queue d). known_cycle q d \<longrightarrow> accounted q d d') \<and>
     (\<forall>a \<in> set (db_attempts d). at_state a \<in> {Completed, Compensated} \<longrightarrow> (\<exists>b \<in> set (db_attempts d'). same_verdict a b)) \<and>
     (\<forall>c. (moved_on d c \<longrightarrow> moved_on d' c) \<and> (left_queue d c \<longrightarrow> left_queue d' c) \<and> (cycle_of d c \<noteq> None \<longrightarrow> cycle_of d' c \<noteq> None)) \<and>
     set (db_closed d) \<subseteq> set (db_closed d')"

definition retains :: "db \<Rightarrow> db \<Rightarrow> bool" where
  "retains d d' \<longleftrightarrow> (linked d \<longrightarrow> linked d' \<and> keeps d d')"

lemma moved_on_iff: "moved_on d c \<longleftrightarrow> (\<exists>x. cycle_of d c = Some x \<and> cy_state x \<in> {Assigned, Closed})"
  by (simp add: moved_on_def split: option.split)

lemma left_queue_iff: "left_queue d c \<longleftrightarrow> (\<exists>x. cycle_of d c = Some x \<and> cy_state x \<noteq> Queued)"
  by (simp add: left_queue_def split: option.split)

lemma linked_iff:
  "linked d \<longleftrightarrow> distinct (map nc_pk (db_queue d)) \<and> (\<forall>q \<in> set (db_queue d). nc_pk q < db_next_pk d) \<and>
     distinct (map at_pk (db_attempts d)) \<and> (\<forall>x \<in> set (db_closed d). cl_pk x < db_next_pk d) \<and>
     (\<forall>a \<in> set (db_attempts d). \<forall>k. at_queue_row a = Some k \<longrightarrow> k < db_next_pk d \<and>
        (\<forall>q \<in> set (db_queue d). nc_pk q = k \<longrightarrow> fits q a))"
  unfolding linked_def by (auto split: option.splits)

lemma same_row_refl [simp]: "same_row q q"
  by (simp add: same_row_def)

lemma same_row_mem: "q \<in> set rows \<Longrightarrow> \<exists>x \<in> set rows. same_row x q" "q \<in> set rows \<Longrightarrow> \<exists>x \<in> set rows. same_row q x"
  using same_row_refl by blast+

lemma same_row_fits: "same_row q r \<Longrightarrow> fits r a = fits q a"
  by (simp add: same_row_def fits_def)

lemma same_row_transfer: "same_row q r \<Longrightarrow> served r d0 d = served q d0 d \<and> concluded r d0 d = concluded q d0 d"
  by (cases "nc_cycle q") (auto simp: same_row_def served_def concluded_def fits_def)

lemma same_verdict_refl [simp]: "same_verdict a a"
  by (simp add: same_verdict_def)

lemma same_verdict_mem: "a \<in> set rows \<Longrightarrow> \<exists>b \<in> set rows. same_verdict a b"
  using same_verdict_refl by blast

lemma keeps_verdict:
  "keeps d d' \<Longrightarrow> a \<in> set (db_attempts d) \<Longrightarrow> at_state a \<in> {Completed, Compensated} \<Longrightarrow> \<exists>b \<in> set (db_attempts d'). same_verdict a b"
  unfolding keeps_def by blast

lemma served_keeps:
  assumes "keeps d d'" and "served q d0 d"
  shows "served q d0 d'"
proof -
  obtain a where a: "a \<in> set (db_attempts d)" "at_state a = Completed"
      "nc_cycle q \<noteq> None \<and> at_cycle a = nc_cycle q \<or>
       fits q a \<and> \<not> (\<exists>b \<in> set (db_attempts d0). at_pk b = at_pk a \<and> at_state b = Completed)"
    using assms(2) unfolding served_def by blast
  obtain b where "b \<in> set (db_attempts d')" "same_verdict a b" using keeps_verdict [OF assms(1) a(1)] a(2) by auto
  then show ?thesis using a unfolding served_def same_verdict_def fits_def by (intro bexI [of _ b]) simp_all
qed

lemma served_since:
  assumes "keeps d d1" and "served q d1 d2"
  shows "served q d d2"
proof -
  obtain a where a: "a \<in> set (db_attempts d2)" "at_state a = Completed"
      "nc_cycle q \<noteq> None \<and> at_cycle a = nc_cycle q \<or>
       fits q a \<and> \<not> (\<exists>b \<in> set (db_attempts d1). at_pk b = at_pk a \<and> at_state b = Completed)"
    using assms(2) unfolding served_def by blast
  have "\<exists>b \<in> set (db_attempts d1). at_pk b = at_pk a \<and> at_state b = Completed"
    if "b \<in> set (db_attempts d)" "at_pk b = at_pk a" "at_state b = Completed" for b
    using keeps_verdict [OF assms(1) that(1)] that(2,3) unfolding same_verdict_def by auto
  then show ?thesis using a unfolding served_def by blast
qed

lemma concluded_keeps: "keeps d d' \<Longrightarrow> concluded q d0 d \<Longrightarrow> concluded q d0 d'"
  unfolding concluded_def keeps_def by (fastforce split: option.splits)

lemma concluded_since: "keeps d d1 \<Longrightarrow> concluded q d1 d2 \<Longrightarrow> concluded q d d2"
  unfolding concluded_def keeps_def by (fastforce split: option.splits)

lemma set_aside_keeps:
  assumes "keeps d d'" and "set_aside r d" and "same_row r x" "nc_status x = nc_status r" "nc_failure_code x = nc_failure_code r"
  shows "set_aside x d'"
proof -
  have found: "\<exists>b \<in> set (db_attempts d'). same_verdict a b" if "a \<in> set (db_attempts d)" "at_state a \<in> {Completed, Compensated}" for a
    using keeps_verdict [OF assms(1) that] .
  consider c where "nc_failure_code r = ''stale_cycle''" "nc_cycle r = Some c" "left_queue d c"
    | a where "nc_failure_code r = ''legacy_cycle_ambiguous''" "nc_cycle r = None" "a \<in> set (db_attempts d)"
        "at_ticket a = nc_ticket r" "at_state a = Completed"
    | a where "nc_failure_code r \<in> set effect_codes" "a \<in> set (db_attempts d)" "fits r a" "at_state a = Compensated"
        "at_result_class a = nc_failure_code r"
    using assms(2) unfolding set_aside_def by (auto split: option.splits)
  then show ?thesis
  proof cases
    case 1
    then show ?thesis using assms unfolding set_aside_def keeps_def same_row_def by simp
  next
    case 2
    then obtain b where "b \<in> set (db_attempts d')" "same_verdict a b" using found by auto
    then have "b \<in> set (db_attempts d') \<and> at_ticket b = nc_ticket x \<and> at_state b = Completed"
      using 2 assms(3) by (simp add: same_verdict_def same_row_def)
    then show ?thesis using 2 assms(2-) unfolding set_aside_def same_row_def by auto
  next
    case 3
    then obtain b where "b \<in> set (db_attempts d')" "same_verdict a b" using found by auto
    then have "b \<in> set (db_attempts d') \<and> fits x b \<and> at_state b = Compensated \<and> at_result_class b = nc_failure_code x"
      using 3 assms(3,5) by (simp add: same_verdict_def same_row_def fits_def)
    then show ?thesis using 3 assms(2-) unfolding set_aside_def by auto
  qed
qed

lemma known_cycle_keeps: "keeps d d' \<Longrightarrow> known_cycle q d \<Longrightarrow> same_row q r \<Longrightarrow> known_cycle r d'"
  unfolding known_cycle_def keeps_def same_row_def by (auto split: option.splits)

lemma accounted_keeps:
  assumes "keeps d d1" and "keeps d1 d2" and "known_cycle q d" and "accounted q d d1"
  shows "accounted q d d2"
proof (cases "still_there q d1")
  case False
  then show ?thesis
    using assms(4) served_keeps [OF assms(2)] concluded_keeps [OF assms(2)] unfolding accounted_def by blast
next
  case True
  then obtain r where r: "r \<in> set (db_queue d1)" "same_row q r"
      "waits r \<or> nc_status r = nc_status q \<and> nc_failure_code r = nc_failure_code q \<or> set_aside r d1"
    unfolding still_there_def by blast
  have "known_cycle r d1" using known_cycle_keeps [OF assms(1,3) r(2)] .
  then have "accounted r d1 d2" using assms(2) r(1) by (simp add: keeps_def)
  then consider (there) x where "x \<in> set (db_queue d2)" "same_row r x"
      "waits x \<or> nc_status x = nc_status r \<and> nc_failure_code x = nc_failure_code r \<or> set_aside x d2"
    | (gone) "served r d1 d2 \<or> concluded r d1 d2"
    unfolding accounted_def still_there_def by blast
  then show ?thesis
  proof cases
    case there
    have "same_row q x" using r(2) there(2) by (simp add: same_row_def)
    moreover have "waits x \<or> nc_status x = nc_status q \<and> nc_failure_code x = nc_failure_code q \<or> set_aside x d2"
      using there(3) r(3) set_aside_keeps [OF assms(2) _ there(2)] by (auto simp: waits_def)
    ultimately show ?thesis using there(1) unfolding accounted_def still_there_def by blast
  next
    case gone
    then show ?thesis
      using same_row_transfer [OF r(2)] served_since [OF assms(1)] concluded_since [OF assms(1)] unfolding accounted_def by blast
  qed
qed

lemma present_accounted: "q \<in> set (db_queue d) \<Longrightarrow> accounted q d0 d"
  unfolding accounted_def still_there_def using same_row_refl by blast

lemma keeps_refl: "keeps d d"
  unfolding keeps_def using present_accounted same_verdict_refl by blast

lemma retains_refl [simp]: "retains d d"
  by (simp add: retains_def keeps_refl)

lemma keeps_trans:
  assumes "keeps d d1" and "keeps d1 d2"
  shows "keeps d d2"
  unfolding keeps_def
proof (intro conjI ballI allI impI)
  show "db_next_pk d \<le> db_next_pk d2" using assms by (simp add: keeps_def)
  show "accounted q d d2" if "q \<in> set (db_queue d)" "known_cycle q d" for q
    using assms(1) that accounted_keeps [OF assms that(2)] by (simp add: keeps_def)
  show "\<exists>b \<in> set (db_attempts d2). same_verdict a b"
    if a: "a \<in> set (db_attempts d)" "at_state a \<in> {Completed, Compensated}" for a
  proof -
    obtain b where b: "b \<in> set (db_attempts d1)" "same_verdict a b" using keeps_verdict [OF assms(1) a] by blast
    then have "at_state b \<in> {Completed, Compensated}" using a(2) by (simp add: same_verdict_def)
    then obtain x where "x \<in> set (db_attempts d2)" "same_verdict b x" using keeps_verdict [OF assms(2) b(1)] by blast
    then show ?thesis using b(2) unfolding same_verdict_def by (metis (no_types))
  qed
  show "moved_on d2 c" if "moved_on d c" for c using assms that by (simp add: keeps_def)
  show "left_queue d2 c" if "left_queue d c" for c using assms that by (simp add: keeps_def)
  show "cycle_of d2 c \<noteq> None" if "cycle_of d c \<noteq> None" for c using assms that unfolding keeps_def by blast
  show "set (db_closed d) \<subseteq> set (db_closed d2)" using assms by (auto simp: keeps_def)
qed

lemma retains_trans: "retains d d1 \<Longrightarrow> retains d1 d2 \<Longrightarrow> retains d d2"
  unfolding retains_def using keeps_trans by blast

lemma retains_accounted: "retains d d' \<Longrightarrow> linked d \<Longrightarrow> q \<in> set (db_queue d) \<Longrightarrow> known_cycle q d \<Longrightarrow> accounted q d d'"
  by (simp add: retains_def keeps_def)

section \<open>Single writes\<close>

text \<open>A write that leaves the cycles and what is settled, or adds to them.\<close>

definition same_cycles :: "db \<Rightarrow> db \<Rightarrow> bool" where
  "same_cycles d d' \<longleftrightarrow> (\<forall>c. (moved_on d c \<longrightarrow> moved_on d' c) \<and> (left_queue d c \<longrightarrow> left_queue d' c) \<and>
     (cycle_of d c \<noteq> None \<longrightarrow> cycle_of d' c \<noteq> None))"

lemma same_cycles_eq: "db_cycles d' = db_cycles d \<Longrightarrow> same_cycles d d'"
  by (simp add: same_cycles_def moved_on_iff left_queue_iff cycle_of_def)

lemma retainsI:
  assumes "linked d \<Longrightarrow> linked d'" and "db_next_pk d \<le> db_next_pk d'"
    and "\<And>q. linked d \<Longrightarrow> q \<in> set (db_queue d) \<Longrightarrow> known_cycle q d \<Longrightarrow> accounted q d d'"
    and "\<And>a. linked d \<Longrightarrow> a \<in> set (db_attempts d) \<Longrightarrow> at_state a \<in> {Completed, Compensated} \<Longrightarrow> \<exists>b \<in> set (db_attempts d'). same_verdict a b"
    and "same_cycles d d'" and "set (db_closed d) \<subseteq> set (db_closed d')"
  shows "retains d d'"
  using assms unfolding retains_def keeps_def same_cycles_def by blast

lemma linked_transfer:
  assumes "linked d" and "distinct (map nc_pk (db_queue d'))" and "distinct (map at_pk (db_attempts d'))"
    and "db_next_pk d \<le> db_next_pk d'" and "\<And>r. r \<in> set (db_queue d') \<Longrightarrow> \<exists>q \<in> set (db_queue d). same_row q r"
    and "\<And>b k. b \<in> set (db_attempts d') \<Longrightarrow> at_queue_row b = Some k \<Longrightarrow>
      \<exists>a \<in> set (db_attempts d). at_queue_row a = Some k \<and> at_ticket b = at_ticket a \<and> at_cycle b = at_cycle a"
    and "\<And>x. x \<in> set (db_closed d') \<Longrightarrow> x \<in> set (db_closed d) \<or> cl_pk x < db_next_pk d'"
  shows "linked d'"
  unfolding linked_iff
proof (intro conjI ballI allI impI)
  show "nc_pk r < db_next_pk d'" if "r \<in> set (db_queue d')" for r
    using assms(5) [OF that] assms(1,4) by (fastforce simp: linked_iff same_row_def)
  show "cl_pk x < db_next_pk d'" if "x \<in> set (db_closed d')" for x
    using assms(7) [OF that] assms(1,4) by (fastforce simp: linked_iff)
  fix b k
  assume b: "b \<in> set (db_attempts d')" "at_queue_row b = Some k"
  then obtain a where a: "a \<in> set (db_attempts d)" "at_queue_row a = Some k" "at_ticket b = at_ticket a" "at_cycle b = at_cycle a"
    using assms(6) by blast
  have l: "k < db_next_pk d" "\<And>q. q \<in> set (db_queue d) \<Longrightarrow> nc_pk q = k \<Longrightarrow> fits q a"
    using assms(1) a(1,2) unfolding linked_iff by blast+
  show "k < db_next_pk d'" using l(1) assms(4) by simp
  show "fits r b" if r: "r \<in> set (db_queue d')" "nc_pk r = k" for r
  proof -
    obtain q where q: "q \<in> set (db_queue d)" "same_row q r" using assms(5) [OF r(1)] by blast
    then have "fits q a" using l(2) r(2) by (simp add: same_row_def)
    then show ?thesis using q(2) a(3,4) by (simp add: fits_def same_row_def)
  qed
qed (use assms(2,3) in simp_all)

text \<open>Two databases that agree on what a queue row depends on.\<close>

definition same_waiting :: "db \<Rightarrow> db \<Rightarrow> bool" where
  "same_waiting d d' \<longleftrightarrow> db_queue d' = db_queue d \<and> db_attempts d' = db_attempts d \<and> db_cycles d' = db_cycles d \<and>
     db_closed d' = db_closed d \<and> db_next_pk d \<le> db_next_pk d'"

lemma retains_same:
  assumes "same_waiting d d'"
  shows "retains d d'"
proof (rule retainsI)
  show "linked d'" if "linked d"
    by (rule linked_transfer [OF that]) (use assms that in \<open>auto simp: same_waiting_def linked_iff intro: same_row_mem\<close>)
  show "accounted q d d'" if "q \<in> set (db_queue d)" for q
    by (rule present_accounted) (use that assms in \<open>simp add: same_waiting_def\<close>)
  show "same_cycles d d'" using assms by (simp add: same_waiting_def same_cycles_eq)
qed (use assms in \<open>auto simp: same_waiting_def intro: same_verdict_mem\<close>)

lemma in_saved: "y \<in> set (save_row key x rows) \<longleftrightarrow> (y \<in> set rows \<and> key y \<noteq> key x) \<or> (y = x \<and> (\<exists>r \<in> set rows. key r = key x))"
  by (auto simp: save_row_def)

lemma put_queue_there:
  assumes "x \<in> set (db_queue d)" and "nc_pk x = nc_pk r \<Longrightarrow> same_row x r \<and>
      (waits r \<or> nc_status r = nc_status x \<and> nc_failure_code r = nc_failure_code x \<or> set_aside r (put_queue r d))"
  shows "accounted x d (put_queue r d)"
proof -
  have "(if nc_pk x = nc_pk r then r else x) \<in> set (save_row nc_pk r (db_queue d))" using assms(1) by (auto simp: in_saved)
  moreover have "same_row x (if nc_pk x = nc_pk r then r else x)" using assms(2) by simp
  ultimately have "still_there x (put_queue r d)"
    unfolding still_there_def using assms(2)
    by (intro bexI [of _ "if nc_pk x = nc_pk r then r else x"]) (auto simp: put_queue_def)
  then show ?thesis by (simp add: accounted_def)
qed

text \<open>A write to a row that is in the queue: it still waits, it keeps its status, or it is set aside with a reason.\<close>

lemma linked_same_pk:
  "linked d \<Longrightarrow> q \<in> set (db_queue d) \<Longrightarrow> r \<in> set (db_queue d) \<Longrightarrow> nc_pk q = nc_pk r \<Longrightarrow> q = r"
  by (auto simp: linked_iff distinct_map inj_on_def)

lemma retains_write_row:
  assumes "q \<in> set (db_queue d)" and "same_row q r"
    and "linked d \<Longrightarrow> known_cycle q d \<Longrightarrow>
      waits r \<or> nc_status r = nc_status q \<and> nc_failure_code r = nc_failure_code q \<or> set_aside r d"
  shows "retains d (put_queue r d)"
proof (cases "linked d")
  case True
  have u: "x = q" if "x \<in> set (db_queue d)" "nc_pk x = nc_pk r" for x
    using linked_same_pk [OF True that(1) assms(1)] that(2) assms(2) by (simp add: same_row_def)
  have aside: "set_aside r (put_queue r d) = set_aside r d"
    by (simp add: set_aside_def left_queue_iff cycle_of_def put_queue_def split: option.split)
  show ?thesis
  proof (rule retainsI)
    show "linked (put_queue r d)" if "linked d"
    proof (rule linked_transfer [OF that])
      show "\<exists>x \<in> set (db_queue d). same_row x y" if "y \<in> set (db_queue (put_queue r d))" for y
        using that assms(1,2) by (auto simp: put_queue_def in_saved intro: same_row_mem)
    qed (use that in \<open>auto simp: put_queue_def linked_iff\<close>)
    show "accounted x d (put_queue r d)" if "x \<in> set (db_queue d)" "known_cycle x d" for x
    proof (rule put_queue_there [OF that(1)])
      assume "nc_pk x = nc_pk r"
      then have "x = q" using u that(1) by blast
      then show "same_row x r \<and> (waits r \<or> nc_status r = nc_status x \<and> nc_failure_code r = nc_failure_code x \<or>
          set_aside r (put_queue r d))"
        using assms(2) assms(3) [OF True] that(2) aside by simp
    qed
    show "same_cycles d (put_queue r d)" by (rule same_cycles_eq) (simp add: put_queue_def)
  qed (auto simp: put_queue_def intro: same_verdict_mem)
qed (simp add: retains_def)

lemma retains_put_attempt:
  assumes "\<And>b. b \<in> set (db_attempts d) \<Longrightarrow> at_pk b = at_pk a \<Longrightarrow> at_ticket a = at_ticket b \<and> at_cycle a = at_cycle b \<and>
      at_queue_row a \<in> {at_queue_row b, None} \<and> at_state b \<notin> {Completed, Compensated}"
  shows "retains d (put_attempt a d)"
proof (rule retainsI)
  show "linked (put_attempt a d)" if "linked d"
  proof (rule linked_transfer [OF that])
    show "\<exists>y \<in> set (db_attempts d). at_queue_row y = Some k \<and> at_ticket b = at_ticket y \<and> at_cycle b = at_cycle y"
      if "b \<in> set (db_attempts (put_attempt a d))" "at_queue_row b = Some k" for b k
      using that assms by (auto simp: put_attempt_def in_saved)
  qed (use that in \<open>auto simp: put_attempt_def linked_iff intro: same_row_mem\<close>)
  show "\<exists>y \<in> set (db_attempts (put_attempt a d)). same_verdict b y"
    if "b \<in> set (db_attempts d)" "at_state b \<in> {Completed, Compensated}" for b
    by (rule bexI [of _ b]) (use that assms [OF that(1)] in \<open>auto simp: put_attempt_def in_saved\<close>)
  show "accounted q d (put_attempt a d)" if "q \<in> set (db_queue d)" for q
    by (rule present_accounted) (simp add: that put_attempt_def)
  show "same_cycles d (put_attempt a d)" by (rule same_cycles_eq) (simp add: put_attempt_def)
qed (auto simp: put_attempt_def)

lemma retains_append_attempt:
  assumes "db_attempts d' = db_attempts d @ [a]" and "\<And>b. b \<in> set (db_attempts d) \<Longrightarrow> at_pk b \<noteq> at_pk a"
    and "q \<in> set (db_queue d)" and "at_queue_row a = Some (nc_pk q)" and "fits q a"
    and "db_queue d' = db_queue d" "db_cycles d' = db_cycles d" "db_closed d' = db_closed d" "db_next_pk d \<le> db_next_pk d'"
  shows "retains d d'"
proof (rule retainsI)
  show "linked d'" if l: "linked d"
    unfolding linked_iff
  proof (intro conjI ballI allI impI)
    have u: "r = q" if "r \<in> set (db_queue d)" "nc_pk r = nc_pk q" for r
      using l assms(3) that by (auto simp: linked_iff distinct_map inj_on_def)
    show "distinct (map nc_pk (db_queue d'))" using l assms(6) by (simp add: linked_iff)
    have "at_pk a \<notin> at_pk ` set (db_attempts d)" using assms(2) by (metis imageE)
    then show "distinct (map at_pk (db_attempts d'))" using l assms(1) by (simp add: linked_iff)
    show "cl_pk x < db_next_pk d'" if "x \<in> set (db_closed d')" for x
      using l that assms(8,9) unfolding linked_iff by fastforce
    show less: "nc_pk r < db_next_pk d'" if "r \<in> set (db_queue d')" for r
      using l that assms(6,9) unfolding linked_iff by fastforce
    fix b k
    assume b: "b \<in> set (db_attempts d')" "at_queue_row b = Some k"
    show "k < db_next_pk d'" "\<And>r. r \<in> set (db_queue d') \<Longrightarrow> nc_pk r = k \<Longrightarrow> fits r b"
    proof (atomize (full), cases "b = a")
      case True
      then show "k < db_next_pk d' \<and> (\<forall>r. r \<in> set (db_queue d') \<longrightarrow> nc_pk r = k \<longrightarrow> fits r b)"
      proof -
        have k: "k = nc_pk q" using True b(2) assms(4) by simp
        have "k < db_next_pk d'" unfolding k by (rule less) (simp add: assms(3,6))
        moreover have "fits r b" if "r \<in> set (db_queue d')" "nc_pk r = k" for r
          using u [of r] that k True assms(5,6) by simp
        ultimately show ?thesis by blast
      qed
    next
      case False
      then have "b \<in> set (db_attempts d)" using b(1) assms(1) by simp
      then have "k < db_next_pk d \<and> (\<forall>r \<in> set (db_queue d). nc_pk r = k \<longrightarrow> fits r b)"
        using l b(2) by (simp add: linked_iff)
      then show "k < db_next_pk d' \<and> (\<forall>r. r \<in> set (db_queue d') \<longrightarrow> nc_pk r = k \<longrightarrow> fits r b)"
        using assms(6,9) by simp
    qed
  qed
  show "accounted r d d'" if "r \<in> set (db_queue d)" for r
    by (rule present_accounted) (simp add: that assms(6))
  show "same_cycles d d'" using assms(7) by (rule same_cycles_eq)
  show "\<exists>y \<in> set (db_attempts d'). same_verdict b y" if "b \<in> set (db_attempts d)" for b
    by (rule bexI [of _ b]) (simp_all add: that assms(1))
qed (use assms in auto)

text \<open>A row may go when what explains it was written since \<open>d0\<close>.\<close>

lemma retains_delete:
  assumes "retains d0 d"
    and "\<And>q. linked d0 \<Longrightarrow> linked d \<Longrightarrow> q \<in> set (db_queue d) \<Longrightarrow> nc_pk q = k \<Longrightarrow> served q d0 d \<or> concluded q d0 d"
  shows "retains d0 (delete_queue_row k d)"
  unfolding retains_def
proof
  let ?d = "delete_queue_row k d"
  assume l0: "linked d0"
  then have l: "linked d" and kept: "keeps d0 d" using assms(1) by (simp_all add: retains_def)
  have saved: "\<exists>b \<in> set (db_attempts ?d). same_verdict a b" if "a \<in> set (db_attempts d)" for a
    by (rule bexI [of _ "if at_queue_row a = Some k then a\<lparr>at_queue_row := None\<rparr> else a"])
      (use that in \<open>auto simp: delete_queue_row_def update_rows_def same_verdict_def\<close>)
  have frame: "db_next_pk ?d = db_next_pk d" "db_cycles ?d = db_cycles d" "db_closed ?d = db_closed d"
    by (simp_all add: delete_queue_row_def)
  have gone: "served q d0 ?d \<or> concluded q d0 ?d" if "served q d0 d \<or> concluded q d0 d" for q
  proof -
    have "concluded q d0 ?d = concluded q d0 d"
      by (simp add: concluded_def moved_on_iff cycle_of_def frame split: option.split)
    moreover have "served q d0 ?d" if served: "served q d0 d"
    proof -
      obtain a where a: "a \<in> set (db_attempts d)" "at_state a = Completed" "nc_cycle q \<noteq> None \<and> at_cycle a = nc_cycle q \<or>
          fits q a \<and> \<not> (\<exists>b \<in> set (db_attempts d0). at_pk b = at_pk a \<and> at_state b = Completed)"
        using served unfolding served_def by blast
      obtain b where "b \<in> set (db_attempts ?d)" "same_verdict a b" using saved [OF a(1)] by blast
      then show ?thesis using a unfolding served_def same_verdict_def fits_def by (intro bexI [of _ b]) simp_all
    qed
    ultimately show ?thesis using that by blast
  qed
  have "linked ?d"
  proof (rule linked_transfer [OF l])
    show "\<exists>a \<in> set (db_attempts d). at_queue_row a = Some j \<and> at_ticket b = at_ticket a \<and> at_cycle b = at_cycle a"
      if "b \<in> set (db_attempts ?d)" "at_queue_row b = Some j" for b j
      using that by (auto simp: delete_queue_row_def dest!: in_update_rows split: if_splits)
  qed (use l in \<open>auto simp: delete_queue_row_def linked_iff distinct_map_delete_rows intro: same_row_mem\<close>)
  moreover have "keeps d0 ?d"
    unfolding keeps_def
  proof (intro conjI ballI allI impI)
    show "accounted q d0 ?d" if q: "q \<in> set (db_queue d0)" "known_cycle q d0" for q
    proof -
      have "accounted q d0 d" using kept q by (simp add: keeps_def)
      then consider (there) r where "r \<in> set (db_queue d)" "same_row q r"
          "waits r \<or> nc_status r = nc_status q \<and> nc_failure_code r = nc_failure_code q \<or> set_aside r d"
        | (out) "served q d0 d \<or> concluded q d0 d"
        unfolding accounted_def still_there_def by blast
      then show ?thesis
      proof cases
        case there
        show ?thesis
        proof (cases "nc_pk r = k")
          case True
          have "served r d0 d \<or> concluded r d0 d" by (rule assms(2) [OF l0 l there(1) True])
          then show ?thesis using same_row_transfer [OF there(2)] gone [of q] unfolding accounted_def by blast
        next
          case False
          then have r: "r \<in> set (db_queue ?d)" using there(1) by (simp add: delete_queue_row_def)
          have "set_aside r ?d" if s: "set_aside r d"
          proof -
            have "\<exists>b \<in> set (db_attempts ?d). at_ticket b = nc_ticket r \<and> at_state b = Completed"
              if "a \<in> set (db_attempts d)" "at_ticket a = nc_ticket r" "at_state a = Completed" for a
              using saved [OF that(1)] that(2,3) unfolding same_verdict_def by metis
            moreover have "\<exists>b \<in> set (db_attempts ?d). fits r b \<and> at_state b = Compensated \<and> at_result_class b = nc_failure_code r"
              if "a \<in> set (db_attempts d)" "fits r a" "at_state a = Compensated" "at_result_class a = nc_failure_code r" for a
              using saved [OF that(1)] that(2-4) unfolding same_verdict_def fits_def by metis
            moreover have "left_queue ?d c = left_queue d c" for c by (simp add: left_queue_iff cycle_of_def frame)
            ultimately show ?thesis using s unfolding set_aside_def by (auto split: option.splits)
          qed
          then show ?thesis using r there(2,3) unfolding accounted_def still_there_def by blast
        qed
      next
        case out
        then show ?thesis using gone unfolding accounted_def by blast
      qed
    qed
    show "\<exists>b \<in> set (db_attempts ?d). same_verdict a b" if a: "a \<in> set (db_attempts d0)" "at_state a \<in> {Completed, Compensated}" for a
    proof -
      obtain b where b: "b \<in> set (db_attempts d)" "same_verdict a b" using keeps_verdict [OF kept a] by blast
      obtain x where "x \<in> set (db_attempts ?d)" "same_verdict b x" using saved [OF b(1)] by blast
      then show ?thesis using b(2) unfolding same_verdict_def by (metis (no_types))
    qed
    fix c
    show "moved_on ?d c" if "moved_on d0 c" using kept that by (simp add: keeps_def moved_on_iff cycle_of_def frame)
    show "left_queue ?d c" if "left_queue d0 c" using kept that by (simp add: keeps_def left_queue_iff cycle_of_def frame)
    show "cycle_of ?d c \<noteq> None" if "cycle_of d0 c \<noteq> None"
      using kept that unfolding keeps_def cycle_of_def frame by blast
  qed (use kept in \<open>simp_all add: keeps_def frame\<close>)
  ultimately show "linked ?d \<and> keeps d0 ?d" by blast
qed

lemma retains_put_cycle:
  assumes "cy_state c \<in> {Assigned, Closed}"
  shows "retains d (put_cycle c d)"
proof (rule retainsI)
  show "same_cycles d (put_cycle c d)"
    using assms
    by (auto simp: same_cycles_def moved_on_iff left_queue_iff cycle_of_def put_cycle_def get_row_save_row split: option.splits)
  show "accounted q d (put_cycle c d)" if "q \<in> set (db_queue d)" for q
    by (rule present_accounted) (simp add: that put_cycle_def)
  show "\<exists>b \<in> set (db_attempts (put_cycle c d)). same_verdict a b" if "a \<in> set (db_attempts d)" for a
    by (rule bexI [of _ a]) (simp_all add: that put_cycle_def)
qed (auto simp: linked_iff put_cycle_def)

lemma retains_append_cycles:
  assumes "db_cycles d' = db_cycles d @ cs" and "db_queue d' = db_queue d" "db_attempts d' = db_attempts d"
    "db_closed d' = db_closed d" "db_next_pk d \<le> db_next_pk d'"
  shows "retains d d'"
proof (rule retainsI)
  show "linked d'" if "linked d"
    by (rule linked_transfer [OF that]) (use assms that in \<open>auto simp: linked_iff intro: same_row_mem\<close>)
  show "same_cycles d d'"
    using assms(1) by (auto simp: same_cycles_def moved_on_iff left_queue_iff cycle_of_def get_row_append split: option.splits)
  show "\<exists>b \<in> set (db_attempts d'). same_verdict a b" if "a \<in> set (db_attempts d)" for a
    by (rule bexI [of _ a]) (simp_all add: that assms(3))
qed (use assms present_accounted [of _ d'] in auto)

lemma retains_append_queue:
  assumes "db_queue d' = db_queue d @ [q]" and "nc_pk q = db_next_pk d" and "db_next_pk d < db_next_pk d'"
    and "db_attempts d' = db_attempts d" "db_cycles d' = db_cycles d" "db_closed d' = db_closed d"
  shows "retains d d'"
proof (rule retainsI)
  show "linked d'" if l: "linked d"
    unfolding linked_iff
  proof (intro conjI ballI allI impI)
    have "\<forall>r \<in> set (db_queue d). nc_pk r < db_next_pk d" using l by (simp add: linked_iff)
    then show "distinct (map nc_pk (db_queue d'))" using l assms(1,2) by (auto simp: linked_iff)
    show "distinct (map at_pk (db_attempts d'))" using l assms(4) by (simp add: linked_iff)
    show "nc_pk r < db_next_pk d'" if "r \<in> set (db_queue d')" for r
      using l that assms(1-3) by (auto simp: linked_iff)
    show "cl_pk x < db_next_pk d'" if "x \<in> set (db_closed d')" for x
      using l that assms(3,6) unfolding linked_iff by fastforce
    fix b k
    assume b: "b \<in> set (db_attempts d')" "at_queue_row b = Some k"
    then have k: "k < db_next_pk d" "\<forall>r \<in> set (db_queue d). nc_pk r = k \<longrightarrow> fits r b"
      using l assms(4) by (auto simp: linked_iff)
    show "k < db_next_pk d'" using k(1) assms(3) by simp
    show "fits r b" if "r \<in> set (db_queue d')" "nc_pk r = k" for r
      using k that assms(1,2) by auto
  qed
  show "accounted r d d'" if "r \<in> set (db_queue d)" for r
    by (rule present_accounted) (simp add: that assms(1))
  show "same_cycles d d'" using assms(5) by (rule same_cycles_eq)
  show "\<exists>b \<in> set (db_attempts d'). same_verdict a b" if "a \<in> set (db_attempts d)" for a
    by (rule bexI [of _ a]) (simp_all add: that assms(4))
qed (use assms in auto)

section \<open>Reserving\<close>

lemma retains_after: "retains d1 d2 \<Longrightarrow> same_waiting d d1 \<Longrightarrow> retains d d2"
  using retains_same retains_trans by blast

lemma retains_then: "retains d d1 \<Longrightarrow> same_waiting d1 d2 \<Longrightarrow> retains d d2"
  using retains_same retains_trans by blast

lemma same_waiting_refl [simp]: "same_waiting d d"
  by (simp add: same_waiting_def)

lemma same_waiting_trans: "same_waiting d d1 \<Longrightarrow> same_waiting d1 d2 \<Longrightarrow> same_waiting d d2"
  by (simp add: same_waiting_def)

lemma barrier_ledger:
  assumes "evaluate_opening_cohort_barrier cfg window racing q now d = (d', b)" and "q \<in> set (db_queue d)"
  shows "retains d d'"
proof -
  have judged: "retains d1 (fst (judge_cohort cfg q now co d1))" if "q \<in> set (db_queue d1)" for co d1
  proof -
    have "same_waiting d1 (schedule_recheck co now d1)" "same_waiting d1 (release_cohort co why now d1)" for why
      by (simp_all add: same_waiting_def schedule_recheck_def release_cohort_def put_cohort_def)
    moreover have "retains d1 (defer_row q co (schedule_recheck co now d1))"
    proof (rule retains_after)
      show "same_waiting d1 (schedule_recheck co now d1)" by fact
      have "q \<in> set (db_queue (schedule_recheck co now d1))" using that by (simp add: schedule_recheck_def put_cohort_def)
      then show "retains (schedule_recheck co now d1) (defer_row q co (schedule_recheck co now d1))"
        by (auto simp: defer_row_def same_row_def intro!: retains_write_row)
    qed
    ultimately show ?thesis by (auto simp: judge_cohort_def intro: retains_same)
  qed
  have found: "same_waiting d d1" if "locked_get_or_create cfg start ags now racing d = (d1, r)" for start ags d1 r
    using that by (auto simp: locked_get_or_create_def same_waiting_def split: option.splits)
  show ?thesis
  proof (cases window)
    case None
    then show ?thesis using assms by (auto simp: evaluate_opening_cohort_barrier_def split: if_splits)
  next
    case (Some start)
    obtain d1 r where 1: "locked_get_or_create cfg start (candidate_snapshots cfg d) now racing d = (d1, r)" by fastforce
    have q: "q \<in> set (db_queue d1)" using found [OF 1] assms(2) by (simp add: same_waiting_def)
    have "d' \<in> {d, d1} \<or> (\<exists>co. d' = fst (judge_cohort cfg q now co d1))"
      using assms(1) Some 1 by (auto simp: evaluate_opening_cohort_barrier_def split: if_splits option.splits) (metis fst_conv)
    then show ?thesis using judged [OF q] found [OF 1] retains_after retains_same by auto
  qed
qed

lemma materialize_ledger [simp]: "same_waiting d (materialize cfg ids d)"
  by (simp add: same_waiting_def materialize_def)

lemma hold_ledger [simp]: "same_waiting d (hold_capacity cfg now r g op d)"
  by (simp add: same_waiting_def hold_capacity_def materialize_def put_occupancy_def record_hold_def put_reservation_def Let_def split: prod.splits)

lemma occupancy_ledger: "get_or_create_occupancy q d = (d1, r) \<Longrightarrow> same_waiting d d1"
  by (cases "get_row oc_ident q (db_occupancies d)")
    (auto simp: get_or_create_occupancy_known get_or_create_occupancy_new same_waiting_def)

lemma transaction_ledger: "ticket_transaction cfg t d = Inr (d1, r) \<Longrightarrow> same_waiting d d1"
  by (auto elim!: ticket_transaction_cases intro: occupancy_ledger)

lemma optional_ledger: "optional_ticket_transaction cfg t d = Inr (d1, occ) \<Longrightarrow> same_waiting d d1"
  by (cases "capacity_enforced cfg"; cases "ticket_transaction cfg t d")
    (auto simp: optional_ticket_transaction_def dest: transaction_ledger)

lemma assignment_ledger: "assignment_transaction cfg k d = Inr (d1, occ) \<Longrightarrow> same_waiting d d1"
  by (cases rule: assignment_transaction_cases) (auto intro: transaction_ledger)

lemma put_agent_ledger [simp]: "same_waiting d (put_agent g d)"
  by (simp add: same_waiting_def put_agent_def)

lemma write_reservation_retains:
  assumes "write_reservation cfg w occ q g ty why by d = Inr (d', a)" and "q \<in> set (db_queue d)"
  shows "retains d d'"
proof -
  let ?d0 = "put_queue (claimed_row cfg w q) d"
  let ?d1 = "put_agent (loaded_agent cfg (db_clock (wd_clock w)) g) ?d0"
  let ?d2 = "?d1\<lparr>db_next_pk := Suc (db_next_pk ?d1)\<rparr>"
  let ?a = "new_attempt (db_next_pk ?d1) (wd_clock w) q g ty why by"
  obtain d3 where d3: "insert_attempt ?a ?d2 = Inr d3"
    and d': "d' = (case occ of None \<Rightarrow> d3 | Some r \<Rightarrow> hold_capacity cfg (app_clock (wd_clock w)) r (ag_pk g) (Attempt_Op (db_next_pk ?d1)) d3)"
    using assms(1) by (auto simp: write_reservation_def fresh_pk_def Let_def split: sum.splits)
  note ins = insert_attempt_cases [OF d3]
  have r0: "retains d ?d0" by (rule retains_write_row [OF assms(2)]) (simp_all add: same_row_def claimed_row_def Let_def)
  have mem: "claimed_row cfg w q \<in> set (db_queue ?d0)"
    using assms(2) by (auto simp: put_queue_def in_saved claimed_row_def Let_def)
  have "retains ?d2 d3"
  proof (rule retains_append_attempt)
    show "claimed_row cfg w q \<in> set (db_queue ?d2)" using mem by (simp add: put_agent_def)
    show "db_attempts d3 = db_attempts ?d2 @ [?a]" using ins(1) by simp
    show "at_pk b \<noteq> at_pk ?a" if "b \<in> set (db_attempts ?d2)" for b
      using ins(2) that by (auto simp: attempt_clash_def)
  qed (auto simp: ins(1) new_attempt_def claimed_row_def fits_def Let_def)
  moreover have "same_waiting ?d0 ?d2" by (simp add: same_waiting_def put_agent_def)
  moreover have "same_waiting d3 d'" by (simp add: d' split: option.split)
  ultimately show ?thesis using r0 retains_after retains_then retains_trans by blast
qed

lemma claim_row_cases:
  assumes "claim_row cfg w occ q k why d = Inr (d', v)"
  obtains (same) "d' = d"
  | (stale) c where "nc_cycle q = Some c" "\<not> cycle_assignable d q" "d' = quarantine_row ''stale_cycle'' q d"
  | (ambiguous) a where "nc_cycle q = None" "a \<in> set (db_attempts d)" "at_ticket a = nc_ticket q" "at_state a = Completed"
      "d' = quarantine_row ''legacy_cycle_ambiguous'' q d"
  | (served) a c where "nc_cycle q = Some c" "a \<in> set (db_attempts d)" "at_cycle a = Some c" "at_state a = Completed"
      "d' = delete_queue_row (nc_pk q) d"
  | (written) g a where "write_reservation cfg w occ q g Automatic why [] d = Inr (d', a)"
proof -
  let ?E = "\<lambda>a. at_ticket a = nc_ticket q \<and> at_state a = Completed"
  consider (s) "nc_cycle q \<noteq> None \<and> \<not> cycle_assignable d q"
    | (a) "nc_cycle q = None" "exists_row ?E (db_attempts d)"
    | (o) "\<not> (nc_cycle q \<noteq> None \<and> \<not> cycle_assignable d q)" "\<not> (nc_cycle q = None \<and> exists_row ?E (db_attempts d))"
    by argo
  then show ?thesis
  proof cases
    case s
    then show ?thesis using assms stale by (auto simp: claim_row_def)
  next
    case a
    then obtain x where "x \<in> set (db_attempts d)" "?E x" by (auto simp: exists_row_def)
    then show ?thesis using a assms ambiguous by (simp add: claim_row_def)
  next
    case o
    note run = assms [unfolded claim_row_def if_not_P [OF o(1)] if_not_P [OF o(2)]]
    show ?thesis
    proof (cases "first_row (\<lambda>a. attempt_scope q a \<and> at_state a = Completed) (db_attempts d)")
      case None
      then show ?thesis using run same written by (auto split: option.splits if_splits sum.splits)
    next
      case (Some x)
      then have x: "x \<in> set (db_attempts d)" "attempt_scope q x" "at_state x = Completed" by (auto dest!: first_row_Some)
      have "nc_cycle q \<noteq> None" using o(2) x by (auto simp: exists_row_def attempt_scope_def split: option.splits)
      then show ?thesis using served x run Some by (auto simp: attempt_scope_def)
    qed
  qed
qed

lemma claim_row_retains:
  assumes "claim_row cfg w occ q k why d = Inr (d', v)" and "q \<in> set (db_queue d)"
  shows "retains d d'"
  using assms(1)
proof (cases rule: claim_row_cases)
  case (stale c)
  show ?thesis
    unfolding stale(3) quarantine_row_def
  proof (rule retains_write_row [OF assms(2)])
    assume "known_cycle q d"
    then have "left_queue d c" using stale(1,2) by (auto simp: known_cycle_def cycle_assignable_def left_queue_iff split: option.splits)
    then show "waits (q\<lparr>nc_status := Failed, nc_failure_code := ''stale_cycle''\<rparr>) \<or>
        nc_status (q\<lparr>nc_status := Failed, nc_failure_code := ''stale_cycle''\<rparr>) = nc_status q \<and>
        nc_failure_code (q\<lparr>nc_status := Failed, nc_failure_code := ''stale_cycle''\<rparr>) = nc_failure_code q \<or>
        set_aside (q\<lparr>nc_status := Failed, nc_failure_code := ''stale_cycle''\<rparr>) d"
      using stale(1) by (simp add: set_aside_def)
  qed (simp add: same_row_def)
next
  case (ambiguous a)
  have "set_aside (q\<lparr>nc_status := Failed, nc_failure_code := ''legacy_cycle_ambiguous''\<rparr>) d"
    using ambiguous by (auto simp: set_aside_def)
  then show ?thesis
    unfolding ambiguous(5) quarantine_row_def by (intro retains_write_row [OF assms(2)]) (simp_all add: same_row_def)
next
  case (served a c)
  show ?thesis
    unfolding served(5)
  proof (rule retains_delete [OF retains_refl])
    fix r
    assume "linked d" "r \<in> set (db_queue d)" "nc_pk r = nc_pk q"
    then have "r = q" using linked_same_pk assms(2) by blast
    then show "served r d d \<or> concluded r d d" using served(1-4) unfolding served_def by auto
  qed
next
  case (written g a)
  then show ?thesis using write_reservation_retains assms(2) by blast
qed simp

lemma reserve_candidate_retains:
  assumes "reserve_candidate cfg w ticket excluded pre k why d = Inr (d', v)"
  shows "retains d d'"
proof -
  obtain d1 occ where t: "optional_ticket_transaction cfg (nc_ticket pre) d = Inr (d1, occ)"
    using assms by (auto simp: reserve_candidate_def split: sum.splits)
  let ?now = "db_clock (wd_clock w)"
  let ?P = "\<lambda>q. ready_row ?now ticket excluded q \<and> (capacity_enforced cfg \<longrightarrow> nc_pk q = nc_pk pre)"
  have "retains d1 d'"
  proof (cases "first_by queue_key ?P (db_queue d1)")
    case None
    then show ?thesis using assms t by (simp add: reserve_candidate_def Let_def)
  next
    case (Some q)
    then have q: "q \<in> set (db_queue d1)" using first_by_Some by fastforce
    obtain d2 b where b: "evaluate_opening_cohort_barrier cfg (wd_window w) (wd_racing w) q ?now d1 = (d2, b)" by fastforce
    have "is_deferred b \<and> d' = d2 \<or> \<not> is_deferred b \<and> claim_row cfg w occ q k why d2 = Inr (d', v)"
      using assms t Some b by (simp add: reserve_candidate_def Let_def split: if_splits)
    then show ?thesis
      using barrier_ledger [OF b q] claim_row_retains [of cfg w occ q k why d2 d' v] barrier_frame(6) [OF b] q retains_trans by auto
  qed
  then show ?thesis using optional_ledger [OF t] retains_after by blast
qed

lemma try_candidates_retains:
  "try_candidates cfg w ticket excluded pre cs d = (d', r) \<Longrightarrow> retains d d'"
proof (induction cs arbitrary: d)
  case (Cons c cs)
  obtain g why where c: "c = (g, why)" by (cases c)
  show ?case
  proof (cases "reserve_candidate cfg w ticket excluded pre (ag_pk g) why d")
    case (Inl e)
    then show ?thesis using Cons.prems by (simp add: c)
  next
    case (Inr x)
    obtain d1 v where x: "x = (d1, v)" by (cases x)
    have "retains d d1" by (rule reserve_candidate_retains [OF Inr [unfolded x]])
    then show ?thesis using Cons.prems Cons.IH [of d1] retains_trans by (cases v) (auto simp: c Inr x)
  qed
qed simp

lemma defer_retains: "defer_without_candidate clk ticket excluded d = (d', k) \<Longrightarrow> retains d d'"
proof -
  assume run: "defer_without_candidate clk ticket excluded d = (d', k)"
  show ?thesis
  proof (cases "first_by queue_key (waiting_row ticket excluded) (db_queue d)")
    case None
    then show ?thesis using run by (simp add: defer_without_candidate_def Let_def)
  next
    case (Some q)
    then have "q \<in> set (db_queue d)" using first_by_Some by fastforce
    then have "retains d (put_queue (q\<lparr>nc_status := In_Queue, nc_attempts := nc_attempts q + 1, nc_last_attempt_at := Some (app_clock clk),
        nc_next_attempt_at := Some (app_clock clk + seconds 30), nc_failure_code := ''no_eligible_candidate''\<rparr>) d)"
      by (rule retains_write_row) (simp_all add: same_row_def waits_def)
    then show ?thesis using run Some by (simp add: defer_without_candidate_def Let_def)
  qed
qed

text \<open>The contract of what runs inside: a refresh of an agent's portfolio, a reconciliation of a ticket.\<close>

definition careful :: "(db \<Rightarrow> db \<times> 'a) \<Rightarrow> bool" where
  "careful f \<longleftrightarrow> (\<forall>d. retains d (fst (f d)))"

lemma refresh_all_retains:
  assumes "\<And>k. careful (refresh k)"
  shows "refresh_all refresh ks d = (d', fresh) \<Longrightarrow> retains d d'"
proof (induction ks arbitrary: d d' fresh)
  case (Cons k ks)
  obtain d1 ok where 1: "refresh k d = (d1, ok)" by fastforce
  obtain d2 rest where 2: "refresh_all refresh ks d1 = (d2, rest)" by fastforce
  have "retains d d1" using assms [of k] 1 unfolding careful_def by (metis fst_conv)
  then show ?case using Cons.IH [OF 2] Cons.prems retains_trans by (auto simp: 1 2)
qed simp

lemma verify_retains:
  assumes "\<And>k. careful (wd_refresh w k)" and "verify_candidates cfg w d = (d', cs)"
  shows "retains d d'"
proof -
  obtain d1 fresh where r: "refresh_all (wd_refresh w) (map ag_pk (get_eligible_agents cfg (app_clock (wd_clock w)) True d)) d = (d1, fresh)"
    by fastforce
  have "d' = d \<or> d' = d1" using assms(2) r by (auto simp: verify_candidates_def Let_def split: if_splits)
  then show ?thesis using refresh_all_retains [OF assms(1) r] by auto
qed

lemma reserve_next_retains:
  assumes "reserve_next_assignment cfg w ticket excluded d = (d', r)" and "\<And>k. careful (wd_refresh w k)"
  shows "retains d d'"
proof (cases "first_by queue_key (ready_row (db_clock (wd_clock w)) ticket excluded) (db_queue d)")
  case None
  then show ?thesis using assms(1) by (simp add: reserve_next_assignment_def Let_def)
next
  case (Some pre)
  then have pre: "pre \<in> set (db_queue d)" using first_by_Some by fastforce
  obtain d1 b where b: "evaluate_opening_cohort_barrier cfg (wd_window w) (wd_racing w) pre (db_clock (wd_clock w)) d = (d1, b)" by fastforce
  note r1 = barrier_ledger [OF b pre]
  obtain d2 cs where v: "verify_candidates cfg w d1 = (d2, cs)" by fastforce
  note r2 = verify_retains [OF assms(2) v]
  obtain d3 x where c: "try_candidates cfg w ticket excluded pre cs d2 = (d3, x)" by fastforce
  note r3 = try_candidates_retains [OF c]
  obtain d4 y where e: "defer_without_candidate (wd_clock w) ticket excluded d2 = (d4, y)" by fastforce
  obtain d5 z where f: "defer_without_candidate (wd_clock w) ticket excluded d3 = (d5, z)" by fastforce
  have "d' \<in> {d1, d3, d4, d5}"
    using assms(1) Some b v c e f
    by (auto simp: reserve_next_assignment_def Let_def split: if_splits list.splits sum.splits option.splits)
  then show ?thesis
    using r1 r2 r3 defer_retains [OF e] defer_retains [OF f] retains_trans by blast
qed

section \<open>Settling\<close>

lemma retains_save:
  assumes "attempt_of d k = Some a" and "at_pk b = k" "at_ticket b = at_ticket a" "at_cycle b = at_cycle a"
    and "at_queue_row b \<in> {at_queue_row a, None}" and "at_state a \<notin> {Completed, Compensated}"
  shows "retains d (put_attempt b d)"
proof (cases "linked d")
  case True
  have a: "a \<in> set (db_attempts d)" "at_pk a = k" using assms(1) by (auto simp: attempt_of_def dest: get_row_Some_in)
  show ?thesis
  proof (rule retains_put_attempt)
    fix x
    assume "x \<in> set (db_attempts d)" "at_pk x = at_pk b"
    then have "x = a" using a assms(2) True by (auto simp: linked_iff distinct_map inj_on_def)
    then show "at_ticket b = at_ticket x \<and> at_cycle b = at_cycle x \<and> at_queue_row b \<in> {at_queue_row x, None} \<and>
        at_state x \<notin> {Completed, Compensated}"
      using assms by simp
  qed
qed (simp add: retains_def)

lemma waiting_attempt: "same_waiting d d1 \<Longrightarrow> attempt_of d1 k = attempt_of d k"
  by (simp add: same_waiting_def attempt_of_def)

lemma mark_retains:
  assumes "mark_external_applied cfg clk k what d = Inr (d', a')"
  shows "retains d d'"
proof -
  obtain d1 occ where t: "assignment_transaction cfg k d = Inr (d1, occ)"
    using assms by (auto simp: mark_external_applied_def split: sum.splits)
  obtain a where a: "attempt_of d1 k = Some a"
    using assms t by (auto simp: mark_external_applied_def split: option.splits)
  let ?b = "a\<lparr>at_state := External_Applied,
      at_applied_at := (case at_applied_at a of None \<Rightarrow> Some (db_clock clk) | Some t \<Rightarrow> Some t),
      at_result_class := what, at_last_error := [], at_updated_at := app_clock clk\<rparr>"
  have "d' = d1 \<or> (at_state a \<notin> {Completed, Compensated} \<and> d' = put_attempt ?b d1)"
    using assms t a by (auto simp: mark_external_applied_def Let_def split: if_splits sum.splits dest: save_attempt_frame)
  moreover have "retains d1 (put_attempt ?b d1)" if "at_state a \<notin> {Completed, Compensated}"
    by (rule retains_save [OF a]) (use that attempt_of_key [OF a] in auto)
  ultimately show ?thesis using retains_after [OF _ assignment_ledger [OF t]] by auto
qed

lemma delete_put_commute:
  "at_queue_row b = Some k \<Longrightarrow> put_attempt (b\<lparr>at_queue_row := None\<rparr>) (delete_queue_row k d) = delete_queue_row k (put_attempt b d)"
  by (simp add: delete_queue_row_def put_attempt_def save_row_def update_rows_def)

lemma complete_retains:
  assumes "complete_attempt cfg clk a g cy d = Inr (d', a')" and "attempt_of d k = Some a"
    and "at_state a \<notin> {Completed, Compensated}"
  shows "retains d d'"
proof -
  let ?q = "row_of d (at_queue_row a)"
  let ?b = "a\<lparr>at_state := Completed, at_finalized_at := Some (db_clock clk), at_next_retry_at := None, at_updated_at := app_clock clk\<rparr>"
  obtain d1 where 1: "upsert_assigned cfg a g ?q (db_clock clk) d = Inr d1"
    using assms(1) by (auto simp: complete_attempt_def Let_def split: sum.splits)
  let ?d2 = "count_assignment (at_agent a) (upsert_log clk a g ?q d1)"
  have s: "same_waiting d ?d2"
    using 1 by (auto simp: same_waiting_def count_assignment_def upsert_log_def upsert_assigned_def put_assigned_def
        split: option.splits list.splits)
  have a2: "attempt_of ?d2 k = Some a" using waiting_attempt [OF s] assms(2) by simp
  have key: "at_pk a = k" by (rule attempt_of_key [OF assms(2)])
  have saved: "retains ?d2 (put_attempt ?b ?d2)" by (rule retains_save [OF a2]) (use key assms(3) in auto)
  obtain d4 where 4: "(case ?q of None \<Rightarrow> d4 = put_attempt ?b ?d2 | Some qr \<Rightarrow> d4 = delete_queue_row (nc_pk qr) (put_attempt ?b ?d2))"
    and d': "d' = (case cy of None \<Rightarrow> d4 | Some c \<Rightarrow> put_cycle (c\<lparr>cy_state := Assigned\<rparr>) d4)"
  proof (cases ?q)
    case None
    then have "d' = (case cy of None \<Rightarrow> put_attempt ?b ?d2 | Some c \<Rightarrow> put_cycle (c\<lparr>cy_state := Assigned\<rparr>) (put_attempt ?b ?d2))"
      using assms(1) 1 by (auto simp: complete_attempt_def Let_def None split: sum.splits option.split dest!: save_attempt_frame)
    then show thesis using that [of "put_attempt ?b ?d2"] None by simp
  next
    case (Some qr)
    then have pk: "at_queue_row a = Some (nc_pk qr)"
      by (auto simp: row_of_def queue_of_def split: option.splits dest: get_row_key)
    let ?c = "a\<lparr>at_queue_row := None, at_state := Completed, at_finalized_at := Some (db_clock clk), at_next_retry_at := None,
      at_updated_at := app_clock clk\<rparr>"
    let ?d4 = "put_attempt ?c (delete_queue_row (nc_pk qr) ?d2)"
    have c: "?c = ?b\<lparr>at_queue_row := None\<rparr>" by simp
    have moved: "?d4 = delete_queue_row (nc_pk qr) (put_attempt ?b ?d2)" unfolding c by (rule delete_put_commute) (simp add: pk)
    have "d' = (case cy of None \<Rightarrow> ?d4 | Some c \<Rightarrow> put_cycle (c\<lparr>cy_state := Assigned\<rparr>) ?d4)"
      using assms(1) 1 by (auto simp: complete_attempt_def Let_def Some split: sum.splits option.split dest!: save_attempt_frame)
    then have "d' = (case cy of None \<Rightarrow> delete_queue_row (nc_pk qr) (put_attempt ?b ?d2)
        | Some c \<Rightarrow> put_cycle (c\<lparr>cy_state := Assigned\<rparr>) (delete_queue_row (nc_pk qr) (put_attempt ?b ?d2)))"
      unfolding moved .
    then show thesis using that [of "delete_queue_row (nc_pk qr) (put_attempt ?b ?d2)"] Some by simp
  qed
  have "retains ?d2 d4"
  proof (cases ?q)
    case None
    then show ?thesis using 4 saved by simp
  next
    case (Some qr)
    then have qr: "qr \<in> set (db_queue d)" "at_queue_row a = Some (nc_pk qr)"
      by (auto simp: row_of_def queue_of_def split: option.splits dest: get_row_Some_in)
    have "retains ?d2 (delete_queue_row (nc_pk qr) (put_attempt ?b ?d2))"
    proof (rule retains_delete [OF saved])
      fix q
      assume l0: "linked ?d2" and l: "linked (put_attempt ?b ?d2)" and q: "q \<in> set (db_queue (put_attempt ?b ?d2))" "nc_pk q = nc_pk qr"
      have a: "a \<in> set (db_attempts ?d2)" using a2 by (auto simp: attempt_of_def dest!: get_row_Some_in)
      then have b: "?b \<in> set (db_attempts (put_attempt ?b ?d2))" by (auto simp: put_attempt_def in_saved)
      have "x = a" if "x \<in> set (db_attempts ?d2)" "at_pk x = at_pk a" for x
        using l0 a that by (auto simp: linked_iff distinct_map inj_on_def)
      then have new: "\<not> (\<exists>x \<in> set (db_attempts ?d2). at_pk x = at_pk ?b \<and> at_state x = Completed)" using assms(3) by auto
      have "fits q ?b" using l b q qr(2) unfolding linked_iff by simp
      then show "served q ?d2 (put_attempt ?b ?d2) \<or> concluded q ?d2 (put_attempt ?b ?d2)"
        using new unfolding served_def by (intro disjI1 bexI [OF _ b]) simp
    qed
    then show ?thesis using 4 Some by simp
  qed
  moreover have "retains d4 d'" by (auto simp: d' intro: retains_put_cycle split: option.split)
  ultimately show ?thesis using retains_trans retains_after [OF _ s] by blast
qed

lemma finalize_retains:
  assumes "finalize_assignment_attempt cfg clk k d = Inr (d', a')"
  shows "retains d d'"
  using assms
proof (cases rule: finalize_cases)
  case (again d1 occ)
  then show ?thesis using retains_same assignment_ledger by blast
next
  case (completes d1 occ a cy g)
  then have "retains d1 d'" by (intro complete_retains [OF completes(8) completes(3)]) simp
  then show ?thesis using retains_after assignment_ledger [OF completes(1)] by blast
qed

text \<open>A compensation sets the row aside only under a code that its attempt then carries.\<close>

definition quarantines :: "bool \<Rightarrow> bool \<Rightarrow> bool \<Rightarrow> string \<Rightarrow> bool" where
  "quarantines quarantine retryable repair code \<longleftrightarrow> (quarantine \<longrightarrow> \<not> retryable \<and> \<not> repair \<and> code \<in> set effect_codes)"

lemma release_row_retains:
  assumes "a \<in> set (db_attempts d)" and "quarantine \<Longrightarrow> at_state a = Compensated \<and> at_result_class a = code \<and> code \<in> set effect_codes"
  shows "retains d (release_row quarantine code now a d)"
proof (cases "row_of d (at_queue_row a)")
  case (Some q)
  then have q: "q \<in> set (db_queue d)" "at_queue_row a = Some (nc_pk q)"
    by (auto simp: row_of_def queue_of_def split: option.splits dest: get_row_Some_in get_row_key)
  let ?r = "unclaimed_row quarantine code now a q"
  have "retains d (put_queue ?r d)"
  proof (rule retains_write_row [OF q(1)])
    show "waits ?r \<or> nc_status ?r = nc_status q \<and> nc_failure_code ?r = nc_failure_code q \<or> set_aside ?r d" if l: "linked d"
    proof (cases quarantine)
      case True
      have "fits q a" using l assms(1) q unfolding linked_iff by blast
      then have "fits ?r a" by (simp add: fits_def unclaimed_row_def)
      then have "set_aside ?r d" using assms True unfolding set_aside_def by (auto simp: unclaimed_row_def)
      then show ?thesis by blast
    qed (simp add: waits_def unclaimed_row_def)
  qed (simp add: same_row_def unclaimed_row_def)
  then show ?thesis using Some by (simp add: release_row_def)
qed (simp add: release_row_def)

lemma put_attempt_release_row:
  "put_attempt b (release_row quarantine code now a d) = release_row quarantine code now a (put_attempt b d)"
  by (simp add: release_row_def put_attempt_def put_queue_def row_of_def queue_of_def split: option.split)

lemma compensated_attempt_fields:
  "at_pk (compensated_attempt retryable repair code clk a) = at_pk a"
  "at_ticket (compensated_attempt retryable repair code clk a) = at_ticket a"
  "at_cycle (compensated_attempt retryable repair code clk a) = at_cycle a"
  "at_queue_row (compensated_attempt retryable repair code clk a) = at_queue_row a"
  "at_result_class (compensated_attempt retryable repair code clk a) = code"
  "\<not> retryable \<Longrightarrow> \<not> repair \<Longrightarrow> at_state (compensated_attempt retryable repair code clk a) = Compensated"
  by (simp_all add: compensated_attempt_def compensation_state_def Let_def)

lemma compensate_retains:
  assumes "compensate_assignment_attempt cfg clk k retryable code quarantine repair d = Inr (d', a')"
    and "quarantines quarantine retryable repair code"
  shows "retains d d'"
  using assms(1)
proof (cases rule: compensate_cases)
  case (unchanged d1 occ)
  then show ?thesis using retains_same assignment_ledger by blast
next
  case (ambiguous d1 occ a)
  note s = assignment_ledger [OF ambiguous(1)]
  have a: "attempt_of d1 k = Some a" using ambiguous(2) waiting_attempt [OF s] by simp
  have "retains d1 (put_attempt a' d1)"
    by (rule retains_save [OF a]) (use ambiguous(3) attempt_of_key [OF a] in \<open>auto simp: ambiguous(6) spent_def terminal_attempt_states_def\<close>)
  moreover have "same_waiting x (degrade_agents ids x)" for x ids by (simp add: same_waiting_def degrade_agents_def)
  ultimately show ?thesis unfolding ambiguous(7) using retains_after [OF _ s] retains_then by blast
next
  case (settled d1 occ a d2)
  note s = assignment_ledger [OF settled(1)]
  define d4 where "d4 = (let d3 = (if occ \<noteq> None \<or> get_row rs_attempt (Some k) (db_reservations d) \<noteq> None
                    then materialize cfg [at_agent a] d2 else d2)
          in if at_compensated_at a = None then release_chat cfg (db_clock clk) (at_agent a) d3 else d3)"
  have "same_waiting d1 d4"
    unfolding d4_def settled(6)
    by (auto simp: Let_def same_waiting_def materialize_def release_chat_def conclude_reservation_def put_reservation_def split: option.split)
  then have s4: "same_waiting d d4" using s same_waiting_trans by blast
  have a: "attempt_of d4 k = Some a" using settled(2) waiting_attempt [OF s4] by simp
  let ?d5 = "put_attempt a' d4"
  have 1: "retains d4 ?d5"
    by (rule retains_save [OF a])
      (use settled(3) attempt_of_key [OF a] in \<open>auto simp: settled(5) compensated_attempt_fields terminal_attempt_states_def\<close>)
  have "\<exists>x \<in> set (db_attempts d4). at_pk x = at_pk a'"
    using a unfolding settled(5) compensated_attempt_fields(1) by (auto simp: attempt_of_def dest!: get_row_Some_in)
  then have "a' \<in> set (db_attempts ?d5)" by (simp add: put_attempt_def in_saved)
  then have "retains ?d5 (release_row quarantine code (db_clock clk) a' ?d5)"
    by (rule release_row_retains) (use assms(2) in \<open>simp add: settled(5) quarantines_def compensated_attempt_fields\<close>)
  then have "retains d4 d'"
    unfolding settled(7) d4_def [symmetric] put_attempt_release_row using 1 retains_trans by blast
  then show ?thesis using retains_after [OF _ s4] by blast
qed

section \<open>Executing\<close>

lemma returning_retains:
  assumes "returning d r out = (d', x)" and "\<And>d1 a. r = Inr (d1, a) \<Longrightarrow> retains d d1"
  shows "retains d d'"
  using assms by (auto simp: returning_def split: sum.splits)

lemma compensating_retains:
  "returning d (compensate_assignment_attempt cfg clk k retryable code quarantine repair d) out = (d', x) \<Longrightarrow>
     quarantines quarantine retryable repair code \<Longrightarrow> retains d d'"
  by (erule returning_retains) (rule compensate_retains)

lemma quarantines_simps [simp]:
  "quarantines False retryable repair code" "quarantines True False False ''hubspot_ticket_not_found''"
  "quarantines True False False ''stale_ticket''" "quarantines True False False ''hubspot_manual_owner_observed''"
  by (simp_all add: quarantines_def effect_codes_def)

lemma confirm_retains: "confirm_and_finalize cfg clk what k d = (d', x) \<Longrightarrow> retains d d'"
proof -
  assume run: "confirm_and_finalize cfg clk what k d = (d', x)"
  show ?thesis
  proof (cases "mark_external_applied cfg clk k what d")
    case (Inl e)
    then show ?thesis using run by (simp add: confirm_and_finalize_def)
  next
    case (Inr y)
    obtain d1 a where y: "y = (d1, a)" by (cases y)
    have "retains d1 d'" using run by (auto simp: confirm_and_finalize_def Inr y intro: returning_retains finalize_retains)
    then show ?thesis using mark_retains [OF Inr [unfolded y]] retains_trans by blast
  qed
qed

lemmas settling = compensating_retains confirm_retains

lemma unreadable_retains: "unreadable_owner cfg clk k code d = (d', x) \<Longrightarrow> retains d d'"
  unfolding unreadable_owner_def by (erule compensating_retains) simp

lemma converge_retains: "converge_on_owner cfg clk a err raw d = (d', x) \<Longrightarrow> retains d d'"
  by (auto simp: converge_on_owner_def Let_def intro: settling split: if_splits)

lemma careful_result: "careful f \<Longrightarrow> f d = (d', x) \<Longrightarrow> retains d d'"
  unfolding careful_def by (metis fst_conv)

lemma readback_retains:
  assumes "reconcile_ambiguous_attempt cfg clk pv k err d = (d', x)" and "\<And>t why. careful (pv_reconcile pv t why)"
  shows "retains d d'"
proof (cases "attempt_of d k")
  case None
  then show ?thesis using assms(1) by (simp add: reconcile_ambiguous_attempt_def)
next
  case (Some a)
  obtain d1 r where r: "pv_reconcile pv (at_ticket a) ''effect_readback'' d = (d1, r)" by fastforce
  have 1: "retains d d1" by (rule careful_result [OF assms(2) r])
  have "retains d d' \<or> retains d1 d'"
    using assms(1) Some r
    by (auto simp: reconcile_ambiguous_attempt_def intro: compensating_retains compensate_retains unreadable_retains converge_retains
        split: if_splits reconciled.splits ticket_read.splits sum.splits)
  then show ?thesis using 1 retains_trans by blast
qed

lemma apply_owner_retains:
  assumes "apply_owner cfg clk pv a d = (d', x)" and "\<And>t why. careful (pv_reconcile pv t why)"
  shows "retains d d'"
  using assms(1) readback_retains [OF _ assms(2)]
  by (auto simp: apply_owner_def intro: compensating_retains split: patch_result.splits)

lemma external_owner_retains:
  assumes "external_owner cfg clk pv a d = (d', x)" and "\<And>t why. careful (pv_reconcile pv t why)"
  shows "retains d d'"
proof (cases "compensate_assignment_attempt cfg clk (at_pk a) False ''hubspot_manual_owner_observed'' True False d")
  case (Inl e)
  then show ?thesis using assms(1) by (simp add: external_owner_def)
next
  case (Inr y)
  obtain d1 b where y: "y = (d1, b)" by (cases y)
  obtain d2 r where r: "pv_reconcile pv (at_ticket a) ''external_owner'' d1 = (d2, r)" by fastforce
  have "d' \<in> {d1, d2}" using assms(1) Inr y r by (auto simp: external_owner_def split: if_splits reconciled.splits)
  then show ?thesis using compensate_retains [OF Inr [unfolded y] quarantines_simps(4)] careful_result [OF assms(2) r] retains_trans by blast
qed

lemma apply_effect_retains:
  assumes "apply_effect cfg clk pv a d = (d', x)" and "\<And>t why. careful (pv_reconcile pv t why)"
  shows "retains d d'"
proof -
  obtain d1 t where p: "precondition_read cfg pv a d = (d1, t)" by fastforce
  obtain d2 r where r: "pv_reconcile pv (at_ticket a) ''precondition'' d = (d2, r)" by fastforce
  have "d1 \<in> {d, d2}" using p r by (auto simp: precondition_read_def split: if_splits reconciled.splits)
  then have 1: "retains d d1" using careful_result [OF assms(2) r] by auto
  have "retains d1 d'"
    using assms(1) p apply_owner_retains [OF _ assms(2)] external_owner_retains [OF _ assms(2)]
    by (auto simp: apply_effect_def Let_def intro: settling split: ticket_read.splits if_splits)
  with 1 show ?thesis by (rule retains_trans)
qed

lemma execute_retains:
  assumes "execute_assignment_attempt cfg clk pv k d = (d', x)" and "\<And>t why. careful (pv_reconcile pv t why)"
  shows "retains d d'"
proof -
  have "retains d d1" if "execute_unlocked cfg clk pv k d = (d1, y)" for d1 y
    using that readback_retains [OF _ assms(2)] apply_effect_retains [OF _ assms(2)]
    by (auto simp: execute_unlocked_def intro: compensating_retains split: option.splits if_splits)
  then show ?thesis using assms(1) by (auto simp: execute_assignment_attempt_def split: if_splits prod.splits)
qed

section \<open>Draining\<close>

definition careful_turn :: "turn \<Rightarrow> bool" where
  "careful_turn t \<longleftrightarrow> (\<forall>k. careful (wd_refresh (tn_world t) k)) \<and> (\<forall>ticket why. careful (pv_reconcile (tn_provider t) ticket why))"

lemma put_db_db [simp]: "desk_db (put_db d k) = d"
  by (simp add: desk_db_def put_db_def)

lemma assigned_desk_db [simp]: "desk_db (assigned_desk now a k) = desk_db k"
  by (simp add: assigned_desk_def desk_db_def split: option.split prod.split)

lemma process_item_retains:
  assumes "process_queue_item cfg t ticket excluded k = (k', r)" and "careful_turn t"
  shows "retains (desk_db k) (desk_db k')"
proof (cases "may_assign cfg (tn_gate t)")
  case False
  then show ?thesis using assms(1) by (simp add: process_queue_item_def)
next
  case True
  have careful: "\<And>k. careful (wd_refresh (tn_world t) k)" "\<And>ticket why. careful (pv_reconcile (tn_provider t) ticket why)"
    using assms(2) by (simp_all add: careful_turn_def)
  obtain d x where 1: "reserve_next_assignment cfg (tn_world t) ticket excluded (desk_db k) = (d, x)" by fastforce
  note r1 = reserve_next_retains [OF 1 careful(1)]
  have "retains d d1" if "execute_assignment_attempt cfg (wd_clock (tn_world t)) (tn_provider t) j d = (d1, y)" for j d1 y
    by (rule execute_retains [OF that careful(2)])
  then have "retains d (desk_db k')"
    using assms(1) True 1
    by (auto simp: process_queue_item_def split: sum.splits option.splits if_splits prod.splits)
  with r1 show ?thesis by (rule retains_trans)
qed

lemma drain_turn_retains:
  assumes "drain_turn cfg t s = ((s', b), e)" and "careful_turn t"
  shows "retains (desk_db (dr_desk s)) (desk_db (dr_desk s'))"
proof -
  obtain k r where p: "process_queue_item cfg t None (dr_seen s) (dr_desk s) = (k, r)" by fastforce
  have "dr_desk s' = k" using assms(1) p by (auto simp: drain_turn_def Let_def split: sum.splits if_splits)
  then show ?thesis using process_item_retains [OF p assms(2)] by simp
qed

lemma drain_loop_retains:
  assumes "drain_loop cfg fuel pending ts t0 s = Some (s', e)" and "\<forall>t \<in> set (t0 # ts). careful_turn t"
  shows "retains (desk_db (dr_desk s)) (desk_db (dr_desk s'))"
  using assms
proof (induction fuel arbitrary: ts s)
  case 0
  then show ?case by (auto split: if_splits)
next
  case (Suc n)
  let ?t = "case ts of [] \<Rightarrow> t0 | t # _ \<Rightarrow> t"
  obtain s1 b f where 1: "drain_turn cfg ?t s = ((s1, b), f)" by (metis prod.collapse)
  have "careful_turn ?t" using Suc.prems(2) by (cases ts) auto
  note r = drain_turn_retains [OF 1 this]
  show ?case
  proof (cases "pending \<le> length (dr_seen s)")
    case True
    then show ?thesis using Suc.prems(1) by simp
  next
    case False
    have tl: "\<forall>t \<in> set (t0 # tl ts). careful_turn t" using Suc.prems(2) by (cases ts) auto
    show ?thesis
    proof (cases b)
      case True
      then have "drain_loop cfg n pending (tl ts) t0 s1 = Some (s', e)" using Suc.prems(1) False 1 by simp
      then show ?thesis using Suc.IH [OF _ tl] r retains_trans by blast
    next
      case no: False
      then show ?thesis using Suc.prems(1) False 1 r by simp
    qed
  qed
qed

lemma drain_retains:
  assumes "matchmaker_drain_queue cfg fuel ts t0 k = Some (k', r)" and "\<forall>t \<in> set (t0 # ts). careful_turn t"
  shows "retains (desk_db k) (desk_db k')"
proof -
  let ?s = "\<lparr>dr_desk = k, dr_seen = [], dr_counts = zero_counts, dr_no_progress = 0\<rparr>"
  have "k' = k \<or> (\<exists>s e. drain_loop cfg fuel (active_queue (desk_db k)) ts t0 ?s = Some (s, e) \<and> k' = dr_desk s)"
    using assms(1) by (auto simp: matchmaker_drain_queue_def Let_def split: if_splits option.splits)
  then show ?thesis using drain_loop_retains [OF _ assms(2), of cfg fuel _ ?s] by fastforce
qed

end
