(* ===== verification/Queue_Safety.thy ===== *)
theory Queue_Safety
  imports Queue_Retention
begin

text \<open>
  The contract of \<open>Queue_Retention\<close> holds of the reconciliations of \<open>Owner_Reconciliation\<close> and of the closes of
  \<open>Ticket_Close\<close>, which run inside a drain and beside it, and with them no waiting ticket is lost.
\<close>

section \<open>Reconciling\<close>

lemma waiting_updates [simp]:
  "same_waiting d (record_transfer a agent owner d)" "same_waiting d (transfer_assigned a row n d)"
  "same_waiting d (put_occupancy row d)" "same_waiting d (stamp_assignment cfg now row p d)"
  "same_waiting d (settle_reservation now row owner' r d)" "same_waiting d (degrade_agents ids d)"
  by (auto simp: same_waiting_def record_transfer_def transfer_assigned_def put_assigned_def put_occupancy_def
      stamp_assignment_def settle_reservation_def conclude_reservation_def put_reservation_def degrade_agents_def Let_def
      split: option.splits)

lemma settle_all_waiting: "same_waiting d (fold (settle_reservation now row owner) rs d)"
  by (induction rs arbitrary: d) (simp, metis fold_simps(2) same_waiting_trans waiting_updates(5))

lemma adopt_retains:
  assumes "adopt_queued now row owner y q d = Inr d'" and "q \<in> set (db_queue d)" "nc_cycle q = Some (cy_pk y)"
    and "y \<in> set (db_cycles d)"
  shows "retains d d'"
proof -
  let ?d1 = "d\<lparr>db_assigned := db_assigned d @ [adopted_row d row owner y q],
      db_logs := db_logs d @ [adopted_log now d row owner y q], db_next_pk := Suc (Suc (db_next_pk d))\<rparr>"
  let ?d2 = "put_cycle (y\<lparr>cy_state := Assigned\<rparr>) ?d1"
  have d': "d' = delete_queue_row (nc_pk q) ?d2" using assms(1) by (simp add: adopt_queued_def split: if_splits)
  have "same_waiting d ?d1" by (simp add: same_waiting_def)
  then have 1: "retains d ?d2" using retains_after [OF retains_put_cycle [of "y\<lparr>cy_state := Assigned\<rparr>" ?d1]] by simp
  obtain x where x: "get_row cy_pk (cy_pk y) (db_cycles d) = Some x"
    using assms(4) by (cases "get_row cy_pk (cy_pk y) (db_cycles d)") (auto simp: get_row_None)
  show ?thesis
    unfolding d'
  proof (rule retains_delete [OF 1])
    fix r
    assume "linked d" "linked ?d2" "r \<in> set (db_queue ?d2)" "nc_pk r = nc_pk q"
    moreover have "q \<in> set (db_queue ?d2)" using assms(2) by (simp add: put_cycle_def)
    ultimately have "r = q" using linked_same_pk by blast
    then show "served r d ?d2 \<or> concluded r d ?d2"
      using assms(3) x by (simp add: concluded_def moved_on_iff cycle_of_def put_cycle_def get_row_save_row)
  qed
qed

lemma project_owner_retains:
  assumes "project_owner now row d = Inr (d', row', moved)"
  shows "retains d d'"
proof (cases "oc_state row = Oc_Active")
  case False
  have "same_waiting d d'"
    using assms False
    by (auto simp: project_owner_def Let_def same_waiting_def record_transfer_def split: option.splits if_splits)
  then show ?thesis by (rule retains_same)
next
  case True
  let ?c = "first_row (live_cycle (oc_account row) (oc_ticket row)) (db_cycles d)"
  let ?row = "row\<lparr>oc_cycle := map_option cy_pk ?c\<rparr>"
  have "d' = d \<or> (\<exists>r owner. d' = transfer_assigned r ?row owner d) \<or>
      (\<exists>y q owner. ?c = Some y \<and> first_row (\<lambda>q. nc_cycle q = Some (cy_pk y)) (db_queue d) = Some q \<and>
         adopt_queued now ?row owner y q d = Inr d')"
    using assms True
    by (auto simp: project_owner_def Let_def and_then_Inr_iff split: option.splits if_splits)
  then show ?thesis
    using adopt_retains by (auto intro: retains_same dest!: first_row_Some)
qed

lemma open_cycle_retains:
  assumes "open_cycle cfg ticket v event account d = Inr (d', r)"
  shows "retains d d'"
proof -
  obtain rows where rows: "open_or_get_cycle (key_env cfg) (db_next_pk d) ticket v event account [] (db_cycles d) = Inr (rows, r)"
    and d': "d' = d\<lparr>db_cycles := rows, db_next_pk := (if or_classification r = Created then Suc (db_next_pk d) else db_next_pk d)\<rparr>"
    using assms by (auto simp: open_cycle_def and_then_Inr_iff)
  have "\<exists>cs. rows = db_cycles d @ cs"
    using rows by (auto simp: open_or_get_cycle_def open_identity_def insert_cycle_def Let_def split: sum.splits if_splits option.splits)
  then obtain cs where "rows = db_cycles d @ cs" by blast
  then show ?thesis by (intro retains_append_cycles [of d' d cs]) (simp_all add: d')
qed

lemma ensure_retains: "ensure_queue_row ticket pipeline c d = Inr d' \<Longrightarrow> retains d d'"
  by (auto simp: ensure_queue_row_def observed_queue_row_def split: option.splits intro: retains_append_queue)

lemma admit_retains:
  assumes "admit_projection cfg snap opened row d = Inr (d', b)"
  shows "retains d d'"
proof (cases "oc_state row = Oc_Active \<and> entry_given (tk_novo snap)")
  case False
  then show ?thesis using assms by (auto simp: admit_projection_def split: if_splits)
next
  case True
  then obtain d1 o1 where 1: "(if provider_contract_mode cfg = Contract_Off
        then and_then (open_cycle cfg (oc_ticket row) (tk_novo snap) None (Some (oc_account row)) d) (\<lambda>(d', r). Inr (d', Some r))
        else Inr (d, opened)) = Inr (d1, o1)"
    and 2: "(case queued_attendance o1 of None \<Rightarrow> Inr d1 | Some c \<Rightarrow> ensure_queue_row (oc_ticket row) (oc_pipeline row) c d1) = Inr d'"
    using assms unfolding admit_projection_def by (auto simp: and_then_Inr_iff)
  have "retains d d1" using 1 open_cycle_retains by (auto simp: and_then_Inr_iff split: if_splits)
  moreover have "retains d1 d'" using 2 ensure_retains by (auto split: option.splits)
  ultimately show ?thesis by (rule retains_trans)
qed

lemma project_observed_retains:
  assumes "project_observed cfg now snap opened row d = Inr (d', row', moved)"
  shows "retains d d'"
proof (cases "capacity_enforced cfg")
  case False
  then show ?thesis using assms by (simp add: project_observed_def)
next
  case True
  then obtain d1 b where a: "admit_projection cfg snap opened row d = Inr (d1, b)"
    and b: "if b then project_owner now row d1 = Inr (d', row', moved) else d' = d1"
    using assms by (auto simp: project_observed_def and_then_Inr_iff split: if_splits)
  show ?thesis using admit_retains [OF a] b project_owner_retains retains_trans by (cases b) auto
qed

section \<open>Closing\<close>

lemma concluded_cong: "db_cycles d' = db_cycles d \<Longrightarrow> db_closed d' = db_closed d \<Longrightarrow> concluded q d0 d' = concluded q d0 d"
  by (simp add: concluded_def moved_on_iff cycle_of_def split: option.split)

lemma delete_each_retains:
  assumes "linked d" and "\<forall>q \<in> set qs. q \<in> set (db_queue d) \<and> concluded q d0 d"
    and "set (db_queue x) \<subseteq> set (db_queue d)" "db_cycles x = db_cycles d" "db_closed x = db_closed d" "retains d0 x"
  shows "retains d0 (fold (\<lambda>q. delete_queue_row (nc_pk q)) qs x)"
  using assms(2-)
proof (induction qs arbitrary: x)
  case (Cons q qs)
  let ?x = "delete_queue_row (nc_pk q) x"
  have "retains d0 ?x"
  proof (rule retains_delete [OF Cons.prems(5)])
    fix r
    assume "r \<in> set (db_queue x)" "nc_pk r = nc_pk q"
    then have "r = q" using linked_same_pk [OF assms(1)] Cons.prems(1,2) by auto
    then show "served r d0 x \<or> concluded r d0 x" using Cons.prems concluded_cong [of x d q d0] by simp
  qed
  then have "retains d0 (fold (\<lambda>q. delete_queue_row (nc_pk q)) qs ?x)"
    by (intro Cons.IH) (use Cons.prems in \<open>auto simp: delete_queue_row_def\<close>)
  then show ?case by simp
qed simp

lemma delete_pending_retains:
  assumes "retains d0 d" and "\<And>q. linked d0 \<Longrightarrow> attendance_pending k ticket q \<Longrightarrow> concluded q d0 d"
  shows "retains d0 (delete_pending k ticket d)"
proof (cases "linked d0")
  case True
  then have l: "linked d" using assms(1) by (simp add: retains_def)
  show ?thesis unfolding delete_pending_def by (rule delete_each_retains [OF l]) (use assms True in auto)
qed (simp add: retains_def)

lemma delete_each_put_cycle:
  "fold (\<lambda>q. delete_queue_row (nc_pk q)) qs (put_cycle c d) = put_cycle c (fold (\<lambda>q. delete_queue_row (nc_pk q)) qs d)"
proof (induction qs arbitrary: d)
  case (Cons q qs)
  have "delete_queue_row (nc_pk q) (put_cycle c d) = put_cycle c (delete_queue_row (nc_pk q) d)"
    by (simp add: delete_queue_row_def put_cycle_def)
  then show ?case using Cons.IH by simp
qed simp

lemma delete_pending_put_cycle: "delete_pending k ticket (put_cycle c d) = put_cycle c (delete_pending k ticket d)"
  using delete_each_put_cycle by (simp add: delete_pending_def) (simp add: put_cycle_def)

lemma retains_append_closed:
  assumes "db_closed d' = db_closed d @ [x]" and "db_queue d' = db_queue d" "db_attempts d' = db_attempts d"
    "db_cycles d' = db_cycles d" "cl_pk x < db_next_pk d'" "db_next_pk d \<le> db_next_pk d'"
  shows "retains d d'"
proof (rule retainsI)
  show "linked d'" if "linked d"
    by (rule linked_transfer [OF that]) (use assms that in \<open>auto simp: linked_iff intro: same_row_mem\<close>)
  show "accounted q d d'" if "q \<in> set (db_queue d)" for q
    by (rule present_accounted) (simp add: that assms(2))
  show "same_cycles d d'" using assms(4) by (rule same_cycles_eq)
qed (use assms in \<open>auto intro: same_verdict_mem\<close>)

lemma materialize_retains:
  assumes "materialize_support cfg now target oc current d = Inr d'" and "\<And>c. target = Some c \<Longrightarrow> c \<in> set (db_cycles d)"
  shows "retains d d'"
proof -
  let ?k = "map_option cy_pk target"
  let ?a = "assigned_of d ?k (to_ticket oc)"
  let ?r = "closed_record cfg d ?k oc"
  obtain d1 d2 where 1: "take_back_load cfg now current ?a d = Inr d1" and 2: "insert_closed ?r d1 = Inr d2"
    and 3: "d' = (let d3 = (case ?a of None \<Rightarrow> d2 | Some r \<Rightarrow> d2\<lparr>db_assigned := delete_rows (\<lambda>x. as_pk x = as_pk r) (db_assigned d2)\<rparr>);
               d4 = delete_pending ?k (to_ticket oc) d3
           in (case target of None \<Rightarrow> d4 | Some c \<Rightarrow> put_cycle (c\<lparr>cy_state := Closed, cy_closed_at := Some (to_at oc)\<rparr>) d4))"
    using assms(1) unfolding materialize_support_def Let_def by (elim and_then_InrE) auto
  have r: "cl_cycle ?r = ?k" "cl_ticket ?r = to_ticket oc" by (simp_all add: closed_record_def Let_def split: option.splits)
  have s1: "same_waiting d d1" and pk: "db_next_pk d1 = db_next_pk d"
    using 1 unfolding take_back_load_eq by (auto simp: same_waiting_def split: option.splits dest!: decrement_tables)
  have d2: "d2 = d1\<lparr>db_closed := db_closed d1 @ [?r], db_next_pk := Suc (db_next_pk d1)\<rparr>"
    using 2 by (simp add: insert_closed_def split: if_splits)
  have rpk: "cl_pk ?r = db_next_pk d" by (simp add: closed_record_def Let_def split: option.splits)
  have r2: "retains d1 d2" by (rule retains_append_closed [of d2 d1 ?r]) (simp_all add: d2 rpk pk)
  define d3 where "d3 = (case ?a of None \<Rightarrow> d2 | Some r \<Rightarrow> d2\<lparr>db_assigned := delete_rows (\<lambda>x. as_pk x = as_pk r) (db_assigned d2)\<rparr>)"
  have d': "d' = (case target of None \<Rightarrow> delete_pending ?k (to_ticket oc) d3
      | Some c \<Rightarrow> put_cycle (c\<lparr>cy_state := Closed, cy_closed_at := Some (to_at oc)\<rparr>) (delete_pending ?k (to_ticket oc) d3))"
    unfolding 3 d3_def Let_def by (rule refl)
  have s3: "same_waiting d2 d3" by (simp add: d3_def same_waiting_def split: option.split)
  have r3: "retains d d3" using r2 s1 s3 retains_after retains_then by blast
  show ?thesis
  proof (cases target)
    case None
    have "concluded q d d3" if "linked d" "attendance_pending None (to_ticket oc) q" for q
    proof -
      have "?r \<in> set (db_closed d3)" using s3 by (simp add: same_waiting_def d2)
      moreover have "?r \<notin> set (db_closed d)" using that(1) rpk unfolding linked_iff by fastforce
      moreover have "cl_cycle ?r = None" using r(1) None by simp
      ultimately show ?thesis using that(2) r(2) unfolding concluded_def attendance_pending_def by fastforce
    qed
    then show ?thesis using delete_pending_retains [OF r3, of None "to_ticket oc"] by (simp add: d' None)
  next
    case (Some c)
    let ?c = "c\<lparr>cy_state := Closed, cy_closed_at := Some (to_at oc)\<rparr>"
    have e: "d' = delete_pending (Some (cy_pk c)) (to_ticket oc) (put_cycle ?c d3)"
      by (simp add: d' Some delete_pending_put_cycle)
    have "db_cycles d3 = db_cycles d" using s1 s3 by (simp add: same_waiting_def d2)
    then obtain y where "get_row cy_pk (cy_pk c) (db_cycles d3) = Some y"
      using assms(2) [OF Some] by (cases "get_row cy_pk (cy_pk c) (db_cycles d3)") (auto simp: get_row_None)
    then have "moved_on (put_cycle ?c d3) (cy_pk c)"
      by (simp add: moved_on_iff cycle_of_def put_cycle_def get_row_save_row)
    moreover have "retains d (put_cycle ?c d3)" using r3 retains_put_cycle [of ?c d3] retains_trans by simp
    ultimately show ?thesis
      unfolding e by (intro delete_pending_retains) (simp_all add: attendance_pending_def concluded_def)
  qed
qed

lemma apply_close_retains:
  assumes "apply_close_occurrence cfg now oc snap dry_run allow_legacy s = Inr (s', r)"
  shows "retains (st_db s) (st_db s')"
proof (cases "dry_run \<or> \<not> applies (cr_class r)")
  case True
  then show ?thesis using apply_nothing [OF assms] by simp
next
  case False
  have run: "apply_close_occurrence cfg now oc snap False allow_legacy s = Inr (s', r)" and a: "applies (cr_class r)"
    using False assms by simp_all
  obtain target where t: "target = (case cr_cycle r of None \<Rightarrow> None | Some c \<Rightarrow> find (\<lambda>y. cy_pk y = c) (cycles_of_ticket (st_db s) (to_ticket oc)))"
    and m: "materialize_close cfg now target oc (cr_current r) s = Inr s'"
    using apply_applied [OF run a] by metis
  obtain d where d: "materialize_support cfg now target oc (cr_current r) (st_db s) = Inr d" and s': "st_db s' = d"
    using m by (auto simp: materialize_close_def and_then_Inr_iff)
  have "c \<in> set (db_cycles (st_db s))" if "target = Some c" for c
  proof -
    have "\<exists>k. find (\<lambda>y. cy_pk y = k) (cycles_of_ticket (st_db s) (to_ticket oc)) = Some c"
      using t that by (cases "cr_cycle r") auto
    then have "c \<in> set (cycles_of_ticket (st_db s) (to_ticket oc))" by (metis find_Some_iff nth_mem)
    then show ?thesis by simp
  qed
  then show ?thesis unfolding s' by (rule materialize_retains [OF d])
qed

section \<open>Observing a ticket\<close>

definition spares :: "site \<Rightarrow> site \<Rightarrow> bool" where
  "spares s s' \<longleftrightarrow> retains (st_db s) (st_db s')"

lemma spares_refl [simp]: "spares s s"
  by (simp add: spares_def)

lemma spares_trans: "spares s s1 \<Longrightarrow> spares s1 s2 \<Longrightarrow> spares s s2"
  unfolding spares_def by (rule retains_trans)

lemma spares_transaction: "ticket_transaction cfg ticket (st_db s) = Inr (d, row) \<Longrightarrow> spares s (s\<lparr>st_db := d\<rparr>)"
  by (simp add: spares_def retains_same transaction_ledger)

lemma spares_degrade [simp]: "spares s (degrade_site ids s)"
  by (simp add: spares_def degrade_site_def retains_same)

lemma spares_mark [simp]: "spares s (mark_processed k s)"
  by (simp add: spares_def)

lemma spares_apply: "apply_close_occurrence cfg now oc snap dry_run allow_legacy s = Inr (s', r) \<Longrightarrow> spares s s'"
  unfolding spares_def by (rule apply_close_retains)

lemma spares_insert: "insert_occurrence r s = Inr (s', r') \<Longrightarrow> spares s s'"
  by (auto simp: insert_occurrence_def spares_def same_waiting_def Let_def intro!: retains_same split: if_splits)

lemma spares_proven: "record_proven_occurrence now account ticket ty t ev s = Inr (s', r) \<Longrightarrow> spares s s'"
  by (auto simp: record_proven_occurrence_def get_temporal_def spares_def dest!: save_occurrence_db
      intro: spares_insert [unfolded spares_def] split: if_splits option.splits sum.splits)

lemma spares_pending: "record_pending_close now account ticket k updated obs schedule s = Inr (s', r) \<Longrightarrow> spares s s'"
  by (auto simp: record_pending_close_def and_then_Inr_iff intro: spares_insert split: if_splits option.splits)

lemma spares_open_from:
  assumes "open_from_proven_occurrence cfg now ticket t account ev s = Inr (s', r)"
  shows "spares s s'"
proof -
  obtain s1 p d where 1: "record_proven_occurrence now account ticket Entered_Support_Queue t (ev\<lparr>ob_updated := None\<rparr>) s = Inr (s1, p)"
    and 2: "open_cycle cfg ticket (AwareDatetime t) (Some (ob_event ev)) (Some account) (st_db s1) = Inr (d, r)" and 3: "st_db s' = d"
    using assms by (auto simp: open_from_proven_occurrence_def and_then_Inr_iff Let_def split: if_splits)
  have "spares s1 s'" using open_cycle_retains [OF 2] by (simp add: spares_def 3)
  then show ?thesis using spares_proven [OF 1] spares_trans by blast
qed

lemma spares_prepare:
  assumes "prepare_observation cfg now account ticket obs close snap s = (s', r)"
  shows "spares s s'"
proof -
  have o: "spares s s1" if "open_observed cfg now account ticket obs snap s = Inr (s1, x)" for s1 x
    using that spares_open_from by (fastforce simp: open_observed_def and_then_Inr_iff split: if_splits option.splits)
  have p: "spares s1 s2" if "prove_close cfg now account ticket obs close snap s1 = Inr (s2, x)" for s1 s2 x
    using that spares_proven by (fastforce simp: prove_close_def and_then_Inr_iff split: if_splits option.splits)
  show ?thesis
    using assms o p spares_trans by (fastforce simp: prepare_observation_def split: if_splits sum.splits prod.splits)
qed

lemma spares_project_close:
  assumes "project_close cfg now ticket close snap proven row s = Inr s'"
  shows "spares s s'"
proof -
  have c: "spares s s1" if "apply_ticket_closed cfg now ticket v owner p s = Inr (s1, r)" for v owner p s1 r
    using that by (auto simp: apply_ticket_closed_def intro: spares_apply split: option.splits)
  have "s' = s \<or> (\<exists>s1 r. apply_ticket_closed cfg now ticket (tk_closed snap) StageNone (Some snap) s = Inr (s1, r) \<and> st_db s' = st_db s1)"
    using assms by (auto simp: project_close_def split: if_splits sum.splits option.splits)
  then show ?thesis using c by (auto simp: spares_def)
qed

lemma spares_observation:
  assumes "apply_observation cfg now ticket source obs close ob known row s = Inr (s', row', touched)"
  shows "spares s s'"
proof -
  let ?row1 = "observed_row cfg (st_db s) (on_snap ob) (on_owner ob) row"
  obtain d2 row2 moved where 1: "project_observed cfg now (on_snap ob) (on_opened ob) ?row1 (st_db s) = Inr (d2, row2, moved)"
    using assms by (auto simp: apply_observation_def Let_def split: sum.splits)
  obtain s3 where 2: "project_close cfg now ticket close (on_snap ob) (on_proven ob) row2 (s\<lparr>st_db := d2\<rparr>) = Inr s3"
    using assms by (auto simp: apply_observation_def Let_def 1 split: sum.splits)
  let ?held = "held_of row2 (st_db s3)" and ?row3 = "observed_again now (tk_updated (on_snap ob)) source obs row2"
  let ?d4 = "fold (settle_reservation now row2 (on_owner ob)) ?held (st_db s3)"
  have "st_db s' = stamp_assignment cfg now ?row3 (oc_owner row)
      (materialize cfg (known @ moved @ map rs_agent ?held) (put_occupancy ?row3 ?d4))"
    using assms by (auto simp: apply_observation_def Let_def 1 2)
  moreover have "same_waiting ?d4 (put_occupancy ?row3 ?d4)" by simp
  ultimately have "same_waiting (st_db s3) (st_db s')"
    using settle_all_waiting same_waiting_trans materialize_ledger waiting_updates(4) by metis
  then have "spares s3 s'" by (simp add: spares_def retains_same)
  moreover have "spares s (s\<lparr>st_db := d2\<rparr>)" using project_observed_retains [OF 1] by (simp add: spares_def)
  ultimately show ?thesis using spares_project_close [OF 2] spares_trans by blast
qed

lemma spares_locked:
  assumes "locked_observation cfg now ticket source obs close revision base ob s = Inr (s', row, touched)"
  shows "spares s s'"
proof -
  obtain d r where t: "ticket_transaction cfg ticket (st_db s) = Inr (d, r)"
    using assms by (auto simp: locked_observation_def split: sum.splits)
  have "spares (s\<lparr>st_db := d\<rparr>) s'"
    using assms
    by (auto simp: locked_observation_def t Let_def intro: spares_pending spares_observation split: if_splits sum.splits)
  then show ?thesis using spares_transaction [OF t] spares_trans by blast
qed

text \<open>What other transactions commit while the provider is read keeps the rows as well.\<close>

definition careful_reading :: "reading \<Rightarrow> bool" where
  "careful_reading rd \<longleftrightarrow> (\<forall>s. spares s (fst (rd s)))"

lemma given_careful [simp]: "careful_reading (given snap)"
  by (simp add: careful_reading_def given_def)

lemma careful_readingD: "careful_reading rd \<Longrightarrow> rd s = (s', p) \<Longrightarrow> spares s s'"
  unfolding careful_reading_def by (metis fst_conv)

lemma spares_observe:
  assumes "observe_ticket cfg now ticket source obs close captured base snap s = (s', r)"
  shows "spares s s'"
proof -
  obtain s1 p where 1: "prepare_observation cfg now (oc_account captured) ticket obs close snap s = (s1, p)" by fastforce
  have "spares s1 s'"
    using assms spares_locked by (auto simp: observe_ticket_def 1 split: sum.splits)
  then show ?thesis using spares_prepare [OF 1] spares_trans by blast
qed

lemma spares_reconcile:
  assumes "reconcile_ticket cfg now ticket source obs close rd s = (s', r)" and "careful_reading rd"
  shows "spares s s'"
proof (cases "ticket_transaction cfg ticket (st_db s)")
  case (Inl e)
  then show ?thesis using assms(1) by (simp add: reconcile_ticket_def)
next
  case (Inr x)
  obtain d captured where x: "x = (d, captured)" by (cases x)
  obtain s1 p where 1: "rd (s\<lparr>st_db := d\<rparr>) = (s1, p)" by fastforce
  have "spares s s1" using spares_transaction [OF Inr [unfolded x]] careful_readingD [OF assms(2) 1] spares_trans by blast
  moreover have "spares s1 s'"
    using assms(1) spares_observe by (auto simp: reconcile_ticket_def Inr x 1 Let_def split: sum.splits)
  ultimately show ?thesis by (rule spares_trans)
qed

lemma spares_unlocked: "apply_unlocked cfg now oc snap dry_run allow_legacy s = (s', r) \<Longrightarrow> spares s s'"
  using spares_apply by (auto simp: apply_unlocked_def split: sum.splits)

lemma spares_under_lock:
  assumes "close_under_lock cfg now oc revision snap allow_legacy s = (s', r)"
  shows "spares s s'"
proof (cases "s' = s")
  case False
  then obtain d row s1 x res where 1: "ticket_transaction cfg (to_ticket oc) (st_db s) = Inr (d, row)"
    and 2: "reconcile_ticket cfg now (to_ticket oc) ''close'' [] (Some oc) (given snap) (s\<lparr>st_db := d\<rparr>) = (s1, x)"
    and 3: "apply_close_occurrence cfg now oc (Some snap) False allow_legacy s1 = Inr (s', res)"
    using assms by (auto simp: close_under_lock_def split: sum.splits prod.splits if_splits)
  show ?thesis using spares_transaction [OF 1] spares_reconcile [OF 2] spares_apply [OF 3] spares_trans by simp
qed simp

lemma spares_after_capture:
  assumes "close_after_capture cfg now oc needs reads dry_run allow_legacy rd revision s = (s', r)" and "careful_reading rd"
  shows "spares s s'"
proof (cases reads)
  case False
  then show ?thesis using assms(1) spares_unlocked by (simp add: close_after_capture_def)
next
  case True
  obtain s1 p where rd: "rd s = (s1, p)" by fastforce
  have "spares s1 s'"
    using assms(1) True spares_under_lock spares_unlocked
    by (cases p) (auto simp: close_after_capture_def rd split: if_splits)
  then show ?thesis using careful_readingD [OF assms(2) rd] spares_trans by blast
qed

lemma spares_close:
  assumes "reconcile_close_occurrence cfg now oc dry_run allow_legacy rd s = (s', r)" and "careful_reading rd"
  shows "spares s s'"
proof -
  have "spares x s'" if "close_after_capture cfg now oc n rs dry_run allow_legacy rd v x = (s', r)" for n rs v x
    using spares_after_capture [OF that assms(2)] .
  then show ?thesis
    using assms(1) spares_transaction [of cfg "to_ticket oc" s] spares_trans
    by (fastforce simp: reconcile_close_occurrence_def Let_def split: if_splits sum.splits prod.splits)
qed

lemma spares_handle:
  assumes "handle_ticket_closed cfg now ticket at_ms owner event rd s = (s', r)" and "careful_reading rd"
  shows "spares s s'"
proof -
  have project: "spares s s2" if "project_close_occurrence cfg now oc rd s = (s2, q)" for oc s2 q
  proof (cases "provider_contract_mode cfg = Contract_Off")
    case True
    then show ?thesis using that spares_close [OF _ assms(2)] by (simp add: project_close_occurrence_def)
  next
    case False
    show ?thesis
    proof (cases "record_proven_occurrence now (portal_id (key_env cfg)) (to_ticket oc) Ticket_Closed (to_at oc)
        (webhook_evidence (to_event oc)) s")
      case (Inl e)
      then show ?thesis using that False by (simp add: project_close_occurrence_def)
    next
      case (Inr x)
      obtain s1 p where x: "x = (s1, p)" by (cases x)
      obtain s3 y where y: "reconcile_close_occurrence cfg now oc False (\<not> cycles_enforced cfg) rd s1 = (s3, y)" by fastforce
      have "spares s s3" using spares_proven [OF Inr [unfolded x]] spares_close [OF y assms(2)] spares_trans by blast
      moreover have "spares s3 s2" using that False by (auto simp: project_close_occurrence_def Inr x y split: sum.splits)
      ultimately show ?thesis by (rule spares_trans)
    qed
  qed
  show ?thesis
    using assms(1) project by (auto simp: handle_ticket_closed_def split: sum.splits option.splits)
qed

lemma spares_scan:
  assumes "scan_portfolio cfg now g budget rd ts revision s = (s', r)" and "\<And>t. careful_reading (rd t)"
  shows "spares s s'"
  using assms(1)
proof (induction ts arbitrary: budget revision s)
  case (Cons t ts)
  obtain s1 x where 1: "reconcile_ticket cfg now t ''portfolio'' [] None (rd t) s = (s1, x)" by fastforce
  have s1: "spares s s1" by (rule spares_reconcile [OF 1 assms(2)])
  have "s' = s \<or> s' = s1 \<or> spares s1 s'"
    using Cons.prems Cons.IH by (auto simp: 1 split: if_splits sum.splits)
  then show ?case using s1 spares_trans by auto
qed simp

lemma spares_refresh:
  assumes "refresh_agent_capacity cfg now g force budget lock_free listing rd s = (s', r)" and "\<And>t. careful_reading (rd t)"
  shows "spares s s'"
proof -
  have ready: "spares s1 s2" if "declare_ready now k revision s1 = Inr s2" for k revision s1 s2
    using that by (auto simp: declare_ready_def Let_def spares_def retains_same split: if_splits option.splits)
  have scan: "spares s s2" if "scan_portfolio cfg now k budget rd ts v s = (s2, y)" for k ts v s2 y
    by (rule spares_scan [OF that assms(2)])
  have locked: "spares s s1" if run: "refresh_locked cfg now account a budget listing rd s = (s1, x)" for account a s1 x
  proof -
    have "s1 = s \<or> (\<exists>ts revision s2 y. scan_portfolio cfg now (ag_pk a) budget rd ts revision s = (s2, y) \<and>
        (s1 = s2 \<or> (\<exists>v. declare_ready now (ag_pk a) v s2 = Inr s1)))"
      using run by (fastforce simp: refresh_locked_def split: sum.splits prod.splits if_splits)
    then show ?thesis by (elim disjE exE conjE) (auto dest: scan ready intro: spares_trans)
  qed
  have "s' = s \<or> (\<exists>account a s1 x. refresh_locked cfg now account a budget listing rd s = (s1, x) \<and> (s' = s1 \<or> s' = degrade_site [g] s1))"
    using assms(1) by (fastforce simp: refresh_agent_capacity_def split: if_splits sum.splits option.splits prod.splits)
  then show ?thesis by (elim disjE exE conjE) (auto dest: locked intro: spares_trans [OF _ spares_degrade])
qed

section \<open>No ticket is lost\<close>

text \<open>
  The turns of the program: the refreshes and the reconciliations they make are runs of \<open>refresh_agent_capacity\<close>
  and \<open>reconcile_ticket\<close> on the database of that moment, with whatever lock, budget, listing, reading and further
  tables they meet.  Only what other transactions commit while HubSpot is read is assumed to lose no row.
\<close>

definition portfolio_run :: "settings \<Rightarrow> uuid \<Rightarrow> db \<Rightarrow> db \<Rightarrow> bool" where
  "portfolio_run cfg g d d' \<longleftrightarrow> (\<exists>now force budget free listing rds s. (\<forall>t. careful_reading (rds t)) \<and>
     d' = st_db (fst (refresh_agent_capacity cfg now g force budget free listing rds (s\<lparr>st_db := d\<rparr>))))"

definition owner_run :: "settings \<Rightarrow> string \<Rightarrow> string \<Rightarrow> db \<Rightarrow> db \<Rightarrow> bool" where
  "owner_run cfg ticket why d d' \<longleftrightarrow> (\<exists>now rd s. careful_reading rd \<and>
     d' = st_db (fst (reconcile_ticket cfg now ticket why [] None rd (s\<lparr>st_db := d\<rparr>))))"

definition real_turn :: "settings \<Rightarrow> turn \<Rightarrow> bool" where
  "real_turn cfg t \<longleftrightarrow> (\<forall>g d. portfolio_run cfg g d (fst (wd_refresh (tn_world t) g d))) \<and>
     (\<forall>ticket why d. owner_run cfg ticket why d (fst (pv_reconcile (tn_provider t) ticket why d)))"

lemma portfolio_retains: "portfolio_run cfg g d d' \<Longrightarrow> retains d d'"
  unfolding portfolio_run_def
proof (elim exE conjE)
  fix now force budget free listing rds and s :: site
  assume c: "\<forall>t. careful_reading (rds t)"
    and d': "d' = st_db (fst (refresh_agent_capacity cfg now g force budget free listing rds (s\<lparr>st_db := d\<rparr>)))"
  have "spares (s\<lparr>st_db := d\<rparr>) (fst (refresh_agent_capacity cfg now g force budget free listing rds (s\<lparr>st_db := d\<rparr>)))"
    by (rule spares_refresh [where rd = rds]) (rule prod.collapse [symmetric], rule c [rule_format])
  then show "retains d d'" by (simp add: spares_def d')
qed

lemma owner_retains: "owner_run cfg ticket why d d' \<Longrightarrow> retains d d'"
  unfolding owner_run_def
proof (elim exE conjE)
  fix now rd and s :: site
  assume c: "careful_reading rd" and d': "d' = st_db (fst (reconcile_ticket cfg now ticket why [] None rd (s\<lparr>st_db := d\<rparr>)))"
  have "spares (s\<lparr>st_db := d\<rparr>) (fst (reconcile_ticket cfg now ticket why [] None rd (s\<lparr>st_db := d\<rparr>)))"
    by (rule spares_reconcile [OF _ c]) (rule prod.collapse [symmetric])
  then show "retains d d'" by (simp add: spares_def d')
qed

lemma real_turn_careful: "real_turn cfg t \<Longrightarrow> careful_turn t"
  unfolding real_turn_def careful_turn_def careful_def using portfolio_retains owner_retains by blast

lemma drain_returns: "\<exists>k' r. matchmaker_drain_queue cfg (active_queue (desk_db k)) ts t0 k = Some (k', r)"
proof -
  let ?n = "active_queue (desk_db k)"
  let ?s = "\<lparr>dr_desk = k, dr_seen = [], dr_counts = zero_counts, dr_no_progress = 0\<rparr>"
  have "drain_ok ?s" by (simp add: drain_ok_def counted_rows_def zero_counts_def)
  from drain_loop_ends [OF this, of ?n ?n cfg ts t0] obtain s' e where "drain_loop cfg ?n ?n ts t0 ?s = Some (s', e)" by auto
  then show ?thesis by (cases e) (auto simp: matchmaker_drain_queue_def Let_def)
qed

text \<open>C6: the matchmaker loses no waiting ticket.  After a drain, and after an attempt to assign one ticket, every row
  that was in the queue is still there, with its ticket, its attendance and its place, and waits as before or was
  set aside with a reason that the tables show (its attendance is no longer queued, it has none and its ticket a
  completed attempt, or an attempt of it was compensated because the ticket is gone, stale or owned in HubSpot); or a
  completed attempt of its attendance, or one that was completed in this run, served it; or its attendance is
  assigned or closed, or, without one, its ticket was closed in this run.  This holds whatever HubSpot answers and
  whatever fails on the way, with the refreshes of portfolios and the reconciliations of owners that the turns make;
  what other transactions commit while HubSpot is read is assumed to lose no row.  The keys of the tables stay
  linked, so the next drain finds them as this one did.\<close>

theorem drain_loses_no_ticket:
  assumes "linked (desk_db k)" and "\<forall>t \<in> set (t0 # ts). real_turn cfg t"
    and "q \<in> set (db_queue (desk_db k))" "known_cycle q (desk_db k)"
  shows "(\<exists>k' r. matchmaker_drain_queue cfg (active_queue (desk_db k)) ts t0 k = Some (k', r) \<and>
       accounted q (desk_db k) (desk_db k') \<and> linked (desk_db k')) \<and>
    (let k' = fst (matchmaker_assign_next cfg t0 ticket k) in accounted q (desk_db k) (desk_db k') \<and> linked (desk_db k'))"
proof
  have careful: "\<forall>t \<in> set (t0 # ts). careful_turn t" using assms(2) real_turn_careful by blast
  obtain k' r where d: "matchmaker_drain_queue cfg (active_queue (desk_db k)) ts t0 k = Some (k', r)" using drain_returns by blast
  show "\<exists>k' r. matchmaker_drain_queue cfg (active_queue (desk_db k)) ts t0 k = Some (k', r) \<and>
      accounted q (desk_db k) (desk_db k') \<and> linked (desk_db k')"
    using d drain_retains [OF d careful] assms(1,3,4) by (auto simp: retains_def keeps_def)
  obtain k1 x where p: "process_queue_item cfg t0 ticket [] k = (k1, x)" by fastforce
  have "fst (matchmaker_assign_next cfg t0 ticket k) = k1" using p by (cases x) (simp_all add: matchmaker_assign_next_def)
  moreover have "retains (desk_db k) (desk_db k1)" using process_item_retains [OF p] careful by simp
  ultimately show "let k' = fst (matchmaker_assign_next cfg t0 ticket k) in accounted q (desk_db k) (desk_db k') \<and> linked (desk_db k')"
    using assms(1,3,4) by (simp add: retains_def keeps_def Let_def)
qed

text \<open>C7: reconciling the owner of a ticket, refreshing the portfolio of an agent, reconciling a close and handling a
  closed ticket lose no waiting ticket either, in any mode and on every path, errors and conflicts included: a queue
  row disappears only with an attendance that is then assigned or closed, or, for a row without an attendance, with a
  closed row of its ticket that the run wrote.  What other transactions commit while HubSpot is read is assumed to
  lose no row; they may serve it, or set it aside with a reason.\<close>

theorem reconciliation_loses_no_ticket:
  assumes "linked (st_db s)" and "q \<in> set (db_queue (st_db s))" "known_cycle q (st_db s)"
    and "careful_reading rd" and "\<forall>t. careful_reading (rds t)"
  shows "accounted q (st_db s) (st_db (fst (reconcile_ticket cfg now ticket source obs close rd s))) \<and>
    accounted q (st_db s) (st_db (fst (refresh_agent_capacity cfg now g force budget lock_free listing rds s))) \<and>
    accounted q (st_db s) (st_db (fst (reconcile_close_occurrence cfg now oc dry_run allow_legacy rd s))) \<and>
    accounted q (st_db s) (st_db (fst (handle_ticket_closed cfg now ticket at_ms owner event rd s)))"
proof -
  have a: "accounted q (st_db s) (st_db s')" if "spares s s'" for s' :: site
    using retains_accounted that assms(1-3) unfolding spares_def by blast
  let ?reconciled = "reconcile_ticket cfg now ticket source obs close rd s"
  let ?refreshed = "refresh_agent_capacity cfg now g force budget lock_free listing rds s"
  let ?closed = "reconcile_close_occurrence cfg now oc dry_run allow_legacy rd s"
  let ?handled = "handle_ticket_closed cfg now ticket at_ms owner event rd s"
  have "spares s (fst ?reconciled)" by (rule spares_reconcile [OF _ assms(4)]) (rule prod.collapse [symmetric])
  moreover have "spares s (fst ?refreshed)"
    by (rule spares_refresh [where rd = rds]) (rule prod.collapse [symmetric], rule assms(5) [rule_format])
  moreover have "spares s (fst ?closed)" by (rule spares_close [OF _ assms(4)]) (rule prod.collapse [symmetric])
  moreover have "spares s (fst ?handled)" by (rule spares_handle [OF _ assms(4)]) (rule prod.collapse [symmetric])
  ultimately show ?thesis using a by blast
qed

section \<open>A ticket whose owner was removed\<close>

text \<open>Observed without an owner, an assigned ticket loses its assigned row while its cycle stays assigned; when HubSpot
  names an owner again nothing is projected for it: it waits in no queue and belongs to no agent.\<close>

lemma removed_owner_strands:
  assumes "oc_state row = Oc_Unassigned" and "filter (\<lambda>r. as_ticket r = oc_ticket row) (db_assigned d) = [a]"
    and "first_row (live_cycle (oc_account row) (oc_ticket row)) (db_cycles d) = Some y" "cy_state y = Assigned"
    and "oc_account row' = oc_account row" "oc_ticket row' = oc_ticket row" "oc_state row' = Oc_Active"
  obtains d1 moved where "project_owner now row d = Inr (d1, row, moved)" "assigned_to_ticket d1 (oc_ticket row) = None"
    "\<And>later. project_owner later row' d1 = Inr (d1, row'\<lparr>oc_cycle := Some (cy_pk y)\<rparr>, [])"
proof -
  let ?d1 = "(record_transfer a None None d)\<lparr>db_assigned := delete_rows (\<lambda>x. as_pk x = as_pk a) (db_assigned d)\<rparr>"
  have a: "assigned_to_ticket d (oc_ticket row) = Some a"
    using assms(2) by (simp add: assigned_to_ticket_def first_by_def)
  have only: "{r \<in> set (db_assigned d). as_ticket r = oc_ticket row} = {a}"
    using arg_cong [OF assms(2), of set] by simp
  have none: "assigned_to_ticket ?d1 (oc_ticket row) = None"
    using only by (auto simp: assigned_to_ticket_def first_by_None)
  have "project_owner now row d = Inr (?d1, row, agent_ids (as_agent a))" using assms(1) a by (simp add: project_owner_def Let_def)
  moreover have "project_owner later row' ?d1 = Inr (?d1, row'\<lparr>oc_cycle := Some (cy_pk y)\<rparr>, [])" for later
    using none assms(3-7) by (simp add: project_owner_def Let_def record_transfer_def)
  ultimately show thesis using none that by blast
qed

section \<open>Witnesses\<close>

text \<open>A desk with one waiting row and one free agent, whose portfolio is refreshed by the code of this development.\<close>

definition waiting_desk :: desk where
  "waiting_desk = \<lparr>dk_site = empty_site\<lparr>st_db := demo_waiting_db\<rparr>, dk_attendants = []\<rparr>"

definition refreshing_turn :: turn where
  "refreshing_turn = \<lparr>tn_world = demo_world\<lparr>wd_refresh := (\<lambda>g d. (st_db (fst (refresh_agent_capacity demo_cfg 1000 g False None True
      (Inr ([], True)) (\<lambda>_. given (owner_snapshot [])) (empty_site\<lparr>st_db := d\<rparr>))), True))\<rparr>,
     tn_provider = demo_provider\<lparr>pv_reconcile := (\<lambda>ticket why d. (st_db (fst (reconcile_ticket demo_cfg 1000 ticket why [] None
       (given (owner_snapshot [])) (empty_site\<lparr>st_db := d\<rparr>))), Reconcile_Failed))\<rparr>, tn_gate = None\<rparr>"

lemma refreshing_turn_real: "real_turn demo_cfg refreshing_turn"
  unfolding real_turn_def portfolio_run_def owner_run_def
proof (intro conjI allI)
  fix g d
  show "\<exists>now force budget free listing rds s. (\<forall>t. careful_reading (rds t)) \<and>
      fst (wd_refresh (tn_world refreshing_turn) g d) =
      st_db (fst (refresh_agent_capacity demo_cfg now g force budget free listing rds (s\<lparr>st_db := d\<rparr>)))"
    by (intro exI [of _ 1000] exI [of _ False] exI [of _ None] exI [of _ True] exI [of _ "Inr ([], True)"]
        exI [of _ "\<lambda>_. given (owner_snapshot [])"] exI [of _ empty_site]) (simp add: refreshing_turn_def)
next
  fix ticket why d
  show "\<exists>now rd s. careful_reading rd \<and> fst (pv_reconcile (tn_provider refreshing_turn) ticket why d) =
      st_db (fst (reconcile_ticket demo_cfg now ticket why [] None rd (s\<lparr>st_db := d\<rparr>)))"
    by (intro exI [of _ 1000] exI [of _ "given (owner_snapshot [])"] exI [of _ empty_site]) (simp add: refreshing_turn_def)
qed

theorem drain_loses_no_ticket_witness:
  "(\<exists>k' r. matchmaker_drain_queue demo_cfg 1 [] refreshing_turn waiting_desk = Some (k', r) \<and>
      accounted demo_row (desk_db waiting_desk) (desk_db k')) \<and>
   db_queue (desk_db waiting_desk) = [demo_row] \<and> db_queue (desk_db (fst (matchmaker_assign_next demo_cfg refreshing_turn None waiting_desk))) = []"
proof -
  have l: "linked (desk_db waiting_desk)" "active_queue (desk_db waiting_desk) = 1" "demo_row \<in> set (db_queue (desk_db waiting_desk))"
    "known_cycle demo_row (desk_db waiting_desk)"
    by code_simp+
  have c: "\<forall>t \<in> set [refreshing_turn]. real_turn demo_cfg t" using refreshing_turn_real by simp
  have r: "db_queue (desk_db waiting_desk) = [demo_row]" "db_queue (desk_db (fst (matchmaker_assign_next demo_cfg refreshing_turn None waiting_desk))) = []"
    by code_simp+
  show ?thesis using drain_loses_no_ticket [OF l(1) c l(3,4), of None] l(2) r by auto
qed

theorem reconciliation_loses_no_ticket_witness:
  "accounted demo_row (st_db (dk_site waiting_desk))
     (st_db (fst (reconcile_ticket enforce_cfg 9 ''42'' ''webhook'' [] None (given (owner_snapshot ''10'')) (dk_site waiting_desk)))) \<and>
   db_queue (st_db (fst (reconcile_ticket enforce_cfg 9 ''42'' ''webhook'' [] None (given (owner_snapshot ''10'')) (dk_site waiting_desk)))) = []"
proof -
  have l: "linked (st_db (dk_site waiting_desk))" "demo_row \<in> set (db_queue (st_db (dk_site waiting_desk)))"
    "known_cycle demo_row (st_db (dk_site waiting_desk))" by code_simp+
  have r: "db_queue (st_db (fst (reconcile_ticket enforce_cfg 9 ''42'' ''webhook'' [] None (given (owner_snapshot ''10'')) (dk_site waiting_desk)))) = []"
    by code_simp
  show ?thesis using reconciliation_loses_no_ticket [OF l given_careful, of "\<lambda>_. given (owner_snapshot [])"] r by simp
qed

end
