(* ===== verification/Assignment_Tasks.thy ===== *)
theory Assignment_Tasks
  imports Queue_Safety Sat_Tracking Queue_Intake
begin

text \<open>
  The background jobs of assignment in \<open>apps/support/tasks.py\<close>: a ticket webhook, the drain, the recheck of the
  opening cohort, repair and retention of attempts, closing, and the hourly counts.  A job composes the services; it
  ends by returning, by asking the broker for a retry, or with an exception of its own.
\<close>

datatype 'a task_end = Returned 'a | Retried py_error | Raised py_error

definition or_retry :: "'a result \<Rightarrow> 'a task_end" where
  "or_retry r = (case r of Inl e \<Rightarrow> Retried e | Inr x \<Rightarrow> Returned x)"

definition or_raise :: "'a result \<Rightarrow> 'a task_end" where
  "or_raise r = (case r of Inl e \<Rightarrow> Raised e | Inr x \<Rightarrow> Returned x)"

section \<open>Availability before an assignment\<close>

text \<open>The heartbeat runs on the agents of the desk.\<close>

record office =
  of_desk :: desk
  of_tracking :: tracking

definition office_db :: "office \<Rightarrow> db" where
  "office_db f = desk_db (of_desk f)"

definition put_desk :: "desk \<Rightarrow> office \<Rightarrow> office" where
  "put_desk k f = f\<lparr>of_desk := k\<rparr>"

record heart =
  ht_schedule :: schedule_parser
  ht_local_time :: "string \<Rightarrow> instant \<Rightarrow> int \<times> int"
  ht_around :: surroundings

definition run_heartbeat :: "settings \<Rightarrow> heart \<Rightarrow> office \<Rightarrow> office \<times> beat_outcome result" where
  "run_heartbeat cfg h f =
     (case sat_heartbeat cfg (ht_schedule h) (ht_local_time h) (ht_around h) ((of_tracking f)\<lparr>tg_agents := db_agents (office_db f)\<rparr>) of
        (g, r) \<Rightarrow> (f\<lparr>of_tracking := g, of_desk := put_db ((office_db f)\<lparr>db_agents := tg_agents g\<rparr>) (of_desk f)\<rparr>, r))"

definition task_sat_reset_daily_counters :: "settings \<Rightarrow> instant \<Rightarrow> int \<Rightarrow> tracking \<Rightarrow> tracking \<times> nat option" where
  "task_sat_reset_daily_counters cfg now yesterday g =
     (if \<not> may_write_routing_state cfg then (g, None)
      else case sat_reset_daily_counters cfg now yesterday g of (g', n) \<Rightarrow> (g', Some n))"

text \<open>The outcomes that keep a ticket in the queue.\<close>

fun blocks :: "beat_outcome \<Rightarrow> bool" where
  "blocks (Provider_Failure e) = True"
| "blocks Runtime_Rejected = True"
| "blocks (Off_Hours g) = True"
| "blocks Lease_Contended = True"
| "blocks Sync_Disabled = False"
| "blocks (Beat_Done n g) = False"

section \<open>A ticket of a webhook\<close>

text \<open>\<open>acquired\<close> is the answer of the lock of the ticket, \<open>released\<close> an exception of its release, if any.\<close>

record ticket_run =
  tx_acquired :: "bool result"
  tx_released :: "py_error option"
  tx_now :: instant
  tx_read :: "(provider_snapshot \<times> contact) result"
  tx_heart :: heart
  tx_turn :: turn

definition assign_locked :: "settings \<Rightarrow> ticket_run \<Rightarrow> string \<Rightarrow> stage_value \<Rightarrow> string \<Rightarrow> office \<Rightarrow> office \<times> bool result" where
  "assign_locked cfg x ticket entered event f =
     (case enqueue_new_ticket cfg (tx_now x) (tx_read x) ticket entered event (dk_site (of_desk f)) of
        (s, r) \<Rightarrow>
          (let f1 = put_desk ((of_desk f)\<lparr>dk_site := s\<rparr>) f
           in case r of
                Inl e \<Rightarrow> (f1, Inl e)
              | Inr None \<Rightarrow> (f1, Inr False)
              | Inr (Some q) \<Rightarrow>
                  (if \<not> may_assign cfg (tn_gate (tx_turn x)) then (f1, Inr False)
                   else case run_heartbeat cfg (tx_heart x) f1 of
                          (f2, Inl e) \<Rightarrow> (f2, Inl e)
                        | (f2, Inr out) \<Rightarrow>
                            (if blocks out then (f2, Inr False)
                             else case matchmaker_assign_next cfg (tx_turn x) (Some ticket) (of_desk f2) of
                                    (k, res) \<Rightarrow> (put_desk k f2, map_sum id (\<lambda>o'. o' = Outcome_Assigned) res)))))"

definition task_matchmaker_assign_single ::
  "settings \<Rightarrow> ticket_run \<Rightarrow> string \<Rightarrow> stage_value \<Rightarrow> string \<Rightarrow> office \<Rightarrow> office \<times> bool task_end" where
  "task_matchmaker_assign_single cfg x ticket entered event f =
     (if \<not> may_ingest_queue cfg then (f, Returned False)
      else case tx_acquired x of
             Inl e \<Rightarrow> (f, Raised e)
           | Inr False \<Rightarrow> (f, Returned False)
           | Inr True \<Rightarrow>
               (case assign_locked cfg x ticket entered event f of
                  (f', r) \<Rightarrow> (f', case tx_released x of Some e \<Rightarrow> Raised e | None \<Rightarrow> or_retry r)))"

section \<open>Draining\<close>

datatype drain_answer = Nothing_Pending | Drain_Off_Hours | Drained drain_report

definition expired_cohorts :: "instant \<Rightarrow> db \<Rightarrow> uuid list" where
  "expired_cohorts now d = map co_pk (filter (\<lambda>c. co_state c = Cohort_Active \<and> co_deadline_at c \<le> now) (db_cohorts d))"

fun finalize_cohorts :: "settings \<Rightarrow> instant \<Rightarrow> uuid list \<Rightarrow> db \<Rightarrow> db \<times> barrier_decision list result" where
  "finalize_cohorts cfg now [] d = (d, Inr [])"
| "finalize_cohorts cfg now (c # cs) d =
     (case finalize_opening_assignment_cohort cfg c now d of
        Inl e \<Rightarrow> (d, Inl e)
      | Inr (d1, b) \<Rightarrow> (case finalize_cohorts cfg now cs d1 of (d2, r) \<Rightarrow> (d2, map_sum id (\<lambda>bs. b # bs) r)))"

text \<open>\<open>None\<close>: the fuel of the drain ran out.\<close>

record drain_run =
  dq_now :: instant
  dq_open :: bool
  dq_fuel :: nat
  dq_turns :: "turn list"
  dq_turn :: turn

definition task_matchmaker_drain_queue :: "settings \<Rightarrow> drain_run \<Rightarrow> desk \<Rightarrow> (desk \<times> drain_answer task_end) option" where
  "task_matchmaker_drain_queue cfg x k =
     (case finalize_cohorts cfg (dq_now x) (if may_write_routing_state cfg then expired_cohorts (dq_now x) (desk_db k) else []) (desk_db k) of
        (d, Inl e) \<Rightarrow> Some (put_db d k, Raised e)
      | (d, Inr bs) \<Rightarrow>
          (let k1 = put_db d k
           in if \<not> list_ex active_row (db_queue d) then Some (k1, Returned Nothing_Pending)
              else if \<not> dq_open x then Some (k1, Returned Drain_Off_Hours)
              else map_option (\<lambda>(k2, r). (k2, or_raise (map_sum id Drained r)))
                     (matchmaker_drain_queue cfg (dq_fuel x) (dq_turns x) (dq_turn x) k1)))"

datatype recheck_answer = Cohort_Missing | Cohort_Already_Released | Cohort_Early | Reconciliation_Blocked | Recheck_Drained drain_answer

text \<open>\<open>now\<close> is read before the heartbeat, \<open>later\<close> after it.\<close>

definition task_recheck_opening_assignment_cohort ::
  "settings \<Rightarrow> instant \<Rightarrow> instant \<Rightarrow> heart \<Rightarrow> drain_run \<Rightarrow> uuid \<Rightarrow> office \<Rightarrow> (office \<times> recheck_answer task_end) option" where
  "task_recheck_opening_assignment_cohort cfg now later h x c f =
     (case get_row co_pk c (db_cohorts (office_db f)) of
        None \<Rightarrow> Some (f, Returned Cohort_Missing)
      | Some co \<Rightarrow>
          (if co_state co \<noteq> Cohort_Active then Some (f, Returned Cohort_Already_Released)
           else if now < co_recheck_at co then Some (f, Returned Cohort_Early)
           else case run_heartbeat cfg h f of
                  (f1, Inl e) \<Rightarrow> Some (f1, Raised e)
                | (f1, Inr out) \<Rightarrow>
                    (if blocks out then Some (f1, Returned Reconciliation_Blocked)
                     else case finalize_opening_assignment_cohort cfg c later (office_db f1) of
                            Inl e \<Rightarrow> Some (f1, Raised e)
                          | Inr (d, b) \<Rightarrow>
                              map_option (\<lambda>(k, r). (put_desk k f1, case r of Returned a \<Rightarrow> Returned (Recheck_Drained a) | Retried e \<Rightarrow> Retried e | Raised e \<Rightarrow> Raised e))
                                (task_matchmaker_drain_queue cfg x (put_db d (of_desk f1))))))"

section \<open>Attempts, closes and the NOVO stage\<close>

definition no_repair :: counts where
  "no_repair = [(''scanned'', 0), (''completed'', 0), (''retryable'', 0), (''repair_required'', 0), (''conflict'', 0),
     (''failed_unexpected'', 0), (''skipped_stale_cycle'', 0)]"

definition task_repair_assignment_attempts :: "settings \<Rightarrow> world \<Rightarrow> repair_env \<Rightarrow> db \<Rightarrow> db \<times> counts task_end" where
  "task_repair_assignment_attempts cfg w env d =
     (if \<not> may_write_routing_state cfg then (d, Returned no_repair)
      else case repair_assignment_attempts cfg w env 100 d of (d', r) \<Rightarrow> (d', or_raise r))"

definition task_purge_assignment_attempts :: "settings \<Rightarrow> instant \<Rightarrow> db \<Rightarrow> db \<times> nat" where
  "task_purge_assignment_attempts cfg now d =
     (if \<not> may_write_routing_state cfg then (d, 0) else purge_terminal_assignment_attempts cfg now (Some 30) 500 d)"

definition task_handle_ticket_closed ::
  "settings \<Rightarrow> instant \<Rightarrow> string \<Rightarrow> stage_value \<Rightarrow> stage_value \<Rightarrow> string \<Rightarrow> reading \<Rightarrow> site \<Rightarrow> site \<times> unit task_end" where
  "task_handle_ticket_closed cfg now ticket at_ms owner event rd s =
     (case require_routing_writer_authority cfg of
        Inl e \<Rightarrow> (s, Retried e)
      | Inr _ \<Rightarrow> (case handle_ticket_closed cfg now ticket at_ms owner event rd s of (s', r) \<Rightarrow> (s', or_retry (map_sum id (\<lambda>_. ()) r))))"

definition task_sync_novo_stage_tickets ::
  "settings \<Rightarrow> instant \<Rightarrow> (provider_snapshot \<times> contact) list result \<Rightarrow> nat \<Rightarrow> turn list \<Rightarrow> turn \<Rightarrow> desk \<Rightarrow> (desk \<times> sync_counts task_end) option" where
  "task_sync_novo_stage_tickets cfg now search fuel ts t0 k =
     map_option (\<lambda>(k', r). (k', or_retry r)) (sync_novo_stage_tickets cfg now search fuel ts t0 k)"

definition task_reconcile_ticket_capacity :: "settings \<Rightarrow> instant \<Rightarrow> string \<Rightarrow> string \<Rightarrow> reading \<Rightarrow> site \<Rightarrow> site \<times> occupancy_state option task_end" where
  "task_reconcile_ticket_capacity cfg now ticket obs rd s =
     (if capacity_mode_of cfg = Capacity_Off then (s, Returned None)
      else case reconcile_ticket cfg now ticket ''recheck'' obs None rd s of
             (s', r) \<Rightarrow> (s', or_retry (map_sum id (\<lambda>(row, _). Some (oc_state row)) r)))"

section \<open>The hourly counts\<close>

datatype count_report = Counts_Rejected | Counts_Off_Hours | Counts_Ready nat nat | Counts_Corrected nat nat

definition counted_agents :: "db \<Rightarrow> agent list" where
  "counted_agents d = sort_key ag_pk (filter (\<lambda>a. ag_is_active a = Some True) (db_agents d))"

text \<open>What the job meets when it refreshes the portfolio of an agent: the lock of the portfolio, the number of tickets that
  fit in its time budget, the listing of HubSpot and the readings.\<close>

record sweep =
  sw_free :: "uuid \<Rightarrow> bool"
  sw_budget :: "uuid \<Rightarrow> nat option"
  sw_listing :: "uuid \<Rightarrow> (string list \<times> bool) result"
  sw_reading :: "uuid \<Rightarrow> string \<Rightarrow> reading"

text \<open>The refresh reads the agent again: at its start, and once more when it succeeds.\<close>

fun refresh_each :: "settings \<Rightarrow> instant \<Rightarrow> sweep \<Rightarrow> agent list \<Rightarrow> site \<Rightarrow> site \<times> (agent list \<times> nat) result" where
  "refresh_each cfg now w [] s = (s, Inr ([], 0))"
| "refresh_each cfg now w (a # as) s =
     (let g = ag_pk a
      in case refresh_agent_capacity cfg now g True (sw_budget w g) (sw_free w g) (sw_listing w g) (sw_reading w g) s of
           (s1, Inl e) \<Rightarrow> (s1, Inl e)
         | (s1, Inr ok) \<Rightarrow>
             (let b = (case agent_of (st_db (if ok then s1 else s)) g of None \<Rightarrow> a | Some b \<Rightarrow> b)
              in case refresh_each cfg now w as s1 of
                   (s2, r) \<Rightarrow> (s2, map_sum id (\<lambda>(bs, n). (b # bs, if ok then Suc n else n)) r)))"

text \<open>\<open>remote\<close> is the count of HubSpot for an owner, negative when it could not be read.\<close>

fun correct_counts :: "instant \<Rightarrow> (int \<Rightarrow> int) \<Rightarrow> agent list \<Rightarrow> db \<Rightarrow> db \<times> nat" where
  "correct_counts now remote [] d = (d, 0)"
| "correct_counts now remote (a # as) d =
     (let n = remote (ag_owner a)
      in if n < 0 \<or> ag_chats a = n then correct_counts now remote as d
         else case correct_counts now remote as (sync_count now (ag_pk a) (\<lambda>_. n) d) of (d', c) \<Rightarrow> (d', Suc c))"

definition task_reconcile_agent_counts ::
  "settings \<Rightarrow> instant \<Rightarrow> bool \<Rightarrow> sweep \<Rightarrow> (int \<Rightarrow> int) \<Rightarrow> site \<Rightarrow> site \<times> count_report task_end" where
  "task_reconcile_agent_counts cfg now open_desk w remote s =
     (if \<not> may_write_routing_state cfg then (s, Returned Counts_Rejected)
      else if \<not> open_desk then (s, Returned Counts_Off_Hours)
      else (let agents = counted_agents (st_db s)
            in case (if capacity_mode_of cfg = Capacity_Off then (s, Inr (agents, 0)) else refresh_each cfg now w agents s) of
                 (s1, Inl e) \<Rightarrow> (s1, Raised e)
               | (s1, Inr (seen, ready)) \<Rightarrow>
                   (if capacity_enforced cfg then (s1, Returned (Counts_Ready (length agents) ready))
                    else case correct_counts now remote seen (st_db s1) of
                           (d, n) \<Rightarrow> (s1\<lparr>st_db := d\<rparr>, Returned (Counts_Corrected (length agents) n)))))"

section \<open>What the jobs leave\<close>

lemma heartbeat_waiting:
  assumes "run_heartbeat cfg h f = (f', r)"
  shows "same_waiting (office_db f) (office_db f')" "dk_attendants (of_desk f') = dk_attendants (of_desk f)"
  using assms by (auto simp: run_heartbeat_def office_db_def desk_db_def put_db_def same_waiting_def split: prod.splits)

lemma put_desk_db [simp]: "office_db (put_desk k f) = desk_db k"
  by (simp add: put_desk_def office_db_def)

lemma put_desk_desk [simp]: "of_desk (put_desk k f) = k"
  by (simp add: put_desk_def)

text \<open>The office once the ticket is queued.\<close>

definition queued_office :: "settings \<Rightarrow> ticket_run \<Rightarrow> string \<Rightarrow> stage_value \<Rightarrow> string \<Rightarrow> office \<Rightarrow> office" where
  "queued_office cfg x ticket entered event f =
     put_desk ((of_desk f)\<lparr>dk_site := fst (enqueue_new_ticket cfg (tx_now x) (tx_read x) ticket entered event (dk_site (of_desk f)))\<rparr>) f"

lemma assign_locked_cases:
  assumes "assign_locked cfg x ticket entered event f = (f', r)"
  obtains (unqueued) "f' = queued_office cfg x ticket entered event f" "r \<noteq> Inr True"
  | (blocked) f2 res where "run_heartbeat cfg (tx_heart x) (queued_office cfg x ticket entered event f) = (f2, res)" "f' = f2" "r \<noteq> Inr True"
      "may_assign cfg (tn_gate (tx_turn x))"
  | (tried) f2 out k res where "run_heartbeat cfg (tx_heart x) (queued_office cfg x ticket entered event f) = (f2, Inr out)" "\<not> blocks out"
      "may_assign cfg (tn_gate (tx_turn x))" "matchmaker_assign_next cfg (tx_turn x) (Some ticket) (of_desk f2) = (k, res)"
      "f' = put_desk k f2" "r = map_sum id (\<lambda>o'. o' = Outcome_Assigned) res"
proof -
  obtain s e where q: "enqueue_new_ticket cfg (tx_now x) (tx_read x) ticket entered event (dk_site (of_desk f)) = (s, e)" by fastforce
  let ?f1 = "put_desk ((of_desk f)\<lparr>dk_site := s\<rparr>) f"
  have f1: "queued_office cfg x ticket entered event f = ?f1" by (simp add: queued_office_def q)
  obtain f2 h where h: "run_heartbeat cfg (tx_heart x) ?f1 = (f2, h)" by fastforce
  note run = assms [unfolded assign_locked_def q, simplified Let_def]
  show thesis
  proof (cases "(\<exists>row. e = Inr (Some row)) \<and> may_assign cfg (tn_gate (tx_turn x))")
    case False
    then show thesis using unqueued run f1 by (auto split: sum.splits option.splits)
  next
    case True
    then obtain row where e: "e = Inr (Some row)" and may: "may_assign cfg (tn_gate (tx_turn x))" by blast
    show thesis
    proof (cases "\<exists>out. h = Inr out \<and> \<not> blocks out")
      case False
      then show thesis using blocked [of f2 h] run f1 e may h by (auto split: sum.splits if_splits)
    next
      case go: True
      then obtain out where out: "h = Inr out" "\<not> blocks out" by blast
      obtain k res where m: "matchmaker_assign_next cfg (tx_turn x) (Some ticket) (of_desk f2) = (k, res)" by fastforce
      show thesis using tried [of f2 out k res] run f1 e may h out m by simp
    qed
  qed
qed

lemma assign_next_retains:
  assumes "matchmaker_assign_next cfg t ticket k = (k', r)" and "careful_turn t"
  shows "retains (desk_db k) (desk_db k')"
proof -
  obtain k1 y where p: "process_queue_item cfg t ticket [] k = (k1, y)" by fastforce
  have "k' = k1" using assms(1) p by (cases y) (simp_all add: matchmaker_assign_next_def)
  then show ?thesis using process_item_retains [OF p assms(2)] by simp
qed

lemma assign_locked_retains:
  assumes "assign_locked cfg x ticket entered event f = (f', r)" and "careful_turn (tx_turn x)"
  shows "retains (office_db (queued_office cfg x ticket entered event f)) (office_db f')"
  using assms(1)
proof (cases rule: assign_locked_cases)
  case unqueued
  then show ?thesis by simp
next
  case (blocked f2 res)
  then show ?thesis using retains_same heartbeat_waiting(1) by blast
next
  case (tried f2 out k res)
  have "retains (office_db f2) (office_db f')"
    using assign_next_retains [OF tried(4) assms(2)] tried(5) by (simp add: office_db_def)
  then show ?thesis using retains_after heartbeat_waiting(1) [OF tried(1)] by blast
qed

text \<open>C8: a ticket that a webhook brings is never lost by the job that handles it.  However the job ends (assigned,
  refused by the gate, blocked because the availability of the agents could not be read, retried after an error, or
  failing on its lock), every row that was in the queue once the ticket was entered is still there, waiting as before
  or set aside with a reason that the tables show, or a completed attempt served it, or its attendance moved on: it is
  assigned or closed, or, without an attendance, its ticket was closed in this run.  Nothing is written at all when
  the ingestion is closed or the lock is taken.  A ticket is reported assigned only if the gate was open and the
  heartbeat run by the job did not block.  As in C6, what other transactions commit meanwhile is assumed to lose no row.\<close>

theorem ticket_job_keeps_ticket:
  assumes "linked (office_db (queued_office cfg x ticket entered event f))" and "real_turn cfg (tx_turn x)"
    and "q \<in> set (db_queue (office_db (queued_office cfg x ticket entered event f)))"
      "known_cycle q (office_db (queued_office cfg x ticket entered event f))"
  shows "case task_matchmaker_assign_single cfg x ticket entered event f of (f', e) \<Rightarrow>
    (if may_ingest_queue cfg \<and> tx_acquired x = Inr True
     then accounted q (office_db (queued_office cfg x ticket entered event f)) (office_db f') else f' = f \<and> e \<noteq> Returned True) \<and>
    (e = Returned True \<longrightarrow> may_assign cfg (tn_gate (tx_turn x)) \<and>
       (\<exists>out. snd (run_heartbeat cfg (tx_heart x) (queued_office cfg x ticket entered event f)) = Inr out \<and> \<not> blocks out))"
proof (cases "may_ingest_queue cfg \<and> tx_acquired x = Inr True")
  case False
  then show ?thesis by (auto simp: task_matchmaker_assign_single_def split: sum.splits)
next
  case True
  obtain f' r where l: "assign_locked cfg x ticket entered event f = (f', r)" by fastforce
  have "accounted q (office_db (queued_office cfg x ticket entered event f)) (office_db f')"
    using retains_accounted [OF assign_locked_retains [OF l real_turn_careful [OF assms(2)]] assms(1,3,4)] .
  moreover have "r = Inr True \<Longrightarrow> may_assign cfg (tn_gate (tx_turn x)) \<and>
       (\<exists>out. snd (run_heartbeat cfg (tx_heart x) (queued_office cfg x ticket entered event f)) = Inr out \<and> \<not> blocks out)"
    using l by (cases rule: assign_locked_cases) auto
  ultimately show ?thesis
    using True l by (auto simp: task_matchmaker_assign_single_def or_retry_def split: option.splits sum.splits)
qed

text \<open>With the status synchronization switched off the heartbeat answers without reading and does not block: the job
  assigns on the stored availability.\<close>

lemma disabled_sync_does_not_block:
  assumes "\<not> sr_enabled (ht_around h)"
  shows "run_heartbeat cfg h f = (f\<lparr>of_tracking := (of_tracking f)\<lparr>tg_agents := db_agents (office_db f)\<rparr>,
      of_desk := put_db (office_db f) (of_desk f)\<rparr>, Inr Sync_Disabled)" "\<not> blocks Sync_Disabled"
  using assms by (simp_all add: run_heartbeat_def sat_heartbeat_def)

section \<open>The drain job\<close>

lemma finalize_cohort_waiting:
  "finalize_opening_assignment_cohort cfg c now d = Inr (d', b) \<Longrightarrow> same_waiting d d'"
  by (auto simp: finalize_opening_assignment_cohort_def release_cohort_def put_cohort_def same_waiting_def split: sum.splits option.splits if_splits)

lemma finalize_cohorts_waiting: "finalize_cohorts cfg now cs d = (d', r) \<Longrightarrow> same_waiting d d'"
proof (induction cs arbitrary: d d' r)
  case (Cons c cs)
  show ?case
  proof (cases "finalize_opening_assignment_cohort cfg c now d")
    case (Inl e)
    then show ?thesis using Cons.prems by simp
  next
    case (Inr y)
    obtain d1 b where y: "y = (d1, b)" by (cases y)
    obtain d2 z where 2: "finalize_cohorts cfg now cs d1 = (d2, z)" by fastforce
    show ?thesis
      using Cons.prems Cons.IH [OF 2] finalize_cohort_waiting [OF Inr [unfolded y]] same_waiting_trans by (auto simp: Inr y 2)
  qed
qed simp

lemma drain_job_retains:
  assumes "task_matchmaker_drain_queue cfg x k = Some (k', r)" and "\<forall>t \<in> set (dq_turn x # dq_turns x). careful_turn t"
  shows "retains (desk_db k) (desk_db k')"
proof -
  let ?ids = "if may_write_routing_state cfg then expired_cohorts (dq_now x) (desk_db k) else []"
  obtain d e where c: "finalize_cohorts cfg (dq_now x) ?ids (desk_db k) = (d, e)" by fastforce
  have "k' = put_db d k \<or> (\<exists>z. matchmaker_drain_queue cfg (dq_fuel x) (dq_turns x) (dq_turn x) (put_db d k) = Some (k', z))"
    using assms(1) c by (auto simp: task_matchmaker_drain_queue_def Let_def split: sum.splits if_splits)
  then have "retains d (desk_db k')" using drain_retains [OF _ assms(2)] by fastforce
  then show ?thesis using retains_after finalize_cohorts_waiting [OF c] by blast
qed

section \<open>The counts follow the provider\<close>

definition drifted :: "(int \<Rightarrow> int) \<Rightarrow> agent \<Rightarrow> bool" where
  "drifted remote a \<longleftrightarrow> 0 \<le> remote (ag_owner a) \<and> ag_chats a \<noteq> remote (ag_owner a)"

definition recounted :: "instant \<Rightarrow> (int \<Rightarrow> int) \<Rightarrow> agent \<Rightarrow> agent" where
  "recounted now remote a =
     (if drifted remote a then a\<lparr>ag_chats := remote (ag_owner a), ag_count_sync_at := Some now, ag_updated_at := Some now\<rparr> else a)"

lemma correct_counts_result:
  assumes "distinct (map ag_pk as)" and "\<And>a b. a \<in> set as \<Longrightarrow> b \<in> set (db_agents d) \<Longrightarrow> ag_pk b = ag_pk a \<Longrightarrow> b = a"
  shows "correct_counts now remote as d =
    (d\<lparr>db_agents := map (\<lambda>b. if ag_pk b \<in> ag_pk ` set as then recounted now remote b else b) (db_agents d)\<rparr>,
     length (filter (drifted remote) as))"
  using assms
proof (induction as arbitrary: d)
  case (Cons a as)
  have d: "distinct (map ag_pk as)" "ag_pk a \<notin> ag_pk ` set as" using Cons.prems(1) by simp_all
  show ?case
  proof (cases "drifted remote a")
    case False
    have "recounted now remote b = b" if "b \<in> set (db_agents d)" "ag_pk b = ag_pk a" for b
      using Cons.prems(2) [of a b] that False by (simp add: recounted_def)
    then have "map (\<lambda>b. if ag_pk b \<in> ag_pk ` set (a # as) then recounted now remote b else b) (db_agents d) =
        map (\<lambda>b. if ag_pk b \<in> ag_pk ` set as then recounted now remote b else b) (db_agents d)" by simp
    moreover have "correct_counts now remote (a # as) d = correct_counts now remote as d"
      using False by (auto simp: drifted_def Let_def)
    moreover have "correct_counts now remote as d =
        (d\<lparr>db_agents := map (\<lambda>b. if ag_pk b \<in> ag_pk ` set as then recounted now remote b else b) (db_agents d)\<rparr>,
         length (filter (drifted remote) as))"
      using Cons.IH [OF d(1)] Cons.prems(2) by simp
    ultimately show ?thesis using False by (simp del: list.map set_simps)
  next
    case True
    let ?d = "sync_count now (ag_pk a) (\<lambda>_. remote (ag_owner a)) d"
    have "b = x" if "x \<in> set as" "b \<in> set (db_agents ?d)" "ag_pk b = ag_pk x" for x b
    proof -
      have "ag_pk b \<noteq> ag_pk a" using that(1,3) d(2) by (metis image_eqI)
      then have "b \<in> set (db_agents d)" using that(2) by (auto simp: sync_count_def dest!: in_update_rows split: if_splits)
      then show ?thesis using Cons.prems(2) that(1,3) by simp
    qed
    then have ih: "correct_counts now remote as ?d =
        (?d\<lparr>db_agents := map (\<lambda>b. if ag_pk b \<in> ag_pk ` set as then recounted now remote b else b) (db_agents ?d)\<rparr>,
         length (filter (drifted remote) as))"
      by (rule Cons.IH [OF d(1)])
    have row: "(if ag_pk b' \<in> ag_pk ` set as then recounted now remote b' else b') =
        (if ag_pk b \<in> ag_pk ` set (a # as) then recounted now remote b else b)"
      if "b \<in> set (db_agents d)" "b' = (if ag_pk b = ag_pk a then b\<lparr>ag_chats := remote (ag_owner a), ag_count_sync_at := Some now,
          ag_updated_at := Some now\<rparr> else b)" for b b'
    proof (cases "ag_pk b = ag_pk a")
      case True
      then have "b = a" using Cons.prems(2) that(1) by simp
      then show ?thesis using that(2) d(2) \<open>drifted remote a\<close> by (simp add: recounted_def)
    qed (use that(2) in auto)
    have "map (\<lambda>b. if ag_pk b \<in> ag_pk ` set as then recounted now remote b else b) (db_agents ?d) =
        map (\<lambda>b. if ag_pk b \<in> ag_pk ` set (a # as) then recounted now remote b else b) (db_agents d)"
      using row by (simp add: sync_count_def update_rows_def del: set_simps)
    moreover have "correct_counts now remote (a # as) d = (case correct_counts now remote as ?d of (d', c) \<Rightarrow> (d', Suc c))"
      using True by (simp add: drifted_def Let_def)
    ultimately show ?thesis using True ih by (simp add: sync_count_def del: set_simps)
  qed
qed simp

text \<open>C9: with capacity accounting off, the hourly reconciliation corrects exactly the drifted counts: every active agent
  whose tickets HubSpot could count, and whose stored count differs, ends with the count of HubSpot and the time of
  the synchronization; every other agent, and everything else in the database, is left as it was, and the job
  reports how many agents it looked at and how many it corrected.  Outside the opening hours, and in a runtime that
  may not write, it changes nothing.\<close>

theorem hourly_counts_follow_provider:
  assumes "capacity_mode_of cfg = Capacity_Off" and "distinct (map ag_pk (db_agents (st_db s)))"
  shows "task_reconcile_agent_counts cfg now open_desk w remote s =
    (if may_write_routing_state cfg \<and> open_desk
     then (s\<lparr>st_db := (st_db s)\<lparr>db_agents := map (\<lambda>a. if ag_is_active a = Some True then recounted now remote a else a) (db_agents (st_db s))\<rparr>\<rparr>,
       Returned (Counts_Corrected (count_rows (\<lambda>a. ag_is_active a = Some True) (db_agents (st_db s)))
         (count_rows (\<lambda>a. ag_is_active a = Some True \<and> drifted remote a) (db_agents (st_db s)))))
     else (s, Returned (if may_write_routing_state cfg then Counts_Off_Hours else Counts_Rejected)))"
proof (cases "may_write_routing_state cfg \<and> open_desk")
  case True
  let ?d = "st_db s" and ?as = "counted_agents (st_db s)"
  have inj: "b = a" if "a \<in> set (db_agents ?d)" "b \<in> set (db_agents ?d)" "ag_pk b = ag_pk a" for a b
    using assms(2) that by (auto simp: distinct_map inj_on_def)
  have "distinct (map ag_pk ?as)" using assms(2) by (simp add: counted_agents_def distinct_map_filter distinct_map inj_on_def)
  then have run: "correct_counts now remote ?as ?d =
      (?d\<lparr>db_agents := map (\<lambda>b. if ag_pk b \<in> ag_pk ` set ?as then recounted now remote b else b) (db_agents ?d)\<rparr>,
       length (filter (drifted remote) ?as))"
    by (rule correct_counts_result) (auto simp: counted_agents_def intro: inj)
  have "ag_pk b \<in> ag_pk ` set ?as \<longleftrightarrow> ag_is_active b = Some True" if "b \<in> set (db_agents ?d)" for b
    using inj [OF _ that] that by (auto simp: counted_agents_def)
  then have rows: "map (\<lambda>b. if ag_pk b \<in> ag_pk ` set ?as then recounted now remote b else b) (db_agents ?d) =
      map (\<lambda>a. if ag_is_active a = Some True then recounted now remote a else a) (db_agents ?d)"
    by simp
  have "filter (drifted remote) ?as = sort_key ag_pk (filter (\<lambda>a. ag_is_active a = Some True \<and> drifted remote a) (db_agents ?d))"
    by (simp add: counted_agents_def filter_sort conj_commute)
  then have "length (filter (drifted remote) ?as) = count_rows (\<lambda>a. ag_is_active a = Some True \<and> drifted remote a) (db_agents ?d)"
    by (simp only: count_rows_def length_sort)
  moreover have "length ?as = count_rows (\<lambda>a. ag_is_active a = Some True) (db_agents ?d)"
    by (simp add: counted_agents_def count_rows_def)
  ultimately show ?thesis
    using True assms(1) by (simp add: task_reconcile_agent_counts_def capacity_enforced_def run rows Let_def)
qed (auto simp: task_reconcile_agent_counts_def)

text \<open>The job of a new ticket on a desk where another ticket waits, during an outage of HubSpot.\<close>

definition outage_heart :: heart where
  "outage_heart = \<lparr>ht_schedule = demo_sched, ht_local_time = (\<lambda>_ _. (0, 0)),
     ht_around = \<lparr>sr_enabled = True, sr_business_hours = True, sr_acquired_at = 0, sr_now = 1, sr_today = 0, sr_task = ''task'',
       sr_token = ''p'', sr_items = Inl ExternalServiceError\<rparr>\<rparr>"

definition outage_run :: ticket_run where
  "outage_run = \<lparr>tx_acquired = Inr True, tx_released = None, tx_now = 900, tx_read = Inr (listed_ticket ''8'' 6), tx_heart = outage_heart,
     tx_turn = refreshing_turn\<rparr>"

definition demo_office :: office where
  "demo_office = \<lparr>of_desk = waiting_desk, of_tracking = demo_tracking\<rparr>"

theorem ticket_job_keeps_ticket_witness:
  "let j = task_matchmaker_assign_single demo_cfg outage_run ''8'' StageNone ''e'' demo_office;
       d = office_db (queued_office demo_cfg outage_run ''8'' StageNone ''e'' demo_office)
   in accounted demo_row d (office_db (fst j)) \<and> snd j = Returned False \<and> map nc_ticket (db_queue (office_db (fst j))) = [''42'', ''8'']"
proof -
  let ?j = "task_matchmaker_assign_single demo_cfg outage_run ''8'' StageNone ''e'' demo_office"
  let ?d = "office_db (queued_office demo_cfg outage_run ''8'' StageNone ''e'' demo_office)"
  have l: "linked ?d" "demo_row \<in> set (db_queue ?d)" "known_cycle demo_row ?d" by code_simp+
  have c: "real_turn demo_cfg (tx_turn outage_run)" using refreshing_turn_real by (simp add: outage_run_def)
  have i: "may_ingest_queue demo_cfg" by code_simp
  have "accounted demo_row ?d (office_db (fst ?j))"
    using ticket_job_keeps_ticket [OF l(1) c l(2,3)] i by (cases ?j) (simp add: outage_run_def)
  moreover have "snd ?j = Returned False" "map nc_ticket (db_queue (office_db (fst ?j))) = [''42'', ''8'']" by code_simp+
  ultimately show ?thesis unfolding Let_def by blast
qed

theorem hourly_counts_follow_provider_witness:
  "let s = empty_site\<lparr>st_db := empty_db\<lparr>db_agents := [(demo_agent 1 10)\<lparr>ag_chats := 1\<rparr>, demo_agent 2 20, demo_agent 3 30]\<rparr>\<rparr>;
       w = \<lparr>sw_free = (\<lambda>_. True), sw_budget = (\<lambda>_. None), sw_listing = (\<lambda>_. Inr ([], True)), sw_reading = (\<lambda>_ _. given (owner_snapshot []))\<rparr>;
       j = task_reconcile_agent_counts demo_cfg 9 True w (\<lambda>o'. if o' = 10 then 3 else if o' = 20 then - 1 else 0) s
   in map ag_chats (db_agents (st_db (fst j))) = [3, 0, 0] \<and> snd j = Returned (Counts_Corrected 3 1)"
proof -
  let ?s = "empty_site\<lparr>st_db := empty_db\<lparr>db_agents := [(demo_agent 1 10)\<lparr>ag_chats := 1\<rparr>, demo_agent 2 20, demo_agent 3 30]\<rparr>\<rparr>"
  let ?w = "\<lparr>sw_free = (\<lambda>_. True), sw_budget = (\<lambda>_. None), sw_listing = (\<lambda>_. Inr ([], True)), sw_reading = (\<lambda>_ _. given (owner_snapshot []))\<rparr>"
  have "capacity_mode_of demo_cfg = Capacity_Off" "distinct (map ag_pk (db_agents (st_db ?s)))" "may_write_routing_state demo_cfg" by code_simp+
  from hourly_counts_follow_provider [OF this(1,2), of 9 True ?w "\<lambda>o'. if o' = 10 then 3 else if o' = 20 then - 1 else 0"] this(3)
  show ?thesis by (simp add: empty_site_def empty_db_def demo_agent_def recounted_def drifted_def count_rows_def Let_def)
qed

end
