(* ===== verification/Message_Evidence.thy ===== *)
theory Message_Evidence
  imports Capacity N8n_Inbound "HOL-Library.AList"
begin

text \<open>
  Who took part in an attendance: \<open>attributed_agent_cycles\<close> of \<open>apps/support/agent_message_evidence.py\<close>.  The
  present owner of a cycle counts always, an earlier one only when an outgoing message of his proves it; the
  messages are the settled events of the message ledger, read in batches of a hundred windows.
\<close>

section \<open>Owners\<close>

definition wanted :: "uuid list option \<Rightarrow> uuid \<Rightarrow> bool" where
  "wanted ids c \<longleftrightarrow> (case ids of None \<Rightarrow> True | Some ks \<Rightarrow> c \<in> set ks)"

text \<open>The covered owner of each cycle, the assigned rows before the closed ones.\<close>

fun projection_of :: "uuid list option \<Rightarrow> uuid option \<Rightarrow> int option \<Rightarrow> (uuid \<times> int option) list" where
  "projection_of ids None owner = []"
| "projection_of ids (Some c) owner = (if wanted ids c then [(c, owner)] else [])"

definition projections :: "uuid list option \<Rightarrow> db \<Rightarrow> (uuid \<times> int option) list" where
  "projections ids d = concat (map (\<lambda>a. projection_of ids (as_cycle a) (Some (as_owner a))) (db_assigned d)) @
     concat (map (\<lambda>x. projection_of ids (cl_cycle x) (cl_owner x)) (db_closed d))"

fun project_owners :: "(uuid \<times> int option) list \<Rightarrow> (uuid \<times> int) list \<Rightarrow> (uuid \<times> int) list" where
  "project_owners [] owners = owners"
| "project_owners ((c, Some n) # ps) owners = project_owners ps (AList.update c n owners)"
| "project_owners ((c, None) # ps) owners = project_owners ps (AList.delete c owners)"

definition evidence_logs :: "uuid list option \<Rightarrow> db \<Rightarrow> log_row list" where
  "evidence_logs ids d = sort_key (\<lambda>l. (lg_assigned_at l, lg_pk l))
     (filter (\<lambda>l. lg_cycle l \<noteq> None \<and> lg_owner l \<noteq> None \<and> wanted ids (the (lg_cycle l))) (db_logs d))"

fun log_owners :: "uuid list \<Rightarrow> log_row list \<Rightarrow> (uuid \<times> int) list \<Rightarrow> (uuid \<times> int) list" where
  "log_owners covered [] owners = owners"
| "log_owners covered (l # ls) owners =
     log_owners covered ls
       (if the (lg_cycle l) \<in> set covered then owners else AList.update (the (lg_cycle l)) (the (lg_owner l)) owners)"

type_synonym starts = "uuid \<times> int \<Rightarrow> instant option"

fun log_starts :: "log_row list \<Rightarrow> starts \<Rightarrow> starts" where
  "log_starts [] m = m"
| "log_starts (l # ls) m =
     log_starts ls (let k = (the (lg_cycle l), the (lg_owner l))
       in if (case m k of None \<Rightarrow> True | Some t \<Rightarrow> lg_assigned_at l < t) then m(k \<mapsto> lg_assigned_at l) else m)"

section \<open>Windows\<close>

definition evidence_transfers :: "uuid list option \<Rightarrow> db \<Rightarrow> reassign_row list" where
  "evidence_transfers ids d = sort_key (\<lambda>r. (rr_at r, rr_pk r))
     (filter (\<lambda>r. rr_cycle r \<noteq> None \<and> rr_from_owner r \<noteq> None \<and> rr_to_owner r \<noteq> None \<and> rr_at r \<noteq> None \<and>
        \<not> starts_with ''forced_reassignment:reserved'' (rr_source r) \<and> wanted ids (the (rr_cycle r))) (db_reassigns d))"

definition users_of_owner :: "db \<Rightarrow> int \<Rightarrow> string list" where
  "users_of_owner d n = remdups (concat (map (\<lambda>a. if ag_owner a = n \<and> opt_truthy (ag_user_id a) then [the (ag_user_id a)] else []) (db_agents d)))"

type_synonym window_key = "string \<times> string \<times> string"
type_synonym interval = "instant \<times> instant \<times> uuid \<times> int"

text \<open>When the owner came on record: his first assignment, and the last transfer to him.\<close>

fun opt_list :: "'a option \<Rightarrow> 'a list" where
  "opt_list None = []"
| "opt_list (Some x) = [x]"

definition starts_of :: "starts \<Rightarrow> starts \<Rightarrow> uuid \<times> int \<Rightarrow> instant list" where
  "starts_of assigned received k = opt_list (assigned k) @ opt_list (received k)"

text \<open>The window in which a message proves that the former owner of a transfer took part.\<close>

definition window_end :: "cycle \<Rightarrow> instant \<Rightarrow> instant" where
  "window_end cy at = (case cy_closed_at cy of None \<Rightarrow> at | Some t \<Rightarrow> min at t)"

definition cut_window :: "cycle \<Rightarrow> instant \<Rightarrow> instant \<Rightarrow> (instant \<times> instant) option" where
  "cut_window cy began at =
     (let from = max began (cy_opened_at cy)
      in if at \<le> began then None
         else if (case cy_closed_at cy of None \<Rightarrow> False | Some t \<Rightarrow> t \<le> from) then None
         else if window_end cy at \<le> from then None
         else Some (from, window_end cy at))"

definition window_of :: "db \<Rightarrow> starts \<Rightarrow> starts \<Rightarrow> reassign_row \<Rightarrow> (window_key \<times> interval) option" where
  "window_of d assigned received r =
     (let c = the (rr_cycle r); n = the (rr_from_owner r); begins = starts_of assigned received (c, n)
      in case (get_row cy_pk c (db_cycles d), users_of_owner d n) of
           (Some cy, [user]) \<Rightarrow>
             (if begins = [] then None
              else map_option (\<lambda>(from, until). ((cy_account cy, rr_ticket r, ''A-'' @ user), (from, until, c, n)))
                     (cut_window cy (Max (set begins)) (the (rr_at r))))
         | _ \<Rightarrow> None)"

fun transfer_windows :: "db \<Rightarrow> starts \<Rightarrow> reassign_row list \<Rightarrow> starts \<Rightarrow> (window_key \<times> interval) list" where
  "transfer_windows d assigned [] received = []"
| "transfer_windows d assigned (r # rs) received =
     (case window_of d assigned received r of None \<Rightarrow> [] | Some w \<Rightarrow> [w]) @
     transfer_windows d assigned rs (received((the (rr_cycle r), the (rr_to_owner r)) := rr_at r))"

text \<open>The windows of each account, ticket and actor.\<close>

fun group_windows :: "(window_key \<times> interval) list \<Rightarrow> (window_key \<times> interval list) list \<Rightarrow> (window_key \<times> interval list) list" where
  "group_windows [] m = m"
| "group_windows ((k, w) # ws) m = group_windows ws (AList.update k ((case map_of m k of None \<Rightarrow> [] | Some xs \<Rightarrow> xs) @ [w]) m)"

section \<open>Messages\<close>

function in_batches :: "nat \<Rightarrow> 'a list \<Rightarrow> 'a list list" where
  "in_batches n xs = (if xs = [] \<or> n = 0 then [] else take n xs # in_batches n (drop n xs))"
  by pat_completeness auto
termination by (relation "measure (\<lambda>(n, xs). length xs)") auto

declare in_batches.simps [simp del]

type_synonym batch = "(window_key \<times> interval list) list"

definition batch_intervals :: "batch \<Rightarrow> interval list" where
  "batch_intervals b = concat (map snd b)"

text \<open>The query of a batch: a superset of what its windows match.  The ledger of the model holds messages of HubSpot
  only, so the filter on the source is not written.\<close>

definition batch_query :: "batch \<Rightarrow> webhook_event \<Rightarrow> bool" where
  "batch_query b e \<longleftrightarrow>
     we_portal e \<in> set (map (\<lambda>(k, ws). fst k) b) \<and> we_ticket e \<in> set (map (\<lambda>(k, ws). fst (snd k)) b) \<and> we_ignored e = ''outgoing_message'' \<and>
     (case we_occurred e of None \<Rightarrow> False
      | Some t \<Rightarrow> Min (set (map fst (batch_intervals b))) \<le> t \<and> t < Max (set (map (\<lambda>w. fst (snd w)) (batch_intervals b)))) \<and>
     (case we_evidence e of None \<Rightarrow> False | Some actor \<Rightarrow> actor \<in> set (map (\<lambda>(k, ws). snd (snd k)) b))"

definition proved_by :: "batch \<Rightarrow> webhook_event \<Rightarrow> (uuid \<times> int) list" where
  "proved_by b e =
     (case (we_occurred e, we_evidence e) of
        (Some t, Some actor) \<Rightarrow>
          (case map_of b (we_portal e, we_ticket e, actor) of
             None \<Rightarrow> []
           | Some ws \<Rightarrow> map (\<lambda>(from, until, c, n). (c, n)) (filter (\<lambda>(from, until, c, n). from \<le> t \<and> t < until) ws))
      | _ \<Rightarrow> [])"

definition batch_cycles :: "webhook_event list \<Rightarrow> batch \<Rightarrow> (uuid \<times> int) list" where
  "batch_cycles es b = concat (map (proved_by b) (filter (batch_query b) es))"

definition attributed_agent_cycles :: "uuid list option \<Rightarrow> db \<Rightarrow> webhook_event list \<Rightarrow> (uuid \<times> int) list" where
  "attributed_agent_cycles ids d es =
     (if ids = Some [] then []
      else let ps = projections ids d; logs = evidence_logs ids d;
               owners = log_owners (map fst ps) logs (project_owners ps []);
               windows = group_windows (transfer_windows d (log_starts logs (\<lambda>_. None)) (evidence_transfers ids d) (\<lambda>_. None)) []
           in owners @ concat (map (batch_cycles es) (in_batches 100 windows)))"

section \<open>The loops in closed form\<close>

text \<open>The last row that matches decides.\<close>

definition last_match :: "('r \<Rightarrow> bool) \<Rightarrow> ('r \<Rightarrow> 'v option) \<Rightarrow> 'r list \<Rightarrow> 'v option \<Rightarrow> 'v option" where
  "last_match P g rows x = fold (\<lambda>r y. if P r then g r else y) rows x"

lemma last_match_append [simp]: "last_match P g (xs @ ys) x = last_match P g ys (last_match P g xs x)"
  by (simp add: last_match_def)

lemma last_match_none: "(\<And>r. r \<in> set rows \<Longrightarrow> \<not> P r) \<Longrightarrow> last_match P g rows x = x"
  by (induction rows arbitrary: x) (simp_all add: last_match_def)

lemma last_match_same:
  assumes "r \<in> set rows" and "P r" and "\<And>q. q \<in> set rows \<Longrightarrow> P q \<Longrightarrow> g q = g r"
  shows "last_match P g rows x = g r"
  using assms
proof (induction rows rule: rev_induct)
  case (snoc q rows)
  show ?case
  proof (cases "P q")
    case True
    then show ?thesis using snoc.prems(3) [of q] by (simp add: last_match_def)
  next
    case False
    then have "r \<in> set rows" using snoc.prems(1,2) by auto
    then show ?thesis using False snoc.IH [OF _ snoc.prems(2)] snoc.prems(3) by (simp add: last_match_def)
  qed
qed simp

lemma last_match_sorted:
  assumes "sorted_wrt (\<lambda>q r. f q < f r) rows" and "\<And>r. r \<in> set rows \<Longrightarrow> P r \<Longrightarrow> g r \<noteq> None"
  shows "last_match P g rows None = Some n \<longleftrightarrow> (\<exists>r \<in> set rows. P r \<and> g r = Some n \<and> (\<forall>q \<in> set rows. P q \<longrightarrow> f q \<le> (f r :: 'k::linorder)))"
  using assms
proof (induction rows rule: rev_induct)
  case Nil
  then show ?case by (simp add: last_match_def)
next
  case (snoc r rows)
  have less: "f q < f r" if "q \<in> set rows" for q using snoc.prems(1) that by (simp add: sorted_wrt_append)
  have IH: "last_match P g rows None = Some n \<longleftrightarrow> (\<exists>r \<in> set rows. P r \<and> g r = Some n \<and> (\<forall>q \<in> set rows. P q \<longrightarrow> f q \<le> f r))"
    using snoc.IH snoc.prems by (simp add: sorted_wrt_append)
  show ?case
  proof (cases "P r")
    case True
    have "(\<exists>q \<in> set (rows @ [r]). P q \<and> g q = Some n \<and> (\<forall>z \<in> set (rows @ [r]). P z \<longrightarrow> f z \<le> f q)) \<longleftrightarrow> g r = Some n"
    proof
      assume "\<exists>q \<in> set (rows @ [r]). P q \<and> g q = Some n \<and> (\<forall>z \<in> set (rows @ [r]). P z \<longrightarrow> f z \<le> f q)"
      then obtain q where q: "q \<in> set (rows @ [r])" "g q = Some n" "f r \<le> f q" using True by auto
      then show "g r = Some n" using less [of q] by (cases "q = r") (auto simp: not_le dest: leD)
    next
      assume "g r = Some n"
      then show "\<exists>q \<in> set (rows @ [r]). P q \<and> g q = Some n \<and> (\<forall>z \<in> set (rows @ [r]). P z \<longrightarrow> f z \<le> f q)"
        using True less by (intro bexI [of _ r]) (auto intro: less_imp_le)
    qed
    then show ?thesis using True by (simp add: last_match_def)
  next
    case False
    then show ?thesis using IH by (auto simp: last_match_def)
  qed
qed

lemma projected_owners:
  "map_of (project_owners ps owners) c = last_match (\<lambda>p. fst p = c) snd ps (map_of owners c)"
  by (induction ps owners rule: project_owners.induct) (auto simp: last_match_def update_conv' delete_conv')

lemma projected_distinct: "distinct (map fst owners) \<Longrightarrow> distinct (map fst (project_owners ps owners))"
  by (induction ps owners rule: project_owners.induct) (simp_all add: distinct_update distinct_delete)

lemma logged_owners:
  assumes "\<And>l. l \<in> set ls \<Longrightarrow> lg_cycle l \<noteq> None \<and> lg_owner l \<noteq> None"
  shows "map_of (log_owners covered ls owners) c =
    (if c \<in> set covered then map_of owners c else last_match (\<lambda>l. lg_cycle l = Some c) lg_owner ls (map_of owners c))"
  using assms by (induction covered ls owners rule: log_owners.induct) (auto simp: last_match_def update_conv')

lemma logged_distinct: "distinct (map fst owners) \<Longrightarrow> distinct (map fst (log_owners covered ls owners))"
  by (induction covered ls owners rule: log_owners.induct) (simp_all add: distinct_update)

definition log_times :: "log_row list \<Rightarrow> uuid \<times> int \<Rightarrow> instant set" where
  "log_times ls k = lg_assigned_at ` {l \<in> set ls. (the (lg_cycle l), the (lg_owner l)) = k}"

lemma log_times_Cons:
  "log_times (l # ls) k = (if (the (lg_cycle l), the (lg_owner l)) = k then insert (lg_assigned_at l) (log_times ls k) else log_times ls k)"
  by (auto simp: log_times_def)

lemma first_logged:
  "log_starts ls m k = (case m k of None \<Rightarrow> if log_times ls k = {} then None else Some (Min (log_times ls k))
                        | Some t \<Rightarrow> Some (Min (insert t (log_times ls k))))"
proof (induction ls m rule: log_starts.induct)
  case (1 m)
  then show ?case by (simp add: log_times_def split: option.split)
next
  case (2 l ls m)
  have "finite (log_times ls k)" by (simp add: log_times_def)
  then show ?case
    using 2 by (auto simp: log_times_Cons Let_def insert_commute min_def split: option.split)
qed

section \<open>Which windows a transfer has\<close>

definition received_after :: "reassign_row list \<Rightarrow> starts \<Rightarrow> starts" where
  "received_after rs m = fold (\<lambda>r m. m((the (rr_cycle r), the (rr_to_owner r)) := rr_at r)) rs m"

lemma transfer_windows_mem:
  "w \<in> set (transfer_windows d a rs m) \<longleftrightarrow> (\<exists>pre r post. rs = pre @ r # post \<and> window_of d a (received_after pre m) r = Some w)"
proof (induction rs arbitrary: m)
  case (Cons r rs)
  have "w \<in> set (transfer_windows d a (r # rs) m) \<longleftrightarrow> window_of d a m r = Some w \<or>
      (\<exists>pre q post. rs = pre @ q # post \<and> window_of d a (received_after (r # pre) m) q = Some w)"
    unfolding transfer_windows.simps set_append Un_iff Cons.IH received_after_def fold_simps(2) by (cases "window_of d a m r") auto
  also have "\<dots> \<longleftrightarrow> (\<exists>pre q post. r # rs = pre @ q # post \<and> window_of d a (received_after pre m) q = Some w)"
    (is "?now \<or> ?later \<longleftrightarrow> ?split")
  proof
    assume "?now \<or> ?later"
    then show ?split
    proof
      assume ?now
      then have "r # rs = [] @ r # rs \<and> window_of d a (received_after [] m) r = Some w" by (simp add: received_after_def)
      then show ?split by blast
    next
      assume ?later
      then obtain pre q post where "r # rs = (r # pre) @ q # post \<and> window_of d a (received_after (r # pre) m) q = Some w" by auto
      then show ?split by blast
    qed
  next
    assume ?split
    then obtain pre q post where s: "r # rs = pre @ q # post" "window_of d a (received_after pre m) q = Some w" by blast
    then show "?now \<or> ?later" by (cases pre) (auto simp: received_after_def)
  qed
  finally show ?case .
qed (simp add: received_after_def)

lemma received_last:
  "received_after rs m k = last_match (\<lambda>r. (the (rr_cycle r), the (rr_to_owner r)) = k) rr_at rs (m k)"
  by (induction rs rule: rev_induct) (auto simp: received_after_def last_match_def)

definition covers :: "interval \<Rightarrow> instant \<Rightarrow> uuid \<Rightarrow> int \<Rightarrow> bool" where
  "covers w t c n \<longleftrightarrow> (case w of (from, until, c', n') \<Rightarrow> from \<le> t \<and> t < until \<and> c' = c \<and> n' = n)"

text \<open>The guards of the window follow from a message inside it.\<close>

lemma cut_window_covers:
  "(\<exists>from until. cut_window cy began at = Some (from, until) \<and> from \<le> t \<and> t < until) \<longleftrightarrow>
     began \<le> t \<and> cy_opened_at cy \<le> t \<and> t < at \<and> (\<forall>z. cy_closed_at cy = Some z \<longrightarrow> t < z)"
  by (cases "cy_closed_at cy") (auto simp: cut_window_def window_end_def Let_def)

lemma starts_of_bound: "starts_of a m k \<noteq> [] \<Longrightarrow> Max (set (starts_of a m k)) \<le> t \<longleftrightarrow> (\<forall>b. a k = Some b \<or> m k = Some b \<longrightarrow> b \<le> t)"
  by (cases "a k"; cases "m k") (auto simp: starts_of_def)

lemma starts_of_Nil: "starts_of a m k = [] \<longleftrightarrow> a k = None \<and> m k = None"
  by (cases "a k"; cases "m k") (simp_all add: starts_of_def)

definition message_window :: "db \<Rightarrow> reassign_row \<Rightarrow> uuid \<Rightarrow> int \<Rightarrow> window_key \<Rightarrow> instant \<Rightarrow> bool" where
  "message_window d r c n k t \<longleftrightarrow> c = the (rr_cycle r) \<and> n = the (rr_from_owner r) \<and> t < the (rr_at r) \<and>
     (\<exists>cy user. get_row cy_pk c (db_cycles d) = Some cy \<and> users_of_owner d n = [user] \<and> k = (cy_account cy, rr_ticket r, ''A-'' @ user) \<and>
        cy_opened_at cy \<le> t \<and> (\<forall>z. cy_closed_at cy = Some z \<longrightarrow> t < z))"

lemma window_covers:
  "(\<exists>w. window_of d a m r = Some (k, w) \<and> covers w t c n) \<longleftrightarrow>
   message_window d r c n k t \<and> (a (c, n) \<noteq> None \<or> m (c, n) \<noteq> None) \<and> (\<forall>b. a (c, n) = Some b \<or> m (c, n) = Some b \<longrightarrow> b \<le> t)"
  (is "?l \<longleftrightarrow> ?r")
proof -
  let ?c = "the (rr_cycle r)" and ?n = "the (rr_from_owner r)" and ?at = "the (rr_at r)"
  let ?begins = "starts_of a m (?c, ?n)"
  show ?thesis
  proof (cases "\<exists>cy user. get_row cy_pk ?c (db_cycles d) = Some cy \<and> users_of_owner d ?n = [user] \<and> ?begins \<noteq> []")
    case True
    then obtain cy user where u: "get_row cy_pk ?c (db_cycles d) = Some cy" "users_of_owner d ?n = [user]" "?begins \<noteq> []" by blast
    have "?l \<longleftrightarrow> c = ?c \<and> n = ?n \<and> k = (cy_account cy, rr_ticket r, ''A-'' @ user) \<and>
        (\<exists>from until. cut_window cy (Max (set ?begins)) ?at = Some (from, until) \<and> from \<le> t \<and> t < until)"
      using u by (auto simp: window_of_def Let_def covers_def)
    also have "\<dots> \<longleftrightarrow> c = ?c \<and> n = ?n \<and> k = (cy_account cy, rr_ticket r, ''A-'' @ user) \<and>
        (\<forall>b. a (?c, ?n) = Some b \<or> m (?c, ?n) = Some b \<longrightarrow> b \<le> t) \<and> cy_opened_at cy \<le> t \<and> t < ?at \<and> (\<forall>z. cy_closed_at cy = Some z \<longrightarrow> t < z)"
      unfolding cut_window_covers starts_of_bound [OF u(3)] by blast
    also have "\<dots> \<longleftrightarrow> ?r" using u(1,2) u(3) [unfolded starts_of_Nil] by (auto simp: message_window_def)
    finally show ?thesis .
  next
    case False
    have "\<not> ?r" using False starts_of_Nil [of a m "(?c, ?n)"] by (auto simp: message_window_def)
    moreover have "\<not> ?l" using False by (auto simp: window_of_def Let_def split: option.splits list.splits if_splits)
    ultimately show ?thesis by blast
  qed
qed

section \<open>Which messages a batch finds\<close>

lemma grouped_distinct: "distinct (map fst m) \<Longrightarrow> distinct (map fst (group_windows ws m))"
  by (induction ws m rule: group_windows.induct) (simp_all add: distinct_update)

lemma grouped_mem:
  "(\<exists>xs. map_of (group_windows ws m) k = Some xs \<and> w \<in> set xs) \<longleftrightarrow> (k, w) \<in> set ws \<or> (\<exists>xs. map_of m k = Some xs \<and> w \<in> set xs)"
  by (induction ws m rule: group_windows.induct) (auto simp: update_conv' split: option.splits if_splits)

lemma in_batches_Nil [simp]: "in_batches n [] = []"
  by (simp add: in_batches.simps)

lemma batches_concat: "0 < n \<Longrightarrow> concat (in_batches n xs) = xs"
proof (induction n xs rule: in_batches.induct)
  case (1 n xs)
  then show ?case by (cases "xs = []") (simp_all add: in_batches.simps [of n xs])
qed

lemma batch_distinct: "0 < n \<Longrightarrow> distinct (map fst xs) \<Longrightarrow> b \<in> set (in_batches n xs) \<Longrightarrow> distinct (map fst b)"
proof (induction n xs rule: in_batches.induct)
  case (1 n xs)
  then show ?case
    by (cases "xs = []") (auto simp: in_batches.simps [of n xs] take_map [symmetric] drop_map [symmetric] distinct_take distinct_drop)
qed

definition keyed_message :: "webhook_event \<Rightarrow> instant \<Rightarrow> window_key \<Rightarrow> bool" where
  "keyed_message e t k \<longleftrightarrow> we_ignored e = ''outgoing_message'' \<and> we_occurred e = Some t \<and> (\<exists>actor. we_evidence e = Some actor \<and> k = (we_portal e, we_ticket e, actor))"

lemma batch_finds:
  assumes "distinct (map fst b)"
  shows "(c, n) \<in> set (batch_cycles es b) \<longleftrightarrow>
    (\<exists>e \<in> set es. \<exists>t k xs w. keyed_message e t k \<and> (k, xs) \<in> set b \<and> w \<in> set xs \<and> covers w t c n)"
proof -
  have "batch_query b e \<and> (c, n) \<in> set (proved_by b e) \<longleftrightarrow>
      (\<exists>t k xs w. keyed_message e t k \<and> (k, xs) \<in> set b \<and> w \<in> set xs \<and> covers w t c n)" (is "?l \<longleftrightarrow> ?r") for e
  proof
    assume ?l
    then have q: "we_ignored e = ''outgoing_message''" and p: "(c, n) \<in> set (proved_by b e)" by (simp_all add: batch_query_def)
    from p have "\<exists>t actor xs w. we_occurred e = Some t \<and> we_evidence e = Some actor \<and> map_of b (we_portal e, we_ticket e, actor) = Some xs \<and>
        w \<in> set xs \<and> covers w t c n"
      by (force simp: proved_by_def covers_def split: option.splits)
    then obtain t actor xs w where e: "we_occurred e = Some t" "we_evidence e = Some actor" "map_of b (we_portal e, we_ticket e, actor) = Some xs"
      and w: "w \<in> set xs" "covers w t c n" by blast
    have "keyed_message e t (we_portal e, we_ticket e, actor)" using q e(1,2) by (simp add: keyed_message_def)
    then show ?r using map_of_SomeD [OF e(3)] w by blast
  next
    assume ?r
    then obtain t k xs w where r: "keyed_message e t k" "(k, xs) \<in> set b" "w \<in> set xs" "covers w t c n" by blast
    then obtain actor where e: "we_ignored e = ''outgoing_message''" "we_occurred e = Some t" "we_evidence e = Some actor" "k = (we_portal e, we_ticket e, actor)"
      by (auto simp: keyed_message_def)
    have m: "map_of b k = Some xs" using assms r(2) by simp
    have w: "w \<in> set (batch_intervals b)" using r(2,3) by (force simp: batch_intervals_def)
    obtain lo hi where f: "w = (lo, hi, c, n)" "lo \<le> t" "t < hi" using r(4) by (cases w) (auto simp: covers_def)
    have "Min (set (map fst (batch_intervals b))) \<le> lo" using w f(1) by (intro Min_le) (auto intro: rev_image_eqI)
    moreover have "hi \<le> Max (set (map (\<lambda>w. fst (snd w)) (batch_intervals b)))" using w f(1) by (intro Max_ge) (auto intro: rev_image_eqI)
    ultimately have "batch_query b e" using e r(2) f(2,3) unfolding batch_query_def by (auto intro: rev_image_eqI)
    moreover have "(c, n) \<in> set (proved_by b e)" using e m r(3) f by (force simp: proved_by_def)
    ultimately show ?l by blast
  qed
  moreover have "(c, n) \<in> set (batch_cycles es b) \<longleftrightarrow> (\<exists>e \<in> set es. batch_query b e \<and> (c, n) \<in> set (proved_by b e))"
    unfolding batch_cycles_def by auto
  ultimately show ?thesis by simp
qed

section \<open>The reference\<close>

text \<open>Whom the tables name as the owner of a cycle: the closed row, else the assigned row, else the latest log.\<close>

definition cycle_logs :: "db \<Rightarrow> uuid \<Rightarrow> log_row set" where
  "cycle_logs d c = {l \<in> set (db_logs d). lg_cycle l = Some c \<and> lg_owner l \<noteq> None}"

definition owns_cycle :: "db \<Rightarrow> uuid \<Rightarrow> int \<Rightarrow> bool" where
  "owns_cycle d c n \<longleftrightarrow>
     (if \<exists>x \<in> set (db_closed d). cl_cycle x = Some c then \<exists>x \<in> set (db_closed d). cl_cycle x = Some c \<and> cl_owner x = Some n
      else if \<exists>a \<in> set (db_assigned d). as_cycle a = Some c then \<exists>a \<in> set (db_assigned d). as_cycle a = Some c \<and> as_owner a = n
      else \<exists>l \<in> cycle_logs d c. lg_owner l = Some n \<and> (\<forall>q \<in> cycle_logs d c. (lg_assigned_at q, lg_pk q) \<le> (lg_assigned_at l, lg_pk l)))"

definition evidence_transfer :: "reassign_row \<Rightarrow> bool" where
  "evidence_transfer r \<longleftrightarrow> rr_cycle r \<noteq> None \<and> rr_from_owner r \<noteq> None \<and> rr_to_owner r \<noteq> None \<and> rr_at r \<noteq> None \<and>
     \<not> starts_with ''forced_reassignment:reserved'' (rr_source r)"

text \<open>At the time of the message the owner was on record: after his first assignment and after every earlier transfer
  of the cycle to him, one of which there is.\<close>

definition earlier_arrivals :: "db \<Rightarrow> reassign_row \<Rightarrow> uuid \<Rightarrow> int \<Rightarrow> reassign_row set" where
  "earlier_arrivals d r c n = {q \<in> set (db_reassigns d). evidence_transfer q \<and> rr_cycle q = Some c \<and> rr_to_owner q = Some n \<and>
     (rr_at q, rr_pk q) < (rr_at r, rr_pk r)}"

definition on_record :: "db \<Rightarrow> reassign_row \<Rightarrow> uuid \<Rightarrow> int \<Rightarrow> instant \<Rightarrow> bool" where
  "on_record d r c n t \<longleftrightarrow>
     (let logs = {l \<in> cycle_logs d c. lg_owner l = Some n}; arrivals = earlier_arrivals d r c n
      in (logs \<noteq> {} \<or> arrivals \<noteq> {}) \<and> (logs \<noteq> {} \<longrightarrow> (\<exists>l \<in> logs. lg_assigned_at l \<le> t)) \<and> (\<forall>q \<in> arrivals. the (rr_at q) \<le> t))"

definition took_part :: "db \<Rightarrow> webhook_event list \<Rightarrow> uuid \<Rightarrow> int \<Rightarrow> bool" where
  "took_part d es c n \<longleftrightarrow> (\<exists>r \<in> set (db_reassigns d). evidence_transfer r \<and> rr_cycle r = Some c \<and> rr_from_owner r = Some n \<and>
     (\<exists>e \<in> set es. \<exists>k t. keyed_message e t k \<and> message_window d r c n k t \<and> on_record d r c n t))"

definition unique_projections :: "db \<Rightarrow> bool" where
  "unique_projections d \<longleftrightarrow> distinct (map cl_cycle (filter (\<lambda>x. cl_cycle x \<noteq> None) (db_closed d))) \<and>
     distinct (map as_cycle (filter (\<lambda>a. as_cycle a \<noteq> None) (db_assigned d))) \<and>
     distinct (map lg_pk (db_logs d)) \<and> distinct (map rr_pk (db_reassigns d))"

lemma sort_key_strict:
  assumes "distinct (map f xs)"
  shows "sorted_wrt (\<lambda>q r. f q < f r) (sort_key f xs)"
proof -
  have "distinct (map f (sort_key f xs))" using assms by (simp add: distinct_map)
  then have "sorted_wrt (<) (map f (sort_key f xs))" by (simp add: strict_sorted_iff)
  then show ?thesis by (simp add: sorted_wrt_map)
qed

lemma distinct_snd: "distinct (map p xs) \<Longrightarrow> distinct (map (\<lambda>x. (f x, p x)) xs)"
  by (auto simp: distinct_map inj_on_def)

lemma logs_strict:
  assumes "unique_projections d"
  shows "sorted_wrt (\<lambda>q r. (lg_assigned_at q, lg_pk q) < (lg_assigned_at r, lg_pk r)) (evidence_logs ids d)"
  unfolding evidence_logs_def using assms
  by (intro sort_key_strict distinct_snd) (simp add: unique_projections_def distinct_map_filter)

lemma transfers_strict:
  assumes "unique_projections d"
  shows "sorted_wrt (\<lambda>q r. (rr_at q, rr_pk q) < (rr_at r, rr_pk r)) (evidence_transfers ids d)"
  unfolding evidence_transfers_def using assms
  by (intro sort_key_strict distinct_snd) (simp add: unique_projections_def distinct_map_filter)

lemma evidence_logs_mem:
  "l \<in> set (evidence_logs ids d) \<longleftrightarrow> l \<in> set (db_logs d) \<and> lg_cycle l \<noteq> None \<and> lg_owner l \<noteq> None \<and> wanted ids (the (lg_cycle l))"
  by (simp add: evidence_logs_def)

lemma evidence_transfers_mem:
  "r \<in> set (evidence_transfers ids d) \<longleftrightarrow> r \<in> set (db_reassigns d) \<and> evidence_transfer r \<and> wanted ids (the (rr_cycle r))"
  by (auto simp: evidence_transfers_def evidence_transfer_def)

text \<open>The present owners.\<close>

lemma projection_mem: "(c, v) \<in> set (projection_of ids k w) \<longleftrightarrow> k = Some c \<and> v = w \<and> wanted ids c"
  by (cases "(ids, k, w)" rule: projection_of.cases) auto

lemma unique_row:
  assumes "distinct (map key (filter (\<lambda>x. key x \<noteq> None) rows))" and "x \<in> set rows" "y \<in> set rows" "key x = Some c" "key y = Some c"
  shows "x = y"
proof -
  have "x \<in> set (filter (\<lambda>x. key x \<noteq> None) rows)" "y \<in> set (filter (\<lambda>x. key x \<noteq> None) rows)" using assms by simp_all
  then show ?thesis using assms(1,4,5) by (metis distinct_map inj_onD)
qed

lemma projected_owner:
  assumes "unique_projections d" and "wanted ids c"
  shows "last_match (\<lambda>p. fst p = c) snd (projections ids d) None =
    (case first_row (\<lambda>x. cl_cycle x = Some c) (db_closed d) of
       Some x \<Rightarrow> cl_owner x
     | None \<Rightarrow> map_option as_owner (first_row (\<lambda>a. as_cycle a = Some c) (db_assigned d)))"
proof -
  let ?A = "concat (map (\<lambda>a. projection_of ids (as_cycle a) (Some (as_owner a))) (db_assigned d))"
  let ?C = "concat (map (\<lambda>x. projection_of ids (cl_cycle x) (cl_owner x)) (db_closed d))"
  have A: "last_match (\<lambda>p. fst p = c) snd ?A None = map_option as_owner (first_row (\<lambda>a. as_cycle a = Some c) (db_assigned d))"
  proof (cases "first_row (\<lambda>a. as_cycle a = Some c) (db_assigned d)")
    case None
    then have "last_match (\<lambda>p. fst p = c) snd ?A None = None"
      by (intro last_match_none) (auto simp: first_row_None projection_mem)
    then show ?thesis using None by simp
  next
    case (Some a)
    note a = first_row_Some [OF Some]
    have u: "b = a" if "b \<in> set (db_assigned d)" "as_cycle b = Some c" for b
      using unique_row [of as_cycle "db_assigned d" b a c] assms(1) a that by (simp add: unique_projections_def)
    have m: "(c, Some (as_owner a)) \<in> set ?A" using a assms(2) by (force simp: projection_mem)
    have "last_match (\<lambda>p. fst p = c) snd ?A None = snd (c, Some (as_owner a))"
      by (rule last_match_same [OF m]) (auto simp: projection_mem dest: u)
    then show ?thesis using Some by simp
  qed
  show ?thesis
  proof (cases "first_row (\<lambda>x. cl_cycle x = Some c) (db_closed d)")
    case None
    then have "last_match (\<lambda>p. fst p = c) snd ?C x = x" for x
      by (intro last_match_none) (auto simp: first_row_None projection_mem)
    then show ?thesis using None A by (simp add: projections_def)
  next
    case (Some a)
    note a = first_row_Some [OF Some]
    have u: "b = a" if "b \<in> set (db_closed d)" "cl_cycle b = Some c" for b
      using unique_row [of cl_cycle "db_closed d" b a c] assms(1) a that by (simp add: unique_projections_def)
    have m: "(c, cl_owner a) \<in> set ?C" using a assms(2) by (force simp: projection_mem)
    have "last_match (\<lambda>p. fst p = c) snd ?C x = snd (c, cl_owner a)" for x
      by (rule last_match_same [OF m]) (auto simp: projection_mem dest: u)
    then show ?thesis using Some by (simp add: projections_def)
  qed
qed

lemma projections_fst: "c \<in> fst ` set (projections ids d) \<longleftrightarrow>
    wanted ids c \<and> ((\<exists>a \<in> set (db_assigned d). as_cycle a = Some c) \<or> (\<exists>x \<in> set (db_closed d). cl_cycle x = Some c))"
proof -
  have "c \<in> fst ` set (projections ids d) \<longleftrightarrow> (\<exists>v. (c, v) \<in> set (projections ids d))" by (force simp: image_iff)
  also have "\<dots> \<longleftrightarrow> wanted ids c \<and> ((\<exists>a \<in> set (db_assigned d). as_cycle a = Some c) \<or> (\<exists>x \<in> set (db_closed d). cl_cycle x = Some c))"
    by (auto simp: projections_def projection_mem)
  finally show ?thesis .
qed

definition present_owners :: "uuid list option \<Rightarrow> db \<Rightarrow> (uuid \<times> int) list" where
  "present_owners ids d = log_owners (map fst (projections ids d)) (evidence_logs ids d) (project_owners (projections ids d) [])"

lemma cycle_logs_mem: "wanted ids c \<Longrightarrow> l \<in> cycle_logs d c \<longleftrightarrow> l \<in> set (evidence_logs ids d) \<and> lg_cycle l = Some c"
  by (auto simp: cycle_logs_def evidence_logs_mem)

lemma logged_owner:
  assumes "unique_projections d" and "wanted ids c"
  shows "last_match (\<lambda>l. lg_cycle l = Some c) lg_owner (evidence_logs ids d) None = Some n \<longleftrightarrow>
    (\<exists>l \<in> cycle_logs d c. lg_owner l = Some n \<and> (\<forall>q \<in> cycle_logs d c. (lg_assigned_at q, lg_pk q) \<le> (lg_assigned_at l, lg_pk l)))"
proof -
  have "last_match (\<lambda>l. lg_cycle l = Some c) lg_owner (evidence_logs ids d) None = Some n \<longleftrightarrow>
      (\<exists>l \<in> set (evidence_logs ids d). lg_cycle l = Some c \<and> lg_owner l = Some n \<and>
         (\<forall>q \<in> set (evidence_logs ids d). lg_cycle q = Some c \<longrightarrow> (lg_assigned_at q, lg_pk q) \<le> (lg_assigned_at l, lg_pk l)))"
    by (rule last_match_sorted [OF logs_strict [OF assms(1)]]) (simp add: evidence_logs_mem)
  then show ?thesis using cycle_logs_mem [OF assms(2)] by blast
qed

lemma present_owners_exact:
  assumes "unique_projections d"
  shows "(c, n) \<in> set (present_owners ids d) \<longleftrightarrow> wanted ids c \<and> owns_cycle d c n"
proof -
  let ?ps = "projections ids d" and ?ls = "evidence_logs ids d"
  have "distinct (map fst (present_owners ids d))" unfolding present_owners_def by (intro logged_distinct projected_distinct) simp
  then have "(c, n) \<in> set (present_owners ids d) \<longleftrightarrow> map_of (present_owners ids d) c = Some n" by simp
  also have "map_of (present_owners ids d) c =
      (if c \<in> fst ` set ?ps then last_match (\<lambda>p. fst p = c) snd ?ps None
       else last_match (\<lambda>l. lg_cycle l = Some c) lg_owner ?ls (last_match (\<lambda>p. fst p = c) snd ?ps None))"
    unfolding present_owners_def by (subst logged_owners) (simp_all add: evidence_logs_mem projected_owners)
  also have "\<dots> = Some n \<longleftrightarrow> wanted ids c \<and> owns_cycle d c n"
  proof (cases "wanted ids c")
    case False
    have "last_match (\<lambda>p. fst p = c) snd ?ps None = None" using False projections_fst [of c ids d] by (intro last_match_none) force
    moreover have "last_match (\<lambda>l. lg_cycle l = Some c) lg_owner ?ls None = None" using False by (intro last_match_none) (auto simp: evidence_logs_mem)
    ultimately show ?thesis using False by simp
  next
    case True
    show ?thesis
    proof (cases "c \<in> fst ` set ?ps")
      case p: True
      show ?thesis
      proof (cases "first_row (\<lambda>x. cl_cycle x = Some c) (db_closed d)")
        case None
        then have none: "\<not> (\<exists>x \<in> set (db_closed d). cl_cycle x = Some c)" by (simp add: first_row_None)
        then obtain a where "first_row (\<lambda>a. as_cycle a = Some c) (db_assigned d) = Some a"
          using p by (cases "first_row (\<lambda>a. as_cycle a = Some c) (db_assigned d)") (auto simp: first_row_None projections_fst)
        note a = this first_row_Some [OF this]
        have "owns_cycle d c n \<longleftrightarrow> as_owner a = n"
          using none a unique_row [of as_cycle "db_assigned d" _ a c] assms by (auto simp: owns_cycle_def unique_projections_def)
        then show ?thesis using p True projected_owner [OF assms True] None a(1) by simp
      next
        case (Some x)
        note x = first_row_Some [OF Some]
        have "owns_cycle d c n \<longleftrightarrow> cl_owner x = Some n"
          using x unique_row [of cl_cycle "db_closed d" _ x c] assms by (auto simp: owns_cycle_def unique_projections_def)
        then show ?thesis using p True projected_owner [OF assms True] Some by simp
      qed
    next
      case p: False
      then have none: "\<not> (\<exists>x \<in> set (db_closed d). cl_cycle x = Some c)" "\<not> (\<exists>a \<in> set (db_assigned d). as_cycle a = Some c)"
        using True by (simp_all add: projections_fst)
      have "last_match (\<lambda>p. fst p = c) snd ?ps None = None" using p by (intro last_match_none) force
      then show ?thesis using p True none logged_owner [OF assms True] by (simp add: owns_cycle_def)
    qed
  qed
  finally show ?thesis .
qed

text \<open>The proven earlier owners.\<close>

lemma strict_prefix:
  assumes "sorted_wrt (\<lambda>q r. f q < (f r :: 'k::linorder)) (pre @ r # post)"
  shows "set pre = {q \<in> set (pre @ r # post). f q < f r}"
  using assms by (fastforce simp: sorted_wrt_append dest: less_asym)

lemma arrivals_in_prefix:
  assumes "unique_projections d" and "evidence_transfers ids d = pre @ r # post" and "wanted ids c"
  shows "earlier_arrivals d r c n = {q \<in> set pre. (the (rr_cycle q), the (rr_to_owner q)) = (c, n)}"
proof -
  have m: "q \<in> set (pre @ r # post) \<longleftrightarrow> q \<in> set (db_reassigns d) \<and> evidence_transfer q \<and> wanted ids (the (rr_cycle q))" for q
    using evidence_transfers_mem [of q ids d] assms(2) by simp
  have s: "set pre = {q \<in> set (pre @ r # post). (rr_at q, rr_pk q) < (rr_at r, rr_pk r)}"
    by (rule strict_prefix) (use transfers_strict [OF assms(1), of ids] assms(2) in simp)
  show ?thesis unfolding s earlier_arrivals_def m using assms(3) by (auto simp: evidence_transfer_def)
qed

lemma last_arrival:
  assumes "unique_projections d" and "evidence_transfers ids d = pre @ r # post" and "wanted ids c"
  shows "received_after pre (\<lambda>_. None) (c, n) \<noteq> None \<longleftrightarrow> earlier_arrivals d r c n \<noteq> {}"
    and "(\<forall>b. received_after pre (\<lambda>_. None) (c, n) = Some b \<longrightarrow> b \<le> t) \<longleftrightarrow> (\<forall>q \<in> earlier_arrivals d r c n. the (rr_at q) \<le> t)"
proof -
  let ?P = "\<lambda>q. (the (rr_cycle q), the (rr_to_owner q)) = (c, n)"
  let ?S = "{q \<in> set pre. ?P q}"
  have at: "rr_at q \<noteq> None" if "q \<in> set pre" for q
    using that evidence_transfers_mem [of q ids d] assms(2) by (simp add: evidence_transfer_def)
  have s: "sorted_wrt (\<lambda>q r. (rr_at q, rr_pk q) < (rr_at r, rr_pk r)) pre"
    using transfers_strict [OF assms(1), of ids] assms(2) by (simp add: sorted_wrt_append)
  have some: "received_after pre (\<lambda>_. None) (c, n) = Some b \<longleftrightarrow>
      (\<exists>q \<in> ?S. rr_at q = Some b \<and> (\<forall>z \<in> ?S. (rr_at z, rr_pk z) \<le> (rr_at q, rr_pk q)))" for b
    unfolding received_last by (subst last_match_sorted [OF s]) (auto dest: at)
  have above: "the (rr_at z) \<le> b" if "z \<in> ?S" "rr_at q = Some b" "(rr_at z, rr_pk z) \<le> (rr_at q, rr_pk q)" for z q b
    using that at [of z] by (auto simp: less_eq_prod_def)
  have ex: "\<exists>b. received_after pre (\<lambda>_. None) (c, n) = Some b" if "z \<in> ?S" for z
  proof -
    have "received_after pre (\<lambda>_. None) (c, n) \<noteq> None" unfolding received_last
      using that at by (induction pre rule: rev_induct) (auto simp: last_match_def)
    then show ?thesis by blast
  qed
  show "received_after pre (\<lambda>_. None) (c, n) \<noteq> None \<longleftrightarrow> earlier_arrivals d r c n \<noteq> {}"
    unfolding arrivals_in_prefix [OF assms] using some ex by blast
  show "(\<forall>b. received_after pre (\<lambda>_. None) (c, n) = Some b \<longrightarrow> b \<le> t) \<longleftrightarrow> (\<forall>q \<in> earlier_arrivals d r c n. the (rr_at q) \<le> t)"
    unfolding arrivals_in_prefix [OF assms]
  proof
    assume l: "\<forall>b. received_after pre (\<lambda>_. None) (c, n) = Some b \<longrightarrow> b \<le> t"
    show "\<forall>q \<in> ?S. the (rr_at q) \<le> t"
    proof
      fix z assume z: "z \<in> ?S"
      obtain b where b: "received_after pre (\<lambda>_. None) (c, n) = Some b" using ex [OF z] by blast
      obtain q :: reassign_row where "rr_at q = Some b" "\<forall>z \<in> ?S. (rr_at z, rr_pk z) \<le> (rr_at q, rr_pk q)" using some [THEN iffD1, OF b] by blast
      then have "the (rr_at z) \<le> b" using above [OF z] bspec [OF _ z] by blast
      moreover have "b \<le> t" using l b by blast
      ultimately show "the (rr_at z) \<le> t" by simp
    qed
  next
    assume l: "\<forall>q \<in> ?S. the (rr_at q) \<le> t"
    show "\<forall>b. received_after pre (\<lambda>_. None) (c, n) = Some b \<longrightarrow> b \<le> t"
    proof (intro allI impI)
      fix b assume "received_after pre (\<lambda>_. None) (c, n) = Some b"
      then obtain q :: reassign_row where "q \<in> ?S" "rr_at q = Some b" using some [of b] by blast
      then show "b \<le> t" using bspec [OF l, of q] by simp
    qed
  qed
qed

lemma first_log:
  assumes "wanted ids c"
  shows "log_starts (evidence_logs ids d) (\<lambda>_. None) (c, n) \<noteq> None \<longleftrightarrow> {l \<in> cycle_logs d c. lg_owner l = Some n} \<noteq> {}"
    and "(\<forall>b. log_starts (evidence_logs ids d) (\<lambda>_. None) (c, n) = Some b \<longrightarrow> b \<le> t) \<longleftrightarrow>
      ({l \<in> cycle_logs d c. lg_owner l = Some n} \<noteq> {} \<longrightarrow> (\<exists>l \<in> {l \<in> cycle_logs d c. lg_owner l = Some n}. lg_assigned_at l \<le> t))"
proof -
  let ?L = "{l \<in> cycle_logs d c. lg_owner l = Some n}"
  have T: "log_times (evidence_logs ids d) (c, n) = lg_assigned_at ` ?L"
    unfolding log_times_def using cycle_logs_mem [OF assms, of _ d] by (auto simp: evidence_logs_mem cycle_logs_def)
  have fin: "finite ?L" by (simp add: cycle_logs_def)
  show "log_starts (evidence_logs ids d) (\<lambda>_. None) (c, n) \<noteq> None \<longleftrightarrow> ?L \<noteq> {}" by (simp add: first_logged T)
  show "(\<forall>b. log_starts (evidence_logs ids d) (\<lambda>_. None) (c, n) = Some b \<longrightarrow> b \<le> t) \<longleftrightarrow> (?L \<noteq> {} \<longrightarrow> (\<exists>l \<in> ?L. lg_assigned_at l \<le> t))"
  proof (cases "?L = {}")
    case False
    then have "Min (lg_assigned_at ` ?L) \<le> t \<longleftrightarrow> (\<exists>l \<in> ?L. lg_assigned_at l \<le> t)" using fin by (simp add: Min_le_iff)
    moreover have "log_starts (evidence_logs ids d) (\<lambda>_. None) (c, n) = Some (Min (lg_assigned_at ` ?L))" using False by (simp add: first_logged T)
    ultimately show ?thesis using False by (simp only: option.inject) blast
  qed (simp add: first_logged T)
qed

lemma windows_found:
  "(c, n) \<in> set (concat (map (batch_cycles es) (in_batches 100 (group_windows ws [])))) \<longleftrightarrow>
     (\<exists>e \<in> set es. \<exists>t k. keyed_message e t k \<and> (\<exists>w. (k, w) \<in> set ws \<and> covers w t c n))"
proof -
  let ?m = "group_windows ws []"
  have d: "distinct (map fst ?m)" by (rule grouped_distinct) simp
  have each: "(c, n) \<in> set (batch_cycles es b) \<longleftrightarrow>
      (\<exists>e \<in> set es. \<exists>t k xs w. keyed_message e t k \<and> (k, xs) \<in> set b \<and> w \<in> set xs \<and> covers w t c n)"
    if "b \<in> set (in_batches 100 ?m)" for b
    by (rule batch_finds, rule batch_distinct [OF _ d that]) simp
  have "(c, n) \<in> set (concat (map (batch_cycles es) (in_batches 100 ?m))) \<longleftrightarrow>
      (\<exists>b \<in> set (in_batches 100 ?m). (c, n) \<in> set (batch_cycles es b))" by simp
  also have "\<dots> \<longleftrightarrow>
      (\<exists>b \<in> set (in_batches 100 ?m). \<exists>e \<in> set es. \<exists>t k xs w. keyed_message e t k \<and> (k, xs) \<in> set b \<and> w \<in> set xs \<and> covers w t c n)"
    by (rule bex_cong [OF refl each])
  also have "\<dots> \<longleftrightarrow> (\<exists>e \<in> set es. \<exists>t k xs w. keyed_message e t k \<and> (k, xs) \<in> set (concat (in_batches 100 ?m)) \<and> w \<in> set xs \<and> covers w t c n)"
    unfolding set_concat by blast
  also have "\<dots> \<longleftrightarrow> (\<exists>e \<in> set es. \<exists>t k. keyed_message e t k \<and> (\<exists>w. (\<exists>xs. map_of ?m k = Some xs \<and> w \<in> set xs) \<and> covers w t c n))"
    using d by (simp add: batches_concat) blast
  finally show ?thesis unfolding grouped_mem by simp
qed

lemma transfer_proof:
  assumes "unique_projections d"
  shows "(\<exists>w. (k, w) \<in> set (transfer_windows d (log_starts (evidence_logs ids d) (\<lambda>_. None)) (evidence_transfers ids d) (\<lambda>_. None)) \<and> covers w t c n) \<longleftrightarrow>
    wanted ids c \<and> (\<exists>r \<in> set (db_reassigns d). evidence_transfer r \<and> rr_cycle r = Some c \<and> rr_from_owner r = Some n \<and>
      message_window d r c n k t \<and> on_record d r c n t)"
  (is "?l \<longleftrightarrow> ?r")
proof -
  let ?a = "log_starts (evidence_logs ids d) (\<lambda>_. None)" and ?rs = "evidence_transfers ids d"
  have at_time: "(?a (c, n) \<noteq> None \<or> received_after pre (\<lambda>_. None) (c, n) \<noteq> None) \<and>
      (\<forall>b. ?a (c, n) = Some b \<or> received_after pre (\<lambda>_. None) (c, n) = Some b \<longrightarrow> b \<le> t) \<longleftrightarrow> on_record d r c n t"
    if "?rs = pre @ r # post" "wanted ids c" for pre r post
    unfolding on_record_def Let_def first_log(2) [OF that(2), of d n t, symmetric]
    unfolding last_arrival(1) [OF assms that, of n, symmetric] last_arrival(2) [OF assms that, of n t, symmetric]
      first_log(1) [OF that(2), of d n, symmetric] by blast
  have "?l \<longleftrightarrow> (\<exists>pre r post. ?rs = pre @ r # post \<and> (\<exists>w. window_of d ?a (received_after pre (\<lambda>_. None)) r = Some (k, w) \<and> covers w t c n))"
    unfolding transfer_windows_mem by blast
  also have "\<dots> \<longleftrightarrow> (\<exists>pre r post. ?rs = pre @ r # post \<and> message_window d r c n k t \<and>
      (?a (c, n) \<noteq> None \<or> received_after pre (\<lambda>_. None) (c, n) \<noteq> None) \<and>
      (\<forall>b. ?a (c, n) = Some b \<or> received_after pre (\<lambda>_. None) (c, n) = Some b \<longrightarrow> b \<le> t))"
    unfolding window_covers by blast
  also have "\<dots> \<longleftrightarrow> (\<exists>pre r post. ?rs = pre @ r # post \<and> message_window d r c n k t \<and> wanted ids c \<and> on_record d r c n t)"
  proof -
    have "?rs = pre @ r # post \<and> message_window d r c n k t \<and>
        (?a (c, n) \<noteq> None \<or> received_after pre (\<lambda>_. None) (c, n) \<noteq> None) \<and>
        (\<forall>b. ?a (c, n) = Some b \<or> received_after pre (\<lambda>_. None) (c, n) = Some b \<longrightarrow> b \<le> t) \<longleftrightarrow>
        ?rs = pre @ r # post \<and> message_window d r c n k t \<and> wanted ids c \<and> on_record d r c n t" for pre r post
    proof (cases "?rs = pre @ r # post \<and> message_window d r c n k t")
      case True
      then have "wanted ids c" using evidence_transfers_mem [of r ids d] by (simp add: message_window_def)
      then show ?thesis using True at_time [of pre r post] by blast
    qed blast
    then show ?thesis by (simp only:)
  qed
  also have "\<dots> \<longleftrightarrow> (\<exists>r \<in> set ?rs. message_window d r c n k t \<and> wanted ids c \<and> on_record d r c n t)"
    unfolding Bex_def in_set_conv_decomp by blast
  also have "\<dots> \<longleftrightarrow> ?r" unfolding Bex_def evidence_transfers_mem by (auto simp: message_window_def evidence_transfer_def)
  finally show ?thesis .
qed

text \<open>C21: the attribution of agents is exact.  Grouping the windows, querying the messages in batches with bounds over
  the whole batch and matching each message against its windows finds exactly the agents the tables prove: the owner
  of the closed row, else of the assigned row, else of the latest log; and every former owner of a transfer of the
  cycle for whom the ledger holds an outgoing message of his own, of this ticket and account, sent while he was on
  record and before the transfer, with the cycle open.  A restriction to some cycles changes nothing for them.\<close>

theorem attribution_exact:
  assumes "unique_projections d"
  shows "(c, n) \<in> set (attributed_agent_cycles ids d es) \<longleftrightarrow> wanted ids c \<and> (owns_cycle d c n \<or> took_part d es c n)"
proof (cases "ids = Some []")
  case True
  then show ?thesis by (simp add: attributed_agent_cycles_def wanted_def)
next
  case False
  let ?ws = "transfer_windows d (log_starts (evidence_logs ids d) (\<lambda>_. None)) (evidence_transfers ids d) (\<lambda>_. None)"
  have "attributed_agent_cycles ids d es = present_owners ids d @ concat (map (batch_cycles es) (in_batches 100 (group_windows ?ws [])))"
    using False by (simp add: attributed_agent_cycles_def present_owners_def Let_def)
  then have "(c, n) \<in> set (attributed_agent_cycles ids d es) \<longleftrightarrow> (wanted ids c \<and> owns_cycle d c n) \<or>
      (\<exists>e \<in> set es. \<exists>t k. keyed_message e t k \<and> (\<exists>w. (k, w) \<in> set ?ws \<and> covers w t c n))"
    using present_owners_exact [OF assms, of c n ids] windows_found [of c n es ?ws] by simp
  then show ?thesis unfolding transfer_proof [OF assms] took_part_def by blast
qed

section \<open>Witnesses\<close>

definition demo_transfer_db :: db where
  "demo_transfer_db = empty_db\<lparr>db_agents := [demo_agent 1 10, demo_agent 2 20],
     db_cycles := [\<lparr>cy_pk = 5, cy_key = ''k'', cy_source_system = ''hubspot'', cy_account = ''p'', cy_ticket = ''9'', cy_entered_at = Some 0,
       cy_source_event = [], cy_state = Assigned, cy_opened_at = 0, cy_closed_at = None\<rparr>],
     db_assigned := [\<lparr>as_pk = 1, as_ticket = ''9'', as_cycle = Some 5, as_agent = Some 2, as_owner = 20, as_agent_name = ''A'', as_pipeline = ''0'',
       as_entered_at = None, as_assigned_at = Some 10, as_wait = None, as_count = 2, as_contact = (None, None, None, None)\<rparr>],
     db_logs := [\<lparr>lg_pk = 2, lg_attempt = None, lg_ticket = ''9'', lg_cycle = Some 5, lg_agent = Some 1, lg_agent_name = ''A'', lg_owner = Some 10,
       lg_type = ''automatic'', lg_by = None, lg_pipeline = None, lg_entered_at = None, lg_wait = None, lg_assigned_at = 10\<rparr>],
     db_reassigns := [\<lparr>rr_pk = 3, rr_ticket = ''9'', rr_cycle = Some 5, rr_from_agent = Some 1, rr_from_owner = Some 10, rr_from_name = None,
       rr_to_agent = Some 2, rr_to_owner = Some 20, rr_to_name = None, rr_at = Some 100, rr_time = None, rr_source = ''external_unknown''\<rparr>]\<rparr>"

definition demo_sent :: "instant \<Rightarrow> webhook_event" where
  "demo_sent t = (new_event 1 ''k'' ''p'' ''t'' ''m'' By_Webhook ''b'')
     \<lparr>we_ticket := ''9'', we_occurred := Some t, we_ignored := ''outgoing_message'', we_evidence := Some ''A-u''\<rparr>"

text \<open>A message before the transfer proves the first owner; one after it does not.\<close>

theorem attribution_exact_witness:
  "(5, 20) \<in> set (attributed_agent_cycles None demo_transfer_db [demo_sent 150]) \<and>
   (owns_cycle demo_transfer_db 5 10 \<or> took_part demo_transfer_db [demo_sent 50] 5 10) \<and> \<not> took_part demo_transfer_db [demo_sent 150] 5 10"
proof -
  have u: "unique_projections demo_transfer_db" by code_simp
  have in20: "(5, 20) \<in> set (attributed_agent_cycles None demo_transfer_db [demo_sent 150])" by code_simp
  have in10: "(5, 10) \<in> set (attributed_agent_cycles None demo_transfer_db [demo_sent 50])" by code_simp
  have out10: "(5, 10) \<notin> set (attributed_agent_cycles None demo_transfer_db [demo_sent 150])" by code_simp
  show ?thesis
    using in20 attribution_exact [OF u, of 5 10 None "[demo_sent 50]"] in10 attribution_exact [OF u, of 5 10 None "[demo_sent 150]"] out10
    by (auto simp: wanted_def)
qed

end
