(* ===== verification/Reporting.thy ===== *)
theory Reporting
  imports Complex_Main Message_Evidence Sat_Tracking
begin

text \<open>
  The reporting jobs \<open>task_aggregate_queue_metrics\<close> and \<open>task_aggregate_agent_metrics\<close> of \<open>apps/support/tasks.py\<close>,
  which run after midnight and write the numbers of the day before.  \<open>local_date\<close> is the date of an instant in the
  time zone of the project, a day is its number.  Waiting and handling times are exact microseconds and averages
  rational numbers; the rounding of the columns to two decimals and of the floats is left out.
\<close>

section \<open>Statistics\<close>

definition average :: "int list \<Rightarrow> rat option" where
  "average xs = (if xs = [] then None else Some (of_int (sum_list xs) / of_nat (length xs)))"

text \<open>For counts below 2 to the 50th \<open>int(n * 0.95)\<close> is the floor of the exact product.\<close>

definition p50_of :: "int list \<Rightarrow> int option" where
  "p50_of ws = (if ws = [] then None else Some (ws ! (length ws div 2)))"

definition p95_of :: "int list \<Rightarrow> int option" where
  "p95_of ws = (if ws = [] then None else Some (ws ! min (19 * length ws div 20) (length ws - 1)))"

fun bump :: "'k \<Rightarrow> ('k \<times> nat) list \<Rightarrow> ('k \<times> nat) list" where
  "bump k [] = [(k, 1)]"
| "bump k ((j, n) # m) = (if j = k then (j, Suc n) # m else (j, n) # bump k m)"

definition tally :: "'k list \<Rightarrow> ('k \<times> nat) list" where
  "tally ks = fold bump ks []"

section \<open>The assignments of a day\<close>

datatype assignment_key = Of_Cycle uuid | Legacy nat

record day_row =
  dy_cycle :: "uuid option"
  dy_owner :: "int option"
  dy_wait :: "int option"

definition on_day :: "(instant \<Rightarrow> int) \<Rightarrow> int \<Rightarrow> instant option \<Rightarrow> bool" where
  "on_day local_date day t \<longleftrightarrow> (case t of None \<Rightarrow> False | Some t' \<Rightarrow> local_date t' = day)"

definition assigned_on :: "(instant \<Rightarrow> int) \<Rightarrow> int \<Rightarrow> db \<Rightarrow> day_row list" where
  "assigned_on local_date day d =
     map (\<lambda>r. \<lparr>dy_cycle = as_cycle r, dy_owner = Some (as_owner r), dy_wait = as_wait r\<rparr>)
       (filter (\<lambda>r. on_day local_date day (as_assigned_at r)) (db_assigned d))"

definition closed_after_day :: "(instant \<Rightarrow> int) \<Rightarrow> int \<Rightarrow> db \<Rightarrow> day_row list" where
  "closed_after_day local_date day d =
     map (\<lambda>r. \<lparr>dy_cycle = cl_cycle r, dy_owner = cl_owner r, dy_wait = cl_wait r\<rparr>)
       (filter (\<lambda>r. on_day local_date day (cl_assigned_at r)) (db_closed d))"

text \<open>The first row of an attendance stands for it; a row without one stands for itself, by its position.\<close>

definition row_key :: "nat \<Rightarrow> day_row \<Rightarrow> assignment_key" where
  "row_key position r = (case dy_cycle r of None \<Rightarrow> Legacy position | Some c \<Rightarrow> Of_Cycle c)"

fun by_cycle :: "nat \<Rightarrow> day_row list \<Rightarrow> (assignment_key \<times> day_row) list \<Rightarrow> (assignment_key \<times> day_row) list" where
  "by_cycle position [] m = m"
| "by_cycle position (r # rs) m =
     (let k = row_key position r in by_cycle (Suc position) rs (if k \<in> fst ` set m then m else m @ [(k, r)]))"

definition day_assignments :: "settings \<Rightarrow> (instant \<Rightarrow> int) \<Rightarrow> int \<Rightarrow> db \<Rightarrow> day_row list" where
  "day_assignments cfg local_date day d =
     (if provider_contract_mode cfg = Contract_Enforce
      then map snd (by_cycle 0 (assigned_on local_date day d @ closed_after_day local_date day d) [])
      else assigned_on local_date day d)"

definition waits_of :: "day_row list \<Rightarrow> int list" where
  "waits_of rows = sort (map (the \<circ> dy_wait) (filter (\<lambda>r. dy_wait r \<noteq> None) rows))"

definition entered_on :: "settings \<Rightarrow> (instant \<Rightarrow> int) \<Rightarrow> int \<Rightarrow> db \<Rightarrow> nat" where
  "entered_on cfg local_date day d =
     (if provider_contract_mode cfg = Contract_Enforce
      then count_rows (\<lambda>c. on_day local_date day (cy_entered_at c)) (db_cycles d) +
           count_rows (\<lambda>q. nc_cycle q = None \<and> local_date (nc_entered_at q) = day) (db_queue d)
      else count_rows (\<lambda>q. local_date (nc_entered_at q) = day) (db_queue d))"

definition daily_cycle_ids :: "(instant \<Rightarrow> int) \<Rightarrow> int \<Rightarrow> (assignment_key \<times> day_row) list \<Rightarrow> db \<Rightarrow> uuid list" where
  "daily_cycle_ids local_date day m d =
     remdups (List.map_filter (\<lambda>(k, _). case k of Of_Cycle c \<Rightarrow> Some c | Legacy _ \<Rightarrow> None) m @
       List.map_filter (\<lambda>l. if local_date (lg_assigned_at l) = day then lg_cycle l else None) (db_logs d))"

definition owners_of_day :: "settings \<Rightarrow> (instant \<Rightarrow> int) \<Rightarrow> int \<Rightarrow> db \<Rightarrow> webhook_event list \<Rightarrow> int list" where
  "owners_of_day cfg local_date day d es =
     (if provider_contract_mode cfg = Contract_Enforce
      then (let m = by_cycle 0 (assigned_on local_date day d @ closed_after_day local_date day d) []
            in map snd (remdups (map (\<lambda>(c, o'). (Of_Cycle c, o')) (attributed_agent_cycles (Some (daily_cycle_ids local_date day m d)) d es) @
                 List.map_filter (\<lambda>(k, r). case k of Of_Cycle _ \<Rightarrow> None | Legacy _ \<Rightarrow> map_option (Pair k) (dy_owner r)) m)))
      else List.map_filter dy_owner (assigned_on local_date day d))"

section \<open>The metrics of the queue\<close>

record queue_metrics =
  qm_date :: int
  qm_entered :: nat
  qm_assigned :: nat
  qm_closed :: nat
  qm_avg :: "rat option"
  qm_min :: "int option"
  qm_max :: "int option"
  qm_p50 :: "int option"
  qm_p95 :: "int option"
  qm_handle :: "rat option"
  qm_agents :: "(int \<times> nat) list"

definition queue_metrics_of :: "settings \<Rightarrow> (instant \<Rightarrow> int) \<Rightarrow> int \<Rightarrow> db \<Rightarrow> webhook_event list \<Rightarrow> queue_metrics" where
  "queue_metrics_of cfg local_date day d es =
     (let rows = day_assignments cfg local_date day d;
          ws = waits_of rows;
          closed = filter (\<lambda>r. local_date (cl_closed_at r) = day) (db_closed d)
      in \<lparr>qm_date = day, qm_entered = entered_on cfg local_date day d, qm_assigned = length rows, qm_closed = length closed,
          qm_avg = average ws, qm_min = (if ws = [] then None else Some (hd ws)), qm_max = (if ws = [] then None else Some (last ws)),
          qm_p50 = p50_of ws, qm_p95 = p95_of ws, qm_handle = average (List.map_filter cl_handle closed),
          qm_agents = tally (owners_of_day cfg local_date day d es)\<rparr>)"

text \<open>\<open>update_or_create\<close> under the unique date.\<close>

definition store_queue_metrics :: "queue_metrics \<Rightarrow> queue_metrics list \<Rightarrow> queue_metrics list" where
  "store_queue_metrics m ms =
     (if qm_date m \<in> qm_date ` set ms then map (\<lambda>x. if qm_date x = qm_date m then m else x) ms else ms @ [m])"

definition task_aggregate_queue_metrics ::
  "settings \<Rightarrow> (instant \<Rightarrow> int) \<Rightarrow> instant \<Rightarrow> db \<Rightarrow> webhook_event list \<Rightarrow> queue_metrics list \<Rightarrow> queue_metrics list" where
  "task_aggregate_queue_metrics cfg local_date now d es ms =
     store_queue_metrics (queue_metrics_of cfg local_date (local_date now - 1) d es) ms"

section \<open>The metrics of the agents\<close>

record agent_metrics =
  am_agent :: int
  am_total :: nat
  am_closed :: nat
  am_handle_min :: rat
  am_wait_min :: rat
  am_online :: rat
  am_away :: rat
  am_updated :: instant

definition or_zero :: "rat option \<Rightarrow> rat" where
  "or_zero x = (case x of None \<Rightarrow> 0 | Some y \<Rightarrow> y)"

definition automatic_type :: "string \<Rightarrow> bool" where
  "automatic_type t \<longleftrightarrow> t \<in> {''automatic'', ''automatic_assignment''}"

definition handled_by :: "settings \<Rightarrow> db \<Rightarrow> webhook_event list \<Rightarrow> agent \<Rightarrow> nat" where
  "handled_by cfg d es a =
     (let mine = (\<lambda>r. cl_agent r = Some (ag_pk a)); auto = (\<lambda>l. lg_agent l = Some (ag_pk a) \<and> automatic_type (lg_type l))
      in if provider_contract_mode cfg = Contract_Enforce
         then length (filter (\<lambda>(_, o'). o' = ag_owner a) (remdups (attributed_agent_cycles None d es))) +
              count_rows (\<lambda>r. mine r \<and> cl_cycle r = None) (db_closed d) + count_rows (\<lambda>l. auto l \<and> lg_cycle l = None) (db_logs d)
         else count_rows mine (db_closed d) + count_rows auto (db_logs d))"

definition agent_metrics_of ::
  "settings \<Rightarrow> instant \<Rightarrow> int \<Rightarrow> db \<Rightarrow> webhook_event list \<Rightarrow> daily_log list \<Rightarrow> agent \<Rightarrow> agent_metrics" where
  "agent_metrics_of cfg now yesterday d es logs a =
     (let closed = filter (\<lambda>r. cl_agent r = Some (ag_pk a)) (db_closed d);
          days = filter (\<lambda>l. dl_agent l = ag_pk a \<and> yesterday - 30 \<le> dl_date l) logs
      in \<lparr>am_agent = ag_owner a, am_total = handled_by cfg d es a, am_closed = length closed,
          am_handle_min = or_zero (average (List.map_filter cl_handle closed)) / of_int (seconds 60),
          am_wait_min = or_zero (average (List.map_filter cl_wait closed)) / of_int (seconds 60),
          am_online = or_zero (average (map dl_online days)), am_away = or_zero (average (map dl_away days)), am_updated = now\<rparr>)"

text \<open>\<open>agent_id\<close> is not unique: two rows of an agent end the job.  The answer says whether the row was created.\<close>

definition upsert_agent_metrics :: "agent_metrics \<Rightarrow> agent_metrics list \<Rightarrow> (agent_metrics list \<times> bool) result" where
  "upsert_agent_metrics m ms =
     (case filter (\<lambda>x. am_agent x = am_agent m) ms of
        [] \<Rightarrow> Inr (ms @ [m], True)
      | [_] \<Rightarrow> Inr (map (\<lambda>x. if am_agent x = am_agent m then m else x) ms, False)
      | _ \<Rightarrow> Inl MultipleObjectsReturned)"

record agent_report =
  ap_updated :: nat
  ap_skipped :: nat

fun report_agents :: "(agent \<Rightarrow> agent_metrics) \<Rightarrow> agent list \<Rightarrow> agent_report \<Rightarrow> agent_metrics list \<Rightarrow> agent_metrics list \<times> agent_report result" where
  "report_agents f [] n ms = (ms, Inr n)"
| "report_agents f (a # as) n ms =
     (case upsert_agent_metrics (f a) ms of
        Inl e \<Rightarrow> (ms, Inl e)
      | Inr (ms', upserted) \<Rightarrow>
          report_agents f as (if upserted then n\<lparr>ap_updated := Suc (ap_updated n)\<rparr> else n\<lparr>ap_skipped := Suc (ap_skipped n)\<rparr>) ms')"

definition task_aggregate_agent_metrics ::
  "settings \<Rightarrow> (instant \<Rightarrow> int) \<Rightarrow> instant \<Rightarrow> db \<Rightarrow> webhook_event list \<Rightarrow> daily_log list \<Rightarrow> agent_metrics list \<Rightarrow> agent_metrics list \<times> agent_report result" where
  "task_aggregate_agent_metrics cfg local_date now d es logs ms =
     report_agents (agent_metrics_of cfg now (local_date now - 1) d es logs) (filter (\<lambda>a. ag_is_active a \<noteq> Some False) (db_agents d))
       \<lparr>ap_updated = 0, ap_skipped = 0\<rparr> ms"

section \<open>What the statistics say\<close>

lemma bump_keys: "fst ` set (bump k m) = insert k (fst ` set m)"
  by (induction k m rule: bump.induct) auto

lemma bump_total: "sum_list (map snd (bump k m)) = Suc (sum_list (map snd m))"
  by (induction k m rule: bump.induct) auto

lemma bump_lookup: "map_of (bump k m) j = (if j = k then Some (case map_of m k of None \<Rightarrow> 1 | Some n \<Rightarrow> Suc n) else map_of m j)"
  by (induction k m rule: bump.induct) auto

lemma tally_fold_total: "sum_list (map snd (fold bump ks m)) = sum_list (map snd m) + length ks"
  by (induction ks arbitrary: m) (simp_all add: bump_total)

lemma tally_fold_lookup:
  "map_of (fold bump ks m) j =
     (if j \<in> set ks then Some (count_list ks j + (case map_of m j of None \<Rightarrow> 0 | Some n \<Rightarrow> n)) else map_of m j)"
proof (induction ks arbitrary: m)
  case (Cons k ks)
  have "j \<notin> set ks \<Longrightarrow> count_list ks j = 0" by (simp add: count_list_0_iff)
  then show ?case using Cons.IH [of "bump k m"] by (simp add: bump_lookup split: option.split)
qed simp

lemma tally_total: "sum_list (map snd (tally ks)) = length ks"
  by (simp add: tally_def tally_fold_total)

lemma tally_lookup: "map_of (tally ks) j = (if j \<in> set ks then Some (count_list ks j) else None)"
  by (simp add: tally_def tally_fold_lookup)

lemma sum_bounds:
  fixes xs :: "int list"
  assumes "\<forall>x \<in> set xs. l \<le> x \<and> x \<le> u"
  shows "int (length xs) * l \<le> sum_list xs \<and> sum_list xs \<le> int (length xs) * u"
  using assms by (induction xs) (auto simp: algebra_simps)

lemma average_bounds:
  assumes "xs \<noteq> []" and "\<forall>x \<in> set xs. l \<le> x \<and> x \<le> u"
  obtains a where "average xs = Some a" "of_int l \<le> a" "a \<le> of_int u"
proof -
  have n: "(0::rat) < of_nat (length xs)" using assms(1) by simp
  have "rat_of_int (int (length xs) * l) \<le> of_int (sum_list xs)" "rat_of_int (sum_list xs) \<le> of_int (int (length xs) * u)"
    using sum_bounds [OF assms(2)] by (simp_all only: of_int_le_iff)
  then have "of_int l \<le> rat_of_int (sum_list xs) / of_nat (length xs)" "rat_of_int (sum_list xs) / of_nat (length xs) \<le> of_int u"
    using n by (simp_all add: field_simps)
  then show thesis using that assms(1) by (simp add: average_def)
qed

text \<open>In a sorted list the values up to an index are at most the value there.\<close>

lemma values_up_to:
  assumes "sorted ws" and "k < length ws"
  shows "Suc k \<le> length (filter (\<lambda>w. w \<le> ws ! k) ws)"
proof -
  have all: "\<forall>w \<in> set (take (Suc k) ws). w \<le> ws ! k"
    using assms by (auto simp: in_set_conv_nth less_Suc_eq_le sorted_iff_nth_mono)
  have "Suc k = length (filter (\<lambda>w. w \<le> ws ! k) (take (Suc k) ws))"
    using assms(2) all by (simp add: filter_True [OF all] min_def)
  also have "\<dots> \<le> length (filter (\<lambda>w. w \<le> ws ! k) (take (Suc k) ws @ drop (Suc k) ws))" unfolding filter_append by simp
  finally show ?thesis by simp
qed

lemma within_block: "0 < k \<Longrightarrow> n \<le> k * Suc (n div k)" for n k :: nat
  using dividend_less_times_div [of k n] by simp

text \<open>The order of the figures of a day, and what the percentiles promise.\<close>

definition figures_agree :: "int list \<Rightarrow> queue_metrics \<Rightarrow> bool" where
  "figures_agree ws m \<longleftrightarrow>
     (case (qm_min m, qm_p50 m, qm_p95 m, qm_max m, qm_avg m) of
        (Some lo, Some mid, Some most, Some hi, Some avg) \<Rightarrow>
          lo \<le> mid \<and> mid \<le> most \<and> most \<le> hi \<and> of_int lo \<le> avg \<and> avg \<le> of_int hi \<and> (\<forall>w \<in> set ws. lo \<le> w \<and> w \<le> hi) \<and>
          length ws \<le> 2 * count_rows (\<lambda>w. w \<le> mid) ws \<and> 19 * length ws \<le> 20 * count_rows (\<lambda>w. w \<le> most) ws
      | (None, None, None, None, None) \<Rightarrow> ws = []
      | _ \<Rightarrow> False)"

lemma statistics_agree:
  assumes "sorted ws" and "qm_avg m = average ws" and "qm_min m = (if ws = [] then None else Some (hd ws))"
    and "qm_max m = (if ws = [] then None else Some (last ws))" and "qm_p50 m = p50_of ws" and "qm_p95 m = p95_of ws"
  shows "figures_agree ws m"
proof (cases "ws = []")
  case True
  then show ?thesis using assms by (simp add: figures_agree_def average_def p50_of_def p95_of_def)
next
  case False
  let ?n = "length ws" let ?i = "?n div 2" let ?j = "min (19 * ?n div 20) (?n - 1)"
  have n: "0 < ?n" using False by simp
  have less: "19 * ?n div 20 < ?n" using n by (simp add: less_mult_imp_div_less)
  then have j: "?j = 19 * ?n div 20" by simp
  have ij: "?i \<le> ?j" "?i < ?n" "?j < ?n" "?n \<le> 2 * Suc ?i" "19 * ?n \<le> 20 * Suc ?j" 
    using n less within_block [of 2 ?n] within_block [of 20 "19 * ?n"] unfolding j by simp_all
  have all: "\<forall>w \<in> set ws. ws ! 0 \<le> w \<and> w \<le> ws ! (?n - 1)"
    using assms(1) n by (auto simp: in_set_conv_nth sorted_iff_nth_mono)
  obtain a where a: "average ws = Some a" "of_int (ws ! 0) \<le> a" "a \<le> of_int (ws ! (?n - 1))" using average_bounds [OF False all] .
  have ends: "hd ws = ws ! 0" "last ws = ws ! (?n - 1)" using False by (simp_all add: hd_conv_nth last_conv_nth)
  have "ws ! 0 \<le> ws ! ?i" "ws ! ?i \<le> ws ! ?j" "ws ! ?j \<le> ws ! (?n - 1)" using assms(1) ij by (auto intro!: sorted_nth_mono)
  moreover have "?n \<le> 2 * count_rows (\<lambda>w. w \<le> ws ! ?i) ws" "19 * ?n \<le> 20 * count_rows (\<lambda>w. w \<le> ws ! ?j) ws"
    using values_up_to [OF assms(1) ij(2)] values_up_to [OF assms(1) ij(3)] ij(4,5) unfolding count_rows_def by linarith+
  ultimately show ?thesis
    using False assms(2-) a all ends by (simp add: figures_agree_def p50_of_def p95_of_def)
qed

section \<open>One row for a day\<close>

lemma by_cycle_keys:
  "distinct (map fst m) \<Longrightarrow> distinct (map fst (by_cycle i rs m)) \<and>
     fst ` set (by_cycle i rs m) = fst ` set m \<union> (\<lambda>(j, r). row_key j r) ` set (enumerate i rs)"
proof (induction i rs m rule: by_cycle.induct)
  case (2 i r rs m)
  then show ?case by (cases "row_key i r \<in> fst ` set m") (auto simp: Let_def)
qed simp

text \<open>Each attendance of the day is counted once, however many rows carry it.\<close>

lemma cycles_counted_once:
  assumes "provider_contract_mode cfg = Contract_Enforce"
  shows "length (day_assignments cfg local_date day d) =
    card ((\<lambda>(j, r). row_key j r) ` set (enumerate 0 (assigned_on local_date day d @ closed_after_day local_date day d)))"
proof -
  let ?m = "by_cycle 0 (assigned_on local_date day d @ closed_after_day local_date day d) []"
  have "distinct (map fst ?m)" "fst ` set ?m = (\<lambda>(j, r). row_key j r) ` set (enumerate 0 (assigned_on local_date day d @ closed_after_day local_date day d))"
    using by_cycle_keys [of "[]" 0 "assigned_on local_date day d @ closed_after_day local_date day d"] by simp_all
  then show ?thesis using assms distinct_card [of "map fst ?m"] by (simp add: day_assignments_def)
qed

lemma store_metrics_rows:
  assumes "distinct (map qm_date ms)"
  shows "distinct (map qm_date (store_queue_metrics m ms))"
    "filter (\<lambda>x. qm_date x = qm_date m) (store_queue_metrics m ms) = [m]"
    "filter (\<lambda>x. qm_date x \<noteq> qm_date m) (store_queue_metrics m ms) = filter (\<lambda>x. qm_date x \<noteq> qm_date m) ms"
proof -
  have dates: "map qm_date (map (\<lambda>x. if qm_date x = qm_date m then m else x) ms) = map qm_date ms" by simp
  show "distinct (map qm_date (store_queue_metrics m ms))"
    using assms by (auto simp: store_queue_metrics_def dates simp del: map_map)
  show "filter (\<lambda>x. qm_date x = qm_date m) (store_queue_metrics m ms) = [m]"
  proof (cases "qm_date m \<in> qm_date ` set ms")
    case True
    have "filter (\<lambda>x. qm_date x = qm_date m) (map (\<lambda>x. if qm_date x = qm_date m then m else x) ms) = [m]"
      using True assms
    proof (induction ms)
      case (Cons x ms)
      show ?case
      proof (cases "qm_date x = qm_date m")
        case same: True
        then have "\<forall>y \<in> set ms. qm_date y \<noteq> qm_date m" using Cons.prems(2) by (auto simp: image_iff)
        then show ?thesis using same by (auto simp: filter_empty_conv)
      next
        case False
        then show ?thesis using Cons by auto
      qed
    qed simp
    then show ?thesis using True by (simp add: store_queue_metrics_def)
  next
    case False
    then have "\<forall>x \<in> set ms. qm_date x \<noteq> qm_date m" by (metis image_eqI)
    then show ?thesis using False by (simp add: store_queue_metrics_def filter_empty_conv)
  qed
  show "filter (\<lambda>x. qm_date x \<noteq> qm_date m) (store_queue_metrics m ms) = filter (\<lambda>x. qm_date x \<noteq> qm_date m) ms"
  proof -
    have "filter (\<lambda>x. qm_date x \<noteq> qm_date m) (map (\<lambda>x. if qm_date x = qm_date m then m else x) ms) = filter (\<lambda>x. qm_date x \<noteq> qm_date m) ms"
      by (induction ms) auto
    then show ?thesis by (simp add: store_queue_metrics_def)
  qed
qed

lemma store_metrics_twice: "store_queue_metrics m (store_queue_metrics m ms) = store_queue_metrics m ms"
proof (cases "qm_date m \<in> qm_date ` set ms")
  case True
  moreover from this have "qm_date m \<in> qm_date ` set (map (\<lambda>x. if qm_date x = qm_date m then m else x) ms)"
    by (auto simp: image_iff)
  ultimately show ?thesis by (simp add: store_queue_metrics_def)
next
  case False
  then have "map (\<lambda>x. if qm_date x = qm_date m then m else x) ms = ms" by (intro map_idI) (metis image_eqI)
  then show ?thesis using False by (simp add: store_queue_metrics_def)
qed

lemma owners_counted:
  assumes "provider_contract_mode cfg \<noteq> Contract_Enforce"
  shows "length (owners_of_day cfg local_date day d es) = length (day_assignments cfg local_date day d)"
proof -
  have "length (List.map_filter dy_owner rs) = length rs" if "\<forall>r \<in> set rs. dy_owner r \<noteq> None" for rs
    using that by (induction rs) (auto simp: List.map_filter_def)
  from this [of "assigned_on local_date day d"] show ?thesis
    using assms by (simp add: owners_of_day_def day_assignments_def) (simp add: assigned_on_def)
qed

text \<open>C22: the daily metrics of the queue are consistent.  The job leaves exactly one row for yesterday and touches no
  other day, and running it again on the same tables changes nothing.  The figures of the row are ordered (minimum, median,
  95th percentile, maximum, with the average between the ends) or all missing when no waiting time is known; at least half of
  the known waits are at most the stored median and at least 95 percent at most the stored percentile.  Under the enforced
  contract every attendance assigned that day is counted once, however many rows carry it; otherwise the counts of
  the agents add up to the assignments.\<close>

theorem daily_metrics_consistent:
  assumes "distinct (map qm_date ms)"
  shows "let day = local_date now - 1; ms' = task_aggregate_queue_metrics cfg local_date now d es ms
    in \<exists>m. filter (\<lambda>x. qm_date x = day) ms' = [m] \<and> filter (\<lambda>x. qm_date x \<noteq> day) ms' = filter (\<lambda>x. qm_date x \<noteq> day) ms \<and>
      task_aggregate_queue_metrics cfg local_date now d es ms' = ms' \<and>
      figures_agree (waits_of (day_assignments cfg local_date day d)) m \<and>
      (if provider_contract_mode cfg = Contract_Enforce
       then qm_assigned m =
         card ((\<lambda>(j, r). row_key j r) ` set (enumerate 0 (assigned_on local_date day d @ closed_after_day local_date day d)))
       else sum_list (map snd (qm_agents m)) = qm_assigned m)"
proof -
  let ?day = "local_date now - 1" let ?m = "queue_metrics_of cfg local_date (local_date now - 1) d es"
  have day: "qm_date ?m = ?day" by (simp add: queue_metrics_of_def Let_def)
  have "figures_agree (waits_of (day_assignments cfg local_date ?day d)) ?m"
    by (rule statistics_agree) (simp_all add: queue_metrics_of_def waits_of_def Let_def)
  moreover have "if provider_contract_mode cfg = Contract_Enforce
      then qm_assigned ?m = card ((\<lambda>(j, r). row_key j r) ` set (enumerate 0 (assigned_on local_date ?day d @ closed_after_day local_date ?day d)))
      else sum_list (map snd (qm_agents ?m)) = qm_assigned ?m"
    using cycles_counted_once [of cfg local_date ?day d] owners_counted [of cfg local_date ?day d es]
    by (simp add: queue_metrics_of_def Let_def tally_total)
  ultimately show ?thesis
    using store_metrics_rows(2,3) [OF assms, of ?m] store_metrics_twice [of ?m ms]
    unfolding Let_def task_aggregate_queue_metrics_def day by blast
qed

section \<open>The report of the agents\<close>

lemma sole_element: "set xs = {x} \<Longrightarrow> distinct xs \<Longrightarrow> xs = [x]"
  by (cases xs; cases "tl xs") auto

lemma upsert_rows:
  assumes "distinct (map am_agent ms)"
  shows "\<exists>ms'. upsert_agent_metrics m ms = Inr (ms', am_agent m \<notin> am_agent ` set ms) \<and> distinct (map am_agent ms') \<and>
    am_agent ` set ms' = insert (am_agent m) (am_agent ` set ms) \<and> m \<in> set ms' \<and>
    (\<forall>x. am_agent x \<noteq> am_agent m \<longrightarrow> (x \<in> set ms' \<longleftrightarrow> x \<in> set ms))"
proof (cases "am_agent m \<in> am_agent ` set ms")
  case False
  then have "filter (\<lambda>x. am_agent x = am_agent m) ms = []" by (simp add: filter_empty_conv) (metis image_eqI)
  then show ?thesis using False assms by (auto simp: upsert_agent_metrics_def)
next
  case True
  then obtain x where x: "x \<in> set ms" "am_agent x = am_agent m" by auto
  have "y = x" if "y \<in> set ms" "am_agent y = am_agent m" for y
    using assms x that by (auto simp: distinct_map inj_on_def)
  then have "set (filter (\<lambda>x. am_agent x = am_agent m) ms) = {x}" unfolding set_filter using x by blast
  moreover have "distinct (filter (\<lambda>x. am_agent x = am_agent m) ms)" using assms by (simp add: distinct_map)
  ultimately have one: "filter (\<lambda>x. am_agent x = am_agent m) ms = [x]" by (rule sole_element)
  let ?ms = "map (\<lambda>x. if am_agent x = am_agent m then m else x) ms"
  have agents: "map am_agent ?ms = map am_agent ms" by simp
  have "am_agent ` set ?ms = am_agent ` set ms" using arg_cong [OF agents, of set] by (simp only: set_map)
  moreover have "distinct (map am_agent ?ms)" using assms by (simp only: agents)
  moreover have "m \<in> set ?ms" using x by force
  moreover have "x' \<in> set ?ms \<longleftrightarrow> x' \<in> set ms" if "am_agent x' \<noteq> am_agent m" for x'
    using that by (auto simp: image_iff)
  moreover have "upsert_agent_metrics m ms = Inr (?ms, False)" using one by (simp add: upsert_agent_metrics_def)
  ultimately show ?thesis using True by (intro exI [of _ ?ms]) (simp only: insert_absorb, blast)
qed

text \<open>The answer of the job names the created rows the updated ones and the updated rows the skipped ones.\<close>

lemma report_counts_created:
  assumes "distinct (map am_agent ms)" and "distinct (map (\<lambda>a. am_agent (f a)) as)"
  shows "\<exists>ms' n'. report_agents f as n ms = (ms', Inr n') \<and> (\<forall>a \<in> set as. f a \<in> set ms') \<and> distinct (map am_agent ms') \<and>
    ap_updated n' = ap_updated n + count_rows (\<lambda>a. am_agent (f a) \<notin> am_agent ` set ms) as \<and>
    ap_skipped n' = ap_skipped n + count_rows (\<lambda>a. am_agent (f a) \<in> am_agent ` set ms) as \<and>
    (\<forall>x. am_agent x \<notin> (\<lambda>a. am_agent (f a)) ` set as \<longrightarrow> (x \<in> set ms' \<longleftrightarrow> x \<in> set ms))"
  using assms
proof (induction as arbitrary: n ms)
  case (Cons a as)
  obtain ms1 where up: "upsert_agent_metrics (f a) ms = Inr (ms1, am_agent (f a) \<notin> am_agent ` set ms)" "distinct (map am_agent ms1)"
    "am_agent ` set ms1 = insert (am_agent (f a)) (am_agent ` set ms)" "f a \<in> set ms1"
    "\<forall>x. am_agent x \<noteq> am_agent (f a) \<longrightarrow> (x \<in> set ms1 \<longleftrightarrow> x \<in> set ms)"
    using upsert_rows [OF Cons.prems(1)] by blast
  have as: "distinct (map (\<lambda>a. am_agent (f a)) as)" "am_agent (f a) \<notin> (\<lambda>a. am_agent (f a)) ` set as" using Cons.prems(2) by simp_all
  let ?n = "if am_agent (f a) \<notin> am_agent ` set ms then n\<lparr>ap_updated := Suc (ap_updated n)\<rparr> else n\<lparr>ap_skipped := Suc (ap_skipped n)\<rparr>"
  obtain ms' n' where ih: "report_agents f as ?n ms1 = (ms', Inr n')" "\<forall>a \<in> set as. f a \<in> set ms'" "distinct (map am_agent ms')"
    "ap_updated n' = ap_updated ?n + count_rows (\<lambda>a. am_agent (f a) \<notin> am_agent ` set ms1) as"
    "ap_skipped n' = ap_skipped ?n + count_rows (\<lambda>a. am_agent (f a) \<in> am_agent ` set ms1) as"
    "\<forall>x. am_agent x \<notin> (\<lambda>a. am_agent (f a)) ` set as \<longrightarrow> (x \<in> set ms' \<longleftrightarrow> x \<in> set ms1)"
    using Cons.IH [OF up(2) as(1), of ?n] by blast
  have "am_agent (f b) \<in> am_agent ` set ms1 \<longleftrightarrow> am_agent (f b) \<in> am_agent ` set ms" if "b \<in> set as" for b
    using up(3) as(2) that by (auto simp: image_iff)
  then have counts: "count_rows (\<lambda>a. am_agent (f a) \<in> am_agent ` set ms1) as = count_rows (\<lambda>a. am_agent (f a) \<in> am_agent ` set ms) as"
    "count_rows (\<lambda>a. am_agent (f a) \<notin> am_agent ` set ms1) as = count_rows (\<lambda>a. am_agent (f a) \<notin> am_agent ` set ms) as"
    unfolding count_rows_def by (metis (no_types, lifting) filter_cong)+
  have run: "report_agents f (a # as) n ms = (ms', Inr n')" using ih(1) up(1) by (simp split: if_splits)
  have kept: "f a \<in> set ms'" using ih(6) as(2) up(4) by blast
  have rest: "\<forall>x. am_agent x \<notin> (\<lambda>a. am_agent (f a)) ` set (a # as) \<longrightarrow> (x \<in> set ms' \<longleftrightarrow> x \<in> set ms)"
    using ih(6) up(5) by auto
  have "ap_updated n' = ap_updated n + count_rows (\<lambda>a. am_agent (f a) \<notin> am_agent ` set ms) (a # as)"
    "ap_skipped n' = ap_skipped n + count_rows (\<lambda>a. am_agent (f a) \<in> am_agent ` set ms) (a # as)"
    using ih(4,5) by (simp_all add: counts)
  then show ?case using run kept rest ih(2,3) by (intro exI [of _ ms'] exI [of _ n']) simp
qed simp

section \<open>Witnesses\<close>

text \<open>Attendances of day 0: one with an assigned and a closed row, one closed, and a closed ticket without attendance.\<close>

definition day_closed :: "uuid \<Rightarrow> uuid option \<Rightarrow> int option \<Rightarrow> closed_row" where
  "day_closed k c wait = \<lparr>cl_pk = k, cl_ticket = nat_text k, cl_cycle = c, cl_agent = Some 1, cl_owner = Some 10, cl_agent_name = None,
     cl_pipeline = ''P'', cl_entered_at = Some 0, cl_assigned_at = Some 10, cl_closed_at = 90, cl_closed_by_owner = None,
     cl_closed_by_name = None, cl_wait = wait, cl_handle = Some 80, cl_resolution = None, cl_source = ''agent'',
     cl_contact = (None, None, None, None)\<rparr>"

definition day_assigned :: assigned_row where
  "day_assigned = \<lparr>as_pk = 30, as_ticket = ''30'', as_cycle = Some 7, as_agent = Some 1, as_owner = 10, as_agent_name = [], as_pipeline = ''P'',
     as_entered_at = Some 0, as_assigned_at = Some 20, as_wait = Some 20, as_count = 1, as_contact = (None, None, None, None)\<rparr>"

definition day_db :: db where
  "day_db = empty_db\<lparr>db_agents := [demo_agent 1 10], db_assigned := [day_assigned],
     db_closed := [day_closed 40 (Some 8) (Some 10), day_closed 41 (Some 7) (Some 50), day_closed 42 None (Some 30)]\<rparr>"

definition day_number :: "instant \<Rightarrow> int" where
  "day_number t = t div 100"

definition contract_cfg :: settings where
  "contract_cfg = demo_cfg\<lparr>provider_contract_mode := Contract_Enforce\<rparr>"

theorem daily_metrics_consistent_witness:
  "\<exists>m. filter (\<lambda>x. qm_date x = 0) (task_aggregate_queue_metrics contract_cfg day_number 100 day_db [] []) = [m] \<and>
     figures_agree [10, 20, 30] m \<and> qm_assigned m = 3"
proof -
  let ?keys = "(\<lambda>(j, r). row_key j r) ` set (enumerate 0 (assigned_on day_number 0 day_db @ closed_after_day day_number 0 day_db))"
  have c: "day_number 100 - 1 = 0" "waits_of (day_assignments contract_cfg day_number 0 day_db) = [10, 20, 30]"
    "provider_contract_mode contract_cfg = Contract_Enforce" "card ?keys = 3" by code_simp+
  have d: "distinct (map qm_date [])" by simp
  show ?thesis using daily_metrics_consistent [OF d, of day_number 100 contract_cfg day_db "[]"] unfolding Let_def c by auto
qed

text \<open>Outside the enforced contract a ticket that was assigned and closed on the same day is not counted as assigned.\<close>

lemma closed_assignments_uncounted:
  "qm_assigned (queue_metrics_of demo_cfg day_number 0 day_db []) = 1"
  "qm_assigned (queue_metrics_of demo_cfg day_number 0 (day_db\<lparr>db_assigned := []\<rparr>) []) = 0"
  "count_rows (\<lambda>r. on_day day_number 0 (cl_assigned_at r)) (db_closed day_db) = 3"
proof -
  have c: "length (day_assignments demo_cfg day_number 0 day_db) = 1" "length (day_assignments demo_cfg day_number 0 (day_db\<lparr>db_assigned := []\<rparr>)) = 0"
    by code_simp+
  show "qm_assigned (queue_metrics_of demo_cfg day_number 0 day_db []) = 1"
    "qm_assigned (queue_metrics_of demo_cfg day_number 0 (day_db\<lparr>db_assigned := []\<rparr>) []) = 0"
    using c by (simp_all add: queue_metrics_of_def Let_def)
  show "count_rows (\<lambda>r. on_day day_number 0 (cl_assigned_at r)) (db_closed day_db) = 3" by code_simp
qed

end
